(* ===== verification/Prelude.thy ===== *)
theory Prelude
  imports Main "HOL-Library.Word"
begin

text \<open>
  Shared vocabulary of the development: the machine integer types of the 3B2 compiler
  (32-bit \<open>int\<close>/\<open>long\<close>, 16-bit \<open>short\<close>/\<open>ushort\<close>, unsigned 8-bit \<open>char\<close>), the error numbers a
  system call leaves in \<open>u.u_error\<close>, word arithmetic without wrap-around, and small facts on
  lists that several components use.
\<close>

unbundle bit_operations_syntax

type_synonym u8 = "8 word"
type_synonym u16 = "16 word"
type_synonym u32 = "32 word"

text \<open>A C pointer into a kernel table: the index of the slot, or \<open>None\<close> for \<open>NULL\<close>.\<close>

type_synonym ptr = "nat option"

datatype errno =
    EPERM | ENOENT | EINTR | EBADF | EAGAIN | EACCES | EFAULT | EEXIST | EINVAL
  | EFBIG | ENOSPC | ERANGE | E2BIG | ENOMEM | ENOMSG | EIDRM | EDEADLK | ENOLCK

named_theorems word_nat \<open>word operations read as natural numbers, without wrap-around\<close>
named_theorems kernel_defs \<open>unfolding of the operations of a component\<close>

section \<open>Signed 32-bit arithmetic\<close>

text \<open>The value an \<open>int\<close> variable holds after a computation whose exact result is \<open>x\<close>.\<close>

definition int32 :: "int \<Rightarrow> int" where
  "int32 x = (x + 2147483648) mod 4294967296 - 2147483648"

lemma int32_id: "- 2147483648 \<le> x \<Longrightarrow> x < 2147483648 \<Longrightarrow> int32 x = x"
  by (simp add: int32_def)

lemma int32_bounds: "- 2147483648 \<le> int32 x" "int32 x < 2147483648"
  unfolding int32_def by (smt (verit) pos_mod_bound pos_mod_sign)+

text \<open>What a \<open>short\<close> and an \<open>unsigned short\<close> variable hold after an assignment of \<open>x\<close>.\<close>

definition int16 :: "int \<Rightarrow> int" where
  "int16 x = (x + 32768) mod 65536 - 32768"

definition uint16 :: "int \<Rightarrow> int" where
  "uint16 x = x mod 65536"

lemma int16_id: "- 32768 \<le> x \<Longrightarrow> x < 32768 \<Longrightarrow> int16 x = x"
  by (simp add: int16_def)

lemma int16_bounds: "- 32768 \<le> int16 x" "int16 x < 32768"
  unfolding int16_def by (smt (verit) pos_mod_bound pos_mod_sign)+

lemma uint16_id: "0 \<le> x \<Longrightarrow> x < 65536 \<Longrightarrow> uint16 x = x"
  by (simp add: uint16_def)

lemma uint16_bounds: "0 \<le> uint16 x" "uint16 x < 65536"
  by (simp_all add: uint16_def)

lemma uint16_0 [simp]: "uint16 0 = 0"
  by (simp add: uint16_def)

lemma uint16_of_unsigned: "uint16 (x mod 4294967296) = uint16 x"
  by (simp add: uint16_def mod_mod_cancel)

lemma uint16_cancel: "uint16 (uint16 (x + y) - y) = uint16 x"
  by (simp add: uint16_def mod_diff_left_eq)

section \<open>Words as natural numbers\<close>

lemma unat_plus_exact [word_nat]:
  fixes a b :: "'a::len word"
  assumes "unat a + unat b < 2 ^ LENGTH('a)"
  shows "unat (a + b) = unat a + unat b"
  using assms by (simp add: unat_word_ariths)

lemma unat_minus_exact [word_nat]:
  fixes a b :: "'a::len word"
  assumes "b \<le> a"
  shows "unat (a - b) = unat a - unat b"
  using assms by (rule unat_sub)

lemma unat_pos_iff: "0 < unat (a :: 'a::len word) \<longleftrightarrow> a \<noteq> 0"
  by (simp add: unat_gt_0)

lemma word_le_unat: "a \<le> b \<longleftrightarrow> unat a \<le> unat (b :: 'a::len word)"
  by (rule word_le_nat_alt)

lemma word_less_unat: "a < b \<longleftrightarrow> unat a < unat (b :: 'a::len word)"
  by (rule word_less_nat_alt)

lemma word_eq_unat: "a = b \<longleftrightarrow> unat a = unat (b :: 'a::len word)"
  by (simp add: word_unat_eq_iff)

lemmas word_as_nat = word_le_unat word_less_unat unat_pos_iff

lemma unat_u8: "unat (w :: u8) < 256"
proof -
  have "unat w < 2 ^ LENGTH(8)" by (rule unsigned_less)
  then show ?thesis by simp
qed

lemma unat_u16: "unat (w :: u16) < 65536"
proof -
  have "unat w < 2 ^ LENGTH(16)" by (rule unsigned_less)
  then show ?thesis by simp
qed

lemma unat_u32: "unat (w :: u32) < 4294967296"
proof -
  have "unat w < 2 ^ LENGTH(32)" by (rule unsigned_less)
  then show ?thesis by simp
qed

section \<open>Lists\<close>

lemma replicate_Suc_snoc: "replicate (Suc n) x = replicate n x @ [x]"
  by (induction n) auto

lemma take_drop_insert_length:
  "i \<le> length xs \<Longrightarrow> length (take i xs @ x # drop i xs) = Suc (length xs)"
  by simp

section \<open>Runs of a system\<close>

text \<open>The states a system reaches in exactly \<open>k\<close> steps from one of its start states.\<close>

inductive run_of :: "('s \<Rightarrow> bool) \<Rightarrow> ('s \<Rightarrow> 's \<Rightarrow> bool) \<Rightarrow> nat \<Rightarrow> 's \<Rightarrow> bool" for start step where
  run_start: "start s \<Longrightarrow> run_of start step 0 s"
| run_step: "run_of start step k s \<Longrightarrow> step s s' \<Longrightarrow> run_of start step (Suc k) s'"

inductive_cases run_of_SucE: "run_of start step (Suc k) s"

inductive_simps run_of_0: "run_of start step 0 s"

text \<open>
  An invariant that may depend on the number of steps taken, as long as that is below a bound: what
  a counter of the machine can count.
\<close>

locale bounded_system =
  fixes start :: "'s \<Rightarrow> bool"
    and step :: "'s \<Rightarrow> 's \<Rightarrow> bool"
    and inv :: "nat \<Rightarrow> 's \<Rightarrow> bool"
    and bound :: nat
  assumes start_inv: "start s \<Longrightarrow> inv 0 s"
    and step_inv: "inv k s \<Longrightarrow> k < bound \<Longrightarrow> step s s' \<Longrightarrow> inv (Suc k) s'"
begin

lemma run_inv: "run_of start step k s \<Longrightarrow> k \<le> bound \<Longrightarrow> inv k s"
  by (induction rule: run_of.induct) (auto intro: start_inv step_inv)

lemma run_step_inv: "run_of start step k s \<Longrightarrow> k < bound \<Longrightarrow> step s s' \<Longrightarrow> inv (Suc k) s'"
  by (rule step_inv [OF run_inv]) simp_all

end

end
