(* ===== verification/RMap.thy ===== *)
theory RMap
  imports Prelude
begin

text \<open>
  Resource maps: \<open>malloc\<close> and \<open>mfree\<close> of \<open>uts/3b2/os/malloc.c\<close> over the \<open>struct map\<close> array of
  \<open>sys/map.h\<close>.  Slot 0 of the array is the header (\<open>mapsize\<close>, the number of empty slots, and
  \<open>mapwant\<close>, the sleep flag); the slots from \<open>mapstart\<close> on are the list \<open>mapent\<close>, the whole
  array with its terminator and the unused slots behind it.  A scan that would run off the end
  of the array is \<open>None\<close>.
\<close>

section \<open>The map and its operations\<close>

record ment =
  m_size :: u32
  m_addr :: u32

record rmap =
  mapsize :: u32
  mapwant :: u32
  mapent :: "ment list"

text \<open>
  The compression loop of \<open>malloc\<close> (do-while): each slot takes the contents of the next one, up to
  and including the terminator.  The argument starts at the slot that is overwritten first.
\<close>

fun map_close :: "ment list \<Rightarrow> ment list option" where
  "map_close (x # y # r) =
     (if m_size y = 0 then Some (y # y # r) else map_option ((#) y) (map_close (y # r)))"
| "map_close _ = None"

fun malloc_scan :: "ment list \<Rightarrow> u32 \<Rightarrow> (u32 \<times> ment list \<times> bool) option" where
  "malloc_scan [] n = None"
| "malloc_scan (b # r) n =
     (if m_size b = 0 then Some (0, b # r, False)
      else if n \<le> m_size b then
        (let a = m_addr b;
             b' = b\<lparr>m_addr := m_addr b + n, m_size := m_size b - n\<rparr>
         in if m_size b' = 0 then map_option (\<lambda>r'. (a, r', True)) (map_close (b' # r))
            else Some (a, b' # r, False))
      else map_option (\<lambda>(a, r', c). (a, b # r', c)) (malloc_scan r n))"

definition malloc :: "rmap \<Rightarrow> u32 \<Rightarrow> (u32 \<times> rmap) option" where
  "malloc mp n =
     (if n = 0 then Some (0, mp)
      else case malloc_scan (mapent mp) n of
        None \<Rightarrow> None
      | Some (a, es, closed) \<Rightarrow>
          Some (a, mp\<lparr>mapent := es, mapsize := (if closed then mapsize mp + 1 else mapsize mp)\<rparr>))"

text \<open>The search loop of \<open>mfree\<close>: the slots passed over, and the array from \<open>bp\<close> on.\<close>

fun mfree_find :: "u32 \<Rightarrow> ment list \<Rightarrow> (ment list \<times> ment list) option" where
  "mfree_find a [] = None"
| "mfree_find a (b # r) =
     (if m_addr b \<le> a \<and> m_size b \<noteq> 0
      then map_option (\<lambda>(p, s). (b # p, s)) (mfree_find a r)
      else Some ([], b # r))"

text \<open>The compression loop of \<open>mfree\<close> (while), from the slot \<open>bp\<close> that was merged away.\<close>

fun mfree_close :: "ment list \<Rightarrow> ment list option" where
  "mfree_close (b # c # r) =
     (if m_size b = 0 then Some (b # c # r) else map_option ((#) c) (mfree_close (c # r)))"
| "mfree_close [b] = (if m_size b = 0 then Some [b] else None)"
| "mfree_close [] = None"

text \<open>The insertion loop of \<open>mfree\<close>: shift every slot up by one until the terminator is passed.\<close>

fun mfree_insert :: "u32 \<Rightarrow> u32 \<Rightarrow> ment list \<Rightarrow> ment list option" where
  "mfree_insert n a [] = None"
| "mfree_insert n a (b # r) =
     (if m_size b = 0 then Some (\<lparr>m_size = n, m_addr = a\<rparr> # r)
      else map_option ((#) \<lparr>m_size = n, m_addr = a\<rparr>) (mfree_insert (m_size b) (m_addr b) r))"

text \<open>
  The outcome of \<open>mfree\<close>: the new map and whether \<open>wakeup(mp)\<close> was called, or the unchanged map
  when no slot was left and the units are lost.
\<close>

datatype mfree_result = MFreed rmap bool | MLost rmap

definition mfree_wake :: "rmap \<Rightarrow> mfree_result" where
  "mfree_wake mp = (if mapwant mp \<noteq> 0 then MFreed (mp\<lparr>mapwant := 0\<rparr>) True else MFreed mp False)"

definition mfree :: "rmap \<Rightarrow> u32 \<Rightarrow> u32 \<Rightarrow> mfree_result option" where
  "mfree mp n a =
     (if n = 0 then Some (MFreed mp False)
      else case mfree_find a (mapent mp) of
        None \<Rightarrow> None
      | Some (p, []) \<Rightarrow> None
      | Some (p, b # r) \<Rightarrow>
          if p \<noteq> [] \<and> m_addr (last p) + m_size (last p) = a then
            (let q = (last p)\<lparr>m_size := m_size (last p) + n\<rparr> in
             if m_addr b \<noteq> 0 \<and> a + n = m_addr b then
               (let q' = q\<lparr>m_size := m_size q + m_size b\<rparr> in
                case mfree_close (b # r) of
                  None \<Rightarrow> None
                | Some s \<Rightarrow>
                    Some (mfree_wake (mp\<lparr>mapent := butlast p @ q' # s, mapsize := mapsize mp + 1\<rparr>)))
             else Some (mfree_wake (mp\<lparr>mapent := butlast p @ q # b # r\<rparr>)))
          else if a + n = m_addr b \<and> m_size b \<noteq> 0 then
            Some (mfree_wake (mp\<lparr>mapent :=
              p @ b\<lparr>m_addr := m_addr b - n, m_size := m_size b + n\<rparr> # r\<rparr>))
          else if mapsize mp = 0 then Some (MLost mp)
          else (case mfree_insert n a (b # r) of
                  None \<Rightarrow> None
                | Some s \<Rightarrow> Some (mfree_wake (mp\<lparr>mapent := p @ s, mapsize := mapsize mp - 1\<rparr>))))"

definition mapinit :: "rmap \<Rightarrow> u32 \<Rightarrow> rmap" where
  "mapinit mp y = mp\<lparr>mapsize := y - 2\<rparr>"

section \<open>Abstraction and invariant\<close>

abbreviation ent_lo :: "ment \<Rightarrow> nat" where "ent_lo e \<equiv> unat (m_addr e)"
abbreviation ent_hi :: "ment \<Rightarrow> nat" where "ent_hi e \<equiv> unat (m_addr e) + unat (m_size e)"

definition zero_ent :: ment where
  "zero_ent = \<lparr>m_size = 0, m_addr = 0\<rparr>"

lemma zero_ent_sel [simp]: "m_size zero_ent = 0" "m_addr zero_ent = 0"
  by (simp_all add: zero_ent_def)

definition ent_units :: "ment \<Rightarrow> nat set" where
  "ent_units e = {ent_lo e ..< ent_hi e}"

definition units :: "ment list \<Rightarrow> nat set" where
  "units es = (\<Union>e \<in> set es. ent_units e)"

lemma units_simps [simp]:
  "units [] = {}" "units (e # es) = ent_units e \<union> units es" "units (es @ fs) = units es \<union> units fs"
  by (auto simp: units_def)

lemma ent_units_zero [simp]: "ent_units zero_ent = {}"
  by (simp add: ent_units_def)

lemma units_zeros [simp]: "units (replicate k zero_ent) = {}"
  by (auto simp: units_def)

fun live_ok :: "nat \<Rightarrow> ment list \<Rightarrow> bool" where
  "live_ok lb [] \<longleftrightarrow> True"
| "live_ok lb (e # r) \<longleftrightarrow>
     lb < ent_lo e \<and> m_size e \<noteq> 0 \<and> ent_hi e < 2 ^ 32 \<and> live_ok (ent_hi e) r"

definition rmap_rep :: "rmap \<Rightarrow> ment list \<Rightarrow> nat \<Rightarrow> bool" where
  "rmap_rep mp live k \<longleftrightarrow>
     mapent mp = live @ replicate (Suc k) zero_ent \<and> live_ok 0 live \<and>
     unat (mapsize mp) = k \<and> length (mapent mp) < 2 ^ 32"

definition rmap_ok :: "rmap \<Rightarrow> bool" where
  "rmap_ok mp \<longleftrightarrow> (\<exists>live k. rmap_rep mp live k)"

definition free_units :: "rmap \<Rightarrow> nat set" where
  "free_units mp = units (mapent mp)"

lemma free_units_rep: "rmap_rep mp live k \<Longrightarrow> free_units mp = units live"
  by (simp add: free_units_def rmap_rep_def del: replicate.simps)

lemma live_ok_mono: "live_ok lb es \<Longrightarrow> lb' \<le> lb \<Longrightarrow> live_ok lb' es"
  by (cases es) auto

lemma live_ok_units_gt: "live_ok lb es \<Longrightarrow> x \<in> units es \<Longrightarrow> lb < x \<and> x < 2 ^ 32"
proof (induction es arbitrary: lb)
  case (Cons e es)
  then show ?case by (fastforce simp: ent_units_def)
qed simp

definition top_of :: "nat \<Rightarrow> ment list \<Rightarrow> nat" where
  "top_of lb es = (if es = [] then lb else ent_hi (last es))"

lemma top_of_simps [simp]: "top_of lb [] = lb" "top_of lb (es @ [e]) = ent_hi e"
  by (simp_all add: top_of_def)

lemma live_ok_append:
  "live_ok lb (xs @ ys) \<longleftrightarrow> live_ok lb xs \<and> live_ok (top_of lb xs) ys"
  by (induction xs arbitrary: lb) (auto simp: top_of_def)

lemma top_of_Cons: "top_of lb (x # xs) = top_of (ent_hi x) xs"
  by (simp add: top_of_def)

lemma top_of_ge: "live_ok lb es \<Longrightarrow> lb \<le> top_of lb es"
proof (induction es arbitrary: lb)
  case (Cons x xs)
  from Cons.IH [of "ent_hi x"] Cons.prems show ?case by (simp add: top_of_Cons)
qed simp

lemma live_ok_entry:
  "live_ok lb es \<Longrightarrow> e \<in> set es \<Longrightarrow> lb < ent_lo e \<and> ent_lo e < ent_hi e \<and> ent_hi e \<le> top_of lb es"
proof (induction es arbitrary: lb)
  case (Cons x xs)
  then have pos: "0 < unat (m_size x)" by (simp add: unat_gt_0)
  have ge: "ent_hi x \<le> top_of (ent_hi x) xs"
    using Cons.prems by (intro top_of_ge) simp
  show ?case
  proof (cases "e = x")
    case True
    then show ?thesis using Cons.prems pos ge by (simp add: top_of_Cons)
  next
    case False
    with Cons.prems have "e \<in> set xs" "live_ok (ent_hi x) xs" "lb < ent_hi x" by auto
    with Cons.IH [of "ent_hi x"] show ?thesis by (simp add: top_of_Cons)
  qed
qed simp

lemma live_ok_tail_gt: "live_ok lb (e # r) \<Longrightarrow> x \<in> units r \<Longrightarrow> ent_hi e < x"
  using live_ok_units_gt [of "ent_hi e" r x] by simp

text \<open>Sorted, non-touching entries are determined by the units they hold.\<close>

lemma live_ok_hd_le:
  "live_ok lb (e # r) \<Longrightarrow> x \<in> units (e # r) \<Longrightarrow> ent_lo e \<le> x"
  using live_ok_units_gt [of "ent_hi e" r x] by (auto simp: ent_units_def)

lemma live_ok_hd_mem: "live_ok lb (e # r) \<Longrightarrow> ent_lo e \<in> units (e # r)"
  by (simp add: ent_units_def unat_gt_0)

lemma live_ok_hi_notin: "live_ok lb (e # r) \<Longrightarrow> ent_hi e \<notin> units (e # r)"
  using live_ok_units_gt [of "ent_hi e" r "ent_hi e"] by (auto simp: ent_units_def)

lemma live_ok_hi_le:
  assumes e: "live_ok lb (e # r)" and f: "live_ok lb (f # s)"
    and eq: "units (e # r) = units (f # s)" and lo: "ent_lo e = ent_lo f"
  shows "ent_hi e \<le> ent_hi f"
proof (rule ccontr)
  assume "\<not> ent_hi e \<le> ent_hi f"
  then have "ent_hi f \<in> units (e # r)" using lo by (simp add: ent_units_def)
  then have "ent_hi f \<in> units (f # s)" by (simp only: eq)
  then show False using live_ok_hi_notin [OF f] by blast
qed

lemma live_ok_unique:
  "live_ok lb xs \<Longrightarrow> live_ok lb ys \<Longrightarrow> units xs = units ys \<Longrightarrow> xs = ys"
proof (induction xs arbitrary: lb ys)
  case Nil
  then show ?case using live_ok_hd_mem by (cases ys) fastforce+
next
  case (Cons e r)
  then obtain f s where ys: "ys = f # s"
    using live_ok_hd_mem [of lb e r] by (cases ys) fastforce+
  note prems = Cons.prems [unfolded ys]
  have lo: "ent_lo e = ent_lo f"
    using prems live_ok_hd_mem live_ok_hd_le by (metis le_antisym)
  then have hi: "ent_hi e = ent_hi f"
    using prems live_ok_hi_le by (metis le_antisym)
  then have ef: "e = f"
    using lo by (simp add: word_unat_eq_iff)
  have "units r = units (e # r) - ent_units e"
    using live_ok_tail_gt [OF prems(1)] by (fastforce simp: ent_units_def)
  moreover have "units s = units (f # s) - ent_units f"
    using live_ok_tail_gt [OF prems(2)] by (fastforce simp: ent_units_def)
  ultimately have "units r = units s" using prems(3) ef by simp
  then show ?case
    using Cons.IH [of "ent_hi e" s] prems ef ys by simp
qed

section \<open>Allocation\<close>

lemma map_close_live:
  "live_ok lb r \<Longrightarrow>
   map_close (x # r @ replicate (Suc k) zero_ent) = Some (r @ replicate (Suc (Suc k)) zero_ent)"
  by (induction r arbitrary: x lb) auto

text \<open>What a scan leaves: the address found, the live entries and the number of free slots.\<close>

definition scan_post :: "nat \<Rightarrow> ment list \<Rightarrow> nat \<Rightarrow> u32 \<Rightarrow> u32 \<Rightarrow> ment list \<Rightarrow> nat \<Rightarrow> bool" where
  "scan_post lb live k n a live' k' \<longleftrightarrow>
     live_ok lb live' \<and>
     (k' = k \<and> length live' = length live \<or> k' = Suc k \<and> length live = Suc (length live')) \<and>
     (if a = 0 then live' = live \<and> k' = k \<and> (\<forall>e \<in> set live. m_size e < n)
      else lb < unat a \<and> {unat a ..< unat a + unat n} \<subseteq> units live \<and>
           units live' = units live - {unat a ..< unat a + unat n} \<and>
           (k' = k \<longrightarrow> (\<exists>e \<in> set live'. ent_lo e = unat a + unat n)))"

lemma scan_post_exact:
  assumes ok: "live_ok lb (e # r)" and n: "m_size e = n"
  shows "scan_post lb (e # r) k n (m_addr e) r (Suc k)"
proof -
  have "units r = units (e # r) - {unat (m_addr e) ..< unat (m_addr e) + unat n}"
    using n live_ok_tail_gt [OF ok] by (fastforce simp: ent_units_def)
  moreover have "live_ok lb r" using ok by (auto intro: live_ok_mono)
  ultimately show ?thesis
    using ok n by (auto simp: scan_post_def ent_units_def)
qed

lemma cut_front:
  fixes lo sz n :: nat
  assumes "n \<le> sz" "\<And>x. x \<in> R \<Longrightarrow> lo + sz < x"
  shows "{lo + n ..< lo + n + (sz - n)} \<union> R = ({lo ..< lo + sz} \<union> R) - {lo ..< lo + n}"
  using assms by (auto dest: assms(2))

lemma scan_post_split:
  assumes ok: "live_ok lb (e # r)" and n: "n \<le> m_size e" "m_size e \<noteq> n" "n \<noteq> 0"
  shows "scan_post lb (e # r) k n (m_addr e)
           (e\<lparr>m_addr := m_addr e + n, m_size := m_size e - n\<rparr> # r) k"
    (is "scan_post _ _ _ _ _ (?e # r) _")
proof -
  have le: "unat n \<le> unat (m_size e)"
    using n by (simp add: word_as_nat)
  have ne: "unat n \<noteq> unat (m_size e)"
    using n(2) by (metis word_eq_unat)
  have sz: "unat (m_size e - n) = unat (m_size e) - unat n"
    using n by (simp add: word_nat)
  have ad: "unat (m_addr e + n) = unat (m_addr e) + unat n"
    using ok le by (intro unat_plus_exact) simp
  have "units (?e # r) = units (e # r) - {unat (m_addr e) ..< unat (m_addr e) + unat n}"
    using cut_front [OF le, of "units r" "unat (m_addr e)"] live_ok_tail_gt [OF ok]
    by (simp add: ent_units_def sz ad)
  moreover have "live_ok lb (?e # r)"
    using ok sz ad le ne n by simp
  moreover have "{unat (m_addr e) ..< unat (m_addr e) + unat n} \<subseteq> units (e # r)"
    using le by (auto simp: ent_units_def)
  moreover have "\<exists>x \<in> set (?e # r). ent_lo x = unat (m_addr e) + unat n"
    using ad by simp
  moreover have "m_addr e \<noteq> 0" "lb < unat (m_addr e)"
    using ok by auto
  ultimately show ?thesis
    by (simp add: scan_post_def)
qed

lemma scan_post_skip:
  assumes ok: "live_ok lb (e # r)" and n: "\<not> n \<le> m_size e"
    and post: "scan_post (ent_hi e) r k n a live' k'"
  shows "scan_post lb (e # r) k n a (e # live') k'"
proof (cases "a = 0")
  case True
  then show ?thesis using ok n post by (auto simp: scan_post_def)
next
  case False
  then have "ent_hi e < unat a" using post by (simp add: scan_post_def)
  then have "units (e # live') = units (e # r) - {unat a ..< unat a + unat n}"
    using False post by (auto simp: scan_post_def ent_units_def)
  then show ?thesis using False ok post by (auto simp: scan_post_def)
qed

lemma malloc_scan_rep:
  assumes "live_ok lb live" "n \<noteq> 0"
  shows "\<exists>a live' k'. malloc_scan (live @ replicate (Suc k) zero_ent) n =
           Some (a, live' @ replicate (Suc k') zero_ent, k' = Suc k) \<and>
         scan_post lb live k n a live' k'"
  using assms
proof (induction live arbitrary: lb)
  case Nil
  then show ?case by (auto simp: scan_post_def intro!: exI [of _ "[]"] exI[of _ k])
next
  case (Cons e r)
  note ok = Cons.prems(1)
  consider "m_size e = n" | "n \<le> m_size e" "m_size e \<noteq> n" | "\<not> n \<le> m_size e"
    by blast
  then show ?case
  proof cases
    case 1
    then have "malloc_scan ((e # r) @ replicate (Suc k) zero_ent) n =
        Some (m_addr e, r @ replicate (Suc (Suc k)) zero_ent, True)"
      using ok Cons.prems(2) map_close_live [of "ent_hi e" r _ k] by (simp add: Let_def)
    then show ?thesis using scan_post_exact [OF ok 1, of k] by auto
  next
    case 2
    then have "m_size e - n \<noteq> 0" by simp
    then have "malloc_scan ((e # r) @ replicate (Suc k) zero_ent) n =
        Some (m_addr e, (e\<lparr>m_addr := m_addr e + n, m_size := m_size e - n\<rparr> # r) @
          replicate (Suc k) zero_ent, False)"
      using ok 2 by (simp add: Let_def)
    with scan_post_split [OF ok 2 Cons.prems(2), of k] show ?thesis
      by (intro exI [of _ "m_addr e"] exI [of _ k]
          exI [of _ "e\<lparr>m_addr := m_addr e + n, m_size := m_size e - n\<rparr> # r"]) simp
  next
    case 3
    from Cons.IH [of "ent_hi e"] ok Cons.prems(2) obtain a live' k' where
      "malloc_scan (r @ replicate (Suc k) zero_ent) n =
         Some (a, live' @ replicate (Suc k') zero_ent, k' = Suc k)"
      and post: "scan_post (ent_hi e) r k n a live' k'"
      by auto
    then have "malloc_scan ((e # r) @ replicate (Suc k) zero_ent) n =
        Some (a, (e # live') @ replicate (Suc k') zero_ent, k' = Suc k)"
      using ok 3 by simp
    with scan_post_skip [OF ok 3 post] show ?thesis by blast
  qed
qed

lemma malloc_rep:
  assumes rep: "rmap_rep mp live k" and n: "n \<noteq> 0"
  shows "\<exists>a mp' live' k'. malloc mp n = Some (a, mp') \<and> rmap_rep mp' live' k' \<and>
           scan_post 0 live k n a live' k' \<and> mapwant mp' = mapwant mp"
proof -
  from rep have ok: "live_ok 0 live" by (simp add: rmap_rep_def)
  from malloc_scan_rep [OF ok n, of k] obtain a live' k' where
    s: "malloc_scan (live @ replicate (Suc k) zero_ent) n =
         Some (a, live' @ replicate (Suc k') zero_ent, k' = Suc k)"
    and post: "scan_post 0 live k n a live' k'"
    by blast
  have len: "length live' + k' = length live + k"
    using post by (auto simp: scan_post_def)
  have k: "unat (mapsize mp) = k" and bnd: "Suc (length live + k) < 2 ^ 32"
    using rep by (auto simp: rmap_rep_def)
  have sz: "unat (if k' = Suc k then mapsize mp + 1 else mapsize mp) = k'"
    using post k bnd by (auto simp: scan_post_def word_nat)
  let ?mp = "mp\<lparr>mapent := live' @ replicate (Suc k') zero_ent,
      mapsize := (if k' = Suc k then mapsize mp + 1 else mapsize mp)\<rparr>"
  have "malloc mp n = Some (a, ?mp)"
    using rep s n by (simp add: malloc_def rmap_rep_def del: replicate.simps)
  moreover have "rmap_rep ?mp live' k'"
    using sz post len bnd by (simp add: rmap_rep_def scan_post_def del: replicate.simps)
  moreover have "mapwant ?mp = mapwant mp" by simp
  ultimately show ?thesis using post by blast
qed


section \<open>Release\<close>

lemma mfree_find_rep:
  assumes "live_ok lb live" "\<And>x. x \<in> units live \<Longrightarrow> x \<noteq> unat a"
  shows "\<exists>p s. mfree_find a (live @ replicate (Suc k) zero_ent) =
           Some (p, s @ replicate (Suc k) zero_ent) \<and> live = p @ s \<and>
         (p \<noteq> [] \<longrightarrow> ent_hi (last p) \<le> unat a) \<and> (s \<noteq> [] \<longrightarrow> unat a < ent_lo (hd s))"
  using assms
proof (induction live arbitrary: lb)
  case Nil
  then show ?case by simp
next
  case (Cons e r)
  show ?case
  proof (cases "m_addr e \<le> a")
    case False
    then show ?thesis
      by (intro exI [of _ "[]"] exI [of _ "e # r"]) (simp add: word_as_nat)
  next
    case True
    have "unat a \<notin> ent_units e" using Cons.prems(2) [of "unat a"] by auto
    with True have hi: "ent_hi e \<le> unat a" by (simp add: ent_units_def word_as_nat)
    have "live_ok (ent_hi e) r" "\<And>x. x \<in> units r \<Longrightarrow> x \<noteq> unat a"
      using Cons.prems by auto
    from Cons.IH [OF this] obtain p s where
      f: "mfree_find a (r @ replicate (Suc k) zero_ent) = Some (p, s @ replicate (Suc k) zero_ent)"
      and "r = p @ s" "p \<noteq> [] \<longrightarrow> ent_hi (last p) \<le> unat a" "s \<noteq> [] \<longrightarrow> unat a < ent_lo (hd s)"
      by blast
    then show ?thesis using True Cons.prems(1) hi
      by (intro exI [of _ "e # p"] exI [of _ s]) auto
  qed
qed

lemma mfree_close_zero: "mfree_close (zero_ent # r) = Some (zero_ent # r)"
  by (cases r) auto

lemma mfree_close_live:
  "live_ok lb (e # r) \<Longrightarrow>
   mfree_close (e # r @ replicate (Suc k) zero_ent) = Some (r @ replicate (Suc (Suc k)) zero_ent)"
  by (induction r arbitrary: e lb) (auto simp: mfree_close_zero)

lemma mfree_insert_live:
  "live_ok lb s \<Longrightarrow>
   mfree_insert n a (s @ replicate (Suc (Suc k)) zero_ent) =
     Some (\<lparr>m_size = n, m_addr = a\<rparr> # s @ replicate (Suc k) zero_ent)"
proof (induction s arbitrary: n a lb)
  case (Cons e s)
  then show ?case by (cases e) auto
qed simp

text \<open>What a release does to the live entries, case by case.\<close>

definition release_post :: "ment list \<Rightarrow> u32 \<Rightarrow> u32 \<Rightarrow> ment list \<Rightarrow> bool" where
  "release_post live n a live' \<longleftrightarrow>
     live_ok 0 live' \<and> units live' = units live \<union> {unat a ..< unat a + unat n}"

lemma release_merge_both:
  assumes ok: "live_ok 0 (p @ q # b # s)" and n: "n \<noteq> 0"
    and q: "ent_hi q = unat a" and b: "unat a + unat n = ent_lo b"
  shows "release_post (p @ q # b # s) n a
           (p @ q\<lparr>m_size := m_size q + n + m_size b\<rparr> # s)"
proof -
  have bnd: "ent_hi b < 2 ^ 32" using ok by (simp add: live_ok_append)
  have "unat (m_size q + n) = unat (m_size q) + unat n"
    using q b bnd by (intro unat_plus_exact) simp
  then have sz: "unat (m_size q + n + m_size b) = unat (m_size q) + unat n + unat (m_size b)"
    using q b bnd by (subst unat_plus_exact) auto
  then have "m_size q + n + m_size b \<noteq> 0"
    using n by (metis add_is_0 unat_eq_zero)
  moreover have "live_ok (ent_lo q + (unat (m_size q) + unat n + unat (m_size b))) s"
    using ok q b by (simp add: live_ok_append flip: add.assoc)
  ultimately show ?thesis
    using ok sz q b by (auto simp: release_post_def live_ok_append ent_units_def)
qed

lemma release_merge_left:
  assumes ok: "live_ok 0 (p @ q # s)" and n: "n \<noteq> 0" and bnd: "unat a + unat n < 2 ^ 32"
    and q: "ent_hi q = unat a" and s: "s \<noteq> [] \<Longrightarrow> unat a + unat n < ent_lo (hd s)"
  shows "release_post (p @ q # s) n a (p @ q\<lparr>m_size := m_size q + n\<rparr> # s)"
proof -
  have sz: "unat (m_size q + n) = unat (m_size q) + unat n"
    using q bnd by (intro unat_plus_exact) simp
  then have "m_size q + n \<noteq> 0"
    using n by (metis add_is_0 unat_eq_zero)
  moreover have "live_ok (ent_lo q + (unat (m_size q) + unat n)) s"
    using ok s q by (cases s) (auto simp: live_ok_append)
  ultimately show ?thesis
    using ok sz q bnd by (auto simp: release_post_def live_ok_append ent_units_def add.assoc)
qed

lemma release_merge_right:
  assumes ok: "live_ok 0 (p @ b # s)" and n: "n \<noteq> 0" and a: "a \<noteq> 0"
    and p: "p \<noteq> [] \<Longrightarrow> ent_hi (last p) < unat a" and b: "unat a + unat n = ent_lo b"
  shows "release_post (p @ b # s) n a
           (p @ b\<lparr>m_addr := m_addr b - n, m_size := m_size b + n\<rparr> # s)"
proof -
  have bnd: "ent_hi b < 2 ^ 32" using ok by (simp add: live_ok_append)
  have ad: "unat (m_addr b - n) = unat a"
    using b by (subst unat_minus_exact) (auto simp: word_as_nat)
  have sz: "unat (m_size b + n) = unat (m_size b) + unat n"
    using b bnd by (intro unat_plus_exact) simp
  then have "m_size b + n \<noteq> 0"
    using n by (metis add_is_0 unat_eq_zero)
  moreover have "top_of 0 p < unat a"
    using p a by (auto simp: top_of_def unat_gt_0)
  moreover have "unat a + (unat (m_size b) + unat n) = ent_hi b"
    using b by linarith
  then have "live_ok (unat a + (unat (m_size b) + unat n)) s"
    using ok by (simp only:) (simp add: live_ok_append)
  ultimately show ?thesis
    using ok sz ad b bnd
    by (auto simp: release_post_def live_ok_append ent_units_def)
qed

lemma release_insert:
  assumes ok: "live_ok 0 (p @ s)" and n: "n \<noteq> 0" and a: "a \<noteq> 0" and bnd: "unat a + unat n < 2 ^ 32"
    and p: "p \<noteq> [] \<Longrightarrow> ent_hi (last p) < unat a"
    and s: "s \<noteq> [] \<Longrightarrow> unat a + unat n < ent_lo (hd s)"
  shows "release_post (p @ s) n a (p @ \<lparr>m_size = n, m_addr = a\<rparr> # s)"
proof -
  have "top_of 0 p < unat a"
    using p a by (auto simp: top_of_def unat_gt_0)
  moreover have "live_ok (unat a + unat n) s"
    using ok s by (cases s) (auto simp: live_ok_append)
  ultimately show ?thesis
    using ok n bnd by (auto simp: release_post_def live_ok_append ent_units_def)
qed


lemma mfree_wake_sel:
  "mfree_wake mp = MFreed (mp\<lparr>mapwant := 0\<rparr>) (mapwant mp \<noteq> 0)"
  by (cases mp) (simp add: mfree_wake_def)

lemma release_bounds:
  assumes "unat a + unat n < 2 ^ 32" and "n \<noteq> 0" and ok: "live_ok 0 (p @ s)"
    and disj: "{unat a ..< unat a + unat n} \<inter> units (p @ s) = {}"
    and s: "s \<noteq> [] \<longrightarrow> unat a < ent_lo (hd s)"
  shows "s \<noteq> [] \<Longrightarrow> unat a + unat n \<le> ent_lo (hd s)"
proof (rule ccontr)
  assume "s \<noteq> []" and "\<not> unat a + unat n \<le> ent_lo (hd s)"
  then obtain b r where b: "s = b # r" "unat a < ent_lo b" "ent_lo b < unat a + unat n"
    using s by (cases s) auto
  moreover have "0 < unat (m_size b)"
    using ok b by (simp add: live_ok_append unat_gt_0)
  ultimately have "ent_lo b \<in> {unat a ..< unat a + unat n}" "ent_lo b \<in> units (p @ s)"
    by (simp_all add: ent_units_def)
  then show False using disj by blast
qed

text \<open>The state after a release that left \<open>live'\<close> and \<open>k'\<close> free slots.\<close>

definition released :: "rmap \<Rightarrow> ment list \<Rightarrow> nat \<Rightarrow> nat \<Rightarrow> mfree_result" where
  "released mp live' k k' =
     MFreed (mp\<lparr>mapent := live' @ replicate (Suc k') zero_ent,
               mapsize := mapsize mp + word_of_nat k' - word_of_nat k, mapwant := 0\<rparr>)
       (mapwant mp \<noteq> 0)"

text \<open>
  The place where the search of \<open>mfree\<close> stops: the live entries below the block and those
  above it, with the block touching neither side by more than their borders.
\<close>

definition release_site :: "rmap \<Rightarrow> u32 \<Rightarrow> u32 \<Rightarrow> ment list \<Rightarrow> ment list \<Rightarrow> nat \<Rightarrow> bool" where
  "release_site mp n a p s k \<longleftrightarrow>
     mapent mp = p @ s @ replicate (Suc k) zero_ent \<and>
     mfree_find a (mapent mp) = Some (p, s @ replicate (Suc k) zero_ent) \<and>
     live_ok 0 (p @ s) \<and> n \<noteq> 0 \<and> a \<noteq> 0 \<and> unat a + unat n < 2 ^ 32 \<and>
     (p \<noteq> [] \<longrightarrow> ent_hi (last p) \<le> unat a) \<and>
     (s \<noteq> [] \<longrightarrow> unat a + unat n \<le> ent_lo (hd s))"

lemma release_site_exists:
  assumes rep: "rmap_rep mp live k" and n: "n \<noteq> 0" and a: "a \<noteq> 0"
    and bnd: "unat a + unat n < 2 ^ 32"
    and disj: "{unat a ..< unat a + unat n} \<inter> units live = {}"
  shows "\<exists>p s. live = p @ s \<and> release_site mp n a p s k"
proof -
  have ent: "mapent mp = live @ replicate (Suc k) zero_ent" and ok: "live_ok 0 live"
    using rep by (auto simp: rmap_rep_def)
  have "unat a \<in> {unat a ..< unat a + unat n}" using n by (simp add: unat_gt_0)
  then obtain p s where find: "mfree_find a (mapent mp) = Some (p, s @ replicate (Suc k) zero_ent)"
    and live: "live = p @ s" and pz: "p \<noteq> [] \<longrightarrow> ent_hi (last p) \<le> unat a"
    and sz: "s \<noteq> [] \<longrightarrow> unat a < ent_lo (hd s)"
    using mfree_find_rep [OF ok, of a k] disj ent by fastforce
  moreover have "s \<noteq> [] \<longrightarrow> unat a + unat n \<le> ent_lo (hd s)"
    using release_bounds [OF bnd n ok [unfolded live]] disj sz live by blast
  ultimately show ?thesis
    using ent ok n a bnd by (auto simp: release_site_def)
qed

lemma site_upper:
  assumes "release_site mp n a p s k"
  shows "a + n = m_addr b \<longleftrightarrow> unat a + unat n = ent_lo b"
proof -
  have "unat (a + n) = unat a + unat n"
    using assms by (intro unat_plus_exact) (simp add: release_site_def)
  then show ?thesis by (metis word_eq_unat)
qed

lemma site_lower:
  assumes site: "release_site mp n a p s k"
  shows "p \<noteq> [] \<and> m_addr (last p) + m_size (last p) = a \<longleftrightarrow> p \<noteq> [] \<and> ent_hi (last p) = unat a"
proof (cases p rule: rev_cases)
  case (snoc p' q)
  then have "unat (m_addr q + m_size q) = ent_hi q"
    using site by (intro unat_plus_exact) (simp add: release_site_def live_ok_append)
  then show ?thesis using snoc by (metis last_snoc word_eq_unat)
qed simp

text \<open>\<open>mfree\<close> at its site, the comparisons of addresses read as natural numbers.\<close>

lemma mfree_at_site:
  assumes site: "release_site mp n a p s k" and br: "s @ replicate (Suc k) zero_ent = b # r"
  shows "mfree mp n a =
    (if p \<noteq> [] \<and> ent_hi (last p) = unat a then
       (if m_addr b \<noteq> 0 \<and> unat a + unat n = ent_lo b then
          map_option (\<lambda>t. mfree_wake (mp\<lparr>mapent :=
              butlast p @ (last p)\<lparr>m_size := m_size (last p) + n + m_size b\<rparr> # t,
              mapsize := mapsize mp + 1\<rparr>)) (mfree_close (b # r))
        else Some (mfree_wake (mp\<lparr>mapent :=
              butlast p @ (last p)\<lparr>m_size := m_size (last p) + n\<rparr> # b # r\<rparr>)))
     else if unat a + unat n = ent_lo b \<and> m_size b \<noteq> 0 then
       Some (mfree_wake (mp\<lparr>mapent :=
              p @ b\<lparr>m_addr := m_addr b - n, m_size := m_size b + n\<rparr> # r\<rparr>))
     else if mapsize mp = 0 then Some (MLost mp)
     else map_option (\<lambda>t. mfree_wake (mp\<lparr>mapent := p @ t, mapsize := mapsize mp - 1\<rparr>))
            (mfree_insert n a (b # r)))"
proof -
  have "n \<noteq> 0" "mfree_find a (mapent mp) = Some (p, b # r)"
    using site br by (auto simp: release_site_def)
  then show ?thesis
    by (auto simp: mfree_def site_upper [OF site] site_lower [OF site] Let_def
        simp del: mfree_insert.simps mfree_close.simps split: option.split)
qed

lemma site_merge_both:
  assumes site: "release_site mp n a (p @ [q]) (b # r) k"
    and q: "ent_hi q = unat a" and b: "unat a + unat n = ent_lo b"
  shows "mfree mp n a = Some (released mp (p @ q\<lparr>m_size := m_size q + n + m_size b\<rparr> # r) k (Suc k))"
proof -
  have ok: "live_ok (top_of 0 (p @ [q])) (b # r)" and nz: "m_addr b \<noteq> 0"
    using site by (auto simp: release_site_def live_ok_append)
  then show ?thesis
    using mfree_close_live [OF ok, of k] q b nz
    by (simp add: mfree_at_site [OF site] released_def mfree_wake_sel)
qed

lemma site_merge_left:
  assumes site: "release_site mp n a (p @ [q]) s k" and q: "ent_hi q = unat a"
    and s: "s \<noteq> [] \<longrightarrow> unat a + unat n \<noteq> ent_lo (hd s)"
  shows "mfree mp n a = Some (released mp (p @ q\<lparr>m_size := m_size q + n\<rparr> # s) k k)"
  using q s
  by (cases s) (simp_all add: mfree_at_site [OF site] released_def mfree_wake_sel)

lemma site_merge_right:
  assumes site: "release_site mp n a p (b # r) k" and p: "p \<noteq> [] \<longrightarrow> ent_hi (last p) \<noteq> unat a"
    and b: "unat a + unat n = ent_lo b"
  shows "mfree mp n a =
           Some (released mp (p @ b\<lparr>m_addr := m_addr b - n, m_size := m_size b + n\<rparr> # r) k k)"
proof -
  have "m_size b \<noteq> 0" using site by (simp add: release_site_def live_ok_append)
  then show ?thesis
    using p b by (auto simp: mfree_at_site [OF site] released_def mfree_wake_sel)
qed

lemma site_insert:
  assumes site: "release_site mp n a p s (Suc k)" and p: "p \<noteq> [] \<longrightarrow> ent_hi (last p) \<noteq> unat a"
    and s: "s \<noteq> [] \<longrightarrow> unat a + unat n \<noteq> ent_lo (hd s)" and m: "mapsize mp \<noteq> 0"
  shows "mfree mp n a = Some (released mp (p @ \<lparr>m_size = n, m_addr = a\<rparr> # s) (Suc k) k)"
proof -
  have ok: "live_ok (top_of 0 p) s" using site by (simp add: release_site_def live_ok_append)
  then show ?thesis
    using p s m mfree_insert_live [OF ok, of n a k]
    by (cases s) (auto simp: mfree_at_site [OF site] released_def mfree_wake_sel)
qed

lemma site_lost:
  assumes site: "release_site mp n a p s k" and p: "p \<noteq> [] \<longrightarrow> ent_hi (last p) \<noteq> unat a"
    and s: "s \<noteq> [] \<longrightarrow> unat a + unat n \<noteq> ent_lo (hd s)" and m: "mapsize mp = 0"
  shows "mfree mp n a = Some (MLost mp)"
  using p s m by (cases s) (auto simp: mfree_at_site [OF site])

lemma apart_no_neighbour:
  assumes p: "p \<noteq> [] \<longrightarrow> ent_hi (last p) < unat a" and s: "s \<noteq> [] \<longrightarrow> unat a + unat n < ent_lo (hd s)"
    and ok: "live_ok 0 (p @ s)" and n: "n \<noteq> 0"
  shows "\<forall>e \<in> set (p @ s). ent_hi e \<noteq> unat a \<and> ent_lo e \<noteq> unat a + unat n"
proof -
  have okp: "live_ok 0 p" and oks: "live_ok (top_of 0 p) s" using ok by (simp_all add: live_ok_append)
  have "ent_hi e < unat a \<and> ent_lo e < unat a" if "e \<in> set p" for e
    using live_ok_entry [OF okp that] p that by (cases p rule: rev_cases) auto
  moreover have "unat a + unat n < ent_lo e \<and> unat a < ent_hi e" if e: "e \<in> set s" for e
  proof -
    obtain b r where s': "s = b # r" using e by (cases s) auto
    have "e = b \<or> ent_hi b < ent_lo e"
      using live_ok_entry [of "ent_hi b" r e] oks e s' by auto
    then show ?thesis using s s' by auto
  qed
  ultimately show ?thesis by fastforce
qed

text \<open>The release of a block of which no unit is free: the outcomes, and when each happens.\<close>

lemma mfree_site:
  assumes site: "release_site mp n a p s k" and k: "unat (mapsize mp) = k"
  shows "(\<exists>live' k'. mfree mp n a = Some (released mp live' k k') \<and>
            release_post (p @ s) n a live' \<and> length live' + k' = length (p @ s) + k) \<or>
         (mfree mp n a = Some (MLost mp) \<and> k = 0 \<and>
            (\<forall>e \<in> set (p @ s). ent_hi e \<noteq> unat a \<and> ent_lo e \<noteq> unat a + unat n))"
proof -
  have ok: "live_ok 0 (p @ s)" and n: "n \<noteq> 0" and a: "a \<noteq> 0" and bnd: "unat a + unat n < 2 ^ 32"
    and pz: "p \<noteq> [] \<longrightarrow> ent_hi (last p) \<le> unat a"
    and sz: "s \<noteq> [] \<longrightarrow> unat a + unat n \<le> ent_lo (hd s)"
    using site by (auto simp: release_site_def)
  consider (both) p' q b r where "p = p' @ [q]" "ent_hi q = unat a" "s = b # r" "unat a + unat n = ent_lo b"
    | (left) p' q where "p = p' @ [q]" "ent_hi q = unat a" "s \<noteq> [] \<longrightarrow> unat a + unat n < ent_lo (hd s)"
    | (right) b r where "p \<noteq> [] \<longrightarrow> ent_hi (last p) < unat a" "s = b # r" "unat a + unat n = ent_lo b"
    | (apart) "p \<noteq> [] \<longrightarrow> ent_hi (last p) < unat a" "s \<noteq> [] \<longrightarrow> unat a + unat n < ent_lo (hd s)"
    using pz sz by (cases p rule: rev_cases; cases s) (auto simp: le_less)
  then show ?thesis
  proof cases
    case both
    then show ?thesis
      using site_merge_both [of mp n a p' q b r k] release_merge_both [of p' q b r n a] site ok n
      by fastforce
  next
    case left
    then show ?thesis
      using site_merge_left [of mp n a p' q s k] release_merge_left [of p' q s n a] site ok n bnd
      by fastforce
  next
    case right
    then show ?thesis
      using site_merge_right [of mp n a p b r k] release_merge_right [of p b r n a] site ok n a
      by fastforce
  next
    case apart
    then have "release_post (p @ s) n a (p @ \<lparr>m_size = n, m_addr = a\<rparr> # s)"
      using release_insert [of p s n a] ok n a bnd by blast
    moreover have "\<forall>e \<in> set (p @ s). ent_hi e \<noteq> unat a \<and> ent_lo e \<noteq> unat a + unat n"
      using apart ok n by (rule apart_no_neighbour)
    ultimately show ?thesis
      using apart site_insert [of mp n a p s] site_lost [OF site] site k
      by (cases k) (fastforce simp: unat_eq_zero)+
  qed
qed


section \<open>The contract of a resource map\<close>

definition block :: "u32 \<Rightarrow> u32 \<Rightarrow> nat set" where
  "block a n = {unat a ..< unat a + unat n}"

lemma malloc_contract:
  assumes ok: "rmap_ok mp" and n: "n \<noteq> 0"
  shows "\<exists>a mp'. malloc mp n = Some (a, mp') \<and> rmap_ok mp' \<and>
     (if a = 0 then mp' = mp \<and> (\<forall>e \<in> set (mapent mp). m_size e < n)
      else block a n \<subseteq> free_units mp \<and> free_units mp' = free_units mp - block a n)"
proof -
  from ok obtain live k where rep: "rmap_rep mp live k" by (auto simp: rmap_ok_def)
  from malloc_rep [OF rep n] obtain a mp' live' k' where
    m: "malloc mp n = Some (a, mp')" and rep': "rmap_rep mp' live' k'"
    and post: "scan_post 0 live k n a live' k'" and w: "mapwant mp' = mapwant mp"
    by blast
  have "mp' = mp \<and> (\<forall>e \<in> set (mapent mp). m_size e < n)" if "a = 0"
  proof -
    have l: "live' = live" "k' = k" "\<forall>e \<in> set live. m_size e < n"
      using post that by (simp_all add: scan_post_def)
    then have "mapent mp' = mapent mp" "mapsize mp' = mapsize mp"
      using rep rep' by (auto simp: rmap_rep_def word_eq_unat simp del: replicate.simps)
    then show ?thesis using w l n rep
      by (auto simp: rmap_rep_def word_neq_0_conv [symmetric] simp del: word_neq_0_conv)
  qed
  moreover have "block a n \<subseteq> free_units mp \<and> free_units mp' = free_units mp - block a n" if "a \<noteq> 0"
    using post that free_units_rep [OF rep] free_units_rep [OF rep']
    by (simp add: scan_post_def block_def)
  moreover have "rmap_ok mp'" using rep' by (auto simp: rmap_ok_def)
  ultimately show ?thesis using m by auto
qed

lemma released_rep:
  assumes rep: "rmap_rep mp live k" and post: "release_post live n a live'"
    and len: "length live' + k' = length live + k"
  shows "rmap_rep (mp\<lparr>mapent := live' @ replicate (Suc k') zero_ent,
           mapsize := mapsize mp + word_of_nat k' - word_of_nat k, mapwant := 0\<rparr>) live' k'"
proof -
  have k: "mapsize mp = word_of_nat k" and bnd: "Suc (length live + k) < 2 ^ 32"
    using rep by (auto simp: rmap_rep_def)
  then have "unat (mapsize mp + word_of_nat k' - word_of_nat k) = k'"
    using len by (simp add: unat_of_nat)
  then show ?thesis
    using post len bnd by (simp add: rmap_rep_def release_post_def del: replicate.simps)
qed

lemma mfree_contract:
  assumes ok: "rmap_ok mp" and n: "n \<noteq> 0" and a: "a \<noteq> 0" and bnd: "unat a + unat n < 2 ^ 32"
    and disj: "block a n \<inter> free_units mp = {}"
  shows "(\<exists>mp'. mfree mp n a = Some (MFreed mp' (mapwant mp \<noteq> 0)) \<and> rmap_ok mp' \<and>
            free_units mp' = free_units mp \<union> block a n \<and> mapwant mp' = 0) \<or>
         (mfree mp n a = Some (MLost mp) \<and> mapsize mp = 0 \<and>
            (\<forall>e \<in> set (mapent mp). m_size e \<noteq> 0 \<longrightarrow>
               ent_hi e \<noteq> unat a \<and> ent_lo e \<noteq> unat a + unat n))"
proof -
  from ok obtain live k where rep: "rmap_rep mp live k" by (auto simp: rmap_ok_def)
  then have k: "unat (mapsize mp) = k" by (simp add: rmap_rep_def)
  from release_site_exists [OF rep n a bnd] disj free_units_rep [OF rep] obtain p s where
    live: "live = p @ s" and site: "release_site mp n a p s k"
    unfolding block_def by auto
  from mfree_site [OF site k] show ?thesis
  proof (elim disjE exE conjE)
    fix live' k'
    assume m: "mfree mp n a = Some (released mp live' k k')" and post: "release_post (p @ s) n a live'"
      and len: "length live' + k' = length (p @ s) + k"
    from released_rep [OF rep post [folded live] len [folded live]]
    have "rmap_rep (mp\<lparr>mapent := live' @ replicate (Suc k') zero_ent,
        mapsize := mapsize mp + word_of_nat k' - word_of_nat k, mapwant := 0\<rparr>) live' k'"
      (is "rmap_rep ?mp live' k'") .
    then have "rmap_ok ?mp" "free_units ?mp = free_units mp \<union> block a n"
      using post live free_units_rep [OF rep] free_units_rep [of ?mp live' k']
      by (auto simp: rmap_ok_def release_post_def block_def)
    then show ?thesis using m by (simp add: released_def)
  next
    assume "mfree mp n a = Some (MLost mp)" "k = 0"
      "\<forall>e\<in>set (p @ s). ent_hi e \<noteq> unat a \<and> ent_lo e \<noteq> unat a + unat n"
    then show ?thesis using k rep live
      by (auto simp: rmap_rep_def unat_eq_zero)
  qed
qed

lemma rmap_canonical:
  assumes "rmap_ok mp" "rmap_ok mp'" "free_units mp = free_units mp'"
    and len: "length (mapent mp) = length (mapent mp')"
  shows "mapent mp = mapent mp' \<and> mapsize mp = mapsize mp'"
proof -
  from assms obtain live k live' k' where rep: "rmap_rep mp live k" "rmap_rep mp' live' k'"
    by (auto simp: rmap_ok_def)
  then have "live = live'"
    using live_ok_unique [of 0 live live'] assms(3) free_units_rep by (auto simp: rmap_rep_def)
  moreover from this have "k = k'" using rep len by (simp add: rmap_rep_def)
  ultimately show ?thesis using rep by (auto simp: rmap_rep_def word_eq_unat simp del: replicate.simps)
qed


text \<open>
  First fit is lowest fit: a run of free units lies inside one entry, because entries do not
  touch, and the scan takes the first entry that is large enough.
\<close>

lemma run_in_entry:
  assumes "live_ok lb live" "{x ..< x + n} \<subseteq> units live" "0 < n"
  shows "\<exists>e \<in> set live. ent_lo e \<le> x \<and> x + n \<le> ent_hi e"
  using assms
proof (induction live arbitrary: lb)
  case (Cons e r)
  have x: "x \<in> units (e # r)" and lo: "ent_lo e \<le> x"
    using Cons.prems live_ok_hd_le [of lb e r x] by force+
  show ?case
  proof (cases "x < ent_hi e")
    case True
    have "ent_hi e \<notin> {x ..< x + n}"
      using live_ok_hi_notin [OF Cons.prems(1)] Cons.prems(2) by blast
    then have "x + n \<le> ent_hi e" using True by simp
    then show ?thesis using lo by auto
  next
    case False
    then have "{x ..< x + n} \<subseteq> units r" using Cons.prems(2) by (auto simp: ent_units_def)
    then show ?thesis using Cons.IH [of "ent_hi e"] Cons.prems by fastforce
  qed
qed simp

lemma malloc_scan_first:
  "malloc_scan es n = Some (a, es', c) \<Longrightarrow> a \<noteq> 0 \<Longrightarrow>
   \<exists>p e r. es = p @ e # r \<and> a = m_addr e \<and> n \<le> m_size e \<and> (\<forall>x \<in> set p. m_size x < n)"
proof (induction es arbitrary: es')
  case (Cons b r)
  show ?case
  proof (cases "n \<le> m_size b")
    case True
    then show ?thesis using Cons.prems
      by (intro exI [of _ "[]"] exI [of _ b] exI [of _ r]) (auto simp: Let_def split: if_splits)
  next
    case False
    then obtain r' where "malloc_scan r n = Some (a, r', c)"
      using Cons.prems by (auto split: if_splits)
    with Cons.IH Cons.prems(2) obtain p e s where
      "r = p @ e # s" "a = m_addr e" "n \<le> m_size e" "\<forall>x \<in> set p. m_size x < n"
      by blast
    then show ?thesis using False
      by (intro exI [of _ "b # p"] exI [of _ e] exI [of _ s]) auto
  qed
qed simp

lemma split_before:
  assumes "xs @ zs = p @ e # r" and "e \<notin> set zs"
  shows "\<exists>r'. xs = p @ e # r'"
proof -
  from assms(1) obtain us where "xs = p @ us \<and> us @ zs = e # r \<or> xs @ us = p \<and> zs = us @ e # r"
    by (auto simp: append_eq_append_conv2)
  then show ?thesis using assms(2) by (cases us) auto
qed

lemma malloc_lowest:
  assumes ok: "rmap_ok mp" and n: "n \<noteq> 0" and m: "malloc mp n = Some (a, mp')"
    and fits: "block b n \<subseteq> free_units mp"
  shows "a \<noteq> 0 \<and> a \<le> b"
proof -
  from ok obtain live k where rep: "rmap_rep mp live k" by (auto simp: rmap_ok_def)
  then have live: "live_ok 0 live" and ent: "mapent mp = live @ replicate (Suc k) zero_ent"
    by (auto simp: rmap_rep_def)
  have pos: "0 < unat n" using n by (simp add: unat_gt_0)
  from run_in_entry [OF live _ pos, of "unat b"] fits free_units_rep [OF rep] obtain f where
    f: "f \<in> set live" "ent_lo f \<le> unat b" "unat b + unat n \<le> ent_hi f"
    by (auto simp: block_def)
  then have nf: "n \<le> m_size f" by (simp add: word_as_nat)
  then have "\<not> m_size f < n" by simp
  then have nz: "a \<noteq> 0"
    using malloc_contract [OF ok n] m f(1) ent by (auto split: if_splits)
  from m n nz obtain es' c where "malloc_scan (mapent mp) n = Some (a, es', c)"
    by (auto simp: malloc_def split: option.splits prod.splits)
  from malloc_scan_first [OF this nz] obtain p e r where
    per: "live @ replicate (Suc k) zero_ent = p @ e # r" and e: "a = m_addr e" "n \<le> m_size e"
    and p: "\<forall>x \<in> set p. m_size x < n"
    using ent by auto
  have "e \<notin> set (replicate (Suc k) zero_ent)" using e n by (auto simp: word_as_nat unat_eq_zero)
  then obtain r' where r': "live = p @ e # r'"
    using split_before [OF per] by blast
  have "f \<notin> set p" using p nf by auto
  then have "ent_lo e \<le> ent_lo f"
    using live f(1) r' live_ok_entry [of "ent_hi e" r' f] by (auto simp: live_ok_append)
  then show ?thesis using nz e f by (simp add: word_as_nat)
qed


text \<open>No operation changes the length of the array.\<close>

lemma map_close_length: "map_close es = Some es' \<Longrightarrow> length es' = length es"
  by (induction es arbitrary: es' rule: map_close.induct) (auto split: if_splits)

lemma malloc_scan_length: "malloc_scan es n = Some (a, es', c) \<Longrightarrow> length es' = length es"
  by (induction es arbitrary: es')
    (auto simp: Let_def split: if_splits dest!: map_close_length)

lemma malloc_length: "malloc mp n = Some (a, mp') \<Longrightarrow> length (mapent mp') = length (mapent mp)"
  by (auto simp: malloc_def malloc_scan_length split: if_splits option.splits)

lemma mfree_find_append: "mfree_find a es = Some (p, s) \<Longrightarrow> es = p @ s"
  by (induction es arbitrary: p) (auto split: if_splits)

lemma mfree_close_length: "mfree_close es = Some es' \<Longrightarrow> length es' = length es"
  by (induction es arbitrary: es' rule: mfree_close.induct) (auto split: if_splits)

lemma mfree_insert_length: "mfree_insert n a es = Some es' \<Longrightarrow> length es' = length es"
  by (induction es arbitrary: n a es') (auto split: if_splits)

lemma mfree_length:
  assumes "mfree mp n a = Some (MFreed mp' w)"
  shows "length (mapent mp') = length (mapent mp)"
proof (cases "n = 0")
  case False
  with assms obtain p b r where "mfree_find a (mapent mp) = Some (p, b # r)"
    by (auto simp: mfree_def split: option.splits list.splits)
  then show ?thesis
    using assms False mfree_find_append [of a "mapent mp" p "b # r"]
    by (auto simp: mfree_def mfree_wake_sel Let_def split: if_splits option.splits
        dest!: mfree_close_length mfree_insert_length)
qed (use assms in \<open>simp add: mfree_def\<close>)

lemma live_ok_bound: "live_ok lb es \<Longrightarrow> \<forall>e \<in> set es. ent_hi e < 2 ^ 32"
  by (induction es arbitrary: lb) auto

text \<open>Releasing the block just allocated restores the map.\<close>

lemma malloc_mfree_restore:
  assumes ok: "rmap_ok mp" and n: "n \<noteq> 0" and m: "malloc mp n = Some (a, mp')" and a: "a \<noteq> 0"
  shows "mfree mp' n a = Some (MFreed (mp\<lparr>mapwant := 0\<rparr>) (mapwant mp \<noteq> 0))"
proof -
  from ok obtain live k where rep: "rmap_rep mp live k" by (auto simp: rmap_ok_def)
  from malloc_rep [OF rep n] m obtain live' k' where rep': "rmap_rep mp' live' k'"
    and post: "scan_post 0 live k n a live' k'" and w: "mapwant mp' = mapwant mp"
    by auto
  have sub: "block a n \<subseteq> free_units mp" and diff: "free_units mp' = free_units mp - block a n"
    using post a free_units_rep [OF rep] free_units_rep [OF rep'] by (simp_all add: scan_post_def block_def)
  have ok': "rmap_ok mp'" using rep' by (auto simp: rmap_ok_def)
  have live: "live_ok 0 live" and pos: "0 < unat n"
    using rep n by (auto simp: rmap_rep_def unat_gt_0)
  have "\<exists>e \<in> set live. unat a + unat n \<le> ent_hi e"
    using run_in_entry [OF live, of "unat a" "unat n"] sub pos free_units_rep [OF rep]
    by (auto simp: block_def)
  then have bnd: "unat a + unat n < 2 ^ 32"
    using live_ok_bound [OF live] by fastforce
  have disj: "block a n \<inter> free_units mp' = {}" using diff by blast
  have not_lost: "mfree mp' n a \<noteq> Some (MLost mp')"
  proof
    assume lost: "mfree mp' n a = Some (MLost mp')"
    then have "mapsize mp' = 0" and apart: "\<forall>e \<in> set (mapent mp'). m_size e \<noteq> 0 \<longrightarrow> ent_lo e \<noteq> unat a + unat n"
      using mfree_contract [OF ok' n a bnd disj] by auto
    then have "k' = k" using rep' post by (auto simp: scan_post_def rmap_rep_def)
    then obtain e where "e \<in> set live'" "ent_lo e = unat a + unat n"
      using post a by (auto simp: scan_post_def)
    moreover from this have "m_size e \<noteq> 0"
      using live_ok_entry [of 0 live' e] rep' by (auto simp: rmap_rep_def)
    ultimately show False using apart rep' by (auto simp: rmap_rep_def)
  qed
  then obtain mp'' where free: "mfree mp' n a = Some (MFreed mp'' (mapwant mp' \<noteq> 0))"
    and ok'': "rmap_ok mp''" and fu: "free_units mp'' = free_units mp' \<union> block a n"
    and w'': "mapwant mp'' = 0"
    using mfree_contract [OF ok' n a bnd disj] by auto
  have "length (mapent mp'') = length (mapent mp)"
    using malloc_length [OF m] mfree_length [OF free] by simp
  moreover have "free_units mp'' = free_units mp" using fu diff sub by blast
  ultimately have "mapent mp'' = mapent mp \<and> mapsize mp'' = mapsize mp"
    using rmap_canonical ok ok'' by blast
  then have "mp'' = mp\<lparr>mapwant := 0\<rparr>" using w'' by simp
  then show ?thesis using free w by simp
qed


section \<open>The interface the IPC facilities rely on\<close>

text \<open>The map after a release, or \<open>None\<close> when the units could not be recorded.\<close>

definition mfree_map :: "rmap \<Rightarrow> u32 \<Rightarrow> u32 \<Rightarrow> rmap option" where
  "mfree_map mp n a = (case mfree mp n a of Some (MFreed mp' w) \<Rightarrow> Some mp' | _ \<Rightarrow> None)"

text \<open>Blocks held by clients: none of their units is free and no two of them overlap.\<close>

fun held :: "nat set \<Rightarrow> (u32 \<times> u32) list \<Rightarrow> bool" where
  "held F [] \<longleftrightarrow> True"
| "held F ((a, n) # bs) \<longleftrightarrow> a \<noteq> 0 \<and> n \<noteq> 0 \<and> unat a + unat n < 2 ^ 32 \<and>
     block a n \<inter> F = {} \<and> (\<forall>(b, k) \<in> set bs. block a n \<inter> block b k = {}) \<and> held F bs"

lemma held_subset: "held F bs \<Longrightarrow> G \<subseteq> F \<Longrightarrow> held G bs"
  by (induction F bs rule: held.induct) auto

lemma held_disjoint: "held F bs \<Longrightarrow> (b, k) \<in> set bs \<Longrightarrow> block b k \<inter> F = {}"
  by (induction F bs rule: held.induct) auto

lemma held_union:
  "held F bs \<Longrightarrow> (\<And>b k. (b, k) \<in> set bs \<Longrightarrow> block b k \<inter> B = {}) \<Longrightarrow> held (F \<union> B) bs"
proof (induction F bs rule: held.induct)
  case (2 F a n bs)
  have "block a n \<inter> B = {}" using "2.prems"(2) [of a n] by simp
  with 2 show ?case by (simp add: Int_Un_distrib)
qed simp

locale resource_allocator =
  fixes inv :: "'m \<Rightarrow> bool"
    and avail :: "'m \<Rightarrow> nat set"
    and alloc :: "'m \<Rightarrow> u32 \<Rightarrow> (u32 \<times> 'm) option"
    and release :: "'m \<Rightarrow> u32 \<Rightarrow> u32 \<Rightarrow> 'm option"
  assumes avail_bound: "inv m \<Longrightarrow> x \<in> avail m \<Longrightarrow> 0 < x \<and> Suc x < 2 ^ 32"
    and alloc_returns: "inv m \<Longrightarrow> n \<noteq> 0 \<Longrightarrow> \<exists>a m'. alloc m n = Some (a, m') \<and> inv m'"
    and alloc_fail: "inv m \<Longrightarrow> n \<noteq> 0 \<Longrightarrow> alloc m n = Some (0, m') \<Longrightarrow> m' = m"
    and alloc_block: "inv m \<Longrightarrow> n \<noteq> 0 \<Longrightarrow> alloc m n = Some (a, m') \<Longrightarrow> a \<noteq> 0 \<Longrightarrow>
          block a n \<subseteq> avail m \<and> avail m' = avail m - block a n"
    and release_block: "inv m \<Longrightarrow> n \<noteq> 0 \<Longrightarrow> a \<noteq> 0 \<Longrightarrow> unat a + unat n < 2 ^ 32 \<Longrightarrow>
          block a n \<inter> avail m = {} \<Longrightarrow> release m n a = Some m' \<Longrightarrow>
          inv m' \<and> avail m' = avail m \<union> block a n"
begin

lemma alloc_inv: "inv m \<Longrightarrow> n \<noteq> 0 \<Longrightarrow> alloc m n = Some (a, m') \<Longrightarrow> inv m'"
  using alloc_returns [of m n] by auto

lemma alloc_bound:
  assumes "inv m" "n \<noteq> 0" "alloc m n = Some (a, m')" "a \<noteq> 0"
  shows "unat a + unat n < 2 ^ 32"
proof -
  have "0 < unat n" using assms(2) by (simp add: unat_gt_0)
  then have "unat a + (unat n - 1) \<in> block a n" by (auto simp: block_def)
  then show ?thesis
    using alloc_block [OF assms] avail_bound [OF assms(1)] \<open>0 < unat n\<close> by fastforce
qed

lemma alloc_held:
  assumes h: "held (avail m) bs" and inv: "inv m" and n: "n \<noteq> 0"
    and al: "alloc m n = Some (a, m')" and a: "a \<noteq> 0"
  shows "held (avail m') ((a, n) # bs)"
proof -
  note blk = alloc_block [OF inv n al a]
  have "\<forall>(b, k) \<in> set bs. block a n \<inter> block b k = {}"
    using held_disjoint [OF h] blk by blast
  moreover have "held (avail m') bs"
    using held_subset [OF h] blk by blast
  ultimately show ?thesis using alloc_bound [OF inv n al a] a n blk by auto
qed

lemma release_held:
  assumes h: "held (avail m) ((a, n) # bs)" and inv: "inv m" and re: "release m n a = Some m'"
  shows "inv m' \<and> held (avail m') bs"
proof -
  have "inv m' \<and> avail m' = avail m \<union> block a n"
    using h release_block [OF inv _ _ _ _ re] by simp
  moreover have "held (avail m \<union> block a n) bs"
    using h by (intro held_union) auto
  ultimately show ?thesis by simp
qed

end

interpretation rm: resource_allocator rmap_ok free_units malloc mfree_map
proof unfold_locales
  fix m x assume ok: "rmap_ok m" and x: "x \<in> free_units m"
  then obtain live k where rep: "rmap_rep m live k" by (auto simp: rmap_ok_def)
  then have live: "live_ok 0 live" by (simp add: rmap_rep_def)
  obtain e where "e \<in> set live" "x \<in> ent_units e"
    using x free_units_rep [OF rep] by (auto simp: units_def)
  then show "0 < x \<and> Suc x < 2 ^ 32"
    using live_ok_bound [OF live] live_ok_entry [OF live] by (fastforce simp: ent_units_def)
next
  fix m n assume "rmap_ok m" "n \<noteq> (0 :: u32)"
  then show "\<exists>a m'. malloc m n = Some (a, m') \<and> rmap_ok m'"
    using malloc_contract by blast
next
  fix m n m' assume "rmap_ok m" "n \<noteq> (0 :: u32)" "malloc m n = Some (0, m')"
  then show "m' = m" using malloc_contract [of m n] by auto
next
  fix m n a m' assume "rmap_ok m" "n \<noteq> (0 :: u32)" "malloc m n = Some (a, m')" "a \<noteq> 0"
  then show "block a n \<subseteq> free_units m \<and> free_units m' = free_units m - block a n"
    using malloc_contract [of m n] by auto
next
  fix m n a m' assume "rmap_ok m" "n \<noteq> (0 :: u32)" "a \<noteq> 0" "unat a + unat n < 2 ^ 32"
    "block a n \<inter> free_units m = {}" "mfree_map m n a = Some m'"
  then show "rmap_ok m' \<and> free_units m' = free_units m \<union> block a n"
    using mfree_contract [of m n a] by (auto simp: mfree_map_def)
qed

section \<open>Properties\<close>

text \<open>A map with the units 1 to 10 free and three spare slots, and a process waiting for space.\<close>

definition demo_map :: rmap where
  "demo_map = \<lparr>mapsize = 3, mapwant = 1,
     mapent = [\<lparr>m_size = 10, m_addr = 1\<rparr>, zero_ent, zero_ent, zero_ent, zero_ent]\<rparr>"

lemma demo_map_rep: "rmap_rep demo_map [\<lparr>m_size = 10, m_addr = 1\<rparr>] (Suc (Suc (Suc 0)))"
  by (simp add: rmap_rep_def demo_map_def)

lemma demo_map_ok: "rmap_ok demo_map"
  using demo_map_rep by (auto simp: rmap_ok_def)

lemma demo_map_free: "free_units demo_map = {1 ..< 11}"
  using free_units_rep [OF demo_map_rep] by (simp add: ent_units_def)

lemma demo_map_malloc:
  "malloc demo_map 4 =
     Some (1, demo_map\<lparr>mapent :=
       [\<lparr>m_size = 6, m_addr = 5\<rparr>, zero_ent, zero_ent, zero_ent, zero_ent]\<rparr>)"
  by (simp add: malloc_def demo_map_def Let_def)

text \<open>C28. From a well-formed map a request of \<open>n\<close> units always returns, leaves the map
  well-formed, and either fails with 0 and no change because no entry is large enough, or takes
  exactly the block it returns out of the free units.\<close>

theorem malloc_correct:
  assumes "rmap_ok mp" "n \<noteq> 0"
  shows "\<exists>a mp'. malloc mp n = Some (a, mp') \<and> rmap_ok mp' \<and>
     (if a = 0 then mp' = mp \<and> (\<forall>e \<in> set (mapent mp). m_size e < n)
      else block a n \<subseteq> free_units mp \<and> free_units mp' = free_units mp - block a n)"
  using assms by (rule malloc_contract)

theorem malloc_correct_witness:
  "\<exists>a mp'. malloc demo_map 4 = Some (a, mp') \<and> rmap_ok mp' \<and>
     (if a = 0 then mp' = demo_map \<and> (\<forall>e \<in> set (mapent demo_map). m_size e < 4)
      else block a 4 \<subseteq> free_units demo_map \<and> free_units mp' = free_units demo_map - block a 4)"
  by (rule malloc_correct [OF demo_map_ok]) simp



text \<open>C30. Releasing a block of which no unit is free returns: either the map stays well-formed with
  exactly that block added and the sleepers woken when \<open>mapwant\<close> was set, or the units are lost,
  which happens only with no slot left and no entry touching the block.\<close>

theorem mfree_correct:
  assumes "rmap_ok mp" "n \<noteq> 0" "a \<noteq> 0" "unat a + unat n < 2 ^ 32"
    and "block a n \<inter> free_units mp = {}"
  shows "(\<exists>mp'. mfree mp n a = Some (MFreed mp' (mapwant mp \<noteq> 0)) \<and> rmap_ok mp' \<and>
            free_units mp' = free_units mp \<union> block a n \<and> mapwant mp' = 0) \<or>
         (mfree mp n a = Some (MLost mp) \<and> mapsize mp = 0 \<and>
            (\<forall>e \<in> set (mapent mp). m_size e \<noteq> 0 \<longrightarrow>
               ent_hi e \<noteq> unat a \<and> ent_lo e \<noteq> unat a + unat n))"
  using assms by (rule mfree_contract)

theorem mfree_correct_witness:
  "(\<exists>mp'. mfree demo_map 2 20 = Some (MFreed mp' (mapwant demo_map \<noteq> 0)) \<and> rmap_ok mp' \<and>
            free_units mp' = free_units demo_map \<union> block 20 2 \<and> mapwant mp' = 0) \<or>
         (mfree demo_map 2 20 = Some (MLost demo_map) \<and> mapsize demo_map = 0 \<and>
            (\<forall>e \<in> set (mapent demo_map). m_size e \<noteq> 0 \<longrightarrow>
               ent_hi e \<noteq> unat (20 :: u32) \<and> ent_lo e \<noteq> unat (20 :: u32) + unat (2 :: u32)))"
  by (rule mfree_correct [OF demo_map_ok]) (auto simp: demo_map_free block_def)

text \<open>C31. Round trip: releasing the block just allocated never loses units and restores every slot
  of the array and the slot count; it also wakes the sleepers.\<close>

theorem malloc_then_mfree:
  assumes "rmap_ok mp" "n \<noteq> 0" "malloc mp n = Some (a, mp')" "a \<noteq> 0"
  shows "mfree mp' n a = Some (MFreed (mp\<lparr>mapwant := 0\<rparr>) (mapwant mp \<noteq> 0))"
  using assms by (rule malloc_mfree_restore)

theorem malloc_then_mfree_witness:
  "mfree (demo_map\<lparr>mapent :=
       [\<lparr>m_size = 6, m_addr = 5\<rparr>, zero_ent, zero_ent, zero_ent, zero_ent]\<rparr>) 4 1 =
     Some (MFreed (demo_map\<lparr>mapwant := 0\<rparr>) (mapwant demo_map \<noteq> 0))"
  by (rule malloc_then_mfree [OF demo_map_ok _ demo_map_malloc]) simp_all

end
