(* ===== verification/Chains.thy ===== *)
theory Chains
  imports Prelude
begin

text \<open>
  Linked lists in kernel tables.  A link field is a function from slots to pointers; a list is
  related to the slots it visits.  \<open>walk\<close> is the loop \<open>for (p = head; p; p = p->next)\<close>, with fuel
  because the links of a corrupt table may form a cycle; a list of a table with enough fuel is
  always walked to its end.
\<close>

section \<open>Segments and lists\<close>

fun seg :: "(nat \<Rightarrow> ptr) \<Rightarrow> ptr \<Rightarrow> nat list \<Rightarrow> ptr \<Rightarrow> bool" where
  "seg nx p [] q \<longleftrightarrow> p = q"
| "seg nx p (a # as) q \<longleftrightarrow> p = Some a \<and> seg nx (nx a) as q"

definition linked :: "(nat \<Rightarrow> ptr) \<Rightarrow> ptr \<Rightarrow> nat list \<Rightarrow> bool" where
  "linked nx p as \<longleftrightarrow> seg nx p as None"

lemma linked_simps [simp]:
  "linked nx p [] \<longleftrightarrow> p = None"
  "linked nx p (a # as) \<longleftrightarrow> p = Some a \<and> linked nx (nx a) as"
  by (simp_all add: linked_def)

lemma linked_None [simp]: "linked nx None as \<longleftrightarrow> as = []"
  by (cases as) auto

lemma linked_Some: "linked nx (Some a) as \<longleftrightarrow> (\<exists>bs. as = a # bs \<and> linked nx (nx a) bs)"
  by (cases as) auto

lemma seg_append: "seg nx p (as @ bs) q \<longleftrightarrow> (\<exists>m. seg nx p as m \<and> seg nx m bs q)"
  by (induction as arbitrary: p) auto

lemma linked_append: "linked nx p (as @ bs) \<longleftrightarrow> (\<exists>m. seg nx p as m \<and> linked nx m bs)"
  by (simp add: linked_def seg_append)

lemma seg_update [simp]: "a \<notin> set as \<Longrightarrow> seg (nx(a := v)) p as q \<longleftrightarrow> seg nx p as q"
  by (induction as arbitrary: p) auto

lemma linked_update [simp]: "a \<notin> set as \<Longrightarrow> linked (nx(a := v)) p as \<longleftrightarrow> linked nx p as"
  by (simp add: linked_def)

lemma seg_cong: "(\<And>a. a \<in> set as \<Longrightarrow> nx a = nx' a) \<Longrightarrow> seg nx p as q = seg nx' p as q"
  by (induction as arbitrary: p) auto

lemma linked_cong: "(\<And>a. a \<in> set as \<Longrightarrow> nx a = nx' a) \<Longrightarrow> linked nx p as = linked nx' p as"
  unfolding linked_def by (rule seg_cong)

lemma linked_unique: "linked nx p as \<Longrightarrow> linked nx p bs \<Longrightarrow> as = bs"
proof (induction as arbitrary: p bs)
  case (Cons a as)
  then obtain cs where bs: "bs = a # cs" "linked nx (nx a) cs" by (cases bs) auto
  have "linked nx (nx a) as" using Cons.prems(1) by simp
  from Cons.IH [OF this bs(2)] bs(1) show ?case by simp
qed simp

lemma linked_suffix: "linked nx p (as @ a # bs) \<Longrightarrow> linked nx (Some a) (a # bs)"
  by (auto simp: linked_append)

lemma linked_distinct: "linked nx p as \<Longrightarrow> distinct as"
proof (induction as arbitrary: p)
  case (Cons a as)
  have "a \<notin> set as"
  proof
    assume "a \<in> set as"
    then obtain xs ys where as: "as = xs @ a # ys" by (auto simp: in_set_conv_decomp)
    have "linked nx (Some a) (a # ys)" using Cons.prems as by (auto simp: linked_append)
    moreover have "linked nx (Some a) (a # as)" using Cons.prems by simp
    ultimately have "a # as = a # ys" by (blast dest: linked_unique)
    then have "length as = length ys" by simp
    then show False using as by simp
  qed
  with Cons show ?case by auto
qed simp

text \<open>The last cell of a list is the one whose link is \<open>NULL\<close>.\<close>

lemma linked_last: "linked nx p as \<Longrightarrow> as \<noteq> [] \<Longrightarrow> nx (last as) = None"
  by (induction as arbitrary: p) auto

lemma linked_snoc:
  "linked nx p (as @ [a]) \<Longrightarrow> b \<notin> set (as @ [a]) \<Longrightarrow> nx b = None \<Longrightarrow>
   linked (nx(a := Some b)) p (as @ [a, b])"
  using linked_distinct [of nx p "as @ [a]"] by (auto simp: linked_append)

section \<open>Walking a list\<close>

fun walk :: "nat \<Rightarrow> (nat \<Rightarrow> ptr) \<Rightarrow> ptr \<Rightarrow> nat list option" where
  "walk fuel nx None = Some []"
| "walk 0 nx (Some a) = None"
| "walk (Suc fuel) nx (Some a) = map_option ((#) a) (walk fuel nx (nx a))"

lemma walk_linked: "linked nx p as \<Longrightarrow> length as \<le> fuel \<Longrightarrow> walk fuel nx p = Some as"
proof (induction as arbitrary: p fuel)
  case (Cons a as)
  then show ?case by (cases fuel) auto
qed simp

lemma walk_sound: "walk fuel nx p = Some as \<Longrightarrow> linked nx p as"
  by (induction fuel nx p arbitrary: as rule: walk.induct) auto

text \<open>Fuel of the size of the table is always enough.\<close>

lemma linked_length: "linked nx p as \<Longrightarrow> set as \<subseteq> {..< N} \<Longrightarrow> length as \<le> N"
  using linked_distinct [of nx p as] card_mono [of "{..< N}" "set as"]
  by (simp add: distinct_card)

lemma walk_table: "linked nx p as \<Longrightarrow> set as \<subseteq> {..< N} \<Longrightarrow> walk N nx p = Some as"
  by (simp add: walk_linked linked_length)

text \<open>The search for the cell before a given one: \<open>for (q = head; q; q = q->next) if (q->next == t) break\<close>.\<close>

fun find_pred :: "nat \<Rightarrow> (nat \<Rightarrow> ptr) \<Rightarrow> ptr \<Rightarrow> nat \<Rightarrow> ptr option" where
  "find_pred fuel nx None t = Some None"
| "find_pred 0 nx (Some p) t = None"
| "find_pred (Suc fuel) nx (Some p) t =
     (if nx p = Some t then Some (Some p) else find_pred fuel nx (nx p) t)"

lemma find_pred_found:
  "linked nx p (as @ a # t # bs) \<Longrightarrow> length as < fuel \<Longrightarrow> find_pred fuel nx p t = Some (Some a)"
proof (induction as arbitrary: p fuel)
  case Nil
  then show ?case by (cases fuel) auto
next
  case (Cons b as)
  then obtain f where f: "fuel = Suc f" by (cases fuel) auto
  have p: "p = Some b" "linked nx (nx b) (as @ a # t # bs)" using Cons.prems(1) by auto
  have "nx b = Some (hd (as @ [a]))" using p(2) by (cases as) auto
  moreover have "hd (as @ [a]) \<noteq> t"
    using linked_distinct [OF p(2)] by (cases as) auto
  ultimately show ?case using Cons.IH [OF p(2), of f] Cons.prems(2) p f by simp
qed

lemma find_pred_absent:
  "linked nx p as \<Longrightarrow> length as \<le> fuel \<Longrightarrow> t \<notin> set (tl as) \<Longrightarrow> find_pred fuel nx p t = Some None"
proof (induction as arbitrary: p fuel)
  case (Cons a as)
  then obtain f where f: "fuel = Suc f" by (cases fuel) auto
  have "nx a \<noteq> Some t" using Cons.prems by (cases as) auto
  moreover have "t \<notin> set (tl as)" using Cons.prems(3) by (cases as) auto
  ultimately show ?case using Cons f by simp
qed simp

text \<open>Taking a cell out of the middle of a list.\<close>

lemma linked_remove:
  assumes l: "linked nx p (as @ a # t # bs)"
  shows "linked (nx(a := nx t)) p (as @ a # bs)"
proof -
  have "distinct (as @ a # t # bs)" by (rule linked_distinct [OF l])
  then show ?thesis using l by (auto simp: linked_append)
qed

section \<open>Doubly linked lists\<close>

text \<open>
  A list linked in both directions: every cell also points to the one before it, the first one to \<open>q\<close>.
\<close>

definition hdp :: "nat list \<Rightarrow> ptr" where
  "hdp xs = (case xs of [] \<Rightarrow> None | a # _ \<Rightarrow> Some a)"

definition lastp :: "ptr \<Rightarrow> nat list \<Rightarrow> ptr" where
  "lastp q xs = (if xs = [] then q else Some (last xs))"

lemma hdp_simps [simp]: "hdp [] = None" "hdp (a # as) = Some a"
  by (simp_all add: hdp_def)

lemma hdp_append: "hdp (xs @ ys) = (if xs = [] then hdp ys else hdp xs)"
  by (cases xs) simp_all

lemma hdp_None [simp]: "hdp xs = None \<longleftrightarrow> xs = []"
  by (cases xs) simp_all

lemma hdp_in: "hdp xs = Some a \<Longrightarrow> a \<in> set xs"
  by (cases xs) simp_all

lemma lastp_simps [simp]: "lastp q [] = q" "lastp q (xs @ [a]) = Some a" "lastp q [a] = Some a"
  by (simp_all add: lastp_def)

lemma lastp_Cons: "lastp q (a # as) = lastp (Some a) as"
  by (simp add: lastp_def)

fun dseg :: "(nat \<Rightarrow> ptr) \<Rightarrow> (nat \<Rightarrow> ptr) \<Rightarrow> ptr \<Rightarrow> nat list \<Rightarrow> ptr \<Rightarrow> ptr \<Rightarrow> bool" where
  "dseg nx pv q [] p m \<longleftrightarrow> p = m"
| "dseg nx pv q (a # as) p m \<longleftrightarrow> p = Some a \<and> pv a = q \<and> dseg nx pv (Some a) as (nx a) m"

definition dlinked :: "(nat \<Rightarrow> ptr) \<Rightarrow> (nat \<Rightarrow> ptr) \<Rightarrow> ptr \<Rightarrow> nat list \<Rightarrow> bool" where
  "dlinked nx pv p as \<longleftrightarrow> dseg nx pv None as p None"

lemma dseg_append: "dseg nx pv q (xs @ ys) p m \<longleftrightarrow> (\<exists>k. dseg nx pv q xs p k \<and> dseg nx pv (lastp q xs) ys k m)"
  by (induction xs arbitrary: p q) (auto simp: lastp_Cons)

lemma dseg_hdp: "dseg nx pv q as p None \<Longrightarrow> p = hdp as"
  by (cases as) auto

lemma dseg_split: "dseg nx pv q (xs @ ys) p None \<longleftrightarrow> dseg nx pv q xs p (hdp ys) \<and> dseg nx pv (lastp q xs) ys (hdp ys) None"
  unfolding dseg_append by (auto dest: dseg_hdp)

lemma dseg_snoc: "dseg nx pv q (xs @ [a]) p m \<longleftrightarrow> dseg nx pv q xs p (Some a) \<and> pv a = lastp q xs \<and> nx a = m"
  by (auto simp: dseg_append)

lemma dseg_seg: "dseg nx pv q as p m \<Longrightarrow> seg nx p as m"
  by (induction as arbitrary: p q) auto

lemma dlinked_linked: "dlinked nx pv p as \<Longrightarrow> linked nx p as"
  unfolding dlinked_def linked_def by (rule dseg_seg)

lemma dlinked_distinct: "dlinked nx pv p as \<Longrightarrow> distinct as"
  by (rule linked_distinct [OF dlinked_linked])

lemma dlinked_hdp: "dlinked nx pv p as \<Longrightarrow> p = hdp as"
  unfolding dlinked_def by (rule dseg_hdp)

lemma dlinked_Nil [simp]: "dlinked nx pv p [] \<longleftrightarrow> p = None"
  by (simp add: dlinked_def)

lemma dseg_cong:
  "\<forall>a\<in>set as. nx' a = nx a \<and> pv' a = pv a \<Longrightarrow> dseg nx' pv' q as p m = dseg nx pv q as p m"
  by (induction as arbitrary: p q) auto

lemma dlinked_cong:
  "\<forall>a\<in>set as. nx' a = nx a \<and> pv' a = pv a \<Longrightarrow> dlinked nx pv p as \<Longrightarrow> dlinked nx' pv' p as"
  unfolding dlinked_def by (simp only: dseg_cong)

text \<open>The neighbours of a cell.\<close>

lemma dlinked_at:
  assumes "dlinked nx pv p (xs @ a # ys)"
  shows "nx a = hdp ys" "pv a = lastp None xs"
proof -
  from assms have d: "dseg nx pv (lastp None xs) (a # ys) (Some a) None"
    unfolding dlinked_def dseg_split by simp
  then show "pv a = lastp None xs" by simp
  from d show "nx a = hdp ys" by (auto dest: dseg_hdp)
qed

lemma dlinked_next:
  "dlinked nx pv p (xs @ ys) \<Longrightarrow> xs \<noteq> [] \<Longrightarrow> nx (last xs) = hdp ys"
  by (cases xs rule: rev_cases) (auto dest: dlinked_at(1) [of nx pv p _ _ ys])

text \<open>Inserting a cell, and taking one out: only the links of the neighbours change.\<close>

lemma dseg_relink_end:
  assumes "dseg nx pv q xs p m" "distinct xs" "\<forall>a\<in>set xs. pv' a = pv a"
    "\<forall>a\<in>set xs. lastp None xs \<noteq> Some a \<longrightarrow> nx' a = nx a" "xs \<noteq> [] \<Longrightarrow> nx' (last xs) = m'"
    "p' = (if xs = [] then m' else p)"
  shows "dseg nx' pv' q xs p' m'"
proof (cases xs rule: rev_cases)
  case (snoc zs a)
  then have "\<forall>b\<in>set zs. nx' b = nx b \<and> pv' b = pv b" using assms(2,3,4) by auto
  then show ?thesis using assms snoc by (simp add: dseg_snoc dseg_cong [of zs nx' nx pv' pv])
qed (use assms(6) in simp)

lemma dseg_relink_start:
  assumes "dseg nx pv q ys p None" "distinct ys" "\<forall>a\<in>set ys. nx' a = nx a"
    "\<forall>a\<in>set ys. hdp ys \<noteq> Some a \<longrightarrow> pv' a = pv a" "ys \<noteq> [] \<Longrightarrow> pv' (hd ys) = q'"
  shows "dseg nx' pv' q' ys p None"
proof (cases ys)
  case (Cons a zs)
  then have "\<forall>b\<in>set zs. nx' b = nx b \<and> pv' b = pv b" using assms(2,3,4) by auto
  then show ?thesis using assms Cons by (simp add: dseg_cong [of zs nx' nx pv' pv])
qed (use assms(1) in simp)

lemma lastp_apart: "distinct (xs @ ys) \<Longrightarrow> a \<in> set ys \<Longrightarrow> lastp None xs \<noteq> Some a"
  by (cases xs rule: rev_cases) auto

lemma hdp_apart: "distinct (xs @ ys) \<Longrightarrow> a \<in> set xs \<Longrightarrow> hdp ys \<noteq> Some a"
  by (auto dest: hdp_in)

lemma dlinked_insert:
  assumes d: "dlinked nx pv p (xs @ ys)"
    and nx: "nx' n = hdp ys" "xs \<noteq> [] \<Longrightarrow> nx' (last xs) = Some n"
      "\<forall>a\<in>set (xs @ ys). lastp None xs \<noteq> Some a \<longrightarrow> nx' a = nx a"
    and pv: "pv' n = lastp None xs" "ys \<noteq> [] \<Longrightarrow> pv' (hd ys) = Some n"
      "\<forall>a\<in>set (xs @ ys). hdp ys \<noteq> Some a \<longrightarrow> pv' a = pv a"
    and p: "p' = (if xs = [] then Some n else p)"
  shows "dlinked nx' pv' p' (xs @ n # ys)"
proof -
  have dis: "distinct (xs @ ys)" by (rule dlinked_distinct [OF d])
  note apart = lastp_apart [OF dis] hdp_apart [OF dis]
  have dx: "dseg nx pv None xs p (hdp ys)" and dy: "dseg nx pv (lastp None xs) ys (hdp ys) None"
    using d unfolding dlinked_def dseg_split by simp_all
  have "dseg nx' pv' None xs p' (Some n)"
    by (rule dseg_relink_end [OF dx]) (use dis nx pv p apart in auto)
  moreover have "dseg nx' pv' (Some n) ys (hdp ys) None"
    by (rule dseg_relink_start [OF dy]) (use dis nx pv p apart in auto)
  ultimately show ?thesis unfolding dlinked_def dseg_split using nx(1) pv(1) by simp
qed

lemma dlinked_delete:
  assumes d: "dlinked nx pv p (xs @ n # ys)"
    and nx: "xs \<noteq> [] \<Longrightarrow> nx' (last xs) = nx n" "\<forall>a\<in>set (xs @ ys). lastp None xs \<noteq> Some a \<longrightarrow> nx' a = nx a"
    and pv: "ys \<noteq> [] \<Longrightarrow> pv' (hd ys) = pv n" "\<forall>a\<in>set (xs @ ys). hdp ys \<noteq> Some a \<longrightarrow> pv' a = pv a"
    and p: "p' = (if xs = [] then nx n else p)"
  shows "dlinked nx' pv' p' (xs @ ys)"
proof -
  have dis: "distinct (xs @ ys)" using dlinked_distinct [OF d] by simp
  note apart = lastp_apart [OF dis] hdp_apart [OF dis]
  have dx: "dseg nx pv None xs p (Some n)" and dy: "dseg nx pv (Some n) ys (hdp ys) None"
    and nn: "nx n = hdp ys" and pn: "pv n = lastp None xs"
    using d dlinked_at [OF d] unfolding dlinked_def dseg_split by simp_all
  have "dseg nx' pv' None xs p' (hdp ys)"
    by (rule dseg_relink_end [OF dx]) (use dis nx pv p nn apart in auto)
  moreover have "dseg nx' pv' (lastp None xs) ys (hdp ys) None"
    by (rule dseg_relink_start [OF dy]) (use dis nx pv p pn apart in auto)
  ultimately show ?thesis unfolding dlinked_def dseg_split by simp
qed

section \<open>The lists of a table\<close>

text \<open>
  Several lists share the cells \<open>0 ..< N\<close> of a table: each cell is in exactly one list, or in hand
  (\<open>H\<close>), taken off one list and not yet put on another.
\<close>

definition chains :: "(nat \<Rightarrow> ptr) \<Rightarrow> ('c \<Rightarrow> ptr) \<Rightarrow> 'c set \<Rightarrow> ('c \<Rightarrow> nat list) \<Rightarrow> nat set \<Rightarrow> nat \<Rightarrow> bool" where
  "chains nx hp D L H N \<longleftrightarrow> (\<forall>c\<in>D. linked nx (hp c) (L c)) \<and>
     (\<forall>c\<in>D. \<forall>d\<in>D. c \<noteq> d \<longrightarrow> set (L c) \<inter> set (L d) = {}) \<and>
     (\<forall>c\<in>D. set (L c) \<inter> H = {}) \<and> (\<Union>c\<in>D. set (L c)) \<union> H = {..< N}"

lemma chainsD:
  assumes "chains nx hp D L H N"
  shows "c \<in> D \<Longrightarrow> linked nx (hp c) (L c)"
    "c \<in> D \<Longrightarrow> d \<in> D \<Longrightarrow> a \<in> set (L c) \<Longrightarrow> a \<in> set (L d) \<Longrightarrow> c = d"
    "c \<in> D \<Longrightarrow> a \<in> set (L c) \<Longrightarrow> a \<notin> H"
    "c \<in> D \<Longrightarrow> a \<in> set (L c) \<Longrightarrow> a < N" "a \<in> H \<Longrightarrow> a < N"
    "a < N \<Longrightarrow> a \<in> H \<or> (\<exists>c\<in>D. a \<in> set (L c))"
  using assms unfolding chains_def by auto

lemma chains_length: "chains nx hp D L H N \<Longrightarrow> c \<in> D \<Longrightarrow> length (L c) \<le> N"
  by (rule linked_length [where nx = nx and p = "hp c"]) (auto dest: chainsD)

lemma chains_walk: "chains nx hp D L H N \<Longrightarrow> c \<in> D \<Longrightarrow> walk N nx (hp c) = Some (L c)"
  by (rule walk_linked) (auto dest: chainsD chains_length)

lemma chains_distinct: "chains nx hp D L H N \<Longrightarrow> c \<in> D \<Longrightarrow> distinct (L c)"
  by (rule linked_distinct) (rule chainsD(1))

text \<open>One list and the cells in hand change; the links of the other lists' cells stay.\<close>

lemma chains_relink:
  assumes c: "chains nx hp D L H N" and cD: "c \<in> D"
    and l: "linked nx' (hp' c) xs" and u: "set xs \<union> H' = set (L c) \<union> H" and d: "set xs \<inter> H' = {}"
    and nx: "\<And>a. a \<notin> set (L c) \<Longrightarrow> a \<notin> H \<Longrightarrow> nx' a = nx a" and hp: "\<And>e. e \<noteq> c \<Longrightarrow> hp' e = hp e"
  shows "chains nx' hp' D (L(c := xs)) H' N"
proof -
  have o: "linked nx' (hp' e) (L e)" if e: "e \<in> D" "e \<noteq> c" for e
  proof -
    have "linked nx (hp e) (L e)" using c e(1) by (rule chainsD)
    moreover have "nx' a = nx a" if "a \<in> set (L e)" for a
      using that e cD chainsD(2,3) [OF c, of e] by (blast intro: nx)
    ultimately show ?thesis using hp [OF e(2)] linked_cong [of "L e" nx nx' "hp e"] by simp
  qed
  have dis: "set xs \<inter> set (L e) = {}" "set (L e) \<inter> H' = {}" if e: "e \<in> D" "e \<noteq> c" for e
  proof -
    have "(set (L c) \<union> H) \<inter> set (L e) = {}" using chainsD(2,3) [OF c, of e] e cD by blast
    with u show "set xs \<inter> set (L e) = {}" "set (L e) \<inter> H' = {}" by blast+
  qed
  have un: "(\<Union>e\<in>D. set ((L(c := xs)) e)) \<union> H' = {..< N}"
  proof -
    have split: "(\<Union>e\<in>D. set ((L(c := M)) e)) = set M \<union> (\<Union>e\<in>D - {c}. set (L e))" for M using cD by (auto split: if_splits)
    have "set (L c) \<union> (\<Union>e\<in>D - {c}. set (L e)) \<union> H = {..< N}"
      using c split [of "L c"] unfolding chains_def by simp
    then show ?thesis unfolding split using u by blast
  qed
  show ?thesis unfolding chains_def
  proof (intro conjI ballI impI)
    fix e assume "e \<in> D" then show "linked nx' (hp' e) ((L(c := xs)) e)" using o l by (cases "e = c") auto
  next
    fix e assume "e \<in> D" then show "set ((L(c := xs)) e) \<inter> H' = {}" using dis d by (cases "e = c") auto
  next
    fix e f assume ef: "e \<in> D" "f \<in> D" "e \<noteq> f"
    moreover have "set (L e) \<inter> set (L f) = {}" using ef chainsD(2) [OF c, of e f] by blast
    ultimately show "set ((L(c := xs)) e) \<inter> set ((L(c := xs)) f) = {}"
      using dis [of e] dis [of f] by (cases "e = c"; cases "f = c") auto
  qed (rule un)
qed

lemma chains_pop:
  assumes c: "chains nx hp D L H N" "c \<in> D" "L c = a # as"
    and hp': "hp' c = nx a" "\<And>e. e \<noteq> c \<Longrightarrow> hp' e = hp e"
  shows "chains nx hp' D (L(c := as)) (insert a H) N"
proof (rule chains_relink [OF c(1,2) _ _ _ _ hp'(2)])
  have l: "linked nx (hp c) (a # as)" using chainsD(1) [OF c(1,2)] c(3) by simp
  then show "linked nx (hp' c) as" using hp' by simp
  show "set as \<union> insert a H = set (L c) \<union> H" using c(3) by auto
  show "set as \<inter> insert a H = {}" using linked_distinct [OF l] chainsD(3) [OF c(1,2)] c(3) by auto
qed simp_all

lemma chains_push:
  assumes c: "chains nx hp D L H N" "c \<in> D" "a \<in> H"
    and nx': "nx' a = hp c" "\<And>b. b \<noteq> a \<Longrightarrow> nx' b = nx b"
    and hp': "hp' c = Some a" "\<And>e. e \<noteq> c \<Longrightarrow> hp' e = hp e"
  shows "chains nx' hp' D (L(c := a # L c)) (H - {a}) N"
proof (rule chains_relink [OF c(1,2) _ _ _ _ hp'(2)])
  have "a \<notin> set (L c)" using chainsD(3) [OF c(1,2)] c(3) by blast
  then have "linked nx' (hp c) (L c)"
    using chainsD(1) [OF c(1,2)] nx'(2) linked_cong [of "L c" nx nx' "hp c"] by metis
  then show "linked nx' (hp' c) (a # L c)" using hp' nx' by simp
  show "set (a # L c) \<union> (H - {a}) = set (L c) \<union> H" using c(3) by auto
  show "set (a # L c) \<inter> (H - {a}) = {}" using chainsD(3) [OF c(1,2)] by auto
qed (use c(3) nx'(2) in \<open>metis, simp\<close>)

lemma chains_unlink:
  assumes c: "chains nx hp D L H N" "c \<in> D" "L c = xs @ p # a # ys"
    and nx': "nx' p = nx a" "\<And>b. b \<noteq> p \<Longrightarrow> nx' b = nx b"
  shows "chains nx' hp D (L(c := xs @ p # ys)) (insert a H) N"
proof (rule chains_relink [OF c(1,2)])
  have l: "linked nx (hp c) (xs @ p # a # ys)" using chainsD(1) [OF c(1,2)] c(3) by simp
  have "nx' = nx(p := nx a)" using nx' by (auto simp: fun_eq_iff)
  then show "linked nx' (hp c) (xs @ p # ys)" using linked_remove [OF l] by simp
  show "set (xs @ p # ys) \<union> insert a H = set (L c) \<union> H" using c(3) by auto
  show "set (xs @ p # ys) \<inter> insert a H = {}"
    using linked_distinct [OF l] chainsD(3) [OF c(1,2)] c(3) by auto
  show "\<And>b. b \<notin> set (L c) \<Longrightarrow> b \<notin> H \<Longrightarrow> nx' b = nx b" using nx'(2) c(3) by auto
qed simp

lemma chains_snoc:
  assumes c: "chains nx hp D L H N" "c \<in> D" "a \<in> H"
    and nx': "nx' a = None" "L c \<noteq> [] \<Longrightarrow> nx' (last (L c)) = Some a"
      "\<And>b. b \<noteq> a \<Longrightarrow> (L c \<noteq> [] \<Longrightarrow> b \<noteq> last (L c)) \<Longrightarrow> nx' b = nx b"
    and hp': "hp' c = (if L c = [] then Some a else hp c)" "\<And>e. e \<noteq> c \<Longrightarrow> hp' e = hp e"
  shows "chains nx' hp' D (L(c := L c @ [a])) (H - {a}) N"
proof (rule chains_relink [OF c(1,2) _ _ _ _ hp'(2)])
  have a: "a \<notin> set (L c)" using chainsD(3) [OF c(1,2)] c(3) by blast
  show "linked nx' (hp' c) (L c @ [a])"
  proof (cases "L c" rule: rev_cases)
    case (snoc zs l)
    have l: "linked nx (hp c) (zs @ [l])" using chainsD(1) [OF c(1,2)] snoc by simp
    have "linked (nx(a := None)) (hp c) (zs @ [l])" using l a snoc by simp
    then have "linked ((nx(a := None))(l := Some a)) (hp c) (zs @ [l, a])"
      by (rule linked_snoc) (use a snoc in auto)
    moreover have "nx' = (nx(a := None))(l := Some a)" using nx' snoc a by (auto simp: fun_eq_iff)
    ultimately show ?thesis using hp' snoc by simp
  qed (use nx' hp' in simp)
  show "set (L c @ [a]) \<union> (H - {a}) = set (L c) \<union> H" using c(3) by auto
  show "set (L c @ [a]) \<inter> (H - {a}) = {}" using chainsD(3) [OF c(1,2)] by auto
  show "\<And>b. b \<notin> set (L c) \<Longrightarrow> b \<notin> H \<Longrightarrow> nx' b = nx b" using nx'(3) c(3) by (metis last_in_set)
qed

section \<open>FIFO interfaces\<close>

text \<open>
  A component that behaves as a first-in first-out queue, by a relation between its states and
  the sequence it holds.  \<open>put\<close> may refuse; \<open>get\<close> refuses only when nothing is held.
\<close>

fun put_all :: "('a \<Rightarrow> 's \<Rightarrow> 's option) \<Rightarrow> 'a list \<Rightarrow> 's \<Rightarrow> 's option" where
  "put_all put [] s = Some s"
| "put_all put (x # xs) s = Option.bind (put x s) (put_all put xs)"

fun get_many :: "('s \<Rightarrow> ('a \<times> 's) option) \<Rightarrow> nat \<Rightarrow> 's \<Rightarrow> 'a list \<times> 's" where
  "get_many get 0 s = ([], s)"
| "get_many get (Suc n) s = (case get s of None \<Rightarrow> ([], s)
     | Some (x, s') \<Rightarrow> let (xs, t) = get_many get n s' in (x # xs, t))"

locale fifo =
  fixes rep :: "'s \<Rightarrow> 'a list \<Rightarrow> bool"
    and put :: "'a \<Rightarrow> 's \<Rightarrow> 's option"
    and get :: "'s \<Rightarrow> ('a \<times> 's) option"
  assumes put_rep: "rep s q \<Longrightarrow> put x s = Some s' \<Longrightarrow> rep s' (q @ [x])"
    and get_empty: "rep s [] \<Longrightarrow> get s = None"
    and get_first: "rep s (x # q) \<Longrightarrow> \<exists>s'. get s = Some (x, s') \<and> rep s' q"
begin

lemma put_all_rep: "rep s q \<Longrightarrow> put_all put xs s = Some s' \<Longrightarrow> rep s' (q @ xs)"
proof (induction xs arbitrary: s q)
  case (Cons x xs)
  then obtain t where "put x s = Some t" "put_all put xs t = Some s'"
    by (auto simp: Option.bind_eq_Some_conv)
  with Cons.IH [of t "q @ [x]"] put_rep [OF Cons.prems(1)] show ?case by simp
qed simp

lemma get_many_rep: "rep s q \<Longrightarrow> fst (get_many get n s) = take n q \<and> rep (snd (get_many get n s)) (drop n q)"
proof (induction n arbitrary: s q)
  case (Suc n)
  show ?case
  proof (cases q)
    case Nil
    then show ?thesis using Suc.prems get_empty by simp
  next
    case (Cons x r)
    with get_first Suc.prems obtain s' where "get s = Some (x, s')" "rep s' r" by blast
    with Suc.IH [of s' r] Cons show ?thesis by (simp add: case_prod_beta Let_def)
  qed
qed simp

lemma fifo_order:
  assumes "rep s q" "put_all put xs s = Some s'"
  shows "fst (get_many get (length q + length xs) s') = q @ xs"
  using get_many_rep [OF put_all_rep [OF assms]] by simp

end

end
