(* ===== verification/Clist.thy ===== *)
theory Clist
  imports Chains
begin

text \<open>
  Character lists of the tty drivers: \<open>io/clist.c\<close> over the \<open>cblock\<close> pool of \<open>sys/tty.h\<close>.  The pool
  is a table of blocks linked through \<open>c_next\<close>; \<open>cf_next\<close>, \<open>cf_size\<close> and \<open>cf_flag\<close> are the fields of
  \<open>cfreelist\<close>, and \<open>cf_wakes\<close> counts the calls \<open>wakeup(&cfreelist)\<close>.  The operations run at
  \<open>splhi\<close>, so each of them is one atomic step.  \<open>None\<close> stands for following a \<open>NULL\<close> pointer.
\<close>

section \<open>State and operations\<close>

record cblock =
  c_next :: ptr
  c_first :: u8
  c_last :: u8
  c_data :: "nat \<Rightarrow> u8"

record cpool =
  cblk :: "nat \<Rightarrow> cblock"
  cf_next :: ptr
  cf_size :: nat
  cf_flag :: bool
  cf_wakes :: nat
  cfreecnt :: nat

record clist =
  c_cc :: int
  c_cf :: ptr
  c_cl :: ptr

abbreviation upd_blk :: "nat \<Rightarrow> (cblock \<Rightarrow> cblock) \<Rightarrow> cpool \<Rightarrow> cpool" where
  "upd_blk b f st \<equiv> st\<lparr>cblk := (cblk st)(b := f (cblk st b))\<rparr>"

text \<open>Push a block on the free list and wake whoever waits for one.\<close>

definition cfree_push :: "nat \<Rightarrow> cpool \<Rightarrow> cpool" where
  "cfree_push b st =
     (let st1 = upd_blk b (\<lambda>bp. bp\<lparr>c_next := cf_next st\<rparr>) st;
          st2 = st1\<lparr>cf_next := Some b\<rparr>
      in if cf_flag st2 then st2\<lparr>cf_flag := False, cf_wakes := cf_wakes st2 + 1\<rparr> else st2)"

definition getc :: "cpool \<Rightarrow> clist \<Rightarrow> (int \<times> cpool \<times> clist) option" where
  "getc st p =
     (if 0 < c_cc p then
        (case c_cf p of
           None \<Rightarrow> None
         | Some b \<Rightarrow>
             let bp = cblk st b;
                 c = uint (c_data bp (unat (c_first bp)));
                 p1 = p\<lparr>c_cc := c_cc p - 1\<rparr>;
                 bp1 = bp\<lparr>c_first := c_first bp + 1\<rparr>;
                 st1 = upd_blk b (\<lambda>_. bp1) st
             in if c_first bp1 = c_last bp1 then
                  (let p2 = p1\<lparr>c_cf := c_next bp1\<rparr>;
                       p3 = (if c_cf p2 = None then p2\<lparr>c_cl := None\<rparr> else p2)
                   in Some (c, cfree_push b st1, p3))
                else Some (c, st1, p1))
      else Some (- 1, st, p))"

text \<open>The block \<open>putc\<close> appends to: the last block if it has room, else a fresh one linked behind it.\<close>

definition putc_block :: "cpool \<Rightarrow> clist \<Rightarrow> (nat \<times> cpool \<times> clist) option" where
  "putc_block st p =
     (case c_cl p of
        Some b \<Rightarrow>
          if unat (c_last (cblk st b)) = cf_size st then
            (case cf_next st of
               None \<Rightarrow> None
             | Some nb \<Rightarrow>
                 let st1 = st\<lparr>cf_next := c_next (cblk st nb)\<rparr>;
                     st2 = upd_blk nb (\<lambda>bp. bp\<lparr>c_next := None, c_first := 0, c_last := 0\<rparr>) st1;
                     st3 = upd_blk b (\<lambda>bp. bp\<lparr>c_next := Some nb\<rparr>) st2
                 in Some (nb, st3, p\<lparr>c_cl := Some nb\<rparr>))
          else Some (b, st, p)
      | None \<Rightarrow>
          (case cf_next st of
             None \<Rightarrow> None
           | Some nb \<Rightarrow>
               let st1 = st\<lparr>cf_next := c_next (cblk st nb)\<rparr>;
                   st2 = upd_blk nb (\<lambda>bp. bp\<lparr>c_next := None, c_first := 0, c_last := 0\<rparr>) st1
               in Some (nb, st2, p\<lparr>c_cf := Some nb, c_cl := Some nb\<rparr>)))"

definition putc :: "int \<Rightarrow> cpool \<Rightarrow> clist \<Rightarrow> int \<times> cpool \<times> clist" where
  "putc c st p =
     (case putc_block st p of
        None \<Rightarrow> (- 1, st, p)
      | Some (b, st1, p1) \<Rightarrow>
          (0, upd_blk b (\<lambda>bp. bp\<lparr>c_data := (c_data bp)(unat (c_last bp) := word_of_int c),
                                 c_last := c_last bp + 1\<rparr>) st1,
           p1\<lparr>c_cc := c_cc p1 + 1\<rparr>))"

definition getcf :: "cpool \<Rightarrow> ptr \<times> cpool" where
  "getcf st =
     (case cf_next st of
        None \<Rightarrow> (None, st)
      | Some b \<Rightarrow>
          (Some b, upd_blk b (\<lambda>bp. bp\<lparr>c_next := None, c_first := 0, c_last := word_of_nat (cf_size st)\<rparr>)
             (st\<lparr>cf_next := c_next (cblk st b)\<rparr>)))"

definition putcf :: "nat \<Rightarrow> cpool \<Rightarrow> cpool" where
  "putcf b st = cfree_push b st"

text \<open>The number of characters in a block, as the difference of two \<open>char\<close> fields.\<close>

definition blk_count :: "cblock \<Rightarrow> int" where
  "blk_count bp = uint (c_last bp) - uint (c_first bp)"

definition getcb :: "cpool \<Rightarrow> clist \<Rightarrow> ptr \<times> clist" where
  "getcb st p =
     (case c_cf p of
        None \<Rightarrow> (None, p)
      | Some b \<Rightarrow>
          let p1 = p\<lparr>c_cc := c_cc p - blk_count (cblk st b), c_cf := c_next (cblk st b)\<rparr>
          in (Some b, if c_cf p1 = None then p1\<lparr>c_cl := None\<rparr> else p1))"

definition putcb :: "nat \<Rightarrow> cpool \<Rightarrow> clist \<Rightarrow> cpool \<times> clist" where
  "putcb b st p =
     (let (st1, p1) = (case c_cl p of
             None \<Rightarrow> (st, p\<lparr>c_cf := Some b\<rparr>)
           | Some ob \<Rightarrow> (upd_blk ob (\<lambda>bp. bp\<lparr>c_next := Some b\<rparr>) st, p));
          st2 = upd_blk b (\<lambda>bp. bp\<lparr>c_next := None\<rparr>) st1
      in (st2, p1\<lparr>c_cl := Some b, c_cc := c_cc p + blk_count (cblk st2 b)\<rparr>))"

section \<open>Initialisation\<close>

text \<open>
  \<open>CLSIZE\<close>, the 64K boundary macro, and the page and segment sizes of the 3B2; a \<open>struct cblock\<close>
  takes 72 bytes.  \<open>svirtophys\<close> and \<open>kseg\<close> are the memory system's: the physical address of a
  block's data, and the first block of the \<open>i\<close>-th segment obtained, or \<open>None\<close>, on which the
  kernel panics.
\<close>

definition CLSIZE :: nat where "CLSIZE = 64"
definition BOUND :: nat where "BOUND = 65536"
definition nextbound :: "nat \<Rightarrow> nat" where "nextbound x = x div BOUND * BOUND + BOUND"

fun cinit_seg :: "(nat \<Rightarrow> nat) \<Rightarrow> nat \<Rightarrow> nat \<Rightarrow> cpool \<Rightarrow> cpool" where
  "cinit_seg svirtophys cp 0 st = st"
| "cinit_seg svirtophys cp (Suc n) st =
     cinit_seg svirtophys (Suc cp) n
       (let addr = svirtophys cp in
        if addr + CLSIZE \<le> nextbound addr
        then upd_blk cp (\<lambda>bp. bp\<lparr>c_next := cf_next st\<rparr>)
               (st\<lparr>cf_next := Some cp, cfreecnt := cfreecnt st + 1\<rparr>)
        else st)"

fun cinit_segs :: "(nat \<Rightarrow> nat) \<Rightarrow> (nat \<Rightarrow> nat \<Rightarrow> nat option) \<Rightarrow> nat \<Rightarrow> nat \<Rightarrow> nat \<Rightarrow> cpool \<Rightarrow> cpool option"
where
  "cinit_segs svirtophys kseg r i 0 st = Some st"
| "cinit_segs svirtophys kseg r i (Suc m) st =
     (let j = (if m = 0 \<and> 0 < r then r else 64);
          ncpseg = j * 2048 div 72
      in case kseg i j of
           None \<Rightarrow> None
         | Some cfree \<Rightarrow> cinit_segs svirtophys kseg r (Suc i) m (cinit_seg svirtophys cfree ncpseg st))"

definition cinit :: "(nat \<Rightarrow> nat) \<Rightarrow> (nat \<Rightarrow> nat \<Rightarrow> nat option) \<Rightarrow> nat \<Rightarrow> cpool \<Rightarrow> cpool option" where
  "cinit svirtophys kseg v_clist st =
     (let n = (v_clist * 72 + 2047) div 2048;
          m = (n + 63) div 64;
          r = n mod 64
      in map_option (\<lambda>st'. st'\<lparr>cf_size := CLSIZE\<rparr>) (cinit_segs svirtophys kseg r 0 m st))"

section \<open>Abstraction and invariant\<close>

abbreviation nexts :: "cpool \<Rightarrow> nat \<Rightarrow> ptr" where
  "nexts st \<equiv> c_next \<circ> cblk st"

definition blk_bytes :: "cblock \<Rightarrow> u8 list" where
  "blk_bytes bp = map (c_data bp) [unat (c_first bp) ..< unat (c_last bp)]"

definition blk_ok :: "nat \<Rightarrow> cblock \<Rightarrow> bool" where
  "blk_ok sz bp \<longleftrightarrow> c_first bp < c_last bp \<and> unat (c_last bp) \<le> sz"

definition cbytes :: "cpool \<Rightarrow> nat list \<Rightarrow> u8 list" where
  "cbytes st bs = concat (map (\<lambda>b. blk_bytes (cblk st b)) bs)"

text \<open>
  \<open>bs\<close> are the blocks of the list \<open>p\<close> in order and \<open>fs\<close> the free blocks: two disjoint chains, every
  block of \<open>p\<close> non-empty and within its data area, the tail pointer and the count right.
\<close>

definition clist_rep :: "cpool \<Rightarrow> clist \<Rightarrow> nat list \<Rightarrow> nat list \<Rightarrow> bool" where
  "clist_rep st p bs fs \<longleftrightarrow>
     linked (nexts st) (c_cf p) bs \<and> linked (nexts st) (cf_next st) fs \<and> set bs \<inter> set fs = {} \<and>
     c_cl p = (if bs = [] then None else Some (last bs)) \<and>
     (\<forall>b \<in> set bs. blk_ok (cf_size st) (cblk st b)) \<and>
     c_cc p = int (length (cbytes st bs)) \<and> 0 < cf_size st \<and> cf_size st < 256"

lemma cbytes_simps [simp]:
  "cbytes st [] = []" "cbytes st (b # bs) = blk_bytes (cblk st b) @ cbytes st bs"
  "cbytes st (bs @ cs) = cbytes st bs @ cbytes st cs"
  by (simp_all add: cbytes_def)

lemma cbytes_cong: "(\<And>b. b \<in> set bs \<Longrightarrow> blk_bytes (cblk st b) = blk_bytes (cblk st' b)) \<Longrightarrow> cbytes st bs = cbytes st' bs"
  unfolding cbytes_def by (metis (mono_tags, lifting) map_cong)

lemma blk_ok_split:
  "blk_ok sz bp \<Longrightarrow> blk_bytes bp = c_data bp (unat (c_first bp)) # blk_bytes (bp\<lparr>c_first := c_first bp + 1\<rparr>)"
proof -
  assume ok: "blk_ok sz bp"
  then have lt: "unat (c_first bp) < unat (c_last bp)" by (simp add: blk_ok_def word_as_nat)
  moreover have "unat (c_last bp) < 256" by (rule unat_u8)
  ultimately have "unat (c_first bp + 1) = Suc (unat (c_first bp))"
    by (subst unat_plus_exact) auto
  with lt show ?thesis by (simp add: blk_bytes_def upt_conv_Cons)
qed


lemma blk_ok_step:
  "blk_ok sz bp \<Longrightarrow> c_first bp + 1 \<noteq> c_last bp \<Longrightarrow> blk_ok sz (bp\<lparr>c_first := c_first bp + 1\<rparr>)"
  unfolding blk_ok_def using inc_le [of "c_first bp" "c_last bp"] by (simp add: less_le)

lemma cfree_push_sel [simp]:
  "nexts (cfree_push b st) = (nexts st)(b := cf_next st)"
  "cf_next (cfree_push b st) = Some b"
  "cf_size (cfree_push b st) = cf_size st"
  "a \<noteq> b \<Longrightarrow> cblk (cfree_push b st) a = cblk st a"
  by (auto simp: cfree_push_def Let_def fun_upd_comp)

lemma clist_rep_Cons:
  assumes rep: "clist_rep st p (b # r) fs"
  shows "c_cf p = Some b" "b \<notin> set r" "b \<notin> set fs" "blk_ok (cf_size st) (cblk st b)"
    "linked (nexts st) (c_next (cblk st b)) r" "0 < c_cc p"
    "c_next (cblk st b) = None \<longleftrightarrow> r = []"
proof -
  have l: "linked (nexts st) (c_cf p) (b # r)" and ok: "blk_ok (cf_size st) (cblk st b)"
    using rep by (auto simp: clist_rep_def)
  then show "c_cf p = Some b" "linked (nexts st) (c_next (cblk st b)) r" "b \<notin> set r" "b \<notin> set fs"
      "blk_ok (cf_size st) (cblk st b)" "c_next (cblk st b) = None \<longleftrightarrow> r = []"
    using linked_distinct [OF l] rep by (cases r; auto simp: clist_rep_def)+
  show "0 < c_cc p"
    using rep blk_ok_split [OF ok] by (simp add: clist_rep_def)
qed

lemma getc_rep:
  assumes rep: "clist_rep st p bs fs" and c: "cbytes st bs = x # q"
  shows "\<exists>st' p' bs' fs'. getc st p = Some (uint x, st', p') \<and> clist_rep st' p' bs' fs' \<and>
           cbytes st' bs' = q \<and> set bs' \<union> set fs' = set bs \<union> set fs \<and>
           cf_size st' = cf_size st \<and> (\<forall>b. b \<notin> set bs \<longrightarrow> cblk st' b = cblk st b)"
proof -
  obtain b r where bs: "bs = b # r" using c by (cases bs) auto
  note rep' = rep [unfolded bs]
  note cell = clist_rep_Cons [OF rep']
  let ?bp = "cblk st b"
  let ?bp1 = "?bp\<lparr>c_first := c_first ?bp + 1\<rparr>"
  have x: "x = c_data ?bp (unat (c_first ?bp))" and q: "q = blk_bytes ?bp1 @ cbytes st r"
    using c bs blk_ok_split [OF cell(4)] by auto
  have r_eq: "cbytes st' r = cbytes st r" if "\<And>a. a \<noteq> b \<Longrightarrow> cblk st' a = cblk st a" for st'
    using that cell(2) by (intro cbytes_cong) metis
  show ?thesis
  proof (cases "c_first ?bp + 1 = c_last ?bp")
    case True
    then have e: "blk_bytes ?bp1 = []" by (simp add: blk_bytes_def)
    let ?st = "cfree_push b (upd_blk b (\<lambda>_. ?bp1) st)"
    let ?p = "p\<lparr>c_cc := c_cc p - 1, c_cf := c_next ?bp, c_cl := (if c_next ?bp = None then None else c_cl p)\<rparr>"
    have "getc st p = Some (uint x, ?st, ?p)"
      using cell True x by (simp add: getc_def Let_def)
    moreover have bytes: "cbytes ?st r = q"
      using r_eq [of ?st] q e by simp
    moreover have same: "\<And>a. a \<noteq> b \<Longrightarrow> cblk ?st a = cblk st a" by simp
    have "\<forall>a \<in> set r. cblk ?st a = cblk st a"
      using cell(2) by (metis same)
    then have "clist_rep ?st ?p r (b # fs)"
      using rep' cell bytes e q blk_ok_split [OF cell(4)]
      by (auto simp: clist_rep_def fun_upd_comp)
    ultimately show ?thesis using bs by (fastforce simp: cfree_push_sel(4))
  next
    case False
    let ?st = "upd_blk b (\<lambda>_. ?bp1) st"
    let ?p = "p\<lparr>c_cc := c_cc p - 1\<rparr>"
    have "blk_ok (cf_size st) ?bp1"
      using cell(4) False by (rule blk_ok_step)
    moreover have "getc st p = Some (uint x, ?st, ?p)"
      using cell False x by (simp add: getc_def Let_def)
    moreover have bytes: "cbytes ?st bs = q"
      using r_eq [of ?st] q bs by simp
    ultimately have "clist_rep ?st ?p bs fs" "getc st p = Some (uint x, ?st, ?p)" "cbytes ?st bs = q"
      using rep' cell bs q blk_ok_split [OF cell(4)]
      by (auto simp: clist_rep_def fun_upd_comp)
    then show ?thesis using bs by fastforce
  qed
qed


lemma getc_empty: "clist_rep st p bs fs \<Longrightarrow> cbytes st bs = [] \<Longrightarrow> getc st p = Some (- 1, st, p)"
  by (simp add: getc_def clist_rep_def)

lemma clist_rep_tail:
  "clist_rep st p bs fs \<Longrightarrow> c_cl p = Some b \<Longrightarrow> \<exists>r. bs = r @ [b] \<and> b \<notin> set r \<and> b \<notin> set fs \<and>
     blk_ok (cf_size st) (cblk st b) \<and> c_next (cblk st b) = None"
proof -
  assume rep: "clist_rep st p bs fs" and t: "c_cl p = Some b"
  then obtain r where bs: "bs = r @ [b]"
    by (cases bs rule: rev_cases) (auto simp: clist_rep_def)
  then show ?thesis
    using rep linked_distinct [of "nexts st" "c_cf p" bs] linked_last [of "nexts st" "c_cf p" bs]
    by (auto simp: clist_rep_def)
qed

text \<open>Appending a byte to the tail block.\<close>

definition store_byte :: "u8 \<Rightarrow> cblock \<Rightarrow> cblock" where
  "store_byte x bp = bp\<lparr>c_data := (c_data bp)(unat (c_last bp) := x), c_last := c_last bp + 1\<rparr>"

lemma store_byte_bytes:
  assumes "c_first bp \<le> c_last bp" "unat (c_last bp) < 255"
  shows "blk_bytes (store_byte x bp) = blk_bytes bp @ [x]"
    and "unat (c_last (store_byte x bp)) = Suc (unat (c_last bp))"
proof -
  show l: "unat (c_last (store_byte x bp)) = Suc (unat (c_last bp))"
    using assms by (simp add: store_byte_def word_nat)
  show "blk_bytes (store_byte x bp) = blk_bytes bp @ [x]"
    using assms l by (simp add: blk_bytes_def store_byte_def word_as_nat)
qed

lemma putc_store:
  assumes "putc_block st p = Some (b, st1, p1)"
  shows "putc c st p = (0, upd_blk b (store_byte (word_of_int c)) st1, p1\<lparr>c_cc := c_cc p1 + 1\<rparr>)"
  using assms by (simp add: putc_def store_byte_def)


text \<open>A list whose last block \<open>b\<close> is open for one more byte (and may be empty when it is fresh).\<close>

definition open_rep :: "cpool \<Rightarrow> clist \<Rightarrow> nat list \<Rightarrow> nat \<Rightarrow> nat list \<Rightarrow> u8 list \<Rightarrow> bool" where
  "open_rep st p r b fs q \<longleftrightarrow>
     linked (nexts st) (c_cf p) (r @ [b]) \<and> linked (nexts st) (cf_next st) fs \<and>
     set (r @ [b]) \<inter> set fs = {} \<and> c_cl p = Some b \<and>
     (\<forall>a \<in> set r. blk_ok (cf_size st) (cblk st a)) \<and>
     c_first (cblk st b) \<le> c_last (cblk st b) \<and> unat (c_last (cblk st b)) < cf_size st \<and>
     cbytes st (r @ [b]) = q \<and> c_cc p = int (length q) \<and> cf_size st < 256"

lemma open_rep_store:
  assumes op: "open_rep st p r b fs q"
  shows "clist_rep (upd_blk b (store_byte x) st) (p\<lparr>c_cc := c_cc p + 1\<rparr>) (r @ [b]) fs \<and>
         cbytes (upd_blk b (store_byte x) st) (r @ [b]) = q @ [x]"
proof -
  let ?st = "upd_blk b (store_byte x) st"
  have d: "b \<notin> set r" "b \<notin> set fs"
    using op linked_distinct [of "nexts st" "c_cf p" "r @ [b]"] by (auto simp: open_rep_def)
  have le: "c_first (cblk st b) \<le> c_last (cblk st b)" and lt: "unat (c_last (cblk st b)) < 255"
    using op by (auto simp: open_rep_def)
  note sb = store_byte_bytes [OF le lt, of x]
  have nx: "nexts ?st = nexts st" by (auto simp: store_byte_def)
  have "cbytes ?st r = cbytes st r" using d by (intro cbytes_cong) auto
  then have bytes: "cbytes ?st (r @ [b]) = q @ [x]"
    using op sb by (simp add: open_rep_def)
  have okr: "\<forall>a \<in> set r. blk_ok (cf_size st) (cblk ?st a)"
    using op d by (auto simp: open_rep_def)
  have okb: "blk_ok (cf_size st) (store_byte x (cblk st b))"
    using op le sb(2) by (simp add: open_rep_def blk_ok_def word_as_nat store_byte_def)
  have "clist_rep ?st (p\<lparr>c_cc := c_cc p + 1\<rparr>) (r @ [b]) fs"
    unfolding clist_rep_def bytes nx using op okr okb
    by (auto simp: open_rep_def)
  then show ?thesis using bytes by blast
qed

lemma putc_block_room:
  assumes rep: "clist_rep st p (r @ [b]) fs" and room: "unat (c_last (cblk st b)) \<noteq> cf_size st"
  shows "putc_block st p = Some (b, st, p)" "open_rep st p r b fs (cbytes st (r @ [b]))"
proof -
  have "c_cl p = Some b" using rep by (simp add: clist_rep_def)
  then show "putc_block st p = Some (b, st, p)" using room by (simp add: putc_block_def)
  show "open_rep st p r b fs (cbytes st (r @ [b]))"
    using rep room by (auto simp: clist_rep_def open_rep_def blk_ok_def)
qed

lemma putc_block_extend:
  assumes rep: "clist_rep st p (r @ [b]) (nb # fs)"
    and full: "unat (c_last (cblk st b)) = cf_size st"
  shows "\<exists>st1 p1. putc_block st p = Some (nb, st1, p1) \<and>
           open_rep st1 p1 (r @ [b]) nb fs (cbytes st (r @ [b])) \<and> cf_size st1 = cf_size st \<and>
           (\<forall>a. a \<notin> set (r @ [b]) \<union> set (nb # fs) \<longrightarrow> cblk st1 a = cblk st a)"
proof -
  let ?st1 = "upd_blk nb (\<lambda>bp. bp\<lparr>c_next := None, c_first := 0, c_last := 0\<rparr>)
      (st\<lparr>cf_next := c_next (cblk st nb)\<rparr>)"
  let ?st = "upd_blk b (\<lambda>bp. bp\<lparr>c_next := Some nb\<rparr>) ?st1"
  let ?p = "p\<lparr>c_cl := Some nb\<rparr>"
  have bs: "linked (nexts st) (c_cf p) (r @ [b])" and fs: "linked (nexts st) (cf_next st) (nb # fs)"
    and disj: "set (r @ [b]) \<inter> set (nb # fs) = {}" and cl: "c_cl p = Some b"
    using rep by (auto simp: clist_rep_def)
  have d: "b \<notin> set r" "b \<noteq> nb" "nb \<notin> set r" "nb \<notin> set fs" "b \<notin> set fs"
    using linked_distinct [OF bs] linked_distinct [OF fs] disj by auto
  have "putc_block st p = Some (nb, ?st, ?p)"
    using cl full fs by (simp add: putc_block_def Let_def)
  moreover have "nexts ?st = (nexts ?st1)(b := Some nb)"
    by (auto simp: fun_upd_comp)
  moreover have "linked ((nexts ?st1)(b := Some nb)) (c_cf p) (r @ [b, nb])"
    using bs d by (intro linked_snoc) (auto simp: fun_upd_comp)
  moreover have "cbytes ?st (r @ [b]) = cbytes st (r @ [b])"
    using d by (intro cbytes_cong) (auto simp: blk_bytes_def)
  moreover have "\<forall>a \<in> set (r @ [b]). blk_ok (cf_size st) (cblk ?st a)"
    using rep d by (auto simp: clist_rep_def blk_ok_def)
  ultimately have "putc_block st p = Some (nb, ?st, ?p) \<and>
      open_rep ?st ?p (r @ [b]) nb fs (cbytes st (r @ [b])) \<and> cf_size ?st = cf_size st \<and>
      (\<forall>a. a \<notin> set (r @ [b]) \<union> set (nb # fs) \<longrightarrow> cblk ?st a = cblk st a)"
    using rep d fs disj by (simp add: open_rep_def clist_rep_def blk_bytes_def fun_upd_comp)
  then show ?thesis by blast
qed

lemma putc_block_fresh:
  assumes rep: "clist_rep st p [] (nb # fs)"
  shows "\<exists>st1 p1. putc_block st p = Some (nb, st1, p1) \<and> open_rep st1 p1 [] nb fs [] \<and>
           cf_size st1 = cf_size st \<and> (\<forall>a. a \<notin> set (nb # fs) \<longrightarrow> cblk st1 a = cblk st a)"
proof -
  let ?st = "upd_blk nb (\<lambda>bp. bp\<lparr>c_next := None, c_first := 0, c_last := 0\<rparr>)
      (st\<lparr>cf_next := c_next (cblk st nb)\<rparr>)"
  have fs: "linked (nexts st) (cf_next st) (nb # fs)" using rep by (simp add: clist_rep_def)
  have "putc_block st p = Some (nb, ?st, p\<lparr>c_cf := Some nb, c_cl := Some nb\<rparr>)"
    using rep by (simp add: putc_block_def clist_rep_def)
  moreover have "open_rep ?st (p\<lparr>c_cf := Some nb, c_cl := Some nb\<rparr>) [] nb fs []"
    using rep linked_distinct [OF fs]
    by (simp add: open_rep_def clist_rep_def fun_upd_comp blk_bytes_def)
  ultimately show ?thesis by auto
qed

lemma putc_block_none:
  assumes rep: "clist_rep st p bs []" and full: "bs \<noteq> [] \<longrightarrow> unat (c_last (cblk st (last bs))) = cf_size st"
  shows "putc_block st p = None"
  using rep full by (auto simp: putc_block_def clist_rep_def)

text \<open>\<open>putc\<close> either refuses, with nothing changed, or appends its byte.\<close>

lemma putc_rep:
  assumes rep: "clist_rep st p bs fs"
  shows "(putc c st p = (- 1, st, p) \<and> fs = [] \<and>
            (bs \<noteq> [] \<longrightarrow> unat (c_last (cblk st (last bs))) = cf_size st)) \<or>
         (\<exists>st' p' bs' fs'. putc c st p = (0, st', p') \<and> clist_rep st' p' bs' fs' \<and>
            cbytes st' bs' = cbytes st bs @ [word_of_int c] \<and> set bs' \<union> set fs' = set bs \<union> set fs \<and>
            cf_size st' = cf_size st \<and> (\<forall>a. a \<notin> set bs \<union> set fs \<longrightarrow> cblk st' a = cblk st a))"
proof -
  have fin: "\<exists>st' p' bs' fs'. putc c st p = (0, st', p') \<and> clist_rep st' p' bs' fs' \<and>
        cbytes st' bs' = cbytes st bs @ [word_of_int c] \<and> set bs' \<union> set fs' = set bs \<union> set fs \<and>
        cf_size st' = cf_size st \<and> (\<forall>a. a \<notin> set bs \<union> set fs \<longrightarrow> cblk st' a = cblk st a)"
    if "putc_block st p = Some (b, st1, p1)" "open_rep st1 p1 r b fs1 (cbytes st bs)"
      "set (r @ [b]) \<union> set fs1 = set bs \<union> set fs" "cf_size st1 = cf_size st"
      "\<forall>a. a \<notin> set bs \<union> set fs \<longrightarrow> cblk st1 a = cblk st a" for b st1 p1 r fs1
  proof -
    let ?st = "upd_blk b (store_byte (word_of_int c)) st1"
    have "cf_size ?st = cf_size st" "\<forall>a. a \<notin> set bs \<union> set fs \<longrightarrow> cblk ?st a = cblk st a"
      using that(3-5) by auto
    then show ?thesis
      using putc_store [OF that(1), of c] open_rep_store [OF that(2), of "word_of_int c"] that(3) by blast
  qed
  show ?thesis
  proof (cases "bs \<noteq> [] \<and> unat (c_last (cblk st (last bs))) \<noteq> cf_size st")
    case True
    then obtain r b where bs: "bs = r @ [b]" by (metis rev_exhaust)
    then show ?thesis
      using putc_block_room [of st p r b fs] rep True fin [of b st p r fs] by auto
  next
    case notroom: False
    show ?thesis
    proof (cases fs)
      case Nil
      then show ?thesis using putc_block_none [of st p bs] rep notroom by (auto simp: putc_def)
    next
      case fs: (Cons nb fs1)
      show ?thesis
      proof (cases bs rule: rev_cases)
        case Nil
        then obtain st1 p1 where "putc_block st p = Some (nb, st1, p1)"
          "open_rep st1 p1 [] nb fs1 (cbytes st bs)" "cf_size st1 = cf_size st"
          "\<forall>a. a \<notin> set bs \<union> set fs \<longrightarrow> cblk st1 a = cblk st a"
          using putc_block_fresh [of st p nb fs1] rep fs by auto
        then show ?thesis using fin [of nb st1 p1 "[]" fs1] Nil fs by auto
      next
        case (snoc r b)
        then obtain st1 p1 where "putc_block st p = Some (nb, st1, p1)"
          "open_rep st1 p1 (r @ [b]) nb fs1 (cbytes st bs)" "cf_size st1 = cf_size st"
          "\<forall>a. a \<notin> set bs \<union> set fs \<longrightarrow> cblk st1 a = cblk st a"
          using putc_block_extend [of st p r b nb fs1] rep fs notroom by auto
        then show ?thesis using fin [of nb st1 p1 "r @ [b]" fs1] snoc fs by auto
      qed
    qed
  qed
qed


text \<open>A second list on the same pool is not disturbed by an operation on the first.\<close>

lemma clist_rep_frame:
  assumes rep: "clist_rep st p2 cs fs" and free: "linked (nexts st') (cf_next st') fs'"
    and same: "\<And>a. a \<in> set cs \<Longrightarrow> cblk st' a = cblk st a" and sz: "cf_size st' = cf_size st"
    and disj: "set cs \<inter> set fs' = {}"
  shows "clist_rep st' p2 cs fs' \<and> cbytes st' cs = cbytes st cs"
proof -
  have "cbytes st' cs = cbytes st cs" using same by (intro cbytes_cong) simp
  moreover have "linked (nexts st') (c_cf p2) cs = linked (nexts st) (c_cf p2) cs"
    using same by (intro linked_cong) simp
  ultimately show ?thesis using rep free same sz disj by (simp add: clist_rep_def)
qed

lemma getc_frame:
  assumes rep: "clist_rep st p bs fs" and rep2: "clist_rep st p2 cs fs" and d: "set bs \<inter> set cs = {}"
    and g: "getc st p = Some (c, st', p')"
  shows "\<exists>fs'. clist_rep st' p2 cs fs' \<and> cbytes st' cs = cbytes st cs"
proof (cases "cbytes st bs")
  case Nil
  then show ?thesis using getc_empty [OF rep] g rep2 by auto
next
  case (Cons x q)
  from getc_rep [OF rep this] g obtain bs' fs' where
    "clist_rep st' p' bs' fs'" "set bs' \<union> set fs' = set bs \<union> set fs"
    "cf_size st' = cf_size st" "\<forall>b. b \<notin> set bs \<longrightarrow> cblk st' b = cblk st b"
    by auto
  moreover from this have "set cs \<inter> set fs' = {}" "\<And>a. a \<in> set cs \<Longrightarrow> cblk st' a = cblk st a"
    using d rep2 by (auto simp: clist_rep_def)
  moreover have "linked (nexts st') (cf_next st') fs'"
    using calculation(1) by (simp add: clist_rep_def)
  ultimately show ?thesis
    using clist_rep_frame [OF rep2, of st' fs'] by blast
qed

lemma putc_frame:
  assumes rep: "clist_rep st p bs fs" and rep2: "clist_rep st p2 cs fs" and d: "set bs \<inter> set cs = {}"
    and g: "putc c st p = (e, st', p')"
  shows "\<exists>fs'. clist_rep st' p2 cs fs' \<and> cbytes st' cs = cbytes st cs"
  using putc_rep [OF rep, of c]
proof (elim disjE exE conjE)
  assume "putc c st p = (- 1, st, p)"
  then show ?thesis using g rep2 by auto
next
  fix st1 p1 bs' fs'
  assume *: "putc c st p = (0, st1, p1)" "clist_rep st1 p1 bs' fs'" "cf_size st1 = cf_size st"
    "set bs' \<union> set fs' = set bs \<union> set fs" "\<forall>a. a \<notin> set bs \<union> set fs \<longrightarrow> cblk st1 a = cblk st a"
  have "set cs \<inter> set fs = {}" using rep2 by (simp add: clist_rep_def)
  then have "set cs \<inter> set fs' = {}" "\<And>a. a \<in> set cs \<Longrightarrow> cblk st1 a = cblk st a"
    using d * by blast+
  moreover have "linked (nexts st1) (cf_next st1) fs'" using * by (simp add: clist_rep_def)
  ultimately have "clist_rep st1 p2 cs fs' \<and> cbytes st1 cs = cbytes st cs"
    using clist_rep_frame [OF rep2, of st1 fs'] * by blast
  then show ?thesis using * g by auto
qed

section \<open>Whole blocks\<close>

lemma getcb_rep:
  "clist_rep st p (b # r) fs \<Longrightarrow>
   \<exists>p'. getcb st p = (Some b, p') \<and> clist_rep st p' r fs \<and> c_next (cblk st b) = c_cf p'"
proof -
  assume rep: "clist_rep st p (b # r) fs"
  note cell = clist_rep_Cons [OF rep]
  have "blk_count (cblk st b) = int (length (blk_bytes (cblk st b)))"
    using cell(4) by (simp add: blk_count_def blk_bytes_def blk_ok_def word_as_nat of_nat_diff)
  then show ?thesis
    using rep cell by (auto simp: getcb_def clist_rep_def Let_def)
qed

lemma getcb_empty: "clist_rep st p [] fs \<Longrightarrow> getcb st p = (None, p)"
  by (simp add: getcb_def clist_rep_def)

lemma putcb_rep:
  assumes rep: "clist_rep st p bs fs" and b: "b \<notin> set bs" "b \<notin> set fs"
    and ok: "blk_ok (cf_size st) (cblk st b)"
  shows "\<exists>st' p'. putcb b st p = (st', p') \<and> clist_rep st' p' (bs @ [b]) fs \<and>
           cbytes st' (bs @ [b]) = cbytes st bs @ blk_bytes (cblk st b)"
proof -
  have cnt: "blk_count (cblk st b) = int (length (blk_bytes (cblk st b)))"
    using ok by (simp add: blk_count_def blk_bytes_def blk_ok_def word_as_nat of_nat_diff)
  show ?thesis
  proof (cases bs rule: rev_cases)
    case Nil
    let ?st = "upd_blk b (\<lambda>bp. bp\<lparr>c_next := None\<rparr>) st"
    let ?p = "p\<lparr>c_cf := Some b, c_cl := Some b, c_cc := c_cc p + blk_count (cblk st b)\<rparr>"
    have "putcb b st p = (?st, ?p)"
      using rep Nil by (simp add: putcb_def clist_rep_def blk_count_def)
    moreover have "clist_rep ?st ?p [b] fs"
      using rep Nil b ok cnt
      by (simp add: clist_rep_def fun_upd_comp blk_ok_def blk_bytes_def)
    ultimately show ?thesis using Nil by (fastforce simp: blk_bytes_def)
  next
    case (snoc r l)
    let ?st1 = "upd_blk l (\<lambda>bp. bp\<lparr>c_next := Some b\<rparr>) st"
    let ?st = "upd_blk b (\<lambda>bp. bp\<lparr>c_next := None\<rparr>) ?st1"
    let ?p = "p\<lparr>c_cl := Some b, c_cc := c_cc p + blk_count (cblk st b)\<rparr>"
    have bs: "linked (nexts st) (c_cf p) (r @ [l])" using rep snoc by (simp add: clist_rep_def)
    have d: "l \<noteq> b" "l \<notin> set r" "l \<notin> set fs"
      using linked_distinct [OF bs] rep snoc b by (auto simp: clist_rep_def)
    have "putcb b st p = (?st, ?p)"
      using rep snoc d by (simp add: putcb_def clist_rep_def blk_count_def)
    moreover have "nexts ?st = ((nexts st)(b := None))(l := Some b)"
      using d by (auto simp: fun_upd_comp fun_upd_twist)
    moreover have "linked (((nexts st)(b := None))(l := Some b)) (c_cf p) (r @ [l, b])"
      using bs d b snoc by (intro linked_snoc) auto
    moreover have "cbytes ?st (r @ [l]) = cbytes st (r @ [l])"
      using d b snoc by (intro cbytes_cong) (auto simp: blk_bytes_def)
    moreover have "\<forall>a \<in> set (r @ [l]). blk_ok (cf_size st) (cblk ?st a)"
      using rep d b snoc by (auto simp: clist_rep_def blk_ok_def)
    ultimately have "putcb b st p = (?st, ?p) \<and> clist_rep ?st ?p (bs @ [b]) fs \<and>
        cbytes ?st (bs @ [b]) = cbytes st bs @ blk_bytes (cblk st b)"
      using rep snoc d b ok cnt by (simp add: clist_rep_def blk_bytes_def blk_ok_def fun_upd_comp)
    then show ?thesis by blast
  qed
qed


section \<open>The pool after initialisation\<close>

definition fits :: "(nat \<Rightarrow> nat) \<Rightarrow> nat \<Rightarrow> bool" where
  "fits svirtophys b \<longleftrightarrow> svirtophys b + CLSIZE \<le> nextbound (svirtophys b)"

text \<open>A block that fits has all its data in one 64K range.\<close>

lemma fits_same_range:
  "fits svirtophys b \<Longrightarrow> k < CLSIZE \<Longrightarrow> (svirtophys b + k) div BOUND = svirtophys b div BOUND"
  unfolding fits_def nextbound_def BOUND_def CLSIZE_def
  by (rule div_nat_eqI) (use div_mult_mod_eq [of "svirtophys b" 65536] in simp_all)

lemma cinit_seg_rep:
  assumes "linked (nexts st) (cf_next st) fs" "set fs \<inter> {cp ..< cp + n} = {}"
  shows "\<exists>gs. linked (nexts (cinit_seg svirtophys cp n st)) (cf_next (cinit_seg svirtophys cp n st)) (gs @ fs) \<and>
           set gs = {b \<in> {cp ..< cp + n}. fits svirtophys b} \<and>
           cfreecnt (cinit_seg svirtophys cp n st) = cfreecnt st + length gs"
  using assms
proof (induction n arbitrary: cp st fs)
  case (Suc n)
  have set_eq: "{cp ..< cp + Suc n} = insert cp {Suc cp ..< Suc cp + n}" by auto
  show ?case
  proof (cases "fits svirtophys cp")
    case True
    let ?st = "upd_blk cp (\<lambda>bp. bp\<lparr>c_next := cf_next st\<rparr>) (st\<lparr>cf_next := Some cp, cfreecnt := cfreecnt st + 1\<rparr>)"
    have step: "cinit_seg svirtophys cp (Suc n) st = cinit_seg svirtophys (Suc cp) n ?st"
      using True by (simp add: fits_def Let_def)
    have "nexts ?st = (nexts st)(cp := cf_next st)" by (simp add: fun_upd_comp)
    moreover have "cp \<notin> set fs" using Suc.prems(2) by auto
    ultimately have "linked (nexts ?st) (cf_next ?st) (cp # fs)"
      using Suc.prems(1) by (simp del: o_apply)
    moreover have "set (cp # fs) \<inter> {Suc cp ..< Suc cp + n} = {}"
      using Suc.prems(2) by auto
    note Suc.IH [OF calculation this]
    then obtain gs where gs:
      "linked (nexts (cinit_seg svirtophys (Suc cp) n ?st)) (cf_next (cinit_seg svirtophys (Suc cp) n ?st)) (gs @ cp # fs)"
      "set gs = {b \<in> {Suc cp ..< Suc cp + n}. fits svirtophys b}"
      "cfreecnt (cinit_seg svirtophys (Suc cp) n ?st) = cfreecnt ?st + length gs"
      by (elim exE conjE) (rule that)
    have "linked (nexts (cinit_seg svirtophys cp (Suc n) st)) (cf_next (cinit_seg svirtophys cp (Suc n) st)) ((gs @ [cp]) @ fs)"
      using gs(1) unfolding step by simp
    moreover have "cfreecnt (cinit_seg svirtophys cp (Suc n) st) = cfreecnt st + length (gs @ [cp])"
      using gs(3) unfolding step by simp
    moreover have "set (gs @ [cp]) = {b \<in> {cp ..< cp + Suc n}. fits svirtophys b}"
      using True gs(2) unfolding set_eq by auto
    ultimately show ?thesis by blast
  next
    case False
    have step: "cinit_seg svirtophys cp (Suc n) st = cinit_seg svirtophys (Suc cp) n st"
      using False by (simp add: fits_def Let_def)
    have "set fs \<inter> {Suc cp ..< Suc cp + n} = {}" using Suc.prems by auto
    from Suc.IH [OF Suc.prems(1) this] show ?thesis
      using False unfolding step set_eq by auto
  qed
qed simp

text \<open>Segments obtained by different calls of \<open>kseg\<close> do not share blocks (at most 1820 per segment).\<close>

definition ksegs_apart :: "(nat \<Rightarrow> nat \<Rightarrow> nat option) \<Rightarrow> bool" where
  "ksegs_apart kseg \<longleftrightarrow> (\<forall>i j i' j' a b. i < i' \<longrightarrow> kseg i j = Some a \<longrightarrow> kseg i' j' = Some b \<longrightarrow>
     a + 1820 \<le> b)"

lemma cinit_segs_rep:
  assumes "linked (nexts st) (cf_next st) fs" "ksegs_apart kseg" "\<And>i j. kseg i j \<noteq> None" "r < 64"
    and "\<forall>i' j b. i \<le> i' \<longrightarrow> kseg i' j = Some b \<longrightarrow> (\<forall>x \<in> set fs. x < b)"
  shows "\<exists>st' gs. cinit_segs svirtophys kseg r i m st = Some st' \<and>
           linked (nexts st') (cf_next st') (gs @ fs) \<and> (\<forall>b \<in> set gs. fits svirtophys b) \<and>
           cfreecnt st' = cfreecnt st + length gs"
  using assms(1,5)
proof (induction m arbitrary: i st fs)
  case 0
  then show ?case by (intro exI [of _ st] exI [of _ "[]"]) simp
next
  case (Suc m)
  let ?j = "if m = 0 \<and> 0 < r then r else 64"
  let ?n = "?j * 2048 div 72"
  obtain cp where cp: "kseg i ?j = Some cp" using assms(3) by blast
  have n: "?n \<le> 1820" using assms(4) by auto
  have "set fs \<inter> {cp ..< cp + ?n} = {}" using Suc.prems(2) cp by fastforce
  from cinit_seg_rep [OF Suc.prems(1) this, of svirtophys] obtain gs where
    gs: "linked (nexts (cinit_seg svirtophys cp ?n st)) (cf_next (cinit_seg svirtophys cp ?n st)) (gs @ fs)"
      "set gs = {b \<in> {cp ..< cp + ?n}. fits svirtophys b}"
      "cfreecnt (cinit_seg svirtophys cp ?n st) = cfreecnt st + length gs"
    by blast
  have "\<forall>x \<in> set (gs @ fs). x < b" if "Suc i \<le> i'" "kseg i' j = Some b" for i' j b
  proof -
    have "cp + 1820 \<le> b" using assms(2) that cp unfolding ksegs_apart_def by (metis Suc_le_lessD)
    then show ?thesis using gs(2) n Suc.prems(2) [rule_format, of i' j b] that by auto
  qed
  then have "\<forall>i' j b. Suc i \<le> i' \<longrightarrow> kseg i' j = Some b \<longrightarrow> (\<forall>x \<in> set (gs @ fs). x < b)" by blast
  from Suc.IH [OF gs(1) this] obtain st' hs where hs:
    "cinit_segs svirtophys kseg r (Suc i) m (cinit_seg svirtophys cp ?n st) = Some st'"
    "linked (nexts st') (cf_next st') (hs @ gs @ fs)" "\<forall>b \<in> set hs. fits svirtophys b"
    "cfreecnt st' = cfreecnt (cinit_seg svirtophys cp ?n st) + length hs"
    by (elim exE conjE) (rule that)
  have "cinit_segs svirtophys kseg r i (Suc m) st = Some st'"
    using cp hs(1) by (simp add: Let_def)
  moreover have "linked (nexts st') (cf_next st') ((hs @ gs) @ fs)" using hs(2) by simp
  moreover have "\<forall>b \<in> set (hs @ gs). fits svirtophys b" using hs(3) gs(2) by auto
  moreover have "cfreecnt st' = cfreecnt st + length (hs @ gs)" using hs(4) gs(3) by simp
  ultimately show ?case by blast
qed

lemma cinit_rep:
  assumes "cf_next st = None" "cfreecnt st = 0" "ksegs_apart kseg" "\<And>i j. kseg i j \<noteq> None"
  shows "\<exists>st' fs. cinit svirtophys kseg v_clist st = Some st' \<and> cf_size st' = 64 \<and>
           linked (nexts st') (cf_next st') fs \<and> (\<forall>b \<in> set fs. fits svirtophys b) \<and>
           cfreecnt st' = length fs"
proof -
  let ?n = "(v_clist * 72 + 2047) div 2048"
  from cinit_segs_rep [of st "[]" kseg "?n mod 64" 0 svirtophys "(?n + 63) div 64"] assms
  obtain st' gs where s: "cinit_segs svirtophys kseg (?n mod 64) 0 ((?n + 63) div 64) st = Some st'"
    and g: "linked (nexts st') (cf_next st') gs" "\<forall>b \<in> set gs. fits svirtophys b" "cfreecnt st' = length gs"
    by auto
  have "cinit svirtophys kseg v_clist st = Some (st'\<lparr>cf_size := CLSIZE\<rparr>)"
    using s by (simp add: cinit_def Let_def)
  then show ?thesis using g
    by (intro exI [of _ "st'\<lparr>cf_size := CLSIZE\<rparr>"] exI [of _ gs]) (simp add: CLSIZE_def)
qed

section \<open>The list as a byte queue\<close>

definition cq_rep :: "cpool \<times> clist \<Rightarrow> u8 list \<Rightarrow> bool" where
  "cq_rep s q \<longleftrightarrow> (\<exists>bs fs. clist_rep (fst s) (snd s) bs fs \<and> cbytes (fst s) bs = q)"

definition cq_put :: "u8 \<Rightarrow> cpool \<times> clist \<Rightarrow> (cpool \<times> clist) option" where
  "cq_put x s = (let (e, st, p) = putc (uint x) (fst s) (snd s) in if e = 0 then Some (st, p) else None)"

definition cq_get :: "cpool \<times> clist \<Rightarrow> (u8 \<times> cpool \<times> clist) option" where
  "cq_get s = (case getc (fst s) (snd s) of
     Some (c, st, p) \<Rightarrow> if c = - 1 then None else Some (word_of_int c, st, p)
   | None \<Rightarrow> None)"

interpretation cq: fifo cq_rep cq_put cq_get
proof unfold_locales
  fix s q x s' assume r: "cq_rep s q" and p: "cq_put x s = Some s'"
  then obtain bs fs where "clist_rep (fst s) (snd s) bs fs" "cbytes (fst s) bs = q"
    by (auto simp: cq_rep_def)
  then show "cq_rep s' (q @ [x])"
    using putc_rep [of "fst s" "snd s" bs fs "uint x"] p
    unfolding cq_rep_def cq_put_def by (auto split: if_splits; blast)
next
  fix s assume "cq_rep s []"
  then show "cq_get s = None" using getc_empty by (auto simp: cq_rep_def cq_get_def)
next
  fix s x q assume "cq_rep s (x # q)"
  then obtain bs fs where "clist_rep (fst s) (snd s) bs fs" "cbytes (fst s) bs = x # q"
    by (auto simp: cq_rep_def)
  from getc_rep [OF this] obtain st' p' bs' fs' where
    "getc (fst s) (snd s) = Some (uint x, st', p')" "clist_rep st' p' bs' fs'" "cbytes st' bs' = q"
    by blast
  moreover have "uint x \<noteq> - 1" using uint_ge_0 [of x] by linarith
  ultimately show "\<exists>s'. cq_get s = Some (x, s') \<and> cq_rep s' q"
    unfolding cq_get_def cq_rep_def
    by (intro exI [of _ "(st', p')"]) auto
qed

section \<open>Properties\<close>

text \<open>C33. Taking a character from a well-formed list returns \<open>- 1\<close> and changes nothing when the list is
  empty; otherwise it returns the oldest character, leaves a well-formed list holding the others,
  and the two chains still consist of the same blocks (an emptied block goes to the free list).\<close>

theorem getc_correct:
  assumes "clist_rep st p bs fs"
  shows "(cbytes st bs = [] \<longrightarrow> getc st p = Some (- 1, st, p)) \<and>
         (\<forall>x q. cbytes st bs = x # q \<longrightarrow>
            (\<exists>st' p' bs' fs'. getc st p = Some (uint x, st', p') \<and> clist_rep st' p' bs' fs' \<and>
               cbytes st' bs' = q \<and> set bs' \<union> set fs' = set bs \<union> set fs))"
  using getc_empty [OF assms] getc_rep [OF assms] by blast

definition demo_pool :: cpool where
  "demo_pool = \<lparr>cblk = (\<lambda>b. if b = 2 then \<lparr>c_next = None, c_first = 63, c_last = 64, c_data = (\<lambda>_. 7)\<rparr>
                        else \<lparr>c_next = (if b = 0 then Some 1 else None), c_first = 0, c_last = 0, c_data = (\<lambda>_. 0)\<rparr>),
     cf_next = Some 0, cf_size = 64, cf_flag = True, cf_wakes = 0, cfreecnt = 2\<rparr>"

definition demo_clist :: clist where
  "demo_clist = \<lparr>c_cc = 1, c_cf = Some 2, c_cl = Some 2\<rparr>"

lemma demo_clist_rep: "clist_rep demo_pool demo_clist [2] [0, 1]"
  by (simp add: clist_rep_def demo_pool_def demo_clist_def blk_ok_def blk_bytes_def cbytes_def)

lemma demo_clist_bytes: "cbytes demo_pool [2] = [7]"
  by (simp add: demo_pool_def blk_bytes_def upt_conv_Cons)

theorem getc_correct_witness:
  "\<exists>st' p' bs' fs'. getc demo_pool demo_clist = Some (7, st', p') \<and> clist_rep st' p' bs' fs' \<and>
     cbytes st' bs' = [] \<and> set bs' \<union> set fs' = {0, 1, 2}"
  using getc_correct [OF demo_clist_rep] demo_clist_bytes by (auto simp: insert_commute)



text \<open>C32. A character list is a first-in first-out queue: the characters put on it come out after the
  ones it already held, in the order they were put, across any number of blocks.\<close>

theorem clist_fifo:
  assumes "clist_rep st p bs fs" "put_all cq_put xs (st, p) = Some s'"
  shows "fst (get_many cq_get (length (cbytes st bs) + length xs) s') = cbytes st bs @ xs"
proof -
  have "cq_rep (st, p) (cbytes st bs)" using assms(1) by (auto simp: cq_rep_def)
  then show ?thesis using assms(2) by (rule cq.fifo_order)
qed

theorem clist_fifo_witness:
  "\<exists>s'. put_all cq_put [9, 10] (demo_pool, demo_clist) = Some s' \<and> fst (get_many cq_get 3 s') = [7, 9, 10]"
proof -
  have "\<exists>s'. put_all cq_put [9, 10] (demo_pool, demo_clist) = Some s'"
    by (simp add: cq_put_def putc_def putc_block_def demo_pool_def demo_clist_def Let_def)
  then obtain s' where "put_all cq_put [9, 10] (demo_pool, demo_clist) = Some s'" ..
  then show ?thesis
    using clist_fifo [OF demo_clist_rep, of "[9, 10]" s'] unfolding demo_clist_bytes
    by (simp add: eval_nat_numeral del: put_all.simps get_many.simps)
qed

text \<open>C35. Operating on one list leaves every other list of the pool with the same characters.\<close>

theorem clist_isolation:
  assumes "clist_rep st p bs fs" "clist_rep st p2 cs fs" "set bs \<inter> set cs = {}"
    and "getc st p = Some (x, st1, p1) \<or> putc c st p = (e, st1, p1)"
  shows "\<exists>fs'. clist_rep st1 p2 cs fs' \<and> cbytes st1 cs = cbytes st cs"
  using assms(4) getc_frame [OF assms(1-3)] putc_frame [OF assms(1-3)] by blast

theorem clist_isolation_witness:
  "\<exists>x st1 p1 fs'. getc demo_pool demo_clist = Some (x, st1, p1) \<and>
     clist_rep st1 \<lparr>c_cc = 0, c_cf = None, c_cl = None\<rparr> [] fs'"
proof -
  have "clist_rep demo_pool \<lparr>c_cc = 0, c_cf = None, c_cl = None\<rparr> [] [0, 1]"
    using demo_clist_rep by (simp add: clist_rep_def)
  moreover obtain x st1 p1 where "getc demo_pool demo_clist = Some (x, st1, p1)"
    by (auto simp: getc_def demo_pool_def demo_clist_def Let_def)
  ultimately show ?thesis
    using clist_isolation [OF demo_clist_rep, of "\<lparr>c_cc = 0, c_cf = None, c_cl = None\<rparr>" "[]" x st1 p1 0 0]
    by auto
qed

text \<open>Initialisation puts exactly the blocks that do not straddle a 64K boundary on one free list,
  counts them, and records the block capacity.\<close>

lemma cinit_correct:
  assumes "cf_next st = None" "cfreecnt st = 0" "ksegs_apart kseg" "\<And>i j. kseg i j \<noteq> None"
  shows "\<exists>st' fs. cinit svirtophys kseg v_clist st = Some st' \<and> cf_size st' = 64 \<and>
           linked (nexts st') (cf_next st') fs \<and> (\<forall>b \<in> set fs. fits svirtophys b) \<and> cfreecnt st' = length fs"
  using cinit_rep [OF assms] .

theorem cinit_correct_witness:
  "\<exists>st' fs. cinit (\<lambda>b. 72 * b) (\<lambda>i j. Some (1820 * i)) 100 (demo_pool\<lparr>cf_next := None, cfreecnt := 0\<rparr>) = Some st' \<and>
     cf_size st' = 64 \<and> linked (nexts st') (cf_next st') fs \<and> cfreecnt st' = length fs"
proof -
  have "ksegs_apart (\<lambda>i j. Some (1820 * i))" by (auto simp: ksegs_apart_def)
  then show ?thesis
    using cinit_correct [of "demo_pool\<lparr>cf_next := None, cfreecnt := 0\<rparr>" "\<lambda>i j. Some (1820 * i)" "\<lambda>b. 72 * b" 100]
    by auto
qed

end
