(* ===== verification/Ipc.thy ===== *)
theory Ipc
  imports Prelude
begin

text \<open>
  What the three inter-process communication facilities share: \<open>io/ipc.c\<close> over \<open>struct ipc_perm\<close> of
  \<open>sys/ipc.h\<close>, the parts of the user area they read and write, and \<open>suser\<close> of \<open>os/fio.c\<close>.  A
  facility's table is a function from slots to permission structures; \<open>ipcget\<close> returns the slot, the
  status word (\<open>True\<close> for a new entry) and the entry's permission structure.
\<close>

section \<open>State and operations\<close>

text \<open>The caller's side of the user area: identity, process slot and process id.\<close>

record uarea =
  u_uid :: u16
  u_gid :: u16
  u_proc :: nat
  u_pid :: int

text \<open>The result side: error number, return value, and the super-user accounting flag.\<close>

record ustate =
  u_error :: "errno option"
  u_rval1 :: int
  u_asu :: bool

abbreviation set_error :: "errno \<Rightarrow> 'a ustate_scheme \<Rightarrow> 'a ustate_scheme" where
  "set_error e st \<equiv> st\<lparr>u_error := Some e\<rparr>"

definition suser :: "uarea \<Rightarrow> 'a ustate_scheme \<Rightarrow> bool \<times> 'a ustate_scheme" where
  "suser u st = (if u_uid u = 0 then (True, st\<lparr>u_asu := True\<rparr>) else (False, set_error EPERM st))"

record ipc_perm =
  ip_uid :: u16
  ip_gid :: u16
  ip_cuid :: u16
  ip_cgid :: u16
  ip_mode :: u16
  ip_seq :: u16
  ip_key :: int

definition IPC_ALLOC :: u16 where "IPC_ALLOC = 32768"
definition IPC_CREAT :: u32 where "IPC_CREAT = 512"
definition IPC_EXCL :: u32 where "IPC_EXCL = 1024"
definition IPC_NOWAIT :: int where "IPC_NOWAIT = 2048"
definition IPC_PRIVATE :: int where "IPC_PRIVATE = 0"

abbreviation ipc_live :: "ipc_perm \<Rightarrow> bool" where
  "ipc_live p \<equiv> ip_mode p AND IPC_ALLOC \<noteq> 0"

text \<open>\<open>ipcaccess\<close> returns 0 (here \<open>False\<close>) when the access is granted.\<close>

definition ipcaccess :: "uarea \<Rightarrow> ipc_perm \<Rightarrow> u16 \<Rightarrow> 'a ustate_scheme \<Rightarrow> bool \<times> 'a ustate_scheme" where
  "ipcaccess u p mode st =
     (if u_uid u = 0 then (False, st)
      else let mode1 = (if u_uid u \<noteq> ip_uid p \<and> u_uid u \<noteq> ip_cuid p
                        then (let m = drop_bit 3 mode in
                              if u_gid u \<noteq> ip_gid p \<and> u_gid u \<noteq> ip_cgid p then drop_bit 3 m else m)
                        else mode)
           in if mode1 AND ip_mode p \<noteq> 0 then (False, st) else (True, set_error EACCES st))"

datatype ipc_search = IpcErr errno | IpcFound nat | IpcNew nat

fun ipc_private :: "(nat \<Rightarrow> ipc_perm) \<Rightarrow> nat \<Rightarrow> nat \<Rightarrow> ipc_search" where
  "ipc_private base i 0 = IpcErr ENOSPC"
| "ipc_private base i (Suc n) = (if ipc_live (base i) then ipc_private base (Suc i) n else IpcNew i)"

fun ipc_keyed :: "int \<Rightarrow> u32 \<Rightarrow> (nat \<Rightarrow> ipc_perm) \<Rightarrow> nat \<Rightarrow> nat \<Rightarrow> ptr \<Rightarrow> ipc_search" where
  "ipc_keyed key flag base i 0 a =
     (if flag AND IPC_CREAT = 0 then IpcErr ENOENT
      else case a of None \<Rightarrow> IpcErr ENOSPC | Some j \<Rightarrow> IpcNew j)"
| "ipc_keyed key flag base i (Suc n) a =
     (if ipc_live (base i)
      then if ip_key (base i) = key
           then if flag AND (IPC_CREAT OR IPC_EXCL) = IPC_CREAT OR IPC_EXCL then IpcErr EEXIST
                else if (flag AND 511) AND NOT (ucast (ip_mode (base i))) \<noteq> 0 then IpcErr EACCES
                else IpcFound i
           else ipc_keyed key flag base (Suc i) n a
      else ipc_keyed key flag base (Suc i) n (if a = None then Some i else a))"

definition ipc_init :: "uarea \<Rightarrow> int \<Rightarrow> u32 \<Rightarrow> ipc_perm \<Rightarrow> ipc_perm" where
  "ipc_init u key flag p =
     p\<lparr>ip_mode := IPC_ALLOC OR ucast (flag AND 511), ip_key := key,
       ip_cuid := u_uid u, ip_uid := u_uid u, ip_cgid := u_gid u, ip_gid := u_gid u\<rparr>"

definition ipcget :: "uarea \<Rightarrow> int \<Rightarrow> u32 \<Rightarrow> (nat \<Rightarrow> ipc_perm) \<Rightarrow> nat \<Rightarrow> errno + nat \<times> bool \<times> ipc_perm" where
  "ipcget u key flag base cnt =
     (case (if key = IPC_PRIVATE then ipc_private base 0 cnt else ipc_keyed key flag base 0 cnt None) of
        IpcErr e \<Rightarrow> Inl e
      | IpcFound i \<Rightarrow> Inr (i, False, base i)
      | IpcNew i \<Rightarrow> Inr (i, True, ipc_init u key flag (base i)))"

section \<open>Access decisions\<close>

text \<open>The permission bits of the caller's class: owner, group, or everyone.\<close>

definition ipc_class :: "uarea \<Rightarrow> ipc_perm \<Rightarrow> nat" where
  "ipc_class u p =
     (if u_uid u = ip_uid p \<or> u_uid u = ip_cuid p then 0
      else if u_gid u = ip_gid p \<or> u_gid u = ip_cgid p then 1 else 2)"

lemma ipcaccess_class:
  "ipcaccess u p mode st =
     (if u_uid u = 0 \<or> drop_bit (3 * ipc_class u p) mode AND ip_mode p \<noteq> 0
      then (False, st) else (True, set_error EACCES st))"
  by (auto simp: ipcaccess_def ipc_class_def Let_def)

lemma and_single_bit: "(2 ^ n AND (w :: 'a::len word)) \<noteq> 0 \<longleftrightarrow> bit w n"
proof -
  have "2 ^ n AND w = (if bit w n then 2 ^ n else 0)"
    by (rule bit_word_eqI) (auto simp: bit_simps)
  moreover have "bit w n \<Longrightarrow> n < LENGTH('a)" by (rule bit_imp_le_length)
  moreover have "n < LENGTH('a) \<Longrightarrow> (2 :: 'a word) ^ n \<noteq> 0" by simp
  ultimately show ?thesis by auto
qed

lemma ipcaccess_read:
  "fst (ipcaccess u p 256 st) = (\<not> (u_uid u = 0 \<or> bit (ip_mode p) (8 - 3 * ipc_class u p)))"
proof -
  have "drop_bit (3 * ipc_class u p) (256 :: u16) = 2 ^ (8 - 3 * ipc_class u p)"
    by (auto simp: ipc_class_def)
  then show ?thesis by (simp add: ipcaccess_class and_single_bit)
qed

lemma ipcaccess_write:
  "fst (ipcaccess u p 128 st) = (\<not> (u_uid u = 0 \<or> bit (ip_mode p) (7 - 3 * ipc_class u p)))"
proof -
  have "drop_bit (3 * ipc_class u p) (128 :: u16) = 2 ^ (7 - 3 * ipc_class u p)"
    by (auto simp: ipc_class_def)
  then show ?thesis by (simp add: ipcaccess_class and_single_bit)
qed

lemma ipcaccess_cases:
  obtains "ipcaccess u p m st = (False, st)" | "ipcaccess u p m st = (True, set_error EACCES st)"
  unfolding ipcaccess_class by (meson)

section \<open>The table\<close>

definition keys_unique :: "(nat \<Rightarrow> ipc_perm) \<Rightarrow> nat \<Rightarrow> bool" where
  "keys_unique base cnt \<longleftrightarrow> (\<forall>i < cnt. \<forall>j < cnt. ipc_live (base i) \<longrightarrow> ipc_live (base j) \<longrightarrow>
     ip_key (base i) = ip_key (base j) \<longrightarrow> ip_key (base i) \<noteq> IPC_PRIVATE \<longrightarrow> i = j)"

lemma ipc_private_cases:
  "(\<exists>j. ipc_private base i n = IpcNew j \<and> i \<le> j \<and> j < i + n \<and> \<not> ipc_live (base j) \<and>
      (\<forall>k. i \<le> k \<and> k < j \<longrightarrow> ipc_live (base k))) \<or>
   (ipc_private base i n = IpcErr ENOSPC \<and> (\<forall>k. i \<le> k \<and> k < i + n \<longrightarrow> ipc_live (base k)))"
proof (induction n arbitrary: i)
  case (Suc n)
  show ?case
  proof (cases "ipc_live (base i)")
    case True
    have range: "i \<le> k \<and> k < m \<longleftrightarrow> (k = i \<and> i < m) \<or> (Suc i \<le> k \<and> k < m)" for k m by auto
    show ?thesis
      using True Suc.IH [of "Suc i"] unfolding range by fastforce
  next
    case False
    then show ?thesis by auto
  qed
qed auto

definition ipc_match :: "int \<Rightarrow> (nat \<Rightarrow> ipc_perm) \<Rightarrow> nat \<Rightarrow> bool" where
  "ipc_match key base i \<longleftrightarrow> ipc_live (base i) \<and> ip_key (base i) = key"

lemma ipc_keyed_match:
  "i \<le> j \<Longrightarrow> j < i + n \<Longrightarrow> ipc_match key base j \<Longrightarrow> (\<And>k. i \<le> k \<Longrightarrow> k < j \<Longrightarrow> \<not> ipc_match key base k) \<Longrightarrow>
   ipc_keyed key flag base i n a =
     (if flag AND (IPC_CREAT OR IPC_EXCL) = IPC_CREAT OR IPC_EXCL then IpcErr EEXIST
      else if (flag AND 511) AND NOT (ucast (ip_mode (base j))) \<noteq> 0 then IpcErr EACCES
      else IpcFound j)"
proof (induction n arbitrary: i a)
  case (Suc n)
  show ?case
  proof (cases "i = j")
    case True
    then show ?thesis using Suc.prems by (simp add: ipc_match_def)
  next
    case False
    then have no: "\<not> (ipc_live (base i) \<and> ip_key (base i) = key)" and "Suc i \<le> j"
      using Suc.prems unfolding ipc_match_def by auto
    have "ipc_keyed key flag base i (Suc n) a =
        ipc_keyed key flag base (Suc i) n (if \<not> ipc_live (base i) \<and> a = None then Some i else a)"
      using no by auto
    also have "\<dots> = (if flag AND (IPC_CREAT OR IPC_EXCL) = IPC_CREAT OR IPC_EXCL then IpcErr EEXIST
      else if (flag AND 511) AND NOT (ucast (ip_mode (base j))) \<noteq> 0 then IpcErr EACCES
      else IpcFound j)"
      by (rule Suc.IH) (use Suc.prems \<open>Suc i \<le> j\<close> in auto)
    finally show ?thesis .
  qed
qed simp

lemma ipc_keyed_fresh:
  "(\<And>k. i \<le> k \<Longrightarrow> k < i + n \<Longrightarrow> \<not> ipc_match key base k) \<Longrightarrow>
   ipc_keyed key flag base i n a =
     (if flag AND IPC_CREAT = 0 then IpcErr ENOENT
      else case a of Some j \<Rightarrow> IpcNew j | None \<Rightarrow> ipc_private base i n)"
proof (induction n arbitrary: i a)
  case (Suc n)
  have "\<not> ipc_match key base i" using Suc.prems by simp
  moreover have "\<And>b. ipc_keyed key flag base (Suc i) n b =
     (if flag AND IPC_CREAT = 0 then IpcErr ENOENT
      else case b of Some j \<Rightarrow> IpcNew j | None \<Rightarrow> ipc_private base (Suc i) n)"
    using Suc.prems by (intro Suc.IH) auto
  ultimately show ?case by (auto simp: ipc_match_def split: option.splits)
qed (auto split: option.splits)

text \<open>The meaning of \<open>ipcget\<close>, independent of the order of the scan when keys are unique.\<close>

lemma ipcget_existing:
  assumes "keys_unique base cnt" "j < cnt" "ipc_match key base j" "key \<noteq> IPC_PRIVATE"
  shows "ipcget u key flag base cnt =
    (if flag AND (IPC_CREAT OR IPC_EXCL) = IPC_CREAT OR IPC_EXCL then Inl EEXIST
     else if (flag AND 511) AND NOT (ucast (ip_mode (base j))) \<noteq> 0 then Inl EACCES
     else Inr (j, False, base j))"
proof -
  have "\<not> ipc_match key base k" if k: "k < j" for k
  proof
    assume "ipc_match key base k"
    then have "ip_key (base k) = ip_key (base j)" "ipc_live (base k)" "ip_key (base k) \<noteq> IPC_PRIVATE"
      using assms(3,4) by (auto simp: ipc_match_def)
    moreover have "k < cnt" "ipc_live (base j)" using k assms(2,3) by (auto simp: ipc_match_def)
    ultimately have "k = j" using assms(1,2) unfolding keys_unique_def by blast
    then show False using k by simp
  qed
  then have "ipc_keyed key flag base 0 cnt None =
     (if flag AND (IPC_CREAT OR IPC_EXCL) = IPC_CREAT OR IPC_EXCL then IpcErr EEXIST
      else if (flag AND 511) AND NOT (ucast (ip_mode (base j))) \<noteq> 0 then IpcErr EACCES
      else IpcFound j)"
    using assms by (intro ipc_keyed_match) auto
  then show ?thesis using assms(4) by (simp add: ipcget_def)
qed

lemma ipcget_new:
  assumes "key = IPC_PRIVATE \<or> (\<forall>j < cnt. \<not> ipc_match key base j)"
  shows "(key \<noteq> IPC_PRIVATE \<and> flag AND IPC_CREAT = 0 \<and> ipcget u key flag base cnt = Inl ENOENT) \<or>
    ((key = IPC_PRIVATE \<or> flag AND IPC_CREAT \<noteq> 0) \<and>
       ((ipcget u key flag base cnt = Inl ENOSPC \<and> (\<forall>j < cnt. ipc_live (base j))) \<or>
        (\<exists>j < cnt. ipcget u key flag base cnt = Inr (j, True, ipc_init u key flag (base j)) \<and>
           \<not> ipc_live (base j) \<and> (\<forall>k < j. ipc_live (base k)))))"
proof (cases "key = IPC_PRIVATE")
  case True
  then show ?thesis
    using ipc_private_cases [of base 0 cnt] by (auto simp: ipcget_def)
next
  case False
  then have "ipc_keyed key flag base 0 cnt None =
     (if flag AND IPC_CREAT = 0 then IpcErr ENOENT else ipc_private base 0 cnt)"
    using assms ipc_keyed_fresh [of 0 cnt key base flag None] by simp
  then show ?thesis
    using False ipc_private_cases [of base 0 cnt] by (auto simp: ipcget_def)
qed


lemma ipc_init_live: "ipc_live (ipc_init u key flag q)"
proof -
  have "bit (ip_mode (ipc_init u key flag q)) 15"
    by (simp add: ipc_init_def IPC_ALLOC_def bit_simps)
  then show ?thesis
    using and_single_bit [of 15 "ip_mode (ipc_init u key flag q)"]
    by (simp add: IPC_ALLOC_def and.commute)
qed

lemma ipc_keyed_slot:
  "ipc_keyed key flag base i n a = IpcNew j \<Longrightarrow> a = Some j \<or> (i \<le> j \<and> j < i + n \<and> \<not> ipc_live (base j))"
  "ipc_keyed key flag base i n a = IpcFound j \<Longrightarrow> i \<le> j \<and> j < i + n \<and> ipc_live (base j)"
  by (induction n arbitrary: i a) (fastforce split: if_splits option.splits)+

lemma ipcget_slot:
  assumes "ipcget u key flag base cnt = Inr (i, new, p)"
  shows "i < cnt \<and> (if new then \<not> ipc_live (base i) \<and> p = ipc_init u key flag (base i) else ipc_live (base i) \<and> p = base i)"
  using assms ipc_private_cases [of base 0 cnt] ipc_keyed_slot [of key flag base 0 cnt None i]
  by (auto simp: ipcget_def split: ipc_search.splits if_splits)

lemma ipc_keyed_key: "ipc_keyed key flag base i n a = IpcFound j \<Longrightarrow> ip_key (base j) = key"
  by (induction n arbitrary: i a) (fastforce split: if_splits option.splits)+

lemma ipcget_live_key:
  assumes "ipcget u key flag base cnt = Inr (i, new, p)"
  shows "ipc_live p \<and> ip_key p = key"
proof (cases new)
  case True
  then show ?thesis using ipcget_slot [OF assms] ipc_init_live by (auto simp: ipc_init_def)
next
  case False
  then have p: "ipc_live p" "p = base i" using ipcget_slot [OF assms] by auto
  have "ipc_private base 0 cnt \<noteq> IpcFound i" using ipc_private_cases [of base 0 cnt] by auto
  then show ?thesis
    using assms p False ipc_keyed_key [of key flag base 0 cnt None i]
    by (auto simp: ipcget_def split: ipc_search.splits if_splits)
qed

text \<open>\<open>ipcget\<close> writes the entry back into its slot.\<close>

lemma ipcget_keys_unique_lemma:
  assumes uniq: "keys_unique base cnt" and get: "ipcget u key flag base cnt = Inr (i, new, p)"
  shows "keys_unique (base(i := p)) cnt \<and> i < cnt \<and> ipc_live p \<and> ip_key p = key"
proof -
  note live_init = ipc_init_live
  show ?thesis
  proof (cases "key \<noteq> IPC_PRIVATE \<and> (\<exists>j < cnt. ipc_match key base j)")
    case True
    then obtain j where j: "j < cnt" "ipc_match key base j" "key \<noteq> IPC_PRIVATE" by blast
    from ipcget_existing [OF uniq this, of u flag] get
    have "i = j" "p = base j" by (auto split: if_splits)
    then show ?thesis using j uniq by (auto simp: ipc_match_def)
  next
    case False
    then have none: "key = IPC_PRIVATE \<or> (\<forall>j < cnt. \<not> ipc_match key base j)" by blast
    from ipcget_new [OF this, of flag u] get
    have i: "i < cnt" "p = ipc_init u key flag (base i)" by auto
    have pk: "ip_key p = key" "ipc_live p" using live_init i by (simp_all add: ipc_init_def)
    have "keys_unique (base(i := p)) cnt"
      unfolding keys_unique_def
    proof (intro allI impI)
      fix a b
      assume "a < cnt" "b < cnt" and l: "ipc_live ((base(i := p)) a)" "ipc_live ((base(i := p)) b)"
        and e: "ip_key ((base(i := p)) a) = ip_key ((base(i := p)) b)" and np: "ip_key ((base(i := p)) a) \<noteq> IPC_PRIVATE"
      then show "a = b"
        using uniq none pk unfolding keys_unique_def ipc_match_def
        by (cases "a = i"; cases "b = i") auto
    qed
    then show ?thesis using i pk by blast
  qed
qed

section \<open>Identifiers\<close>

text \<open>
  The contract between a facility's table and the identifiers its users hold: \<open>conv\<close> looks an
  identifier up, \<open>ident\<close> is the identifier of a slot in its present incarnation.
\<close>

locale ipc_ids =
  fixes conv :: "'s \<Rightarrow> int \<Rightarrow> ptr" and live :: "'s \<Rightarrow> nat \<Rightarrow> bool"
    and ident :: "'s \<Rightarrow> nat \<Rightarrow> int" and slots :: int
  assumes conv_iff: "0 < slots \<Longrightarrow> conv s idn = Some i \<longleftrightarrow> int i < slots \<and> live s i \<and> ident s i = idn"
    and ident_apart: "0 < slots \<Longrightarrow> int i < slots \<Longrightarrow> int j < slots \<Longrightarrow> ident s i = ident t j \<Longrightarrow> i = j"
begin

lemma conv_ident: "int i < slots \<Longrightarrow> live s i \<Longrightarrow> conv s (ident s i) = Some i"
  using conv_iff [of s "ident s i" i] by (cases "0 < slots") auto

lemma ident_inj: "conv s idn = Some i \<Longrightarrow> conv s idn = Some j \<Longrightarrow> i = j"
  by simp

text \<open>An identifier dies with its incarnation, whatever happens to the rest of the table.\<close>

lemma stale:
  assumes "0 < slots" "conv s idn = Some i" "\<not> live t i \<or> ident t i \<noteq> ident s i"
  shows "conv t idn = None"
proof (rule ccontr)
  assume "conv t idn \<noteq> None"
  then obtain j where "conv t idn = Some j" by blast
  then have j: "int j < slots" "live t j" "ident t j = idn" using conv_iff [OF assms(1)] by auto
  have i: "int i < slots" "ident s i = idn" using conv_iff [OF assms(1)] assms(2) by auto
  have "i = j" using ident_apart [OF assms(1)] i j by metis
  then show False using assms(3) i j by simp
qed

end

section \<open>Properties\<close>

text \<open>Read and write access follow the permission bits of the caller's class: the owner's bits for the
  owner or creator, else the group's for their group, else everyone's; the super-user always passes,
  and a refusal sets \<open>EACCES\<close> and nothing else.\<close>

lemma ipcaccess_correct:
  "ipcaccess u p 256 st = (if u_uid u = 0 \<or> bit (ip_mode p) (8 - 3 * ipc_class u p)
     then (False, st) else (True, set_error EACCES st)) \<and>
   ipcaccess u p 128 st = (if u_uid u = 0 \<or> bit (ip_mode p) (7 - 3 * ipc_class u p)
     then (False, st) else (True, set_error EACCES st))"
  using ipcaccess_read [of u p st] ipcaccess_write [of u p st]
    ipcaccess_cases [of u p 256 st] ipcaccess_cases [of u p 128 st]
  by (smt (verit) fst_conv)

text \<open>C36. A successful \<open>ipcget\<close> keeps keys unique in the table: there is never a second live entry for
  the same non-private key, and the entry returned is live and has the requested key.\<close>

theorem ipcget_keys_unique:
  assumes "keys_unique base cnt" "ipcget u key flag base cnt = Inr (i, new, p)"
  shows "keys_unique (base(i := p)) cnt \<and> i < cnt \<and> ipc_live p \<and> ip_key p = key"
  using ipcget_keys_unique_lemma [OF assms] .

definition demo_perm :: ipc_perm where
  "demo_perm = \<lparr>ip_uid = 3, ip_gid = 4, ip_cuid = 3, ip_cgid = 4, ip_mode = 33188, ip_seq = 0, ip_key = 77\<rparr>"

definition demo_user :: uarea where
  "demo_user = \<lparr>u_uid = 3, u_gid = 4, u_proc = 1, u_pid = 100\<rparr>"

definition demo_perms :: "nat \<Rightarrow> ipc_perm" where
  "demo_perms = (\<lambda>i. if i = 1 then demo_perm else demo_perm\<lparr>ip_mode := 0\<rparr>)"

lemma demo_keys_unique: "keys_unique demo_perms 3"
  by (auto simp: keys_unique_def demo_perms_def split: if_splits)

theorem ipcget_keys_unique_witness:
  "\<exists>p. ipcget demo_user 78 950 demo_perms 3 = Inr (0, True, p) \<and> keys_unique (demo_perms(0 := p)) 3"
proof -
  have "\<exists>p. ipcget demo_user 78 950 demo_perms 3 = Inr (0, True, p)"
    by (simp add: ipcget_def numeral_3_eq_3 demo_perms_def demo_perm_def IPC_ALLOC_def IPC_CREAT_def IPC_PRIVATE_def)
  then show ?thesis using ipcget_keys_unique [OF demo_keys_unique] by blast
qed

text \<open>C37. With unique keys, a request for a key in use either fails with \<open>EEXIST\<close> when it is exclusive, or
  with \<open>EACCES\<close> when it asks for modes the entry lacks, or returns that entry unchanged; a request
  for a private or unused key fails with \<open>ENOENT\<close> without \<open>IPC_CREAT\<close>, with \<open>ENOSPC\<close> exactly when every
  slot is live, and otherwise initialises the first free slot for the caller.\<close>

theorem ipcget_correct:
  assumes "keys_unique base cnt"
  shows "(\<forall>j < cnt. ipc_match key base j \<longrightarrow> key \<noteq> IPC_PRIVATE \<longrightarrow>
     ipcget u key flag base cnt =
      (if flag AND (IPC_CREAT OR IPC_EXCL) = IPC_CREAT OR IPC_EXCL then Inl EEXIST
       else if (flag AND 511) AND NOT (ucast (ip_mode (base j))) \<noteq> 0 then Inl EACCES
       else Inr (j, False, base j))) \<and>
   (key = IPC_PRIVATE \<or> (\<forall>j < cnt. \<not> ipc_match key base j) \<longrightarrow>
     (key \<noteq> IPC_PRIVATE \<and> flag AND IPC_CREAT = 0 \<and> ipcget u key flag base cnt = Inl ENOENT) \<or>
     ((key = IPC_PRIVATE \<or> flag AND IPC_CREAT \<noteq> 0) \<and>
       ((ipcget u key flag base cnt = Inl ENOSPC \<and> (\<forall>j < cnt. ipc_live (base j))) \<or>
        (\<exists>j < cnt. ipcget u key flag base cnt = Inr (j, True, ipc_init u key flag (base j)) \<and>
           \<not> ipc_live (base j) \<and> (\<forall>k < j. ipc_live (base k))))))"
  using ipcget_existing [OF assms] ipcget_new by blast

theorem ipcget_correct_witness:
  "ipcget demo_user 77 (IPC_CREAT OR 384) demo_perms 3 = Inr (1, False, demo_perms 1)"
  using conjunct1 [OF ipcget_correct [OF demo_keys_unique, of 77 demo_user "IPC_CREAT OR 384"], rule_format, of 1]
  by (simp add: ipc_match_def demo_perms_def demo_perm_def IPC_ALLOC_def IPC_CREAT_def IPC_EXCL_def IPC_PRIVATE_def)

end
