(* ===== verification/Sem.thy ===== *)
theory Sem
  imports Ipc RMap Chains
begin

text \<open>
  The semaphore facility \<open>io/sem.c\<close> over the structures of \<open>sys/sem.h\<close>.  The tables \<open>sema\<close> (set
  headers), \<open>sem\<close> (semaphores) and \<open>semu\<close> (undo structures) are functions from slots, \<open>sem_undo\<close> maps
  a process slot to its undo structure, \<open>semunp\<close> and \<open>semfup\<close> head the active and the free chain.
  \<open>short\<close>, \<open>ushort\<close> and \<open>int\<close> variables are integers wrapped at each store (\<open>int16\<close>, \<open>uint16\<close>, \<open>int32\<close>).
  The active entries \<open>un_ent[0 .. un_cnt - 1]\<close> are the list \<open>un_ent\<close>, so \<open>un_cnt\<close> is its length.
  \<open>sem_wakes\<close> logs the calls of \<open>wakeup\<close>, \<open>sem_out\<close> what is copied to the user.  A system call is atomic
  up to a call of \<open>sleep\<close>; \<open>None\<close> stands for a walk of a corrupt chain that does not end.
\<close>

section \<open>State\<close>

record seminfo =
  si_semmap :: u32
  semmni :: nat
  semmns :: u32
  semmnu :: nat
  semmsl :: int
  semopm :: nat
  semume :: nat
  semvmx :: int
  semaem :: int

record sem =
  semval :: int
  sempid :: int
  semncnt :: int
  semzcnt :: int

record semid_ds =
  sem_perm :: ipc_perm
  sem_base :: nat
  sem_nsems :: int
  sem_otime :: int
  sem_ctime :: int

record undo =
  un_aoe :: int
  un_num :: int
  un_id :: int

record sem_undo =
  un_np :: ptr
  un_ent :: "undo list"

record sembuf =
  sem_num :: int
  sem_op :: int
  sem_flg :: int

text \<open>The two wait channels of a semaphore, and what is copied out to an address.\<close>

datatype semchan = NCnt nat | ZCnt nat

datatype semout = OutDs int semid_ds | OutVal int int

record semst = ustate +
  sema :: "nat \<Rightarrow> semid_ds"
  sems :: "nat \<Rightarrow> sem"
  semmap :: rmap
  sem_undo :: "nat \<Rightarrow> ptr"
  semu :: "nat \<Rightarrow> sem_undo"
  semunp :: ptr
  semfup :: ptr
  sem_wakes :: "semchan list"
  sem_out :: "semout list"
  sem_count :: nat

text \<open>User memory: what \<open>copyin\<close> and \<open>iomove\<close> read at an address, and which addresses can be written.\<close>

record sem_umem =
  um_ds :: "int \<Rightarrow> semid_ds option"
  um_vals :: "int \<Rightarrow> nat \<Rightarrow> int list option"
  um_ops :: "int \<Rightarrow> nat \<Rightarrow> sembuf list option"
  um_put :: "int \<Rightarrow> bool"

definition SEM_A :: u16 where "SEM_A = 128"
definition SEM_R :: u16 where "SEM_R = 256"
definition SEM_UNDO :: int where "SEM_UNDO = 4096"

abbreviation upd_sema :: "nat \<Rightarrow> (semid_ds \<Rightarrow> semid_ds) \<Rightarrow> semst \<Rightarrow> semst" where
  "upd_sema i f st \<equiv> st\<lparr>sema := (sema st)(i := f (sema st i))\<rparr>"

abbreviation upd_sem :: "nat \<Rightarrow> (sem \<Rightarrow> sem) \<Rightarrow> semst \<Rightarrow> semst" where
  "upd_sem k f st \<equiv> st\<lparr>sems := (sems st)(k := f (sems st k))\<rparr>"

abbreviation upd_semu :: "nat \<Rightarrow> (sem_undo \<Rightarrow> sem_undo) \<Rightarrow> semst \<Rightarrow> semst" where
  "upd_semu u f st \<equiv> st\<lparr>semu := (semu st)(u := f (semu st u))\<rparr>"

text \<open>\<open>if (p->semncnt) { p->semncnt = 0; wakeup(&p->semncnt); }\<close>, and the same for \<open>semzcnt\<close>.\<close>

definition sem_wake_n :: "nat \<Rightarrow> semst \<Rightarrow> semst" where
  "sem_wake_n k st =
     (if semncnt (sems st k) \<noteq> 0
      then (upd_sem k (\<lambda>p. p\<lparr>semncnt := 0\<rparr>) st)\<lparr>sem_wakes := sem_wakes st @ [NCnt k]\<rparr> else st)"

definition sem_wake_z :: "nat \<Rightarrow> semst \<Rightarrow> semst" where
  "sem_wake_z k st =
     (if semzcnt (sems st k) \<noteq> 0
      then (upd_sem k (\<lambda>p. p\<lparr>semzcnt := 0\<rparr>) st)\<lparr>sem_wakes := sem_wakes st @ [ZCnt k]\<rparr> else st)"

section \<open>Undo entries\<close>

text \<open>The scan of \<open>semaoe\<close>: the entries before (\<open>idn\<close>, \<open>num\<close>), and the rest.\<close>

fun undo_find :: "int \<Rightarrow> int \<Rightarrow> undo list \<Rightarrow> undo list \<times> undo list" where
  "undo_find idn num [] = ([], [])"
| "undo_find idn num (e # r) =
     (if un_id e < idn \<or> un_id e = idn \<and> un_num e < num
      then (let (b, s) = undo_find idn num r in (e # b, s)) else ([], e # r))"

text \<open>Unlinking an undo structure from the active chain.\<close>

definition sem_unlink :: "nat \<Rightarrow> nat \<Rightarrow> semst \<Rightarrow> semst option" where
  "sem_unlink fuel up st =
     (if semunp st = Some up then Some (st\<lparr>semunp := un_np (semu st up)\<rparr>)
      else case find_pred fuel (un_np \<circ> semu st) (semunp st) up of
             None \<Rightarrow> None
           | Some None \<Rightarrow> Some st
           | Some (Some q) \<Rightarrow> Some (upd_semu q (\<lambda>x. x\<lparr>un_np := un_np (semu st up)\<rparr>) st))"

text \<open>The caller's undo structure, taken from the free chain at first use.\<close>

definition semaoe_slot :: "uarea \<Rightarrow> semst \<Rightarrow> (nat \<times> semst) option" where
  "semaoe_slot u st =
     (case sem_undo st (u_proc u) of
        Some up \<Rightarrow> Some (up, st)
      | None \<Rightarrow>
          (case semfup st of
             None \<Rightarrow> None
           | Some up \<Rightarrow>
               let st1 = st\<lparr>semfup := un_np (semu st up)\<rparr>;
                   st2 = upd_semu up (\<lambda>x. x\<lparr>un_np := None\<rparr>) st1
               in Some (up, st2\<lparr>sem_undo := (sem_undo st2)(u_proc u := Some up)\<rparr>)))"

definition semaoe_insert :: "seminfo \<Rightarrow> nat \<Rightarrow> undo list \<Rightarrow> undo \<Rightarrow> undo list \<Rightarrow> semst \<Rightarrow> bool \<times> semst" where
  "semaoe_insert si up bef e rest st =
     (let n = length (un_ent (semu st up)) in
      if semume si \<le> n then (True, set_error EINVAL st)
      else let st1 = (if n = 0
                      then (upd_semu up (\<lambda>x. x\<lparr>un_np := semunp st\<rparr>) st)\<lparr>semunp := Some up\<rparr> else st)
           in (False, upd_semu up (\<lambda>x. x\<lparr>un_ent := bef @ e # rest\<rparr>) st1))"

definition semaoe_remove :: "seminfo \<Rightarrow> nat \<Rightarrow> undo list \<Rightarrow> semst \<Rightarrow> semst option" where
  "semaoe_remove si up es st =
     (let st1 = upd_semu up (\<lambda>x. x\<lparr>un_ent := es\<rparr>) st in
      if es = [] then map_option (upd_semu up (\<lambda>x. x\<lparr>un_np := None\<rparr>)) (sem_unlink (semmnu si) up st1)
      else Some st1)"

definition semaoe_update :: "seminfo \<Rightarrow> nat \<Rightarrow> int \<Rightarrow> undo list \<Rightarrow> undo \<Rightarrow> undo list \<Rightarrow> semst
    \<Rightarrow> (bool \<times> semst) option" where
  "semaoe_update si up val bef e aft st =
     (let a = int16 (un_aoe e - val) in
      if semaem si < a \<or> a < - semaem si
      then Some (True, upd_semu up (\<lambda>x. x\<lparr>un_ent := bef @ e\<lparr>un_aoe := int16 (a + val)\<rparr> # aft\<rparr>)
                         (set_error ERANGE st))
      else if a = 0 then map_option (Pair False) (semaoe_remove si up (bef @ aft) st)
      else Some (False, upd_semu up (\<lambda>x. x\<lparr>un_ent := bef @ e\<lparr>un_aoe := a\<rparr> # aft\<rparr>) st))"

definition semaoe :: "seminfo \<Rightarrow> uarea \<Rightarrow> int \<Rightarrow> int \<Rightarrow> int \<Rightarrow> semst \<Rightarrow> (bool \<times> semst) option" where
  "semaoe si u val idn num st =
     (if val = 0 then Some (False, st)
      else if semaem si < val \<or> val < - semaem si then Some (True, set_error ERANGE st)
      else case semaoe_slot u st of
        None \<Rightarrow> Some (True, set_error ENOSPC st)
      | Some (up, st1) \<Rightarrow>
          (case undo_find idn num (un_ent (semu st1 up)) of
             (bef, e # aft) \<Rightarrow>
               if un_id e = idn \<and> un_num e = num then semaoe_update si up val bef e aft st1
               else Some (semaoe_insert si up bef \<lparr>un_aoe = int16 (- val), un_num = num, un_id = idn\<rparr> (e # aft) st1)
           | (bef, []) \<Rightarrow>
               Some (semaoe_insert si up bef \<lparr>un_aoe = int16 (- val), un_num = num, un_id = idn\<rparr> [] st1)))"

text \<open>The entries of one undo structure that survive \<open>semunrm\<close>: the inner loop.\<close>

fun semunrm_ents :: "int \<Rightarrow> int \<Rightarrow> int \<Rightarrow> undo list \<Rightarrow> undo list" where
  "semunrm_ents idn low high [] = []"
| "semunrm_ents idn low high (e # r) =
     (if idn < un_id e then e # r
      else if un_id e < idn \<or> un_num e < low then e # semunrm_ents idn low high r
      else if high < un_num e then e # r
      else semunrm_ents idn low high r)"

fun semunrm_walk :: "int \<Rightarrow> int \<Rightarrow> int \<Rightarrow> nat \<Rightarrow> ptr \<Rightarrow> ptr \<Rightarrow> semst \<Rightarrow> semst option" where
  "semunrm_walk idn low high fuel pp None st = Some st"
| "semunrm_walk idn low high 0 pp (Some p) st = None"
| "semunrm_walk idn low high (Suc fuel) pp (Some p) st =
     (let st1 = upd_semu p (\<lambda>x. x\<lparr>un_ent := semunrm_ents idn low high (un_ent x)\<rparr>) st in
      if un_ent (semu st1 p) = [] then
        (case pp of
           None \<Rightarrow>
             let st2 = st1\<lparr>semunp := un_np (semu st1 p)\<rparr>;
                 st3 = upd_semu p (\<lambda>x. x\<lparr>un_np := None\<rparr>) st2
             in semunrm_walk idn low high fuel None (semunp st3) st3
         | Some q \<Rightarrow>
             let st2 = upd_semu q (\<lambda>x. x\<lparr>un_np := un_np (semu st1 p)\<rparr>) st1;
                 st3 = upd_semu p (\<lambda>x. x\<lparr>un_np := None\<rparr>) st2
             in semunrm_walk idn low high fuel (Some q) (un_np (semu st3 q)) st3)
      else semunrm_walk idn low high fuel (Some p) (un_np (semu st1 p)) st1)"

definition semunrm :: "seminfo \<Rightarrow> int \<Rightarrow> int \<Rightarrow> int \<Rightarrow> semst \<Rightarrow> semst option" where
  "semunrm si idn low high st = semunrm_walk idn low high (semmnu si) None (semunp st) st"

section \<open>Identifiers\<close>

definition semconv :: "seminfo \<Rightarrow> int \<Rightarrow> semst \<Rightarrow> ptr \<times> semst" where
  "semconv si s st =
     (if s < 0 then (None, set_error EINVAL st)
      else let i = nat (s mod int (semmni si)) in
           if \<not> ipc_live (sem_perm (sema st i)) \<or> s div int (semmni si) \<noteq> uint (ip_seq (sem_perm (sema st i)))
           then (None, set_error EINVAL st) else (Some i, st))"

definition semget :: "seminfo \<Rightarrow> uarea \<Rightarrow> int \<Rightarrow> int \<Rightarrow> int \<Rightarrow> u32 \<Rightarrow> semst \<Rightarrow> semst option" where
  "semget si u time key nsems semflg st =
     (case ipcget u key semflg (sem_perm \<circ> sema st) (semmni si) of
        Inl e \<Rightarrow> Some (set_error e st)
      | Inr (i, s, perm) \<Rightarrow>
          let st1 = upd_sema i (\<lambda>sp. sp\<lparr>sem_perm := perm\<rparr>) st;
              drop = (\<lambda>st. upd_sema i (\<lambda>sp. sp\<lparr>sem_perm := (sem_perm sp)\<lparr>ip_mode := 0\<rparr>\<rparr>) st);
              rval = (\<lambda>st. st\<lparr>u_rval1 := int32 (uint (ip_seq (sem_perm (sema st i))) * int (semmni si) + int i)\<rparr>)
          in if s then
               (if nsems \<le> 0 \<or> semmsl si < nsems then Some (drop (set_error EINVAL st1))
                else case malloc (semmap st1) (word_of_int nsems) of
                       None \<Rightarrow> None
                     | Some (a, mp) \<Rightarrow>
                         let st2 = st1\<lparr>semmap := mp\<rparr> in
                         if a = 0 then Some (drop (set_error ENOSPC st2))
                         else Some (rval (upd_sema i (\<lambda>sp. sp\<lparr>sem_base := unat (a - 1), sem_nsems := uint16 nsems,
                                                        sem_ctime := time, sem_otime := 0\<rparr>) st2)))
             else if nsems \<noteq> 0 \<and> sem_nsems (sema st1 i) < nsems then Some (set_error EINVAL st1)
             else Some (rval st1))"

section \<open>Control operations\<close>

definition sem_owner :: "uarea \<Rightarrow> nat \<Rightarrow> semst \<Rightarrow> bool \<times> semst" where
  "sem_owner u i st =
     (if u_uid u \<noteq> ip_uid (sem_perm (sema st i)) \<and> u_uid u \<noteq> ip_cuid (sem_perm (sema st i))
      then suser u st else (True, st))"

text \<open>The loop of \<open>IPC_RMID\<close> clears \<open>n\<close> semaphores from \<open>k\<close> on.\<close>

fun semctl_clear :: "nat \<Rightarrow> nat \<Rightarrow> semst \<Rightarrow> semst" where
  "semctl_clear k 0 st = st"
| "semctl_clear k (Suc n) st =
     semctl_clear (Suc k) n
       (sem_wake_z k (sem_wake_n k (upd_sem k (\<lambda>p. p\<lparr>semval := 0, sempid := 0\<rparr>) st)))"

definition semctl_rmid :: "seminfo \<Rightarrow> uarea \<Rightarrow> int \<Rightarrow> nat \<Rightarrow> semst \<Rightarrow> semst option" where
  "semctl_rmid si u semid i st =
     (case sem_owner u i st of
        (False, st0) \<Rightarrow> Some st0
      | (True, st0) \<Rightarrow>
          (case semunrm si semid 0 (sem_nsems (sema st0 i)) st0 of
             None \<Rightarrow> None
           | Some st1 \<Rightarrow>
               let st2 = semctl_clear (sem_base (sema st1 i)) (nat (sem_nsems (sema st1 i))) st1 in
               (case mfree (semmap st2) (word_of_int (sem_nsems (sema st2 i))) (word_of_nat (sem_base (sema st2 i)) + 1) of
                  None \<Rightarrow> None
                | Some r \<Rightarrow>
                    let st3 = st2\<lparr>semmap := (case r of MFreed mp _ \<Rightarrow> mp | MLost mp \<Rightarrow> mp)\<rparr>
                    in Some (upd_sema i (\<lambda>sp. sp\<lparr>sem_perm := (sem_perm sp)\<lparr>
                         ip_seq := (if int32 (semid + int (semmni si)) < 0 then 0 else ip_seq (sem_perm sp) + 1),
                         ip_mode := 0\<rparr>\<rparr>) st3))))"

definition semctl_set :: "uarea \<Rightarrow> int \<Rightarrow> sem_umem \<Rightarrow> int \<Rightarrow> nat \<Rightarrow> semst \<Rightarrow> semst" where
  "semctl_set u time um arg i st =
     (case sem_owner u i st of
        (False, st0) \<Rightarrow> st0
      | (True, st0) \<Rightarrow>
          (case um_ds um arg of
             None \<Rightarrow> set_error EFAULT st0
           | Some ds \<Rightarrow>
               upd_sema i (\<lambda>sp. sp\<lparr>sem_perm := (sem_perm sp)\<lparr>
                   ip_uid := ip_uid (sem_perm ds), ip_gid := ip_gid (sem_perm ds),
                   ip_mode := (ip_mode (sem_perm ds) AND 511) OR IPC_ALLOC\<rparr>, sem_ctime := time\<rparr>) st0))"

definition semctl_stat :: "uarea \<Rightarrow> sem_umem \<Rightarrow> int \<Rightarrow> nat \<Rightarrow> semst \<Rightarrow> semst" where
  "semctl_stat u um arg i st =
     (case ipcaccess u (sem_perm (sema st i)) SEM_R st of
        (True, st0) \<Rightarrow> st0
      | (False, st0) \<Rightarrow>
          if um_put um arg then st0\<lparr>sem_out := sem_out st0 @ [OutDs arg (sema st0 i)]\<rparr>
          else set_error EFAULT st0)"

text \<open>\<open>GETNCNT\<close>, \<open>GETPID\<close>, \<open>GETVAL\<close> and \<open>GETZCNT\<close> differ only in the field they return.\<close>

definition semctl_get :: "uarea \<Rightarrow> (sem \<Rightarrow> int) \<Rightarrow> nat \<Rightarrow> nat \<Rightarrow> semst \<Rightarrow> semst" where
  "semctl_get u field semnum i st =
     (case ipcaccess u (sem_perm (sema st i)) SEM_R st of
        (True, st0) \<Rightarrow> st0
      | (False, st0) \<Rightarrow>
          if sem_nsems (sema st0 i) \<le> int semnum then set_error EINVAL st0
          else st0\<lparr>u_rval1 := field (sems st0 (sem_base (sema st0 i) + semnum))\<rparr>)"

fun semctl_copyall :: "sem_umem \<Rightarrow> int \<Rightarrow> nat \<Rightarrow> nat \<Rightarrow> semst \<Rightarrow> semst" where
  "semctl_copyall um a k 0 st = st"
| "semctl_copyall um a k (Suc n) st =
     (if um_put um a
      then semctl_copyall um (a + 2) (Suc k) n (st\<lparr>sem_out := sem_out st @ [OutVal a (semval (sems st k))]\<rparr>)
      else set_error EFAULT st)"

definition semctl_getall :: "uarea \<Rightarrow> sem_umem \<Rightarrow> int \<Rightarrow> nat \<Rightarrow> semst \<Rightarrow> semst" where
  "semctl_getall u um arg i st =
     (case ipcaccess u (sem_perm (sema st i)) SEM_R st of
        (True, st0) \<Rightarrow> st0
      | (False, st0) \<Rightarrow> semctl_copyall um arg (sem_base (sema st0 i)) (nat (sem_nsems (sema st0 i))) st0)"

text \<open>Storing a new value and waking the sleepers it may release.\<close>

definition sem_assign :: "nat \<Rightarrow> int \<Rightarrow> semst \<Rightarrow> semst" where
  "sem_assign k v st =
     (let st1 = upd_sem k (\<lambda>p. p\<lparr>semval := v\<rparr>) st in if v \<noteq> 0 then sem_wake_n k st1 else sem_wake_z k st1)"

definition semctl_setval :: "seminfo \<Rightarrow> uarea \<Rightarrow> int \<Rightarrow> nat \<Rightarrow> int \<Rightarrow> nat \<Rightarrow> semst \<Rightarrow> semst option" where
  "semctl_setval si u semid semnum arg i st =
     (case ipcaccess u (sem_perm (sema st i)) SEM_A st of
        (True, st0) \<Rightarrow> Some st0
      | (False, st0) \<Rightarrow>
          if sem_nsems (sema st0 i) \<le> int semnum then Some (set_error EINVAL st0)
          else if semvmx si < arg mod 4294967296 then Some (set_error ERANGE st0)
          else let k = sem_base (sema st0 i) + semnum;
                   st1 = sem_assign k (uint16 arg) st0;
                   st2 = upd_sem k (\<lambda>p. p\<lparr>sempid := u_pid u\<rparr>) st1
               in semunrm si semid (uint16 (int semnum)) (uint16 (int semnum)) st2)"

fun semctl_assign :: "int \<Rightarrow> nat \<Rightarrow> int list \<Rightarrow> semst \<Rightarrow> semst" where
  "semctl_assign pid k [] st = st"
| "semctl_assign pid k (v # vs) st =
     semctl_assign pid (Suc k) vs (upd_sem k (\<lambda>p. p\<lparr>sempid := pid\<rparr>) (sem_assign k v st))"

definition semctl_setall :: "seminfo \<Rightarrow> uarea \<Rightarrow> sem_umem \<Rightarrow> int \<Rightarrow> int \<Rightarrow> nat \<Rightarrow> semst \<Rightarrow> semst option" where
  "semctl_setall si u um semid arg i st =
     (case ipcaccess u (sem_perm (sema st i)) SEM_A st of
        (True, st0) \<Rightarrow> Some st0
      | (False, st0) \<Rightarrow>
          (case um_vals um arg (nat (sem_nsems (sema st0 i))) of
             None \<Rightarrow> Some (set_error EFAULT st0)
           | Some vs \<Rightarrow>
               if \<exists>v \<in> set vs. semvmx si < v then Some (set_error ERANGE st0)
               else map_option (\<lambda>st1. semctl_assign (u_pid u) (sem_base (sema st1 i)) vs st1)
                      (semunrm si semid 0 (sem_nsems (sema st0 i)) st0)))"

definition semctl :: "seminfo \<Rightarrow> uarea \<Rightarrow> int \<Rightarrow> sem_umem \<Rightarrow> int \<Rightarrow> nat \<Rightarrow> int \<Rightarrow> int \<Rightarrow> semst \<Rightarrow> semst option" where
  "semctl si u time um semid semnum cmd arg st =
     (case semconv si semid st of
        (None, st0) \<Rightarrow> Some st0
      | (Some i, st00) \<Rightarrow>
          let st0 = st00\<lparr>u_rval1 := 0\<rparr> in
          if cmd = 0 then semctl_rmid si u semid i st0
          else if cmd = 1 then Some (semctl_set u time um arg i st0)
          else if cmd = 2 then Some (semctl_stat u um arg i st0)
          else if cmd = 3 then Some (semctl_get u semncnt semnum i st0)
          else if cmd = 4 then Some (semctl_get u sempid semnum i st0)
          else if cmd = 5 then Some (semctl_get u semval semnum i st0)
          else if cmd = 6 then Some (semctl_getall u um arg i st0)
          else if cmd = 7 then Some (semctl_get u semzcnt semnum i st0)
          else if cmd = 8 then semctl_setval si u semid semnum arg i st0
          else if cmd = 9 then semctl_setall si u um semid arg i st0
          else Some (set_error EINVAL st0))"

section \<open>Process exit\<close>

definition semexit_one :: "seminfo \<Rightarrow> undo \<Rightarrow> semst \<Rightarrow> semst" where
  "semexit_one si e st =
     (case semconv si (un_id e) st of
        (None, st0) \<Rightarrow> st0
      | (Some i, st0) \<Rightarrow>
          let k = sem_base (sema st0 i) + nat (un_num e);
              v = semval (sems st0 k) + un_aoe e
          in if v < 0 \<or> semvmx si < v then st0
             else let st1 = upd_sem k (\<lambda>p. p\<lparr>semval := uint16 v\<rparr>) st0;
                      st2 = (if v = 0 then sem_wake_z k st1 else st1)
                  in if 0 < un_aoe e then sem_wake_n k st2 else st2)"

definition semexit :: "seminfo \<Rightarrow> uarea \<Rightarrow> semst \<Rightarrow> semst option" where
  "semexit si u st =
     (case sem_undo st (u_proc u) of
        None \<Rightarrow> Some st
      | Some up \<Rightarrow>
          map_option
            (\<lambda>st1. let st2 = (upd_semu up (\<lambda>x. x\<lparr>un_np := semfup st1\<rparr>) st1)\<lparr>semfup := Some up\<rparr>
                   in st2\<lparr>sem_undo := (sem_undo st2)(u_proc u := None)\<rparr>)
            (if un_ent (semu st up) = [] then Some st
             else let st1 = fold (semexit_one si) (rev (un_ent (semu st up))) st
                  in sem_unlink (semmnu si) up (upd_semu up (\<lambda>x. x\<lparr>un_ent := []\<rparr>) st1)))"

section \<open>Initialisation\<close>

fun seminit_link :: "nat \<Rightarrow> nat \<Rightarrow> semst \<Rightarrow> semst" where
  "seminit_link i 0 st = upd_semu i (\<lambda>x. x\<lparr>un_np := None\<rparr>) st"
| "seminit_link i (Suc n) st = seminit_link (Suc i) n (upd_semu i (\<lambda>x. x\<lparr>un_np := Some (Suc i)\<rparr>) st)"

definition seminit :: "seminfo \<Rightarrow> semst \<Rightarrow> semst option" where
  "seminit si st =
     (case mfree (mapinit (semmap st) (si_semmap si)) (semmns si) 1 of
        None \<Rightarrow> None
      | Some r \<Rightarrow>
          let st1 = st\<lparr>semmap := (case r of MFreed mp _ \<Rightarrow> mp | MLost mp \<Rightarrow> mp)\<rparr>
          in Some ((seminit_link 0 (semmnu si - 1) st1)\<lparr>semfup := Some 0\<rparr>))"

section \<open>Semaphore operations\<close>

text \<open>\<open>semundo\<close> takes the operations back in reverse order.\<close>

definition semundo_one :: "seminfo \<Rightarrow> uarea \<Rightarrow> int \<Rightarrow> nat \<Rightarrow> sembuf \<Rightarrow> semst \<Rightarrow> semst option" where
  "semundo_one si u semid i op st =
     (if sem_op op = 0 then Some st
      else let k = sem_base (sema st i) + nat (sem_num op);
               st1 = upd_sem k (\<lambda>p. p\<lparr>semval := uint16 (semval p - sem_op op)\<rparr>) st
           in if sem_flg op AND SEM_UNDO \<noteq> 0
              then map_option snd (semaoe si u (int16 (- sem_op op)) semid (int16 (sem_num op)) st1)
              else Some st1)"

fun semundo :: "seminfo \<Rightarrow> uarea \<Rightarrow> int \<Rightarrow> nat \<Rightarrow> sembuf list \<Rightarrow> semst \<Rightarrow> semst option" where
  "semundo si u semid i [] st = Some st"
| "semundo si u semid i (op # r) st = Option.bind (semundo_one si u semid i op st) (semundo si u semid i r)"

datatype semop_out = SemDone | SemFail | SemSleep semchan

definition semop_aoe :: "seminfo \<Rightarrow> uarea \<Rightarrow> int \<Rightarrow> sembuf \<Rightarrow> semst \<Rightarrow> (bool \<times> semst) option" where
  "semop_aoe si u semid op st =
     (if sem_flg op AND SEM_UNDO \<noteq> 0 then semaoe si u (sem_op op) semid (int16 (sem_num op)) st
      else Some (False, st))"

text \<open>
  The loop that tries the operations; \<open>dn\<close> are those done so far, last first.  When an operation
  cannot be done the others are taken back, and the call fails or goes to sleep on a channel.
\<close>

fun semop_pass :: "seminfo \<Rightarrow> uarea \<Rightarrow> int \<Rightarrow> nat \<Rightarrow> sembuf list \<Rightarrow> sembuf list \<Rightarrow> semst
    \<Rightarrow> (semop_out \<times> semst) option" where
  "semop_pass si u semid i dn [] st = Some (SemDone, st)"
| "semop_pass si u semid i dn (op # r) st =
     (let k = sem_base (sema st i) + nat (sem_num op);
          v = semval (sems st k)
      in if 0 < sem_op op then
           (case (if semvmx si < sem_op op + v then Some (True, st) else semop_aoe si u semid op st) of
              None \<Rightarrow> None
            | Some (True, st1) \<Rightarrow>
                map_option (Pair SemFail)
                  (semundo si u semid i dn (if u_error st1 = None then set_error ERANGE st1 else st1))
            | Some (False, st1) \<Rightarrow>
                let st2 = upd_sem k (\<lambda>p. p\<lparr>semval := uint16 (semval p + sem_op op)\<rparr>) st1;
                    st3 = sem_wake_n k st2;
                    st4 = (if semval (sems st3 k) = 0 then sem_wake_z k st3 else st3)
                in semop_pass si u semid i (op # dn) r st4)
         else if sem_op op < 0 then
           (if - sem_op op \<le> v then
              (case semop_aoe si u semid op st of
                 None \<Rightarrow> None
               | Some (True, st1) \<Rightarrow> map_option (Pair SemFail) (semundo si u semid i dn st1)
               | Some (False, st1) \<Rightarrow>
                   let st2 = upd_sem k (\<lambda>p. p\<lparr>semval := uint16 (semval p + sem_op op)\<rparr>) st1;
                       st3 = (if semval (sems st2 k) = 0 then sem_wake_z k st2 else st2)
                   in semop_pass si u semid i (op # dn) r st3)
            else (case semundo si u semid i dn st of
                    None \<Rightarrow> None
                  | Some st1 \<Rightarrow>
                      if sem_flg op AND IPC_NOWAIT \<noteq> 0 then Some (SemFail, set_error EAGAIN st1)
                      else Some (SemSleep (NCnt k), upd_sem k (\<lambda>p. p\<lparr>semncnt := uint16 (semncnt p + 1)\<rparr>) st1)))
         else if v \<noteq> 0 then
           (case semundo si u semid i dn st of
              None \<Rightarrow> None
            | Some st1 \<Rightarrow>
                if sem_flg op AND IPC_NOWAIT \<noteq> 0 then Some (SemFail, set_error EAGAIN st1)
                else Some (SemSleep (ZCnt k), upd_sem k (\<lambda>p. p\<lparr>semzcnt := uint16 (semzcnt p + 1)\<rparr>) st1))
         else semop_pass si u semid i (op # dn) r st)"

text \<open>The tail of \<open>semop\<close>: all operations succeeded.\<close>

definition semop_finish :: "uarea \<Rightarrow> int \<Rightarrow> nat \<Rightarrow> sembuf list \<Rightarrow> semst \<Rightarrow> semst" where
  "semop_finish u time i ops st =
     (let st1 = fold (\<lambda>op st. upd_sem (sem_base (sema st i) + nat (sem_num op)) (\<lambda>p. p\<lparr>sempid := u_pid u\<rparr>) st) ops st
      in (upd_sema i (\<lambda>sp. sp\<lparr>sem_otime := time\<rparr>) st1)\<lparr>u_rval1 := 0\<rparr>)"

definition semop_try :: "seminfo \<Rightarrow> uarea \<Rightarrow> int \<Rightarrow> int \<Rightarrow> nat \<Rightarrow> sembuf list \<Rightarrow> semst \<Rightarrow> (semop_out \<times> semst) option" where
  "semop_try si u time semid i ops st =
     (case semop_pass si u semid i [] ops st of
        Some (SemDone, st1) \<Rightarrow> Some (SemDone, semop_finish u time i ops st1)
      | r \<Rightarrow> r)"

text \<open>The verification of semaphore numbers and permissions; \<open>True\<close> when it fails.\<close>

fun semop_verify :: "uarea \<Rightarrow> nat \<Rightarrow> sembuf list \<Rightarrow> semst \<Rightarrow> bool \<times> semst" where
  "semop_verify u i [] st = (False, st)"
| "semop_verify u i (op # r) st =
     (case ipcaccess u (sem_perm (sema st i)) (if sem_op op \<noteq> 0 then SEM_A else SEM_R) st of
        (True, st1) \<Rightarrow> (True, st1)
      | (False, st1) \<Rightarrow>
          if sem_nsems (sema st1 i) \<le> sem_num op then (True, set_error EFBIG st1)
          else semop_verify u i r st1)"

text \<open>\<open>semop\<close> up to its completion or its first sleep; the set slot is kept for the resumption.\<close>

definition semop :: "seminfo \<Rightarrow> uarea \<Rightarrow> int \<Rightarrow> sem_umem \<Rightarrow> int \<Rightarrow> int \<Rightarrow> nat \<Rightarrow> semst
    \<Rightarrow> (semop_out \<times> nat \<times> semst) option" where
  "semop si u time um semid sops nsops st =
     (case semconv si semid (st\<lparr>sem_count := sem_count st + 1\<rparr>) of
        (None, st0) \<Rightarrow> Some (SemFail, 0, st0)
      | (Some i, st0) \<Rightarrow>
          if semopm si < nsops then Some (SemFail, i, set_error E2BIG st0)
          else (case um_ops um sops nsops of
                  None \<Rightarrow> Some (SemFail, i, set_error EFAULT st0)
                | Some ops \<Rightarrow>
                    (case semop_verify u i ops st0 of
                       (True, st1) \<Rightarrow> Some (SemFail, i, st1)
                     | (False, st1) \<Rightarrow>
                         map_option (\<lambda>(out, st2). (out, i, st2)) (semop_try si u time semid i ops st1))))"

text \<open>
  The two continuations of a sleep: interrupted by a signal, or woken, when the loop starts over
  (\<open>goto check\<close>) and the operations are copied in again.
\<close>

definition semop_intr :: "semchan \<Rightarrow> semst \<Rightarrow> semst" where
  "semop_intr ch st =
     (case ch of
        NCnt k \<Rightarrow>
          let old = semncnt (sems st k);
              st1 = upd_sem k (\<lambda>p. p\<lparr>semncnt := uint16 (old - 1)\<rparr>) st
          in set_error EINTR
               (if old \<le> 1 then (upd_sem k (\<lambda>p. p\<lparr>semncnt := 0\<rparr>) st1)\<lparr>sem_wakes := sem_wakes st1 @ [NCnt k]\<rparr> else st1)
      | ZCnt k \<Rightarrow>
          let old = semzcnt (sems st k);
              st1 = upd_sem k (\<lambda>p. p\<lparr>semzcnt := uint16 (old - 1)\<rparr>) st
          in set_error EINTR
               (if old \<le> 1 then (upd_sem k (\<lambda>p. p\<lparr>semzcnt := 0\<rparr>) st1)\<lparr>sem_wakes := sem_wakes st1 @ [ZCnt k]\<rparr> else st1))"

definition semop_again :: "seminfo \<Rightarrow> uarea \<Rightarrow> int \<Rightarrow> sem_umem \<Rightarrow> int \<Rightarrow> int \<Rightarrow> nat \<Rightarrow> nat \<Rightarrow> semst
    \<Rightarrow> (semop_out \<times> semst) option" where
  "semop_again si u time um semid sops nsops i st =
     (case semconv si semid st of
        (None, st0) \<Rightarrow> Some (SemFail, set_error EIDRM st0)
      | (Some _, st0) \<Rightarrow>
          (case um_ops um sops nsops of
             None \<Rightarrow> Some (SemFail, set_error EFAULT st0)
           | Some ops \<Rightarrow> semop_try si u time semid i ops st0))"

text \<open>
  \<open>semsys\<close> dispatches on the function code; \<open>a\<close> are the argument words behind it, read by each call
  at the types of its own argument structure.
\<close>

definition semsys :: "seminfo \<Rightarrow> uarea \<Rightarrow> int \<Rightarrow> sem_umem \<Rightarrow> nat \<Rightarrow> (nat \<Rightarrow> int) \<Rightarrow> semst
    \<Rightarrow> (semop_out \<times> nat \<times> semst) option" where
  "semsys si u time um fid a st =
     (if 2 < fid then Some (SemFail, 0, set_error EINVAL st)
      else if fid = 0 then
        map_option (\<lambda>st1. (SemDone, 0, st1)) (semctl si u time um (a 0) (nat (a 1 mod 4294967296)) (a 2) (a 3) st)
      else if fid = 1 then
        map_option (\<lambda>st1. (SemDone, 0, st1)) (semget si u time (a 0) (a 1) (word_of_int (a 2)) st)
      else semop si u time um (a 0) (a 1) (nat (a 2 mod 4294967296)) st)"

end
