(* ===== verification/SemUndo.thy ===== *)
theory SemUndo
  imports Sem
begin

text \<open>
  The undo tables of the semaphore facility: what \<open>semaoe\<close>, \<open>semundo\<close> and \<open>semunrm\<close> do to the entries of
  each process, the chains of active and free undo structures, and that every walk of them ends.
\<close>

section \<open>Undo entries of one process\<close>

definition undo_lt :: "undo \<Rightarrow> undo \<Rightarrow> bool" where
  "undo_lt e f \<longleftrightarrow> un_id e < un_id f \<or> un_id e = un_id f \<and> un_num e < un_num f"

definition ents_ok :: "seminfo \<Rightarrow> undo list \<Rightarrow> bool" where
  "ents_ok si es \<longleftrightarrow> sorted_wrt undo_lt es \<and> length es \<le> semume si \<and>
     (\<forall>e \<in> set es. un_aoe e \<noteq> 0 \<and> \<bar>un_aoe e\<bar> \<le> semaem si)"

definition si_ok :: "seminfo \<Rightarrow> bool" where
  "si_ok si \<longleftrightarrow> 0 \<le> semvmx si \<and> semvmx si < 65536 \<and> 0 \<le> semaem si \<and> semaem si < 16385 \<and>
     0 < semmni si \<and> semmni si < 32768 \<and> semmsl si < 65536"

text \<open>What \<open>semaoe\<close> does to the entries of the process; \<open>None\<close> when it refuses.\<close>

definition ents_insert :: "seminfo \<Rightarrow> undo list \<Rightarrow> undo \<Rightarrow> undo list \<Rightarrow> undo list option" where
  "ents_insert si bef e rest = (if semume si \<le> length (bef @ rest) then None else Some (bef @ e # rest))"

definition ents_step :: "seminfo \<Rightarrow> int \<Rightarrow> int \<Rightarrow> int \<Rightarrow> undo list \<Rightarrow> undo list option" where
  "ents_step si val idn num es =
     (case undo_find idn num es of
        (bef, e # aft) \<Rightarrow>
          if un_id e = idn \<and> un_num e = num
          then (let a = un_aoe e - val in
                if semaem si < \<bar>a\<bar> then None else if a = 0 then Some (bef @ aft)
                else Some (bef @ e\<lparr>un_aoe := a\<rparr> # aft))
          else ents_insert si bef \<lparr>un_aoe = - val, un_num = num, un_id = idn\<rparr> (e # aft)
      | (bef, []) \<Rightarrow> ents_insert si bef \<lparr>un_aoe = - val, un_num = num, un_id = idn\<rparr> [])"

lemma undo_find_split:
  "undo_find idn num es = (b, r) \<Longrightarrow> es = b @ r \<and>
     (\<forall>e \<in> set b. un_id e < idn \<or> un_id e = idn \<and> un_num e < num) \<and>
     (\<forall>e r'. r = e # r' \<longrightarrow> \<not> (un_id e < idn \<or> un_id e = idn \<and> un_num e < num))"
  by (induction es arbitrary: b r) (auto split: if_splits prod.splits)

lemma undo_find_app:
  "(\<forall>e \<in> set b. un_id e < idn \<or> un_id e = idn \<and> un_num e < num) \<Longrightarrow>
   undo_find idn num (b @ r) = (b @ fst (undo_find idn num r), snd (undo_find idn num r))"
  by (induction b) (auto simp: case_prod_beta Let_def)

lemma undo_find_stop:
  "(\<And>e r'. r = e # r' \<Longrightarrow> \<not> (un_id e < idn \<or> un_id e = idn \<and> un_num e < num)) \<Longrightarrow> undo_find idn num r = ([], r)"
  by (cases r) auto

lemma undo_find_at:
  "(\<forall>e \<in> set b. un_id e < idn \<or> un_id e = idn \<and> un_num e < num) \<Longrightarrow>
   (\<And>e r'. r = e # r' \<Longrightarrow> \<not> (un_id e < idn \<or> un_id e = idn \<and> un_num e < num)) \<Longrightarrow>
   undo_find idn num (b @ r) = (b, r)"
  using undo_find_app undo_find_stop [of r] by simp

text \<open>The total adjustment recorded for a semaphore.\<close>

definition ents_adj :: "undo list \<Rightarrow> int \<Rightarrow> int \<Rightarrow> int" where
  "ents_adj es idn num = sum_list (map un_aoe (filter (\<lambda>e. un_id e = idn \<and> un_num e = num) es))"

lemma ents_adj_simps [simp]:
  "ents_adj [] idn num = 0"
  "ents_adj (e # es) idn num = (if un_id e = idn \<and> un_num e = num then un_aoe e else 0) + ents_adj es idn num"
  "ents_adj (es @ fs) idn num = ents_adj es idn num + ents_adj fs idn num"
  by (simp_all add: ents_adj_def)

lemma ents_step_cases:
  assumes ok: "ents_ok si es"
  obtains (found) bef e aft where "es = bef @ e # aft" "un_id e = idn" "un_num e = num"
      "\<forall>f \<in> set bef. undo_lt f e" "\<forall>f \<in> set aft. undo_lt e f"
      "undo_find idn num es = (bef, e # aft)"
    | (new) bef rest where "es = bef @ rest"
      "undo_find idn num es = (bef, rest)"
      "\<forall>f \<in> set bef. un_id f < idn \<or> un_id f = idn \<and> un_num f < num"
      "\<forall>f \<in> set rest. idn < un_id f \<or> idn = un_id f \<and> num < un_num f"
proof -
  obtain b r where f: "undo_find idn num es = (b, r)" by fastforce
  note split = undo_find_split [OF f]
  show thesis
  proof (cases r)
    case Nil
    then show thesis using split f by (intro new [of b r]) auto
  next
    case (Cons e aft)
    have s: "\<forall>f \<in> set b. undo_lt f e" "\<forall>f \<in> set aft. undo_lt e f"
      using ok split Cons by (auto simp: ents_ok_def sorted_wrt_append)
    show thesis
    proof (cases "un_id e = idn \<and> un_num e = num")
      case True
      then show thesis using split Cons s f by (intro found [of b e aft]) auto
    next
      case False
      then have "idn < un_id e \<or> idn = un_id e \<and> num < un_num e" using split Cons by auto
      moreover from this have "\<forall>f \<in> set aft. idn < un_id f \<or> idn = un_id f \<and> num < un_num f"
        using s(2) by (auto simp: undo_lt_def)
      ultimately show thesis using split Cons f by (intro new [of b r]) auto
    qed
  qed
qed

lemma ents_step_new:
  assumes "undo_find idn num es = (bef, rest)" "\<forall>f \<in> set rest. idn < un_id f \<or> idn = un_id f \<and> num < un_num f"
  shows "ents_step si val idn num es = ents_insert si bef \<lparr>un_aoe = - val, un_num = num, un_id = idn\<rparr> rest"
  using assms by (auto simp: ents_step_def split: list.splits)

lemma ents_step_ok:
  assumes ok: "ents_ok si es" and v: "val \<noteq> 0" "\<bar>val\<bar> \<le> semaem si" and st: "ents_step si val idn num es = Some es'"
  shows "ents_ok si es' \<and> ents_adj es' i n = ents_adj es i n - (if i = idn \<and> n = num then val else 0)"
  using ok
proof (cases rule: ents_step_cases [where idn = idn and num = num])
  case (found bef e aft)
  let ?a = "un_aoe e - val"
  have ord: "sorted_wrt undo_lt (bef @ aft)" "\<forall>f \<in> set bef. undo_lt f e" "\<forall>f \<in> set aft. undo_lt e f"
    and adj: "\<forall>f \<in> set (bef @ aft). un_aoe f \<noteq> 0 \<and> \<bar>un_aoe f\<bar> \<le> semaem si" "Suc (length (bef @ aft)) \<le> semume si"
    using ok found by (simp_all add: ents_ok_def sorted_wrt_append)
  have new: "ents_step si val idn num es = (if semaem si < \<bar>?a\<bar> then None else if ?a = 0 then Some (bef @ aft)
      else Some (bef @ e\<lparr>un_aoe := ?a\<rparr> # aft))"
    using found by (simp add: ents_step_def Let_def)
  show ?thesis
  proof (cases "?a = 0")
    case True
    then have "es' = bef @ aft" using new st by (simp split: if_splits)
    then show ?thesis using ord adj found True by (simp add: ents_ok_def)
  next
    case False
    then have es': "es' = bef @ e\<lparr>un_aoe := ?a\<rparr> # aft" "\<bar>?a\<bar> \<le> semaem si"
      using new st by (simp_all split: if_splits)
    have "undo_lt f (e\<lparr>un_aoe := ?a\<rparr>) = undo_lt f e" "undo_lt (e\<lparr>un_aoe := ?a\<rparr>) f = undo_lt e f" for f
      by (simp_all add: undo_lt_def)
    then have "ents_ok si es'" using es' ord adj False by (simp add: ents_ok_def sorted_wrt_append)
    then show ?thesis using es'(1) found by simp
  qed
next
  case (new bef rest)
  let ?e = "\<lparr>un_aoe = - val, un_num = num, un_id = idn\<rparr>"
  have es': "es' = bef @ ?e # rest" "length (bef @ rest) < semume si"
    using st unfolding ents_step_new [OF new(2,4)] by (auto simp: ents_insert_def split: if_splits)
  have "\<forall>f \<in> set bef. undo_lt f ?e" "\<forall>f \<in> set rest. undo_lt ?e f" using new by (simp_all add: undo_lt_def)
  moreover have "sorted_wrt undo_lt (bef @ rest)" "\<forall>f \<in> set (bef @ rest). un_aoe f \<noteq> 0 \<and> \<bar>un_aoe f\<bar> \<le> semaem si"
    using ok new(1) by (simp_all add: ents_ok_def)
  ultimately have "ents_ok si es'" using es' v by (auto simp: ents_ok_def sorted_wrt_append)
  then show ?thesis using es'(1) new(1) by simp
qed

lemma ents_step_inverse:
  assumes ok: "ents_ok si es" and v: "val \<noteq> 0" "\<bar>val\<bar> \<le> semaem si" and st: "ents_step si val idn num es = Some es'"
  shows "ents_step si (- val) idn num es' = Some es"
  using ok
proof (cases rule: ents_step_cases [where idn = idn and num = num])
  case (found bef e aft)
  have bef: "\<forall>f \<in> set bef. un_id f < idn \<or> un_id f = idn \<and> un_num f < num"
    using found by (auto simp: undo_lt_def)
  have aft: "\<forall>f \<in> set aft. idn < un_id f \<or> idn = un_id f \<and> num < un_num f"
    using found by (auto simp: undo_lt_def)
  have e: "un_aoe e \<noteq> 0" "\<bar>un_aoe e\<bar> \<le> semaem si" "length es \<le> semume si"
    using ok found by (auto simp: ents_ok_def)
  show ?thesis
  proof (cases "un_aoe e = val")
    case True
    then have es': "es' = bef @ aft" using st found by (auto simp: ents_step_def Let_def split: if_splits)
    have "undo_find idn num es' = (bef, aft)"
      unfolding es' using bef aft by (intro undo_find_at) auto
    moreover have "\<lparr>un_aoe = val, un_num = num, un_id = idn\<rparr> = e" using True found by simp
    ultimately show ?thesis
      using ents_step_new [of idn num es' bef aft] aft e found by (simp add: ents_insert_def)
  next
    case False
    then have es': "es' = bef @ e\<lparr>un_aoe := un_aoe e - val\<rparr> # aft"
      using st found by (auto simp: ents_step_def Let_def split: if_splits)
    have "undo_find idn num es' = (bef, e\<lparr>un_aoe := un_aoe e - val\<rparr> # aft)"
      unfolding es' using bef found by (intro undo_find_at) auto
    then show ?thesis using e found by (auto simp: ents_step_def)
  qed
next
  case (new bef rest)
  let ?e = "\<lparr>un_aoe = - val, un_num = num, un_id = idn\<rparr>"
  have es': "es' = bef @ ?e # rest"
    using st unfolding ents_step_new [OF new(2,4)] by (auto simp: ents_insert_def split: if_splits)
  have "undo_find idn num es' = (bef, ?e # rest)"
    unfolding es' using new by (intro undo_find_at) auto
  then show ?thesis using v new by (simp add: ents_step_def)
qed

section \<open>The chains of undo structures\<close>

abbreviation unps :: "semst \<Rightarrow> nat \<Rightarrow> ptr" where
  "unps st \<equiv> un_np \<circ> semu st"

definition undo_rep :: "seminfo \<Rightarrow> semst \<Rightarrow> nat list \<Rightarrow> nat list \<Rightarrow> bool" where
  "undo_rep si st us fs \<longleftrightarrow>
     linked (unps st) (semunp st) us \<and> linked (unps st) (semfup st) fs \<and> set us \<inter> set fs = {} \<and>
     set us \<union> set fs \<subseteq> {..< semmnu si} \<and>
     (\<forall>p up. sem_undo st p = Some up \<longrightarrow> up < semmnu si \<and> up \<notin> set fs) \<and>
     (\<forall>p q up. sem_undo st p = Some up \<longrightarrow> sem_undo st q = Some up \<longrightarrow> p = q) \<and>
     (\<forall>up. up \<in> set us \<longleftrightarrow> un_ent (semu st up) \<noteq> []) \<and>
     (\<forall>up \<in> set us. \<exists>p. sem_undo st p = Some up) \<and>
     (\<forall>up. ents_ok si (un_ent (semu st up)))"

definition undo_wf :: "seminfo \<Rightarrow> semst \<Rightarrow> bool" where
  "undo_wf si st \<longleftrightarrow> (\<exists>us fs. undo_rep si st us fs)"

text \<open>The entries of the process in slot \<open>p\<close>.\<close>

definition pents :: "semst \<Rightarrow> nat \<Rightarrow> undo list" where
  "pents st p = (case sem_undo st p of None \<Rightarrow> [] | Some up \<Rightarrow> un_ent (semu st up))"

text \<open>States that differ in the undo tables and the error number only.\<close>

definition undo_frame :: "semst \<Rightarrow> semst \<Rightarrow> bool" where
  "undo_frame st st' \<longleftrightarrow> sems st' = sems st \<and> sema st' = sema st \<and> semmap st' = semmap st \<and>
     sem_wakes st' = sem_wakes st \<and> sem_out st' = sem_out st \<and> sem_count st' = sem_count st \<and>
     u_rval1 st' = u_rval1 st \<and> u_asu st' = u_asu st"

lemma undo_frame_refl [simp]: "undo_frame st st"
  by (simp add: undo_frame_def)

lemma undo_frame_sel:
  assumes "undo_frame st st'"
  shows "sems st' = sems st" "sema st' = sema st" "semmap st' = semmap st" "sem_wakes st' = sem_wakes st"
    "sem_out st' = sem_out st" "sem_count st' = sem_count st" "u_rval1 st' = u_rval1 st"
  using assms by (simp_all add: undo_frame_def)

lemma undo_frame_trans: "undo_frame a b \<Longrightarrow> undo_frame b c \<Longrightarrow> undo_frame a c"
  by (simp add: undo_frame_def)

lemma undo_rep_cong:
  assumes "sem_undo st' = sem_undo st" "semu st' = semu st" "semunp st' = semunp st" "semfup st' = semfup st"
  shows "undo_rep si st' us fs = undo_rep si st us fs" "pents st' = pents st" "undo_wf si st' = undo_wf si st"
  unfolding undo_rep_def pents_def undo_wf_def assms by (rule refl)+

lemma undo_rep_owner: "undo_rep si st us fs \<Longrightarrow> un_ent (semu st a) \<noteq> [] \<Longrightarrow> \<exists>p. sem_undo st p = Some a"
  by (simp add: undo_rep_def)

lemma undo_rep_length: "undo_rep si st us fs \<Longrightarrow> length us \<le> semmnu si"
  unfolding undo_rep_def by (meson Un_subset_iff linked_length)

lemma pents_ok: "undo_wf si st \<Longrightarrow> ents_ok si (pents st p)"
  by (auto simp: undo_wf_def undo_rep_def pents_def ents_ok_def split: option.splits)

text \<open>Replacing the entries of a structure that stays on its chain.\<close>

lemma undo_rep_ents:
  assumes rep: "undo_rep si st us fs" and up: "sem_undo st p = Some up"
    and es: "ents_ok si es" "es = [] \<longleftrightarrow> un_ent (semu st up) = []"
  shows "undo_rep si (upd_semu up (\<lambda>x. x\<lparr>un_ent := es\<rparr>) st) us fs"
    "pents (upd_semu up (\<lambda>x. x\<lparr>un_ent := es\<rparr>) st) = (pents st)(p := es)"
proof -
  let ?st = "upd_semu up (\<lambda>x. x\<lparr>un_ent := es\<rparr>) st"
  have "unps ?st = unps st" by auto
  then show "undo_rep si ?st us fs"
    using rep es unfolding undo_rep_def by (simp del: o_apply)
  show "pents ?st = (pents st)(p := es)"
    using rep up by (auto simp: pents_def undo_rep_def fun_eq_iff split: option.splits)
qed

lemma semaoe_slot_rep:
  assumes rep: "undo_rep si st us fs" and slot: "semaoe_slot u st = Some (up, st1)"
  shows "\<exists>fs'. undo_rep si st1 us fs' \<and> sem_undo st1 (u_proc u) = Some up \<and> pents st1 = pents st \<and>
           undo_frame st st1 \<and> u_error st1 = u_error st \<and> (\<forall>q. sem_undo st q \<noteq> None \<longrightarrow> sem_undo st1 q = sem_undo st q)"
proof (cases "sem_undo st (u_proc u)")
  case (Some a)
  then show ?thesis using slot rep by (auto simp: semaoe_slot_def)
next
  case None
  then obtain f where f: "semfup st = Some f" "up = f"
      "st1 = (upd_semu f (\<lambda>x. x\<lparr>un_np := None\<rparr>) (st\<lparr>semfup := un_np (semu st f)\<rparr>))\<lparr>sem_undo := (sem_undo st)(u_proc u := Some f)\<rparr>"
    using slot by (auto simp: semaoe_slot_def Let_def split: option.splits)
  obtain r where fs: "fs = f # r" "linked (unps st) (un_np (semu st f)) r" "f \<notin> set r"
  proof -
    have l: "linked (unps st) (Some f) fs" using rep f by (simp add: undo_rep_def)
    then obtain r where "fs = f # r" "linked (unps st) (unps st f) r" unfolding linked_Some by blast
    moreover have "distinct fs" using l by (rule linked_distinct)
    ultimately show thesis by (intro that) auto
  qed
  have nx: "unps st1 = (unps st)(f := None)" using f(3) by (simp add: fun_upd_comp)
  have ent: "un_ent (semu st1 x) = un_ent (semu st x)" for x using f(3) by simp
  have "f \<notin> set us" "f < semmnu si" using rep fs by (auto simp: undo_rep_def)
  then have "linked (unps st1) (semunp st1) us" "linked (unps st1) (semfup st1) r"
    using rep fs f(3) unfolding nx by (auto simp: undo_rep_def)
  moreover have "un_ent (semu st f) = []" using rep \<open>f \<notin> set us\<close> by (auto simp: undo_rep_def)
  moreover have notf: "sem_undo st q \<noteq> Some f" for q using rep fs by (auto simp: undo_rep_def)
  moreover have "\<exists>p. sem_undo st1 p = Some a" if ne: "un_ent (semu st a) \<noteq> []" for a
  proof -
    obtain p where "sem_undo st p = Some a" using undo_rep_owner [OF rep ne] ..
    moreover from this have "p \<noteq> u_proc u" using None by auto
    ultimately have "sem_undo st1 p = Some a" using f(3) by simp
    then show ?thesis ..
  qed
  moreover have "sem_undo st1 p = Some a \<Longrightarrow> a < semmnu si \<and> a \<notin> set r" for p a
    using rep fs f(3) \<open>f < semmnu si\<close> by (auto simp: undo_rep_def split: if_splits)
  moreover have "sem_undo st1 p = Some a \<Longrightarrow> sem_undo st1 q = Some a \<Longrightarrow> p = q" for p q a
    using rep f(3) notf by (auto simp: undo_rep_def split: if_splits)
  ultimately have "undo_rep si st1 us r"
    using rep fs unfolding undo_rep_def ent by auto
  moreover have "pents st1 = pents st"
    using None f(3) \<open>un_ent (semu st f) = []\<close> by (auto simp: pents_def fun_eq_iff split: option.splits)
  ultimately show ?thesis using None f by (intro exI [of _ r]) (auto simp: undo_frame_def)
qed

text \<open>A structure that gets its first entry goes to the front of the active chain.\<close>

lemma undo_rep_activate:
  assumes rep: "undo_rep si st us fs" and up: "sem_undo st p = Some up" "un_ent (semu st up) = []"
    and es: "ents_ok si es" "es \<noteq> []"
    and st': "st' = upd_semu up (\<lambda>x. x\<lparr>un_ent := es\<rparr>) ((upd_semu up (\<lambda>x. x\<lparr>un_np := semunp st\<rparr>) st)\<lparr>semunp := Some up\<rparr>)"
  shows "undo_rep si st' (up # us) fs" "pents st' = (pents st)(p := es)"
proof -
  have nx: "unps st' = (unps st)(up := semunp st)" using st' by (simp add: fun_upd_comp)
  have n: "up \<notin> set us" "up \<notin> set fs" "up < semmnu si" using rep up by (auto simp: undo_rep_def)
  have "linked (unps st') (semunp st') (up # us)" "linked (unps st') (semfup st') fs"
    using rep n st' unfolding nx by (auto simp: undo_rep_def)
  then show "undo_rep si st' (up # us) fs"
    using rep up es n st' unfolding undo_rep_def by (auto simp: undo_rep_def)
  show "pents st' = (pents st)(p := es)"
    using rep up st' by (auto simp: pents_def undo_rep_def fun_eq_iff split: option.splits)
qed

text \<open>Unlinking from the active chain ends and removes exactly that structure.\<close>

lemma sem_unlink_rep:
  assumes us: "linked (unps st) (semunp st) us" "length us \<le> n" and up: "up \<in> set us" and f: "linked (unps st) (semfup st) fs"
    and d: "set us \<inter> set fs = {}"
  shows "\<exists>st'. sem_unlink n up st = Some st' \<and> undo_frame st st' \<and> u_error st' = u_error st \<and>
           linked (unps st') (semunp st') (remove1 up us) \<and> linked (unps st') (semfup st') fs \<and>
           un_ent \<circ> semu st' = un_ent \<circ> semu st \<and> sem_undo st' = sem_undo st \<and> semfup st' = semfup st"
proof -
  obtain as bs where split: "us = as @ up # bs" using up by (auto simp: in_set_conv_decomp)
  have dist: "distinct us" using us(1) by (rule linked_distinct)
  show ?thesis
  proof (cases as rule: rev_cases)
    case Nil
    then have "semunp st = Some up" using us split by auto
    then show ?thesis using us f split Nil by (auto simp: sem_unlink_def undo_frame_def)
  next
    case (snoc cs c)
    then have ne: "semunp st \<noteq> Some up" using us split dist by (cases cs) auto
    have "find_pred n (unps st) (semunp st) up = Some (Some c)"
      using us split snoc by (intro find_pred_found [of _ _ cs c up bs]) auto
    then have st': "sem_unlink n up st = Some (upd_semu c (\<lambda>x. x\<lparr>un_np := un_np (semu st up)\<rparr>) st)"
      using ne by (simp add: sem_unlink_def)
    let ?st = "upd_semu c (\<lambda>x. x\<lparr>un_np := un_np (semu st up)\<rparr>) st"
    have nx: "unps ?st = (unps st)(c := unps st up)" by (simp add: fun_upd_comp)
    have "linked (unps ?st) (semunp ?st) (cs @ c # bs)"
      using linked_remove [of "unps st" "semunp st" cs c up bs] us split snoc unfolding nx by simp
    moreover have "remove1 up us = cs @ c # bs" using split snoc dist by (auto simp: remove1_append)
    moreover have "linked (unps ?st) (semfup ?st) fs"
      using f d split snoc unfolding nx by auto
    ultimately show ?thesis using st' by (auto simp: undo_frame_def)
  qed
qed

lemma undo_rep_deactivate:
  assumes rep: "undo_rep si st us fs" and up: "sem_undo st p = Some up" "un_ent (semu st up) \<noteq> []"
  shows "\<exists>st'. map_option (upd_semu up (\<lambda>x. x\<lparr>un_np := None\<rparr>))
             (sem_unlink (semmnu si) up (upd_semu up (\<lambda>x. x\<lparr>un_ent := []\<rparr>) st)) = Some st' \<and>
           undo_rep si st' (remove1 up us) fs \<and> pents st' = (pents st)(p := []) \<and> undo_frame st st' \<and>
           u_error st' = u_error st \<and> sem_undo st' = sem_undo st"
proof -
  let ?st = "upd_semu up (\<lambda>x. x\<lparr>un_ent := []\<rparr>) st"
  have nx: "unps ?st = unps st" by auto
  have m: "up \<in> set us" "up \<notin> set fs" using rep up by (auto simp: undo_rep_def)
  have "linked (unps ?st) (semunp ?st) us" "linked (unps ?st) (semfup ?st) fs" "set us \<inter> set fs = {}"
    using rep unfolding nx by (simp_all add: undo_rep_def)
  then obtain t where t: "sem_unlink (semmnu si) up ?st = Some t" "undo_frame ?st t" "u_error t = u_error st"
    "linked (unps t) (semunp t) (remove1 up us)" "linked (unps t) (semfup t) fs"
    "un_ent \<circ> semu t = un_ent \<circ> semu ?st" "sem_undo t = sem_undo ?st" "semfup t = semfup ?st"
    using sem_unlink_rep [of ?st us "semmnu si" up fs] undo_rep_length [OF rep] m by auto
  let ?t = "upd_semu up (\<lambda>x. x\<lparr>un_np := None\<rparr>) t"
  have ent: "un_ent (semu ?t x) = (if x = up then [] else un_ent (semu st x))" for x
    using fun_cong [OF t(6), of x] by (cases "x = up") auto
  have ent0: "un_ent (semu t up) = []" "\<And>x. x \<noteq> up \<Longrightarrow> un_ent (semu t x) = un_ent (semu st x)"
    using fun_cong [OF t(6)] by (simp_all add: fun_eq_iff split: if_splits)
  have dist: "distinct us" using rep linked_distinct by (auto simp: undo_rep_def)
  have ntx: "unps ?t = (unps t)(up := None)" by (simp add: fun_upd_comp)
  have "linked (unps ?t) (semunp ?t) (remove1 up us)" "linked (unps ?t) (semfup ?t) fs"
    using t(4,5) m dist unfolding ntx by simp_all
  then have "undo_rep si ?t (remove1 up us) fs"
    using rep dist t(7) unfolding undo_rep_def ent by (auto simp: ents_ok_def dest: in_set_remove1 [THEN iffD1])
  moreover have "pents ?t = (pents st)(p := [])"
    using rep up t(7) ent0 by (auto simp: pents_def undo_rep_def fun_eq_iff split: option.splits)
  moreover have "undo_frame st ?t"
    using t(2) unfolding undo_frame_def by simp
  ultimately show ?thesis using t by auto
qed

section \<open>What \<open>semaoe\<close> does\<close>

lemma si_ok_int16: "si_ok si \<Longrightarrow> \<bar>v\<bar> \<le> semaem si \<Longrightarrow> int16 v = v \<and> int16 (- v) = - v"
  by (auto simp: si_ok_def intro!: int16_id)

lemma semaoe_insert_rep:
  assumes rep: "undo_rep si st us fs" and up: "sem_undo st p = Some up" and es: "un_ent (semu st up) = bef @ rest"
    and new: "ents_insert si bef e rest = Some es'" "ents_ok si es'"
  shows "\<exists>st' us'. semaoe_insert si up bef e rest st = (False, st') \<and> undo_rep si st' us' fs \<and>
           pents st' = (pents st)(p := es') \<and> undo_frame st st' \<and> u_error st' = u_error st \<and> sem_undo st' = sem_undo st"
proof -
  have es': "es' = bef @ e # rest" "\<not> semume si \<le> length (bef @ rest)"
    using new(1) by (auto simp: ents_insert_def split: if_splits)
  show ?thesis
  proof (cases "bef @ rest = []")
    case True
    let ?st = "upd_semu up (\<lambda>x. x\<lparr>un_ent := es'\<rparr>) ((upd_semu up (\<lambda>x. x\<lparr>un_np := semunp st\<rparr>) st)\<lparr>semunp := Some up\<rparr>)"
    have "semaoe_insert si up bef e rest st = (False, ?st)"
      using True es es' by (simp add: semaoe_insert_def Let_def)
    moreover have "undo_rep si ?st (up # us) fs" "pents ?st = (pents st)(p := es')"
      using undo_rep_activate [OF rep up _ new(2) _ refl] es True es' by auto
    ultimately show ?thesis by (intro exI [of _ ?st] exI [of _ "up # us"]) (simp add: undo_frame_def)
  next
    case False
    let ?st = "upd_semu up (\<lambda>x. x\<lparr>un_ent := es'\<rparr>) st"
    have "semaoe_insert si up bef e rest st = (False, ?st)"
      using False es es' by (auto simp: semaoe_insert_def Let_def)
    moreover have "undo_rep si ?st us fs" "pents ?st = (pents st)(p := es')"
      using undo_rep_ents [OF rep up new(2)] es False es' by auto
    ultimately show ?thesis by (intro exI [of _ ?st] exI [of _ us]) (simp add: undo_frame_def)
  qed
qed

lemma semaoe_insert_full:
  "un_ent (semu st up) = bef @ rest \<Longrightarrow> ents_insert si bef e rest = None \<Longrightarrow>
   semaoe_insert si up bef e rest st = (True, set_error EINVAL st)"
  by (simp add: semaoe_insert_def ents_insert_def split: if_splits)

lemma upd_same_ents: "un_ent (semu st up) = es \<Longrightarrow> upd_semu up (\<lambda>x. x\<lparr>un_ent := es\<rparr>) st = st"
  by (cases st) (auto simp: fun_upd_idem)

text \<open>The adjustment is computed in a \<open>short\<close>; at the limit it wraps, but the range test still sees it.\<close>

lemma short_adjust:
  assumes "si_ok si" "\<bar>a\<bar> \<le> semaem si" "\<bar>val\<bar> \<le> semaem si"
  shows "semaem si < int16 (a - val) \<or> int16 (a - val) < - semaem si \<longleftrightarrow> semaem si < \<bar>a - val\<bar>"
    "int16 (int16 (a - val) + val) = a" "\<bar>a - val\<bar> \<le> semaem si \<Longrightarrow> int16 (a - val) = a - val"
proof -
  have "int16 (a - val) = (if a - val = 32768 then - 32768 else a - val)"
    using assms unfolding si_ok_def by (auto intro!: int16_id simp: int16_def [of 32768])
  moreover have "int16 a = a" "int16 (- 32768 + val) = - 32768 + val + (if val < 0 then 65536 else 0)"
  proof -
    have "\<bar>a\<bar> \<le> 16384" "\<bar>val\<bar> \<le> 16384" using assms by (auto simp: si_ok_def)
    moreover from this have "val < 0 \<Longrightarrow> val mod 65536 = val + 65536"
      using mod_add_self2 [of val 65536] mod_pos_pos_trivial [of "val + 65536" 65536] by simp
    ultimately show "int16 a = a" "int16 (- 32768 + val) = - 32768 + val + (if val < 0 then 65536 else 0)"
      by (auto simp: int16_def)
  qed
  ultimately show "semaem si < int16 (a - val) \<or> int16 (a - val) < - semaem si \<longleftrightarrow> semaem si < \<bar>a - val\<bar>"
    "int16 (int16 (a - val) + val) = a" "\<bar>a - val\<bar> \<le> semaem si \<Longrightarrow> int16 (a - val) = a - val"
    using assms unfolding si_ok_def by (auto split: if_splits)
qed

lemma semaoe_update_rep:
  assumes rep: "undo_rep si st us fs" and up: "sem_undo st p = Some up" and si: "si_ok si"
    and es: "un_ent (semu st up) = bef @ e # aft" and val: "\<bar>val\<bar> \<le> semaem si"
    and new: "(if semaem si < \<bar>un_aoe e - val\<bar> then None else if un_aoe e = val then Some (bef @ aft)
               else Some (bef @ e\<lparr>un_aoe := un_aoe e - val\<rparr> # aft)) = r"
    and ok: "\<forall>es'. r = Some es' \<longrightarrow> ents_ok si es'"
  shows "(r = None \<and> semaoe_update si up val bef e aft st = Some (True, set_error ERANGE st)) \<or>
     (\<exists>st' us' es'. r = Some es' \<and> semaoe_update si up val bef e aft st = Some (False, st') \<and> undo_rep si st' us' fs \<and>
           pents st' = (pents st)(p := es') \<and> undo_frame st st' \<and> u_error st' = u_error st \<and> sem_undo st' = sem_undo st)"
proof -
  have "ents_ok si (un_ent (semu st up))" using rep by (simp add: undo_rep_def)
  then have a: "\<bar>un_aoe e\<bar> \<le> semaem si" using es by (simp add: ents_ok_def)
  note c = short_adjust [OF si a val]
  consider (range) "semaem si < \<bar>un_aoe e - val\<bar>" | (drop) "\<not> semaem si < \<bar>un_aoe e - val\<bar>" "un_aoe e = val"
    | (keep) "\<not> semaem si < \<bar>un_aoe e - val\<bar>" "un_aoe e \<noteq> val" by blast
  then show ?thesis
  proof cases
    case range
    have "upd_semu up (\<lambda>x. x\<lparr>un_ent := bef @ e\<lparr>un_aoe := un_aoe e\<rparr> # aft\<rparr>) (set_error ERANGE st) = set_error ERANGE st"
      using es by (intro upd_same_ents) simp
    then have "semaoe_update si up val bef e aft st = Some (True, set_error ERANGE st)"
      using c(1,2) range by (simp add: semaoe_update_def Let_def)
    then show ?thesis using range new by simp
  next
    case drop
    have u: "semaoe_update si up val bef e aft st = map_option (Pair False) (semaoe_remove si up (bef @ aft) st)"
      using c drop by (simp add: semaoe_update_def Let_def)
    have r: "r = Some (bef @ aft)" using new drop by simp
    show ?thesis
    proof (cases "bef @ aft = []")
      case True
      have "un_ent (semu st up) \<noteq> []" using es by simp
      from undo_rep_deactivate [OF rep up this] obtain st' where
        st': "map_option (upd_semu up (\<lambda>x. x\<lparr>un_np := None\<rparr>))
             (sem_unlink (semmnu si) up (upd_semu up (\<lambda>x. x\<lparr>un_ent := []\<rparr>) st)) = Some st'"
        "undo_rep si st' (remove1 up us) fs" "pents st' = (pents st)(p := [])" "undo_frame st st'"
        "u_error st' = u_error st" "sem_undo st' = sem_undo st" by blast
      have "semaoe_update si up val bef e aft st = Some (False, st')"
        unfolding u semaoe_remove_def Let_def True using st'(1) by simp
      then show ?thesis using st' r True by auto
    next
      case False
      let ?st = "upd_semu up (\<lambda>x. x\<lparr>un_ent := bef @ aft\<rparr>) st"
      have "semaoe_update si up val bef e aft st = Some (False, ?st)"
        unfolding u semaoe_remove_def using False by auto
      moreover have "undo_rep si ?st us fs" "pents ?st = (pents st)(p := bef @ aft)"
        using undo_rep_ents [OF rep up ok [rule_format, OF r]] False es by auto
      ultimately show ?thesis using r
        by (intro disjI2 exI [of _ ?st] exI [of _ us] exI [of _ "bef @ aft"]) (simp add: undo_frame_def)
    qed
  next
    case keep
    let ?es = "bef @ e\<lparr>un_aoe := un_aoe e - val\<rparr> # aft"
    let ?st = "upd_semu up (\<lambda>x. x\<lparr>un_ent := ?es\<rparr>) st"
    have r: "r = Some ?es" using new keep by simp
    have "semaoe_update si up val bef e aft st = Some (False, ?st)"
      using c keep by (simp add: semaoe_update_def Let_def)
    moreover have "undo_rep si ?st us fs" "pents ?st = (pents st)(p := ?es)"
      using undo_rep_ents [OF rep up ok [rule_format, OF r]] es by auto
    ultimately show ?thesis using r
      by (intro disjI2 exI [of _ ?st] exI [of _ us] exI [of _ ?es]) (simp add: undo_frame_def)
  qed
qed

lemma semaoe_spec:
  assumes wf: "undo_wf si st" and si: "si_ok si" and val: "val \<noteq> 0" "\<bar>val\<bar> \<le> semaem si"
  obtains (nospace) "semaoe si u val idn num st = Some (True, set_error ENOSPC st)" "sem_undo st (u_proc u) = None"
    | (refused) st' where "semaoe si u val idn num st = Some (True, st')" "ents_step si val idn num (pents st (u_proc u)) = None"
        "undo_wf si st'" "undo_frame st st'" "pents st' = pents st" "u_error st' \<noteq> None"
        "\<And>q. sem_undo st q \<noteq> None \<Longrightarrow> sem_undo st' q = sem_undo st q" "sem_undo st' (u_proc u) \<noteq> None"
    | (accepted) st' es where "semaoe si u val idn num st = Some (False, st')"
        "ents_step si val idn num (pents st (u_proc u)) = Some es" "undo_wf si st'" "undo_frame st st'"
        "pents st' = (pents st)(u_proc u := es)" "u_error st' = u_error st"
        "\<And>q. sem_undo st q \<noteq> None \<Longrightarrow> sem_undo st' q = sem_undo st q" "sem_undo st' (u_proc u) \<noteq> None"
proof -
  let ?p = "u_proc u"
  have guard: "\<not> (semaem si < val \<or> val < - semaem si)" using val by linarith
  obtain us fs where rep: "undo_rep si st us fs" using wf by (auto simp: undo_wf_def)
  show thesis
  proof (cases "semaoe_slot u st")
    case None
    then have "semaoe si u val idn num st = Some (True, set_error ENOSPC st)"
      using val guard by (simp add: semaoe_def)
    moreover have "sem_undo st ?p = None" using None by (auto simp: semaoe_slot_def Let_def split: option.splits)
    ultimately show thesis by (rule nospace)
  next
    case (Some a)
    obtain up st1 where slot: "semaoe_slot u st = Some (up, st1)" using Some by (cases a) simp
    from semaoe_slot_rep [OF rep slot] obtain fs' where
      s1: "undo_rep si st1 us fs'" "sem_undo st1 ?p = Some up" "pents st1 = pents st" "undo_frame st st1"
        "u_error st1 = u_error st" "\<forall>q. sem_undo st q \<noteq> None \<longrightarrow> sem_undo st1 q = sem_undo st q" by blast
    have pe: "pents st ?p = un_ent (semu st1 up)"
      using s1(2) fun_cong [OF s1(3), of ?p] by (simp add: pents_def)
    have ok: "ents_ok si (un_ent (semu st1 up))" using s1(1) by (simp add: undo_rep_def)
    let ?n = "\<lparr>un_aoe = - val, un_num = num, un_id = idn\<rparr>"
    have fin_ref: thesis if "semaoe si u val idn num st = Some (True, set_error e st1)" "ents_step si val idn num (pents st ?p) = None" for e
      using that s1 undo_rep_cong(3) [of "set_error e st1" st1 si] undo_rep_cong(2) [of "set_error e st1" st1]
      by (intro refused [of "set_error e st1"]) (auto simp: undo_frame_def undo_wf_def)
    have fin_acc: thesis if "semaoe si u val idn num st = Some (False, st')" "ents_step si val idn num (pents st ?p) = Some es"
      "undo_rep si st' us' gs" "undo_frame st1 st'" "pents st' = (pents st1)(?p := es)" "u_error st' = u_error st1" "sem_undo st' = sem_undo st1"
      for st' es us' gs
      using that s1 by (intro accepted [of st' es]) (auto simp: undo_wf_def intro: undo_frame_trans)
    have sem: "semaoe si u val idn num st =
       (case undo_find idn num (un_ent (semu st1 up)) of
             (bef, e # aft) \<Rightarrow>
               if un_id e = idn \<and> un_num e = num then semaoe_update si up val bef e aft st1
               else Some (semaoe_insert si up bef ?n (e # aft) st1)
           | (bef, []) \<Rightarrow> Some (semaoe_insert si up bef ?n [] st1))"
      using val guard slot si_ok_int16 [OF si val(2)] by (auto simp: semaoe_def split: prod.split list.split)
    show thesis
      using ok
    proof (cases rule: ents_step_cases [where idn = idn and num = num])
      case (found bef e aft)
      let ?r = "if semaem si < \<bar>un_aoe e - val\<bar> then None else if un_aoe e = val then Some (bef @ aft)
               else Some (bef @ e\<lparr>un_aoe := un_aoe e - val\<rparr> # aft)"
      have st: "ents_step si val idn num (pents st ?p) = ?r"
        unfolding pe using found by (simp add: ents_step_def Let_def)
      have "\<forall>es'. ?r = Some es' \<longrightarrow> ents_ok si es'"
        using ents_step_ok [OF ok val, of idn num] st pe by simp
      from semaoe_update_rep [OF s1(1,2) si found(1) val(2) refl this]
      show thesis
      proof (elim disjE exE conjE)
        assume "?r = None" "semaoe_update si up val bef e aft st1 = Some (True, set_error ERANGE st1)"
        then show thesis using st sem found by (intro fin_ref [of ERANGE]) auto
      next
        fix st' us' es'
        assume "?r = Some es'" "semaoe_update si up val bef e aft st1 = Some (False, st')" "undo_rep si st' us' fs'"
          "pents st' = (pents st1)(?p := es')" "undo_frame st1 st'" "u_error st' = u_error st1" "sem_undo st' = sem_undo st1"
        then show thesis using st sem found by (intro fin_acc [of st' es' us' fs']) auto
      qed
    next
      case (new bef rest)
      have st: "ents_step si val idn num (pents st ?p) = ents_insert si bef ?n rest"
        unfolding pe by (rule ents_step_new [OF new(2,4)])
      have sem': "semaoe si u val idn num st = Some (semaoe_insert si up bef ?n rest st1)"
        unfolding sem new(2) using new(4) by (cases rest) auto
      show thesis
      proof (cases "ents_insert si bef ?n rest")
        case None
        then show thesis
          using st sem' semaoe_insert_full [OF new(1) None] by (intro fin_ref [of EINVAL]) auto
      next
        case (Some es')
        then have "ents_ok si es'" using ents_step_ok [OF ok val, of idn num es'] st pe by simp
        from semaoe_insert_rep [OF s1(1,2) new(1) Some this] obtain st' us' where
          "semaoe_insert si up bef ?n rest st1 = (False, st')" "undo_rep si st' us' fs'"
          "pents st' = (pents st1)(?p := es')" "undo_frame st1 st'" "u_error st' = u_error st1" "sem_undo st' = sem_undo st1"
          by blast
        then show thesis using st sem' Some by (intro fin_acc [of st' es' us' fs']) auto
      qed
    qed
  qed
qed

section \<open>One operation and its reversal\<close>

abbreviation semvals :: "semst \<Rightarrow> nat \<Rightarrow> int" where
  "semvals st k \<equiv> semval (sems st k)"

definition undo_flag :: "sembuf \<Rightarrow> bool" where
  "undo_flag op \<longleftrightarrow> sem_flg op AND SEM_UNDO \<noteq> 0"

text \<open>The undo structure a process has is never taken away by \<open>semaoe\<close>.\<close>

definition undo_kept :: "semst \<Rightarrow> semst \<Rightarrow> bool" where
  "undo_kept st st' \<longleftrightarrow> (\<forall>q. sem_undo st q \<noteq> None \<longrightarrow> sem_undo st' q \<noteq> None)"

lemma undo_kept_refl [simp]: "undo_kept st st"
  by (simp add: undo_kept_def)

lemma undo_kept_trans: "undo_kept a b \<Longrightarrow> undo_kept b c \<Longrightarrow> undo_kept a c"
  by (simp add: undo_kept_def)

definition aoe_done :: "seminfo \<Rightarrow> uarea \<Rightarrow> int \<Rightarrow> sembuf \<Rightarrow> semst \<Rightarrow> semst \<Rightarrow> bool" where
  "aoe_done si u semid op st st1 \<longleftrightarrow> undo_wf si st1 \<and> undo_frame st st1 \<and> u_error st1 = u_error st \<and> undo_kept st st1 \<and>
     (if undo_flag op \<and> sem_op op \<noteq> 0
      then \<bar>sem_op op\<bar> \<le> semaem si \<and> sem_undo st1 (u_proc u) \<noteq> None \<and>
        (\<exists>es. ents_step si (sem_op op) semid (int16 (sem_num op)) (pents st (u_proc u)) = Some es \<and>
           pents st1 = (pents st)(u_proc u := es))
      else pents st1 = pents st)"

lemma semop_aoe_spec:
  assumes wf: "undo_wf si st" and si: "si_ok si"
  shows "(\<exists>st1. semop_aoe si u semid op st = Some (True, st1) \<and> undo_wf si st1 \<and> undo_frame st st1 \<and>
            pents st1 = pents st \<and> u_error st1 \<noteq> None \<and> undo_kept st st1) \<or>
         (\<exists>st1. semop_aoe si u semid op st = Some (False, st1) \<and> aoe_done si u semid op st st1)"
proof (cases "undo_flag op \<and> sem_op op \<noteq> 0")
  case False
  then have "semop_aoe si u semid op st = Some (False, st)"
    by (auto simp: semop_aoe_def undo_flag_def semaoe_def)
  then show ?thesis using False wf by (auto simp: aoe_done_def)
next
  case flag: True
  have err: "undo_wf si (set_error e st) \<and> pents (set_error e st) = pents st" for e
    using wf undo_rep_cong [of "set_error e st" st] by auto
  have call: "semop_aoe si u semid op st = semaoe si u (sem_op op) semid (int16 (sem_num op)) st"
    using flag by (simp add: semop_aoe_def undo_flag_def)
  show ?thesis
  proof (cases "\<bar>sem_op op\<bar> \<le> semaem si")
    case False
    then have "semaoe si u (sem_op op) semid (int16 (sem_num op)) st = Some (True, set_error ERANGE st)"
      using flag by (auto simp: semaoe_def)
    then show ?thesis using err unfolding call by (auto simp: undo_frame_def undo_kept_def)
  next
    case True
    have "sem_op op \<noteq> 0" using flag by simp
    from wf si this True show ?thesis
    proof (cases rule: semaoe_spec [where u = u and idn = semid and num = "int16 (sem_num op)"])
      case nospace
      then show ?thesis using err unfolding call by (auto simp: undo_frame_def undo_kept_def)
    next
      case (refused st')
      then show ?thesis unfolding call by (auto simp: undo_kept_def)
    next
      case (accepted st' es)
      then have "aoe_done si u semid op st st'" using flag True by (auto simp: aoe_done_def undo_kept_def)
      then show ?thesis using accepted unfolding call by blast
    qed
  qed
qed

text \<open>Taking an operation back: value and entries return to what they were.\<close>

definition undo_view :: "seminfo \<Rightarrow> semst \<Rightarrow> semst \<Rightarrow> bool" where
  "undo_view si st t \<longleftrightarrow> undo_wf si t \<and> sema t = sema st \<and> semvals t = semvals st \<and> pents t = pents st \<and> undo_kept st t"

definition cnt_frame :: "semst \<Rightarrow> semst \<Rightarrow> bool" where
  "cnt_frame st st' \<longleftrightarrow> sema st' = sema st \<and> semmap st' = semmap st \<and> sem_out st' = sem_out st \<and>
     sem_count st' = sem_count st \<and> u_rval1 st' = u_rval1 st \<and> u_asu st' = u_asu st \<and>
     (\<forall>k. sempid (sems st' k) = sempid (sems st k))"

definition quiet :: "semst \<Rightarrow> semst \<Rightarrow> bool" where
  "quiet st st' \<longleftrightarrow> cnt_frame st st' \<and> sem_wakes st' = sem_wakes st \<and> u_error st' = u_error st \<and>
     (\<forall>k. semncnt (sems st' k) = semncnt (sems st k) \<and> semzcnt (sems st' k) = semzcnt (sems st k))"

lemma cnt_frame_refl [simp]: "cnt_frame st st" and quiet_refl [simp]: "quiet st st"
  by (simp_all add: cnt_frame_def quiet_def)

lemma cnt_frame_trans: "cnt_frame a b \<Longrightarrow> cnt_frame b c \<Longrightarrow> cnt_frame a c"
  by (simp add: cnt_frame_def)

lemma quiet_trans: "quiet a b \<Longrightarrow> quiet b c \<Longrightarrow> quiet a c"
  by (simp add: quiet_def cnt_frame_def)

lemma undo_frame_cnt: "undo_frame st st' \<Longrightarrow> cnt_frame st st'"
  by (simp add: undo_frame_def cnt_frame_def)

lemma semundo_one_reverses:
  assumes wf: "undo_wf si st" and si: "si_ok si" and d: "aoe_done si u semid op st st1"
    and rng: "0 \<le> semvals st k" "semvals st k < 65536" and k: "k = sem_base (sema st i) + nat (sem_num op)"
    and vals: "semvals t = (semvals st)(k := uint16 (semvals st k + sem_op op))"
    and t: "undo_wf si t" "sema t = sema st" "pents t = pents st1" "undo_kept st1 t"
  shows "\<exists>t'. semundo_one si u semid i op t = Some t' \<and> undo_view si st t' \<and> quiet t t'"
proof (cases "sem_op op = 0")
  case True
  have "semvals t = semvals st" using vals rng True uint16_id [of "semvals st k"] by (auto simp: fun_eq_iff)
  moreover have "undo_kept st t" using d t(4) undo_kept_trans by (auto simp: aoe_done_def)
  ultimately have "undo_view si st t" using t d True by (auto simp: undo_view_def aoe_done_def)
  then show ?thesis using True by (simp add: semundo_one_def)
next
  case nz: False
  let ?t1 = "upd_sem k (\<lambda>p. p\<lparr>semval := uint16 (semval p - sem_op op)\<rparr>) t"
  have v1: "semvals ?t1 = semvals st"
    using vals rng by (auto simp: fun_eq_iff uint16_cancel uint16_id)
  have wf1: "undo_wf si ?t1" "pents ?t1 = pents t" "quiet t ?t1" "undo_kept t ?t1"
    using t(1) undo_rep_cong [of ?t1 t] by (auto simp: quiet_def cnt_frame_def undo_kept_def)
  have kst: "undo_kept st t" using d t(4) undo_kept_trans by (auto simp: aoe_done_def)
  have kk: "sem_base (sema t i) + nat (sem_num op) = k" using t(2) k by simp
  show ?thesis
  proof (cases "undo_flag op")
    case False
    then have "semundo_one si u semid i op t = Some ?t1"
      using nz kk by (simp add: semundo_one_def undo_flag_def Let_def)
    moreover have "undo_view si st ?t1"
      using v1 wf1 t d False kst by (auto simp: undo_view_def aoe_done_def undo_kept_def)
    ultimately show ?thesis using wf1(3) by blast
  next
    case True
    obtain es where es: "ents_step si (sem_op op) semid (int16 (sem_num op)) (pents st (u_proc u)) = Some es"
        "pents st1 = (pents st)(u_proc u := es)" "\<bar>sem_op op\<bar> \<le> semaem si" "sem_undo st1 (u_proc u) \<noteq> None"
      using d nz True by (auto simp: aoe_done_def)
    have inv: "ents_step si (- sem_op op) semid (int16 (sem_num op)) es = Some (pents st (u_proc u))"
      using ents_step_inverse [OF pents_ok [OF wf] nz es(3,1)] .
    have has: "sem_undo ?t1 (u_proc u) \<noteq> None" using es(4) t(4) by (auto simp: undo_kept_def)
    have call: "semundo_one si u semid i op t =
        map_option snd (semaoe si u (- sem_op op) semid (int16 (sem_num op)) ?t1)"
      using nz kk True si_ok_int16 [OF si es(3)] by (simp add: semundo_one_def undo_flag_def Let_def)
    have "- sem_op op \<noteq> 0" "\<bar>- sem_op op\<bar> \<le> semaem si" using nz es(3) by auto
    with wf1(1) si show ?thesis
    proof (cases rule: semaoe_spec [where u = u and idn = semid and num = "int16 (sem_num op)"])
      case nospace
      then show ?thesis using has by simp
    next
      case (refused st')
      then show ?thesis using inv wf1(2) t(3) es(2) by simp
    next
      case (accepted st' es')
      have "es' = pents st (u_proc u)" using accepted(2) inv wf1(2) t(3) es(2) by simp
      then have "pents st' = pents st" using accepted(5) wf1(2) t(3) es(2) by (simp add: fun_eq_iff)
      moreover have "undo_kept st st'"
        using kst wf1(4) accepted(7) by (simp add: undo_kept_def)
      moreover have "sema st' = sema st" "semvals st' = semvals st"
        using undo_frame_sel(1,2) [OF accepted(4)] v1 t(2) by (simp_all add: fun_eq_iff)
      ultimately have "undo_view si st st'" using accepted(3) by (simp add: undo_view_def)
      moreover have "quiet ?t1 st'"
        using accepted(4,6) by (simp add: quiet_def undo_frame_cnt undo_frame_sel)
      ultimately show ?thesis using call accepted(1) quiet_trans [OF wf1(3)] by auto
    qed
  qed
qed

end
