(* ===== verification/SemPass.thy ===== *)
theory SemPass
  imports SemUndo
begin

text \<open>
  The loop of \<open>semop\<close> over its operations: wakeups, taking operations back, and the outcome of a whole
  pass, whether it completes, fails or goes to sleep.
\<close>

section \<open>Wakeups\<close>

text \<open>
  \<open>woke\<close>: counts change only by being cleared together with a wakeup.  \<open>alert\<close>: moreover, where a count
  is left standing the value has not risen, or not become zero, so nobody sleeping was passed over.
\<close>

definition woke :: "semst \<Rightarrow> semst \<Rightarrow> bool" where
  "woke st st' \<longleftrightarrow> (\<exists>w. sem_wakes st' = sem_wakes st @ w \<and>
     (\<forall>k. semncnt (sems st' k) = (if NCnt k \<in> set w then 0 else semncnt (sems st k)) \<and>
          semzcnt (sems st' k) = (if ZCnt k \<in> set w then 0 else semzcnt (sems st k))))"

definition alert :: "semst \<Rightarrow> semst \<Rightarrow> bool" where
  "alert st st' \<longleftrightarrow> woke st st' \<and>
     (\<forall>k. semncnt (sems st' k) \<noteq> 0 \<longrightarrow> semvals st' k \<le> semvals st k) \<and>
     (\<forall>k. semzcnt (sems st' k) \<noteq> 0 \<longrightarrow> semvals st k \<noteq> 0 \<longrightarrow> semvals st' k \<noteq> 0)"

lemma woke_trans: assumes "woke a b" "woke b c" shows "woke a c"
proof -
  obtain v w where
    "sem_wakes b = sem_wakes a @ v" "\<And>k. semncnt (sems b k) = (if NCnt k \<in> set v then 0 else semncnt (sems a k))"
    "\<And>k. semzcnt (sems b k) = (if ZCnt k \<in> set v then 0 else semzcnt (sems a k))"
    "sem_wakes c = sem_wakes b @ w" "\<And>k. semncnt (sems c k) = (if NCnt k \<in> set w then 0 else semncnt (sems b k))"
    "\<And>k. semzcnt (sems c k) = (if ZCnt k \<in> set w then 0 else semzcnt (sems b k))"
    using assms unfolding woke_def by blast
  then show ?thesis unfolding woke_def by (intro exI [of _ "v @ w"]) auto
qed

lemma woke_step: "woke a b \<Longrightarrow> semncnt (sems b k) \<noteq> 0 \<Longrightarrow> semncnt (sems b k) = semncnt (sems a k)"
  "woke a b \<Longrightarrow> semzcnt (sems b k) \<noteq> 0 \<Longrightarrow> semzcnt (sems b k) = semzcnt (sems a k)"
  unfolding woke_def by (metis (full_types))+

lemma quiet_woke: "quiet a b \<Longrightarrow> woke a b"
  unfolding quiet_def woke_def by (intro exI [of _ "[]"]) simp

lemma undo_frame_woke: "undo_frame a b \<Longrightarrow> woke a b"
  unfolding woke_def by (intro exI [of _ "[]"]) (simp add: undo_frame_sel)

lemma undo_frame_alert: "undo_frame a b \<Longrightarrow> alert a b"
  by (simp add: alert_def undo_frame_woke undo_frame_sel)

lemma alert_refl [simp]: "alert a a"
  by (simp add: undo_frame_alert)

lemma woke_refl [simp]: "woke a a"
  by (simp add: undo_frame_woke)

lemma alert_trans:
  assumes "alert a b" "alert b c"
  shows "alert a c"
proof -
  have w: "woke a b" "woke b c" using assms by (auto simp: alert_def)
  have "semvals c k \<le> semvals a k" if "semncnt (sems c k) \<noteq> 0" for k
    using assms woke_step(1) [OF w(2) that] that unfolding alert_def by (metis order_trans)
  moreover have "semvals c k \<noteq> 0" if "semzcnt (sems c k) \<noteq> 0" "semvals a k \<noteq> 0" for k
    using assms woke_step(2) [OF w(2) that(1)] that unfolding alert_def by metis
  ultimately show ?thesis using woke_trans [OF w] by (auto simp: alert_def)
qed

lemma alert_woke: "alert a b \<Longrightarrow> woke a b"
  by (simp add: alert_def)

lemma sem_wake_sel [simp]:
  "semval (sems (sem_wake_n k st) j) = semval (sems st j)" "semval (sems (sem_wake_z k st) j) = semval (sems st j)"
  "sema (sem_wake_n k st) = sema st" "sema (sem_wake_z k st) = sema st"
  "semu (sem_wake_n k st) = semu st" "semu (sem_wake_z k st) = semu st"
  "sem_undo (sem_wake_n k st) = sem_undo st" "sem_undo (sem_wake_z k st) = sem_undo st"
  "semunp (sem_wake_n k st) = semunp st" "semunp (sem_wake_z k st) = semunp st"
  "semfup (sem_wake_n k st) = semfup st" "semfup (sem_wake_z k st) = semfup st"
  "u_error (sem_wake_n k st) = u_error st" "u_error (sem_wake_z k st) = u_error st"
  by (auto simp: sem_wake_n_def sem_wake_z_def fun_eq_iff)

lemma sem_wake_cnt [simp]:
  "semncnt (sems (sem_wake_n k st) j) = (if j = k then 0 else semncnt (sems st j))"
  "semzcnt (sems (sem_wake_n k st) j) = semzcnt (sems st j)"
  "semncnt (sems (sem_wake_z k st) j) = semncnt (sems st j)"
  "semzcnt (sems (sem_wake_z k st) j) = (if j = k then 0 else semzcnt (sems st j))"
  by (auto simp: sem_wake_n_def sem_wake_z_def)

lemma cnt_frame_wake [simp]: "cnt_frame st (sem_wake_n k st)" "cnt_frame st (sem_wake_z k st)"
  by (auto simp: cnt_frame_def sem_wake_n_def sem_wake_z_def)

lemma woke_wake [simp]: "woke st (sem_wake_n k st)" "woke st (sem_wake_z k st)"
proof -
  show "woke st (sem_wake_n k st)"
    unfolding woke_def by (rule exI [of _ "if semncnt (sems st k) \<noteq> 0 then [NCnt k] else []"]) (auto simp: sem_wake_n_def)
  show "woke st (sem_wake_z k st)"
    unfolding woke_def by (rule exI [of _ "if semzcnt (sems st k) \<noteq> 0 then [ZCnt k] else []"]) (auto simp: sem_wake_z_def)
qed

lemma woke_val: "woke st (upd_sem k (\<lambda>p. p\<lparr>semval := v\<rparr>) st)"
  by (auto simp: woke_def)

lemma cnt_frame_val: "cnt_frame st (upd_sem k (\<lambda>p. p\<lparr>semval := v\<rparr>) st)"
  by (auto simp: cnt_frame_def)

lemma woke_then: "woke st a \<Longrightarrow> woke st (sem_wake_n k a)" "woke st a \<Longrightarrow> woke st (sem_wake_z k a)"
  by (blast intro: woke_trans woke_wake)+

lemma cnt_frame_then: "cnt_frame st a \<Longrightarrow> cnt_frame st (sem_wake_n k a)" "cnt_frame st a \<Longrightarrow> cnt_frame st (sem_wake_z k a)"
  by (blast intro: cnt_frame_trans cnt_frame_wake)+

text \<open>A new value, with the wakeups of the code behind it, passes nobody over.\<close>

lemma alert_raise:
  assumes "st' = (let st2 = upd_sem k (\<lambda>p. p\<lparr>semval := v\<rparr>) st; st3 = sem_wake_n k st2
                  in if semval (sems st3 k) = 0 then sem_wake_z k st3 else st3)"
  shows "alert st st'" "semvals st' = (semvals st)(k := v)" "cnt_frame st st'"
proof -
  have "woke st st'" unfolding assms Let_def by (auto intro!: woke_then woke_val)
  then show "alert st st'" unfolding alert_def assms by (auto simp: Let_def)
  show "semvals st' = (semvals st)(k := v)" unfolding assms by (auto simp: Let_def fun_eq_iff)
  show "cnt_frame st st'" unfolding assms by (auto simp: Let_def intro!: cnt_frame_then cnt_frame_val)
qed

lemma alert_lower:
  assumes "st' = (let st2 = upd_sem k (\<lambda>p. p\<lparr>semval := v\<rparr>) st
                  in if semval (sems st2 k) = 0 then sem_wake_z k st2 else st2)" "v \<le> semvals st k"
  shows "alert st st'" "semvals st' = (semvals st)(k := v)" "cnt_frame st st'"
proof -
  have "woke st st'" unfolding assms(1) Let_def by (auto intro!: woke_then woke_val)
  then show "alert st st'" using assms(2) unfolding alert_def assms(1) by (auto simp: Let_def)
  show "semvals st' = (semvals st)(k := v)" unfolding assms(1) by (auto simp: Let_def fun_eq_iff)
  show "cnt_frame st st'" unfolding assms(1) by (auto simp: Let_def intro!: cnt_frame_then cnt_frame_val)
qed

section \<open>The loop over the operations\<close>

text \<open>The sum of the operations on semaphore \<open>k\<close>, and of those recorded for undoing under number \<open>n\<close>.\<close>

definition op_sum :: "nat \<Rightarrow> nat \<Rightarrow> sembuf list \<Rightarrow> int" where
  "op_sum b k ops = sum_list (map sem_op (filter (\<lambda>op. b + nat (sem_num op) = k) ops))"

definition undo_sum :: "int \<Rightarrow> sembuf list \<Rightarrow> int" where
  "undo_sum n ops = sum_list (map sem_op (filter (\<lambda>op. undo_flag op \<and> int16 (sem_num op) = n) ops))"

lemma op_sum_simps [simp]:
  "op_sum b k [] = 0" "op_sum b k (op # r) = (if b + nat (sem_num op) = k then sem_op op else 0) + op_sum b k r"
  by (simp_all add: op_sum_def)

lemma undo_sum_simps [simp]:
  "undo_sum n [] = 0"
  "undo_sum n (op # r) = (if undo_flag op \<and> int16 (sem_num op) = n then sem_op op else 0) + undo_sum n r"
  by (simp_all add: undo_sum_def)

definition sem_range :: "seminfo \<Rightarrow> semst \<Rightarrow> bool" where
  "sem_range si st \<longleftrightarrow> (\<forall>k. 0 \<le> semvals st k \<and> semvals st k \<le> semvmx si)"

definition sem_bump :: "semchan \<Rightarrow> semst \<Rightarrow> semst" where
  "sem_bump ch st = (case ch of
     NCnt k \<Rightarrow> upd_sem k (\<lambda>p. p\<lparr>semncnt := uint16 (semncnt p + 1)\<rparr>) st
   | ZCnt k \<Rightarrow> upd_sem k (\<lambda>p. p\<lparr>semzcnt := uint16 (semzcnt p + 1)\<rparr>) st)"

text \<open>\<open>dn\<close> can be taken back from here, to values \<open>V\<close> and entries \<open>P\<close>.\<close>

definition reversible :: "seminfo \<Rightarrow> uarea \<Rightarrow> int \<Rightarrow> nat \<Rightarrow> sembuf list \<Rightarrow> (nat \<Rightarrow> int) \<Rightarrow> (nat \<Rightarrow> undo list) \<Rightarrow> semst \<Rightarrow> bool" where
  "reversible si u semid i dn V P st \<longleftrightarrow> (\<forall>t. undo_view si st t \<longrightarrow>
     (\<exists>t'. semundo si u semid i dn t = Some t' \<and> undo_wf si t' \<and> semvals t' = V \<and> pents t' = P \<and> quiet t t'))"

lemma reversible_Nil: "reversible si u semid i [] (semvals st) (pents st) st"
  by (auto simp: reversible_def undo_view_def)

lemma reversible_step:
  assumes wf: "undo_wf si st" and si: "si_ok si" and rng: "sem_range si st" and rev: "reversible si u semid i dn V P st"
    and d: "aoe_done si u semid op st st1" and k: "k = sem_base (sema st i) + nat (sem_num op)"
    and st2: "semvals st2 = (semvals st)(k := uint16 (semvals st k + sem_op op))" "sema st2 = sema st"
      "pents st2 = pents st1" "undo_kept st1 st2"
  shows "reversible si u semid i (op # dn) V P st2"
  unfolding reversible_def
proof (intro allI impI)
  fix t assume t: "undo_view si st2 t"
  have r: "0 \<le> semvals st k" "semvals st k < 65536"
    using rng si by (auto simp: sem_range_def si_ok_def intro: le_less_trans)
  have "undo_kept st1 t" using st2(4) t undo_kept_trans by (auto simp: undo_view_def)
  then obtain t1 where t1: "semundo_one si u semid i op t = Some t1" "undo_view si st t1" "quiet t t1"
    using semundo_one_reverses [OF wf si d r k, of t] st2 t by (auto simp: undo_view_def)
  then obtain t2 where "semundo si u semid i dn t1 = Some t2" "undo_wf si t2" "semvals t2 = V" "pents t2 = P" "quiet t1 t2"
    using rev by (auto simp: reversible_def)
  then show "\<exists>t'. semundo si u semid i (op # dn) t = Some t' \<and> undo_wf si t' \<and> semvals t' = V \<and> pents t' = P \<and> quiet t t'"
    using t1 quiet_trans by auto
qed

section \<open>The outcome of a pass\<close>

text \<open>The operation of \<open>ops\<close> that cannot be done, on values \<open>v\<close>, and the channel to wait on.\<close>

definition blocked_at :: "nat \<Rightarrow> (nat \<Rightarrow> int) \<Rightarrow> sembuf list \<Rightarrow> semchan \<Rightarrow> bool" where
  "blocked_at b v ops ch \<longleftrightarrow> (\<exists>pre op post. ops = pre @ op # post \<and> sem_flg op AND IPC_NOWAIT = 0 \<and>
     (let k = b + nat (sem_num op); x = v k + op_sum b k pre
      in if sem_op op < 0 then ch = NCnt k \<and> x < - sem_op op else ch = ZCnt k \<and> sem_op op = 0 \<and> x \<noteq> 0))"

lemma blocked_at_first:
  "sem_flg op AND IPC_NOWAIT = 0 \<Longrightarrow>
   (let k = b + nat (sem_num op)
    in if sem_op op < 0 then ch = NCnt k \<and> v k < - sem_op op else ch = ZCnt k \<and> sem_op op = 0 \<and> v k \<noteq> 0) \<Longrightarrow>
   blocked_at b v (op # r) ch"
  unfolding blocked_at_def by (rule exI [of _ "[]"], rule exI [of _ op], rule exI [of _ r]) (simp add: Let_def)

lemma blocked_at_next:
  assumes "blocked_at b v' r ch" "\<And>k. v' k = v k + (if b + nat (sem_num op) = k then sem_op op else 0)"
  shows "blocked_at b v (op # r) ch"
proof -
  obtain pre o1 post where *: "r = pre @ o1 # post" "sem_flg o1 AND IPC_NOWAIT = 0"
     "let k = b + nat (sem_num o1); x = v' k + op_sum b k pre
      in if sem_op o1 < 0 then ch = NCnt k \<and> x < - sem_op o1 else ch = ZCnt k \<and> sem_op o1 = 0 \<and> x \<noteq> 0"
    using assms(1) unfolding blocked_at_def by blast
  show ?thesis
    unfolding blocked_at_def
    by (rule exI [of _ "op # pre"], rule exI [of _ o1], rule exI [of _ post])
      (use * assms(2) in \<open>simp add: Let_def add.assoc\<close>)
qed

definition pass_res :: "seminfo \<Rightarrow> uarea \<Rightarrow> int \<Rightarrow> nat \<Rightarrow> (nat \<Rightarrow> int) \<Rightarrow> (nat \<Rightarrow> undo list) \<Rightarrow> sembuf list
    \<Rightarrow> semst \<Rightarrow> semop_out \<Rightarrow> semst \<Rightarrow> bool" where
  "pass_res si u semid b V P ops st out st' \<longleftrightarrow> (case out of
     SemDone \<Rightarrow> alert st st' \<and> cnt_frame st st' \<and> sem_range si st' \<and> undo_wf si st' \<and> u_error st' = u_error st \<and>
       (\<forall>k. semvals st' k = semvals st k + op_sum b k ops) \<and>
       (\<forall>q. q \<noteq> u_proc u \<longrightarrow> pents st' q = pents st q) \<and>
       (\<forall>j n. ents_adj (pents st' (u_proc u)) j n =
          ents_adj (pents st (u_proc u)) j n - (if j = semid then undo_sum n ops else 0))
   | SemFail \<Rightarrow> woke st st' \<and> cnt_frame st st' \<and> undo_wf si st' \<and> semvals st' = V \<and> pents st' = P \<and> u_error st' \<noteq> None
   | SemSleep ch \<Rightarrow>
       (\<exists>st0. woke st st0 \<and> cnt_frame st st0 \<and> undo_wf si st0 \<and> semvals st0 = V \<and> pents st0 = P \<and>
          u_error st0 = u_error st \<and> st' = sem_bump ch st0) \<and>
       blocked_at b (semvals st) ops ch)"

lemma op_sum_append: "op_sum b k (xs @ ys) = op_sum b k xs + op_sum b k ys"
  by (simp add: op_sum_def)

lemma pass_res_step:
  assumes res: "pass_res si u semid b V P r st2 out st'"
    and s: "alert st st2" "cnt_frame st st2" "u_error st2 = u_error st"
      "semvals st2 = (semvals st)(b + nat (sem_num op) := semvals st (b + nat (sem_num op)) + sem_op op)"
    and p: "\<forall>q. q \<noteq> u_proc u \<longrightarrow> pents st2 q = pents st q"
      "\<forall>j n. ents_adj (pents st2 (u_proc u)) j n =
          ents_adj (pents st (u_proc u)) j n - (if j = semid then undo_sum n [op] else 0)"
  shows "pass_res si u semid b V P (op # r) st out st'"
proof -
  have v: "semvals st2 k = semvals st k + (if b + nat (sem_num op) = k then sem_op op else 0)" for k
    using fun_cong [OF s(4), of k] by auto
  show ?thesis
  proof (cases out)
    case SemDone
    then show ?thesis
      using res s(1,2,3) p v alert_trans [OF s(1)] cnt_frame_trans [OF s(2)] by (simp add: pass_res_def)
  next
    case SemFail
    then show ?thesis
      using res woke_trans [OF alert_woke [OF s(1)]] cnt_frame_trans [OF s(2)] by (simp add: pass_res_def)
  next
    case (SemSleep ch)
    from res SemSleep obtain st0 where
      "woke st2 st0" "cnt_frame st2 st0" "undo_wf si st0" "semvals st0 = V" "pents st0 = P" "u_error st0 = u_error st2" "st' = sem_bump ch st0"
      unfolding pass_res_def by auto
    moreover have "woke st st0" "cnt_frame st st0"
      using calculation(1,2) woke_trans [OF alert_woke [OF s(1)]] cnt_frame_trans [OF s(2)] by blast+
    moreover have "blocked_at b (semvals st) (op # r) ch"
      using res SemSleep v by (intro blocked_at_next [of b "semvals st2"]) (auto simp: pass_res_def)
    ultimately show ?thesis
      unfolding pass_res_def SemSleep using s(3) by auto
  qed
qed

lemma aoe_done_adj:
  assumes wf: "undo_wf si st" and d: "aoe_done si u semid op st st1"
  shows "\<forall>q. q \<noteq> u_proc u \<longrightarrow> pents st1 q = pents st q"
    "\<forall>j n. ents_adj (pents st1 (u_proc u)) j n =
        ents_adj (pents st (u_proc u)) j n - (if j = semid then undo_sum n [op] else 0)"
proof -
  show "\<forall>q. q \<noteq> u_proc u \<longrightarrow> pents st1 q = pents st q"
    using d by (auto simp: aoe_done_def split: if_splits)
  show "\<forall>j n. ents_adj (pents st1 (u_proc u)) j n =
        ents_adj (pents st (u_proc u)) j n - (if j = semid then undo_sum n [op] else 0)"
  proof (cases "undo_flag op \<and> sem_op op \<noteq> 0")
    case True
    then obtain es where es: "ents_step si (sem_op op) semid (int16 (sem_num op)) (pents st (u_proc u)) = Some es"
      "pents st1 = (pents st)(u_proc u := es)" "\<bar>sem_op op\<bar> \<le> semaem si"
      using d by (auto simp: aoe_done_def)
    then show ?thesis
      using ents_step_ok [OF pents_ok [OF wf] _ es(3,1)] True by (auto simp: undo_sum_def)
  next
    case False
    then show ?thesis using d by (auto simp: aoe_done_def undo_sum_def)
  qed
qed

lemma reversible_use:
  assumes "reversible si u semid i dn V P st" "undo_view si st t"
  obtains t' where "semundo si u semid i dn t = Some t'" "undo_wf si t'" "semvals t' = V" "pents t' = P" "quiet t t'"
  using assms unfolding reversible_def by blast

lemma undo_view_error: "undo_wf si st \<Longrightarrow> undo_view si st (set_error e st)"
  using undo_rep_cong [of "set_error e st" st] by (simp add: undo_view_def undo_kept_def)

lemma undo_view_refl: "undo_wf si st \<Longrightarrow> undo_view si st st"
  by (simp add: undo_view_def)

lemma set_error_sel: "woke st (set_error e st)" "cnt_frame st (set_error e st)" "undo_wf si (set_error e st) = undo_wf si st"
  "pents (set_error e st) = pents st"
  using undo_rep_cong [of "set_error e st" st] by (auto simp: woke_def cnt_frame_def)

lemma pass_fail:
  assumes "woke st st1" "cnt_frame st st1" "u_error st1 \<noteq> None" "quiet st1 t'" "undo_wf si t'" "semvals t' = V" "pents t' = P"
  shows "pass_res si u semid b V P ops st SemFail t'"
  using assms woke_trans [OF assms(1) quiet_woke [OF assms(4)]] cnt_frame_trans [OF assms(2)]
  by (auto simp: pass_res_def quiet_def)

lemma pass_sleep:
  assumes "quiet st t'" "undo_wf si t'" "semvals t' = V" "pents t' = P" "sem_flg op AND IPC_NOWAIT = 0"
    and "(let k = b + nat (sem_num op)
           in if sem_op op < 0 then ch = NCnt k \<and> semvals st k < - sem_op op
              else ch = ZCnt k \<and> sem_op op = 0 \<and> semvals st k \<noteq> 0)"
  shows "pass_res si u semid b V P (op # r) st (SemSleep ch) (sem_bump ch t')"
proof -
  have "woke st t'" "cnt_frame st t'" "u_error t' = u_error st"
    using quiet_woke [OF assms(1)] assms(1) by (auto simp: quiet_def)
  moreover have "blocked_at b (semvals st) (op # r) ch" using assms(5,6) by (intro blocked_at_first) simp_all
  ultimately show ?thesis unfolding pass_res_def using assms by auto
qed


lemma semop_pass_spec:
  assumes si: "si_ok si"
  shows "undo_wf si st \<Longrightarrow> sem_range si st \<Longrightarrow> reversible si u semid i dn V P st \<Longrightarrow>
   \<exists>out st'. semop_pass si u semid i dn ops st = Some (out, st') \<and>
     pass_res si u semid (sem_base (sema st i)) V P ops st out st'"
proof (induction ops arbitrary: dn st)
  case Nil
  then show ?case by (intro exI [of _ SemDone] exI [of _ st]) (simp add: pass_res_def)
next
  case (Cons op r)
  note wf = Cons.prems(1) and rng = Cons.prems(2) and rev = Cons.prems(3)
  let ?b = "sem_base (sema st i)"
  let ?k = "?b + nat (sem_num op)"
  let ?v = "semvals st ?k"
  have v: "0 \<le> ?v" "?v \<le> semvmx si" using rng by (auto simp: sem_range_def)
  have vmx: "semvmx si < 65536" using si by (simp add: si_ok_def)
  \<comment> \<open>one operation done, from \<open>st1\<close> with the undo entry to \<open>st2\<close> with the new value\<close>
  have go: "\<exists>out st'. semop_pass si u semid i (op # dn) r st2 = Some (out, st') \<and>
      pass_res si u semid ?b V P (op # r) st out st'"
    if d: "aoe_done si u semid op st st1" and a: "alert st1 st2" "cnt_frame st1 st2"
      and val: "semvals st2 = (semvals st1)(?k := ?v + sem_op op)" "0 \<le> ?v + sem_op op" "?v + sem_op op \<le> semvmx si"
      and u2: "semu st2 = semu st1" "sem_undo st2 = sem_undo st1" "semunp st2 = semunp st1" "semfup st2 = semfup st1"
        "u_error st2 = u_error st1"
    for st1 st2
  proof -
    have f: "undo_frame st st1" "undo_wf si st1" "u_error st1 = u_error st" using d by (auto simp: aoe_done_def)
    note c = undo_rep_cong [OF u2(2,1,3,4)]
    have s2: "semvals st2 = (semvals st)(?k := ?v + sem_op op)" "sema st2 = sema st"
      using val(1) undo_frame_sel [OF f(1)] a(2) by (auto simp: cnt_frame_def)
    have "undo_wf si st2" using f c by simp
    moreover have "sem_range si st2"
      using rng val(2,3) fun_cong [OF s2(1)] by (auto simp: sem_range_def)
    moreover have "uint16 (?v + sem_op op) = ?v + sem_op op" using val(2,3) vmx by (intro uint16_id) auto
    then have "reversible si u semid i (op # dn) V P st2"
      using s2 c u2 by (intro reversible_step [OF wf si rng rev d refl]) (auto simp: undo_kept_def)
    ultimately obtain out st' where o: "semop_pass si u semid i (op # dn) r st2 = Some (out, st')"
        "pass_res si u semid ?b V P r st2 out st'"
      using Cons.IH [of st2 "op # dn"] s2(2) by auto
    have "pass_res si u semid ?b V P (op # r) st out st'"
      using aoe_done_adj [OF wf d] c(2) f u2 a s2
      by (intro pass_res_step [OF o(2)]) (auto intro: alert_trans [OF undo_frame_alert] cnt_frame_trans [OF undo_frame_cnt])
    then show ?thesis using o(1) by blast
  qed
  have sleep: "\<exists>out st'. (case semundo si u semid i dn st of None \<Rightarrow> None
          | Some st1 \<Rightarrow> if sem_flg op AND IPC_NOWAIT \<noteq> 0 then Some (SemFail, set_error EAGAIN st1)
              else Some (SemSleep ch, sem_bump ch st1)) = Some (out, st') \<and>
      pass_res si u semid ?b V P (op # r) st out st'"
    if ch: "(let k = ?b + nat (sem_num op)
           in if sem_op op < 0 then ch = NCnt k \<and> semvals st k < - sem_op op
              else ch = ZCnt k \<and> sem_op op = 0 \<and> semvals st k \<noteq> 0)" for ch
  proof -
    from reversible_use [OF rev undo_view_refl [OF wf]] obtain t' where
      t: "semundo si u semid i dn st = Some t'" "undo_wf si t'" "semvals t' = V" "pents t' = P" "quiet st t'" by blast
    show ?thesis
    proof (cases "sem_flg op AND IPC_NOWAIT = 0")
      case True
      then show ?thesis using t pass_sleep [OF t(5,2,3,4) True ch] by auto
    next
      case False
      have "woke st (set_error EAGAIN t')" "cnt_frame st (set_error EAGAIN t')"
        using woke_trans [OF quiet_woke [OF t(5)] set_error_sel(1)] cnt_frame_trans [OF _ set_error_sel(2)] t(5)
        by (auto simp: quiet_def)
      then have "pass_res si u semid ?b V P (op # r) st SemFail (set_error EAGAIN t')"
        using t set_error_sel(3,4) by (simp add: pass_res_def)
      then show ?thesis using t False by auto
    qed
  qed
  have refuse: "\<exists>st'. semundo si u semid i dn st1 = Some st' \<and> pass_res si u semid ?b V P (op # r) st SemFail st'"
    if "undo_view si st st1" "woke st st1" "cnt_frame st st1" "u_error st1 \<noteq> None" for st1
    using reversible_use [OF rev that(1)] pass_fail [OF that(2,3,4)] by metis
  have aoe_view: "undo_view si st st1" "woke st st1" "cnt_frame st st1"
    if "undo_wf si st1" "undo_frame st st1" "pents st1 = pents st" "undo_kept st st1" for st1
    using that undo_frame_sel [OF that(2)] undo_frame_woke undo_frame_cnt by (auto simp: undo_view_def fun_eq_iff)
  consider (up) "0 < sem_op op" | (down) "sem_op op < 0" | (zero) "sem_op op = 0" by linarith
  then show ?case
  proof cases
    case up
    show ?thesis
    proof (cases "semvmx si < sem_op op + ?v")
      case True
      let ?st1 = "if u_error st = None then set_error ERANGE st else st"
      have "undo_view si st ?st1" "woke st ?st1" "cnt_frame st ?st1" "u_error ?st1 \<noteq> None"
        using undo_view_error [OF wf] undo_view_refl [OF wf] set_error_sel(1,2) by auto
      from refuse [OF this] show ?thesis using up True by (auto simp: Let_def)
    next
      case False
      from semop_aoe_spec [OF wf si, of u semid op] show ?thesis
      proof (elim disjE exE conjE)
        fix st1 assume a: "semop_aoe si u semid op st = Some (True, st1)" "undo_wf si st1" "undo_frame st st1"
          "pents st1 = pents st" "u_error st1 \<noteq> None" "undo_kept st st1"
        from refuse [OF aoe_view [OF a(2,3,4,6)] a(5)] show ?thesis using up False a(1,5) by (auto simp: Let_def)
      next
        fix st1 assume a: "semop_aoe si u semid op st = Some (False, st1)" and d: "aoe_done si u semid op st st1"
        have sv: "semval (sems st1 ?k) = ?v" using d undo_frame_sel(1) [of st st1] by (simp add: aoe_done_def)
        let ?st4 = "let st2 = upd_sem ?k (\<lambda>p. p\<lparr>semval := ?v + sem_op op\<rparr>) st1; st3 = sem_wake_n ?k st2
                  in if semval (sems st3 ?k) = 0 then sem_wake_z ?k st3 else st3"
        note al = alert_raise [where k = ?k and v = "?v + sem_op op" and st = st1, OF refl]
        have "uint16 (?v + sem_op op) = ?v + sem_op op" using up False v vmx by (intro uint16_id) auto
        then have "semop_pass si u semid i dn (op # r) st = semop_pass si u semid i (op # dn) r ?st4"
          using up False a sv by (simp add: Let_def)
        then show ?thesis
          using go [OF d al(1,3,2)] up False v by (auto simp: Let_def)
      qed
    qed
  next
    case down
    show ?thesis
    proof (cases "- sem_op op \<le> ?v")
      case False
      have "semop_pass si u semid i dn (op # r) st = (case semundo si u semid i dn st of None \<Rightarrow> None
          | Some st1 \<Rightarrow> if sem_flg op AND IPC_NOWAIT \<noteq> 0 then Some (SemFail, set_error EAGAIN st1)
              else Some (SemSleep (NCnt ?k), sem_bump (NCnt ?k) st1))"
        using down False by (auto simp: Let_def sem_bump_def split: option.split)
      then show ?thesis using sleep [of "NCnt ?k"] down False by (simp add: Let_def)
    next
      case True
      from semop_aoe_spec [OF wf si, of u semid op] show ?thesis
      proof (elim disjE exE conjE)
        fix st1 assume a: "semop_aoe si u semid op st = Some (True, st1)" "undo_wf si st1" "undo_frame st st1"
          "pents st1 = pents st" "u_error st1 \<noteq> None" "undo_kept st st1"
        from refuse [OF aoe_view [OF a(2,3,4,6)] a(5)] show ?thesis using down True a(1,5) by (auto simp: Let_def)
      next
        fix st1 assume a: "semop_aoe si u semid op st = Some (False, st1)" and d: "aoe_done si u semid op st st1"
        have sv: "semval (sems st1 ?k) = ?v" using d undo_frame_sel(1) [of st st1] by (simp add: aoe_done_def)
        let ?st3 = "let st2 = upd_sem ?k (\<lambda>p. p\<lparr>semval := ?v + sem_op op\<rparr>) st1
                  in if semval (sems st2 ?k) = 0 then sem_wake_z ?k st2 else st2"
        have le: "?v + sem_op op \<le> semvals st1 ?k" using down sv by simp
        note al = alert_lower [OF refl le]
        have "uint16 (?v + sem_op op) = ?v + sem_op op" using down True v vmx by (intro uint16_id) auto
        then have "semop_pass si u semid i dn (op # r) st = semop_pass si u semid i (op # dn) r ?st3"
          using down True a sv by (simp add: Let_def)
        then show ?thesis
          using go [OF d al(1,3,2)] down True v by (auto simp: Let_def)
      qed
    qed
  next
    case zero
    show ?thesis
    proof (cases "?v = 0")
      case False
      have "semop_pass si u semid i dn (op # r) st = (case semundo si u semid i dn st of None \<Rightarrow> None
          | Some st1 \<Rightarrow> if sem_flg op AND IPC_NOWAIT \<noteq> 0 then Some (SemFail, set_error EAGAIN st1)
              else Some (SemSleep (ZCnt ?k), sem_bump (ZCnt ?k) st1))"
        using zero False by (auto simp: Let_def sem_bump_def split: option.split)
      then show ?thesis using sleep [of "ZCnt ?k"] zero False by (simp add: Let_def)
    next
      case True
      have "aoe_done si u semid op st st" using wf zero by (simp add: aoe_done_def)
      moreover have "semvals st = (semvals st)(?k := ?v + sem_op op)" using zero True by (auto simp: fun_eq_iff)
      ultimately show ?thesis
        using go [OF _ alert_refl cnt_frame_refl, of st] zero True v by (simp add: Let_def)
    qed
  qed
qed

section \<open>Removing undo entries\<close>

definition unrm_hit :: "int \<Rightarrow> int \<Rightarrow> int \<Rightarrow> undo \<Rightarrow> bool" where
  "unrm_hit idn low high e \<longleftrightarrow> un_id e = idn \<and> low \<le> un_num e \<and> un_num e \<le> high"

lemma semunrm_ents_filter:
  "sorted_wrt undo_lt es \<Longrightarrow> semunrm_ents idn low high es = filter (\<lambda>e. \<not> unrm_hit idn low high e) es"
proof (induction es)
  case (Cons e r)
  have later: "\<forall>f \<in> set r. undo_lt e f" using Cons.prems by simp
  have keep: "filter (\<lambda>e. \<not> unrm_hit idn low high e) r = r"
    if beyond: "idn < un_id e \<or> idn = un_id e \<and> high < un_num e"
  proof (rule filter_True, rule ballI)
    fix f assume "f \<in> set r"
    then have "undo_lt e f" using later by blast
    then show "\<not> unrm_hit idn low high f" using beyond unfolding unrm_hit_def undo_lt_def by linarith
  qed
  have ih: "semunrm_ents idn low high r = filter (\<lambda>e. \<not> unrm_hit idn low high e) r" using Cons by simp
  consider (stop) "idn < un_id e \<or> idn = un_id e \<and> high < un_num e \<and> \<not> un_num e < low"
    | (skip) "un_id e < idn \<or> idn = un_id e \<and> un_num e < low" | (hit) "unrm_hit idn low high e"
    unfolding unrm_hit_def by linarith
  then show ?case
  proof cases
    case stop
    then have "semunrm_ents idn low high (e # r) = e # r" "\<not> unrm_hit idn low high e"
      by (auto simp: unrm_hit_def)
    moreover have "filter (\<lambda>e. \<not> unrm_hit idn low high e) r = r" using stop by (intro keep) blast
    ultimately show ?thesis by simp
  next
    case skip
    then have "semunrm_ents idn low high (e # r) = e # semunrm_ents idn low high r" "\<not> unrm_hit idn low high e"
      by (auto simp: unrm_hit_def)
    then show ?thesis using ih by simp
  next
    case hit
    then show ?thesis using ih by (auto simp: unrm_hit_def)
  qed
qed simp

lemma ents_ok_filter: "ents_ok si es \<Longrightarrow> ents_ok si (filter P es)"
  using le_trans [OF length_filter_le] by (auto simp: ents_ok_def sorted_wrt_filter)

lemma undo_rep_active: "undo_rep si st us fs \<Longrightarrow> a \<in> set us \<Longrightarrow> un_ent (semu st a) \<noteq> []"
  by (simp add: undo_rep_def)

lemma semunrm_walk_rep:
  "undo_rep si st (ps @ rest) fs \<Longrightarrow> p = (if rest = [] then None else Some (hd rest)) \<Longrightarrow>
   pp = (if ps = [] then None else Some (last ps)) \<Longrightarrow> length rest \<le> fuel \<Longrightarrow>
   \<exists>st' us'. semunrm_walk idn low high fuel pp p st = Some st' \<and> undo_rep si st' us' fs \<and> undo_frame st st' \<and>
     u_error st' = u_error st \<and> sem_undo st' = sem_undo st \<and>
     (\<forall>q. pents st' q = (if \<exists>a \<in> set rest. sem_undo st q = Some a
        then filter (\<lambda>e. \<not> unrm_hit idn low high e) (pents st q) else pents st q))"
proof (induction rest arbitrary: st ps p pp fuel)
  case Nil
  then show ?case by (cases fuel) (auto intro!: exI [of _ ps])
next
  case (Cons a rest)
  note rep = Cons.prems(1)
  obtain f where f: "fuel = Suc f" "length rest \<le> f" using Cons.prems(4) by (cases fuel) auto
  have p: "p = Some a" using Cons.prems(2) by simp
  have l: "linked (unps st) (semunp st) (ps @ a # rest)" using rep by (simp add: undo_rep_def)
  have dist: "distinct (ps @ a # rest)" using l by (rule linked_distinct)
  have ne: "un_ent (semu st a) \<noteq> []" using undo_rep_active [OF rep] by simp
  obtain owner where o: "sem_undo st owner = Some a" using undo_rep_owner [OF rep ne] ..
  let ?es = "filter (\<lambda>e. \<not> unrm_hit idn low high e) (un_ent (semu st a))"
  have ok: "ents_ok si ?es" using rep by (simp add: undo_rep_def ents_ok_filter)
  have es: "semunrm_ents idn low high (un_ent (semu st a)) = ?es"
    using rep by (simp add: undo_rep_def ents_ok_def semunrm_ents_filter)
  have nxa: "unps st a = (if rest = [] then None else Some (hd rest))"
    using l by (auto simp: linked_append neq_Nil_conv)
  let ?st1 = "upd_semu a (\<lambda>x. x\<lparr>un_ent := ?es\<rparr>) st"
  have owned: "sem_undo st q = Some a \<longleftrightarrow> q = owner" for q using rep o by (auto simp: undo_rep_def)
  have pa: "pents st owner = un_ent (semu st a)" using o by (simp add: pents_def)
  have notin: "a \<notin> set rest" using dist by simp
  show ?case
  proof (cases "?es = []")
    case False
    have r1: "undo_rep si ?st1 ((ps @ [a]) @ rest) fs" "pents ?st1 = (pents st)(owner := ?es)"
      using undo_rep_ents [OF rep o ok] False ne by auto
    have step: "semunrm_walk idn low high fuel pp p st = semunrm_walk idn low high f (Some a) (unps st a) ?st1"
      using False unfolding f p by (simp add: es Let_def)
    have "Some a = (if ps @ [a] = [] then None else Some (last (ps @ [a])))" by simp
    from Cons.IH [OF r1(1) nxa this f(2)] obtain st' us' where
      "semunrm_walk idn low high f (Some a) (unps st a) ?st1 = Some st'" "undo_rep si st' us' fs" "undo_frame ?st1 st'"
      "u_error st' = u_error ?st1" "sem_undo st' = sem_undo ?st1"
      "\<forall>q. pents st' q = (if \<exists>a \<in> set rest. sem_undo ?st1 q = Some a
        then filter (\<lambda>e. \<not> unrm_hit idn low high e) (pents ?st1 q) else pents ?st1 q)" by blast
    then show ?thesis
      unfolding step using r1(2) owned pa notin o
      by (intro exI [of _ st'] exI [of _ us']) (auto simp: undo_frame_def)
  next
    case True
    from undo_rep_deactivate [OF rep o ne] obtain st3 where
      s3: "map_option (upd_semu a (\<lambda>x. x\<lparr>un_np := None\<rparr>))
             (sem_unlink (semmnu si) a (upd_semu a (\<lambda>x. x\<lparr>un_ent := []\<rparr>) st)) = Some st3"
        "undo_rep si st3 (remove1 a (ps @ a # rest)) fs" "pents st3 = (pents st)(owner := [])" "undo_frame st st3"
        "u_error st3 = u_error st" "sem_undo st3 = sem_undo st" by blast
    have us3: "remove1 a (ps @ a # rest) = ps @ rest" using dist by (simp add: remove1_append)
    let ?st0 = "upd_semu a (\<lambda>x. x\<lparr>un_ent := []\<rparr>) st"
    have step: "semunrm_walk idn low high fuel pp p st =
        semunrm_walk idn low high f pp (if rest = [] then None else Some (hd rest)) st3"
    proof (cases ps rule: rev_cases)
      case Nil
      then have "semunp ?st0 = Some a" using l by simp
      then have "st3 = upd_semu a (\<lambda>x. x\<lparr>un_np := None\<rparr>) (?st0\<lparr>semunp := un_np (semu st a)\<rparr>)"
        using s3(1) by (simp add: sem_unlink_def)
      then show ?thesis
        using True Nil Cons.prems(3) nxa unfolding f p by (simp add: es Let_def)
    next
      case (snoc qs q)
      have len: "length (ps @ a # rest) \<le> semmnu si" using undo_rep_length [OF rep] .
      have "find_pred (semmnu si) (unps ?st0) (semunp ?st0) a = Some (Some q)"
      proof (rule find_pred_found)
        have "unps ?st0 = unps st" by auto
        then show "linked (unps ?st0) (semunp ?st0) (qs @ q # a # rest)" using l snoc by simp
        show "length qs < semmnu si" using len snoc by simp
      qed
      moreover have "semunp ?st0 \<noteq> Some a" using l snoc dist by (cases qs) auto
      ultimately have "st3 = upd_semu a (\<lambda>x. x\<lparr>un_np := None\<rparr>)
          (upd_semu q (\<lambda>x. x\<lparr>un_np := un_np (semu ?st0 a)\<rparr>) ?st0)"
        using s3(1) by (simp add: sem_unlink_def)
      moreover have "q \<noteq> a" using dist snoc by auto
      ultimately show ?thesis
        using True snoc Cons.prems(3) nxa unfolding f p by (simp add: es Let_def)
    qed
    from Cons.IH [OF s3(2) [unfolded us3] refl Cons.prems(3) f(2)] obtain st' us' where
      "semunrm_walk idn low high f pp (if rest = [] then None else Some (hd rest)) st3 = Some st'" "undo_rep si st' us' fs" "undo_frame st3 st'"
      "u_error st' = u_error st3" "sem_undo st' = sem_undo st3"
      "\<forall>q. pents st' q = (if \<exists>a \<in> set rest. sem_undo st3 q = Some a
        then filter (\<lambda>e. \<not> unrm_hit idn low high e) (pents st3 q) else pents st3 q)" by blast
    then show ?thesis
      unfolding step using s3 owned pa notin o True undo_frame_trans [OF s3(4)]
      by (intro exI [of _ st'] exI [of _ us']) auto
  qed
qed

lemma semunrm_spec:
  assumes wf: "undo_wf si st"
  obtains st' where "semunrm si idn low high st = Some st'" "undo_wf si st'" "undo_frame st st'" "u_error st' = u_error st"
    "sem_undo st' = sem_undo st" "\<And>q. pents st' q = filter (\<lambda>e. \<not> unrm_hit idn low high e) (pents st q)"
proof -
  obtain us fs where rep: "undo_rep si st us fs" using wf by (auto simp: undo_wf_def)
  have "semunp st = (if us = [] then None else Some (hd us))"
    using rep by (cases us) (auto simp: undo_rep_def)
  with rep undo_rep_length [OF rep] obtain st' us' where
    s: "semunrm si idn low high st = Some st'" "undo_rep si st' us' fs" "undo_frame st st'" "u_error st' = u_error st"
    "sem_undo st' = sem_undo st"
    and p: "\<And>q. pents st' q = (if \<exists>a \<in> set us. sem_undo st q = Some a
        then filter (\<lambda>e. \<not> unrm_hit idn low high e) (pents st q) else pents st q)"
    using semunrm_walk_rep [of si st "[]" us fs "semunp st" None "semmnu si" idn low high] unfolding semunrm_def by auto
  have "pents st' q = filter (\<lambda>e. \<not> unrm_hit idn low high e) (pents st q)" for q
  proof (cases "\<exists>a \<in> set us. sem_undo st q = Some a")
    case False
    then have "pents st q = []" using rep by (auto simp: pents_def undo_rep_def split: option.splits)
    then show ?thesis using p False by simp
  qed (simp add: p)
  moreover have "undo_wf si st'" using s(2) by (auto simp: undo_wf_def)
  ultimately show thesis using s that by blast
qed

end
