(* ===== verification/SemCalls.thy ===== *)
theory SemCalls
  imports SemPass
begin

text \<open>
  The system calls of the semaphore facility on well-formed tables: every call returns, keeps the undo
  tables, the range of the values and the allocation of semaphores to sets, and passes no sleeper over.
\<close>

section \<open>The tables of sets and semaphores\<close>

text \<open>The units of \<open>semmap\<close> behind a set: semaphore \<open>k\<close> is unit \<open>k + 1\<close>.\<close>

definition set_units :: "semid_ds \<Rightarrow> nat set" where
  "set_units sp = {Suc (sem_base sp) ..< Suc (sem_base sp) + nat (sem_nsems sp)}"

abbreviation set_live :: "semst \<Rightarrow> nat \<Rightarrow> bool" where
  "set_live st i \<equiv> ipc_live (sem_perm (sema st i))"

definition sets_ok :: "seminfo \<Rightarrow> semst \<Rightarrow> bool" where
  "sets_ok si st \<longleftrightarrow> rmap_ok (semmap st) \<and>
     (\<forall>i < semmni si. set_live st i \<longrightarrow>
        0 < sem_nsems (sema st i) \<and> sem_nsems (sema st i) < 65536 \<and>
        Suc (sem_base (sema st i)) + nat (sem_nsems (sema st i)) < 2 ^ 32 \<and>
        set_units (sema st i) \<inter> free_units (semmap st) = {}) \<and>
     (\<forall>i < semmni si. \<forall>j < semmni si. set_live st i \<longrightarrow> set_live st j \<longrightarrow> i \<noteq> j \<longrightarrow>
        set_units (sema st i) \<inter> set_units (sema st j) = {})"

definition sem_inv :: "seminfo \<Rightarrow> semst \<Rightarrow> bool" where
  "sem_inv si st \<longleftrightarrow> undo_wf si st \<and> sem_range si st \<and> sets_ok si st"

text \<open>What a call other than a blocking \<open>semop\<close> guarantees.\<close>

definition sem_step_ok :: "seminfo \<Rightarrow> semst \<Rightarrow> semst \<Rightarrow> bool" where
  "sem_step_ok si st st' \<longleftrightarrow> sem_inv si st' \<and> alert st st'"

lemma sem_step_ok_trans: "sem_step_ok si a b \<Longrightarrow> sem_step_ok si b c \<Longrightarrow> sem_step_ok si a c"
  using alert_trans by (auto simp: sem_step_ok_def)

text \<open>Changes of the error number, return values, statistics and output keep everything.\<close>

definition same_tables :: "semst \<Rightarrow> semst \<Rightarrow> bool" where
  "same_tables st st' \<longleftrightarrow> sems st' = sems st \<and> sema st' = sema st \<and> semmap st' = semmap st \<and> sem_wakes st' = sem_wakes st \<and>
     sem_undo st' = sem_undo st \<and> semu st' = semu st \<and> semunp st' = semunp st \<and> semfup st' = semfup st"

lemma same_tables_ok: "same_tables st st' \<Longrightarrow> sem_inv si st \<Longrightarrow> sem_step_ok si st st'"
  using undo_rep_cong [of st' st] alert_refl [of st]
  unfolding same_tables_def sem_step_ok_def sem_inv_def sets_ok_def sem_range_def alert_def woke_def by simp

lemma same_tables_refl [simp]: "same_tables st st"
  by (simp add: same_tables_def)

lemma same_tables_trans: "same_tables a b \<Longrightarrow> same_tables b c \<Longrightarrow> same_tables a c"
  by (simp add: same_tables_def)

lemma same_tables_upd [simp]:
  "same_tables st (set_error e st)" "same_tables st (st\<lparr>u_rval1 := r\<rparr>)" "same_tables st (st\<lparr>u_asu := b\<rparr>)"
  "same_tables st (st\<lparr>sem_out := out\<rparr>)" "same_tables st (st\<lparr>sem_count := n\<rparr>)"
  by (simp_all add: same_tables_def)

lemma semconv_cases:
  obtains "semconv si s st = (None, set_error EINVAL st)"
    | i where "semconv si s st = (Some i, st)" "set_live st i" "0 \<le> s" "i = nat (s mod int (semmni si))"
      "s div int (semmni si) = uint (ip_seq (sem_perm (sema st i)))"
proof (cases "semconv si s st = (None, set_error EINVAL st)")
  case True
  then show thesis by (rule that(1))
next
  case False
  then show thesis
    by (intro that(2) [of "nat (s mod int (semmni si))"]) (auto simp: semconv_def Let_def split: if_splits)
qed

lemma semconv_slot: "0 < semmni si \<Longrightarrow> semconv si s st = (Some i, st') \<Longrightarrow> i < semmni si \<and> set_live st i \<and> st' = st"
  by (auto simp: semconv_def Let_def nat_less_iff split: if_splits)

lemma sem_owner_cases:
  obtains "sem_owner u i st = (False, set_error EPERM st)" | st0 where "sem_owner u i st = (True, st0)" "same_tables st st0"
proof (cases "sem_owner u i st = (False, set_error EPERM st)")
  case True
  then show thesis by (rule that(1))
next
  case False
  then show thesis
    by (intro that(2) [of "snd (sem_owner u i st)"]) (auto simp: sem_owner_def suser_def split: if_splits)
qed

lemma sems_frame_inv:
  assumes "sema st' = sema st" "semmap st' = semmap st" "sem_undo st' = sem_undo st" "semu st' = semu st"
    "semunp st' = semunp st" "semfup st' = semfup st" "sem_inv si st" "sem_range si st'"
  shows "sem_inv si st'"
  using assms undo_rep_cong(3) [of st' st si] by (simp add: sem_inv_def sets_ok_def)

lemma undo_frame_inv: "undo_frame st st' \<Longrightarrow> undo_wf si st' \<Longrightarrow> sem_inv si st \<Longrightarrow> sem_inv si st'"
  by (simp add: sem_inv_def sets_ok_def sem_range_def undo_frame_sel)

lemma semunrm_ok:
  assumes "sem_inv si st"
  obtains st' where "semunrm si idn low high st = Some st'" "sem_step_ok si st st'" "undo_frame st st'" "u_error st' = u_error st"
    "sem_undo st' = sem_undo st" "\<And>q. pents st' q = filter (\<lambda>e. \<not> unrm_hit idn low high e) (pents st q)"
proof -
  have wf: "undo_wf si st" using assms by (simp add: sem_inv_def)
  obtain st' where "semunrm si idn low high st = Some st'" "undo_wf si st'" "undo_frame st st'" "u_error st' = u_error st"
    "sem_undo st' = sem_undo st" "\<And>q. pents st' q = filter (\<lambda>e. \<not> unrm_hit idn low high e) (pents st q)"
    using semunrm_spec [OF wf, of idn low high] by blast
  then show thesis using that undo_frame_inv [of st st' si] undo_frame_alert assms by (simp add: sem_step_ok_def)
qed

section \<open>Control operations\<close>

lemma upd_pid_ok:
  "sem_inv si st \<Longrightarrow> sem_step_ok si st (upd_sem k (\<lambda>p. p\<lparr>sempid := x\<rparr>) st)"
proof -
  assume inv: "sem_inv si st"
  let ?st = "upd_sem k (\<lambda>p. p\<lparr>sempid := x\<rparr>) st"
  have "woke st ?st" by (auto simp: woke_def)
  then have "alert st ?st" by (auto simp: alert_def)
  moreover have "sem_range si ?st" using inv by (auto simp: sem_inv_def sem_range_def)
  then have "sem_inv si ?st" by (rule sems_frame_inv [OF _ _ _ _ _ _ inv, rotated -1]) simp_all
  ultimately show ?thesis by (simp add: sem_step_ok_def)
qed

lemma sem_assign_ok:
  assumes "sem_inv si st" "0 \<le> v" "v \<le> semvmx si"
  shows "sem_step_ok si st (sem_assign k v st)" "semvals (sem_assign k v st) = (semvals st)(k := v)"
proof -
  let ?st1 = "upd_sem k (\<lambda>p. p\<lparr>semval := v\<rparr>) st"
  show val: "semvals (sem_assign k v st) = (semvals st)(k := v)"
    by (auto simp: sem_assign_def Let_def fun_eq_iff)
  have r: "sem_range si (sem_assign k v st)"
    using assms fun_cong [OF val] by (auto simp: sem_inv_def sem_range_def)
  have "semmap (sem_assign k v st) = semmap st" by (simp add: sem_assign_def Let_def sem_wake_n_def sem_wake_z_def)
  then have "sem_inv si (sem_assign k v st)"
    by (intro sems_frame_inv [OF _ _ _ _ _ _ assms(1) r]) (simp_all add: sem_assign_def Let_def)
  moreover have "woke st (sem_assign k v st)"
    unfolding sem_assign_def Let_def by (auto intro!: woke_then woke_val)
  then have "alert st (sem_assign k v st)"
    using assms(1) unfolding alert_def by (auto simp: sem_assign_def Let_def sem_inv_def sem_range_def)
  ultimately show "sem_step_ok si st (sem_assign k v st)" by (simp add: sem_step_ok_def)
qed

lemma semctl_assign_ok:
  "sem_inv si st \<Longrightarrow> \<forall>v \<in> set vs. 0 \<le> v \<and> v \<le> semvmx si \<Longrightarrow> sem_step_ok si st (semctl_assign pid k vs st) \<and>
     (\<forall>j. semvals (semctl_assign pid k vs st) j = (if k \<le> j \<and> j < k + length vs then vs ! (j - k) else semvals st j))"
proof (induction vs arbitrary: k st)
  case Nil
  then show ?case by (simp add: sem_step_ok_def)
next
  case (Cons v vs)
  let ?st1 = "sem_assign k v st"
  let ?st2 = "upd_sem k (\<lambda>p. p\<lparr>sempid := pid\<rparr>) ?st1"
  have a: "sem_step_ok si st ?st1" "semvals ?st1 = (semvals st)(k := v)" using sem_assign_ok Cons.prems by auto
  have b: "sem_step_ok si st ?st2"
    using a(1) upd_pid_ok sem_step_ok_trans by (meson sem_step_ok_def)
  have i2: "sem_inv si ?st2" using b by (simp add: sem_step_ok_def)
  have v2: "semvals ?st2 j = (if j = k then v else semvals st j)" for j
    using fun_cong [OF a(2), of j] by (auto split: if_splits)
  have vs: "\<forall>v \<in> set vs. 0 \<le> v \<and> v \<le> semvmx si" using Cons.prems(2) by simp
  have e: "semctl_assign pid k (v # vs) st = semctl_assign pid (Suc k) vs ?st2" by simp
  note ih = Cons.IH [OF i2 vs, of "Suc k"]
  have "semvals (semctl_assign pid (Suc k) vs ?st2) j =
      (if k \<le> j \<and> j < k + length (v # vs) then (v # vs) ! (j - k) else semvals st j)" for j
    using conjunct2 [OF ih, rule_format, of j] v2 [of j] by (auto simp: nth_Cons')
  then show ?case
    unfolding e using sem_step_ok_trans [OF b conjunct1 [OF ih]] by blast
qed

lemma semctl_clear_ok:
  "sem_inv si st \<Longrightarrow> si_ok si \<Longrightarrow> sem_step_ok si st (semctl_clear k n st) \<and> sema (semctl_clear k n st) = sema st \<and>
     semmap (semctl_clear k n st) = semmap st \<and>
     (\<forall>j. semvals (semctl_clear k n st) j = (if k \<le> j \<and> j < k + n then 0 else semvals st j))"
proof (induction n arbitrary: k st)
  case 0
  then show ?case by (simp add: sem_step_ok_def)
next
  case (Suc n)
  let ?st1 = "upd_sem k (\<lambda>p. p\<lparr>semval := 0, sempid := 0\<rparr>) st"
  let ?st2 = "sem_wake_z k (sem_wake_n k ?st1)"
  have v: "semvals ?st2 j = (if j = k then 0 else semvals st j)" for j by simp
  have m: "semmap ?st2 = semmap st" by (simp add: sem_wake_n_def sem_wake_z_def)
  have "woke st ?st1" by (auto simp: woke_def)
  then have "woke st ?st2" by (intro woke_then)
  then have "alert st ?st2" by (auto simp: alert_def)
  moreover have "sem_range si ?st2" using Suc.prems v by (auto simp: sem_inv_def sem_range_def si_ok_def)
  then have "sem_inv si ?st2" by (rule sems_frame_inv [OF _ m _ _ _ _ Suc.prems(1), rotated -1]) simp_all
  ultimately have b: "sem_step_ok si st ?st2" "sem_inv si ?st2" by (simp_all add: sem_step_ok_def)
  have e: "semctl_clear k (Suc n) st = semctl_clear (Suc k) n ?st2" by simp
  obtain st2 where st2: "st2 = ?st2" by blast
  have s2: "sema st2 = sema st" unfolding st2 by simp
  note ih = Suc.IH [OF b(2) Suc.prems(2), of "Suc k", folded st2]
  have "semvals (semctl_clear (Suc k) n st2) j = (if k \<le> j \<and> j < k + Suc n then 0 else semvals st j)" for j
    using ih v [of j, folded st2] by auto
  then show ?case
    unfolding e st2 [symmetric] using ih sem_step_ok_trans [OF b(1) [folded st2]] m [folded st2] s2 by simp
qed

lemma pents_eq: "sem_undo a = sem_undo b \<Longrightarrow> semu a = semu b \<Longrightarrow> pents a = pents b"
  by (simp only: pents_def [abs_def])

section \<open>Sets coming and going\<close>

lemma sets_ok_kill:
  assumes ok: "sets_ok si st" and others: "\<And>j. j \<noteq> i \<Longrightarrow> sema st' j = sema st j" and dead: "\<not> set_live st' i"
    and map: "rmap_ok (semmap st')"
      "free_units (semmap st') \<subseteq> free_units (semmap st) \<union> (if set_live st i then set_units (sema st i) else {})"
    and i: "i < semmni si"
  shows "sets_ok si st'"
  unfolding sets_ok_def
proof (intro conjI allI impI map(1))
  fix j assume j: "j < semmni si" "set_live st' j"
  then have ji: "j \<noteq> i" using dead by auto
  then have e: "sema st' j = sema st j" by (rule others)
  show "0 < sem_nsems (sema st' j)" "sem_nsems (sema st' j) < 65536"
    "Suc (sem_base (sema st' j)) + nat (sem_nsems (sema st' j)) < 2 ^ 32"
    using ok j unfolding e sets_ok_def by auto
  have "set_units (sema st j) \<inter> free_units (semmap st) = {}" using ok j e unfolding sets_ok_def by auto
  moreover have "set_units (sema st j) \<inter> set_units (sema st i) = {}" if "set_live st i"
    using ok j e i ji that unfolding sets_ok_def by auto
  ultimately show "set_units (sema st' j) \<inter> free_units (semmap st') = {}"
    using map(2) unfolding e by (auto split: if_splits)
next
  fix j k assume a: "j < semmni si" "k < semmni si" "set_live st' j" "set_live st' k" "j \<noteq> k"
  then have "j \<noteq> i" "k \<noteq> i" using dead by auto
  then have "sema st' j = sema st j" "sema st' k = sema st k" using others by auto
  then show "set_units (sema st' j) \<inter> set_units (sema st' k) = {}" using ok a unfolding sets_ok_def by auto
qed

lemma sets_ok_birth:
  assumes ok: "sets_ok si st" and others: "\<And>j. j \<noteq> i \<Longrightarrow> sema st' j = sema st j" and i: "i < semmni si"
    and sz: "0 < sem_nsems (sema st' i)" "sem_nsems (sema st' i) < 65536"
      "Suc (sem_base (sema st' i)) + nat (sem_nsems (sema st' i)) < 2 ^ 32"
    and map: "rmap_ok (semmap st')" "set_units (sema st' i) \<subseteq> free_units (semmap st)"
      "free_units (semmap st') = free_units (semmap st) - set_units (sema st' i)"
  shows "sets_ok si st'"
  unfolding sets_ok_def
proof (intro conjI allI impI map(1))
  fix j assume j: "j < semmni si" "set_live st' j"
  show "0 < sem_nsems (sema st' j)" "sem_nsems (sema st' j) < 65536"
    "Suc (sem_base (sema st' j)) + nat (sem_nsems (sema st' j)) < 2 ^ 32"
    using ok j sz others [of j] unfolding sets_ok_def by (cases "j = i"; auto)+
  show "set_units (sema st' j) \<inter> free_units (semmap st') = {}"
    using ok j others [of j] unfolding sets_ok_def map(3) by (cases "j = i"; auto)
next
  fix j k assume a: "j < semmni si" "k < semmni si" "set_live st' j" "set_live st' k" "j \<noteq> k"
  have new: "set_units (sema st' i) \<inter> set_units (sema st m) = {}" if "m < semmni si" "set_live st m" for m
    using ok that map(2) unfolding sets_ok_def by blast
  consider "j = i" "k \<noteq> i" | "j \<noteq> i" "k = i" | "j \<noteq> i" "k \<noteq> i" using a by auto
  then show "set_units (sema st' j) \<inter> set_units (sema st' k) = {}"
  proof cases
    case 1
    then show ?thesis using new [of k] a others [of k] by auto
  next
    case 2
    then show ?thesis using new [of j] a others [of j] by auto
  next
    case 3
    then show ?thesis using ok a others [of j] others [of k] unfolding sets_ok_def by auto
  qed
qed

text \<open>The block of \<open>semmap\<close> behind a live set.\<close>

lemma unat_word_int: "0 \<le> n \<Longrightarrow> n < 2 ^ 32 \<Longrightarrow> unat (word_of_int n :: u32) = nat n"
  by (simp add: unat_eq_nat_uint uint_word_of_int)

lemma set_block:
  assumes "sets_ok si st" "i < semmni si" "set_live st i"
  defines "a \<equiv> word_of_nat (sem_base (sema st i)) + 1 :: u32" and "n \<equiv> word_of_int (sem_nsems (sema st i)) :: u32"
  shows "block a n = set_units (sema st i)" "a \<noteq> 0" "n \<noteq> 0" "unat a + unat n < 2 ^ 32" "unat a = Suc (sem_base (sema st i))"
proof -
  let ?b = "sem_base (sema st i)" and ?k = "sem_nsems (sema st i)"
  have r: "0 < ?k" "?k < 65536" "Suc ?b + nat ?k < 2 ^ 32" using assms(1-3) by (auto simp: sets_ok_def)
  have b: "unat (word_of_nat ?b :: u32) = ?b" using r by (simp add: unat_of_nat)
  have a: "unat a = Suc ?b" unfolding a_def using b r by (subst unat_plus_exact) auto
  have n: "unat n = nat ?k" unfolding n_def using r by (intro unat_word_int) auto
  show "block a n = set_units (sema st i)" by (simp add: block_def set_units_def a n)
  show "a \<noteq> 0" "unat a = Suc ?b" using a by auto
  show "n \<noteq> 0" using n r by auto
  show "unat a + unat n < 2 ^ 32" using a n r by simp
qed

lemma mfree_set:
  assumes "sets_ok si st" "i < semmni si" "set_live st i"
  obtains r where "mfree (semmap st) (word_of_int (sem_nsems (sema st i))) (word_of_nat (sem_base (sema st i)) + 1) = Some r"
    "rmap_ok (case r of MFreed mp _ \<Rightarrow> mp | MLost mp \<Rightarrow> mp)"
    "free_units (case r of MFreed mp _ \<Rightarrow> mp | MLost mp \<Rightarrow> mp) \<subseteq> free_units (semmap st) \<union> set_units (sema st i)"
proof -
  note b = set_block [OF assms]
  have ok: "rmap_ok (semmap st)" "set_units (sema st i) \<inter> free_units (semmap st) = {}" using assms by (auto simp: sets_ok_def)
  have "block (word_of_nat (sem_base (sema st i)) + 1) (word_of_int (sem_nsems (sema st i))) \<inter> free_units (semmap st) = {}"
    using b(1) ok(2) by simp
  from mfree_contract [OF ok(1) b(3,2,4) this] show thesis
  proof (elim disjE exE conjE)
    fix mp' assume "mfree (semmap st) (word_of_int (sem_nsems (sema st i))) (word_of_nat (sem_base (sema st i)) + 1) =
        Some (MFreed mp' (mapwant (semmap st) \<noteq> 0))" "rmap_ok mp'"
      "free_units mp' = free_units (semmap st) \<union> block (word_of_nat (sem_base (sema st i)) + 1) (word_of_int (sem_nsems (sema st i)))"
    then show thesis using b(1) by (intro that) auto
  next
    assume "mfree (semmap st) (word_of_int (sem_nsems (sema st i))) (word_of_nat (sem_base (sema st i)) + 1) = Some (MLost (semmap st))"
    then show thesis using ok(1) by (intro that) auto
  qed
qed

lemma semctl_rmid_ok:
  assumes inv: "sem_inv si st" and si: "si_ok si" and i: "i < semmni si" "set_live st i"
  shows "\<exists>st'. semctl_rmid si u semid i st = Some st' \<and> sem_step_ok si st st' \<and>
     (\<not> fst (sem_owner u i st) \<and> st' = set_error EPERM st \<or>
      \<not> set_live st' i \<and> ip_seq (sem_perm (sema st' i)) =
          (if int32 (semid + int (semmni si)) < 0 then 0 else ip_seq (sem_perm (sema st i)) + 1) \<and>
      (\<forall>j. j \<noteq> i \<longrightarrow> sema st' j = sema st j) \<and>
      (\<forall>k. semvals st' k = (if sem_base (sema st i) \<le> k \<and> k < sem_base (sema st i) + nat (sem_nsems (sema st i)) then 0 else semvals st k)) \<and>
      (\<forall>q. pents st' q = filter (\<lambda>e. \<not> unrm_hit semid 0 (sem_nsems (sema st i)) e) (pents st q)))"
proof (cases u i st rule: sem_owner_cases)
  case 1
  then show ?thesis using same_tables_ok [OF _ inv, of "set_error EPERM st"] by (simp add: semctl_rmid_def)
next
  case (2 st0)
  have st0: "sema st0 = sema st" "semmap st0 = semmap st" "sems st0 = sems st" "pents st0 = pents st"
    using 2(2) undo_rep_cong(2) [of st0 st] by (auto simp: same_tables_def)
  have inv0: "sem_step_ok si st st0" "sem_inv si st0" using same_tables_ok [OF 2(2) inv] by (auto simp: sem_step_ok_def)
  from semunrm_ok [OF inv0(2), of semid 0 "sem_nsems (sema st0 i)"] obtain st1 where
    st1: "semunrm si semid 0 (sem_nsems (sema st0 i)) st0 = Some st1" "sem_step_ok si st0 st1" "undo_frame st0 st1"
      "\<And>q. pents st1 q = filter (\<lambda>e. \<not> unrm_hit semid 0 (sem_nsems (sema st0 i)) e) (pents st0 q)" by blast
  have f1: "sema st1 = sema st" "semmap st1 = semmap st" "sems st1 = sems st" using st1(3) st0 by (simp_all add: undo_frame_sel)
  have inv1: "sem_inv si st1" using st1(2) by (simp add: sem_step_ok_def)
  let ?b = "sem_base (sema st i)" and ?n = "nat (sem_nsems (sema st i))"
  define st2 where "st2 = semctl_clear ?b ?n st1"
  have c: "sem_step_ok si st1 st2" "sema st2 = sema st" "semmap st2 = semmap st"
    "\<And>j. semvals st2 j = (if ?b \<le> j \<and> j < ?b + ?n then 0 else semvals st1 j)"
    using semctl_clear_ok [OF inv1 si, of ?b ?n] f1 unfolding st2_def by auto
  have inv2: "sem_inv si st2" using c(1) by (simp add: sem_step_ok_def)
  have p2: "pents st2 = pents st1"
  proof -
    have "sem_undo (semctl_clear k n t) = sem_undo t \<and> semu (semctl_clear k n t) = semu t" for k n t
      by (induction k n t rule: semctl_clear.induct) simp_all
    then show ?thesis unfolding st2_def by (intro pents_eq) blast+
  qed
  have sets2: "sets_ok si st2" "set_live st2 i" using inv2 i c(2) by (auto simp: sem_inv_def)
  from mfree_set [OF sets2(1) i(1) sets2(2)] obtain r where
    r: "mfree (semmap st2) (word_of_int (sem_nsems (sema st2 i))) (word_of_nat (sem_base (sema st2 i)) + 1) = Some r"
    "rmap_ok (case r of MFreed mp _ \<Rightarrow> mp | MLost mp \<Rightarrow> mp)"
    "free_units (case r of MFreed mp _ \<Rightarrow> mp | MLost mp \<Rightarrow> mp) \<subseteq> free_units (semmap st2) \<union> set_units (sema st2 i)" .
  define seq where "seq = (if int32 (semid + int (semmni si)) < 0 then 0 else ip_seq (sem_perm (sema st i)) + 1)"
  define st3 where "st3 = upd_sema i (\<lambda>sp. sp\<lparr>sem_perm := (sem_perm sp)\<lparr>ip_seq := seq, ip_mode := 0\<rparr>\<rparr>)
      (st2\<lparr>semmap := (case r of MFreed mp _ \<Rightarrow> mp | MLost mp \<Rightarrow> mp)\<rparr>)"
  have "semctl_rmid si u semid i st = Some st3"
    using 2(1) st1(1) f1 r(1) c(2) unfolding semctl_rmid_def st3_def seq_def st2_def by (simp add: Let_def)
  moreover have s3: "sems st3 = sems st2" "\<And>j. j \<noteq> i \<Longrightarrow> sema st3 j = sema st2 j" "\<not> set_live st3 i"
    "semmap st3 = (case r of MFreed mp _ \<Rightarrow> mp | MLost mp \<Rightarrow> mp)" "ip_seq (sem_perm (sema st3 i)) = seq"
    "sem_wakes st3 = sem_wakes st2"
    by (simp_all add: st3_def)
  have "sets_ok si st3"
    using r(2,3) sets2(2) s3(2,3) by (intro sets_ok_kill [OF sets2(1) _ _ _ _ i(1)]) (auto simp: s3(4))
  moreover have "undo_wf si st3" "pents st3 = pents st2"
    using inv2 undo_rep_cong(2,3) [of st3 st2] by (auto simp: sem_inv_def st3_def)
  ultimately have "sem_inv si st3" using inv2 s3(1) by (simp add: sem_inv_def sem_range_def)
  moreover have "alert st2 st3" using s3(1,6) by (simp add: alert_def woke_def)
  ultimately have "sem_step_ok si st2 st3" by (simp add: sem_step_ok_def)
  then have "sem_step_ok si st st3"
    using inv0(1) st1(2) c(1) sem_step_ok_trans by blast
  then show ?thesis
    using \<open>semctl_rmid si u semid i st = Some st3\<close> s3 c f1 p2 st1(4) st0 \<open>pents st3 = pents st2\<close>
    by (intro exI [of _ st3]) (auto simp: seq_def)
qed

section \<open>The control operations on the tables\<close>

definition um_ok :: "sem_umem \<Rightarrow> bool" where
  "um_ok um \<longleftrightarrow> (\<forall>a n vs. um_vals um a n = Some vs \<longrightarrow> length vs = n \<and> (\<forall>v \<in> set vs. 0 \<le> v \<and> v < 65536))"

lemma ipcaccess_tables:
  obtains "ipcaccess u p m st = (True, set_error EACCES st)" | "ipcaccess u p m st = (False, st)"
  by (rule ipcaccess_cases [of u p m st])

lemma ipc_alloc_live: "(m OR IPC_ALLOC) AND IPC_ALLOC \<noteq> 0" "(IPC_ALLOC OR m) AND IPC_ALLOC \<noteq> 0"
proof -
  have "bit ((m OR IPC_ALLOC) AND IPC_ALLOC) 15" by (simp add: IPC_ALLOC_def bit_simps)
  then show "(m OR IPC_ALLOC) AND IPC_ALLOC \<noteq> 0" by auto
  then show "(IPC_ALLOC OR m) AND IPC_ALLOC \<noteq> 0" by (simp add: or.commute)
qed

lemma semctl_set_ok:
  assumes inv: "sem_inv si st" and i: "set_live st i"
  shows "sem_step_ok si st (semctl_set u time um arg i st)"
proof (cases u i st rule: sem_owner_cases)
  case 1
  then show ?thesis using same_tables_ok [OF _ inv, of "set_error EPERM st"] by (simp add: semctl_set_def)
next
  case (2 st0)
  have s0: "sem_step_ok si st st0" "sema st0 = sema st" using same_tables_ok [OF 2(2) inv] 2(2) by (auto simp: same_tables_def)
  show ?thesis
  proof (cases "um_ds um arg")
    case None
    have "same_tables st (set_error EFAULT st0)" using 2(2) same_tables_trans same_tables_upd(1) by blast
    then show ?thesis using same_tables_ok [OF _ inv] 2(1) None by (simp add: semctl_set_def)
  next
    case (Some ds)
    let ?st1 = "semctl_set u time um arg i st"
    have st1: "?st1 = upd_sema i (\<lambda>sp. sp\<lparr>sem_perm := (sem_perm sp)\<lparr>
                   ip_uid := ip_uid (sem_perm ds), ip_gid := ip_gid (sem_perm ds),
                   ip_mode := (ip_mode (sem_perm ds) AND 511) OR IPC_ALLOC\<rparr>, sem_ctime := time\<rparr>) st0"
      using 2(1) Some by (simp add: semctl_set_def)
    have same: "set_live ?st1 j = set_live st0 j" "sem_base (sema ?st1 j) = sem_base (sema st0 j)"
      "sem_nsems (sema ?st1 j) = sem_nsems (sema st0 j)" for j
      using i s0(2) ipc_alloc_live unfolding st1 by auto
    have rest: "semmap ?st1 = semmap st0" "sems ?st1 = sems st0" "sem_wakes ?st1 = sem_wakes st0" unfolding st1 by simp_all
    have inv0: "sem_inv si st0" using s0(1) by (simp add: sem_step_ok_def)
    have units: "set_units (sema ?st1 j) = set_units (sema st0 j)" for j unfolding set_units_def same ..
    have "sets_ok si ?st1" using inv0 unfolding sem_inv_def sets_ok_def units same rest by blast
    moreover have "undo_wf si ?st1"
      using inv0 undo_rep_cong(3) [of ?st1 st0 si] unfolding sem_inv_def st1 by simp
    ultimately have "sem_inv si ?st1" using inv0 rest by (simp add: sem_inv_def sem_range_def)
    moreover have "alert st0 ?st1" using rest by (simp add: alert_def woke_def)
    ultimately have "sem_step_ok si st0 ?st1" by (simp add: sem_step_ok_def)
    then show ?thesis using s0(1) sem_step_ok_trans by blast
  qed
qed

lemma semctl_copyall_tables: "same_tables st (semctl_copyall um a k n st)"
proof (induction um a k n st rule: semctl_copyall.induct)
  case (2 um a k n st)
  then show ?case using same_tables_trans [OF same_tables_upd(4)] by auto
qed simp

lemma semctl_read_ok:
  assumes inv: "sem_inv si st"
  shows "sem_step_ok si st (semctl_stat u um arg i st)" "sem_step_ok si st (semctl_get u field n i st)"
    "sem_step_ok si st (semctl_getall u um arg i st)"
proof -
  have "same_tables st (semctl_stat u um arg i st)"
    by (cases rule: ipcaccess_tables [of u "sem_perm (sema st i)" SEM_R st]) (simp_all add: semctl_stat_def)
  then show "sem_step_ok si st (semctl_stat u um arg i st)" using same_tables_ok inv by blast
  have "same_tables st (semctl_get u field n i st)"
    by (cases rule: ipcaccess_tables [of u "sem_perm (sema st i)" SEM_R st]) (simp_all add: semctl_get_def)
  then show "sem_step_ok si st (semctl_get u field n i st)" using same_tables_ok inv by blast
  have "same_tables st (semctl_getall u um arg i st)"
    by (cases rule: ipcaccess_tables [of u "sem_perm (sema st i)" SEM_R st])
      (simp_all add: semctl_getall_def semctl_copyall_tables)
  then show "sem_step_ok si st (semctl_getall u um arg i st)" using same_tables_ok inv by blast
qed

lemma semctl_setval_ok:
  assumes inv: "sem_inv si st" and si: "si_ok si"
  shows "\<exists>st'. semctl_setval si u semid n arg i st = Some st' \<and> sem_step_ok si st st'"
proof (cases rule: ipcaccess_tables [of u "sem_perm (sema st i)" SEM_A st])
  case 1
  then show ?thesis using same_tables_ok [OF _ inv, of "set_error EACCES st"] by (simp add: semctl_setval_def)
next
  case 2
  consider "sem_nsems (sema st i) \<le> int n" | "\<not> sem_nsems (sema st i) \<le> int n" "semvmx si < arg mod 4294967296"
    | (set) "\<not> sem_nsems (sema st i) \<le> int n" "\<not> semvmx si < arg mod 4294967296" by blast
  then show ?thesis
  proof cases
    case set
    let ?k = "sem_base (sema st i) + n"
    have "arg mod 4294967296 < 65536" using set(2) si by (simp add: si_ok_def)
    then have "uint16 arg = arg mod 4294967296"
      using uint16_id [of "arg mod 4294967296"] uint16_of_unsigned [of arg] by simp
    then have v: "0 \<le> uint16 arg" "uint16 arg \<le> semvmx si"
      using set(2) uint16_bounds(1) [of arg] by simp_all
    let ?st1 = "upd_sem ?k (\<lambda>p. p\<lparr>sempid := u_pid u\<rparr>) (sem_assign ?k (uint16 arg) st)"
    have a: "sem_step_ok si st (sem_assign ?k (uint16 arg) st)" using sem_assign_ok(1) [OF inv v] .
    then have "sem_inv si (sem_assign ?k (uint16 arg) st)" by (simp add: sem_step_ok_def)
    then have b: "sem_step_ok si st ?st1" using sem_step_ok_trans [OF a] upd_pid_ok by blast
    then have "sem_inv si ?st1" by (simp add: sem_step_ok_def)
    then obtain st' where "semunrm si semid (uint16 (int n)) (uint16 (int n)) ?st1 = Some st'" "sem_step_ok si ?st1 st'"
      by (rule semunrm_ok)
    then show ?thesis using 2 set sem_step_ok_trans [OF b] by (simp add: semctl_setval_def Let_def)
  qed (use 2 same_tables_ok [OF same_tables_upd(1) inv] in \<open>simp_all add: semctl_setval_def\<close>)
qed

lemma semctl_setall_ok:
  assumes inv: "sem_inv si st" and um: "um_ok um"
  shows "\<exists>st'. semctl_setall si u um semid arg i st = Some st' \<and> sem_step_ok si st st'"
proof (cases rule: ipcaccess_tables [of u "sem_perm (sema st i)" SEM_A st])
  case 1
  then show ?thesis using same_tables_ok [OF _ inv, of "set_error EACCES st"] by (simp add: semctl_setall_def)
next
  case 2
  show ?thesis
  proof (cases "um_vals um arg (nat (sem_nsems (sema st i)))")
    case None
    then show ?thesis using 2 same_tables_ok [OF same_tables_upd(1) inv] by (simp add: semctl_setall_def)
  next
    case (Some vs)
    show ?thesis
    proof (cases "\<exists>v \<in> set vs. semvmx si < v")
      case True
      then show ?thesis using 2 Some same_tables_ok [OF same_tables_upd(1) inv] by (simp add: semctl_setall_def)
    next
      case False
      obtain st1 where st1: "semunrm si semid 0 (sem_nsems (sema st i)) st = Some st1" "sem_step_ok si st st1"
        using inv by (rule semunrm_ok)
      have "\<forall>v \<in> set vs. 0 \<le> v \<and> v \<le> semvmx si" using um Some False unfolding um_ok_def by fastforce
      moreover have "sem_inv si st1" using st1(2) by (simp add: sem_step_ok_def)
      ultimately have "sem_step_ok si st1 (semctl_assign (u_pid u) (sem_base (sema st1 i)) vs st1)"
        using semctl_assign_ok by blast
      then show ?thesis using 2 Some False st1 sem_step_ok_trans [OF st1(2)] by (simp add: semctl_setall_def)
    qed
  qed
qed

lemma semctl_ok:
  assumes inv: "sem_inv si st" and si: "si_ok si" and um: "um_ok um"
  shows "\<exists>st'. semctl si u time um semid n cmd arg st = Some st' \<and> sem_step_ok si st st'"
proof (cases si semid st rule: semconv_cases)
  case 1
  then show ?thesis using same_tables_ok [OF same_tables_upd(1) inv] by (simp add: semctl_def)
next
  case (2 i)
  have i: "i < semmni si" using semconv_slot [OF _ 2(1)] si by (simp add: si_ok_def)
  let ?st0 = "st\<lparr>u_rval1 := 0\<rparr>"
  have s0: "sem_step_ok si st ?st0" "sem_inv si ?st0"
    using same_tables_ok [OF same_tables_upd(2) inv, of 0] by (auto simp: sem_step_ok_def)
  have l: "set_live ?st0 i" using 2(2) by simp
  have rm: "\<exists>st'. semctl_rmid si u semid i ?st0 = Some st' \<and> sem_step_ok si ?st0 st'"
    using semctl_rmid_ok [OF s0(2) si i l] by blast
  note parts = rm semctl_set_ok [OF s0(2) l] semctl_read_ok [OF s0(2)] semctl_setval_ok [OF s0(2) si]
    semctl_setall_ok [OF s0(2) um] same_tables_ok [OF same_tables_upd(1) s0(2)]
  have "\<exists>st'. semctl si u time um semid n cmd arg st = Some st' \<and> sem_step_ok si ?st0 st'"
    by (simp add: semctl_def Let_def 2(1) parts split: if_split)
  then show ?thesis using sem_step_ok_trans [OF s0(1)] by blast
qed

section \<open>Creating sets\<close>

definition sem_ident :: "seminfo \<Rightarrow> semst \<Rightarrow> nat \<Rightarrow> int" where
  "sem_ident si st i = uint (ip_seq (sem_perm (sema st i))) * int (semmni si) + int i"

lemma semconv_iff:
  assumes "0 < semmni si"
  shows "fst (semconv si s st) = Some i \<longleftrightarrow> i < semmni si \<and> set_live st i \<and> sem_ident si st i = s"
proof
  assume a: "fst (semconv si s st) = Some i"
  then have b: "0 \<le> s" "i = nat (s mod int (semmni si))" "set_live st i"
    "s div int (semmni si) = uint (ip_seq (sem_perm (sema st i)))"
    by (auto simp: semconv_def Let_def split: if_splits)
  moreover have "i < semmni si" using b(2) assms by (simp add: nat_less_iff)
  moreover have "sem_ident si st i = s"
    using b assms div_mult_mod_eq [of s "int (semmni si)"] by (simp add: sem_ident_def)
  ultimately show "i < semmni si \<and> set_live st i \<and> sem_ident si st i = s" by simp
next
  assume a: "i < semmni si \<and> set_live st i \<and> sem_ident si st i = s"
  then have s: "s = uint (ip_seq (sem_perm (sema st i))) * int (semmni si) + int i" by (simp add: sem_ident_def)
  have "s mod int (semmni si) = int i" "s div int (semmni si) = uint (ip_seq (sem_perm (sema st i)))" "0 \<le> s"
    unfolding s using a by simp_all
  then show "fst (semconv si s st) = Some i" using a by (simp add: semconv_def Let_def)
qed

interpretation sem_ids: ipc_ids "\<lambda>st s. fst (semconv si s st)" set_live "sem_ident si" "int (semmni si)" for si
proof unfold_locales
  fix st s i assume "0 < int (semmni si)"
  then show "(fst (semconv si s st) = Some i) = (int i < int (semmni si) \<and> set_live st i \<and> sem_ident si st i = s)"
    using semconv_iff [of si s st i] by simp
next
  fix st t i j
  assume a: "int i < int (semmni si)" "int j < int (semmni si)" "sem_ident si st i = sem_ident si t j"
  have m: "sem_ident si s k mod int (semmni si) = int k" if "int k < int (semmni si)" for s k
    using that by (simp add: sem_ident_def)
  show "i = j" using m [OF a(1), of st] m [OF a(2), of t] a(3) by simp
qed

lemma sem_ident_bound: "si_ok si \<Longrightarrow> i < semmni si \<Longrightarrow> 0 \<le> sem_ident si st i \<and> sem_ident si st i < 2147483648"
proof -
  assume si: "si_ok si" and i: "i < semmni si"
  have "uint (ip_seq (sem_perm (sema st i))) \<le> 65535"
    using uint_lt2p [of "ip_seq (sem_perm (sema st i))"] by simp
  then have "uint (ip_seq (sem_perm (sema st i))) * int (semmni si) \<le> 65535 * int (semmni si)" by (rule mult_right_mono) simp
  moreover have "int (semmni si) \<le> 32767" "int i < int (semmni si)" using si i by (auto simp: si_ok_def)
  ultimately show ?thesis unfolding sem_ident_def by (intro conjI) (simp, linarith)
qed

text \<open>A slot that was and stays dead carries no obligation.\<close>

lemma sets_ok_dead:
  assumes "sets_ok si st" "\<And>j. j \<noteq> i \<Longrightarrow> sema st' j = sema st j" "\<not> set_live st' i" "\<not> set_live st i" "semmap st' = semmap st"
    "i < semmni si"
  shows "sets_ok si st'"
proof -
  have "rmap_ok (semmap st)" using assms(1) by (simp add: sets_ok_def)
  then show ?thesis by (intro sets_ok_kill [OF assms(1,2,3) _ _ assms(6)]) (simp_all add: assms(5))
qed

definition semget_frame :: "nat \<Rightarrow> semst \<Rightarrow> semst \<Rightarrow> bool" where
  "semget_frame i st st' \<longleftrightarrow> sems st' = sems st \<and> sem_wakes st' = sem_wakes st \<and> sem_undo st' = sem_undo st \<and>
     semu st' = semu st \<and> semunp st' = semunp st \<and> semfup st' = semfup st \<and> (\<forall>j. j \<noteq> i \<longrightarrow> sema st' j = sema st j)"

lemma semget_frame_ok:
  assumes "semget_frame i st st'" "sem_inv si st" "sets_ok si st'"
  shows "sem_step_ok si st st'"
  using assms undo_rep_cong(3) [of st' st si]
  by (auto simp: semget_frame_def sem_step_ok_def sem_inv_def sem_range_def alert_def woke_def)

lemma semget_ok:
  assumes inv: "sem_inv si st" and si: "si_ok si" and err: "u_error st = None"
  shows "\<exists>st'. semget si u time key nsems flg st = Some st' \<and> sem_step_ok si st st' \<and>
     (u_error st' = None \<longrightarrow> (\<exists>i. i < semmni si \<and> u_rval1 st' = sem_ident si st' i \<and> set_live st' i \<and>
        ip_key (sem_perm (sema st' i)) = key \<and> nsems \<le> sem_nsems (sema st' i) \<and>
        (\<not> set_live st i \<or> sema st' i = sema st i) \<and> (\<forall>j. j \<noteq> i \<longrightarrow> sema st' j = sema st j)))"
proof (cases "ipcget u key flg (sem_perm \<circ> sema st) (semmni si)")
  case (Inl e)
  then show ?thesis using same_tables_ok [OF same_tables_upd(1) inv] by (simp add: semget_def)
next
  case (Inr r)
  obtain i new perm where r: "r = (i, new, perm)" by (cases r) auto
  have slot: "i < semmni si" "if new then \<not> set_live st i \<and> perm = ipc_init u key flg (sem_perm (sema st i))
      else set_live st i \<and> perm = sem_perm (sema st i)"
    using ipcget_slot [OF Inr [unfolded r]] by auto
  have pk: "ip_key perm = key" "ipc_live perm"
    using ipcget_live_key [OF Inr [unfolded r]] by auto
  let ?st1 = "upd_sema i (\<lambda>sp. sp\<lparr>sem_perm := perm\<rparr>) st"
  have int_id: "int32 (sem_ident si t i) = sem_ident si t i" for t
    using sem_ident_bound [OF si slot(1), of t] by (intro int32_id) auto
  have sets: "sets_ok si st" using inv by (simp add: sem_inv_def)
  show ?thesis
  proof (cases new)
    case False
    then have id1: "?st1 = st" using slot(2) by (simp add: fun_upd_idem)
    show ?thesis
    proof (cases "nsems \<noteq> 0 \<and> sem_nsems (sema st i) < nsems")
      case True
      then have "semget si u time key nsems flg st = Some (set_error EINVAL st)"
        using Inr r False id1 by (simp add: semget_def Let_def)
      then show ?thesis using same_tables_ok [OF same_tables_upd(1) inv] by simp
    next
      case le: False
      let ?st' = "st\<lparr>u_rval1 := sem_ident si st i\<rparr>"
      have "semget si u time key nsems flg st = Some ?st'"
        using Inr r False le id1 int_id [of st] by (auto simp: semget_def Let_def sem_ident_def)
      moreover have "0 < sem_nsems (sema st i)" using sets slot False by (auto simp: sets_ok_def)
      ultimately show ?thesis
        using same_tables_ok [OF same_tables_upd(2) inv] slot False le pk
        by (intro exI [of _ ?st']) (auto simp: sem_ident_def)
    qed
  next
    case True
    have dead: "\<not> set_live st i" using slot(2) True by simp
    have failed: ?thesis if st': "semget si u time key nsems flg st = Some st'" "semget_frame i st st'" "\<not> set_live st' i"
      "semmap st' = semmap st" "u_error st' \<noteq> None" for st'
    proof -
      have "sets_ok si st'" using that slot(1) dead by (intro sets_ok_dead [OF sets]) (auto simp: semget_frame_def)
      then show ?thesis using that semget_frame_ok [OF that(2) inv] by (intro exI [of _ st']) auto
    qed
    show ?thesis
    proof (cases "nsems \<le> 0 \<or> semmsl si < nsems")
      case True
      then show ?thesis using Inr r \<open>new\<close>
        by (intro failed [of "upd_sema i (\<lambda>sp. sp\<lparr>sem_perm := (sem_perm sp)\<lparr>ip_mode := 0\<rparr>\<rparr>) (set_error EINVAL ?st1)"])
          (simp_all add: semget_def Let_def semget_frame_def)
    next
      case False
      then have ns: "0 < nsems" "nsems < 65536" using si by (auto simp: si_ok_def)
      let ?n = "word_of_int nsems :: u32"
      have n: "unat ?n = nat nsems" using ns by (intro unat_word_int) auto
      then have n0: "?n \<noteq> 0" using ns by auto
      have map: "rmap_ok (semmap st)" using sets by (simp add: sets_ok_def)
      from malloc_contract [OF map n0] obtain a mp where m: "malloc (semmap st) ?n = Some (a, mp)" "rmap_ok mp"
        "if a = 0 then mp = semmap st \<and> (\<forall>e \<in> set (mapent (semmap st)). m_size e < ?n)
          else block a ?n \<subseteq> free_units (semmap st) \<and> free_units mp = free_units (semmap st) - block a ?n" by blast
      show ?thesis
      proof (cases "a = 0")
        case True
        then show ?thesis using Inr r \<open>new\<close> False m
          by (intro failed [of "upd_sema i (\<lambda>sp. sp\<lparr>sem_perm := (sem_perm sp)\<lparr>ip_mode := 0\<rparr>\<rparr>) (set_error ENOSPC (?st1\<lparr>semmap := mp\<rparr>))"])
            (simp_all add: semget_def Let_def semget_frame_def)
      next
        case a0: False
        let ?sp = "(sema st i)\<lparr>sem_perm := perm, sem_base := unat (a - 1), sem_nsems := nsems, sem_ctime := time, sem_otime := 0\<rparr>"
        let ?st' = "(st\<lparr>sema := (sema st)(i := ?sp), semmap := mp\<rparr>)"
        let ?st'' = "?st'\<lparr>u_rval1 := sem_ident si ?st' i\<rparr>"
        have "uint16 nsems = nsems" using ns by (intro uint16_id) auto
        then have get: "semget si u time key nsems flg st = Some ?st''"
          using Inr r \<open>new\<close> False m a0 int_id [of ?st'] by (simp add: semget_def Let_def sem_ident_def)
        have "1 \<le> a" using a0 by (simp add: word_le_unat unat_eq_zero Suc_leI flip: unat_pos_iff)
        then have a1: "Suc (unat (a - 1)) = unat a" using a0 by (simp add: unat_minus_exact unat_eq_zero Suc_leI flip: unat_pos_iff)
        have blk: "block a ?n = set_units ?sp" unfolding block_def set_units_def using a1 n by simp
        have bound: "unat a + unat ?n < 2 ^ 32" using rm.alloc_bound [OF map n0 m(1) a0] .
        have f: "semget_frame i st ?st''" by (simp add: semget_frame_def)
        have "sets_ok si ?st''"
          by (rule sets_ok_birth [OF sets _ slot(1)]) (use m a0 blk bound a1 n ns in simp_all)
        then have "sem_step_ok si st ?st''" using semget_frame_ok [OF f inv] by blast
        then show ?thesis
          using get slot(1) dead pk by (intro exI [of _ ?st'']) (auto simp: sem_ident_def)
      qed
    qed
  qed
qed

section \<open>Exit\<close>

definition exit_adj :: "nat \<Rightarrow> int \<Rightarrow> semst \<Rightarrow> semst" where
  "exit_adj k a st =
     (let v = semvals st k + a;
          st1 = upd_sem k (\<lambda>p. p\<lparr>semval := uint16 v\<rparr>) st;
          st2 = (if v = 0 then sem_wake_z k st1 else st1)
      in if 0 < a then sem_wake_n k st2 else st2)"

lemma semexit_one_cases:
  assumes "0 < semmni si"
  obtains "semexit_one si e st = set_error EINVAL st" | "semexit_one si e st = st"
    | i where "i < semmni si" "set_live st i" "fst (semconv si (un_id e) st) = Some i"
        "0 \<le> semvals st (sem_base (sema st i) + nat (un_num e)) + un_aoe e"
        "semvals st (sem_base (sema st i) + nat (un_num e)) + un_aoe e \<le> semvmx si"
        "semexit_one si e st = exit_adj (sem_base (sema st i) + nat (un_num e)) (un_aoe e) st"
proof (cases si "un_id e" st rule: semconv_cases)
  case 1
  then show thesis using that(1) by (simp add: semexit_one_def)
next
  case (2 i)
  have i: "i < semmni si" using semconv_slot [OF assms 2(1)] by simp
  let ?v = "semvals st (sem_base (sema st i) + nat (un_num e)) + un_aoe e"
  show thesis
  proof (cases "?v < 0 \<or> semvmx si < ?v")
    case True
    then show thesis using that(2) 2 by (simp add: semexit_one_def)
  next
    case False
    then show thesis using 2 i
      by (intro that(3) [of i]) (simp_all add: semexit_one_def exit_adj_def Let_def)
  qed
qed

lemma exit_adj_ok:
  assumes inv: "sem_inv si st" and si: "si_ok si" and v: "0 \<le> semvals st k + a" "semvals st k + a \<le> semvmx si"
  shows "sem_step_ok si st (exit_adj k a st)" "semvals (exit_adj k a st) = (semvals st)(k := semvals st k + a)"
    "sem_undo (exit_adj k a st) = sem_undo st" "semu (exit_adj k a st) = semu st" "sema (exit_adj k a st) = sema st"
proof -
  let ?st' = "exit_adj k a st"
  have u: "uint16 (semvals st k + a) = semvals st k + a" using v si by (intro uint16_id) (auto simp: si_ok_def)
  then show val: "semvals ?st' = (semvals st)(k := semvals st k + a)"
    by (auto simp: exit_adj_def Let_def fun_eq_iff)
  show same: "sem_undo ?st' = sem_undo st" "semu ?st' = semu st" "sema ?st' = sema st"
    by (simp_all add: exit_adj_def Let_def)
  have m: "semmap ?st' = semmap st" "semunp ?st' = semunp st" "semfup ?st' = semfup st"
    by (simp_all add: exit_adj_def Let_def sem_wake_n_def sem_wake_z_def)
  have "sem_range si ?st'" using inv v fun_cong [OF val] by (auto simp: sem_inv_def sem_range_def)
  then have "sem_inv si ?st'" using same m by (intro sems_frame_inv [OF _ _ _ _ _ _ inv])
  moreover have "woke st ?st'" unfolding exit_adj_def Let_def by (auto intro!: woke_then woke_val)
  then have "alert st ?st'" unfolding alert_def using u by (auto simp: exit_adj_def Let_def)
  ultimately show "sem_step_ok si st ?st'" by (simp add: sem_step_ok_def)
qed

lemma semexit_one_ok:
  assumes inv: "sem_inv si st" and si: "si_ok si"
  shows "sem_step_ok si st (semexit_one si e st) \<and> sem_undo (semexit_one si e st) = sem_undo st \<and>
     semu (semexit_one si e st) = semu st"
proof -
  have "0 < semmni si" using si by (simp add: si_ok_def)
  then show ?thesis
  proof (cases rule: semexit_one_cases [where st = st and e = e])
    case 1
    then show ?thesis using same_tables_ok [OF same_tables_upd(1) inv] by simp
  next
    case 2
    then show ?thesis using same_tables_ok [OF same_tables_refl inv] by simp
  next
    case (3 i)
    then show ?thesis using exit_adj_ok [OF inv si] by simp
  qed
qed

lemma semexit_fold_ok:
  "sem_inv si st \<Longrightarrow> si_ok si \<Longrightarrow> sem_step_ok si st (fold (semexit_one si) es st) \<and>
     sem_undo (fold (semexit_one si) es st) = sem_undo st \<and> semu (fold (semexit_one si) es st) = semu st"
proof (induction es arbitrary: st)
  case Nil
  then show ?case using same_tables_ok [OF same_tables_refl] by simp
next
  case (Cons e es)
  note one = semexit_one_ok [OF Cons.prems, of e]
  have inv: "sem_inv si (semexit_one si e st)" using one by (simp add: sem_step_ok_def)
  note ih = Cons.IH [OF inv Cons.prems(2)]
  show ?case using one ih sem_step_ok_trans by (simp only: fold_simps) metis
qed

text \<open>The undo structure goes back to the free chain.\<close>

lemma undo_rep_free:
  assumes rep: "undo_rep si st us fs" and up: "sem_undo st p = Some up" "un_ent (semu st up) = []"
  defines "st' \<equiv> ((upd_semu up (\<lambda>x. x\<lparr>un_np := semfup st\<rparr>) st)\<lparr>semfup := Some up\<rparr>)\<lparr>sem_undo := (sem_undo st)(p := None)\<rparr>"
  shows "undo_rep si st' us (up # fs)" "pents st' = (pents st)(p := [])"
proof -
  have nx: "unps st' = (unps st)(up := semfup st)" by (simp add: st'_def fun_upd_comp)
  have n: "up \<notin> set us" "up \<notin> set fs" "up < semmnu si" using rep up by (auto simp: undo_rep_def)
  have l: "linked (unps st') (semunp st') us" "linked (unps st') (semfup st') (up # fs)"
    using rep n unfolding nx by (auto simp: undo_rep_def st'_def)
  have ent: "un_ent (semu st' a) = un_ent (semu st a)" for a by (simp add: st'_def)
  have own: "sem_undo st' q = Some a \<longleftrightarrow> sem_undo st q = Some a \<and> q \<noteq> p" for q a by (simp add: st'_def)
  have inj: "sem_undo st q = Some up \<Longrightarrow> q = p" for q using rep up by (auto simp: undo_rep_def)
  have "\<exists>q. sem_undo st' q = Some a" if act: "a \<in> set us" for a
  proof -
    obtain q where q: "sem_undo st q = Some a" using undo_rep_owner [OF rep undo_rep_active [OF rep act]] ..
    moreover have "q \<noteq> p" using q up n act by auto
    ultimately have "sem_undo st' q = Some a" using own by simp
    then show ?thesis ..
  qed
  moreover have "sem_undo st' q = Some a \<Longrightarrow> a < semmnu si \<and> a \<notin> set (up # fs)" for q a
    using rep own inj [of q] by (auto simp: undo_rep_def)
  moreover have "sem_undo st' q = Some a \<Longrightarrow> sem_undo st' r = Some a \<Longrightarrow> q = r" for q r a
    using rep own by (auto simp: undo_rep_def)
  ultimately show "undo_rep si st' us (up # fs)"
    using rep l n unfolding undo_rep_def ent by auto
  show "pents st' = (pents st)(p := [])"
    by (auto simp: pents_def fun_eq_iff st'_def split: option.splits)
qed

lemma semexit_ok:
  assumes inv: "sem_inv si st" and si: "si_ok si"
  shows "\<exists>st'. semexit si u st = Some st' \<and> sem_step_ok si st st' \<and> sem_undo st' (u_proc u) = None \<and>
     (\<forall>q. q \<noteq> u_proc u \<longrightarrow> pents st' q = pents st q) \<and>
     semvals st' = semvals (fold (semexit_one si) (rev (pents st (u_proc u))) st)"
proof (cases "sem_undo st (u_proc u)")
  case None
  then show ?thesis using same_tables_ok [OF same_tables_refl inv] by (simp add: semexit_def pents_def)
next
  case (Some up)
  let ?p = "u_proc u"
  have pe: "pents st ?p = un_ent (semu st up)" using Some by (simp add: pents_def)
  define fin where "fin = (\<lambda>t. ((upd_semu up (\<lambda>x. x\<lparr>un_np := semfup t\<rparr>) t)\<lparr>semfup := Some up\<rparr>)\<lparr>sem_undo := (sem_undo t)(?p := None)\<rparr>)"
  have fin: "sem_step_ok si t (fin t) \<and> sem_undo (fin t) ?p = None \<and> pents (fin t) = (pents t)(?p := []) \<and> sems (fin t) = sems t"
    if t: "sem_inv si t" "sem_undo t ?p = Some up" "un_ent (semu t up) = []" for t
  proof -
    obtain us fs where rep: "undo_rep si t us fs" using t(1) by (auto simp: sem_inv_def undo_wf_def)
    note f = undo_rep_free [OF rep t(2,3)]
    have f1: "undo_wf si (fin t)" "pents (fin t) = (pents t)(?p := [])"
      using f unfolding undo_wf_def fin_def by auto
    have e: "undo_frame t (fin t)" by (simp add: fin_def undo_frame_def)
    have "sem_inv si (fin t)" using undo_frame_inv [OF e f1(1) t(1)] .
    then show ?thesis using f1 undo_frame_alert [OF e] by (simp add: sem_step_ok_def) (simp add: fin_def)
  qed
  show ?thesis
  proof (cases "un_ent (semu st up) = []")
    case True
    then have "semexit si u st = Some (fin st)" using Some by (simp add: semexit_def fin_def Let_def)
    then show ?thesis using fin [OF inv Some True] pe True by (intro exI [of _ "fin st"]) simp
  next
    case False
    define st1 where "st1 = fold (semexit_one si) (rev (un_ent (semu st up))) st"
    have s1: "sem_step_ok si st st1" "sem_undo st1 = sem_undo st" "semu st1 = semu st"
      using semexit_fold_ok [OF inv si] unfolding st1_def by blast+
    have inv1: "sem_inv si st1" using s1(1) by (simp add: sem_step_ok_def)
    obtain us fs where rep: "undo_rep si st1 us fs" using inv1 by (auto simp: sem_inv_def undo_wf_def)
    have l: "linked (unps st1) (semunp st1) us" "linked (unps st1) (semfup st1) fs" "set us \<inter> set fs = {}"
      using rep by (simp_all add: undo_rep_def)
    have m: "up \<in> set us" using rep False s1(3) by (simp add: undo_rep_def)
    let ?st1 = "upd_semu up (\<lambda>x. x\<lparr>un_ent := []\<rparr>) st1"
    have nx: "unps ?st1 = unps st1" by auto
    have l2: "linked (unps ?st1) (semunp ?st1) us" "linked (unps ?st1) (semfup ?st1) fs"
      using l unfolding nx by simp_all
    have "\<exists>t. sem_unlink (semmnu si) up ?st1 = Some t \<and> undo_frame ?st1 t \<and> u_error t = u_error ?st1 \<and>
           linked (unps t) (semunp t) (remove1 up us) \<and> linked (unps t) (semfup t) fs \<and>
           un_ent \<circ> semu t = un_ent \<circ> semu ?st1 \<and> sem_undo t = sem_undo ?st1 \<and> semfup t = semfup ?st1"
      by (rule sem_unlink_rep [OF l2(1) undo_rep_length [OF rep] m l2(2) l(3)])
    then obtain t where t: "sem_unlink (semmnu si) up ?st1 = Some t" "undo_frame ?st1 t"
      "linked (unps t) (semunp t) (remove1 up us)" "linked (unps t) (semfup t) fs"
      "un_ent \<circ> semu t = un_ent \<circ> semu ?st1" "sem_undo t = sem_undo st1" by auto
    have ent: "un_ent (semu t a) = (if a = up then [] else un_ent (semu st1 a))" for a
      using fun_cong [OF t(5), of a] by (cases "a = up") auto
    have dist: "distinct us" using l(1) by (rule linked_distinct)
    have "undo_rep si t (remove1 up us) fs"
      using rep dist t unfolding undo_rep_def ent by (auto simp: ents_ok_def dest: in_set_remove1 [THEN iffD1])
    then have wf: "undo_wf si t" by (auto simp: undo_wf_def)
    have fr: "undo_frame st1 t" using t(2) by (simp add: undo_frame_def)
    have invt: "sem_inv si t" using undo_frame_inv [OF fr wf inv1] .
    have st: "sem_step_ok si st1 t" using invt undo_frame_alert [OF fr] by (simp add: sem_step_ok_def)
    have call: "semexit si u st = Some (fin t)"
      using Some False t(1) unfolding semexit_def st1_def fin_def by (simp add: Let_def)
    have "sem_undo t ?p = Some up" "un_ent (semu t up) = []" using t(6) s1(2) Some ent [of up] by auto
    note f = fin [OF invt this]
    have "pents t q = pents st q" if "q \<noteq> ?p" for q
    proof -
      have "sem_undo st q \<noteq> Some up" using that Some inv by (auto simp: sem_inv_def undo_wf_def undo_rep_def)
      then show ?thesis unfolding pents_def t(6) s1(2) using ent s1(3) by (auto split: option.splits)
    qed
    then show ?thesis
      using call f pe undo_frame_sel(1) [OF fr] sem_step_ok_trans [OF sem_step_ok_trans [OF s1(1) st]]
      by (intro exI [of _ "fin t"]) (simp add: st1_def)
  qed
qed

section \<open>Whole calls of \<open>semop\<close>\<close>

definition try_res :: "seminfo \<Rightarrow> uarea \<Rightarrow> int \<Rightarrow> nat \<Rightarrow> sembuf list \<Rightarrow> semst \<Rightarrow> semop_out \<Rightarrow> semst \<Rightarrow> bool" where
  "try_res si u semid b ops st out st' \<longleftrightarrow> (case out of
     SemDone \<Rightarrow> sem_step_ok si st st' \<and> u_error st' = u_error st \<and>
       (\<forall>k. semvals st' k = semvals st k + op_sum b k ops) \<and>
       (\<forall>q. q \<noteq> u_proc u \<longrightarrow> pents st' q = pents st q) \<and>
       (\<forall>j n. ents_adj (pents st' (u_proc u)) j n =
          ents_adj (pents st (u_proc u)) j n - (if j = semid then undo_sum n ops else 0))
   | SemFail \<Rightarrow> sem_step_ok si st st' \<and> semvals st' = semvals st \<and> pents st' = pents st \<and> u_error st' \<noteq> None
   | SemSleep ch \<Rightarrow>
       (\<exists>st0. sem_step_ok si st st0 \<and> semvals st0 = semvals st \<and> pents st0 = pents st \<and>
          u_error st0 = u_error st \<and> st' = sem_bump ch st0) \<and> blocked_at b (semvals st) ops ch)"

lemma cnt_frame_sets: "cnt_frame st st' \<Longrightarrow> sets_ok si st' = sets_ok si st"
  by (simp add: cnt_frame_def sets_ok_def)

lemma woke_same_alert: "woke st st' \<Longrightarrow> semvals st' = semvals st \<Longrightarrow> alert st st'"
  unfolding alert_def by (metis order_refl)

lemma semop_finish_sel:
  "semvals (semop_finish u t i ops st) = semvals st" "sem_undo (semop_finish u t i ops st) = sem_undo st"
  "semu (semop_finish u t i ops st) = semu st" "semunp (semop_finish u t i ops st) = semunp st"
  "semfup (semop_finish u t i ops st) = semfup st" "semmap (semop_finish u t i ops st) = semmap st"
  "sem_wakes (semop_finish u t i ops st) = sem_wakes st" "u_error (semop_finish u t i ops st) = u_error st"
  "semncnt (sems (semop_finish u t i ops st) k) = semncnt (sems st k)"
  "semzcnt (sems (semop_finish u t i ops st) k) = semzcnt (sems st k)"
  "set_live (semop_finish u t i ops st) j = set_live st j" "sem_base (sema (semop_finish u t i ops st) j) = sem_base (sema st j)"
  "sem_nsems (sema (semop_finish u t i ops st) j) = sem_nsems (sema st j)"
proof -
  let ?f = "\<lambda>op st. upd_sem (sem_base (sema st i) + nat (sem_num op)) (\<lambda>p. p\<lparr>sempid := u_pid u\<rparr>) st"
  have "semvals (fold ?f ops st) = semvals st \<and> sem_undo (fold ?f ops st) = sem_undo st \<and> semu (fold ?f ops st) = semu st \<and>
    semunp (fold ?f ops st) = semunp st \<and> semfup (fold ?f ops st) = semfup st \<and> semmap (fold ?f ops st) = semmap st \<and>
    sem_wakes (fold ?f ops st) = sem_wakes st \<and> u_error (fold ?f ops st) = u_error st \<and> sema (fold ?f ops st) = sema st \<and>
    (\<forall>k. semncnt (sems (fold ?f ops st) k) = semncnt (sems st k) \<and> semzcnt (sems (fold ?f ops st) k) = semzcnt (sems st k))"
    by (induction ops arbitrary: st) (auto simp: fun_eq_iff)
  then show "semvals (semop_finish u t i ops st) = semvals st" "sem_undo (semop_finish u t i ops st) = sem_undo st"
    "semu (semop_finish u t i ops st) = semu st" "semunp (semop_finish u t i ops st) = semunp st"
    "semfup (semop_finish u t i ops st) = semfup st" "semmap (semop_finish u t i ops st) = semmap st"
    "sem_wakes (semop_finish u t i ops st) = sem_wakes st" "u_error (semop_finish u t i ops st) = u_error st"
    "semncnt (sems (semop_finish u t i ops st) k) = semncnt (sems st k)"
    "semzcnt (sems (semop_finish u t i ops st) k) = semzcnt (sems st k)"
    "set_live (semop_finish u t i ops st) j = set_live st j" "sem_base (sema (semop_finish u t i ops st) j) = sem_base (sema st j)"
    "sem_nsems (sema (semop_finish u t i ops st) j) = sem_nsems (sema st j)"
    by (simp_all add: semop_finish_def Let_def)
qed

lemma semop_finish_ok:
  assumes inv: "sem_inv si st"
  shows "sem_step_ok si st (semop_finish u t i ops st)"
proof -
  let ?st' = "semop_finish u t i ops st"
  have "undo_wf si ?st'"
    using inv undo_rep_cong(3) [of ?st' st si] by (simp add: semop_finish_sel sem_inv_def)
  moreover have "set_units (sema ?st' j) = set_units (sema st j)" for j by (simp only: set_units_def semop_finish_sel)
  then have "sets_ok si ?st'" using inv unfolding sem_inv_def sets_ok_def semop_finish_sel by blast
  moreover have "sem_range si ?st'" using inv unfolding sem_inv_def sem_range_def fun_cong [OF semop_finish_sel(1)] by blast
  moreover have "woke st ?st'" unfolding woke_def by (intro exI [of _ "[]"]) (simp add: semop_finish_sel)
  then have "alert st ?st'" using woke_same_alert semop_finish_sel(1) by blast
  ultimately show ?thesis by (simp add: sem_step_ok_def sem_inv_def)
qed

lemma semop_try_spec:
  assumes inv: "sem_inv si st" and si: "si_ok si"
  shows "\<exists>out st'. semop_try si u time semid i ops st = Some (out, st') \<and>
     try_res si u semid (sem_base (sema st i)) ops st out st'"
proof -
  have wf: "undo_wf si st" "sem_range si st" "sets_ok si st" using inv by (auto simp: sem_inv_def)
  from semop_pass_spec [OF si wf(1,2) reversible_Nil, of u semid i ops] obtain out st1 where
    p: "semop_pass si u semid i [] ops st = Some (out, st1)"
    and r: "pass_res si u semid (sem_base (sema st i)) (semvals st) (pents st) ops st out st1" by blast
  have inv1: "sem_inv si t" if "cnt_frame st t" "undo_wf si t" "sem_range si t" for t
    using that cnt_frame_sets wf(3) by (simp add: sem_inv_def)
  have rng: "sem_range si t" if "semvals t = semvals st" for t
    using wf(2) fun_cong [OF that] by (simp add: sem_range_def)
  show ?thesis
  proof (cases out)
    case SemDone
    then have a: "alert st st1" "cnt_frame st st1" "sem_range si st1" "undo_wf si st1" using r by (auto simp: pass_res_def)
    then have s1: "sem_step_ok si st st1" using inv1 by (simp add: sem_step_ok_def)
    let ?st' = "semop_finish u time i ops st1"
    have "sem_step_ok si st ?st'"
      using s1 semop_finish_ok sem_step_ok_trans by (meson sem_step_ok_def)
    moreover have "semop_try si u time semid i ops st = Some (SemDone, ?st')"
      using p SemDone by (simp add: semop_try_def)
    moreover have "pents ?st' = pents st1" by (intro pents_eq) (simp_all add: semop_finish_sel)
    moreover have "semvals ?st' k = semvals st1 k" for k using fun_cong [OF semop_finish_sel(1)] .
    ultimately show ?thesis
      using r SemDone by (intro exI [of _ SemDone] exI [of _ ?st']) (simp add: pass_res_def try_res_def semop_finish_sel)
  next
    case SemFail
    then have a: "woke st st1" "cnt_frame st st1" "undo_wf si st1" "semvals st1 = semvals st" "pents st1 = pents st" "u_error st1 \<noteq> None"
      using r by (auto simp: pass_res_def)
    then have "sem_step_ok si st st1" using inv1 rng woke_same_alert by (simp add: sem_step_ok_def)
    then show ?thesis
      using a p SemFail by (intro exI [of _ SemFail] exI [of _ st1]) (simp add: semop_try_def try_res_def)
  next
    case (SemSleep ch)
    then obtain st0 where a: "woke st st0" "cnt_frame st st0" "undo_wf si st0" "semvals st0 = semvals st" "pents st0 = pents st"
      "u_error st0 = u_error st" "st1 = sem_bump ch st0" "blocked_at (sem_base (sema st i)) (semvals st) ops ch"
      using r by (auto simp: pass_res_def)
    then have "sem_step_ok si st st0" using inv1 rng woke_same_alert by (simp add: sem_step_ok_def)
    then show ?thesis
      using a p SemSleep by (intro exI [of _ out] exI [of _ st1]) (auto simp: semop_try_def try_res_def)
  qed
qed

text \<open>What every call guarantees, blocking or not.\<close>

definition call_ok :: "seminfo \<Rightarrow> semst \<Rightarrow> semop_out \<Rightarrow> semst \<Rightarrow> bool" where
  "call_ok si st out st' \<longleftrightarrow> (case out of
     SemSleep ch \<Rightarrow> \<exists>st0. sem_step_ok si st st0 \<and> semvals st0 = semvals st \<and> st' = sem_bump ch st0
   | _ \<Rightarrow> sem_step_ok si st st')"

lemma try_res_call: "try_res si u semid b ops st out st' \<Longrightarrow> call_ok si st out st'"
  by (cases out) (auto simp: try_res_def call_ok_def)

lemma call_ok_after: "same_tables st0 st1 \<Longrightarrow> sem_inv si st0 \<Longrightarrow> call_ok si st1 out st' \<Longrightarrow> call_ok si st0 out st'"
proof -
  assume a: "same_tables st0 st1" "sem_inv si st0" "call_ok si st1 out st'"
  then have s: "sem_step_ok si st0 st1" "semvals st1 = semvals st0" using same_tables_ok by (auto simp: same_tables_def)
  show ?thesis
    using a(3) s sem_step_ok_trans [OF s(1)] by (cases out) (auto simp: call_ok_def)
qed

lemma semop_verify_tables: "semop_verify u i ops st = (b, st') \<Longrightarrow> same_tables st st'"
proof (induction ops arbitrary: st)
  case (Cons op r)
  show ?case
    by (rule ipcaccess_tables [of u "sem_perm (sema st i)" "if sem_op op \<noteq> 0 then SEM_A else SEM_R" st])
      (use Cons in \<open>auto split: if_splits\<close>)
qed simp

lemma semop_ok:
  assumes inv: "sem_inv si st" and si: "si_ok si"
  shows "\<exists>out i st'. semop si u time um semid sops nsops st = Some (out, i, st') \<and> call_ok si st out st'"
proof -
  let ?st1 = "st\<lparr>sem_count := sem_count st + 1\<rparr>"
  have t1: "same_tables st ?st1" by simp
  have fail: "call_ok si st SemFail (set_error e t)" if "same_tables st t" for e t
    using same_tables_ok [OF same_tables_trans [OF that same_tables_upd(1)] inv] by (simp add: call_ok_def)
  have c1: "semconv si semid ?st1 = (None, set_error EINVAL ?st1) \<or> (\<exists>i. semconv si semid ?st1 = (Some i, ?st1))"
    by (cases si semid ?st1 rule: semconv_cases) auto
  show ?thesis
  proof (cases "\<exists>i. semconv si semid ?st1 = (Some i, ?st1)")
    case False
    then show ?thesis using c1 fail [OF t1] by (simp add: semop_def)
  next
    case True
    then obtain i where i: "semconv si semid ?st1 = (Some i, ?st1)" by blast
    show ?thesis
    proof (cases "semopm si < nsops \<or> um_ops um sops nsops = None")
      case True
      then show ?thesis using i fail [OF t1] by (auto simp: semop_def)
    next
      case False
      then obtain ops where ops: "um_ops um sops nsops = Some ops" "\<not> semopm si < nsops" by auto
      obtain b st2 where v: "semop_verify u i ops ?st1 = (b, st2)" by fastforce
      have t2: "same_tables st st2" using same_tables_trans [OF t1 semop_verify_tables [OF v]] .
      show ?thesis
      proof (cases b)
        case True
        then show ?thesis using i ops v same_tables_ok [OF t2 inv] by (simp add: semop_def call_ok_def)
      next
        case False
        have "sem_inv si st2" using same_tables_ok [OF t2 inv] by (simp add: sem_step_ok_def)
        from semop_try_spec [OF this si, of u time semid i ops] obtain out st' where
          "semop_try si u time semid i ops st2 = Some (out, st')" "call_ok si st2 out st'"
          using try_res_call by blast
        then show ?thesis using i ops v False call_ok_after [OF t2 inv] by (simp add: semop_def)
      qed
    qed
  qed
qed

lemma semop_again_ok:
  assumes inv: "sem_inv si st" and si: "si_ok si"
  shows "\<exists>out st'. semop_again si u time um semid sops nsops i st = Some (out, st') \<and> call_ok si st out st'"
proof (cases si semid st rule: semconv_cases)
  case 1
  have "same_tables st (set_error EIDRM (set_error EINVAL st))" by (simp add: same_tables_def)
  then show ?thesis using 1 same_tables_ok [OF _ inv] by (simp add: semop_again_def call_ok_def)
next
  case (2 j)
  show ?thesis
  proof (cases "um_ops um sops nsops")
    case None
    then show ?thesis using 2 same_tables_ok [OF same_tables_upd(1) inv] by (simp add: semop_again_def call_ok_def)
  next
    case (Some ops)
    then show ?thesis
      using 2 semop_try_spec [OF inv si, of u time semid i ops] try_res_call by (fastforce simp: semop_again_def)
  qed
qed

lemma semsys_ok:
  assumes inv: "sem_inv si st" and si: "si_ok si" and um: "um_ok um" and err: "u_error st = None"
  shows "\<exists>out i st'. semsys si u time um fid a st = Some (out, i, st') \<and> call_ok si st out st'"
proof -
  consider "2 < fid" | "fid = 0" | "fid = 1" | "fid = 2" by linarith
  then show ?thesis
  proof cases
    case 1
    then show ?thesis using same_tables_ok [OF same_tables_upd(1) inv] by (simp add: semsys_def call_ok_def)
  next
    case 2
    then show ?thesis
      using semctl_ok [OF inv si um, of u time "a 0" "nat (a 1 mod 4294967296)" "a 2" "a 3"]
      by (auto simp: semsys_def call_ok_def)
  next
    case 3
    then show ?thesis
      using semget_ok [OF inv si err, of u time "a 0" "a 1" "word_of_int (a 2)"] by (auto simp: semsys_def call_ok_def)
  next
    case 4
    then show ?thesis
      using semop_ok [OF inv si, of u time um "a 0" "a 1" "nat (a 2 mod 4294967296)"] by (simp add: semsys_def)
  qed
qed

end
