(* ===== verification/SemSys.thy ===== *)
theory SemSys
  imports SemCalls
begin

text \<open>
  The semaphore facility as a system of processes: calls, sleeping, waking, signals and exit as a step
  relation, its invariant, and the properties of the facility.
\<close>

section \<open>Processes and steps\<close>

text \<open>
  A process outside the facility is \<open>SpIdle\<close>; one asleep in \<open>semop\<close> keeps its arguments, its channel and,
  for the proofs only, the value of the semaphore when it went to sleep; a woken one has still to run.
\<close>

record sem_call =
  sc_semid :: int
  sc_sops :: int
  sc_nsops :: nat
  sc_slot :: nat

datatype sem_proc = SpIdle | SpAsleep sem_call semchan int | SpWoken sem_call semchan

record semsys_st =
  sst :: semst
  sprocs :: "nat \<Rightarrow> sem_proc"

fun chan_val :: "semst \<Rightarrow> semchan \<Rightarrow> int" where
  "chan_val st (NCnt k) = semvals st k"
| "chan_val st (ZCnt k) = semvals st k"

fun chan_cnt :: "semst \<Rightarrow> semchan \<Rightarrow> int" where
  "chan_cnt st (NCnt k) = semncnt (sems st k)"
| "chan_cnt st (ZCnt k) = semzcnt (sems st k)"

definition sem_wakeup :: "semchan list \<Rightarrow> (nat \<Rightarrow> sem_proc) \<Rightarrow> nat \<Rightarrow> sem_proc" where
  "sem_wakeup ws procs p = (case procs p of
     SpAsleep c ch v \<Rightarrow> if ch \<in> set ws then SpWoken c ch else procs p
   | _ \<Rightarrow> procs p)"

definition sem_after :: "sem_call \<Rightarrow> semop_out \<Rightarrow> semst \<Rightarrow> sem_proc" where
  "sem_after c out st = (case out of SemSleep ch \<Rightarrow> SpAsleep c ch (chan_val st ch) | _ \<Rightarrow> SpIdle)"

definition sem_entry :: "semst \<Rightarrow> semst" where
  "sem_entry st = st\<lparr>u_error := None, sem_wakes := []\<rparr>"

definition sem_next :: "semsys_st \<Rightarrow> nat \<Rightarrow> semst \<Rightarrow> sem_proc \<Rightarrow> semsys_st" where
  "sem_next s p st' pc = \<lparr>sst = st', sprocs = (sem_wakeup (sem_wakes st') (sprocs s))(p := pc)\<rparr>"

inductive sem_step :: "seminfo \<Rightarrow> nat \<Rightarrow> semsys_st \<Rightarrow> semsys_st \<Rightarrow> bool" for si n where
  sem_call: "p < n \<Longrightarrow> sprocs s p = SpIdle \<Longrightarrow> u_proc u = p \<Longrightarrow> um_ok um \<Longrightarrow>
    semsys si u time um fid a (sem_entry (sst s)) = Some (out, i, st') \<Longrightarrow>
    c = \<lparr>sc_semid = a 0, sc_sops = a 1, sc_nsops = nat (a 2 mod 4294967296), sc_slot = i\<rparr> \<Longrightarrow>
    sem_step si n s (sem_next s p st' (sem_after c out st'))"
| sem_resume: "p < n \<Longrightarrow> sprocs s p = SpWoken c ch \<Longrightarrow> u_proc u = p \<Longrightarrow>
    semop_again si u time um (sc_semid c) (sc_sops c) (sc_nsops c) (sc_slot c) (sem_entry (sst s)) = Some (out, st') \<Longrightarrow>
    sem_step si n s (sem_next s p st' (sem_after c out st'))"
| sem_signal: "p < n \<Longrightarrow> sprocs s p = SpAsleep c ch v \<or> sprocs s p = SpWoken c ch \<Longrightarrow>
    st' = semop_intr ch (sem_entry (sst s)) \<Longrightarrow>
    sem_step si n s (sem_next s p st' SpIdle)"
| sem_exit: "p < n \<Longrightarrow> sprocs s p = SpIdle \<Longrightarrow> u_proc u = p \<Longrightarrow>
    semexit si u (sem_entry (sst s)) = Some st' \<Longrightarrow>
    sem_step si n s (sem_next s p st' SpIdle)"

section \<open>The invariant of the system\<close>

text \<open>
  A sleeper waiting for a greater value is counted and the value has not risen since it went to sleep;
  one waiting for zero is counted and, if the value was not zero then, it has not become zero.
\<close>

definition sleeper_ok :: "semst \<Rightarrow> semchan \<Rightarrow> int \<Rightarrow> bool" where
  "sleeper_ok st ch v \<longleftrightarrow> 0 < chan_cnt st ch \<and>
     (case ch of NCnt k \<Rightarrow> semvals st k \<le> v | ZCnt k \<Rightarrow> v \<noteq> 0 \<longrightarrow> semvals st k \<noteq> 0)"

definition asleep_on :: "nat \<Rightarrow> (nat \<Rightarrow> sem_proc) \<Rightarrow> semchan \<Rightarrow> nat set" where
  "asleep_on n procs ch = {p. p < n \<and> (\<exists>c v. procs p = SpAsleep c ch v)}"

definition sys_ok :: "seminfo \<Rightarrow> nat \<Rightarrow> semsys_st \<Rightarrow> bool" where
  "sys_ok si n s \<longleftrightarrow> sem_inv si (sst s) \<and>
     (\<forall>ch. 0 \<le> chan_cnt (sst s) ch \<and> chan_cnt (sst s) ch \<le> int (card (asleep_on n (sprocs s) ch))) \<and>
     (\<forall>p c ch v. sprocs s p = SpAsleep c ch v \<longrightarrow> p < n \<and> sleeper_ok (sst s) ch v)"

lemma asleep_on_finite [simp]: "finite (asleep_on n procs ch)"
  by (rule finite_subset [of _ "{..< n}"]) (auto simp: asleep_on_def)

lemma asleep_on_le: "card (asleep_on n procs ch) \<le> n"
proof -
  have "card (asleep_on n procs ch) \<le> card {..< n}" by (rule card_mono) (auto simp: asleep_on_def)
  then show ?thesis by simp
qed

lemma sem_wakeup_asleep: "sem_wakeup ws procs p = SpAsleep c ch v \<longleftrightarrow> procs p = SpAsleep c ch v \<and> ch \<notin> set ws"
  by (auto simp: sem_wakeup_def split: sem_proc.splits)

lemma asleep_on_wakeup: "ch \<notin> set ws \<Longrightarrow> asleep_on n (sem_wakeup ws procs) ch = asleep_on n procs ch"
  by (auto simp: asleep_on_def sem_wakeup_asleep)

lemma asleep_on_update:
  "asleep_on n (procs(p := pc)) ch =
     (if p < n \<and> (\<exists>c v. pc = SpAsleep c ch v) then insert p (asleep_on n procs ch) else asleep_on n procs ch - {p})"
  by (auto simp: asleep_on_def)

text \<open>A step of the tables that passes nobody over, followed by its wakeups.\<close>

lemma woke_chan:
  assumes "woke st st'" "sem_wakes st = []"
  shows "chan_cnt st' ch = (if ch \<in> set (sem_wakes st') then 0 else chan_cnt st ch)"
  using assms unfolding woke_def by (cases ch) auto

lemma sleeper_ok_alert:
  assumes "alert st st'" "sem_wakes st = []" "sleeper_ok st ch v" "ch \<notin> set (sem_wakes st')"
  shows "sleeper_ok st' ch v"
proof -
  have c: "chan_cnt st' ch = chan_cnt st ch" using woke_chan [OF alert_woke [OF assms(1)] assms(2)] assms(4) by simp
  show ?thesis
  proof (cases ch)
    case (NCnt k)
    then have "semncnt (sems st' k) \<noteq> 0" using c assms(3) by (simp add: sleeper_ok_def)
    then have "semvals st' k \<le> semvals st k" using assms(1) by (simp add: alert_def)
    then show ?thesis using c assms(3) NCnt by (simp add: sleeper_ok_def)
  next
    case (ZCnt k)
    then have "semzcnt (sems st' k) \<noteq> 0" using c assms(3) by (simp add: sleeper_ok_def)
    then have "semvals st k \<noteq> 0 \<longrightarrow> semvals st' k \<noteq> 0" using assms(1) by (simp add: alert_def)
    then show ?thesis using c assms(3) ZCnt by (auto simp: sleeper_ok_def)
  qed
qed

lemma sys_ok_alert:
  assumes ok: "sys_ok si n s" and e: "sem_wakes st = []" "sems st = sems (sst s)" and st: "sem_step_ok si st st'"
    and p: "\<And>c ch v. pc \<noteq> SpAsleep c ch v" "\<And>c ch v. sprocs s p \<noteq> SpAsleep c ch v"
  shows "sys_ok si n (sem_next s p st' pc)"
proof -
  have al: "alert st st'" using st by (simp add: sem_step_ok_def)
  have cc: "chan_cnt st ch = chan_cnt (sst s) ch" for ch using e(2) by (cases ch) simp_all
  have sl: "sleeper_ok st ch v" if "sleeper_ok (sst s) ch v" for ch v
    using that e(2) cc [of ch] by (simp add: sleeper_ok_def split: semchan.splits)
  let ?procs = "(sem_wakeup (sem_wakes st') (sprocs s))(p := pc)"
  have as: "asleep_on n ?procs ch = asleep_on n (sprocs s) ch" if "ch \<notin> set (sem_wakes st')" for ch
    using p asleep_on_wakeup [OF that] by (auto simp: asleep_on_update) (auto simp: asleep_on_def)
  have "0 \<le> chan_cnt st' ch \<and> chan_cnt st' ch \<le> int (card (asleep_on n ?procs ch))" for ch
    using ok as [of ch] cc [of ch] woke_chan [OF alert_woke [OF al] e(1), of ch] by (auto simp: sys_ok_def)
  moreover have "q < n \<and> sleeper_ok st' ch v" if "?procs q = SpAsleep c ch v" for q c ch v
  proof -
    have "sprocs s q = SpAsleep c ch v" "ch \<notin> set (sem_wakes st')"
      using that p by (auto simp: sem_wakeup_asleep split: if_splits)
    then show ?thesis using ok sl sleeper_ok_alert [OF al e(1)] by (auto simp: sys_ok_def)
  qed
  ultimately show ?thesis using st by (simp add: sys_ok_def sem_next_def sem_step_ok_def)
qed

text \<open>Going to sleep on a channel.\<close>

lemma sem_bump_sel:
  "semvals (sem_bump ch st) = semvals st" "sem_wakes (sem_bump ch st) = sem_wakes st"
  "sema (sem_bump ch st) = sema st" "semmap (sem_bump ch st) = semmap st" "sem_undo (sem_bump ch st) = sem_undo st"
  "semu (sem_bump ch st) = semu st" "semunp (sem_bump ch st) = semunp st" "semfup (sem_bump ch st) = semfup st"
  "chan_cnt (sem_bump ch st) d = (if d = ch then uint16 (chan_cnt st ch + 1) else chan_cnt st d)"
  by (cases ch; cases d; auto simp: sem_bump_def fun_eq_iff)+

lemma sem_bump_inv: "sem_inv si st \<Longrightarrow> sem_inv si (sem_bump ch st)"
  by (rule sems_frame_inv) (simp_all add: sem_bump_sel sem_inv_def sem_range_def fun_cong [OF sem_bump_sel(1)])

lemma chan_val_bump: "chan_val (sem_bump ch st) d = chan_val st d"
  using fun_cong [OF sem_bump_sel(1) [of ch st]] by (cases d) simp_all

lemma sys_ok_sleep:
  assumes ok: "sys_ok si n s" and n: "n < 65536" and p: "p < n" and st: "sst s = st" and pc: "sprocs s p = SpIdle"
  shows "sys_ok si n \<lparr>sst = sem_bump ch st, sprocs = (sprocs s)(p := SpAsleep c ch (chan_val st ch))\<rparr>"
proof -
  let ?procs = "(sprocs s)(p := SpAsleep c ch (chan_val st ch))"
  have notin: "p \<notin> asleep_on n (sprocs s) d" for d using pc by (simp add: asleep_on_def)
  have cnt: "0 \<le> chan_cnt st d \<and> chan_cnt st d \<le> int (card (asleep_on n (sprocs s) d))" for d using ok st by (simp add: sys_ok_def)
  have "insert p (asleep_on n (sprocs s) ch) \<subseteq> {..< n}" using p by (auto simp: asleep_on_def)
  then have "card (insert p (asleep_on n (sprocs s) ch)) \<le> n" using card_mono [of "{..< n}"] by fastforce
  then have le: "card (asleep_on n (sprocs s) ch) < n" using notin [of ch] by simp
  then have u: "uint16 (chan_cnt st ch + 1) = chan_cnt st ch + 1" using cnt [of ch] n by (intro uint16_id) auto
  have card: "card (asleep_on n ?procs d) = card (asleep_on n (sprocs s) d) + (if d = ch then 1 else 0)" for d
    using p notin [of d] by (auto simp: asleep_on_update)
  have "0 \<le> chan_cnt (sem_bump ch st) d \<and> chan_cnt (sem_bump ch st) d \<le> int (card (asleep_on n ?procs d))" for d
    using cnt [of d] u unfolding card by (auto simp: sem_bump_sel)
  moreover have "q < n \<and> sleeper_ok (sem_bump ch st) d v" if "?procs q = SpAsleep c' d v" for q c' d v
  proof (cases "q = p")
    case True
    then have "d = ch" "v = chan_val st ch" using that by auto
    then show ?thesis
      using True p u cnt [of ch] fun_cong [OF sem_bump_sel(1) [of ch st]]
      by (auto simp: sleeper_ok_def sem_bump_sel(9) split: semchan.splits)
  next
    case False
    then have "q < n" "sleeper_ok st d v" using that ok st by (auto simp: sys_ok_def)
    then show ?thesis
      using u cnt [of ch] fun_cong [OF sem_bump_sel(1) [of ch st]]
      by (auto simp: sleeper_ok_def sem_bump_sel(9) split: semchan.splits)
  qed
  ultimately show ?thesis using ok st sem_bump_inv by (simp add: sys_ok_def)
qed

lemma sys_ok_call:
  assumes ok: "sys_ok si n s" and n: "n < 65536" and p: "p < n" "\<And>c ch v. sprocs s p \<noteq> SpAsleep c ch v"
    and call: "call_ok si (sem_entry (sst s)) out st'"
  shows "sys_ok si n (sem_next s p st' (sem_after c out st'))"
proof -
  have e: "sem_wakes (sem_entry (sst s)) = []" "sems (sem_entry (sst s)) = sems (sst s)" by (simp_all add: sem_entry_def)
  show ?thesis
  proof (cases out)
    case (SemSleep ch)
    then obtain st0 where st0: "sem_step_ok si (sem_entry (sst s)) st0" "st' = sem_bump ch st0"
      using call by (auto simp: call_ok_def)
    have "sys_ok si n (sem_next s p st0 SpIdle)" by (rule sys_ok_alert [OF ok e st0(1)]) (use p in auto)
    from sys_ok_sleep [OF this n p(1), of st0 ch c] show ?thesis
      using st0(2) SemSleep by (simp add: sem_next_def sem_after_def sem_bump_sel chan_val_bump)
  next
    case SemDone
    then have "sem_step_ok si (sem_entry (sst s)) st'" using call by (simp add: call_ok_def)
    then show ?thesis using SemDone sys_ok_alert [OF ok e _ _ p(2)] by (simp add: sem_after_def)
  next
    case SemFail
    then have "sem_step_ok si (sem_entry (sst s)) st'" using call by (simp add: call_ok_def)
    then show ?thesis using SemFail sys_ok_alert [OF ok e _ _ p(2)] by (simp add: sem_after_def)
  qed
qed

lemma semop_intr_sel:
  "semvals (semop_intr ch st) = semvals st" "sema (semop_intr ch st) = sema st" "semmap (semop_intr ch st) = semmap st"
  "sem_undo (semop_intr ch st) = sem_undo st" "semu (semop_intr ch st) = semu st" "semunp (semop_intr ch st) = semunp st"
  "semfup (semop_intr ch st) = semfup st"
  "sem_wakes (semop_intr ch st) = sem_wakes st @ (if chan_cnt st ch \<le> 1 then [ch] else [])"
  "chan_cnt (semop_intr ch st) d =
     (if d = ch then if chan_cnt st ch \<le> 1 then 0 else uint16 (chan_cnt st ch - 1) else chan_cnt st d)"
  by (cases ch; cases d; auto simp: semop_intr_def Let_def fun_eq_iff)+

lemma semop_intr_inv: "sem_inv si st \<Longrightarrow> sem_inv si (semop_intr ch st)"
  by (rule sems_frame_inv) (simp_all add: semop_intr_sel sem_inv_def sem_range_def fun_cong [OF semop_intr_sel(1)])

lemma sem_entry_inv: "sem_inv si st \<Longrightarrow> sem_inv si (sem_entry st)"
  unfolding sem_entry_def by (rule sems_frame_inv [of _ st]) (simp_all add: sem_inv_def sem_range_def)

lemma sem_entry_sel: "sems (sem_entry st) = sems st" "sem_wakes (sem_entry st) = []" "chan_cnt (sem_entry st) ch = chan_cnt st ch"
  by (cases ch; simp add: sem_entry_def)+

lemma sys_ok_signal:
  assumes ok: "sys_ok si n s" and n: "n < 65536" and p: "p < n" "sprocs s p = SpAsleep c ch v \<or> sprocs s p = SpWoken c ch"
  shows "sys_ok si n (sem_next s p (semop_intr ch (sem_entry (sst s))) SpIdle)"
proof -
  let ?st = "sem_entry (sst s)"
  let ?st' = "semop_intr ch ?st"
  let ?procs = "(sem_wakeup (sem_wakes ?st') (sprocs s))(p := SpIdle)"
  have v: "semvals ?st' k = semvals (sst s) k" for k
    using fun_cong [OF semop_intr_sel(1) [of ch ?st], of k] by (simp add: sem_entry_sel)
  have cnt: "0 \<le> chan_cnt (sst s) d \<and> chan_cnt (sst s) d \<le> int (card (asleep_on n (sprocs s) d))" for d
    using ok by (simp add: sys_ok_def)
  have w: "sem_wakes ?st' = (if chan_cnt (sst s) ch \<le> 1 then [ch] else [])"
    by (simp add: semop_intr_sel(8) sem_entry_sel)
  have "chan_cnt (sst s) ch - 1 < 65536" using cnt [of ch] asleep_on_le [of n "sprocs s" ch] n by linarith
  then have c: "chan_cnt ?st' d = (if d = ch then if chan_cnt (sst s) ch \<le> 1 then 0 else chan_cnt (sst s) ch - 1 else chan_cnt (sst s) d)" for d
    using uint16_id [of "chan_cnt (sst s) ch - 1"] by (simp add: semop_intr_sel(9) sem_entry_sel)
  have as: "asleep_on n ?procs d = (if d \<in> set (sem_wakes ?st') then {} else asleep_on n (sprocs s) d - {p})" for d
    by (auto simp: asleep_on_def sem_wakeup_asleep)
  have "0 \<le> chan_cnt ?st' d \<and> chan_cnt ?st' d \<le> int (card (asleep_on n ?procs d))" for d
  proof (cases "d = ch")
    case True
    have "int (card (asleep_on n (sprocs s) ch)) \<le> int (card (asleep_on n (sprocs s) ch - {p})) + 1"
      using card_Diff1_le [of "asleep_on n (sprocs s) ch" p] by (cases "p \<in> asleep_on n (sprocs s) ch") (simp_all add: card_Diff_singleton)
    then show ?thesis using True c [of d] cnt [of ch] as [of ch] w by auto
  next
    case False
    then have "p \<notin> asleep_on n (sprocs s) d" using p by (auto simp: asleep_on_def)
    then show ?thesis using False c [of d] cnt [of d] as [of d] w by auto
  qed
  moreover have "q < n \<and> sleeper_ok ?st' d x" if q: "?procs q = SpAsleep e d x" for q e d x
  proof -
    have a: "sprocs s q = SpAsleep e d x" "d \<notin> set (sem_wakes ?st')"
      using q by (auto simp: sem_wakeup_asleep split: if_splits)
    then have s: "q < n" "sleeper_ok (sst s) d x" using ok by (auto simp: sys_ok_def)
    have "0 < chan_cnt ?st' d" using s(2) a(2) w c [of d] by (auto simp: sleeper_ok_def split: if_splits)
    then show ?thesis using s v by (auto simp: sleeper_ok_def split: semchan.splits)
  qed
  moreover have "sem_inv si ?st'" using ok semop_intr_inv sem_entry_inv by (auto simp: sys_ok_def)
  ultimately show ?thesis by (simp add: sys_ok_def sem_next_def)
qed

lemma sem_step_preserves:
  assumes step: "sem_step si n s s'" and si: "si_ok si" and n: "n < 65536" and ok: "sys_ok si n s"
  shows "sys_ok si n s'"
proof -
  have inv: "sem_inv si (sem_entry (sst s))" using ok sem_entry_inv by (auto simp: sys_ok_def)
  have err: "u_error (sem_entry (sst s)) = None" by (simp add: sem_entry_def)
  from step show ?thesis
  proof (cases rule: sem_step.cases)
    case (sem_call p u um time fid a out i st' c)
    then have "call_ok si (sem_entry (sst s)) out st'" using semsys_ok [OF inv si _ err, of um u time fid a] by auto
    then show ?thesis using sem_call sys_ok_call [OF ok n] by simp
  next
    case (sem_resume p c ch u time um out st')
    then have "call_ok si (sem_entry (sst s)) out st'"
      using semop_again_ok [OF inv si, of u time um "sc_semid c" "sc_sops c" "sc_nsops c" "sc_slot c"] by auto
    then show ?thesis using sem_resume sys_ok_call [OF ok n] by simp
  next
    case (sem_signal p c ch v st')
    then show ?thesis using sys_ok_signal [OF ok n] by blast
  next
    case (sem_exit p u st')
    then have "sem_step_ok si (sem_entry (sst s)) st'" using semexit_ok [OF inv si, of u] by auto
    then show ?thesis
      using sem_exit sys_ok_alert [OF ok sem_entry_sel(2,1)] by simp
  qed
qed

text \<open>Every process can always take its next step: no call hangs in a table walk.\<close>

lemma sem_step_total:
  assumes "sys_ok si n s" "si_ok si" "um_ok um"
  shows "semsys si u time um fid a (sem_entry (sst s)) \<noteq> None"
    "semop_again si u time um2 semid sops nsops i (sem_entry (sst s)) \<noteq> None"
    "semexit si u (sem_entry (sst s)) \<noteq> None"
proof -
  have inv: "sem_inv si (sem_entry (sst s))" using assms(1) sem_entry_inv by (auto simp: sys_ok_def)
  have err: "u_error (sem_entry (sst s)) = None" by (simp add: sem_entry_def)
  show "semsys si u time um fid a (sem_entry (sst s)) \<noteq> None" using semsys_ok [OF inv assms(2,3) err] by fastforce
  show "semop_again si u time um2 semid sops nsops i (sem_entry (sst s)) \<noteq> None" using semop_again_ok [OF inv assms(2)] by fastforce
  show "semexit si u (sem_entry (sst s)) \<noteq> None" using semexit_ok [OF inv assms(2)] by fastforce
qed

section \<open>Boot\<close>

text \<open>The tables as the kernel is loaded: all zero, the map with its slots empty.\<close>

definition sem_zeroed :: "seminfo \<Rightarrow> semst \<Rightarrow> bool" where
  "sem_zeroed si st \<longleftrightarrow>
     (\<forall>i. ip_mode (sem_perm (sema st i)) = 0) \<and> (\<forall>k. semval (sems st k) = 0 \<and> semncnt (sems st k) = 0 \<and> semzcnt (sems st k) = 0) \<and>
     (\<forall>p. sem_undo st p = None) \<and> (\<forall>up. un_ent (semu st up) = []) \<and> semunp st = None \<and>
     mapent (semmap st) = replicate (unat (si_semmap si) - 1) zero_ent"

lemma seminit_link_sel:
  "un_ent (semu (seminit_link i n st) a) = un_ent (semu st a)" "sem_undo (seminit_link i n st) = sem_undo st"
  "sems (seminit_link i n st) = sems st" "sema (seminit_link i n st) = sema st" "semmap (seminit_link i n st) = semmap st"
  "semunp (seminit_link i n st) = semunp st" "sem_wakes (seminit_link i n st) = sem_wakes st"
  by (induction i n st rule: seminit_link.induct) auto

lemma seminit_link_keep: "j < i \<Longrightarrow> un_np (semu (seminit_link i n st) j) = un_np (semu st j)"
  by (induction i n st rule: seminit_link.induct) auto

lemma seminit_link_chain: "linked (unps (seminit_link i n st)) (Some i) [i ..< Suc (i + n)]"
proof (induction i n st rule: seminit_link.induct)
  case (2 i n st)
  let ?st = "upd_semu i (\<lambda>x. x\<lparr>un_np := Some (Suc i)\<rparr>) st"
  have "unps (seminit_link i (Suc n) st) i = Some (Suc i)" using seminit_link_keep [of i "Suc i" n ?st] by simp
  then show ?case using "2.IH" by (simp add: upt_conv_Cons del: upt_Suc)
qed simp

lemma seminit_ok:
  assumes z: "sem_zeroed si st" and si: "si_ok si" and map: "2 < unat (si_semmap si)" "semmns si \<noteq> 0" "unat (semmns si) + 1 < 2 ^ 32"
    and mnu: "0 < semmnu si"
  shows "\<exists>st'. seminit si st = Some st' \<and> sem_inv si st' \<and> free_units (semmap st') = {1 ..< Suc (unat (semmns si))} \<and>
    (\<forall>ch. chan_cnt st' ch = 0)"
proof -
  let ?mp = "mapinit (semmap st) (si_semmap si)"
  obtain k where k: "unat (si_semmap si) = Suc (Suc (Suc k))" using map(1) by (metis Suc_lessE add_2_eq_Suc less_iff_Suc_add numeral_2_eq_2 plus_1_eq_Suc add_Suc)
  have two: "2 \<le> si_semmap si" using k by (simp add: word_le_unat)
  have sz: "unat (mapsize ?mp) = Suc k" using k unat_minus_exact [OF two] by (simp add: mapinit_def)
  have rep: "rmap_rep ?mp [] (Suc k)"
    using z k sz unat_u32 [of "si_semmap si"] by (simp add: rmap_rep_def sem_zeroed_def mapinit_def)
  then have ok: "rmap_ok ?mp" by (auto simp: rmap_ok_def)
  have free: "free_units ?mp = {}" using free_units_rep [OF rep] by simp
  have "mapsize ?mp \<noteq> 0" using sz by auto
  with mfree_contract [OF ok map(2), of 1] free map(3) obtain mp' w where
    m: "mfree ?mp (semmns si) 1 = Some (MFreed mp' w)" "rmap_ok mp'" "free_units mp' = block 1 (semmns si)" by auto
  let ?st1 = "seminit_link 0 (semmnu si - 1) (st\<lparr>semmap := mp'\<rparr>)"
  let ?st' = "?st1\<lparr>semfup := Some 0\<rparr>"
  have init: "seminit si st = Some ?st'" using m(1) by (simp add: seminit_def)
  have chain: "linked (unps ?st1) (Some 0) [0 ..< semmnu si]"
    using seminit_link_chain [of 0 "semmnu si - 1" "st\<lparr>semmap := mp'\<rparr>"] mnu by simp
  have "undo_rep si ?st' [] [0 ..< semmnu si]"
    using z chain by (auto simp: undo_rep_def seminit_link_sel sem_zeroed_def ents_ok_def)
  then have "undo_wf si ?st'" by (auto simp: undo_wf_def)
  moreover have "sem_range si ?st'" using z si by (simp add: sem_range_def seminit_link_sel sem_zeroed_def si_ok_def)
  moreover have "sets_ok si ?st'" using z m(2) by (simp add: sets_ok_def seminit_link_sel sem_zeroed_def)
  moreover have "chan_cnt ?st' ch = 0" for ch using z by (cases ch) (simp_all add: seminit_link_sel sem_zeroed_def)
  moreover have "free_units (semmap ?st') = {1 ..< Suc (unat (semmns si))}"
    using m(3) by (auto simp: seminit_link_sel block_def)
  ultimately show ?thesis using init by (auto simp: sem_inv_def)
qed

text \<open>The reachable states of the facility from boot, with \<open>n\<close> process slots.\<close>

inductive sem_reach :: "seminfo \<Rightarrow> nat \<Rightarrow> semst \<Rightarrow> semsys_st \<Rightarrow> bool" for si n st where
  reach_boot: "seminit si st = Some st' \<Longrightarrow> sem_reach si n st \<lparr>sst = st', sprocs = (\<lambda>_. SpIdle)\<rparr>"
| reach_step: "sem_reach si n st s \<Longrightarrow> sem_step si n s s' \<Longrightarrow> sem_reach si n st s'"

text \<open>A configuration the tables are generated for, within the widths of their fields.\<close>

definition sem_config :: "seminfo \<Rightarrow> nat \<Rightarrow> bool" where
  "sem_config si n \<longleftrightarrow> si_ok si \<and> 2 < unat (si_semmap si) \<and> semmns si \<noteq> 0 \<and> unat (semmns si) + 1 < 2 ^ 32 \<and>
     0 < semmnu si \<and> n < 65536"

lemma sem_reach_ok:
  "sem_reach si n st s \<Longrightarrow> sem_config si n \<Longrightarrow> sem_zeroed si st \<Longrightarrow> sys_ok si n s"
proof (induction rule: sem_reach.induct)
  case (reach_boot st')
  then show ?case
    using seminit_ok [of si st] by (auto simp: sem_config_def sys_ok_def)
next
  case (reach_step s s')
  then show ?case using sem_step_preserves [of si n s s'] by (auto simp: sem_config_def)
qed

section \<open>Undoing at exit\<close>

text \<open>The adjustments of entries on one set, each semaphore at most once.\<close>

lemma semexit_fold_vals:
  "sem_inv si st \<Longrightarrow> si_ok si \<Longrightarrow> fst (semconv si semid st) = Some i \<Longrightarrow>
   (\<forall>e \<in> set es. un_id e = semid \<and> 0 \<le> un_num e) \<Longrightarrow> distinct (map un_num es) \<Longrightarrow>
   (\<forall>e \<in> set es. 0 \<le> semvals st (sem_base (sema st i) + nat (un_num e)) + un_aoe e \<and>
      semvals st (sem_base (sema st i) + nat (un_num e)) + un_aoe e \<le> semvmx si) \<Longrightarrow>
   semvals (fold (semexit_one si) es st) k =
     semvals st k + sum_list (map un_aoe (filter (\<lambda>e. sem_base (sema st i) + nat (un_num e) = k) es))"
proof (induction es arbitrary: st)
  case Nil
  then show ?case by simp
next
  case (Cons e es)
  let ?b = "sem_base (sema st i)"
  let ?k = "?b + nat (un_num e)"
  have e: "un_id e = semid" "0 \<le> semvals st ?k + un_aoe e" "semvals st ?k + un_aoe e \<le> semvmx si" "0 \<le> un_num e"
    using Cons.prems(4,6) by auto
  have m: "0 < semmni si" using Cons.prems(2) by (simp add: si_ok_def)
  obtain st0 where c: "semconv si semid st = (Some i, st0)" "st0 = st"
    using Cons.prems(3) semconv_slot [OF m] by (metis prod.collapse)
  have one: "semexit_one si e st = exit_adj ?k (un_aoe e) st"
    using c e by (simp add: semexit_one_def exit_adj_def Let_def)
  note adj = exit_adj_ok [OF Cons.prems(1,2) e(2,3), folded one]
  let ?st1 = "semexit_one si e st"
  have v1: "semvals ?st1 j = (if j = ?k then semvals st ?k + un_aoe e else semvals st j)" for j
    using fun_cong [OF adj(2), of j] by (auto split: if_splits)
  have inv1: "sem_inv si ?st1" using adj(1) by (simp add: sem_step_ok_def)
  have conv1: "fst (semconv si semid ?st1) = Some i"
    using Cons.prems(3) semconv_iff [OF m] adj(5) by (simp add: sem_ident_def)
  have far: "?b + nat (un_num f) \<noteq> ?k" if "f \<in> set es" for f
  proof -
    have "un_num f \<in> un_num ` set es" "un_num e \<notin> un_num ` set es" "0 \<le> un_num f" using Cons.prems(4,5) that by auto
    then have "un_num f \<noteq> un_num e" "0 \<le> un_num f" by metis+
    then show ?thesis using e(4) by linarith
  qed
  have "semvals (fold (semexit_one si) es ?st1) k =
     semvals ?st1 k + sum_list (map un_aoe (filter (\<lambda>e. sem_base (sema ?st1 i) + nat (un_num e) = k) es))"
  proof (rule Cons.IH [OF inv1 Cons.prems(2) conv1])
    show "\<forall>e \<in> set es. un_id e = semid \<and> 0 \<le> un_num e" "distinct (map un_num es)" using Cons.prems(4,5) by auto
    show "\<forall>f \<in> set es. 0 \<le> semvals ?st1 (sem_base (sema ?st1 i) + nat (un_num f)) + un_aoe f \<and>
      semvals ?st1 (sem_base (sema ?st1 i) + nat (un_num f)) + un_aoe f \<le> semvmx si"
      using Cons.prems(6) far v1 unfolding adj(5) by auto
  qed
  moreover have "filter (\<lambda>f. ?b + nat (un_num f) = k) es = []" if "k = ?k"
    using far that by (auto simp: filter_empty_conv)
  ultimately show ?case using v1 [of k] unfolding adj(5) by auto
qed

lemma ents_adj_single:
  "distinct (map un_num es) \<Longrightarrow> e \<in> set es \<Longrightarrow> (\<forall>e \<in> set es. un_id e = j) \<Longrightarrow> ents_adj es j (un_num e) = un_aoe e"
proof (induction es)
  case (Cons f es)
  have none: "ents_adj es j (un_num f) = 0" if "un_num f \<notin> un_num ` set es"
    using that by (induction es) auto
  show ?case
  proof (cases "e = f")
    case True
    then show ?thesis using Cons.prems none by auto
  next
    case False
    then have in_es: "e \<in> set es" using Cons.prems by auto
    then have "un_num e \<in> un_num ` set es" "un_num f \<notin> un_num ` set es" using Cons.prems(1) by auto
    then have "un_num e \<noteq> un_num f" by metis
    note in_es this
    then show ?thesis using Cons by simp
  qed
qed simp

lemma ents_ok_distinct: "ents_ok si es \<Longrightarrow> (\<forall>e \<in> set es. un_id e = j) \<Longrightarrow> distinct (map un_num es)"
  unfolding ents_ok_def
proof (induction es)
  case (Cons e es)
  have "\<forall>f \<in> set es. un_num e < un_num f" using Cons.prems by (auto simp: undo_lt_def)
  moreover have "distinct (map un_num es)" using Cons by auto
  ultimately show ?case by auto
qed simp

lemma ents_adj_none: "(\<forall>g \<in> set es. \<not> (un_id g = j \<and> un_num g = n)) \<Longrightarrow> ents_adj es j n = 0"
  by (simp add: ents_adj_def filter_False)

lemma ents_adj_zero: "ents_ok si es \<Longrightarrow> e \<in> set es \<Longrightarrow> ents_adj es (un_id e) (un_num e) = un_aoe e"
  unfolding ents_ok_def
proof (induction es)
  case (Cons f es)
  have lt: "\<forall>g \<in> set es. undo_lt f g" using Cons.prems by simp
  show ?case
  proof (cases "e = f")
    case True
    have "\<not> (un_id g = un_id f \<and> un_num g = un_num f)" if "g \<in> set es" for g
    proof -
      have "undo_lt f g" using lt that by blast
      then show ?thesis unfolding undo_lt_def by linarith
    qed
    then have "ents_adj es (un_id f) (un_num f) = 0" by (intro ents_adj_none) blast
    then show ?thesis using True by simp
  next
    case False
    then have "e \<in> set es" using Cons.prems(2) by simp
    then have "undo_lt f e" using lt by blast
    then have "\<not> (un_id f = un_id e \<and> un_num f = un_num e)" unfolding undo_lt_def by linarith
    moreover have "ents_adj es (un_id e) (un_num e) = un_aoe e" using Cons.IH Cons.prems \<open>e \<noteq> f\<close> by simp
    ultimately show ?thesis by auto
  qed
qed simp

text \<open>Operations all marked for undoing, by a process without entries, are taken back exactly.\<close>

lemma semop_try_sema:
  assumes inv: "sem_inv si st" and si: "si_ok si" and run: "semop_try si u time semid i ops st = Some (SemDone, st1)"
  shows "sema st1 i = (sema st i)\<lparr>sem_otime := time\<rparr>"
proof -
  have "undo_wf si st" "sem_range si st" using inv by (auto simp: sem_inv_def)
  from semop_pass_spec [OF si this reversible_Nil, of u semid i ops] obtain out st0 where
    p: "semop_pass si u semid i [] ops st = Some (out, st0)"
    and r: "pass_res si u semid (sem_base (sema st i)) (semvals st) (pents st) ops st out st0" by blast
  have o: "out = SemDone" "st1 = semop_finish u time i ops st0"
    using run p by (cases out; simp add: semop_try_def)+
  then have "sema st0 = sema st" using r by (simp add: pass_res_def cnt_frame_def)
  moreover have "sema (fold (\<lambda>op st. upd_sem (sem_base (sema st i) + nat (sem_num op)) (\<lambda>p. p\<lparr>sempid := u_pid u\<rparr>) st) ops t) = sema t" for t
    by (induction ops arbitrary: t) auto
  ultimately show ?thesis unfolding o by (simp add: semop_finish_def Let_def)
qed

lemma semop_exit_restores:
  assumes inv: "sem_inv si st" and si: "si_ok si" and none: "pents st (u_proc u) = []"
    and conv: "fst (semconv si semid st) = Some i"
    and all: "\<forall>op \<in> set ops. undo_flag op \<and> 0 \<le> sem_num op \<and> sem_num op < 32768"
    and run: "semop_try si u time semid i ops st = Some (SemDone, st1)"
  shows "\<exists>st2. semexit si u st1 = Some st2 \<and> semvals st2 = semvals st \<and> sem_inv si st2"
proof -
  let ?b = "sem_base (sema st i)" and ?p = "u_proc u"
  note sema = semop_try_sema [OF inv si run]
  from semop_try_spec [OF inv si, of u time semid i ops] run
  have r: "try_res si u semid ?b ops st SemDone st1" by auto
  have inv1: "sem_inv si st1" and v1: "\<And>k. semvals st1 k = semvals st k + op_sum ?b k ops"
    and adj: "\<And>j n. ents_adj (pents st1 ?p) j n = - (if j = semid then undo_sum n ops else 0)"
    using r none by (auto simp: try_res_def sem_step_ok_def)
  have ok: "ents_ok si (pents st1 ?p)" using inv1 pents_ok by (simp add: sem_inv_def)
  have nz: "\<forall>e \<in> set (pents st1 ?p). un_aoe e \<noteq> 0" using ok by (simp add: ents_ok_def)
  have ids: "un_id e = semid" "un_aoe e = - undo_sum (un_num e) ops" if "e \<in> set (pents st1 ?p)" for e
    using ents_adj_zero [OF ok that] adj [of "un_id e" "un_num e"] nz that by (auto split: if_splits)
  have i16: "int16 (sem_num op) = sem_num op" if "op \<in> set ops" for op using all that by (auto intro!: int16_id)
  have us: "undo_sum n ops = op_sum ?b (?b + nat n) ops" if "0 \<le> n" for n
  proof -
    have "filter (\<lambda>op. undo_flag op \<and> int16 (sem_num op) = n) ops = filter (\<lambda>op. ?b + nat (sem_num op) = ?b + nat n) ops"
      using all i16 that by (intro filter_cong) (auto simp: eq_nat_nat_iff)
    then show ?thesis by (simp add: undo_sum_def op_sum_def)
  qed
  have neg: "undo_sum n ops = 0" if "n < 0" for n
  proof -
    have "filter (\<lambda>op. undo_flag op \<and> int16 (sem_num op) = n) ops = []" using all i16 that by (auto simp: filter_empty_conv)
    then show ?thesis by (simp add: undo_sum_def)
  qed
  have pos: "0 \<le> un_num e" if "e \<in> set (pents st1 ?p)" for e
    using ids(2) [OF that] nz that neg [of "un_num e"] by force
  have dist: "distinct (map un_num (pents st1 ?p))" using ents_ok_distinct [OF ok] ids(1) by blast
  have conv1: "fst (semconv si semid st1) = Some i"
    using conv si semconv_iff [of si] sema by (auto simp: si_ok_def sem_ident_def)
  have b1: "sem_base (sema st1 i) = ?b" using sema by simp
  let ?es = "rev (pents st1 ?p)"
  have restored: "semvals st1 (?b + nat (un_num e)) + un_aoe e = semvals st (?b + nat (un_num e))" if "e \<in> set (pents st1 ?p)" for e
    using v1 ids(2) [OF that] us [OF pos [OF that]] by simp
  have rng: "0 \<le> semvals st k" "semvals st k \<le> semvmx si" for k using inv by (auto simp: sem_inv_def sem_range_def)
  have fin: "semvals (fold (semexit_one si) ?es st1) k = semvals st k" for k
  proof -
    have "semvals (fold (semexit_one si) ?es st1) k =
       semvals st1 k + sum_list (map un_aoe (filter (\<lambda>e. ?b + nat (un_num e) = k) ?es))"
      using semexit_fold_vals [OF inv1 si conv1, of ?es k] ids(1) pos dist restored rng unfolding b1 by (auto simp: rev_map [symmetric])
    also have "sum_list (map un_aoe (filter (\<lambda>e. ?b + nat (un_num e) = k) ?es)) =
       sum_list (map un_aoe (filter (\<lambda>e. ?b + nat (un_num e) = k) (pents st1 ?p)))"
      by (simp add: rev_filter [symmetric] rev_map [symmetric])
    also have "\<dots> = - op_sum ?b k ops"
    proof (cases "\<exists>e \<in> set (pents st1 ?p). ?b + nat (un_num e) = k")
      case True
      then obtain e where e: "e \<in> set (pents st1 ?p)" "?b + nat (un_num e) = k" by blast
      have "filter (\<lambda>f. ?b + nat (un_num f) = k) (pents st1 ?p) = filter (\<lambda>f. un_id f = semid \<and> un_num f = un_num e) (pents st1 ?p)"
        using e pos ids(1) by (intro filter_cong) (auto simp: eq_nat_nat_iff)
      then have "sum_list (map un_aoe (filter (\<lambda>f. ?b + nat (un_num f) = k) (pents st1 ?p))) = ents_adj (pents st1 ?p) semid (un_num e)"
        by (simp add: ents_adj_def)
      then show ?thesis using adj [of semid "un_num e"] us [OF pos [OF e(1)]] e(2) by simp
    next
      case False
      then have f: "filter (\<lambda>e. ?b + nat (un_num e) = k) (pents st1 ?p) = []" by (auto simp: filter_empty_conv)
      have "op_sum ?b k ops = 0"
      proof (cases "?b \<le> k")
        case True
        define n where "n = int (k - ?b)"
        have n: "0 \<le> n" "?b + nat n = k" using True by (simp_all add: n_def)
        have "ents_adj (pents st1 ?p) semid n = 0"
          using False n by (intro ents_adj_none) auto
        then show ?thesis using adj [of semid n] us [OF n(1)] unfolding n(2) by simp
      next
        case False
        then have "filter (\<lambda>op. ?b + nat (sem_num op) = k) ops = []" by (auto simp: filter_empty_conv)
        then show ?thesis by (simp add: op_sum_def)
      qed
      then show ?thesis using f by simp
    qed
    finally show ?thesis using v1 [of k] by simp
  qed
  from semexit_ok [OF inv1 si, of u] obtain st2 where "semexit si u st1 = Some st2" "sem_step_ok si st1 st2"
    "semvals st2 = semvals (fold (semexit_one si) ?es st1)" by blast
  then show ?thesis using fin by (intro exI [of _ st2]) (auto simp: sem_step_ok_def fun_eq_iff)
qed

section \<open>A sample configuration and state\<close>

definition demo_si :: seminfo where
  "demo_si = \<lparr>si_semmap = 10, semmni = 10, semmns = 60, semmnu = 2, semmsl = 25, semopm = 10, semume = 10,
     semvmx = 32767, semaem = 16384\<rparr>"

text \<open>Set 0 has semaphores 0 and 1 and belongs to the sample user; set 1 has semaphore 2 and does not.\<close>

definition demo_sem :: semst where
  "demo_sem = \<lparr>u_error = None, u_rval1 = 0, u_asu = False,
     sema = (\<lambda>i. \<lparr>sem_perm = \<lparr>ip_uid = (if i = 0 then 3 else 9), ip_gid = 9, ip_cuid = (if i = 0 then 3 else 9), ip_cgid = 9,
         ip_mode = (if i < 2 then 33152 else 0), ip_seq = 0, ip_key = 50 + int i\<rparr>,
       sem_base = (if i = 0 then 0 else 2), sem_nsems = (if i = 0 then 2 else 1), sem_otime = 0, sem_ctime = 0\<rparr>),
     sems = (\<lambda>k. \<lparr>semval = (if k = 0 then 2 else 0), sempid = 0, semncnt = 0, semzcnt = 0\<rparr>),
     semmap = \<lparr>mapsize = 7, mapwant = 0, mapent = \<lparr>m_size = 57, m_addr = 4\<rparr> # replicate 8 zero_ent\<rparr>,
     sem_undo = (\<lambda>_. None), semu = (\<lambda>i. \<lparr>un_np = (if i = 0 then Some 1 else None), un_ent = []\<rparr>),
     semunp = None, semfup = Some 0, sem_wakes = [], sem_out = [], sem_count = 0\<rparr>"

lemma demo_si_ok: "si_ok demo_si"
  by (simp add: si_ok_def demo_si_def)

lemma demo_sem_sel:
  "sem_undo demo_sem p = None" "un_ent (semu demo_sem a) = []" "un_np (semu demo_sem a) = (if a = 0 then Some 1 else None)"
  "semunp demo_sem = None" "semfup demo_sem = Some 0"
  "ip_mode (sem_perm (sema demo_sem i)) = (if i < 2 then 33152 else 0)" "sem_base (sema demo_sem i) = (if i = 0 then 0 else 2)"
  "sem_nsems (sema demo_sem i) = (if i = 0 then 2 else 1)" "semvals demo_sem k = (if k = 0 then 2 else 0)"
  "semmap demo_sem = \<lparr>mapsize = 7, mapwant = 0, mapent = \<lparr>m_size = 57, m_addr = 4\<rparr> # replicate 8 zero_ent\<rparr>"
  by (simp add: demo_sem_def)+

lemma demo_sem_inv: "sem_inv demo_si demo_sem"
proof -
  have "undo_rep demo_si demo_sem [] [0, 1]"
    by (simp add: undo_rep_def demo_sem_sel demo_si_def ents_ok_def)
  then have "undo_wf demo_si demo_sem" by (auto simp: undo_wf_def)
  moreover have "sem_range demo_si demo_sem" by (simp add: sem_range_def demo_sem_sel demo_si_def)
  moreover have rep: "rmap_rep (semmap demo_sem) [\<lparr>m_size = 57, m_addr = 4\<rparr>] 7"
    by (simp add: rmap_rep_def demo_sem_sel)
  have free: "free_units (semmap demo_sem) = {4 ..< 61}"
    using free_units_rep [OF rep] by (simp add: ent_units_def)
  have live: "set_live demo_sem i \<longleftrightarrow> i < 2" for i by (simp add: demo_sem_sel IPC_ALLOC_def)
  have "sets_ok demo_si demo_sem"
    unfolding sets_ok_def free live
  proof (intro conjI allI impI)
    show "rmap_ok (semmap demo_sem)" using rep by (auto simp: rmap_ok_def)
  qed (simp_all add: demo_sem_sel set_units_def)
  ultimately show ?thesis by (simp add: sem_inv_def)
qed

lemma demo_semconv: "fst (semconv demo_si 0 demo_sem) = Some 0"
  by (simp add: semconv_def demo_si_def demo_sem_def IPC_ALLOC_def)

definition demo_boot :: semst where
  "demo_boot = demo_sem\<lparr>sema := (\<lambda>i. (sema demo_sem i)\<lparr>sem_perm := (sem_perm (sema demo_sem i))\<lparr>ip_mode := 0\<rparr>\<rparr>),
     sems := (\<lambda>_. \<lparr>semval = 0, sempid = 0, semncnt = 0, semzcnt = 0\<rparr>),
     semmap := \<lparr>mapsize = 0, mapwant = 0, mapent = replicate 9 zero_ent\<rparr>\<rparr>"

lemma demo_boot_zeroed: "sem_zeroed demo_si demo_boot" "sem_config demo_si 100"
  by (simp_all add: sem_zeroed_def demo_boot_def demo_sem_def demo_si_def sem_config_def si_ok_def)

lemma demo_boot_reach: "\<exists>st'. sem_reach demo_si 100 demo_boot \<lparr>sst = st', sprocs = (\<lambda>_. SpIdle)\<rparr>"
proof -
  from seminit_ok [OF demo_boot_zeroed(1) demo_si_ok] obtain st' where "seminit demo_si demo_boot = Some st'"
    by (auto simp: demo_si_def)
  then show ?thesis using reach_boot by blast
qed

text \<open>User memory holding the same operations at every address.\<close>

definition demo_um :: "sembuf list \<Rightarrow> sem_umem" where
  "demo_um ops = \<lparr>um_ds = (\<lambda>_. None), um_vals = (\<lambda>_ _. None), um_ops = (\<lambda>_ _. Some ops), um_put = (\<lambda>_. True)\<rparr>"

lemma demo_um_ok: "um_ok (demo_um ops)"
  by (simp add: um_ok_def demo_um_def)

section \<open>Properties\<close>

text \<open>C7. In every state reachable from boot, under any interleaving of calls, sleeps, wakeups, signals and
  exits, every semaphore value is between 0 and \<open>semvmx\<close>, live sets own disjoint semaphores none of
  which the map counts as free, and every process's undo entries are sorted, at most \<open>semume\<close> and
  within \<open>semaem\<close>.\<close>

theorem sem_reach_safe:
  assumes "sem_reach si n st s" "sem_config si n" "sem_zeroed si st"
  shows "sys_ok si n s \<and> (\<forall>k. 0 \<le> semval (sems (sst s) k) \<and> semval (sems (sst s) k) \<le> semvmx si) \<and>
    (\<forall>i < semmni si. \<forall>j < semmni si. set_live (sst s) i \<longrightarrow> set_live (sst s) j \<longrightarrow> i \<noteq> j \<longrightarrow>
       set_units (sema (sst s) i) \<inter> set_units (sema (sst s) j) = {}) \<and>
    (\<forall>i < semmni si. set_live (sst s) i \<longrightarrow> set_units (sema (sst s) i) \<inter> free_units (semmap (sst s)) = {}) \<and>
    (\<forall>p. ents_ok si (pents (sst s) p))"
proof -
  have "sem_inv si (sst s)" using sem_reach_ok [OF assms] by (simp add: sys_ok_def)
  then show ?thesis using pents_ok sem_reach_ok [OF assms] by (simp add: sem_inv_def sem_range_def sets_ok_def)
qed

theorem sem_reach_safe_witness:
  "\<exists>s. sem_reach demo_si 100 demo_boot s \<and> (\<forall>k. 0 \<le> semval (sems (sst s) k) \<and> semval (sems (sst s) k) \<le> 32767)"
proof -
  obtain st' where r: "sem_reach demo_si 100 demo_boot \<lparr>sst = st', sprocs = (\<lambda>_. SpIdle)\<rparr>" using demo_boot_reach by blast
  show ?thesis
    using sem_reach_safe [OF r demo_boot_zeroed(2,1)] r by (intro exI [of _ "\<lparr>sst = st', sprocs = (\<lambda>_. SpIdle)\<rparr>"]) (simp add: demo_si_def)
qed

text \<open>C9. No missed wakeup: when a step makes a semaphore's value greater than it was when a process went
  to sleep waiting for it to increase, or makes it zero for a process that went to sleep on a non-zero
  value, that process is no longer asleep after the step.  \<open>sys_ok\<close> holds of every reachable state.\<close>

theorem sem_no_missed_wakeup:
  assumes "sys_ok si n s" "si_ok si" "n < 65536" "sem_step si n s s'" "sprocs s p = SpAsleep c ch v"
    and "(ch = NCnt k \<and> v < semval (sems (sst s') k)) \<or> (ch = ZCnt k \<and> v \<noteq> 0 \<and> semval (sems (sst s') k) = 0)"
  shows "sprocs s' p \<noteq> SpAsleep c ch v"
proof
  assume a: "sprocs s' p = SpAsleep c ch v"
  have "sys_ok si n s'" using sem_step_preserves [OF assms(4,2,3,1)] .
  then have "sleeper_ok (sst s') ch v" using a by (simp add: sys_ok_def)
  then show False using assms(6) by (auto simp: sleeper_ok_def)
qed

text \<open>Process 0 sleeps until semaphore 1 increases; process 1 adds one to it.\<close>

definition demo_wait :: semsys_st where
  "demo_wait = \<lparr>sst = demo_sem\<lparr>sems := (sems demo_sem)(1 := (sems demo_sem 1)\<lparr>semncnt := 1\<rparr>)\<rparr>,
     sprocs = (\<lambda>p. if p = 0 then SpAsleep \<lparr>sc_semid = 0, sc_sops = 0, sc_nsops = 1, sc_slot = 0\<rparr> (NCnt 1) 0 else SpIdle)\<rparr>"

lemma demo_wait_ok: "sys_ok demo_si 100 demo_wait"
proof -
  have "sem_inv demo_si (sst demo_wait)"
    by (rule sems_frame_inv [OF _ _ _ _ _ _ demo_sem_inv])
      (auto simp: demo_wait_def sem_range_def demo_sem_sel demo_si_def)
  moreover have as: "asleep_on 100 (sprocs demo_wait) (NCnt 1) = {0}"
    "ch \<noteq> NCnt 1 \<Longrightarrow> chan_cnt (sst demo_wait) ch = 0" for ch
    by (auto simp: asleep_on_def demo_wait_def) (cases ch; auto simp: demo_sem_def)
  have c1: "chan_cnt (sst demo_wait) (NCnt 1) = 1" by (simp add: demo_wait_def)
  have "0 \<le> chan_cnt (sst demo_wait) ch \<and> chan_cnt (sst demo_wait) ch \<le> int (card (asleep_on 100 (sprocs demo_wait) ch))" for ch
  proof (cases "ch = NCnt 1")
    case True
    show ?thesis unfolding True c1 as(1) by simp
  next
    case False
    show ?thesis unfolding as(2) [OF False] by simp
  qed
  ultimately show ?thesis
    by (auto simp: sys_ok_def sleeper_ok_def demo_wait_def demo_sem_def)
qed

lemmas sem_call_defs = sem_entry_def semsys_def semop_def semconv_def ipcaccess_def semop_try_def semop_finish_def
  sem_wake_n_def sem_wake_z_def semop_aoe_def

lemma demo_post:
  "\<exists>st'. semsys demo_si demo_user 7 (demo_um [\<lparr>sem_num = 1, sem_op = 1, sem_flg = 0\<rparr>]) 2 (\<lambda>_. 0)
     (sem_entry (sst demo_wait)) = Some (SemDone, 0, st') \<and> semval (sems st' 1) = 1"
  by (simp add: sem_call_defs demo_wait_def demo_sem_def demo_si_def demo_um_def demo_user_def IPC_ALLOC_def SEM_A_def Let_def uint16_def)

theorem sem_no_missed_wakeup_witness:
  "\<exists>s'. sem_step demo_si 100 demo_wait s' \<and> sprocs s' 0 \<noteq> sprocs demo_wait 0"
proof -
  from demo_post obtain st' where st': "semsys demo_si demo_user 7 (demo_um [\<lparr>sem_num = 1, sem_op = 1, sem_flg = 0\<rparr>]) 2 (\<lambda>_. 0)
     (sem_entry (sst demo_wait)) = Some (SemDone, 0, st')" "semval (sems st' 1) = 1" by blast
  let ?c = "\<lparr>sc_semid = 0, sc_sops = 0, sc_nsops = 0, sc_slot = 0\<rparr>"
  have step: "sem_step demo_si 100 demo_wait (sem_next demo_wait 1 st' (sem_after ?c SemDone st'))"
    by (rule sem_call [OF _ _ _ demo_um_ok st'(1)]) (simp_all add: demo_wait_def demo_user_def)
  have p0: "sprocs demo_wait 0 = SpAsleep \<lparr>sc_semid = 0, sc_sops = 0, sc_nsops = 1, sc_slot = 0\<rparr> (NCnt 1) 0"
    by (simp add: demo_wait_def)
  have "semval (sems (sst (sem_next demo_wait 1 st' (sem_after ?c SemDone st'))) 1) = 1" using st'(2) by (simp add: sem_next_def)
  then show ?thesis
    using sem_no_missed_wakeup [OF demo_wait_ok demo_si_ok _ step p0, of 1] step p0 by auto
qed


text \<open>C20. No call hangs: in a well-formed state every semaphore system call, every resumption after a sleep
  and every exit returns; no walk of an undo chain or of the resource map fails to end.\<close>

theorem sem_calls_return:
  assumes "sys_ok si n s" "si_ok si" "um_ok um"
  shows "semsys si u time um fid a (sem_entry (sst s)) \<noteq> None \<and>
    semop_again si u time um semid sops nsops i (sem_entry (sst s)) \<noteq> None \<and>
    semexit si u (sem_entry (sst s)) \<noteq> None"
  using sem_step_total [OF assms] by blast

theorem sem_calls_return_witness:
  "semsys demo_si demo_user 7 (demo_um []) 0 (\<lambda>_. 0) (sem_entry (sst demo_wait)) \<noteq> None"
  using sem_calls_return [OF demo_wait_ok demo_si_ok demo_um_ok] by blast

text \<open>C8. \<open>semop\<close> is all or nothing.  The loop always returns; when it completes, every semaphore has
  changed by the sum of the operations on it and the caller's undo entries by the negated sum of those
  marked \<open>SEM_UNDO\<close>; when it fails or goes to sleep, every value and every process's undo entries are as
  before, and a sleep is on the channel of the first operation that cannot be done on the tentative values.\<close>

theorem semop_atomic:
  assumes "sem_inv si st" "si_ok si"
  shows "\<exists>out st'. semop_try si u time semid i ops st = Some (out, st') \<and> sem_range si st' \<and>
    (out = SemDone \<longrightarrow>
       (\<forall>k. semval (sems st' k) = semval (sems st k) + op_sum (sem_base (sema st i)) k ops) \<and>
       (\<forall>q. q \<noteq> u_proc u \<longrightarrow> pents st' q = pents st q) \<and>
       (\<forall>j n. ents_adj (pents st' (u_proc u)) j n =
          ents_adj (pents st (u_proc u)) j n - (if j = semid then undo_sum n ops else 0))) \<and>
    (out = SemFail \<longrightarrow>
       (\<forall>k. semval (sems st' k) = semval (sems st k)) \<and> pents st' = pents st \<and> u_error st' \<noteq> None) \<and>
    (\<forall>ch. out = SemSleep ch \<longrightarrow>
       (\<forall>k. semval (sems st' k) = semval (sems st k)) \<and> pents st' = pents st \<and>
       blocked_at (sem_base (sema st i)) (\<lambda>k. semval (sems st k)) ops ch)"
proof -
  from semop_try_spec [OF assms, of u time semid i ops] obtain out st' where
    t: "semop_try si u time semid i ops st = Some (out, st')" "try_res si u semid (sem_base (sema st i)) ops st out st'" by blast
  have rng: "sem_range si st" using assms(1) by (simp add: sem_inv_def)
  show ?thesis
  proof (cases out)
    case SemDone
    then show ?thesis using t by (auto simp: try_res_def sem_step_ok_def sem_inv_def)
  next
    case SemFail
    then have v: "semval (sems st' k) = semval (sems st k)" for k using t(2) by (auto simp: try_res_def dest: fun_cong)
    then show ?thesis using t SemFail rng by (auto simp: try_res_def sem_range_def)
  next
    case (SemSleep ch)
    then obtain st0 where s: "semvals st0 = semvals st" "pents st0 = pents st" "st' = sem_bump ch st0"
      using t(2) by (auto simp: try_res_def)
    have v: "semval (sems st' k) = semval (sems st k)" for k
      using fun_cong [OF sem_bump_sel(1) [of ch st0], of k] fun_cong [OF s(1), of k] s(3) by simp
    have "pents st' = pents st" using s(2) pents_eq [OF sem_bump_sel(5,6), of ch st0] unfolding s(3) by simp
    then show ?thesis using t SemSleep v rng by (auto simp: try_res_def sem_range_def)
  qed
qed

theorem semop_atomic_witness:
  "\<exists>ch st'. semop_try demo_si demo_user 7 0 0 [\<lparr>sem_num = 0, sem_op = -1, sem_flg = 4096\<rparr>, \<lparr>sem_num = 1, sem_op = -1, sem_flg = 0\<rparr>] demo_sem =
     Some (SemSleep ch, st') \<and> semval (sems st' 0) = 2"
proof -
  let ?ops = "[\<lparr>sem_num = 0, sem_op = -1, sem_flg = 4096\<rparr>, \<lparr>sem_num = 1, sem_op = -1, sem_flg = 0\<rparr>]"
  from semop_atomic [OF demo_sem_inv demo_si_ok, of demo_user 7 0 0 ?ops] obtain out st' where
    t: "semop_try demo_si demo_user 7 0 0 ?ops demo_sem = Some (out, st')" and
    p: "out = SemDone \<longrightarrow> (\<forall>k. semval (sems st' k) = semval (sems demo_sem k) + op_sum (sem_base (sema demo_sem 0)) k ?ops)"
      "out = SemFail \<longrightarrow> u_error st' \<noteq> None"
      "\<forall>ch. out = SemSleep ch \<longrightarrow> (\<forall>k. semval (sems st' k) = semval (sems demo_sem k))" by blast
  have "\<exists>ch st'. semop_try demo_si demo_user 7 0 0 ?ops demo_sem = Some (SemSleep ch, st')"
    by (simp add: semop_try_def semop_aoe_def semundo_one_def demo_sem_def demo_si_def demo_user_def SEM_UNDO_def IPC_NOWAIT_def
      semaoe_def semaoe_slot_def semaoe_insert_def semaoe_update_def semaoe_remove_def sem_unlink_def int16_def Let_def)
  then obtain ch where "out = SemSleep ch" using t by auto
  then show ?thesis using t p(3) by (auto simp: demo_sem_sel)
qed





end
