(* ===== verification/Flock.thy ===== *)
theory Flock
  imports Chains
begin

text \<open>
  File and record locking: \<open>os/flock.c\<close> over \<open>struct flock\<close> (\<open>sys/fcntl.h\<close>) and \<open>struct filock\<close>
  (\<open>sys/flock.h\<close>).  The records live in the table \<open>flox\<close>; the free list, the list of sleeping
  requests and the list of every inode are doubly linked through it.  This theory holds the model of
  the operations; a call that would sleep stops with \<open>RlSleep\<close> and is continued by \<open>reclock_wake\<close>.
\<close>

section \<open>Data\<close>

record flock =
  l_type :: int
  l_whence :: int
  l_start :: int
  l_len :: int
  l_sysid :: int
  l_pid :: int

text \<open>Inside the kernel the field \<open>l_len\<close> holds the end of the region (\<open>#define l_end l_len\<close>).\<close>

abbreviation l_end :: "flock \<Rightarrow> int" where "l_end \<equiv> l_len"

text \<open>
  \<open>fl_stat\<close> is the union of the counter \<open>wakeflg\<close> of a lock and of the pair of shorts \<open>blk\<close> of a sleeping
  request: four bytes, the most significant first.
\<close>

record filock =
  fl_set :: flock
  fl_stat :: u32
  fl_prev :: ptr
  fl_next :: ptr

abbreviation wakeflg :: "filock \<Rightarrow> u32" where "wakeflg \<equiv> fl_stat"

definition blk_sysid :: "filock \<Rightarrow> int" where
  "blk_sysid f = sint (ucast (drop_bit 16 (fl_stat f)) :: u16)"

definition blk_pid :: "filock \<Rightarrow> int" where
  "blk_pid f = sint (ucast (fl_stat f) :: u16)"

definition set_blk_pid :: "int \<Rightarrow> filock \<Rightarrow> filock" where
  "set_blk_pid pid f = f\<lparr>fl_stat := (fl_stat f AND 0xFFFF0000) OR ucast (word_of_int pid :: u16)\<rparr>"

definition set_blk_sysid :: "int \<Rightarrow> filock \<Rightarrow> filock" where
  "set_blk_sysid sysid f =
     f\<lparr>fl_stat := (fl_stat f AND 0xFFFF) OR push_bit 16 (ucast (word_of_int sysid :: u16))\<rparr>"

definition MAXEND :: int where "MAXEND = 2147483647"
definition F_RDLCK :: int where "F_RDLCK = 1"
definition F_WRLCK :: int where "F_WRLCK = 2"
definition F_UNLCK :: int where "F_UNLCK = 3"
definition INOFLCK :: u32 where "INOFLCK = 1"
definition SETFLCK :: u32 where "SETFLCK = 2"
definition SLPFLCK :: u32 where "SLPFLCK = 4"
definition FREAD :: u32 where "FREAD = 1"
definition FWRITE :: u32 where "FWRITE = 2"

text \<open>The identity of the caller, from its \<open>proc\<close> structure.\<close>

record flk_id =
  p_epid :: int
  p_sysid :: int

text \<open>
  The tables: records, heads of the lists, \<open>struct flckinfo\<close>, and of every inode the head of its locks,
  its size and whether it is locked.  \<open>fl_wakes\<close> logs the records on which sleepers were woken.
\<close>

record flk =
  flox :: "nat \<Rightarrow> filock"
  frlock :: ptr
  sleeplcks :: ptr
  i_filocks :: "nat \<Rightarrow> ptr"
  i_size :: "nat \<Rightarrow> int"
  i_lock :: "nat \<Rightarrow> bool"
  fl_recs :: int
  fl_reccnt :: int
  fl_recovf :: int
  fl_rectot :: int
  fl_wakes :: "nat list"

text \<open>A \<open>struct filock **\<close>: the address of \<open>sleeplcks\<close> or of the list head of an inode.\<close>

datatype lckref = SleepL | InoL nat

fun lck_head :: "lckref \<Rightarrow> flk \<Rightarrow> ptr" where
  "lck_head SleepL st = sleeplcks st"
| "lck_head (InoL ip) st = i_filocks st ip"

fun set_lck_head :: "lckref \<Rightarrow> ptr \<Rightarrow> flk \<Rightarrow> flk" where
  "set_lck_head SleepL p st = st\<lparr>sleeplcks := p\<rparr>"
| "set_lck_head (InoL ip) p st = st\<lparr>i_filocks := (i_filocks st)(ip := p)\<rparr>"

definition upd_fl :: "nat \<Rightarrow> (filock \<Rightarrow> filock) \<Rightarrow> flk \<Rightarrow> flk" where
  "upd_fl a f st = st\<lparr>flox := (flox st)(a := f (flox st a))\<rparr>"

abbreviation set_next :: "nat \<Rightarrow> ptr \<Rightarrow> flk \<Rightarrow> flk" where
  "set_next a p \<equiv> upd_fl a (\<lambda>f. f\<lparr>fl_next := p\<rparr>)"

abbreviation set_prev :: "nat \<Rightarrow> ptr \<Rightarrow> flk \<Rightarrow> flk" where
  "set_prev a p \<equiv> upd_fl a (\<lambda>f. f\<lparr>fl_prev := p\<rparr>)"

text \<open>\<open>if (p != NULL) p->prev = q\<close>.\<close>

definition set_prev_of :: "ptr \<Rightarrow> ptr \<Rightarrow> flk \<Rightarrow> flk" where
  "set_prev_of p q st = (case p of None \<Rightarrow> st | Some a \<Rightarrow> set_prev a q st)"

section \<open>The lists\<close>

fun flckinit_from :: "nat \<Rightarrow> nat \<Rightarrow> flk \<Rightarrow> flk" where
  "flckinit_from i 0 st = st"
| "flckinit_from i (Suc n) st = flckinit_from (Suc i) n
     (case frlock st of
        None \<Rightarrow> (set_prev i None (set_next i None st))\<lparr>frlock := Some i\<rparr>
      | Some f \<Rightarrow> (set_prev f (Some i) (set_prev i None (set_next i (Some f) st)))\<lparr>frlock := Some i\<rparr>)"

definition flckinit :: "flk \<Rightarrow> flk" where
  "flckinit st = flckinit_from 0 (nat (fl_recs st)) st"

definition insflck :: "flk_id \<Rightarrow> lckref \<Rightarrow> flock \<Rightarrow> ptr \<Rightarrow> flk \<Rightarrow> ptr \<times> flk" where
  "insflck u r ld fl st = (case frlock st of
     None \<Rightarrow> (None, st\<lparr>fl_recovf := int32 (fl_recovf st + 1)\<rparr>)
   | Some n \<Rightarrow>
       let st1 = st\<lparr>fl_reccnt := int32 (fl_reccnt st + 1), fl_rectot := int32 (fl_rectot st + 1),
                    frlock := fl_next (flox st n)\<rparr>;
           st2 = set_prev_of (frlock st1) None st1;
           st3 = upd_fl n (\<lambda>f. f\<lparr>fl_set := ld\<lparr>l_pid := p_epid u, l_sysid := p_sysid u\<rparr>, fl_stat := 0\<rparr>) st2;
           st4 = (case fl of
             None \<Rightarrow> let s1 = set_next n (lck_head r st3) st3;
                         s2 = set_prev_of (fl_next (flox s1 n)) (Some n) s1
                     in set_lck_head r (Some n) s2
           | Some a \<Rightarrow> let s1 = set_next n (fl_next (flox st3 a)) st3;
                           s2 = set_prev_of (fl_next (flox s1 a)) (Some n) s1
                       in set_next a (Some n) s2)
       in (Some n, set_prev n fl st4))"

text \<open>The macro \<open>WAKEUP\<close>.\<close>

definition wakeup_fl :: "nat \<Rightarrow> flk \<Rightarrow> flk" where
  "wakeup_fl a st = (if wakeflg (flox st a) \<noteq> 0
     then (upd_fl a (\<lambda>f. f\<lparr>fl_stat := 0\<rparr>) st)\<lparr>fl_wakes := fl_wakes st @ [a]\<rparr> else st)"

definition delflck :: "lckref \<Rightarrow> nat \<Rightarrow> flk \<Rightarrow> flk" where
  "delflck r fl st =
     (let st1 = (case fl_prev (flox st fl) of
            None \<Rightarrow> set_lck_head r (fl_next (flox st fl)) st
          | Some b \<Rightarrow> set_next b (fl_next (flox st fl)) st);
          st2 = set_prev_of (fl_next (flox st1 fl)) (fl_prev (flox st1 fl)) st1;
          st3 = wakeup_fl fl st2;
          st4 = st3\<lparr>fl_reccnt := int32 (fl_reccnt st3 - 1)\<rparr>
      in case frlock st4 of
           None \<Rightarrow> (set_next fl None (set_prev fl None st4))\<lparr>frlock := Some fl\<rparr>
         | Some h \<Rightarrow> (set_prev h (Some fl) (set_prev fl None (set_next fl (Some h) st4)))\<lparr>frlock := Some fl\<rparr>)"

section \<open>Regions\<close>

text \<open>The two octal digits of the region type.\<close>

datatype span_start = S_BEFORE | S_START | S_MIDDLE | S_END | S_AFTER
datatype span_end = E_BEFORE | E_START | E_MIDDLE | E_END | E_AFTER

definition regflck :: "flock \<Rightarrow> flock \<Rightarrow> span_start \<times> span_end" where
  "regflck ld fs =
     (if l_start ld > l_start fs \<and> int32 (l_start ld - 1) = l_end fs then (S_END, E_AFTER)
      else if l_start ld > l_start fs \<and> l_start ld > l_end fs then (S_AFTER, E_AFTER)
      else let s = (if l_start ld > l_start fs then S_MIDDLE
                    else if l_start ld = l_start fs then S_START else S_BEFORE)
           in if l_end ld < l_end fs
              then if l_end ld = int32 (l_start fs - 1) then (s, E_START)
                   else if l_end ld < l_start fs then (s, E_BEFORE)
                   else (s, E_MIDDLE)
              else if l_end ld = l_end fs then (s, E_END) else (s, E_AFTER))"

section \<open>Adjusting the locks of the caller\<close>

definition own_lock :: "flk_id \<Rightarrow> flock \<Rightarrow> bool" where
  "own_lock u fs \<longleftrightarrow> l_pid fs = p_epid u \<and> l_sysid fs = p_sysid u"

text \<open>The search \<open>do { if (p->set.l_start < s) q = p; else break; } while (p = p->next)\<close>.\<close>

fun ins_search :: "nat \<Rightarrow> flk \<Rightarrow> int \<Rightarrow> nat \<Rightarrow> ptr \<Rightarrow> ptr option" where
  "ins_search 0 st s p q = None"
| "ins_search (Suc n) st s p q =
     (if l_start (fl_set (flox st p)) < s
      then case fl_next (flox st p) of None \<Rightarrow> Some (Some p) | Some p' \<Rightarrow> ins_search n st s p' (Some p)
      else Some q)"

text \<open>
  One turn of the loop of \<open>flckadj\<close> over a lock of the caller continues with the next lock, the
  insertion point and the adjusted request, or returns.
\<close>

datatype adj = AdjLoop ptr ptr flock flk | AdjRet "errno option" flock flk

text \<open>The branch that frees a region in the middle or at the start of a lock of another type.\<close>

definition adj_split :: "flk_id \<Rightarrow> lckref \<Rightarrow> bool \<Rightarrow> nat \<Rightarrow> ptr \<Rightarrow> flock \<Rightarrow> flk \<Rightarrow> adj option" where
  "adj_split u r mid flp insrtp ld st =
     (let td = (fl_set (flox st flp))\<lparr>l_start := int32 (l_end ld + 1)\<rparr>
      in case ins_search (nat (fl_recs st)) st (l_start td) flp (Some flp) of
           None \<Rightarrow> None
         | Some tdi \<Rightarrow>
             (case insflck u r td tdi st of
                (None, st1) \<Rightarrow> Some (AdjRet (Some ENOLCK) ld st1)
              | (Some _, st1) \<Rightarrow>
                  if mid
                  then Some (AdjLoop None (Some flp) ld
                    (wakeup_fl flp (upd_fl flp (\<lambda>f. f\<lparr>fl_set := (fl_set f)\<lparr>l_len := int32 (l_start ld - 1)\<rparr>\<rparr>) st1)))
                  else Some (AdjLoop None insrtp ld (delflck r flp st1))))"

text \<open>The branch that shortens a lock in front of the request.\<close>

definition adj_shrink :: "nat \<Rightarrow> ptr \<Rightarrow> flock \<Rightarrow> flk \<Rightarrow> adj option" where
  "adj_shrink flp nflp ld st =
     Some (AdjLoop nflp (Some flp) ld
       (wakeup_fl flp (upd_fl flp (\<lambda>f. f\<lparr>fl_set := (fl_set f)\<lparr>l_len := int32 (l_start ld - 1)\<rparr>\<rparr>) st)))"

definition adj_own :: "flk_id \<Rightarrow> lckref \<Rightarrow> nat \<Rightarrow> ptr \<Rightarrow> ptr \<Rightarrow> flock \<Rightarrow> flk \<Rightarrow> adj option" where
  "adj_own u r flp nflp insrtp ld st =
     (let fs = fl_set (flox st flp); same = (l_type ld = l_type fs); pv = fl_prev (flox st flp) in
      case regflck ld fs of
        (S_BEFORE, E_BEFORE) \<Rightarrow> Some (AdjLoop None insrtp ld st)
      | (S_BEFORE, E_START) \<Rightarrow>
          if same then Some (AdjLoop None insrtp (ld\<lparr>l_len := l_end fs\<rparr>) (delflck r flp st))
          else Some (AdjLoop None insrtp ld st)
      | (S_START, E_END) \<Rightarrow>
          if same then Some (AdjRet None ld st) else Some (AdjLoop nflp pv ld (delflck r flp st))
      | (S_START, E_AFTER) \<Rightarrow> Some (AdjLoop nflp pv ld (delflck r flp st))
      | (S_BEFORE, E_END) \<Rightarrow> Some (AdjLoop (if same then None else nflp) insrtp ld (delflck r flp st))
      | (S_BEFORE, E_AFTER) \<Rightarrow> Some (AdjLoop nflp insrtp ld (delflck r flp st))
      | (S_START, E_MIDDLE) \<Rightarrow>
          if same then Some (AdjRet None ld st) else adj_split u r False flp pv ld st
      | (S_MIDDLE, E_MIDDLE) \<Rightarrow>
          if same then Some (AdjRet None ld st) else adj_split u r True flp insrtp ld st
      | (S_BEFORE, E_MIDDLE) \<Rightarrow>
          if same then Some (AdjLoop None insrtp (ld\<lparr>l_len := l_end fs\<rparr>) (delflck r flp st))
          else adj_split u r False flp insrtp ld st
      | (S_MIDDLE, E_END) \<Rightarrow>
          if same then Some (AdjRet None ld st) else adj_shrink flp nflp ld st
      | (S_MIDDLE, E_AFTER) \<Rightarrow>
          if same then Some (AdjLoop nflp pv (ld\<lparr>l_start := l_start fs\<rparr>) (delflck r flp st))
          else adj_shrink flp nflp ld st
      | (S_END, E_AFTER) \<Rightarrow>
          if same then Some (AdjLoop nflp pv (ld\<lparr>l_start := l_start fs\<rparr>) (delflck r flp st))
          else Some (AdjLoop nflp insrtp ld st)
      | (S_AFTER, E_AFTER) \<Rightarrow> Some (AdjLoop nflp (Some flp) ld st)
      | _ \<Rightarrow> Some (AdjLoop nflp insrtp ld st))"

fun flckadj_loop :: "nat \<Rightarrow> flk_id \<Rightarrow> lckref \<Rightarrow> ptr \<Rightarrow> ptr \<Rightarrow> flock \<Rightarrow> flk \<Rightarrow> adj option" where
  "flckadj_loop n u r None insrtp ld st = Some (AdjLoop None insrtp ld st)"
| "flckadj_loop 0 u r (Some flp) insrtp ld st = None"
| "flckadj_loop (Suc n) u r (Some flp) insrtp ld st =
     (let nflp = fl_next (flox st flp) in
      if own_lock u (fl_set (flox st flp))
      then case adj_own u r flp nflp insrtp ld st of
             None \<Rightarrow> None
           | Some (AdjRet e ld' st') \<Rightarrow> Some (AdjRet e ld' st')
           | Some (AdjLoop nflp' insrtp' ld' st') \<Rightarrow> flckadj_loop n u r nflp' insrtp' ld' st'
      else flckadj_loop n u r nflp insrtp ld st)"

definition flckadj_insert ::
  "flk_id \<Rightarrow> lckref \<Rightarrow> ptr \<Rightarrow> flock \<Rightarrow> flk \<Rightarrow> (errno option \<times> flock \<times> flk) option" where
  "flckadj_insert u r insrtp ld st =
     (if l_type ld \<noteq> F_UNLCK
      then case (case insrtp of None \<Rightarrow> Some None
                 | Some p \<Rightarrow> ins_search (nat (fl_recs st)) st (l_start ld) p insrtp) of
             None \<Rightarrow> None
           | Some q \<Rightarrow> (case insflck u r ld q st of
               (None, st1) \<Rightarrow> Some (Some ENOLCK, ld, st1)
             | (Some _, st1) \<Rightarrow> Some (None, ld, st1))
      else Some (None, ld, st))"

definition flckadj ::
  "flk_id \<Rightarrow> lckref \<Rightarrow> ptr \<Rightarrow> flock \<Rightarrow> flk \<Rightarrow> (errno option \<times> flock \<times> flk) option" where
  "flckadj u r insrtp ld st =
     (case flckadj_loop (nat (fl_recs st)) u r (case insrtp of None \<Rightarrow> lck_head r st | _ \<Rightarrow> insrtp) insrtp ld st of
        None \<Rightarrow> None
      | Some (AdjRet e ld' st') \<Rightarrow> Some (e, ld', st')
      | Some (AdjLoop _ insrtp' ld' st') \<Rightarrow> flckadj_insert u r insrtp' ld' st')"

section \<open>Blocking locks\<close>

definition conflicts :: "flock \<Rightarrow> flock \<Rightarrow> bool" where
  "conflicts ld fs \<longleftrightarrow> l_type fs = F_WRLCK \<or> l_type fs = F_RDLCK \<and> l_type ld = F_WRLCK"

fun blocked_rest :: "nat \<Rightarrow> flk_id \<Rightarrow> flk \<Rightarrow> flock \<Rightarrow> ptr \<Rightarrow> ptr option" where
  "blocked_rest n u st ld None = Some None"
| "blocked_rest 0 u st ld (Some f) = None"
| "blocked_rest (Suc n) u st ld (Some f) =
     (let fs = fl_set (flox st f) in
      if l_end ld < l_start fs then Some None
      else if l_start ld \<le> l_end fs \<and> \<not> own_lock u fs \<and> conflicts ld fs then Some (Some f)
      else blocked_rest n u st ld (fl_next (flox st f)))"

fun blocked_from :: "nat \<Rightarrow> flk_id \<Rightarrow> flk \<Rightarrow> flock \<Rightarrow> ptr \<Rightarrow> ptr \<Rightarrow> (ptr \<times> ptr) option" where
  "blocked_from n u st ld None insrt = Some (None, insrt)"
| "blocked_from 0 u st ld (Some f) insrt = None"
| "blocked_from (Suc n) u st ld (Some f) insrt =
     (let fs = fl_set (flox st f) in
      if \<not> l_start fs < l_start ld
      then map_option (\<lambda>b. (b, insrt)) (blocked_rest (Suc n) u st ld (Some f))
      else if own_lock u fs
      then if int32 (l_start ld - 1) \<le> l_end fs
           then map_option (\<lambda>b. (b, Some f)) (blocked_rest (Suc n) u st ld (Some f))
           else blocked_from n u st ld (fl_next (flox st f)) (Some f)
      else if l_start ld \<le> l_end fs \<and> conflicts ld fs then Some (Some f, Some f)
      else blocked_from n u st ld (fl_next (flox st f)) (Some f))"

text \<open>The blocking lock and the insertion point.\<close>

definition blocked :: "flk_id \<Rightarrow> flk \<Rightarrow> ptr \<Rightarrow> flock \<Rightarrow> (ptr \<times> ptr) option" where
  "blocked u st flp ld = blocked_from (nat (fl_recs st)) u st ld flp None"

section \<open>Deadlock detection\<close>

fun sleep_find :: "nat \<Rightarrow> flk \<Rightarrow> int \<Rightarrow> int \<Rightarrow> ptr \<Rightarrow> ptr option" where
  "sleep_find n st pid sysid None = Some None"
| "sleep_find 0 st pid sysid (Some sf) = None"
| "sleep_find (Suc n) st pid sysid (Some sf) =
     (let fs = fl_set (flox st sf) in
      if pid = l_pid fs \<and> sysid = l_sysid fs then Some (Some sf)
      else sleep_find n st pid sysid (fl_next (flox st sf)))"

text \<open>
  The loop follows the requests on which the blocking processes sleep; it does not return on a cycle of
  sleepers that leaves out the caller.
\<close>

fun deadflck_loop :: "nat \<Rightarrow> flk_id \<Rightarrow> flk \<Rightarrow> int \<Rightarrow> int \<Rightarrow> bool option" where
  "deadflck_loop 0 u st pid sysid = None"
| "deadflck_loop (Suc n) u st pid sysid =
     (if pid = p_epid u \<and> sysid = p_sysid u then Some True
      else case sleep_find (nat (fl_recs st)) st pid sysid (sleeplcks st) of
             None \<Rightarrow> None
           | Some None \<Rightarrow> Some False
           | Some (Some sf) \<Rightarrow> deadflck_loop n u st (blk_pid (flox st sf)) (blk_sysid (flox st sf)))"

definition deadflck :: "flk_id \<Rightarrow> nat \<Rightarrow> flk \<Rightarrow> bool option" where
  "deadflck u flp st = deadflck_loop (Suc (nat (fl_recs st))) u st
     (l_pid (fl_set (flox st flp))) (l_sysid (fl_set (flox st flp)))"

section \<open>The locking call\<close>

definition convoff :: "nat \<Rightarrow> int \<Rightarrow> int \<Rightarrow> flk \<Rightarrow> flock \<Rightarrow> errno option \<times> flock" where
  "convoff ip whence offset st ld =
     (if l_whence ld \<notin> {0, 1, 2} then (Some EINVAL, ld)
      else let ld1 = (if l_whence ld = 1 then ld\<lparr>l_start := int32 (l_start ld + offset)\<rparr>
                      else if l_whence ld = 2 then ld\<lparr>l_start := int32 (l_start ld + i_size st ip)\<rparr> else ld)
           in if l_start ld1 < 0 then (Some EINVAL, ld1)
              else if whence \<notin> {0, 1, 2} then (Some EINVAL, ld1)
              else let ld2 = (if whence = 1 then ld1\<lparr>l_start := int32 (l_start ld1 - offset)\<rparr>
                              else if whence = 2 then ld1\<lparr>l_start := int32 (l_start ld1 - i_size st ip)\<rparr> else ld1)
                   in (None, ld2\<lparr>l_whence := int16 whence\<rparr>))"

datatype rl_out = RlDone "errno option" | RlSleep nat nat

text \<open>Going to sleep on a blocking lock: \<open>RlSleep\<close> holds the lock and the record of the sleeping request.\<close>

definition reclock_sleep ::
  "flk_id \<Rightarrow> nat \<Rightarrow> u32 \<Rightarrow> nat \<Rightarrow> flock \<Rightarrow> flk \<Rightarrow> (rl_out \<times> flock \<times> flk) option" where
  "reclock_sleep u ip cmd found ld st = (case deadflck u found st of
     None \<Rightarrow> None
   | Some True \<Rightarrow> Some (RlDone (Some EDEADLK), ld, st)
   | Some False \<Rightarrow> (case insflck u SleepL ld None st of
        (None, st1) \<Rightarrow> Some (RlDone (Some ENOLCK), ld, st1)
      | (Some sf, st1) \<Rightarrow>
          let st2 = upd_fl found (\<lambda>f. f\<lparr>fl_stat := fl_stat f + 1\<rparr>) st1;
              st3 = upd_fl sf (set_blk_pid (l_pid (fl_set (flox st2 found)))) st2;
              st4 = upd_fl sf (set_blk_sysid (l_sysid (fl_set (flox st3 found)))) st3;
              st5 = (if cmd AND INOFLCK \<noteq> 0 then st4\<lparr>i_lock := (i_lock st4)(ip := False)\<rparr> else st4)
          in Some (RlSleep found sf, ld, st5)))"

text \<open>One turn of the loop of \<open>reclock\<close>.\<close>

definition reclock_try ::
  "flk_id \<Rightarrow> nat \<Rightarrow> u32 \<Rightarrow> flock \<Rightarrow> flk \<Rightarrow> (rl_out \<times> flock \<times> flk) option" where
  "reclock_try u ip cmd ld st =
     (if l_type ld = F_RDLCK \<or> l_type ld = F_WRLCK
      then case blocked u st (i_filocks st ip) ld of
             None \<Rightarrow> None
           | Some (None, insrt) \<Rightarrow>
               if cmd AND SETFLCK \<noteq> 0
               then map_option (\<lambda>(e, ld', st'). (RlDone e, ld', st')) (flckadj u (InoL ip) insrt ld st)
               else Some (RlDone None, ld\<lparr>l_type := F_UNLCK\<rparr>, st)
           | Some (Some found, insrt) \<Rightarrow>
               if cmd AND SLPFLCK \<noteq> 0 then reclock_sleep u ip cmd found ld st
               else if cmd AND SETFLCK \<noteq> 0 then Some (RlDone (Some EAGAIN), ld, st)
               else Some (RlDone None, fl_set (flox st found), st)
      else if l_type ld = F_UNLCK
      then if cmd AND SETFLCK \<noteq> 0
           then map_option (\<lambda>(e, ld', st'). (RlDone e, ld', st')) (flckadj u (InoL ip) (i_filocks st ip) ld st)
           else Some (RlDone None, ld, st)
      else Some (RlDone (Some EINVAL), ld, st))"

definition reclock_finish :: "nat \<Rightarrow> int \<Rightarrow> int \<Rightarrow> flk \<Rightarrow> flock \<Rightarrow> flock" where
  "reclock_finish ip whence offset st ld =
     (let ld1 = (if l_end ld = MAXEND then ld\<lparr>l_len := 0\<rparr>
                 else ld\<lparr>l_len := int32 (l_len ld - int32 (l_start ld - 1))\<rparr>)
      in snd (convoff ip whence offset st ld1))"

definition reclock_next :: "nat \<Rightarrow> int \<Rightarrow> int \<Rightarrow> rl_out \<times> flock \<times> flk \<Rightarrow> rl_out \<times> flock \<times> flk" where
  "reclock_next ip whence offset res = (case res of
     (RlDone e, ld, st) \<Rightarrow> (RlDone e, reclock_finish ip whence offset st ld, st)
   | (RlSleep found sf, ld, st) \<Rightarrow> (RlSleep found sf, ld, st))"

text \<open>The checks and conversions in front of the loop: the error, or the request in absolute form.\<close>

definition reclock_prep :: "nat \<Rightarrow> u32 \<Rightarrow> u32 \<Rightarrow> int \<Rightarrow> flk \<Rightarrow> flock \<Rightarrow> errno option \<times> flock" where
  "reclock_prep ip cmd flag offset st ld =
     (if cmd AND SETFLCK \<noteq> 0 \<and>
         (l_type ld = F_RDLCK \<and> flag AND FREAD = 0 \<or> l_type ld = F_WRLCK \<and> flag AND FWRITE = 0)
      then (Some EBADF, ld)
      else case convoff ip 0 offset st ld of
             (Some e, ld1) \<Rightarrow> (Some e, ld1)
           | (None, ld1) \<Rightarrow>
               if l_len ld1 < 0 then (Some EINVAL, ld1)
               else let ld2 = (if l_len ld1 = 0 then ld1\<lparr>l_len := MAXEND\<rparr>
                               else ld1\<lparr>l_len := int32 (l_len ld1 + int32 (l_start ld1 - 1))\<rparr>)
                    in if l_start ld2 > l_end ld2 then (Some EINVAL, ld2) else (None, ld2))"

definition reclock ::
  "flk_id \<Rightarrow> nat \<Rightarrow> flock \<Rightarrow> u32 \<Rightarrow> u32 \<Rightarrow> int \<Rightarrow> flk \<Rightarrow> (rl_out \<times> flock \<times> flk) option" where
  "reclock u ip ld cmd flag offset st = (case reclock_prep ip cmd flag offset st ld of
     (Some e, ld1) \<Rightarrow> Some (RlDone (Some e), ld1, st)
   | (None, ld1) \<Rightarrow> map_option (reclock_next ip (l_whence ld) offset) (reclock_try u ip cmd ld1 st))"

text \<open>
  The rest of \<open>reclock\<close> after the sleep on behalf of the record \<open>sf\<close>; \<open>intr\<close> is a sleep ended by a
  signal.  \<open>plock\<close> has given the inode back to the caller when the loop goes on.
\<close>

definition reclock_wake ::
  "flk_id \<Rightarrow> nat \<Rightarrow> u32 \<Rightarrow> int \<Rightarrow> int \<Rightarrow> bool \<Rightarrow> nat \<Rightarrow> flock \<Rightarrow> flk \<Rightarrow> (rl_out \<times> flock \<times> flk) option" where
  "reclock_wake u ip cmd whence offset intr sf ld st =
     (let st1 = delflck SleepL sf (upd_fl sf (set_blk_sysid 0) (upd_fl sf (set_blk_pid 0) st));
          st2 = (if cmd AND INOFLCK \<noteq> 0 then st1\<lparr>i_lock := (i_lock st1)(ip := True)\<rparr> else st1)
      in map_option (reclock_next ip whence offset)
           (if intr then Some (RlDone (Some EINTR), ld, st2) else reclock_try u ip cmd ld st2))"

section \<open>Exit and close\<close>

definition USE_PID :: nat where "USE_PID = 1"
definition IGN_PID :: nat where "IGN_PID = 2"

fun cleanlocks_from :: "nat \<Rightarrow> flk_id \<Rightarrow> nat \<Rightarrow> nat \<Rightarrow> ptr \<Rightarrow> flk \<Rightarrow> flk option" where
  "cleanlocks_from n u ip flag None st = Some st"
| "cleanlocks_from 0 u ip flag (Some flp) st = None"
| "cleanlocks_from (Suc n) u ip flag (Some flp) st =
     (let nflp = fl_next (flox st flp); fs = fl_set (flox st flp) in
      cleanlocks_from n u ip flag nflp
        (if (l_pid fs = p_epid u \<or> flag = IGN_PID) \<and> l_sysid fs = p_sysid u
         then delflck (InoL ip) flp st else st))"

definition cleanlocks :: "flk_id \<Rightarrow> nat \<Rightarrow> nat \<Rightarrow> flk \<Rightarrow> flk option" where
  "cleanlocks u ip flag st = cleanlocks_from (nat (fl_recs st)) u ip flag (i_filocks st ip) st"

end
