(* ===== verification/FlockLists.thy ===== *)
theory FlockLists
  imports Flock
begin

text \<open>
  The lists of records: the free list, the sleeping requests and the locks of every inode partition the
  table, and \<open>insflck\<close>, \<open>delflck\<close> and \<open>WAKEUP\<close> change them as list operations.
\<close>

section \<open>Frames of the small updates\<close>

lemma flox_upd_fl [simp]: "flox (upd_fl a f st) b = (if b = a then f (flox st a) else flox st b)"
  by (simp add: upd_fl_def)

lemma upd_fl_frame [simp]:
  "frlock (upd_fl a f st) = frlock st" "sleeplcks (upd_fl a f st) = sleeplcks st"
  "i_filocks (upd_fl a f st) = i_filocks st" "i_size (upd_fl a f st) = i_size st"
  "i_lock (upd_fl a f st) = i_lock st" "fl_recs (upd_fl a f st) = fl_recs st"
  "fl_reccnt (upd_fl a f st) = fl_reccnt st" "fl_recovf (upd_fl a f st) = fl_recovf st"
  "fl_rectot (upd_fl a f st) = fl_rectot st" "fl_wakes (upd_fl a f st) = fl_wakes st"
  "lck_head r (upd_fl a f st) = lck_head r st"
  by (simp_all add: upd_fl_def) (cases r; simp)

lemma set_lck_head_frame [simp]:
  "flox (set_lck_head r p st) = flox st" "frlock (set_lck_head r p st) = frlock st"
  "i_size (set_lck_head r p st) = i_size st" "i_lock (set_lck_head r p st) = i_lock st"
  "fl_recs (set_lck_head r p st) = fl_recs st" "fl_reccnt (set_lck_head r p st) = fl_reccnt st"
  "fl_wakes (set_lck_head r p st) = fl_wakes st"
  "lck_head r' (set_lck_head r p st) = (if r' = r then p else lck_head r' st)"
  by (cases r; cases r'; simp)+

lemma set_prev_of_frame [simp]:
  "frlock (set_prev_of p q st) = frlock st" "i_size (set_prev_of p q st) = i_size st"
  "i_lock (set_prev_of p q st) = i_lock st" "fl_recs (set_prev_of p q st) = fl_recs st"
  "fl_reccnt (set_prev_of p q st) = fl_reccnt st" "fl_wakes (set_prev_of p q st) = fl_wakes st"
  "lck_head r (set_prev_of p q st) = lck_head r st"
  "fl_set (flox (set_prev_of p q st) b) = fl_set (flox st b)"
  "fl_stat (flox (set_prev_of p q st) b) = fl_stat (flox st b)"
  "fl_next (flox (set_prev_of p q st) b) = fl_next (flox st b)"
  "fl_prev (flox (set_prev_of p q st) b) = (if p = Some b then q else fl_prev (flox st b))"
  by (simp_all add: set_prev_of_def split: option.split)

lemma lck_head_frame [simp]:
  "lck_head r (st\<lparr>frlock := p\<rparr>) = lck_head r st" "lck_head r (st\<lparr>fl_reccnt := c\<rparr>) = lck_head r st"
  "lck_head r (st\<lparr>fl_recovf := c\<rparr>) = lck_head r st" "lck_head r (st\<lparr>fl_rectot := c\<rparr>) = lck_head r st"
  "lck_head r (st\<lparr>fl_wakes := w\<rparr>) = lck_head r st" "lck_head r (st\<lparr>i_lock := l\<rparr>) = lck_head r st"
  "lck_head r (st\<lparr>i_size := z\<rparr>) = lck_head r st"
  by (cases r; simp)+

section \<open>The partition of the table\<close>

definition lck_list :: "flk \<Rightarrow> ptr \<Rightarrow> nat list \<Rightarrow> bool" where
  "lck_list st = dlinked (\<lambda>a. fl_next (flox st a)) (\<lambda>a. fl_prev (flox st a))"

definition fl_lists :: "flk \<Rightarrow> nat list \<Rightarrow> (lckref \<Rightarrow> nat list) \<Rightarrow> bool" where
  "fl_lists st fr Ls \<longleftrightarrow>
     lck_list st (frlock st) fr \<and> (\<forall>r. lck_list st (lck_head r st) (Ls r)) \<and>
     (\<forall>r. set fr \<inter> set (Ls r) = {}) \<and> (\<forall>r r'. r \<noteq> r' \<longrightarrow> set (Ls r) \<inter> set (Ls r') = {}) \<and>
     set fr \<union> (\<Union>r. set (Ls r)) = {..< nat (fl_recs st)} \<and>
     0 \<le> fl_recs st \<and> fl_recs st < 2147483648 \<and> fl_reccnt st = fl_recs st - int (length fr)"

lemma fl_listsD:
  assumes "fl_lists st fr Ls"
  shows "lck_list st (frlock st) fr" "lck_list st (lck_head r st) (Ls r)" "set fr \<inter> set (Ls r) = {}"
    "r \<noteq> r' \<Longrightarrow> set (Ls r) \<inter> set (Ls r') = {}" "set fr \<union> (\<Union>r. set (Ls r)) = {..< nat (fl_recs st)}"
    "0 \<le> fl_recs st" "fl_recs st < 2147483648" "fl_reccnt st = fl_recs st - int (length fr)"
  using assms by (simp_all add: fl_lists_def)

lemma lck_list_distinct: "lck_list st p as \<Longrightarrow> distinct as"
  unfolding lck_list_def by (rule dlinked_distinct)

lemma lck_list_cong:
  "\<forall>a\<in>set as. fl_next (flox st' a) = fl_next (flox st a) \<and> fl_prev (flox st' a) = fl_prev (flox st a) \<Longrightarrow>
   lck_list st p as \<Longrightarrow> lck_list st' p as"
  unfolding lck_list_def by (rule dlinked_cong)

lemma lck_list_hdp: "lck_list st p as \<Longrightarrow> p = hdp as"
  unfolding lck_list_def by (rule dlinked_hdp)

lemma fl_lists_length: "fl_lists st fr Ls \<Longrightarrow> length (Ls r) \<le> nat (fl_recs st)"
  using fl_listsD(2) [of st fr Ls r] fl_listsD(5) [of st fr Ls] unfolding lck_list_def
  by (intro linked_length) (blast dest: dlinked_linked)+

lemma fl_lists_free_length: "fl_lists st fr Ls \<Longrightarrow> length fr \<le> nat (fl_recs st)"
  using fl_listsD(1) [of st fr Ls] fl_listsD(5) [of st fr Ls] unfolding lck_list_def
  by (intro linked_length) (blast dest: dlinked_linked)+

text \<open>The parts of the state that no list operation changes.\<close>

definition fl_frame :: "flk \<Rightarrow> flk \<Rightarrow> bool" where
  "fl_frame st st' \<longleftrightarrow> i_size st' = i_size st \<and> i_lock st' = i_lock st \<and> fl_recs st' = fl_recs st"

lemma fl_frame_refl [simp]: "fl_frame st st"
  by (simp add: fl_frame_def)

lemma fl_frame_trans: "fl_frame st st' \<Longrightarrow> fl_frame st' st'' \<Longrightarrow> fl_frame st st''"
  by (simp add: fl_frame_def)

section \<open>Insertion\<close>

definition stamped :: "flk_id \<Rightarrow> flock \<Rightarrow> flock" where
  "stamped u ld = ld\<lparr>l_pid := p_epid u, l_sysid := p_sysid u\<rparr>"

lemma insflck_full: "fl_lists st [] Ls \<Longrightarrow> insflck u r ld fl st = (None, st\<lparr>fl_recovf := int32 (fl_recovf st + 1)\<rparr>)"
  using fl_listsD(1) [of st "[]" Ls] by (simp add: insflck_def lck_list_def)

lemma insflck_ok:
  assumes L: "fl_lists st (n # fr) Ls" and r: "Ls r = xs @ ys" and fl: "fl = lastp None xs"
  obtains st' where "insflck u r ld fl st = (Some n, st')" "fl_lists st' fr (Ls(r := xs @ n # ys))"
    "\<And>b. fl_set (flox st' b) = (if b = n then stamped u ld else fl_set (flox st b))"
    "\<And>b. fl_stat (flox st' b) = (if b = n then 0 else fl_stat (flox st b))"
    "fl_wakes st' = fl_wakes st" "fl_frame st st'"
proof -
  note D = fl_listsD [OF L]
  obtain st' where e: "insflck u r ld fl st = (Some n, st')"
    using lck_list_hdp [OF D(1)] by (simp add: insflck_def Let_def)
  have fr: "frlock st = Some n" "fl_next (flox st n) = hdp fr"
    using D(1) dlinked_at(1) [of _ _ _ "[]" n fr] lck_list_hdp [OF D(1)] by (auto simp: lck_list_def)
  have hd: "lck_head r st = hdp (xs @ ys)" using lck_list_hdp [OF D(2) [of r]] r by simp
  have nr: "n \<notin> set (Ls q)" for q using D(3) [of q] by auto
  have nfr: "n \<notin> set fr" using lck_list_distinct [OF D(1)] by simp
  have last: "fl_next (flox st (last xs)) = hdp ys" if "xs \<noteq> []"
    using D(2) [of r] r that dlinked_next [of _ _ _ xs ys] by (simp add: lck_list_def)
  have lx: "last xs \<noteq> n" if "xs \<noteq> []" using nr [of r] r that last_in_set [of xs] by auto
  have nxt: "fl_next (flox st' b) = (if b = n then hdp ys else if lastp None xs = Some b then Some n else fl_next (flox st b))"
    for b using e fr fl hd last lx
    by (auto simp: insflck_def Let_def lastp_def hdp_append split: option.splits if_splits)
  have hy: "hdp ys \<noteq> Some n" using nr [of r] r by (auto dest: hdp_in)
  have hy': "b \<notin> set fr" if "hdp ys = Some b" for b using that D(3) [of r] r by (auto dest: hdp_in)
  have prv: "fl_prev (flox st' b) = (if b = n then lastp None xs else if hdp ys = Some b then Some n
       else if hdp fr = Some b then None else fl_prev (flox st b))"
    for b using e fr fl hd last lx hy
    by (auto simp: insflck_def Let_def lastp_def hdp_append split: option.splits if_splits)
  have hds: "lck_head q st' = (if q = r \<and> xs = [] then Some n else lck_head q st)" for q
    using e fr fl by (auto simp: insflck_def Let_def lastp_def split: option.splits if_splits)
  have oth: "frlock st' = hdp fr" "fl_wakes st' = fl_wakes st" "i_size st' = i_size st" "i_lock st' = i_lock st"
      "fl_recs st' = fl_recs st" "fl_reccnt st' = int32 (fl_reccnt st + 1)"
    using e fr fl by (auto simp: insflck_def Let_def split: option.splits)
  have data: "fl_set (flox st' b) = (if b = n then stamped u ld else fl_set (flox st b))"
      "fl_stat (flox st' b) = (if b = n then 0 else fl_stat (flox st b))" for b
    using e fr fl by (auto simp: insflck_def Let_def stamped_def lastp_def split: option.splits)
  have dfr: "distinct (n # fr)" by (rule lck_list_distinct [OF D(1)])
  have lastr: "b \<in> set (Ls r)" if "lastp None xs = Some b" for b
    using that r by (auto simp: lastp_def split: if_splits)
  have free: "lck_list st' (frlock st') fr"
  proof -
    have "dlinked (\<lambda>a. fl_next (flox st' a)) (\<lambda>a. fl_prev (flox st' a)) (hdp fr) ([] @ fr)"
    proof (rule dlinked_delete [where n = n])
      show "dlinked (\<lambda>a. fl_next (flox st a)) (\<lambda>a. fl_prev (flox st a)) (frlock st) ([] @ n # fr)"
        using D(1) by (simp add: lck_list_def)
      have pn: "fl_prev (flox st n) = None"
        using D(1) dlinked_at(2) [of _ _ _ "[]" n fr] by (simp add: lck_list_def)
      show "\<forall>a\<in>set ([] @ fr). lastp None [] \<noteq> Some a \<longrightarrow> fl_next (flox st' a) = fl_next (flox st a)"
        using nxt nfr D(3) [of r] lastr by auto
      show "\<forall>a\<in>set ([] @ fr). hdp fr \<noteq> Some a \<longrightarrow> fl_prev (flox st' a) = fl_prev (flox st a)"
        using prv nfr hy' by auto
      show "fl_prev (flox st' (hd fr)) = fl_prev (flox st n)" if "fr \<noteq> []"
        using prv [of "hd fr"] that nfr hy' [of "hd fr"] pn by (cases fr) auto
    qed (use fr in auto)
    then show ?thesis using oth(1) by (simp add: lck_list_def)
  qed
  have lst: "lck_list st' (lck_head q st') ((Ls(r := xs @ n # ys)) q)" for q
  proof (cases "q = r")
    case True
    have "dlinked (\<lambda>a. fl_next (flox st' a)) (\<lambda>a. fl_prev (flox st' a)) (lck_head r st') (xs @ n # ys)"
    proof (rule dlinked_insert)
      show "dlinked (\<lambda>a. fl_next (flox st a)) (\<lambda>a. fl_prev (flox st a)) (lck_head r st) (xs @ ys)"
        using D(2) [of r] r by (simp add: lck_list_def)
      show "\<forall>a\<in>set (xs @ ys). lastp None xs \<noteq> Some a \<longrightarrow> fl_next (flox st' a) = fl_next (flox st a)"
        using nxt nr [of r] r by auto
      show "\<forall>a\<in>set (xs @ ys). hdp ys \<noteq> Some a \<longrightarrow> fl_prev (flox st' a) = fl_prev (flox st a)"
        using prv nr [of r] r D(3) [of r] by (auto dest: hdp_in)
      show "fl_next (flox st' (last xs)) = Some n" if "xs \<noteq> []" using nxt that lx by (simp add: lastp_def)
      show "fl_prev (flox st' (hd ys)) = Some n" if "ys \<noteq> []" using prv that hy by (cases ys) auto
      show "lck_head r st' = (if xs = [] then Some n else lck_head r st)" using hds by simp
    qed (use nxt prv in auto)
    then show ?thesis using True by (simp add: lck_list_def)
  next
    case False
    have "\<forall>a\<in>set (Ls q). fl_next (flox st' a) = fl_next (flox st a) \<and> fl_prev (flox st' a) = fl_prev (flox st a)"
      using nxt prv nr [of q] D(3) [of q] D(4) [OF False] lastr r by (auto dest: hdp_in)
    from lck_list_cong [OF this D(2)] show ?thesis using False hds by simp
  qed
  have mem: "set ((Ls(r := xs @ n # ys)) q) = (if q = r then insert n (set (Ls r)) else set (Ls q))" for q
    using r by auto
  have un: "set fr \<union> (\<Union>q. set ((Ls(r := xs @ n # ys)) q)) = {..< nat (fl_recs st')}"
  proof -
    have "(\<Union>q. set ((Ls(r := xs @ n # ys)) q)) = insert n (\<Union>q. set (Ls q))"
      unfolding mem by (auto split: if_splits)
    then show ?thesis using D(5) oth(5) by auto
  qed
  have cnt: "fl_reccnt st' = fl_recs st' - int (length fr)"
    using D(6-8) oth(5,6) fl_lists_free_length [OF L] by (subst oth) (simp add: int32_id)
  have dj: "set fr \<inter> set ((Ls(r := xs @ n # ys)) q) = {}" for q
    unfolding mem using D(3) [of q] nfr by auto
  have dj2: "q \<noteq> q' \<Longrightarrow> set ((Ls(r := xs @ n # ys)) q) \<inter> set ((Ls(r := xs @ n # ys)) q') = {}" for q q'
    unfolding mem using D(4) [of q q'] nr [of q] nr [of q'] by auto
  have "fl_lists st' fr (Ls(r := xs @ n # ys))"
    unfolding fl_lists_def using free lst un cnt dj dj2 D(6,7) oth(5) by simp
  with that e data oth show thesis by (simp add: fl_frame_def)
qed

section \<open>Deletion, wakeups and initialisation\<close>

text \<open>A state that differs only in the data and the wakeups has the same lists.\<close>

definition fl_links :: "flk \<Rightarrow> flk \<Rightarrow> bool" where
  "fl_links st st' \<longleftrightarrow>
     (\<forall>b. fl_next (flox st' b) = fl_next (flox st b) \<and> fl_prev (flox st' b) = fl_prev (flox st b)) \<and>
     frlock st' = frlock st \<and> (\<forall>r. lck_head r st' = lck_head r st) \<and>
     fl_recs st' = fl_recs st \<and> fl_reccnt st' = fl_reccnt st"

lemma lck_list_links: "fl_links st st' \<Longrightarrow> lck_list st' = lck_list st"
  by (simp add: fl_links_def lck_list_def)

lemma fl_lists_links: "fl_links st st' \<Longrightarrow> fl_lists st' fr Ls \<longleftrightarrow> fl_lists st fr Ls"
  using lck_list_links [of st st'] by (simp add: fl_lists_def fl_links_def)

lemma fl_links_upd:
  "(\<And>f. fl_next (g f) = fl_next f \<and> fl_prev (g f) = fl_prev f) \<Longrightarrow> fl_links st (upd_fl a g st)"
  by (simp add: fl_links_def)

lemma wakeup_fl_links: "fl_links st (wakeup_fl a st)"
  by (simp add: wakeup_fl_def fl_links_def)

lemma wakeup_fl_data [simp]:
  "fl_set (flox (wakeup_fl a st) b) = fl_set (flox st b)"
  "fl_stat (flox (wakeup_fl a st) b) = (if b = a then 0 else fl_stat (flox st b))"
  "fl_next (flox (wakeup_fl a st) b) = fl_next (flox st b)"
  "fl_prev (flox (wakeup_fl a st) b) = fl_prev (flox st b)"
  "frlock (wakeup_fl a st) = frlock st" "lck_head r (wakeup_fl a st) = lck_head r st"
  "i_size (wakeup_fl a st) = i_size st" "i_lock (wakeup_fl a st) = i_lock st"
  "fl_recs (wakeup_fl a st) = fl_recs st" "fl_reccnt (wakeup_fl a st) = fl_reccnt st"
  "fl_wakes (wakeup_fl a st) = fl_wakes st @ (if fl_stat (flox st a) \<noteq> 0 then [a] else [])"
  by (simp_all add: wakeup_fl_def)

lemma delflck_ok:
  assumes L: "fl_lists st fr Ls" and r: "Ls r = xs @ n # ys"
  defines "st' \<equiv> delflck r n st"
  shows "fl_lists st' (n # fr) (Ls(r := xs @ ys))"
    "\<And>b. fl_set (flox st' b) = fl_set (flox st b)"
    "\<And>b. fl_stat (flox st' b) = (if b = n then 0 else fl_stat (flox st b))"
    "fl_wakes st' = fl_wakes st @ (if fl_stat (flox st n) \<noteq> 0 then [n] else [])" "fl_frame st st'"
proof -
  note D = fl_listsD [OF L]
  have d: "dlinked (\<lambda>a. fl_next (flox st a)) (\<lambda>a. fl_prev (flox st a)) (lck_head r st) (xs @ n # ys)"
    using D(2) [of r] r by (simp add: lck_list_def)
  have nb: "fl_next (flox st n) = hdp ys" "fl_prev (flox st n) = lastp None xs"
    by (rule dlinked_at [OF d])+
  have dis: "distinct (xs @ n # ys)" by (rule dlinked_distinct [OF d])
  have lx: "lastp None xs \<noteq> Some n" using dis by (auto simp: lastp_def)
  have hy: "hdp ys \<noteq> Some n" using dis by (auto dest: hdp_in)
  have fh: "frlock st = hdp fr" by (rule lck_list_hdp [OF D(1)])
  have nfr: "n \<notin> set fr" using D(3) [of r] r by auto
  have hfn: "hdp fr \<noteq> Some n" using nfr by (auto dest: hdp_in)
  have nxt: "fl_next (flox st' b) = (if b = n then hdp fr else if lastp None xs = Some b then hdp ys else fl_next (flox st b))" for b
    using nb lx hy fh hfn unfolding st'_def by (auto simp: delflck_def Let_def split: option.splits)
  have prv: "fl_prev (flox st' b) = (if b = n then None else if hdp fr = Some b then Some n
      else if hdp ys = Some b then lastp None xs else fl_prev (flox st b))" for b
    using nb lx hy fh hfn unfolding st'_def by (auto simp: delflck_def Let_def split: option.splits)
  have hds: "lck_head q st' = (if q = r \<and> xs = [] then hdp ys else lck_head q st)" for q
    using nb unfolding st'_def by (auto simp: delflck_def Let_def lastp_def split: option.splits)
  have oth: "frlock st' = Some n" "fl_recs st' = fl_recs st" "fl_reccnt st' = int32 (fl_reccnt st - 1)"
    unfolding st'_def by (auto simp: delflck_def Let_def split: option.splits)
  show data: "\<And>b. fl_set (flox st' b) = fl_set (flox st b)"
    "\<And>b. fl_stat (flox st' b) = (if b = n then 0 else fl_stat (flox st b))"
    unfolding st'_def by (auto simp: delflck_def Let_def split: option.splits)
  show "fl_wakes st' = fl_wakes st @ (if fl_stat (flox st n) \<noteq> 0 then [n] else [])"
    unfolding st'_def by (auto simp: delflck_def Let_def split: option.splits)
  show "fl_frame st st'"
    unfolding st'_def by (auto simp: delflck_def Let_def fl_frame_def split: option.splits)
  have hf: "b \<in> set fr" if "hdp fr = Some b" for b using that by (rule hdp_in)
  have hys: "b \<in> set (Ls r)" if "hdp ys = Some b" for b using that r by (auto dest: hdp_in)
  have lxs: "b \<in> set (Ls r)" if "lastp None xs = Some b" for b
    using that r by (auto simp: lastp_def split: if_splits)
  have free: "lck_list st' (frlock st') (n # fr)"
  proof -
    have "dlinked (\<lambda>a. fl_next (flox st' a)) (\<lambda>a. fl_prev (flox st' a)) (Some n) ([] @ n # fr)"
    proof (rule dlinked_insert)
      show "dlinked (\<lambda>a. fl_next (flox st a)) (\<lambda>a. fl_prev (flox st a)) (frlock st) ([] @ fr)"
        using D(1) by (simp add: lck_list_def)
      show "\<forall>a\<in>set ([] @ fr). lastp None [] \<noteq> Some a \<longrightarrow> fl_next (flox st' a) = fl_next (flox st a)"
        using nxt nfr D(3) [of r] lxs by auto
      show "\<forall>a\<in>set ([] @ fr). hdp fr \<noteq> Some a \<longrightarrow> fl_prev (flox st' a) = fl_prev (flox st a)"
        using prv nfr D(3) [of r] hys by auto
      show "fl_prev (flox st' (hd fr)) = Some n" if "fr \<noteq> []" using prv [of "hd fr"] that nfr by (cases fr) auto
    qed (use nxt prv in auto)
    then show ?thesis using oth(1) by (simp add: lck_list_def)
  qed
  have lst: "lck_list st' (lck_head q st') ((Ls(r := xs @ ys)) q)" for q
  proof (cases "q = r")
    case True
    have "dlinked (\<lambda>a. fl_next (flox st' a)) (\<lambda>a. fl_prev (flox st' a)) (lck_head r st') (xs @ ys)"
    proof (rule dlinked_delete [OF d])
      show "\<forall>a\<in>set (xs @ ys). lastp None xs \<noteq> Some a \<longrightarrow> fl_next (flox st' a) = fl_next (flox st a)"
        using nxt dis by auto
      show "\<forall>a\<in>set (xs @ ys). hdp ys \<noteq> Some a \<longrightarrow> fl_prev (flox st' a) = fl_prev (flox st a)"
        using prv dis r D(3) [of r] hf by auto
      show "fl_next (flox st' (last xs)) = fl_next (flox st n)" if "xs \<noteq> []"
        using nxt [of "last xs"] that lx nb by (simp add: lastp_def)
      show "fl_prev (flox st' (hd ys)) = fl_prev (flox st n)" if "ys \<noteq> []"
        using prv [of "hd ys"] that nb hy hys [of "hd ys"] hf [of "hd ys"] D(3) [of r] by (cases ys) auto
      show "lck_head r st' = (if xs = [] then fl_next (flox st n) else lck_head r st)" using hds nb by simp
    qed
    then show ?thesis using True by (simp add: lck_list_def)
  next
    case False
    have "n \<notin> set (Ls q)" using D(4) [OF False] r by auto
    then have "\<forall>a\<in>set (Ls q). fl_next (flox st' a) = fl_next (flox st a) \<and> fl_prev (flox st' a) = fl_prev (flox st a)"
      using nxt prv D(3) [of q] D(4) [OF False] lxs hys hf by auto
    from lck_list_cong [OF this D(2)] show ?thesis using False hds by simp
  qed
  have mem: "set ((Ls(r := xs @ ys)) q) = (if q = r then set (Ls r) - {n} else set (Ls q))" for q
    using r dis by auto
  have nq: "q \<noteq> r \<Longrightarrow> n \<notin> set (Ls q)" for q using D(4) [of q r] r by auto
  have un: "set (n # fr) \<union> (\<Union>q. set ((Ls(r := xs @ ys)) q)) = {..< nat (fl_recs st')}"
  proof -
    have "(\<Union>q. set (Ls q)) = insert n (\<Union>q. set ((Ls(r := xs @ ys)) q))"
    proof (intro set_eqI iffI)
      fix x assume "x \<in> (\<Union>q. set (Ls q))"
      then show "x \<in> insert n (\<Union>q. set ((Ls(r := xs @ ys)) q))" unfolding mem by auto
    next
      fix x assume "x \<in> insert n (\<Union>q. set ((Ls(r := xs @ ys)) q))"
      moreover have "n \<in> set (Ls r)" using r by simp
      ultimately show "x \<in> (\<Union>q. set (Ls q))" unfolding mem by (auto split: if_splits)
    qed
    then show ?thesis using D(5) oth(2) by auto
  qed
  have "length fr < nat (fl_recs st)"
  proof -
    have "insert n (set fr) \<subseteq> {..< nat (fl_recs st)}" using D(5) r by (metis UN_I UNIV_I Un_subset_iff in_set_conv_decomp insert_subset order_refl subsetD)
    from card_mono [OF _ this] nfr lck_list_distinct [OF D(1)] show ?thesis by (simp add: distinct_card)
  qed
  then have cnt: "fl_reccnt st' = fl_recs st' - int (length (n # fr))"
    using D(6-8) oth(2,3) by (simp add: int32_id)
  have dj: "set (n # fr) \<inter> set ((Ls(r := xs @ ys)) q) = {}" for q
    unfolding mem using D(3) [of q] nq [of q] by auto
  have dj2: "q \<noteq> q' \<Longrightarrow> set ((Ls(r := xs @ ys)) q) \<inter> set ((Ls(r := xs @ ys)) q') = {}" for q q'
    unfolding mem using D(4) [of q q'] by auto
  show "fl_lists st' (n # fr) (Ls(r := xs @ ys))"
    unfolding fl_lists_def using free lst un cnt dj dj2 D(6,7) oth(2) by simp
qed

text \<open>\<open>flckinit\<close> puts every record on the free list.\<close>

lemma flckinit_from_ok:
  assumes "lck_list st (frlock st) (rev [0..<i])"
  shows "lck_list (flckinit_from i n st) (frlock (flckinit_from i n st)) (rev [0..<i + n]) \<and>
    (\<forall>r. lck_head r (flckinit_from i n st) = lck_head r st) \<and>
    fl_reccnt (flckinit_from i n st) = fl_reccnt st \<and> fl_recs (flckinit_from i n st) = fl_recs st \<and>
    fl_wakes (flckinit_from i n st) = fl_wakes st"
  using assms
proof (induction n arbitrary: i st)
  case (Suc n)
  define st1 where "st1 = (case frlock st of
        None \<Rightarrow> (set_prev i None (set_next i None st))\<lparr>frlock := Some i\<rparr>
      | Some f \<Rightarrow> (set_prev f (Some i) (set_prev i None (set_next i (Some f) st)))\<lparr>frlock := Some i\<rparr>)"
  have h: "frlock st = hdp (rev [0..<i])" by (rule lck_list_hdp [OF Suc.prems])
  have hn: "hdp (rev [0..<i]) \<noteq> Some i" by (auto dest: hdp_in)
  have f: "frlock st1 = Some i" "\<And>r. lck_head r st1 = lck_head r st" "fl_reccnt st1 = fl_reccnt st"
    "fl_recs st1 = fl_recs st" "fl_wakes st1 = fl_wakes st"
    by (simp_all add: st1_def split: option.split)
  have nxt: "fl_next (flox st1 b) = (if b = i then hdp (rev [0..<i]) else fl_next (flox st b))" for b
    using h hn by (auto simp: st1_def split: option.splits)
  have prv: "fl_prev (flox st1 b) = (if b = i then None else if hdp (rev [0..<i]) = Some b then Some i
      else fl_prev (flox st b))" for b
    using h hn by (auto simp: st1_def split: option.splits)
  have "dlinked (\<lambda>a. fl_next (flox st1 a)) (\<lambda>a. fl_prev (flox st1 a)) (Some i) ([] @ i # rev [0..<i])"
  proof (rule dlinked_insert)
    show "dlinked (\<lambda>a. fl_next (flox st a)) (\<lambda>a. fl_prev (flox st a)) (frlock st) ([] @ rev [0..<i])"
      using Suc.prems by (simp add: lck_list_def)
    show "fl_prev (flox st1 (hd (rev [0..<i]))) = Some i" if "rev [0..<i] \<noteq> []"
      using prv [of "hd (rev [0..<i])"] hn that by (cases "rev [0..<i]") auto
  qed (use nxt prv in auto)
  then have l: "lck_list st1 (frlock st1) (rev [0..<Suc i])" using f(1) by (simp add: lck_list_def)
  have e: "flckinit_from i (Suc n) st = flckinit_from (Suc i) n st1" by (simp add: st1_def)
  show ?case using Suc.IH [OF l] f unfolding e by simp
qed simp

lemma flckinit_lists:
  assumes "frlock st = None" "sleeplcks st = None" "\<forall>ip. i_filocks st ip = None" "fl_reccnt st = 0"
    "0 \<le> fl_recs st" "fl_recs st < 2147483648"
  shows "fl_lists (flckinit st) (rev [0..< nat (fl_recs st)]) (\<lambda>r. [])"
proof -
  have "lck_list st (frlock st) (rev [0..<0])" using assms(1) by (simp add: lck_list_def)
  note I = flckinit_from_ok [OF this, of "nat (fl_recs st)"]
  have "lck_head r st = None" for r using assms(2,3) by (cases r) auto
  then show ?thesis using I assms(4-6) unfolding fl_lists_def flckinit_def
    by (auto simp: lck_list_def)
qed

end
