(* ===== verification/FlockBytes.thy ===== *)
theory FlockBytes
  imports FlockLists
begin

text \<open>
  The meaning of a list of locks: which owner holds which type of lock on which byte; how taking a lock
  out, adding one and shortening one change it; and where the insertion search stops.
\<close>

section \<open>Locks as sets of bytes\<close>

abbreviation lck :: "flk \<Rightarrow> nat \<Rightarrow> flock" where
  "lck st a \<equiv> fl_set (flox st a)"

definition region :: "flock \<Rightarrow> int set" where
  "region fs = {l_start fs .. l_end fs}"

definition owner :: "flock \<Rightarrow> int \<times> int" where
  "owner fs = (l_pid fs, l_sysid fs)"

definition me :: "flk_id \<Rightarrow> int \<times> int" where
  "me u = (p_epid u, p_sysid u)"

lemma own_lock_owner: "own_lock u fs \<longleftrightarrow> owner fs = me u"
  by (simp add: own_lock_def owner_def me_def)

lemma owner_stamped [simp]: "owner (stamped u ld) = me u"
  by (simp add: owner_def stamped_def me_def)

lemma stamped_simps [simp]:
  "l_type (stamped u ld) = l_type ld" "l_start (stamped u ld) = l_start ld" "l_end (stamped u ld) = l_end ld"
  "l_whence (stamped u ld) = l_whence ld"
  by (simp_all add: stamped_def)

lemma region_stamped [simp]: "region (stamped u ld) = region ld"
  by (simp add: region_def)

definition lock_ok :: "flock \<Rightarrow> bool" where
  "lock_ok fs \<longleftrightarrow> l_type fs \<in> {F_RDLCK, F_WRLCK} \<and> 0 \<le> l_start fs \<and> l_start fs \<le> l_end fs \<and> l_end fs \<le> MAXEND"

text \<open>A list of locks is well-formed: sorted by start, and the regions of one owner do not overlap.\<close>

definition locks_ok :: "(nat \<Rightarrow> flock) \<Rightarrow> nat list \<Rightarrow> bool" where
  "locks_ok D as \<longleftrightarrow> (\<forall>a\<in>set as. lock_ok (D a)) \<and> sorted (map (\<lambda>a. l_start (D a)) as) \<and>
     (\<forall>a\<in>set as. \<forall>b\<in>set as. a \<noteq> b \<and> owner (D a) = owner (D b) \<longrightarrow> region (D a) \<inter> region (D b) = {})"

text \<open>\<open>held D as o t x\<close>: owner \<open>o\<close> holds a lock of type \<open>t\<close> on byte \<open>x\<close>.\<close>

definition held :: "(nat \<Rightarrow> flock) \<Rightarrow> nat list \<Rightarrow> int \<times> int \<Rightarrow> int \<Rightarrow> int \<Rightarrow> bool" where
  "held D as ow t x \<longleftrightarrow> (\<exists>a\<in>set as. owner (D a) = ow \<and> l_type (D a) = t \<and> x \<in> region (D a))"

lemma locks_okD:
  assumes "locks_ok D as"
  shows "a \<in> set as \<Longrightarrow> lock_ok (D a)" "sorted (map (\<lambda>a. l_start (D a)) as)"
    "a \<in> set as \<Longrightarrow> b \<in> set as \<Longrightarrow> a \<noteq> b \<Longrightarrow> owner (D a) = owner (D b) \<Longrightarrow> region (D a) \<inter> region (D b) = {}"
  using assms by (auto simp: locks_ok_def)

lemma locks_ok_Nil [simp]: "locks_ok D []"
  by (simp add: locks_ok_def)

lemma locks_ok_cong: "locks_ok D as \<Longrightarrow> \<forall>a\<in>set as. D' a = D a \<Longrightarrow> locks_ok D' as"
proof -
  assume ok: "locks_ok D as" and e: "\<forall>a\<in>set as. D' a = D a"
  have m: "map (\<lambda>a. l_start (D' a)) as = map (\<lambda>a. l_start (D a)) as" using e by simp
  show ?thesis using ok e unfolding locks_ok_def m by auto
qed

lemma held_cong: "\<forall>a\<in>set as. D' a = D a \<Longrightarrow> held D' as = held D as"
  by (auto simp: held_def fun_eq_iff)

lemma sorted_before:
  "locks_ok D (xs @ b # ys) \<Longrightarrow> a \<in> set xs \<Longrightarrow> l_start (D a) \<le> l_start (D b)"
  "locks_ok D (xs @ b # ys) \<Longrightarrow> a \<in> set ys \<Longrightarrow> l_start (D b) \<le> l_start (D a)"
  by (auto simp: locks_ok_def sorted_append)

text \<open>The locks of one owner follow each other.\<close>

lemma own_before:
  assumes "locks_ok D (xs @ b # ys)" "a \<in> set xs" "a \<noteq> b" "owner (D a) = owner (D b)"
  shows "l_end (D a) < l_start (D b)"
proof (rule ccontr)
  assume "\<not> ?thesis"
  moreover have "l_start (D a) \<le> l_start (D b)" by (rule sorted_before(1) [OF assms(1,2)])
  moreover have "lock_ok (D b)" using locks_okD(1) [OF assms(1)] by simp
  ultimately have "l_start (D b) \<in> region (D a) \<inter> region (D b)" by (simp add: region_def lock_ok_def)
  then show False using locks_okD(3) [OF assms(1), of a b] assms by auto
qed

lemma own_after:
  assumes "locks_ok D (xs @ b # ys)" "a \<in> set ys" "a \<noteq> b" "owner (D a) = owner (D b)"
  shows "l_end (D b) < l_start (D a)"
proof -
  obtain us vs where ys: "ys = us @ a # vs" using assms(2) by (auto simp: in_set_conv_decomp)
  have "locks_ok D ((xs @ b # us) @ a # vs)" using assms(1) ys by simp
  from own_before [OF this, of b] assms(3,4) show ?thesis by simp
qed

lemma locks_ok_remove: "locks_ok D (xs @ n # ys) \<Longrightarrow> locks_ok D (xs @ ys)"
  by (auto simp: locks_ok_def sorted_append)

lemma locks_ok_insert:
  assumes "locks_ok D (xs @ ys)" "lock_ok (D n)"
    "\<forall>a\<in>set xs. l_start (D a) \<le> l_start (D n)" "\<forall>a\<in>set ys. l_start (D n) \<le> l_start (D a)"
    "\<forall>a\<in>set (xs @ ys). owner (D a) = owner (D n) \<longrightarrow> region (D a) \<inter> region (D n) = {}"
  shows "locks_ok D (xs @ n # ys)"
proof -
  have "sorted (map (\<lambda>a. l_start (D a)) (xs @ n # ys))"
    using assms(1,3,4) by (force simp: locks_ok_def sorted_append)
  moreover have "\<forall>a\<in>set (xs @ n # ys). lock_ok (D a)" using assms(1,2) by (auto simp: locks_ok_def)
  moreover have "region (D a) \<inter> region (D b) = {}"
    if h: "a \<in> set (xs @ n # ys)" "b \<in> set (xs @ n # ys)" "a \<noteq> b" "owner (D a) = owner (D b)" for a b
  proof -
    consider "a \<in> set (xs @ ys)" "b \<in> set (xs @ ys)" | "a = n" "b \<in> set (xs @ ys)" | "b = n" "a \<in> set (xs @ ys)"
      using h by auto
    then show ?thesis
    proof cases
      case 1
      then show ?thesis using locks_okD(3) [OF assms(1)] h(3,4) by blast
    next
      case 2
      then have "region (D b) \<inter> region (D n) = {}" using assms(5) h(4) by auto
      then show ?thesis using 2 by auto
    next
      case 3
      then show ?thesis using assms(5) h(4) by auto
    qed
  qed
  ultimately show ?thesis unfolding locks_ok_def by blast
qed

text \<open>Shortening a lock at its end.\<close>

lemma locks_ok_shrink:
  assumes "locks_ok D (xs @ n # ys)" "\<forall>a\<in>set (xs @ ys). D' a = D a" "D' n = (D n)\<lparr>l_len := e\<rparr>"
    "l_start (D n) \<le> e" "e \<le> l_end (D n)"
  shows "locks_ok D' (xs @ n # ys)"
proof -
  have s: "l_start (D' a) = l_start (D a)" "owner (D' a) = owner (D a)" "region (D' a) \<subseteq> region (D a)"
      "lock_ok (D a) \<Longrightarrow> lock_ok (D' a)" if "a \<in> set (xs @ n # ys)" for a
    using that assms(2-5) by (auto simp: owner_def region_def lock_ok_def)
  have m: "map (\<lambda>a. l_start (D' a)) (xs @ n # ys) = map (\<lambda>a. l_start (D a)) (xs @ n # ys)"
    using s(1) by (intro map_cong) auto
  have "region (D' a) \<inter> region (D' b) = {}"
    if h: "a \<in> set (xs @ n # ys)" "b \<in> set (xs @ n # ys)" "a \<noteq> b" "owner (D' a) = owner (D' b)" for a b
    using locks_okD(3) [OF assms(1) h(1-3)] s(2,3) [OF h(1)] s(2,3) [OF h(2)] h(4) by auto
  then show ?thesis using assms(1) s(4) unfolding locks_ok_def m by blast
qed

lemma held_remove:
  assumes "locks_ok D (xs @ n # ys)" "n \<notin> set (xs @ ys)"
  shows "held D (xs @ ys) ow t x \<longleftrightarrow> held D (xs @ n # ys) ow t x \<and> \<not> (ow = owner (D n) \<and> x \<in> region (D n))"
proof -
  have "x \<notin> region (D n)" if "a \<in> set (xs @ ys)" "owner (D a) = owner (D n)" "x \<in> region (D a)" for a
    using locks_okD(3) [OF assms(1), of a n] that assms(2) by auto
  then show ?thesis by (auto simp: held_def)
qed

lemma held_insert:
  "held D (xs @ n # ys) ow t x \<longleftrightarrow> held D (xs @ ys) ow t x \<or> ow = owner (D n) \<and> t = l_type (D n) \<and> x \<in> region (D n)"
  by (auto simp: held_def)

lemma held_shrink:
  assumes "locks_ok D (xs @ n # ys)" "n \<notin> set (xs @ ys)" "\<forall>a\<in>set (xs @ ys). D' a = D a" "D' n = (D n)\<lparr>l_len := e\<rparr>"
    "l_start (D n) \<le> e" "e \<le> l_end (D n)"
  shows "held D' (xs @ n # ys) ow t x \<longleftrightarrow>
    held D (xs @ n # ys) ow t x \<and> \<not> (ow = owner (D n) \<and> x \<in> {e <.. l_end (D n)})"
proof -
  have c: "held D' (xs @ ys) = held D (xs @ ys)" by (rule held_cong [OF assms(3)])
  have D': "owner (D' n) = owner (D n)" "l_type (D' n) = l_type (D n)" "region (D' n) = {l_start (D n) .. e}"
    using assms(4) by (simp_all add: owner_def region_def)
  show ?thesis
    using held_insert [of D xs n ys ow t x] assms(5,6)
    unfolding held_insert [of D'] c D' held_remove [OF assms(1,2)] by (auto simp: region_def)
qed

lemma held_unique:
  assumes "locks_ok D as" "held D as ow t x" "held D as ow t' x"
  shows "t = t'"
proof -
  obtain a b where "a \<in> set as" "owner (D a) = ow" "l_type (D a) = t" "x \<in> region (D a)"
    "b \<in> set as" "owner (D b) = ow" "l_type (D b) = t'" "x \<in> region (D b)"
    using assms(2,3) by (auto simp: held_def)
  then show ?thesis using locks_okD(3) [OF assms(1), of a b] by (cases "a = b") auto
qed

section \<open>The search for the insertion point\<close>

lemma ins_search_ok:
  assumes "linked (\<lambda>a. fl_next (flox st a)) (Some p) (p # rest)" "length (p # rest) \<le> n"
  shows "ins_search n st s p q = Some (lastp q (takeWhile (\<lambda>a. l_start (lck st a) < s) (p # rest)))"
  using assms
proof (induction rest arbitrary: p q n)
  case Nil
  then show ?case by (cases n) auto
next
  case (Cons b rest)
  from Cons.prems obtain m where n: "n = Suc m" by (cases n) auto
  have "linked (\<lambda>a. fl_next (flox st a)) (Some b) (b # rest)" "fl_next (flox st p) = Some b" using Cons.prems(1) by auto
  with Cons.IH [of b m "Some p"] Cons.prems(2) n show ?case by (simp add: lastp_def)
qed

lemma lck_list_suffix: "lck_list st p (xs @ a # ys) \<Longrightarrow> linked (\<lambda>a. fl_next (flox st a)) (Some a) (a # ys)"
  unfolding lck_list_def using linked_suffix [OF dlinked_linked] .

lemma takeWhile_sorted:
  assumes "sorted (map f xs)" "zs = takeWhile (\<lambda>a. f a < s) xs" "ws = dropWhile (\<lambda>a. f a < s) xs"
  shows "xs = zs @ ws" "\<forall>a\<in>set zs. f a < s" "\<forall>a\<in>set ws. s \<le> (f a :: int)"
proof -
  show e: "xs = zs @ ws" using assms by simp
  show "\<forall>a\<in>set zs. f a < s" using assms(2) by (auto dest: set_takeWhileD)
  show "\<forall>a\<in>set ws. s \<le> f a"
  proof (cases ws)
    case (Cons w vs)
    have "\<not> f w < s" using assms(3) Cons by (metis hd_dropWhile list.discI list.sel(1))
    moreover have "sorted (map f ws)" using assms(1) e by (simp add: sorted_append)
    ultimately show ?thesis using Cons by auto
  qed simp
qed

end
