(* ===== verification/FlockAdj.thy ===== *)
theory FlockAdj
  imports FlockBytes
begin

text \<open>
  The loop of \<open>flckadj\<close>: its invariant, and the four things a turn does to a lock of the caller - passing
  it, deleting it (coalescing it into the request or giving it up), shortening it, and splitting it.
\<close>

lemma fl_lists_distinct: "fl_lists st fr Ls \<Longrightarrow> distinct (Ls r)"
  using fl_listsD(2) [of st fr Ls r] by (rule lck_list_distinct)

lemma fl_lists_distinct_free: "fl_lists st fr Ls \<Longrightarrow> distinct fr"
  using fl_listsD(1) [of st fr Ls] by (rule lck_list_distinct)

text \<open>An operation on one list exchanges records with the free list only.\<close>

lemma fl_lists_exchange:
  assumes "fl_lists st0 fr0 Ls" "fl_lists st fr (Ls(r := as))" "fl_recs st = fl_recs st0"
  shows "set as \<union> set fr = set (Ls r) \<union> set fr0"
proof -
  let ?rest = "\<Union>q\<in>- {r}. set (Ls q)"
  have split: "set bs \<union> set f = {..< nat (fl_recs s)} - ?rest" if l: "fl_lists s f (Ls(r := bs))" for s f bs
  proof -
    have u: "(\<Union>q. set ((Ls(r := bs)) q)) = set bs \<union> ?rest" by (auto split: if_splits)
    have "set f \<inter> set (Ls q) = {} \<and> set bs \<inter> set (Ls q) = {}" if "q \<noteq> r" for q
      using fl_listsD(3) [OF l, of q] fl_listsD(4) [OF l, of r q] that by auto
    then have "(set f \<union> set bs) \<inter> ?rest = {}" by auto
    then show ?thesis using fl_listsD(5) [OF l] unfolding u by auto
  qed
  from split [OF assms(2)] split [of st0 fr0 "Ls r"] assms(1,3) show ?thesis by simp
qed

section \<open>What a loop of flckadj has done so far\<close>

text \<open>
  The list of locks is \<open>as\<close> with the free list \<open>fr\<close>; \<open>as0\<close>, \<open>st0\<close> and \<open>ld0\<close> are those at the call.
  Locks of others are untouched; outside the adjusted request the caller holds what it held; what the
  request has grown by, the caller held with the same type.
\<close>

definition adj_data ::
  "flk_id \<Rightarrow> flk \<Rightarrow> nat list \<Rightarrow> flock \<Rightarrow> flock \<Rightarrow> flk \<Rightarrow> nat list \<Rightarrow> nat list \<Rightarrow> bool" where
  "adj_data u st0 as0 ld0 ld st as fr \<longleftrightarrow>
     locks_ok (lck st) as \<and>
     (\<forall>a. a \<in> set as \<and> \<not> own_lock u (lck st a) \<longleftrightarrow> a \<in> set as0 \<and> \<not> own_lock u (lck st0 a)) \<and>
     (\<forall>a\<in>set as0. \<not> own_lock u (lck st0 a) \<longrightarrow> lck st a = lck st0 a) \<and>
     (l_type ld = l_type ld0 \<and> l_whence ld = l_whence ld0) \<and> l_start ld0 \<le> l_end ld0 \<and>
     0 \<le> l_start ld \<and> l_start ld \<le> l_start ld0 \<and> l_end ld0 \<le> l_end ld \<and> l_end ld \<le> MAXEND \<and>
     (\<forall>t x. x \<notin> region ld \<longrightarrow> held (lck st) as (me u) t x = held (lck st0) as0 (me u) t x) \<and>
     (\<forall>t x. x \<in> region ld - region ld0 \<longrightarrow> held (lck st0) as0 (me u) t x = (t = l_type ld0)) \<and>
     (\<forall>t x. held (lck st) as (me u) t x \<longrightarrow> held (lck st0) as0 (me u) t x) \<and>
     (fr = [] \<longrightarrow> region ld = region ld0)"

text \<open>Every lock that was changed or deleted while processes slept on it has woken them.\<close>

definition adj_wake :: "flk \<Rightarrow> nat list \<Rightarrow> nat list \<Rightarrow> flk \<Rightarrow> nat list \<Rightarrow> nat list \<Rightarrow> bool" where
  "adj_wake st0 as0 fr0 st as ws \<longleftrightarrow>
     fl_frame st0 st \<and>
     (\<forall>b. b \<notin> set as0 \<union> set fr0 \<longrightarrow> lck st b = lck st0 b \<and> fl_stat (flox st b) = fl_stat (flox st0 b)) \<and>
     fl_wakes st = fl_wakes st0 @ ws \<and> set ws \<subseteq> set as0 \<and>
     (\<forall>a\<in>set as0. fl_stat (flox st0 a) \<noteq> 0 \<and> a \<notin> set ws \<longrightarrow> a \<in> set as \<and> lck st a = lck st0 a) \<and>
     (\<forall>a\<in>set as. fl_stat (flox st a) = (if a \<in> set as0 \<and> a \<notin> set ws then fl_stat (flox st0 a) else 0))"

text \<open>
  The locks in front of the cursor do not meet the request, and the insertion point is in front of
  where the request goes.
\<close>

definition adj_pos ::
  "flk_id \<Rightarrow> flock \<Rightarrow> nat list \<Rightarrow> nat list \<Rightarrow> ptr \<Rightarrow> flock \<Rightarrow> flk \<Rightarrow> bool" where
  "adj_pos u ld0 pre suf insrtp ld st \<longleftrightarrow>
     (\<forall>a\<in>set pre. own_lock u (lck st a) \<longrightarrow> region (lck st a) \<inter> region ld = {}) \<and>
     (region ld \<noteq> region ld0 \<longrightarrow> (\<forall>a\<in>set suf. own_lock u (lck st a) \<longrightarrow> l_start ld < l_start (lck st a))) \<and>
     (l_type ld \<noteq> F_UNLCK \<longrightarrow> (case insrtp of
        None \<Rightarrow> \<forall>a\<in>set (pre @ suf). l_start ld \<le> l_start (lck st a)
      | Some p \<Rightarrow> p \<in> set (pre @ suf) \<and> l_start (lck st p) \<le> l_start ld))"

definition adj_inv :: "flk_id \<Rightarrow> lckref \<Rightarrow> (lckref \<Rightarrow> nat list) \<Rightarrow> flk \<Rightarrow> nat list \<Rightarrow> flock \<Rightarrow>
    nat list \<Rightarrow> nat list \<Rightarrow> ptr \<Rightarrow> flock \<Rightarrow> flk \<Rightarrow> bool" where
  "adj_inv u r Ls st0 fr0 ld0 pre suf insrtp ld st \<longleftrightarrow>
     fl_lists st0 fr0 Ls \<and> (\<exists>fr ws. fl_lists st fr (Ls(r := pre @ suf)) \<and> adj_data u st0 (Ls r) ld0 ld st (pre @ suf) fr \<and>
        adj_wake st0 (Ls r) fr0 st (pre @ suf) ws \<and> adj_pos u ld0 pre suf insrtp ld st)"

lemma adj_invE:
  assumes "adj_inv u r Ls st0 fr0 ld0 pre suf insrtp ld st"
  obtains fr ws where "fl_lists st0 fr0 Ls" "fl_lists st fr (Ls(r := pre @ suf))" "adj_data u st0 (Ls r) ld0 ld st (pre @ suf) fr"
    "adj_wake st0 (Ls r) fr0 st (pre @ suf) ws" "adj_pos u ld0 pre suf insrtp ld st"
  using assms unfolding adj_inv_def by blast

lemma adj_invI:
  "fl_lists st0 fr0 Ls \<Longrightarrow> fl_lists st fr (Ls(r := pre @ suf)) \<Longrightarrow> adj_data u st0 (Ls r) ld0 ld st (pre @ suf) fr \<Longrightarrow>
   adj_wake st0 (Ls r) fr0 st (pre @ suf) ws \<Longrightarrow> adj_pos u ld0 pre suf insrtp ld st \<Longrightarrow>
   adj_inv u r Ls st0 fr0 ld0 pre suf insrtp ld st"
  unfolding adj_inv_def by blast

lemma adj_wake_touch:
  assumes w: "adj_wake st0 as0 fr0 st as ws" and f: "flp \<in> set as" "flp \<in> set as0 \<union> set fr0"
    and D: "\<forall>b. b \<noteq> flp \<longrightarrow> lck st' b = lck st b"
    and S: "\<forall>b. fl_stat (flox st' b) = (if b = flp then 0 else fl_stat (flox st b))"
    and W: "fl_wakes st' = fl_wakes st @ (if fl_stat (flox st flp) \<noteq> 0 then [flp] else [])" and F: "fl_frame st st'"
    and as': "set as - {flp} \<subseteq> set as'" "set as' \<subseteq> set as"
  shows "adj_wake st0 as0 fr0 st' as' (ws @ (if fl_stat (flox st flp) \<noteq> 0 then [flp] else []))"
proof -
  have sf: "fl_stat (flox st flp) = (if flp \<in> set as0 \<and> flp \<notin> set ws then fl_stat (flox st0 flp) else 0)"
    using w f(1) by (simp add: adj_wake_def)
  have m: "a \<in> set as'" if "a \<in> set as" "a \<noteq> flp" for a using as' that by auto
  note W' = w [unfolded adj_wake_def]
  show ?thesis
    unfolding adj_wake_def
  proof (intro conjI ballI allI impI)
    show "fl_frame st0 st'" using W' fl_frame_trans [OF _ F] by blast
    show "fl_wakes st' = fl_wakes st0 @ ws @ (if fl_stat (flox st flp) \<noteq> 0 then [flp] else [])" using W' W by simp
    show "set (ws @ (if fl_stat (flox st flp) \<noteq> 0 then [flp] else [])) \<subseteq> set as0" using W' sf by auto
    fix a assume a: "a \<in> set as0" "fl_stat (flox st0 a) \<noteq> 0 \<and>
      a \<notin> set (ws @ (if fl_stat (flox st flp) \<noteq> 0 then [flp] else []))"
    then have "a \<noteq> flp" using sf by (auto split: if_splits)
    moreover have "a \<in> set as" "lck st a = lck st0 a" using W' a by simp_all
    ultimately show "a \<in> set as'" "lck st' a = lck st0 a" using m D by simp_all
  next
    fix b assume b: "b \<notin> set as0 \<union> set fr0"
    then have "b \<noteq> flp" using f(2) by auto
    then show "lck st' b = lck st0 b" "fl_stat (flox st' b) = fl_stat (flox st0 b)" using W' D S b by simp_all
  next
    fix a assume "a \<in> set as'"
    then have "fl_stat (flox st a) = (if a \<in> set as0 \<and> a \<notin> set ws then fl_stat (flox st0 a) else 0)"
      using W' as'(2) by auto
    then show "fl_stat (flox st' a) = (if a \<in> set as0 \<and>
        a \<notin> set (ws @ (if fl_stat (flox st flp) \<noteq> 0 then [flp] else [])) then fl_stat (flox st0 a) else 0)"
      using S sf by (auto split: if_splits)
  qed
qed

lemma adj_wake_insert:
  assumes w: "adj_wake st0 as0 fr0 st as ws" and n: "n \<notin> set as" "n \<in> set as0 \<union> set fr0"
    and D: "\<forall>b. b \<noteq> n \<longrightarrow> lck st' b = lck st b"
    and S: "\<forall>b. fl_stat (flox st' b) = (if b = n then 0 else fl_stat (flox st b))"
    and W: "fl_wakes st' = fl_wakes st" and F: "fl_frame st st'" and as': "set as' = insert n (set as)"
  shows "adj_wake st0 as0 fr0 st' as' ws"
proof -
  note W' = w [unfolded adj_wake_def]
  show ?thesis
    unfolding adj_wake_def
  proof (intro conjI ballI allI impI)
    show "fl_frame st0 st'" using W' fl_frame_trans [OF _ F] by blast
    show "fl_wakes st' = fl_wakes st0 @ ws" "set ws \<subseteq> set as0" using W' W by simp_all
    fix a assume a: "a \<in> set as0" "fl_stat (flox st0 a) \<noteq> 0 \<and> a \<notin> set ws"
    then have h: "a \<in> set as" "lck st a = lck st0 a" using W' by simp_all
    then have "a \<noteq> n" using n(1) by auto
    with h show "a \<in> set as'" "lck st' a = lck st0 a" using as' D by simp_all
  next
    fix b assume b: "b \<notin> set as0 \<union> set fr0"
    then have "b \<noteq> n" using n(2) by auto
    then show "lck st' b = lck st0 b" "fl_stat (flox st' b) = fl_stat (flox st0 b)" using W' D S b by simp_all
  next
    fix a assume a: "a \<in> set as'"
    show "fl_stat (flox st' a) = (if a \<in> set as0 \<and> a \<notin> set ws then fl_stat (flox st0 a) else 0)"
    proof (cases "a = n")
      case True
      then show ?thesis using W' S n(1) by auto
    next
      case False
      then show ?thesis using W' S a as' by simp
    qed
  qed
qed

lemma adj_dataD:
  assumes "adj_data u st0 as0 ld0 ld st as fr"
  shows "locks_ok (lck st) as"
    "a \<in> set as \<and> \<not> own_lock u (lck st a) \<longleftrightarrow> a \<in> set as0 \<and> \<not> own_lock u (lck st0 a)"
    "a \<in> set as0 \<Longrightarrow> \<not> own_lock u (lck st0 a) \<Longrightarrow> lck st a = lck st0 a"
    "l_type ld = l_type ld0 \<and> l_whence ld = l_whence ld0" "l_start ld0 \<le> l_end ld0"
    "0 \<le> l_start ld" "l_start ld \<le> l_start ld0" "l_end ld0 \<le> l_end ld" "l_end ld \<le> MAXEND"
    "x \<notin> region ld \<Longrightarrow> held (lck st) as (me u) t x = held (lck st0) as0 (me u) t x"
    "x \<in> region ld \<Longrightarrow> x \<notin> region ld0 \<Longrightarrow> held (lck st0) as0 (me u) t x = (t = l_type ld0)"
    "held (lck st) as (me u) t x \<Longrightarrow> held (lck st0) as0 (me u) t x"
    "fr = [] \<Longrightarrow> region ld = region ld0"
  using assms unfolding adj_data_def by (blast | simp)+

lemma adj_data_type: "adj_data u st0 as0 ld0 ld st as fr \<Longrightarrow> l_type ld = l_type ld0"
  by (drule adj_dataD(4)) simp

text \<open>Turns that change nothing: a lock apart from the request is passed, or ends the scan.\<close>

lemma adj_skip:
  assumes "adj_inv u r Ls st0 fr0 ld0 pre (flp # rest) insrtp ld st"
    "own_lock u (lck st flp) \<Longrightarrow> region (lck st flp) \<inter> region ld = {}"
    "insrtp' = insrtp \<or> insrtp' = Some flp \<and> l_start (lck st flp) \<le> l_start ld"
  shows "adj_inv u r Ls st0 fr0 ld0 (pre @ [flp]) rest insrtp' ld st"
  using assms(1)
proof (rule adj_invE)
  fix fr ws
  assume h0: "fl_lists st0 fr0 Ls" and h: "fl_lists st fr (Ls(r := pre @ flp # rest))" "adj_data u st0 (Ls r) ld0 ld st (pre @ flp # rest) fr"
    "adj_wake st0 (Ls r) fr0 st (pre @ flp # rest) ws" "adj_pos u ld0 pre (flp # rest) insrtp ld st"
  have "adj_pos u ld0 (pre @ [flp]) rest insrtp' ld st"
    using h(4) assms(2,3) unfolding adj_pos_def by (auto split: option.splits)
  then show ?thesis using h0 h by (intro adj_invI) simp_all
qed

lemma adj_stop:
  assumes "adj_inv u r Ls st0 fr0 ld0 pre suf insrtp ld st"
    "\<forall>a\<in>set suf. own_lock u (lck st a) \<longrightarrow> region (lck st a) \<inter> region ld = {}"
  shows "adj_inv u r Ls st0 fr0 ld0 (pre @ suf) [] insrtp ld st"
  using assms(1)
proof (rule adj_invE)
  fix fr ws
  assume h0: "fl_lists st0 fr0 Ls" and h: "fl_lists st fr (Ls(r := pre @ suf))" "adj_data u st0 (Ls r) ld0 ld st (pre @ suf) fr"
    "adj_wake st0 (Ls r) fr0 st (pre @ suf) ws" "adj_pos u ld0 pre suf insrtp ld st"
  have "adj_pos u ld0 (pre @ suf) [] insrtp ld st"
    using h(4) assms(2) unfolding adj_pos_def by (auto split: option.splits)
  then show ?thesis using h0 h by (intro adj_invI) simp_all
qed

lemma own_rest_after:
  assumes "adj_inv u r Ls st0 fr0 ld0 pre (flp # rest) insrtp ld st" "own_lock u (lck st flp)"
    "a \<in> set rest" "own_lock u (lck st a)"
  shows "l_end (lck st flp) < l_start (lck st a)"
  using assms(1)
proof (rule adj_invE)
  fix fr ws
  assume h0: "fl_lists st0 fr0 Ls" and h: "fl_lists st fr (Ls(r := pre @ flp # rest))" "adj_data u st0 (Ls r) ld0 ld st (pre @ flp # rest) fr"
  have "distinct (pre @ flp # rest)" using fl_lists_distinct [OF h(1), of r] by simp
  then have "a \<noteq> flp" using assms(3) by auto
  then show ?thesis using own_after [OF adj_dataD(1) [OF h(2)] assms(3)] assms(2,4)
    by (simp add: own_lock_owner)
qed

text \<open>The insertion point after a lock has gone: the old one, or the lock in front of it.\<close>

lemma insert_point:
  assumes L: "fl_lists st fr (Ls(r := pre @ flp # rest))" and ok: "locks_ok (lck st) (pre @ flp # rest)"
    and pos: "adj_pos u ld0 pre (flp # rest) insrtp ld st" and nu: "l_type ld \<noteq> F_UNLCK"
    and ins: "insrtp' = insrtp \<and> s = l_start ld \<and> l_start ld < l_start (lck st flp) \<or>
      insrtp' = fl_prev (flox st flp) \<and> s = l_start (lck st flp)"
  shows "case insrtp' of None \<Rightarrow> \<forall>a\<in>set (pre @ rest). s \<le> l_start (lck st a)
      | Some p \<Rightarrow> p \<in> set (pre @ rest) \<and> l_start (lck st p) \<le> s"
  using ins
proof
  assume "insrtp' = insrtp \<and> s = l_start ld \<and> l_start ld < l_start (lck st flp)"
  then show ?thesis using pos nu by (auto simp: adj_pos_def split: option.splits)
next
  assume i: "insrtp' = fl_prev (flox st flp) \<and> s = l_start (lck st flp)"
  have "fl_prev (flox st flp) = lastp None pre"
    using fl_listsD(2) [OF L, of r] dlinked_at(2) by (simp add: lck_list_def)
  then show ?thesis using i sorted_before [OF ok] by (cases pre rule: rev_cases) auto
qed

text \<open>A lock of the caller is deleted and its region is inside the request, which may have grown by it.\<close>

lemma adj_delete:
  assumes inv: "adj_inv u r Ls st0 fr0 ld0 pre (flp # rest) insrtp ld st" and own: "own_lock u (lck st flp)"
    and ld': "ld' = ld\<lparr>l_start := s, l_len := e\<rparr>" "s \<le> l_start ld" "l_end ld \<le> e"
      "s \<le> l_start (lck st flp)" "l_end (lck st flp) \<le> e"
      "\<forall>x. s \<le> x \<and> x \<le> e \<and> x \<notin> region ld \<longrightarrow> x \<in> region (lck st flp)"
      "s = l_start ld \<and> e = l_end ld \<or> l_type ld = l_type (lck st flp)"
    and ins: "l_type ld \<noteq> F_UNLCK \<Longrightarrow>
      insrtp' = insrtp \<and> s = l_start ld \<and> l_start ld < l_start (lck st flp) \<or>
      insrtp' = fl_prev (flox st flp) \<and> s = l_start (lck st flp)"
  shows "adj_inv u r Ls st0 fr0 ld0 pre rest insrtp' ld' (delflck r flp st)"
  using inv
proof (rule adj_invE)
  fix fr ws
  let ?st = "delflck r flp st"
  assume h0: "fl_lists st0 fr0 Ls" and h: "fl_lists st fr (Ls(r := pre @ flp # rest))" "adj_data u st0 (Ls r) ld0 ld st (pre @ flp # rest) fr"
    "adj_wake st0 (Ls r) fr0 st (pre @ flp # rest) ws" "adj_pos u ld0 pre (flp # rest) insrtp ld st"
  note dd = adj_dataD [OF h(2)]
  have dis: "distinct (pre @ flp # rest)" using fl_lists_distinct [OF h(1), of r] by simp
  have L: "(Ls(r := pre @ flp # rest)) r = pre @ flp # rest" by simp
  note del = delflck_ok [OF h(1) L]
  have l: "fl_lists ?st (flp # fr) (Ls(r := pre @ rest))" using del(1) unfolding fun_upd_upd .
  have D: "lck ?st b = lck st b" for b using del(2) by simp
  have lokf: "lock_ok (lck st flp)" by (rule locks_okD(1) [OF dd(1)]) simp
  have ty: "l_type ld = l_type ld0" by (rule adj_data_type [OF h(2)])
  have rl: "region ld \<subseteq> region ld'" "region (lck st flp) \<subseteq> region ld'" using ld' by (auto simp: region_def)
  have se: "0 \<le> s" "e \<le> MAXEND" using ld'(6) dd(5-9) lokf ld'(2-5) unfolding region_def lock_ok_def
    by (auto) (metis atLeastAtMost_iff linorder_not_le order_refl order_trans)+
  have hr: "held (lck ?st) (pre @ rest) (me u) t x \<longleftrightarrow>
      held (lck st) (pre @ flp # rest) (me u) t x \<and> x \<notin> region (lck st flp)" for t x
    using held_remove [OF dd(1), of "me u" t x] dis own by (simp add: D own_lock_owner)
  have hflp: "held (lck st) (pre @ flp # rest) (me u) (l_type (lck st flp)) x" if "x \<in> region (lck st flp)" for x
    using own that by (auto simp: held_def own_lock_owner)
  have grown: "held (lck st0) (Ls r) (me u) t x = (t = l_type ld0)" if x: "x \<in> region ld'" "x \<notin> region ld0" for t x
  proof (cases "x \<in> region ld")
    case False
    then have f: "x \<in> region (lck st flp)" "l_type ld = l_type (lck st flp)"
      using ld' x by (auto simp: region_def)
    have "held (lck st) (pre @ flp # rest) (me u) t x = (t = l_type ld0)"
      using hflp [OF f(1)] held_unique [OF dd(1)] f(2) ty by metis
    then show ?thesis using dd(10) [OF False] by simp
  qed (use dd(11) x in simp)
  have "adj_data u st0 (Ls r) ld0 ld' ?st (pre @ rest) (flp # fr)"
    unfolding adj_data_def
  proof (intro conjI allI impI ballI)
    show "locks_ok (lck ?st) (pre @ rest)"
      by (rule locks_ok_cong [OF locks_ok_remove [OF dd(1)]]) (simp add: D)
    show "a \<in> set (pre @ rest) \<and> \<not> own_lock u (lck ?st a) \<longleftrightarrow> a \<in> set (Ls r) \<and> \<not> own_lock u (lck st0 a)" for a
      using dd(2) [of a] own by (auto simp: D)
    show "lck ?st a = lck st0 a" if "a \<in> set (Ls r)" "\<not> own_lock u (lck st0 a)" for a
      using dd(3) that by (simp add: D)
    show "l_type ld' = l_type ld0" "l_whence ld' = l_whence ld0" using ld'(1) dd(4) by simp_all
    show "0 \<le> l_start ld'" "l_end ld' \<le> MAXEND" "l_start ld' \<le> l_start ld0" "l_end ld0 \<le> l_end ld'" "l_start ld0 \<le> l_end ld0"
      using se ld'(1-3) dd(5,7,8) by simp_all
    show "held (lck ?st) (pre @ rest) (me u) t x = held (lck st0) (Ls r) (me u) t x" if "x \<notin> region ld'" for t x
      using hr dd(10) that rl by blast
    show "held (lck st0) (Ls r) (me u) t x = (t = l_type ld0)" if "x \<in> region ld' - region ld0" for t x
      using grown that by simp
    show "held (lck st0) (Ls r) (me u) t x" if "held (lck ?st) (pre @ rest) (me u) t x" for t x
      using that hr dd(12) by simp
  qed simp
  moreover have "\<exists>ws'. adj_wake st0 (Ls r) fr0 ?st (pre @ rest) ws'"
  proof -
    have rc: "fl_recs st = fl_recs st0" using h(3) by (simp add: adj_wake_def fl_frame_def)
    have ex: "flp \<in> set (Ls r) \<union> set fr0" using fl_lists_exchange [OF h0 h(1) rc] by auto
    show ?thesis
      by (rule exI, rule adj_wake_touch [OF h(3) _ ex _ _ del(4,5)]) (use del(3) dis in \<open>auto simp: D\<close>)
  qed
  moreover have "adj_pos u ld0 pre rest insrtp' ld' ?st"
    unfolding adj_pos_def D
  proof (intro conjI ballI impI)
    fix a assume a: "a \<in> set pre" "own_lock u (lck st a)"
    have "region (lck st a) \<inter> region (lck st flp) = {}"
      using locks_okD(3) [OF dd(1), of a flp] a own dis by (auto simp: own_lock_owner)
    moreover have "region (lck st a) \<inter> region ld = {}" using h(4) a by (simp add: adj_pos_def)
    moreover have "region ld' = {s..e}" using ld'(1) by (simp add: region_def)
    then have "region ld' \<subseteq> region ld \<union> region (lck st flp)" using ld'(6) by auto
    ultimately show "region (lck st a) \<inter> region ld' = {}" by blast
  next
    fix a assume a: "a \<in> set rest" "own_lock u (lck st a)"
    show "l_start ld' < l_start (lck st a)"
      using own_rest_after [OF inv own a] lokf ld'(1,4) by (simp add: lock_ok_def)
  next
    assume "l_type ld' \<noteq> F_UNLCK"
    then have nu: "l_type ld \<noteq> F_UNLCK" using ld'(1) by simp
    have "case insrtp' of None \<Rightarrow> \<forall>a\<in>set (pre @ rest). s \<le> l_start (lck st a)
        | Some p \<Rightarrow> p \<in> set (pre @ rest) \<and> l_start (lck st p) \<le> s"
      by (rule insert_point [OF h(1) dd(1) h(4) nu ins [OF nu]])
    then show "case insrtp' of None \<Rightarrow> \<forall>a\<in>set (pre @ rest). l_start ld' \<le> l_start (lck st a)
        | Some p \<Rightarrow> p \<in> set (pre @ rest) \<and> l_start (lck st p) \<le> l_start ld'"
      using ld'(1) by (cases insrtp') auto
  qed
  ultimately show ?thesis using l h0 by (auto intro: adj_invI)
qed

text \<open>A lock of the caller that reaches into the request from the left is shortened.\<close>

lemma adj_shrink_ok:
  assumes inv: "adj_inv u r Ls st0 fr0 ld0 pre (flp # rest) insrtp ld st" and own: "own_lock u (lck st flp)"
    and c: "l_start (lck st flp) < l_start ld" "l_start ld \<le> l_end (lck st flp)" "l_end (lck st flp) \<le> l_end ld"
  obtains st' where "adj_shrink flp nflp ld st = Some (AdjLoop nflp (Some flp) ld st')"
    "adj_inv u r Ls st0 fr0 ld0 (pre @ [flp]) rest (Some flp) ld st'"
  using inv
proof (rule adj_invE)
  fix fr ws
  assume h0: "fl_lists st0 fr0 Ls" and h: "fl_lists st fr (Ls(r := pre @ flp # rest))"
    "adj_data u st0 (Ls r) ld0 ld st (pre @ flp # rest) fr"
    "adj_wake st0 (Ls r) fr0 st (pre @ flp # rest) ws" "adj_pos u ld0 pre (flp # rest) insrtp ld st"
  note dd = adj_dataD [OF h(2)]
  have dis: "distinct (pre @ flp # rest)" using fl_lists_distinct [OF h(1), of r] by simp
  have lokf: "lock_ok (lck st flp)" by (rule locks_okD(1) [OF dd(1)]) simp
  have i: "int32 (l_start ld - 1) = l_start ld - 1"
    using c lokf by (intro int32_id) (auto simp: lock_ok_def MAXEND_def)
  let ?sh = "\<lambda>f. f\<lparr>fl_set := (fl_set f)\<lparr>l_len := l_start ld - 1\<rparr>\<rparr>"
  let ?st = "wakeup_fl flp (upd_fl flp ?sh st)"
  have e: "adj_shrink flp nflp ld st = Some (AdjLoop nflp (Some flp) ld ?st)" by (simp add: adj_shrink_def i)
  have D: "lck ?st b = (if b = flp then (lck st flp)\<lparr>l_len := l_start ld - 1\<rparr> else lck st b)" for b by simp
  have links: "fl_links st ?st" by (simp add: fl_links_def)
  have l: "fl_lists ?st fr (Ls(r := pre @ flp # rest))" using h(1) by (simp only: fl_lists_links [OF links])
  have oD: "own_lock u (lck ?st b) = own_lock u (lck st b)" for b by (simp add: own_lock_def)
  have sD: "l_start (lck ?st b) = l_start (lck st b)" for b by simp
  have nin: "flp \<notin> set (pre @ rest)" using dis by simp
  have same: "\<forall>a\<in>set (pre @ rest). lck ?st a = lck st a" using nin by auto
  have rD: "region (lck ?st b) \<subseteq> region (lck st b)" for b using c by (auto simp: region_def)
  have hs: "held (lck ?st) (pre @ flp # rest) ow t x \<longleftrightarrow> held (lck st) (pre @ flp # rest) ow t x \<and>
      \<not> (ow = owner (lck st flp) \<and> x \<in> {l_start ld - 1 <.. l_end (lck st flp)})" for ow t x
    by (rule held_shrink [OF dd(1) nin same]) (use c in simp_all)
  have "adj_data u st0 (Ls r) ld0 ld ?st (pre @ flp # rest) fr"
    unfolding adj_data_def oD
  proof (intro conjI allI impI ballI)
    show "locks_ok (lck ?st) (pre @ flp # rest)"
      by (rule locks_ok_shrink [OF dd(1) same, where e = "l_start ld - 1"]) (use c in simp_all)
    show "lck ?st a = lck st0 a" if "a \<in> set (Ls r)" "\<not> own_lock u (lck st0 a)" for a
      using dd(2) [of a] dd(3) that own by auto
    show "held (lck ?st) (pre @ flp # rest) (me u) t x = held (lck st0) (Ls r) (me u) t x" if "x \<notin> region ld" for t x
      using that c hs [of "me u" t x] dd(10) [OF that] by (auto simp: region_def)
    show "held (lck st0) (Ls r) (me u) t x = (t = l_type ld0)" if "x \<in> region ld - region ld0" for t x
      using dd(11) that by simp
    show "held (lck st0) (Ls r) (me u) t x" if "held (lck ?st) (pre @ flp # rest) (me u) t x" for t x
      using that hs dd(12) by simp
  qed (use dd in simp_all)
  moreover have "adj_wake st0 (Ls r) fr0 ?st (pre @ flp # rest) (ws @ (if fl_stat (flox st flp) \<noteq> 0 then [flp] else []))"
  proof -
    have rc: "fl_recs st = fl_recs st0" using h(3) by (simp add: adj_wake_def fl_frame_def)
    have ex: "flp \<in> set (Ls r) \<union> set fr0" using fl_lists_exchange [OF h0 h(1) rc] by auto
    show ?thesis by (rule adj_wake_touch [OF h(3) _ ex]) (auto simp: fl_frame_def)
  qed
  moreover have "adj_pos u ld0 (pre @ [flp]) rest (Some flp) ld ?st"
    unfolding adj_pos_def oD
  proof (intro conjI ballI impI)
    fix a assume a: "a \<in> set (pre @ [flp])" "own_lock u (lck st a)"
    show "region (lck ?st a) \<inter> region ld = {}"
    proof (cases "a = flp")
      case False
      then show ?thesis using a h(4) rD [of a] by (auto simp: adj_pos_def)
    qed (auto simp: region_def)
  next
    fix a assume "region ld \<noteq> region ld0"
    then have "l_start ld < l_start (lck st flp)" using h(4) own by (simp add: adj_pos_def)
    then show "l_start ld < l_start (lck ?st a)" using c(1) by simp
  qed (use c in auto)
  ultimately have "adj_inv u r Ls st0 fr0 ld0 (pre @ [flp]) rest (Some flp) ld ?st"
    using l h0 by (auto intro: adj_invI)
  with e that show thesis by blast
qed

section \<open>Splitting a lock\<close>

text \<open>
  The last part \<open>td\<close> of a lock of the caller becomes a lock of its own, \<open>n\<close>; the lock itself is
  shortened (if it begins in front of the request) or goes.  \<open>mid\<close> lists what stays of it.
\<close>

lemma split_locks:
  assumes ok: "locks_ok D (pre @ flp # zs @ ws)" and dis: "distinct (pre @ flp # zs @ ws)" "n \<notin> set (pre @ flp # zs @ ws)"
    and td: "owner (D' n) = owner (D flp)" "l_type (D' n) = l_type (D flp)" "l_start (D' n) = e + 1" "l_end (D' n) = l_end (D flp)"
    and b: "l_start (D flp) \<le> e" "e < l_end (D flp)" "s \<le> e"
    and z: "\<forall>a\<in>set zs. l_start (D a) < e + 1" "\<forall>a\<in>set ws. e + 1 \<le> l_start (D a)"
    and D': "\<forall>a\<in>set (pre @ zs @ ws). D' a = D a"
    and m: "if l_start (D flp) < s then mid = [flp] \<and> D' flp = (D flp)\<lparr>l_len := s - 1\<rparr> else mid = []"
  shows "locks_ok D' (pre @ mid @ zs @ n # ws)"
    "held D' (pre @ mid @ zs @ n # ws) ow t x \<longleftrightarrow> held D (pre @ flp # zs @ ws) ow t x \<and>
       \<not> (ow = owner (D flp) \<and> x \<in> region (D flp) \<and> s \<le> x \<and> x \<le> e)"
proof -
  have lokf: "lock_ok (D flp)" by (rule locks_okD(1) [OF ok]) simp
  have rt: "region (D' n) = {e + 1 .. l_end (D flp)}" using td(3,4) by (simp add: region_def)
  have oth: "region (D a) \<inter> region (D flp) = {}" if "a \<in> set (pre @ zs @ ws)" "owner (D a) = owner (D flp)" for a
    using locks_okD(3) [OF ok, of a flp] that dis(1) by auto
  have nin: "flp \<notin> set (pre @ zs @ ws)" using dis(1) by auto
  have base: "locks_ok D' (pre @ mid @ zs @ ws) \<and> (held D' (pre @ mid @ zs @ ws) ow t x \<longleftrightarrow>
      held D (pre @ flp # zs @ ws) ow t x \<and> \<not> (ow = owner (D flp) \<and> x \<in> region (D flp) \<and> s \<le> x))"
  proof (cases "l_start (D flp) < s")
    case True
    then have mm: "mid = [flp]" "D' flp = (D flp)\<lparr>l_len := s - 1\<rparr>" using m by simp_all
    have l: "l_start (D flp) \<le> s - 1" "s - 1 \<le> l_end (D flp)" using True b by auto
    have "held D' (pre @ flp # zs @ ws) ow t x \<longleftrightarrow> held D (pre @ flp # zs @ ws) ow t x \<and>
        \<not> (ow = owner (D flp) \<and> x \<in> {s - 1 <.. l_end (D flp)})"
      by (rule held_shrink [OF ok nin D' mm(2) l])
    then show ?thesis using locks_ok_shrink [OF ok D' mm(2) l] mm(1) True by (auto simp: region_def)
  next
    case False
    then have mm: "mid = []" using m by simp
    have c: "held D' (pre @ zs @ ws) = held D (pre @ zs @ ws)" by (rule held_cong [OF D'])
    have "locks_ok D' (pre @ zs @ ws)" by (rule locks_ok_cong [OF locks_ok_remove [OF ok] D'])
    then show ?thesis using held_remove [OF ok nin, of ow t x] c mm False by (auto simp: region_def)
  qed
  have midm: "set mid \<subseteq> {flp}" using m by (auto split: if_splits)
  have ltd: "lock_ok (D' n)" using lokf b td by (auto simp: lock_ok_def)
  have starts: "l_start (D' a) \<le> l_start (D' n)" if "a \<in> set (pre @ mid @ zs)" for a
  proof (cases "a = flp")
    case True
    then have "l_start (D' a) = l_start (D a)" using that m nin by (auto split: if_splits)
    then show ?thesis using True b td(3) by simp
  next
    case False
    then have a: "a \<in> set pre \<or> a \<in> set zs" using that midm by auto
    then have "l_start (D a) \<le> e" using z(1) sorted_before(1) [OF ok, of a] b(1) by auto
    then show ?thesis using a D' td(3) by auto
  qed
  have apart: "region (D' a) \<inter> region (D' n) = {}"
    if a: "a \<in> set (pre @ mid @ zs @ ws)" "owner (D' a) = owner (D' n)" for a
  proof (cases "a = flp")
    case True
    then have "region (D' a) \<subseteq> {..< s}" using a m nin by (auto simp: region_def split: if_splits)
    then show ?thesis using rt b(3) by auto
  next
    case False
    then have "a \<in> set (pre @ zs @ ws)" using a(1) midm by auto
    then show ?thesis using oth [of a] D' a(2) td(1) rt b(1) by (auto simp: region_def)
  qed
  have "locks_ok D' ((pre @ mid @ zs) @ n # ws)"
    by (rule locks_ok_insert) (use base ltd starts apart z(2) D' td(3) in auto)
  then show "locks_ok D' (pre @ mid @ zs @ n # ws)" by simp
  have hf: "held D (pre @ flp # zs @ ws) (owner (D flp)) t x \<longleftrightarrow> t = l_type (D flp)" if x: "x \<in> region (D flp)"
  proof -
    have "held D (pre @ flp # zs @ ws) (owner (D flp)) (l_type (D flp)) x" using x by (auto simp: held_def)
    then show ?thesis using held_unique [OF ok] by blast
  qed
  have "held D' (pre @ mid @ zs @ n # ws) ow t x \<longleftrightarrow> held D' (pre @ mid @ zs @ ws) ow t x \<or>
      ow = owner (D' n) \<and> t = l_type (D' n) \<and> x \<in> region (D' n)"
    using held_insert [of D' "pre @ mid @ zs" n ws] by simp
  also have "\<dots> \<longleftrightarrow> held D (pre @ flp # zs @ ws) ow t x \<and>
       \<not> (ow = owner (D flp) \<and> x \<in> region (D flp) \<and> s \<le> x \<and> x \<le> e)"
    using base hf td(1,2) rt b by (auto simp: region_def)
  finally show "held D' (pre @ mid @ zs @ n # ws) ow t x \<longleftrightarrow> held D (pre @ flp # zs @ ws) ow t x \<and>
       \<not> (ow = owner (D flp) \<and> x \<in> region (D flp) \<and> s \<le> x \<and> x \<le> e)" .
qed
lemma adj_split_ok:
  assumes inv: "adj_inv u r Ls st0 fr0 ld0 pre (flp # rest) insrtp ld st" and own: "own_lock u (lck st flp)"
    and c: "l_start (lck st flp) \<le> l_end ld" "l_end ld < l_end (lck st flp)"
      "mid \<longleftrightarrow> l_start (lck st flp) < l_start ld"
    and ins: "\<not> mid \<Longrightarrow> l_type ld \<noteq> F_UNLCK \<Longrightarrow>
      insrtp' = insrtp \<and> l_start ld < l_start (lck st flp) \<or>
      insrtp' = fl_prev (flox st flp) \<and> l_start ld = l_start (lck st flp)"
  shows "(\<exists>st'. adj_split u r mid flp insrtp' ld st = Some (AdjRet (Some ENOLCK) ld st') \<and>
      adj_inv u r Ls st0 fr0 ld0 pre (flp # rest) insrtp ld st' \<and> region ld = region ld0) \<or>
    (\<exists>st' as' i. adj_split u r mid flp insrtp' ld st = Some (AdjLoop None i ld st') \<and>
      adj_inv u r Ls st0 fr0 ld0 as' [] i ld st')"
  using inv
proof (rule adj_invE)
  fix fr ws
  assume h0: "fl_lists st0 fr0 Ls" and h: "fl_lists st fr (Ls(r := pre @ flp # rest))"
    "adj_data u st0 (Ls r) ld0 ld st (pre @ flp # rest) fr"
    "adj_wake st0 (Ls r) fr0 st (pre @ flp # rest) ws" "adj_pos u ld0 pre (flp # rest) insrtp ld st"
  note dd = adj_dataD [OF h(2)]
  have dis: "distinct (pre @ flp # rest)" using fl_lists_distinct [OF h(1), of r] by simp
  have lokf: "lock_ok (lck st flp)" by (rule locks_okD(1) [OF dd(1)]) simp
  have ie: "int32 (l_end ld + 1) = l_end ld + 1"
    using c lokf by (intro int32_id) (auto simp: lock_ok_def MAXEND_def)
  let ?td = "(lck st flp)\<lparr>l_start := l_end ld + 1\<rparr>"
  let ?P = "\<lambda>a. l_start (lck st a) < l_end ld + 1"
  define zs0 where "zs0 = takeWhile ?P rest"
  define vs where "vs = dropWhile ?P rest"
  have sr: "sorted (map (\<lambda>a. l_start (lck st a)) rest)" using locks_okD(2) [OF dd(1)] by (simp add: sorted_append)
  note tw = takeWhile_sorted [OF sr zs0_def vs_def]
  have len: "length (pre @ flp # rest) \<le> nat (fl_recs st)" using fl_lists_length [OF h(1), of r] by simp
  have lk: "linked (\<lambda>a. fl_next (flox st a)) (Some flp) (flp # rest)"
    using fl_listsD(2) [OF h(1), of r] by (auto dest: lck_list_suffix)
  have se: "ins_search (nat (fl_recs st)) st (l_end ld + 1) flp (Some flp) = Some (lastp (Some flp) (flp # zs0))"
    using ins_search_ok [OF lk, of "nat (fl_recs st)" "l_end ld + 1" "Some flp"] len c(1) by (simp add: zs0_def)
  have lp: "lastp (Some flp) (flp # zs0) = lastp None (pre @ flp # zs0)" by (simp add: lastp_def)
  have split: "adj_split u r mid flp insrtp' ld st = (case insflck u r ?td (lastp None (pre @ flp # zs0)) st of
      (None, st1) \<Rightarrow> Some (AdjRet (Some ENOLCK) ld st1)
    | (Some _, st1) \<Rightarrow> if mid
        then Some (AdjLoop None (Some flp) ld
          (wakeup_fl flp (upd_fl flp (\<lambda>f. f\<lparr>fl_set := (fl_set f)\<lparr>l_len := int32 (l_start ld - 1)\<rparr>\<rparr>) st1)))
        else Some (AdjLoop None insrtp' ld (delflck r flp st1)))"
    by (simp add: adj_split_def Let_def ie se lp)
  show ?thesis
  proof (cases fr)
    case Nil
    then have rr: "region ld = region ld0" using dd(13) by simp
    let ?st = "st\<lparr>fl_recovf := int32 (fl_recovf st + 1)\<rparr>"
    have i: "insflck u r ?td (lastp None (pre @ flp # zs0)) st = (None, ?st)"
      by (rule insflck_full) (use h(1) Nil in simp)
    have "fl_lists ?st fr (Ls(r := pre @ flp # rest))"
      using h(1) by (subst fl_lists_links) (auto simp: fl_links_def)
    moreover have "adj_data u st0 (Ls r) ld0 ld ?st (pre @ flp # rest) fr" using h(2) by (simp add: adj_data_def)
    moreover have "adj_wake st0 (Ls r) fr0 ?st (pre @ flp # rest) ws"
      using h(3) by (simp add: adj_wake_def fl_frame_def)
    moreover have "adj_pos u ld0 pre (flp # rest) insrtp ld ?st"
      using h(4) by (cases insrtp) (auto simp: adj_pos_def)
    ultimately have "adj_inv u r Ls st0 fr0 ld0 pre (flp # rest) insrtp ld ?st" using h0 by (intro adj_invI)
    then show ?thesis using i rr by (intro disjI1) (simp add: split)
  next
    case (Cons n fr1)
    have L: "(Ls(r := pre @ flp # rest)) r = (pre @ flp # zs0) @ vs" using tw(1) by simp
    obtain st1 where i: "insflck u r ?td (lastp None (pre @ flp # zs0)) st = (Some n, st1)"
      and l1: "fl_lists st1 fr1 (Ls(r := pre @ flp # zs0 @ n # vs))"
      and D1: "\<And>b. lck st1 b = (if b = n then stamped u ?td else lck st b)"
      and S1: "\<And>b. fl_stat (flox st1 b) = (if b = n then 0 else fl_stat (flox st b))"
      and W1: "fl_wakes st1 = fl_wakes st" and F1: "fl_frame st st1"
      by (rule insflck_ok [OF h(1) [unfolded Cons] L refl, of u ?td, unfolded fun_upd_upd append_assoc append_Cons])
        (rule that)
    have dis1: "distinct (pre @ flp # zs0 @ n # vs)" using fl_lists_distinct [OF l1, of r] by simp
    have rc: "fl_recs st = fl_recs st0" using h(3) by (simp add: adj_wake_def fl_frame_def)
    note ex = fl_lists_exchange [OF h0 h(1) rc]
    have w1: "adj_wake st0 (Ls r) fr0 st1 (pre @ flp # zs0 @ n # vs) ws"
      by (rule adj_wake_insert [OF h(3), of n]) (use dis1 tw(1) ex Cons D1 S1 W1 F1 in auto)
    define md where "md = (if mid then [flp] else [])"
    define i' where "i' = (if mid then Some flp else insrtp')"
    define st2 where "st2 = (if mid then wakeup_fl flp (upd_fl flp (\<lambda>f. f\<lparr>fl_set := (fl_set f)\<lparr>l_len := l_start ld - 1\<rparr>\<rparr>) st1)
       else delflck r flp st1)"
    let ?as = "pre @ md @ zs0 @ n # vs"
    have i32: "int32 (l_start ld - 1) = l_start ld - 1" if mid
      using c that lokf dd(5-9) by (intro int32_id) (auto simp: lock_ok_def MAXEND_def)
    have res: "adj_split u r mid flp insrtp' ld st = Some (AdjLoop None i' ld st2)"
      using i i32 by (simp add: split st2_def i'_def)
    have D2: "lck st2 b = (if b = n then stamped u ?td
        else if b = flp \<and> mid then (lck st flp)\<lparr>l_len := l_start ld - 1\<rparr> else lck st b)" for b
      using dis1 D1 delflck_ok(2) [OF l1, of r pre flp "zs0 @ n # vs" b] by (auto simp: st2_def)
    have l2: "\<exists>fr2. fl_lists st2 fr2 (Ls(r := ?as)) \<and> (fr2 = [] \<longrightarrow> mid)"
    proof (cases mid)
      case True
      have "fl_links st1 st2" using True by (simp add: st2_def fl_links_def)
      then show ?thesis using l1 True by (auto simp: md_def fl_lists_links)
    next
      case False
      then show ?thesis using delflck_ok(1) [OF l1, of r pre flp "zs0 @ n # vs"]
        by (auto simp: md_def st2_def)
    qed
    have w2: "\<exists>ws2. adj_wake st0 (Ls r) fr0 st2 ?as ws2"
    proof -
      have ex1: "flp \<in> set (Ls r) \<union> set fr0" using ex by auto
      have del: "\<forall>b. fl_stat (flox st2 b) = (if b = flp then 0 else fl_stat (flox st1 b))"
          "fl_wakes st2 = fl_wakes st1 @ (if fl_stat (flox st1 flp) \<noteq> 0 then [flp] else [])" "fl_frame st1 st2"
        using delflck_ok(3-5) [OF l1, of r pre flp "zs0 @ n # vs"] by (auto simp: st2_def fl_frame_def)
      show ?thesis
        by (rule exI, rule adj_wake_touch [OF w1 _ ex1 _ del]) (use D1 D2 dis1 in \<open>auto simp: md_def\<close>)
    qed
    have dn: "distinct (pre @ flp # zs0 @ vs)" "n \<notin> set (pre @ flp # zs0 @ vs)" using dis1 by auto
    have sl: "l_start ld \<le> l_end ld" using dd(5,7,8) by simp
    have td: "owner (lck st2 n) = owner (lck st flp)" "l_type (lck st2 n) = l_type (lck st flp)"
      "l_start (lck st2 n) = l_end ld + 1" "l_end (lck st2 n) = l_end (lck st flp)"
      using own by (simp_all add: D2 own_lock_owner)
    have m: "if l_start (lck st flp) < l_start ld then md = [flp] \<and> lck st2 flp = (lck st flp)\<lparr>l_len := l_start ld - 1\<rparr> else md = []"
      using c(3) dn(2) by (auto simp: md_def D2)
    have ok0: "locks_ok (lck st) (pre @ flp # zs0 @ vs)" using dd(1) tw(1) by simp
    have D': "\<forall>a\<in>set (pre @ zs0 @ vs). lck st2 a = lck st a" using dis1 by (auto simp: D2)
    note sp = split_locks [OF ok0 dn td c(1,2) sl tw(2,3) D' m]
    have hs: "held (lck st2) ?as (me u) t x \<longleftrightarrow> held (lck st) (pre @ flp # rest) (me u) t x \<and>
        \<not> (x \<in> region (lck st flp) \<and> x \<in> region ld)" for t x
      using sp(2) [of "me u" t x] own tw(1) by (simp add: own_lock_owner region_def)
    have own2: "own_lock u (lck st2 a) \<longleftrightarrow> a = n \<or> own_lock u (lck st a)" if "a \<in> set ?as" for a
      using that own by (simp add: D2 own_lock_def stamped_def)
    have dat: "adj_data u st0 (Ls r) ld0 ld st2 ?as fr2" if fr2: "fr2 = [] \<longrightarrow> mid" for fr2
      unfolding adj_data_def
    proof (intro conjI allI impI ballI)
      show "locks_ok (lck st2) ?as" by (rule sp(1))
      have mm: "set ?as \<subseteq> insert n (set (pre @ flp # rest))" "set (pre @ rest) \<subseteq> set ?as" using tw(1) by (auto simp: md_def)
      have "a \<in> set ?as \<and> \<not> own_lock u (lck st2 a) \<longleftrightarrow> a \<in> set (pre @ flp # rest) \<and> \<not> own_lock u (lck st a)" for a
        using own2 [of a] mm own dn(2) tw(1) by auto
      then show "a \<in> set ?as \<and> \<not> own_lock u (lck st2 a) \<longleftrightarrow> a \<in> set (Ls r) \<and> \<not> own_lock u (lck st0 a)" for a
        using dd(2) [of a] by simp
      show "lck st2 a = lck st0 a" if "a \<in> set (Ls r)" "\<not> own_lock u (lck st0 a)" for a
      proof -
        have "a \<in> set (pre @ flp # rest)" "\<not> own_lock u (lck st a)" using dd(2) [of a] that by simp_all
        then have "a \<noteq> n" "a \<noteq> flp" using own dn(2) tw(1) by auto
        then show ?thesis using dd(3) that by (simp add: D2)
      qed
      show "held (lck st2) ?as (me u) t x = held (lck st0) (Ls r) (me u) t x" if "x \<notin> region ld" for t x
        using hs dd(10) that by simp
      show "held (lck st0) (Ls r) (me u) t x = (t = l_type ld0)" if "x \<in> region ld - region ld0" for t x
        using dd(11) that by simp
      show "held (lck st0) (Ls r) (me u) t x" if "held (lck st2) ?as (me u) t x" for t x
        using that hs dd(12) by simp
      assume "fr2 = []"
      then have "l_start (lck st flp) < l_start ld" using fr2 c(3) by simp
      then show "region ld = region ld0" using h(4) own by (fastforce simp: adj_pos_def)
    qed (use dd in simp_all)
    have "adj_pos u ld0 ?as [] i' ld st2"
      unfolding adj_pos_def
    proof (intro conjI ballI impI)
      fix a assume a: "a \<in> set ?as" "own_lock u (lck st2 a)"
      show "region (lck st2 a) \<inter> region ld = {}"
      proof (cases "a = n")
        case True
        then show ?thesis using td by (auto simp: region_def)
      next
        case False
        then have o: "own_lock u (lck st a)" using own2 a by simp
        consider "a = flp" mid | "a \<in> set pre" | "a \<in> set rest" using a False tw(1) by (auto simp: md_def split: if_splits)
        then show ?thesis
        proof cases
          case 1
          then show ?thesis using D2 [of a] dn(2) by (auto simp: region_def)
        next
          case 2
          then have "lck st2 a = lck st a" using D' by simp
          then show ?thesis using 2 o h(4) by (simp add: adj_pos_def)
        next
          case 3
          then have "lck st2 a = lck st a" using D' tw(1) by auto
          moreover have "l_end (lck st flp) < l_start (lck st a)" by (rule own_rest_after [OF inv own 3 o])
          ultimately show ?thesis using c(2) by (auto simp: region_def)
        qed
      qed
    next
      assume nu: "l_type ld \<noteq> F_UNLCK"
      show "case i' of None \<Rightarrow> \<forall>a\<in>set (?as @ []). l_start ld \<le> l_start (lck st2 a)
        | Some p \<Rightarrow> p \<in> set (?as @ []) \<and> l_start (lck st2 p) \<le> l_start ld"
      proof (cases mid)
        case True
        then show ?thesis using c(3) D2 [of flp] dn(2) by (simp add: i'_def md_def)
      next
        case False
        then have md: "md = []" "i' = insrtp'" by (simp_all add: md_def i'_def)
        have st2s: "l_start (lck st2 a) = l_start (lck st a)" if "a \<in> set (pre @ rest)" for a
          using D' that tw(1) by auto
        have nst: "l_start ld \<le> l_start (lck st2 n)" using td(3) sl by simp
        have "case insrtp' of None \<Rightarrow> \<forall>a\<in>set (pre @ rest). l_start ld \<le> l_start (lck st a)
            | Some p \<Rightarrow> p \<in> set (pre @ rest) \<and> l_start (lck st p) \<le> l_start ld"
          by (rule insert_point [OF h(1) dd(1) h(4) nu]) (use ins [OF False nu] in auto)
        then show ?thesis using md nst st2s tw(1) by (auto split: option.splits)
      qed
    qed simp
    moreover obtain fr2 ws2 where "fl_lists st2 fr2 (Ls(r := ?as))" "fr2 = [] \<longrightarrow> mid"
      "adj_wake st0 (Ls r) fr0 st2 ?as ws2" using l2 w2 by blast
    ultimately have "adj_inv u r Ls st0 fr0 ld0 ?as [] i' ld st2"
      using dat [of fr2] h0 unfolding adj_inv_def append_Nil2 by blast
    then show ?thesis using res by blast
  qed
qed

end
