(* ===== verification/FlockLoop.thy ===== *)
theory FlockLoop
  imports FlockAdj
begin

text \<open>
  A turn of the loop of \<open>flckadj\<close> keeps its invariant, whatever way the regions lie; the loop, the
  insertion at its end, and what \<open>flckadj\<close> as a whole promises.
\<close>

section \<open>One turn of the loop\<close>

lemma adj_delete_stop:
  assumes inv: "adj_inv u r Ls st0 fr0 ld0 pre (flp # rest) insrtp ld st" and own: "own_lock u (lck st flp)"
    and ld': "ld' = ld\<lparr>l_start := s, l_len := e\<rparr>" "s \<le> l_start ld" "l_end ld \<le> e"
      "s \<le> l_start (lck st flp)" "l_end (lck st flp) = e"
      "\<forall>x. s \<le> x \<and> x \<le> e \<and> x \<notin> region ld \<longrightarrow> x \<in> region (lck st flp)"
      "s = l_start ld \<and> e = l_end ld \<or> l_type ld = l_type (lck st flp)"
    and ins: "l_type ld \<noteq> F_UNLCK \<Longrightarrow>
      insrtp' = insrtp \<and> s = l_start ld \<and> l_start ld < l_start (lck st flp) \<or>
      insrtp' = fl_prev (flox st flp) \<and> s = l_start (lck st flp)"
  shows "adj_inv u r Ls st0 fr0 ld0 (pre @ rest) [] insrtp' ld' (delflck r flp st)"
proof (rule adj_stop)
  have le: "l_end (lck st flp) \<le> e" using ld'(5) by simp
  show i: "adj_inv u r Ls st0 fr0 ld0 pre rest insrtp' ld' (delflck r flp st)"
    by (rule adj_delete [OF inv own ld'(1-4) le ld'(6,7) ins])
  show "\<forall>a\<in>set rest. own_lock u (lck (delflck r flp st) a) \<longrightarrow> region (lck (delflck r flp st) a) \<inter> region ld' = {}"
  proof (intro ballI impI)
    fix a assume a: "a \<in> set rest" "own_lock u (lck (delflck r flp st) a)"
    have D: "lck (delflck r flp st) a = lck st a"
      using inv delflck_ok(2) [of st _ "Ls(r := pre @ flp # rest)" r pre flp rest a] by (elim adj_invE) simp
    have "l_end (lck st flp) < l_start (lck st a)" by (rule own_rest_after [OF inv own a(1)]) (use a(2) D in simp)
    then show "region (lck (delflck r flp st) a) \<inter> region ld' = {}" using D ld'(1,5) by (auto simp: region_def)
  qed
qed

text \<open>The three ways a turn may end.\<close>

definition adj_next :: "flk_id \<Rightarrow> lckref \<Rightarrow> (lckref \<Rightarrow> nat list) \<Rightarrow> flk \<Rightarrow> nat list \<Rightarrow> flock \<Rightarrow> nat list \<Rightarrow> adj option \<Rightarrow> bool" where
  "adj_next u r Ls st0 fr0 ld0 rest res \<longleftrightarrow>
     (\<exists>nflp i ld st pre suf. res = Some (AdjLoop nflp i ld st) \<and> nflp = hdp suf \<and> length suf \<le> length rest \<and>
        adj_inv u r Ls st0 fr0 ld0 pre suf i ld st) \<or>
     (\<exists>ld st pre suf i a. res = Some (AdjRet None ld st) \<and> adj_inv u r Ls st0 fr0 ld0 pre suf i ld st \<and>
        a \<in> set (pre @ suf) \<and> own_lock u (lck st a) \<and> l_type (lck st a) = l_type ld \<and> region ld \<subseteq> region (lck st a)) \<or>
     (\<exists>ld st pre suf i. res = Some (AdjRet (Some ENOLCK) ld st) \<and> adj_inv u r Ls st0 fr0 ld0 pre suf i ld st \<and>
        region ld = region ld0)"

lemma adj_nextI:
  "adj_inv u r Ls st0 fr0 ld0 pre suf i ld st \<Longrightarrow> nflp = hdp suf \<Longrightarrow> length suf \<le> length rest \<Longrightarrow>
   adj_next u r Ls st0 fr0 ld0 rest (Some (AdjLoop nflp i ld st))"
  "adj_inv u r Ls st0 fr0 ld0 pre suf i ld st \<Longrightarrow> a \<in> set (pre @ suf) \<Longrightarrow> own_lock u (lck st a) \<Longrightarrow>
   l_type (lck st a) = l_type ld \<Longrightarrow> region ld \<subseteq> region (lck st a) \<Longrightarrow>
   adj_next u r Ls st0 fr0 ld0 rest (Some (AdjRet None ld st))"
  unfolding adj_next_def by blast+

lemma adj_own_ok:
  assumes inv: "adj_inv u r Ls st0 fr0 ld0 pre (flp # rest) insrtp ld st" and own: "own_lock u (lck st flp)"
  shows "adj_next u r Ls st0 fr0 ld0 rest (adj_own u r flp (hdp rest) insrtp ld st)"
proof -
  let ?fs = "lck st flp" and ?pv = "fl_prev (flox st flp)"
  obtain fr ws where dd: "adj_data u st0 (Ls r) ld0 ld st (pre @ flp # rest) fr"
    using inv by (rule adj_invE)
  note D = adj_dataD [OF dd]
  have lokf: "0 \<le> l_start ?fs" "l_start ?fs \<le> l_end ?fs" "l_end ?fs \<le> MAXEND"
    using locks_okD(1) [OF D(1), of flp] by (auto simp: lock_ok_def)
  have lokl: "0 \<le> l_start ld" "l_start ld \<le> l_end ld" "l_end ld \<le> MAXEND" using D(5-9) by auto
  have i32: "int32 (l_start ld - 1) = l_start ld - 1" "int32 (l_start ?fs - 1) = l_start ?fs - 1"
    using lokf lokl by (auto simp: MAXEND_def intro!: int32_id)
  have id: "ld = ld\<lparr>l_start := l_start ld, l_len := l_len ld\<rparr>" by simp
  have stay: "adj_next u r Ls st0 fr0 ld0 rest (Some (AdjRet None ld st))"
    if "l_type ld = l_type ?fs" "l_start ?fs \<le> l_start ld" "l_end ld \<le> l_end ?fs"
    by (rule adj_nextI(2) [OF inv, of flp]) (use own that in \<open>auto simp: region_def\<close>)
  have inside: "adj_next u r Ls st0 fr0 ld0 rest (Some (AdjLoop (hdp rest) i ld (delflck r flp st)))"
    if "l_start ld \<le> l_start ?fs" "l_end ?fs \<le> l_end ld"
      "i = insrtp \<and> l_start ld < l_start ?fs \<or> i = ?pv \<and> l_start ld = l_start ?fs" for i
    by (rule adj_nextI(1) [OF adj_delete [OF inv own id]]) (use that in \<open>auto simp: region_def\<close>)
  have left: "adj_next u r Ls st0 fr0 ld0 rest
      (Some (AdjLoop (hdp rest) ?pv (ld\<lparr>l_start := l_start ?fs\<rparr>) (delflck r flp st)))"
    if "l_type ld = l_type ?fs" "l_start ?fs < l_start ld" "l_start ld - 1 \<le> l_end ?fs" "l_end ?fs \<le> l_end ld"
  proof -
    have e: "ld\<lparr>l_start := l_start ?fs\<rparr> = ld\<lparr>l_start := l_start ?fs, l_len := l_end ld\<rparr>" by simp
    show ?thesis by (rule adj_nextI(1) [OF adj_delete [OF inv own e]]) (use that in \<open>auto simp: region_def\<close>)
  qed
  have right: "adj_next u r Ls st0 fr0 ld0 rest
      (Some (AdjLoop None insrtp (ld\<lparr>l_len := l_end ?fs\<rparr>) (delflck r flp st)))"
    if "l_type ld = l_type ?fs" "l_start ld < l_start ?fs" "l_start ?fs - 1 \<le> l_end ld" "l_end ld \<le> l_end ?fs"
  proof -
    have e: "ld\<lparr>l_len := l_end ?fs\<rparr> = ld\<lparr>l_start := l_start ld, l_len := l_end ?fs\<rparr>" by simp
    show ?thesis by (rule adj_nextI(1) [OF adj_delete_stop [OF inv own e]]) (use that in \<open>auto simp: region_def\<close>)
  qed
  have right_eq: "adj_next u r Ls st0 fr0 ld0 rest (Some (AdjLoop None insrtp ld (delflck r flp st)))"
    if "l_type ld = l_type ?fs" "l_start ld < l_start ?fs" "l_end ld = l_end ?fs"
  proof -
    have "ld\<lparr>l_len := l_end ?fs\<rparr> = ld" using that(3) by (cases ld) simp
    then show ?thesis using right [OF that(1,2)] that(3) lokf(2) by (simp only:)
  qed
  have stop: "adj_next u r Ls st0 fr0 ld0 rest (Some (AdjLoop None insrtp ld st))" if "l_end ld < l_start ?fs"
  proof (rule adj_nextI(1) [OF adj_stop [OF inv]])
    show "\<forall>a\<in>set (flp # rest). own_lock u (lck st a) \<longrightarrow> region (lck st a) \<inter> region ld = {}"
      using that own_rest_after [OF inv own] lokf by (fastforce simp: region_def)
  qed simp_all
  have skip: "adj_next u r Ls st0 fr0 ld0 rest (Some (AdjLoop (hdp rest) i ld st))"
    if "l_end ?fs < l_start ld" "i = insrtp \<or> i = Some flp" for i
    by (rule adj_nextI(1) [OF adj_skip [OF inv]]) (use that lokf in \<open>auto simp: region_def\<close>)
  have shrink: "adj_next u r Ls st0 fr0 ld0 rest (adj_shrink flp (hdp rest) ld st)"
    if c: "l_start ?fs < l_start ld" "l_start ld \<le> l_end ?fs" "l_end ?fs \<le> l_end ld"
  proof (rule adj_shrink_ok [OF inv own c])
    fix st' assume e: "adj_shrink flp (hdp rest) ld st = Some (AdjLoop (hdp rest) (Some flp) ld st')"
      and i: "adj_inv u r Ls st0 fr0 ld0 (pre @ [flp]) rest (Some flp) ld st'"
    show ?thesis unfolding e by (rule adj_nextI(1) [OF i]) simp_all
  qed
  have splt: "adj_next u r Ls st0 fr0 ld0 rest (adj_split u r mid flp i ld st)"
    if c: "l_start ?fs \<le> l_end ld" "l_end ld < l_end ?fs" "mid \<longleftrightarrow> l_start ?fs < l_start ld"
      "\<not> mid \<Longrightarrow> i = insrtp \<and> l_start ld < l_start ?fs \<or> i = ?pv \<and> l_start ld = l_start ?fs" for mid i
  proof -
    have "(\<exists>st'. adj_split u r mid flp i ld st = Some (AdjRet (Some ENOLCK) ld st') \<and>
        adj_inv u r Ls st0 fr0 ld0 pre (flp # rest) insrtp ld st' \<and> region ld = region ld0) \<or>
      (\<exists>st' as' i'. adj_split u r mid flp i ld st = Some (AdjLoop None i' ld st') \<and>
        adj_inv u r Ls st0 fr0 ld0 as' [] i' ld st')"
      by (rule adj_split_ok [OF inv own c(1-3)]) (use c(4) in blast)
    then show ?thesis
    proof
      assume "\<exists>st'. adj_split u r mid flp i ld st = Some (AdjRet (Some ENOLCK) ld st') \<and>
        adj_inv u r Ls st0 fr0 ld0 pre (flp # rest) insrtp ld st' \<and> region ld = region ld0"
      then show ?thesis unfolding adj_next_def by blast
    next
      assume "\<exists>st' as' i'. adj_split u r mid flp i ld st = Some (AdjLoop None i' ld st') \<and>
        adj_inv u r Ls st0 fr0 ld0 as' [] i' ld st'"
      then obtain st' as' i' where e: "adj_split u r mid flp i ld st = Some (AdjLoop None i' ld st')"
        "adj_inv u r Ls st0 fr0 ld0 as' [] i' ld st'" by blast
      show ?thesis unfolding e(1) by (rule adj_nextI(1) [OF e(2)]) simp_all
    qed
  qed
  consider "l_end ld < l_start ?fs" | "l_end ?fs < l_start ld" | "l_start ?fs \<le> l_end ld" "l_start ld \<le> l_end ?fs" by linarith
  then show ?thesis
  proof cases
    case 1
    then show ?thesis using lokf lokl stop right by (auto simp: adj_own_def regflck_def i32 Let_def)
  next
    case 2
    then show ?thesis using lokf lokl skip left by (auto simp: adj_own_def regflck_def i32 Let_def)
  next
    case 3
    then have n: "\<not> l_end ld = l_start ?fs - 1" "\<not> l_end ld < l_start ?fs" "\<not> l_start ld - 1 = l_end ?fs" "\<not> l_start ld > l_end ?fs"
      by auto
    consider "l_start ld < l_start ?fs" | "l_start ld = l_start ?fs" | "l_start ld > l_start ?fs" by linarith
    then show ?thesis
    proof cases
      case s: 1
      then show ?thesis using 3 n inside right right_eq splt [of False insrtp]
        by (auto simp: adj_own_def regflck_def i32 Let_def split: if_splits)
    next
      case s: 2
      then show ?thesis using 3 n inside stay splt [of False ?pv]
        by (auto simp: adj_own_def regflck_def i32 Let_def split: if_splits)
    next
      case s: 3
      then show ?thesis using 3 n stay shrink left splt [of True insrtp]
        by (auto simp: adj_own_def regflck_def i32 Let_def split: if_splits)
    qed
  qed
qed

section \<open>The whole loop and the insertion\<close>

definition adj_result :: "flk_id \<Rightarrow> lckref \<Rightarrow> (lckref \<Rightarrow> nat list) \<Rightarrow> flk \<Rightarrow> nat list \<Rightarrow> flock \<Rightarrow> adj option \<Rightarrow> bool" where
  "adj_result u r Ls st0 fr0 ld0 res \<longleftrightarrow>
     (\<exists>i ld st pre. res = Some (AdjLoop None i ld st) \<and> adj_inv u r Ls st0 fr0 ld0 pre [] i ld st) \<or>
     (\<exists>ld st pre suf i a. res = Some (AdjRet None ld st) \<and> adj_inv u r Ls st0 fr0 ld0 pre suf i ld st \<and>
        a \<in> set (pre @ suf) \<and> own_lock u (lck st a) \<and> l_type (lck st a) = l_type ld \<and> region ld \<subseteq> region (lck st a)) \<or>
     (\<exists>ld st pre suf i. res = Some (AdjRet (Some ENOLCK) ld st) \<and> adj_inv u r Ls st0 fr0 ld0 pre suf i ld st \<and>
        region ld = region ld0)"

lemma adj_inv_next:
  assumes "adj_inv u r Ls st0 fr0 ld0 pre (flp # rest) insrtp ld st"
  shows "fl_next (flox st flp) = hdp rest"
  using assms
proof (rule adj_invE)
  fix fr assume "fl_lists st fr (Ls(r := pre @ flp # rest))"
  from fl_listsD(2) [OF this, of r] show ?thesis using dlinked_at(1) by (simp add: lck_list_def)
qed

lemma flckadj_loop_ok:
  assumes "adj_inv u r Ls st0 fr0 ld0 pre suf i ld st" "length suf \<le> n"
  shows "adj_result u r Ls st0 fr0 ld0 (flckadj_loop n u r (hdp suf) i ld st)"
  using assms
proof (induction n arbitrary: pre suf i ld st)
  case 0
  then show ?case unfolding adj_result_def by auto
next
  case (Suc n)
  show ?case
  proof (cases suf)
    case Nil
    then show ?thesis using Suc.prems unfolding adj_result_def by auto
  next
    case (Cons flp rest)
    note inv = Suc.prems(1) [unfolded Cons]
    have nx: "fl_next (flox st flp) = hdp rest" by (rule adj_inv_next [OF inv])
    have len: "length rest \<le> n" using Suc.prems(2) Cons by simp
    show ?thesis
    proof (cases "own_lock u (lck st flp)")
      case False
      have "adj_inv u r Ls st0 fr0 ld0 (pre @ [flp]) rest i ld st"
        by (rule adj_skip [OF inv]) (use False in auto)
      from Suc.IH [OF this len] show ?thesis using False nx Cons by simp
    next
      case True
      from adj_own_ok [OF inv True]
      show ?thesis unfolding adj_next_def
      proof (elim disjE exE conjE)
        fix nflp i' ld' st' pre' suf'
        assume h: "adj_own u r flp (hdp rest) i ld st = Some (AdjLoop nflp i' ld' st')" "nflp = hdp suf'"
          "length suf' \<le> length rest" "adj_inv u r Ls st0 fr0 ld0 pre' suf' i' ld' st'"
        from Suc.IH [OF h(4)] h(3) len have "adj_result u r Ls st0 fr0 ld0 (flckadj_loop n u r nflp i' ld' st')"
          using h(2) by simp
        then show ?thesis using h(1) True nx Cons by simp
      next
        fix ld' st' pre' suf' i' a
        assume h: "adj_own u r flp (hdp rest) i ld st = Some (AdjRet None ld' st')"
          "adj_inv u r Ls st0 fr0 ld0 pre' suf' i' ld' st'" "a \<in> set (pre' @ suf')" "own_lock u (lck st' a)"
          "l_type (lck st' a) = l_type ld'" "region ld' \<subseteq> region (lck st' a)"
        then show ?thesis using True nx Cons unfolding adj_result_def by (simp add: Let_def) blast
      next
        fix ld' st' pre' suf' i'
        assume h: "adj_own u r flp (hdp rest) i ld st = Some (AdjRet (Some ENOLCK) ld' st')"
          "adj_inv u r Ls st0 fr0 ld0 pre' suf' i' ld' st'" "region ld' = region ld0"
        then show ?thesis using True nx Cons unfolding adj_result_def by (simp add: Let_def) blast
      qed
    qed
  qed
qed

text \<open>
  What \<open>flckadj\<close> promises: on success the caller holds exactly the requested type on the requested bytes
  and what it held before elsewhere; without a free record, it may have lost bytes of the request, and
  nothing else changed.
\<close>

definition adj_spec :: "flk_id \<Rightarrow> flk \<Rightarrow> nat list \<Rightarrow> flock \<Rightarrow> errno option \<Rightarrow> flk \<Rightarrow> nat list \<Rightarrow> bool" where
  "adj_spec u st0 as0 ld0 e st as \<longleftrightarrow> locks_ok (lck st) as \<and>
     (\<forall>a. a \<in> set as \<and> \<not> own_lock u (lck st a) \<longleftrightarrow> a \<in> set as0 \<and> \<not> own_lock u (lck st0 a)) \<and>
     (\<forall>a\<in>set as0. \<not> own_lock u (lck st0 a) \<longrightarrow> lck st a = lck st0 a) \<and>
     (case e of
        None \<Rightarrow> \<forall>t x. held (lck st) as (me u) t x \<longleftrightarrow>
          (if x \<in> region ld0 then t = l_type ld0 \<and> t \<noteq> F_UNLCK else held (lck st0) as0 (me u) t x)
      | Some e \<Rightarrow> e = ENOLCK \<and>
          (\<forall>t x. x \<notin> region ld0 \<longrightarrow> held (lck st) as (me u) t x = held (lck st0) as0 (me u) t x) \<and>
          (\<forall>t x. held (lck st) as (me u) t x \<longrightarrow> held (lck st0) as0 (me u) t x))"

lemma held_ok_type: "locks_ok D as \<Longrightarrow> held D as ow t x \<Longrightarrow> t \<noteq> F_UNLCK"
  using locks_okD(1) [of D as] by (fastforce simp: held_def lock_ok_def F_RDLCK_def F_WRLCK_def F_UNLCK_def)


text \<open>The call starts at a lock in front of which no lock of the caller meets or adjoins the request.\<close>

lemma adj_start:
  assumes L: "fl_lists st fr Ls" and as: "Ls r = pre @ suf" and ok: "locks_ok (lck st) (Ls r)"
    and ld: "0 \<le> l_start ld" "l_start ld \<le> l_end ld" "l_end ld \<le> MAXEND"
    and pre: "\<forall>a\<in>set pre. own_lock u (lck st a) \<longrightarrow> l_end (lck st a) < l_start ld"
    and ins: "l_type ld \<noteq> F_UNLCK \<Longrightarrow> (case insrtp of None \<Rightarrow> \<forall>a\<in>set (pre @ suf). l_start ld \<le> l_start (lck st a)
        | Some p \<Rightarrow> p \<in> set (pre @ suf) \<and> l_start (lck st p) \<le> l_start ld)"
  shows "adj_inv u r Ls st fr ld pre suf insrtp ld st"
proof (rule adj_invI [OF L])
  show "fl_lists st fr (Ls(r := pre @ suf))" using L as by (simp add: fun_upd_idem)
  show "adj_data u st (Ls r) ld ld st (pre @ suf) fr"
    unfolding adj_data_def using as ok ld by (auto simp: region_def)
  show "adj_wake st (Ls r) fr st (pre @ suf) []"
    unfolding adj_wake_def using as by simp
  show "adj_pos u ld pre suf insrtp ld st"
    unfolding adj_pos_def using pre ins by (auto simp: region_def)
qed

lemma adj_spec_unlock:
  assumes d: "adj_data u st0 as0 ld0 ld st as fr" and ok: "locks_ok (lck st0) as0" and ty: "l_type ld0 = F_UNLCK"
    and apart: "\<forall>a\<in>set as. own_lock u (lck st a) \<longrightarrow> region (lck st a) \<inter> region ld = {}"
  shows "adj_spec u st0 as0 ld0 None st as"
proof -
  note D = adj_dataD [OF d]
  have none: "\<not> held (lck st) as (me u) t x" if "x \<in> region ld" for t x
    using that apart by (auto simp: held_def own_lock_owner)
  have sub: "region ld0 \<subseteq> region ld" using D(7,8) by (auto simp: region_def)
  have "x \<in> region ld0" if "x \<in> region ld" for x
    using D(11) [of x F_UNLCK] that ty held_ok_type [OF ok, of "me u" F_UNLCK x] by auto
  then have "held (lck st) as (me u) t x \<longleftrightarrow>
      (if x \<in> region ld0 then t = l_type ld0 \<and> t \<noteq> F_UNLCK else held (lck st0) as0 (me u) t x)" for t x
    using none [of x t] D(10) [of x t] sub ty by auto
  then show ?thesis unfolding adj_spec_def using D(1-3) by simp
qed

lemma adj_spec_covered:
  assumes d: "adj_data u st0 as0 ld0 ld st as fr"
    and a: "a \<in> set as" "own_lock u (lck st a)" "l_type (lck st a) = l_type ld" "region ld \<subseteq> region (lck st a)"
  shows "adj_spec u st0 as0 ld0 None st as"
proof -
  note D = adj_dataD [OF d]
  have ty: "l_type ld = l_type ld0" by (rule adj_data_type [OF d])
  have h: "held (lck st) as (me u) (l_type ld0) x" if "x \<in> region ld" for x
    using that a ty by (auto simp: held_def own_lock_owner)
  have only: "held (lck st) as (me u) t x \<longleftrightarrow> t = l_type ld0 \<and> t \<noteq> F_UNLCK" if "x \<in> region ld" for t x
    using h [OF that] held_unique [OF D(1)] held_ok_type [OF D(1)] by blast
  have sub: "region ld0 \<subseteq> region ld" using D(7,8) by (auto simp: region_def)
  have "held (lck st) as (me u) t x \<longleftrightarrow>
      (if x \<in> region ld0 then t = l_type ld0 \<and> t \<noteq> F_UNLCK else held (lck st0) as0 (me u) t x)" for t x
  proof (cases "x \<in> region ld")
    case True
    then show ?thesis using only D(11) [of x t] held_ok_type [OF D(1) h [OF True]] by auto
  next
    case False
    then show ?thesis using D(10) sub by auto
  qed
  then show ?thesis unfolding adj_spec_def using D(1-3) by simp
qed

lemma adj_spec_full:
  assumes d: "adj_data u st0 as0 ld0 ld st as fr" and r: "region ld = region ld0"
  shows "adj_spec u st0 as0 ld0 (Some ENOLCK) st as"
  unfolding adj_spec_def using adj_dataD [OF d] r by simp

text \<open>The insertion of the adjusted request.\<close>

lemma flckadj_insert_ok:
  assumes inv: "adj_inv u r Ls st0 fr0 ld0 pre [] insrtp ld st" and ok: "locks_ok (lck st0) (Ls r)"
    and ty: "l_type ld0 \<in> {F_RDLCK, F_WRLCK, F_UNLCK}"
  shows "\<exists>e ld' st' fr as ws. flckadj_insert u r insrtp ld st = Some (e, ld', st') \<and>
    fl_lists st' fr (Ls(r := as)) \<and> adj_spec u st0 (Ls r) ld0 e st' as \<and> adj_wake st0 (Ls r) fr0 st' as ws"
  using inv
proof (rule adj_invE)
  fix fr ws
  assume h0: "fl_lists st0 fr0 Ls" and h: "fl_lists st fr (Ls(r := pre @ []))"
    "adj_data u st0 (Ls r) ld0 ld st (pre @ []) fr"
    "adj_wake st0 (Ls r) fr0 st (pre @ []) ws" "adj_pos u ld0 pre [] insrtp ld st"
  note h = h [unfolded append_Nil2]
  note D = adj_dataD [OF h(2)]
  have lty: "l_type ld = l_type ld0" by (rule adj_data_type [OF h(2)])
  have apart: "\<forall>a\<in>set pre. own_lock u (lck st a) \<longrightarrow> region (lck st a) \<inter> region ld = {}"
    using h(4) by (simp add: adj_pos_def)
  show ?thesis
  proof (cases "l_type ld = F_UNLCK")
    case True
    have "adj_spec u st0 (Ls r) ld0 None st pre" by (rule adj_spec_unlock [OF h(2) ok _ apart]) (use True lty in simp)
    then show ?thesis using True h(1,3) by (auto simp: flckadj_insert_def)
  next
    case False
    have "\<exists>xs ys. pre = xs @ ys \<and> (\<forall>a\<in>set xs. l_start (lck st a) \<le> l_start ld) \<and>
        (\<forall>a\<in>set ys. l_start ld \<le> l_start (lck st a)) \<and>
        (case insrtp of None \<Rightarrow> Some None | Some p \<Rightarrow> ins_search (nat (fl_recs st)) st (l_start ld) p insrtp) = Some (lastp None xs)"
    proof (cases insrtp)
      case None
      then show ?thesis using h(4) False by (intro exI [of _ "[]"] exI [of _ pre]) (simp add: adj_pos_def)
    next
      case (Some p)
      then have p: "p \<in> set pre" "l_start (lck st p) \<le> l_start ld" using h(4) False by (simp_all add: adj_pos_def)
      then obtain us vs where pre: "pre = us @ p # vs" by (auto simp: in_set_conv_decomp)
      let ?P = "\<lambda>a. l_start (lck st a) < l_start ld"
      define zs where "zs = takeWhile ?P (p # vs)"
      define ws where "ws = dropWhile ?P (p # vs)"
      have sr: "sorted (map (\<lambda>a. l_start (lck st a)) (p # vs))" "\<forall>a\<in>set us. l_start (lck st a) \<le> l_start (lck st p)"
        using locks_okD(2) [OF D(1)] sorted_before(1) [of "lck st" us p vs] D(1) pre by (simp_all add: sorted_append)
      note tw = takeWhile_sorted [OF sr(1) zs_def ws_def]
      have len: "length pre \<le> nat (fl_recs st)" using fl_lists_length [OF h(1), of r] by simp
      have lk: "linked (\<lambda>a. fl_next (flox st a)) (Some p) (p # vs)"
        using fl_listsD(2) [OF h(1), of r] pre by (auto dest: lck_list_suffix)
      have s: "ins_search (nat (fl_recs st)) st (l_start ld) p insrtp = Some (lastp insrtp zs)"
        using ins_search_ok [OF lk, of "nat (fl_recs st)"] len pre by (simp add: zs_def)
      show ?thesis
      proof (cases "zs = []")
        case True
        then have "ws = p # vs" using tw(1) by simp
        then have ge: "\<forall>a\<in>set (p # vs). l_start ld \<le> l_start (lck st a)" using tw(3) by simp
        show ?thesis
          by (rule exI [of _ "us @ [p]"], rule exI [of _ vs]) (use ge sr(2) p pre s True Some in auto)
      next
        case zne: False
        have e: "lastp insrtp zs = lastp None (us @ zs)" using zne by (simp add: lastp_def)
        show ?thesis
        proof (intro exI conjI)
          show "pre = (us @ zs) @ ws" using tw(1) pre by simp
          show "\<forall>a\<in>set (us @ zs). l_start (lck st a) \<le> l_start ld" using tw(2) sr(2) p(2) by fastforce
          show "\<forall>a\<in>set ws. l_start ld \<le> l_start (lck st a)" by (rule tw(3))
          show "(case insrtp of None \<Rightarrow> Some None | Some p \<Rightarrow> ins_search (nat (fl_recs st)) st (l_start ld) p insrtp) =
              Some (lastp None (us @ zs))" using Some s e by simp
        qed
      qed
    qed
    then obtain xs ys where xy: "pre = xs @ ys" "\<forall>a\<in>set xs. l_start (lck st a) \<le> l_start ld"
        "\<forall>a\<in>set ys. l_start ld \<le> l_start (lck st a)"
      and se: "(case insrtp of None \<Rightarrow> Some None | Some p \<Rightarrow> ins_search (nat (fl_recs st)) st (l_start ld) p insrtp) = Some (lastp None xs)"
      by blast
    have ie: "flckadj_insert u r insrtp ld st = (case insflck u r ld (lastp None xs) st of
        (None, st1) \<Rightarrow> Some (Some ENOLCK, ld, st1) | (Some _, st1) \<Rightarrow> Some (None, ld, st1))"
      using False by (simp add: flckadj_insert_def se)
    show ?thesis
    proof (cases fr)
      case Nil
      let ?st = "st\<lparr>fl_recovf := int32 (fl_recovf st + 1)\<rparr>"
      have i: "insflck u r ld (lastp None xs) st = (None, ?st)" by (rule insflck_full) (use h(1) Nil in simp)
      have "fl_lists ?st fr (Ls(r := pre))" using h(1) by (subst fl_lists_links) (auto simp: fl_links_def)
      moreover have "adj_data u st0 (Ls r) ld0 ld ?st pre fr" using h(2) by (simp add: adj_data_def)
      moreover have "adj_wake st0 (Ls r) fr0 ?st pre ws" using h(3) by (simp add: adj_wake_def fl_frame_def)
      moreover have "region ld = region ld0" using D(13) Nil by simp
      ultimately show ?thesis using adj_spec_full i by (simp add: ie) blast
    next
      case (Cons n fr1)
      have L: "(Ls(r := pre)) r = xs @ ys" using xy(1) by simp
      obtain st1 where i: "insflck u r ld (lastp None xs) st = (Some n, st1)"
        and l1: "fl_lists st1 fr1 (Ls(r := xs @ n # ys))"
        and D1: "\<And>b. lck st1 b = (if b = n then stamped u ld else lck st b)"
        and S1: "\<And>b. fl_stat (flox st1 b) = (if b = n then 0 else fl_stat (flox st b))"
        and W1: "fl_wakes st1 = fl_wakes st" and F1: "fl_frame st st1"
        by (rule insflck_ok [OF h(1) [unfolded Cons] L refl, of u ld, unfolded fun_upd_upd]) (rule that)
      have nin: "n \<notin> set (xs @ ys)" using fl_lists_distinct [OF l1, of r] by simp
      have same: "\<forall>a\<in>set (xs @ ys). lck st1 a = lck st a" using nin D1 by auto
      have rc: "fl_recs st = fl_recs st0" using h(3) by (simp add: adj_wake_def fl_frame_def)
      note ex = fl_lists_exchange [OF h0 h(1) rc]
      have w1: "adj_wake st0 (Ls r) fr0 st1 (xs @ n # ys) ws"
        by (rule adj_wake_insert [OF h(3), of n]) (use nin xy(1) ex Cons D1 S1 W1 F1 in auto)
      have lok: "lock_ok (lck st1 n)"
        using D(4-9) ty False lty by (auto simp: D1 lock_ok_def)
      have ok1: "locks_ok (lck st1) (xs @ n # ys)"
        by (rule locks_ok_insert [OF locks_ok_cong [OF _ same]])
          (use D(1) xy lok same apart nin D1 in \<open>auto simp: own_lock_owner\<close>)
      have hl: "held (lck st1) (xs @ n # ys) (me u) t x \<longleftrightarrow> held (lck st) pre (me u) t x \<or> t = l_type ld0 \<and> x \<in> region ld" for t x
        using held_insert [of "lck st1" xs n ys] held_cong [OF same] xy(1) lty by (simp add: D1)
      have dat: "adj_spec u st0 (Ls r) ld0 None st1 (xs @ n # ys)"
        unfolding adj_spec_def
      proof (intro conjI allI ballI impI)
        have own1: "own_lock u (lck st1 n)" by (simp add: D1 own_lock_owner)
        show "a \<in> set (xs @ n # ys) \<and> \<not> own_lock u (lck st1 a) \<longleftrightarrow> a \<in> set (Ls r) \<and> \<not> own_lock u (lck st0 a)" for a
          using D(2) [of a] own1 same xy(1) nin by (cases "a = n") auto
        show "lck st1 a = lck st0 a" if "a \<in> set (Ls r)" "\<not> own_lock u (lck st0 a)" for a
          using D(2) [of a] D(3) [of a] that same xy(1) by auto
        have sub: "region ld0 \<subseteq> region ld" using D(7,8) by (auto simp: region_def)
        have none: "\<not> held (lck st) pre (me u) t x" if "x \<in> region ld" for t x
          using that apart by (auto simp: held_def own_lock_owner)
        show "case None of None \<Rightarrow> \<forall>t x. held (lck st1) (xs @ n # ys) (me u) t x \<longleftrightarrow>
            (if x \<in> region ld0 then t = l_type ld0 \<and> t \<noteq> F_UNLCK else held (lck st0) (Ls r) (me u) t x)
          | Some e \<Rightarrow> e = ENOLCK \<and> (\<forall>t x. x \<notin> region ld0 \<longrightarrow> held (lck st1) (xs @ n # ys) (me u) t x = held (lck st0) (Ls r) (me u) t x) \<and>
            (\<forall>t x. held (lck st1) (xs @ n # ys) (me u) t x \<longrightarrow> held (lck st0) (Ls r) (me u) t x)"
        proof (simp only: option.case, intro allI)
          fix t x
          show "held (lck st1) (xs @ n # ys) (me u) t x \<longleftrightarrow>
            (if x \<in> region ld0 then t = l_type ld0 \<and> t \<noteq> F_UNLCK else held (lck st0) (Ls r) (me u) t x)"
            unfolding hl using none [of x t] sub D(10) [of x t] D(11) [of x t] False lty by auto
        qed
      qed (rule ok1)
      then show ?thesis using i l1 w1 by (simp add: ie) blast
    qed
  qed
qed
lemma flckadj_ok:
  assumes L: "fl_lists st fr Ls" and as: "Ls r = pre @ suf" and ok: "locks_ok (lck st) (Ls r)"
    and ty: "l_type ld \<in> {F_RDLCK, F_WRLCK, F_UNLCK}"
    and ld: "0 \<le> l_start ld" "l_start ld \<le> l_end ld" "l_end ld \<le> MAXEND"
    and pre: "\<forall>a\<in>set pre. own_lock u (lck st a) \<longrightarrow> l_end (lck st a) < l_start ld"
    and ins: "l_type ld \<noteq> F_UNLCK \<Longrightarrow> (case insrtp of None \<Rightarrow> \<forall>a\<in>set (pre @ suf). l_start ld \<le> l_start (lck st a)
        | Some p \<Rightarrow> p \<in> set (pre @ suf) \<and> l_start (lck st p) \<le> l_start ld)"
    and cur: "if insrtp = None then pre = [] else insrtp = hdp suf"
  obtains e ld' st' fr' as ws where "flckadj u r insrtp ld st = Some (e, ld', st')"
    "fl_lists st' fr' (Ls(r := as))" "adj_spec u st (Ls r) ld e st' as" "adj_wake st (Ls r) fr st' as ws"
proof -
  have inv: "adj_inv u r Ls st fr ld pre suf insrtp ld st" by (rule adj_start [OF L as ok ld pre ins])
  have "length suf \<le> nat (fl_recs st)" using fl_lists_length [OF L, of r] as by simp
  note R = flckadj_loop_ok [OF inv this]
  have c: "(case insrtp of None \<Rightarrow> lck_head r st | _ \<Rightarrow> insrtp) = hdp suf"
    using cur as lck_list_hdp [OF fl_listsD(2) [OF L, of r]] by (auto split: option.split if_splits)
  have eq: "flckadj u r insrtp ld st = (case flckadj_loop (nat (fl_recs st)) u r (hdp suf) insrtp ld st of
        None \<Rightarrow> None
      | Some (AdjRet e ld' st') \<Rightarrow> Some (e, ld', st')
      | Some (AdjLoop _ insrtp' ld' st') \<Rightarrow> flckadj_insert u r insrtp' ld' st')"
    unfolding flckadj_def c ..
  have "\<exists>e ld' st' fr' as ws. flckadj u r insrtp ld st = Some (e, ld', st') \<and>
    fl_lists st' fr' (Ls(r := as)) \<and> adj_spec u st (Ls r) ld e st' as \<and> adj_wake st (Ls r) fr st' as ws"
    using R unfolding adj_result_def
  proof (elim disjE exE conjE)
    fix i ld' st' pre'
    assume h: "flckadj_loop (nat (fl_recs st)) u r (hdp suf) insrtp ld st = Some (AdjLoop None i ld' st')"
      "adj_inv u r Ls st fr ld pre' [] i ld' st'"
    show ?thesis using flckadj_insert_ok [OF h(2) ok ty] h(1) by (simp add: eq)
  next
    fix ld' st' pre' suf' i a
    assume h: "flckadj_loop (nat (fl_recs st)) u r (hdp suf) insrtp ld st = Some (AdjRet None ld' st')"
      "adj_inv u r Ls st fr ld pre' suf' i ld' st'" "a \<in> set (pre' @ suf')" "own_lock u (lck st' a)"
      "l_type (lck st' a) = l_type ld'" "region ld' \<subseteq> region (lck st' a)"
    from h(2) obtain fr' ws where x: "fl_lists st' fr' (Ls(r := pre' @ suf'))"
      "adj_data u st (Ls r) ld ld' st' (pre' @ suf') fr'" "adj_wake st (Ls r) fr st' (pre' @ suf') ws"
      by (rule adj_invE)
    show ?thesis using x(1,3) adj_spec_covered [OF x(2) h(3-6)] h(1) by (simp add: eq) blast
  next
    fix ld' st' pre' suf' i
    assume h: "flckadj_loop (nat (fl_recs st)) u r (hdp suf) insrtp ld st = Some (AdjRet (Some ENOLCK) ld' st')"
      "adj_inv u r Ls st fr ld pre' suf' i ld' st'" "region ld' = region ld"
    from h(2) obtain fr' ws where x: "fl_lists st' fr' (Ls(r := pre' @ suf'))"
      "adj_data u st (Ls r) ld ld' st' (pre' @ suf') fr'" "adj_wake st (Ls r) fr st' (pre' @ suf') ws"
      by (rule adj_invE)
    show ?thesis using x(1,3) adj_spec_full [OF x(2) h(3)] h(1) by (simp add: eq) blast
  qed
  with that show thesis by blast
qed

end
