(* ===== verification/FlockBlock.thy ===== *)
theory FlockBlock
  imports FlockLoop
begin

text \<open>
  The search of \<open>blocked\<close> for a lock of another process, and \<open>flckadj\<close> at the insertion point it finds.
\<close>

section \<open>Blocking\<close>

text \<open>A lock of another process stands in the way of the request.\<close>

definition blocks :: "flk_id \<Rightarrow> flock \<Rightarrow> flock \<Rightarrow> bool" where
  "blocks u ld fs \<longleftrightarrow> \<not> own_lock u fs \<and> conflicts ld fs \<and> region fs \<inter> region ld \<noteq> {}"

lemma blocks_iff:
  "lock_ok fs \<Longrightarrow> l_start ld \<le> l_end ld \<Longrightarrow>
   blocks u ld fs \<longleftrightarrow> \<not> own_lock u fs \<and> conflicts ld fs \<and> l_start ld \<le> l_end fs \<and> l_start fs \<le> l_end ld"
  by (auto simp: blocks_def region_def lock_ok_def)

lemma blocked_rest_ok:
  assumes "linked (\<lambda>a. fl_next (flox st a)) p as" "length as \<le> n"
    "\<forall>a\<in>set as. lock_ok (lck st a)" "sorted (map (\<lambda>a. l_start (lck st a)) as)" "l_start ld \<le> l_end ld"
  shows "\<exists>b. blocked_rest n u st ld p = Some b \<and>
    (case b of None \<Rightarrow> \<forall>a\<in>set as. \<not> blocks u ld (lck st a) | Some f \<Rightarrow> f \<in> set as \<and> blocks u ld (lck st f))"
  using assms
proof (induction as arbitrary: p n)
  case (Cons a as)
  then obtain m where n: "n = Suc m" by (cases n) auto
  have p: "p = Some a" "linked (\<lambda>a. fl_next (flox st a)) (fl_next (flox st a)) as" using Cons.prems(1) by auto
  have lo: "lock_ok (lck st a)" using Cons.prems(3) by simp
  show ?case
  proof (cases "l_end ld < l_start (lck st a)")
    case True
    have "\<forall>b\<in>set (a # as). \<not> blocks u ld (lck st b)"
    proof
      fix b assume b: "b \<in> set (a # as)"
      then have "l_start (lck st a) \<le> l_start (lck st b)" using Cons.prems(4) by auto
      then show "\<not> blocks u ld (lck st b)"
        using True Cons.prems(3) b blocks_iff [of "lck st b" ld u] Cons.prems(5) by auto
    qed
    then show ?thesis using True p n by simp
  next
    case False
    have "\<exists>b. blocked_rest m u st ld (fl_next (flox st a)) = Some b \<and>
      (case b of None \<Rightarrow> \<forall>a\<in>set as. \<not> blocks u ld (lck st a) | Some f \<Rightarrow> f \<in> set as \<and> blocks u ld (lck st f))"
      using Cons.IH [OF p(2), of m] Cons.prems n by simp
    then show ?thesis
      using False p n blocks_iff [OF lo Cons.prems(5), of u] by (auto split: option.splits)
  qed
qed simp

text \<open>
  \<open>blocked\<close> finds a blocking lock exactly if there is one; if not, its insertion point satisfies what
  \<open>flckadj\<close> asks for.
\<close>

definition insert_at :: "flk_id \<Rightarrow> flk \<Rightarrow> flock \<Rightarrow> nat list \<Rightarrow> ptr \<Rightarrow> bool" where
  "insert_at u st ld as i \<longleftrightarrow>
     (\<exists>xs ys. as = xs @ ys \<and> (\<forall>a\<in>set xs. own_lock u (lck st a) \<longrightarrow> l_end (lck st a) < l_start ld) \<and>
        (case i of None \<Rightarrow> xs = [] \<and> (\<forall>a\<in>set as. l_start ld \<le> l_start (lck st a))
         | Some q \<Rightarrow> hdp ys = Some q \<and> l_start (lck st q) < l_start ld))"

lemma blocked_from_ok:
  assumes "linked (\<lambda>a. fl_next (flox st a)) p suf" "length suf \<le> n" "locks_ok (lck st) (pre @ suf)"
    "0 \<le> l_start ld" "l_start ld \<le> l_end ld" "l_end ld \<le> MAXEND"
    "\<forall>a\<in>set pre. l_start (lck st a) < l_start ld \<and> \<not> blocks u ld (lck st a) \<and>
       (own_lock u (lck st a) \<longrightarrow> l_end (lck st a) < l_start ld - 1)"
    "insrt = lastp None pre"
  shows "\<exists>b i. blocked_from n u st ld p insrt = Some (b, i) \<and>
    (case b of
       Some f \<Rightarrow> f \<in> set suf \<and> blocks u ld (lck st f)
     | None \<Rightarrow> (\<forall>a\<in>set (pre @ suf). \<not> blocks u ld (lck st a)) \<and> insert_at u st ld (pre @ suf) i)"
  using assms
proof (induction suf arbitrary: p n pre insrt)
  case Nil
  have "insert_at u st ld pre insrt"
  proof (cases pre rule: rev_cases)
    case (snoc xs q)
    then show ?thesis unfolding insert_at_def using Nil.prems(7,8) by (intro exI [of _ xs] exI [of _ "[q]"]) auto
  qed (use Nil.prems in \<open>simp add: insert_at_def\<close>)
  then show ?case using Nil.prems by simp
next
  case (Cons f suf)
  then obtain m where n: "n = Suc m" by (cases n) auto
  have p: "p = Some f" "linked (\<lambda>a. fl_next (flox st a)) (fl_next (flox st f)) suf" using Cons.prems(1) by auto
  note ok = Cons.prems(3)
  have lo: "lock_ok (lck st f)" by (rule locks_okD(1) [OF ok]) simp
  have i32: "int32 (l_start ld - 1) = l_start ld - 1"
    using Cons.prems(4-6) by (intro int32_id) (auto simp: MAXEND_def)
  have srt: "sorted (map (\<lambda>a. l_start (lck st a)) (f # suf))" using locks_okD(2) [OF ok] by (simp add: sorted_append)
  have "\<forall>a\<in>set (f # suf). lock_ok (lck st a)" using locks_okD(1) [OF ok] by simp
  from blocked_rest_ok [OF Cons.prems(1,2) this srt Cons.prems(5), of u]
  obtain b where b: "blocked_rest (Suc m) u st ld (Some f) = Some b"
      "case b of None \<Rightarrow> \<forall>a\<in>set (f # suf). \<not> blocks u ld (lck st a) | Some g \<Rightarrow> g \<in> set (f # suf) \<and> blocks u ld (lck st g)"
    using p n by blast
  show ?case
  proof (cases "l_start (lck st f) < l_start ld")
    case False
    have ge: "\<forall>a\<in>set (f # suf). l_start ld \<le> l_start (lck st a)" using False srt by auto
    have w: "insert_at u st ld (pre @ f # suf) insrt"
    proof (cases pre rule: rev_cases)
      case Nil
      then show ?thesis unfolding insert_at_def using ge Cons.prems(8) by simp
    next
      case (snoc xs q)
      then show ?thesis unfolding insert_at_def using Cons.prems(7,8) by (intro exI [of _ xs] exI [of _ "q # f # suf"]) auto
    qed
    have "blocked_from n u st ld p insrt = Some (b, insrt)" using False b(1) p n by (simp add: Let_def)
    then show ?thesis using b(2) w Cons.prems(7) by (cases b) auto
  next
    case lt: True
    show ?thesis
    proof (cases "own_lock u (lck st f) \<and> l_start ld - 1 \<le> l_end (lck st f)")
      case True
      have e: "blocked_from n u st ld p insrt = Some (b, Some f)" using True lt b(1) p n by (simp add: Let_def i32)
      have "\<forall>a\<in>set pre. own_lock u (lck st a) \<longrightarrow> l_end (lck st a) < l_start ld" using Cons.prems(7) by auto
      then have "insert_at u st ld (pre @ f # suf) (Some f)"
        unfolding insert_at_def using lt by (intro exI [of _ pre] exI [of _ "f # suf"]) simp
      then show ?thesis using e b(2) lt Cons.prems(7) by (cases b) auto
    next
      case nstop: False
      show ?thesis
      proof (cases "blocks u ld (lck st f)")
        case True
        then have "blocked_from n u st ld p insrt = Some (Some f, Some f)"
          using nstop lt p n blocks_iff [OF lo Cons.prems(5), of u] by (simp add: Let_def i32)
        then show ?thesis using True by simp
      next
        case nb: False
        have e: "blocked_from n u st ld p insrt = blocked_from m u st ld (fl_next (flox st f)) (Some f)"
          using nstop lt p n nb blocks_iff [OF lo Cons.prems(5), of u] Cons.prems(5) by (auto simp: Let_def i32)
        have "\<forall>a\<in>set (pre @ [f]). l_start (lck st a) < l_start ld \<and> \<not> blocks u ld (lck st a) \<and>
            (own_lock u (lck st a) \<longrightarrow> l_end (lck st a) < l_start ld - 1)"
          using Cons.prems(7) lt nb nstop by auto
        moreover have "locks_ok (lck st) ((pre @ [f]) @ suf)" using ok by simp
        moreover have "length suf \<le> m" using Cons.prems(2) n by simp
        moreover have "Some f = lastp None (pre @ [f])" by simp
        ultimately have x: "\<exists>b i. blocked_from m u st ld (fl_next (flox st f)) (Some f) = Some (b, i) \<and>
          (case b of
             Some g \<Rightarrow> g \<in> set suf \<and> blocks u ld (lck st g)
           | None \<Rightarrow> (\<forall>a\<in>set ((pre @ [f]) @ suf). \<not> blocks u ld (lck st a)) \<and> insert_at u st ld ((pre @ [f]) @ suf) i)"
          by (intro Cons.IH [OF p(2)]) (use Cons.prems(4-6) in auto)
        then show ?thesis unfolding e append_assoc append_Cons append_Nil
          by (elim exE conjE) (intro exI conjI, assumption, auto split: option.splits)
      qed
    qed
  qed
qed


lemma blocked_ok:
  assumes L: "fl_lists st fr Ls" and ok: "locks_ok (lck st) (Ls (InoL ip))"
    and ld: "0 \<le> l_start ld" "l_start ld \<le> l_end ld" "l_end ld \<le> MAXEND"
  shows "\<exists>b i. blocked u st (i_filocks st ip) ld = Some (b, i) \<and>
    (case b of
       Some f \<Rightarrow> f \<in> set (Ls (InoL ip)) \<and> blocks u ld (lck st f)
     | None \<Rightarrow> (\<forall>a\<in>set (Ls (InoL ip)). \<not> blocks u ld (lck st a)) \<and> insert_at u st ld (Ls (InoL ip)) i)"
proof -
  have "linked (\<lambda>a. fl_next (flox st a)) (i_filocks st ip) (Ls (InoL ip))"
    using fl_listsD(2) [OF L, of "InoL ip"] by (simp add: lck_list_def dlinked_linked)
  from blocked_from_ok [OF this fl_lists_length [OF L], of "[]" ld u None, unfolded append_Nil] ok ld
  show ?thesis unfolding blocked_def by simp
qed

text \<open>Setting a lock that nothing blocks, and removing locks.\<close>

lemma set_lock_ok:
  assumes L: "fl_lists st fr Ls" and ok: "locks_ok (lck st) (Ls (InoL ip))"
    and ty: "l_type ld \<in> {F_RDLCK, F_WRLCK}"
    and ld: "0 \<le> l_start ld" "l_start ld \<le> l_end ld" "l_end ld \<le> MAXEND"
    and i: "insert_at u st ld (Ls (InoL ip)) i"
  obtains e ld' st' fr' as ws where "flckadj u (InoL ip) i ld st = Some (e, ld', st')"
    "fl_lists st' fr' (Ls(InoL ip := as))" "adj_spec u st (Ls (InoL ip)) ld e st' as"
    "adj_wake st (Ls (InoL ip)) fr st' as ws"
proof -
  obtain xs ys where xy: "Ls (InoL ip) = xs @ ys"
    "\<forall>a\<in>set xs. own_lock u (lck st a) \<longrightarrow> l_end (lck st a) < l_start ld"
    "case i of None \<Rightarrow> xs = [] \<and> (\<forall>a\<in>set (Ls (InoL ip)). l_start ld \<le> l_start (lck st a))
         | Some q \<Rightarrow> hdp ys = Some q \<and> l_start (lck st q) < l_start ld"
    using i unfolding insert_at_def by blast
  show thesis
  proof (rule flckadj_ok [OF L xy(1) ok _ ld xy(2)])
    show "l_type ld \<in> {F_RDLCK, F_WRLCK, F_UNLCK}" using ty by auto
    show "case i of None \<Rightarrow> \<forall>a\<in>set (xs @ ys). l_start ld \<le> l_start (lck st a)
        | Some p \<Rightarrow> p \<in> set (xs @ ys) \<and> l_start (lck st p) \<le> l_start ld"
      using xy(1,3) by (cases i) (auto dest: hdp_in)
    show "if i = None then xs = [] else i = hdp ys" using xy(3) by (cases i) auto
  qed (rule that)
qed

lemma unlock_ok:
  assumes L: "fl_lists st fr Ls" and ok: "locks_ok (lck st) (Ls (InoL ip))"
    and ty: "l_type ld = F_UNLCK"
    and ld: "0 \<le> l_start ld" "l_start ld \<le> l_end ld" "l_end ld \<le> MAXEND"
  obtains e ld' st' fr' as ws where "flckadj u (InoL ip) (i_filocks st ip) ld st = Some (e, ld', st')"
    "fl_lists st' fr' (Ls(InoL ip := as))" "adj_spec u st (Ls (InoL ip)) ld e st' as"
    "adj_wake st (Ls (InoL ip)) fr st' as ws"
proof (rule flckadj_ok [OF L _ ok _ ld, of "[]"])
  show "if i_filocks st ip = None then [] = [] else i_filocks st ip = hdp (Ls (InoL ip))"
    using lck_list_hdp [OF fl_listsD(2) [OF L, of "InoL ip"]] by simp
qed (use ty that in auto)

end
