(* ===== verification/FlockInv.thy ===== *)
theory FlockInv
  imports FlockBlock
begin

text \<open>
  The invariant of the lock tables under \<open>flckadj\<close> and \<open>cleanlocks\<close>, and the relation between waiting
  processes that \<open>deadflck\<close> searches.
\<close>

section \<open>Locks of different processes are compatible\<close>

definition lcompat :: "(nat \<Rightarrow> flock) \<Rightarrow> nat list \<Rightarrow> bool" where
  "lcompat D as \<longleftrightarrow> (\<forall>o1 o2 t1 t2 x. held D as o1 t1 x \<and> held D as o2 t2 x \<and> o1 \<noteq> o2 \<longrightarrow>
     t1 = F_RDLCK \<and> t2 = F_RDLCK)"

lemma lcompat_sub: "lcompat D as \<Longrightarrow> (\<And>ow t x. held D' as' ow t x \<Longrightarrow> held D as ow t x) \<Longrightarrow> lcompat D' as'"
  unfolding lcompat_def by blast

lemma held_other:
  assumes "adj_spec u st0 as0 ld e st as" "ow \<noteq> me u"
  shows "held (lck st) as ow t x = held (lck st0) as0 ow t x"
proof -
  have "a \<in> set as \<and> \<not> own_lock u (lck st a) \<longleftrightarrow> a \<in> set as0 \<and> \<not> own_lock u (lck st0 a)"
    "a \<in> set as0 \<Longrightarrow> \<not> own_lock u (lck st0 a) \<Longrightarrow> lck st a = lck st0 a" for a
    using assms(1) unfolding adj_spec_def by blast+
  then show ?thesis using assms(2) unfolding held_def own_lock_owner by metis
qed

lemma lcompat_adj:
  assumes s: "adj_spec u st0 as0 ld e st as" and c: "lcompat (lck st0) as0"
    and free: "l_type ld = F_UNLCK \<or> l_type ld \<in> {F_RDLCK, F_WRLCK} \<and> (\<forall>a\<in>set as0. \<not> blocks u ld (lck st0 a))"
    and ok: "locks_ok (lck st0) as0"
  shows "lcompat (lck st) as"
proof -
  have mine: "t = F_RDLCK \<and> t' = F_RDLCK"
    if h: "held (lck st) as (me u) t x" "held (lck st) as ow t' x" "ow \<noteq> me u" for t t' x ow
  proof -
    have o0: "held (lck st0) as0 ow t' x" using h(2,3) held_other [OF s] by simp
    show ?thesis
    proof (cases "held (lck st0) as0 (me u) t x")
      case True
      then show ?thesis using c o0 h(3) unfolding lcompat_def by blast
    next
      case False
      then have x: "x \<in> region ld" "t = l_type ld" "t \<noteq> F_UNLCK"
        using s h(1) unfolding adj_spec_def by (auto split: option.splits if_splits)
      obtain a where a: "a \<in> set as0" "owner (lck st0 a) = ow" "l_type (lck st0 a) = t'" "x \<in> region (lck st0 a)"
        using o0 unfolding held_def by blast
      then have "\<not> conflicts ld (lck st0 a)"
        using free x h(3) by (auto simp: blocks_def own_lock_owner)
      then show ?thesis using free x a(3) locks_okD(1) [OF ok a(1)] by (auto simp: conflicts_def lock_ok_def)
    qed
  qed
  show ?thesis unfolding lcompat_def
  proof (intro allI impI)
    fix o1 o2 t1 t2 x
    assume h: "held (lck st) as o1 t1 x \<and> held (lck st) as o2 t2 x \<and> o1 \<noteq> o2"
    consider "o1 = me u" | "o2 = me u" | "o1 \<noteq> me u" "o2 \<noteq> me u" by blast
    then show "t1 = F_RDLCK \<and> t2 = F_RDLCK"
    proof cases
      case 1
      then show ?thesis using mine [of t1 x o2 t2] h by blast
    next
      case 2
      then show ?thesis using mine [of t2 x o1 t1] h by blast
    next
      case 3
      then show ?thesis using held_other [OF s] h c unfolding lcompat_def by blast
    qed
  qed
qed

text \<open>The invariant of the tables; \<open>ids\<close> are the identities of the processes that use them.\<close>

definition flk_inv :: "(int \<times> int) set \<Rightarrow> flk \<Rightarrow> nat list \<Rightarrow> (lckref \<Rightarrow> nat list) \<Rightarrow> bool" where
  "flk_inv ids st fr Ls \<longleftrightarrow> fl_lists st fr Ls \<and>
     (\<forall>ip. locks_ok (lck st) (Ls (InoL ip)) \<and> lcompat (lck st) (Ls (InoL ip))) \<and>
     (\<forall>r. \<forall>a\<in>set (Ls r). owner (lck st a) \<in> ids)"

lemma flk_invD:
  assumes "flk_inv ids st fr Ls"
  shows "fl_lists st fr Ls" "locks_ok (lck st) (Ls (InoL ip))" "lcompat (lck st) (Ls (InoL ip))"
    "a \<in> set (Ls r) \<Longrightarrow> owner (lck st a) \<in> ids"
  using assms by (auto simp: flk_inv_def)

lemma adj_wake_other:
  assumes w: "adj_wake st (Ls r) fr st' as ws" and L: "fl_lists st fr Ls" and q: "q \<noteq> r" "a \<in> set (Ls q)"
  shows "lck st' a = lck st a" "fl_stat (flox st' a) = fl_stat (flox st a)"
proof -
  have "a \<notin> set (Ls r) \<union> set fr" using fl_listsD(3) [OF L, of q] fl_listsD(4) [OF L q(1)] q(2) by auto
  then show "lck st' a = lck st a" "fl_stat (flox st' a) = fl_stat (flox st a)" using w by (simp_all add: adj_wake_def)
qed

text \<open>A change of the locks of one inode keeps the invariant if it does for that inode.\<close>

lemma flk_inv_ino:
  assumes inv: "flk_inv ids st fr Ls" and l': "fl_lists st' fr' (Ls(InoL ip := as))"
    and w: "adj_wake st (Ls (InoL ip)) fr st' as ws"
    and as: "locks_ok (lck st') as" "lcompat (lck st') as" "\<forall>a\<in>set as. owner (lck st' a) \<in> ids"
  shows "flk_inv ids st' fr' (Ls(InoL ip := as))"
proof -
  note I = flk_invD [OF inv]
  have same: "\<forall>a\<in>set (Ls q). lck st' a = lck st a" if "q \<noteq> InoL ip" for q
    using adj_wake_other [OF w I(1) that] by blast
  have "locks_ok (lck st') (Ls (InoL jp)) \<and> lcompat (lck st') (Ls (InoL jp))" if "jp \<noteq> ip" for jp
    using that locks_ok_cong [OF I(2) same] I(3) held_cong [OF same] unfolding lcompat_def by (metis lckref.inject)
  moreover have "owner (lck st' a) \<in> ids" if "a \<in> set (Ls q)" "q \<noteq> InoL ip" for a q
    using same [OF that(2)] I(4) that by auto
  ultimately show ?thesis using l' as unfolding flk_inv_def by auto
qed

lemma flk_inv_adj:
  assumes inv: "flk_inv ids st fr Ls" and u: "me u \<in> ids" and l': "fl_lists st' fr' (Ls(InoL ip := as))"
    and w: "adj_wake st (Ls (InoL ip)) fr st' as ws" and s: "adj_spec u st (Ls (InoL ip)) ld e st' as"
    and free: "l_type ld = F_UNLCK \<or>
      l_type ld \<in> {F_RDLCK, F_WRLCK} \<and> (\<forall>a\<in>set (Ls (InoL ip)). \<not> blocks u ld (lck st a))"
  shows "flk_inv ids st' fr' (Ls(InoL ip := as))"
proof (rule flk_inv_ino [OF inv l' w])
  note I = flk_invD [OF inv]
  show "locks_ok (lck st') as" using s by (simp add: adj_spec_def)
  show "lcompat (lck st') as" by (rule lcompat_adj [OF s I(3) free I(2)])
  show "\<forall>a\<in>set as. owner (lck st' a) \<in> ids"
  proof
    fix a assume a: "a \<in> set as"
    have "a \<in> set as \<and> \<not> own_lock u (lck st' a) \<longleftrightarrow> a \<in> set (Ls (InoL ip)) \<and> \<not> own_lock u (lck st a)"
      "a \<in> set (Ls (InoL ip)) \<Longrightarrow> \<not> own_lock u (lck st a) \<Longrightarrow> lck st' a = lck st a"
      using s unfolding adj_spec_def by blast+
    then show "owner (lck st' a) \<in> ids" using a u I(4) [of a "InoL ip"] by (cases "own_lock u (lck st' a)") (auto simp: own_lock_owner)
  qed
qed

section \<open>Cleaning up\<close>

definition clean_match :: "flk_id \<Rightarrow> nat \<Rightarrow> flock \<Rightarrow> bool" where
  "clean_match u flag fs \<longleftrightarrow> (l_pid fs = p_epid u \<or> flag = IGN_PID) \<and> l_sysid fs = p_sysid u"

lemma cleanlocks_from_ok:
  assumes "fl_lists st fr (Ls(InoL ip := pre @ suf))" "adj_wake st0 (Ls (InoL ip)) fr0 st (pre @ suf) ws"
    "fl_lists st0 fr0 Ls" "\<forall>a. lck st a = lck st0 a" "length suf \<le> n"
  shows "\<exists>st' fr' ws'. cleanlocks_from n u ip flag (hdp suf) st = Some st' \<and>
    fl_lists st' fr' (Ls(InoL ip := pre @ filter (\<lambda>a. \<not> clean_match u flag (lck st0 a)) suf)) \<and>
    adj_wake st0 (Ls (InoL ip)) fr0 st' (pre @ filter (\<lambda>a. \<not> clean_match u flag (lck st0 a)) suf) ws' \<and>
    (\<forall>a. lck st' a = lck st0 a)"
  using assms
proof (induction suf arbitrary: st fr pre ws n)
  case Nil
  then show ?case by auto
next
  case (Cons f suf)
  then obtain m where n: "n = Suc m" by (cases n) auto
  have nx: "fl_next (flox st f) = hdp suf"
    using fl_listsD(2) [OF Cons.prems(1), of "InoL ip"] dlinked_at(1) by (simp add: lck_list_def)
  have dis: "distinct (pre @ f # suf)" using fl_lists_distinct [OF Cons.prems(1), of "InoL ip"] by simp
  show ?case
  proof (cases "clean_match u flag (lck st0 f)")
    case False
    then have e: "cleanlocks_from n u ip flag (hdp (f # suf)) st = cleanlocks_from m u ip flag (hdp suf) st"
      using n nx Cons.prems(4) by (auto simp: clean_match_def Let_def)
    have "length suf \<le> m" using Cons.prems(5) n by simp
    from Cons.IH [of st fr "pre @ [f]" ws m, OF _ _ Cons.prems(3,4) this] Cons.prems(1,2) False
    show ?thesis unfolding e by simp
  next
    case True
    let ?st = "delflck (InoL ip) f st"
    have e: "cleanlocks_from n u ip flag (hdp (f # suf)) st = cleanlocks_from m u ip flag (hdp suf) ?st"
      using n nx True Cons.prems(4) by (simp add: clean_match_def Let_def)
    have L: "(Ls(InoL ip := pre @ f # suf)) (InoL ip) = pre @ f # suf" by simp
    note del = delflck_ok [OF Cons.prems(1) L, unfolded fun_upd_upd]
    have rc: "fl_recs st = fl_recs st0" using Cons.prems(2) by (simp add: adj_wake_def fl_frame_def)
    have ex: "f \<in> set (Ls (InoL ip)) \<union> set fr0" using fl_lists_exchange [OF Cons.prems(3,1) rc] by auto
    have w: "adj_wake st0 (Ls (InoL ip)) fr0 ?st (pre @ suf) (ws @ (if fl_stat (flox st f) \<noteq> 0 then [f] else []))"
      by (rule adj_wake_touch [OF Cons.prems(2) _ ex _ _ del(4,5)]) (use del(2,3) dis in auto)
    have "length suf \<le> m" using Cons.prems(5) n by simp
    from Cons.IH [OF del(1) w Cons.prems(3) _ this] del(2) Cons.prems(4) True
    show ?thesis unfolding e by simp
  qed
qed

lemma cleanlocks_ok:
  assumes inv: "flk_inv ids st fr Ls"
  obtains st' fr' ws where "cleanlocks u ip flag st = Some st'"
    "flk_inv ids st' fr' (Ls(InoL ip := filter (\<lambda>a. \<not> clean_match u flag (lck st a)) (Ls (InoL ip))))"
    "adj_wake st (Ls (InoL ip)) fr st' (filter (\<lambda>a. \<not> clean_match u flag (lck st a)) (Ls (InoL ip))) ws"
    "\<forall>a. lck st' a = lck st a"
proof -
  note I = flk_invD [OF inv]
  let ?as = "filter (\<lambda>a. \<not> clean_match u flag (lck st a)) (Ls (InoL ip))"
  have l: "fl_lists st fr (Ls(InoL ip := [] @ Ls (InoL ip)))" using I(1) by (simp add: fun_upd_idem)
  have w: "adj_wake st (Ls (InoL ip)) fr st ([] @ Ls (InoL ip)) []" by (simp add: adj_wake_def)
  have hd: "i_filocks st ip = hdp (Ls (InoL ip))" using lck_list_hdp [OF fl_listsD(2) [OF I(1), of "InoL ip"]] by simp
  from cleanlocks_from_ok [OF l w I(1) _ fl_lists_length [OF I(1)], of u flag]
  obtain st' fr' ws where c: "cleanlocks u ip flag st = Some st'" "fl_lists st' fr' (Ls(InoL ip := ?as))"
      "adj_wake st (Ls (InoL ip)) fr st' ?as ws" "\<forall>a. lck st' a = lck st a"
    by (auto simp: cleanlocks_def hd)
  have D: "lck st' = lck st" using c(4) by auto
  have "locks_ok (lck st') ?as" using I(2) [of ip] unfolding D locks_ok_def
    by (auto simp: sorted_map intro: sorted_wrt_filter)
  moreover have "lcompat (lck st') ?as" by (rule lcompat_sub [OF I(3) [of ip]]) (auto simp: held_def D)
  moreover have "\<forall>a\<in>set ?as. owner (lck st' a) \<in> ids" using I(4) [of _ "InoL ip"] c(4) by auto
  ultimately have "flk_inv ids st' fr' (Ls(InoL ip := ?as))" by (rule flk_inv_ino [OF inv c(2,3)])
  with that c show thesis by blast
qed


section \<open>Who waits for whom\<close>

definition waits :: "flk \<Rightarrow> nat list \<Rightarrow> ((int \<times> int) \<times> (int \<times> int)) set" where
  "waits st ss = {(owner (lck st sf), (blk_pid (flox st sf), blk_sysid (flox st sf))) | sf. sf \<in> set ss}"

lemma waits_finite [simp]: "finite (waits st ss)"
proof -
  have "waits st ss = (\<lambda>sf. (owner (lck st sf), (blk_pid (flox st sf), blk_sysid (flox st sf)))) ` set ss"
    by (auto simp: waits_def)
  then show ?thesis by simp
qed

lemma waits_range: "card (Range (waits st ss)) \<le> length ss"
proof -
  have "Range (waits st ss) = (\<lambda>sf. (blk_pid (flox st sf), blk_sysid (flox st sf))) ` set ss"
    by (auto simp: waits_def)
  then show ?thesis using card_image_le [of "set ss"] card_length [of ss] by (metis List.finite_set order_trans)
qed

lemma sleep_find_ok:
  assumes "linked (\<lambda>a. fl_next (flox st a)) p ss" "length ss \<le> n"
  shows "\<exists>b. sleep_find n st pid sysid p = Some b \<and>
    (case b of None \<Rightarrow> \<forall>sf\<in>set ss. owner (lck st sf) \<noteq> (pid, sysid)
     | Some sf \<Rightarrow> sf \<in> set ss \<and> owner (lck st sf) = (pid, sysid))"
  using assms
proof (induction ss arbitrary: p n)
  case (Cons sf ss)
  then obtain m where n: "n = Suc m" by (cases n) auto
  have p: "p = Some sf" "linked (\<lambda>a. fl_next (flox st a)) (fl_next (flox st sf)) ss" using Cons.prems(1) by auto
  show ?case
  proof (cases "owner (lck st sf) = (pid, sysid)")
    case True
    then show ?thesis using p n by (auto simp: owner_def Let_def)
  next
    case False
    then have "sleep_find n st pid sysid p = sleep_find m st pid sysid (fl_next (flox st sf))"
      using p n by (auto simp: owner_def Let_def)
    then show ?thesis using Cons.IH [OF p(2), of m] Cons.prems(2) n False by (auto split: option.splits)
  qed
qed simp

text \<open>
  On an acyclic relation the loop returns within as many turns as there are requests asleep, and tells
  whether the chain of waiting processes leads from the owner of the lock to the caller.
\<close>

lemma trancl_Image_step:
  assumes "acyclic W" "(x, y) \<in> W"
  shows "W\<^sup>+ `` {y} \<subset> W\<^sup>+ `` {x}"
proof -
  have "y \<in> W\<^sup>+ `` {x}" "y \<notin> W\<^sup>+ `` {y}" using assms by (auto simp: acyclic_def)
  moreover have "W\<^sup>+ `` {y} \<subseteq> W\<^sup>+ `` {x}" using assms(2) by (auto intro: trancl_into_trancl2)
  ultimately show ?thesis by blast
qed

lemma deadflck_loop_ok:
  assumes l: "linked (\<lambda>a. fl_next (flox st a)) (sleeplcks st) ss" "length ss \<le> nat (fl_recs st)"
    and inj: "inj_on (\<lambda>sf. owner (lck st sf)) (set ss)" and ac: "acyclic (waits st ss)"
    and n: "card ((waits st ss)\<^sup>+ `` {(pid, sysid)}) < n"
  shows "\<exists>b. deadflck_loop n u st pid sysid = Some b \<and> (b \<longleftrightarrow> ((pid, sysid), me u) \<in> (waits st ss)\<^sup>*)"
  using n
proof (induction n arbitrary: pid sysid)
  case (Suc n)
  let ?W = "waits st ss"
  show ?case
  proof (cases "pid = p_epid u \<and> sysid = p_sysid u")
    case True
    then show ?thesis by (intro exI [of _ True]) (simp add: me_def)
  next
    case False
    obtain b where b: "sleep_find (nat (fl_recs st)) st pid sysid (sleeplcks st) = Some b"
      "case b of None \<Rightarrow> \<forall>sf\<in>set ss. owner (lck st sf) \<noteq> (pid, sysid)
        | Some sf \<Rightarrow> sf \<in> set ss \<and> owner (lck st sf) = (pid, sysid)"
      using sleep_find_ok [OF l] by blast
    show ?thesis
    proof (cases b)
      case None
      then have "(pid, sysid) \<notin> Domain ?W" using b(2) by (auto simp: waits_def)
      then have "((pid, sysid), me u) \<notin> ?W\<^sup>*" using False
        by (auto simp: me_def elim: converse_rtranclE)
      then show ?thesis using False b(1) None by auto
    next
      case (Some sf)
      let ?y = "(blk_pid (flox st sf), blk_sysid (flox st sf))"
      have e: "((pid, sysid), ?y) \<in> ?W" using b(2) Some by (force simp: waits_def)
      have only: "y = ?y" if y: "((pid, sysid), y) \<in> ?W" for y
      proof -
        obtain sf' where "sf' \<in> set ss" "owner (lck st sf') = (pid, sysid)"
          "y = (blk_pid (flox st sf'), blk_sysid (flox st sf'))" using y by (auto simp: waits_def)
        moreover from this have "sf' = sf" using inj_onD [OF inj, of sf' sf] b(2) Some by simp
        ultimately show ?thesis by simp
      qed
      have fin: "finite (?W\<^sup>+ `` {(pid, sysid)})"
        by (rule finite_subset [of _ "Range ?W"]) (auto dest: tranclD2 intro: finite_Range)
      have "card (?W\<^sup>+ `` {?y}) < card (?W\<^sup>+ `` {(pid, sysid)})"
        by (rule psubset_card_mono [OF fin trancl_Image_step [OF ac e]])
      then have "\<exists>b. deadflck_loop n u st (blk_pid (flox st sf)) (blk_sysid (flox st sf)) = Some b \<and>
          (b \<longleftrightarrow> (?y, me u) \<in> ?W\<^sup>*)"
        using Suc.IH Suc.prems by simp
      moreover have "((pid, sysid), me u) \<in> ?W\<^sup>* \<longleftrightarrow> (?y, me u) \<in> ?W\<^sup>*"
      proof
        assume "((pid, sysid), me u) \<in> ?W\<^sup>*"
        then show "(?y, me u) \<in> ?W\<^sup>*" using False only by (auto simp: me_def elim: converse_rtranclE)
      qed (rule converse_rtrancl_into_rtrancl [OF e])
      ultimately show ?thesis using False b(1) Some by auto
    qed
  qed
qed simp

lemma deadflck_ok:
  assumes L: "fl_lists st fr Ls" and inj: "inj_on (\<lambda>sf. owner (lck st sf)) (set (Ls SleepL))"
    and ac: "acyclic (waits st (Ls SleepL))"
  shows "\<exists>b. deadflck u found st = Some b \<and> (b \<longleftrightarrow> (owner (lck st found), me u) \<in> (waits st (Ls SleepL))\<^sup>*)"
proof -
  let ?W = "waits st (Ls SleepL)"
  have l: "linked (\<lambda>a. fl_next (flox st a)) (sleeplcks st) (Ls SleepL)"
    using fl_listsD(2) [OF L, of SleepL] by (simp add: lck_list_def dlinked_linked)
  have len: "length (Ls SleepL) \<le> nat (fl_recs st)" by (rule fl_lists_length [OF L])
  have "card (?W\<^sup>+ `` {owner (lck st found)}) \<le> card (Range ?W)"
    by (rule card_mono) (auto dest: tranclD2 simp: finite_Range)
  then have "card (?W\<^sup>+ `` {owner (lck st found)}) < Suc (nat (fl_recs st))"
    using waits_range [of st "Ls SleepL"] len by simp
  then show ?thesis using deadflck_loop_ok [OF l len inj ac] unfolding deadflck_def owner_def by blast
qed

end
