(* ===== verification/FlockSleep.thy ===== *)
theory FlockSleep
  imports FlockInv
begin

text \<open>
  The locking calls as a system of processes: the step relation, the invariant of tables and sleepers,
  and its preservation by every call, wakeup and signal.
\<close>

section \<open>Processes and steps\<close>

text \<open>
  What a process asleep in \<open>reclock\<close> keeps: the arguments of the call and the request in absolute form;
  \<open>FpAsleep\<close> also names its record on the list of sleepers and the lock it sleeps on.  \<open>FpWoken\<close> is
  runnable again and has not run yet.
\<close>

record flk_call =
  fc_ip :: nat
  fc_cmd :: u32
  fc_whence :: int
  fc_offset :: int
  fc_ld :: flock

datatype flk_proc = FpIdle | FpAsleep flk_call nat nat | FpWoken flk_call nat

record flksys =
  fsst :: flk
  fsprocs :: "nat \<Rightarrow> flk_proc"

definition fl_wakeup :: "nat list \<Rightarrow> (nat \<Rightarrow> flk_proc) \<Rightarrow> nat \<Rightarrow> flk_proc" where
  "fl_wakeup ws procs p = (case procs p of
     FpAsleep c sf f \<Rightarrow> if f \<in> set ws then FpWoken c sf else procs p
   | _ \<Rightarrow> procs p)"

definition fl_after :: "nat \<Rightarrow> u32 \<Rightarrow> int \<Rightarrow> int \<Rightarrow> rl_out \<times> flock \<times> flk \<Rightarrow> flk_proc" where
  "fl_after ip cmd whence offset res = (case res of
     (RlSleep f sf, ld, st) \<Rightarrow>
        FpAsleep \<lparr>fc_ip = ip, fc_cmd = cmd, fc_whence = whence, fc_offset = offset, fc_ld = ld\<rparr> sf f
   | _ \<Rightarrow> FpIdle)"

definition fl_next_sys :: "flksys \<Rightarrow> nat \<Rightarrow> flk \<Rightarrow> flk_proc \<Rightarrow> flksys" where
  "fl_next_sys s p st' pc = \<lparr>fsst = st', fsprocs = (fl_wakeup (fl_wakes st') (fsprocs s))(p := pc)\<rparr>"

definition fl_entry :: "flk \<Rightarrow> flk" where
  "fl_entry st = st\<lparr>fl_wakes := []\<rparr>"

inductive flk_step :: "nat \<Rightarrow> (nat \<Rightarrow> flk_id) \<Rightarrow> flksys \<Rightarrow> flksys \<Rightarrow> bool" for n ids where
  fl_call: "p < n \<Longrightarrow> fsprocs s p = FpIdle \<Longrightarrow>
    reclock (ids p) ip ld cmd flag offset (fl_entry (fsst s)) = Some res \<Longrightarrow>
    flk_step n ids s (fl_next_sys s p (snd (snd res)) (fl_after ip cmd (l_whence ld) offset res))"
| fl_run: "p < n \<Longrightarrow> fsprocs s p = FpWoken c sf \<Longrightarrow>
    reclock_wake (ids p) (fc_ip c) (fc_cmd c) (fc_whence c) (fc_offset c) False sf (fc_ld c) (fl_entry (fsst s)) = Some res \<Longrightarrow>
    flk_step n ids s (fl_next_sys s p (snd (snd res)) (fl_after (fc_ip c) (fc_cmd c) (fc_whence c) (fc_offset c) res))"
| fl_signal: "p < n \<Longrightarrow> fsprocs s p = FpWoken c sf \<or> fsprocs s p = FpAsleep c sf f \<Longrightarrow>
    reclock_wake (ids p) (fc_ip c) (fc_cmd c) (fc_whence c) (fc_offset c) True sf (fc_ld c) (fl_entry (fsst s)) = Some res \<Longrightarrow>
    flk_step n ids s (fl_next_sys s p (snd (snd res)) FpIdle)"
| fl_clean: "p < n \<Longrightarrow> fsprocs s p = FpIdle \<Longrightarrow>
    cleanlocks (ids p) ip flag (fl_entry (fsst s)) = Some st' \<Longrightarrow>
    flk_step n ids s (fl_next_sys s p st' FpIdle)"
| fl_inode: "s' = s\<lparr>fsst := (fsst s)\<lparr>i_size := z, i_lock := l\<rparr>\<rparr> \<Longrightarrow> flk_step n ids s s'"

text \<open>The state after start-up.\<close>

definition fl_boot :: "flk \<Rightarrow> bool" where
  "fl_boot st \<longleftrightarrow> frlock st = None \<and> sleeplcks st = None \<and> (\<forall>ip. i_filocks st ip = None) \<and>
     fl_reccnt st = 0 \<and> 0 \<le> fl_recs st \<and> fl_recs st < 2147483648"

definition fl_init :: "flksys \<Rightarrow> bool" where
  "fl_init s \<longleftrightarrow> (\<exists>st. fl_boot st \<and> s = \<lparr>fsst = flckinit st, fsprocs = \<lambda>p. FpIdle\<rparr>)"

section \<open>The invariant\<close>

fun sleeps_as :: "flk_proc \<Rightarrow> ptr" where
  "sleeps_as FpIdle = None"
| "sleeps_as (FpAsleep c sf f) = Some sf"
| "sleeps_as (FpWoken c sf) = Some sf"

fun the_call :: "flk_proc \<Rightarrow> flk_call option" where
  "the_call FpIdle = None"
| "the_call (FpAsleep c sf f) = Some c"
| "the_call (FpWoken c sf) = Some c"

definition req_ok :: "flock \<Rightarrow> bool" where
  "req_ok ld \<longleftrightarrow> 0 \<le> l_start ld \<and> l_start ld \<le> l_end ld \<and> l_end ld \<le> MAXEND"

definition id_of :: "(nat \<Rightarrow> flk_id) \<Rightarrow> nat \<Rightarrow> int \<times> int" where
  "id_of ids p = me (ids p)"

text \<open>Processes are told apart by process and system number, which fit into a \<open>short\<close>.\<close>

definition ids_ok :: "nat \<Rightarrow> (nat \<Rightarrow> flk_id) \<Rightarrow> bool" where
  "ids_ok n ids \<longleftrightarrow> inj_on (id_of ids) {..< n} \<and>
     (\<forall>p<n. - 32768 \<le> p_epid (ids p) \<and> p_epid (ids p) < 32768 \<and> - 32768 \<le> p_sysid (ids p) \<and> p_sysid (ids p) < 32768)"

definition sleeper_okay :: "flk \<Rightarrow> (lckref \<Rightarrow> nat list) \<Rightarrow> flk_id \<Rightarrow> flk_call \<Rightarrow> nat \<Rightarrow> nat \<Rightarrow> bool" where
  "sleeper_okay st Ls u c sf f \<longleftrightarrow> f \<in> set (Ls (InoL (fc_ip c))) \<and> blocks u (fc_ld c) (lck st f) \<and>
     fl_stat (flox st f) \<noteq> 0 \<and> (blk_pid (flox st sf), blk_sysid (flox st sf)) = owner (lck st f)"

definition flk_sys_inv ::
  "nat \<Rightarrow> (nat \<Rightarrow> flk_id) \<Rightarrow> nat \<Rightarrow> flk \<Rightarrow> nat list \<Rightarrow> (lckref \<Rightarrow> nat list) \<Rightarrow> (nat \<Rightarrow> flk_proc) \<Rightarrow> bool" where
  "flk_sys_inv n ids k st fr Ls procs \<longleftrightarrow>
     flk_inv (id_of ids ` {..< n}) st fr Ls \<and>
     (\<forall>p sf. sleeps_as (procs p) = Some sf \<longrightarrow> p < n \<and> sf \<in> set (Ls SleepL) \<and> owner (lck st sf) = id_of ids p) \<and>
     (\<forall>sf\<in>set (Ls SleepL). \<exists>p. sleeps_as (procs p) = Some sf) \<and>
     acyclic (waits st (Ls SleepL)) \<and>
     (\<forall>ip. \<forall>a\<in>set (Ls (InoL ip)). unat (fl_stat (flox st a)) \<le> k) \<and>
     (\<forall>p c sf f. procs p = FpAsleep c sf f \<longrightarrow> sleeper_okay st Ls (ids p) c sf f) \<and>
     (\<forall>p c. the_call (procs p) = Some c \<longrightarrow> req_ok (fc_ld c) \<and> l_type (fc_ld c) \<in> {F_RDLCK, F_WRLCK})"

lemma flk_sys_invD:
  assumes "flk_sys_inv n ids k st fr Ls procs"
  shows "flk_inv (id_of ids ` {..< n}) st fr Ls"
    "sleeps_as (procs p) = Some sf \<Longrightarrow> p < n \<and> sf \<in> set (Ls SleepL) \<and> owner (lck st sf) = id_of ids p"
    "sf \<in> set (Ls SleepL) \<Longrightarrow> \<exists>p. sleeps_as (procs p) = Some sf"
    "acyclic (waits st (Ls SleepL))"
    "a \<in> set (Ls (InoL ip)) \<Longrightarrow> unat (fl_stat (flox st a)) \<le> k"
    "procs p = FpAsleep c sf f \<Longrightarrow> sleeper_okay st Ls (ids p) c sf f"
    "the_call (procs p) = Some c \<Longrightarrow> req_ok (fc_ld c) \<and> l_type (fc_ld c) \<in> {F_RDLCK, F_WRLCK}"
  using assms unfolding flk_sys_inv_def by blast+

lemma flk_sys_inv_mono: "flk_sys_inv n ids k st fr Ls procs \<Longrightarrow> k \<le> k' \<Longrightarrow> flk_sys_inv n ids k' st fr Ls procs"
  unfolding flk_sys_inv_def by (meson order_trans)

text \<open>The invariant depends on the records and the lists only.\<close>

definition same_tables :: "flk \<Rightarrow> flk \<Rightarrow> bool" where
  "same_tables st st' \<longleftrightarrow> flox st' = flox st \<and> frlock st' = frlock st \<and> (\<forall>r. lck_head r st' = lck_head r st) \<and>
     fl_recs st' = fl_recs st \<and> fl_reccnt st' = fl_reccnt st"

lemma same_tables_lists: "same_tables st st' \<Longrightarrow> fl_lists st' fr Ls = fl_lists st fr Ls"
  by (rule fl_lists_links) (simp add: same_tables_def fl_links_def)

lemma flk_sys_inv_same:
  "same_tables st st' \<Longrightarrow> flk_sys_inv n ids k st fr Ls procs \<Longrightarrow> flk_sys_inv n ids k st' fr Ls procs"
  using same_tables_lists [of st st' fr Ls]
  unfolding flk_sys_inv_def flk_inv_def same_tables_def waits_def sleeper_okay_def by simp

lemma flk_inv_same: "same_tables st st' \<Longrightarrow> flk_inv I st fr Ls \<Longrightarrow> flk_inv I st' fr Ls"
  using same_tables_lists [of st st' fr Ls] unfolding flk_inv_def same_tables_def by simp

lemma sleepers_inj:
  assumes "flk_sys_inv n ids k st fr Ls procs" "ids_ok n ids"
  shows "inj_on (\<lambda>sf. owner (lck st sf)) (set (Ls SleepL))"
proof (rule inj_onI)
  note S = flk_sys_invD [OF assms(1)]
  fix a b assume h: "a \<in> set (Ls SleepL)" "b \<in> set (Ls SleepL)" "owner (lck st a) = owner (lck st b)"
  obtain p q where pq: "sleeps_as (procs p) = Some a" "sleeps_as (procs q) = Some b" using S(3) h by blast
  then have "p = q" using S(2) [OF pq(1)] S(2) [OF pq(2)] h(3) assms(2) by (auto simp: ids_ok_def inj_on_def)
  with pq show "a = b" by simp
qed

lemma fl_wakeup_simps [simp]:
  "sleeps_as (fl_wakeup ws procs p) = sleeps_as (procs p)" "the_call (fl_wakeup ws procs p) = the_call (procs p)"
  "fl_wakeup ws procs p = FpAsleep c sf f \<longleftrightarrow> procs p = FpAsleep c sf f \<and> f \<notin> set ws"
  by (auto simp: fl_wakeup_def split: flk_proc.splits)

lemma fl_wakeup_Nil [simp]: "fl_wakeup [] procs = procs"
  by (rule ext) (auto simp: fl_wakeup_def split: flk_proc.split)

lemma fl_wakeup_upd: "sleeps_as pc = None \<Longrightarrow> (fl_wakeup ws procs)(p := pc) = fl_wakeup ws (procs(p := pc))"
  by (rule ext) (cases pc; auto simp: fl_wakeup_def split: flk_proc.split)

section \<open>Changes of the locks of an inode\<close>

lemma sys_inv_ino:
  assumes inv: "flk_sys_inv n ids k st fr Ls procs" and e: "fl_wakes st = []"
    and f: "flk_inv (id_of ids ` {..< n}) st' fr' (Ls(InoL ip := as))" and w: "adj_wake st (Ls (InoL ip)) fr st' as ws"
  shows "flk_sys_inv n ids k st' fr' (Ls(InoL ip := as)) (fl_wakeup (fl_wakes st') procs)"
proof -
  note S = flk_sys_invD [OF inv]
  note L = flk_invD(1) [OF S(1)]
  have ws: "fl_wakes st' = ws" using w e by (simp add: adj_wake_def)
  have sl: "lck st' a = lck st a" "fl_stat (flox st' a) = fl_stat (flox st a)" if "a \<in> set (Ls q)" "q \<noteq> InoL ip" for a q
    using adj_wake_other [OF w L that(2,1)] by auto
  have bk: "blk_pid (flox st' a) = blk_pid (flox st a)" "blk_sysid (flox st' a) = blk_sysid (flox st a)"
    if "a \<in> set (Ls SleepL)" for a
    using sl(2) [OF that] by (simp_all add: blk_pid_def blk_sysid_def)
  have wt: "waits st' (Ls SleepL) = waits st (Ls SleepL)"
    unfolding waits_def using sl(1) [of _ SleepL] bk by (intro Collect_cong ex_cong1) auto
  show ?thesis
    unfolding flk_sys_inv_def ws
  proof (intro conjI allI impI ballI f)
    show "acyclic (waits st' ((Ls(InoL ip := as)) SleepL))" using S(4) wt by simp
    fix p sf assume "sleeps_as (fl_wakeup ws procs p) = Some sf"
    then have "sleeps_as (procs p) = Some sf" by simp
    from S(2) [OF this] show "p < n" "sf \<in> set ((Ls(InoL ip := as)) SleepL)" "owner (lck st' sf) = id_of ids p"
      using sl(1) [of sf SleepL] by auto
  next
    fix sf assume "sf \<in> set ((Ls(InoL ip := as)) SleepL)"
    then show "\<exists>p. sleeps_as (fl_wakeup ws procs p) = Some sf" using S(3) [of sf] by simp
  next
    fix jp a assume a: "a \<in> set ((Ls(InoL ip := as)) (InoL jp))"
    show "unat (fl_stat (flox st' a)) \<le> k"
    proof (cases "jp = ip")
      case True
      then have "fl_stat (flox st' a) = (if a \<in> set (Ls (InoL ip)) \<and> a \<notin> set ws then fl_stat (flox st a) else 0)"
        using w a by (simp add: adj_wake_def)
      then show ?thesis using S(5) [of a ip] by (auto split: if_splits)
    next
      case False
      then show ?thesis using a sl(2) [of a "InoL jp"] S(5) [of a jp] by simp
    qed
  next
    fix p c sf g assume "fl_wakeup ws procs p = FpAsleep c sf g"
    then have p: "procs p = FpAsleep c sf g" "g \<notin> set ws" by simp_all
    note G = S(6) [OF p(1), unfolded sleeper_okay_def]
    have sf: "sf \<in> set (Ls SleepL)" using S(2) [of p sf] p(1) by simp
    have "g \<in> set ((Ls(InoL ip := as)) (InoL (fc_ip c))) \<and> lck st' g = lck st g \<and> fl_stat (flox st' g) = fl_stat (flox st g)"
    proof (cases "fc_ip c = ip")
      case True
      then have "g \<in> set as" "lck st' g = lck st g" using w G p(2) by (auto simp: adj_wake_def)
      moreover from this have "fl_stat (flox st' g) = fl_stat (flox st g)" using w G p(2) True by (simp add: adj_wake_def)
      ultimately show ?thesis using True by simp
    next
      case False
      then show ?thesis using G sl [of g "InoL (fc_ip c)"] by simp
    qed
    then show "sleeper_okay st' (Ls(InoL ip := as)) (ids p) c sf g" using G bk [OF sf] by (simp add: sleeper_okay_def)
  next
    fix p c assume "the_call (fl_wakeup ws procs p) = Some c"
    then have "the_call (procs p) = Some c" by simp
    from S(7) [OF this] show "req_ok (fc_ld c)" "l_type (fc_ld c) \<in> {F_RDLCK, F_WRLCK}" by simp_all
  qed
qed

section \<open>Going to sleep\<close>

lemma low_half: "(0xFFFF :: u32) = mask 16" "(0xFFFF0000 :: u32) = push_bit 16 (mask 16)"
  by (simp_all add: mask_eq_exp_minus_1 push_bit_eq_mult)

lemma stat_halves:
  fixes a b :: u16
  shows "ucast ((ucast a AND 0xFFFF) OR push_bit 16 (ucast b) :: u32) = a"
    "ucast (drop_bit 16 ((ucast a AND 0xFFFF) OR push_bit 16 (ucast b) :: u32)) = b"
  unfolding low_half by (rule bit_word_eqI, auto simp: bit_simps)+

lemma stat_clear: "(x AND 0xFFFF0000) AND 0xFFFF = (0 :: u32)"
  unfolding low_half by (rule bit_word_eqI) (auto simp: bit_simps)

lemma short_sint: "- 32768 \<le> x \<Longrightarrow> x < 32768 \<Longrightarrow> sint (word_of_int x :: u16) = x"
  by (simp add: sint_sbintrunc' signed_take_bit_int_eq_self)

lemma blk_encode:
  assumes "fl_stat f = 0" "- 32768 \<le> pid" "pid < 32768" "- 32768 \<le> sysid" "sysid < 32768"
  shows "blk_pid (set_blk_sysid sysid (set_blk_pid pid f)) = pid"
    "blk_sysid (set_blk_sysid sysid (set_blk_pid pid f)) = sysid"
  using assms stat_halves [of "word_of_int pid" "word_of_int sysid"]
  by (simp_all add: blk_pid_def blk_sysid_def set_blk_pid_def set_blk_sysid_def short_sint)

lemma blk_clear: "fl_stat (set_blk_sysid 0 (set_blk_pid 0 f)) = 0"
  by (simp add: set_blk_pid_def set_blk_sysid_def stat_clear)


lemma stat_inc_le: "unat (x + 1 :: u32) \<le> Suc (unat x)"
  by (simp add: unat_word_ariths)

lemma stat_inc_nonzero: "unat (x :: u32) < 4294967295 \<Longrightarrow> x + 1 \<noteq> 0"
proof
  assume x: "unat x < 4294967295" and z: "x + 1 = 0"
  have "unat (x + 1) = unat x + 1" using x by (simp add: unat_word_ariths)
  then show False unfolding z by simp
qed

text \<open>A request of an idle process goes to sleep behind a blocking lock of the inode.\<close>

lemma sys_inv_sleep:
  assumes inv: "flk_sys_inv n ids k st fr Ls procs" and ok: "ids_ok n ids" and p: "p < n" "procs p = FpIdle"
    and fnd: "found \<in> set (Ls (InoL (fc_ip c)))" "blocks (ids p) (fc_ld c) (lck st found)"
    and ac: "(owner (lck st found), id_of ids p) \<notin> (waits st (Ls SleepL))\<^sup>*" and k: "k < 4294967295"
    and c: "req_ok (fc_ld c)" "l_type (fc_ld c) \<in> {F_RDLCK, F_WRLCK}"
    and l1: "fl_lists st1 fr1 (Ls(SleepL := sf # Ls SleepL))" "fr = sf # fr1"
    and D: "\<And>a. lck st1 a = (if a = sf then stamped (ids p) (fc_ld c) else lck st a)"
    and S: "\<And>a. fl_stat (flox st1 a) = (if a = found then fl_stat (flox st a) + 1 else
        if a = sf then fl_stat (set_blk_sysid (l_sysid (lck st found)) (set_blk_pid (l_pid (lck st found)) ((flox st a)\<lparr>fl_stat := 0\<rparr>)))
        else fl_stat (flox st a))"
  shows "flk_sys_inv n ids (Suc k) st1 fr1 (Ls(SleepL := sf # Ls SleepL)) (procs(p := FpAsleep c sf found))"
proof -
  note I = flk_sys_invD [OF inv]
  note F = flk_invD [OF I(1)]
  have sfn: "sf \<notin> set (Ls q)" for q using fl_listsD(3) [OF F(1), of q] l1(2) by auto
  have fns: "found \<notin> set (Ls SleepL)" using fl_listsD(4) [OF F(1), of SleepL "InoL (fc_ip c)"] fnd(1) by auto
  have same: "\<forall>a\<in>set (Ls q). lck st1 a = lck st a" for q using D sfn [of q] by auto
  have fsf: "found \<noteq> sf" using fnd(1) sfn by auto
  have statS: "fl_stat (flox st1 a) = fl_stat (flox st a)" if "a \<in> set (Ls SleepL)" for a
    using S [of a] that sfn fns by auto
  have "owner (lck st found) \<in> id_of ids ` {..< n}" using F(4) fnd(1) by blast
  then have rng: "- 32768 \<le> l_pid (lck st found)" "l_pid (lck st found) < 32768"
      "- 32768 \<le> l_sysid (lck st found)" "l_sysid (lck st found) < 32768"
    using ok by (auto simp: ids_ok_def id_of_def me_def owner_def)
  have blk: "(blk_pid (flox st1 sf), blk_sysid (flox st1 sf)) = owner (lck st found)"
  proof -
    have z: "fl_stat ((flox st sf)\<lparr>fl_stat := 0\<rparr>) = 0" by simp
    show ?thesis using blk_encode [OF z rng] S [of sf] fsf
      by (simp add: blk_pid_def blk_sysid_def owner_def)
  qed
  have osf: "owner (lck st1 sf) = id_of ids p" using D by (simp add: id_of_def)
  have wt: "waits st1 (sf # Ls SleepL) = insert (id_of ids p, owner (lck st found)) (waits st (Ls SleepL))"
  proof -
    have "blk_pid (flox st1 a) = blk_pid (flox st a) \<and> blk_sysid (flox st1 a) = blk_sysid (flox st a)"
      if "a \<in> set (Ls SleepL)" for a using statS [OF that] by (simp add: blk_pid_def blk_sysid_def)
    then show ?thesis using same [of SleepL] blk osf unfolding waits_def by force
  qed
  have "unat (fl_stat (flox st found)) < 4294967295" using I(5) [OF fnd(1)] k by simp
  note fz = stat_inc_nonzero [OF this]
  have okl: "locks_ok (lck st1) (Ls (InoL ip)) \<and> lcompat (lck st1) (Ls (InoL ip))" for ip
    using locks_ok_cong [OF F(2) same] F(3) [of ip] held_cong [OF same [of "InoL ip"]] unfolding lcompat_def by metis
  show ?thesis
    unfolding flk_sys_inv_def
  proof (intro conjI allI impI ballI)
    show "flk_inv (id_of ids ` {..< n}) st1 fr1 (Ls(SleepL := sf # Ls SleepL))"
      unfolding flk_inv_def using l1(1) okl F(4) same osf p(1) by (auto split: if_splits)
    show "acyclic (waits st1 ((Ls(SleepL := sf # Ls SleepL)) SleepL))"
      using I(4) ac by (simp add: wt acyclic_insert)
    fix q s assume "sleeps_as ((procs(p := FpAsleep c sf found)) q) = Some s"
    then have q: "q = p \<and> s = sf \<or> q \<noteq> p \<and> sleeps_as (procs q) = Some s" by (auto split: if_splits)
    then show "q < n" "s \<in> set ((Ls(SleepL := sf # Ls SleepL)) SleepL)" "owner (lck st1 s) = id_of ids q"
      using p(1) osf I(2) [of q s] same [of SleepL] by auto
  next
    fix s assume "s \<in> set ((Ls(SleepL := sf # Ls SleepL)) SleepL)"
    then consider "s = sf" | "s \<in> set (Ls SleepL)" by auto
    then show "\<exists>q. sleeps_as ((procs(p := FpAsleep c sf found)) q) = Some s"
    proof cases
      case 2
      then obtain q where "sleeps_as (procs q) = Some s" using I(3) by blast
      then show ?thesis using p(2) by (intro exI [of _ q]) auto
    qed (auto intro: exI [of _ p])
  next
    fix jp a assume a: "a \<in> set ((Ls(SleepL := sf # Ls SleepL)) (InoL jp))"
    then have "unat (fl_stat (flox st a)) \<le> k" using I(5) by simp
    moreover have "a \<noteq> sf" using a sfn [of "InoL jp"] by auto
    ultimately show "unat (fl_stat (flox st1 a)) \<le> Suc k"
      using S [of a] stat_inc_le [of "fl_stat (flox st a)"] by auto
  next
    fix q d s g assume "(procs(p := FpAsleep c sf found)) q = FpAsleep d s g"
    then consider "q = p" "d = c" "s = sf" "g = found" | "q \<noteq> p" "procs q = FpAsleep d s g" by (auto split: if_splits)
    then show "sleeper_okay st1 (Ls(SleepL := sf # Ls SleepL)) (ids q) d s g"
    proof cases
      case 1
      then show ?thesis using fnd blk S [of found] D fsf fz by (simp add: sleeper_okay_def)
    next
      case 2
      note G = I(6) [OF 2(2), unfolded sleeper_okay_def]
      have s: "s \<in> set (Ls SleepL)" using I(2) [of q s] 2(2) by simp
      have "g \<noteq> sf" using G sfn by auto
      then have gs: "fl_stat (flox st1 g) \<noteq> 0" using S [of g] G fz by simp
      show ?thesis using G gs same [of "InoL (fc_ip d)"] statS [OF s]
        by (auto simp: sleeper_okay_def blk_pid_def blk_sysid_def)
    qed
  next
    fix q d assume "the_call ((procs(p := FpAsleep c sf found)) q) = Some d"
    then have "d = c \<or> the_call (procs q) = Some d" by (auto split: if_splits)
    then have "req_ok (fc_ld d) \<and> l_type (fc_ld d) \<in> {F_RDLCK, F_WRLCK}" using c I(7) by blast
    then show "req_ok (fc_ld d)" "l_type (fc_ld d) \<in> {F_RDLCK, F_WRLCK}" by simp_all
  qed
qed

section \<open>The calls\<close>

text \<open>
  \<open>sys_step_ok\<close>: a call made by process \<open>p\<close>, not asleep, has returned \<open>res\<close> from \<open>st\<close>; the lists are
  intact and the process is where the outcome puts it.
\<close>

definition sys_step_ok ::
  "nat \<Rightarrow> (nat \<Rightarrow> flk_id) \<Rightarrow> nat \<Rightarrow> (nat \<Rightarrow> flk_proc) \<Rightarrow> nat \<Rightarrow> flk_proc \<Rightarrow> flk \<Rightarrow> bool" where
  "sys_step_ok n ids k procs p pc st' \<longleftrightarrow>
     (\<exists>fr Ls. flk_sys_inv n ids k st' fr Ls ((fl_wakeup (fl_wakes st') procs)(p := pc)))"

lemma sys_step_same:
  assumes "flk_sys_inv n ids k st fr Ls procs" "procs p = FpIdle" "fl_wakes st = []" "same_tables st st'" "fl_wakes st' = []"
  shows "sys_step_ok n ids (Suc k) procs p FpIdle st'"
proof -
  have "flk_sys_inv n ids (Suc k) st' fr Ls procs"
    using flk_sys_inv_mono [OF flk_sys_inv_same [OF assms(4,1)], of "Suc k"] by simp
  moreover have "procs(p := FpIdle) = procs" using assms(2) by auto
  ultimately show ?thesis unfolding sys_step_ok_def assms(5) by auto
qed

lemma reclock_sleep_ok:
  assumes inv: "flk_sys_inv n ids k st fr Ls procs" and ok: "ids_ok n ids" and p: "p < n" "procs p = FpIdle"
    and fnd: "found \<in> set (Ls (InoL ip))" "blocks (ids p) ld (lck st found)" and e: "fl_wakes st = []"
    and k: "k < 4294967295" and ld: "req_ok ld" "l_type ld \<in> {F_RDLCK, F_WRLCK}"
  shows "\<exists>out st'. reclock_sleep (ids p) ip cmd found ld st = Some (out, ld, st') \<and>
    sys_step_ok n ids (Suc k) procs p (fl_after ip cmd w off (out, ld, st')) st' \<and>
    (out = RlDone (Some EDEADLK) \<longleftrightarrow> (owner (lck st found), id_of ids p) \<in> (waits st (Ls SleepL))\<^sup>*)"
proof -
  note I = flk_sys_invD [OF inv]
  note F = flk_invD [OF I(1)]
  obtain b where b: "deadflck (ids p) found st = Some b"
    "b \<longleftrightarrow> (owner (lck st found), id_of ids p) \<in> (waits st (Ls SleepL))\<^sup>*"
    using deadflck_ok [OF F(1) sleepers_inj [OF inv ok] I(4)] unfolding id_of_def by blast
  show ?thesis
  proof (cases b)
    case True
    have "sys_step_ok n ids (Suc k) procs p FpIdle st"
      by (rule sys_step_same [OF inv p(2) e _ e]) (simp add: same_tables_def)
    then show ?thesis using True b by (simp add: reclock_sleep_def fl_after_def)
  next
    case nb: False
    show ?thesis
    proof (cases fr)
      case Nil
      let ?st = "st\<lparr>fl_recovf := int32 (fl_recovf st + 1)\<rparr>"
      have "insflck (ids p) SleepL ld None st = (None, ?st)" by (rule insflck_full) (use F(1) Nil in simp)
      moreover have "sys_step_ok n ids (Suc k) procs p FpIdle ?st"
        by (rule sys_step_same [OF inv p(2) e]) (simp_all add: same_tables_def e)
      ultimately show ?thesis using nb b by (simp add: reclock_sleep_def fl_after_def)
    next
      case (Cons sf fr1)
      have e1: "Ls SleepL = [] @ Ls SleepL" and e2: "None = lastp None []" by simp_all
      obtain st1 where i: "insflck (ids p) SleepL ld None st = (Some sf, st1)"
        and l1: "fl_lists st1 fr1 (Ls(SleepL := [] @ sf # Ls SleepL))"
        and D1: "\<And>b. lck st1 b = (if b = sf then stamped (ids p) ld else lck st b)"
        and S1: "\<And>b. fl_stat (flox st1 b) = (if b = sf then 0 else fl_stat (flox st b))"
        and W1: "fl_wakes st1 = fl_wakes st" and F1: "fl_frame st st1"
        by (rule insflck_ok [OF F(1) [unfolded Cons] e1 e2, of "ids p" ld]) (rule that)
      have sfn: "sf \<notin> set (Ls q)" for q using fl_listsD(3) [OF F(1), of q] Cons by auto
      have fsf: "found \<noteq> sf" using fnd(1) sfn by auto
      let ?g = "\<lambda>f. set_blk_sysid (l_sysid (lck st found)) (set_blk_pid (l_pid (lck st found)) f)"
      define st4 where "st4 = upd_fl sf ?g (upd_fl found (\<lambda>f. f\<lparr>fl_stat := fl_stat f + 1\<rparr>) st1)"
      define st5 where "st5 = (if cmd AND INOFLCK \<noteq> 0 then st4\<lparr>i_lock := (i_lock st4)(ip := False)\<rparr> else st4)"
      have keep: "fl_set (set_blk_pid x f) = fl_set f" "fl_set (set_blk_sysid x f) = fl_set f"
        "fl_next (set_blk_pid x f) = fl_next f" "fl_next (set_blk_sysid x f) = fl_next f"
        "fl_prev (set_blk_pid x f) = fl_prev f" "fl_prev (set_blk_sysid x f) = fl_prev f" for x f
        by (simp_all add: set_blk_pid_def set_blk_sysid_def)
      have upd2: "upd_fl sf g (upd_fl sf h s) = upd_fl sf (\<lambda>f. g (h f)) s" for g h s
        by (simp add: upd_fl_def)
      have out: "reclock_sleep (ids p) ip cmd found ld st = Some (RlSleep found sf, ld, st5)"
        using b(1) nb i fsf by (simp add: reclock_sleep_def Let_def upd2 D1 keep st5_def st4_def)
      let ?c = "\<lparr>fc_ip = ip, fc_cmd = cmd, fc_whence = w, fc_offset = off, fc_ld = ld\<rparr>"
      have "fl_links st1 st4" by (simp add: fl_links_def st4_def keep)
      then have l4: "fl_lists st4 fr1 (Ls(SleepL := sf # Ls SleepL))" using l1 by (simp add: fl_lists_links)
      have "flk_sys_inv n ids (Suc k) st4 fr1 (Ls(SleepL := sf # Ls SleepL)) (procs(p := FpAsleep ?c sf found))"
      proof (rule sys_inv_sleep [OF inv ok p _ _ _ k _ _ l4 Cons])
        show "lck st4 a = (if a = sf then stamped (ids p) (fc_ld ?c) else lck st a)" for a
          using D1 fsf by (simp add: st4_def keep)
        have z: "fl_stat (?g f) = fl_stat (?g (f'\<lparr>fl_stat := 0\<rparr>))" if "fl_stat f = 0" for f f'
          using that by (simp add: set_blk_pid_def set_blk_sysid_def)
        show "fl_stat (flox st4 a) = (if a = found then fl_stat (flox st a) + 1 else
            if a = sf then fl_stat (?g ((flox st a)\<lparr>fl_stat := 0\<rparr>)) else fl_stat (flox st a))" for a
          using S1 fsf z [of "flox st1 sf" "flox st sf"] by (simp add: st4_def)
        show "(owner (lck st found), id_of ids p) \<notin> (waits st (Ls SleepL))\<^sup>*" using nb b(2) by simp
      qed (use fnd ld in simp_all)
      then have i5: "flk_sys_inv n ids (Suc k) st5 fr1 (Ls(SleepL := sf # Ls SleepL)) (procs(p := FpAsleep ?c sf found))"
        by (rule flk_sys_inv_same [rotated]) (simp add: same_tables_def st5_def)
      have w5: "fl_wakes st5 = []" using W1 e by (simp add: st5_def st4_def)
      show ?thesis using out i5 w5 nb b(2) unfolding sys_step_ok_def fl_after_def by auto
    qed
  qed
qed

lemma sys_step_adj:
  assumes inv: "flk_sys_inv n ids k st fr Ls procs" and p: "p < n" "procs p = FpIdle" and e: "fl_wakes st = []"
    and l': "fl_lists st' fr' (Ls(InoL ip := as))"
    and w: "adj_wake st (Ls (InoL ip)) fr st' as ws" and s: "adj_spec (ids p) st (Ls (InoL ip)) ld err st' as"
    and free: "l_type ld = F_UNLCK \<or>
      l_type ld \<in> {F_RDLCK, F_WRLCK} \<and> (\<forall>a\<in>set (Ls (InoL ip)). \<not> blocks (ids p) ld (lck st a))"
  shows "sys_step_ok n ids (Suc k) procs p FpIdle st'"
proof -
  have me: "me (ids p) \<in> id_of ids ` {..< n}" using p(1) by (auto simp: id_of_def)
  note F = flk_inv_adj [OF flk_sys_invD(1) [OF inv] me l' w s free]
  have "flk_sys_inv n ids (Suc k) st' fr' (Ls(InoL ip := as)) (fl_wakeup (fl_wakes st') procs)"
    by (rule flk_sys_inv_mono [OF sys_inv_ino [OF inv e F w]]) simp
  moreover have "(fl_wakeup (fl_wakes st') procs)(p := FpIdle) = fl_wakeup (fl_wakes st') procs"
    using p(2) by (auto simp: fl_wakeup_def)
  ultimately show ?thesis unfolding sys_step_ok_def by auto
qed

text \<open>One turn of the loop of \<open>reclock\<close>, from a process that is not asleep.\<close>

lemma reclock_try_ok:
  assumes inv: "flk_sys_inv n ids k st fr Ls procs" and ok: "ids_ok n ids" and p: "p < n" "procs p = FpIdle"
    and e: "fl_wakes st = []" and k: "k < 4294967295" and ld: "req_ok ld"
  shows "\<exists>out ld' st'. reclock_try (ids p) ip cmd ld st = Some (out, ld', st') \<and>
    sys_step_ok n ids (Suc k) procs p (fl_after ip cmd w off (out, ld', st')) st'"
proof -
  note I = flk_sys_invD [OF inv]
  note F = flk_invD [OF I(1)]
  have rng: "0 \<le> l_start ld" "l_start ld \<le> l_end ld" "l_end ld \<le> MAXEND" using ld by (simp_all add: req_ok_def)
  have same: "sys_step_ok n ids (Suc k) procs p FpIdle st"
    by (rule sys_step_same [OF inv p(2) e _ e]) (simp add: same_tables_def)
  consider "l_type ld \<in> {F_RDLCK, F_WRLCK}" | "l_type ld = F_UNLCK" | "l_type ld \<notin> {F_RDLCK, F_WRLCK, F_UNLCK}" by blast
  then show ?thesis
  proof cases
    case ty: 1
    obtain b i where b: "blocked (ids p) st (i_filocks st ip) ld = Some (b, i)"
      "case b of Some f \<Rightarrow> f \<in> set (Ls (InoL ip)) \<and> blocks (ids p) ld (lck st f)
       | None \<Rightarrow> (\<forall>a\<in>set (Ls (InoL ip)). \<not> blocks (ids p) ld (lck st a)) \<and> insert_at (ids p) st ld (Ls (InoL ip)) i"
      using blocked_ok [OF F(1,2) rng] by blast
    show ?thesis
    proof (cases b)
      case None
      then have nb: "\<forall>a\<in>set (Ls (InoL ip)). \<not> blocks (ids p) ld (lck st a)" "insert_at (ids p) st ld (Ls (InoL ip)) i"
        using b(2) by simp_all
      obtain err ld' st' fr' as ws where a: "flckadj (ids p) (InoL ip) i ld st = Some (err, ld', st')"
        "fl_lists st' fr' (Ls(InoL ip := as))" "adj_spec (ids p) st (Ls (InoL ip)) ld err st' as"
        "adj_wake st (Ls (InoL ip)) fr st' as ws"
        by (rule set_lock_ok [OF F(1,2) ty rng nb(2)])
      have "sys_step_ok n ids (Suc k) procs p FpIdle st'"
        by (rule sys_step_adj [OF inv p e a(2,4,3)]) (use ty nb(1) in simp)
      then show ?thesis using a(1) b(1) None ty same by (auto simp: reclock_try_def fl_after_def)
    next
      case (Some f)
      then have f: "f \<in> set (Ls (InoL ip))" "blocks (ids p) ld (lck st f)" using b(2) by simp_all
      have "\<exists>out st'. reclock_sleep (ids p) ip cmd f ld st = Some (out, ld, st') \<and>
          sys_step_ok n ids (Suc k) procs p (fl_after ip cmd w off (out, ld, st')) st'"
        using reclock_sleep_ok [OF inv ok p f e k ld ty, of cmd w off] by blast
      then show ?thesis using b(1) Some ty same by (auto simp: reclock_try_def fl_after_def)
    qed
  next
    case 2
    obtain err ld' st' fr' as ws where a: "flckadj (ids p) (InoL ip) (i_filocks st ip) ld st = Some (err, ld', st')"
      "fl_lists st' fr' (Ls(InoL ip := as))" "adj_spec (ids p) st (Ls (InoL ip)) ld err st' as"
      "adj_wake st (Ls (InoL ip)) fr st' as ws"
      by (rule unlock_ok [OF F(1,2) 2 rng])
    have "sys_step_ok n ids (Suc k) procs p FpIdle st'"
      by (rule sys_step_adj [OF inv p e a(2,4,3)]) (use 2 in simp)
    moreover have "F_UNLCK \<noteq> F_RDLCK" "F_UNLCK \<noteq> F_WRLCK" by (simp_all add: F_RDLCK_def F_WRLCK_def F_UNLCK_def)
    ultimately show ?thesis using a(1) 2 same by (auto simp: reclock_try_def fl_after_def)
  next
    case 3
    then show ?thesis using same by (auto simp: reclock_try_def fl_after_def)
  qed
qed

lemma convoff_abs:
  assumes "convoff ip 0 offset st ld = (None, ld1)"
  shows "0 \<le> l_start ld1" "l_type ld1 = l_type ld" "l_len ld1 = l_len ld"
  using assms by (auto simp: convoff_def Let_def split: if_splits)

lemma reclock_prep_ok:
  assumes "reclock_prep ip cmd flag offset st ld = (None, ld1)"
  shows "req_ok ld1" "l_type ld1 = l_type ld"
proof -
  obtain ld2 where c: "convoff ip 0 offset st ld = (None, ld2)"
    using assms by (auto simp: reclock_prep_def split: if_splits prod.splits option.splits)
  note C = convoff_abs [OF c]
  have "int32 x \<le> MAXEND" for x using int32_bounds(2) [of x] by (simp add: MAXEND_def)
  then show "req_ok ld1" "l_type ld1 = l_type ld"
    using assms c C by (auto simp: reclock_prep_def req_ok_def Let_def MAXEND_def split: if_splits)
qed

lemma fl_after_next: "fl_after ip cmd w off (reclock_next ip w' off' res) = fl_after ip cmd w off res"
  by (auto simp: fl_after_def reclock_next_def split: prod.splits rl_out.splits)

lemma snd_reclock_next [simp]: "snd (snd (reclock_next ip w off res)) = snd (snd res)"
  by (auto simp: reclock_next_def split: prod.splits rl_out.splits)

lemma reclock_ok:
  assumes inv: "flk_sys_inv n ids k st fr Ls procs" and ok: "ids_ok n ids" and p: "p < n" "procs p = FpIdle"
    and e: "fl_wakes st = []" and k: "k < 4294967295"
  shows "\<exists>res. reclock (ids p) ip ld cmd flag offset st = Some res \<and>
    sys_step_ok n ids (Suc k) procs p (fl_after ip cmd (l_whence ld) offset res) (snd (snd res))"
proof (cases "reclock_prep ip cmd flag offset st ld")
  case (Pair err ld1)
  show ?thesis
  proof (cases err)
    case None
    note P = reclock_prep_ok [OF Pair [unfolded None]]
    obtain out ld' st' where t: "reclock_try (ids p) ip cmd ld1 st = Some (out, ld', st')"
      "sys_step_ok n ids (Suc k) procs p (fl_after ip cmd (l_whence ld) offset (out, ld', st')) st'"
      using reclock_try_ok [OF inv ok p e k P(1)] by blast
    then show ?thesis using Pair None by (simp add: reclock_def fl_after_next)
  next
    case (Some x)
    have "sys_step_ok n ids (Suc k) procs p FpIdle st"
      by (rule sys_step_same [OF inv p(2) e _ e]) (simp add: same_tables_def)
    then show ?thesis using Pair Some by (simp add: reclock_def fl_after_def)
  qed
qed

text \<open>Waking up removes the request from the list of sleepers.\<close>

lemma unsleep_ok:
  assumes inv: "flk_sys_inv n ids k st fr Ls procs" and ok: "ids_ok n ids" and e: "fl_wakes st = []"
    and sf: "sleeps_as (procs p) = Some sf"
  defines "st' \<equiv> delflck SleepL sf (upd_fl sf (set_blk_sysid 0) (upd_fl sf (set_blk_pid 0) st))"
  shows "\<exists>fr' Ls'. flk_sys_inv n ids k st' fr' Ls' (procs(p := FpIdle)) \<and> fl_wakes st' = []"
proof -
  note I = flk_sys_invD [OF inv]
  note F = flk_invD [OF I(1)]
  let ?st = "upd_fl sf (set_blk_sysid 0) (upd_fl sf (set_blk_pid 0) st)"
  have S: "p < n" "sf \<in> set (Ls SleepL)" "owner (lck st sf) = id_of ids p" using I(2) [OF sf] by simp_all
  obtain xs ys where xy: "Ls SleepL = xs @ sf # ys" using S(2) by (auto simp: in_set_conv_decomp)
  have dis: "distinct (xs @ sf # ys)" using fl_lists_distinct [OF F(1), of SleepL] xy by simp
  have "fl_links st ?st" by (simp add: fl_links_def set_blk_pid_def set_blk_sysid_def)
  then have L: "fl_lists ?st fr Ls" using F(1) by (simp add: fl_lists_links)
  note del = delflck_ok [OF L xy, folded st'_def]
  have D: "lck st' a = lck st a" for a by (simp add: del(2) set_blk_pid_def set_blk_sysid_def)
  have z: "fl_stat (flox ?st sf) = 0" using blk_clear [of "flox st sf"] by simp
  have stt: "fl_stat (flox st' a) = (if a = sf then 0 else fl_stat (flox st a))" for a using del(3) by simp
  have w: "fl_wakes st' = []" using del(4) z e by simp
  have nsf: "sf \<notin> set (Ls (InoL ip))" for ip using fl_listsD(4) [OF F(1), of SleepL "InoL ip"] S(2) by auto
  have wt: "waits st' (xs @ ys) \<subseteq> waits st (Ls SleepL)"
    unfolding waits_def xy using dis stt by (auto simp: D blk_pid_def blk_sysid_def)
  have others: "q \<noteq> p \<Longrightarrow> sleeps_as (procs q) = Some s \<Longrightarrow> s \<noteq> sf" for q s
    using I(2) [of q s] I(2) [OF sf] ok by (auto simp: ids_ok_def inj_on_def)
  have "flk_sys_inv n ids k st' (sf # fr) (Ls(SleepL := xs @ ys)) (procs(p := FpIdle))"
    unfolding flk_sys_inv_def
  proof (intro conjI allI impI ballI)
    have Deq: "lck st' = lck st" using D by auto
    show "flk_inv (id_of ids ` {..< n}) st' (sf # fr) (Ls(SleepL := xs @ ys))"
      unfolding flk_inv_def using del(1) F(2-4) F(4) [of _ SleepL] xy by (auto simp: D split: if_splits)
    show "acyclic (waits st' ((Ls(SleepL := xs @ ys)) SleepL))" using acyclic_subset [OF I(4) wt] by simp
    fix q s assume "sleeps_as ((procs(p := FpIdle)) q) = Some s"
    then have q: "q \<noteq> p" "sleeps_as (procs q) = Some s" by (auto split: if_splits)
    then have "s \<noteq> sf" by (rule others)
    then show "q < n" "s \<in> set ((Ls(SleepL := xs @ ys)) SleepL)" "owner (lck st' s) = id_of ids q"
      using I(2) [OF q(2)] xy D by auto
  next
    fix s assume s: "s \<in> set ((Ls(SleepL := xs @ ys)) SleepL)"
    then have "s \<in> set (Ls SleepL)" "s \<noteq> sf" using xy dis by auto
    then obtain q where q: "sleeps_as (procs q) = Some s" using I(3) by blast
    then have "q \<noteq> p" using sf \<open>s \<noteq> sf\<close> by auto
    then show "\<exists>q. sleeps_as ((procs(p := FpIdle)) q) = Some s" using q by (intro exI [of _ q]) simp
  next
    fix ip a assume "a \<in> set ((Ls(SleepL := xs @ ys)) (InoL ip))"
    then show "unat (fl_stat (flox st' a)) \<le> k" using I(5) [of a ip] stt by simp
  next
    fix q c s g assume "(procs(p := FpIdle)) q = FpAsleep c s g"
    then have q: "q \<noteq> p" "procs q = FpAsleep c s g" by (auto split: if_splits)
    have "s \<noteq> sf" by (rule others [OF q(1)]) (simp add: q(2))
    moreover have "g \<noteq> sf" using I(6) [OF q(2)] nsf by (auto simp: sleeper_okay_def)
    ultimately show "sleeper_okay st' (Ls(SleepL := xs @ ys)) (ids q) c s g"
      using I(6) [OF q(2)] stt by (simp add: sleeper_okay_def D blk_pid_def blk_sysid_def)
  next
    fix q c assume "the_call ((procs(p := FpIdle)) q) = Some c"
    then have "the_call (procs q) = Some c" by (auto split: if_splits)
    from I(7) [OF this] show "req_ok (fc_ld c)" "l_type (fc_ld c) \<in> {F_RDLCK, F_WRLCK}" by simp_all
  qed
  with w show ?thesis by blast
qed

lemma reclock_wake_ok:
  assumes inv: "flk_sys_inv n ids k st fr Ls procs" and ok: "ids_ok n ids" and e: "fl_wakes st = []"
    and sf: "sleeps_as (procs p) = Some sf" and c: "the_call (procs p) = Some c" and k: "k < 4294967295"
  shows "\<exists>res. reclock_wake (ids p) (fc_ip c) (fc_cmd c) (fc_whence c) (fc_offset c) intr sf (fc_ld c) st = Some res \<and>
    sys_step_ok n ids (Suc k) procs p
      (fl_after (fc_ip c) (fc_cmd c) (fc_whence c) (fc_offset c) res) (snd (snd res)) \<and>
    (intr \<longrightarrow> fst res = RlDone (Some EINTR))"
proof -
  let ?st = "delflck SleepL sf (upd_fl sf (set_blk_sysid 0) (upd_fl sf (set_blk_pid 0) st))"
  define st2 where "st2 = (if fc_cmd c AND INOFLCK \<noteq> 0 then ?st\<lparr>i_lock := (i_lock ?st)(fc_ip c := True)\<rparr> else ?st)"
  have eq: "reclock_wake (ids p) (fc_ip c) (fc_cmd c) (fc_whence c) (fc_offset c) intr sf (fc_ld c) st =
      map_option (reclock_next (fc_ip c) (fc_whence c) (fc_offset c))
        (if intr then Some (RlDone (Some EINTR), fc_ld c, st2) else reclock_try (ids p) (fc_ip c) (fc_cmd c) (fc_ld c) st2)"
    by (simp only: reclock_wake_def Let_def st2_def)
  obtain fr' Ls' where u: "flk_sys_inv n ids k ?st fr' Ls' (procs(p := FpIdle))" "fl_wakes ?st = []"
    using unsleep_ok [OF inv ok e sf] by blast
  have i2: "flk_sys_inv n ids k st2 fr' Ls' (procs(p := FpIdle))"
    by (rule flk_sys_inv_same [OF _ u(1)]) (simp add: same_tables_def st2_def)
  have w2: "fl_wakes st2 = []" using u(2) by (simp add: st2_def)
  have p: "p < n" "(procs(p := FpIdle)) p = FpIdle" using flk_sys_invD(2) [OF inv sf] by simp_all
  have upd: "(fl_wakeup ws (procs(p := FpIdle)))(p := pc) = (fl_wakeup ws procs)(p := pc)" for ws pc
    by (rule ext) (simp add: fl_wakeup_def split: flk_proc.split)
  show ?thesis
  proof (cases intr)
    case True
    have "sys_step_ok n ids (Suc k) (procs(p := FpIdle)) p FpIdle st2"
      by (rule sys_step_same [OF i2 p(2) w2 _ w2]) (simp add: same_tables_def)
    then show ?thesis using True unfolding sys_step_ok_def upd eq
      by (simp add: fl_after_next) (simp add: fl_after_def reclock_next_def)
  next
    case False
    have "req_ok (fc_ld c)" using flk_sys_invD(7) [OF inv c] by simp
    from reclock_try_ok [OF i2 ok p w2 k this]
    obtain out ld' st' where t: "reclock_try (ids p) (fc_ip c) (fc_cmd c) (fc_ld c) st2 = Some (out, ld', st')"
      "sys_step_ok n ids (Suc k) (procs(p := FpIdle)) p
         (fl_after (fc_ip c) (fc_cmd c) (fc_whence c) (fc_offset c) (out, ld', st')) st'" by blast
    then show ?thesis using False unfolding sys_step_ok_def upd eq by (simp add: fl_after_next)
  qed
qed

end
