(* ===== verification/FlockSys.thy ===== *)
theory FlockSys
  imports FlockSleep
begin

text \<open>
  The system of locking processes keeps its invariant; the properties of record locking, with a small
  system of two processes and three records for their witnesses.
\<close>

section \<open>Every step keeps the invariant\<close>

definition fl_sys_ok :: "nat \<Rightarrow> (nat \<Rightarrow> flk_id) \<Rightarrow> nat \<Rightarrow> flksys \<Rightarrow> bool" where
  "fl_sys_ok n ids k s \<longleftrightarrow> (ids_ok n ids \<longrightarrow> (\<exists>fr Ls. flk_sys_inv n ids k (fsst s) fr Ls (fsprocs s)))"

lemma sys_step_next: "sys_step_ok n ids k (fsprocs s) p pc st' \<Longrightarrow> fl_sys_ok n ids k (fl_next_sys s p st' pc)"
  by (auto simp: sys_step_ok_def fl_sys_ok_def fl_next_sys_def)

lemma fl_entry_inv: "flk_sys_inv n ids k st fr Ls procs \<Longrightarrow> flk_sys_inv n ids k (fl_entry st) fr Ls procs"
  by (erule flk_sys_inv_same [rotated]) (simp add: same_tables_def fl_entry_def)

lemma fl_entry_wakes [simp]: "fl_wakes (fl_entry st) = []"
  by (simp add: fl_entry_def)

lemma fl_entry_same [simp]: "flox (fl_entry st) = flox st" "waits (fl_entry st) ss = waits st ss"
  by (simp_all add: fl_entry_def waits_def)

lemma fl_init_ok: "fl_init s \<Longrightarrow> fl_sys_ok n ids 0 s"
proof -
  assume "fl_init s"
  then obtain st where b: "fl_boot st" "s = \<lparr>fsst = flckinit st, fsprocs = \<lambda>p. FpIdle\<rparr>" by (auto simp: fl_init_def)
  have "fl_lists (flckinit st) (rev [0..< nat (fl_recs st)]) (\<lambda>r. [])"
    by (rule flckinit_lists) (use b(1) in \<open>auto simp: fl_boot_def\<close>)
  moreover have "lcompat D []" for D by (simp add: lcompat_def held_def)
  ultimately have "flk_sys_inv n ids 0 (flckinit st) (rev [0..< nat (fl_recs st)]) (\<lambda>r. []) (\<lambda>p. FpIdle)"
    by (simp add: flk_sys_inv_def flk_inv_def waits_def acyclic_def)
  then show ?thesis using b(2) by (auto simp: fl_sys_ok_def)
qed

lemma cleanlocks_sys_ok:
  assumes inv: "flk_sys_inv n ids k st fr Ls procs" and p: "procs p = FpIdle" and e: "fl_wakes st = []"
  shows "\<exists>st'. cleanlocks u ip flag st = Some st' \<and> sys_step_ok n ids (Suc k) procs p FpIdle st'"
proof -
  obtain st' fr' ws where c: "cleanlocks u ip flag st = Some st'"
    "flk_inv (id_of ids ` {..< n}) st' fr' (Ls(InoL ip := filter (\<lambda>a. \<not> clean_match u flag (lck st a)) (Ls (InoL ip))))"
    "adj_wake st (Ls (InoL ip)) fr st' (filter (\<lambda>a. \<not> clean_match u flag (lck st a)) (Ls (InoL ip))) ws"
    by (rule cleanlocks_ok [OF flk_sys_invD(1) [OF inv], of u ip flag]) (rule that)
  have "flk_sys_inv n ids (Suc k) st' fr' (Ls(InoL ip := filter (\<lambda>a. \<not> clean_match u flag (lck st a)) (Ls (InoL ip))))
      (fl_wakeup (fl_wakes st') procs)"
    by (rule flk_sys_inv_mono [OF sys_inv_ino [OF inv e c(2,3)]]) simp
  moreover have "(fl_wakeup (fl_wakes st') procs)(p := FpIdle) = fl_wakeup (fl_wakes st') procs"
    using p by (auto simp: fl_wakeup_def)
  ultimately show ?thesis using c(1) unfolding sys_step_ok_def by auto
qed

lemma flk_step_ok:
  assumes inv: "fl_sys_ok n ids k s" and k: "k < 4294967295" and st: "flk_step n ids s s'"
  shows "fl_sys_ok n ids (Suc k) s'"
proof (cases "ids_ok n ids")
  case ok: True
  then obtain fr Ls where i: "flk_sys_inv n ids k (fsst s) fr Ls (fsprocs s)" using inv by (auto simp: fl_sys_ok_def)
  note ie = fl_entry_inv [OF i]
  from st show ?thesis
  proof (cases rule: flk_step.cases)
    case (fl_call p ip ld cmd flag offset res)
    then show ?thesis using reclock_ok [OF ie ok fl_call(2,3) fl_entry_wakes k, of ip ld cmd flag offset]
      by (auto intro: sys_step_next)
  next
    case (fl_run p c sf res)
    have "sleeps_as (fsprocs s p) = Some sf" "the_call (fsprocs s p) = Some c" using fl_run(3) by simp_all
    from reclock_wake_ok [OF ie ok fl_entry_wakes this k, of False] fl_run show ?thesis
      by (auto intro: sys_step_next)
  next
    case (fl_signal p c sf f res)
    have "sleeps_as (fsprocs s p) = Some sf" "the_call (fsprocs s p) = Some c" using fl_signal(3) by auto
    from reclock_wake_ok [OF ie ok fl_entry_wakes this k, of True] fl_signal
    have "sys_step_ok n ids (Suc k) (fsprocs s) p
        (fl_after (fc_ip c) (fc_cmd c) (fc_whence c) (fc_offset c) res) (snd (snd res))"
      "fst res = RlDone (Some EINTR)" by auto
    moreover from this have "fl_after (fc_ip c) (fc_cmd c) (fc_whence c) (fc_offset c) res = FpIdle"
      by (auto simp: fl_after_def split: prod.splits)
    ultimately show ?thesis using fl_signal by (auto intro: sys_step_next)
  next
    case (fl_clean p ip flag st')
    then show ?thesis using cleanlocks_sys_ok [OF ie fl_clean(3) fl_entry_wakes, of "ids p" ip flag]
      by (auto intro: sys_step_next)
  next
    case (fl_inode z l)
    have "flk_sys_inv n ids (Suc k) (fsst s') fr Ls (fsprocs s')"
      using flk_sys_inv_mono [OF flk_sys_inv_same [OF _ i, of "fsst s'"], of "Suc k"] fl_inode
      by (simp add: same_tables_def)
    then show ?thesis by (auto simp: fl_sys_ok_def)
  qed
qed (simp add: fl_sys_ok_def)

interpretation fls: bounded_system fl_init "flk_step n ids" "fl_sys_ok n ids" 4294967295 for n ids
  by unfold_locales (auto intro: fl_init_ok flk_step_ok)

section \<open>A system with two processes\<close>

definition demo_flk :: flk where
  "demo_flk = \<lparr>flox = \<lambda>a. \<lparr>fl_set = \<lparr>l_type = 0, l_whence = 0, l_start = 0, l_len = 0, l_sysid = 0, l_pid = 0\<rparr>,
       fl_stat = 0, fl_prev = None, fl_next = None\<rparr>,
     frlock = None, sleeplcks = None, i_filocks = \<lambda>ip. None, i_size = \<lambda>ip. 0, i_lock = \<lambda>ip. False,
     fl_recs = 3, fl_reccnt = 0, fl_recovf = 0, fl_rectot = 0, fl_wakes = []\<rparr>"

definition demo_ids :: "nat \<Rightarrow> flk_id" where
  "demo_ids p = \<lparr>p_epid = int p + 1, p_sysid = 0\<rparr>"

definition demo_req :: flock where
  "demo_req = \<lparr>l_type = F_WRLCK, l_whence = 0, l_start = 10, l_len = 5, l_sysid = 0, l_pid = 0\<rparr>"

lemma demo_ids_ok: "ids_ok 2 demo_ids"
  by (auto simp: ids_ok_def demo_ids_def id_of_def me_def inj_on_def)

definition demo_r1 :: "rl_out \<times> flock \<times> flk" where
  "demo_r1 = the (reclock (demo_ids 0) 0 demo_req SETFLCK FWRITE 0 (fl_entry (flckinit demo_flk)))"

definition demo_r2 :: "rl_out \<times> flock \<times> flk" where
  "demo_r2 = the (reclock (demo_ids 1) 0 demo_req (SETFLCK OR SLPFLCK) FWRITE 0 (fl_entry (snd (snd demo_r1))))"

definition demo_fs0 :: flksys where "demo_fs0 = \<lparr>fsst = flckinit demo_flk, fsprocs = \<lambda>p. FpIdle\<rparr>"
definition demo_fs1 :: flksys where "demo_fs1 = fl_next_sys demo_fs0 0 (snd (snd demo_r1)) (fl_after 0 SETFLCK 0 0 demo_r1)"
definition demo_fs2 :: flksys where
  "demo_fs2 = fl_next_sys demo_fs1 1 (snd (snd demo_r2)) (fl_after 0 (SETFLCK OR SLPFLCK) 0 0 demo_r2)"

lemma demo_fs0_run: "run_of fl_init (flk_step 2 demo_ids) 0 demo_fs0"
proof (rule run_start)
  have "fl_boot demo_flk" by (simp add: fl_boot_def demo_flk_def)
  then show "fl_init demo_fs0" unfolding fl_init_def demo_fs0_def by blast
qed

lemma demo_fs1_run: "run_of fl_init (flk_step 2 demo_ids) 1 demo_fs1"
proof -
  have "reclock (demo_ids 0) 0 demo_req SETFLCK FWRITE 0 (fl_entry (flckinit demo_flk)) \<noteq> None" by code_simp
  then have r: "reclock (demo_ids 0) 0 demo_req SETFLCK FWRITE 0 (fl_entry (fsst demo_fs0)) = Some demo_r1"
    by (simp add: demo_r1_def demo_fs0_def)
  have "flk_step 2 demo_ids demo_fs0 (fl_next_sys demo_fs0 0 (snd (snd demo_r1)) (fl_after 0 SETFLCK (l_whence demo_req) 0 demo_r1))"
    by (rule flk_step.fl_call, simp, simp add: demo_fs0_def, rule r)
  from run_step [OF demo_fs0_run this] show ?thesis by (simp add: demo_fs1_def demo_req_def)
qed

lemma demo_fs1_st: "fsst demo_fs1 = snd (snd demo_r1)" "fsprocs demo_fs1 1 = FpIdle"
  by (simp_all add: demo_fs1_def fl_next_sys_def demo_fs0_def fl_wakeup_def)

lemma demo_fs2_run: "run_of fl_init (flk_step 2 demo_ids) 2 demo_fs2"
proof -
  have "reclock (demo_ids 1) 0 demo_req (SETFLCK OR SLPFLCK) FWRITE 0 (fl_entry (snd (snd demo_r1))) \<noteq> None" by code_simp
  then have r: "reclock (demo_ids 1) 0 demo_req (SETFLCK OR SLPFLCK) FWRITE 0 (fl_entry (fsst demo_fs1)) = Some demo_r2"
    by (simp add: demo_r2_def demo_fs1_st)
  have "flk_step 2 demo_ids demo_fs1
      (fl_next_sys demo_fs1 1 (snd (snd demo_r2)) (fl_after 0 (SETFLCK OR SLPFLCK) (l_whence demo_req) 0 demo_r2))"
    by (rule flk_step.fl_call, simp, rule demo_fs1_st(2), rule r)
  from run_step [OF demo_fs1_run this] show ?thesis by (simp add: demo_fs2_def demo_req_def numeral_2_eq_2)
qed

lemma demo_asleep: "\<exists>c. fsprocs demo_fs2 1 = FpAsleep c 1 2"
proof -
  have "fst demo_r2 = RlSleep 2 1" by code_simp
  then obtain ld st where "demo_r2 = (RlSleep 2 1, ld, st)" by (metis prod.collapse)
  note e = this
  show ?thesis unfolding demo_fs2_def fl_next_sys_def fl_after_def e by simp
qed

section \<open>Setting locks\<close>

lemma reclock_set_ok:
  assumes inv: "flk_inv ids st fr Ls" and u: "me u \<in> ids" and cmd: "cmd AND SETFLCK \<noteq> 0" "cmd AND SLPFLCK = 0"
    and prep: "reclock_prep ip cmd flag offset st ld = (None, ld1)" and ty: "l_type ld \<in> {F_RDLCK, F_WRLCK, F_UNLCK}"
  shows "\<exists>e ld' st' fr' as. reclock u ip ld cmd flag offset st = Some (RlDone e, ld', st') \<and>
     flk_inv ids st' fr' (Ls(InoL ip := as)) \<and>
     (e = Some EAGAIN \<longleftrightarrow> l_type ld \<noteq> F_UNLCK \<and> (\<exists>a\<in>set (Ls (InoL ip)). blocks u ld1 (lck st a))) \<and>
     (e = Some EAGAIN \<longrightarrow> st' = st) \<and>
     (e = None \<longrightarrow> (\<forall>ow t x. held (lck st') as ow t x \<longleftrightarrow>
        (if ow = me u \<and> x \<in> region ld1 then t = l_type ld \<and> t \<noteq> F_UNLCK else held (lck st) (Ls (InoL ip)) ow t x))) \<and>
     (e \<noteq> None \<and> e \<noteq> Some EAGAIN \<longrightarrow> e = Some ENOLCK \<and>
        (\<forall>ow t x. ow \<noteq> me u \<or> x \<notin> region ld1 \<longrightarrow> held (lck st') as ow t x = held (lck st) (Ls (InoL ip)) ow t x) \<and>
        (\<forall>ow t x. held (lck st') as ow t x \<longrightarrow> held (lck st) (Ls (InoL ip)) ow t x))"
proof -
  note F = flk_invD [OF inv]
  note P = reclock_prep_ok [OF prep]
  have rng: "0 \<le> l_start ld1" "l_start ld1 \<le> l_end ld1" "l_end ld1 \<le> MAXEND" using P(1) by (simp_all add: req_ok_def)
  have rc: "reclock u ip ld cmd flag offset st = map_option (reclock_next ip (l_whence ld) offset) (reclock_try u ip cmd ld1 st)"
    by (simp add: reclock_def prep)
  have ne: "F_UNLCK \<noteq> F_RDLCK" "F_UNLCK \<noteq> F_WRLCK" by (simp_all add: F_RDLCK_def F_WRLCK_def F_UNLCK_def)
  have fin: ?thesis
    if h: "reclock_try u ip cmd ld1 st = Some (RlDone e, ld', st')" "fl_lists st' fr' (Ls(InoL ip := as))"
      "adj_spec u st (Ls (InoL ip)) ld1 e st' as" "adj_wake st (Ls (InoL ip)) fr st' as ws"
      "l_type ld1 = F_UNLCK \<or> l_type ld1 \<in> {F_RDLCK, F_WRLCK} \<and> (\<forall>a\<in>set (Ls (InoL ip)). \<not> blocks u ld1 (lck st a))"
    for e ld' st' fr' as ws
  proof -
    have i: "flk_inv ids st' fr' (Ls(InoL ip := as))" by (rule flk_inv_adj [OF inv u h(2,4,3,5)])
    have ea: "e \<noteq> Some EAGAIN" using h(3) by (auto simp: adj_spec_def)
    have nb: "\<not> (l_type ld \<noteq> F_UNLCK \<and> (\<exists>a\<in>set (Ls (InoL ip)). blocks u ld1 (lck st a)))" using h(5) P(2) by auto
    have yes: "held (lck st') as ow t x \<longleftrightarrow>
        (if ow = me u \<and> x \<in> region ld1 then t = l_type ld \<and> t \<noteq> F_UNLCK else held (lck st) (Ls (InoL ip)) ow t x)"
      if "e = None" for ow t x
      using h(3) held_other [OF h(3), of ow t x] that P(2) by (cases "ow = me u") (auto simp: adj_spec_def)
    have no: "e = Some ENOLCK \<and>
        (\<forall>ow t x. ow \<noteq> me u \<or> x \<notin> region ld1 \<longrightarrow> held (lck st') as ow t x = held (lck st) (Ls (InoL ip)) ow t x) \<and>
        (\<forall>ow t x. held (lck st') as ow t x \<longrightarrow> held (lck st) (Ls (InoL ip)) ow t x)" if some: "e \<noteq> None"
    proof -
      obtain x where "e = Some x" using some by blast
      then have s: "e = Some ENOLCK"
          "\<And>t x. x \<notin> region ld1 \<Longrightarrow> held (lck st') as (me u) t x = held (lck st) (Ls (InoL ip)) (me u) t x"
          "\<And>t x. held (lck st') as (me u) t x \<Longrightarrow> held (lck st) (Ls (InoL ip)) (me u) t x"
        using h(3) by (auto simp: adj_spec_def)
      show ?thesis using s held_other [OF h(3)] by metis
    qed
    have rr: "reclock u ip ld cmd flag offset st = Some (RlDone e, reclock_finish ip (l_whence ld) offset st' ld', st')"
      using rc h(1) by (simp add: reclock_next_def)
    show ?thesis
    proof (intro exI conjI)
      show "(e = Some EAGAIN) = (l_type ld \<noteq> F_UNLCK \<and> (\<exists>a\<in>set (Ls (InoL ip)). blocks u ld1 (lck st a)))"
        using ea nb by blast
      show "e = Some EAGAIN \<longrightarrow> st' = st" using ea by blast
      show "e = None \<longrightarrow> (\<forall>ow t x. held (lck st') as ow t x \<longleftrightarrow>
        (if ow = me u \<and> x \<in> region ld1 then t = l_type ld \<and> t \<noteq> F_UNLCK else held (lck st) (Ls (InoL ip)) ow t x))"
        using yes by blast
      show "e \<noteq> None \<and> e \<noteq> Some EAGAIN \<longrightarrow> e = Some ENOLCK \<and>
        (\<forall>ow t x. ow \<noteq> me u \<or> x \<notin> region ld1 \<longrightarrow> held (lck st') as ow t x = held (lck st) (Ls (InoL ip)) ow t x) \<and>
        (\<forall>ow t x. held (lck st') as ow t x \<longrightarrow> held (lck st) (Ls (InoL ip)) ow t x)"
        using no by blast
    qed (use rr i in simp_all)
  qed
  show ?thesis
  proof (cases "l_type ld = F_UNLCK")
    case True
    then have t: "l_type ld1 = F_UNLCK" using P(2) by simp
    obtain e ld' st' fr' as ws where a: "flckadj u (InoL ip) (i_filocks st ip) ld1 st = Some (e, ld', st')"
      "fl_lists st' fr' (Ls(InoL ip := as))" "adj_spec u st (Ls (InoL ip)) ld1 e st' as" "adj_wake st (Ls (InoL ip)) fr st' as ws"
      by (rule unlock_ok [OF F(1,2) t rng])
    show ?thesis by (rule fin [OF _ a(2-4)]) (use a(1) t ne cmd(1) in \<open>auto simp: reclock_try_def\<close>)
  next
    case False
    then have t: "l_type ld1 \<in> {F_RDLCK, F_WRLCK}" using ty P(2) by auto
    obtain b i where b: "blocked u st (i_filocks st ip) ld1 = Some (b, i)"
      "case b of Some f \<Rightarrow> f \<in> set (Ls (InoL ip)) \<and> blocks u ld1 (lck st f)
       | None \<Rightarrow> (\<forall>a\<in>set (Ls (InoL ip)). \<not> blocks u ld1 (lck st a)) \<and> insert_at u st ld1 (Ls (InoL ip)) i"
      using blocked_ok [OF F(1,2) rng] by blast
    show ?thesis
    proof (cases b)
      case None
      then have nb: "\<forall>a\<in>set (Ls (InoL ip)). \<not> blocks u ld1 (lck st a)" "insert_at u st ld1 (Ls (InoL ip)) i"
        using b(2) by simp_all
      obtain e ld' st' fr' as ws where a: "flckadj u (InoL ip) i ld1 st = Some (e, ld', st')"
        "fl_lists st' fr' (Ls(InoL ip := as))" "adj_spec u st (Ls (InoL ip)) ld1 e st' as" "adj_wake st (Ls (InoL ip)) fr st' as ws"
        by (rule set_lock_ok [OF F(1,2) t rng nb(2)])
      show ?thesis by (rule fin [OF _ a(2-4)]) (use a(1) b(1) None t nb cmd(1) in \<open>auto simp: reclock_try_def\<close>)
    next
      case (Some f)
      then have f: "f \<in> set (Ls (InoL ip))" "blocks u ld1 (lck st f)" using b(2) by simp_all
      have "reclock_try u ip cmd ld1 st = Some (RlDone (Some EAGAIN), ld1, st)"
        using b(1) Some t cmd by (auto simp: reclock_try_def)
      then have rr: "reclock u ip ld cmd flag offset st =
          Some (RlDone (Some EAGAIN), reclock_finish ip (l_whence ld) offset st ld1, st)"
        using rc by (simp add: reclock_next_def)
      show ?thesis
      proof (intro exI conjI)
        show "flk_inv ids st fr (Ls(InoL ip := Ls (InoL ip)))" using inv by (simp add: fun_upd_idem)
      qed (use rr f False in auto)
    qed
  qed
qed

definition request_start :: "nat \<Rightarrow> int \<Rightarrow> flk \<Rightarrow> flock \<Rightarrow> int" where
  "request_start ip offset st ld =
     l_start ld + (if l_whence ld = 1 then offset else if l_whence ld = 2 then i_size st ip else 0)"

lemma int32_wrap: "- 2147483648 \<le> x \<Longrightarrow> x < 6442450944 \<Longrightarrow> int32 x = (if x < 2147483648 then x else x - 4294967296)"
  unfolding int32_def by (auto simp: mod_pos_pos_trivial) (smt (verit) mod_pos_pos_trivial minus_mod_self2)

lemma end_wrap:
  assumes "0 \<le> s" "s \<le> MAXEND" "0 < len" "len \<le> MAXEND"
  shows "s > int32 (len + int32 (s - 1)) \<longleftrightarrow> s + len - 1 > MAXEND"
    "s + len - 1 \<le> MAXEND \<Longrightarrow> int32 (len + int32 (s - 1)) = s + len - 1"
proof -
  have i: "int32 (s - 1) = s - 1" using assms by (intro int32_id) (auto simp: MAXEND_def)
  show "s > int32 (len + int32 (s - 1)) \<longleftrightarrow> s + len - 1 > MAXEND"
    using assms int32_wrap [of "len + (s - 1)"] unfolding i by (auto simp: MAXEND_def)
  show "int32 (len + int32 (s - 1)) = s + len - 1" if "s + len - 1 \<le> MAXEND"
    using assms int32_wrap [of "len + (s - 1)"] that unfolding i by (auto simp: MAXEND_def)
qed

lemma convoff_spec:
  assumes r: "0 \<le> offset" "offset < 2147483648" "0 \<le> i_size st ip" "i_size st ip < 2147483648"
    "- 2147483648 \<le> l_start ld" "l_start ld < 2147483648"
  shows "fst (convoff ip 0 offset st ld) = (if l_whence ld \<notin> {0, 1, 2} \<or> request_start ip offset st ld < 0 \<or>
      request_start ip offset st ld > MAXEND then Some EINVAL else None)"
    "fst (convoff ip 0 offset st ld) = None \<Longrightarrow>
      l_start (snd (convoff ip 0 offset st ld)) = request_start ip offset st ld \<and>
      l_len (snd (convoff ip 0 offset st ld)) = l_len ld"
  using r by (auto simp: convoff_def Let_def MAXEND_def request_start_def int32_wrap int32_id split: if_splits)

lemma reclock_errors_ok:
  assumes r: "0 \<le> offset" "offset < 2147483648" "0 \<le> i_size st ip" "i_size st ip < 2147483648"
      "- 2147483648 \<le> l_start ld" "l_start ld < 2147483648" "- 2147483648 \<le> l_len ld" "l_len ld < 2147483648"
  shows "fst (reclock_prep ip cmd flag offset st ld) =
      (if cmd AND SETFLCK \<noteq> 0 \<and> (l_type ld = F_RDLCK \<and> flag AND FREAD = 0 \<or> l_type ld = F_WRLCK \<and> flag AND FWRITE = 0)
       then Some EBADF
       else if l_whence ld \<notin> {0, 1, 2} \<or> request_start ip offset st ld < 0 \<or> request_start ip offset st ld > MAXEND \<or> l_len ld < 0 \<or> request_start ip offset st ld + l_len ld - 1 > MAXEND
       then Some EINVAL else None)"
    "fst (reclock_prep ip cmd flag offset st ld) = None \<Longrightarrow>
      l_start (snd (reclock_prep ip cmd flag offset st ld)) = request_start ip offset st ld \<and>
      l_end (snd (reclock_prep ip cmd flag offset st ld)) = (if l_len ld = 0 then MAXEND else request_start ip offset st ld + l_len ld - 1)"
proof -
  let ?s = "request_start ip offset st ld"
  obtain e ld1 where c: "convoff ip 0 offset st ld = (e, ld1)" by fastforce
  note C = convoff_spec [where ip = ip and offset = offset and st = st and ld = ld, OF r(1-6), unfolded c fst_conv snd_conv]
  have v: "e = None \<Longrightarrow> 0 \<le> ?s \<and> ?s \<le> MAXEND \<and> l_start ld1 = ?s \<and> l_len ld1 = l_len ld"
    using C by (auto split: if_splits)
  have len: "l_len ld \<le> MAXEND" using r(8) by (simp add: MAXEND_def)
  show "fst (reclock_prep ip cmd flag offset st ld) =
      (if cmd AND SETFLCK \<noteq> 0 \<and> (l_type ld = F_RDLCK \<and> flag AND FREAD = 0 \<or> l_type ld = F_WRLCK \<and> flag AND FWRITE = 0)
       then Some EBADF
       else if l_whence ld \<notin> {0, 1, 2} \<or> ?s < 0 \<or> ?s > MAXEND \<or> l_len ld < 0 \<or> ?s + l_len ld - 1 > MAXEND
       then Some EINVAL else None)"
  proof (cases e)
    case None
    note v = v [OF None]
    have ne: "\<not> (l_whence ld \<notin> {0, 1, 2} \<or> ?s < 0 \<or> ?s > MAXEND)" using C(1) None by (auto split: if_splits)
    consider "l_len ld < 0" | "l_len ld = 0" | "0 < l_len ld" by linarith
    then show ?thesis
    proof cases
      case 3
      then show ?thesis using c None v ne end_wrap [of ?s "l_len ld"] len by (simp add: reclock_prep_def Let_def)
    qed (use c None v ne in \<open>auto simp: reclock_prep_def Let_def\<close>)
  next
    case (Some x)
    then have "x = EINVAL" "l_whence ld \<notin> {0, 1, 2} \<or> ?s < 0 \<or> ?s > MAXEND" using C(1) by (auto split: if_splits)
    then show ?thesis using c Some by (auto simp: reclock_prep_def)
  qed
  assume n: "fst (reclock_prep ip cmd flag offset st ld) = None"
  then have en: "e = None" using c by (auto simp: reclock_prep_def split: if_splits option.splits)
  note v = v [OF en]
  consider "l_len ld < 0" | "l_len ld = 0" | "0 < l_len ld" by linarith
  then show "l_start (snd (reclock_prep ip cmd flag offset st ld)) = ?s \<and>
      l_end (snd (reclock_prep ip cmd flag offset st ld)) = (if l_len ld = 0 then MAXEND else ?s + l_len ld - 1)"
  proof cases
    case 3
    then show ?thesis using n c en v end_wrap [of ?s "l_len ld"] len
      by (auto simp: reclock_prep_def Let_def split: if_splits)
  qed (use n c en v in \<open>auto simp: reclock_prep_def Let_def split: if_splits\<close>)
qed

text \<open>
  A state in which all three records are in use: process 0 holds a read lock on bytes 0 to 9 of inode 0
  and locks on inodes 1 and 2.
\<close>

definition loss_req :: "int \<Rightarrow> int \<Rightarrow> flock" where
  "loss_req ty s = \<lparr>l_type = ty, l_whence = 0, l_start = s, l_len = 10, l_sysid = 0, l_pid = 0\<rparr>"

definition loss_call :: "nat \<Rightarrow> flock \<Rightarrow> flk \<Rightarrow> rl_out \<times> flock \<times> flk" where
  "loss_call ip ld st = the (reclock (demo_ids 0) ip ld SETFLCK (FREAD OR FWRITE) 0 st)"

definition loss_st :: flk where
  "loss_st = snd (snd (loss_call 2 (loss_req F_WRLCK 0) (snd (snd (loss_call 1 (loss_req F_WRLCK 0)
     (snd (snd (loss_call 0 (loss_req F_RDLCK 0) (flckinit demo_flk)))))))))"

section \<open>Properties of record locking\<close>

text \<open>C1. In every state the system of locking processes reaches, the records are partitioned between
  the free list, the sleepers and the inodes' lists, the count of records in use is right, the locks of
  every inode are sorted and in range, those of one owner do not overlap, and two processes hold locks
  on one byte only if both are read locks.\<close>

theorem flock_reach_safe:
  assumes "run_of fl_init (flk_step n ids) k s" "ids_ok n ids" "k \<le> 4294967295"
  shows "\<exists>fr Ls. fl_lists (fsst s) fr Ls \<and>
     (\<forall>ip. locks_ok (lck (fsst s)) (Ls (InoL ip)) \<and> lcompat (lck (fsst s)) (Ls (InoL ip)))"
proof -
  obtain fr Ls where "flk_sys_inv n ids k (fsst s) fr Ls (fsprocs s)"
    using fls.run_inv [OF assms(1,3)] assms(2) by (auto simp: fl_sys_ok_def)
  from flk_invD [OF flk_sys_invD(1) [OF this]] show ?thesis by blast
qed

theorem flock_reach_safe_witness:
  "\<exists>fr Ls. fl_lists (fsst demo_fs2) fr Ls \<and>
     (\<forall>ip. locks_ok (lck (fsst demo_fs2)) (Ls (InoL ip)) \<and> lcompat (lck (fsst demo_fs2)) (Ls (InoL ip)))"
  by (rule flock_reach_safe [OF demo_fs2_run demo_ids_ok]) simp

text \<open>C16. No wakeup is missed: a process asleep in \<open>reclock\<close> sleeps on a lock that is still in the list of
  its inode, belongs to another process, still stands in the way of its request and has its wakeup flag
  set; its record among the sleepers names the owner of that lock.\<close>

theorem flock_sleeper_blocked:
  assumes "run_of fl_init (flk_step n ids) k s" "ids_ok n ids" "k \<le> 4294967295"
    and "fsprocs s p = FpAsleep c sf f"
  shows "p < n \<and> (\<exists>fr Ls. fl_lists (fsst s) fr Ls \<and> sf \<in> set (Ls SleepL) \<and> f \<in> set (Ls (InoL (fc_ip c))) \<and>
     blocks (ids p) (fc_ld c) (lck (fsst s) f) \<and> fl_stat (flox (fsst s) f) \<noteq> 0 \<and>
     owner (lck (fsst s) sf) = me (ids p) \<and>
     (blk_pid (flox (fsst s) sf), blk_sysid (flox (fsst s) sf)) = owner (lck (fsst s) f))"
proof -
  obtain fr Ls where i: "flk_sys_inv n ids k (fsst s) fr Ls (fsprocs s)"
    using fls.run_inv [OF assms(1,3)] assms(2) by (auto simp: fl_sys_ok_def)
  note S = flk_sys_invD(2) [OF i, of p sf] flk_sys_invD(6) [OF i assms(4)]
  show ?thesis using S flk_invD(1) [OF flk_sys_invD(1) [OF i]] assms(4)
    unfolding sleeper_okay_def id_of_def by (intro conjI exI [of _ fr] exI [of _ Ls]) simp_all
qed

theorem flock_sleeper_blocked_witness:
  "\<exists>(c :: flk_call) fr Ls. fl_lists (fsst demo_fs2) fr Ls \<and> 1 \<in> set (Ls SleepL) \<and> 2 \<in> set (Ls (InoL (fc_ip c))) \<and>
     blocks (demo_ids 1) (fc_ld c) (lck (fsst demo_fs2) 2)"
proof -
  obtain c where c: "fsprocs demo_fs2 1 = FpAsleep c 1 2" using demo_asleep by blast
  have k: "(2 :: nat) \<le> 4294967295" by simp
  from flock_sleeper_blocked [OF demo_fs2_run demo_ids_ok k c] show ?thesis by blast
qed

text \<open>C18. The locking calls return: from every reachable state, \<open>reclock\<close> and \<open>cleanlocks\<close> made by any
  process that is not asleep, and the rest of \<open>reclock\<close> after a wakeup or a signal, end (with a result or
  asleep again) - in particular the search for a deadlock always ends.\<close>

theorem flock_calls_return:
  assumes "run_of fl_init (flk_step n ids) k s" "ids_ok n ids" "k < 4294967295" "p < n"
  shows "(fsprocs s p = FpIdle \<longrightarrow> reclock (ids p) ip ld cmd flag offset (fl_entry (fsst s)) \<noteq> None \<and>
        cleanlocks (ids p) ip cflag (fl_entry (fsst s)) \<noteq> None) \<and>
      (the_call (fsprocs s p) = Some c \<and> sleeps_as (fsprocs s p) = Some sf \<longrightarrow>
        reclock_wake (ids p) (fc_ip c) (fc_cmd c) (fc_whence c) (fc_offset c) intr sf (fc_ld c) (fl_entry (fsst s)) \<noteq> None)"
proof -
  obtain fr Ls where i: "flk_sys_inv n ids k (fsst s) fr Ls (fsprocs s)"
    using fls.run_inv [OF assms(1)] assms(2,3) by (auto simp: fl_sys_ok_def)
  note ie = fl_entry_inv [OF i]
  show ?thesis
    using reclock_ok [OF ie assms(2,4) _ fl_entry_wakes assms(3), of ip ld cmd flag offset]
      cleanlocks_sys_ok [OF ie _ fl_entry_wakes, of p "ids p" ip cflag]
      reclock_wake_ok [OF ie assms(2) fl_entry_wakes _ _ assms(3), of p sf c intr] by auto
qed

theorem flock_calls_return_witness:
  "reclock (demo_ids 1) 0 demo_req SETFLCK FWRITE 0 (fl_entry (fsst demo_fs1)) \<noteq> None"
  using flock_calls_return [OF demo_fs1_run demo_ids_ok, of 1] demo_fs1_st(2) by auto



text \<open>C2. Setting and removing locks without waiting: EAGAIN and no change exactly if a lock of another
  process stands in the way; otherwise the caller holds exactly the requested type on exactly the
  requested bytes and everything else is held as before - or the records ran out (ENOLCK), and then only
  the caller's own locks inside the request may be gone.\<close>

theorem reclock_set_correct:
  assumes "flk_inv ids st fr Ls" "me u \<in> ids" "cmd AND SETFLCK \<noteq> 0" "cmd AND SLPFLCK = 0"
    and "reclock_prep ip cmd flag offset st ld = (None, ld1)" "l_type ld \<in> {F_RDLCK, F_WRLCK, F_UNLCK}"
  shows "\<exists>e ld' st' fr' as. reclock u ip ld cmd flag offset st = Some (RlDone e, ld', st') \<and>
     flk_inv ids st' fr' (Ls(InoL ip := as)) \<and>
     (e = Some EAGAIN \<longleftrightarrow> l_type ld \<noteq> F_UNLCK \<and> (\<exists>a\<in>set (Ls (InoL ip)). blocks u ld1 (lck st a))) \<and>
     (e = Some EAGAIN \<longrightarrow> st' = st) \<and>
     (e = None \<longrightarrow> (\<forall>ow t x. held (lck st') as ow t x \<longleftrightarrow>
        (if ow = me u \<and> x \<in> region ld1 then t = l_type ld \<and> t \<noteq> F_UNLCK else held (lck st) (Ls (InoL ip)) ow t x))) \<and>
     (e \<noteq> None \<and> e \<noteq> Some EAGAIN \<longrightarrow> e = Some ENOLCK \<and>
        (\<forall>ow t x. ow \<noteq> me u \<or> x \<notin> region ld1 \<longrightarrow> held (lck st') as ow t x = held (lck st) (Ls (InoL ip)) ow t x) \<and>
        (\<forall>ow t x. held (lck st') as ow t x \<longrightarrow> held (lck st) (Ls (InoL ip)) ow t x))"
  by (rule reclock_set_ok [OF assms])

lemma demo_fs1_inv: "\<exists>fr Ls. flk_inv {(1, 0), (2, 0)} (fsst demo_fs1) fr Ls"
proof -
  obtain fr Ls where i: "flk_sys_inv 2 demo_ids 1 (fsst demo_fs1) fr Ls (fsprocs demo_fs1)"
    using fls.run_inv [OF demo_fs1_run] demo_ids_ok by (auto simp: fl_sys_ok_def)
  have "id_of demo_ids ` {..< 2} = {(1, 0), (2, 0)}"
    by (auto simp: id_of_def me_def demo_ids_def lessThan_Suc numeral_2_eq_2)
  with flk_sys_invD(1) [OF i] show ?thesis by auto
qed

theorem reclock_set_correct_witness:
  "\<exists>e ld' st'. reclock (demo_ids 1) 0 demo_req SETFLCK FWRITE 0 (fsst demo_fs1) = Some (RlDone e, ld', st')"
proof -
  obtain fr Ls where i: "flk_inv {(1, 0), (2, 0)} (fsst demo_fs1) fr Ls" using demo_fs1_inv by blast
  have m: "me (demo_ids 1) \<in> {(1, 0), (2, 0)}" by (simp add: me_def demo_ids_def)
  have pr: "reclock_prep 0 SETFLCK FWRITE 0 (fsst demo_fs1) demo_req = (None, demo_req\<lparr>l_len := 14\<rparr>)"
    by (simp add: reclock_prep_def convoff_def demo_req_def SETFLCK_def FWRITE_def FREAD_def F_RDLCK_def F_WRLCK_def int32_def int16_def)
  have c: "SETFLCK AND SETFLCK \<noteq> 0" "SETFLCK AND SLPFLCK = 0" by (simp_all add: SETFLCK_def SLPFLCK_def)
  have t: "l_type demo_req \<in> {F_RDLCK, F_WRLCK, F_UNLCK}" by (simp add: demo_req_def)
  from reclock_set_correct [OF i m c pr t] show ?thesis by blast
qed

text \<open>C25. \<open>cleanlocks\<close> takes from the inode exactly the locks of the caller (with \<open>IGN_PID\<close>, of its whole
  system), and leaves everyone else's.\<close>

theorem cleanlocks_correct:
  assumes "flk_inv ids st fr Ls"
  shows "\<exists>st' fr' as. cleanlocks u ip flag st = Some st' \<and> flk_inv ids st' fr' (Ls(InoL ip := as)) \<and>
     (\<forall>ow t x. held (lck st') as ow t x \<longleftrightarrow> held (lck st) (Ls (InoL ip)) ow t x \<and>
        \<not> ((fst ow = p_epid u \<or> flag = IGN_PID) \<and> snd ow = p_sysid u))"
proof -
  let ?as = "filter (\<lambda>a. \<not> clean_match u flag (lck st a)) (Ls (InoL ip))"
  obtain st' fr' where c: "cleanlocks u ip flag st = Some st'" "flk_inv ids st' fr' (Ls(InoL ip := ?as))"
    "\<forall>a. lck st' a = lck st a"
    by (rule cleanlocks_ok [OF assms, of u ip flag]) (rule that)
  have "held (lck st') ?as ow t x \<longleftrightarrow> held (lck st) (Ls (InoL ip)) ow t x \<and>
        \<not> ((fst ow = p_epid u \<or> flag = IGN_PID) \<and> snd ow = p_sysid u)" for ow t x
    using c(3) by (auto simp: held_def clean_match_def owner_def)
  with c(1,2) show ?thesis by blast
qed

theorem cleanlocks_correct_witness:
  "\<exists>st'. cleanlocks (demo_ids 0) 0 USE_PID (fsst demo_fs1) = Some st'"
  using demo_fs1_inv cleanlocks_correct [of "{(1, 0), (2, 0)}" "fsst demo_fs1"] by blast

text \<open>C26. The errors before a lock is looked for: EBADF for a lock the descriptor gives no right to, EINVAL
  exactly if the position is unknown or the region is not inside the largest file - computed without
  overflow, although the code computes in wrapping 32-bit arithmetic; otherwise the request covers
  exactly the bytes asked for.\<close>

theorem reclock_errors:
  assumes "0 \<le> offset" "offset < 2147483648" "0 \<le> i_size st ip" "i_size st ip < 2147483648"
      "- 2147483648 \<le> l_start ld" "l_start ld < 2147483648" "- 2147483648 \<le> l_len ld" "l_len ld < 2147483648"
  shows "fst (reclock_prep ip cmd flag offset st ld) =
      (if cmd AND SETFLCK \<noteq> 0 \<and> (l_type ld = F_RDLCK \<and> flag AND FREAD = 0 \<or> l_type ld = F_WRLCK \<and> flag AND FWRITE = 0)
       then Some EBADF
       else if l_whence ld \<notin> {0, 1, 2} \<or> request_start ip offset st ld < 0 \<or> request_start ip offset st ld > MAXEND \<or>
          l_len ld < 0 \<or> request_start ip offset st ld + l_len ld - 1 > MAXEND
       then Some EINVAL else None) \<and>
    (fst (reclock_prep ip cmd flag offset st ld) = None \<longrightarrow>
      l_start (snd (reclock_prep ip cmd flag offset st ld)) = request_start ip offset st ld \<and>
      l_end (snd (reclock_prep ip cmd flag offset st ld)) =
        (if l_len ld = 0 then MAXEND else request_start ip offset st ld + l_len ld - 1))"
  using reclock_errors_ok(2) [OF assms] by (intro conjI reclock_errors_ok(1) [OF assms]) blast

theorem reclock_errors_witness:
  "fst (reclock_prep 0 SETFLCK FWRITE 100 demo_flk (demo_req\<lparr>l_whence := 1\<rparr>)) = None"
  by (subst reclock_errors [THEN conjunct1])
    (simp_all add: demo_req_def demo_flk_def request_start_def MAXEND_def SETFLCK_def FWRITE_def FREAD_def F_RDLCK_def F_WRLCK_def)


end
