(* ===== verification/Msg.thy ===== *)
theory Msg
  imports Ipc RMap Chains
begin

text \<open>
  The message facility \<open>io/msg.c\<close> over the structures of \<open>sys/msg.h\<close>.  The tables \<open>msgque\<close> (queue
  headers) and \<open>msgh\<close> (message headers) are functions from slots; \<open>mpool\<close> is the message buffer at
  \<open>msg\<close>, byte by byte; \<open>msglock\<close> holds the queue locks.  A call runs without interruption up to a
  \<open>sleep\<close>: \<open>MsgSleep\<close> names the channel and the place where it goes on.  \<open>None\<close> stands for a walk
  that does not end.  \<open>sleep\<close> on a queue lock is part of \<open>msgconv\<close>.
\<close>

section \<open>State\<close>

record msginfo =
  mi_msgmap :: u32
  msgmax :: int
  msgmnb :: int
  msgmni :: nat
  msgssz :: nat
  msgtql :: nat
  msgseg :: u32

record msqid_ds =
  msg_perm :: ipc_perm
  msg_first :: ptr
  msg_last :: ptr
  msg_cbytes :: int
  msg_qnum :: int
  msg_qbytes :: int
  msg_lspid :: int
  msg_lrpid :: int
  msg_stime :: int
  msg_rtime :: int
  msg_ctime :: int

record msg =
  msg_next :: ptr
  msg_type :: int
  msg_ts :: int
  msg_spot :: int

text \<open>The channels processes sleep on: a queue lock, \<open>&qp->msg_qnum\<close>, \<open>qp\<close>, \<open>&msgfp\<close> and \<open>msgmap\<close>.\<close>

datatype msgchan = MLock nat | MQnum nat | MQue nat | MHdr | MMap

text \<open>What a call copies to the user: a queue header, or a message's type and text.\<close>

datatype msgcopy = OutQds int msqid_ds | OutMsg int int "u8 list"

record msgst = ustate +
  msgque :: "nat \<Rightarrow> msqid_ds"
  msgh :: "nat \<Rightarrow> msg"
  msgfp :: ptr
  msgmap :: rmap
  mpool :: "nat \<Rightarrow> u8"
  msglock :: "nat \<Rightarrow> bool"
  msg_wakes :: "msgchan list"
  msg_copies :: "msgcopy list"
  msg_count :: int

text \<open>
  User memory: the queue header or message type read at an address, the text read by \<open>iomove\<close> (what it
  copies before it fails, and whether it succeeds), and which addresses can be written.
\<close>

record msg_umem =
  mu_ds :: "int \<Rightarrow> msqid_ds option"
  mu_type :: "int \<Rightarrow> int option"
  mu_text :: "int \<Rightarrow> nat \<Rightarrow> u8 list \<times> bool"
  mu_put :: "int \<Rightarrow> bool"
  mu_put_text :: "int \<Rightarrow> nat \<Rightarrow> bool"

definition MSG_R :: u16 where "MSG_R = 256"
definition MSG_W :: u16 where "MSG_W = 128"
definition MSG_RWAIT :: u16 where "MSG_RWAIT = 512"
definition MSG_WWAIT :: u16 where "MSG_WWAIT = 1024"
definition MSG_NOERROR :: u32 where "MSG_NOERROR = 4096"
definition MSG_NOWAIT :: u32 where "MSG_NOWAIT = 2048"

abbreviation upd_q :: "nat \<Rightarrow> (msqid_ds \<Rightarrow> msqid_ds) \<Rightarrow> msgst \<Rightarrow> msgst" where
  "upd_q i f st \<equiv> st\<lparr>msgque := (msgque st)(i := f (msgque st i))\<rparr>"

abbreviation upd_m :: "nat \<Rightarrow> (msg \<Rightarrow> msg) \<Rightarrow> msgst \<Rightarrow> msgst" where
  "upd_m m f st \<equiv> st\<lparr>msgh := (msgh st)(m := f (msgh st m))\<rparr>"

abbreviation upd_mode :: "nat \<Rightarrow> (u16 \<Rightarrow> u16) \<Rightarrow> msgst \<Rightarrow> msgst" where
  "upd_mode i f \<equiv> upd_q i (\<lambda>q. q\<lparr>msg_perm := (msg_perm q)\<lparr>ip_mode := f (ip_mode (msg_perm q))\<rparr>\<rparr>)"

abbreviation msg_wakeup :: "msgchan \<Rightarrow> msgst \<Rightarrow> msgst" where
  "msg_wakeup ch st \<equiv> st\<lparr>msg_wakes := msg_wakes st @ [ch]\<rparr>"

definition btoq :: "msginfo \<Rightarrow> int \<Rightarrow> u32" where
  "btoq mi x = word_of_int ((x + int (msgssz mi) - 1) div int (msgssz mi))"

section \<open>Queue identifiers and locks\<close>

datatype msg_conv = CvErr | CvBusy nat | CvOk nat

definition msgconv :: "msginfo \<Rightarrow> int \<Rightarrow> msgst \<Rightarrow> msg_conv \<times> msgst" where
  "msgconv mi idn st =
     (if idn < 0 then (CvErr, set_error EINVAL st)
      else let i = nat (idn mod int (msgmni mi)) in
        if msglock st i then (CvBusy i, st)
        else let st1 = st\<lparr>msglock := (msglock st)(i := True)\<rparr> in
          if \<not> ipc_live (msg_perm (msgque st1 i)) \<or>
             idn div int (msgmni mi) \<noteq> uint (ip_seq (msg_perm (msgque st1 i)))
          then (CvErr, set_error EINVAL (msg_wakeup (MLock i) (st1\<lparr>msglock := (msglock st1)(i := False)\<rparr>)))
          else (CvOk i, st1))"

definition msg_unlock :: "nat \<Rightarrow> msgst \<Rightarrow> msgst" where
  "msg_unlock i st = msg_wakeup (MLock i) (st\<lparr>msglock := (msglock st)(i := False)\<rparr>)"

section \<open>Freeing a message\<close>

text \<open>The header goes back to the free list.\<close>

definition msg_free_header :: "nat \<Rightarrow> msgst \<Rightarrow> msgst" where
  "msg_free_header m st =
     (let st1 = upd_m m (\<lambda>p. p\<lparr>msg_next := msgfp st\<rparr>) st;
          st2 = (if msgfp st1 = None then msg_wakeup MHdr st1 else st1)
      in st2\<lparr>msgfp := Some m\<rparr>)"

definition msg_mfree :: "u32 \<Rightarrow> u32 \<Rightarrow> msgst \<Rightarrow> msgst option" where
  "msg_mfree n a st = (case mfree (msgmap st) n a of
     None \<Rightarrow> None
   | Some (MFreed mp w) \<Rightarrow> Some (if w then msg_wakeup MMap (st\<lparr>msgmap := mp\<rparr>) else st\<lparr>msgmap := mp\<rparr>)
   | Some (MLost mp) \<Rightarrow> Some (st\<lparr>msgmap := mp\<rparr>))"

definition msgfree :: "msginfo \<Rightarrow> nat \<Rightarrow> ptr \<Rightarrow> nat \<Rightarrow> msgst \<Rightarrow> msgst option" where
  "msgfree mi i pmp m st =
     (let nx = msg_next (msgh st m);
          st1 = (case pmp of None \<Rightarrow> upd_q i (\<lambda>q. q\<lparr>msg_first := nx\<rparr>) st
                 | Some p \<Rightarrow> upd_m p (\<lambda>h. h\<lparr>msg_next := nx\<rparr>) st);
          st2 = (if msg_next (msgh st1 m) = None then upd_q i (\<lambda>q. q\<lparr>msg_last := pmp\<rparr>) st1 else st1);
          st3 = upd_q i (\<lambda>q. q\<lparr>msg_qnum := uint16 (msg_qnum q - 1)\<rparr>) st2;
          st4 = (if ip_mode (msg_perm (msgque st3 i)) AND MSG_WWAIT \<noteq> 0
                 then msg_wakeup (MQue i) (upd_mode i (\<lambda>w. w AND NOT MSG_WWAIT) st3) else st3)
      in map_option (msg_free_header m)
           (if msg_ts (msgh st4 m) \<noteq> 0
            then msg_mfree (btoq mi (msg_ts (msgh st4 m))) (word_of_int (msg_spot (msgh st4 m) + 1)) st4
            else Some st4))"

section \<open>Control operations\<close>

text \<open>\<open>while (qp->msg_first) msgfree(qp, NULL, qp->msg_first)\<close>.\<close>

fun msg_drain :: "nat \<Rightarrow> msginfo \<Rightarrow> nat \<Rightarrow> msgst \<Rightarrow> msgst option" where
  "msg_drain 0 mi i st = (if msg_first (msgque st i) = None then Some st else None)"
| "msg_drain (Suc n) mi i st = (case msg_first (msgque st i) of
     None \<Rightarrow> Some st
   | Some m \<Rightarrow> Option.bind (msgfree mi i None m st) (msg_drain n mi i))"

definition msg_owner :: "uarea \<Rightarrow> nat \<Rightarrow> msgst \<Rightarrow> bool \<times> msgst" where
  "msg_owner u i st =
     (if u_uid u \<noteq> ip_uid (msg_perm (msgque st i)) \<and> u_uid u \<noteq> ip_cuid (msg_perm (msgque st i))
      then suser u st else (True, st))"

definition msgctl_rmid :: "msginfo \<Rightarrow> uarea \<Rightarrow> int \<Rightarrow> nat \<Rightarrow> msgst \<Rightarrow> msgst option" where
  "msgctl_rmid mi u idn i st = (case msg_owner u i st of
     (False, st0) \<Rightarrow> Some st0
   | (True, st0) \<Rightarrow> (case msg_drain (msgtql mi) mi i st0 of
        None \<Rightarrow> None
      | Some st1 \<Rightarrow>
          let st2 = upd_q i (\<lambda>q. q\<lparr>msg_cbytes := 0, msg_perm := (msg_perm q)\<lparr>
                 ip_seq := (if int32 (idn + int (msgmni mi)) < 0 then 0 else ip_seq (msg_perm q) + 1)\<rparr>\<rparr>) st1;
              st3 = (if ip_mode (msg_perm (msgque st2 i)) AND MSG_RWAIT \<noteq> 0 then msg_wakeup (MQnum i) st2 else st2);
              st4 = (if ip_mode (msg_perm (msgque st3 i)) AND MSG_WWAIT \<noteq> 0 then msg_wakeup (MQue i) st3 else st3)
          in Some (upd_mode i (\<lambda>w. 0) st4)))"

definition msgctl_set :: "msginfo \<Rightarrow> uarea \<Rightarrow> int \<Rightarrow> msg_umem \<Rightarrow> int \<Rightarrow> nat \<Rightarrow> msgst \<Rightarrow> msgst" where
  "msgctl_set mi u time um buf i st = (case msg_owner u i st of
     (False, st0) \<Rightarrow> st0
   | (True, st0) \<Rightarrow> (case mu_ds um buf of
        None \<Rightarrow> set_error EFAULT st0
      | Some ds \<Rightarrow>
          (case (if msg_qbytes ds > msg_qbytes (msgque st0 i) then suser u st0 else (True, st0)) of
             (False, st1) \<Rightarrow> st1
           | (True, st1) \<Rightarrow> upd_q i (\<lambda>q. q\<lparr>
               msg_perm := (msg_perm q)\<lparr>ip_uid := ip_uid (msg_perm ds), ip_gid := ip_gid (msg_perm ds),
                 ip_mode := (ip_mode (msg_perm q) AND NOT 511) OR (ip_mode (msg_perm ds) AND 511)\<rparr>,
               msg_qbytes := msg_qbytes ds, msg_ctime := time\<rparr>) st1)))"

definition msgctl_stat :: "uarea \<Rightarrow> msg_umem \<Rightarrow> int \<Rightarrow> nat \<Rightarrow> msgst \<Rightarrow> msgst" where
  "msgctl_stat u um buf i st = (case ipcaccess u (msg_perm (msgque st i)) MSG_R st of
     (True, st1) \<Rightarrow> st1
   | (False, st1) \<Rightarrow> if mu_put um buf then st1\<lparr>msg_copies := msg_copies st1 @ [OutQds buf (msgque st1 i)]\<rparr>
                     else set_error EFAULT st1)"

text \<open>What a call comes to: it returns, or sleeps and goes on at one of three places.\<close>

datatype msg_pc = PcConv | PcLoop | PcIntr msgchan

datatype msg_res = MsgRet | MsgSleep msgchan msg_pc nat

definition msgctl ::
  "msginfo \<Rightarrow> uarea \<Rightarrow> int \<Rightarrow> msg_umem \<Rightarrow> int \<Rightarrow> int \<Rightarrow> int \<Rightarrow> msgst \<Rightarrow> (msg_res \<times> msgst) option" where
  "msgctl mi u time um idn cmd buf st = (case msgconv mi idn st of
     (CvErr, st0) \<Rightarrow> Some (MsgRet, st0)
   | (CvBusy i, st0) \<Rightarrow> Some (MsgSleep (MLock i) PcConv i, st0)
   | (CvOk i, st0) \<Rightarrow>
       map_option (\<lambda>st1. (MsgRet, msg_unlock i st1))
         (let st1 = st0\<lparr>u_rval1 := 0\<rparr> in
          if cmd = 0 then msgctl_rmid mi u idn i st1
          else if cmd = 1 then Some (msgctl_set mi u time um buf i st1)
          else if cmd = 2 then Some (msgctl_stat u um buf i st1)
          else Some (set_error EINVAL st1)))"

section \<open>Creation and start-up\<close>

definition msgget :: "msginfo \<Rightarrow> uarea \<Rightarrow> int \<Rightarrow> int \<Rightarrow> u32 \<Rightarrow> msgst \<Rightarrow> msgst" where
  "msgget mi u time key flg st = (case ipcget u key flg (msg_perm \<circ> msgque st) (msgmni mi) of
     Inl e \<Rightarrow> set_error e st
   | Inr (i, s, perm) \<Rightarrow>
       let st1 = upd_q i (\<lambda>q. q\<lparr>msg_perm := perm\<rparr>) st;
           st2 = (if s then upd_q i (\<lambda>q. q\<lparr>msg_first := None, msg_last := None, msg_qnum := 0,
                    msg_qbytes := uint16 (msgmnb mi), msg_lspid := 0, msg_lrpid := 0, msg_stime := 0,
                    msg_rtime := 0, msg_ctime := time\<rparr>) st1 else st1)
       in st2\<lparr>u_rval1 := int32 (uint (ip_seq (msg_perm (msgque st2 i))) * int (msgmni mi) + int i)\<rparr>)"

fun msginit_link :: "nat \<Rightarrow> nat \<Rightarrow> msgst \<Rightarrow> msgst" where
  "msginit_link n m st = (case n of
     0 \<Rightarrow> st
   | Suc k \<Rightarrow> msginit_link k (Suc m) (upd_m m (\<lambda>h. h\<lparr>msg_next := Some (Suc m)\<rparr>) st))"

text \<open>\<open>got\<close> tells whether the physical memory for the message buffer was found.\<close>

definition msginit :: "msginfo \<Rightarrow> bool \<Rightarrow> msgst \<Rightarrow> msgst option" where
  "msginit mi got st =
     (let st1 = st\<lparr>msgmap := mapinit (msgmap st) (mi_msgmap mi)\<rparr> in
      case msg_mfree (if got then msgseg mi else 0) 1 st1 of
        None \<Rightarrow> None
      | Some st2 \<Rightarrow> Some (msginit_link (msgtql mi - 1) 0 (st2\<lparr>msgfp := Some 0\<rparr>)))"

section \<open>Receiving\<close>

text \<open>The three searches of \<open>msgrcv\<close>: the message and the one in front of it.\<close>

fun msg_find_type :: "nat \<Rightarrow> msgst \<Rightarrow> int \<Rightarrow> ptr \<Rightarrow> ptr \<Rightarrow> (ptr \<times> ptr) option" where
  "msg_find_type n st t pmp None = Some (None, None)"
| "msg_find_type 0 st t pmp (Some m) = None"
| "msg_find_type (Suc n) st t pmp (Some m) =
     (if t \<noteq> msg_type (msgh st m) then msg_find_type n st t (Some m) (msg_next (msgh st m))
      else Some (Some m, pmp))"

fun msg_find_low :: "nat \<Rightarrow> msgst \<Rightarrow> int \<Rightarrow> ptr \<Rightarrow> ptr \<Rightarrow> ptr \<times> ptr \<Rightarrow> (ptr \<times> ptr) option" where
  "msg_find_low n st lim pmp None best = Some best"
| "msg_find_low 0 st lim pmp (Some m) best = None"
| "msg_find_low (Suc n) st lim pmp (Some m) best =
     msg_find_low n st lim (Some m) (msg_next (msgh st m))
       (if msg_type (msgh st m) \<le> lim \<and>
           \<not> (case fst best of None \<Rightarrow> False | Some b \<Rightarrow> msg_type (msgh st b) \<le> msg_type (msgh st m))
        then (Some m, pmp) else best)"

definition msg_select :: "msginfo \<Rightarrow> msgst \<Rightarrow> nat \<Rightarrow> int \<Rightarrow> (ptr \<times> ptr) option" where
  "msg_select mi st i t =
     (let first = msg_first (msgque st i) in
      if t = 0 then Some (first, None)
      else if t > 0 then msg_find_type (msgtql mi) st t None first
      else msg_find_low (msgtql mi) st (int32 (- t)) None first (None, None))"

definition msg_text :: "msginfo \<Rightarrow> msgst \<Rightarrow> nat \<Rightarrow> nat \<Rightarrow> u8 list" where
  "msg_text mi st m sz = map (\<lambda>k. mpool st (msgssz mi * nat (msg_spot (msgh st m)) + k)) [0..<sz]"

text \<open>Handing the message \<open>m\<close> behind \<open>pm\<close> to the user; the lock is released at the end.\<close>

definition msgrcv_take ::
  "msginfo \<Rightarrow> uarea \<Rightarrow> int \<Rightarrow> msg_umem \<Rightarrow> int \<Rightarrow> int \<Rightarrow> u32 \<Rightarrow> nat \<Rightarrow> nat \<Rightarrow> ptr \<Rightarrow> msgst \<Rightarrow> msgst option" where
  "msgrcv_take mi u time um msgp msgsz flg i m pm st =
     (let ts = msg_ts (msgh st m) in
      if msgsz < ts \<and> flg AND MSG_NOERROR = 0 then Some (set_error E2BIG st)
      else let sz = (if msgsz < ts then msgsz else ts) in
        if \<not> mu_put um msgp then Some (set_error EFAULT st)
        else if sz \<noteq> 0 \<and> \<not> mu_put_text um msgp (nat sz) then Some (set_error EFAULT st)
        else let st1 = st\<lparr>msg_copies := msg_copies st @ [OutMsg msgp (msg_type (msgh st m)) (msg_text mi st m (nat sz))],
                          u_rval1 := sz\<rparr>
             in msgfree mi i pm m (upd_q i (\<lambda>q. q\<lparr>msg_cbytes := uint16 (msg_cbytes q - ts),
                  msg_lrpid := uint16 (u_pid u), msg_rtime := time\<rparr>) st1))"

definition msgrcv_loop :: "msginfo \<Rightarrow> uarea \<Rightarrow> int \<Rightarrow> msg_umem \<Rightarrow> int \<Rightarrow> int \<Rightarrow> int \<Rightarrow> int \<Rightarrow> u32 \<Rightarrow> nat \<Rightarrow>
    msgst \<Rightarrow> (msg_res \<times> msgst) option" where
  "msgrcv_loop mi u time um idn msgp msgsz t flg i st = (case msgconv mi idn st of
     (CvErr, st0) \<Rightarrow> Some (MsgRet, set_error EIDRM st0)
   | (CvBusy j, st0) \<Rightarrow> Some (MsgSleep (MLock j) PcLoop i, st0)
   | (CvOk j, st0) \<Rightarrow>
       if j \<noteq> i then Some (MsgRet, msg_unlock j (set_error EIDRM st0))
       else case msg_select mi st0 i t of
         None \<Rightarrow> None
       | Some (Some m, pm) \<Rightarrow>
           map_option (\<lambda>st1. (MsgRet, msg_unlock i st1)) (msgrcv_take mi u time um msgp msgsz flg i m pm st0)
       | Some (None, pm) \<Rightarrow>
           if flg AND MSG_NOWAIT \<noteq> 0 then Some (MsgRet, msg_unlock i (set_error ENOMSG st0))
           else Some (MsgSleep (MQnum i) PcLoop i, msg_unlock i (upd_mode i (\<lambda>w. w OR MSG_RWAIT) st0)))"

definition msg_counted :: "msgst \<Rightarrow> msgst" where
  "msg_counted st = st\<lparr>msg_count := int32 (msg_count st + 1)\<rparr>"

definition msgrcv_start :: "msginfo \<Rightarrow> uarea \<Rightarrow> int \<Rightarrow> msg_umem \<Rightarrow> int \<Rightarrow> int \<Rightarrow> int \<Rightarrow> int \<Rightarrow> u32 \<Rightarrow>
    msgst \<Rightarrow> (msg_res \<times> msgst) option" where
  "msgrcv_start mi u time um idn msgp msgsz t flg st = (case msgconv mi idn st of
     (CvErr, st0) \<Rightarrow> Some (MsgRet, st0)
   | (CvBusy i, st0) \<Rightarrow> Some (MsgSleep (MLock i) PcConv i, st0)
   | (CvOk i, st0) \<Rightarrow> (case ipcaccess u (msg_perm (msgque st0 i)) MSG_R st0 of
        (True, st1) \<Rightarrow> Some (MsgRet, msg_unlock i st1)
      | (False, st1) \<Rightarrow>
          if msgsz < 0 then Some (MsgRet, msg_unlock i (set_error EINVAL st1))
          else msgrcv_loop mi u time um idn msgp msgsz t flg i (msg_unlock i st1)))"

definition msgrcv :: "msginfo \<Rightarrow> uarea \<Rightarrow> int \<Rightarrow> msg_umem \<Rightarrow> int \<Rightarrow> int \<Rightarrow> int \<Rightarrow> int \<Rightarrow> u32 \<Rightarrow>
    msgst \<Rightarrow> (msg_res \<times> msgst) option" where
  "msgrcv mi u time um idn msgp msgsz t flg st =
     msgrcv_start mi u time um idn msgp msgsz t flg (msg_counted st)"

section \<open>Sending\<close>

text \<open>Writing the text into the buffer.\<close>

definition pool_write :: "nat \<Rightarrow> u8 list \<Rightarrow> (nat \<Rightarrow> u8) \<Rightarrow> nat \<Rightarrow> u8" where
  "pool_write a bs pool k = (if a \<le> k \<and> k < a + length bs then bs ! (k - a) else pool k)"

text \<open>Linking the filled header \<open>m\<close> to the end of the queue.\<close>

definition msg_enqueue :: "uarea \<Rightarrow> int \<Rightarrow> nat \<Rightarrow> nat \<Rightarrow> int \<Rightarrow> int \<Rightarrow> int \<Rightarrow> msgst \<Rightarrow> msgst" where
  "msg_enqueue u time i m type cnt spot st =
     (let st1 = upd_q i (\<lambda>q. q\<lparr>msg_qnum := uint16 (msg_qnum q + 1), msg_cbytes := uint16 (msg_cbytes q + cnt),
            msg_lspid := uint16 (u_pid u), msg_stime := time\<rparr>) st;
          st2 = upd_m m (\<lambda>h. h\<lparr>msg_next := None, msg_type := type, msg_ts := int16 cnt,
            msg_spot := (if cnt \<noteq> 0 then int16 spot else - 1)\<rparr>) st1;
          st3 = (case msg_last (msgque st2 i) of
             None \<Rightarrow> upd_q i (\<lambda>q. q\<lparr>msg_first := Some m, msg_last := Some m\<rparr>) st2
           | Some l \<Rightarrow> upd_q i (\<lambda>q. q\<lparr>msg_last := Some m\<rparr>) (upd_m l (\<lambda>h. h\<lparr>msg_next := Some m\<rparr>) st2));
          st4 = (if ip_mode (msg_perm (msgque st3 i)) AND MSG_RWAIT \<noteq> 0
                 then msg_wakeup (MQnum i) (upd_mode i (\<lambda>w. w AND NOT MSG_RWAIT) st3) else st3)
      in st4\<lparr>u_rval1 := 0\<rparr>)"

text \<open>With the header \<open>m\<close> taken and \<open>spot\<close> allocated (unless the message is empty).\<close>

definition msgsnd_copy :: "msginfo \<Rightarrow> uarea \<Rightarrow> int \<Rightarrow> msg_umem \<Rightarrow> int \<Rightarrow> int \<Rightarrow> int \<Rightarrow> nat \<Rightarrow> nat \<Rightarrow> u32 \<Rightarrow>
    msgst \<Rightarrow> msgst option" where
  "msgsnd_copy mi u time um msgp cnt type i m a st =
     (if cnt \<noteq> 0 then
        let spot = int32 (uint a) - 1; (bs, good) = mu_text um msgp (nat cnt);
            st1 = st\<lparr>mpool := pool_write (msgssz mi * nat spot) bs (mpool st)\<rparr>
        in if good then Some (msg_enqueue u time i m type cnt spot st1)
           else map_option (msg_free_header m) (msg_mfree (btoq mi cnt) (word_of_int (spot + 1)) (set_error EFAULT st1))
      else Some (msg_enqueue u time i m type cnt 0 st))"

definition msgsnd_loop :: "msginfo \<Rightarrow> uarea \<Rightarrow> int \<Rightarrow> msg_umem \<Rightarrow> int \<Rightarrow> int \<Rightarrow> int \<Rightarrow> u32 \<Rightarrow> int \<Rightarrow> nat \<Rightarrow>
    msgst \<Rightarrow> (msg_res \<times> msgst) option" where
  "msgsnd_loop mi u time um idn msgp cnt flg type i st = (case msgconv mi idn st of
     (CvErr, st0) \<Rightarrow> Some (MsgRet, set_error EIDRM st0)
   | (CvBusy j, st0) \<Rightarrow> Some (MsgSleep (MLock j) PcLoop i, st0)
   | (CvOk j, st0) \<Rightarrow>
       if j \<noteq> i then Some (MsgRet, msg_unlock j (set_error EIDRM st0))
       else if cnt + msg_cbytes (msgque st0 i) > msg_qbytes (msgque st0 i) then
         if flg AND MSG_NOWAIT \<noteq> 0 then Some (MsgRet, msg_unlock i (set_error EAGAIN st0))
         else Some (MsgSleep (MQue i) PcLoop i, msg_unlock i (upd_mode i (\<lambda>w. w OR MSG_WWAIT) st0))
       else case msgfp st0 of
         None \<Rightarrow>
           if flg AND MSG_NOWAIT \<noteq> 0 then Some (MsgRet, msg_unlock i (set_error EAGAIN st0))
           else Some (MsgSleep MHdr PcLoop i, msg_unlock i st0)
       | Some m \<Rightarrow>
           let st1 = st0\<lparr>msgfp := msg_next (msgh st0 m)\<rparr> in
           case (if cnt \<noteq> 0 then malloc (msgmap st1) (btoq mi cnt) else Some (0, msgmap st1)) of
             None \<Rightarrow> None
           | Some (a, mp) \<Rightarrow>
               let st2 = st1\<lparr>msgmap := mp\<rparr> in
               if cnt \<noteq> 0 \<and> a = 0 then
                 if flg AND MSG_NOWAIT \<noteq> 0
                 then Some (MsgRet, msg_unlock i (msg_free_header m (set_error EAGAIN st2)))
                 else Some (MsgSleep MMap PcLoop i,
                        msg_unlock i (msg_free_header m (st2\<lparr>msgmap := (msgmap st2)\<lparr>mapwant := mapwant (msgmap st2) + 1\<rparr>\<rparr>)))
               else map_option (\<lambda>st3. (MsgRet, msg_unlock i st3)) (msgsnd_copy mi u time um msgp cnt type i m a st2))"

definition msgsnd_start :: "msginfo \<Rightarrow> uarea \<Rightarrow> int \<Rightarrow> msg_umem \<Rightarrow> int \<Rightarrow> int \<Rightarrow> int \<Rightarrow> u32 \<Rightarrow>
    msgst \<Rightarrow> (msg_res \<times> msgst) option" where
  "msgsnd_start mi u time um idn msgp cnt flg st = (case msgconv mi idn st of
     (CvErr, st0) \<Rightarrow> Some (MsgRet, st0)
   | (CvBusy i, st0) \<Rightarrow> Some (MsgSleep (MLock i) PcConv i, st0)
   | (CvOk i, st0) \<Rightarrow> (case ipcaccess u (msg_perm (msgque st0 i)) MSG_W st0 of
        (True, st1) \<Rightarrow> Some (MsgRet, msg_unlock i st1)
      | (False, st1) \<Rightarrow>
          if cnt < 0 \<or> cnt > msgmax mi then Some (MsgRet, msg_unlock i (set_error EINVAL st1))
          else case mu_type um msgp of
            None \<Rightarrow> Some (MsgRet, msg_unlock i (set_error EFAULT st1))
          | Some type \<Rightarrow>
              if type < 1 then Some (MsgRet, msg_unlock i (set_error EINVAL st1))
              else msgsnd_loop mi u time um idn msgp cnt flg type i (msg_unlock i st1)))"

definition msgsnd :: "msginfo \<Rightarrow> uarea \<Rightarrow> int \<Rightarrow> msg_umem \<Rightarrow> int \<Rightarrow> int \<Rightarrow> int \<Rightarrow> u32 \<Rightarrow>
    msgst \<Rightarrow> (msg_res \<times> msgst) option" where
  "msgsnd mi u time um idn msgp cnt flg st = msgsnd_start mi u time um idn msgp cnt flg (msg_counted st)"

text \<open>
  A signal ends the sleep: \<open>msgrcv\<close> returns at once; \<open>msgsnd\<close> converts the identifier once more, and
  after a sleep for space in the queue passes the wakeup on to the other writers.
\<close>

definition msgrcv_intr :: "msgst \<Rightarrow> msg_res \<times> msgst" where
  "msgrcv_intr st = (MsgRet, set_error EINTR st)"

definition msgsnd_intr :: "msginfo \<Rightarrow> int \<Rightarrow> msgchan \<Rightarrow> nat \<Rightarrow> msgst \<Rightarrow> msg_res \<times> msgst" where
  "msgsnd_intr mi idn ch i st = (case msgconv mi idn (set_error EINTR st) of
     (CvErr, st0) \<Rightarrow> (MsgRet, st0)
   | (CvBusy j, st0) \<Rightarrow> (MsgSleep (MLock j) (PcIntr ch) i, st0)
   | (CvOk j, st0) \<Rightarrow>
       if j \<noteq> i then (MsgRet, msg_unlock j st0)
       else (MsgRet, msg_unlock i
         (if ch = MQue i then msg_wakeup (MQue i) (upd_mode i (\<lambda>w. w AND NOT MSG_WWAIT) st0) else st0)))"

section \<open>The system call\<close>

definition msgsys :: "msginfo \<Rightarrow> uarea \<Rightarrow> int \<Rightarrow> msg_umem \<Rightarrow> nat \<Rightarrow> (nat \<Rightarrow> int) \<Rightarrow> msgst \<Rightarrow>
    (msg_res \<times> msgst) option" where
  "msgsys mi u time um fid a st =
     (if 3 < fid then Some (MsgRet, set_error EINVAL st)
      else if fid = 0 then Some (MsgRet, msgget mi u time (a 0) (word_of_int (a 1)) st)
      else if fid = 1 then msgctl mi u time um (a 0) (a 1) (a 2) st
      else if fid = 2 then msgrcv mi u time um (a 0) (a 1) (a 2) (a 3) (word_of_int (a 4)) st
      else msgsnd mi u time um (a 0) (a 1) (a 2) (word_of_int (a 3)) st)"

end
