(* ===== verification/MsgInv.thy ===== *)
theory MsgInv
  imports Msg
begin

text \<open>
  The invariant of the message tables: the headers are partitioned between the free list and the queues,
  the texts of queued messages occupy disjoint units of the buffer that the map does not count as free,
  and the counters of a queue agree with its list.
\<close>

section \<open>The invariant\<close>

definition mi_ok :: "msginfo \<Rightarrow> bool" where
  "mi_ok mi \<longleftrightarrow> 0 < msgmni mi \<and> msgmni mi < 32768 \<and> 0 < msgtql mi \<and> msgtql mi < 65536 \<and>
     0 < msgssz mi \<and> msgssz mi < 65536 \<and> 0 \<le> msgmax mi \<and> msgmax mi < 32768 \<and> 0 \<le> msgmnb mi \<and> msgmnb mi < 65536 \<and>
     unat (msgseg mi) < 32768 \<and> 2 \<le> unat (mi_msgmap mi)"

abbreviation mnext :: "msgst \<Rightarrow> nat \<Rightarrow> ptr" where
  "mnext st m \<equiv> msg_next (msgh st m)"

text \<open>The lists of headers: the free list \<open>None\<close> and the queues.\<close>

definition mhead :: "msgst \<Rightarrow> nat option \<Rightarrow> ptr" where
  "mhead st c = (case c of None \<Rightarrow> msgfp st | Some i \<Rightarrow> msg_first (msgque st i))"

definition mchains :: "msginfo \<Rightarrow> nat option set" where
  "mchains mi = insert None (Some ` {..< msgmni mi})"

lemma mhead_simps [simp]: "mhead st None = msgfp st" "mhead st (Some i) = msg_first (msgque st i)"
  by (simp_all add: mhead_def)

lemma mchains_in [simp]: "None \<in> mchains mi" "Some i \<in> mchains mi \<longleftrightarrow> i < msgmni mi"
  by (auto simp: mchains_def)

text \<open>The units of the message buffer that hold a message's text.\<close>

definition mblk :: "msginfo \<Rightarrow> msg \<Rightarrow> nat set" where
  "mblk mi h = (if msg_ts h = 0 then {} else block (word_of_int (msg_spot h + 1)) (btoq mi (msg_ts h)))"

definition msg_fit :: "msginfo \<Rightarrow> msg \<Rightarrow> bool" where
  "msg_fit mi h \<longleftrightarrow> 1 \<le> msg_type h \<and> 0 \<le> msg_ts h \<and> msg_ts h \<le> msgmax mi \<and>
     (msg_ts h \<noteq> 0 \<longrightarrow> 0 \<le> msg_spot h \<and> msg_spot h + 1 + int (unat (btoq mi (msg_ts h))) \<le> 32768)"

definition msg_used :: "msginfo \<Rightarrow> (nat option \<Rightarrow> nat list) \<Rightarrow> nat set" where
  "msg_used mi L = (\<Union>i\<in>{..< msgmni mi}. set (L (Some i)))"

definition msg_store :: "msginfo \<Rightarrow> (nat \<Rightarrow> msg) \<Rightarrow> rmap \<Rightarrow> nat set \<Rightarrow> bool" where
  "msg_store mi mh mp U \<longleftrightarrow> rmap_ok mp \<and> free_units mp \<subseteq> {1 ..< 32768} \<and>
     (\<forall>m\<in>U. msg_fit mi (mh m) \<and> mblk mi (mh m) \<inter> free_units mp = {}) \<and>
     (\<forall>m\<in>U. \<forall>n\<in>U. m \<noteq> n \<longrightarrow> mblk mi (mh m) \<inter> mblk mi (mh n) = {})"

definition msg_lists :: "msginfo \<Rightarrow> msgst \<Rightarrow> nat set \<Rightarrow> (nat option \<Rightarrow> nat list) \<Rightarrow> bool" where
  "msg_lists mi st H L \<longleftrightarrow> chains (mnext st) (mhead st) (mchains mi) L H (msgtql mi) \<and>
     (\<forall>i < msgmni mi. msg_last (msgque st i) = lastp None (L (Some i)))"

definition msg_count_ok :: "msgst \<Rightarrow> (nat option \<Rightarrow> nat list) \<Rightarrow> nat \<Rightarrow> bool" where
  "msg_count_ok st L i \<longleftrightarrow> msg_qnum (msgque st i) = int (length (L (Some i))) \<and>
     msg_cbytes (msgque st i) = sum_list (map (\<lambda>m. msg_ts (msgh st m)) (L (Some i))) \<and>
     msg_cbytes (msgque st i) < 65536 \<and> 0 \<le> msg_qbytes (msgque st i) \<and> msg_qbytes (msgque st i) < 65536"

definition msg_perms :: "msgst \<Rightarrow> nat \<Rightarrow> ipc_perm" where
  "msg_perms st i = msg_perm (msgque st i)"

text \<open>Everything but the counters of the queues; \<open>H\<close> are the headers in hand.\<close>

definition msg_core :: "msginfo \<Rightarrow> msgst \<Rightarrow> nat set \<Rightarrow> (nat option \<Rightarrow> nat list) \<Rightarrow> bool" where
  "msg_core mi st H L \<longleftrightarrow> mi_ok mi \<and> msg_lists mi st H L \<and> msg_store mi (msgh st) (msgmap st) (msg_used mi L) \<and>
     keys_unique (msg_perms st) (msgmni mi) \<and>
     (\<forall>i < msgmni mi. \<not> ipc_live (msg_perms st i) \<longrightarrow> L (Some i) = [])"

definition msg_inv :: "msginfo \<Rightarrow> msgst \<Rightarrow> (nat option \<Rightarrow> nat list) \<Rightarrow> bool" where
  "msg_inv mi st L \<longleftrightarrow> msg_core mi st {} L \<and> (\<forall>i < msgmni mi. msg_count_ok st L i)"

lemma msg_coreD:
  assumes "msg_core mi st H L"
  shows "mi_ok mi" "chains (mnext st) (mhead st) (mchains mi) L H (msgtql mi)"
    "i < msgmni mi \<Longrightarrow> msg_last (msgque st i) = lastp None (L (Some i))"
    "msg_store mi (msgh st) (msgmap st) (msg_used mi L)" "keys_unique (msg_perms st) (msgmni mi)"
    "i < msgmni mi \<Longrightarrow> \<not> ipc_live (msg_perms st i) \<Longrightarrow> L (Some i) = []"
  using assms unfolding msg_core_def msg_lists_def by blast+

lemma linked_hdp: "linked nx p as \<Longrightarrow> p = hdp as"
  by (cases as) auto

lemma msg_core_heads:
  assumes "msg_core mi st H L"
  shows "msgfp st = hdp (L None)" "i < msgmni mi \<Longrightarrow> msg_first (msgque st i) = hdp (L (Some i))"
  using linked_hdp [OF chainsD(1) [OF msg_coreD(2) [OF assms], of None]]
    linked_hdp [OF chainsD(1) [OF msg_coreD(2) [OF assms], of "Some i"]] by simp_all

lemma used_simps:
  "i < msgmni mi \<Longrightarrow> msg_used mi (L(Some i := xs)) = set xs \<union> (\<Union>j\<in>{..< msgmni mi} - {i}. set (L (Some j)))"
  "msg_used mi (L(None := xs)) = msg_used mi L"
  "i < msgmni mi \<Longrightarrow> set (L (Some i)) \<subseteq> msg_used mi L"
  by (auto simp: msg_used_def split: if_splits)

section \<open>Sizes in segments\<close>

lemma div_le_self: "0 \<le> x \<Longrightarrow> 0 < n \<Longrightarrow> x div n \<le> (x :: int)"
  using zdiv_mono2 [of x 1 n] by simp

lemma btoq_val:
  assumes "mi_ok mi" "0 \<le> x" "x < 32768"
  shows "int (unat (btoq mi x)) = (x + int (msgssz mi) - 1) div int (msgssz mi)"
proof -
  have s: "0 < int (msgssz mi)" "int (msgssz mi) < 65536" using assms(1) by (simp_all add: mi_ok_def)
  have "(x + int (msgssz mi) - 1) div int (msgssz mi) \<le> x + int (msgssz mi) - 1"
    using s assms by (intro div_le_self) auto
  moreover have "0 \<le> (x + int (msgssz mi) - 1) div int (msgssz mi)" using s assms by (simp add: div_int_pos_iff)
  ultimately show ?thesis using s assms by (simp add: btoq_def uint_word_of_int flip: uint_nat)
qed

lemma btoq_bounds:
  assumes "mi_ok mi" "0 < x" "x < 32768"
  shows "btoq mi x \<noteq> 0" "unat (btoq mi x) < 32768" "x \<le> int (msgssz mi) * int (unat (btoq mi x))"
proof -
  have s: "0 < int (msgssz mi)" using assms(1) by (simp add: mi_ok_def)
  have v: "int (unat (btoq mi x)) = (x + int (msgssz mi) - 1) div int (msgssz mi)"
    using assms by (intro btoq_val) auto
  let ?n = "int (msgssz mi)"
  have e: "(x + ?n - 1) = ?n * ((x + ?n - 1) div ?n) + (x + ?n - 1) mod ?n" by simp
  have m: "0 \<le> (x + ?n - 1) mod ?n" "(x + ?n - 1) mod ?n < ?n" using s by simp_all
  show le: "x \<le> ?n * int (unat (btoq mi x))" unfolding v using e m by linarith
  show "btoq mi x \<noteq> 0"
  proof
    assume "btoq mi x = 0"
    then show False using le assms(2) by simp
  qed
  have "(x + ?n - 1) div ?n = (x - 1) div ?n + 1" using s div_add_self2 [of ?n "x - 1"] by (simp add: algebra_simps)
  moreover have "(x - 1) div ?n \<le> x - 1" using s assms by (intro div_le_self) auto
  ultimately show "unat (btoq mi x) < 32768" using v assms by linarith
qed

section \<open>The message buffer\<close>

definition map_freed :: "rmap \<Rightarrow> rmap \<Rightarrow> bool \<Rightarrow> bool" where
  "map_freed mp mp' w \<longleftrightarrow> (w \<and> mapwant mp' = 0) \<or> (\<not> w \<and> mapwant mp = 0 \<and> mapwant mp' = 0) \<or> (\<not> w \<and> mp' = mp)"

lemma fit_block:
  assumes mi: "mi_ok mi" and f: "msg_fit mi h" "msg_ts h \<noteq> 0"
  shows "word_of_int (msg_spot h + 1) \<noteq> (0 :: u32)" "unat (word_of_int (msg_spot h + 1) :: u32) = nat (msg_spot h + 1)"
    "btoq mi (msg_ts h) \<noteq> 0" "mblk mi h = {nat (msg_spot h + 1) ..< nat (msg_spot h + 1) + unat (btoq mi (msg_ts h))}"
    "nat (msg_spot h + 1) + unat (btoq mi (msg_ts h)) \<le> 32768"
proof -
  have ts: "0 < msg_ts h" "msg_ts h < 32768" using f mi by (auto simp: msg_fit_def mi_ok_def)
  have sp: "0 \<le> msg_spot h" "msg_spot h + 1 + int (unat (btoq mi (msg_ts h))) \<le> 32768" using f by (auto simp: msg_fit_def)
  have sp': "msg_spot h < 32768" using sp(2) by linarith
  show u: "unat (word_of_int (msg_spot h + 1) :: u32) = nat (msg_spot h + 1)"
  proof -
    have "uint (word_of_int (msg_spot h + 1) :: u32) = msg_spot h + 1" unfolding uint_word_of_int using sp(1) sp' by simp
    then show ?thesis by (metis nat_uint_eq)
  qed
  show "btoq mi (msg_ts h) \<noteq> 0" by (rule btoq_bounds(1) [OF mi ts])
  show "word_of_int (msg_spot h + 1) \<noteq> (0 :: u32)"
  proof
    assume "word_of_int (msg_spot h + 1) = (0 :: u32)"
    then have "nat (msg_spot h + 1) = 0" unfolding u [symmetric] by simp
    then show False using sp by simp
  qed
  show "mblk mi h = {nat (msg_spot h + 1) ..< nat (msg_spot h + 1) + unat (btoq mi (msg_ts h))}"
    using f(2) unfolding mblk_def block_def u by simp
  show "nat (msg_spot h + 1) + unat (btoq mi (msg_ts h)) \<le> 32768" using sp by linarith
qed

lemma fit_units: "mi_ok mi \<Longrightarrow> msg_fit mi h \<Longrightarrow> mblk mi h \<subseteq> {1 ..< 32768}"
  using fit_block [of mi h] by (cases "msg_ts h = 0") (auto simp: mblk_def [of mi h] msg_fit_def)

lemma msg_storeD:
  assumes "msg_store mi mh mp U"
  shows "rmap_ok mp" "free_units mp \<subseteq> {1 ..< 32768}" "m \<in> U \<Longrightarrow> msg_fit mi (mh m)"
    "m \<in> U \<Longrightarrow> mblk mi (mh m) \<inter> free_units mp = {}"
    "m \<in> U \<Longrightarrow> n \<in> U \<Longrightarrow> m \<noteq> n \<Longrightarrow> mblk mi (mh m) \<inter> mblk mi (mh n) = {}"
  using assms unfolding msg_store_def by blast+

lemma msg_store_subset: "msg_store mi mh mp U \<Longrightarrow> V \<subseteq> U \<Longrightarrow> msg_store mi mh mp V"
  unfolding msg_store_def by blast

text \<open>The store looks only at the contents of the messages, not at their links.\<close>

definition same_body :: "msg \<Rightarrow> msg \<Rightarrow> bool" where
  "same_body h h' \<longleftrightarrow> msg_type h' = msg_type h \<and> msg_ts h' = msg_ts h \<and> msg_spot h' = msg_spot h"

lemma same_body_fit: "same_body h h' \<Longrightarrow> msg_fit mi h' = msg_fit mi h" "same_body h h' \<Longrightarrow> mblk mi h' = mblk mi h"
  by (simp_all add: same_body_def msg_fit_def mblk_def)

lemma same_body_next [simp]: "same_body h (h\<lparr>msg_next := a\<rparr>)" "same_body h h"
  by (simp_all add: same_body_def)

lemma msg_store_cong:
  assumes "msg_store mi mh mp U" "\<And>m. m \<in> U \<Longrightarrow> same_body (mh m) (mh' m)"
  shows "msg_store mi mh' mp U"
  using assms same_body_fit [of "mh m" "mh' m" for m] unfolding msg_store_def by simp

lemma release_text:
  assumes mi: "mi_ok mi" and s: "msg_store mi mh mp U" and m: "m \<in> U" "msg_ts (mh m) \<noteq> 0"
  shows "\<exists>mp' w. (mfree mp (btoq mi (msg_ts (mh m))) (word_of_int (msg_spot (mh m) + 1)) = Some (MFreed mp' w) \<or>
       mfree mp (btoq mi (msg_ts (mh m))) (word_of_int (msg_spot (mh m) + 1)) = Some (MLost mp) \<and> mp' = mp \<and> \<not> w) \<and>
     msg_store mi mh mp' (U - {m}) \<and> map_freed mp mp' w"
proof -
  let ?n = "btoq mi (msg_ts (mh m))" and ?a = "word_of_int (msg_spot (mh m) + 1) :: u32"
  note F = fit_block [OF mi msg_storeD(3) [OF s m(1)] m(2)]
  have b: "block ?a ?n = mblk mi (mh m)" by (simp add: mblk_def m(2))
  have "unat ?a + unat ?n < 2 ^ 32" using F(2,5) by simp
  then consider mp' where "mfree mp ?n ?a = Some (MFreed mp' (mapwant mp \<noteq> 0))" "rmap_ok mp'"
      "free_units mp' = free_units mp \<union> mblk mi (mh m)" "mapwant mp' = 0"
    | "mfree mp ?n ?a = Some (MLost mp)"
    using mfree_contract [OF msg_storeD(1) [OF s] F(3,1)] msg_storeD(4) [OF s m(1)] b by auto
  then show ?thesis
  proof cases
    case 1
    have "free_units mp' \<subseteq> {1 ..< 32768}" using 1(3) msg_storeD(2) [OF s] fit_units [OF mi msg_storeD(3) [OF s m(1)]] by blast
    moreover have "mblk mi (mh k) \<inter> free_units mp' = {}" if k: "k \<in> U - {m}" for k
      using 1(3) msg_storeD(4,5) [OF s, of k] k m(1) by auto
    ultimately have "msg_store mi mh mp' (U - {m})" using 1(2) s unfolding msg_store_def by simp
    moreover have "map_freed mp mp' (mapwant mp \<noteq> 0)" using 1(4) by (simp add: map_freed_def)
    ultimately show ?thesis using 1(1) by blast
  next
    case 2
    moreover have "msg_store mi mh mp (U - {m})" by (rule msg_store_subset [OF s]) blast
    moreover have "map_freed mp mp False" by (simp add: map_freed_def)
    ultimately show ?thesis by blast
  qed
qed

lemma msg_mfree_ok:
  assumes mi: "mi_ok mi" and s: "msg_store mi mh (msgmap st) U" and m: "m \<in> U" "msg_ts (mh m) \<noteq> 0"
  obtains mp w where "msg_mfree (btoq mi (msg_ts (mh m))) (word_of_int (msg_spot (mh m) + 1)) st =
      Some (st\<lparr>msgmap := mp, msg_wakes := msg_wakes st @ (if w then [MMap] else [])\<rparr>)"
    "msg_store mi mh mp (U - {m})" "map_freed (msgmap st) mp w"
proof -
  from release_text [OF mi s m] obtain mp w where
    f: "mfree (msgmap st) (btoq mi (msg_ts (mh m))) (word_of_int (msg_spot (mh m) + 1)) = Some (MFreed mp w) \<or>
        mfree (msgmap st) (btoq mi (msg_ts (mh m))) (word_of_int (msg_spot (mh m) + 1)) = Some (MLost (msgmap st)) \<and>
          mp = msgmap st \<and> \<not> w" and r: "msg_store mi mh mp (U - {m})" "map_freed (msgmap st) mp w"
    by blast
  have "msg_mfree (btoq mi (msg_ts (mh m))) (word_of_int (msg_spot (mh m) + 1)) st =
      Some (st\<lparr>msgmap := mp, msg_wakes := msg_wakes st @ (if w then [MMap] else [])\<rparr>)"
    using f by (auto simp: msg_mfree_def)
  with r that show ?thesis by blast
qed

end
