(* ===== verification/MsgFree.thy ===== *)
theory MsgFree
  imports MsgInv
begin

text \<open>
  Taking a message off its queue and giving its text and header back: \<open>msgfree\<close> always ends, keeps the
  tables well-formed and wakes whoever waits for what it sets free; so does emptying a whole queue.
\<close>

section \<open>Taking a message off its queue\<close>

definition qcut :: "ptr \<Rightarrow> ptr \<Rightarrow> msqid_ds \<Rightarrow> msqid_ds" where
  "qcut pm nx q = q\<lparr>msg_first := (if pm = None then nx else msg_first q), msg_last := (if nx = None then pm else msg_last q),
     msg_qnum := uint16 (msg_qnum q - 1), msg_perm := (msg_perm q)\<lparr>ip_mode := ip_mode (msg_perm q) AND NOT MSG_WWAIT\<rparr>\<rparr>"

definition mcut :: "ptr \<Rightarrow> ptr \<Rightarrow> (nat \<Rightarrow> msg) \<Rightarrow> nat \<Rightarrow> msg" where
  "mcut pm nx mh = (case pm of None \<Rightarrow> mh | Some p \<Rightarrow> mh(p := (mh p)\<lparr>msg_next := nx\<rparr>))"

abbreviation wwait :: "msgst \<Rightarrow> nat \<Rightarrow> bool" where
  "wwait st i \<equiv> ip_mode (msg_perm (msgque st i)) AND MSG_WWAIT \<noteq> 0"

abbreviation rwait :: "msgst \<Rightarrow> nat \<Rightarrow> bool" where
  "rwait st i \<equiv> ip_mode (msg_perm (msgque st i)) AND MSG_RWAIT \<noteq> 0"

definition munlink :: "nat \<Rightarrow> ptr \<Rightarrow> nat \<Rightarrow> msgst \<Rightarrow> msgst" where
  "munlink i pm m st = st\<lparr>msgque := (msgque st)(i := qcut pm (mnext st m) (msgque st i)),
     msgh := mcut pm (mnext st m) (msgh st), msg_wakes := msg_wakes st @ (if wwait st i then [MQue i] else [])\<rparr>"

lemma mask_absent:
  assumes "(w :: u16) AND b = 0"
  shows "w AND NOT b = w"
proof (rule bit_word_eqI)
  fix n assume n: "n < LENGTH(16)"
  have "bit (w AND b) n = bit (0 :: u16) n" using assms by simp
  then show "bit (w AND NOT b) n = bit w n" using n by (auto simp: bit_simps)
qed

lemma msgfree_eq:
  assumes "pm \<noteq> Some m"
  shows "msgfree mi i pm m st = map_option (msg_free_header m)
    (if msg_ts (msgh st m) \<noteq> 0
     then msg_mfree (btoq mi (msg_ts (msgh st m))) (word_of_int (msg_spot (msgh st m) + 1)) (munlink i pm m st)
     else Some (munlink i pm m st))"
proof -
  define st1 where "st1 = (case pm of None \<Rightarrow> upd_q i (\<lambda>q. q\<lparr>msg_first := mnext st m\<rparr>) st
                 | Some p \<Rightarrow> upd_m p (\<lambda>h. h\<lparr>msg_next := mnext st m\<rparr>) st)"
  define st2 where "st2 = (if mnext st1 m = None then upd_q i (\<lambda>q. q\<lparr>msg_last := pm\<rparr>) st1 else st1)"
  define st3 where "st3 = upd_q i (\<lambda>q. q\<lparr>msg_qnum := uint16 (msg_qnum q - 1)\<rparr>) st2"
  define st4 where "st4 = (if wwait st3 i then msg_wakeup (MQue i) (upd_mode i (\<lambda>w. w AND NOT MSG_WWAIT) st3) else st3)"
  have e: "msgfree mi i pm m st = map_option (msg_free_header m)
           (if msg_ts (msgh st4 m) \<noteq> 0
            then msg_mfree (btoq mi (msg_ts (msgh st4 m))) (word_of_int (msg_spot (msgh st4 m) + 1)) st4
            else Some st4)"
    unfolding msgfree_def Let_def st4_def st3_def st2_def st1_def by (rule refl)
  have "msgh st1 m = msgh st m" using assms by (auto simp: st1_def split: option.splits)
  then have m: "msgh st4 m = msgh st m" by (simp add: st4_def st3_def st2_def)
  have "st4 = munlink i pm m st"
    using assms unfolding st4_def st3_def st2_def st1_def
    by (cases pm) (auto intro!: msgst.equality simp: munlink_def qcut_def mcut_def mask_absent)
  then show ?thesis unfolding e m by simp
qed

lemma msg_free_header_eq:
  "msg_free_header m st = st\<lparr>msgh := (msgh st)(m := (msgh st m)\<lparr>msg_next := msgfp st\<rparr>), msgfp := Some m,
     msg_wakes := msg_wakes st @ (if msgfp st = None then [MHdr] else [])\<rparr>"
  by (simp add: msg_free_header_def Let_def)

lemma msg_listsD:
  assumes "msg_lists mi st H L"
  shows "chains (mnext st) (mhead st) (mchains mi) L H (msgtql mi)"
    "i < msgmni mi \<Longrightarrow> msg_last (msgque st i) = lastp None (L (Some i))"
  using assms by (simp_all add: msg_lists_def)

lemma keys_unique_mono:
  "keys_unique b n \<Longrightarrow> (\<And>j. j < n \<Longrightarrow> ipc_live (b' j) \<Longrightarrow> ipc_live (b j) \<and> ip_key (b' j) = ip_key (b j)) \<Longrightarrow> keys_unique b' n"
  unfolding keys_unique_def by (metis (no_types, lifting))

lemma msg_lists_cong:
  assumes "\<And>m. mnext st' m = mnext st m" "msgfp st' = msgfp st"
    "\<And>i. msg_first (msgque st' i) = msg_first (msgque st i) \<and> msg_last (msgque st' i) = msg_last (msgque st i)"
  shows "msg_lists mi st' H L = msg_lists mi st H L"
proof -
  have "mhead st' = mhead st" using assms by (auto simp: fun_eq_iff mhead_def split: option.split)
  then show ?thesis using assms by (simp add: msg_lists_def)
qed

lemma lists_hdp:
  assumes "msg_lists mi st H L"
  shows "msgfp st = hdp (L None)" "i < msgmni mi \<Longrightarrow> msg_first (msgque st i) = hdp (L (Some i))"
  using linked_hdp [OF chainsD(1) [OF msg_listsD(1) [OF assms], of None]]
    linked_hdp [OF chainsD(1) [OF msg_listsD(1) [OF assms], of "Some i"]] by simp_all

lemma munlink_lists:
  assumes l: "msg_lists mi st {} L" and i: "i < msgmni mi" and L: "L (Some i) = xs @ m # ys"
  shows "msg_lists mi (munlink i (lastp None xs) m st) {m} (L(Some i := xs @ ys))"
proof -
  note C = msg_listsD(1) [OF l]
  have iD: "Some i \<in> mchains mi" using i by simp
  have ml: "linked (mnext st) (msg_first (msgque st i)) (xs @ m # ys)" using chainsD(1) [OF C iD] L by simp
  have mn: "mnext st m = hdp ys" using linked_suffix [OF ml] by (simp add: linked_hdp)
  then have mn0: "mnext st m = None \<longleftrightarrow> ys = []" by simp
  have dis: "distinct (xs @ m # ys)" by (rule linked_distinct [OF ml])
  have hp: "mhead (munlink i (lastp None xs) m st) c = mhead st c" if "c \<noteq> Some i \<or> xs \<noteq> []" for c
    using that by (cases c) (auto simp: munlink_def qcut_def lastp_def)
  have "chains (mnext (munlink i (lastp None xs) m st)) (mhead (munlink i (lastp None xs) m st)) (mchains mi)
      (L(Some i := xs @ ys)) {m} (msgtql mi)"
  proof (cases xs rule: rev_cases)
    case Nil
    have "chains (mnext st) (mhead (munlink i (lastp None xs) m st)) (mchains mi) (L(Some i := ys)) (insert m {}) (msgtql mi)"
      by (rule chains_pop [OF C iD]) (use L Nil hp in \<open>auto simp: munlink_def qcut_def\<close>)
    then show ?thesis using Nil by (simp add: munlink_def mcut_def)
  next
    case (snoc zs p)
    have "chains (mnext (munlink i (lastp None xs) m st)) (mhead st) (mchains mi) (L(Some i := zs @ p # ys)) (insert m {}) (msgtql mi)"
      by (rule chains_unlink [OF C iD, of zs p m ys]) (use L snoc in \<open>auto simp: munlink_def mcut_def\<close>)
    moreover have "mhead (munlink i (lastp None xs) m st) = mhead st" using hp snoc by (simp add: fun_eq_iff)
    ultimately show ?thesis using snoc by simp
  qed
  moreover have "msg_last (msgque (munlink i (lastp None xs) m st) i) = lastp None (xs @ ys)"
    using msg_listsD(2) [OF l i] L mn0 by (cases "ys = []") (auto simp: munlink_def qcut_def lastp_def)
  ultimately show ?thesis using msg_listsD(2) [OF l] by (auto simp: msg_lists_def munlink_def)
qed

lemma free_header_lists:
  assumes l: "msg_lists mi st H L" and m: "m \<in> H"
  shows "msg_lists mi (msg_free_header m st) (H - {m}) (L(None := m # L None))"
proof -
  have "mhead (msg_free_header m st) c = (if c = None then Some m else mhead st c)" for c
    by (cases c) (simp_all add: msg_free_header_eq)
  then have "chains (mnext (msg_free_header m st)) (mhead (msg_free_header m st)) (mchains mi) (L(None := m # L None)) (H - {m}) (msgtql mi)"
    by (intro chains_push [OF msg_listsD(1) [OF l] _ m]) (auto simp: msg_free_header_eq)
  then show ?thesis using msg_listsD(2) [OF l] by (simp add: msg_lists_def msg_free_header_eq)
qed

section \<open>What sleepers rely on\<close>

text \<open>
  A step keeps what the sleepers of a channel wait for as it is, or wakes the channel: no new type of
  message arrives in a queue with waiting readers, the wait flags stay set, no header or unit becomes free.
\<close>

definition mtypes :: "msgst \<Rightarrow> nat list \<Rightarrow> int set" where
  "mtypes st xs = (\<lambda>m. msg_type (msgh st m)) ` set xs"

definition same_id :: "msgst \<Rightarrow> msgst \<Rightarrow> nat \<Rightarrow> bool" where
  "same_id st st' i \<longleftrightarrow> (ipc_live (msg_perms st i) \<longrightarrow> ipc_live (msg_perms st' i) \<and> ip_seq (msg_perms st' i) = ip_seq (msg_perms st i))"

definition msg_quiet :: "msginfo \<Rightarrow> msgst \<Rightarrow> (nat option \<Rightarrow> nat list) \<Rightarrow> msgst \<Rightarrow> (nat option \<Rightarrow> nat list) \<Rightarrow> msgchan set \<Rightarrow> bool" where
  "msg_quiet mi st L st' L' W \<longleftrightarrow>
     (\<forall>i < msgmni mi. ipc_live (msg_perms st i) \<and> rwait st i \<longrightarrow> MQnum i \<in> W \<or>
        rwait st' i \<and> same_id st st' i \<and> mtypes st' (L' (Some i)) \<subseteq> mtypes st (L (Some i))) \<and>
     (\<forall>i < msgmni mi. ipc_live (msg_perms st i) \<and> wwait st i \<longrightarrow> MQue i \<in> W \<or> wwait st' i \<and> same_id st st' i) \<and>
     (msgfp st = None \<longrightarrow> MHdr \<in> W \<or> msgfp st' = None) \<and>
     (mapwant (msgmap st) \<noteq> 0 \<longrightarrow> MMap \<in> W \<or>
        mapwant (msgmap st') \<noteq> 0 \<and> free_units (msgmap st') \<subseteq> free_units (msgmap st))"

lemma msg_quietD:
  assumes "msg_quiet mi st L st' L' W"
  shows "i < msgmni mi \<Longrightarrow> ipc_live (msg_perms st i) \<Longrightarrow> rwait st i \<Longrightarrow> MQnum i \<notin> W \<Longrightarrow>
        rwait st' i \<and> same_id st st' i \<and> mtypes st' (L' (Some i)) \<subseteq> mtypes st (L (Some i))"
    "i < msgmni mi \<Longrightarrow> ipc_live (msg_perms st i) \<Longrightarrow> wwait st i \<Longrightarrow> MQue i \<notin> W \<Longrightarrow> wwait st' i \<and> same_id st st' i"
    "msgfp st = None \<Longrightarrow> MHdr \<notin> W \<Longrightarrow> msgfp st' = None"
    "mapwant (msgmap st) \<noteq> 0 \<Longrightarrow> MMap \<notin> W \<Longrightarrow>
       mapwant (msgmap st') \<noteq> 0 \<and> free_units (msgmap st') \<subseteq> free_units (msgmap st)"
  using assms unfolding msg_quiet_def by blast+

lemma same_id_trans: "same_id st st' i \<Longrightarrow> same_id st' st'' i \<Longrightarrow> same_id st st'' i"
  by (simp add: same_id_def)

lemma msg_quiet_trans:
  assumes a: "msg_quiet mi st L st' L' V" and b: "msg_quiet mi st' L' st'' L'' W"
  shows "msg_quiet mi st L st'' L'' (V \<union> W)"
proof -
  note A = msg_quietD [OF a] and B = msg_quietD [OF b]
  show ?thesis unfolding msg_quiet_def
  proof (intro conjI allI impI)
    fix i assume i: "i < msgmni mi" and l: "ipc_live (msg_perms st i) \<and> rwait st i"
    then show "MQnum i \<in> V \<union> W \<or> rwait st'' i \<and> same_id st st'' i \<and> mtypes st'' (L'' (Some i)) \<subseteq> mtypes st (L (Some i))"
      using A(1) [OF i] l B(1) [OF i] same_id_trans [of st st' i st''] unfolding same_id_def by blast
  next
    fix i assume i: "i < msgmni mi" and l: "ipc_live (msg_perms st i) \<and> wwait st i"
    then show "MQue i \<in> V \<union> W \<or> wwait st'' i \<and> same_id st st'' i"
      using A(2) [OF i] l B(2) [OF i] same_id_trans [of st st' i st''] unfolding same_id_def by blast
  next
    assume "msgfp st = None"
    then show "MHdr \<in> V \<union> W \<or> msgfp st'' = None" using A(3) B(3) by (cases "MHdr \<in> V"; cases "MHdr \<in> W") simp_all
  next
    show "mapwant (msgmap st) \<noteq> 0 \<Longrightarrow> MMap \<in> V \<union> W \<or>
        mapwant (msgmap st'') \<noteq> 0 \<and> free_units (msgmap st'') \<subseteq> free_units (msgmap st)" using A(4) B(4) by (meson UnCI order_trans)
  qed
qed

lemma msg_quiet_same:
  "msgque st' = msgque st \<Longrightarrow> msgh st' = msgh st \<Longrightarrow> msgfp st' = msgfp st \<Longrightarrow> msgmap st' = msgmap st \<Longrightarrow> msg_quiet mi st L st' L W"
  by (simp add: msg_quiet_def same_id_def msg_perms_def mtypes_def)

text \<open>The result of \<open>msgfree\<close>.\<close>

definition msg_freed :: "nat \<Rightarrow> ptr \<Rightarrow> nat \<Rightarrow> rmap \<Rightarrow> bool \<Rightarrow> msgst \<Rightarrow> msgst" where
  "msg_freed i pm m mp w st = st\<lparr>msgque := (msgque st)(i := qcut pm (mnext st m) (msgque st i)),
     msgh := (mcut pm (mnext st m) (msgh st))(m := (msgh st m)\<lparr>msg_next := msgfp st\<rparr>), msgfp := Some m, msgmap := mp,
     msg_wakes := msg_wakes st @ (if wwait st i then [MQue i] else []) @ (if w then [MMap] else []) @
       (if msgfp st = None then [MHdr] else [])\<rparr>"

definition freed_wakes :: "nat \<Rightarrow> bool \<Rightarrow> msgst \<Rightarrow> msgchan set" where
  "freed_wakes i w st = (if wwait st i then {MQue i} else {}) \<union> (if w then {MMap} else {}) \<union> (if msgfp st = None then {MHdr} else {})"

lemma freed_body: "pm \<noteq> Some m \<Longrightarrow> same_body (msgh st n) (msgh (msg_freed i pm m mp w st) n)"
  by (auto simp: msg_freed_def mcut_def same_body_def split: option.splits)

lemma msg_core_used:
  assumes "msg_core mi st {} L" "i < msgmni mi" "L (Some i) = xs @ m # ys"
  shows "m \<in> msg_used mi L" "msg_used mi (L(Some i := xs @ ys, None := zs)) = msg_used mi L - {m}" "lastp None xs \<noteq> Some m"
    "m < msgtql mi" "distinct (xs @ m # ys)"
proof -
  note C = msg_coreD(2) [OF assms(1)]
  have iD: "Some i \<in> mchains mi" using assms(2) by simp
  show d: "distinct (xs @ m # ys)" using chains_distinct [OF C iD] assms(3) by simp
  show "m \<in> msg_used mi L" using used_simps(3) [OF assms(2), of L] assms(3) by auto
  have apart: "m \<notin> set (L (Some j))" if "j < msgmni mi" "j \<noteq> i" for j
    using chainsD(2) [OF C, of "Some j" "Some i" m] that assms(2,3) by auto
  show "msg_used mi (L(Some i := xs @ ys, None := zs)) = msg_used mi L - {m}"
  proof -
    have "msg_used mi (L(Some i := M)) = set M \<union> (\<Union>j\<in>{..< msgmni mi} - {i}. set (L (Some j)))" for M
      by (rule used_simps(1) [OF assms(2)])
    from this [of "xs @ ys"] this [of "L (Some i)", unfolded fun_upd_triv]
    show ?thesis unfolding used_simps(2) using apart d assms(3) by auto
  qed
  show "lastp None xs \<noteq> Some m" using d by (cases xs rule: rev_cases) auto
  show "m < msgtql mi" using chainsD(4) [OF C iD, of m] assms(3) by simp
qed

lemma mode_flags [simp]:
  fixes w v :: u16
  shows "(w AND NOT MSG_WWAIT) AND MSG_RWAIT = w AND MSG_RWAIT" "(w AND NOT MSG_WWAIT) AND IPC_ALLOC = w AND IPC_ALLOC"
    "(w AND NOT MSG_WWAIT) AND MSG_WWAIT = 0"
    "(w AND NOT MSG_RWAIT) AND MSG_WWAIT = w AND MSG_WWAIT" "(w AND NOT MSG_RWAIT) AND IPC_ALLOC = w AND IPC_ALLOC"
    "(w AND NOT MSG_RWAIT) AND MSG_RWAIT = 0"
    "(w OR MSG_RWAIT) AND MSG_WWAIT = w AND MSG_WWAIT" "(w OR MSG_RWAIT) AND IPC_ALLOC = w AND IPC_ALLOC"
    "(w OR MSG_RWAIT) AND MSG_RWAIT = MSG_RWAIT" "(w OR MSG_WWAIT) AND MSG_RWAIT = w AND MSG_RWAIT"
    "(w OR MSG_WWAIT) AND IPC_ALLOC = w AND IPC_ALLOC" "(w OR MSG_WWAIT) AND MSG_WWAIT = MSG_WWAIT"
    "(w AND - 512 OR v AND 511) AND MSG_RWAIT = w AND MSG_RWAIT"
    "(w AND - 512 OR v AND 511) AND MSG_WWAIT = w AND MSG_WWAIT"
    "(w AND - 512 OR v AND 511) AND IPC_ALLOC = w AND IPC_ALLOC"
  by (simp_all add: MSG_RWAIT_def MSG_WWAIT_def IPC_ALLOC_def and.assoc bit.conj_disj_distrib2)

lemma mode_flags_nonzero [simp]: "MSG_RWAIT \<noteq> 0" "MSG_WWAIT \<noteq> 0"
  by (simp_all add: MSG_RWAIT_def MSG_WWAIT_def)

lemma unlink_flags [simp]:
  "wwait (munlink i pm m st) j \<longleftrightarrow> j \<noteq> i \<and> wwait st j" "rwait (munlink i pm m st) j \<longleftrightarrow> rwait st j"
  "ipc_live (msg_perms (munlink i pm m st) j) \<longleftrightarrow> ipc_live (msg_perms st j)"
  by (auto simp: munlink_def qcut_def msg_perms_def)

lemma msgfree_ok:
  assumes core: "msg_core mi st {} L" and i: "i < msgmni mi" and L: "L (Some i) = xs @ m # ys"
  obtains mp w where "msgfree mi i (lastp None xs) m st = Some (msg_freed i (lastp None xs) m mp w st)"
    "msg_core mi (msg_freed i (lastp None xs) m mp w st) {} (L(Some i := xs @ ys, None := m # L None))"
    "msg_quiet mi st L (msg_freed i (lastp None xs) m mp w st) (L(Some i := xs @ ys, None := m # L None)) (freed_wakes i w st)"
    "map_freed (msgmap st) mp w"
proof -
  let ?u = "munlink i (lastp None xs) m st"
  note D = msg_coreD [OF core] and U = msg_core_used [OF core i L]
  have ul: "msg_lists mi ?u {m} (L(Some i := xs @ ys))"
    by (rule munlink_lists) (use core i L in \<open>simp_all add: msg_core_def\<close>)
  have mm: "msgh ?u m = msgh st m" using U(3) by (auto simp: munlink_def mcut_def split: option.splits)
  have "\<exists>mp w. msgfree mi i (lastp None xs) m st = Some (msg_freed i (lastp None xs) m mp w st) \<and>
      msg_store mi (msgh st) mp (msg_used mi L - {m}) \<and> map_freed (msgmap st) mp w"
  proof (cases "msg_ts (msgh st m) = 0")
    case True
    have "msgfree mi i (lastp None xs) m st = Some (msg_freed i (lastp None xs) m (msgmap st) False st)"
      unfolding msgfree_eq [OF U(3)] using True mm
      by (auto simp: msg_free_header_eq munlink_def msg_freed_def)
    moreover have "msg_store mi (msgh st) (msgmap st) (msg_used mi L - {m})" by (rule msg_store_subset [OF D(4)]) blast
    moreover have "map_freed (msgmap st) (msgmap st) False" by (simp add: map_freed_def)
    ultimately show ?thesis by blast
  next
    case False
    have s: "msg_store mi (msgh st) (msgmap ?u) (msg_used mi L)" using D(4) by (simp add: munlink_def)
    obtain mp w where mp: "msg_mfree (btoq mi (msg_ts (msgh st m))) (word_of_int (msg_spot (msgh st m) + 1)) ?u =
        Some (?u\<lparr>msgmap := mp, msg_wakes := msg_wakes ?u @ (if w then [MMap] else [])\<rparr>)"
      "msg_store mi (msgh st) mp (msg_used mi L - {m})" "map_freed (msgmap ?u) mp w"
      by (rule msg_mfree_ok [OF D(1) s U(1) False])
    have "msgfree mi i (lastp None xs) m st = Some (msg_freed i (lastp None xs) m mp w st)"
      unfolding msgfree_eq [OF U(3)] mp(1) using False mm
      by (auto simp: msg_free_header_eq munlink_def msg_freed_def)
    moreover have "map_freed (msgmap st) mp w" using mp(3) by (simp add: munlink_def)
    ultimately show ?thesis using mp(2) by blast
  qed
  then obtain mp w where f: "msgfree mi i (lastp None xs) m st = Some (msg_freed i (lastp None xs) m mp w st)"
    and s: "msg_store mi (msgh st) mp (msg_used mi L - {m})" and w: "map_freed (msgmap st) mp w" by blast
  let ?s = "msg_freed i (lastp None xs) m mp w st" and ?L = "L(Some i := xs @ ys, None := m # L None)"
  have l: "msg_lists mi ?s {} ?L"
  proof -
    have "msg_lists mi (msg_free_header m ?u) ({m} - {m}) ((L(Some i := xs @ ys))(None := m # (L(Some i := xs @ ys)) None))"
      by (rule free_header_lists [OF ul]) simp
    moreover have "msg_lists mi ?s {} K = msg_lists mi (msg_free_header m ?u) {} K" for K
      by (rule msg_lists_cong) (use mm in \<open>simp_all add: msg_freed_def msg_free_header_eq munlink_def\<close>)
    ultimately show ?thesis by simp
  qed
  have perm: "msg_perms ?s j = (msg_perms st j)\<lparr>ip_mode := (if j = i then ip_mode (msg_perms st j) AND NOT MSG_WWAIT
      else ip_mode (msg_perms st j))\<rparr>" for j
    by (simp add: msg_perms_def msg_freed_def qcut_def)
  have "keys_unique (msg_perms ?s) (msgmni mi)" by (rule keys_unique_mono [OF D(5)]) (simp add: perm split: if_splits)
  moreover have "msg_store mi (msgh ?s) (msgmap ?s) (msg_used mi ?L)"
  proof -
    have "msgmap ?s = mp" by (simp add: msg_freed_def)
    then show ?thesis unfolding U(2) using msg_store_cong [OF s freed_body [OF U(3)]] by simp
  qed
  moreover have "\<forall>j < msgmni mi. \<not> ipc_live (msg_perms ?s j) \<longrightarrow> ?L (Some j) = []"
    using D(6) L by (auto simp: perm split: if_splits)
  ultimately have core': "msg_core mi ?s {} ?L" using l D(1) unfolding msg_core_def by blast
  have id: "same_id st ?s j" for j by (simp add: same_id_def perm)
  have ty: "mtypes ?s (?L (Some j)) \<subseteq> mtypes st (L (Some j))" for j
    using freed_body [OF U(3), of st _ i mp w] L by (auto simp: mtypes_def same_body_def)
  have flags: "rwait ?s j = rwait st j" "wwait ?s j \<longleftrightarrow> j \<noteq> i \<and> wwait st j" for j
    by (auto simp: msg_freed_def qcut_def)
  have "msg_quiet mi st L ?s ?L (freed_wakes i w st)"
    unfolding msg_quiet_def
  proof (intro conjI allI impI)
    fix j assume "ipc_live (msg_perms st j) \<and> rwait st j"
    then show "MQnum j \<in> freed_wakes i w st \<or> rwait ?s j \<and> same_id st ?s j \<and> mtypes ?s (?L (Some j)) \<subseteq> mtypes st (L (Some j))"
      using id ty unfolding flags by blast
  next
    fix j assume "ipc_live (msg_perms st j) \<and> wwait st j"
    then show "MQue j \<in> freed_wakes i w st \<or> wwait ?s j \<and> same_id st ?s j"
      using id unfolding flags by (auto simp: freed_wakes_def)
  next
    assume "msgfp st = None"
    then show "MHdr \<in> freed_wakes i w st \<or> msgfp ?s = None" by (simp add: freed_wakes_def)
  next
    assume a: "mapwant (msgmap st) \<noteq> 0"
    have "msgmap ?s = mp" by (simp add: msg_freed_def)
    then show "MMap \<in> freed_wakes i w st \<or> mapwant (msgmap ?s) \<noteq> 0 \<and> free_units (msgmap ?s) \<subseteq> free_units (msgmap st)"
      using w a by (auto simp: map_freed_def freed_wakes_def)
  qed
  from that [OF f core' this w] show ?thesis .
qed

section \<open>Emptying a queue\<close>

text \<open>What freeing messages of queue \<open>i\<close> leaves alone.\<close>

definition msg_keeps :: "nat \<Rightarrow> msgst \<Rightarrow> msgst \<Rightarrow> bool" where
  "msg_keeps i st st' \<longleftrightarrow> u_error st' = u_error st \<and> u_rval1 st' = u_rval1 st \<and> u_asu st' = u_asu st \<and>
     mpool st' = mpool st \<and> msglock st' = msglock st \<and> msg_copies st' = msg_copies st \<and> msg_count st' = msg_count st \<and>
     (\<forall>j. j \<noteq> i \<longrightarrow> msgque st' j = msgque st j) \<and> (\<forall>m. same_body (msgh st m) (msgh st' m)) \<and>
     (mapwant (msgmap st') = 0 \<or> mapwant (msgmap st') = mapwant (msgmap st)) \<and>
     (\<exists>w. msg_perm (msgque st' i) = (msg_perm (msgque st i))\<lparr>ip_mode := w\<rparr> \<and> w AND MSG_RWAIT = ip_mode (msg_perm (msgque st i)) AND MSG_RWAIT \<and>
        w AND IPC_ALLOC = ip_mode (msg_perm (msgque st i)) AND IPC_ALLOC) \<and>
     msg_cbytes (msgque st' i) = msg_cbytes (msgque st i) \<and> msg_qbytes (msgque st' i) = msg_qbytes (msgque st i)"

lemma msg_keeps_refl: "msg_keeps i st st"
  by (simp add: msg_keeps_def) (metis ipc_perm.surjective ipc_perm.update_convs(5))

lemma msg_keeps_trans: "msg_keeps i st st' \<Longrightarrow> msg_keeps i st' st'' \<Longrightarrow> msg_keeps i st st''"
  unfolding msg_keeps_def same_body_def by (elim conjE exE) (auto; metis)

lemma freed_keeps:
  assumes "pm \<noteq> Some m" "map_freed (msgmap st) mp w"
  shows "msg_keeps i st (msg_freed i pm m mp w st)"
  unfolding msg_keeps_def
proof (intro conjI allI impI)
  fix n show "same_body (msgh st n) (msgh (msg_freed i pm m mp w st) n)" by (rule freed_body [OF assms(1)])
next
  show "mapwant (msgmap (msg_freed i pm m mp w st)) = 0 \<or> mapwant (msgmap (msg_freed i pm m mp w st)) = mapwant (msgmap st)"
    using assms(2) by (auto simp: msg_freed_def map_freed_def)
next
  show "\<exists>v. msg_perm (msgque (msg_freed i pm m mp w st) i) = (msg_perm (msgque st i))\<lparr>ip_mode := v\<rparr> \<and>
      v AND MSG_RWAIT = ip_mode (msg_perm (msgque st i)) AND MSG_RWAIT \<and>
      v AND IPC_ALLOC = ip_mode (msg_perm (msgque st i)) AND IPC_ALLOC"
    by (rule exI [of _ "ip_mode (msg_perm (msgque st i)) AND NOT MSG_WWAIT"]) (simp add: msg_freed_def qcut_def)
qed (simp_all add: msg_freed_def qcut_def)

lemma freed_count:
  assumes "msg_qnum (msgque st i) = int (Suc n)" "Suc n < 65536"
  shows "msg_qnum (msgque (msg_freed i pm m mp w st) i) = int n"
  using assms by (simp add: msg_freed_def qcut_def uint16_def)

lemma freed_wakes: "\<exists>ws. msg_wakes (msg_freed i pm m mp w st) = msg_wakes st @ ws \<and> set ws = freed_wakes i w st"
  by (rule exI [of _ "(if wwait st i then [MQue i] else []) @ (if w then [MMap] else []) @ (if msgfp st = None then [MHdr] else [])"])
    (auto simp: msg_freed_def freed_wakes_def)

lemma queue_length:
  assumes "msg_core mi st H L" "i < msgmni mi"
  shows "length (L (Some i)) < 65536" "length (L (Some i)) \<le> msgtql mi"
proof -
  have "length (L (Some i)) \<le> msgtql mi" using chains_length [OF msg_coreD(2) [OF assms(1)], of "Some i"] assms(2) by simp
  then show "length (L (Some i)) < 65536" "length (L (Some i)) \<le> msgtql mi" using msg_coreD(1) [OF assms(1)] by (simp_all add: mi_ok_def)
qed

lemma msg_drain_ok:
  "msg_core mi st {} L \<Longrightarrow> i < msgmni mi \<Longrightarrow> length (L (Some i)) \<le> n \<Longrightarrow> msg_qnum (msgque st i) = int (length (L (Some i))) \<Longrightarrow>
   \<exists>st' L' ws. msg_drain n mi i st = Some st' \<and> msg_core mi st' {} L' \<and> L' (Some i) = [] \<and> (\<forall>j. j \<noteq> i \<longrightarrow> L' (Some j) = L (Some j)) \<and>
     msg_keeps i st st' \<and> msg_qnum (msgque st' i) = 0 \<and> msg_wakes st' = msg_wakes st @ ws \<and> msg_quiet mi st L st' L' (set ws)"
proof (induction n arbitrary: st L)
  case 0
  then have "msg_drain 0 mi i st = Some st" using msg_core_heads(2) [OF 0(1,2)] by simp
  then show ?case using 0 msg_keeps_refl [of i st] msg_quiet_same [of st st mi L "{}"]
    by (intro exI [of _ st] exI [of _ L] exI [of _ "[]"]) simp
next
  case (Suc n)
  show ?case
  proof (cases "L (Some i)")
    case Nil
    then have "msg_drain (Suc n) mi i st = Some st" using msg_core_heads(2) [OF Suc(2,3)] by simp
    then show ?thesis using Nil Suc msg_keeps_refl [of i st] msg_quiet_same [of st st mi L "{}"]
      by (intro exI [of _ st] exI [of _ L] exI [of _ "[]"]) simp
  next
    case (Cons m ys)
    then have L: "L (Some i) = [] @ m # ys" by simp
    let ?L = "L(Some i := [] @ ys, None := m # L None)"
    obtain mp w where f: "msgfree mi i (lastp None []) m st = Some (msg_freed i (lastp None []) m mp w st)"
      "msg_core mi (msg_freed i (lastp None []) m mp w st) {} ?L"
      "msg_quiet mi st L (msg_freed i (lastp None []) m mp w st) ?L (freed_wakes i w st)" "map_freed (msgmap st) mp w"
      by (rule msgfree_ok [OF Suc(2,3) L])
    let ?s = "msg_freed i None m mp w st"
    have q: "msg_qnum (msgque ?s i) = int (length (?L (Some i)))"
      using freed_count [of st i "length ys"] Suc(5) queue_length(1) [OF Suc(2,3)] Cons by simp
    have len: "length (?L (Some i)) \<le> n" using Suc(4) Cons by simp
    obtain st' L' ws where r: "msg_drain n mi i ?s = Some st'" "msg_core mi st' {} L'" "L' (Some i) = []"
      "\<forall>j. j \<noteq> i \<longrightarrow> L' (Some j) = ?L (Some j)" "msg_keeps i ?s st'" "msg_qnum (msgque st' i) = 0"
      "msg_wakes st' = msg_wakes ?s @ ws" "msg_quiet mi ?s ?L st' L' (set ws)"
      using Suc.IH [OF f(2) [unfolded lastp_simps] Suc(3) len q] by blast
    obtain vs where v: "msg_wakes ?s = msg_wakes st @ vs" "set vs = freed_wakes i w st" using freed_wakes by blast
    have "msg_drain (Suc n) mi i st = Some st'" using f(1) r(1) Cons msg_core_heads(2) [OF Suc(2,3)] by simp
    moreover have "msg_keeps i st st'" using msg_keeps_trans [OF freed_keeps [OF _ f(4), of None m i] r(5)] by simp
    moreover have "msg_quiet mi st L st' L' (set (vs @ ws))"
      using msg_quiet_trans [OF f(3) [unfolded lastp_simps] r(8)] v(2) by simp
    ultimately show ?thesis using r v(1)
      by (intro exI [of _ st'] exI [of _ L'] exI [of _ "vs @ ws"]) simp
  qed
qed

end
