(* ===== verification/MsgCtl.thy ===== *)
theory MsgCtl
  imports MsgFree
begin

text \<open>
  What a message call leaves behind (\<open>msg_call_ok\<close>), the conversion of identifiers under the queue locks,
  and the operations of \<open>msgctl\<close> and \<open>msgget\<close>.
\<close>

section \<open>Queues as sequences\<close>

text \<open>The abstract value of a queue: types and texts of its messages, oldest first.\<close>

definition mview :: "msginfo \<Rightarrow> msgst \<Rightarrow> nat list \<Rightarrow> (int \<times> u8 list) list" where
  "mview mi st xs = map (\<lambda>m. (msg_type (msgh st m), msg_text mi st m (nat (msg_ts (msgh st m))))) xs"

lemma mview_cong:
  "(\<And>m. m \<in> set xs \<Longrightarrow> same_body (msgh st m) (msgh st' m)) \<Longrightarrow> mpool st' = mpool st \<Longrightarrow> mview mi st' xs = mview mi st xs"
  by (simp add: mview_def msg_text_def same_body_def)

section \<open>What a call leaves\<close>

definition msg_call_ok :: "msginfo \<Rightarrow> msgst \<Rightarrow> (nat option \<Rightarrow> nat list) \<Rightarrow> msgst \<Rightarrow> (nat option \<Rightarrow> nat list) \<Rightarrow> bool" where
  "msg_call_ok mi st L st' L' \<longleftrightarrow> msg_inv mi st' L' \<and> msglock st' = msglock st \<and>
     (\<exists>ws. msg_wakes st' = msg_wakes st @ ws \<and> msg_quiet mi st L st' L' (set ws)) \<and>
     unat (mapwant (msgmap st')) \<le> Suc (unat (mapwant (msgmap st)))"

definition same_tabs :: "msgst \<Rightarrow> msgst \<Rightarrow> bool" where
  "same_tabs st st' \<longleftrightarrow> msgque st' = msgque st \<and> msgh st' = msgh st \<and> msgfp st' = msgfp st \<and> msgmap st' = msgmap st \<and> mpool st' = mpool st"

lemma same_tabs_refl [simp]: "same_tabs st st"
  by (simp add: same_tabs_def)

lemma same_tabs_trans: "same_tabs st st' \<Longrightarrow> same_tabs st' st'' \<Longrightarrow> same_tabs st st''"
  by (simp add: same_tabs_def)

lemma msg_core_same: "same_tabs st st' \<Longrightarrow> msg_core mi st' H L = msg_core mi st H L"
  using msg_lists_cong [of st' st mi H L] by (simp add: msg_core_def same_tabs_def msg_perms_def [abs_def])

lemma msg_inv_same: "same_tabs st st' \<Longrightarrow> msg_inv mi st' L = msg_inv mi st L"
  using msg_core_same [of st st' mi "{}" L] by (simp add: msg_inv_def msg_count_ok_def same_tabs_def)

lemma mview_same: "same_tabs st st' \<Longrightarrow> mview mi st' xs = mview mi st xs"
  by (rule mview_cong) (simp_all add: same_tabs_def)

lemma quiet_same_tabs: "same_tabs st st' \<Longrightarrow> msg_quiet mi st L st' L W"
  by (rule msg_quiet_same) (simp_all add: same_tabs_def)

lemma msg_call_ok_same:
  assumes "msg_inv mi st L" "same_tabs st st'" "msglock st' = msglock st" "msg_wakes st' = msg_wakes st @ ws"
  shows "msg_call_ok mi st L st' L"
  using assms msg_inv_same [OF assms(2)] quiet_same_tabs [OF assms(2)]
  unfolding msg_call_ok_def by (auto simp: same_tabs_def)

text \<open>Later changes that do not touch the tables, under the queue's lock.\<close>

lemma msg_call_ok_tabs:
  assumes ok: "msg_call_ok mi st L st' L'" and s: "same_tabs st0 st" "same_tabs st' st1"
    and lk: "msglock st1 = msglock st0" and w: "msg_wakes st = msg_wakes st0 @ us" "msg_wakes st1 = msg_wakes st' @ vs"
  shows "msg_call_ok mi st0 L st1 L'"
proof -
  obtain ws where ws: "msg_wakes st' = msg_wakes st @ ws" "msg_quiet mi st L st' L' (set ws)"
    using ok by (auto simp: msg_call_ok_def)
  have "msg_quiet mi st0 L st1 L' ({} \<union> set ws \<union> {})"
    by (rule msg_quiet_trans [OF msg_quiet_trans [OF quiet_same_tabs [OF s(1)] ws(2)] quiet_same_tabs [OF s(2)]])
  then have "msg_quiet mi st0 L st1 L' (set (us @ ws @ vs))"
    unfolding msg_quiet_def by auto
  moreover have "msg_wakes st1 = msg_wakes st0 @ us @ ws @ vs" using w ws by simp
  ultimately show ?thesis
    using ok s lk msg_inv_same [OF s(2), of mi L'] unfolding msg_call_ok_def same_tabs_def by auto
qed

section \<open>Identifiers and locks\<close>

definition is_ident :: "msginfo \<Rightarrow> msgst \<Rightarrow> nat \<Rightarrow> int \<Rightarrow> bool" where
  "is_ident mi st i idn \<longleftrightarrow> i < msgmni mi \<and> ipc_live (msg_perms st i) \<and>
     idn = uint (ip_seq (msg_perms st i)) * int (msgmni mi) + int i"

definition msg_free_locks :: "msgst \<Rightarrow> bool" where
  "msg_free_locks st \<longleftrightarrow> (\<forall>i. \<not> msglock st i)"

lemma ident_slot:
  assumes "0 < n" "0 \<le> idn"
  shows "idn div int n = q \<and> i = nat (idn mod int n) \<longleftrightarrow> i < n \<and> idn = q * int n + int i"
proof -
  have "0 \<le> idn mod int n" "idn mod int n < int n" using assms by simp_all
  moreover have "idn = idn div int n * int n + idn mod int n" by simp
  moreover have "(q * int n + int i) div int n = q" "(q * int n + int i) mod int n = int i" if "i < n"
    using that by simp_all
  ultimately show ?thesis by (auto simp: nat_less_iff)
qed

lemma msgconv_cases [consumes 2, case_names err ok]:
  assumes mi: "0 < msgmni mi" and lk: "msg_free_locks st"
  obtains (err) st' where "msgconv mi idn st = (CvErr, st')" "same_tabs st st'" "msglock st' = msglock st"
      "\<exists>ws. msg_wakes st' = msg_wakes st @ ws" "u_error st' = Some EINVAL" "\<not> (\<exists>i. is_ident mi st i idn)"
      "u_rval1 st' = u_rval1 st" "msg_copies st' = msg_copies st"
    | (ok) i where "msgconv mi idn st = (CvOk i, st\<lparr>msglock := (msglock st)(i := True)\<rparr>)" "is_ident mi st i idn" "i < msgmni mi"
proof (cases "idn < 0")
  case True
  have no: "\<not> is_ident mi st i idn" for i
  proof
    assume "is_ident mi st i idn"
    moreover have "0 \<le> uint (ip_seq (msg_perms st i)) * int (msgmni mi) + int i" by simp
    ultimately show False using True by (simp add: is_ident_def)
  qed
  show ?thesis using True no by (intro err [of "set_error EINVAL st"]) (auto simp: msgconv_def same_tabs_def)
next
  case False
  define i where "i = nat (idn mod int (msgmni mi))"
  have sl: "idn div int (msgmni mi) = uint (ip_seq (msg_perms st j)) \<and> j = i \<longleftrightarrow>
      j < msgmni mi \<and> idn = uint (ip_seq (msg_perms st j)) * int (msgmni mi) + int j" for j
    using ident_slot [OF mi, of idn "uint (ip_seq (msg_perms st j))" j] False unfolding i_def by auto
  have nl: "\<not> msglock st i" using lk by (simp add: msg_free_locks_def)
  let ?s = "st\<lparr>msglock := (msglock st)(i := True)\<rparr>"
  have lock: "(msglock st)(i := False) = msglock st" using nl by (simp add: fun_eq_iff)
  have conv: "msgconv mi idn st =
     (if \<not> ipc_live (msg_perms st i) \<or> idn div int (msgmni mi) \<noteq> uint (ip_seq (msg_perms st i))
      then (CvErr, set_error EINVAL (msg_wakeup (MLock i) st)) else (CvOk i, ?s))"
    using False nl lock by (simp add: msgconv_def Let_def i_def [symmetric] msg_perms_def)
  show ?thesis
  proof (cases "ipc_live (msg_perms st i) \<and> idn div int (msgmni mi) = uint (ip_seq (msg_perms st i))")
    case True
    then have "is_ident mi st i idn" using sl [of i] by (auto simp: is_ident_def)
    then show ?thesis using True conv by (intro ok [of i]) (auto simp: is_ident_def)
  next
    case no: False
    then have "\<not> is_ident mi st j idn" for j using sl [of j] by (auto simp: is_ident_def)
    then show ?thesis using no conv
      by (intro err [of "set_error EINVAL (msg_wakeup (MLock i) st)"]) (auto simp: same_tabs_def)
  qed
qed

lemma is_ident_mod: "is_ident mi st i idn \<Longrightarrow> idn mod int (msgmni mi) = int i"
  by (auto simp: is_ident_def)

lemma is_ident_unique: "is_ident mi st i idn \<Longrightarrow> is_ident mi st' j idn \<Longrightarrow> i = j"
  using is_ident_mod [of mi st i idn] is_ident_mod [of mi st' j idn] by simp

section \<open>Control operations\<close>

definition msg_removed :: "msginfo \<Rightarrow> int \<Rightarrow> nat \<Rightarrow> msgst \<Rightarrow> msgst" where
  "msg_removed mi idn i st = st\<lparr>msgque := (msgque st)(i := (msgque st i)\<lparr>msg_cbytes := 0,
       msg_perm := (msg_perm (msgque st i))\<lparr>ip_seq := (if int32 (idn + int (msgmni mi)) < 0 then 0 else ip_seq (msg_perm (msgque st i)) + 1),
         ip_mode := 0\<rparr>\<rparr>),
     msg_wakes := msg_wakes st @ (if rwait st i then [MQnum i] else []) @ (if wwait st i then [MQue i] else [])\<rparr>"

lemma msg_owner_cases:
  obtains (no) "msg_owner u i st = (False, set_error EPERM st)" "u_uid u \<noteq> 0"
    | (yes) st0 where "msg_owner u i st = (True, st0)" "st0 = st \<or> st0 = st\<lparr>u_asu := True\<rparr>"
      "u_uid u = ip_uid (msg_perms st i) \<or> u_uid u = ip_cuid (msg_perms st i) \<or> u_uid u = 0"
proof (cases "u_uid u = ip_uid (msg_perms st i) \<or> u_uid u = ip_cuid (msg_perms st i)")
  case True
  then have "msg_owner u i st = (True, st)" by (auto simp: msg_owner_def msg_perms_def)
  then show ?thesis using True by (intro yes [of st]) auto
next
  case other: False
  show ?thesis
  proof (cases "u_uid u = 0")
    case True
    then have "msg_owner u i st = (True, st\<lparr>u_asu := True\<rparr>)"
      using other by (auto simp: msg_owner_def suser_def msg_perms_def)
    then show ?thesis using True by (intro yes [of "st\<lparr>u_asu := True\<rparr>"]) auto
  next
    case False
    then have "msg_owner u i st = (False, set_error EPERM st)"
      using other by (auto simp: msg_owner_def suser_def msg_perms_def)
    then show ?thesis using False by (intro no)
  qed
qed

lemma msgctl_rmid_eq:
  "msgctl_rmid mi u idn i st = (case msg_owner u i st of
     (False, st0) \<Rightarrow> Some st0
   | (True, st0) \<Rightarrow> map_option (msg_removed mi idn i) (msg_drain (msgtql mi) mi i st0))"
  unfolding msgctl_rmid_def
  by (auto simp: msg_removed_def Let_def split: prod.splits bool.splits option.splits)

lemma removed_ok:
  assumes core: "msg_core mi st {} L" and i: "i < msgmni mi" and L: "L (Some i) = []" and q: "msg_qnum (msgque st i) = 0"
    and b: "0 \<le> msg_qbytes (msgque st i)" "msg_qbytes (msgque st i) < 65536"
    and o: "\<And>j. j < msgmni mi \<Longrightarrow> j \<noteq> i \<Longrightarrow> msg_count_ok st L j"
  shows "msg_inv mi (msg_removed mi idn i st) L"
    "msg_quiet mi st L (msg_removed mi idn i st) L ((if rwait st i then {MQnum i} else {}) \<union> (if wwait st i then {MQue i} else {}))"
proof -
  note D = msg_coreD [OF core]
  let ?s = "msg_removed mi idn i st"
  have dead: "\<not> ipc_live (msg_perms ?s i)" and perm: "j \<noteq> i \<Longrightarrow> msg_perms ?s j = msg_perms st j" for j
    by (simp_all add: msg_removed_def msg_perms_def)
  have l: "msg_lists mi ?s {} L"
    using core msg_lists_cong [of ?s st mi "{}" L] by (simp add: msg_core_def msg_removed_def)
  have "keys_unique (msg_perms ?s) (msgmni mi)" by (rule keys_unique_mono [OF D(5)]) (use dead perm in metis)+
  moreover have "\<forall>j < msgmni mi. \<not> ipc_live (msg_perms ?s j) \<longrightarrow> L (Some j) = []" using D(6) perm L by metis
  ultimately have "msg_core mi ?s {} L" using l D(1,4) unfolding msg_core_def by (simp add: msg_removed_def)
  moreover have "msg_count_ok ?s L j" if j: "j < msgmni mi" for j
    using o [OF j] L q b by (cases "j = i") (simp_all add: msg_count_ok_def msg_removed_def)
  ultimately show "msg_inv mi ?s L" by (simp add: msg_inv_def)
  have keep: "rwait ?s j = rwait st j" "wwait ?s j = wwait st j" "same_id st ?s j" "mtypes ?s (L (Some j)) = mtypes st (L (Some j))" if "j \<noteq> i" for j
    using that by (simp_all add: msg_removed_def same_id_def msg_perms_def mtypes_def)
  show "msg_quiet mi st L ?s L ((if rwait st i then {MQnum i} else {}) \<union> (if wwait st i then {MQue i} else {}))"
    unfolding msg_quiet_def
  proof (intro conjI allI impI)
    fix j assume "ipc_live (msg_perms st j) \<and> rwait st j"
    then show "MQnum j \<in> (if rwait st i then {MQnum i} else {}) \<union> (if wwait st i then {MQue i} else {}) \<or>
        rwait ?s j \<and> same_id st ?s j \<and> mtypes ?s (L (Some j)) \<subseteq> mtypes st (L (Some j))"
      using keep [of j] by (cases "j = i") auto
  next
    fix j assume "ipc_live (msg_perms st j) \<and> wwait st j"
    then show "MQue j \<in> (if rwait st i then {MQnum i} else {}) \<union> (if wwait st i then {MQue i} else {}) \<or>
        wwait ?s j \<and> same_id st ?s j"
      using keep [of j] by (cases "j = i") auto
  qed (auto simp: msg_removed_def)
qed

definition msg_um_ok :: "msg_umem \<Rightarrow> bool" where
  "msg_um_ok um \<longleftrightarrow> (\<forall>a ds. mu_ds um a = Some ds \<longrightarrow> 0 \<le> msg_qbytes ds \<and> msg_qbytes ds < 65536) \<and>
     (\<forall>a n. length (fst (mu_text um a n)) \<le> n \<and> (snd (mu_text um a n) \<longrightarrow> length (fst (mu_text um a n)) = n)) \<and>
     (\<forall>a t. mu_type um a = Some t \<longrightarrow> - 2147483648 \<le> t \<and> t < 2147483648)"

lemma count_keep:
  assumes "msg_count_ok st L j" "msgque st' j = msgque st j" "\<And>m. same_body (msgh st m) (msgh st' m)" "L' (Some j) = L (Some j)"
  shows "msg_count_ok st' L' j"
  using assms by (simp add: msg_count_ok_def same_body_def)

lemma msgctl_rmid_ok:
  assumes inv: "msg_inv mi st L" and i: "i < msgmni mi"
  shows "\<exists>st' L'. msgctl_rmid mi u idn i st = Some st' \<and> msg_call_ok mi st L st' L' \<and>
    (if u_uid u = ip_uid (msg_perms st i) \<or> u_uid u = ip_cuid (msg_perms st i) \<or> u_uid u = 0
     then L' (Some i) = [] \<and> \<not> ipc_live (msg_perms st' i) \<and>
       ip_seq (msg_perms st' i) = (if int32 (idn + int (msgmni mi)) < 0 then 0 else ip_seq (msg_perms st i) + 1) \<and>
       (\<forall>j. j \<noteq> i \<longrightarrow> L' (Some j) = L (Some j) \<and> msgque st' j = msgque st j) \<and> u_error st' = u_error st \<and>
       (\<forall>xs. mview mi st' xs = mview mi st xs)
     else L' = L \<and> st' = set_error EPERM st)"
proof -
  have core: "msg_core mi st {} L" and cnt: "\<And>j. j < msgmni mi \<Longrightarrow> msg_count_ok st L j" using inv by (simp_all add: msg_inv_def)
  show ?thesis
  proof (cases rule: msg_owner_cases [of u i st])
    case no
    then have "\<not> (u_uid u = ip_uid (msg_perms st i) \<or> u_uid u = ip_cuid (msg_perms st i) \<or> u_uid u = 0)"
      by (auto simp: msg_owner_def msg_perms_def)
    moreover have "msgctl_rmid mi u idn i st = Some (set_error EPERM st)" by (simp add: msgctl_rmid_eq no)
    moreover have "msg_call_ok mi st L (set_error EPERM st) L"
      by (rule msg_call_ok_same [OF inv, where ws = "[]"]) (simp_all add: same_tabs_def)
    ultimately show ?thesis by auto
  next
    case (yes st0)
    have s0: "same_tabs st st0" "msg_wakes st0 = msg_wakes st @ []" "msglock st0 = msglock st" "u_error st0 = u_error st"
      using yes(2) by (auto simp: same_tabs_def)
    have core0: "msg_core mi st0 {} L" using core msg_core_same [OF s0(1)] by simp
    have q0: "msg_qnum (msgque st0 i) = int (length (L (Some i)))" using cnt [OF i] s0(1) by (simp add: msg_count_ok_def same_tabs_def)
    obtain st1 L' ws where d: "msg_drain (msgtql mi) mi i st0 = Some st1" "msg_core mi st1 {} L'" "L' (Some i) = []"
      "\<forall>j. j \<noteq> i \<longrightarrow> L' (Some j) = L (Some j)" "msg_keeps i st0 st1" "msg_qnum (msgque st1 i) = 0"
      "msg_wakes st1 = msg_wakes st0 @ ws" "msg_quiet mi st0 L st1 L' (set ws)"
      using msg_drain_ok [OF core0 i queue_length(2) [OF core0 i] q0] by blast
    let ?s = "msg_removed mi idn i st1"
    have body: "same_body (msgh st m) (msgh st1 m)" for m using d(5) s0(1) by (simp add: msg_keeps_def same_tabs_def)
    have que: "msgque st1 j = msgque st j" if "j \<noteq> i" for j using d(5) s0(1) that by (simp add: msg_keeps_def same_tabs_def)
    have qb: "0 \<le> msg_qbytes (msgque st1 i)" "msg_qbytes (msgque st1 i) < 65536"
      using d(5) s0(1) cnt [OF i] by (simp_all add: msg_keeps_def same_tabs_def msg_count_ok_def)
    have o: "msg_count_ok st1 L' j" if "j < msgmni mi" "j \<noteq> i" for j
      using count_keep [OF cnt [OF that(1)] que [OF that(2)] body] d(4) that by blast
    note R = removed_ok [OF d(2) i d(3,6) qb o]
    have mw: "unat (mapwant (msgmap ?s)) \<le> Suc (unat (mapwant (msgmap st0)))"
      using d(5) by (auto simp: msg_keeps_def msg_removed_def)
    have "msg_quiet mi st0 L ?s L' (set (ws @ (if rwait st1 i then [MQnum i] else []) @ (if wwait st1 i then [MQue i] else [])))"
      using msg_quiet_trans [OF d(8) R(2) [of idn]] by (auto simp: msg_quiet_def split: if_splits)
    then have "msg_call_ok mi st0 L ?s L'"
      using R(1) mw d(5,7) unfolding msg_call_ok_def by (auto simp: msg_removed_def msg_keeps_def)
    then have "msg_call_ok mi st L ?s L'"
      by (rule msg_call_ok_tabs [OF _ s0(1), where us = "[]" and vs = "[]"]) (use s0 d(5) in \<open>auto simp: msg_keeps_def msg_removed_def\<close>)
    moreover have "msgctl_rmid mi u idn i st = Some ?s" by (simp add: msgctl_rmid_eq yes(1) d(1))
    moreover have "\<forall>xs. mview mi ?s xs = mview mi st xs"
      using body d(5) s0(1) by (intro allI mview_cong) (simp_all add: msg_removed_def msg_keeps_def same_tabs_def)
    moreover have "ip_seq (msg_perms st1 i) = ip_seq (msg_perms st i)"
      using d(5) s0(1) by (auto simp: msg_keeps_def msg_perms_def same_tabs_def)
    ultimately show ?thesis using yes(3) d(3,4,5) que s0(4)
      by (intro exI [of _ ?s] exI [of _ L']) (auto simp: msg_removed_def msg_perms_def msg_keeps_def)
  qed
qed

text \<open>A change of one queue's permissions, limit or flags.\<close>

definition que_change :: "nat \<Rightarrow> msqid_ds \<Rightarrow> msgst \<Rightarrow> msgst" where
  "que_change i q st = st\<lparr>msgque := (msgque st)(i := q)\<rparr>"

definition que_compat :: "msqid_ds \<Rightarrow> msqid_ds \<Rightarrow> bool" where
  "que_compat q q' \<longleftrightarrow> msg_first q' = msg_first q \<and> msg_last q' = msg_last q \<and> msg_qnum q' = msg_qnum q \<and>
     msg_cbytes q' = msg_cbytes q \<and> 0 \<le> msg_qbytes q' \<and> msg_qbytes q' < 65536 \<and>
     ip_seq (msg_perm q') = ip_seq (msg_perm q) \<and> ip_key (msg_perm q') = ip_key (msg_perm q) \<and>
     ipc_live (msg_perm q') = ipc_live (msg_perm q)"

lemma que_change_inv:
  assumes inv: "msg_inv mi st L" and c: "que_compat (msgque st i) q"
  shows "msg_inv mi (que_change i q st) L"
proof -
  let ?s = "que_change i q st"
  have core: "msg_core mi st {} L" and cnt: "\<And>j. j < msgmni mi \<Longrightarrow> msg_count_ok st L j" using inv by (simp_all add: msg_inv_def)
  note D = msg_coreD [OF core]
  have l: "msg_lists mi ?s {} L"
    using core c msg_lists_cong [of ?s st mi "{}" L] by (simp add: msg_core_def que_change_def que_compat_def)
  have p: "ipc_live (msg_perms ?s j) = ipc_live (msg_perms st j)" "ip_key (msg_perms ?s j) = ip_key (msg_perms st j)" for j
    using c by (simp_all add: que_change_def que_compat_def msg_perms_def)
  have "keys_unique (msg_perms ?s) (msgmni mi)" by (rule keys_unique_mono [OF D(5)]) (simp add: p)
  moreover have "\<forall>j < msgmni mi. \<not> ipc_live (msg_perms ?s j) \<longrightarrow> L (Some j) = []" using D(6) by (simp add: p)
  ultimately have "msg_core mi ?s {} L" using l D(1,4) unfolding msg_core_def by (simp add: que_change_def)
  moreover have "msg_count_ok ?s L j" if j: "j < msgmni mi" for j
    using cnt [OF j] c by (cases "j = i") (simp_all add: msg_count_ok_def que_change_def que_compat_def)
  ultimately show ?thesis by (simp add: msg_inv_def)
qed

lemma que_change_quiet:
  assumes c: "que_compat (msgque st i) q"
    and r: "rwait st i \<Longrightarrow> MQnum i \<in> W \<or> ip_mode (msg_perm q) AND MSG_RWAIT \<noteq> 0"
    and w: "wwait st i \<Longrightarrow> MQue i \<in> W \<or> ip_mode (msg_perm q) AND MSG_WWAIT \<noteq> 0"
  shows "msg_quiet mi st L (que_change i q st) L W"
proof -
  have "same_id st (que_change i q st) j" for j
    using c by (auto simp: same_id_def que_change_def que_compat_def msg_perms_def)
  moreover have "mtypes (que_change i q st) (L (Some j)) = mtypes st (L (Some j))" for j by (simp add: mtypes_def que_change_def)
  ultimately show ?thesis using r w by (auto simp: msg_quiet_def que_change_def)
qed

lemma que_change_call:
  assumes "msg_inv mi st L" "que_compat (msgque st i) q"
    and "rwait st i \<Longrightarrow> ip_mode (msg_perm q) AND MSG_RWAIT \<noteq> 0" "wwait st i \<Longrightarrow> ip_mode (msg_perm q) AND MSG_WWAIT \<noteq> 0"
  shows "msg_call_ok mi st L (que_change i q st) L"
proof -
  have "msg_quiet mi st L (que_change i q st) L (set [])"
    by (rule que_change_quiet [OF assms(2)]) (use assms(3,4) in simp_all)
  then show ?thesis using que_change_inv [OF assms(1,2)] unfolding msg_call_ok_def
    by (auto simp: que_change_def)
qed

lemma msgctl_set_ok:
  assumes inv: "msg_inv mi st L" and i: "i < msgmni mi" and um: "msg_um_ok um"
  shows "msg_call_ok mi st L (msgctl_set mi u time um buf i st) L \<and>
    (\<forall>xs. mview mi (msgctl_set mi u time um buf i st) xs = mview mi st xs)"
proof -
  have perm: "msg_call_ok mi st L (set_error e st') L \<and> (\<forall>xs. mview mi (set_error e st') xs = mview mi st xs)"
    if "st' = st \<or> st' = st\<lparr>u_asu := True\<rparr>" for st' e
  proof -
    have s: "same_tabs st (set_error e st')" using that by (auto simp: same_tabs_def)
    have "msg_call_ok mi st L (set_error e st') L" by (rule msg_call_ok_same [OF inv s, where ws = "[]"]) (use that in auto)
    then show ?thesis using mview_same [OF s] by simp
  qed
  have "0 \<le> msg_qbytes (msgque st i)" using inv i by (simp add: msg_inv_def msg_count_ok_def)
  have chg: "msg_call_ok mi st L (upd_q i (\<lambda>q. q\<lparr>
               msg_perm := (msg_perm q)\<lparr>ip_uid := ip_uid (msg_perm ds), ip_gid := ip_gid (msg_perm ds),
                 ip_mode := (ip_mode (msg_perm q) AND NOT 511) OR (ip_mode (msg_perm ds) AND 511)\<rparr>,
               msg_qbytes := msg_qbytes ds, msg_ctime := time\<rparr>) st') L \<and>
      (\<forall>xs. mview mi (upd_q i (\<lambda>q. q\<lparr>
               msg_perm := (msg_perm q)\<lparr>ip_uid := ip_uid (msg_perm ds), ip_gid := ip_gid (msg_perm ds),
                 ip_mode := (ip_mode (msg_perm q) AND NOT 511) OR (ip_mode (msg_perm ds) AND 511)\<rparr>,
               msg_qbytes := msg_qbytes ds, msg_ctime := time\<rparr>) st') xs = mview mi st xs)"
    if st': "st' = st \<or> st' = st\<lparr>u_asu := True\<rparr>" and ds: "mu_ds um buf = Some ds" for st' ds
  proof -
    let ?q = "(msgque st' i)\<lparr>
               msg_perm := (msg_perm (msgque st' i))\<lparr>ip_uid := ip_uid (msg_perm ds), ip_gid := ip_gid (msg_perm ds),
                 ip_mode := (ip_mode (msg_perm (msgque st' i)) AND NOT 511) OR (ip_mode (msg_perm ds) AND 511)\<rparr>,
               msg_qbytes := msg_qbytes ds, msg_ctime := time\<rparr>"
    have s: "same_tabs st st'" using st' by (auto simp: same_tabs_def)
    have c: "que_compat (msgque st' i) ?q" using um ds by (auto simp: que_compat_def msg_um_ok_def)
    have "msg_call_ok mi st' L (que_change i ?q st') L"
      by (rule que_change_call [OF _ c]) (use inv msg_inv_same [OF s] in simp_all)
    then have "msg_call_ok mi st L (que_change i ?q st') L"
      by (rule msg_call_ok_tabs [OF _ s, where us = "[]" and vs = "[]"]) (use st' in \<open>auto simp: que_change_def\<close>)
    moreover have "mview mi (que_change i ?q st') xs = mview mi st xs" for xs
      using s by (intro mview_cong) (simp_all add: que_change_def same_tabs_def)
    ultimately show ?thesis by (simp add: que_change_def)
  qed
  show ?thesis
  proof (cases rule: msg_owner_cases [of u i st])
    case no
    then show ?thesis using perm [of st EPERM] by (simp add: msgctl_set_def)
  next
    case (yes st0)
    show ?thesis
    proof (cases "mu_ds um buf")
      case None
      then show ?thesis using perm [OF yes(2)] yes(1) by (simp add: msgctl_set_def)
    next
      case (Some ds)
      have su: "suser u st0 = (True, st0\<lparr>u_asu := True\<rparr>) \<or> suser u st0 = (False, set_error EPERM st0)"
        by (simp add: suser_def)
      have a: "st0\<lparr>u_asu := True\<rparr> = st \<or> st0\<lparr>u_asu := True\<rparr> = st\<lparr>u_asu := True\<rparr>" using yes(2) by auto
      show ?thesis using su perm [OF yes(2)] chg [OF yes(2) Some] chg [OF a Some] yes(1) Some
        by (auto simp: msgctl_set_def Let_def)
    qed
  qed
qed

lemma locked_call:
  assumes lk: "msg_free_locks st" and s: "same_tabs st st1" "msglock st1 = (msglock st)(i := True)"
    "msg_wakes st1 = msg_wakes st @ us" and ok: "msg_call_ok mi st1 L st2 L'"
  shows "msg_call_ok mi st L (msg_unlock i st2) L'" "msg_free_locks (msg_unlock i st2)" "mview mi (msg_unlock i st2) xs = mview mi st2 xs"
proof -
  have l2: "msglock st2 = (msglock st)(i := True)" using ok s by (simp add: msg_call_ok_def)
  have l3: "msglock (msg_unlock i st2) = msglock st"
    using l2 lk by (simp add: msg_unlock_def msg_free_locks_def fun_eq_iff)
  show "msg_call_ok mi st L (msg_unlock i st2) L'"
    by (rule msg_call_ok_tabs [OF ok s(1) _ l3 s(3)]) (auto simp: msg_unlock_def same_tabs_def)
  show "msg_free_locks (msg_unlock i st2)" using l3 lk by (simp add: msg_free_locks_def)
  show "mview mi (msg_unlock i st2) xs = mview mi st2 xs" by (rule mview_same) (simp add: msg_unlock_def same_tabs_def)
qed

lemma msgctl_stat_ok:
  assumes inv: "msg_inv mi st L"
  shows "msg_call_ok mi st L (msgctl_stat u um buf i st) L \<and> same_tabs st (msgctl_stat u um buf i st)"
proof -
  have s: "same_tabs st (msgctl_stat u um buf i st)" and l: "msglock (msgctl_stat u um buf i st) = msglock st"
    and w: "msg_wakes (msgctl_stat u um buf i st) = msg_wakes st @ []"
    by (cases rule: ipcaccess_cases [of u "msg_perm (msgque st i)" MSG_R st]; simp add: msgctl_stat_def same_tabs_def)+
  then show ?thesis using msg_call_ok_same [OF inv s l w] by simp
qed

lemma msgctl_ok:
  assumes inv: "msg_inv mi st L" and lk: "msg_free_locks st" and um: "msg_um_ok um"
  shows "\<exists>st' L'. msgctl mi u time um idn cmd buf st = Some (MsgRet, st') \<and> msg_call_ok mi st L st' L' \<and> msg_free_locks st'"
proof -
  have mi: "0 < msgmni mi" using inv by (simp add: msg_inv_def msg_core_def mi_ok_def)
  from mi lk show ?thesis
  proof (cases rule: msgconv_cases [where idn = idn])
    case (err st')
    obtain ws where "msg_wakes st' = msg_wakes st @ ws" using err(4) by blast
    then have "msg_call_ok mi st L st' L" using msg_call_ok_same [OF inv err(2,3)] by blast
    then show ?thesis using err lk by (intro exI [of _ st'] exI [of _ L]) (simp add: msgctl_def msg_free_locks_def)
  next
    case (ok i)
    let ?s = "st\<lparr>msglock := (msglock st)(i := True), u_rval1 := 0\<rparr>"
    have s: "same_tabs st ?s" "msglock ?s = (msglock st)(i := True)" "msg_wakes ?s = msg_wakes st @ []"
      by (simp_all add: same_tabs_def)
    have inv': "msg_inv mi ?s L" using inv msg_inv_same [OF s(1)] by simp
    have e: "msg_call_ok mi ?s L (set_error EINVAL ?s) L"
      by (rule msg_call_ok_same [OF inv', where ws = "[]"]) (simp_all add: same_tabs_def)
    have "\<exists>st2 L'. (if cmd = 0 then msgctl_rmid mi u idn i ?s
          else if cmd = 1 then Some (msgctl_set mi u time um buf i ?s)
          else if cmd = 2 then Some (msgctl_stat u um buf i ?s)
          else Some (set_error EINVAL ?s)) = Some st2 \<and> msg_call_ok mi ?s L st2 L'"
      using msgctl_rmid_ok [OF inv' ok(3), of u idn] msgctl_set_ok [OF inv' ok(3) um, of u time buf]
        msgctl_stat_ok [OF inv', of u um buf i] e by auto
    then obtain st2 L' where r: "(if cmd = 0 then msgctl_rmid mi u idn i ?s
          else if cmd = 1 then Some (msgctl_set mi u time um buf i ?s)
          else if cmd = 2 then Some (msgctl_stat u um buf i ?s)
          else Some (set_error EINVAL ?s)) = Some st2" "msg_call_ok mi ?s L st2 L'" by blast
    have "msgctl mi u time um idn cmd buf st = Some (MsgRet, msg_unlock i st2)"
      using r(1) by (simp add: msgctl_def ok(1) Let_def)
    then show ?thesis using locked_call(1,2) [OF lk s r(2)] by blast
  qed
qed

lemma msgget_ok:
  assumes inv: "msg_inv mi st L"
  shows "msg_call_ok mi st L (msgget mi u time key flg st) L \<and> (\<forall>xs. mview mi (msgget mi u time key flg st) xs = mview mi st xs)"
proof (cases "ipcget u key flg (msg_perm \<circ> msgque st) (msgmni mi)")
  case (Inl e)
  have s: "same_tabs st (set_error e st)" by (simp add: same_tabs_def)
  have "msg_call_ok mi st L (set_error e st) L" by (rule msg_call_ok_same [OF inv s, where ws = "[]"]) simp_all
  then show ?thesis using Inl mview_same [OF s] by (simp add: msgget_def)
next
  case (Inr r)
  obtain i s p where r: "r = (i, s, p)" by (cases r)
  have g: "ipcget u key flg (msg_perms st) (msgmni mi) = Inr (i, s, p)" using Inr r by (simp add: msg_perms_def [abs_def] comp_def)
  have core: "msg_core mi st {} L" and cnt: "\<And>j. j < msgmni mi \<Longrightarrow> msg_count_ok st L j" using inv by (simp_all add: msg_inv_def)
  note D = msg_coreD [OF core] and S = ipcget_slot [OF g]
  have i: "i < msgmni mi" using S by simp
  define q where "q = (let q1 = (msgque st i)\<lparr>msg_perm := p\<rparr> in if s then q1\<lparr>msg_first := None, msg_last := None, msg_qnum := 0,
      msg_qbytes := uint16 (msgmnb mi), msg_lspid := 0, msg_lrpid := 0, msg_stime := 0, msg_rtime := 0, msg_ctime := time\<rparr> else q1)"
  let ?s = "que_change i q st"
  have e: "msgget mi u time key flg st = ?s\<lparr>u_rval1 := int32 (uint (ip_seq (msg_perm q)) * int (msgmni mi) + int i)\<rparr>"
    using Inr r by (simp add: msgget_def q_def que_change_def Let_def)
  have pq: "msg_perm q = p" by (simp add: q_def Let_def)
  have dead: "L (Some i) = []" "msg_first q = None" "msg_last q = None" "msg_qnum q = 0" if "s"
    using D(6) [OF i] S that by (auto simp: q_def Let_def)
  have l: "msg_lists mi ?s {} L"
  proof -
    have old: "msg_first (msgque st i) = hdp (L (Some i))" "msg_last (msgque st i) = lastp None (L (Some i))"
      using msg_core_heads(2) [OF core i] D(3) [OF i] by simp_all
    have "msg_first q = msg_first (msgque st i) \<and> msg_last q = msg_last (msgque st i)"
      using old dead by (cases s) (simp_all add: q_def Let_def)
    then show ?thesis using core msg_lists_cong [of ?s st mi "{}" L] by (simp add: msg_core_def que_change_def)
  qed
  have "msg_perms ?s = (msg_perms st)(i := p)" using pq by (auto simp: msg_perms_def que_change_def)
  then have k: "keys_unique (msg_perms ?s) (msgmni mi)" "\<forall>j < msgmni mi. \<not> ipc_live (msg_perms ?s j) \<longrightarrow> L (Some j) = []"
    using ipcget_keys_unique_lemma [OF D(5) g] D(6) by auto
  have "msg_core mi ?s {} L" using l k D(1,4) unfolding msg_core_def by (simp add: que_change_def)
  moreover have "msg_count_ok ?s L j" if j: "j < msgmni mi" for j
  proof (cases "j = i \<and> s")
    case True
    then show ?thesis using cnt [OF i] dead D(1) by (auto simp: msg_count_ok_def que_change_def q_def Let_def mi_ok_def uint16_def)
  next
    case False
    then show ?thesis using cnt [OF j] by (auto simp: msg_count_ok_def que_change_def q_def Let_def)
  qed
  ultimately have i': "msg_inv mi ?s L" by (simp add: msg_inv_def)
  have "msg_quiet mi st L ?s L (set [])"
  proof (cases s)
    case True
    have "ipc_live (msg_perms st j) \<Longrightarrow> msgque ?s j = msgque st j" for j
      using S True by (auto simp: que_change_def)
    then show ?thesis by (auto simp: msg_quiet_def same_id_def msg_perms_def mtypes_def que_change_def)
  next
    case False
    then have "q = msgque st i" using S by (simp add: q_def Let_def msg_perms_def)
    then have "?s = st" by (simp add: que_change_def)
    then show ?thesis using msg_quiet_same [of st st] by simp
  qed
  then have "msg_call_ok mi st L ?s L" using i' unfolding msg_call_ok_def by (auto simp: que_change_def)
  then have "msg_call_ok mi st L (msgget mi u time key flg st) L" unfolding e
    by (rule msg_call_ok_tabs [where us = "[]" and vs = "[]"]) (simp_all add: same_tabs_def que_change_def)
  moreover have "mview mi (msgget mi u time key flg st) xs = mview mi st xs" for xs
    unfolding e by (rule mview_cong) (simp_all add: que_change_def)
  ultimately show ?thesis by simp
qed

end
