(* ===== verification/MsgRcv.thy ===== *)
theory MsgRcv
  imports MsgCtl
begin

text \<open>
  \<open>msgrcv\<close>: the three searches find the message that is due, and taking it copies it out and removes
  exactly it from its queue; every other outcome leaves all queues as they are.
\<close>

section \<open>Which message is received\<close>

definition maccepts :: "int \<Rightarrow> int \<Rightarrow> bool" where
  "maccepts t ty \<longleftrightarrow> (if t = 0 then True else if 0 < t then ty = t else ty \<le> int32 (- t))"

text \<open>
  Of the messages of types \<open>as @ ty # bs\<close>, the one of type \<open>ty\<close> is due for a request \<open>t\<close>: the first of all,
  the first of the type, or the first of the lowest type not above \<open>- t\<close>.
\<close>

definition mdue :: "int \<Rightarrow> int list \<Rightarrow> int \<Rightarrow> int list \<Rightarrow> bool" where
  "mdue t as ty bs \<longleftrightarrow> maccepts t ty \<and>
     (if 0 \<le> t then \<forall>a\<in>set as. \<not> maccepts t a
      else (\<forall>a\<in>set as. maccepts t a \<longrightarrow> ty < a) \<and> (\<forall>b\<in>set bs. maccepts t b \<longrightarrow> ty \<le> b))"

abbreviation mtype :: "msgst \<Rightarrow> nat \<Rightarrow> int" where
  "mtype st m \<equiv> msg_type (msgh st m)"

lemma find_type_ok:
  "linked (mnext st) p ys \<Longrightarrow> length ys \<le> n \<Longrightarrow> q = lastp None pre \<Longrightarrow>
   (\<exists>as m bs. ys = as @ m # bs \<and> mtype st m = t \<and> (\<forall>a\<in>set as. mtype st a \<noteq> t) \<and>
      msg_find_type n st t q p = Some (Some m, lastp None (pre @ as))) \<or>
   (msg_find_type n st t q p = Some (None, None) \<and> (\<forall>a\<in>set ys. mtype st a \<noteq> t))"
proof (induction ys arbitrary: p n q pre)
  case (Cons y ys)
  obtain k where n: "n = Suc k" "length ys \<le> k" using Cons.prems(2) by (cases n) auto
  have p: "p = Some y" "linked (mnext st) (mnext st y) ys" using Cons.prems(1) by auto
  show ?case
  proof (cases "mtype st y = t")
    case True
    then have "msg_find_type n st t q p = Some (Some y, lastp None (pre @ []))" using n p Cons.prems(3) by simp
    then show ?thesis using True by (intro disjI1 exI [of _ "[]"] exI [of _ y] exI [of _ ys]) simp
  next
    case False
    then have f: "msg_find_type n st t q p = msg_find_type k st t (Some y) (mnext st y)" using n p by auto
    have "Some y = lastp None (pre @ [y])" by simp
    from Cons.IH [OF p(2) n(2) this] show ?thesis
    proof (elim disjE exE conjE)
      fix as m bs
      assume "ys = as @ m # bs" "mtype st m = t" "\<forall>a\<in>set as. mtype st a \<noteq> t"
        "msg_find_type k st t (Some y) (mnext st y) = Some (Some m, lastp None ((pre @ [y]) @ as))"
      then show ?thesis using False f
        by (intro disjI1 exI [of _ "y # as"] exI [of _ m] exI [of _ bs]) simp
    qed (use False f in simp)
  qed
qed simp

text \<open>The best message of a prefix: none is acceptable, or it is the first of the lowest type.\<close>

definition low_of :: "msgst \<Rightarrow> int \<Rightarrow> nat list \<Rightarrow> ptr \<times> ptr \<Rightarrow> bool" where
  "low_of st lim xs best \<longleftrightarrow>
     (fst best = None \<and> (\<forall>a\<in>set xs. lim < mtype st a)) \<or>
     (\<exists>as m bs. xs = as @ m # bs \<and> best = (Some m, lastp None as) \<and> mtype st m \<le> lim \<and>
        (\<forall>a\<in>set as. mtype st a \<le> lim \<longrightarrow> mtype st m < mtype st a) \<and>
        (\<forall>b\<in>set bs. mtype st b \<le> lim \<longrightarrow> mtype st m \<le> mtype st b))"

lemma low_of_step:
  assumes "low_of st lim pre best" "q = lastp None pre"
  shows "low_of st lim (pre @ [y]) (if mtype st y \<le> lim \<and>
      \<not> (case fst best of None \<Rightarrow> False | Some b \<Rightarrow> mtype st b \<le> mtype st y) then (Some y, q) else best)"
  using assms(1) unfolding low_of_def
proof (elim disjE exE conjE)
  assume a: "fst best = None" "\<forall>a\<in>set pre. lim < mtype st a"
  then show "fst (if mtype st y \<le> lim \<and> \<not> (case fst best of None \<Rightarrow> False | Some b \<Rightarrow> mtype st b \<le> mtype st y) then (Some y, q) else best) = None \<and>
       (\<forall>a\<in>set (pre @ [y]). lim < mtype st a) \<or>
    (\<exists>as m bs. pre @ [y] = as @ m # bs \<and> (if mtype st y \<le> lim \<and> \<not> (case fst best of None \<Rightarrow> False | Some b \<Rightarrow> mtype st b \<le> mtype st y) then (Some y, q) else best) = (Some m, lastp None as) \<and> mtype st m \<le> lim \<and>
        (\<forall>a\<in>set as. mtype st a \<le> lim \<longrightarrow> mtype st m < mtype st a) \<and>
        (\<forall>b\<in>set bs. mtype st b \<le> lim \<longrightarrow> mtype st m \<le> mtype st b))"
  proof (cases "mtype st y \<le> lim")
    case True
    then show ?thesis using a assms(2) by (intro disjI2 exI [of _ pre] exI [of _ y] exI [of _ "[]"]) auto
  qed auto
next
  fix as m bs
  assume a: "pre = as @ m # bs" "best = (Some m, lastp None as)" "mtype st m \<le> lim"
    "\<forall>a\<in>set as. mtype st a \<le> lim \<longrightarrow> mtype st m < mtype st a" "\<forall>b\<in>set bs. mtype st b \<le> lim \<longrightarrow> mtype st m \<le> mtype st b"
  show "fst (if mtype st y \<le> lim \<and> \<not> (case fst best of None \<Rightarrow> False | Some b \<Rightarrow> mtype st b \<le> mtype st y) then (Some y, q) else best) = None \<and>
       (\<forall>a\<in>set (pre @ [y]). lim < mtype st a) \<or>
    (\<exists>as m bs. pre @ [y] = as @ m # bs \<and> (if mtype st y \<le> lim \<and> \<not> (case fst best of None \<Rightarrow> False | Some b \<Rightarrow> mtype st b \<le> mtype st y) then (Some y, q) else best) = (Some m, lastp None as) \<and> mtype st m \<le> lim \<and>
        (\<forall>a\<in>set as. mtype st a \<le> lim \<longrightarrow> mtype st m < mtype st a) \<and>
        (\<forall>b\<in>set bs. mtype st b \<le> lim \<longrightarrow> mtype st m \<le> mtype st b))"
  proof (cases "mtype st y < mtype st m")
    case True
    then show ?thesis using a assms(2) by (intro disjI2 exI [of _ pre] exI [of _ y] exI [of _ "[]"]) auto
  next
    case False
    then show ?thesis using a by (intro disjI2 exI [of _ as] exI [of _ m] exI [of _ "bs @ [y]"]) auto
  qed
qed

lemma find_low_ok:
  "linked (mnext st) p ys \<Longrightarrow> length ys \<le> n \<Longrightarrow> q = lastp None pre \<Longrightarrow> low_of st lim pre best \<Longrightarrow>
   \<exists>r. msg_find_low n st lim q p best = Some r \<and> low_of st lim (pre @ ys) r"
proof (induction ys arbitrary: p n q pre best)
  case (Cons y ys)
  obtain k where n: "n = Suc k" "length ys \<le> k" using Cons.prems(2) by (cases n) auto
  have p: "p = Some y" "linked (mnext st) (mnext st y) ys" using Cons.prems(1) by auto
  have "Some y = lastp None (pre @ [y])" by simp
  from Cons.IH [OF p(2) n(2) this low_of_step [OF Cons.prems(4,3)]] show ?case using n p by simp
qed simp

lemma msg_select_ok:
  assumes l: "linked (mnext st) (msg_first (msgque st i)) xs" and n: "length xs \<le> msgtql mi"
  shows "(\<exists>as m bs. xs = as @ m # bs \<and> msg_select mi st i t = Some (Some m, lastp None as) \<and>
       mdue t (map (mtype st) as) (mtype st m) (map (mtype st) bs)) \<or>
    (\<exists>pm. msg_select mi st i t = Some (None, pm) \<and> (\<forall>m\<in>set xs. \<not> maccepts t (mtype st m)))"
proof -
  consider "t = 0" | "0 < t" | "t < 0" by linarith
  then show ?thesis
  proof cases
    case 1
    then have "msg_select mi st i t = Some (hdp xs, None)" using linked_hdp [OF l] by (simp add: msg_select_def)
    then show ?thesis using 1 by (cases xs) (auto simp: mdue_def maccepts_def intro!: exI [of _ "[]"])
  next
    case 2
    then have s: "msg_select mi st i t = msg_find_type (msgtql mi) st t None (msg_first (msgque st i))" by (simp add: msg_select_def)
    have "None = lastp None []" by simp
    from find_type_ok [OF l n this, of t] show ?thesis
    proof (elim disjE exE conjE)
      fix as m bs
      assume "xs = as @ m # bs" "mtype st m = t" "\<forall>a\<in>set as. mtype st a \<noteq> t"
        "msg_find_type (msgtql mi) st t None (msg_first (msgque st i)) = Some (Some m, lastp None ([] @ as))"
      then show ?thesis using 2 s by (intro disjI1 exI [of _ as] exI [of _ m] exI [of _ bs]) (auto simp: mdue_def maccepts_def)
    qed (use 2 s in \<open>auto simp: maccepts_def\<close>)
  next
    case 3
    then have s: "msg_select mi st i t = msg_find_low (msgtql mi) st (int32 (- t)) None (msg_first (msgque st i)) (None, None)"
      by (simp add: msg_select_def)
    have "low_of st (int32 (- t)) [] (None, None)" by (simp add: low_of_def)
    from find_low_ok [OF l n _ this, of None] obtain r where
      r: "msg_select mi st i t = Some r" "low_of st (int32 (- t)) xs r" unfolding s by auto
    from r(2) show ?thesis unfolding low_of_def
    proof (elim disjE exE conjE)
      assume "fst r = None" "\<forall>a\<in>set xs. int32 (- t) < mtype st a"
      then show ?thesis using r(1) 3 by (intro disjI2 exI [of _ "snd r"]) (auto simp: maccepts_def prod_eq_iff)
    next
      fix as m bs
      assume "xs = as @ m # bs" "r = (Some m, lastp None as)" "mtype st m \<le> int32 (- t)"
        "\<forall>a\<in>set as. mtype st a \<le> int32 (- t) \<longrightarrow> mtype st m < mtype st a"
        "\<forall>b\<in>set bs. mtype st b \<le> int32 (- t) \<longrightarrow> mtype st m \<le> mtype st b"
      then show ?thesis using r(1) 3
        by (intro disjI1 exI [of _ as] exI [of _ m] exI [of _ bs]) (auto simp: mdue_def maccepts_def)
    qed
  qed
qed

section \<open>Receiving a message\<close>

lemma freed_count_ok:
  assumes q: "msg_qnum (msgque st i) = int (length (as @ m # bs))" "length (as @ m # bs) < 65536"
    and c: "msg_cbytes (msgque st i) = uint16 (sum_list (map (\<lambda>n. msg_ts (msgh st n)) (as @ m # bs)) - msg_ts (msgh st m))"
    and b: "sum_list (map (\<lambda>n. msg_ts (msgh st n)) (as @ m # bs)) < 65536" "\<forall>n\<in>set (as @ bs). 0 \<le> msg_ts (msgh st n)"
      "0 \<le> msg_qbytes (msgque st i)" "msg_qbytes (msgque st i) < 65536" "0 \<le> msg_ts (msgh st m)"
    and pm: "pm \<noteq> Some m" "map_freed (msgmap st) mp w" and L: "L (Some i) = as @ bs"
  shows "msg_count_ok (msg_freed i pm m mp w st) L i"
proof -
  have body: "msg_ts (msgh (msg_freed i pm m mp w st) n) = msg_ts (msgh st n)" for n
    using freed_body [OF pm(1), of st n i mp w] by (simp add: same_body_def)
  let ?S = "sum_list (map (\<lambda>n. msg_ts (msgh st n)) (as @ bs))"
  have "0 \<le> ?S" by (rule sum_list_nonneg) (use b(2) in auto)
  moreover have "?S < 65536" using b(1,5) by simp
  ultimately have "msg_cbytes (msgque st i) = ?S" unfolding c by (simp add: uint16_def)
  moreover have "msg_qnum (msgque (msg_freed i pm m mp w st) i) = int (length (as @ bs))"
    by (rule freed_count) (use q in simp_all)
  moreover have "msg_cbytes (msgque (msg_freed i pm m mp w st) i) = msg_cbytes (msgque st i)"
    "msg_qbytes (msgque (msg_freed i pm m mp w st) i) = msg_qbytes (msgque st i)" by (simp_all add: msg_freed_def qcut_def)
  ultimately show ?thesis using b L \<open>?S < 65536\<close> body by (simp add: msg_count_ok_def)
qed

lemma take_msg_text: "k \<le> n \<Longrightarrow> msg_text mi st m k = take k (msg_text mi st m n)"
  by (simp add: msg_text_def take_map)

definition rcv_taken :: "msginfo \<Rightarrow> int \<Rightarrow> int \<Rightarrow> u32 \<Rightarrow> nat \<Rightarrow> nat list \<Rightarrow> nat \<Rightarrow> nat list \<Rightarrow> msgst \<Rightarrow>
    (nat option \<Rightarrow> nat list) \<Rightarrow> msgst \<Rightarrow> (nat option \<Rightarrow> nat list) \<Rightarrow> bool" where
  "rcv_taken mi msgp msgsz flg i as m bs st L st' L' \<longleftrightarrow>
     L' (Some i) = as @ bs \<and> (\<forall>j. j \<noteq> i \<longrightarrow> L' (Some j) = L (Some j)) \<and> (\<forall>xs. mview mi st' xs = mview mi st xs) \<and>
     u_error st' = u_error st \<and> (msg_ts (msgh st m) \<le> msgsz \<or> flg AND MSG_NOERROR \<noteq> 0) \<and>
     u_rval1 st' = min msgsz (msg_ts (msgh st m)) \<and>
     msg_copies st' = msg_copies st @ [OutMsg msgp (mtype st m) (take (nat msgsz) (msg_text mi st m (nat (msg_ts (msgh st m)))))]"

definition mu_writable :: "msg_umem \<Rightarrow> int \<Rightarrow> bool" where
  "mu_writable um a \<longleftrightarrow> mu_put um a \<and> (\<forall>n. mu_put_text um a n)"

lemma msgrcv_take_ok:
  assumes inv: "msg_inv mi st L" and i: "i < msgmni mi" and L: "L (Some i) = as @ m # bs" and sz: "0 \<le> msgsz"
  shows "\<exists>st' L'. msgrcv_take mi u time um msgp msgsz flg i m (lastp None as) st = Some st' \<and> msg_call_ok mi st L st' L' \<and>
    (L' = L \<and> same_tabs st st' \<and> msg_copies st' = msg_copies st \<and>
       (u_error st' = Some EFAULT \<and> \<not> mu_writable um msgp \<or> u_error st' = Some E2BIG \<and> msgsz < msg_ts (msgh st m) \<and> flg AND MSG_NOERROR = 0) \<or>
     rcv_taken mi msgp msgsz flg i as m bs st L st' L')"
proof -
  have core: "msg_core mi st {} L" and cnt: "\<And>j. j < msgmni mi \<Longrightarrow> msg_count_ok st L j" using inv by (simp_all add: msg_inv_def)
  note D = msg_coreD [OF core] and U = msg_core_used [OF core i L]
  have fail: "msg_call_ok mi st L (set_error e st) L \<and> same_tabs st (set_error e st)" for e
    using msg_call_ok_same [OF inv, of "set_error e st" "[]"] by (simp add: same_tabs_def)
  let ?ts = "msg_ts (msgh st m)"
  have fit: "msg_fit mi (msgh st m)" by (rule msg_storeD(3) [OF D(4) U(1)])
  then have ts: "0 \<le> ?ts" by (simp add: msg_fit_def)
  define k where "k = (if msgsz < ?ts then msgsz else ?ts)"
  define st1 where "st1 = upd_q i (\<lambda>q. q\<lparr>msg_cbytes := uint16 (msg_cbytes q - ?ts), msg_lrpid := uint16 (u_pid u), msg_rtime := time\<rparr>)
      (st\<lparr>msg_copies := msg_copies st @ [OutMsg msgp (mtype st m) (msg_text mi st m (nat k))], u_rval1 := k\<rparr>)"
  have e: "msgrcv_take mi u time um msgp msgsz flg i m (lastp None as) st =
     (if msgsz < ?ts \<and> flg AND MSG_NOERROR = 0 then Some (set_error E2BIG st)
      else if \<not> mu_put um msgp \<or> k \<noteq> 0 \<and> \<not> mu_put_text um msgp (nat k) then Some (set_error EFAULT st)
      else msgfree mi i (lastp None as) m st1)"
    by (simp add: msgrcv_take_def k_def st1_def Let_def)
  show ?thesis
  proof (cases "msgsz < ?ts \<and> flg AND MSG_NOERROR = 0 \<or> \<not> mu_put um msgp \<or> k \<noteq> 0 \<and> \<not> mu_put_text um msgp (nat k)")
    case True
    then show ?thesis unfolding e using fail by (auto intro!: exI [of _ L] simp: mu_writable_def)
  next
    case False
    have l1: "msg_lists mi st1 {} L"
      using core msg_lists_cong [of st1 st mi "{}" L] by (simp add: msg_core_def st1_def)
    have p1: "msg_perms st1 = msg_perms st" by (auto simp: msg_perms_def st1_def)
    have m1: "msgh st1 = msgh st" "msgmap st1 = msgmap st" "msgfp st1 = msgfp st" by (simp_all add: st1_def)
    have c1: "msg_core mi st1 {} L" using core l1 p1 by (simp add: msg_core_def m1)
    obtain mp w where f: "msgfree mi i (lastp None as) m st1 = Some (msg_freed i (lastp None as) m mp w st1)"
      "msg_core mi (msg_freed i (lastp None as) m mp w st1) {} (L(Some i := as @ bs, None := m # L None))"
      "msg_quiet mi st1 L (msg_freed i (lastp None as) m mp w st1) (L(Some i := as @ bs, None := m # L None)) (freed_wakes i w st1)"
      "map_freed (msgmap st1) mp w"
      by (rule msgfree_ok [OF c1 i L])
    let ?s = "msg_freed i (lastp None as) m mp w st1" and ?L = "L(Some i := as @ bs, None := m # L None)"
    note K = freed_keeps [OF U(3) f(4), of i]
    have body: "same_body (msgh st n) (msgh ?s n)" for n using K by (simp add: msg_keeps_def m1)
    have que: "msgque ?s j = msgque st j" if "j \<noteq> i" for j using K that by (simp add: msg_keeps_def st1_def)
    have nn: "\<forall>n\<in>set (as @ bs). 0 \<le> msg_ts (msgh st1 n)"
    proof
      fix n assume "n \<in> set (as @ bs)"
      then have "n \<in> msg_used mi L" using used_simps(3) [OF i, of L] L by auto
      then show "0 \<le> msg_ts (msgh st1 n)" using msg_storeD(3) [OF D(4)] by (simp add: m1 msg_fit_def)
    qed
    have "msg_count_ok ?s ?L i"
    proof (rule freed_count_ok [OF _ _ _ _ nn])
      show "msg_qnum (msgque st1 i) = int (length (as @ m # bs))" using cnt [OF i] L by (simp add: msg_count_ok_def st1_def)
      show "length (as @ m # bs) < 65536" using queue_length(1) [OF core i] L by simp
      show "msg_cbytes (msgque st1 i) = uint16 (sum_list (map (\<lambda>n. msg_ts (msgh st1 n)) (as @ m # bs)) - msg_ts (msgh st1 m))"
        "sum_list (map (\<lambda>n. msg_ts (msgh st1 n)) (as @ m # bs)) < 65536"
        "0 \<le> msg_qbytes (msgque st1 i)" "msg_qbytes (msgque st1 i) < 65536"
        using cnt [OF i] L by (simp_all add: msg_count_ok_def st1_def)
    qed (use ts U(3) f(4) m1 in simp_all)
    moreover have "msg_count_ok ?s ?L j" if "j < msgmni mi" "j \<noteq> i" for j
      by (rule count_keep [OF cnt [OF that(1)] que [OF that(2)] body]) (use that in simp)
    ultimately have inv': "msg_inv mi ?s ?L" using f(2) unfolding msg_inv_def by blast
    have q1: "msg_quiet mi st L st1 L {}"
      using p1 by (auto simp: msg_quiet_def same_id_def mtypes_def st1_def)
    obtain ws where ws: "msg_wakes ?s = msg_wakes st1 @ ws" "set ws = freed_wakes i w st1" using freed_wakes by blast
    have "msg_quiet mi st L ?s ?L (set ws)" using msg_quiet_trans [OF q1 f(3)] ws(2) by simp
    moreover have "msg_wakes ?s = msg_wakes st @ ws" using ws(1) by (simp add: st1_def)
    moreover have "unat (mapwant (msgmap ?s)) \<le> Suc (unat (mapwant (msgmap st)))" using K by (auto simp: msg_keeps_def m1)
    moreover have "msglock ?s = msglock st" using K by (simp add: msg_keeps_def st1_def)
    ultimately have ok: "msg_call_ok mi st L ?s ?L" using inv' unfolding msg_call_ok_def by blast
    have pool: "mpool ?s = mpool st" using K by (simp add: msg_keeps_def st1_def)
    have "mview mi ?s xs = mview mi st xs" for xs by (rule mview_cong) (use body pool in simp_all)
    moreover have "msg_text mi st m (nat k) = take (nat msgsz) (msg_text mi st m (nat ?ts))"
    proof (cases "msgsz < ?ts")
      case True
      then show ?thesis using sz take_msg_text [of "nat k" "nat ?ts" mi st m] by (simp add: k_def)
    next
      case False
      then show ?thesis by (simp add: k_def msg_text_def)
    qed
    ultimately have "rcv_taken mi msgp msgsz flg i as m bs st L ?s ?L"
      using K False by (auto simp: rcv_taken_def msg_keeps_def st1_def k_def min_def)
    then show ?thesis unfolding e using False f(1) ok by auto
  qed
qed

text \<open>The outcomes of a receive: refused, a message taken, or asleep because none is acceptable.\<close>

definition rcv_refused :: "msg_umem \<Rightarrow> int \<Rightarrow> nat \<Rightarrow> int \<Rightarrow> int \<Rightarrow> int \<Rightarrow> u32 \<Rightarrow> msginfo \<Rightarrow> msgst \<Rightarrow> (nat option \<Rightarrow> nat list) \<Rightarrow> errno \<Rightarrow> bool" where
  "rcv_refused um msgp i idn msgsz t flg mi st L e \<longleftrightarrow>
     (e = EIDRM \<and> \<not> is_ident mi st i idn) \<or>
     (is_ident mi st i idn \<and> e = EFAULT \<and> \<not> mu_writable um msgp) \<or>
     (is_ident mi st i idn \<and> e = ENOMSG \<and> flg AND MSG_NOWAIT \<noteq> 0 \<and> (\<forall>m\<in>set (L (Some i)). \<not> maccepts t (mtype st m))) \<or>
     (is_ident mi st i idn \<and> e = E2BIG \<and> flg AND MSG_NOERROR = 0 \<and> (\<exists>as m bs. L (Some i) = as @ m # bs \<and>
        mdue t (map (mtype st) as) (mtype st m) (map (mtype st) bs) \<and> msgsz < msg_ts (msgh st m)))"

definition rcv_out :: "msginfo \<Rightarrow> msg_umem \<Rightarrow> int \<Rightarrow> int \<Rightarrow> int \<Rightarrow> int \<Rightarrow> u32 \<Rightarrow> nat \<Rightarrow> msgst \<Rightarrow> (nat option \<Rightarrow> nat list) \<Rightarrow>
    msg_res \<Rightarrow> msgst \<Rightarrow> (nat option \<Rightarrow> nat list) \<Rightarrow> bool" where
  "rcv_out mi um idn msgp msgsz t flg i st L res st' L' \<longleftrightarrow>
     (res = MsgRet \<and> L' = L \<and> same_tabs st st' \<and> msg_copies st' = msg_copies st \<and>
        (\<exists>e. u_error st' = Some e \<and> rcv_refused um msgp i idn msgsz t flg mi st L e)) \<or>
     (res = MsgRet \<and> is_ident mi st i idn \<and> (\<exists>as m bs. L (Some i) = as @ m # bs \<and>
        mdue t (map (mtype st) as) (mtype st m) (map (mtype st) bs) \<and> rcv_taken mi msgp msgsz flg i as m bs st L st' L')) \<or>
     (res = MsgSleep (MQnum i) PcLoop i \<and> L' = L \<and> is_ident mi st i idn \<and> is_ident mi st' i idn \<and> rwait st' i \<and>
        (\<forall>xs. mview mi st' xs = mview mi st xs) \<and> flg AND MSG_NOWAIT = 0 \<and> msg_copies st' = msg_copies st \<and> u_error st' = u_error st \<and>
        msgh st' = msgh st \<and> (\<forall>m\<in>set (L (Some i)). \<not> maccepts t (mtype st m)))"

lemma is_ident_locked [simp]: "is_ident mi (st\<lparr>msglock := l\<rparr>) i idn = is_ident mi st i idn"
  by (simp add: is_ident_def msg_perms_def)

lemma is_ident_same: "same_tabs st st' \<Longrightarrow> is_ident mi st' i idn = is_ident mi st i idn"
  by (simp add: is_ident_def msg_perms_def same_tabs_def)

lemma msg_unlock_sel [simp]:
  "same_tabs st (msg_unlock i st)" "u_error (msg_unlock i st) = u_error st" "u_rval1 (msg_unlock i st) = u_rval1 st"
  "msg_copies (msg_unlock i st) = msg_copies st" "msgh (msg_unlock i st) = msgh st" "msgque (msg_unlock i st) = msgque st"
  "mpool (msg_unlock i st) = mpool st" "msgfp (msg_unlock i st) = msgfp st" "msgmap (msg_unlock i st) = msgmap st"
  by (simp_all add: msg_unlock_def same_tabs_def)

text \<open>What is done under the lock of queue \<open>i\<close> after \<open>msgconv\<close>.\<close>

lemma conv_locked:
  assumes inv: "msg_inv mi st L" and lk: "msg_free_locks st"
    and op: "\<And>st0. st0 = st\<lparr>msglock := (msglock st)(i := True)\<rparr> \<Longrightarrow> msg_inv mi st0 L \<Longrightarrow> msg_call_ok mi st0 L st2 L'"
  shows "msg_call_ok mi st L (msg_unlock i st2) L'" "msg_free_locks (msg_unlock i st2)"
proof -
  let ?s = "st\<lparr>msglock := (msglock st)(i := True)\<rparr>"
  have s: "same_tabs st ?s" "msglock ?s = (msglock st)(i := True)" "msg_wakes ?s = msg_wakes st @ []" by (simp_all add: same_tabs_def)
  have "msg_inv mi ?s L" using inv msg_inv_same [OF s(1)] by simp
  from locked_call(1,2) [OF lk s op [OF refl this]] show "msg_call_ok mi st L (msg_unlock i st2) L'" "msg_free_locks (msg_unlock i st2)" .
qed

lemma call_same:
  assumes "msg_inv mi st L" "same_tabs st st'" "msglock st' = msglock st" "msg_wakes st' = msg_wakes st"
  shows "msg_call_ok mi st L st' L"
  by (rule msg_call_ok_same [OF assms(1-3), where ws = "[]"]) (simp add: assms(4))

lemma que_change_eq: "upd_q i f st = que_change i (f (msgque st i)) st"
  by (simp add: que_change_def)

lemma msgrcv_loop_ok:
  assumes inv: "msg_inv mi st L" and lk: "msg_free_locks st" and i: "i < msgmni mi" and sz: "0 \<le> msgsz"
  shows "\<exists>res st' L'. msgrcv_loop mi u time um idn msgp msgsz t flg i st = Some (res, st') \<and> msg_call_ok mi st L st' L' \<and>
     msg_free_locks st' \<and> rcv_out mi um idn msgp msgsz t flg i st L res st' L'"
proof -
  have core: "msg_core mi st {} L" using inv by (simp add: msg_inv_def)
  have mi: "0 < msgmni mi" using msg_coreD(1) [OF core] by (simp add: mi_ok_def)
  from mi lk show ?thesis
  proof (cases rule: msgconv_cases [where idn = idn])
    case (err st')
    have "msg_call_ok mi st L (set_error EIDRM st') L"
      using msg_call_ok_same [OF inv] err(2,3,4) by (auto simp: same_tabs_def)
    moreover have "rcv_out mi um idn msgp msgsz t flg i st L MsgRet (set_error EIDRM st') L"
      using err(2,6,8) by (simp add: rcv_out_def rcv_refused_def same_tabs_def)
    ultimately show ?thesis using err(1,3) lk
      by (intro exI [of _ MsgRet] exI [of _ "set_error EIDRM st'"] exI [of _ L]) (simp add: msgrcv_loop_def msg_free_locks_def)
  next
    case (ok j)
    let ?s = "st\<lparr>msglock := (msglock st)(j := True)\<rparr>"
    have ss: "same_tabs st ?s" by (simp add: same_tabs_def)
    have same: "\<exists>st'. msg_unlock j st2 = st' \<and> msg_call_ok mi st L st' L \<and> msg_free_locks st' \<and> same_tabs st st' \<and>
        msg_copies st' = msg_copies st \<and> u_error st' = u_error st2"
      if "st2 = set_error e ?s" for st2 e
    proof -
      have "msg_call_ok mi st0 L st2 L" if "st0 = ?s" "msg_inv mi st0 L" for st0
        by (rule call_same [OF that(2)]) (simp_all add: that \<open>st2 = set_error e ?s\<close> same_tabs_def)
      from conv_locked [OF inv lk this] show ?thesis using that by (auto simp: same_tabs_def)
    qed
    show ?thesis
    proof (cases "j = i")
      case False
      then have "\<not> is_ident mi st i idn" using is_ident_unique [OF ok(2)] by blast
      then show ?thesis using same [of "set_error EIDRM ?s" EIDRM] False
        by (intro exI [of _ MsgRet] exI [of _ "msg_unlock j (set_error EIDRM ?s)"] exI [of _ L])
          (auto simp: msgrcv_loop_def ok(1) rcv_out_def rcv_refused_def)
    next
      case True
      have l: "linked (mnext ?s) (msg_first (msgque ?s i)) (L (Some i))"
        using chainsD(1) [OF msg_coreD(2) [OF core], of "Some i"] i by simp
      from msg_select_ok [OF l queue_length(2) [OF core i], of t] show ?thesis
      proof (elim disjE exE conjE)
        fix as m bs
        assume a: "L (Some i) = as @ m # bs" "msg_select mi ?s i t = Some (Some m, lastp None as)"
          "mdue t (map (mtype ?s) as) (mtype ?s m) (map (mtype ?s) bs)"
        have "msg_inv mi ?s L" using inv msg_inv_same [OF ss] by simp
        from msgrcv_take_ok [OF this i a(1) sz, of u time um msgp flg] obtain st2 L' where
          r: "msgrcv_take mi u time um msgp msgsz flg i m (lastp None as) ?s = Some st2" "msg_call_ok mi ?s L st2 L'"
          "(L' = L \<and> same_tabs ?s st2 \<and> msg_copies st2 = msg_copies ?s \<and>
             (u_error st2 = Some EFAULT \<and> \<not> mu_writable um msgp \<or> u_error st2 = Some E2BIG \<and> msgsz < msg_ts (msgh ?s m) \<and> flg AND MSG_NOERROR = 0) \<or>
           rcv_taken mi msgp msgsz flg i as m bs ?s L st2 L')" by blast
        have call: "msg_call_ok mi st L (msg_unlock i st2) L'" "msg_free_locks (msg_unlock i st2)"
          using conv_locked [OF inv lk, of i st2 L'] r(2) True by blast+
        have run: "msgrcv_loop mi u time um idn msgp msgsz t flg i st = Some (MsgRet, msg_unlock i st2)"
          using ok(1) True a(2) r(1) by (simp add: msgrcv_loop_def)
        have id: "is_ident mi st i idn" using ok(2) True by simp
        have "rcv_out mi um idn msgp msgsz t flg i st L MsgRet (msg_unlock i st2) L'"
          using r(3)
        proof (elim disjE)
          assume e: "L' = L \<and> same_tabs ?s st2 \<and> msg_copies st2 = msg_copies ?s \<and>
             (u_error st2 = Some EFAULT \<and> \<not> mu_writable um msgp \<or> u_error st2 = Some E2BIG \<and> msgsz < msg_ts (msgh ?s m) \<and> flg AND MSG_NOERROR = 0)"
          then have "same_tabs st (msg_unlock i st2)" by (simp add: same_tabs_def msg_unlock_def)
          moreover have "\<exists>e. u_error st2 = Some e \<and> rcv_refused um msgp i idn msgsz t flg mi st L e"
            using e a(1,3) id unfolding rcv_refused_def by fastforce
          ultimately show ?thesis using e by (simp add: rcv_out_def)
        next
          assume "rcv_taken mi msgp msgsz flg i as m bs ?s L st2 L'"
          then have "rcv_taken mi msgp msgsz flg i as m bs st L (msg_unlock i st2) L'"
            using mview_same [OF ss] mview_same [of st2 "msg_unlock i st2"] by (simp add: rcv_taken_def msg_text_def)
          then show ?thesis using a(1,3) id unfolding rcv_out_def by auto
        qed
        then show ?thesis using run call by blast
      next
        fix pm
        assume a: "msg_select mi ?s i t = Some (None, pm)" "\<forall>m\<in>set (L (Some i)). \<not> maccepts t (mtype ?s m)"
        show ?thesis
        proof (cases "flg AND MSG_NOWAIT = 0")
          case False
          then show ?thesis using same [of "set_error ENOMSG ?s" ENOMSG] True a ok
            by (intro exI [of _ MsgRet] exI [of _ "msg_unlock j (set_error ENOMSG ?s)"] exI [of _ L])
              (auto simp: msgrcv_loop_def rcv_out_def rcv_refused_def)
        next
          case wait: True
          let ?q = "(msgque st i)\<lparr>msg_perm := (msg_perm (msgque st i))\<lparr>ip_mode := ip_mode (msg_perm (msgque st i)) OR MSG_RWAIT\<rparr>\<rparr>"
          let ?st2 = "que_change i ?q ?s"
          have "msg_count_ok st L i" using inv i by (simp add: msg_inv_def)
          then have c: "que_compat (msgque st i) ?q" by (simp add: que_compat_def msg_count_ok_def)
          have "msg_call_ok mi st0 L ?st2 L" if "st0 = ?s" "msg_inv mi st0 L" for st0
            unfolding that(1) by (rule que_change_call) (use that c in simp_all)
          from conv_locked [OF inv lk this] True
          have call: "msg_call_ok mi st L (msg_unlock i ?st2) L" "msg_free_locks (msg_unlock i ?st2)" by blast+
          have run: "msgrcv_loop mi u time um idn msgp msgsz t flg i st = Some (MsgSleep (MQnum i) PcLoop i, msg_unlock i ?st2)"
            using ok(1) True a(1) wait by (simp add: msgrcv_loop_def que_change_def)
          have "mview mi (msg_unlock i ?st2) xs = mview mi st xs" for xs
            by (rule mview_cong) (simp_all add: que_change_def)
          then have "rcv_out mi um idn msgp msgsz t flg i st L (MsgSleep (MQnum i) PcLoop i) (msg_unlock i ?st2) L"
            using a(2) ok(2) True wait
            by (simp add: rcv_out_def is_ident_def msg_perms_def que_change_def)
          then show ?thesis using run call by blast
        qed
      qed
    qed
  qed
qed

lemma rcv_out_same:
  assumes s: "same_tabs st st1" "msg_copies st1 = msg_copies st" "u_error st1 = u_error st"
  shows "rcv_out mi um idn msgp msgsz t flg i st1 L res st' L' = rcv_out mi um idn msgp msgsz t flg i st L res st' L'"
proof -
  have h: "msgh st1 = msgh st" "mpool st1 = mpool st" using s(1) by (simp_all add: same_tabs_def)
  have "rcv_taken mi msgp msgsz flg i as m bs st1 L st' L' = rcv_taken mi msgp msgsz flg i as m bs st L st' L'" for as m bs
    using h s mview_same [OF s(1)] by (simp add: rcv_taken_def msg_text_def)
  moreover have "rcv_refused um msgp i idn msgsz t flg mi st1 L e = rcv_refused um msgp i idn msgsz t flg mi st L e" for e
    by (simp add: rcv_refused_def is_ident_same [OF s(1)] h)
  moreover have "same_tabs st1 st' = same_tabs st st'" using s(1) by (auto simp: same_tabs_def)
  ultimately show ?thesis
    using h s mview_same [OF s(1)] is_ident_same [OF s(1)] by (simp add: rcv_out_def)
qed

text \<open>Calls refused before anything is done, and the caller's right to the operation.\<close>

definition msg_early :: "msgst \<Rightarrow> (nat option \<Rightarrow> nat list) \<Rightarrow> msg_res \<Rightarrow> msgst \<Rightarrow> (nat option \<Rightarrow> nat list) \<Rightarrow> bool" where
  "msg_early st L res st' L' \<longleftrightarrow> res = MsgRet \<and> L' = L \<and> same_tabs st st' \<and> msg_copies st' = msg_copies st \<and>
     u_error st' \<in> Some ` {EINVAL, EACCES, EFAULT}"

lemma conv_early:
  assumes inv: "msg_inv mi st L" and lk: "msg_free_locks st"
    and e: "st2 = set_error e (st\<lparr>msglock := (msglock st)(i := True)\<rparr>)" "e \<in> {EINVAL, EACCES, EFAULT}"
  shows "msg_call_ok mi st L (msg_unlock i st2) L" "msg_free_locks (msg_unlock i st2)" "msg_early st L MsgRet (msg_unlock i st2) L"
proof -
  have "msg_call_ok mi st0 L st2 L" if "st0 = st\<lparr>msglock := (msglock st)(i := True)\<rparr>" "msg_inv mi st0 L" for st0
    by (rule call_same [OF that(2)]) (simp_all add: that e same_tabs_def)
  from conv_locked [OF inv lk this]
  show "msg_call_ok mi st L (msg_unlock i st2) L" "msg_free_locks (msg_unlock i st2)" by blast+
  show "msg_early st L MsgRet (msg_unlock i st2) L" using e by (auto simp: msg_early_def same_tabs_def)
qed

text \<open>The lock given back between the checks and the loop.\<close>

lemma relock:
  assumes inv: "msg_inv mi st L" and lk: "msg_free_locks st"
  shows "msg_inv mi (msg_unlock i (st\<lparr>msglock := (msglock st)(i := True)\<rparr>)) L"
    "msg_free_locks (msg_unlock i (st\<lparr>msglock := (msglock st)(i := True)\<rparr>))"
    "same_tabs st (msg_unlock i (st\<lparr>msglock := (msglock st)(i := True)\<rparr>))"
    "msg_call_ok mi (msg_unlock i (st\<lparr>msglock := (msglock st)(i := True)\<rparr>)) L st' L' \<Longrightarrow> msg_call_ok mi st L st' L'"
proof -
  let ?s = "msg_unlock i (st\<lparr>msglock := (msglock st)(i := True)\<rparr>)"
  have l: "msglock ?s = msglock st" using lk by (simp add: msg_unlock_def msg_free_locks_def fun_eq_iff)
  show s: "same_tabs st ?s" by (simp add: same_tabs_def msg_unlock_def)
  show "msg_inv mi ?s L" using inv msg_inv_same [OF s] by simp
  show "msg_free_locks ?s" using lk l by (simp add: msg_free_locks_def)
  show "msg_call_ok mi st L st' L'" if c: "msg_call_ok mi ?s L st' L'"
    by (rule msg_call_ok_tabs [OF c s, where us = "[MLock i]" and vs = "[]"])
      (use c l in \<open>simp_all add: msg_call_ok_def msg_unlock_def same_tabs_def\<close>)
qed

lemma msgrcv_start_ok:
  assumes inv: "msg_inv mi st L" and lk: "msg_free_locks st"
  shows "\<exists>res st' L'. msgrcv_start mi u time um idn msgp msgsz t flg st = Some (res, st') \<and> msg_call_ok mi st L st' L' \<and>
     msg_free_locks st' \<and> (msg_early st L res st' L' \<and>
         (\<forall>i. is_ident mi st i idn \<longrightarrow> 0 \<le> msgsz \<longrightarrow> fst (ipcaccess u (msg_perms st i) MSG_R st)) \<or>
       (\<exists>i. is_ident mi st i idn \<and> 0 \<le> msgsz \<and> \<not> fst (ipcaccess u (msg_perms st i) MSG_R st) \<and>
          rcv_out mi um idn msgp msgsz t flg i st L res st' L'))"
proof -
  have mi: "0 < msgmni mi" using inv by (simp add: msg_inv_def msg_core_def mi_ok_def)
  from mi lk show ?thesis
  proof (cases rule: msgconv_cases [where idn = idn])
    case (err st')
    have "msg_call_ok mi st L st' L" using msg_call_ok_same [OF inv] err(2,3,4) by blast
    moreover have "msg_early st L MsgRet st' L" using err(2,5,8) by (simp add: msg_early_def)
    ultimately show ?thesis using err(1,3,6) lk
      by (intro exI [of _ MsgRet] exI [of _ st'] exI [of _ L]) (auto simp: msgrcv_start_def msg_free_locks_def)
  next
    case (ok i)
    let ?s = "st\<lparr>msglock := (msglock st)(i := True)\<rparr>"
    have acc: "fst (ipcaccess u p m ?s) = fst (ipcaccess u p m st)" for p m by (simp add: ipcaccess_class)
    have only: "k = i" if "is_ident mi st k idn" for k using is_ident_unique [OF that ok(2)] .
    show ?thesis
    proof (cases rule: ipcaccess_cases [of u "msg_perm (msgque ?s i)" MSG_R ?s])
      case 2
      then have "fst (ipcaccess u (msg_perms st i) MSG_R st)"
        using acc [of "msg_perm (msgque st i)" MSG_R, symmetric] by (simp add: msg_perms_def)
      then have "\<forall>k. is_ident mi st k idn \<longrightarrow> 0 \<le> msgsz \<longrightarrow> fst (ipcaccess u (msg_perms st k) MSG_R st)" using only by blast
      then show ?thesis using 2 conv_early [OF inv lk refl, of EACCES i] ok(1)
        by (intro exI [of _ MsgRet] exI [of _ "msg_unlock i (set_error EACCES ?s)"] exI [of _ L])
          (simp add: msgrcv_start_def)
    next
      case 1
      show ?thesis
      proof (cases "msgsz < 0")
        case True
        then show ?thesis using conv_early [OF inv lk refl, of EINVAL i] ok(1) 1
          by (intro exI [of _ MsgRet] exI [of _ "msg_unlock i (set_error EINVAL ?s)"] exI [of _ L])
            (simp add: msgrcv_start_def)
      next
        case False
        have sz: "0 \<le> msgsz" using False by simp
        let ?u = "msg_unlock i ?s"
        note R = relock [OF inv lk, of i]
        obtain res st' L' where r: "msgrcv_loop mi u time um idn msgp msgsz t flg i ?u = Some (res, st')"
          "msg_call_ok mi ?u L st' L'" "msg_free_locks st'" "rcv_out mi um idn msgp msgsz t flg i ?u L res st' L'"
          using msgrcv_loop_ok [OF R(1,2) ok(3) sz] by blast
        have "msgrcv_start mi u time um idn msgp msgsz t flg st = Some (res, st')"
          using ok(1) 1 sz r(1) by (simp add: msgrcv_start_def)
        moreover have "rcv_out mi um idn msgp msgsz t flg i st L res st' L'"
          using r(4) rcv_out_same [OF R(3)] by simp
        moreover have "\<not> fst (ipcaccess u (msg_perms st i) MSG_R st)" using 1 acc [of "msg_perm (msgque st i)" MSG_R, symmetric] by (simp add: msg_perms_def)
        ultimately show ?thesis using R(4) [OF r(2)] r(3) ok(2) sz by blast
      qed
    qed
  qed
qed

end
