(* ===== verification/MsgSnd.thy ===== *)
theory MsgSnd
  imports MsgRcv
begin

text \<open>
  The pieces of \<open>msgsnd\<close>: a header and text units are taken, the text is copied in without touching the
  text of any queued message, and the message is linked to the end of its queue - or all is given back.
\<close>

section \<open>Headers and text in hand\<close>

lemma core_lists: "msg_core mi st H L \<Longrightarrow> msg_lists mi st H L"
  by (simp add: msg_core_def)

lemma take_header:
  assumes core: "msg_core mi st {} L" and L: "L None = m # fr"
  shows "msg_core mi (st\<lparr>msgfp := mnext st m\<rparr>) {m} (L(None := fr))"
proof -
  let ?s = "st\<lparr>msgfp := mnext st m\<rparr>"
  note D = msg_coreD [OF core]
  have "mhead ?s c = mhead st c" if "c \<noteq> None" for c using that by (cases c) simp_all
  then have "chains (mnext ?s) (mhead ?s) (mchains mi) (L(None := fr)) {m} (msgtql mi)"
    using chains_pop [OF D(2) _ L, of "mhead ?s"] by simp
  then have "msg_lists mi ?s {m} (L(None := fr))" using D(3) by (simp add: msg_lists_def)
  moreover have "msg_perms ?s = msg_perms st" by (simp add: msg_perms_def [abs_def])
  ultimately show ?thesis using core used_simps(2) [of mi L fr] by (simp add: msg_core_def)
qed

lemma give_header:
  assumes core: "msg_core mi st {m} L"
  shows "msg_core mi (msg_free_header m st) {} (L(None := m # L None))"
proof -
  have l: "msg_lists mi (msg_free_header m st) {} (L(None := m # L None))"
    using free_header_lists [OF core_lists [OF core]] by simp
  have p: "msg_perms (msg_free_header m st) = msg_perms st" by (simp add: msg_perms_def [abs_def] msg_free_header_eq)
  have "msg_store mi (msgh (msg_free_header m st)) (msgmap st) (msg_used mi L)"
    by (rule msg_store_cong [OF msg_coreD(4) [OF core]]) (simp add: msg_free_header_eq)
  then have "msg_store mi (msgh (msg_free_header m st)) (msgmap (msg_free_header m st)) (msg_used mi (L(None := m # L None)))"
    unfolding used_simps(2) by (simp add: msg_free_header_eq)
  then show ?thesis using core l unfolding msg_core_def p by simp
qed

lemma store_shrink:
  "msg_store mi mh mp U \<Longrightarrow> rmap_ok mp' \<Longrightarrow> free_units mp' \<subseteq> free_units mp \<Longrightarrow> msg_store mi mh mp' U"
  unfolding msg_store_def by blast

text \<open>Another map, with nothing more free.\<close>

lemma core_map:
  assumes "msg_core mi st H L" "rmap_ok mp" "free_units mp \<subseteq> free_units (msgmap st)"
  shows "msg_core mi (st\<lparr>msgmap := mp\<rparr>) H L"
proof -
  have "msg_lists mi (st\<lparr>msgmap := mp\<rparr>) H L = msg_lists mi st H L" by (rule msg_lists_cong) simp_all
  moreover have "msg_perms (st\<lparr>msgmap := mp\<rparr>) = msg_perms st" by (simp add: msg_perms_def [abs_def])
  ultimately show ?thesis using assms store_shrink unfolding msg_core_def by auto
qed

lemma core_pool: "msg_core mi (st\<lparr>mpool := f\<rparr>) H L = msg_core mi st H L"
  using msg_lists_cong [of "st\<lparr>mpool := f\<rparr>" st mi H L] by (simp add: msg_core_def msg_perms_def [abs_def])

lemma hand_unused:
  assumes "msg_core mi st {m} L"
  shows "m \<notin> set (L (Some i)) \<or> msgmni mi \<le> i" "m \<notin> msg_used mi L" "m < msgtql mi"
proof -
  note C = msg_coreD(2) [OF assms]
  have a: "m \<notin> set (L (Some j))" if "j < msgmni mi" for j using chainsD(3) [OF C, of "Some j" m] that by auto
  then show "m \<notin> set (L (Some i)) \<or> msgmni mi \<le> i" by (cases "i < msgmni mi") auto
  show "m \<notin> msg_used mi L" using a by (auto simp: msg_used_def)
  show "m < msgtql mi" using chainsD(5) [OF C] by simp
qed

section \<open>Linking a message to the end of its queue\<close>

definition msg_filled :: "int \<Rightarrow> int \<Rightarrow> int \<Rightarrow> msg" where
  "msg_filled type cnt spot = \<lparr>msg_next = None, msg_type = type, msg_ts = int16 cnt, msg_spot = (if cnt \<noteq> 0 then int16 spot else - 1)\<rparr>"

definition msg_queued :: "uarea \<Rightarrow> int \<Rightarrow> nat \<Rightarrow> nat \<Rightarrow> int \<Rightarrow> int \<Rightarrow> int \<Rightarrow> msgst \<Rightarrow> msgst" where
  "msg_queued u time i m type cnt spot st = st\<lparr>
     msgque := (msgque st)(i := (msgque st i)\<lparr>msg_qnum := uint16 (msg_qnum (msgque st i) + 1),
       msg_cbytes := uint16 (msg_cbytes (msgque st i) + cnt), msg_lspid := uint16 (u_pid u), msg_stime := time,
       msg_first := (if msg_last (msgque st i) = None then Some m else msg_first (msgque st i)), msg_last := Some m,
       msg_perm := (msg_perm (msgque st i))\<lparr>ip_mode := ip_mode (msg_perm (msgque st i)) AND NOT MSG_RWAIT\<rparr>\<rparr>),
     msgh := (case msg_last (msgque st i) of None \<Rightarrow> (msgh st)(m := msg_filled type cnt spot)
       | Some l \<Rightarrow> (msgh st)(m := msg_filled type cnt spot, l := (msgh st l)\<lparr>msg_next := Some m\<rparr>)),
     msg_wakes := msg_wakes st @ (if rwait st i then [MQnum i] else []), u_rval1 := 0\<rparr>"

lemma msg_enqueue_eq:
  assumes "msg_last (msgque st i) \<noteq> Some m"
  shows "msg_enqueue u time i m type cnt spot st = msg_queued u time i m type cnt spot st"
proof -
  define st1 where "st1 = upd_q i (\<lambda>q. q\<lparr>msg_qnum := uint16 (msg_qnum q + 1), msg_cbytes := uint16 (msg_cbytes q + cnt),
            msg_lspid := uint16 (u_pid u), msg_stime := time\<rparr>) st"
  define st2 where "st2 = upd_m m (\<lambda>h. h\<lparr>msg_next := None, msg_type := type, msg_ts := int16 cnt,
            msg_spot := (if cnt \<noteq> 0 then int16 spot else - 1)\<rparr>) st1"
  define st3 where "st3 = (case msg_last (msgque st2 i) of
             None \<Rightarrow> upd_q i (\<lambda>q. q\<lparr>msg_first := Some m, msg_last := Some m\<rparr>) st2
           | Some l \<Rightarrow> upd_q i (\<lambda>q. q\<lparr>msg_last := Some m\<rparr>) (upd_m l (\<lambda>h. h\<lparr>msg_next := Some m\<rparr>) st2))"
  define st4 where "st4 = (if rwait st3 i then msg_wakeup (MQnum i) (upd_mode i (\<lambda>w. w AND NOT MSG_RWAIT) st3) else st3)"
  have e: "msg_enqueue u time i m type cnt spot st = st4\<lparr>u_rval1 := 0\<rparr>"
    unfolding msg_enqueue_def Let_def st4_def st3_def st2_def st1_def by (rule refl)
  have f: "(msgh st m)\<lparr>msg_next := None, msg_type := type, msg_ts := int16 cnt, msg_spot := (if cnt \<noteq> 0 then int16 spot else - 1)\<rparr> =
      msg_filled type cnt spot" by (simp add: msg_filled_def)
  have last: "msg_last (msgque st2 i) = msg_last (msgque st i)" by (simp add: st1_def st2_def)
  show ?thesis
  proof (cases "msg_last (msgque st i)")
    case None
    then show ?thesis unfolding e st4_def st3_def last
      by (auto intro!: msgst.equality msqid_ds.equality simp: msg_queued_def st2_def st1_def f [simplified] mask_absent)
  next
    case (Some l)
    then have "l \<noteq> m" using assms by simp
    then show ?thesis using Some unfolding e st4_def st3_def last
      by (auto intro!: msgst.equality msqid_ds.equality simp: msg_queued_def st2_def st1_def f [simplified] mask_absent)
  qed
qed

lemma queued_lists:
  assumes l: "msg_lists mi st {m} L" and i: "i < msgmni mi"
  shows "msg_lists mi (msg_queued u time i m type cnt spot st) {} (L(Some i := L (Some i) @ [m]))"
proof -
  let ?s = "msg_queued u time i m type cnt spot st"
  note C = msg_listsD(1) [OF l]
  have iD: "Some i \<in> mchains mi" using i by simp
  have last: "msg_last (msgque st i) = lastp None (L (Some i))" by (rule msg_listsD(2) [OF l i])
  have first: "msg_first (msgque st i) = hdp (L (Some i))" using lists_hdp(2) [OF l i] .
  have m: "m \<notin> set (L (Some i))" using chainsD(3) [OF C iD, of m] by auto
  have hp: "mhead ?s c = mhead st c" if "c \<noteq> Some i" for c using that by (cases c) (auto simp: msg_queued_def)
  have "chains (mnext ?s) (mhead ?s) (mchains mi) (L(Some i := L (Some i) @ [m])) ({m} - {m}) (msgtql mi)"
  proof (rule chains_snoc [OF C iD])
    have "L (Some i) \<noteq> [] \<Longrightarrow> last (L (Some i)) \<noteq> m" using m last_in_set [of "L (Some i)"] by auto
    then show "mnext ?s m = None" using last by (auto simp: msg_queued_def msg_filled_def lastp_def split: option.splits)
    show "mnext ?s (last (L (Some i))) = Some m" if "L (Some i) \<noteq> []"
    proof -
      have "last (L (Some i)) \<noteq> m" using m last_in_set [OF that] by auto
      then show ?thesis using that last by (simp add: msg_queued_def lastp_def)
    qed
    show "mnext ?s b = mnext st b" if "b \<noteq> m" "L (Some i) \<noteq> [] \<Longrightarrow> b \<noteq> last (L (Some i))" for b
      using that last by (auto simp: msg_queued_def lastp_def split: option.splits)
    show "mhead ?s (Some i) = (if L (Some i) = [] then Some m else mhead st (Some i))"
      using last by (auto simp: msg_queued_def lastp_def)
  qed (use hp in auto)
  then show ?thesis using msg_listsD(2) [OF l] by (simp add: msg_lists_def msg_queued_def)
qed

lemma queued_body:
  assumes "msg_last (msgque st i) \<noteq> Some m"
  shows "msgh (msg_queued u time i m type cnt spot st) m = msg_filled type cnt spot"
    "n \<noteq> m \<Longrightarrow> same_body (msgh st n) (msgh (msg_queued u time i m type cnt spot st) n)"
  using assms by (auto simp: msg_queued_def same_body_def split: option.splits)

lemma queued_ok:
  assumes core: "msg_core mi st {m} L" and i: "i < msgmni mi" and live: "ipc_live (msg_perms st i)"
    and fit: "msg_fit mi (msg_filled type cnt spot)" "int16 cnt = cnt"
    and dis: "mblk mi (msg_filled type cnt spot) \<inter> free_units (msgmap st) = {}"
      "\<And>n. n \<in> msg_used mi L \<Longrightarrow> mblk mi (msg_filled type cnt spot) \<inter> mblk mi (msgh st n) = {}"
    and cnt: "\<And>j. j < msgmni mi \<Longrightarrow> msg_count_ok st L j" and room: "msg_cbytes (msgque st i) + cnt < 65536"
  shows "msg_inv mi (msg_queued u time i m type cnt spot st) (L(Some i := L (Some i) @ [m]))"
    "msg_quiet mi st L (msg_queued u time i m type cnt spot st) (L(Some i := L (Some i) @ [m])) (if rwait st i then {MQnum i} else {})"
proof -
  let ?s = "msg_queued u time i m type cnt spot st" and ?L = "L(Some i := L (Some i) @ [m])"
  note D = msg_coreD [OF core]
  have mi: "m \<notin> set (L (Some i))" using hand_unused(1) [OF core, of i] i by simp
  have lm: "msg_last (msgque st i) \<noteq> Some m" using D(3) [OF i] mi by (auto simp: lastp_def split: if_splits)
  have L0: "0 \<le> cnt" using fit by (simp add: msg_fit_def msg_filled_def)
  have used: "msg_used mi ?L = insert m (msg_used mi L)"
    using used_simps(1) [OF i, of L "L (Some i) @ [m]"] used_simps(1) [OF i, of L "L (Some i)", unfolded fun_upd_triv] by auto
  have body: "same_body (msgh st n) (msgh ?s n)" if "n \<noteq> m" for n by (rule queued_body(2) [OF lm that])
  have bm: "msgh ?s m = msg_filled type cnt spot" by (rule queued_body(1) [OF lm])
  have map: "msgmap ?s = msgmap st" by (simp add: msg_queued_def)
  have s0: "msg_store mi (msgh ?s) (msgmap st) (msg_used mi L)"
    by (rule msg_store_cong [OF D(4)]) (use body hand_unused(2) [OF core] in metis)
  have "mblk mi (msgh ?s n) = mblk mi (msgh st n)" if "n \<in> msg_used mi L" for n
    using same_body_fit(2) [OF body] hand_unused(2) [OF core] that by metis
  then have dis': "mblk mi (msgh ?s m) \<inter> mblk mi (msgh ?s n) = {}" if "n \<in> msg_used mi L" for n
    using dis(2) [OF that] bm that by simp
  have store: "msg_store mi (msgh ?s) (msgmap ?s) (msg_used mi ?L)"
    unfolding used map msg_store_def
  proof (intro conjI ballI impI)
    show "rmap_ok (msgmap st)" "free_units (msgmap st) \<subseteq> {1..<32768}" using msg_storeD(1,2) [OF s0] .
    fix n assume n: "n \<in> insert m (msg_used mi L)"
    then show "msg_fit mi (msgh ?s n)" using msg_storeD(3) [OF s0] fit(1) bm by auto
    show "mblk mi (msgh ?s n) \<inter> free_units (msgmap st) = {}" using n msg_storeD(4) [OF s0] dis(1) bm by auto
    fix k assume k: "k \<in> insert m (msg_used mi L)" "n \<noteq> k"
    show "mblk mi (msgh ?s n) \<inter> mblk mi (msgh ?s k) = {}"
    proof (cases "n = m \<or> k = m")
      case True
      then show ?thesis using n k dis' by (auto simp: Int_commute)
    next
      case False
      then show ?thesis using msg_storeD(5) [OF s0, of n k] n k by simp
    qed
  qed
  have perm: "msg_perms ?s j = (msg_perms st j)\<lparr>ip_mode := (if j = i then ip_mode (msg_perms st j) AND NOT MSG_RWAIT else ip_mode (msg_perms st j))\<rparr>" for j
    by (simp add: msg_perms_def msg_queued_def)
  have "keys_unique (msg_perms ?s) (msgmni mi)" by (rule keys_unique_mono [OF D(5)]) (simp add: perm split: if_splits)
  moreover have "\<forall>j < msgmni mi. \<not> ipc_live (msg_perms ?s j) \<longrightarrow> ?L (Some j) = []"
    using D(6) live by (auto simp: perm split: if_splits)
  ultimately have "msg_core mi ?s {} ?L"
    using queued_lists [OF core_lists [OF core] i] D(1) store unfolding msg_core_def by blast
  moreover have "msg_count_ok ?s ?L j" if j: "j < msgmni mi" for j
  proof (cases "j = i")
    case True
    have len: "length (L (Some i) @ [m]) < 65536"
      using queue_length(1) [OF \<open>msg_core mi ?s {} ?L\<close> i] by simp
    have ts: "map (\<lambda>n. msg_ts (msgh ?s n)) (L (Some i)) = map (\<lambda>n. msg_ts (msgh st n)) (L (Some i))"
      using body mi unfolding same_body_def by (intro map_cong refl) metis
    have "0 \<le> sum_list (map (\<lambda>n. msg_ts (msgh st n)) (L (Some i)))"
    proof (rule sum_list_nonneg)
      fix x assume "x \<in> set (map (\<lambda>n. msg_ts (msgh st n)) (L (Some i)))"
      then show "0 \<le> x" using msg_storeD(3) [OF D(4)] used_simps(3) [OF i, of L] by (auto simp: msg_fit_def)
    qed
    have sel: "msg_qnum (msgque ?s i) = uint16 (msg_qnum (msgque st i) + 1)" "msg_qbytes (msgque ?s i) = msg_qbytes (msgque st i)"
      "msg_cbytes (msgque ?s i) = uint16 (msg_cbytes (msgque st i) + cnt)" by (simp_all add: msg_queued_def)
    have tm: "msg_ts (msgh ?s m) = cnt" using bm fit(2) by (simp add: msg_filled_def)
    have c: "msg_qnum (msgque st i) = int (length (L (Some i)))"
      "msg_cbytes (msgque st i) = sum_list (map (\<lambda>n. msg_ts (msgh st n)) (L (Some i)))"
      "0 \<le> msg_qbytes (msgque st i)" "msg_qbytes (msgque st i) < 65536" using cnt [OF i] by (simp_all add: msg_count_ok_def)
    have "msg_count_ok ?s ?L i"
      unfolding msg_count_ok_def sel fun_upd_same map_append sum_list_append ts c(1,2)
      using room len L0 tm c \<open>0 \<le> sum_list _\<close> by (simp add: uint16_def)
    then show ?thesis using True by simp
  next
    case False
    have "same_body (msgh st n) (msgh ?s n)" if "n \<in> set (L (Some j))" for n
      using body hand_unused(1) [OF core, of j] j that by fastforce
    then have e: "map (\<lambda>n. msg_ts (msgh ?s n)) (L (Some j)) = map (\<lambda>n. msg_ts (msgh st n)) (L (Some j))"
      unfolding same_body_def by (intro map_cong refl) blast
    have q: "msgque ?s j = msgque st j" "?L (Some j) = L (Some j)" using False by (simp_all add: msg_queued_def)
    show ?thesis using cnt [OF j] unfolding msg_count_ok_def q e .
  qed
  ultimately show "msg_inv mi ?s ?L" by (simp add: msg_inv_def)
  have id: "same_id st ?s j" for j by (simp add: same_id_def perm)
  have fl: "rwait ?s j \<longleftrightarrow> j \<noteq> i \<and> rwait st j" "wwait ?s j = wwait st j" for j
    by (auto simp: msg_queued_def)
  have ty: "mtypes ?s (?L (Some j)) = mtypes st (L (Some j))" if "j < msgmni mi" "j \<noteq> i" for j
  proof -
    have "mtype ?s n = mtype st n" if "n \<in> set (L (Some j))" for n
      using body [of n] hand_unused(1) [OF core, of j] \<open>j < msgmni mi\<close> that by (auto simp: same_body_def)
    then show ?thesis using that by (auto simp: mtypes_def)
  qed
  show "msg_quiet mi st L ?s ?L (if rwait st i then {MQnum i} else {})"
    unfolding msg_quiet_def
  proof (intro conjI allI impI)
    fix j assume "j < msgmni mi" "ipc_live (msg_perms st j) \<and> rwait st j"
    then show "MQnum j \<in> (if rwait st i then {MQnum i} else {}) \<or> rwait ?s j \<and> same_id st ?s j \<and> mtypes ?s (?L (Some j)) \<subseteq> mtypes st (L (Some j))"
      using fl id ty by (cases "j = i") auto
  next
    fix j assume "ipc_live (msg_perms st j) \<and> wwait st j"
    then show "MQue j \<in> (if rwait st i then {MQnum i} else {}) \<or> wwait ?s j \<and> same_id st ?s j" using fl id by blast
  qed (simp_all add: msg_queued_def)
qed

section \<open>Text in the buffer\<close>

lemma byte_unit:
  assumes "0 < (z::nat)" "z * a \<le> x" "x < z * a + y" "y \<le> z * n"
  shows "a \<le> x div z" "x div z < a + n"
proof -
  show "a \<le> x div z" using assms(1,2) by (simp add: less_eq_div_iff_mult_less_eq mult.commute)
  have "x < (a + n) * z" using assms(3,4) by (simp add: algebra_simps)
  then show "x div z < a + n" using assms(1) by (simp add: div_less_iff_less_mult)
qed

text \<open>Writing into the units of one block leaves the text of messages in other blocks.\<close>

lemma write_apart:
  assumes mi: "mi_ok mi" and f: "msg_fit mi h" and c: "0 < cnt" "cnt < 32768" and b: "length bs \<le> nat cnt"
    and d: "{Suc p ..< Suc p + unat (btoq mi cnt)} \<inter> mblk mi h = {}" and k: "k < nat (msg_ts h)"
  shows "pool_write (msgssz mi * p) bs pool (msgssz mi * nat (msg_spot h) + k) = pool (msgssz mi * nat (msg_spot h) + k)"
proof -
  let ?x = "msgssz mi * nat (msg_spot h) + k"
  have z: "0 < msgssz mi" using mi by (simp add: mi_ok_def)
  have ts: "0 < msg_ts h" "msg_ts h < 32768" "0 \<le> msg_spot h" using k f mi by (auto simp: msg_fit_def mi_ok_def)
  have n: "nat (msg_ts h) \<le> msgssz mi * unat (btoq mi (msg_ts h))" "nat cnt \<le> msgssz mi * unat (btoq mi cnt)"
    using btoq_bounds(3) [OF mi ts(1,2)] btoq_bounds(3) [OF mi c] by (simp_all add: nat_le_iff)
  have u: "nat (msg_spot h) \<le> ?x div msgssz mi" "?x div msgssz mi < nat (msg_spot h) + unat (btoq mi (msg_ts h))"
    by (rule byte_unit [OF z _ _ n(1)]; use k in simp)+
  have "Suc (?x div msgssz mi) \<in> mblk mi h"
    using u ts fit_block(4) [OF mi f] by (simp add: nat_add_distrib)
  moreover have "Suc (?x div msgssz mi) \<in> {Suc p ..< Suc p + unat (btoq mi cnt)}"
    if "msgssz mi * p \<le> ?x" "?x < msgssz mi * p + length bs"
    using byte_unit [OF z that(1) _ n(2)] that(2) b by simp
  ultimately have "\<not> (msgssz mi * p \<le> ?x \<and> ?x < msgssz mi * p + length bs)" using d by blast
  then show ?thesis unfolding pool_write_def by (rule if_not_P)
qed

lemma written_text:
  assumes "length bs = nat n"
  shows "map (\<lambda>k. pool_write a bs pool (a + k)) [0..< nat n] = bs"
  using assms by (auto simp: pool_write_def intro: nth_equalityI)

section \<open>Sending a message\<close>

text \<open>A message's units as the allocator returns them.\<close>

definition snd_block :: "msginfo \<Rightarrow> int \<Rightarrow> u32 \<Rightarrow> nat set" where
  "snd_block mi cnt a = (if cnt = 0 then {} else block a (btoq mi cnt))"

definition snd_room :: "msginfo \<Rightarrow> msgst \<Rightarrow> (nat option \<Rightarrow> nat list) \<Rightarrow> int \<Rightarrow> u32 \<Rightarrow> bool" where
  "snd_room mi st L cnt a \<longleftrightarrow> 0 \<le> cnt \<and> cnt \<le> msgmax mi \<and> (cnt \<noteq> 0 \<longrightarrow> a \<noteq> 0) \<and> snd_block mi cnt a \<subseteq> {1 ..< 32768} \<and>
     snd_block mi cnt a \<inter> free_units (msgmap st) = {} \<and> (\<forall>n\<in>msg_used mi L. snd_block mi cnt a \<inter> mblk mi (msgh st n) = {})"

lemma snd_room_spot:
  assumes mi: "mi_ok mi" and r: "snd_room mi st L cnt a" and c: "cnt \<noteq> 0"
  shows "int32 (uint a) = uint a" "1 \<le> uint a" "uint a + int (unat (btoq mi cnt)) \<le> 32768" "int16 (uint a - 1) = uint a - 1"
    "int16 cnt = cnt" "snd_block mi cnt a = {Suc (nat (uint a - 1)) ..< Suc (nat (uint a - 1)) + unat (btoq mi cnt)}"
    "word_of_int (uint a - 1 + 1) = a" "0 < cnt" "cnt < 32768"
proof -
  show cnt: "0 < cnt" "cnt < 32768" using r c mi by (auto simp: snd_room_def mi_ok_def)
  have n: "0 < unat (btoq mi cnt)" using btoq_bounds(1) [OF mi cnt] by (simp add: unat_gt_0)
  have sub: "{unat a ..< unat a + unat (btoq mi cnt)} \<subseteq> {1 ..< 32768}" using r c by (simp add: snd_room_def snd_block_def block_def)
  then have "unat a \<in> {1 ..< 32768}" "unat a + unat (btoq mi cnt) - 1 \<in> {1 ..< 32768}" using n by auto
  then have u: "1 \<le> unat a" "unat a + unat (btoq mi cnt) \<le> 32768" using n by auto
  have ua: "uint a = int (unat a)" by simp
  show "1 \<le> uint a" "uint a + int (unat (btoq mi cnt)) \<le> 32768" unfolding ua using u by linarith+
  then have b: "uint a < 32768" using n by linarith
  show "int32 (uint a) = uint a" by (rule int32_id) (use b \<open>1 \<le> uint a\<close> in auto)
  show "int16 (uint a - 1) = uint a - 1" by (rule int16_id) (use b \<open>1 \<le> uint a\<close> in auto)
  show "int16 cnt = cnt" by (rule int16_id) (use cnt in auto)
  have "Suc (nat (uint a - 1)) = unat a" using u(1) by (simp add: nat_diff_distrib' flip: nat_uint_eq)
  then show "snd_block mi cnt a = {Suc (nat (uint a - 1)) ..< Suc (nat (uint a - 1)) + unat (btoq mi cnt)}"
    using c by (simp add: snd_block_def block_def)
  show "word_of_int (uint a - 1 + 1) = a" by simp
qed

lemma snd_room_fit:
  assumes mi: "mi_ok mi" and r: "snd_room mi st L cnt a" and t: "1 \<le> type"
  shows "msg_fit mi (msg_filled type cnt (uint a - 1))" "mblk mi (msg_filled type cnt (uint a - 1)) = snd_block mi cnt a" "int16 cnt = cnt"
proof -
  show cnt: "int16 cnt = cnt" by (rule int16_id) (use r mi in \<open>auto simp: snd_room_def mi_ok_def\<close>)
  show "msg_fit mi (msg_filled type cnt (uint a - 1))"
    using r t cnt snd_room_spot(2,3,4) [OF mi r] by (cases "cnt = 0") (auto simp: msg_fit_def msg_filled_def snd_room_def)
  show "mblk mi (msg_filled type cnt (uint a - 1)) = snd_block mi cnt a"
    using cnt snd_room_spot(4,7) [OF mi r] by (cases "cnt = 0") (auto simp: mblk_def msg_filled_def snd_block_def)
qed

lemma room_write:
  assumes mi: "mi_ok mi" and r: "snd_room mi st L cnt a" and c: "cnt \<noteq> 0" and s: "msg_store mi (msgh st) mp (msg_used mi L)"
    and b: "length bs \<le> nat cnt" and m: "set xs \<subseteq> msg_used mi L"
  shows "mview mi (st\<lparr>mpool := pool_write (msgssz mi * nat (uint a - 1)) bs (mpool st)\<rparr>) xs = mview mi st xs"
proof -
  have "pool_write (msgssz mi * nat (uint a - 1)) bs (mpool st) (msgssz mi * nat (msg_spot (msgh st n)) + k) =
      mpool st (msgssz mi * nat (msg_spot (msgh st n)) + k)" if "n \<in> set xs" "k < nat (msg_ts (msgh st n))" for n k
  proof (rule write_apart [OF mi _ snd_room_spot(8,9) [OF mi r c] b _ that(2)])
    show "msg_fit mi (msgh st n)" using msg_storeD(3) [OF s] that m by blast
    show "{Suc (nat (uint a - 1)) ..< Suc (nat (uint a - 1)) + unat (btoq mi cnt)} \<inter> mblk mi (msgh st n) = {}"
      using r that m unfolding snd_room_spot(6) [OF mi r c, symmetric] snd_room_def by blast
  qed
  then show ?thesis by (simp add: mview_def msg_text_def)
qed

lemma filled_store:
  assumes core: "msg_core mi st {m} L" and r: "snd_room mi st L cnt a" and t: "1 \<le> type"
  shows "msg_store mi ((msgh st)(m := msg_filled type cnt (uint a - 1))) (msgmap st) (insert m (msg_used mi L))"
proof -
  note D = msg_coreD [OF core] and F = snd_room_fit [OF msg_coreD(1) [OF core] r t]
  have m: "m \<notin> msg_used mi L" by (rule hand_unused(2) [OF core])
  then show ?thesis
    using D(4) F(1) r unfolding msg_store_def snd_room_def F(2) [symmetric] by (auto simp: Int_commute)
qed

lemma quiet_pool:
  "msg_quiet mi (st\<lparr>mpool := f\<rparr>) L st' L' W = msg_quiet mi st L st' L' W"
  by (simp add: msg_quiet_def same_id_def msg_perms_def mtypes_def)

lemma msgsnd_copy_ok:
  assumes core: "msg_core mi st {m} L" and i: "i < msgmni mi" and live: "ipc_live (msg_perms st i)" and t: "1 \<le> type"
    and r: "snd_room mi st L cnt a" and cnt: "\<And>j. j < msgmni mi \<Longrightarrow> msg_count_ok st L j"
    and space: "msg_cbytes (msgque st i) + cnt < 65536" and um: "msg_um_ok um"
  shows "\<exists>st' L'. msgsnd_copy mi u time um msgp cnt type i m a st = Some st' \<and> msg_call_ok mi st L st' L' \<and> msg_copies st' = msg_copies st \<and>
    ((L' = L(Some i := L (Some i) @ [m]) \<and> u_error st' = u_error st \<and> u_rval1 st' = 0 \<and> (cnt \<noteq> 0 \<longrightarrow> snd (mu_text um msgp (nat cnt))) \<and>
       (\<forall>j < msgmni mi. mview mi st' (L' (Some j)) = mview mi st (L (Some j)) @
          (if j = i then [(type, if cnt = 0 then [] else fst (mu_text um msgp (nat cnt)))] else []))) \<or>
     (L' = L(None := m # L None) \<and> u_error st' = Some EFAULT \<and> cnt \<noteq> 0 \<and> \<not> snd (mu_text um msgp (nat cnt)) \<and>
       (\<forall>j < msgmni mi. mview mi st' (L' (Some j)) = mview mi st (L (Some j)))))"
proof -
  note D = msg_coreD [OF core] and F = snd_room_fit [OF msg_coreD(1) [OF core] r t] and used = used_simps(3) [where L = L]
  have lm: "msg_last (msgque st i) \<noteq> Some m"
    using D(3) [OF i] hand_unused(1) [OF core, of i] i by (auto simp: lastp_def split: if_splits)
  define bs where "bs = (if cnt = 0 then [] else fst (mu_text um msgp (nat cnt)))"
  define st1 where "st1 = (if cnt = 0 then st else st\<lparr>mpool := pool_write (msgssz mi * nat (uint a - 1)) bs (mpool st)\<rparr>)"
  have bl: "length bs \<le> nat cnt" using um by (auto simp: bs_def msg_um_ok_def)
  have v1: "mview mi st1 xs = mview mi st xs" if "set xs \<subseteq> msg_used mi L" for xs
    using room_write [OF D(1) r _ D(4) bl that] by (simp add: st1_def)
  have core1: "msg_core mi st1 {m} L" using core core_pool by (simp add: st1_def)
  have tabs: "msgque st1 = msgque st" "msgh st1 = msgh st" "msgmap st1 = msgmap st" "msgfp st1 = msgfp st" "msglock st1 = msglock st"
    "u_error st1 = u_error st" "msg_wakes st1 = msg_wakes st" "msg_copies st1 = msg_copies st" by (simp_all add: st1_def)
  have quiet1: "msg_quiet mi st L st1 L {}" by (rule msg_quiet_same) (simp_all add: tabs)
  show ?thesis
  proof (cases "cnt = 0 \<or> snd (mu_text um msgp (nat cnt))")
    case True
    let ?q = "msg_queued u time i m type cnt (uint a - 1) st1"
    have e: "msgsnd_copy mi u time um msgp cnt type i m a st = Some ?q"
    proof (cases "cnt = 0")
      case True
      have f0: "msg_filled type 0 0 = msg_filled type 0 (uint a - 1)" by (simp add: msg_filled_def)
      have "msg_queued u time i m type cnt 0 st1 = ?q" unfolding True msg_queued_def f0 by (rule refl)
      then show ?thesis using True msg_enqueue_eq [OF lm] by (simp add: msgsnd_copy_def st1_def)
    next
      case False
      have "msg_last (msgque st1 i) \<noteq> Some m" using lm tabs by simp
      then show ?thesis using False True msg_enqueue_eq [of st1 i m] snd_room_spot(1) [OF D(1) r False]
        by (simp add: msgsnd_copy_def st1_def bs_def Let_def case_prod_beta)
    qed
    have "\<And>j. j < msgmni mi \<Longrightarrow> msg_count_ok st1 L j" using cnt unfolding msg_count_ok_def tabs .
    moreover have "ipc_live (msg_perms st1 i)" "msg_cbytes (msgque st1 i) + cnt < 65536" using live space by (simp_all add: msg_perms_def tabs)
    moreover have "mblk mi (msg_filled type cnt (uint a - 1)) \<inter> free_units (msgmap st1) = {}"
      "\<And>n. n \<in> msg_used mi L \<Longrightarrow> mblk mi (msg_filled type cnt (uint a - 1)) \<inter> mblk mi (msgh st1 n) = {}"
      using r unfolding F(2) tabs snd_room_def by blast+
    ultimately have q: "msg_inv mi ?q (L(Some i := L (Some i) @ [m]))"
      "msg_quiet mi st1 L ?q (L(Some i := L (Some i) @ [m])) (if rwait st1 i then {MQnum i} else {})"
      using queued_ok [OF core1 i _ F(1,3)] by blast+
    have "msg_quiet mi st L ?q (L(Some i := L (Some i) @ [m])) (set (if rwait st1 i then [MQnum i] else []))"
      using msg_quiet_trans [OF quiet1 q(2)] by (simp split: if_splits)
    then have call: "msg_call_ok mi st L ?q (L(Some i := L (Some i) @ [m]))"
      using q(1) unfolding msg_call_ok_def by (auto simp: msg_queued_def tabs)
    have lm1: "msg_last (msgque st1 i) \<noteq> Some m" using lm tabs by simp
    have qp: "mpool ?q = mpool st1" by (simp add: msg_queued_def)
    have old: "mview mi ?q xs = mview mi st xs" if "set xs \<subseteq> msg_used mi L" for xs
    proof -
      have "mview mi ?q xs = mview mi st1 xs"
      proof (rule mview_cong [OF _ qp])
        fix n assume "n \<in> set xs"
        then have "n \<noteq> m" using that hand_unused(2) [OF core] by blast
        then show "same_body (msgh st1 n) (msgh ?q n)" by (rule queued_body(2) [OF lm1])
      qed
      then show ?thesis using v1 [OF that] by simp
    qed
    have new: "mview mi ?q [m] = [(type, bs)]"
    proof (cases "cnt = 0")
      case True
      then show ?thesis using queued_body(1) [OF lm1, where u = u and time = time and type = type and cnt = cnt and spot = "uint a - 1"]
        by (simp add: mview_def msg_text_def msg_filled_def bs_def int16_def)
    next
      case False
      have "length bs = nat cnt" using True False um by (auto simp: bs_def msg_um_ok_def)
      moreover have "mpool ?q = pool_write (msgssz mi * nat (uint a - 1)) bs (mpool st)" using False qp by (simp add: st1_def)
      ultimately show ?thesis
        using written_text [of bs cnt] queued_body(1) [OF lm1, where u = u and time = time and type = type and cnt = cnt and spot = "uint a - 1"] False snd_room_spot(4,5) [OF D(1) r False]
        by (simp add: mview_def msg_text_def msg_filled_def)
    qed
    have "mview mi ?q (L (Some i) @ [m]) = mview mi st (L (Some i)) @ [(type, bs)]"
      using old [OF used [OF i]] new by (simp add: mview_def)
    then have "\<forall>j < msgmni mi. mview mi ?q ((L(Some i := L (Some i) @ [m])) (Some j)) = mview mi st (L (Some j)) @ (if j = i then [(type, bs)] else [])"
      using old [OF used] by simp
    moreover have "u_error ?q = u_error st" "u_rval1 ?q = 0" "msg_copies ?q = msg_copies st" by (simp_all add: msg_queued_def tabs)
    ultimately show ?thesis using e call True unfolding bs_def by blast
  next
    case False
    then have c: "cnt \<noteq> 0" by simp
    let ?h = "(msgh st)(m := msg_filled type cnt (uint a - 1))"
    let ?e = "set_error EFAULT st1"
    have s: "msg_store mi ?h (msgmap ?e) (insert m (msg_used mi L))" using filled_store [OF core r t] by (simp add: tabs)
    have hm: "msg_ts (?h m) = cnt" "msg_spot (?h m) = uint a - 1" using c F(3) snd_room_spot(4) [OF D(1) r c] by (simp_all add: msg_filled_def)
    obtain mp w where f: "msg_mfree (btoq mi cnt) (word_of_int (uint a - 1 + 1)) ?e =
        Some (?e\<lparr>msgmap := mp, msg_wakes := msg_wakes ?e @ (if w then [MMap] else [])\<rparr>)"
      "msg_store mi ?h mp (insert m (msg_used mi L) - {m})" "map_freed (msgmap ?e) mp w"
      by (rule msg_mfree_ok [OF D(1) s, of m, unfolded hm]) (use c in auto)
    let ?f = "?e\<lparr>msgmap := mp, msg_wakes := msg_wakes ?e @ (if w then [MMap] else [])\<rparr>"
    let ?s = "msg_free_header m ?f"
    have e: "msgsnd_copy mi u time um msgp cnt type i m a st = Some ?s"
      using c False f(1) snd_room_spot(1) [OF D(1) r c]
      by (simp add: msgsnd_copy_def st1_def bs_def Let_def case_prod_beta)
    have mu: "insert m (msg_used mi L) - {m} = msg_used mi L" using hand_unused(2) [OF core] by blast
    have "msg_store mi (msgh st) mp (msg_used mi L)"
      by (rule msg_store_cong [OF f(2) [unfolded mu]]) (use hand_unused(2) [OF core] in auto)
    then have "msg_core mi ?f {m} L"
      using core1 msg_lists_cong [of ?f st1 mi "{m}" L] by (simp add: msg_core_def tabs msg_perms_def [abs_def])
    then have core': "msg_core mi ?s {} (L(None := m # L None))" by (rule give_header)
    have sel: "msgque ?s = msgque st" "msgmap ?s = mp" "msglock ?s = msglock st" "mpool ?s = mpool st1" "msg_copies ?s = msg_copies st"
      "u_error ?s = Some EFAULT" "msgh ?s = (msgh st)(m := (msgh st m)\<lparr>msg_next := msgfp st\<rparr>)" "msgfp ?s = Some m"
      by (simp_all add: msg_free_header_eq tabs)
    have body: "same_body (msgh st n) (msgh ?s n)" for n unfolding sel by simp
    have "msg_count_ok ?s (L(None := m # L None)) j" if "j < msgmni mi" for j
      by (rule count_keep [OF cnt [OF that] _ body]) (simp_all only: sel, simp)
    then have inv': "msg_inv mi ?s (L(None := m # L None))" using core' by (simp add: msg_inv_def)
    obtain ws where ws: "msg_wakes ?s = msg_wakes st @ ws" "set ws = (if w then {MMap} else {}) \<union> (if msgfp st = None then {MHdr} else {})"
      by (rule that [of "(if w then [MMap] else []) @ (if msgfp st = None then [MHdr] else [])"]) (auto simp: msg_free_header_eq tabs)
    have ty: "mtypes ?s ((L(None := m # L None)) (Some j)) = mtypes st (L (Some j))" for j
      unfolding mtypes_def sel by auto
    have "msg_quiet mi st L ?s (L(None := m # L None)) (set ws)"
      unfolding msg_quiet_def ty sel ws(2)
      using f(3) unfolding same_id_def msg_perms_def sel by (auto simp: map_freed_def tabs)
    moreover have "unat (mapwant (msgmap ?s)) \<le> Suc (unat (mapwant (msgmap st)))"
      using f(3) unfolding sel by (auto simp: map_freed_def tabs)
    ultimately have call: "msg_call_ok mi st L ?s (L(None := m # L None))"
      using inv' ws(1) sel(3) unfolding msg_call_ok_def by blast
    have "mview mi ?s (L (Some j)) = mview mi st (L (Some j))" if "j < msgmni mi" for j
    proof -
      have "mview mi ?s (L (Some j)) = mview mi st1 (L (Some j))" by (rule mview_cong) (use body in \<open>simp_all only: sel tabs\<close>)
      then show ?thesis using v1 [OF used [OF that]] by simp
    qed
    then have "\<forall>j < msgmni mi. mview mi ?s ((L(None := m # L None)) (Some j)) = mview mi st (L (Some j))" by simp
    then show ?thesis using e call c False sel(5,6) by blast
  qed
qed

end
