(* ===== verification/MsgLoop.thy ===== *)
theory MsgLoop
  imports MsgSnd
begin

text \<open>Queueing a message leaves every identifier as it was.\<close>

lemma enqueue_ident: "is_ident mi (msg_enqueue u time i m type cnt spot st) j idn = is_ident mi st j idn"
  by (cases "msg_last (msgque st i)") (simp_all add: msg_enqueue_def Let_def is_ident_def msg_perms_def)

lemma msg_mfree_que: "msg_mfree n a st = Some st' \<Longrightarrow> msgque st' = msgque st"
  by (auto simp: msg_mfree_def split: option.splits mfree_result.splits if_splits)

lemma snd_copy_ident:
  assumes "msgsnd_copy mi u time um msgp cnt type i m a st = Some st'"
  shows "is_ident mi st' j idn = is_ident mi st j idn"
proof (cases "cnt \<noteq> 0 \<and> \<not> snd (mu_text um msgp (nat cnt))")
  case True
  obtain bs where bs: "mu_text um msgp (nat cnt) = (bs, False)" using True by (metis prod.collapse)
  obtain st2 x where "msg_mfree x (word_of_int (int32 (uint a) - 1 + 1)) (set_error EFAULT (st\<lparr>mpool := pool_write (msgssz mi * nat (int32 (uint a) - 1)) bs (mpool st)\<rparr>)) = Some st2"
    "st' = msg_free_header m st2" using assms True bs by (auto simp: msgsnd_copy_def Let_def)
  then have "msgque st' = msgque st" using msg_mfree_que by (fastforce simp: msg_free_header_eq)
  then show ?thesis by (simp add: is_ident_def msg_perms_def)
next
  case False
  obtain st2 spot where "st' = msg_enqueue u time i m type cnt spot st2" "msgque st2 = msgque st"
    using assms False by (cases "cnt = 0") (auto simp: msgsnd_copy_def Let_def split: prod.splits)
  then show ?thesis by (simp add: enqueue_ident) (simp add: is_ident_def msg_perms_def)
qed
text \<open>
  The loop of \<open>msgsnd\<close>: every round refuses, sends, or sleeps for space in the queue, for a header or for
  units of the buffer, and never sleeps when what it waits for is there.
\<close>

section \<open>The outcomes of a send\<close>

definition snd_full :: "msgst \<Rightarrow> int \<Rightarrow> nat \<Rightarrow> bool" where
  "snd_full st cnt i \<longleftrightarrow> msg_qbytes (msgque st i) < cnt + msg_cbytes (msgque st i)"

definition snd_no_units :: "msginfo \<Rightarrow> msgst \<Rightarrow> int \<Rightarrow> bool" where
  "snd_no_units mi st cnt \<longleftrightarrow> cnt \<noteq> 0 \<and> \<not> (\<exists>b. block b (btoq mi cnt) \<subseteq> free_units (msgmap st))"

definition same_views :: "msginfo \<Rightarrow> msgst \<Rightarrow> (nat option \<Rightarrow> nat list) \<Rightarrow> msgst \<Rightarrow> (nat option \<Rightarrow> nat list) \<Rightarrow> bool" where
  "same_views mi st L st' L' \<longleftrightarrow> (\<forall>j < msgmni mi. mview mi st' (L' (Some j)) = mview mi st (L (Some j)))"

definition sent_views :: "msginfo \<Rightarrow> nat \<Rightarrow> int \<times> u8 list \<Rightarrow> msgst \<Rightarrow> (nat option \<Rightarrow> nat list) \<Rightarrow> msgst \<Rightarrow> (nat option \<Rightarrow> nat list) \<Rightarrow> bool" where
  "sent_views mi i x st L st' L' \<longleftrightarrow>
     (\<forall>j < msgmni mi. mview mi st' (L' (Some j)) = mview mi st (L (Some j)) @ (if j = i then [x] else []))"

definition snd_out :: "msginfo \<Rightarrow> msg_umem \<Rightarrow> int \<Rightarrow> int \<Rightarrow> int \<Rightarrow> u32 \<Rightarrow> int \<Rightarrow> nat \<Rightarrow> msgst \<Rightarrow> (nat option \<Rightarrow> nat list) \<Rightarrow>
    msg_res \<Rightarrow> msgst \<Rightarrow> (nat option \<Rightarrow> nat list) \<Rightarrow> bool" where
  "snd_out mi um idn msgp cnt flg type i st L res st' L' \<longleftrightarrow> msg_copies st' = msg_copies st \<and>
     ((res = MsgRet \<and> same_views mi st L st' L' \<and>
        (u_error st' = Some EIDRM \<and> \<not> is_ident mi st i idn \<or>
         u_error st' = Some EAGAIN \<and> is_ident mi st i idn \<and> flg AND MSG_NOWAIT \<noteq> 0 \<and>
           (snd_full st cnt i \<or> msgfp st = None \<or> snd_no_units mi st cnt) \<or>
         u_error st' = Some EFAULT \<and> is_ident mi st i idn \<and> cnt \<noteq> 0 \<and> \<not> snd (mu_text um msgp (nat cnt)))) \<or>
      (res = MsgRet \<and> is_ident mi st i idn \<and> is_ident mi st' i idn \<and> u_error st' = u_error st \<and> u_rval1 st' = 0 \<and>
        \<not> snd_full st cnt i \<and> (cnt \<noteq> 0 \<longrightarrow> snd (mu_text um msgp (nat cnt))) \<and>
        sent_views mi i (type, if cnt = 0 then [] else fst (mu_text um msgp (nat cnt))) st L st' L') \<or>
      (L' = L \<and> same_views mi st L st' L \<and> is_ident mi st i idn \<and> is_ident mi st' i idn \<and> flg AND MSG_NOWAIT = 0 \<and> u_error st' = u_error st \<and>
        (res = MsgSleep (MQue i) PcLoop i \<and> snd_full st cnt i \<and> wwait st' i \<or>
         res = MsgSleep MHdr PcLoop i \<and> msgfp st' = None \<or>
         res = MsgSleep MMap PcLoop i \<and> snd_no_units mi st' cnt \<and> mapwant (msgmap st') \<noteq> 0)))"

lemma alloc_fail:
  assumes "rmap_ok mp" "n \<noteq> 0" "malloc mp n = Some (0, mp')"
  shows "mp' = mp \<and> \<not> (\<exists>b. block b n \<subseteq> free_units mp)"
  using rm.alloc_fail [OF assms] malloc_lowest [OF assms(1,2,3)] by blast

text \<open>The header given back because there was no space for the text.\<close>

lemma return_header:
  assumes inv: "msg_inv mi st L" and L: "L None = m # fr"
    and s: "st1 = st\<lparr>msgfp := mnext st m, msgmap := mp, u_error := er\<rparr>"
    and mp: "rmap_ok mp" "free_units mp = free_units (msgmap st)" "mapwant (msgmap st) \<noteq> 0 \<longrightarrow> mapwant mp \<noteq> 0"
      "unat (mapwant mp) \<le> Suc (unat (mapwant (msgmap st)))"
  shows "msg_call_ok mi st L (msg_free_header m st1) L" "same_views mi st L (msg_free_header m st1) L"
    "msgque (msg_free_header m st1) = msgque st" "u_error (msg_free_header m st1) = er"
    "msgmap (msg_free_header m st1) = mp" "msg_copies (msg_free_header m st1) = msg_copies st"
proof -
  have core: "msg_core mi st {} L" and cnt: "\<And>j. j < msgmni mi \<Longrightarrow> msg_count_ok st L j" using inv by (simp_all add: msg_inv_def)
  have "msg_core mi ((st\<lparr>msgfp := mnext st m\<rparr>)\<lparr>msgmap := mp\<rparr>) {m} (L(None := fr))"
    by (rule core_map [OF take_header [OF core L] mp(1)]) (simp add: mp(2))
  moreover have "same_tabs ((st\<lparr>msgfp := mnext st m\<rparr>)\<lparr>msgmap := mp\<rparr>) st1" by (simp add: s same_tabs_def)
  ultimately have "msg_core mi st1 {m} (L(None := fr))" using msg_core_same by blast
  from give_header [OF this] have core': "msg_core mi (msg_free_header m st1) {} L" using L by (simp add: fun_upd_idem)
  have sel: "msgque (msg_free_header m st1) = msgque st" "u_error (msg_free_header m st1) = er"
    "msgmap (msg_free_header m st1) = mp" "msg_copies (msg_free_header m st1) = msg_copies st"
    "mpool (msg_free_header m st1) = mpool st" "msglock (msg_free_header m st1) = msglock st" "msgfp (msg_free_header m st1) = Some m"
    "msgh (msg_free_header m st1) = (msgh st)(m := (msgh st m)\<lparr>msg_next := mnext st m\<rparr>)"
    by (simp_all add: msg_free_header_eq s)
  then show "msgque (msg_free_header m st1) = msgque st" "u_error (msg_free_header m st1) = er"
    "msgmap (msg_free_header m st1) = mp" "msg_copies (msg_free_header m st1) = msg_copies st" by blast+
  have h: "msgh (msg_free_header m st1) = msgh st" unfolding sel by simp
  have "msg_count_ok (msg_free_header m st1) L j" if "j < msgmni mi" for j
    using cnt [OF that] unfolding msg_count_ok_def sel(1) h .
  then have inv': "msg_inv mi (msg_free_header m st1) L" using core' by (simp add: msg_inv_def)
  obtain ws where ws: "msg_wakes (msg_free_header m st1) = msg_wakes st @ ws" by (auto simp: msg_free_header_eq s)
  have f: "msgfp st = Some m" using msg_core_heads(1) [OF core] L by simp
  have "msg_quiet mi st L (msg_free_header m st1) L (set ws)"
    unfolding msg_quiet_def mtypes_def same_id_def msg_perms_def sel(1,3,7) h using f mp(2,3) by simp
  then show "msg_call_ok mi st L (msg_free_header m st1) L"
    unfolding msg_call_ok_def sel(3) using inv' ws sel(6) mp(4) by blast
  show "same_views mi st L (msg_free_header m st1) L"
    unfolding same_views_def by (intro allI impI mview_cong) (simp_all only: h sel(5), simp)
qed

lemma same_tabs_views: "same_tabs st st' \<Longrightarrow> same_views mi st L st' L"
  using mview_same by (simp add: same_views_def)

text \<open>From the state before the lock was taken to the state after it is released.\<close>

lemma snd_out_locked:
  assumes "st0 = st\<lparr>msglock := l\<rparr>" "snd_out mi um idn msgp cnt flg type i st0 L res st2 L'"
  shows "snd_out mi um idn msgp cnt flg type i st L res (msg_unlock i st2) L'"
proof -
  have v: "mview mi st0 xs = mview mi st xs" for xs by (rule mview_same) (simp add: assms(1) same_tabs_def)
  have v2: "mview mi (msg_unlock i st2) xs = mview mi st2 xs" for xs by (rule mview_same) simp
  have id: "is_ident mi (msg_unlock i st2) i idn = is_ident mi st2 i idn" by (rule is_ident_same) simp
  show ?thesis using assms(2)
    unfolding snd_out_def same_views_def sent_views_def v v2 id snd_full_def snd_no_units_def
    by (simp add: assms(1))
qed

lemma msgsnd_loop_ok:
  assumes inv: "msg_inv mi st L" and lk: "msg_free_locks st" and i: "i < msgmni mi"
    and c: "0 \<le> cnt" "cnt \<le> msgmax mi" "1 \<le> type" and um: "msg_um_ok um"
    and w: "unat (mapwant (msgmap st)) < 4294967295"
  shows "\<exists>res st' L'. msgsnd_loop mi u time um idn msgp cnt flg type i st = Some (res, st') \<and> msg_call_ok mi st L st' L' \<and>
     msg_free_locks st' \<and> snd_out mi um idn msgp cnt flg type i st L res st' L'"
proof -
  have core: "msg_core mi st {} L" and cnt: "\<And>j. j < msgmni mi \<Longrightarrow> msg_count_ok st L j" using inv by (simp_all add: msg_inv_def)
  note D = msg_coreD [OF core]
  have mi: "0 < msgmni mi" using D(1) by (simp add: mi_ok_def)
  from mi lk show ?thesis
  proof (cases rule: msgconv_cases [where idn = idn])
    case (err st')
    have "msg_call_ok mi st L (set_error EIDRM st') L"
      using msg_call_ok_same [OF inv] err(2,3,4) by (auto simp: same_tabs_def)
    moreover have "same_views mi st L (set_error EIDRM st') L" by (rule same_tabs_views) (use err(2) in \<open>simp add: same_tabs_def\<close>)
    ultimately show ?thesis using err(1,3,6,8) lk
      by (intro exI [of _ MsgRet] exI [of _ "set_error EIDRM st'"] exI [of _ L])
        (auto simp: msgsnd_loop_def msg_free_locks_def snd_out_def)
  next
    case (ok j)
    define st0 where "st0 = st\<lparr>msglock := (msglock st)(j := True)\<rparr>"
    have ss: "same_tabs st st0" by (simp add: same_tabs_def st0_def)
    have inv0: "msg_inv mi st0 L" using inv msg_inv_same [OF ss] by simp
    have conv: "msgconv mi idn st = (CvOk j, st0)" using ok(1) by (simp add: st0_def)
    have run: "\<exists>res' st' L''. Some (res, msg_unlock j st2) = Some (res', st') \<and> msg_call_ok mi st L st' L'' \<and>
        msg_free_locks st' \<and> snd_out mi um idn msgp cnt flg type i st L res' st' L''"
      if "msg_call_ok mi st0 L st2 L'" "j = i \<Longrightarrow> snd_out mi um idn msgp cnt flg type i st0 L res st2 L'"
        "j \<noteq> i \<Longrightarrow> snd_out mi um idn msgp cnt flg type i st L res (msg_unlock j st2) L'" for res st2 L'
    proof -
      have "msg_call_ok mi st L (msg_unlock j st2) L'" "msg_free_locks (msg_unlock j st2)"
        using conv_locked [OF inv lk, of j st2 L'] that(1) st0_def by blast+
      moreover have "snd_out mi um idn msgp cnt flg type i st L res (msg_unlock j st2) L'"
        using snd_out_locked [OF st0_def] that(2,3) by (cases "j = i") blast+
      ultimately show ?thesis by blast
    qed
    have early: "msg_call_ok mi st0 L (set_error e st0) L" "same_views mi st0 L (set_error e st0) L" for e
      using call_same [OF inv0, of "set_error e st0"] same_tabs_views [of st0 "set_error e st0"] by (simp_all add: same_tabs_def)
    show ?thesis
    proof (cases "j = i")
      case False
      have "\<not> is_ident mi st i idn" using is_ident_unique [OF ok(2)] False by blast
      moreover have "same_views mi st L (msg_unlock j (set_error EIDRM st0)) L"
        by (rule same_tabs_views) (simp add: same_tabs_def st0_def)
      ultimately have "snd_out mi um idn msgp cnt flg type i st L MsgRet (msg_unlock j (set_error EIDRM st0)) L"
        by (simp add: snd_out_def) (simp add: st0_def)
      then show ?thesis using run [OF early(1) [of EIDRM], of MsgRet] False conv by (simp add: msgsnd_loop_def)
    next
      case True
      have id: "is_ident mi st0 i idn" using ok(2) True by (simp add: st0_def)
      have live: "ipc_live (msg_perms st0 i)" using id by (simp add: is_ident_def)
      have core0: "msg_core mi st0 {} L" and cnt0: "\<And>j. j < msgmni mi \<Longrightarrow> msg_count_ok st0 L j" using inv0 by (simp_all add: msg_inv_def)
      note D0 = msg_coreD [OF core0]
      have w0: "unat (mapwant (msgmap st0)) < 4294967295" using w by (simp add: st0_def)
      show ?thesis
      proof (cases "msg_qbytes (msgque st0 i) < cnt + msg_cbytes (msgque st0 i)")
        case full: True
        show ?thesis
        proof (cases "flg AND MSG_NOWAIT = 0")
          case False
          have "snd_out mi um idn msgp cnt flg type i st0 L MsgRet (set_error EAGAIN st0) L"
            using full False id early(2) by (simp add: snd_out_def snd_full_def)
          then show ?thesis using run [OF early(1) [of EAGAIN], of MsgRet] True conv full False by (simp add: msgsnd_loop_def)
        next
          case wait: True
          let ?q = "(msgque st0 i)\<lparr>msg_perm := (msg_perm (msgque st0 i))\<lparr>ip_mode := ip_mode (msg_perm (msgque st0 i)) OR MSG_WWAIT\<rparr>\<rparr>"
          let ?st2 = "que_change i ?q st0"
          have q: "que_compat (msgque st0 i) ?q" using cnt0 [OF i] by (simp add: que_compat_def msg_count_ok_def)
          have call: "msg_call_ok mi st0 L ?st2 L" by (rule que_change_call [OF inv0 q]) simp_all
          have "same_views mi st0 L ?st2 L" by (auto simp: same_views_def que_change_def intro: mview_cong)
          then have "snd_out mi um idn msgp cnt flg type i st0 L (MsgSleep (MQue i) PcLoop i) ?st2 L"
            using full wait id by (simp add: snd_out_def snd_full_def is_ident_def msg_perms_def que_change_def)
          then show ?thesis using run [OF call] True conv full wait by (simp add: msgsnd_loop_def que_change_def)
        qed
      next
        case room: False
        show ?thesis
        proof (cases "msgfp st0")
          case None
          show ?thesis
          proof (cases "flg AND MSG_NOWAIT = 0")
            case False
            have "snd_out mi um idn msgp cnt flg type i st0 L MsgRet (set_error EAGAIN st0) L"
              using None False id early(2) by (simp add: snd_out_def)
            then show ?thesis using run [OF early(1) [of EAGAIN], of MsgRet] True conv room None False by (simp add: msgsnd_loop_def)
          next
            case wait: True
            have "same_views mi st0 L st0 L" by (simp add: same_views_def)
            then have "snd_out mi um idn msgp cnt flg type i st0 L (MsgSleep MHdr PcLoop i) st0 L"
              using None wait id by (simp add: snd_out_def)
            moreover have "msg_call_ok mi st0 L st0 L" using call_same [OF inv0] by simp
            ultimately show ?thesis using run True conv room None wait by (simp add: msgsnd_loop_def)
          qed
        next
          case (Some m)
          then obtain fr where L: "L None = m # fr" using msg_core_heads(1) [OF core0] by (cases "L None") auto
          let ?st1 = "st0\<lparr>msgfp := mnext st0 m\<rparr>"
          note T = take_header [OF core0 L]
          have rm: "rmap_ok (msgmap st0)" by (rule msg_storeD(1) [OF D0(4)])
          have bn: "btoq mi cnt \<noteq> 0" if "cnt \<noteq> 0" using btoq_bounds(1) [OF D0(1)] that c D0(1) by (simp add: mi_ok_def)
          obtain a mp where al: "(if cnt \<noteq> 0 then malloc (msgmap st0) (btoq mi cnt) else Some (0, msgmap st0)) = Some (a, mp)"
            using malloc_contract [OF rm bn] by (cases "cnt = 0") auto
          show ?thesis
          proof (cases "cnt \<noteq> 0 \<and> a = 0")
            case noroom: True
            then have m0: "malloc (msgmap st0) (btoq mi cnt) = Some (0, mp)" using al by simp
            have cn: "cnt \<noteq> 0" using noroom by simp
            from alloc_fail [OF rm bn [OF cn] m0] have mp: "mp = msgmap st0" and nu: "snd_no_units mi st0 cnt"
              using cn by (auto simp: snd_no_units_def)
            show ?thesis
            proof (cases "flg AND MSG_NOWAIT = 0")
              case False
              let ?e = "set_error EAGAIN (?st1\<lparr>msgmap := mp\<rparr>)"
              have "?e = st0\<lparr>msgfp := mnext st0 m, msgmap := mp, u_error := Some EAGAIN\<rparr>" by simp
              note R = return_header [OF inv0 L this, unfolded mp, OF rm refl _ _]
              have "snd_out mi um idn msgp cnt flg type i st0 L MsgRet (msg_free_header m ?e) L"
                using R(2,4,6) id False nu mp by (simp add: snd_out_def)
              then show ?thesis using run [OF R(1), of MsgRet] True conv room Some al noroom False mp
                by (simp add: msgsnd_loop_def)
            next
              case wait: True
              let ?mp = "mp\<lparr>mapwant := mapwant mp + 1\<rparr>"
              let ?e = "?st1\<lparr>msgmap := ?mp\<rparr>"
              have e: "?e = st0\<lparr>msgfp := mnext st0 m, msgmap := ?mp, u_error := u_error st0\<rparr>" by simp
              have rm': "rmap_ok ?mp" and fu: "free_units ?mp = free_units (msgmap st0)"
                using rm mp by (simp_all add: rmap_ok_def rmap_rep_def free_units_def)
              have w1: "unat (mapwant mp + 1) = Suc (unat (mapwant mp))"
                using w0 mp unat_plus_exact [of "mapwant mp" 1] by simp
              then have nz: "mapwant mp + 1 \<noteq> 0" by (metis nat.simps(3) unat_0)
              have R: "msg_call_ok mi st0 L (msg_free_header m ?e) L" "same_views mi st0 L (msg_free_header m ?e) L"
                "msgque (msg_free_header m ?e) = msgque st0" "u_error (msg_free_header m ?e) = u_error st0"
                "msgmap (msg_free_header m ?e) = ?mp" "msg_copies (msg_free_header m ?e) = msg_copies st0"
                by (rule return_header [OF inv0 L e rm' fu]; use nz w1 mp in simp)+
              have "is_ident mi (msg_free_header m ?e) i idn" using id unfolding is_ident_def msg_perms_def R(3) .
              moreover have "snd_no_units mi (msg_free_header m ?e) cnt" using nu fu unfolding snd_no_units_def R(5) by simp
              ultimately have "snd_out mi um idn msgp cnt flg type i st0 L (MsgSleep MMap PcLoop i) (msg_free_header m ?e) L"
                using R(2,4,5,6) id wait nz by (simp add: snd_out_def)
              then show ?thesis using run [OF R(1)] True conv room Some al noroom wait mp
                by (simp add: msgsnd_loop_def)
            qed
          next
            case got: False
            have al': "cnt = 0 \<and> mp = msgmap st0 \<or> cnt \<noteq> 0 \<and> a \<noteq> 0 \<and> malloc (msgmap st0) (btoq mi cnt) = Some (a, mp)"
              using al got by (cases "cnt = 0") auto
            have "snd_block mi cnt a \<subseteq> free_units (msgmap st0) \<and> free_units mp = free_units (msgmap st0) - snd_block mi cnt a \<and>
              rmap_ok mp \<and> mapwant mp = mapwant (msgmap st0)"
              using al'
            proof
              assume "cnt = 0 \<and> mp = msgmap st0"
              then show ?thesis using rm by (simp add: snd_block_def)
            next
              assume 2: "cnt \<noteq> 0 \<and> a \<noteq> 0 \<and> malloc (msgmap st0) (btoq mi cnt) = Some (a, mp)"
              then have m2: "malloc (msgmap st0) (btoq mi cnt) = Some (a, mp)" "a \<noteq> 0" and n2: "btoq mi cnt \<noteq> 0" using bn by auto
              have "mapwant mp = mapwant (msgmap st0)"
                using m2(1) by (auto simp: malloc_def split: if_splits option.splits prod.splits)
              then show ?thesis using rm.alloc_block [OF rm n2 m2] rm.alloc_inv [OF rm n2 m2(1)] 2 by (simp add: snd_block_def)
            qed
            then have blk: "snd_block mi cnt a \<subseteq> free_units (msgmap st0)" "free_units mp = free_units (msgmap st0) - snd_block mi cnt a"
              "rmap_ok mp" "mapwant mp = mapwant (msgmap st0)" by blast+
            let ?st2 = "?st1\<lparr>msgmap := mp\<rparr>" and ?L = "L(None := fr)"
            have core2: "msg_core mi ?st2 {m} ?L" by (rule core_map [OF T blk(3)]) (use blk(2) in auto)
            have disj: "snd_block mi cnt a \<inter> mblk mi (msgh st0 n) = {}" if "n \<in> msg_used mi L" for n
              using blk(1) msg_storeD(4) [OF D0(4) that] by blast
            have "snd_room mi ?st2 ?L cnt a"
              unfolding snd_room_def used_simps(2)
            proof (intro conjI ballI)
              show "cnt \<noteq> 0 \<longrightarrow> a \<noteq> 0" using got by blast
              show "snd_block mi cnt a \<subseteq> {1..<32768}" using blk(1) msg_storeD(2) [OF D0(4)] by blast
              show "snd_block mi cnt a \<inter> free_units (msgmap ?st2) = {}" using blk(2) by auto
              fix n assume "n \<in> msg_used mi L"
              then show "snd_block mi cnt a \<inter> mblk mi (msgh ?st2 n) = {}" using disj by simp
            qed (use c in simp_all)
            moreover have "msg_count_ok ?st2 ?L k" if "k < msgmni mi" for k using cnt0 [OF that] by (simp add: msg_count_ok_def)
            moreover have "ipc_live (msg_perms ?st2 i)" using live by (simp add: msg_perms_def)
            moreover have "msg_cbytes (msgque ?st2 i) + cnt < 65536" using room cnt0 [OF i] by (simp add: msg_count_ok_def)
            ultimately obtain st3 L' where r: "msgsnd_copy mi u time um msgp cnt type i m a ?st2 = Some st3" "msg_call_ok mi ?st2 ?L st3 L'"
              "msg_copies st3 = msg_copies ?st2"
              "(L' = ?L(Some i := ?L (Some i) @ [m]) \<and> u_error st3 = u_error ?st2 \<and> u_rval1 st3 = 0 \<and> (cnt \<noteq> 0 \<longrightarrow> snd (mu_text um msgp (nat cnt))) \<and>
                 (\<forall>j < msgmni mi. mview mi st3 (L' (Some j)) = mview mi ?st2 (?L (Some j)) @
                    (if j = i then [(type, if cnt = 0 then [] else fst (mu_text um msgp (nat cnt)))] else []))) \<or>
               (L' = ?L(None := m # ?L None) \<and> u_error st3 = Some EFAULT \<and> cnt \<noteq> 0 \<and> \<not> snd (mu_text um msgp (nat cnt)) \<and>
                 (\<forall>j < msgmni mi. mview mi st3 (L' (Some j)) = mview mi ?st2 (?L (Some j))))"
              using msgsnd_copy_ok [OF core2 i _ c(3) _ _ _ um, of cnt a u time msgp] by blast
            have v2: "mview mi ?st2 xs = mview mi st0 xs" for xs by (rule mview_cong) simp_all
            have q2: "msg_quiet mi st0 L ?st2 ?L {}"
              using Some blk by (auto simp: msg_quiet_def same_id_def msg_perms_def mtypes_def)
            have call: "msg_call_ok mi st0 L st3 L'"
            proof -
              obtain ws where "msg_wakes st3 = msg_wakes ?st2 @ ws" "msg_quiet mi ?st2 ?L st3 L' (set ws)"
                using r(2) by (auto simp: msg_call_ok_def)
              then show ?thesis using r(2) msg_quiet_trans [OF q2, of st3 L' "set ws"] blk(4) by (auto simp: msg_call_ok_def)
            qed
            have "is_ident mi ?st2 i idn" using id by (simp add: is_ident_def msg_perms_def)
            then have "is_ident mi st3 i idn" by (simp only: snd_copy_ident [OF r(1)])
            then have "snd_out mi um idn msgp cnt flg type i st0 L MsgRet st3 L'"
              using r(3,4) id room unfolding snd_out_def same_views_def sent_views_def snd_full_def v2 by auto
            moreover have "msgsnd_loop mi u time um idn msgp cnt flg type i st = Some (MsgRet, msg_unlock j st3)"
              using True conv room Some al got r(1) by (auto simp: msgsnd_loop_def Let_def)
            ultimately show ?thesis using run [OF call, of MsgRet] True by simp
          qed
        qed
      qed
    qed
  qed
qed

end
