(* ===== verification/MsgCalls.thy ===== *)
theory MsgCalls
  imports MsgLoop
begin

text \<open>
  The whole of \<open>msgrcv\<close> and \<open>msgsnd\<close>, and what is left of \<open>msgsnd\<close> when a signal ends its sleep.
\<close>

section \<open>Whole calls\<close>

lemma snd_out_same:
  assumes s: "same_tabs st st1" "msg_copies st1 = msg_copies st" "u_error st1 = u_error st"
  shows "snd_out mi um idn msgp cnt flg type i st1 L res st' L' = snd_out mi um idn msgp cnt flg type i st L res st' L'"
  using s mview_same [OF s(1)] is_ident_same [OF s(1)]
  by (simp add: snd_out_def same_views_def sent_views_def snd_full_def snd_no_units_def same_tabs_def)

lemma msgsnd_start_ok:
  assumes inv: "msg_inv mi st L" and lk: "msg_free_locks st" and um: "msg_um_ok um"
    and w: "unat (mapwant (msgmap st)) < 4294967295"
  shows "\<exists>res st' L'. msgsnd_start mi u time um idn msgp cnt flg st = Some (res, st') \<and> msg_call_ok mi st L st' L' \<and>
     msg_free_locks st' \<and> (msg_early st L res st' L' \<or>
       (\<exists>i type. is_ident mi st i idn \<and> 0 \<le> cnt \<and> cnt \<le> msgmax mi \<and> mu_type um msgp = Some type \<and> 1 \<le> type \<and>
          \<not> fst (ipcaccess u (msg_perms st i) MSG_W st) \<and> snd_out mi um idn msgp cnt flg type i st L res st' L'))"
proof -
  have mi: "0 < msgmni mi" using inv by (simp add: msg_inv_def msg_core_def mi_ok_def)
  from mi lk show ?thesis
  proof (cases rule: msgconv_cases [where idn = idn])
    case (err st')
    have "msg_call_ok mi st L st' L" using msg_call_ok_same [OF inv] err(2,3,4) by blast
    moreover have "msg_early st L MsgRet st' L" using err(2,5,8) by (simp add: msg_early_def)
    ultimately show ?thesis using err(1,3) lk
      by (intro exI [of _ MsgRet] exI [of _ st'] exI [of _ L]) (simp add: msgsnd_start_def msg_free_locks_def)
  next
    case (ok i)
    let ?s = "st\<lparr>msglock := (msglock st)(i := True)\<rparr>"
    have acc: "fst (ipcaccess u p m ?s) = fst (ipcaccess u p m st)" for p m by (simp add: ipcaccess_class)
    show ?thesis
    proof (cases rule: ipcaccess_cases [of u "msg_perm (msgque ?s i)" MSG_W ?s])
      case 2
      then show ?thesis using conv_early [OF inv lk refl, of EACCES i] ok(1)
        by (intro exI [of _ MsgRet] exI [of _ "msg_unlock i (set_error EACCES ?s)"] exI [of _ L])
          (simp add: msgsnd_start_def)
    next
      case 1
      show ?thesis
      proof (cases "0 \<le> cnt \<and> cnt \<le> msgmax mi")
        case False
        then show ?thesis using conv_early [OF inv lk refl, of EINVAL i] ok(1) 1
          by (intro exI [of _ MsgRet] exI [of _ "msg_unlock i (set_error EINVAL ?s)"] exI [of _ L])
            (auto simp: msgsnd_start_def)
      next
        case c: True
        then have c': "\<not> (cnt < 0 \<or> msgmax mi < cnt)" by auto
        show ?thesis
        proof (cases "mu_type um msgp")
          case None
          then show ?thesis using conv_early [OF inv lk refl, of EFAULT i] ok(1) 1 c'
            by (intro exI [of _ MsgRet] exI [of _ "msg_unlock i (set_error EFAULT ?s)"] exI [of _ L])
              (simp add: msgsnd_start_def)
        next
          case (Some type)
          show ?thesis
          proof (cases "type < 1")
            case True
            then show ?thesis using conv_early [OF inv lk refl, of EINVAL i] ok(1) 1 c' Some
              by (intro exI [of _ MsgRet] exI [of _ "msg_unlock i (set_error EINVAL ?s)"] exI [of _ L])
                (simp add: msgsnd_start_def)
          next
            case t: False
            let ?u = "msg_unlock i ?s"
            note R = relock [OF inv lk, of i]
            have w': "unat (mapwant (msgmap ?u)) < 4294967295" using w by simp
            have c3: "0 \<le> cnt" "cnt \<le> msgmax mi" "1 \<le> type" using c t by auto
            obtain res st' L' where r: "msgsnd_loop mi u time um idn msgp cnt flg type i ?u = Some (res, st')"
              "msg_call_ok mi ?u L st' L'" "msg_free_locks st'" "snd_out mi um idn msgp cnt flg type i ?u L res st' L'"
              using msgsnd_loop_ok [OF R(1,2) ok(3) c3 um w'] by blast
            have "msgsnd_start mi u time um idn msgp cnt flg st = Some (res, st')"
              using ok(1) 1 c' t Some r(1) by (simp add: msgsnd_start_def)
            moreover have "snd_out mi um idn msgp cnt flg type i st L res st' L'"
              using r(4) snd_out_same [OF R(3)] by simp
            moreover have "\<not> fst (ipcaccess u (msg_perms st i) MSG_W st)"
              using 1 acc [of "msg_perm (msgque st i)" MSG_W, symmetric] by (simp add: msg_perms_def)
            ultimately show ?thesis using R(4) [OF r(2)] r(3) ok(2) c t Some by fastforce
          qed
        qed
      qed
    qed
  qed
qed

lemma msgsnd_intr_ok:
  assumes inv: "msg_inv mi st L" and lk: "msg_free_locks st"
  shows "\<exists>st'. msgsnd_intr mi idn ch i st = (MsgRet, st') \<and> msg_call_ok mi st L st' L \<and> msg_free_locks st' \<and>
    same_views mi st L st' L \<and> msg_copies st' = msg_copies st \<and> u_error st' \<in> {Some EINTR, Some EINVAL}"
proof -
  have mi: "0 < msgmni mi" using inv by (simp add: msg_inv_def msg_core_def mi_ok_def)
  let ?e = "set_error EINTR st"
  have se: "same_tabs st ?e" by (simp add: same_tabs_def)
  have inve: "msg_inv mi ?e L" using inv msg_inv_same [OF se] by simp
  have lke: "msg_free_locks ?e" using lk by (simp add: msg_free_locks_def)
  have returned: "msg_call_ok mi st L st' L" if "msg_call_ok mi ?e L st' L" for st'
    by (rule msg_call_ok_tabs [OF that se, where us = "[]" and vs = "[]"]) (use that in \<open>simp_all add: msg_call_ok_def\<close>)
  have views: "same_views mi st L st' L" if "same_views mi ?e L st' L" for st'
    using that mview_same [OF se] by (simp add: same_views_def)
  from mi lke show ?thesis
  proof (cases rule: msgconv_cases [where idn = idn])
    case (err st')
    have "msg_call_ok mi ?e L st' L" using msg_call_ok_same [OF inve] err(2,3,4) by blast
    then show ?thesis using err returned views [OF same_tabs_views [OF err(2)]] lk
      by (intro exI [of _ st']) (simp add: msgsnd_intr_def msg_free_locks_def)
  next
    case (ok j)
    let ?s = "?e\<lparr>msglock := (msglock ?e)(j := True)\<rparr>"
    define st2 where "st2 = (if j = i \<and> ch = MQue i then msg_wakeup (MQue i) (upd_mode i (\<lambda>w. w AND NOT MSG_WWAIT) ?s) else ?s)"
    have call2: "msg_call_ok mi ?s L st2 L" if invs: "msg_inv mi ?s L"
    proof (cases "j = i \<and> ch = MQue i")
      case False
      then show ?thesis using call_same [OF invs, of ?s] by (auto simp: st2_def)
    next
      case True
      let ?q = "(msgque ?s i)\<lparr>msg_perm := (msg_perm (msgque ?s i))\<lparr>ip_mode := ip_mode (msg_perm (msgque ?s i)) AND NOT MSG_WWAIT\<rparr>\<rparr>"
      have "msg_count_ok ?s L i" using invs True ok(3) by (simp add: msg_inv_def)
      then have c: "que_compat (msgque ?s i) ?q" by (simp add: que_compat_def msg_count_ok_def)
      have "msg_quiet mi ?s L (que_change i ?q ?s) L (set [MQue i])" by (rule que_change_quiet [OF c]) simp_all
      then have "msg_quiet mi ?s L st2 L (set [MQue i])"
        using True by (simp add: st2_def que_change_def msg_quiet_def same_id_def msg_perms_def mtypes_def)
      moreover have "msg_inv mi st2 L"
        using que_change_inv [OF invs c] msg_inv_same [of "que_change i ?q ?s" st2] True
        by (simp add: st2_def que_change_def same_tabs_def)
      ultimately show ?thesis using True unfolding msg_call_ok_def by (auto simp: st2_def)
    qed
    have c: "msg_call_ok mi ?e L (msg_unlock j st2) L" "msg_free_locks (msg_unlock j st2)"
      using conv_locked [OF inve lke, of j st2 L] call2 by blast+
    have run: "msgsnd_intr mi idn ch i st = (MsgRet, msg_unlock j st2)"
      using ok(1) by (auto simp: msgsnd_intr_def st2_def)
    have sel: "msgh st2 = msgh st" "mpool st2 = mpool st" "msg_copies st2 = msg_copies st" "u_error st2 = Some EINTR"
      by (simp_all add: st2_def)
    have "same_views mi st L (msg_unlock j st2) L"
      unfolding same_views_def by (intro allI impI mview_cong) (simp_all add: sel)
    then show ?thesis using run returned [OF c(1)] c(2) sel by simp
  qed
qed

text \<open>A call just entered only counts.\<close>

lemma counted:
  "same_tabs st (msg_counted st)" "msg_free_locks (msg_counted st) = msg_free_locks st" "msg_copies (msg_counted st) = msg_copies st"
  "u_error (msg_counted st) = u_error st" "msg_wakes (msg_counted st) = msg_wakes st" "msglock (msg_counted st) = msglock st"
  "fst (ipcaccess u p m (msg_counted st)) = fst (ipcaccess u p m st)"
  by (simp_all add: msg_counted_def same_tabs_def msg_free_locks_def ipcaccess_class)

lemma counted_ok:
  assumes "msg_call_ok mi (msg_counted st) L st' L'"
  shows "msg_call_ok mi st L st' L'"
  by (rule msg_call_ok_tabs [OF assms counted(1), where us = "[]" and vs = "[]"])
    (use assms in \<open>simp_all add: counted msg_call_ok_def\<close>)

lemma msg_early_counted: "msg_early (msg_counted st) L res st' L' = msg_early st L res st' L'"
  using counted(1,3) [where st = st] by (auto simp: msg_early_def same_tabs_def)

lemma msgrcv_ok:
  assumes inv: "msg_inv mi st L" and lk: "msg_free_locks st"
  shows "\<exists>res st' L'. msgrcv mi u time um idn msgp msgsz t flg st = Some (res, st') \<and> msg_call_ok mi st L st' L' \<and>
     msg_free_locks st' \<and> (msg_early st L res st' L' \<and>
         (\<forall>i. is_ident mi st i idn \<longrightarrow> 0 \<le> msgsz \<longrightarrow> fst (ipcaccess u (msg_perms st i) MSG_R st)) \<or>
       (\<exists>i. is_ident mi st i idn \<and> 0 \<le> msgsz \<and> \<not> fst (ipcaccess u (msg_perms st i) MSG_R st) \<and>
          rcv_out mi um idn msgp msgsz t flg i st L res st' L'))"
proof -
  note C = counted [where st = st]
  have inv': "msg_inv mi (msg_counted st) L" using inv msg_inv_same [OF C(1)] by simp
  have p: "msg_perms (msg_counted st) = msg_perms st" using C(1) by (simp add: msg_perms_def [abs_def] same_tabs_def)
  show ?thesis
    using msgrcv_start_ok [OF inv' C(2) [THEN iffD2, OF lk], of u time um idn msgp msgsz t flg] counted_ok [of mi st L]
    unfolding msgrcv_def msg_early_counted is_ident_same [OF C(1)] p C(7) rcv_out_same [OF C(1,3,4)] by blast
qed

lemma msgsnd_ok:
  assumes inv: "msg_inv mi st L" and lk: "msg_free_locks st" and um: "msg_um_ok um"
    and w: "unat (mapwant (msgmap st)) < 4294967295"
  shows "\<exists>res st' L'. msgsnd mi u time um idn msgp cnt flg st = Some (res, st') \<and> msg_call_ok mi st L st' L' \<and>
     msg_free_locks st' \<and> (msg_early st L res st' L' \<or>
       (\<exists>i type. is_ident mi st i idn \<and> 0 \<le> cnt \<and> cnt \<le> msgmax mi \<and> mu_type um msgp = Some type \<and> 1 \<le> type \<and>
          \<not> fst (ipcaccess u (msg_perms st i) MSG_W st) \<and> snd_out mi um idn msgp cnt flg type i st L res st' L'))"
proof -
  note C = counted [where st = st]
  have inv': "msg_inv mi (msg_counted st) L" using inv msg_inv_same [OF C(1)] by simp
  have p: "msg_perms (msg_counted st) = msg_perms st" using C(1) by (simp add: msg_perms_def [abs_def] same_tabs_def)
  have w': "unat (mapwant (msgmap (msg_counted st))) < 4294967295" using w by (simp add: msg_counted_def)
  show ?thesis
    using msgsnd_start_ok [OF inv' C(2) [THEN iffD2, OF lk] um w', of u time idn msgp cnt flg] counted_ok [of mi st L]
    unfolding msgsnd_def msg_early_counted is_ident_same [OF C(1)] p C(7) snd_out_same [OF C(1,3,4)] by blast
qed

end
