(* ===== verification/MsgProcs.thy ===== *)
theory MsgProcs
  imports MsgCalls
begin

text \<open>
  \<open>msginit\<close> establishes the invariant; the processes that make message calls, asleep, woken or signalled,
  as a step relation.
\<close>

section \<open>Start-up\<close>

text \<open>The tables before \<open>msginit\<close>: zeroed memory, and a map array of the configured size.\<close>

definition msg_boot :: "msginfo \<Rightarrow> msgst \<Rightarrow> bool" where
  "msg_boot mi st \<longleftrightarrow> (\<forall>i. msg_first (msgque st i) = None \<and> msg_last (msgque st i) = None \<and> msg_qnum (msgque st i) = 0 \<and>
       msg_cbytes (msgque st i) = 0 \<and> msg_qbytes (msgque st i) = 0 \<and> ip_mode (msg_perm (msgque st i)) = 0) \<and>
     (\<forall>m. mnext st m = None) \<and> mapwant (msgmap st) = 0 \<and> mapent (msgmap st) = replicate (unat (mi_msgmap mi) - 1) zero_ent \<and>
     msg_free_locks st"

lemma msginit_link_eqs:
  "msginit_link 0 m st = st"
  "msginit_link (Suc k) m st = msginit_link k (Suc m) (upd_m m (\<lambda>h. h\<lparr>msg_next := Some (Suc m)\<rparr>) st)"
  by simp_all

declare msginit_link.simps [simp del] msginit_link_eqs [simp]

lemma msginit_link_sel [simp]:
  "msgque (msginit_link n m st) = msgque st" "msgfp (msginit_link n m st) = msgfp st" "msgmap (msginit_link n m st) = msgmap st"
  "msglock (msginit_link n m st) = msglock st"
  by (induction n arbitrary: m st) simp_all

lemma msginit_link_keep: "j < m \<Longrightarrow> msgh (msginit_link n m st) j = msgh st j"
  by (induction n arbitrary: m st) simp_all

lemma msginit_link_chain:
  "(\<forall>j. m \<le> j \<longrightarrow> mnext st j = None) \<Longrightarrow> linked (mnext (msginit_link n m st)) (Some m) [m ..< Suc (m + n)]"
proof (induction n arbitrary: m st)
  case (Suc n)
  let ?s = "upd_m m (\<lambda>h. h\<lparr>msg_next := Some (Suc m)\<rparr>) st"
  have "linked (mnext (msginit_link n (Suc m) ?s)) (Some (Suc m)) [Suc m ..< Suc (Suc m + n)]"
    by (rule Suc.IH) (use Suc.prems in auto)
  moreover have "mnext (msginit_link n (Suc m) ?s) m = Some (Suc m)" by (simp add: msginit_link_keep)
  moreover have "[m ..< Suc (m + Suc n)] = m # [Suc m ..< Suc (Suc m + n)]" by (simp add: upt_rec)
  ultimately show ?case by simp
qed simp

lemma msginit_map:
  assumes b: "msg_boot mi st" and mi: "mi_ok mi"
  shows "\<exists>mp. msg_mfree (if got then msgseg mi else 0) 1 (st\<lparr>msgmap := mapinit (msgmap st) (mi_msgmap mi)\<rparr>) = Some (st\<lparr>msgmap := mp\<rparr>) \<and>
    rmap_ok mp \<and> free_units mp \<subseteq> {1 ..< 32768} \<and> mapwant mp = 0"
proof -
  let ?y = "unat (mi_msgmap mi)" and ?mp = "mapinit (msgmap st) (mi_msgmap mi)" and ?n = "if got then msgseg mi else 0"
  have y: "2 \<le> ?y" "?y < 4294967296" using mi unat_u32 [of "mi_msgmap mi"] by (simp_all add: mi_ok_def)
  have "unat (mi_msgmap mi - 2) = ?y - 2" using y(1) by (simp add: unat_sub word_le_nat_alt)
  moreover have "Suc (?y - 2) = ?y - 1" using y(1) by simp
  ultimately have "rmap_rep ?mp [] (?y - 2)"
    using b y by (simp add: rmap_rep_def mapinit_def msg_boot_def del: replicate_Suc)
  then have ok: "rmap_ok ?mp" and none: "free_units ?mp = {}" and w: "mapwant ?mp = 0"
    using free_units_rep [of ?mp "[]"] b by (auto simp: rmap_ok_def mapinit_def msg_boot_def)
  show ?thesis
  proof (cases "?n = 0")
    case True
    then show ?thesis using ok none w by (intro exI [of _ ?mp]) (simp add: msg_mfree_def mfree_def)
  next
    case False
    have n: "unat ?n < 32768" using mi False by (auto simp: mi_ok_def)
    have p: "(1 :: u32) \<noteq> 0" "unat (1 :: u32) + unat ?n < 2 ^ 32" "block 1 ?n \<inter> free_units ?mp = {}" using n none by simp_all
    from mfree_contract [OF ok False p] show ?thesis
    proof (elim disjE exE conjE)
      fix mp assume m: "mfree ?mp ?n 1 = Some (MFreed mp (mapwant ?mp \<noteq> 0))" "rmap_ok mp"
        "free_units mp = free_units ?mp \<union> block 1 ?n" "mapwant mp = 0"
      have "free_units mp \<subseteq> {1 ..< 32768}" using m(3) none n by (auto simp: block_def)
      then show ?thesis using m w by (intro exI [of _ mp]) (simp add: msg_mfree_def)
    next
      assume "mfree ?mp ?n 1 = Some (MLost ?mp)"
      then show ?thesis using ok none w by (intro exI [of _ ?mp]) (simp add: msg_mfree_def)
    qed
  qed
qed

lemma msginit_ok:
  assumes b: "msg_boot mi st" and mi: "mi_ok mi"
  obtains st' where "msginit mi got st = Some st'" "msg_inv mi st' (\<lambda>c. if c = None then [0 ..< msgtql mi] else [])"
    "msg_free_locks st'" "mapwant (msgmap st') = 0"
proof -
  obtain mp where mp: "msg_mfree (if got then msgseg mi else 0) 1 (st\<lparr>msgmap := mapinit (msgmap st) (mi_msgmap mi)\<rparr>) = Some (st\<lparr>msgmap := mp\<rparr>)"
    "rmap_ok mp" "free_units mp \<subseteq> {1 ..< 32768}" "mapwant mp = 0" using msginit_map [OF b mi] by blast
  let ?s1 = "st\<lparr>msgmap := mp, msgfp := Some 0\<rparr>"
  let ?s = "msginit_link (msgtql mi - 1) 0 ?s1" and ?L = "\<lambda>c :: nat option. if c = None then [0 ..< msgtql mi] else []"
  have run: "msginit mi got st = Some ?s" using mp(1) by (simp add: msginit_def Let_def)
  have "linked (mnext ?s) (Some 0) [0 ..< Suc (0 + (msgtql mi - 1))]" by (rule msginit_link_chain) (use b in \<open>simp add: msg_boot_def\<close>)
  moreover have "Suc (0 + (msgtql mi - 1)) = msgtql mi" using mi by (simp add: mi_ok_def)
  ultimately have fr: "linked (mnext ?s) (Some 0) [0 ..< msgtql mi]" by simp
  have "chains (mnext ?s) (mhead ?s) (mchains mi) ?L {} (msgtql mi)"
    unfolding chains_def
  proof (intro conjI ballI impI)
    fix c assume "c \<in> mchains mi"
    show "linked (mnext ?s) (mhead ?s c) (?L c)" using fr b by (cases c) (simp_all add: msg_boot_def)
  next
    show "(\<Union>c\<in>mchains mi. set (?L c)) \<union> {} = {..<msgtql mi}" by (auto simp: mchains_def)
  qed auto
  then have l: "msg_lists mi ?s {} ?L" using b by (simp add: msg_lists_def msg_boot_def)
  have dead: "\<not> ipc_live (msg_perms ?s i)" for i using b by (simp add: msg_perms_def msg_boot_def)
  have "msg_used mi ?L = {}" by (simp add: msg_used_def)
  then have "msg_core mi ?s {} ?L" using l dead mi mp by (simp add: msg_core_def msg_store_def keys_unique_def)
  moreover have "msg_count_ok ?s ?L i" for i using b by (simp add: msg_count_ok_def msg_boot_def)
  ultimately have "msg_inv mi ?s ?L" by (simp add: msg_inv_def)
  moreover have "msg_free_locks ?s" "mapwant (msgmap ?s) = 0" using b mp(4) by (simp_all add: msg_free_locks_def msg_boot_def)
  ultimately show ?thesis using that run by blast
qed

section \<open>Processes\<close>

text \<open>What a process keeps while it sleeps in a message call; for a sender also the type it has read.\<close>

datatype msg_call = RcvCall int int int int u32 | SndCall int int int u32 int

datatype msg_proc = MpIdle | MpAsleep msg_call msgchan msg_pc nat | MpWoken msg_call msgchan msg_pc nat

record msgsys_st =
  mgst :: msgst
  mgprocs :: "nat \<Rightarrow> msg_proc"

definition mg_wakeup :: "msgchan list \<Rightarrow> (nat \<Rightarrow> msg_proc) \<Rightarrow> nat \<Rightarrow> msg_proc" where
  "mg_wakeup ws procs p = (case procs p of
     MpAsleep c ch pc i \<Rightarrow> if ch \<in> set ws then MpWoken c ch pc i else procs p
   | _ \<Rightarrow> procs p)"

definition mg_call_of :: "msg_umem \<Rightarrow> nat \<Rightarrow> (nat \<Rightarrow> int) \<Rightarrow> msg_call" where
  "mg_call_of um fid a = (if fid = 2 then RcvCall (a 0) (a 1) (a 2) (a 3) (word_of_int (a 4))
     else SndCall (a 0) (a 1) (a 2) (word_of_int (a 3)) (case mu_type um (a 1) of None \<Rightarrow> 0 | Some t \<Rightarrow> t))"

definition mg_after :: "msg_call \<Rightarrow> msg_res \<Rightarrow> msg_proc" where
  "mg_after c res = (case res of MsgRet \<Rightarrow> MpIdle | MsgSleep ch pc i \<Rightarrow> MpAsleep c ch pc i)"

text \<open>Going on after a wakeup, and after a signal.\<close>

fun msg_resume :: "msginfo \<Rightarrow> uarea \<Rightarrow> int \<Rightarrow> msg_umem \<Rightarrow> msg_call \<Rightarrow> msg_pc \<Rightarrow> nat \<Rightarrow> msgst \<Rightarrow> (msg_res \<times> msgst) option" where
  "msg_resume mi u time um (RcvCall idn msgp msgsz t flg) PcConv i st = msgrcv_start mi u time um idn msgp msgsz t flg st"
| "msg_resume mi u time um (RcvCall idn msgp msgsz t flg) PcLoop i st = msgrcv_loop mi u time um idn msgp msgsz t flg i st"
| "msg_resume mi u time um (RcvCall idn msgp msgsz t flg) (PcIntr ch) i st = Some (msgrcv_intr st)"
| "msg_resume mi u time um (SndCall idn msgp cnt flg type) PcConv i st = msgsnd_start mi u time um idn msgp cnt flg st"
| "msg_resume mi u time um (SndCall idn msgp cnt flg type) PcLoop i st = msgsnd_loop mi u time um idn msgp cnt flg type i st"
| "msg_resume mi u time um (SndCall idn msgp cnt flg type) (PcIntr ch) i st = Some (msgsnd_intr mi idn ch i st)"

fun msg_signal :: "msginfo \<Rightarrow> msg_call \<Rightarrow> msgchan \<Rightarrow> nat \<Rightarrow> msgst \<Rightarrow> msg_res \<times> msgst" where
  "msg_signal mi (RcvCall idn msgp msgsz t flg) ch i st = msgrcv_intr st"
| "msg_signal mi (SndCall idn msgp cnt flg type) ch i st = msgsnd_intr mi idn ch i st"

definition mg_entry :: "msgst \<Rightarrow> msgst" where
  "mg_entry st = st\<lparr>u_error := None, msg_wakes := [], msg_copies := []\<rparr>"

definition mg_next :: "msgsys_st \<Rightarrow> nat \<Rightarrow> msgst \<Rightarrow> msg_proc \<Rightarrow> msgsys_st" where
  "mg_next s p st' pc = \<lparr>mgst = st', mgprocs = (mg_wakeup (msg_wakes st') (mgprocs s))(p := pc)\<rparr>"

inductive mg_step :: "msginfo \<Rightarrow> nat \<Rightarrow> msgsys_st \<Rightarrow> msgsys_st \<Rightarrow> bool" for mi n where
  mg_call: "p < n \<Longrightarrow> mgprocs s p = MpIdle \<Longrightarrow> msg_um_ok um \<Longrightarrow> msgsys mi u time um fid a (mg_entry (mgst s)) = Some (res, st') \<Longrightarrow>
    mg_step mi n s (mg_next s p st' (mg_after (mg_call_of um fid a) res))"
| mg_run: "p < n \<Longrightarrow> mgprocs s p = MpWoken c ch pc i \<Longrightarrow> msg_um_ok um \<Longrightarrow>
    msg_resume mi u time um c pc i (mg_entry (mgst s)) = Some (res, st') \<Longrightarrow>
    mg_step mi n s (mg_next s p st' (mg_after c res))"
| mg_signal: "p < n \<Longrightarrow> mgprocs s p = MpAsleep c ch PcLoop i \<or> mgprocs s p = MpWoken c ch PcLoop i \<Longrightarrow> (\<forall>j. ch \<noteq> MLock j) \<Longrightarrow>
    msg_signal mi c ch i (mg_entry (mgst s)) = (res, st') \<Longrightarrow>
    mg_step mi n s (mg_next s p st' (mg_after c res))"

definition mg_init :: "msginfo \<Rightarrow> msgsys_st \<Rightarrow> bool" where
  "mg_init mi s \<longleftrightarrow> mi_ok mi \<and> (\<exists>st st' got. msg_boot mi st \<and> msginit mi got st = Some st' \<and> s = \<lparr>mgst = st', mgprocs = \<lambda>p. MpIdle\<rparr>)"

end
