(* ===== verification/MsgSystem.thy ===== *)
theory MsgSystem
  imports MsgProcs
begin

text \<open>
  Every call, wakeup and signal keeps the invariant of the system: the tables are well-formed, no lock is
  held between calls, and whatever a sleeping process waits for is not there.
\<close>

section \<open>The invariant of the system\<close>

text \<open>What a sleeper waits for is not there.\<close>

definition msleeper_ok :: "msginfo \<Rightarrow> msgst \<Rightarrow> (nat option \<Rightarrow> nat list) \<Rightarrow> msg_call \<Rightarrow> msgchan \<Rightarrow> nat \<Rightarrow> bool" where
  "msleeper_ok mi st L c ch i \<longleftrightarrow> (case c of
     RcvCall idn msgp msgsz t flg \<Rightarrow> ch = MQnum i \<and> is_ident mi st i idn \<and> rwait st i \<and>
       (\<forall>m\<in>set (L (Some i)). \<not> maccepts t (mtype st m))
   | SndCall idn msgp cnt flg type \<Rightarrow> (ch = MQue i \<and> is_ident mi st i idn \<and> wwait st i) \<or>
       (ch = MHdr \<and> msgfp st = None) \<or> (ch = MMap \<and> mapwant (msgmap st) \<noteq> 0 \<and> snd_no_units mi st cnt))"

definition mcall_ok :: "msginfo \<Rightarrow> msg_call \<Rightarrow> nat \<Rightarrow> bool" where
  "mcall_ok mi c i \<longleftrightarrow> i < msgmni mi \<and> (case c of
     RcvCall idn msgp msgsz t flg \<Rightarrow> 0 \<le> msgsz
   | SndCall idn msgp cnt flg type \<Rightarrow> 0 \<le> cnt \<and> cnt \<le> msgmax mi \<and> 1 \<le> type)"

definition mg_procs_ok :: "msginfo \<Rightarrow> nat \<Rightarrow> msgst \<Rightarrow> (nat option \<Rightarrow> nat list) \<Rightarrow> (nat \<Rightarrow> msg_proc) \<Rightarrow> bool" where
  "mg_procs_ok mi n st L procs \<longleftrightarrow>
     (\<forall>p c ch pc i. procs p = MpAsleep c ch pc i \<longrightarrow> p < n \<and> pc = PcLoop \<and> mcall_ok mi c i \<and> msleeper_ok mi st L c ch i) \<and>
     (\<forall>p c ch pc i. procs p = MpWoken c ch pc i \<longrightarrow> p < n \<and> pc = PcLoop \<and> mcall_ok mi c i \<and> (\<forall>j. ch \<noteq> MLock j))"

definition mg_ok :: "msginfo \<Rightarrow> nat \<Rightarrow> nat \<Rightarrow> msgsys_st \<Rightarrow> bool" where
  "mg_ok mi n k s \<longleftrightarrow> (\<exists>L. msg_inv mi (mgst s) L \<and> msg_free_locks (mgst s) \<and> unat (mapwant (msgmap (mgst s))) \<le> k \<and>
     mg_procs_ok mi n (mgst s) L (mgprocs s))"

lemma same_id_ident: "same_id st st' i \<Longrightarrow> is_ident mi st i idn \<Longrightarrow> is_ident mi st' i idn"
  by (simp add: same_id_def is_ident_def)

lemma sleeper_chan: "msleeper_ok mi st L c ch i \<Longrightarrow> ch \<noteq> MLock j"
  by (auto simp: msleeper_ok_def split: msg_call.splits)

lemma msleeper_quiet:
  assumes s: "msleeper_ok mi st L c ch i" and i: "i < msgmni mi" and q: "msg_quiet mi st L st' L' W" and ch: "ch \<notin> W"
  shows "msleeper_ok mi st' L' c ch i"
proof (cases c)
  case (RcvCall idn msgp msgsz t flg)
  have r: "ch = MQnum i" "is_ident mi st i idn" "rwait st i" "\<forall>m\<in>set (L (Some i)). \<not> maccepts t (mtype st m)"
    using s by (simp_all add: RcvCall msleeper_ok_def)
  have "ipc_live (msg_perms st i)" using r(2) by (simp add: is_ident_def)
  with msg_quietD(1) [OF q i] r(1,3) ch
  have st': "rwait st' i" "same_id st st' i" "mtypes st' (L' (Some i)) \<subseteq> mtypes st (L (Some i))" by blast+
  have "\<not> maccepts t (mtype st' m)" if "m \<in> set (L' (Some i))" for m
    using st'(3) that r(4) by (auto simp: mtypes_def)
  then show ?thesis using r(1) st'(1) same_id_ident [OF st'(2) r(2)] by (simp add: RcvCall msleeper_ok_def)
next
  case (SndCall idn msgp cnt flg type)
  consider (q) "ch = MQue i" "is_ident mi st i idn" "wwait st i" | (h) "ch = MHdr" "msgfp st = None"
    | (m) "ch = MMap" "mapwant (msgmap st) \<noteq> 0" "snd_no_units mi st cnt"
    using s by (auto simp: SndCall msleeper_ok_def)
  then show ?thesis
  proof cases
    case q
    have "ipc_live (msg_perms st i)" using q(2) by (simp add: is_ident_def)
    with msg_quietD(2) [OF \<open>msg_quiet mi st L st' L' W\<close> i] q(1,3) ch have "wwait st' i" "same_id st st' i" by blast+
    then show ?thesis using q same_id_ident by (auto simp: SndCall msleeper_ok_def)
  next
    case h
    then have "msgfp st' = None" using msg_quietD(3) [OF \<open>msg_quiet mi st L st' L' W\<close>] ch by blast
    then show ?thesis using h by (simp add: SndCall msleeper_ok_def)
  next
    case m
    then have a: "mapwant (msgmap st') \<noteq> 0" "free_units (msgmap st') \<subseteq> free_units (msgmap st)"
      using msg_quietD(4) [OF \<open>msg_quiet mi st L st' L' W\<close>] ch by blast+
    then have "snd_no_units mi st' cnt" using m(3) by (auto simp: snd_no_units_def)
    then show ?thesis using m a by (simp add: SndCall msleeper_ok_def)
  qed
qed

lemma mg_entry_tabs [simp]:
  "same_tabs st (mg_entry st)" "msg_free_locks (mg_entry st) = msg_free_locks st" "msg_wakes (mg_entry st) = []"
  "msgmap (mg_entry st) = msgmap st" "msg_copies (mg_entry st) = []" "u_error (mg_entry st) = None"
  by (simp_all add: mg_entry_def same_tabs_def msg_free_locks_def)

lemma mg_procs_next:
  assumes ok: "mg_procs_ok mi n st L procs" and inv: "msg_inv mi st L"
    and call: "msg_call_ok mi (mg_entry st) L st' L'" and p: "p < n"
    and pc: "\<And>c ch pc i. q = MpAsleep c ch pc i \<Longrightarrow> pc = PcLoop \<and> mcall_ok mi c i \<and> msleeper_ok mi st' L' c ch i"
      "\<And>c ch pc i. q \<noteq> MpWoken c ch pc i"
  shows "mg_procs_ok mi n st' L' ((mg_wakeup (msg_wakes st') procs)(p := q))"
proof -
  obtain ws where ws: "msg_wakes st' = ws" "msg_quiet mi (mg_entry st) L st' L' (set ws)" using call by (auto simp: msg_call_ok_def)
  have q: "msg_quiet mi st L st' L' (set ws)"
    using msg_quiet_trans [OF quiet_same_tabs [OF mg_entry_tabs(1), where W = "{}"] ws(2)] by simp
  show ?thesis unfolding mg_procs_ok_def ws(1)
  proof (intro conjI allI impI)
    fix r c ch pc i
    assume a: "((mg_wakeup ws procs)(p := q)) r = MpAsleep c ch pc i"
    have old: "procs r = MpAsleep c ch pc i \<and> ch \<notin> set ws" if "r \<noteq> p"
      using a that by (auto simp: mg_wakeup_def split: msg_proc.splits if_splits)
    have "r < n \<and> pc = PcLoop \<and> mcall_ok mi c i \<and> msleeper_ok mi st' L' c ch i"
    proof (cases "r = p")
      case True
      then show ?thesis using a pc(1) p by auto
    next
      case False
      then have b: "r < n" "pc = PcLoop" "mcall_ok mi c i" "msleeper_ok mi st L c ch i" using old ok unfolding mg_procs_ok_def by blast+
      have "i < msgmni mi" using b(3) by (simp add: mcall_ok_def)
      with msleeper_quiet [OF b(4) _ q] old False b show ?thesis by blast
    qed
    then show "r < n" "pc = PcLoop" "mcall_ok mi c i" "msleeper_ok mi st' L' c ch i" by blast+
  next
    fix r c ch pc i j
    assume a: "((mg_wakeup ws procs)(p := q)) r = MpWoken c ch pc i"
    then have "r \<noteq> p" using pc(2) by auto
    with a have "procs r = MpWoken c ch pc i \<or> procs r = MpAsleep c ch pc i"
      by (auto simp: mg_wakeup_def split: msg_proc.splits if_splits)
    then have "r < n \<and> pc = PcLoop \<and> mcall_ok mi c i \<and> (\<forall>j. ch \<noteq> MLock j)"
      using ok sleeper_chan [of mi st L c ch i] unfolding mg_procs_ok_def by blast
    then show "r < n" "pc = PcLoop" "mcall_ok mi c i" "ch \<noteq> MLock j" by blast+
  qed
qed

lemma rcv_out_proc:
  assumes "rcv_out mi um idn msgp msgsz t flg i st L res st' L'" "0 \<le> msgsz" "i < msgmni mi"
    and "mg_after (RcvCall idn msgp msgsz t flg) res = MpAsleep c ch pc k"
  shows "pc = PcLoop \<and> mcall_ok mi c k \<and> msleeper_ok mi st' L' c ch k"
  using assms by (auto simp: rcv_out_def mg_after_def mcall_ok_def msleeper_ok_def)

lemma snd_out_proc:
  assumes "snd_out mi um idn msgp cnt flg type i st L res st' L'" "0 \<le> cnt" "cnt \<le> msgmax mi" "1 \<le> type" "i < msgmni mi"
    and "mg_after (SndCall idn msgp cnt flg type) res = MpAsleep c ch pc k"
  shows "pc = PcLoop \<and> mcall_ok mi c k \<and> msleeper_ok mi st' L' c ch k"
  using assms by (auto simp: snd_out_def mg_after_def mcall_ok_def msleeper_ok_def)

lemma early_proc: "msg_early st L res st' L' \<Longrightarrow> mg_after c res = MpIdle"
  by (simp add: msg_early_def mg_after_def)

lemma mg_after_woken [simp]: "mg_after c res \<noteq> MpWoken d ch pc i"
  by (auto simp: mg_after_def split: msg_res.splits)

text \<open>Every call, wakeup and signal, from a state of the system.\<close>

definition mg_result :: "msginfo \<Rightarrow> msgst \<Rightarrow> (nat option \<Rightarrow> nat list) \<Rightarrow> msg_call \<Rightarrow> msg_res \<Rightarrow> msgst \<Rightarrow> bool" where
  "mg_result mi st L c res st' \<longleftrightarrow> (\<exists>L'. msg_call_ok mi st L st' L' \<and> msg_free_locks st' \<and>
     (\<forall>d ch pc k. mg_after c res = MpAsleep d ch pc k \<longrightarrow> pc = PcLoop \<and> mcall_ok mi d k \<and> msleeper_ok mi st' L' d ch k))"

lemma msgsys_result:
  assumes inv: "msg_inv mi st L" and lk: "msg_free_locks st" and um: "msg_um_ok um" and w: "unat (mapwant (msgmap st)) < 4294967295"
  shows "\<exists>res st'. msgsys mi u time um fid a st = Some (res, st') \<and> mg_result mi st L (mg_call_of um fid a) res st'"
proof -
  consider "3 < fid" | "fid = 0" | "fid = 1" | "fid = 2" | "fid = 3" by linarith
  then show ?thesis
  proof cases
    case 1
    have "msg_call_ok mi st L (set_error EINVAL st) L" by (rule call_same [OF inv]) (simp_all add: same_tabs_def)
    then show ?thesis using 1 lk
      by (auto simp: msgsys_def mg_result_def mg_after_def msg_free_locks_def)
  next
    case 2
    have ok: "msg_call_ok mi st L (msgget mi u time (a 0) (word_of_int (a 1)) st) L" using msgget_ok [OF inv] by blast
    then have "msg_free_locks (msgget mi u time (a 0) (word_of_int (a 1)) st)"
      using lk by (simp add: msg_call_ok_def msg_free_locks_def)
    then show ?thesis using 2 ok by (auto simp: msgsys_def mg_result_def mg_after_def)
  next
    case 3
    then show ?thesis using msgctl_ok [OF inv lk um, of u time "a 0" "a 1" "a 2"]
      by (auto simp: msgsys_def mg_result_def mg_after_def)
  next
    case 4
    obtain res st' L' where r: "msgrcv mi u time um (a 0) (a 1) (a 2) (a 3) (word_of_int (a 4)) st = Some (res, st')"
      "msg_call_ok mi st L st' L'" "msg_free_locks st'" "msg_early st L res st' L' \<or>
       (\<exists>i. is_ident mi st i (a 0) \<and> 0 \<le> a 2 \<and> rcv_out mi um (a 0) (a 1) (a 2) (a 3) (word_of_int (a 4)) i st L res st' L')"
      using msgrcv_ok [OF inv lk, of u time um "a 0" "a 1" "a 2" "a 3" "word_of_int (a 4)"] by blast
    have c: "mg_call_of um fid a = RcvCall (a 0) (a 1) (a 2) (a 3) (word_of_int (a 4))" using 4 by (simp add: mg_call_of_def)
    have "pc = PcLoop \<and> mcall_ok mi d k \<and> msleeper_ok mi st' L' d ch k"
      if after: "mg_after (mg_call_of um fid a) res = MpAsleep d ch pc k" for d ch pc k
      using r(4)
    proof (elim disjE exE conjE)
      assume "msg_early st L res st' L'" then show ?thesis using early_proc after by fastforce
    next
      fix i assume "is_ident mi st i (a 0)" "0 \<le> a 2" "rcv_out mi um (a 0) (a 1) (a 2) (a 3) (word_of_int (a 4)) i st L res st' L'"
      then show ?thesis using rcv_out_proc after unfolding c is_ident_def by blast
    qed
    then show ?thesis using r 4 by (auto simp: msgsys_def mg_result_def)
  next
    case 5
    obtain res st' L' where r: "msgsnd mi u time um (a 0) (a 1) (a 2) (word_of_int (a 3)) st = Some (res, st')"
      "msg_call_ok mi st L st' L'" "msg_free_locks st'" "msg_early st L res st' L' \<or>
       (\<exists>i type. is_ident mi st i (a 0) \<and> 0 \<le> a 2 \<and> a 2 \<le> msgmax mi \<and> mu_type um (a 1) = Some type \<and> 1 \<le> type \<and>
          snd_out mi um (a 0) (a 1) (a 2) (word_of_int (a 3)) type i st L res st' L')"
      using msgsnd_ok [OF inv lk um w, of u time "a 0" "a 1" "a 2" "word_of_int (a 3)"] by blast
    have "pc = PcLoop \<and> mcall_ok mi d k \<and> msleeper_ok mi st' L' d ch k"
      if after: "mg_after (mg_call_of um fid a) res = MpAsleep d ch pc k" for d ch pc k
      using r(4)
    proof (elim disjE exE conjE)
      assume "msg_early st L res st' L'" then show ?thesis using early_proc after by fastforce
    next
      fix i type
      assume x: "is_ident mi st i (a 0)" "0 \<le> a 2" "a 2 \<le> msgmax mi" "mu_type um (a 1) = Some type" "1 \<le> type"
        "snd_out mi um (a 0) (a 1) (a 2) (word_of_int (a 3)) type i st L res st' L'"
      have "mg_call_of um fid a = SndCall (a 0) (a 1) (a 2) (word_of_int (a 3)) type" using 5 x(4) by (simp add: mg_call_of_def)
      then show ?thesis using snd_out_proc [OF x(6,2,3,5)] after x(1) unfolding is_ident_def by auto
    qed
    then show ?thesis using r 5 by (auto simp: msgsys_def mg_result_def)
  qed
qed

lemma msg_resume_result:
  assumes inv: "msg_inv mi st L" and lk: "msg_free_locks st" and um: "msg_um_ok um" and w: "unat (mapwant (msgmap st)) < 4294967295"
    and c: "mcall_ok mi c i"
  shows "\<exists>res st'. msg_resume mi u time um c PcLoop i st = Some (res, st') \<and> mg_result mi st L c res st'"
proof (cases c)
  case (RcvCall idn msgp msgsz t flg)
  have a: "i < msgmni mi" "0 \<le> msgsz" using c by (simp_all add: RcvCall mcall_ok_def)
  obtain res st' L' where r: "msgrcv_loop mi u time um idn msgp msgsz t flg i st = Some (res, st')"
    "msg_call_ok mi st L st' L'" "msg_free_locks st'" "rcv_out mi um idn msgp msgsz t flg i st L res st' L'"
    using msgrcv_loop_ok [OF inv lk a] by blast
  then show ?thesis using rcv_out_proc [OF r(4) a(2,1)] by (auto simp: RcvCall mg_result_def)
next
  case (SndCall idn msgp cnt flg type)
  have a: "i < msgmni mi" "0 \<le> cnt" "cnt \<le> msgmax mi" "1 \<le> type" using c by (simp_all add: SndCall mcall_ok_def)
  obtain res st' L' where r: "msgsnd_loop mi u time um idn msgp cnt flg type i st = Some (res, st')"
    "msg_call_ok mi st L st' L'" "msg_free_locks st'" "snd_out mi um idn msgp cnt flg type i st L res st' L'"
    using msgsnd_loop_ok [OF inv lk a um w] by blast
  then show ?thesis using snd_out_proc [OF r(4) a(2,3,4,1)] by (auto simp: SndCall mg_result_def)
qed

lemma msg_signal_result:
  assumes inv: "msg_inv mi st L" and lk: "msg_free_locks st"
  shows "\<exists>st'. msg_signal mi c ch i st = (MsgRet, st') \<and> mg_result mi st L c MsgRet st'"
proof (cases c)
  case (RcvCall idn msgp msgsz t flg)
  have "msg_call_ok mi st L (set_error EINTR st) L" by (rule call_same [OF inv]) (simp_all add: same_tabs_def)
  then show ?thesis using lk by (auto simp: RcvCall msgrcv_intr_def mg_result_def mg_after_def msg_free_locks_def)
next
  case (SndCall idn msgp cnt flg type)
  then show ?thesis using msgsnd_intr_ok [OF inv lk, of idn ch i] by (auto simp: mg_result_def mg_after_def)
qed

lemma mg_next_ok:
  assumes inv: "msg_inv mi (mgst s) L" and w: "unat (mapwant (msgmap (mgst s))) \<le> k"
    and ok: "mg_procs_ok mi n (mgst s) L (mgprocs s)" and p: "p < n" and r: "mg_result mi (mg_entry (mgst s)) L c res st'"
  shows "mg_ok mi n (Suc k) (mg_next s p st' (mg_after c res))"
proof -
  obtain L' where L': "msg_call_ok mi (mg_entry (mgst s)) L st' L'" "msg_free_locks st'"
    "\<forall>d ch pc k. mg_after c res = MpAsleep d ch pc k \<longrightarrow> pc = PcLoop \<and> mcall_ok mi d k \<and> msleeper_ok mi st' L' d ch k"
    using r by (auto simp: mg_result_def)
  have "mg_procs_ok mi n st' L' ((mg_wakeup (msg_wakes st') (mgprocs s))(p := mg_after c res))"
    by (rule mg_procs_next [OF ok inv L'(1) p]) (use L'(3) in auto)
  then show ?thesis using L'(1,2) w unfolding mg_ok_def mg_next_def
    by (intro exI [of _ L']) (auto simp: msg_call_ok_def)
qed

lemma mg_step_ok:
  assumes ok: "mg_ok mi n k s" and k: "k < 4294967295" and st: "mg_step mi n s s'"
  shows "mg_ok mi n (Suc k) s'"
proof -
  obtain L where L: "msg_inv mi (mgst s) L" "msg_free_locks (mgst s)" "unat (mapwant (msgmap (mgst s))) \<le> k"
    "mg_procs_ok mi n (mgst s) L (mgprocs s)" using ok by (auto simp: mg_ok_def)
  have e: "msg_inv mi (mg_entry (mgst s)) L" using L(1) msg_inv_same [OF mg_entry_tabs(1)] by simp
  have l: "msg_free_locks (mg_entry (mgst s))" using L(2) by simp
  have w: "unat (mapwant (msgmap (mg_entry (mgst s)))) < 4294967295" using L(3) k by simp
  from st show ?thesis
  proof cases
    case (mg_call p um u time fid a res st')
    then have "mg_result mi (mg_entry (mgst s)) L (mg_call_of um fid a) res st'"
      using msgsys_result [OF e l mg_call(4) w, of u time fid a] by auto
    then show ?thesis using mg_next_ok [OF L(1,3,4) mg_call(2)] mg_call(1) by simp
  next
    case (mg_run p c ch pc i um u time res st')
    then have c: "pc = PcLoop" "mcall_ok mi c i" using L(4) unfolding mg_procs_ok_def by blast+
    have "mg_result mi (mg_entry (mgst s)) L c res st'"
      using msg_resume_result [OF e l mg_run(4) w c(2), of u time] mg_run(5) c(1) by auto
    then show ?thesis using mg_next_ok [OF L(1,3,4) mg_run(2)] mg_run(1) by simp
  next
    case (mg_signal p c ch i res st')
    then have "mg_result mi (mg_entry (mgst s)) L c res st'" using msg_signal_result [OF e l, of c ch i] by auto
    then show ?thesis using mg_next_ok [OF L(1,3,4) mg_signal(2)] mg_signal(1) by simp
  qed
qed

lemma mg_init_ok: "mg_init mi s \<Longrightarrow> mg_ok mi n 0 s"
proof -
  assume "mg_init mi s"
  then obtain st st' got where b: "mi_ok mi" "msg_boot mi st" "msginit mi got st = Some st'" "s = \<lparr>mgst = st', mgprocs = \<lambda>p. MpIdle\<rparr>"
    by (auto simp: mg_init_def)
  obtain st2 where "msginit mi got st = Some st2" "msg_inv mi st2 (\<lambda>c. if c = None then [0 ..< msgtql mi] else [])"
    "msg_free_locks st2" "mapwant (msgmap st2) = 0" by (rule msginit_ok [OF b(2,1)])
  then show ?thesis using b unfolding mg_ok_def mg_procs_ok_def by auto
qed

interpretation mgs: bounded_system "mg_init mi" "mg_step mi n" "mg_ok mi n" 4294967295 for mi n
  by unfold_locales (auto intro: mg_init_ok mg_step_ok)

end
