(* ===== verification/MsgSys.thy ===== *)
theory MsgSys
  imports MsgSystem
begin

text \<open>
  The properties of the message facility: queues as sequences of typed texts, what \<open>msgsnd\<close>, \<open>msgrcv\<close> and
  \<open>msgctl\<close> do to them from every reachable state, identifiers as instances of \<open>ipc_ids\<close>, and a small system
  on which the properties are evaluated.
\<close>

section \<open>Queues of a reachable state\<close>

text \<open>The types and texts of the messages of queue \<open>i\<close>, found by walking its list.\<close>

definition mqueue :: "msginfo \<Rightarrow> msgst \<Rightarrow> nat \<Rightarrow> (int \<times> u8 list) list" where
  "mqueue mi st i = mview mi st (the (walk (msgtql mi) (\<lambda>m. msg_next (msgh st m)) (msg_first (msgque st i))))"

lemma mqueue_eq: "msg_inv mi st L \<Longrightarrow> i < msgmni mi \<Longrightarrow> mqueue mi st i = mview mi st (L (Some i))"
  using chains_walk [OF msg_coreD(2), of mi st "{}" L "Some i"] by (simp add: mqueue_def msg_inv_def)

lemma mqueue_views:
  assumes "msg_inv mi st L" "msg_inv mi st' L'"
  shows "same_views mi st L st' L' \<longleftrightarrow> (\<forall>j < msgmni mi. mqueue mi st' j = mqueue mi st j)"
    "sent_views mi i x st L st' L' \<longleftrightarrow> (\<forall>j < msgmni mi. mqueue mi st' j = mqueue mi st j @ (if j = i then [x] else []))"
  using mqueue_eq [OF assms(1)] mqueue_eq [OF assms(2)] unfolding same_views_def sent_views_def by simp_all

lemma mqueue_entry [simp]: "mqueue mi (mg_entry st) i = mqueue mi st i"
  by (simp add: mqueue_def mg_entry_def mview_def msg_text_def)

lemma ident_entry [simp]: "is_ident mi (mg_entry st) i idn = is_ident mi st i idn"
  by (rule is_ident_same) simp

lemma mg_entry_sel [simp]:
  "msgque (mg_entry st) = msgque st" "msg_perms (mg_entry st) = msg_perms st" "msgh (mg_entry st) = msgh st" "msgfp (mg_entry st) = msgfp st"
  "fst (ipcaccess u p m (mg_entry st)) = fst (ipcaccess u p m st)"
  by (simp_all add: mg_entry_def msg_perms_def [abs_def] ipcaccess_class)

lemma mg_reach:
  assumes "run_of (mg_init mi) (mg_step mi n) k s" "k < 4294967295"
  obtains L where "msg_inv mi (mgst s) L" "msg_inv mi (mg_entry (mgst s)) L" "msg_free_locks (mg_entry (mgst s))"
    "unat (mapwant (msgmap (mg_entry (mgst s)))) < 4294967295" "mg_procs_ok mi n (mgst s) L (mgprocs s)"
proof -
  have "mg_ok mi n k s" by (rule mgs.run_inv [OF assms(1)]) (use assms(2) in simp)
  then obtain L where L: "msg_inv mi (mgst s) L" "msg_free_locks (mgst s)" "unat (mapwant (msgmap (mgst s))) \<le> k"
    "mg_procs_ok mi n (mgst s) L (mgprocs s)" by (auto simp: mg_ok_def)
  show ?thesis by (rule that [of L]) (use L assms(2) msg_inv_same [OF mg_entry_tabs(1)] in simp_all)
qed

lemma early_views: "msg_early st L res st' L' \<Longrightarrow> same_views mi st L st' L' \<and> res = MsgRet \<and> u_error st' \<noteq> None \<and> msg_copies st' = msg_copies st"
  using same_tabs_views by (auto simp: msg_early_def)

section \<open>Identifiers\<close>

definition msg_live :: "msgst \<Rightarrow> nat \<Rightarrow> bool" where
  "msg_live st i = ipc_live (msg_perm (msgque st i))"

definition msg_ident :: "msginfo \<Rightarrow> msgst \<Rightarrow> nat \<Rightarrow> int" where
  "msg_ident mi st i = uint (ip_seq (msg_perm (msgque st i))) * int (msgmni mi) + int i"

text \<open>The slot an identifier converts to, with no lock in the way.\<close>

definition msg_conv_slot :: "msginfo \<Rightarrow> msgst \<Rightarrow> int \<Rightarrow> ptr" where
  "msg_conv_slot mi st idn = (case msgconv mi idn (st\<lparr>msglock := \<lambda>i. False\<rparr>) of (CvOk i, st') \<Rightarrow> Some i | _ \<Rightarrow> None)"

lemma is_ident_ident: "is_ident mi st i idn \<longleftrightarrow> i < msgmni mi \<and> msg_live st i \<and> msg_ident mi st i = idn"
  by (auto simp: is_ident_def msg_live_def msg_ident_def msg_perms_def)

interpretation msg_ids: ipc_ids "msg_conv_slot mi" msg_live "msg_ident mi" "int (msgmni mi)" for mi
proof unfold_locales
  fix st idn i assume "0 < int (msgmni mi)"
  then have mi: "0 < msgmni mi" by simp
  have lk: "msg_free_locks (st\<lparr>msglock := \<lambda>i. False\<rparr>)" by (simp add: msg_free_locks_def)
  from mi lk show "(msg_conv_slot mi st idn = Some i) = (int i < int (msgmni mi) \<and> msg_live st i \<and> msg_ident mi st i = idn)"
  proof (cases rule: msgconv_cases [where idn = idn])
    case (err st')
    then show ?thesis using is_ident_ident [of mi st i idn] by (simp add: msg_conv_slot_def)
  next
    case (ok j)
    then show ?thesis using is_ident_ident [of mi st i idn] is_ident_unique [of mi st j idn st i] by (auto simp: msg_conv_slot_def)
  qed
next
  fix st t i j
  assume a: "int i < int (msgmni mi)" "int j < int (msgmni mi)" "msg_ident mi st i = msg_ident mi t j"
  have m: "msg_ident mi s k mod int (msgmni mi) = int k" if "int k < int (msgmni mi)" for s k
    using that by (simp add: msg_ident_def)
  show "i = j" using m [OF a(1), of st] m [OF a(2), of t] a(3) by simp
qed

section \<open>Sending and receiving on sequences\<close>

lemma msgsnd_spec:
  assumes "msg_inv mi st L" "msg_free_locks st" "msg_um_ok um" "unat (mapwant (msgmap st)) < 4294967295" "u_error st = None"
  obtains res st' L' where "msgsnd mi u time um idn msgp cnt flg st = Some (res, st')" "msg_inv mi st' L'" "msg_free_locks st'"
    "unat (mapwant (msgmap st')) \<le> Suc (unat (mapwant (msgmap st)))"
    "((\<forall>j < msgmni mi. mqueue mi st' j = mqueue mi st j) \<and> (res = MsgRet \<longrightarrow> u_error st' \<noteq> None)) \<or>
     (res = MsgRet \<and> u_error st' = None \<and> u_rval1 st' = 0 \<and> (\<exists>i type. is_ident mi st i idn \<and> is_ident mi st' i idn \<and> 0 \<le> cnt \<and> cnt \<le> msgmax mi \<and>
        mu_type um msgp = Some type \<and> 1 \<le> type \<and> \<not> fst (ipcaccess u (msg_perms st i) MSG_W st) \<and>
        cnt + msg_cbytes (msgque st i) \<le> msg_qbytes (msgque st i) \<and> (cnt \<noteq> 0 \<longrightarrow> snd (mu_text um msgp (nat cnt))) \<and>
        (\<forall>j < msgmni mi. mqueue mi st' j = mqueue mi st j @
           (if j = i then [(type, if cnt = 0 then [] else fst (mu_text um msgp (nat cnt)))] else []))))"
proof -
  obtain res st' L' where r: "msgsnd mi u time um idn msgp cnt flg st = Some (res, st')" "msg_call_ok mi st L st' L'" "msg_free_locks st'"
    and o: "msg_early st L res st' L' \<or>
       (\<exists>i type. is_ident mi st i idn \<and> 0 \<le> cnt \<and> cnt \<le> msgmax mi \<and> mu_type um msgp = Some type \<and> 1 \<le> type \<and>
          \<not> fst (ipcaccess u (msg_perms st i) MSG_W st) \<and> snd_out mi um idn msgp cnt flg type i st L res st' L')"
    using msgsnd_ok [OF assms(1-4), of u time idn msgp cnt flg] by blast
  have inv': "msg_inv mi st' L'" "unat (mapwant (msgmap st')) \<le> Suc (unat (mapwant (msgmap st)))" using r(2) by (simp_all add: msg_call_ok_def)
  show ?thesis
  proof (rule that [OF r(1) inv'(1) r(3) inv'(2)], cases "msg_early st L res st' L'")
    case True
    then show "((\<forall>j < msgmni mi. mqueue mi st' j = mqueue mi st j) \<and> (res = MsgRet \<longrightarrow> u_error st' \<noteq> None)) \<or>
     (res = MsgRet \<and> u_error st' = None \<and> u_rval1 st' = 0 \<and> (\<exists>i type. is_ident mi st i idn \<and> is_ident mi st' i idn \<and> 0 \<le> cnt \<and> cnt \<le> msgmax mi \<and>
        mu_type um msgp = Some type \<and> 1 \<le> type \<and> \<not> fst (ipcaccess u (msg_perms st i) MSG_W st) \<and>
        cnt + msg_cbytes (msgque st i) \<le> msg_qbytes (msgque st i) \<and> (cnt \<noteq> 0 \<longrightarrow> snd (mu_text um msgp (nat cnt))) \<and>
        (\<forall>j < msgmni mi. mqueue mi st' j = mqueue mi st j @
           (if j = i then [(type, if cnt = 0 then [] else fst (mu_text um msgp (nat cnt)))] else []))))"
      using early_views mqueue_views(1) [OF assms(1) inv'(1)] by blast
  next
    case False
    with o obtain i type where x: "is_ident mi st i idn" "0 \<le> cnt" "cnt \<le> msgmax mi" "mu_type um msgp = Some type" "1 \<le> type"
      "\<not> fst (ipcaccess u (msg_perms st i) MSG_W st)" "snd_out mi um idn msgp cnt flg type i st L res st' L'" by blast
    have v: "L' = L \<Longrightarrow> same_views mi st L st' L \<Longrightarrow> \<forall>j < msgmni mi. mqueue mi st' j = mqueue mi st j"
      using mqueue_views(1) [OF assms(1) inv'(1)] by blast
    from x(7) show "((\<forall>j < msgmni mi. mqueue mi st' j = mqueue mi st j) \<and> (res = MsgRet \<longrightarrow> u_error st' \<noteq> None)) \<or>
     (res = MsgRet \<and> u_error st' = None \<and> u_rval1 st' = 0 \<and> (\<exists>i type. is_ident mi st i idn \<and> is_ident mi st' i idn \<and> 0 \<le> cnt \<and> cnt \<le> msgmax mi \<and>
        mu_type um msgp = Some type \<and> 1 \<le> type \<and> \<not> fst (ipcaccess u (msg_perms st i) MSG_W st) \<and>
        cnt + msg_cbytes (msgque st i) \<le> msg_qbytes (msgque st i) \<and> (cnt \<noteq> 0 \<longrightarrow> snd (mu_text um msgp (nat cnt))) \<and>
        (\<forall>j < msgmni mi. mqueue mi st' j = mqueue mi st j @
           (if j = i then [(type, if cnt = 0 then [] else fst (mu_text um msgp (nat cnt)))] else []))))"
      unfolding snd_out_def
    proof (elim conjE disjE)
      assume a: "is_ident mi st' i idn" "res = MsgRet" "u_error st' = u_error st" "u_rval1 st' = 0" "\<not> snd_full st cnt i" "cnt \<noteq> 0 \<longrightarrow> snd (mu_text um msgp (nat cnt))"
        "sent_views mi i (type, if cnt = 0 then [] else fst (mu_text um msgp (nat cnt))) st L st' L'"
      then show ?thesis using x(1-6) mqueue_views(2) [OF assms(1) inv'(1)] assms(5)
        by (intro disjI2 conjI exI [of _ i] exI [of _ type]) (auto simp: snd_full_def)
    qed (use v mqueue_views(1) [OF assms(1) inv'(1)] in auto)
  qed
qed

text \<open>One message taken out of queue \<open>i\<close>.\<close>

definition msg_taken :: "msginfo \<Rightarrow> msgst \<Rightarrow> msgst \<Rightarrow> nat \<Rightarrow> (int \<times> u8 list) list \<Rightarrow> int \<times> u8 list \<Rightarrow> (int \<times> u8 list) list \<Rightarrow> bool" where
  "msg_taken mi st st' i qs x rs \<longleftrightarrow> mqueue mi st i = qs @ x # rs \<and> mqueue mi st' i = qs @ rs \<and>
     (\<forall>j < msgmni mi. j \<noteq> i \<longrightarrow> mqueue mi st' j = mqueue mi st j)"

lemma length_msg_text: "length (msg_text mi st m n) = n"
  by (simp add: msg_text_def)

lemma rcv_taken_queue:
  assumes inv: "msg_inv mi st L" "msg_inv mi st' L'" and i: "i < msgmni mi" and L: "L (Some i) = as @ m # bs"
    and t: "rcv_taken mi msgp msgsz flg i as m bs st L st' L'"
  shows "msg_taken mi st st' i (mview mi st as) (mtype st m, msg_text mi st m (nat (msg_ts (msgh st m)))) (mview mi st bs)"
    "map fst (mview mi st xs) = map (mtype st) xs"
    "int (length (msg_text mi st m (nat (msg_ts (msgh st m))))) = msg_ts (msgh st m)"
proof -
  have core: "msg_core mi st {} L" using inv(1) by (simp add: msg_inv_def)
  have T: "L' (Some i) = as @ bs" "\<And>j. j \<noteq> i \<Longrightarrow> L' (Some j) = L (Some j)" "\<And>xs. mview mi st' xs = mview mi st xs"
    using t by (simp_all add: rcv_taken_def)
  have app: "mview mi st (xs @ ys) = mview mi st xs @ mview mi st ys" for xs ys by (simp add: mview_def)
  have "mqueue mi st i = mview mi st as @ (mtype st m, msg_text mi st m (nat (msg_ts (msgh st m)))) # mview mi st bs"
    using mqueue_eq [OF inv(1) i] L by (simp add: mview_def)
  moreover have "mqueue mi st' i = mview mi st as @ mview mi st bs" using mqueue_eq [OF inv(2) i] T(1,3) app by simp
  moreover have "mqueue mi st' j = mqueue mi st j" if "j < msgmni mi" "j \<noteq> i" for j
    using mqueue_eq [OF inv(1) that(1)] mqueue_eq [OF inv(2) that(1)] T(2) [OF that(2)] T(3) by simp
  ultimately show "msg_taken mi st st' i (mview mi st as) (mtype st m, msg_text mi st m (nat (msg_ts (msgh st m)))) (mview mi st bs)"
    by (simp add: msg_taken_def)
  show "map fst (mview mi st xs) = map (mtype st) xs" by (simp add: mview_def)
  have "msg_fit mi (msgh st m)" by (rule msg_storeD(3) [OF msg_coreD(4) [OF core] msg_core_used(1) [OF core i L]])
  then show "int (length (msg_text mi st m (nat (msg_ts (msgh st m))))) = msg_ts (msgh st m)"
    by (simp add: length_msg_text msg_fit_def)
qed

definition rcv_received :: "msginfo \<Rightarrow> uarea \<Rightarrow> int \<Rightarrow> int \<Rightarrow> int \<Rightarrow> int \<Rightarrow> u32 \<Rightarrow> msgst \<Rightarrow> msgst \<Rightarrow> bool" where
  "rcv_received mi u idn msgp msgsz t flg st st' \<longleftrightarrow> (\<exists>i qs ty text rs. is_ident mi st i idn \<and> 0 \<le> msgsz \<and>
     \<not> fst (ipcaccess u (msg_perms st i) MSG_R st) \<and> msg_taken mi st st' i qs (ty, text) rs \<and> mdue t (map fst qs) ty (map fst rs) \<and>
     (int (length text) \<le> msgsz \<or> flg AND MSG_NOERROR \<noteq> 0) \<and> u_rval1 st' = min msgsz (int (length text)) \<and>
     msg_copies st' = msg_copies st @ [OutMsg msgp ty (take (nat msgsz) text)])"

text \<open>Why a receive is refused or sleeps, once the queue is found and may be read.\<close>

definition rcv_cause :: "msginfo \<Rightarrow> msg_umem \<Rightarrow> int \<Rightarrow> int \<Rightarrow> int \<Rightarrow> u32 \<Rightarrow> (int \<times> u8 list) list \<Rightarrow> msg_res \<Rightarrow> errno option \<Rightarrow> bool" where
  "rcv_cause mi um msgp msgsz t flg q res e \<longleftrightarrow>
     (if res \<noteq> MsgRet then flg AND MSG_NOWAIT = 0 \<and> (\<forall>x\<in>set q. \<not> maccepts t (fst x))
      else (e = Some ENOMSG \<and> flg AND MSG_NOWAIT \<noteq> 0 \<and> (\<forall>x\<in>set q. \<not> maccepts t (fst x))) \<or>
        (e = Some EFAULT \<and> \<not> mu_writable um msgp) \<or>
        (e = Some E2BIG \<and> flg AND MSG_NOERROR = 0 \<and> (\<exists>x\<in>set q. maccepts t (fst x) \<and> msgsz < int (length (snd x)))))"

lemma msgrcv_spec:
  assumes inv: "msg_inv mi st L" and lk: "msg_free_locks st" and e: "u_error st = None"
  obtains res st' L' where "msgrcv mi u time um idn msgp msgsz t flg st = Some (res, st')" "msg_inv mi st' L'" "msg_free_locks st'"
    "((\<forall>j < msgmni mi. mqueue mi st' j = mqueue mi st j) \<and> msg_copies st' = msg_copies st \<and> (res = MsgRet \<longrightarrow> u_error st' \<noteq> None) \<and>
       (\<forall>i. is_ident mi st i idn \<longrightarrow> 0 \<le> msgsz \<longrightarrow> \<not> fst (ipcaccess u (msg_perms st i) MSG_R st) \<longrightarrow>
          rcv_cause mi um msgp msgsz t flg (mqueue mi st i) res (u_error st'))) \<or>
     (res = MsgRet \<and> u_error st' = None \<and> rcv_received mi u idn msgp msgsz t flg st st')"
proof -
  obtain res st' L' where r: "msgrcv mi u time um idn msgp msgsz t flg st = Some (res, st')" "msg_call_ok mi st L st' L'" "msg_free_locks st'"
    and o: "msg_early st L res st' L' \<and>
         (\<forall>i. is_ident mi st i idn \<longrightarrow> 0 \<le> msgsz \<longrightarrow> fst (ipcaccess u (msg_perms st i) MSG_R st)) \<or>
       (\<exists>i. is_ident mi st i idn \<and> 0 \<le> msgsz \<and> \<not> fst (ipcaccess u (msg_perms st i) MSG_R st) \<and>
          rcv_out mi um idn msgp msgsz t flg i st L res st' L')"
    using msgrcv_ok [OF inv lk, of u time um idn msgp msgsz t flg] by blast
  have inv': "msg_inv mi st' L'" using r(2) by (simp add: msg_call_ok_def)
  have core: "msg_core mi st {} L" using inv by (simp add: msg_inv_def)
  have P: "((\<forall>j < msgmni mi. mqueue mi st' j = mqueue mi st j) \<and> msg_copies st' = msg_copies st \<and> (res = MsgRet \<longrightarrow> u_error st' \<noteq> None) \<and>
       (\<forall>i. is_ident mi st i idn \<longrightarrow> 0 \<le> msgsz \<longrightarrow> \<not> fst (ipcaccess u (msg_perms st i) MSG_R st) \<longrightarrow>
          rcv_cause mi um msgp msgsz t flg (mqueue mi st i) res (u_error st'))) \<or>
     (res = MsgRet \<and> u_error st' = None \<and> rcv_received mi u idn msgp msgsz t flg st st')"
  proof (cases "msg_early st L res st' L' \<and> (\<forall>i. is_ident mi st i idn \<longrightarrow> 0 \<le> msgsz \<longrightarrow> fst (ipcaccess u (msg_perms st i) MSG_R st))")
    case True
    then show ?thesis using early_views [of st L res st' L'] mqueue_views(1) [OF inv inv'] by blast
  next
    case False
    with o obtain i where x: "is_ident mi st i idn" "0 \<le> msgsz" "\<not> fst (ipcaccess u (msg_perms st i) MSG_R st)"
      "rcv_out mi um idn msgp msgsz t flg i st L res st' L'" by blast
    have i: "i < msgmni mi" using x(1) by (simp add: is_ident_def)
    have only: "j = i" if "is_ident mi st j idn" for j using is_ident_unique [OF that x(1)] .
    have q: "mqueue mi st i = mview mi st (L (Some i))" by (rule mqueue_eq [OF inv i])
    have acc: "(\<forall>m\<in>set (L (Some i)). \<not> maccepts t (mtype st m)) \<longleftrightarrow> (\<forall>x\<in>set (mqueue mi st i). \<not> maccepts t (fst x))"
      unfolding q by (simp add: mview_def)
    show ?thesis using x(4) unfolding rcv_out_def
    proof (elim disjE exE conjE)
      fix er
      assume a: "res = MsgRet" "L' = L" "same_tabs st st'" "msg_copies st' = msg_copies st" "u_error st' = Some er"
        "rcv_refused um msgp i idn msgsz t flg mi st L er"
      have same: "\<forall>j < msgmni mi. mqueue mi st' j = mqueue mi st j"
        using mqueue_views(1) [OF inv inv'] same_tabs_views [OF a(3)] a(2) by blast
      have "rcv_cause mi um msgp msgsz t flg (mqueue mi st i) res (u_error st')"
        using a(6) x(1) unfolding rcv_refused_def
      proof (elim disjE exE conjE)
        fix as m bs
        assume b: "er = E2BIG" "flg AND MSG_NOERROR = 0" "L (Some i) = as @ m # bs"
          "mdue t (map (mtype st) as) (mtype st m) (map (mtype st) bs)" "msgsz < msg_ts (msgh st m)"
        have "msg_fit mi (msgh st m)" by (rule msg_storeD(3) [OF msg_coreD(4) [OF core] msg_core_used(1) [OF core i b(3)]])
        then have "int (length (msg_text mi st m (nat (msg_ts (msgh st m))))) = msg_ts (msgh st m)" by (simp add: length_msg_text msg_fit_def)
        then have "\<exists>x\<in>set (mqueue mi st i). maccepts t (fst x) \<and> msgsz < int (length (snd x))"
          unfolding q b(3) using b(4,5) by (simp add: mview_def mdue_def)
        then show ?thesis using a(1,5) b(1,2) by (simp add: rcv_cause_def)
      qed (use a(1,5) acc in \<open>auto simp: rcv_cause_def\<close>)
      then show ?thesis using same a only by (intro disjI1) auto
    next
      fix as m bs
      assume a: "res = MsgRet" "L (Some i) = as @ m # bs" "mdue t (map (mtype st) as) (mtype st m) (map (mtype st) bs)"
        "rcv_taken mi msgp msgsz flg i as m bs st L st' L'"
      note T = rcv_taken_queue [OF inv inv' i a(2,4)]
      have "rcv_received mi u idn msgp msgsz t flg st st'"
        unfolding rcv_received_def
        by (rule exI [of _ i], rule exI [of _ "mview mi st as"], rule exI [of _ "mtype st m"],
            rule exI [of _ "msg_text mi st m (nat (msg_ts (msgh st m)))"], rule exI [of _ "mview mi st bs"])
          (use T x(1-3) a(3,4) in \<open>simp add: rcv_taken_def\<close>)
      then show ?thesis using a(1,4) e by (simp add: rcv_taken_def)
    next
      assume a: "res = MsgSleep (MQnum i) PcLoop i" "L' = L" "\<forall>xs. mview mi st' xs = mview mi st xs" "flg AND MSG_NOWAIT = 0"
        "msg_copies st' = msg_copies st" "\<forall>m\<in>set (L (Some i)). \<not> maccepts t (mtype st m)"
      have same: "\<forall>j < msgmni mi. mqueue mi st' j = mqueue mi st j"
        using mqueue_views(1) [OF inv inv'] a(2,3) by (simp add: same_views_def)
      have "rcv_cause mi um msgp msgsz t flg (mqueue mi st i) res (u_error st')"
        using a(1,4) acc a(6) by (simp add: rcv_cause_def)
      then show ?thesis using same a(1,5) only by (intro disjI1) auto
    qed
  qed
  show ?thesis by (rule that [OF r(1) inv' r(3) P])
qed

lemma msgctl_rmid_spec:
  assumes inv: "msg_inv mi st L" and lk: "msg_free_locks st" and id: "is_ident mi st i idn" and e: "u_error st = None" "msg_wakes st = []"
    and au: "u_uid u = ip_uid (msg_perms st i) \<or> u_uid u = ip_cuid (msg_perms st i) \<or> u_uid u = 0"
  obtains st' L' where "msgctl mi u time um idn 0 buf st = Some (MsgRet, st')" "msg_inv mi st' L'" "u_error st' = None"
    "mqueue mi st' i = []" "\<not> msg_live st' i" "\<forall>j < msgmni mi. j \<noteq> i \<longrightarrow> mqueue mi st' j = mqueue mi st j \<and> msgque st' j = msgque st j"
    "rwait st i \<longrightarrow> MQnum i \<in> set (msg_wakes st')" "wwait st i \<longrightarrow> MQue i \<in> set (msg_wakes st')"
proof -
  have mi: "0 < msgmni mi" and i: "i < msgmni mi" using id by (simp_all add: is_ident_def)
  let ?s = "st\<lparr>msglock := (msglock st)(i := True), u_rval1 := 0\<rparr>"
  have conv: "msgconv mi idn st = (CvOk i, st\<lparr>msglock := (msglock st)(i := True)\<rparr>)"
    using mi lk
  proof (cases rule: msgconv_cases [where idn = idn])
    case (ok j)
    then show ?thesis using is_ident_unique [OF ok(2) id] by simp
  qed (use id in blast)
  have s: "same_tabs st ?s" "msglock ?s = (msglock st)(i := True)" "msg_wakes ?s = msg_wakes st @ []" by (simp_all add: same_tabs_def)
  have inv': "msg_inv mi ?s L" using inv msg_inv_same [OF s(1)] by simp
  obtain st2 L' where r: "msgctl_rmid mi u idn i ?s = Some st2" "msg_call_ok mi ?s L st2 L'"
    "L' (Some i) = []" "\<not> ipc_live (msg_perms st2 i)" "\<forall>j. j \<noteq> i \<longrightarrow> L' (Some j) = L (Some j) \<and> msgque st2 j = msgque ?s j"
    "u_error st2 = u_error ?s" "\<forall>xs. mview mi st2 xs = mview mi ?s xs"
    using msgctl_rmid_ok [OF inv' i, of u idn] au by (auto simp: msg_perms_def)
  let ?t = "msg_unlock i st2"
  have run: "msgctl mi u time um idn 0 buf st = Some (MsgRet, ?t)" using conv r(1) by (simp add: msgctl_def Let_def)
  have call: "msg_call_ok mi st L ?t L'" by (rule locked_call(1) [OF lk s r(2)])
  then have inv2: "msg_inv mi ?t L'" by (simp add: msg_call_ok_def)
  have v: "mview mi ?t xs = mview mi st xs" for xs
    using r(7) mview_same [OF s(1)] mview_same [of st2 ?t] by simp
  have q: "mqueue mi ?t j = mview mi st (L' (Some j))" if "j < msgmni mi" for j using mqueue_eq [OF inv2 that] v by simp
  have dead: "\<not> ipc_live (msg_perms ?t i)" using r(4) by (simp add: msg_perms_def)
  obtain ws where ws: "msg_wakes ?t = ws" "msg_quiet mi st L ?t L' (set ws)" using call e(2) by (auto simp: msg_call_ok_def)
  have live: "ipc_live (msg_perms st i)" using id by (simp add: is_ident_def)
  have "rwait st i \<longrightarrow> MQnum i \<in> set ws" "wwait st i \<longrightarrow> MQue i \<in> set ws"
    using msg_quietD(1,2) [OF ws(2) i live] dead live unfolding same_id_def by blast+
  moreover have "mqueue mi ?t i = []" using q [OF i] r(3) by (simp add: mview_def)
  moreover have "\<forall>j < msgmni mi. j \<noteq> i \<longrightarrow> mqueue mi ?t j = mqueue mi st j \<and> msgque ?t j = msgque st j"
    using q r(5) mqueue_eq [OF inv] by simp
  moreover have "u_error ?t = None" "\<not> msg_live ?t i" using r(6) e(1) dead by (simp_all add: msg_live_def msg_perms_def)
  ultimately show ?thesis using that [OF run inv2] ws(1) by simp
qed

section \<open>A small system\<close>

definition demo_mi :: msginfo where
  "demo_mi = \<lparr>mi_msgmap = 10, msgmax = 8, msgmnb = 8, msgmni = 2, msgssz = 4, msgtql = 3, msgseg = 20\<rparr>"

definition demo_ds :: msqid_ds where
  "demo_ds = \<lparr>msg_perm = \<lparr>ip_uid = 0, ip_gid = 0, ip_cuid = 0, ip_cgid = 0, ip_mode = 0, ip_seq = 0, ip_key = 0\<rparr>,
     msg_first = None, msg_last = None, msg_cbytes = 0, msg_qnum = 0, msg_qbytes = 0, msg_lspid = 0, msg_lrpid = 0,
     msg_stime = 0, msg_rtime = 0, msg_ctime = 0\<rparr>"

definition demo_mboot :: msgst where
  "demo_mboot = \<lparr>u_error = None, u_rval1 = 0, u_asu = False, msgque = \<lambda>i. demo_ds,
     msgh = \<lambda>m. \<lparr>msg_next = None, msg_type = 0, msg_ts = 0, msg_spot = 0\<rparr>, msgfp = None,
     msgmap = \<lparr>mapsize = 0, mapwant = 0, mapent = replicate 9 zero_ent\<rparr>, mpool = \<lambda>a. 0, msglock = \<lambda>i. False,
     msg_wakes = [], msg_copies = [], msg_count = 0\<rparr>"

definition demo_root :: uarea where
  "demo_root = \<lparr>u_uid = 0, u_gid = 0, u_proc = 0, u_pid = 10\<rparr>"

text \<open>User memory: a message of type 5 whose text is ones, and a queue header with a larger limit.\<close>

definition demo_mum :: msg_umem where
  "demo_mum = \<lparr>mu_ds = (\<lambda>a. Some (demo_ds\<lparr>msg_qbytes := 100\<rparr>)), mu_type = (\<lambda>a. Some 5), mu_text = (\<lambda>a n. (replicate n 1, True)),
     mu_put = (\<lambda>a. True), mu_put_text = (\<lambda>a n. True)\<rparr>"

definition margs :: "int list \<Rightarrow> nat \<Rightarrow> int" where
  "margs xs k = (if k < length xs then xs ! k else 0)"

definition demo_m0 :: msgst where "demo_m0 = the (msginit demo_mi True demo_mboot)"
definition demo_c1 :: "msg_res \<times> msgst" where
  "demo_c1 = the (msgsys demo_mi demo_root 0 demo_mum 0 (margs [7, 950]) (mg_entry demo_m0))"
definition demo_c2 :: "msg_res \<times> msgst" where
  "demo_c2 = the (msgsys demo_mi demo_root 0 demo_mum 3 (margs [0, 0, 6, 0]) (mg_entry (snd demo_c1)))"
definition demo_c3 :: "msg_res \<times> msgst" where
  "demo_c3 = the (msgsys demo_mi demo_root 0 demo_mum 3 (margs [0, 0, 6, 0]) (mg_entry (snd demo_c2)))"
definition demo_c4 :: "msg_res \<times> msgst" where
  "demo_c4 = the (msgsys demo_mi demo_root 0 demo_mum 1 (margs [0, 1, 0]) (mg_entry (snd demo_c3)))"

definition demo_s0 :: msgsys_st where "demo_s0 = \<lparr>mgst = demo_m0, mgprocs = \<lambda>p. MpIdle\<rparr>"
definition demo_s1 :: msgsys_st where "demo_s1 = mg_next demo_s0 0 (snd demo_c1) MpIdle"
definition demo_s2 :: msgsys_st where "demo_s2 = mg_next demo_s1 0 (snd demo_c2) MpIdle"
definition demo_s3 :: msgsys_st where
  "demo_s3 = mg_next demo_s2 1 (snd demo_c3) (MpAsleep (SndCall 0 0 6 0 5) (MQue 0) PcLoop 0)"
definition demo_s4 :: msgsys_st where "demo_s4 = mg_next demo_s3 0 (snd demo_c4) MpIdle"

lemma demo_mi_ok: "mi_ok demo_mi"
  by (simp add: mi_ok_def demo_mi_def)

lemma demo_mum_ok: "msg_um_ok demo_mum"
  by (simp add: msg_um_ok_def demo_mum_def)

lemma demo_s0_run: "run_of (mg_init demo_mi) (mg_step demo_mi 2) 0 demo_s0"
proof (rule run_start)
  have b: "msg_boot demo_mi demo_mboot" by (simp add: msg_boot_def demo_mboot_def demo_ds_def msg_free_locks_def demo_mi_def)
  obtain st' where "msginit demo_mi True demo_mboot = Some st'" by (rule msginit_ok [OF b demo_mi_ok])
  then have "msginit demo_mi True demo_mboot = Some demo_m0" by (simp add: demo_m0_def)
  then show "mg_init demo_mi demo_s0" using demo_mi_ok b unfolding mg_init_def demo_s0_def by blast
qed

lemma demo_results:
  "fst demo_c1 = MsgRet" "fst demo_c2 = MsgRet" "fst demo_c3 = MsgSleep (MQue 0) PcLoop 0" "fst demo_c4 = MsgRet"
  "msgsys demo_mi demo_root 0 demo_mum 0 (margs [7, 950]) (mg_entry demo_m0) \<noteq> None"
  "msgsys demo_mi demo_root 0 demo_mum 3 (margs [0, 0, 6, 0]) (mg_entry (snd demo_c1)) \<noteq> None"
  "msgsys demo_mi demo_root 0 demo_mum 3 (margs [0, 0, 6, 0]) (mg_entry (snd demo_c2)) \<noteq> None"
  "msgsys demo_mi demo_root 0 demo_mum 1 (margs [0, 1, 0]) (mg_entry (snd demo_c3)) \<noteq> None"
  by code_simp+

lemma demo_step:
  assumes "run_of (mg_init demo_mi) (mg_step demo_mi 2) k s" "p < 2" "mgprocs s p = MpIdle"
    and "msgsys demo_mi demo_root 0 demo_mum fid a (mg_entry (mgst s)) \<noteq> None"
    and "c = the (msgsys demo_mi demo_root 0 demo_mum fid a (mg_entry (mgst s)))"
    and "s' = mg_next s p (snd c) (mg_after (mg_call_of demo_mum fid a) (fst c))"
  shows "run_of (mg_init demo_mi) (mg_step demo_mi 2) (Suc k) s'"
proof (rule run_step [OF assms(1)])
  have "msgsys demo_mi demo_root 0 demo_mum fid a (mg_entry (mgst s)) = Some (fst c, snd c)" using assms(4,5) by auto
  from mg_call [OF assms(2,3) demo_mum_ok this] show "mg_step demo_mi 2 s s'" unfolding assms(6) .
qed

lemma demo_runs:
  "run_of (mg_init demo_mi) (mg_step demo_mi 2) (Suc 0) demo_s1"
  "run_of (mg_init demo_mi) (mg_step demo_mi 2) (Suc (Suc 0)) demo_s2"
  "run_of (mg_init demo_mi) (mg_step demo_mi 2) (Suc (Suc (Suc 0))) demo_s3"
  "run_of (mg_init demo_mi) (mg_step demo_mi 2) (Suc (Suc (Suc (Suc 0)))) demo_s4"
proof -
  note R = demo_results
  have 0: "mgst demo_s0 = demo_m0" "mgprocs demo_s0 p = MpIdle" for p by (simp_all add: demo_s0_def)
  show 1: "run_of (mg_init demo_mi) (mg_step demo_mi 2) (Suc 0) demo_s1"
    by (rule demo_step [OF demo_s0_run, of 0 0 "margs [7, 950]" demo_c1])
      (use 0 R in \<open>simp_all add: demo_c1_def [symmetric] demo_s1_def mg_after_def\<close>)
  have s1: "mgst demo_s1 = snd demo_c1" "mgprocs demo_s1 p = MpIdle" for p
    using 0 by (simp_all add: demo_s1_def mg_next_def mg_wakeup_def)
  show 2: "run_of (mg_init demo_mi) (mg_step demo_mi 2) (Suc (Suc 0)) demo_s2"
    by (rule demo_step [OF 1, of 0 3 "margs [0, 0, 6, 0]" demo_c2])
      (use s1 R in \<open>simp_all add: demo_c2_def [symmetric] demo_s2_def mg_after_def\<close>)
  have s2: "mgst demo_s2 = snd demo_c2" "mgprocs demo_s2 p = MpIdle" for p
    using s1 by (simp_all add: demo_s2_def mg_next_def mg_wakeup_def)
  have c: "mg_call_of demo_mum 3 (margs [0, 0, 6, 0]) = SndCall 0 0 6 0 5" by (simp add: mg_call_of_def margs_def demo_mum_def)
  show 3: "run_of (mg_init demo_mi) (mg_step demo_mi 2) (Suc (Suc (Suc 0))) demo_s3"
    by (rule demo_step [OF 2, of 1 3 "margs [0, 0, 6, 0]" demo_c3])
      (use s2 R c in \<open>simp_all add: demo_c3_def [symmetric] demo_s3_def mg_after_def\<close>)
  have s3: "mgst demo_s3 = snd demo_c3" "mgprocs demo_s3 0 = MpIdle"
    using s2 by (simp_all add: demo_s3_def mg_next_def mg_wakeup_def)
  show "run_of (mg_init demo_mi) (mg_step demo_mi 2) (Suc (Suc (Suc (Suc 0)))) demo_s4"
    by (rule demo_step [OF 3, of 0 1 "margs [0, 1, 0]" demo_c4])
      (use s3 R in \<open>simp_all add: demo_c4_def [symmetric] demo_s4_def mg_after_def del: One_nat_def\<close>)
qed

section \<open>Properties of the message facility\<close>



text \<open>C6. No wakeup is missed: a process asleep in \<open>msgrcv\<close> sleeps on a live queue that holds no message it
  would accept and is marked as having readers; one asleep in \<open>msgsnd\<close> sleeps on a queue marked as having
  writers, or for a header when none is free, or for buffer units when no run of the length it needs is
  free and the map is marked as wanted.\<close>

theorem msg_no_missed_wakeup:
  assumes "run_of (mg_init mi) (mg_step mi n) k s" "k < 4294967295" "mgprocs s p = MpAsleep c ch pc i"
  shows "p < n \<and> (case c of
     RcvCall idn msgp msgsz t flg \<Rightarrow> ch = MQnum i \<and> msg_ident mi (mgst s) i = idn \<and> msg_live (mgst s) i \<and> rwait (mgst s) i \<and>
       (\<forall>x\<in>set (mqueue mi (mgst s) i). \<not> maccepts t (fst x))
   | SndCall idn msgp cnt flg type \<Rightarrow>
       (ch = MQue i \<and> msg_ident mi (mgst s) i = idn \<and> msg_live (mgst s) i \<and> wwait (mgst s) i) \<or>
       (ch = MHdr \<and> msgfp (mgst s) = None) \<or>
       (ch = MMap \<and> mapwant (msgmap (mgst s)) \<noteq> 0 \<and> (\<forall>b. \<not> block b (btoq mi cnt) \<subseteq> free_units (msgmap (mgst s)))))"
proof -
  obtain L where L: "msg_inv mi (mgst s) L" "mg_procs_ok mi n (mgst s) L (mgprocs s)" by (rule mg_reach [OF assms(1,2)])
  then have a: "p < n" "mcall_ok mi c i" "msleeper_ok mi (mgst s) L c ch i" using assms(3) unfolding mg_procs_ok_def by blast+
  then have "mqueue mi (mgst s) i = mview mi (mgst s) (L (Some i))" using mqueue_eq [OF L(1)] by (simp add: mcall_ok_def)
  then show ?thesis using a
    by (cases c) (auto simp: msleeper_ok_def is_ident_ident mview_def snd_no_units_def)
qed

theorem msg_no_missed_wakeup_witness:
  "wwait (mgst demo_s3) 0 \<and> msg_live (mgst demo_s3) 0"
proof -
  have k: "Suc (Suc (Suc 0)) < 4294967295" by simp
  have "mgprocs demo_s3 1 = MpAsleep (SndCall 0 0 6 0 5) (MQue 0) PcLoop 0" by (simp add: demo_s3_def mg_next_def)
  from msg_no_missed_wakeup [OF demo_runs(3) k this] show ?thesis by simp
qed

text \<open>C19. Every message call, every resumption after a wakeup and every signal returns or goes to sleep: from
  a reachable state none of the searches, the loops over a queue or the allocation runs for ever.\<close>

theorem msg_calls_return:
  assumes "run_of (mg_init mi) (mg_step mi n) k s" "k < 4294967295" "msg_um_ok um"
  shows "msgsys mi u time um fid a (mg_entry (mgst s)) \<noteq> None \<and>
     (mgprocs s p = MpWoken c ch pc i \<longrightarrow> msg_resume mi u time um c pc i (mg_entry (mgst s)) \<noteq> None)"
proof -
  obtain L where L: "msg_inv mi (mg_entry (mgst s)) L" "msg_free_locks (mg_entry (mgst s))"
    "unat (mapwant (msgmap (mg_entry (mgst s)))) < 4294967295" "mg_procs_ok mi n (mgst s) L (mgprocs s)"
    by (rule mg_reach [OF assms(1,2)])
  have "pc = PcLoop \<and> mcall_ok mi c i" if "mgprocs s p = MpWoken c ch pc i" using that L(4) unfolding mg_procs_ok_def by blast
  then show ?thesis using msgsys_result [OF L(1,2) assms(3) L(3), of u time fid a] msg_resume_result [OF L(1,2) assms(3) L(3), of c i u time] by auto
qed

theorem msg_calls_return_witness:
  "msgsys demo_mi demo_root 0 demo_mum 2 (margs [0, 0, 9, -7, 0]) (mg_entry (mgst demo_s3)) \<noteq> None"
proof -
  have k: "Suc (Suc (Suc 0)) < 4294967295" by simp
  from msg_calls_return [OF demo_runs(3) k demo_mum_ok] show ?thesis by blast
qed

text \<open>C4. \<open>msgsnd\<close> refines appending to a sequence: from a reachable state it either reports success, and
  then the caller may write the queue, the text fits below the queue's limit, and exactly the message -
  its type and its text byte for byte - is added behind the queue's messages and no other queue changes;
  or it reports an error or sleeps, and no queue has changed.\<close>

theorem msgsnd_correct:
  assumes "run_of (mg_init mi) (mg_step mi n) k s" "k < 4294967295" "msg_um_ok um"
  shows "\<exists>res st'. msgsnd mi u time um idn msgp cnt flg (mg_entry (mgst s)) = Some (res, st') \<and>
     (((\<forall>j < msgmni mi. mqueue mi st' j = mqueue mi (mgst s) j) \<and> (res = MsgRet \<longrightarrow> u_error st' \<noteq> None)) \<or>
      (res = MsgRet \<and> u_error st' = None \<and> u_rval1 st' = 0 \<and> (\<exists>i type. is_ident mi (mgst s) i idn \<and> is_ident mi st' i idn \<and> 0 \<le> cnt \<and> cnt \<le> msgmax mi \<and>
        mu_type um msgp = Some type \<and> 1 \<le> type \<and> \<not> fst (ipcaccess u (msg_perms (mgst s) i) MSG_W (mgst s)) \<and>
        cnt + msg_cbytes (msgque (mgst s) i) \<le> msg_qbytes (msgque (mgst s) i) \<and> (cnt \<noteq> 0 \<longrightarrow> snd (mu_text um msgp (nat cnt))) \<and>
        (\<forall>j < msgmni mi. mqueue mi st' j = mqueue mi (mgst s) j @
           (if j = i then [(type, if cnt = 0 then [] else fst (mu_text um msgp (nat cnt)))] else [])))))"
proof -
  obtain L where L: "msg_inv mi (mg_entry (mgst s)) L" "msg_free_locks (mg_entry (mgst s))"
    "unat (mapwant (msgmap (mg_entry (mgst s)))) < 4294967295" by (rule mg_reach [OF assms(1,2)])
  show ?thesis
    by (rule msgsnd_spec [OF L(1,2) assms(3) L(3) mg_entry_tabs(6), of u time idn msgp cnt flg]) auto
qed

theorem msgsnd_correct_witness:
  "\<exists>res st'. msgsnd demo_mi demo_root 0 demo_mum 0 0 6 0 (mg_entry (mgst demo_s1)) = Some (res, st') \<and>
     ((\<forall>j < msgmni demo_mi. mqueue demo_mi st' j = mqueue demo_mi (mgst demo_s1) j) \<or> u_error st' = None)"
proof -
  have k: "Suc 0 < 4294967295" by simp
  from msgsnd_correct [OF demo_runs(1) k demo_mum_ok, of demo_root 0 0 0 6 0] show ?thesis by blast
qed



text \<open>C21. What is sent is received: after a successful \<open>msgsnd\<close> into an empty queue, a \<open>msgrcv\<close> of any type by a
  reader with permission and room for the text succeeds and copies out the type and the text that were
  sent, byte for byte, returns its length, and leaves the queue empty again.\<close>

theorem msg_send_receive:
  assumes "run_of (mg_init mi) (mg_step mi n) k s" "k < 4294967295" "msg_um_ok um"
    and "msgsnd mi u time um idn msgp cnt flg (mg_entry (mgst s)) = Some (MsgRet, st1)" "u_error st1 = None"
    and "is_ident mi (mgst s) i idn" "mqueue mi (mgst s) i = []"
    and "\<not> fst (ipcaccess v (msg_perms st1 i) MSG_R st1)" "cnt \<le> msgsz" "mu_writable vm vp"
  shows "\<exists>st2 type. msgrcv mi v time' vm idn vp msgsz 0 flg' (mg_entry st1) = Some (MsgRet, st2) \<and> u_error st2 = None \<and>
     mu_type um msgp = Some type \<and> u_rval1 st2 = cnt \<and> mqueue mi st2 i = [] \<and>
     msg_copies st2 = [OutMsg vp type (if cnt = 0 then [] else fst (mu_text um msgp (nat cnt)))]"
proof -
  obtain L where L: "msg_inv mi (mg_entry (mgst s)) L" "msg_free_locks (mg_entry (mgst s))"
    "unat (mapwant (msgmap (mg_entry (mgst s)))) < 4294967295" by (rule mg_reach [OF assms(1,2)])
  define body where "body = (if cnt = 0 then [] else fst (mu_text um msgp (nat cnt)))"
  have i: "i < msgmni mi" using assms(6) by (simp add: is_ident_def)
  obtain type L1 where snd: "is_ident mi st1 i idn" "0 \<le> cnt" "mu_type um msgp = Some type" "cnt \<noteq> 0 \<longrightarrow> snd (mu_text um msgp (nat cnt))"
    "mqueue mi st1 i = [(type, body)]" "msg_inv mi st1 L1" "msg_free_locks st1"
  proof (rule msgsnd_spec [OF L(1,2) assms(3) L(3) mg_entry_tabs(6), of u time idn msgp cnt flg], elim disjE)
    fix res st' L'
    assume a: "msgsnd mi u time um idn msgp cnt flg (mg_entry (mgst s)) = Some (res, st')"
      "(\<forall>j < msgmni mi. mqueue mi st' j = mqueue mi (mg_entry (mgst s)) j) \<and> (res = MsgRet \<longrightarrow> u_error st' \<noteq> None)"
    then show thesis using assms(4,5) by simp
  next
    fix res st' L'
    assume a: "msgsnd mi u time um idn msgp cnt flg (mg_entry (mgst s)) = Some (res, st')" "msg_inv mi st' L'" "msg_free_locks st'"
      "res = MsgRet \<and> u_error st' = None \<and> u_rval1 st' = 0 \<and> (\<exists>i type. is_ident mi (mg_entry (mgst s)) i idn \<and> is_ident mi st' i idn \<and> 0 \<le> cnt \<and> cnt \<le> msgmax mi \<and>
        mu_type um msgp = Some type \<and> 1 \<le> type \<and> \<not> fst (ipcaccess u (msg_perms (mg_entry (mgst s)) i) MSG_W (mg_entry (mgst s))) \<and>
        cnt + msg_cbytes (msgque (mg_entry (mgst s)) i) \<le> msg_qbytes (msgque (mg_entry (mgst s)) i) \<and> (cnt \<noteq> 0 \<longrightarrow> snd (mu_text um msgp (nat cnt))) \<and>
        (\<forall>j < msgmni mi. mqueue mi st' j = mqueue mi (mg_entry (mgst s)) j @
           (if j = i then [(type, if cnt = 0 then [] else fst (mu_text um msgp (nat cnt)))] else [])))"
    have e: "st' = st1" using a(1) assms(4) by simp
    from a(4) obtain k type where b: "is_ident mi st1 k idn" "0 \<le> cnt" "mu_type um msgp = Some type" "cnt \<noteq> 0 \<longrightarrow> snd (mu_text um msgp (nat cnt))"
      "\<forall>j < msgmni mi. mqueue mi st1 j = mqueue mi (mgst s) j @ (if j = k then [(type, body)] else [])"
      unfolding e body_def mqueue_entry by blast
    have "k = i" by (rule is_ident_unique [OF b(1) assms(6)])
    then show thesis using that [of type L'] b a(2,3) e i assms(7) by simp
  qed
  have len: "int (length body) = cnt" using snd(2,4) assms(3) by (auto simp: body_def msg_um_ok_def)
  have inv: "msg_inv mi (mg_entry st1) L1" "msg_free_locks (mg_entry st1)" using snd(6,7) msg_inv_same [OF mg_entry_tabs(1)] by simp_all
  show ?thesis
  proof (rule msgrcv_spec [OF inv mg_entry_tabs(6), of v time' vm idn vp msgsz 0 flg'], elim disjE)
    fix res st' L'
    assume "(\<forall>j < msgmni mi. mqueue mi st' j = mqueue mi (mg_entry st1) j) \<and> msg_copies st' = msg_copies (mg_entry st1) \<and> (res = MsgRet \<longrightarrow> u_error st' \<noteq> None) \<and>
       (\<forall>i. is_ident mi (mg_entry st1) i idn \<longrightarrow> 0 \<le> msgsz \<longrightarrow> \<not> fst (ipcaccess v (msg_perms (mg_entry st1) i) MSG_R (mg_entry st1)) \<longrightarrow>
          rcv_cause mi vm vp msgsz 0 flg' (mqueue mi (mg_entry st1) i) res (u_error st'))"
    then have "rcv_cause mi vm vp msgsz 0 flg' (mqueue mi st1 i) res (u_error st')" using snd(1,2) assms(8,9) by simp
    then have False unfolding snd(5) using assms(9,10) len by (auto simp: rcv_cause_def maccepts_def split: if_splits)
    then show ?thesis ..
  next
    fix res st' L'
    assume r: "msgrcv mi v time' vm idn vp msgsz 0 flg' (mg_entry st1) = Some (res, st')"
      "res = MsgRet \<and> u_error st' = None \<and> rcv_received mi v idn vp msgsz 0 flg' (mg_entry st1) st'"
    then obtain k qs ty tx rs where b: "is_ident mi st1 k idn" "msg_taken mi (mg_entry st1) st' k qs (ty, tx) rs"
      "u_rval1 st' = min msgsz (int (length tx))" "msg_copies st' = [OutMsg vp ty (take (nat msgsz) tx)]"
      unfolding rcv_received_def by auto
    have "k = i" by (rule is_ident_unique [OF b(1) assms(6)])
    with b(2) snd(5) have "[(type, body)] = qs @ (ty, tx) # rs" "mqueue mi st' i = qs @ rs" by (simp_all add: msg_taken_def)
    then have "qs = []" "rs = []" "ty = type" "tx = body" by (auto simp: Cons_eq_append_conv)
    then show ?thesis using r b(3,4) \<open>mqueue mi st' i = qs @ rs\<close> snd(3) len assms(9) by (auto simp: body_def [symmetric])
  qed
qed

definition demo_sent :: "msg_res \<times> msgst" where
  "demo_sent = the (msgsnd demo_mi demo_root 0 demo_mum 0 0 6 0 (mg_entry (snd demo_c1)))"

lemma demo_sent_results:
  "msgsnd demo_mi demo_root 0 demo_mum 0 0 6 0 (mg_entry (snd demo_c1)) \<noteq> None" "fst demo_sent = MsgRet"
  "u_error (snd demo_sent) = None" "is_ident demo_mi (snd demo_c1) 0 0" "mqueue demo_mi (snd demo_c1) 0 = []"
  "\<not> fst (ipcaccess demo_root (msg_perms (snd demo_sent) 0) MSG_R (snd demo_sent))"
  by code_simp+

theorem msg_send_receive_witness:
  "\<exists>st2. msgrcv demo_mi demo_root 0 demo_mum 0 9 8 0 0 (mg_entry (snd demo_sent)) = Some (MsgRet, st2) \<and>
     msg_copies st2 = [OutMsg 9 5 [1, 1, 1, 1, 1, 1]]"
proof -
  have k: "Suc 0 < 4294967295" by simp
  have s1: "mgst demo_s1 = snd demo_c1" by (simp add: demo_s1_def mg_next_def)
  note R = demo_sent_results
  have sent: "msgsnd demo_mi demo_root 0 demo_mum 0 0 6 0 (mg_entry (mgst demo_s1)) = Some (MsgRet, snd demo_sent)"
    using R(1,2) unfolding s1 demo_sent_def by auto
  have w: "mu_writable demo_mum 9" by (simp add: mu_writable_def demo_mum_def)
  have id: "is_ident demo_mi (mgst demo_s1) 0 0" "mqueue demo_mi (mgst demo_s1) 0 = []" using R(4,5) by (simp_all only: s1)
  have sz: "6 \<le> (8 :: int)" by simp
  have six: "replicate 6 x = [x, x, x, x, x, x]" for x :: u8 by (simp add: eval_nat_numeral)
  from msg_send_receive [OF demo_runs(1) k demo_mum_ok sent R(3) id R(6) sz w, of 0 0]
  show ?thesis by (auto simp: demo_mum_def six)
qed

text \<open>C24. Removing a queue: \<open>IPC_RMID\<close> by the owner, the creator or the super-user succeeds from every reachable
  state; the queue is empty, its identifier is dead, every other queue keeps its header and its messages,
  and the readers and writers asleep on the queue are woken.\<close>

theorem msg_remove_correct:
  assumes "run_of (mg_init mi) (mg_step mi n) k s" "k < 4294967295" "is_ident mi (mgst s) i idn"
    and "u_uid u = ip_uid (msg_perms (mgst s) i) \<or> u_uid u = ip_cuid (msg_perms (mgst s) i) \<or> u_uid u = 0"
  shows "\<exists>st'. msgctl mi u time um idn 0 buf (mg_entry (mgst s)) = Some (MsgRet, st') \<and> u_error st' = None \<and>
     mqueue mi st' i = [] \<and> msg_conv_slot mi st' idn = None \<and>
     (\<forall>j < msgmni mi. j \<noteq> i \<longrightarrow> mqueue mi st' j = mqueue mi (mgst s) j \<and> msgque st' j = msgque (mgst s) j) \<and>
     (rwait (mgst s) i \<longrightarrow> MQnum i \<in> set (msg_wakes st')) \<and> (wwait (mgst s) i \<longrightarrow> MQue i \<in> set (msg_wakes st'))"
proof -
  obtain L where L: "msg_inv mi (mg_entry (mgst s)) L" "msg_free_locks (mg_entry (mgst s))" by (rule mg_reach [OF assms(1,2)])
  have id: "is_ident mi (mg_entry (mgst s)) i idn" using assms(3) by simp
  have au: "u_uid u = ip_uid (msg_perms (mg_entry (mgst s)) i) \<or> u_uid u = ip_cuid (msg_perms (mg_entry (mgst s)) i) \<or> u_uid u = 0"
    using assms(4) by simp
  have mi: "0 < int (msgmni mi)" using assms(3) by (simp add: is_ident_def)
  have c: "msg_conv_slot mi (mgst s) idn = Some i"
    using assms(3) is_ident_ident [of mi "mgst s" i idn] msg_ids.conv_iff [OF mi, of "mgst s" idn i] by simp
  show ?thesis
  proof (rule msgctl_rmid_spec [OF L id mg_entry_tabs(6,3) au, of time um buf])
    fix st' L'
    assume a: "msgctl mi u time um idn 0 buf (mg_entry (mgst s)) = Some (MsgRet, st')" "u_error st' = None" "mqueue mi st' i = []"
      "\<not> msg_live st' i"
      "\<forall>j < msgmni mi. j \<noteq> i \<longrightarrow> mqueue mi st' j = mqueue mi (mg_entry (mgst s)) j \<and> msgque st' j = msgque (mg_entry (mgst s)) j"
      "rwait (mg_entry (mgst s)) i \<longrightarrow> MQnum i \<in> set (msg_wakes st')" "wwait (mg_entry (mgst s)) i \<longrightarrow> MQue i \<in> set (msg_wakes st')"
    have "msg_conv_slot mi st' idn = None" by (rule msg_ids.stale [OF mi c]) (use a(4) in blast)
    then show ?thesis using a by simp
  qed
qed

theorem msg_remove_correct_witness:
  "\<exists>st'. msgctl demo_mi demo_root 0 demo_mum 0 0 0 (mg_entry (mgst demo_s3)) = Some (MsgRet, st') \<and> mqueue demo_mi st' 0 = [] \<and>
     MQue 0 \<in> set (msg_wakes st')"
proof -
  have k: "Suc (Suc (Suc 0)) < 4294967295" by simp
  have "is_ident demo_mi (snd demo_c3) 0 0" "wwait (snd demo_c3) 0" by code_simp+
  moreover have "mgst demo_s3 = snd demo_c3" by (simp add: demo_s3_def mg_next_def)
  ultimately have s3: "is_ident demo_mi (mgst demo_s3) 0 0" "wwait (mgst demo_s3) 0" by simp_all
  have r: "u_uid demo_root = 0" by (simp add: demo_root_def)
  from msg_remove_correct [OF demo_runs(3) k s3(1), of demo_root] r s3(2) show ?thesis by blast
qed


end
