(* ===== verification/Stream.thy ===== *)
theory Stream
  imports Prelude "HOL-Library.Monad_Syntax"
begin

text \<open>
  Streams buffers (\<open>io/stream.c\<close>, \<open>sys/stream.h\<close>, \<open>sys/strstat.h\<close>): the pool of message blocks and data
  blocks, messages as lists of blocks through \<open>b_cont\<close>, the bytes they hold, and the cells of \<open>bufcall\<close>.
  A call runs at \<open>splstr\<close> and is one step. A \<open>NULL\<close> dereference and a walk longer than the table are
  \<open>None\<close>. Addresses of data are integers into a byte memory.
\<close>

section \<open>Data\<close>

text \<open>\<open>struct alcdat\<close> and the counters of \<open>struct strstat\<close> this code keeps.\<close>

record alcdat =
  al_use :: int
  al_total :: int
  al_max :: int
  al_fail :: int

record strstat =
  st_queue :: alcdat
  st_mblock :: alcdat
  st_dblock :: alcdat
  st_dblk :: "nat \<Rightarrow> alcdat"

record datab =
  db_freep :: ptr
  db_base :: int
  db_lim :: int
  db_ref :: u8
  db_type :: u8
  db_class :: nat

record msgb =
  b_next :: ptr
  b_prev :: ptr
  b_cont :: ptr
  b_rptr :: int
  b_wptr :: int
  b_datap :: ptr

record dbalcst =
  dba_cnt :: int
  dba_lo :: int
  dba_med :: int
  dba_lop :: ptr
  dba_medp :: ptr
  dba_hip :: ptr

text \<open>The union of \<open>struct strevent\<close> is its storage: \<open>se_func\<close> and \<open>se_procp\<close> share a word, as do \<open>se_arg\<close> and \<open>se_events\<close>.\<close>

record strevent =
  se_func :: int
  se_arg :: int
  se_next :: ptr

record module_info =
  mi_idnum :: int
  mi_idname :: string

text \<open>Procedures are numbers, \<open>None\<close> for \<open>NULL\<close>; the open, close and statistics fields are not used here.\<close>

record qinit =
  qi_putp :: nat
  qi_srvp :: ptr
  qi_qadmin :: ptr
  qi_minfo :: module_info

record queue =
  q_qinfo :: "qinit option"
  q_first :: ptr
  q_last :: ptr
  q_next :: ptr
  q_link :: ptr
  q_ptr :: int
  q_count :: int
  q_flag :: u16
  q_minpsz :: int
  q_maxpsz :: int
  q_hiwat :: int
  q_lowat :: int

record stdata =
  sd_wrq :: ptr
  sd_rdev :: int
  sd_icnt :: int

text \<open>What the configuration fixes: the table sizes and the priority cutoffs in percent.\<close>

record strcfg =
  nmblock :: nat
  nstrevent :: nat
  maxsepgcnt :: int
  strlofrac :: int
  strmedfrac :: int
  v_nstream :: nat
  t_minarmem :: int
  t_minasmem :: int

record strst =
  mblock :: "nat \<Rightarrow> msgb"
  dblock :: "nat \<Rightarrow> datab"
  mbfreelist :: ptr
  dbfreelist :: "nat \<Rightarrow> ptr"
  dballoc :: "nat \<Rightarrow> dbalcst"
  strevents :: "nat \<Rightarrow> strevent"
  sefreelist :: ptr
  sepgcnt :: int
  queues :: "nat \<Rightarrow> queue"
  qhead :: ptr
  qtail :: ptr
  qrunflag :: bool
  queueflag :: bool
  strbcflag :: bool
  strst :: strstat
  smem :: "int \<Rightarrow> u8"
  streams :: "nat \<Rightarrow> stdata"
  v_nqueue :: nat
  v_nblk :: "nat \<Rightarrow> nat"
  availrmem :: int
  availsmem :: int
  sptwant :: int

abbreviation NCLASS :: nat where "NCLASS \<equiv> 9"

definition M_DATA :: u8 where "M_DATA = 0"
definition M_PROTO :: u8 where "M_PROTO = 1"
definition M_PCPROTO :: u8 where "M_PCPROTO = 131"
definition QPCTL :: u8 where "QPCTL = 128"

definition BPRI_LO :: int where "BPRI_LO = 1"
definition BPRI_MED :: int where "BPRI_MED = 2"
definition BPRI_HI :: int where "BPRI_HI = 3"

definition rbsize :: "nat \<Rightarrow> int" where
  "rbsize c = [4, 16, 64, 128, 256, 512, 1024, 2048, 4096] ! c"

definition bsize :: "nat \<Rightarrow> int" where
  "bsize c = [4, 16, 64, 100, 200, 300, 600, 1200, 2400] ! c"

section \<open>Updates and statistics\<close>

definition upd_mb :: "nat \<Rightarrow> (msgb \<Rightarrow> msgb) \<Rightarrow> strst \<Rightarrow> strst" where
  "upd_mb b f st = st\<lparr>mblock := (mblock st)(b := f (mblock st b))\<rparr>"

definition upd_db :: "nat \<Rightarrow> (datab \<Rightarrow> datab) \<Rightarrow> strst \<Rightarrow> strst" where
  "upd_db d f st = st\<lparr>dblock := (dblock st)(d := f (dblock st d))\<rparr>"

definition upd_al :: "nat \<Rightarrow> (dbalcst \<Rightarrow> dbalcst) \<Rightarrow> strst \<Rightarrow> strst" where
  "upd_al c f st = st\<lparr>dballoc := (dballoc st)(c := f (dballoc st c))\<rparr>"

definition upd_se :: "nat \<Rightarrow> (strevent \<Rightarrow> strevent) \<Rightarrow> strst \<Rightarrow> strst" where
  "upd_se e f st = st\<lparr>strevents := (strevents st)(e := f (strevents st e))\<rparr>"

definition bumpup :: "alcdat \<Rightarrow> alcdat" where
  "bumpup x = (let u = int32 (al_use x + 1) in
     x\<lparr>al_use := u, al_total := int32 (al_total x + 1), al_max := (if al_max x < u then u else al_max x)\<rparr>)"

definition al_fails :: "alcdat \<Rightarrow> alcdat" where
  "al_fails x = x\<lparr>al_fail := int32 (al_fail x + 1)\<rparr>"

definition al_drop :: "alcdat \<Rightarrow> alcdat" where
  "al_drop x = x\<lparr>al_use := int32 (al_use x - 1)\<rparr>"

definition stat_queue :: "(alcdat \<Rightarrow> alcdat) \<Rightarrow> strst \<Rightarrow> strst" where
  "stat_queue f st = st\<lparr>strst := (strst st)\<lparr>st_queue := f (st_queue (strst st))\<rparr>\<rparr>"

definition stat_mblock :: "(alcdat \<Rightarrow> alcdat) \<Rightarrow> strst \<Rightarrow> strst" where
  "stat_mblock f st = st\<lparr>strst := (strst st)\<lparr>st_mblock := f (st_mblock (strst st))\<rparr>\<rparr>"

definition stat_dblk :: "nat \<Rightarrow> (alcdat \<Rightarrow> alcdat) \<Rightarrow> strst \<Rightarrow> strst" where
  "stat_dblk c f st = st\<lparr>strst := (strst st)\<lparr>st_dblock := f (st_dblock (strst st)),
     st_dblk := (st_dblk (strst st))(c := f (st_dblk (strst st) c))\<rparr>\<rparr>"

section \<open>Allocating blocks\<close>

fun getclass_from :: "int \<Rightarrow> nat \<Rightarrow> nat \<Rightarrow> nat" where
  "getclass_from sz c 0 = c"
| "getclass_from sz c (Suc n) = (if sz > rbsize c then getclass_from sz (Suc c) n else c)"

definition getclass :: "int \<Rightarrow> nat" where
  "getclass sz = getclass_from sz 0 NCLASS"

definition bcmax :: "strcfg \<Rightarrow> strst \<Rightarrow> nat \<Rightarrow> int \<Rightarrow> int" where
  "bcmax cfg st c pri = (if pri = BPRI_LO then dba_lo (dballoc st c)
     else if pri = BPRI_HI then int (nmblock cfg) else dba_med (dballoc st c))"

text \<open>The test both tries of \<open>allocb\<close> make of a class.\<close>

definition class_ready :: "strcfg \<Rightarrow> strst \<Rightarrow> nat \<Rightarrow> int \<Rightarrow> ptr" where
  "class_ready cfg st c pri = (if dba_cnt (dballoc st c) < bcmax cfg st c pri then dbfreelist st c else None)"

text \<open>From \<open>gotdp\<close>: the data block \<open>d\<close> of class \<open>c\<close> is in hand.\<close>

definition allocb_got :: "nat \<Rightarrow> nat \<Rightarrow> strst \<Rightarrow> ptr \<times> strst" where
  "allocb_got c d st = (case mbfreelist st of
     None \<Rightarrow> (None, stat_mblock al_fails st)
   | Some b \<Rightarrow>
       let st1 = st\<lparr>dbfreelist := (dbfreelist st)(c := db_freep (dblock st d))\<rparr>;
           st2 = upd_al c (\<lambda>a. a\<lparr>dba_cnt := dba_cnt a + 1\<rparr>) st1;
           st3 = upd_db d (\<lambda>p. p\<lparr>db_freep := None\<rparr>) st2;
           st4 = st3\<lparr>mbfreelist := b_next (mblock st3 b)\<rparr>;
           st5 = stat_dblk c bumpup (stat_mblock bumpup st4);
           base = db_base (dblock st5 d);
           st6 = upd_mb b (\<lambda>m. m\<lparr>b_next := None, b_prev := None, b_cont := None, b_datap := Some d,
                    b_rptr := base, b_wptr := base\<rparr>) st5
       in (Some b, upd_db d (\<lambda>p. p\<lparr>db_type := M_DATA, db_ref := 1\<rparr>) st6))"

definition allocb :: "strcfg \<Rightarrow> int \<Rightarrow> int \<Rightarrow> strst \<Rightarrow> ptr \<times> strst" where
  "allocb cfg sz pri st = (let c = getclass sz in
     if c \<ge> NCLASS then (None, st)
     else case class_ready cfg st c pri of
       Some d \<Rightarrow> allocb_got c d st
     | None \<Rightarrow>
         let st1 = stat_dblk c al_fails st in
         if c = NCLASS - 1 then (None, st1)
         else case class_ready cfg st1 (c + 1) pri of
           Some d \<Rightarrow> allocb_got (c + 1) d st1
         | None \<Rightarrow> (None, stat_dblk (c + 1) al_fails st1))"

definition testb :: "strcfg \<Rightarrow> int \<Rightarrow> int \<Rightarrow> strst \<Rightarrow> bool" where
  "testb cfg sz pri st = (let c = getclass sz in
     if c \<ge> NCLASS then False
     else if class_ready cfg st c pri \<noteq> None then True
     else if c = NCLASS - 1 then False
     else class_ready cfg st (c + 1) pri \<noteq> None)"

section \<open>Event cells and \<open>bufcall\<close>\<close>

text \<open>Cells \<open>base\<close>, \<open>base + 1\<close>, ... are pushed on the free list one after the other.\<close>

fun se_push :: "nat \<Rightarrow> nat \<Rightarrow> strst \<Rightarrow> strst" where
  "se_push base 0 st = st"
| "se_push base (Suc n) st = se_push (Suc base) n ((upd_se base (\<lambda>e. e\<lparr>se_next := sefreelist st\<rparr>) st)\<lparr>sefreelist := Some base\<rparr>)"

datatype se_res = SeCell nat | SeNone | SeSleep

definition se_take :: "nat \<Rightarrow> strst \<Rightarrow> se_res \<times> strst" where
  "se_take e st = (let st1 = st\<lparr>sefreelist := se_next (strevents st e)\<rparr>
     in (SeCell e, upd_se e (\<lambda>s. s\<lparr>se_func := 0, se_arg := 0, se_next := None\<rparr>) st1))"

text \<open>
  \<open>page\<close> says whether \<open>sptalloc\<close> finds a page. The cells of the \<open>k\<close>-th page ever got are numbered after
  the configured cells and those of earlier pages; a page holds 2048/12 of them.
\<close>

definition sealloc :: "strcfg \<Rightarrow> bool \<Rightarrow> bool \<Rightarrow> strst \<Rightarrow> se_res \<times> strst" where
  "sealloc cfg page noslp st = (case sefreelist st of
     Some e \<Rightarrow> se_take e st
   | None \<Rightarrow>
       if sepgcnt st \<ge> maxsepgcnt cfg then (SeNone, st)
       else let st1 = st\<lparr>sepgcnt := sepgcnt st + 1\<rparr> in
       if availrmem st1 - 1 < t_minarmem cfg \<or> availsmem st1 - 1 < t_minasmem cfg
       then (SeNone, st1\<lparr>sepgcnt := sepgcnt st1 - 1\<rparr>)
       else let st2 = st1\<lparr>availrmem := availrmem st1 - 1, availsmem := availsmem st1 - 1\<rparr> in
       if page then
         let st3 = se_push (nstrevent cfg + 170 * nat (sepgcnt st)) 170 st2
         in (case sefreelist st3 of Some e \<Rightarrow> se_take e st3 | None \<Rightarrow> (SeNone, st3))
       else if noslp then (SeNone, st2\<lparr>availrmem := availrmem st2 + 1, availsmem := availsmem st2 + 1, sepgcnt := sepgcnt st2 - 1\<rparr>)
       else (SeSleep, st2\<lparr>sptwant := sptwant st2 + 1\<rparr>))"

definition sefree :: "nat \<Rightarrow> strst \<Rightarrow> strst" where
  "sefree e st = (upd_se e (\<lambda>s. s\<lparr>se_next := sefreelist st\<rparr>) st)\<lparr>sefreelist := Some e\<rparr>"

text \<open>The end of an event list, \<open>None\<close> if it has no end within the cells there are.\<close>

fun se_last :: "nat \<Rightarrow> (nat \<Rightarrow> strevent) \<Rightarrow> nat \<Rightarrow> ptr" where
  "se_last 0 se e = None"
| "se_last (Suc n) se e = (case se_next (se e) of None \<Rightarrow> Some e | Some e' \<Rightarrow> se_last n se e')"

definition ev_head :: "int \<Rightarrow> dbalcst \<Rightarrow> ptr" where
  "ev_head pri a = (if pri = BPRI_HI then dba_hip a else if pri = BPRI_LO then dba_lop a else dba_medp a)"

definition ev_set :: "int \<Rightarrow> ptr \<Rightarrow> dbalcst \<Rightarrow> dbalcst" where
  "ev_set pri p a = (if pri = BPRI_HI then a\<lparr>dba_hip := p\<rparr> else if pri = BPRI_LO then a\<lparr>dba_lop := p\<rparr> else a\<lparr>dba_medp := p\<rparr>)"

definition ncells :: "strcfg \<Rightarrow> nat" where
  "ncells cfg = nstrevent cfg + 170 * nat (maxsepgcnt cfg)"

text \<open>A size above the largest class indexes past the tables: \<open>None\<close>.\<close>

definition bufcall :: "strcfg \<Rightarrow> bool \<Rightarrow> int \<Rightarrow> int \<Rightarrow> int \<Rightarrow> int \<Rightarrow> strst \<Rightarrow> (bool \<times> strst) option" where
  "bufcall cfg page sz pri func arg st = (let c = getclass sz in
     if c \<ge> NCLASS then None
     else if bcmax cfg st c pri = 0 then Some (False, st)
     else if pri = BPRI_HI \<and> v_nblk st c = 0 then Some (False, st)
     else case sealloc cfg page True st of
       (SeCell e, st1) \<Rightarrow>
         do {
           st2 \<leftarrow> (case ev_head pri (dballoc st1 c) of
               None \<Rightarrow> Some (upd_al c (ev_set pri (Some e)) st1)
             | Some h \<Rightarrow> do {
                 l \<leftarrow> se_last (ncells cfg) (strevents st1) h;
                 Some (upd_se l (\<lambda>s. s\<lparr>se_next := Some e\<rparr>) st1)});
           Some (True, upd_se e (\<lambda>s. s\<lparr>se_next := None, se_func := func, se_arg := arg\<rparr>) st2)}
     | (SeNone, st1) \<Rightarrow> Some (False, st1)
     | (SeSleep, st1) \<Rightarrow> None)"

section \<open>Freeing and duplicating blocks\<close>

definition setqsched :: "strst \<Rightarrow> strst" where
  "setqsched st = st\<lparr>qrunflag := True\<rparr>"

definition bufcalls_ready :: "dbalcst \<Rightarrow> bool" where
  "bufcalls_ready a \<longleftrightarrow> dba_hip a \<noteq> None \<or> (dba_medp a \<noteq> None \<and> dba_cnt a < dba_med a) \<or>
     (dba_lop a \<noteq> None \<and> dba_cnt a < dba_lo a)"

text \<open>The last reference to the data block \<open>d\<close> is gone.\<close>

definition freeb_data :: "nat \<Rightarrow> strst \<Rightarrow> strst" where
  "freeb_data d st = (let c = db_class (dblock st d);
     st1 = upd_db d (\<lambda>p. p\<lparr>db_freep := dbfreelist st c\<rparr>) st;
     st2 = st1\<lparr>dbfreelist := (dbfreelist st1)(c := Some d)\<rparr>;
     st3 = upd_al c (\<lambda>a. a\<lparr>dba_cnt := dba_cnt a - 1\<rparr>) st2;
     st4 = (if \<not> strbcflag st3 \<and> bufcalls_ready (dballoc st3 c) then (setqsched st3)\<lparr>strbcflag := True\<rparr> else st3)
     in stat_dblk c al_drop st4)"

definition mb_return :: "nat \<Rightarrow> strst \<Rightarrow> strst" where
  "mb_return b st = (upd_mb b (\<lambda>m. m\<lparr>b_next := mbfreelist st\<rparr>) st)\<lparr>mbfreelist := Some b\<rparr>"

definition freeb :: "nat \<Rightarrow> strst \<Rightarrow> strst option" where
  "freeb b st = do {
     d \<leftarrow> b_datap (mblock st b);
     let st1 = upd_db d (\<lambda>p. p\<lparr>db_ref := db_ref p - 1\<rparr>) st;
         st2 = (if db_ref (dblock st1 d) = 0 then freeb_data d st1 else st1);
         st3 = upd_mb b (\<lambda>m. m\<lparr>b_datap := None\<rparr>) st2
     in Some (stat_mblock al_drop (mb_return b st3))}"

fun freemsg :: "nat \<Rightarrow> ptr \<Rightarrow> strst \<Rightarrow> strst option" where
  "freemsg n None st = Some st"
| "freemsg 0 (Some b) st = None"
| "freemsg (Suc n) (Some b) st = do { st1 \<leftarrow> freeb b st; freemsg n (b_cont (mblock st b)) st1 }"

definition dupb :: "nat \<Rightarrow> strst \<Rightarrow> (ptr \<times> strst) option" where
  "dupb b st = (case mbfreelist st of
     None \<Rightarrow> Some (None, stat_mblock al_fails st)
   | Some n \<Rightarrow> do {
       let st1 = st\<lparr>mbfreelist := b_next (mblock st n)\<rparr>;
       d \<leftarrow> b_datap (mblock st1 b);
       let st2 = stat_mblock bumpup (upd_db d (\<lambda>p. p\<lparr>db_ref := db_ref p + 1\<rparr>)
                   (upd_mb n (\<lambda>m. m\<lparr>b_datap := Some d\<rparr>) st1));
       Some (Some n, upd_mb n (\<lambda>m. m\<lparr>b_next := None, b_prev := None, b_cont := None,
                   b_rptr := b_rptr (mblock st2 b), b_wptr := b_wptr (mblock st2 b)\<rparr>) st2)})"

text \<open>
  The loop \<open>dupmsg\<close> and \<open>copymsg\<close> share: copy the block after \<open>bp\<close> with \<open>cp\<close>, hang the copy on \<open>nbp\<close>, go on with
  both; a block that cannot be copied frees the copies made so far.
\<close>

fun copy_rest :: "(nat \<Rightarrow> strst \<Rightarrow> (ptr \<times> strst) option) \<Rightarrow> nat \<Rightarrow> nat \<Rightarrow> nat \<Rightarrow> nat \<Rightarrow> nat \<Rightarrow> strst \<Rightarrow> (ptr \<times> strst) option" where
  "copy_rest cp fr n head nbp bp st = (case b_cont (mblock st bp) of
     None \<Rightarrow> Some (Some head, st)
   | Some c \<Rightarrow> (case n of 0 \<Rightarrow> None | Suc k \<Rightarrow> do {
       (r, st1) \<leftarrow> cp c st;
       let st2 = upd_mb nbp (\<lambda>m. m\<lparr>b_cont := r\<rparr>) st1;
       case r of
         None \<Rightarrow> do { st3 \<leftarrow> freemsg fr (Some head) st2; Some (None, st3) }
       | Some nb \<Rightarrow> copy_rest cp fr k head nb c st2}))"

declare copy_rest.simps [simp del]

definition copy_all :: "(nat \<Rightarrow> strst \<Rightarrow> (ptr \<times> strst) option) \<Rightarrow> nat \<Rightarrow> ptr \<Rightarrow> strst \<Rightarrow> (ptr \<times> strst) option" where
  "copy_all cp n bp st = (case bp of None \<Rightarrow> Some (None, st)
   | Some b \<Rightarrow> do {
       (r, st1) \<leftarrow> cp b st;
       case r of None \<Rightarrow> Some (None, st1) | Some h \<Rightarrow> copy_rest cp n n h h b st1})"

definition dupmsg :: "strcfg \<Rightarrow> ptr \<Rightarrow> strst \<Rightarrow> (ptr \<times> strst) option" where
  "dupmsg cfg bp st = copy_all dupb (nmblock cfg) bp st"

section \<open>Copying bytes\<close>

definition straln :: "int \<Rightarrow> int" where
  "straln a = a - a mod 4"

definition bcopy :: "int \<Rightarrow> int \<Rightarrow> int \<Rightarrow> strst \<Rightarrow> strst" where
  "bcopy src dst len st = st\<lparr>smem := (\<lambda>a. if dst \<le> a \<and> a < dst + len then smem st (a - dst + src) else smem st a)\<rparr>"

text \<open>\<open>strbcpy\<close> moves whole words.\<close>

definition strbcpy :: "int \<Rightarrow> int \<Rightarrow> int \<Rightarrow> strst \<Rightarrow> strst" where
  "strbcpy src dst len st = bcopy src dst (4 * ((len + 3) div 4)) st"

definition copyb :: "strcfg \<Rightarrow> nat \<Rightarrow> strst \<Rightarrow> (ptr \<times> strst) option" where
  "copyb cfg b st = do {
     d \<leftarrow> b_datap (mblock st b);
     let dp = dblock st d;
     let (r, st1) = allocb cfg (db_lim dp - db_base dp) BPRI_MED st;
     case r of
       None \<Rightarrow> Some (None, st1)
     | Some n \<Rightarrow> do {
         nd \<leftarrow> b_datap (mblock st1 n);
         let st2 = upd_db nd (\<lambda>p. p\<lparr>db_type := db_type (dblock st1 d)\<rparr>) st1;
         let nbase = db_base (dblock st2 nd);
         let rp = nbase + (b_rptr (mblock st2 b) - db_base (dblock st2 d));
         let wp = nbase + (b_wptr (mblock st2 b) - db_base (dblock st2 d));
         let st3 = upd_mb n (\<lambda>m. m\<lparr>b_rptr := rp, b_wptr := wp\<rparr>) st2;
         Some (Some n, strbcpy (straln (b_rptr (mblock st3 b))) (straln rp) (straln (wp + 3) - straln rp) st3)}}"

definition copymsg :: "strcfg \<Rightarrow> ptr \<Rightarrow> strst \<Rightarrow> (ptr \<times> strst) option" where
  "copymsg cfg bp st = copy_all (copyb cfg) (nmblock cfg) bp st"

section \<open>Linking and unlinking blocks\<close>

fun linkb :: "nat \<Rightarrow> nat \<Rightarrow> nat \<Rightarrow> strst \<Rightarrow> strst option" where
  "linkb n mp bp st = (case b_cont (mblock st mp) of
     None \<Rightarrow> Some (upd_mb mp (\<lambda>m. m\<lparr>b_cont := Some bp\<rparr>) st)
   | Some c \<Rightarrow> (case n of 0 \<Rightarrow> None | Suc k \<Rightarrow> linkb k c bp st))"

declare linkb.simps [simp del]

definition unlinkb :: "nat \<Rightarrow> strst \<Rightarrow> ptr \<times> strst" where
  "unlinkb bp st = (b_cont (mblock st bp), upd_mb bp (\<lambda>m. m\<lparr>b_cont := None\<rparr>) st)"

text \<open>\<open>Inl ()\<close> is the result \<open>-1\<close>: the block is not in the message.\<close>

fun rmvb_from :: "nat \<Rightarrow> ptr \<Rightarrow> nat \<Rightarrow> ptr \<Rightarrow> ptr \<Rightarrow> strst \<Rightarrow> ((unit + ptr) \<times> strst) option" where
  "rmvb_from n mp bp lp None st = Some (Inl (), st)"
| "rmvb_from 0 mp bp lp (Some t) st = None"
| "rmvb_from (Suc n) mp bp lp (Some t) st =
     (if t = bp then
        let st1 = (case lp of Some l \<Rightarrow> upd_mb l (\<lambda>m. m\<lparr>b_cont := b_cont (mblock st t)\<rparr>) st | None \<Rightarrow> st);
            mp1 = (case lp of Some l \<Rightarrow> mp | None \<Rightarrow> b_cont (mblock st t))
        in Some (Inr mp1, upd_mb t (\<lambda>m. m\<lparr>b_cont := None\<rparr>) st1)
      else rmvb_from n mp bp (Some t) (b_cont (mblock st t)) st)"

definition rmvb :: "strcfg \<Rightarrow> ptr \<Rightarrow> nat \<Rightarrow> strst \<Rightarrow> ((unit + ptr) \<times> strst) option" where
  "rmvb cfg mp bp st = rmvb_from (nmblock cfg) mp bp None mp st"

section \<open>Sizes\<close>

abbreviation blen :: "strst \<Rightarrow> nat \<Rightarrow> int" where
  "blen st b \<equiv> b_wptr (mblock st b) - b_rptr (mblock st b)"

definition btype :: "strst \<Rightarrow> nat \<Rightarrow> u8 option" where
  "btype st b = map_option (\<lambda>d. db_type (dblock st d)) (b_datap (mblock st b))"

fun xmsgsize_from :: "nat \<Rightarrow> u8 \<Rightarrow> ptr \<Rightarrow> int \<Rightarrow> strst \<Rightarrow> int option" where
  "xmsgsize_from n ty None count st = Some count"
| "xmsgsize_from 0 ty (Some b) count st = None"
| "xmsgsize_from (Suc n) ty (Some b) count st = do {
     t \<leftarrow> btype st b;
     if ty \<noteq> t then Some count else xmsgsize_from n ty (b_cont (mblock st b)) (count + blen st b) st}"

definition xmsgsize :: "strcfg \<Rightarrow> nat \<Rightarrow> strst \<Rightarrow> int option" where
  "xmsgsize cfg b st = do { ty \<leftarrow> btype st b; xmsgsize_from (nmblock cfg) ty (Some b) 0 st }"

fun msgdsize_from :: "nat \<Rightarrow> ptr \<Rightarrow> int \<Rightarrow> strst \<Rightarrow> int option" where
  "msgdsize_from n None count st = Some count"
| "msgdsize_from 0 (Some b) count st = None"
| "msgdsize_from (Suc n) (Some b) count st = do {
     t \<leftarrow> btype st b;
     msgdsize_from n (b_cont (mblock st b)) (if t = M_DATA then count + blen st b else count) st}"

definition msgdsize :: "strcfg \<Rightarrow> ptr \<Rightarrow> strst \<Rightarrow> int option" where
  "msgdsize cfg b st = msgdsize_from (nmblock cfg) b 0 st"

section \<open>Pulling up and trimming\<close>

definition str_aligned :: "int \<Rightarrow> bool" where
  "str_aligned a \<longleftrightarrow> a mod 4 = 0"

text \<open>The copying loop; it returns the block it stopped at.\<close>

fun pull_loop :: "nat \<Rightarrow> nat \<Rightarrow> nat \<Rightarrow> int \<Rightarrow> ptr \<Rightarrow> strst \<Rightarrow> (ptr \<times> strst) option" where
  "pull_loop n mp nb len None st = Some (None, st)"
| "pull_loop n mp nb len (Some b) st =
     (if len = 0 then Some (Some b, st)
      else case n of 0 \<Rightarrow> None | Suc k \<Rightarrow>
        let m = min (blen st b) len;
            st1 = bcopy (b_rptr (mblock st b)) (b_wptr (mblock st nb)) m st;
            st2 = upd_mb nb (\<lambda>p. p\<lparr>b_wptr := b_wptr p + m\<rparr>) st1;
            st3 = upd_mb b (\<lambda>p. p\<lparr>b_rptr := b_rptr p + m\<rparr>) st2
        in if b_rptr (mblock st3 b) \<noteq> b_wptr (mblock st3 b) then Some (Some b, st3)
           else do {
             st4 \<leftarrow> (if b \<noteq> mp then freeb b st3 else Some st3);
             pull_loop k mp nb (len - m) (b_cont (mblock st3 b)) st4})"

text \<open>With the spare block \<open>tmp\<close> and the new block \<open>nb\<close> in hand.\<close>

definition pull_up :: "nat \<Rightarrow> nat \<Rightarrow> nat \<Rightarrow> nat \<Rightarrow> int \<Rightarrow> strst \<Rightarrow> strst option" where
  "pull_up n mp tmp nb len st = do {
     nd \<leftarrow> b_datap (mblock st nb);
     ty \<leftarrow> btype st mp;
     (bp, st2) \<leftarrow> pull_loop n mp nb len (Some mp) (upd_db nd (\<lambda>p. p\<lparr>db_type := ty\<rparr>) st);
     let st3 = upd_mb tmp (\<lambda>p. mblock st2 mp) st2;
     let st4 = upd_mb mp (\<lambda>p. mblock st3 nb) st3;
     let st5 = upd_mb nb (\<lambda>p. p\<lparr>b_datap := None\<rparr>) st4;
     st6 \<leftarrow> (if b_rptr (mblock st5 tmp) \<noteq> b_wptr (mblock st5 tmp) then Some (upd_mb mp (\<lambda>p. p\<lparr>b_cont := Some tmp\<rparr>) st5)
              else freeb tmp (upd_mb mp (\<lambda>p. p\<lparr>b_cont := bp\<rparr>) st5));
     Some (mb_return nb st6)}"

text \<open>The quick checks come first; \<open>Inl\<close> is their answer, \<open>Inr\<close> the length to pull up.\<close>

definition pull_check :: "strcfg \<Rightarrow> nat \<Rightarrow> int \<Rightarrow> strst \<Rightarrow> (bool + int) option" where
  "pull_check cfg mp len st =
     (if len = - 1 then
        if b_cont (mblock st mp) = None \<and> str_aligned (b_rptr (mblock st mp)) then Some (Inl True)
        else map_option Inr (xmsgsize cfg mp st)
      else if blen st mp \<ge> len \<and> str_aligned (b_rptr (mblock st mp)) then Some (Inl True)
      else map_option (\<lambda>sz. if sz < len then Inl False else Inr len) (xmsgsize cfg mp st))"

definition pullupmsg :: "strcfg \<Rightarrow> nat \<Rightarrow> int \<Rightarrow> strst \<Rightarrow> (bool \<times> strst) option" where
  "pullupmsg cfg mp len st = (case pull_check cfg mp len st of
     None \<Rightarrow> None
   | Some (Inl r) \<Rightarrow> Some (r, st)
   | Some (Inr l) \<Rightarrow> (case mbfreelist st of
       None \<Rightarrow> Some (False, st)
     | Some tmp \<Rightarrow>
         let st1 = st\<lparr>mbfreelist := b_next (mblock st tmp)\<rparr>;
             (r, st2) = allocb cfg l BPRI_MED st1
         in case r of
              None \<Rightarrow> Some (False, mb_return tmp st2)
            | Some nb \<Rightarrow> do { st3 \<leftarrow> pull_up (nmblock cfg) mp tmp nb l st2; Some (True, st3) }))"

fun adj_head :: "nat \<Rightarrow> int \<Rightarrow> ptr \<Rightarrow> strst \<Rightarrow> strst option" where
  "adj_head n len None st = Some st"
| "adj_head n len (Some b) st =
     (if len = 0 then Some st
      else case n of 0 \<Rightarrow> None | Suc k \<Rightarrow>
        let m = min (blen st b) len
        in adj_head k (len - m) (b_cont (mblock st b)) (upd_mb b (\<lambda>p. p\<lparr>b_rptr := b_rptr p + m\<rparr>) st))"

text \<open>The inner loop of a trim from the tail: the last block of the leading type that holds data, and where it stopped.\<close>

fun adj_scan :: "nat \<Rightarrow> u8 \<Rightarrow> ptr \<Rightarrow> ptr \<Rightarrow> strst \<Rightarrow> (ptr \<times> ptr) option" where
  "adj_scan n ty None save st = Some (None, save)"
| "adj_scan 0 ty (Some b) save st = None"
| "adj_scan (Suc n) ty (Some b) save st = do {
     t \<leftarrow> btype st b;
     if t \<noteq> ty then Some (Some b, save)
     else adj_scan n ty (b_cont (mblock st b)) (if blen st b > 0 then Some b else save) st}"

text \<open>The outer loop; \<open>n\<close> bounds its turns, each of which empties a block or ends the trim.\<close>

fun adj_tail :: "nat \<Rightarrow> nat \<Rightarrow> u8 \<Rightarrow> nat \<Rightarrow> int \<Rightarrow> ptr \<Rightarrow> strst \<Rightarrow> strst option" where
  "adj_tail n k ty mp len bp st =
     (if len = 0 \<or> bp = None then Some st
      else case k of 0 \<Rightarrow> None | Suc k' \<Rightarrow> do {
        (bp', save) \<leftarrow> adj_scan n ty (Some mp) None st;
        case save of
          None \<Rightarrow> Some st
        | Some s \<Rightarrow> let m = min (blen st s) len
            in adj_tail n k' ty mp (len - m) bp' (upd_mb s (\<lambda>p. p\<lparr>b_wptr := b_wptr p - m\<rparr>) st)})"

declare adj_tail.simps [simp del]

definition adjmsg :: "strcfg \<Rightarrow> nat \<Rightarrow> int \<Rightarrow> strst \<Rightarrow> (bool \<times> strst) option" where
  "adjmsg cfg mp len st = do {
     let l = (if len < 0 then int32 (- len) else len);
     sz \<leftarrow> xmsgsize cfg mp st;
     if sz < l then Some (False, st)
     else if \<not> len < 0 then do { st1 \<leftarrow> adj_head (nmblock cfg) l (Some mp) st; Some (True, st1) }
     else do {
       ty \<leftarrow> btype st mp;
       st1 \<leftarrow> adj_tail (nmblock cfg) (Suc (nmblock cfg)) ty mp l (Some mp) st;
       Some (True, st1)}}"

end
