(* ===== verification/StreamQ.thy ===== *)
theory StreamQ
  imports Stream
begin

text \<open>
  Streams queues (\<open>io/stream.c\<close>): the message lists of the queues with their weights and flow control flags,
  the list of queues whose service procedures are to run, initialisation, and the lookups of modules.
  Procedures of modules - put, service and \<open>bufcall\<close> procedures - are parameters.
\<close>

section \<open>Flags and related queues\<close>

definition QENAB :: u16 where "QENAB = 1"
definition QWANTR :: u16 where "QWANTR = 2"
definition QWANTW :: u16 where "QWANTW = 4"
definition QFULL :: u16 where "QFULL = 8"
definition QREADR :: u16 where "QREADR = 16"
definition QUSE :: u16 where "QUSE = 32"
definition QNOENB :: u16 where "QNOENB = 64"

definition upd_qu :: "nat \<Rightarrow> (queue \<Rightarrow> queue) \<Rightarrow> strst \<Rightarrow> strst" where
  "upd_qu q f st = st\<lparr>queues := (queues st)(q := f (queues st q))\<rparr>"

definition q_on :: "u16 \<Rightarrow> nat \<Rightarrow> strst \<Rightarrow> strst" where
  "q_on w q st = upd_qu q (\<lambda>r. r\<lparr>q_flag := q_flag r OR w\<rparr>) st"

definition q_off :: "u16 \<Rightarrow> nat \<Rightarrow> strst \<Rightarrow> strst" where
  "q_off w q st = upd_qu q (\<lambda>r. r\<lparr>q_flag := q_flag r AND NOT w\<rparr>) st"

abbreviation q_is :: "strst \<Rightarrow> nat \<Rightarrow> u16 \<Rightarrow> bool" where
  "q_is st q w \<equiv> q_flag (queues st q) AND w \<noteq> 0"

definition otherq :: "strst \<Rightarrow> nat \<Rightarrow> nat" where
  "otherq st q = (if q_is st q QREADR then q + 1 else q - 1)"

definition backq :: "strst \<Rightarrow> nat \<Rightarrow> ptr" where
  "backq st q = map_option (otherq st) (q_next (queues st (otherq st q)))"

definition srvp :: "strst \<Rightarrow> nat \<Rightarrow> ptr option" where
  "srvp st q = map_option qi_srvp (q_qinfo (queues st q))"

text \<open>The class of a message is that of the type of its first block.\<close>

definition queclass :: "strst \<Rightarrow> nat \<Rightarrow> u8 option" where
  "queclass st b = map_option (\<lambda>t. t AND QPCTL) (btype st b)"

definition datamsg :: "u8 \<Rightarrow> bool" where
  "datamsg t \<longleftrightarrow> t = M_DATA \<or> t = M_PROTO \<or> t = M_PCPROTO"

section \<open>Scheduling\<close>

definition qenable :: "nat \<Rightarrow> strst \<Rightarrow> strst option" where
  "qenable q st = do {
     s \<leftarrow> srvp st q;
     if s = None then Some st
     else if q_is st q QENAB then Some st
     else do {
       let st1 = q_on QENAB q st;
       st2 \<leftarrow> (if qhead st1 = None then Some (st1\<lparr>qhead := Some q\<rparr>)
               else do { t \<leftarrow> qtail st1; Some (upd_qu t (\<lambda>r. r\<lparr>q_link := Some q\<rparr>) st1) });
       Some (setqsched (upd_qu q (\<lambda>r. r\<lparr>q_link := None\<rparr>) (st2\<lparr>qtail := Some q\<rparr>)))}}"

text \<open>The nearest queue from \<open>p\<close> back that has a service procedure.\<close>

fun back_srv :: "nat \<Rightarrow> ptr \<Rightarrow> strst \<Rightarrow> ptr option" where
  "back_srv n None st = Some None"
| "back_srv n (Some q) st = do {
     s \<leftarrow> srvp st q;
     if s \<noteq> None then Some (Some q)
     else case n of 0 \<Rightarrow> None | Suc k \<Rightarrow> back_srv k (backq st q) st}"

definition back_run :: "nat \<Rightarrow> strst \<Rightarrow> strst option" where
  "back_run q st = do {
     b \<leftarrow> back_srv (v_nqueue st) (backq st q) st;
     case b of None \<Rightarrow> Some st | Some p \<Rightarrow> qenable p st}"

text \<open>What taking a message off a queue does for a writer waiting behind it.\<close>

definition back_enable :: "nat \<Rightarrow> strst \<Rightarrow> strst option" where
  "back_enable q st = (if q_count (queues st q) \<le> q_lowat (queues st q) \<and> q_is st q QWANTW
     then back_run q (q_off QWANTW q st) else Some st)"

section \<open>Weights\<close>

fun weigh :: "nat \<Rightarrow> int \<Rightarrow> ptr \<Rightarrow> int \<Rightarrow> strst \<Rightarrow> int option" where
  "weigh n sg None c st = Some c"
| "weigh 0 sg (Some b) c st = None"
| "weigh (Suc n) sg (Some b) c st = do {
     d \<leftarrow> b_datap (mblock st b);
     weigh n sg (b_cont (mblock st b)) (uint16 (c + sg * bsize (db_class (dblock st d)))) st}"

definition q_weigh :: "strcfg \<Rightarrow> int \<Rightarrow> nat \<Rightarrow> nat \<Rightarrow> strst \<Rightarrow> strst option" where
  "q_weigh cfg sg q b st = do {
     c \<leftarrow> weigh (nmblock cfg) sg (Some b) (q_count (queues st q)) st;
     Some (upd_qu q (\<lambda>r. r\<lparr>q_count := c\<rparr>) st)}"

definition q_lighter :: "strcfg \<Rightarrow> nat \<Rightarrow> nat \<Rightarrow> strst \<Rightarrow> strst option" where
  "q_lighter cfg q b st = do {
     st1 \<leftarrow> q_weigh cfg (- 1) q b st;
     Some (if q_count (queues st1 q) < q_hiwat (queues st1 q) then q_off QFULL q st1 else st1)}"

definition q_heavier :: "strcfg \<Rightarrow> nat \<Rightarrow> nat \<Rightarrow> strst \<Rightarrow> strst option" where
  "q_heavier cfg q b st = do {
     st1 \<leftarrow> q_weigh cfg 1 q b st;
     Some (if q_count (queues st1 q) \<ge> q_hiwat (queues st1 q) then q_on QFULL q st1 else st1)}"

section \<open>Taking messages\<close>

definition set_b_next :: "nat \<Rightarrow> ptr \<Rightarrow> strst \<Rightarrow> strst" where
  "set_b_next b p st = upd_mb b (\<lambda>m. m\<lparr>b_next := p\<rparr>) st"

definition set_b_prev :: "nat \<Rightarrow> ptr \<Rightarrow> strst \<Rightarrow> strst" where
  "set_b_prev b p st = upd_mb b (\<lambda>m. m\<lparr>b_prev := p\<rparr>) st"

definition set_first :: "nat \<Rightarrow> ptr \<Rightarrow> strst \<Rightarrow> strst" where
  "set_first q p st = upd_qu q (\<lambda>r. r\<lparr>q_first := p\<rparr>) st"

definition set_last :: "nat \<Rightarrow> ptr \<Rightarrow> strst \<Rightarrow> strst" where
  "set_last q p st = upd_qu q (\<lambda>r. r\<lparr>q_last := p\<rparr>) st"

definition getq_take :: "strcfg \<Rightarrow> nat \<Rightarrow> nat \<Rightarrow> strst \<Rightarrow> strst option" where
  "getq_take cfg q b st = do {
     let st1 = set_first q (b_next (mblock st b)) st;
     let st2 = (case q_first (queues st1 q) of None \<Rightarrow> set_last q None st1 | Some f \<Rightarrow> set_b_prev f None st1);
     st3 \<leftarrow> q_lighter cfg q b st2;
     Some (set_b_next b None (set_b_prev b None (q_off QWANTR q st3)))}"

definition getq :: "strcfg \<Rightarrow> nat \<Rightarrow> strst \<Rightarrow> (ptr \<times> strst) option" where
  "getq cfg q st = do {
     st1 \<leftarrow> (case q_first (queues st q) of None \<Rightarrow> Some (q_on QWANTR q st) | Some b \<Rightarrow> getq_take cfg q b st);
     st2 \<leftarrow> back_enable q st1;
     Some (q_first (queues st q), st2)}"

definition q_unlink :: "nat \<Rightarrow> nat \<Rightarrow> strst \<Rightarrow> strst" where
  "q_unlink q b st =
     (let st1 = (case b_prev (mblock st b) of Some p \<Rightarrow> set_b_next p (b_next (mblock st b)) st
                 | None \<Rightarrow> set_first q (b_next (mblock st b)) st);
          st2 = (case b_next (mblock st1 b) of Some n \<Rightarrow> set_b_prev n (b_prev (mblock st1 b)) st1
                 | None \<Rightarrow> set_last q (b_prev (mblock st1 b)) st1)
      in set_b_next b None (set_b_prev b None st2))"

definition rmvq :: "strcfg \<Rightarrow> nat \<Rightarrow> nat \<Rightarrow> strst \<Rightarrow> strst option" where
  "rmvq cfg q b st = do { st1 \<leftarrow> q_lighter cfg q b (q_unlink q b st); back_enable q st1 }"

section \<open>Putting messages\<close>

definition q_append :: "nat \<Rightarrow> nat \<Rightarrow> strst \<Rightarrow> strst option" where
  "q_append q b st = do {
     st1 \<leftarrow> (case q_first (queues st q) of
         None \<Rightarrow> Some (set_b_prev b None (set_first q (Some b) st))
       | Some f \<Rightarrow> do { l \<leftarrow> q_last (queues st q); Some (set_b_prev b (q_last (queues st q)) (set_b_next l (Some b) st)) });
     Some (set_last q (Some b) (set_b_next b None st1))}"

text \<open>The first block from \<open>p\<close> on of a class below \<open>cls\<close>.\<close>

fun below_class :: "nat \<Rightarrow> u8 \<Rightarrow> ptr \<Rightarrow> strst \<Rightarrow> nat option" where
  "below_class n cls None st = None"
| "below_class 0 cls (Some b) st = None"
| "below_class (Suc n) cls (Some b) st = do {
     c \<leftarrow> queclass st b;
     if c \<ge> cls then below_class n cls (b_next (mblock st b)) st else Some b}"

definition q_before :: "nat \<Rightarrow> nat \<Rightarrow> nat \<Rightarrow> strst \<Rightarrow> strst" where
  "q_before q b nb st =
     (let st1 = set_b_prev b (b_prev (mblock st nb)) (set_b_next b (Some nb) st);
          st2 = (case b_prev (mblock st1 nb) of Some p \<Rightarrow> set_b_next p (Some b) st1 | None \<Rightarrow> set_first q (Some b) st1)
      in set_b_prev nb (Some b) st2)"

definition putq_link :: "strcfg \<Rightarrow> nat \<Rightarrow> nat \<Rightarrow> u8 \<Rightarrow> strst \<Rightarrow> strst option" where
  "putq_link cfg q b cls st = (case q_first (queues st q) of
     None \<Rightarrow> q_append q b st
   | Some f \<Rightarrow> do {
       l \<leftarrow> q_last (queues st q);
       lc \<leftarrow> queclass st l;
       if cls \<le> lc then q_append q b st
       else do { nb \<leftarrow> below_class (nmblock cfg) cls (Some f) st; Some (q_before q b nb st) }})"

definition put_enable :: "nat \<Rightarrow> u8 \<Rightarrow> strst \<Rightarrow> strst option" where
  "put_enable q cls st = (if cls > 0 \<or> (\<not> q_is st q QNOENB \<and> q_is st q QWANTR) then qenable q st else Some st)"

definition putq :: "strcfg \<Rightarrow> nat \<Rightarrow> nat \<Rightarrow> strst \<Rightarrow> strst option" where
  "putq cfg q b st = do {
     cls \<leftarrow> queclass st b;
     st1 \<leftarrow> putq_link cfg q b cls st;
     st2 \<leftarrow> q_heavier cfg q b st1;
     put_enable q cls st2}"

text \<open>The last block from \<open>b\<close> on whose successor, if any, is not of a class above \<open>cls\<close>.\<close>

fun above_class :: "nat \<Rightarrow> u8 \<Rightarrow> nat \<Rightarrow> strst \<Rightarrow> nat option" where
  "above_class n cls b st = (case b_next (mblock st b) of
     None \<Rightarrow> Some b
   | Some x \<Rightarrow> do {
       c \<leftarrow> queclass st x;
       if c > cls then (case n of 0 \<Rightarrow> None | Suc k \<Rightarrow> above_class k cls x st) else Some b})"

declare above_class.simps [simp del]

definition q_front :: "nat \<Rightarrow> nat \<Rightarrow> strst \<Rightarrow> strst" where
  "q_front q b st =
     (let st1 = set_b_prev b None (set_b_next b (q_first (queues st q)) st);
          st2 = (case q_first (queues st1 q) of Some f \<Rightarrow> set_b_prev f (Some b) st1 | None \<Rightarrow> set_last q (Some b) st1)
      in set_first q (Some b) st2)"

definition q_after :: "nat \<Rightarrow> nat \<Rightarrow> nat \<Rightarrow> strst \<Rightarrow> strst" where
  "q_after q b nb st =
     (let st1 = set_b_next b (b_next (mblock st nb)) st;
          st2 = (case b_next (mblock st1 nb) of Some x \<Rightarrow> set_b_prev x (Some b) st1 | None \<Rightarrow> set_last q (Some b) st1)
      in set_b_prev b (Some nb) (set_b_next nb (Some b) st2))"

definition putbq_link :: "strcfg \<Rightarrow> nat \<Rightarrow> nat \<Rightarrow> u8 \<Rightarrow> strst \<Rightarrow> strst option" where
  "putbq_link cfg q b cls st = (case q_first (queues st q) of
     None \<Rightarrow> Some (q_front q b st)
   | Some f \<Rightarrow> do {
       fc \<leftarrow> queclass st f;
       if cls \<ge> fc then Some (q_front q b st)
       else do { nb \<leftarrow> above_class (nmblock cfg) cls f st; Some (q_after q b nb st) }})"

definition putbq :: "strcfg \<Rightarrow> nat \<Rightarrow> nat \<Rightarrow> strst \<Rightarrow> strst option" where
  "putbq cfg q b st = do {
     cls \<leftarrow> queclass st b;
     st1 \<leftarrow> putbq_link cfg q b cls st;
     st2 \<leftarrow> q_heavier cfg q b st1;
     put_enable q cls st2}"

definition insq_link :: "nat \<Rightarrow> ptr \<Rightarrow> nat \<Rightarrow> strst \<Rightarrow> strst" where
  "insq_link q emp mp st =
     (let st1 = set_b_next mp emp st in case emp of
        Some e \<Rightarrow>
          let st2 = set_b_prev mp (b_prev (mblock st1 e)) st1;
              st3 = (case b_prev (mblock st2 mp) of Some p \<Rightarrow> set_b_next p (Some mp) st2 | None \<Rightarrow> set_first q (Some mp) st2)
          in set_b_prev e (Some mp) st3
      | None \<Rightarrow>
          let st2 = set_b_prev mp (q_last (queues st1 q)) st1;
              st3 = (case q_last (queues st2 q) of Some l \<Rightarrow> set_b_next l (Some mp) st2 | None \<Rightarrow> set_first q (Some mp) st2)
          in set_last q (Some mp) st3)"

definition insq :: "strcfg \<Rightarrow> nat \<Rightarrow> ptr \<Rightarrow> nat \<Rightarrow> strst \<Rightarrow> strst option" where
  "insq cfg q emp mp st = do {
     st1 \<leftarrow> q_heavier cfg q mp (insq_link q emp mp st);
     put_enable q 0 st1}"

section \<open>Flushing and flow control\<close>

fun flush_loop :: "strcfg \<Rightarrow> nat \<Rightarrow> bool \<Rightarrow> nat \<Rightarrow> ptr \<Rightarrow> strst \<Rightarrow> strst option" where
  "flush_loop cfg n flag q None st = Some st"
| "flush_loop cfg 0 flag q (Some b) st = None"
| "flush_loop cfg (Suc n) flag q (Some b) st = do {
     t \<leftarrow> btype st b;
     st1 \<leftarrow> (if \<not> flag \<and> \<not> datamsg t then putq cfg q b st else freemsg (nmblock cfg) (Some b) st);
     flush_loop cfg n flag q (b_next (mblock st b)) st1}"

definition flushq :: "strcfg \<Rightarrow> nat \<Rightarrow> bool \<Rightarrow> strst \<Rightarrow> strst option" where
  "flushq cfg q flag st = do {
     let wantw = q_is st q QWANTW;
     let st1 = upd_qu q (\<lambda>r. r\<lparr>q_first := None, q_last := None, q_count := 0, q_flag := q_flag r AND NOT (QFULL OR QWANTW)\<rparr>) st;
     st2 \<leftarrow> flush_loop cfg (nmblock cfg) flag q (q_first (queues st q)) st1;
     if q_count (queues st2 q) \<le> q_lowat (queues st2 q) \<and> wantw then back_run q st2
     else Some (if wantw then q_on QWANTW q st2 else st2)}"

text \<open>The queue \<open>canput\<close> looks at: the next one on with a service procedure, or the last.\<close>

fun put_target :: "nat \<Rightarrow> nat \<Rightarrow> strst \<Rightarrow> nat option" where
  "put_target n q st = (case q_next (queues st q) of
     None \<Rightarrow> Some q
   | Some x \<Rightarrow> do {
       s \<leftarrow> srvp st q;
       if s \<noteq> None then Some q else (case n of 0 \<Rightarrow> None | Suc k \<Rightarrow> put_target k x st)})"

declare put_target.simps [simp del]

definition canput :: "ptr \<Rightarrow> strst \<Rightarrow> (bool \<times> strst) option" where
  "canput p st = (case p of None \<Rightarrow> Some (False, st)
   | Some q \<Rightarrow> do {
       t \<leftarrow> put_target (v_nqueue st) q st;
       Some (if q_is st t QFULL then (False, q_on QWANTW t st) else (True, st))})"

fun qsize_from :: "nat \<Rightarrow> ptr \<Rightarrow> strst \<Rightarrow> nat option" where
  "qsize_from n None st = Some 0"
| "qsize_from 0 (Some b) st = None"
| "qsize_from (Suc n) (Some b) st = map_option Suc (qsize_from n (b_next (mblock st b)) st)"

definition qsize :: "strcfg \<Rightarrow> nat \<Rightarrow> strst \<Rightarrow> nat option" where
  "qsize cfg q st = qsize_from (nmblock cfg) (q_first (queues st q)) st"

definition noenable :: "nat \<Rightarrow> strst \<Rightarrow> strst" where
  "noenable q st = q_on QNOENB q st"

definition enableok :: "nat \<Rightarrow> strst \<Rightarrow> strst" where
  "enableok q st = q_off QNOENB q st"

section \<open>Procedures of modules\<close>

text \<open>What a put procedure does with a queue and a message, a service procedure with a queue, and a \<open>bufcall\<close> procedure with its argument.\<close>

record strext =
  xt_put :: "nat \<Rightarrow> nat \<Rightarrow> nat \<Rightarrow> strst \<Rightarrow> strst option"
  xt_srv :: "nat \<Rightarrow> nat \<Rightarrow> strst \<Rightarrow> strst option"
  xt_func :: "int \<Rightarrow> int \<Rightarrow> strst \<Rightarrow> strst option"

definition put_proc :: "strext \<Rightarrow> nat \<Rightarrow> nat \<Rightarrow> strst \<Rightarrow> strst option" where
  "put_proc xt q b st = do { i \<leftarrow> q_qinfo (queues st q); xt_put xt (qi_putp i) q b st }"

definition putctl :: "strcfg \<Rightarrow> strext \<Rightarrow> nat \<Rightarrow> u8 \<Rightarrow> strst \<Rightarrow> (bool \<times> strst) option" where
  "putctl cfg xt q type st =
     (if datamsg type then Some (False, st)
      else let (r, st1) = allocb cfg 0 BPRI_HI st in case r of
        None \<Rightarrow> Some (False, st1)
      | Some b \<Rightarrow> do {
          d \<leftarrow> b_datap (mblock st1 b);
          st2 \<leftarrow> put_proc xt q b (upd_db d (\<lambda>p. p\<lparr>db_type := type\<rparr>) st1);
          Some (True, st2)})"

definition putctl1 :: "strcfg \<Rightarrow> strext \<Rightarrow> nat \<Rightarrow> u8 \<Rightarrow> u8 \<Rightarrow> strst \<Rightarrow> (bool \<times> strst) option" where
  "putctl1 cfg xt q type param st =
     (if datamsg type then Some (False, st)
      else let (r, st1) = allocb cfg 1 BPRI_HI st in case r of
        None \<Rightarrow> Some (False, st1)
      | Some b \<Rightarrow> do {
          d \<leftarrow> b_datap (mblock st1 b);
          let st2 = upd_db d (\<lambda>p. p\<lparr>db_type := type\<rparr>) st1;
          let st3 = st2\<lparr>smem := (smem st2)(b_wptr (mblock st2 b) := param)\<rparr>;
          st4 \<leftarrow> put_proc xt q b (upd_mb b (\<lambda>m. m\<lparr>b_wptr := b_wptr m + 1\<rparr>) st3);
          Some (True, st4)})"

definition qreply :: "strext \<Rightarrow> nat \<Rightarrow> nat \<Rightarrow> strst \<Rightarrow> strst option" where
  "qreply xt q b st = do { n \<leftarrow> q_next (queues st (otherq st q)); put_proc xt n b st }"

section \<open>Running queues\<close>

text \<open>
  At most \<open>count\<close> functions of the event list of priority \<open>pri\<close> of class \<open>c\<close>, while there are message blocks;
  the number called is returned.
\<close>

fun run_events :: "strext \<Rightarrow> nat \<Rightarrow> int \<Rightarrow> nat \<Rightarrow> strst \<Rightarrow> (nat \<times> strst) option" where
  "run_events xt c pri 0 st = Some (0, st)"
| "run_events xt c pri (Suc n) st =
     (case (mbfreelist st, ev_head pri (dballoc st c)) of
        (Some b, Some e) \<Rightarrow> do {
          let st1 = upd_al c (ev_set pri (se_next (strevents st e))) st;
          st2 \<leftarrow> xt_func xt (se_func (strevents st1 e)) (se_arg (strevents st1 e)) st1;
          (k, st3) \<leftarrow> run_events xt c pri n (sefree e st2);
          Some (Suc k, st3)}
      | _ \<Rightarrow> Some (0, st))"

definition run_class :: "strext \<Rightarrow> nat \<Rightarrow> strst \<Rightarrow> strst option" where
  "run_class xt c st = do {
     (t1, st1) \<leftarrow> run_events xt c BPRI_HI (nat (int (v_nblk st c) - dba_cnt (dballoc st c))) st;
     (t2, st2) \<leftarrow> run_events xt c BPRI_MED (nat (dba_med (dballoc st1 c) - dba_cnt (dballoc st1 c) - int t1)) st1;
     (t3, st3) \<leftarrow> run_events xt c BPRI_LO (nat (dba_lo (dballoc st2 c) - dba_cnt (dballoc st2 c) - int (t1 + t2))) st2;
     Some st3}"

fun run_classes :: "strext \<Rightarrow> nat \<Rightarrow> strst \<Rightarrow> strst option" where
  "run_classes xt 0 st = Some st"
| "run_classes xt (Suc c) st = do { st1 \<leftarrow> run_class xt c st; run_classes xt c st1 }"

text \<open>The next queue is taken off the list and its service procedure is run.\<close>

definition serve_one :: "strext \<Rightarrow> nat \<Rightarrow> strst \<Rightarrow> strst option" where
  "serve_one xt q st = do {
     let st1 = st\<lparr>qhead := q_link (queues st q)\<rparr>;
     let st2 = q_off QENAB q (if qhead st1 = None then st1\<lparr>qtail := None\<rparr> else st1);
     s \<leftarrow> srvp st2 q;
     case s of None \<Rightarrow> Some st2 | Some f \<Rightarrow> xt_srv xt f q st2}"

text \<open>The queues served are returned, in order. Service procedures may go on for ever.\<close>

partial_function (option) serve_queues :: "strext \<Rightarrow> strst \<Rightarrow> (nat list \<times> strst) option" where
  "serve_queues xt st = (case qhead st of
     None \<Rightarrow> Some ([], st)
   | Some q \<Rightarrow> do { st1 \<leftarrow> serve_one xt q st; (qs, st2) \<leftarrow> serve_queues xt st1; Some (q # qs, st2) })"

partial_function (option) queuerun_loop :: "strext \<Rightarrow> strst \<Rightarrow> (nat list \<times> strst) option" where
  "queuerun_loop xt st = do {
     st1 \<leftarrow> (if strbcflag st then run_classes xt NCLASS (st\<lparr>strbcflag := False\<rparr>) else Some st);
     (qs, st2) \<leftarrow> serve_queues xt st1;
     if strbcflag st2 then do { (qs', st3) \<leftarrow> queuerun_loop xt st2; Some (qs @ qs', st3) }
     else Some (qs, st2)}"

definition queuerun :: "strext \<Rightarrow> strst \<Rightarrow> (nat list \<times> strst) option" where
  "queuerun xt st = do { (qs, st1) \<leftarrow> queuerun_loop xt st; Some (qs, st1\<lparr>qrunflag := False\<rparr>) }"

text \<open>The test is \<open>qrunflag & !queueflag\<close> on flags of 0 and 1.\<close>

definition runqueues :: "strext \<Rightarrow> strst \<Rightarrow> (nat list \<times> strst) option" where
  "runqueues xt st =
     (if qrunflag st \<and> \<not> queueflag st then do {
        (qs, st1) \<leftarrow> queuerun xt (st\<lparr>queueflag := True\<rparr>);
        Some (qs, st1\<lparr>queueflag := False\<rparr>)}
      else Some ([], st))"

section \<open>Queue pairs\<close>

definition zero_queue :: "u16 \<Rightarrow> queue" where
  "zero_queue flag = \<lparr>q_qinfo = None, q_first = None, q_last = None, q_next = None, q_link = None, q_ptr = 0,
     q_count = 0, q_flag = flag, q_minpsz = 0, q_maxpsz = 0, q_hiwat = 0, q_lowat = 0\<rparr>"

fun allocq_from :: "nat \<Rightarrow> nat \<Rightarrow> strst \<Rightarrow> ptr \<times> strst" where
  "allocq_from q 0 st = (None, stat_queue al_fails st)"
| "allocq_from q (Suc n) st =
     (if \<not> q_is st q QUSE then
        (Some q, stat_queue bumpup (upd_qu (q + 1) (\<lambda>r. zero_queue QUSE) (upd_qu q (\<lambda>r. zero_queue (QUSE OR QREADR)) st)))
      else allocq_from (q + 2) n st)"

definition allocq :: "strst \<Rightarrow> ptr \<times> strst" where
  "allocq st = allocq_from 0 ((v_nqueue st + 1) div 2) st"

section \<open>Initialisation\<close>

definition btoc :: "int \<Rightarrow> int" where
  "btoc x = (x + 2047) div 2048"

fun stream_heads :: "nat \<Rightarrow> strst \<Rightarrow> strst" where
  "stream_heads 0 st = st"
| "stream_heads (Suc n) st = (let st1 = stream_heads n st in
     st1\<lparr>streams := (streams st1)(n := (streams st1 n)\<lparr>sd_rdev := - 1, sd_icnt := 0, sd_wrq := None\<rparr>)\<rparr>)"

text \<open>The data blocks \<open>d\<close>, \<open>d + 1\<close>, ... of class \<open>c\<close>, their data from \<open>base\<close> on.\<close>

fun init_dblocks :: "nat \<Rightarrow> nat \<Rightarrow> nat \<Rightarrow> int \<Rightarrow> strst \<Rightarrow> strst" where
  "init_dblocks c 0 d base st = st"
| "init_dblocks c (Suc n) d base st =
     (let st1 = upd_db d (\<lambda>p. p\<lparr>db_class := c, db_base := base, db_lim := base + rbsize c, db_freep := dbfreelist st c\<rparr>) st
      in init_dblocks c n (Suc d) (base + rbsize c) (st1\<lparr>dbfreelist := (dbfreelist st1)(c := Some d)\<rparr>))"

text \<open>The classes below \<open>c\<close>, the largest first.\<close>

fun init_classes :: "strcfg \<Rightarrow> nat \<Rightarrow> nat \<Rightarrow> int \<Rightarrow> strst \<Rightarrow> strst" where
  "init_classes cfg 0 d base st = st"
| "init_classes cfg (Suc c) d base st =
     (let n = v_nblk st c;
          st1 = st\<lparr>dbfreelist := (dbfreelist st)(c := None)\<rparr>;
          st2 = upd_al c (\<lambda>a. a\<lparr>dba_lo := (int n * strlofrac cfg) div 100, dba_med := (int n * strmedfrac cfg) div 100\<rparr>) st1
      in init_classes cfg c (d + n) (base + int n * rbsize c) (init_dblocks c n d base st2))"

fun init_mblocks :: "nat \<Rightarrow> nat \<Rightarrow> strst \<Rightarrow> strst" where
  "init_mblocks b 0 st = st"
| "init_mblocks b (Suc n) st = init_mblocks (Suc b) n (mb_return b st)"

definition pool_size :: "(nat \<Rightarrow> nat) \<Rightarrow> int" where
  "pool_size v = int (v 8) * 4096 + int (v 7) * 2048 + int (v 6) * 1024 + int (v 5) * 512 + int (v 4) * 256 +
     int (v 3) * 128 + int (v 2) * 64 + int (v 1) * 16 + int (v 0) * 4"

definition no_buffers :: "strst \<Rightarrow> strst" where
  "no_buffers st = st\<lparr>dbfreelist := (\<lambda>c. if c < NCLASS then None else dbfreelist st c), mbfreelist := None\<rparr>"

text \<open>\<open>spt\<close> is what \<open>sptalloc\<close> answers: the address of the pages, or nothing.\<close>

definition strinit :: "strcfg \<Rightarrow> int option \<Rightarrow> strst \<Rightarrow> strst" where
  "strinit cfg spt st =
     (let st1 = stream_heads (v_nstream cfg) st;
          st2 = se_push 0 (nstrevent cfg) (st1\<lparr>sefreelist := None\<rparr>);
          st3 = (if odd (v_nqueue st2) then st2\<lparr>v_nqueue := v_nqueue st2 - 1\<rparr> else st2);
          sz = btoc (pool_size (v_nblk st3))
      in if sz = 0 then no_buffers st3
         else
           let sz1 = (if v_nblk st3 8 > 0 then sz + 1 else sz);
               fail = (\<lambda>s. (no_buffers s)\<lparr>v_nblk := \<lambda>c. if c < NCLASS then 0 else v_nblk s c\<rparr>)
           in if availrmem st3 - sz1 < t_minarmem cfg \<or> availsmem st3 - sz1 < t_minasmem cfg then fail st3
              else case spt of
                None \<Rightarrow> fail st3
              | Some a \<Rightarrow>
                  let base = (if v_nblk st3 8 > 0 then (a + 4095) - (a + 4095) mod 4096 else a);
                      st4 = st3\<lparr>availrmem := availrmem st3 - sz1, availsmem := availsmem st3 - sz1\<rparr>;
                      st5 = init_classes cfg NCLASS 0 base st4
                  in init_mblocks 0 (nmblock cfg) (st5\<lparr>mbfreelist := None\<rparr>))"

section \<open>Modules by name and number\<close>

text \<open>An entry of \<open>fmodsw\<close>: the name in its array of \<open>FMNAMESZ + 1\<close> bytes, and the read side of its table.\<close>

record fmodsw_ent =
  f_name :: string
  f_rdinit :: qinit

definition cchar :: "string \<Rightarrow> nat \<Rightarrow> char" where
  "cchar s j = (if j < length s then s ! j else CHR 0x00)"

fun name_match :: "string \<Rightarrow> string \<Rightarrow> nat \<Rightarrow> nat \<Rightarrow> bool" where
  "name_match f name j 0 = False"
| "name_match f name j (Suc n) =
     (if cchar f j \<noteq> cchar name j then False
      else if cchar name j = CHR 0x00 then True
      else name_match f name (Suc j) n)"

fun findmod_from :: "fmodsw_ent list \<Rightarrow> nat \<Rightarrow> string \<Rightarrow> ptr" where
  "findmod_from [] i name = None"
| "findmod_from (f # fs) i name = (if name_match (f_name f) name 0 9 then Some i else findmod_from fs (Suc i) name)"

definition findmod :: "fmodsw_ent list \<Rightarrow> string \<Rightarrow> ptr" where
  "findmod fmodsw name = findmod_from fmodsw 0 name"

text \<open>\<open>cdevsw\<close> holds the read side of the drivers that are streams.\<close>

definition getmid :: "qinit option list \<Rightarrow> fmodsw_ent list \<Rightarrow> string option \<Rightarrow> int" where
  "getmid cdevsw fmodsw name = (case name of
     None \<Rightarrow> 0
   | Some s \<Rightarrow> if s = [] then 0
       else case find (\<lambda>c. case c of None \<Rightarrow> False | Some i \<Rightarrow> mi_idname (qi_minfo i) = s) cdevsw of
         Some (Some i) \<Rightarrow> mi_idnum (qi_minfo i)
       | _ \<Rightarrow> (case find (\<lambda>f. f_name f = s) fmodsw of Some f \<Rightarrow> mi_idnum (qi_minfo (f_rdinit f)) | None \<Rightarrow> 0))"

definition getadmin :: "qinit option list \<Rightarrow> fmodsw_ent list \<Rightarrow> int \<Rightarrow> ptr" where
  "getadmin cdevsw fmodsw mid =
     (if mid = 0 then None
      else case find (\<lambda>c. case c of None \<Rightarrow> False | Some i \<Rightarrow> mi_idnum (qi_minfo i) = mid) cdevsw of
        Some (Some i) \<Rightarrow> qi_qadmin i
      | _ \<Rightarrow> (case find (\<lambda>f. mi_idnum (qi_minfo (f_rdinit f)) = mid) fmodsw of Some f \<Rightarrow> qi_qadmin (f_rdinit f) | None \<Rightarrow> None))"

end
