(* ===== verification/StreamPool.thy ===== *)
theory StreamPool
  imports Chains StreamQ
begin

text \<open>
  The pool of message and data blocks: which blocks are free, how many message blocks share a data block,
  and what allocating and freeing a block does to it.
\<close>

section \<open>Reference counts\<close>

definition refs :: "(nat \<Rightarrow> ptr) \<Rightarrow> nat set \<Rightarrow> nat \<Rightarrow> nat" where
  "refs dp U d = card {b \<in> U. dp b = Some d}"

lemma refs_cong: "(\<And>b. b \<in> U \<Longrightarrow> dp' b = dp b) \<Longrightarrow> refs dp' U d = refs dp U d"
  by (simp add: refs_def cong: conj_cong)

lemma refs_insert:
  assumes "finite U" "b \<notin> U" "\<And>a. a \<in> U \<Longrightarrow> dp' a = dp a"
  shows "refs dp' (insert b U) d = refs dp U d + (if dp' b = Some d then 1 else 0)"
proof -
  have "{a \<in> insert b U. dp' a = Some d} = (if dp' b = Some d then insert b {a \<in> U. dp a = Some d} else {a \<in> U. dp a = Some d})"
    using assms(2,3) by auto
  then show ?thesis using assms(1,2) by (simp add: refs_def)
qed

lemma refs_remove:
  assumes "finite U" "b \<in> U" "\<And>a. a \<in> U \<Longrightarrow> a \<noteq> b \<Longrightarrow> dp' a = dp a"
  shows "refs dp' (U - {b}) d = refs dp U d - (if dp b = Some d then 1 else 0)"
proof -
  have "{a \<in> U - {b}. dp' a = Some d} = {a \<in> U. dp a = Some d} - (if dp b = Some d then {b} else {})"
  proof (intro set_eqI iffI)
    fix a assume a: "a \<in> {a \<in> U - {b}. dp' a = Some d}"
    then have "dp' a = dp a" using assms(3) by blast
    then show "a \<in> {a \<in> U. dp a = Some d} - (if dp b = Some d then {b} else {})" using a by simp
  next
    fix a assume a: "a \<in> {a \<in> U. dp a = Some d} - (if dp b = Some d then {b} else {})"
    then have "a \<noteq> b" by (auto split: if_splits)
    then show "a \<in> {a \<in> U - {b}. dp' a = Some d}" using a assms(3) [of a] by simp
  qed
  then show ?thesis using assms(1,2) by (simp add: refs_def card_Diff_subset)
qed

lemma refs_pos: "finite U \<Longrightarrow> 0 < refs dp U d \<longleftrightarrow> (\<exists>b\<in>U. dp b = Some d)"
  by (auto simp: refs_def card_gt_0_iff)

lemma refs_le: "finite U \<Longrightarrow> refs dp U d \<le> card U"
  by (auto simp: refs_def intro: card_mono)

section \<open>The pool\<close>

abbreviation mbnext :: "strst \<Rightarrow> nat \<Rightarrow> ptr" where "mbnext st \<equiv> \<lambda>b. b_next (mblock st b)"
abbreviation mbprev :: "strst \<Rightarrow> nat \<Rightarrow> ptr" where "mbprev st \<equiv> \<lambda>b. b_prev (mblock st b)"
abbreviation mbcont :: "strst \<Rightarrow> nat \<Rightarrow> ptr" where "mbcont st \<equiv> \<lambda>b. b_cont (mblock st b)"
abbreviation mbdata :: "strst \<Rightarrow> nat \<Rightarrow> ptr" where "mbdata st \<equiv> \<lambda>b. b_datap (mblock st b)"
abbreviation dbnext :: "strst \<Rightarrow> nat \<Rightarrow> ptr" where "dbnext st \<equiv> \<lambda>d. db_freep (dblock st d)"
abbreviation dbcls :: "strst \<Rightarrow> nat \<Rightarrow> nat" where "dbcls st \<equiv> \<lambda>d. db_class (dblock st d)"

text \<open>
  \<open>F\<close> is the list of free message blocks, \<open>D c\<close> that of the free data blocks of class \<open>c\<close>, \<open>U\<close> the message blocks
  that carry data; \<open>nd\<close> is the number of data blocks. A data block counts the blocks of \<open>U\<close> that refer to it, it is
  free when there are none, and \<open>dba_cnt\<close> counts the data blocks of a class in use.
\<close>

definition pool_lists :: "strcfg \<Rightarrow> nat \<Rightarrow> strst \<Rightarrow> nat list \<Rightarrow> (nat \<Rightarrow> nat list) \<Rightarrow> nat set \<Rightarrow> bool" where
  "pool_lists cfg nd st F D U \<longleftrightarrow> linked (mbnext st) (mbfreelist st) F \<and> set F \<union> U \<subseteq> {..< nmblock cfg} \<and> set F \<inter> U = {} \<and>
     (\<forall>c < NCLASS. linked (dbnext st) (dbfreelist st c) (D c)) \<and>
     (\<forall>c < NCLASS. set (D c) = {d. d < nd \<and> dbcls st d = c \<and> refs (mbdata st) U d = 0})"

definition pool_counts :: "nat \<Rightarrow> strst \<Rightarrow> nat set \<Rightarrow> bool" where
  "pool_counts nd st U \<longleftrightarrow>
     (\<forall>d < nd. dbcls st d < NCLASS \<and> unat (db_ref (dblock st d)) = refs (mbdata st) U d) \<and>
     (\<forall>c < NCLASS. dba_cnt (dballoc st c) = int (card {d. d < nd \<and> dbcls st d = c \<and> 0 < refs (mbdata st) U d}))"

text \<open>The data areas are word-aligned, as long as their class says, and apart; a block's data lies in its area.\<close>

definition pool_areas :: "nat \<Rightarrow> strst \<Rightarrow> bool" where
  "pool_areas nd st \<longleftrightarrow> (\<forall>d < nd. db_lim (dblock st d) = db_base (dblock st d) + rbsize (dbcls st d) \<and> db_base (dblock st d) mod 4 = 0) \<and>
     (\<forall>d < nd. \<forall>e < nd. d \<noteq> e \<longrightarrow> db_lim (dblock st d) \<le> db_base (dblock st e) \<or> db_lim (dblock st e) \<le> db_base (dblock st d))"

definition block_in :: "nat \<Rightarrow> strst \<Rightarrow> nat \<Rightarrow> bool" where
  "block_in nd st b \<longleftrightarrow> (\<exists>d < nd. mbdata st b = Some d \<and> db_base (dblock st d) \<le> b_rptr (mblock st b) \<and>
     b_rptr (mblock st b) \<le> b_wptr (mblock st b) \<and> b_wptr (mblock st b) \<le> db_lim (dblock st d))"

definition pool_ok :: "strcfg \<Rightarrow> nat \<Rightarrow> strst \<Rightarrow> nat list \<Rightarrow> (nat \<Rightarrow> nat list) \<Rightarrow> nat set \<Rightarrow> bool" where
  "pool_ok cfg nd st F D U \<longleftrightarrow> pool_lists cfg nd st F D U \<and> pool_counts nd st U \<and> pool_areas nd st \<and> (\<forall>b\<in>U. block_in nd st b)"

lemma pool_listsD:
  assumes "pool_lists cfg nd st F D U"
  shows "linked (mbnext st) (mbfreelist st) F" "set F \<subseteq> {..< nmblock cfg}" "U \<subseteq> {..< nmblock cfg}" "set F \<inter> U = {}"
    "c < NCLASS \<Longrightarrow> linked (dbnext st) (dbfreelist st c) (D c)"
    "c < NCLASS \<Longrightarrow> set (D c) = {d. d < nd \<and> dbcls st d = c \<and> refs (mbdata st) U d = 0}"
    "finite U" "distinct F" "c < NCLASS \<Longrightarrow> distinct (D c)"
  using assms linked_distinct by (auto simp: pool_lists_def intro: finite_subset [of U "{..< nmblock cfg}"])

lemma pool_okD:
  assumes "pool_ok cfg nd st F D U"
  shows "pool_lists cfg nd st F D U" "pool_counts nd st U" "pool_areas nd st" "b \<in> U \<Longrightarrow> block_in nd st b"
    "d < nd \<Longrightarrow> dbcls st d < NCLASS" "d < nd \<Longrightarrow> unat (db_ref (dblock st d)) = refs (mbdata st) U d"
    "c < NCLASS \<Longrightarrow> dba_cnt (dballoc st c) = int (card {d. d < nd \<and> dbcls st d = c \<and> 0 < refs (mbdata st) U d})"
  using assms unfolding pool_ok_def pool_counts_def by blast+

text \<open>What the pool depends on.\<close>

lemma pool_areas_cong:
  assumes "pool_areas nd st"
    and "\<And>d. d < nd \<Longrightarrow> dbcls st' d = dbcls st d \<and> db_base (dblock st' d) = db_base (dblock st d) \<and> db_lim (dblock st' d) = db_lim (dblock st d)"
  shows "pool_areas nd st'"
proof -
  have a: "dbcls st' d = dbcls st d" "db_base (dblock st' d) = db_base (dblock st d)" "db_lim (dblock st' d) = db_lim (dblock st d)" if "d < nd" for d
    using assms(2) [OF that] by simp_all
  show ?thesis unfolding pool_areas_def
  proof (intro conjI allI impI)
    fix d e assume "d < nd" "e < nd" "d \<noteq> e"
    then show "db_lim (dblock st' d) \<le> db_base (dblock st' e) \<or> db_lim (dblock st' e) \<le> db_base (dblock st' d)"
      using assms(1) a unfolding pool_areas_def by metis
  qed (use assms(1) a in \<open>auto simp: pool_areas_def\<close>)
qed

lemma pool_ok_cong:
  assumes ok: "pool_ok cfg nd st F D U"
    and eq: "mbfreelist st' = mbfreelist st" "\<And>c. c < NCLASS \<Longrightarrow> dbfreelist st' c = dbfreelist st c"
      "\<And>c. c < NCLASS \<Longrightarrow> dba_cnt (dballoc st' c) = dba_cnt (dballoc st c)"
      "\<And>b. b \<in> set F \<Longrightarrow> mbnext st' b = mbnext st b" "\<And>b. b \<in> U \<Longrightarrow> mbdata st' b = mbdata st b"
      "\<And>b. b \<in> U \<Longrightarrow> block_in nd st' b"
      "\<And>d. d < nd \<Longrightarrow> dbcls st' d = dbcls st d \<and> db_ref (dblock st' d) = db_ref (dblock st d) \<and> dbnext st' d = dbnext st d \<and>
         db_base (dblock st' d) = db_base (dblock st d) \<and> db_lim (dblock st' d) = db_lim (dblock st d)"
  shows "pool_ok cfg nd st' F D U"
proof -
  note L = pool_listsD [OF pool_okD(1) [OF ok]]
  have r: "refs (mbdata st') U d = refs (mbdata st) U d" for d by (rule refs_cong) (rule eq(5))
  have s: "{d. d < nd \<and> dbcls st' d = c \<and> P (refs (mbdata st') U d)} = {d. d < nd \<and> dbcls st d = c \<and> P (refs (mbdata st) U d)}" for c P
    using eq(7) unfolding r by auto
  have "linked (dbnext st') (dbfreelist st' c) (D c)" if c: "c < NCLASS" for c
    using L(5) [OF c] eq(2) [OF c] eq(7) L(6) [OF c] linked_cong [of "D c" "dbnext st" "dbnext st'"] by simp
  moreover have "linked (mbnext st') (mbfreelist st') F" using L(1) eq(1,4) linked_cong [of F "mbnext st" "mbnext st'"] by simp
  ultimately have "pool_lists cfg nd st' F D U" using L s [of _ "\<lambda>n. n = 0"] by (auto simp: pool_lists_def)
  moreover have "pool_counts nd st' U"
    using pool_okD(5,6,7) [OF ok] eq(3,7) r s [of _ "\<lambda>n. 0 < n"] by (simp add: pool_counts_def)
  moreover have "pool_areas nd st'" by (rule pool_areas_cong [OF pool_okD(3) [OF ok]]) (use eq(7) in blast)
  ultimately show ?thesis using eq(6) by (simp add: pool_ok_def)
qed

lemma block_in_cong:
  assumes "block_in nd st b" "mbdata st' b = mbdata st b" "b_rptr (mblock st' b) = b_rptr (mblock st b)"
    "b_wptr (mblock st' b) = b_wptr (mblock st b)"
    "\<And>d. d < nd \<Longrightarrow> db_base (dblock st' d) = db_base (dblock st d) \<and> db_lim (dblock st' d) = db_lim (dblock st d)"
  shows "block_in nd st' b"
  using assms unfolding block_in_def by auto

lemma linked_congI: "linked nx p xs \<Longrightarrow> (\<And>a. a \<in> set xs \<Longrightarrow> nx' a = nx a) \<Longrightarrow> linked nx' p xs"
  using linked_cong [of xs nx nx' p] by metis

section \<open>Getting a block\<close>

lemma getclass_fits: "getclass sz < NCLASS \<Longrightarrow> sz \<le> rbsize (getclass sz)"
proof -
  have "getclass_from sz c n < c + n \<Longrightarrow> sz \<le> rbsize (getclass_from sz c n)" for c n
    by (induction n arbitrary: c) (auto split: if_splits)
  then show "getclass sz < NCLASS \<Longrightarrow> sz \<le> rbsize (getclass sz)" unfolding getclass_def by (metis add_0)
qed

lemma rbsize_mono: "c + 1 < NCLASS \<Longrightarrow> rbsize c \<le> rbsize (c + 1)"
  by (simp add: rbsize_def) (auto simp: less_Suc_eq numeral_eq_Suc)

text \<open>The block \<open>b\<close>, with the data block \<open>d\<close> of class \<open>c\<close>, taken out of the pool.\<close>

definition allocated :: "nat \<Rightarrow> nat \<Rightarrow> nat \<Rightarrow> strst \<Rightarrow> strstat \<Rightarrow> strst" where
  "allocated b c d st x = st\<lparr>
     mblock := (mblock st)(b := \<lparr>b_next = None, b_prev = None, b_cont = None, b_rptr = db_base (dblock st d),
                 b_wptr = db_base (dblock st d), b_datap = Some d\<rparr>),
     dblock := (dblock st)(d := (dblock st d)\<lparr>db_freep := None, db_type := M_DATA, db_ref := 1\<rparr>),
     mbfreelist := b_next (mblock st b), dbfreelist := (dbfreelist st)(c := db_freep (dblock st d)),
     dballoc := (dballoc st)(c := (dballoc st c)\<lparr>dba_cnt := dba_cnt (dballoc st c) + 1\<rparr>), strst := x\<rparr>"

lemma allocb_got_eq:
  assumes "mbfreelist st = Some b"
  obtains x where "allocb_got c d st = (Some b, allocated b c d st x)"
proof -
  have "\<exists>x. allocb_got c d st = (Some b, allocated b c d st x)"
    using assms by (auto simp: allocb_got_def Let_def allocated_def upd_al_def upd_db_def upd_mb_def stat_dblk_def stat_mblock_def
        intro!: exI [of _ "strst (snd (allocb_got c d st))"] strst.equality)
  then show ?thesis using that by blast
qed

lemma allocated_sel [simp]:
  "mbfreelist (allocated b c d st x) = b_next (mblock st b)"
  "dbfreelist (allocated b c d st x) = (dbfreelist st)(c := db_freep (dblock st d))"
  "dballoc (allocated b c d st x) = (dballoc st)(c := (dballoc st c)\<lparr>dba_cnt := dba_cnt (dballoc st c) + 1\<rparr>)"
  "mblock (allocated b c d st x) = (mblock st)(b := \<lparr>b_next = None, b_prev = None, b_cont = None,
     b_rptr = db_base (dblock st d), b_wptr = db_base (dblock st d), b_datap = Some d\<rparr>)"
  "dblock (allocated b c d st x) = (dblock st)(d := (dblock st d)\<lparr>db_freep := None, db_type := M_DATA, db_ref := 1\<rparr>)"
  "smem (allocated b c d st x) = smem st" "queues (allocated b c d st x) = queues st" "qhead (allocated b c d st x) = qhead st"
  "qtail (allocated b c d st x) = qtail st" "v_nqueue (allocated b c d st x) = v_nqueue st" "v_nblk (allocated b c d st x) = v_nblk st"
  by (simp_all add: allocated_def)

lemma allocated_ok:
  assumes ok: "pool_ok cfg nd st (b # F) D U" and c: "c < NCLASS" "D c = d # ds"
  shows "pool_ok cfg nd (allocated b c d st x) F (D(c := ds)) (insert b U)" (is "pool_ok cfg nd ?s F ?D ?U")
proof -
  note L = pool_listsD [OF pool_okD(1) [OF ok]]
  note P = pool_okD [OF ok]
  have b: "b \<notin> U" "b \<notin> set F" "b < nmblock cfg" using L(2,4,8) by auto
  have dD: "d \<in> set (D c)" "d \<notin> set ds" using c(2) L(9) [OF c(1)] by simp_all
  then have d: "d < nd" "dbcls st d = c" "refs (mbdata st) U d = 0" using L(6) [OF c(1)] by auto
  have r: "refs (mbdata ?s) ?U e = refs (mbdata st) U e + (if e = d then 1 else 0)" for e
  proof -
    have "refs (mbdata ?s) ?U e = refs (mbdata st) U e + (if mbdata ?s b = Some e then 1 else 0)"
      by (rule refs_insert [OF L(7) b(1)]) (use b(1) in auto)
    then show ?thesis by (simp only: allocated_sel fun_upd_same msgb.simps option.inject eq_commute [of d e])
  qed
  have cls: "dbcls ?s e = dbcls st e" for e by simp
  have "linked (mbnext st) (mbfreelist ?s) F" using L(1) by simp
  then have nx: "linked (mbnext ?s) (mbfreelist ?s) F" by (rule linked_congI) (use b(2) in auto)
  have dl: "linked (dbnext ?s) (dbfreelist ?s e) (?D e)" if e: "e < NCLASS" for e
  proof -
    have nin: "d \<notin> set (?D e)" using dD(2) L(6) [OF e] d(2) by (cases "e = c") auto
    have l: "linked (dbnext st) (dbfreelist ?s e) (?D e)" using L(5) [OF e] L(5) [OF c(1)] c(2) by (cases "e = c") simp_all
    show ?thesis by (rule linked_congI [OF l]) (use nin in auto)
  qed
  have ds: "set (?D e) = {f. f < nd \<and> dbcls ?s f = e \<and> refs (mbdata ?s) ?U f = 0}" if e: "e < NCLASS" for e
    unfolding r cls using L(6) [OF e] L(9) [OF e] c(2) d dD by (cases "e = c") auto
  have lists: "pool_lists cfg nd ?s F ?D ?U" using nx dl ds b L(2,3,4) by (auto simp: pool_lists_def)
  have cnt: "dba_cnt (dballoc ?s e) = int (card {f. f < nd \<and> dbcls ?s f = e \<and> 0 < refs (mbdata ?s) ?U f})" if e: "e < NCLASS" for e
  proof -
    have s: "{f. f < nd \<and> dbcls ?s f = e \<and> 0 < refs (mbdata ?s) ?U f} =
      (if e = c then insert d {f. f < nd \<and> dbcls st f = e \<and> 0 < refs (mbdata st) U f} else {f. f < nd \<and> dbcls st f = e \<and> 0 < refs (mbdata st) U f})"
      unfolding r cls using d by auto
    show ?thesis unfolding s using P(7) [OF e] d(3) by (cases "e = c") simp_all
  qed
  have "pool_counts nd ?s ?U" unfolding pool_counts_def
  proof (intro conjI allI impI)
    fix e assume e: "e < nd"
    show "dbcls ?s e < NCLASS" using P(5) [OF e] by (cases "e = d") simp_all
    show "unat (db_ref (dblock ?s e)) = refs (mbdata ?s) ?U e" unfolding r using P(6) [OF e] d(3) by (cases "e = d") simp_all
  qed (rule cnt)
  moreover have areas: "pool_areas nd ?s" by (rule pool_areas_cong [OF P(3)]) simp
  moreover have "block_in nd ?s a" if "a \<in> ?U" for a
  proof (cases "a = b")
    case True
    have "db_base (dblock st d) \<le> db_lim (dblock st d)"
      using P(3) d(1) P(5) [OF d(1)] unfolding pool_areas_def by (auto simp: rbsize_def less_Suc_eq numeral_eq_Suc)
    then show ?thesis using True d(1) by (auto simp: block_in_def)
  next
    case False
    then have "a \<in> U" using that by simp
    then show ?thesis using False by (intro block_in_cong [OF P(4)]) auto
  qed
  ultimately show ?thesis using lists by (simp add: pool_ok_def)
qed

lemma allocb_got_ok:
  assumes ok: "pool_ok cfg nd st F D U" and c: "c < NCLASS" and r: "class_ready cfg st c pri = Some d"
  shows "(F = [] \<and> fst (allocb_got c d st) = None \<and> (\<exists>x. snd (allocb_got c d st) = st\<lparr>strst := x\<rparr>)) \<or>
     (\<exists>b F' ds x. F = b # F' \<and> D c = d # ds \<and> allocb_got c d st = (Some b, allocated b c d st x) \<and>
        pool_ok cfg nd (allocated b c d st x) F' (D(c := ds)) (insert b U))"
proof (cases F)
  case Nil
  then have "mbfreelist st = None" using pool_listsD(1) [OF pool_okD(1) [OF ok]] by simp
  then show ?thesis using Nil by (auto simp: allocb_got_def stat_mblock_def)
next
  case (Cons b F')
  have p: "mbfreelist st = Some b" using pool_listsD(1) [OF pool_okD(1) [OF ok]] Cons by simp
  have "dbfreelist st c = Some d" using r by (auto simp: class_ready_def split: if_splits)
  then obtain ds where ds: "D c = d # ds" using pool_listsD(5) [OF pool_okD(1) [OF ok] c] by (auto simp: linked_Some)
  obtain x where "allocb_got c d st = (Some b, allocated b c d st x)" by (rule allocb_got_eq [OF p])
  then show ?thesis using Cons ds allocated_ok [OF ok [unfolded Cons] c ds] by blast
qed

text \<open>\<open>allocb\<close>: nothing but the statistics changes, or a fresh block of a class that holds the size.\<close>

lemma stat_dblk_eq: "\<exists>x. stat_dblk c f st = st\<lparr>strst := x\<rparr>"
  by (auto simp: stat_dblk_def)

lemma allocb_ok:
  assumes ok: "pool_ok cfg nd st F D U"
  obtains (none) x where "allocb cfg sz pri st = (None, st\<lparr>strst := x\<rparr>)"
    | (got) b F' c d ds x where "allocb cfg sz pri st = (Some b, allocated b c d st x)" "F = b # F'" "c < NCLASS" "D c = d # ds" "sz \<le> rbsize c"
      "c = getclass sz \<or> c = Suc (getclass sz)" "dba_cnt (dballoc st c) < bcmax cfg st c pri"
      "pool_ok cfg nd (allocated b c d st x) F' (D(c := ds)) (insert b U)"
proof -
  let ?c = "getclass sz"
  have ready: "class_ready cfg (st\<lparr>strst := x\<rparr>) c pri = class_ready cfg st c pri" for x c by (simp add: class_ready_def bcmax_def)
  have lim: "dba_cnt (dballoc st c) < bcmax cfg st c pri" if "class_ready cfg st c pri = Some d" for c d
    using that by (auto simp: class_ready_def split: if_splits)
  have okx: "pool_ok cfg nd (st\<lparr>strst := x\<rparr>) F D U" for x
    by (rule pool_ok_cong [OF ok]) (use pool_okD(4) [OF ok] in \<open>auto simp: block_in_def\<close>)
  have al: "allocated b c d (st\<lparr>strst := y\<rparr>) x = allocated b c d st x" for b c d x y by (simp add: allocated_def)
  have conc: thesis if "c < NCLASS" "class_ready cfg st c pri = Some d" "sz \<le> rbsize c" "c = ?c \<or> c = Suc ?c"
    "allocb cfg sz pri st = allocb_got c d (st\<lparr>strst := x\<rparr>)" for c d x
  proof -
    have "class_ready cfg (st\<lparr>strst := x\<rparr>) c pri = Some d" using that(2) ready by simp
    from allocb_got_ok [OF okx that(1) this] show thesis
    proof (elim disjE exE conjE)
      fix y assume "fst (allocb_got c d (st\<lparr>strst := x\<rparr>)) = None" "snd (allocb_got c d (st\<lparr>strst := x\<rparr>)) = st\<lparr>strst := x\<rparr>\<lparr>strst := y\<rparr>"
      then show thesis using that(5) none [of y] by (simp add: prod_eq_iff)
    next
      fix b F' ds y assume "F = b # F'" "D c = d # ds" "allocb_got c d (st\<lparr>strst := x\<rparr>) = (Some b, allocated b c d (st\<lparr>strst := x\<rparr>) y)"
        "pool_ok cfg nd (allocated b c d (st\<lparr>strst := x\<rparr>) y) F' (D(c := ds)) (insert b U)"
      then show thesis using got [of b c d y F' ds] that lim [OF that(2)] al by simp
    qed
  qed
  have self: "st\<lparr>strst := strst st\<rparr> = st" by simp
  show thesis
  proof (cases "?c < NCLASS")
    case False
    then show ?thesis using none [of "strst st"] by (simp add: allocb_def)
  next
    case True
    note fit = getclass_fits [OF True]
    show ?thesis
    proof (cases "class_ready cfg st ?c pri")
      case (Some d)
      show ?thesis by (rule conc [OF True Some fit, of "strst st"]) (use True Some in \<open>simp_all add: allocb_def Let_def\<close>)
    next
      case None
      obtain x where x: "stat_dblk ?c al_fails st = st\<lparr>strst := x\<rparr>" using stat_dblk_eq by blast
      show ?thesis
      proof (cases "?c = NCLASS - 1")
        case last: True
        then show ?thesis using none [of x] None x by (simp add: allocb_def Let_def)
      next
        case False
        then have c1: "?c + 1 < NCLASS" using True by simp
        have fit1: "sz \<le> rbsize (?c + 1)" using fit rbsize_mono [OF c1] by simp
        obtain y where y: "stat_dblk (?c + 1) al_fails (st\<lparr>strst := x\<rparr>) = st\<lparr>strst := y\<rparr>"
          using stat_dblk_eq [of "?c + 1" al_fails "st\<lparr>strst := x\<rparr>"] by auto
        show ?thesis
        proof (cases "class_ready cfg st (?c + 1) pri")
          case none1: None
          then show ?thesis using none [of y] True None x y False ready by (simp add: allocb_def Let_def)
        next
          case (Some d)
          show ?thesis
            by (rule conc [OF c1 Some fit1, of x]) (use True None Some False x ready in \<open>simp_all add: allocb_def Let_def\<close>)
        qed
      qed
    qed
  qed
qed

section \<open>What an operation leaves alone\<close>

text \<open>
  The queues, the scheduling list and the data areas are as before, and so are the blocks of \<open>S\<close>: their
  descriptors, the type of their data and every byte of their areas.
\<close>

definition same_env :: "strst \<Rightarrow> strst \<Rightarrow> bool" where
  "same_env st st' \<longleftrightarrow> queues st' = queues st \<and> qhead st' = qhead st \<and> qtail st' = qtail st \<and> v_nqueue st' = v_nqueue st \<and>
     v_nblk st' = v_nblk st \<and> (\<forall>d. dbcls st' d = dbcls st d \<and> db_base (dblock st' d) = db_base (dblock st d) \<and> db_lim (dblock st' d) = db_lim (dblock st d))"

definition keeps :: "strst \<Rightarrow> strst \<Rightarrow> nat set \<Rightarrow> bool" where
  "keeps st st' S \<longleftrightarrow> same_env st st' \<and> (\<forall>b\<in>S. mblock st' b = mblock st b \<and>
     (\<forall>d. mbdata st b = Some d \<longrightarrow> db_type (dblock st' d) = db_type (dblock st d) \<and>
       (\<forall>a. db_base (dblock st d) \<le> a \<and> a < db_lim (dblock st d) \<longrightarrow> smem st' a = smem st a)))"

lemma keeps_mono: "keeps st st' S \<Longrightarrow> T \<subseteq> S \<Longrightarrow> keeps st st' T"
  by (auto simp: keeps_def)

lemma keeps_trans [trans]: "keeps st st' S \<Longrightarrow> keeps st' st'' S \<Longrightarrow> keeps st st'' S"
  by (auto simp: keeps_def same_env_def)

lemma keeps_refl [simp]: "keeps st st S"
  by (simp add: keeps_def same_env_def)

lemma keeps_stat [simp]: "keeps st (st\<lparr>strst := x\<rparr>) S"
  by (simp add: keeps_def same_env_def)

lemma keepsD:
  assumes "keeps st st' S"
  shows "b \<in> S \<Longrightarrow> mblock st' b = mblock st b" "b \<in> S \<Longrightarrow> mbcont st' b = mbcont st b" "b \<in> S \<Longrightarrow> mbdata st' b = mbdata st b"
    "b \<in> S \<Longrightarrow> btype st' b = btype st b" "dbcls st' d = dbcls st d" "queues st' = queues st" "qhead st' = qhead st" "qtail st' = qtail st"
    "v_nqueue st' = v_nqueue st" "db_base (dblock st' d) = db_base (dblock st d)" "db_lim (dblock st' d) = db_lim (dblock st d)"
  using assms by (auto simp: keeps_def same_env_def btype_def map_option_case split: option.splits)

text \<open>The bytes a block holds.\<close>

definition bytes :: "strst \<Rightarrow> nat \<Rightarrow> u8 list" where
  "bytes st b = map (smem st) [b_rptr (mblock st b) .. b_wptr (mblock st b) - 1]"

lemma keeps_bytes:
  assumes "keeps st st' S" "b \<in> S" "block_in nd st b"
  shows "bytes st' b = bytes st b"
proof -
  obtain d where d: "mbdata st b = Some d" "db_base (dblock st d) \<le> b_rptr (mblock st b)" "b_wptr (mblock st b) \<le> db_lim (dblock st d)"
    using assms(3) by (auto simp: block_in_def)
  have "smem st' a = smem st a" if "b_rptr (mblock st b) \<le> a" "a < b_wptr (mblock st b)" for a
    using assms(1,2) d that unfolding keeps_def by (meson order_trans order_less_le_trans)
  then show ?thesis using keepsD(1) [OF assms(1,2)] by (simp add: bytes_def)
qed

lemma keeps_block_in:
  assumes "keeps st st' S" "b \<in> S" "block_in nd st b"
  shows "block_in nd st' b"
  by (rule block_in_cong [OF assms(3)]) (use keepsD(1,10,11) [OF assms(1)] assms(2) in simp_all)

lemma linked_keeps: "keeps st st' S \<Longrightarrow> set bs \<subseteq> S \<Longrightarrow> linked (mbcont st) p bs \<Longrightarrow> linked (mbcont st') p bs"
  using keepsD(2) [of st st' S] by (intro linked_congI [of "mbcont st" p bs "mbcont st'"]) (assumption, metis subsetD)

section \<open>Giving a block back\<close>

definition freed :: "nat \<Rightarrow> nat \<Rightarrow> strst \<Rightarrow> strstat \<Rightarrow> bool \<Rightarrow> bool \<Rightarrow> strst" where
  "freed b d st x r s = (let c = dbcls st d; last = (db_ref (dblock st d) - 1 = 0) in
     st\<lparr>mblock := (mblock st)(b := (mblock st b)\<lparr>b_datap := None, b_next := mbfreelist st\<rparr>), mbfreelist := Some b,
        dblock := (dblock st)(d := (dblock st d)\<lparr>db_ref := db_ref (dblock st d) - 1,
          db_freep := if last then dbfreelist st c else db_freep (dblock st d)\<rparr>),
        dbfreelist := if last then (dbfreelist st)(c := Some d) else dbfreelist st,
        dballoc := if last then (dballoc st)(c := (dballoc st c)\<lparr>dba_cnt := dba_cnt (dballoc st c) - 1\<rparr>) else dballoc st,
        strst := x, qrunflag := r, strbcflag := s\<rparr>)"

lemma freed_sel [simp]:
  "mblock (freed b d st x r s) = (mblock st)(b := (mblock st b)\<lparr>b_datap := None, b_next := mbfreelist st\<rparr>)"
  "mbfreelist (freed b d st x r s) = Some b" "smem (freed b d st x r s) = smem st" "queues (freed b d st x r s) = queues st"
  "qhead (freed b d st x r s) = qhead st" "qtail (freed b d st x r s) = qtail st" "v_nqueue (freed b d st x r s) = v_nqueue st"
  "v_nblk (freed b d st x r s) = v_nblk st"
  by (simp_all add: freed_def Let_def)

lemma freeb_data_eq:
  obtains x r s where "freeb_data d st = st\<lparr>dblock := (dblock st)(d := (dblock st d)\<lparr>db_freep := dbfreelist st (dbcls st d)\<rparr>),
    dbfreelist := (dbfreelist st)(dbcls st d := Some d),
    dballoc := (dballoc st)(dbcls st d := (dballoc st (dbcls st d))\<lparr>dba_cnt := dba_cnt (dballoc st (dbcls st d)) - 1\<rparr>),
    strst := x, qrunflag := r, strbcflag := s\<rparr>"
proof -
  let ?t = "freeb_data d st"
  have "?t = st\<lparr>dblock := (dblock st)(d := (dblock st d)\<lparr>db_freep := dbfreelist st (dbcls st d)\<rparr>),
    dbfreelist := (dbfreelist st)(dbcls st d := Some d),
    dballoc := (dballoc st)(dbcls st d := (dballoc st (dbcls st d))\<lparr>dba_cnt := dba_cnt (dballoc st (dbcls st d)) - 1\<rparr>),
    strst := strst ?t, qrunflag := qrunflag ?t, strbcflag := strbcflag ?t\<rparr>"
    by (rule strst.equality) (simp_all add: freeb_data_def Let_def upd_db_def upd_al_def stat_dblk_def setqsched_def)
  then show thesis by (rule that)
qed

lemma freeb_eq:
  assumes "mbdata st b = Some d"
  obtains x r s where "freeb b st = Some (freed b d st x r s)"
proof (cases "db_ref (dblock st d) - 1 = 0")
  case True
  let ?st1 = "upd_db d (\<lambda>p. p\<lparr>db_ref := db_ref p - 1\<rparr>) st"
  obtain x r s where e: "freeb_data d ?st1 = ?st1\<lparr>dblock := (dblock ?st1)(d := (dblock ?st1 d)\<lparr>db_freep := dbfreelist ?st1 (dbcls ?st1 d)\<rparr>),
    dbfreelist := (dbfreelist ?st1)(dbcls ?st1 d := Some d),
    dballoc := (dballoc ?st1)(dbcls ?st1 d := (dballoc ?st1 (dbcls ?st1 d))\<lparr>dba_cnt := dba_cnt (dballoc ?st1 (dbcls ?st1 d)) - 1\<rparr>),
    strst := x, qrunflag := r, strbcflag := s\<rparr>" by (rule freeb_data_eq)
  let ?t = "the (freeb b st)"
  have "freeb b st = Some ?t" using assms by (simp add: freeb_def Let_def)
  moreover have "?t = freed b d st (strst ?t) r s"
    by (rule strst.equality) (use assms True e in \<open>simp_all add: freeb_def Let_def freed_def upd_db_def upd_mb_def stat_mblock_def mb_return_def\<close>)
  ultimately show thesis using that by metis
next
  case False
  let ?t = "the (freeb b st)"
  have "freeb b st = Some ?t" using assms by (simp add: freeb_def Let_def)
  moreover have "?t = freed b d st (strst ?t) (qrunflag st) (strbcflag st)"
    by (rule strst.equality) (use assms False in \<open>simp_all add: freeb_def Let_def freed_def upd_db_def upd_mb_def stat_mblock_def mb_return_def\<close>)
  ultimately show thesis using that by metis
qed

lemma u8_last: "(w :: u8) - 1 = 0 \<longleftrightarrow> unat w = 1"
  by (metis diff_eq_diff_eq cancel_comm_monoid_add_class.diff_cancel unat_1 word_unat_eq_iff)

lemma u8_pred: "unat (w :: u8) \<noteq> 0 \<Longrightarrow> unat (w - 1) = unat w - 1"
  by (metis unat_0 unat_minus_one)

lemma freed_block_keeps: "keeps st (freed b d st x r s) (U - {b})"
  by (auto simp: keeps_def same_env_def freed_def Let_def)

lemma freed_ok:
  assumes ok: "pool_ok cfg nd st F D U" and b: "b \<in> U" "mbdata st b = Some d"
  shows "\<exists>D'. pool_ok cfg nd (freed b d st x r s) (b # F) D' (U - {b})"
proof -
  note L = pool_listsD [OF pool_okD(1) [OF ok]]
  note P = pool_okD [OF ok]
  let ?s = "freed b d st x r s" and ?U = "U - {b}"
  have d: "d < nd" using P(4) [OF b(1)] b(2) by (auto simp: block_in_def)
  define c where "c = dbcls st d"
  have c: "c < NCLASS" unfolding c_def by (rule P(5) [OF d])
  have r0: "refs (mbdata ?s) ?U e = refs (mbdata st) U e - (if e = d then 1 else 0)" for e
  proof -
    have "refs (mbdata ?s) ?U e = refs (mbdata st) U e - (if mbdata st b = Some e then 1 else 0)"
      by (rule refs_remove [OF L(7) b(1)]) simp
    then show ?thesis using b(2) by (auto split: if_splits)
  qed
  have pos: "0 < refs (mbdata st) U d" using refs_pos [OF L(7)] b by blast
  define lst where "lst \<longleftrightarrow> refs (mbdata st) U d = 1"
  have l: "db_ref (dblock st d) - 1 = 0 \<longleftrightarrow> lst" using u8_last [of "db_ref (dblock st d)"] P(6) [OF d] by (simp add: lst_def)
  have sel: "dbcls ?s e = dbcls st e" "db_base (dblock ?s e) = db_base (dblock st e)" "db_lim (dblock ?s e) = db_lim (dblock st e)"
    "dbnext ?s = (if lst then (dbnext st)(d := dbfreelist st c) else dbnext st)"
    "dbfreelist ?s = (if lst then (dbfreelist st)(c := Some d) else dbfreelist st)"
    "dba_cnt (dballoc ?s e) = (if lst \<and> e = c then dba_cnt (dballoc st c) - 1 else dba_cnt (dballoc st e))"
    "db_ref (dblock ?s e) = (if e = d then db_ref (dblock st d) - 1 else db_ref (dblock st e))" for e
    using l unfolding freed_def Let_def c_def by (auto simp: fun_eq_iff)
  let ?D = "if lst then D(c := d # D c) else D"
  have nd: "d \<notin> set (D e)" if "e < NCLASS" for e using L(6) [OF that] pos by auto
  have dl: "linked (dbnext ?s) (dbfreelist ?s e) (?D e)" if e: "e < NCLASS" for e
    unfolding sel using L(5) [OF e] L(5) [OF c] nd [OF e] nd [OF c] by (cases "e = c") auto
  have ds: "set (?D e) = {f. f < nd \<and> dbcls ?s f = e \<and> refs (mbdata ?s) ?U f = 0}" if e: "e < NCLASS" for e
  proof -
    have "{f. f < nd \<and> dbcls ?s f = e \<and> refs (mbdata ?s) ?U f = 0} =
      (if lst \<and> e = c then insert d {f. f < nd \<and> dbcls st f = e \<and> refs (mbdata st) U f = 0} else {f. f < nd \<and> dbcls st f = e \<and> refs (mbdata st) U f = 0})"
      unfolding r0 sel using pos d by (auto simp: lst_def c_def)
    then show ?thesis using L(6) [OF e] by auto
  qed
  have F: "linked (mbnext ?s) (mbfreelist ?s) (b # F)"
  proof -
    have bF: "b \<notin> set F" using L(4) b(1) by auto
    have "linked (mbnext ?s) (mbfreelist st) F" by (rule linked_congI [OF L(1)]) (use bF in auto)
    then show ?thesis by simp
  qed
  have lists: "pool_lists cfg nd ?s (b # F) ?D ?U" using F dl ds b L(2,3,4) by (auto simp: pool_lists_def)
  have cnt: "dba_cnt (dballoc ?s e) = int (card {f. f < nd \<and> dbcls ?s f = e \<and> 0 < refs (mbdata ?s) ?U f})" if e: "e < NCLASS" for e
  proof -
    let ?A = "{f. f < nd \<and> dbcls st f = e \<and> 0 < refs (mbdata st) U f}"
    have a: "{f. f < nd \<and> dbcls ?s f = e \<and> 0 < refs (mbdata ?s) ?U f} = (if lst \<and> e = c then ?A - {d} else ?A)"
      unfolding r0 sel using pos d by (auto simp: lst_def c_def)
    have "int (card (?A - {d})) = int (card ?A) - 1" if "e = c"
    proof -
      have "d \<in> ?A" using d pos that by (simp add: c_def)
      then have "card ?A = Suc (card (?A - {d}))" by (intro card.remove) simp_all
      then show ?thesis by linarith
    qed
    then show ?thesis unfolding a unfolding sel using P(7) [OF e] by (cases "e = c") simp_all
  qed
  have "pool_counts nd ?s ?U" unfolding pool_counts_def
  proof (intro conjI allI impI)
    fix e assume e: "e < nd"
    show "dbcls ?s e < NCLASS" unfolding sel by (rule P(5) [OF e])
    have "unat (db_ref (dblock st d)) \<noteq> 0" using pos P(6) [OF d] by simp
    then show "unat (db_ref (dblock ?s e)) = refs (mbdata ?s) ?U e"
      unfolding r0 sel using P(6) [OF e] P(6) [OF d] u8_pred [of "db_ref (dblock st d)"] by (cases "e = d") simp_all
  qed (rule cnt)
  moreover have "pool_areas nd ?s" by (rule pool_areas_cong [OF P(3)]) (simp add: sel)
  moreover have "block_in nd ?s a" if "a \<in> ?U" for a
    by (rule keeps_block_in [OF freed_block_keeps that P(4)]) (use that in simp)
  ultimately show ?thesis using lists by (auto simp: pool_ok_def)
qed

lemma freeb_ok:
  assumes ok: "pool_ok cfg nd st F D U" and b: "b \<in> U"
  obtains st' D' where "freeb b st = Some st'" "pool_ok cfg nd st' (b # F) D' (U - {b})" "keeps st st' (U - {b})"
    "\<forall>a. mbcont st' a = mbcont st a" "\<forall>a. mbprev st' a = mbprev st a" "\<forall>a. a \<noteq> b \<longrightarrow> mblock st' a = mblock st a"
proof -
  obtain d where d: "mbdata st b = Some d" using pool_okD(4) [OF ok b] by (auto simp: block_in_def)
  obtain x r s where e: "freeb b st = Some (freed b d st x r s)" by (rule freeb_eq [OF d])
  obtain D' where "pool_ok cfg nd (freed b d st x r s) (b # F) D' (U - {b})" using freed_ok [OF ok b d] by blast
  then show ?thesis by (rule that [OF e _ freed_block_keeps]) simp_all
qed

text \<open>\<open>freemsg\<close> gives back every block of a message.\<close>

lemma freemsg_ok:
  assumes "pool_ok cfg nd st F D U" "linked (mbcont st) p bs" "set bs \<subseteq> U" "length bs \<le> n"
  shows "\<exists>st' D'. freemsg n p st = Some st' \<and> pool_ok cfg nd st' (rev bs @ F) D' (U - set bs) \<and> keeps st st' (U - set bs)"
  using assms
proof (induction bs arbitrary: st p F D U n)
  case Nil
  then show ?case by auto
next
  case (Cons b bs)
  have p: "p = Some b" "linked (mbcont st) (mbcont st b) bs" using Cons.prems(2) by simp_all
  obtain k where n: "n = Suc k" "length bs \<le> k" using Cons.prems(4) by (cases n) auto
  have b: "b \<in> U" "b \<notin> set bs" using Cons.prems(3) linked_distinct [OF Cons.prems(2)] by auto
  obtain st1 D1 where s1: "freeb b st = Some st1" "pool_ok cfg nd st1 (b # F) D1 (U - {b})" "keeps st st1 (U - {b})"
    "\<forall>a. mbcont st1 a = mbcont st a" by (rule freeb_ok [OF Cons.prems(1) b(1)])
  have l: "linked (mbcont st1) (mbcont st b) bs" by (rule linked_congI [OF p(2)]) (simp add: s1(4))
  have sub: "set bs \<subseteq> U - {b}" using Cons.prems(3) b(2) by auto
  obtain st' D' where r: "freemsg k (mbcont st b) st1 = Some st'" "pool_ok cfg nd st' (rev bs @ b # F) D' (U - {b} - set bs)"
    "keeps st1 st' (U - {b} - set bs)" using Cons.IH [OF s1(2) l sub n(2)] by blast
  have e: "U - {b} - set bs = U - set (b # bs)" by auto
  have "keeps st st' (U - set (b # bs))" by (rule keeps_trans [OF keeps_mono [OF s1(3)]]) (use r(3) e in auto)
  then show ?case using p n s1(1) r(1,2) e by auto
qed

end
