(* ===== verification/StreamCopy.thy ===== *)
theory StreamCopy
  imports StreamPool
begin

text \<open>
  Copying messages: \<open>dupb\<close> shares the data block, \<open>copyb\<close> copies the bytes; \<open>dupmsg\<close> and \<open>copymsg\<close> repeat them
  over a message and take everything back when a block cannot be had.
\<close>

section \<open>Sharing a data block\<close>

definition dupped :: "nat \<Rightarrow> nat \<Rightarrow> nat \<Rightarrow> strst \<Rightarrow> strstat \<Rightarrow> strst" where
  "dupped n b d st x = st\<lparr>mblock := (mblock st)(n := \<lparr>b_next = None, b_prev = None, b_cont = None,
       b_rptr = b_rptr (mblock st b), b_wptr = b_wptr (mblock st b), b_datap = Some d\<rparr>),
     dblock := (dblock st)(d := (dblock st d)\<lparr>db_ref := db_ref (dblock st d) + 1\<rparr>),
     mbfreelist := b_next (mblock st n), strst := x\<rparr>"

lemma dupped_sel [simp]:
  "mblock (dupped n b d st x) = (mblock st)(n := \<lparr>b_next = None, b_prev = None, b_cont = None,
       b_rptr = b_rptr (mblock st b), b_wptr = b_wptr (mblock st b), b_datap = Some d\<rparr>)"
  "dblock (dupped n b d st x) = (dblock st)(d := (dblock st d)\<lparr>db_ref := db_ref (dblock st d) + 1\<rparr>)"
  "mbfreelist (dupped n b d st x) = b_next (mblock st n)" "dbfreelist (dupped n b d st x) = dbfreelist st"
  "dballoc (dupped n b d st x) = dballoc st" "smem (dupped n b d st x) = smem st" "queues (dupped n b d st x) = queues st"
  "qhead (dupped n b d st x) = qhead st" "qtail (dupped n b d st x) = qtail st" "v_nqueue (dupped n b d st x) = v_nqueue st"
  "v_nblk (dupped n b d st x) = v_nblk st"
  by (simp_all add: dupped_def)

lemma msgb_all:
  "m\<lparr>b_datap := d, b_next := x, b_prev := y, b_cont := z, b_rptr := r, b_wptr := w\<rparr> =
     \<lparr>b_next = x, b_prev = y, b_cont = z, b_rptr = r, b_wptr = w, b_datap = d\<rparr>"
  by (rule msgb.equality) simp_all

lemma dupb_eq:
  assumes "mbfreelist st = Some n" "n \<noteq> b" "mbdata st b = Some d"
  obtains x where "dupb b st = Some (Some n, dupped n b d st x)"
proof -
  let ?t = "snd (the (dupb b st))"
  have "dupb b st = Some (Some n, ?t)" using assms by (simp add: dupb_def upd_mb_def Let_def)
  moreover have "?t = dupped n b d st (strst ?t)"
    by (rule strst.equality) (use assms in \<open>simp_all add: dupb_def dupped_def msgb_all Let_def upd_mb_def upd_db_def stat_mblock_def\<close>)
  ultimately show thesis using that by metis
qed

lemma u8_succ: "unat (w :: u8) < 255 \<Longrightarrow> unat (w + 1) = Suc (unat w)"
  using unat_plus_exact [of w 1] by simp

lemma dupped_keeps: "n \<notin> U \<Longrightarrow> keeps st (dupped n b d st x) U"
  by (auto simp: keeps_def same_env_def)

lemma dupped_ok:
  assumes ok: "pool_ok cfg nd st (n # F) D U" and b: "b \<in> U" "mbdata st b = Some d" and lim: "refs (mbdata st) U d < 255"
  shows "pool_ok cfg nd (dupped n b d st x) F D (insert n U)" (is "pool_ok cfg nd ?s F D ?U")
proof -
  note L = pool_listsD [OF pool_okD(1) [OF ok]]
  note P = pool_okD [OF ok]
  have n: "n \<notin> U" "n \<notin> set F" "n < nmblock cfg" using L(2,4,8) by auto
  have d: "d < nd" using P(4) [OF b(1)] b(2) by (auto simp: block_in_def)
  have pos: "0 < refs (mbdata st) U d" using refs_pos [OF L(7)] b by blast
  have r: "refs (mbdata ?s) ?U e = refs (mbdata st) U e + (if e = d then 1 else 0)" for e
  proof -
    have "refs (mbdata ?s) ?U e = refs (mbdata st) U e + (if mbdata ?s n = Some e then 1 else 0)"
      by (rule refs_insert [OF L(7) n(1)]) (use n(1) in auto)
    then show ?thesis by (simp only: dupped_sel fun_upd_same msgb.simps option.inject eq_commute [of d e])
  qed
  have zero: "refs (mbdata st) U f + (if f = d then 1 else 0) = 0 \<longleftrightarrow> refs (mbdata st) U f = 0"
    and posi: "0 < refs (mbdata st) U f + (if f = d then 1 else 0) \<longleftrightarrow> 0 < refs (mbdata st) U f" for f
    using pos by (cases "f = d"; simp)+
  have sel: "dbcls ?s e = dbcls st e" "dbnext ?s e = dbnext st e" "db_base (dblock ?s e) = db_base (dblock st e)"
    "db_lim (dblock ?s e) = db_lim (dblock st e)" for e by simp_all
  have "linked (mbnext st) (mbfreelist ?s) F" using L(1) by simp
  then have F: "linked (mbnext ?s) (mbfreelist ?s) F" by (rule linked_congI) (use n(2) in auto)
  have dl: "linked (dbnext ?s) (dbfreelist ?s c) (D c)" if "c < NCLASS" for c
    unfolding dupped_sel(4) by (rule linked_congI [OF L(5) [OF that]]) (rule sel(2))
  have ds: "set (D c) = {f. f < nd \<and> dbcls ?s f = c \<and> refs (mbdata ?s) ?U f = 0}" if "c < NCLASS" for c
    unfolding r sel zero by (rule L(6) [OF that])
  have lists: "pool_lists cfg nd ?s F D ?U" using F dl ds n L(2,3,4) by (auto simp: pool_lists_def)
  have cnt: "{f. f < nd \<and> dbcls ?s f = c \<and> 0 < refs (mbdata ?s) ?U f} = {f. f < nd \<and> dbcls st f = c \<and> 0 < refs (mbdata st) U f}" for c
    unfolding r sel posi by (rule refl)
  have "pool_counts nd ?s ?U" unfolding pool_counts_def cnt dupped_sel(5)
  proof (intro conjI allI impI)
    fix e assume e: "e < nd"
    show "dbcls ?s e < NCLASS" unfolding sel by (rule P(5) [OF e])
    show "unat (db_ref (dblock ?s e)) = refs (mbdata ?s) ?U e"
      unfolding r using P(6) [OF e] P(6) [OF d] lim u8_succ [of "db_ref (dblock st d)"] by (cases "e = d") simp_all
  qed (rule P(7))
  moreover have "pool_areas nd ?s" by (rule pool_areas_cong [OF P(3)]) simp
  moreover have "block_in nd ?s a" if "a \<in> ?U" for a
  proof (cases "a = n")
    case True
    then show ?thesis using P(4) [OF b(1)] b(2) d unfolding block_in_def sel by auto
  next
    case False
    then show ?thesis using that by (intro keeps_block_in [OF dupped_keeps [OF n(1)] _ P(4)]) auto
  qed
  ultimately show ?thesis using lists by (simp add: pool_ok_def)
qed

text \<open>A copy of a block: alone in its message, of the same type and with the same bytes.\<close>

definition block_copy :: "strst \<Rightarrow> nat \<Rightarrow> strst \<Rightarrow> nat \<Rightarrow> bool" where
  "block_copy st b st' n \<longleftrightarrow> b_next (mblock st' n) = None \<and> b_prev (mblock st' n) = None \<and> b_cont (mblock st' n) = None \<and>
     btype st' n = btype st b \<and> bytes st' n = bytes st b"

lemma dupb_ok:
  assumes ok: "pool_ok cfg nd st F D U" and b: "b \<in> U" "mbdata st b = Some d" "refs (mbdata st) U d < 255"
  shows "(F = [] \<and> (\<exists>x. dupb b st = Some (None, st\<lparr>strst := x\<rparr>))) \<or>
    (\<exists>n F' x. F = n # F' \<and> dupb b st = Some (Some n, dupped n b d st x) \<and> pool_ok cfg nd (dupped n b d st x) F' D (insert n U) \<and>
       keeps st (dupped n b d st x) U \<and> block_copy st b (dupped n b d st x) n)"
proof (cases F)
  case Nil
  then have "mbfreelist st = None" using pool_listsD(1) [OF pool_okD(1) [OF ok]] by simp
  then show ?thesis using Nil by (auto simp: dupb_def stat_mblock_def)
next
  case (Cons n F')
  have n: "mbfreelist st = Some n" "n \<notin> U" using pool_listsD(1,4) [OF pool_okD(1) [OF ok]] Cons by auto
  have nb: "n \<noteq> b" using n(2) b(1) by blast
  obtain x where x: "dupb b st = Some (Some n, dupped n b d st x)" by (rule dupb_eq [OF n(1) nb b(2)])
  have "block_copy st b (dupped n b d st x) n" using b(2) by (simp add: block_copy_def btype_def bytes_def)
  then show ?thesis using Cons x dupped_ok [OF ok [unfolded Cons] b] dupped_keeps [OF n(2)] by blast
qed

section \<open>Copying the bytes\<close>

lemma upto_shift: "map f [i + k .. j + k] = map (\<lambda>a. f (a + k)) [i .. (j :: int)]"
  by (induction i j rule: upto.induct) (subst (1 2) upto.simps, simp add: algebra_simps)

lemma straln_shift: "x mod 4 = 0 \<Longrightarrow> straln (x + k) = x + straln k"
  by (simp add: straln_def mod_add_eq [symmetric, of x k])

lemma straln_bounds: "straln a \<le> a" "a < straln a + 4" "straln a mod 4 = 0"
  by (auto simp: straln_def)

lemma straln_up: "a \<le> straln (a + 3)"
  using straln_bounds(2) [of "a + 3"] straln_bounds(3) [of "a + 3"] by presburger

lemma straln_upper: "m mod 4 = 0 \<Longrightarrow> a \<le> m \<Longrightarrow> straln (a + 3) \<le> m"
  using straln_bounds(1) [of "a + 3"] straln_bounds(3) [of "a + 3"] by presburger

lemma straln_lower: "m mod 4 = 0 \<Longrightarrow> m \<le> a \<Longrightarrow> m \<le> straln a"
  using straln_bounds(2) [of a] straln_bounds(3) [of a] by presburger

lemma rbsize_pos: "c < NCLASS \<Longrightarrow> 0 < rbsize c \<and> rbsize c mod 4 = 0"
  by (auto simp: rbsize_def less_Suc_eq numeral_eq_Suc)

text \<open>What \<open>copyb\<close> makes of a fresh block \<open>n\<close> with data \<open>e\<close>, for a block \<open>b\<close> with data \<open>d\<close>.\<close>

definition copied :: "nat \<Rightarrow> nat \<Rightarrow> nat \<Rightarrow> nat \<Rightarrow> strst \<Rightarrow> strst" where
  "copied n e b d st = (let r = db_base (dblock st e) + (b_rptr (mblock st b) - db_base (dblock st d));
      w = db_base (dblock st e) + (b_wptr (mblock st b) - db_base (dblock st d)) in
    strbcpy (straln (b_rptr (mblock st b))) (straln r) (straln (w + 3) - straln r)
      (st\<lparr>dblock := (dblock st)(e := (dblock st e)\<lparr>db_type := db_type (dblock st d)\<rparr>),
         mblock := (mblock st)(n := (mblock st n)\<lparr>b_rptr := r, b_wptr := w\<rparr>)\<rparr>))"

lemma copyb_eq:
  assumes "mbdata st b = Some d" "allocb cfg (db_lim (dblock st d) - db_base (dblock st d)) BPRI_MED st = (Some n, st1)"
    and "mbdata st1 n = Some e" "n \<noteq> b" "e \<noteq> d"
  shows "copyb cfg b st = Some (Some n, copied n e b d st1)"
  using assms by (simp add: copyb_def Let_def upd_db_def upd_mb_def copied_def)

lemma copied_smem:
  fixes st b d e defines "k \<equiv> db_base (dblock st e) - db_base (dblock st d)"
  shows "smem (copied n e b d st) a = (if straln (b_rptr (mblock st b) + k) \<le> a \<and> a < straln (b_wptr (mblock st b) + k + 3)
    then smem st (a - straln (b_rptr (mblock st b) + k) + straln (b_rptr (mblock st b))) else smem st a)"
proof -
  have four: "4 * ((straln x - straln y + 3) div 4) = straln x - straln y" for x y
    using straln_bounds(3) [of x] straln_bounds(3) [of y] by presburger
  have shift: "db_base (dblock st e) + (x - db_base (dblock st d)) = x + k" for x by (simp add: k_def)
  show ?thesis unfolding copied_def Let_def shift strbcpy_def bcopy_def four by simp
qed

lemma copied_sel [simp]:
  "mbfreelist (copied n e b d st) = mbfreelist st" "dbfreelist (copied n e b d st) = dbfreelist st"
  "dballoc (copied n e b d st) = dballoc st"
  "mblock (copied n e b d st) = (mblock st)(n := (mblock st n)\<lparr>
     b_rptr := b_rptr (mblock st b) + (db_base (dblock st e) - db_base (dblock st d)),
     b_wptr := b_wptr (mblock st b) + (db_base (dblock st e) - db_base (dblock st d))\<rparr>)"
  "dblock (copied n e b d st) = (dblock st)(e := (dblock st e)\<lparr>db_type := db_type (dblock st d)\<rparr>)"
  "queues (copied n e b d st) = queues st" "qhead (copied n e b d st) = qhead st" "qtail (copied n e b d st) = qtail st"
  "v_nqueue (copied n e b d st) = v_nqueue st" "v_nblk (copied n e b d st) = v_nblk st"
  by (simp_all add: copied_def Let_def strbcpy_def bcopy_def algebra_simps)

lemma copied_ok:
  assumes ok: "pool_ok cfg nd st F D (insert n U)" and n: "n \<notin> U" "mbdata st n = Some e" and b: "b \<in> U" "mbdata st b = Some d"
    and e: "e \<noteq> d" "\<And>a. a \<in> U \<Longrightarrow> mbdata st a \<noteq> Some e" and sz: "rbsize (dbcls st d) \<le> rbsize (dbcls st e)"
  shows "pool_ok cfg nd (copied n e b d st) F D (insert n U)" (is ?ok)
    "keeps st (copied n e b d st) U" (is ?keep)
    "btype (copied n e b d st) n = btype st b" "bytes (copied n e b d st) n = bytes st b"
proof -
  let ?s = "copied n e b d st" and ?k = "db_base (dblock st e) - db_base (dblock st d)"
  note P = pool_okD [OF ok]
  have bi: "d < nd" "db_base (dblock st d) \<le> b_rptr (mblock st b)" "b_rptr (mblock st b) \<le> b_wptr (mblock st b)"
    "b_wptr (mblock st b) \<le> db_lim (dblock st d)" using P(4) [of b] b by (auto simp: block_in_def)
  have ei: "e < nd" using P(4) [of n] n(2) by (auto simp: block_in_def)
  have nb: "n \<noteq> b" using n(1) b(1) by blast
  have A: "db_lim (dblock st f) = db_base (dblock st f) + rbsize (dbcls st f)" "db_base (dblock st f) mod 4 = 0" if "f < nd" for f
    using P(3) that unfolding pool_areas_def by blast+
  have apart: "db_lim (dblock st e) \<le> db_base (dblock st f) \<or> db_lim (dblock st f) \<le> db_base (dblock st e)" if "f < nd" "f \<noteq> e" for f
    using P(3) that ei unfolding pool_areas_def by blast
  have lim4: "db_lim (dblock st e) mod 4 = 0" using A [OF ei] rbsize_pos [OF P(5) [OF ei]] by presburger
  have k4: "?k mod 4 = 0" using A(2) [OF ei] A(2) [OF bi(1)] by presburger
  have rw: "db_base (dblock st e) \<le> b_rptr (mblock st b) + ?k" "b_wptr (mblock st b) + ?k \<le> db_lim (dblock st e)"
    using bi A(1) [OF ei] A(1) [OF bi(1)] sz by linarith+
  have inside: "db_base (dblock st e) \<le> straln (b_rptr (mblock st b) + ?k)" "straln (b_wptr (mblock st b) + ?k + 3) \<le> db_lim (dblock st e)"
    using straln_lower [OF A(2) [OF ei] rw(1)] straln_upper [OF lim4 rw(2)] by simp_all
  have mem: "smem ?s a = smem st a" if "a < db_base (dblock st e) \<or> db_lim (dblock st e) \<le> a" for a
    using that inside by (auto simp: copied_smem)
  show keep: ?keep
    unfolding keeps_def
  proof (intro conjI ballI allI impI)
    show "same_env st ?s" by (simp add: same_env_def)
    fix a assume a: "a \<in> U"
    show "mblock ?s a = mblock st a" using a n(1) by auto
    fix f assume f: "mbdata st a = Some f"
    have "f < nd" "f \<noteq> e" using P(4) [of a] a f e(2) [OF a] by (auto simp: block_in_def)
    then show "db_type (dblock ?s f) = db_type (dblock st f)" by simp
    fix x assume "db_base (dblock st f) \<le> x \<and> x < db_lim (dblock st f)"
    then show "smem ?s x = smem st x" using apart [OF \<open>f < nd\<close> \<open>f \<noteq> e\<close>] by (intro mem) auto
  qed
  show ?ok
  proof (rule pool_ok_cong [OF ok])
    fix a assume a: "a \<in> insert n U"
    show "block_in nd ?s a"
    proof (cases "a = n")
      case True
      then show ?thesis using rw bi(3) n(2) ei by (auto simp: block_in_def)
    next
      case False
      then show ?thesis using a by (intro keeps_block_in [OF keep _ P(4)]) auto
    qed
  qed (auto simp: n(2))
  show "btype ?s n = btype st b" using n(2) b(2) by (simp add: btype_def)
  have sa: "straln (b_rptr (mblock st b) + ?k) = straln (b_rptr (mblock st b)) + ?k"
    using straln_shift [OF k4, of "b_rptr (mblock st b)"] by (simp add: add.commute)
  have "bytes ?s n = map (smem ?s) [b_rptr (mblock st b) + ?k .. b_wptr (mblock st b) - 1 + ?k]" by (simp add: bytes_def algebra_simps)
  also have "\<dots> = map (\<lambda>a. smem ?s (a + ?k)) [b_rptr (mblock st b) .. b_wptr (mblock st b) - 1]" by (rule upto_shift)
  also have "\<dots> = map (smem st) [b_rptr (mblock st b) .. b_wptr (mblock st b) - 1]"
  proof (rule map_cong [OF refl])
    fix a assume "a \<in> set [b_rptr (mblock st b) .. b_wptr (mblock st b) - 1]"
    then have a: "b_rptr (mblock st b) \<le> a" "a < b_wptr (mblock st b)" by auto
    have "straln (b_rptr (mblock st b) + ?k) \<le> a + ?k" using a(1) straln_bounds(1) [of "b_rptr (mblock st b) + ?k"] by linarith
    moreover have "a + ?k < straln (b_wptr (mblock st b) + ?k + 3)" using a(2) straln_up [of "b_wptr (mblock st b) + ?k"] by linarith
    moreover have eq: "a + ?k - straln (b_rptr (mblock st b) + ?k) + straln (b_rptr (mblock st b)) = a" using sa by linarith
    ultimately show "smem ?s (a + ?k) = smem st a" unfolding copied_smem eq by simp
  qed
  finally show "bytes ?s n = bytes st b" by (simp add: bytes_def)
qed

lemma copyb_ok:
  assumes ok: "pool_ok cfg nd st F D U" and b: "b \<in> U"
  shows "(\<exists>x. copyb cfg b st = Some (None, st\<lparr>strst := x\<rparr>)) \<or>
    (\<exists>n F' D' st'. F = n # F' \<and> copyb cfg b st = Some (Some n, st') \<and> pool_ok cfg nd st' F' D' (insert n U) \<and>
       keeps st st' U \<and> block_copy st b st' n \<and> (\<forall>a\<in>U. mbdata st a \<noteq> mbdata st' n))"
proof -
  note P = pool_okD [OF ok]
  obtain d where d: "mbdata st b = Some d" "d < nd" using P(4) [OF b] by (auto simp: block_in_def)
  have A: "db_lim (dblock st d) - db_base (dblock st d) = rbsize (dbcls st d)" using P(3) d(2) unfolding pool_areas_def by auto
  show ?thesis
  proof (cases rule: allocb_ok [OF ok, of "db_lim (dblock st d) - db_base (dblock st d)" BPRI_MED])
    case (1 x)
    then show ?thesis using d by (auto simp: copyb_def Let_def)
  next
    case (2 n F' c e ds x)
    let ?t = "allocated n c e st x"
    have n: "n \<notin> U" using pool_listsD(4) [OF P(1)] 2(2) by auto
    have nb: "n \<noteq> b" using n b by blast
    have "e \<in> set (D c)" using 2(4) by simp
    then have e: "e < nd" "dbcls st e = c" "refs (mbdata st) U e = 0" using pool_listsD(6) [OF P(1) 2(3)] by auto
    have un: "mbdata st a \<noteq> Some e" if "a \<in> U" for a using refs_pos [OF pool_listsD(7) [OF P(1)], of "mbdata st" e] e(3) that by auto
    then have ed: "e \<noteq> d" using b d(1) by blast
    have tn: "mbdata ?t n = Some e" by simp
    have same: "mbdata ?t a = mbdata st a" if "a \<in> U" for a using n that by auto
    have un': "\<And>a. a \<in> U \<Longrightarrow> mbdata ?t a \<noteq> Some e" using un same by simp
    have sz: "rbsize (dbcls ?t d) \<le> rbsize (dbcls ?t e)" using 2(5) A e(2) ed by simp
    have bd: "mbdata ?t b = Some d" using d(1) nb by simp
    note C = copied_ok [OF 2(8) n tn b bd ed un' sz]
    have run: "copyb cfg b st = Some (Some n, copied n e b d ?t)" by (rule copyb_eq [OF d(1) 2(1) tn nb ed])
    have kt: "keeps st ?t U" using n un by (auto simp: keeps_def same_env_def)
    have "block_in nd st b" by (rule P(4) [OF b])
    then have "btype ?t b = btype st b" "bytes ?t b = bytes st b" using keepsD(4) [OF kt b] keeps_bytes [OF kt b] by simp_all
    then have "block_copy st b (copied n e b d ?t) n" using C(3,4) by (simp add: block_copy_def)
    moreover have "mbdata st a \<noteq> mbdata (copied n e b d ?t) n" if "a \<in> U" for a using un [OF that] by simp
    ultimately show ?thesis using 2(2) run C(1) keeps_trans [OF kt C(2)] by blast
  qed
qed

section \<open>Copying a message\<close>

text \<open>
  The contract of \<open>dupb\<close> and \<open>copyb\<close> that \<open>dupmsg\<close> and \<open>copymsg\<close> rely on: a copy that cannot be made changes
  nothing; a copy takes the first free block and leaves every block in use as it was. \<open>room k\<close> allows \<open>k\<close>
  copies more.
\<close>

locale copier =
  fixes cfg :: strcfg and nd :: nat and cp :: "nat \<Rightarrow> strst \<Rightarrow> (ptr \<times> strst) option"
    and room :: "nat \<Rightarrow> strst \<Rightarrow> nat set \<Rightarrow> bool"
  assumes copy_one: "pool_ok cfg nd st F D U \<Longrightarrow> b \<in> U \<Longrightarrow> room (Suc k) st U \<Longrightarrow>
      (\<exists>x. cp b st = Some (None, st\<lparr>strst := x\<rparr>)) \<or>
      (\<exists>n F' D' st'. F = n # F' \<and> cp b st = Some (Some n, st') \<and> pool_ok cfg nd st' F' D' (insert n U) \<and>
         keeps st st' U \<and> block_copy st b st' n \<and> room k st' (insert n U))"
    and room_cong: "room k st U \<Longrightarrow> (\<And>b. b \<in> U \<Longrightarrow> mbdata st' b = mbdata st b) \<Longrightarrow> room k st' U"
begin

abbreviation same_data :: "strst \<Rightarrow> nat \<Rightarrow> nat \<Rightarrow> bool" where
  "same_data st b n \<equiv> btype st n = btype st b \<and> bytes st n = bytes st b"

lemma cont_ok:
  assumes "pool_ok cfg nd st F D U" "b \<in> U"
  shows "pool_ok cfg nd (upd_mb b (\<lambda>m. m\<lparr>b_cont := p\<rparr>) st) F D U"
proof -
  have "set F \<inter> U = {}" by (rule pool_listsD(4) [OF pool_okD(1) [OF assms(1)]])
  then have "\<And>a. a \<in> set F \<Longrightarrow> a \<noteq> b" using assms(2) by auto
  then show ?thesis
    by (intro pool_ok_cong [OF assms(1)]) (auto simp: upd_mb_def intro: block_in_cong [OF pool_okD(4) [OF assms(1)]])
qed

lemma cont_keeps: "b \<notin> S \<Longrightarrow> keeps st (upd_mb b (\<lambda>m. m\<lparr>b_cont := p\<rparr>) st) S"
  by (auto simp: keeps_def same_env_def upd_mb_def)

lemma same_data_keeps:
  assumes "pool_ok cfg nd st F D U" "keeps st st' U" "list_all2 (same_data st) os ns" "set os \<subseteq> U" "set ns \<subseteq> U"
  shows "list_all2 (same_data st') os ns"
proof (rule list_all2_mono [OF list.rel_mono_strong [OF assms(3)]])
  fix b n assume a: "b \<in> set os" "n \<in> set ns" "same_data st b n"
  then have "b \<in> U" "n \<in> U" using assms(4,5) by blast+
  then show "same_data st' b n"
    using a(3) keepsD(4) [OF assms(2)] keeps_bytes [OF assms(2) _ pool_okD(4) [OF assms(1)]] by simp
qed

lemma copy_rest_ok:
  assumes "pool_ok cfg nd st F D (U \<union> set ns)" "linked (mbcont st) (mbcont st bp) bs" "bp \<in> U" "set bs \<subseteq> U"
    and "linked (mbcont st) (Some h) ns" "ns \<noteq> []" "set ns \<inter> U = {}" "room (length bs) st (U \<union> set ns)"
    and "length bs \<le> n" "length ns + length bs \<le> fr" "list_all2 (same_data st) os ns" "set os \<subseteq> U"
  shows "(\<exists>st' F' D'. copy_rest cp fr n h (last ns) bp st = Some (None, st') \<and> pool_ok cfg nd st' F' D' U \<and>
           set F' = set F \<union> set ns \<and> keeps st st' U) \<or>
     (\<exists>ms st' F' D'. copy_rest cp fr n h (last ns) bp st = Some (Some h, st') \<and> linked (mbcont st') (Some h) (ns @ ms) \<and>
        pool_ok cfg nd st' F' D' (U \<union> set (ns @ ms)) \<and> set F = set F' \<union> set ms \<and> set (ns @ ms) \<inter> U = {} \<and> keeps st st' U \<and>
        list_all2 (same_data st') (os @ bs) (ns @ ms) \<and> b_next (mblock st' h) = b_next (mblock st h) \<and> b_prev (mblock st' h) = b_prev (mblock st h))"
  using assms
proof (induction bs arbitrary: st F D ns bp n os)
  case Nil
  then have "mbcont st bp = None" by simp
  then have "copy_rest cp fr n h (last ns) bp st = Some (Some h, st)" unfolding copy_rest.simps [of cp fr n] by simp
  then show ?case using Nil.prems by (intro disjI2 exI [of _ "[]"]) auto
next
  case (Cons c bs)
  note pr = Cons.prems
  have c: "mbcont st bp = Some c" "linked (mbcont st) (mbcont st c) bs" "c \<in> U" "set bs \<subseteq> U" using pr(2,4) by auto
  obtain k where n: "n = Suc k" "length bs \<le> k" using pr(9) by (cases n) auto
  have l: "last ns \<in> set ns" "last ns \<notin> U" using pr(6,7) by (auto simp: disjoint_iff)
  have room: "room (Suc (length bs)) st (U \<union> set ns)" using pr(8) by simp
  have cU: "c \<in> U \<union> set ns" using c(3) by simp
  from copy_one [OF pr(1) cU room] show ?case
  proof (elim disjE exE conjE)
    fix x assume x: "cp c st = Some (None, st\<lparr>strst := x\<rparr>)"
    let ?st1 = "st\<lparr>strst := x\<rparr>" and ?f = "\<lambda>m. m\<lparr>b_cont := None\<rparr>"
    let ?st2 = "upd_mb (last ns) ?f ?st1"
    have "pool_ok cfg nd ?st1 F D (U \<union> set ns)"
      by (rule pool_ok_cong [OF pr(1)]) (use pool_okD(4) [OF pr(1)] in \<open>auto simp: block_in_def\<close>)
    then have ok2: "pool_ok cfg nd ?st2 F D (U \<union> set ns)" by (rule cont_ok) (use l in simp)
    have "mbcont st (last ns) = None" by (rule linked_last [OF pr(5,6)])
    then have l2: "linked (mbcont ?st2) (Some h) ns" by (intro linked_congI [OF pr(5)]) (auto simp: upd_mb_def)
    have fr: "set ns \<subseteq> U \<union> set ns" "length ns \<le> fr" using pr(10) by simp_all
    obtain st' D' where r: "freemsg fr (Some h) ?st2 = Some st'" "pool_ok cfg nd st' (rev ns @ F) D' (U \<union> set ns - set ns)"
      "keeps ?st2 st' (U \<union> set ns - set ns)" using freemsg_ok [OF ok2 l2, of fr] fr by blast
    have e: "U \<union> set ns - set ns = U" using pr(7) by auto
    have "keeps st ?st1 U" by simp
    also have "keeps ?st1 ?st2 U" by (rule cont_keeps [OF l(2)])
    also have "keeps ?st2 st' U" using r(3) e by simp
    finally have "keeps st st' U" .
    moreover have "copy_rest cp fr n h (last ns) bp st = Some (None, st')"
      unfolding copy_rest.simps [of cp fr n] using x c(1) n r(1) by simp
    moreover have "set (rev ns @ F) = set F \<union> set ns" by auto
    ultimately show ?thesis using r(2) e by metis
  next
    fix nb F1 D1 st1
    assume o: "F = nb # F1" "cp c st = Some (Some nb, st1)" "pool_ok cfg nd st1 F1 D1 (insert nb (U \<union> set ns))"
      "keeps st st1 (U \<union> set ns)" "block_copy st c st1 nb" "room (length bs) st1 (insert nb (U \<union> set ns))"
    let ?f = "\<lambda>m. m\<lparr>b_cont := Some nb\<rparr>"
    let ?st2 = "upd_mb (last ns) ?f st1" and ?ns = "ns @ [nb]"
    have ins: "insert nb (U \<union> set ns) = U \<union> set ?ns" by auto
    have nbU: "nb \<notin> U \<union> set ns" using pool_listsD(4) [OF pool_okD(1) [OF pr(1)]] o(1) by auto
    have ok2: "pool_ok cfg nd ?st2 F1 D1 (U \<union> set ?ns)" by (rule cont_ok [OF o(3) [unfolded ins]]) (use l(1) in auto)
    have kU: "keeps st ?st2 U"
      by (rule keeps_trans [OF keeps_mono [OF o(4)] cont_keeps [OF l(2)]]) auto
    have l1: "linked (mbcont st1) (Some h) ns" by (rule linked_keeps [OF o(4) _ pr(5)]) auto
    have nbc: "mbcont st1 nb = None" using o(5) by (simp add: block_copy_def)
    have cont2: "mbcont ?st2 = (mbcont st1)(last ns := Some nb)" by (auto simp: upd_mb_def)
    have l2: "linked (mbcont ?st2) (Some h) ?ns"
    proof -
      obtain zs z where zs: "ns = zs @ [z]" using pr(6) by (cases ns rule: rev_cases) auto
      have "linked ((mbcont st1)(z := Some nb)) (Some h) (zs @ [z, nb])"
        by (rule linked_snoc) (use l1 zs nbc nbU in auto)
      then show ?thesis unfolding cont2 using zs by simp
    qed
    have "mbcont st1 c = mbcont st c" by (rule keepsD(2) [OF o(4)]) (use c(3) in simp)
    moreover have "c \<noteq> last ns" using c(3) l(2) by blast
    ultimately have "mbcont ?st2 c = mbcont st c" by (simp add: upd_mb_def)
    then have lb: "linked (mbcont ?st2) (mbcont ?st2 c) bs" using linked_keeps [OF kU c(4) c(2)] by simp
    have data2: "mbdata ?st2 b = mbdata st1 b" "btype ?st2 b = btype st1 b" "bytes ?st2 b = bytes st1 b" for b
      by (auto simp: upd_mb_def btype_def bytes_def)
    have room2: "room (length bs) ?st2 (U \<union> set ?ns)"
      using room_cong [OF o(6) [unfolded ins], of ?st2] data2(1) by simp
    have sd: "list_all2 (same_data ?st2) (os @ [c]) ?ns"
    proof -
      have "list_all2 (same_data st1) os ns" by (rule same_data_keeps [OF pr(1) o(4) pr(11)]) (use pr(12) in auto)
      moreover have "same_data st1 c nb"
        using o(5) keepsD(4) [OF o(4) cU] keeps_bytes [OF o(4) cU pool_okD(4) [OF pr(1) cU]] by (simp add: block_copy_def)
      ultimately show ?thesis unfolding data2 by (simp add: list_all2_appendI)
    qed
    have run: "copy_rest cp fr n h (last ns) bp st = copy_rest cp fr k h (last ?ns) c ?st2"
      unfolding copy_rest.simps [of cp fr n h "last ns"] using c(1) n o(2) by simp
    have dis: "set ?ns \<inter> U = {}" using pr(7) nbU by auto
    have hns: "h \<in> set ns" using pr(5,6) by (cases ns) auto
    have hd: "b_next (mblock ?st2 h) = b_next (mblock st h)" "b_prev (mblock ?st2 h) = b_prev (mblock st h)"
      using keepsD(1) [OF o(4), of h] hns by (auto simp: upd_mb_def)
    have len: "length ?ns + length bs \<le> fr" using pr(10) by simp
    have nn: "?ns \<noteq> []" by simp
    have "set (os @ [c]) \<subseteq> U" using pr(12) c(3) by simp
    from Cons.IH [OF ok2 lb c(3,4) l2 nn dis room2 n(2) len sd this] show ?thesis
    proof (elim disjE exE conjE)
      fix st' F' D'
      assume a: "copy_rest cp fr k h (last ?ns) c ?st2 = Some (None, st')" "pool_ok cfg nd st' F' D' U" "set F' = set F1 \<union> set ?ns" "keeps ?st2 st' U"
      then show ?thesis using run o(1) keeps_trans [OF kU a(4)] by (intro disjI1) auto
    next
      fix ms st' F' D'
      assume a: "copy_rest cp fr k h (last ?ns) c ?st2 = Some (Some h, st')" "linked (mbcont st') (Some h) (?ns @ ms)"
        "pool_ok cfg nd st' F' D' (U \<union> set (?ns @ ms))" "set F1 = set F' \<union> set ms" "set (?ns @ ms) \<inter> U = {}" "keeps ?st2 st' U"
        "list_all2 (same_data st') ((os @ [c]) @ bs) (?ns @ ms)" "b_next (mblock st' h) = b_next (mblock ?st2 h)" "b_prev (mblock st' h) = b_prev (mblock ?st2 h)"
      have "set F = set F' \<union> set (nb # ms)" using a(4) o(1) by simp
      then show ?thesis using a run hd keeps_trans [OF kU a(6)] 
        by - (rule disjI2, rule exI [of _ "nb # ms"], rule exI [of _ st'], rule exI [of _ F'], rule exI [of _ D'], simp)
    qed
  qed
qed

lemma copy_all_ok:
  assumes ok: "pool_ok cfg nd st F D U" and l: "linked (mbcont st) (Some b) bs" "set bs \<subseteq> U" and r: "room (length bs) st U" and n: "length bs \<le> n"
  shows "(\<exists>st' F' D'. copy_all cp n (Some b) st = Some (None, st') \<and> pool_ok cfg nd st' F' D' U \<and> set F' = set F \<and> keeps st st' U) \<or>
    (\<exists>h ns st' F' D'. copy_all cp n (Some b) st = Some (Some h, st') \<and> linked (mbcont st') (Some h) ns \<and>
       pool_ok cfg nd st' F' D' (U \<union> set ns) \<and> set F = set F' \<union> set ns \<and> set ns \<inter> U = {} \<and> keeps st st' U \<and>
       list_all2 (same_data st') bs ns \<and> b_next (mblock st' h) = None \<and> b_prev (mblock st' h) = None)"
proof -
  obtain bs' where bs: "bs = b # bs'" using l(1) by (cases bs) auto
  have b: "b \<in> U" "set bs' \<subseteq> U" using l(2) bs by auto
  have room: "room (Suc (length bs')) st U" using r bs by simp
  from copy_one [OF ok b(1) room] show ?thesis
  proof (elim disjE exE conjE)
    fix x assume x: "cp b st = Some (None, st\<lparr>strst := x\<rparr>)"
    have "pool_ok cfg nd (st\<lparr>strst := x\<rparr>) F D U"
      by (rule pool_ok_cong [OF ok]) (use pool_okD(4) [OF ok] in \<open>auto simp: block_in_def\<close>)
    moreover have "copy_all cp n (Some b) st = Some (None, st\<lparr>strst := x\<rparr>)" using x by (simp add: copy_all_def)
    moreover have "keeps st (st\<lparr>strst := x\<rparr>) U" by simp
    ultimately show ?thesis by blast
  next
    fix h F1 D1 st1
    assume o: "F = h # F1" "cp b st = Some (Some h, st1)" "pool_ok cfg nd st1 F1 D1 (insert h U)" "keeps st st1 U" "block_copy st b st1 h"
      "room (length bs') st1 (insert h U)"
    have hU: "h \<notin> U" using pool_listsD(4) [OF pool_okD(1) [OF ok]] o(1) by auto
    have "linked (mbcont st) (mbcont st b) bs'" using l(1) bs by simp
    then have l1: "linked (mbcont st1) (mbcont st1 b) bs'" using linked_keeps [OF o(4) b(2)] keepsD(2) [OF o(4) b(1)] by simp
    have ins: "insert h U = U \<union> set [h]" by simp
    have lh: "linked (mbcont st1) (Some h) [h]" using o(5) by (simp add: block_copy_def)
    have sd: "list_all2 (same_data st1) [b] [h]"
      using o(5) keepsD(4) [OF o(4) b(1)] keeps_bytes [OF o(4) b(1) pool_okD(4) [OF ok b(1)]] by (simp add: block_copy_def)
    have len: "length [h] + length bs' \<le> n" "length bs' \<le> n" "set [h] \<inter> U = {}" "set [b] \<subseteq> U" "[h] \<noteq> []" using n bs hU b by simp_all
    have run: "copy_all cp n (Some b) st = copy_rest cp n n h (last [h]) b st1" using o(2) by (simp add: copy_all_def)
    from copy_rest_ok [OF o(3) [unfolded ins] l1 b lh len(5,3) o(6) [unfolded ins] len(2,1) sd len(4)] show ?thesis
    proof (elim disjE exE conjE)
      fix st' F' D' assume a: "copy_rest cp n n h (last [h]) b st1 = Some (None, st')" "pool_ok cfg nd st' F' D' U" "set F' = set F1 \<union> set [h]" "keeps st1 st' U"
      have "set F' = set F" using a(3) o(1) by simp
      then show ?thesis using run a(1,2) keeps_trans [OF o(4) a(4)] by metis
    next
      fix ms st' F' D' assume a: "copy_rest cp n n h (last [h]) b st1 = Some (Some h, st')" "linked (mbcont st') (Some h) ([h] @ ms)"
        "pool_ok cfg nd st' F' D' (U \<union> set ([h] @ ms))" "set F1 = set F' \<union> set ms" "set ([h] @ ms) \<inter> U = {}" "keeps st1 st' U"
        "list_all2 (same_data st') ([b] @ bs') ([h] @ ms)" "b_next (mblock st' h) = b_next (mblock st1 h)" "b_prev (mblock st' h) = b_prev (mblock st1 h)"
      have "set F = set F' \<union> set (h # ms)" using a(4) o(1) by simp
      moreover have "b_next (mblock st' h) = None" "b_prev (mblock st' h) = None" using a(8,9) o(5) by (simp_all add: block_copy_def)
      ultimately show ?thesis using a(1,2,3,5,7) bs run keeps_trans [OF o(4) a(6)]
        by - (rule disjI2, rule exI [of _ h], rule exI [of _ "h # ms"], rule exI [of _ st'], rule exI [of _ F'], rule exI [of _ D'], simp)
    qed
  qed
qed

end

text \<open>\<open>db_ref\<close> is an \<open>unsigned char\<close>: \<open>dupb\<close> needs room below 255.\<close>

definition dup_room :: "nat \<Rightarrow> nat \<Rightarrow> strst \<Rightarrow> nat set \<Rightarrow> bool" where
  "dup_room nd k st U \<longleftrightarrow> (\<forall>d < nd. refs (mbdata st) U d + k \<le> 255)"

interpretation dup: copier cfg nd dupb "dup_room nd" for cfg nd
proof unfold_locales
  fix st F D U b k
  assume ok: "pool_ok cfg nd st F D U" and b: "b \<in> U" and r: "dup_room nd (Suc k) st U"
  obtain d where d: "mbdata st b = Some d" "d < nd" using pool_okD(4) [OF ok b] by (auto simp: block_in_def)
  have lim: "refs (mbdata st) U e + Suc k \<le> 255" if "e < nd" for e using r that by (simp add: dup_room_def)
  have fin: "finite U" by (rule pool_listsD(7) [OF pool_okD(1) [OF ok]])
  have lt: "refs (mbdata st) U d < 255" using lim [OF d(2)] by simp
  from dupb_ok [OF ok b d(1) lt]
  show "(\<exists>x. dupb b st = Some (None, st\<lparr>strst := x\<rparr>)) \<or>
      (\<exists>n F' D' st'. F = n # F' \<and> dupb b st = Some (Some n, st') \<and> pool_ok cfg nd st' F' D' (insert n U) \<and>
         keeps st st' U \<and> block_copy st b st' n \<and> dup_room nd k st' (insert n U))"
  proof (elim disjE conjE exE)
    fix n F' x
    assume a: "F = n # F'" "dupb b st = Some (Some n, dupped n b d st x)" "pool_ok cfg nd (dupped n b d st x) F' D (insert n U)"
      "keeps st (dupped n b d st x) U" "block_copy st b (dupped n b d st x) n"
    have nU: "n \<notin> U" using pool_listsD(4) [OF pool_okD(1) [OF ok]] a(1) by auto
    have le: "refs (mbdata (dupped n b d st x)) (insert n U) e \<le> refs (mbdata st) U e + 1" for e
    proof -
      have eq: "refs (mbdata (dupped n b d st x)) (insert n U) e = refs (mbdata st) U e + (if mbdata (dupped n b d st x) n = Some e then 1 else 0)"
        by (rule refs_insert [OF fin nU]) (use nU in auto)
      show ?thesis unfolding eq by simp
    qed
    have "dup_room nd k (dupped n b d st x) (insert n U)"
      unfolding dup_room_def
    proof (intro allI impI)
      fix e assume "e < nd"
      from le [of e] lim [OF this] show "refs (mbdata (dupped n b d st x)) (insert n U) e + k \<le> 255" by linarith
    qed
    with a show ?thesis by blast
  qed blast
next
  fix k st U st' assume "dup_room nd k st U" "\<And>b. b \<in> U \<Longrightarrow> mbdata st' b = mbdata st b"
  then show "dup_room nd k st' U" unfolding dup_room_def using refs_cong [of U "mbdata st'" "mbdata st"] by simp
qed

interpretation copying: copier cfg nd "copyb cfg" "\<lambda>k st U. True" for cfg nd
  by unfold_locales (use copyb_ok in blast)+

end
