(* ===== verification/StreamPull.thy ===== *)
theory StreamPull
  imports StreamCopy
begin

text \<open>
  \<open>pullupmsg\<close> and \<open>adjmsg\<close>: what they do to the bytes of a message.
\<close>

section \<open>The bytes of a message\<close>

definition msg_bytes :: "strst \<Rightarrow> nat list \<Rightarrow> u8 list" where
  "msg_bytes st bs = concat (map (bytes st) bs)"

lemma msg_bytes_simps [simp]:
  "msg_bytes st [] = []" "msg_bytes st (b # bs) = bytes st b @ msg_bytes st bs" "msg_bytes st (xs @ ys) = msg_bytes st xs @ msg_bytes st ys"
  by (simp_all add: msg_bytes_def)

lemma upto_parts: "i \<le> j \<Longrightarrow> j \<le> k \<Longrightarrow> [i .. k - 1] = [i .. j - 1] @ [j .. (k :: int) - 1]"
  using upto_split1 [of i j "k - 1"] by (cases "j = k") auto

lemma length_bytes: "b_rptr (mblock st b) \<le> b_wptr (mblock st b) \<Longrightarrow> int (length (bytes st b)) = blen st b"
  by (simp add: bytes_def)

lemma take_bytes:
  "0 \<le> m \<Longrightarrow> m \<le> blen st b \<Longrightarrow> take (nat m) (bytes st b) = map (smem st) [b_rptr (mblock st b) .. b_rptr (mblock st b) + m - 1]"
  using upto_parts [of "b_rptr (mblock st b)" "b_rptr (mblock st b) + m" "b_wptr (mblock st b)"] by (simp add: bytes_def)

lemma drop_bytes:
  "0 \<le> m \<Longrightarrow> m \<le> blen st b \<Longrightarrow> drop (nat m) (bytes st b) = map (smem st) [b_rptr (mblock st b) + m .. b_wptr (mblock st b) - 1]"
  using upto_parts [of "b_rptr (mblock st b)" "b_rptr (mblock st b) + m" "b_wptr (mblock st b)"] by (simp add: bytes_def)

lemma keeps_msg_bytes:
  assumes "keeps st st' S" "set bs \<subseteq> S" "\<And>b. b \<in> set bs \<Longrightarrow> block_in nd st b"
  shows "msg_bytes st' bs = msg_bytes st bs"
  unfolding msg_bytes_def using keeps_bytes [OF assms(1) _ assms(3)] assms(2) by (metis (no_types, lifting) map_eq_conv subsetD)

lemma msg_length:
  "(\<And>b. b \<in> set bs \<Longrightarrow> b_rptr (mblock st b) \<le> b_wptr (mblock st b)) \<Longrightarrow> int (length (msg_bytes st bs)) = sum_list (map (blen st) bs)"
  by (induction bs) (auto simp: length_bytes)

section \<open>Moving bytes to the new block\<close>

text \<open>\<open>m\<close> bytes are moved from the front of block \<open>b\<close> to the end of block \<open>nb\<close>.\<close>

definition pulled :: "nat \<Rightarrow> nat \<Rightarrow> int \<Rightarrow> strst \<Rightarrow> strst" where
  "pulled b nb m st = upd_mb b (\<lambda>p. p\<lparr>b_rptr := b_rptr p + m\<rparr>) (upd_mb nb (\<lambda>p. p\<lparr>b_wptr := b_wptr p + m\<rparr>)
     (bcopy (b_rptr (mblock st b)) (b_wptr (mblock st nb)) m st))"

lemma pulled_sel [simp]:
  "mbfreelist (pulled b nb m st) = mbfreelist st" "dbfreelist (pulled b nb m st) = dbfreelist st" "dballoc (pulled b nb m st) = dballoc st"
  "dblock (pulled b nb m st) = dblock st" "queues (pulled b nb m st) = queues st" "qhead (pulled b nb m st) = qhead st"
  "qtail (pulled b nb m st) = qtail st" "v_nqueue (pulled b nb m st) = v_nqueue st" "v_nblk (pulled b nb m st) = v_nblk st"
  "b \<noteq> nb \<Longrightarrow> mblock (pulled b nb m st) = (mblock st)(b := (mblock st b)\<lparr>b_rptr := b_rptr (mblock st b) + m\<rparr>,
      nb := (mblock st nb)\<lparr>b_wptr := b_wptr (mblock st nb) + m\<rparr>)"
  by (auto simp: pulled_def upd_mb_def bcopy_def)

lemma pulled_smem: "smem (pulled b nb m st) a = (if b_wptr (mblock st nb) \<le> a \<and> a < b_wptr (mblock st nb) + m
    then smem st (a - b_wptr (mblock st nb) + b_rptr (mblock st b)) else smem st a)"
  by (simp add: pulled_def upd_mb_def bcopy_def)

lemma pulled_ok:
  assumes ok: "pool_ok cfg nd st F D U" and b: "b \<in> U" "nb \<in> U" "b \<noteq> nb" and e: "mbdata st nb = Some e" "\<And>a. a \<in> U \<Longrightarrow> a \<noteq> nb \<Longrightarrow> mbdata st a \<noteq> Some e"
    and m: "0 \<le> m" "m \<le> blen st b" "b_wptr (mblock st nb) + m \<le> db_lim (dblock st e)"
  shows "pool_ok cfg nd (pulled b nb m st) F D U" (is ?ok) "keeps st (pulled b nb m st) (U - {b, nb})" (is ?keep)
    "bytes (pulled b nb m st) nb = bytes st nb @ take (nat m) (bytes st b)" (is ?app)
    "bytes (pulled b nb m st) b = drop (nat m) (bytes st b)" (is ?drop)
    "btype (pulled b nb m st) a = btype st a" "mbcont (pulled b nb m st) a = mbcont st a" "mbdata (pulled b nb m st) a = mbdata st a"
proof -
  let ?s = "pulled b nb m st"
  note P = pool_okD [OF ok]
  have nbi: "e < nd" "db_base (dblock st e) \<le> b_rptr (mblock st nb)" "b_rptr (mblock st nb) \<le> b_wptr (mblock st nb)"
    using P(4) [OF b(2)] e(1) by (auto simp: block_in_def)
  obtain d where d: "mbdata st b = Some d" "d < nd" "db_base (dblock st d) \<le> b_rptr (mblock st b)" "b_rptr (mblock st b) \<le> b_wptr (mblock st b)"
    "b_wptr (mblock st b) \<le> db_lim (dblock st d)" using P(4) [OF b(1)] by (auto simp: block_in_def)
  have apart: "db_lim (dblock st e) \<le> db_base (dblock st f) \<or> db_lim (dblock st f) \<le> db_base (dblock st e)" if "f < nd" "f \<noteq> e" for f
    using P(3) that nbi(1) unfolding pool_areas_def by blast
  have mem: "smem ?s a = smem st a" if "a < b_wptr (mblock st nb) \<or> db_lim (dblock st e) \<le> a" for a
    using that m(3) by (auto simp: pulled_smem)
  have area: "smem ?s a = smem st a" if "mbdata st f = Some g" "f \<in> U" "f \<noteq> nb" "db_base (dblock st g) \<le> a" "a < db_lim (dblock st g)" for f g a
  proof -
    have "g < nd" "g \<noteq> e" using P(4) [OF that(2)] that(1) e(2) [OF that(2,3)] by (auto simp: block_in_def)
    then show ?thesis using apart [of g] that(4,5) nbi by (intro mem) auto
  qed
  show ?keep unfolding keeps_def same_env_def using b(3) area by auto
  show "btype ?s a = btype st a" "mbcont ?s a = mbcont st a" "mbdata ?s a = mbdata st a" for a using b(3) by (auto simp: btype_def)
  have bin: "block_in nd ?s a" if a: "a \<in> U" for a
    using P(4) [OF a] b(3) d nbi m e(1) unfolding block_in_def by (cases "a = b"; cases "a = nb") auto
  show ?ok
  proof (rule pool_ok_cong [OF ok])
    have "set F \<inter> U = {}" by (rule pool_listsD(4) [OF P(1)])
    then show "mbnext ?s a = mbnext st a" if "a \<in> set F" for a using that b by auto
  qed (use b(3) bin in auto)
  have "bytes ?s nb = map (smem ?s) [b_rptr (mblock st nb) .. b_wptr (mblock st nb) - 1] @
      map (smem ?s) [b_wptr (mblock st nb) .. b_wptr (mblock st nb) + m - 1]"
    using upto_parts [of "b_rptr (mblock st nb)" "b_wptr (mblock st nb)" "b_wptr (mblock st nb) + m"] nbi m(1) b(3) by (simp add: bytes_def)
  also have "map (smem ?s) [b_rptr (mblock st nb) .. b_wptr (mblock st nb) - 1] = bytes st nb"
    unfolding bytes_def by (rule map_cong [OF refl]) (use mem in auto)
  also have "map (smem ?s) [b_wptr (mblock st nb) .. b_wptr (mblock st nb) + m - 1] = take (nat m) (bytes st b)"
  proof -
    define k where "k = b_wptr (mblock st nb) - b_rptr (mblock st b)"
    have "map (smem ?s) [b_rptr (mblock st b) + k .. b_rptr (mblock st b) + m - 1 + k] =
        map (\<lambda>a. smem ?s (a + k)) [b_rptr (mblock st b) .. b_rptr (mblock st b) + m - 1]" by (rule upto_shift)
    also have "\<dots> = map (smem st) [b_rptr (mblock st b) .. b_rptr (mblock st b) + m - 1]"
      by (rule map_cong [OF refl]) (auto simp: pulled_smem k_def)
    finally show ?thesis unfolding take_bytes [OF m(1,2)] by (simp add: k_def algebra_simps)
  qed
  finally show ?app .
  have "bytes ?s b = map (smem ?s) [b_rptr (mblock st b) + m .. b_wptr (mblock st b) - 1]" using b(3) by (simp add: bytes_def)
  also have "\<dots> = map (smem st) [b_rptr (mblock st b) + m .. b_wptr (mblock st b) - 1]"
  proof (rule map_cong [OF refl])
    fix a assume "a \<in> set [b_rptr (mblock st b) + m .. b_wptr (mblock st b) - 1]"
    then show "smem ?s a = smem st a" using d(3-5) m(1) by (intro area [OF d(1) b(1,3)]) auto
  qed
  finally show ?drop unfolding drop_bytes [OF m(1,2)] .
qed

lemma pull_loop_step:
  assumes "len \<noteq> 0" "b \<noteq> nb"
  shows "pull_loop (Suc k) mp nb len (Some b) st = (let m = min (blen st b) len; st3 = pulled b nb m st in
     if m \<noteq> blen st b then Some (Some b, st3)
     else do { st4 \<leftarrow> (if b \<noteq> mp then freeb b st3 else Some st3); pull_loop k mp nb (len - m) (mbcont st b) st4 })"
proof -
  have e: "b_rptr (mblock (pulled b nb m st) b) \<noteq> b_wptr (mblock (pulled b nb m st) b) \<longleftrightarrow> m \<noteq> blen st b" for m
    using assms(2) by auto
  have c: "b_cont (mblock (pulled b nb m st) b) = mbcont st b" for m using assms(2) by simp
  let ?m = "min (blen st b) len"
  have "pull_loop (Suc k) mp nb len (Some b) st = (
      if b_rptr (mblock (pulled b nb ?m st) b) \<noteq> b_wptr (mblock (pulled b nb ?m st) b) then Some (Some b, pulled b nb ?m st)
      else do { st4 \<leftarrow> (if b \<noteq> mp then freeb b (pulled b nb ?m st) else Some (pulled b nb ?m st));
        pull_loop k mp nb (len - ?m) (b_cont (mblock (pulled b nb ?m st) b)) st4 })"
    by (subst pull_loop.simps(2)) (simp only: assms(1) if_False nat.case Let_def pulled_def)
  then show ?thesis unfolding Let_def e c .
qed

lemma pull_tail_ok:
  assumes "pool_ok cfg nd st F D U" "linked (mbcont st) p bs" "set bs \<subseteq> U" "mp \<notin> set bs" "nb \<in> U" "nb \<notin> set bs"
    and "mbdata st nb = Some e" "\<And>a. a \<in> U \<Longrightarrow> a \<noteq> nb \<Longrightarrow> mbdata st a \<noteq> Some e"
    and "0 \<le> len" "len \<le> int (length (msg_bytes st bs))" "b_wptr (mblock st nb) + len \<le> db_lim (dblock st e)" "length bs \<le> n"
  shows "\<exists>xs ys st' F' D'. bs = xs @ ys \<and> pull_loop n mp nb len p st = Some (hdp ys, st') \<and> pool_ok cfg nd st' F' D' (U - set xs) \<and>
    linked (mbcont st') (hdp ys) ys \<and> set F' = set F \<union> set xs \<and> keeps st st' (U - set bs - {nb}) \<and>
    mblock st' nb = (mblock st nb)\<lparr>b_wptr := b_wptr (mblock st nb) + len\<rparr> \<and>
    bytes st' nb = bytes st nb @ take (nat len) (msg_bytes st bs) \<and> msg_bytes st' ys = drop (nat len) (msg_bytes st bs) \<and>
    btype st' nb = btype st nb \<and> (\<forall>y\<in>set ys. btype st' y = btype st y)"
  using assms
proof (induction bs arbitrary: st F D U p len n)
  case Nil
  then have "len = 0" "p = None" by simp_all
  then show ?case using Nil.prems by (intro exI [of _ "[]"] exI [of _ st] exI [of _ F] exI [of _ D]) auto
next
  case (Cons b bs)
  note pr = Cons.prems
  have p: "p = Some b" "linked (mbcont st) (mbcont st b) bs" using pr(2) by simp_all
  have b: "b \<in> U" "b \<noteq> nb" "b \<noteq> mp" "b \<notin> set bs" using pr(3,4,6) linked_distinct [OF pr(2)] by auto
  show ?case
  proof (cases "len = 0")
    case True
    have "pull_loop n mp nb len p st = Some (Some b, st)" using True p(1) by (cases n) simp_all
    then show ?thesis using True pr(1,2) p(1)
      by (intro exI [of _ "[]"] exI [of _ "b # bs"] exI [of _ st] exI [of _ F] exI [of _ D]) auto
  next
    case False
    obtain k where n: "n = Suc k" "length bs \<le> k" using pr(12) by (cases n) auto
    have bl: "0 \<le> blen st b" "int (length (bytes st b)) = blen st b"
      using pool_okD(4) [OF pr(1) b(1)] length_bytes [of st b] by (auto simp: block_in_def)
    define m where "m = min (blen st b) len"
    have m: "0 \<le> m" "m \<le> blen st b" "m \<le> len" using bl pr(9) by (simp_all add: m_def)
    let ?s = "pulled b nb m st"
    have lim: "b_wptr (mblock st nb) + m \<le> db_lim (dblock st e)" using pr(11) m(3) by simp
    note S = pulled_ok [OF pr(1) b(1) pr(5) b(2) pr(7,8) m(1,2) lim]
    have run: "pull_loop n mp nb len p st = (if m \<noteq> blen st b then Some (Some b, ?s)
       else do { st4 \<leftarrow> freeb b ?s; pull_loop k mp nb (len - m) (mbcont st b) st4 })"
      unfolding n(1) p(1) pull_loop_step [OF False b(2)] Let_def m_def [symmetric] using b(3) by simp
    have Ssub: "keeps st ?s (U - set (b # bs) - {nb})" by (rule keeps_mono [OF S(2)]) auto
    show ?thesis
    proof (cases "m = blen st b")
      case part: False
      then have ml: "m = len" "nat len < length (bytes st b)" using m bl by (simp_all add: m_def split: if_splits)
      have ys: "msg_bytes ?s bs = msg_bytes st bs"
        by (rule keeps_msg_bytes [OF S(2)]) (use pr(3,6) b(4) pool_okD(4) [OF pr(1)] in auto)
      have "linked (mbcont ?s) (Some b) (b # bs)" by (rule linked_congI [OF pr(2) [unfolded p(1)]]) (rule S(6))
      moreover have "pull_loop n mp nb len p st = Some (hdp (b # bs), ?s)" using run part by simp
      moreover have "bytes ?s nb = bytes st nb @ take (nat len) (msg_bytes st (b # bs))" using S(3) ml by simp
      moreover have "msg_bytes ?s (b # bs) = drop (nat len) (msg_bytes st (b # bs))" using S(4) ys ml by simp
      ultimately show ?thesis using S(1,5) Ssub b(2) ml(1)
        by (intro exI [of _ "[]"] exI [of _ "b # bs"] exI [of _ ?s] exI [of _ F] exI [of _ D]) auto
    next
      case all: True
      obtain st4 D4 where f: "freeb b ?s = Some st4" "pool_ok cfg nd st4 (b # F) D4 (U - {b})" "keeps ?s st4 (U - {b})"
        "\<forall>a. mbcont st4 a = mbcont ?s a" by (rule freeb_ok [OF S(1) b(1)])
      have l4: "linked (mbcont st4) (mbcont st b) bs" by (rule linked_congI [OF p(2)]) (use f(4) S(6) in metis)
      have sub: "set bs \<subseteq> U - {b}" "mp \<notin> set bs" "nb \<in> U - {b}" "nb \<notin> set bs" using pr(3-6) b(2,4) by auto
      have nb4: "mblock st4 nb = (mblock st nb)\<lparr>b_wptr := b_wptr (mblock st nb) + m\<rparr>" using keepsD(1) [OF f(3) sub(3)] b(2) by simp
      have e4: "mbdata st4 nb = Some e" using nb4 pr(7) by simp
      have u4: "mbdata st4 a \<noteq> Some e" if "a \<in> U - {b}" "a \<noteq> nb" for a
        using keepsD(3) [OF f(3) that(1)] S(7) [of a] pr(8) [of a] that by auto
      have "keeps st st4 (U - {b} - {nb})" by (rule keeps_trans [OF keeps_mono [OF S(2)] keeps_mono [OF f(3)]]) auto
      then have k4: "keeps st st4 (U - {b} - {nb})" .
      have ys: "msg_bytes st4 bs = msg_bytes st bs"
        by (rule keeps_msg_bytes [OF k4]) (use sub pr(6) pool_okD(4) [OF pr(1)] in auto)
      have len: "length (msg_bytes st (b # bs)) = length (bytes st b) + length (msg_bytes st bs)" by simp
      have l: "0 \<le> len - m" "len - m \<le> int (length (msg_bytes st4 bs))" using m(3) pr(10) all bl ys len by simp_all
      have w4: "b_wptr (mblock st4 nb) + (len - m) \<le> db_lim (dblock st4 e)"
        using nb4 pr(11) keepsD(11) [OF k4] by simp
      from Cons.IH [OF f(2) l4 sub e4 u4 l w4 n(2)] obtain xs ys st' F' D' where
        i: "bs = xs @ ys" "pull_loop k mp nb (len - m) (mbcont st b) st4 = Some (hdp ys, st')" "pool_ok cfg nd st' F' D' (U - {b} - set xs)"
          "linked (mbcont st') (hdp ys) ys" "set F' = set (b # F) \<union> set xs" "keeps st4 st' (U - {b} - set bs - {nb})"
          "mblock st' nb = (mblock st4 nb)\<lparr>b_wptr := b_wptr (mblock st4 nb) + (len - m)\<rparr>"
          "bytes st' nb = bytes st4 nb @ take (nat (len - m)) (msg_bytes st4 bs)" "msg_bytes st' ys = drop (nat (len - m)) (msg_bytes st4 bs)"
          "btype st' nb = btype st4 nb" "\<forall>y\<in>set ys. btype st' y = btype st4 y" by blast
      have e: "U - {b} - set xs = U - set (b # xs)" "U - {b} - set bs - {nb} = U - set (b # bs) - {nb}" by auto
      have kk: "keeps st st' (U - set (b # bs) - {nb})" unfolding e(2) [symmetric]
        by (rule keeps_trans [OF keeps_mono [OF k4] i(6)]) auto
      have nl: "nat len = length (bytes st b) + nat (len - m)" using all bl m by simp
      have bn: "bytes st4 nb = bytes st nb @ bytes st b"
        using keeps_bytes [OF f(3) sub(3) pool_okD(4) [OF S(1) pr(5)]] S(3) all bl by simp
      have tn: "btype st4 nb = btype st nb" using keepsD(4) [OF f(3) sub(3)] S(5) by simp
      have ty: "btype st4 y = btype st y" if "y \<in> set ys" for y
        using that i(1) sub(1,4) keepsD(4) [OF k4, of y] by auto
      have 1: "b # bs = (b # xs) @ ys" using i(1) by simp
      have 2: "pull_loop n mp nb len p st = Some (hdp ys, st')" using run all f(1) i(2) by simp
      have 3: "pool_ok cfg nd st' F' D' (U - set (b # xs))" using i(3) unfolding e(1) .
      have 4: "set F' = set F \<union> set (b # xs)" using i(5) by auto
      have 5: "mblock st' nb = (mblock st nb)\<lparr>b_wptr := b_wptr (mblock st nb) + len\<rparr>" unfolding i(7) nb4 by simp
      have 6: "bytes st' nb = bytes st nb @ take (nat len) (msg_bytes st (b # bs))" unfolding i(8) bn ys nl by simp
      have 7: "msg_bytes st' ys = drop (nat len) (msg_bytes st (b # bs))" unfolding i(9) ys nl by simp
      have 8: "btype st' nb = btype st nb" using i(10) tn by simp
      have 9: "\<forall>y\<in>set ys. btype st' y = btype st y" using i(11) ty by simp
      show ?thesis
        by (rule exI [of _ "b # xs"], rule exI [of _ ys], rule exI [of _ st'], rule exI [of _ F'], rule exI [of _ D'], intro conjI)
          (fact 1 2 3 i(4) 4 kk 5 6 7 8 9)+
    qed
  qed
qed

section \<open>The whole loop\<close>

text \<open>
  After the loop the new block \<open>nb\<close> holds the first \<open>len\<close> bytes. Either the head block \<open>mp\<close> still holds data and is
  where the loop stopped, or it is empty, and the blocks \<open>xs\<close> after it have been given back.
\<close>

lemma pull_loop_ok:
  assumes ok: "pool_ok cfg nd st F D U" and l: "linked (mbcont st) (Some mp) (mp # bs)" "set (mp # bs) \<subseteq> U" and nb: "nb \<in> U" "nb \<notin> set (mp # bs)"
    and e: "mbdata st nb = Some e" "\<And>a. a \<in> U \<Longrightarrow> a \<noteq> nb \<Longrightarrow> mbdata st a \<noteq> Some e"
    and len: "0 < len" "len \<le> int (length (msg_bytes st (mp # bs)))" "b_wptr (mblock st nb) + len \<le> db_lim (dblock st e)" "length (mp # bs) \<le> n"
  shows "\<exists>xs ys bp st' F' D'. bs = xs @ ys \<and> pull_loop n mp nb len (Some mp) st = Some (bp, st') \<and> pool_ok cfg nd st' F' D' (U - set xs) \<and>
    linked (mbcont st') (hdp ys) ys \<and> set F' = set F \<union> set xs \<and> keeps st st' (U - set (mp # bs) - {nb}) \<and>
    mblock st' nb = (mblock st nb)\<lparr>b_wptr := b_wptr (mblock st nb) + len\<rparr> \<and>
    bytes st' nb = bytes st nb @ take (nat len) (msg_bytes st (mp # bs)) \<and>
    msg_bytes st' (mp # ys) = drop (nat len) (msg_bytes st (mp # bs)) \<and>
    btype st' nb = btype st nb \<and> (\<forall>y\<in>set (mp # ys). btype st' y = btype st y) \<and>
    (if b_rptr (mblock st' mp) \<noteq> b_wptr (mblock st' mp) then xs = [] \<and> bp = Some mp \<and> mbcont st' mp = hdp ys else bp = hdp ys)"
proof -
  obtain k where n: "n = Suc k" "length bs \<le> k" using len(4) by (cases n) auto
  have mp: "mp \<in> U" "mp \<noteq> nb" "mp \<notin> set bs" using l(2) nb(2) linked_distinct [OF l(1)] by auto
  have bl: "0 \<le> blen st mp" "int (length (bytes st mp)) = blen st mp"
    using pool_okD(4) [OF ok mp(1)] length_bytes [of st mp] by (auto simp: block_in_def)
  have l0: "linked (mbcont st) (mbcont st mp) bs" using l(1) by simp
  define m where "m = min (blen st mp) len"
  have m: "0 \<le> m" "m \<le> blen st mp" "m \<le> len" using bl len(1) by (simp_all add: m_def)
  let ?s = "pulled mp nb m st"
  have lim: "b_wptr (mblock st nb) + m \<le> db_lim (dblock st e)" using len(3) m(3) by simp
  note S = pulled_ok [OF ok mp(1) nb(1) mp(2) e m(1,2) lim]
  have run: "pull_loop n mp nb len (Some mp) st = (if m \<noteq> blen st mp then Some (Some mp, ?s)
       else pull_loop k mp nb (len - m) (mbcont st mp) ?s)"
    unfolding n(1) pull_loop_step [OF less_imp_neq [OF len(1), symmetric] mp(2)] Let_def m_def [symmetric] by simp
  have ls: "linked (mbcont ?s) (mbcont st mp) bs" by (rule linked_congI [OF l0]) (rule S(6))
  have ys: "msg_bytes ?s bs = msg_bytes st bs"
    by (rule keeps_msg_bytes [OF S(2)]) (use l(2) nb(2) mp(3) pool_okD(4) [OF ok] in auto)
  show ?thesis
  proof (cases "m = blen st mp")
    case False
    then have ml: "m = len" "nat len < length (bytes st mp)" using m bl by (simp_all add: m_def split: if_splits)
    have h: "mbcont st mp = hdp bs" using l0 by (cases bs) auto
    have 2: "pull_loop n mp nb len (Some mp) st = Some (Some mp, ?s)" using run False by simp
    have 3: "pool_ok cfg nd ?s F D (U - set [])" using S(1) by simp
    have 4: "linked (mbcont ?s) (hdp bs) bs" using ls unfolding h .
    have 5: "keeps st ?s (U - set (mp # bs) - {nb})" by (rule keeps_mono [OF S(2)]) auto
    have 6: "mblock ?s nb = (mblock st nb)\<lparr>b_wptr := b_wptr (mblock st nb) + len\<rparr>" using mp(2) ml(1) by simp
    have 7: "bytes ?s nb = bytes st nb @ take (nat len) (msg_bytes st (mp # bs))" using S(3) ml by simp
    have 8: "msg_bytes ?s (mp # bs) = drop (nat len) (msg_bytes st (mp # bs))" using S(4) ys ml by simp
    have 9: "btype ?s nb = btype st nb" "\<forall>y\<in>set (mp # bs). btype ?s y = btype st y" using S(5) by simp_all
    have 10: "if b_rptr (mblock ?s mp) \<noteq> b_wptr (mblock ?s mp) then ([] :: nat list) = [] \<and> Some mp = Some mp \<and> mbcont ?s mp = hdp bs else Some mp = hdp bs"
      using mp(2) False h by simp
    have 1: "bs = [] @ bs" "set F = set F \<union> set []" by simp_all
    show ?thesis
      by (rule exI [of _ "[]"], rule exI [of _ bs], rule exI [of _ "Some mp"], rule exI [of _ ?s], rule exI [of _ F], rule exI [of _ D], intro conjI)
        (fact 1(1) 2 3 4 1(2) 5 6 7 8 9 10)+
  next
    case True
    have sub: "set bs \<subseteq> U" "mp \<notin> set bs" "nb \<notin> set bs" using l(2) nb(2) mp(3) by auto
    have e1: "mbdata ?s nb = Some e" "\<And>a. a \<in> U \<Longrightarrow> a \<noteq> nb \<Longrightarrow> mbdata ?s a \<noteq> Some e" using e S(7) by simp_all
    have l1: "0 \<le> len - m" "len - m \<le> int (length (msg_bytes ?s bs))" "b_wptr (mblock ?s nb) + (len - m) \<le> db_lim (dblock ?s e)"
      using m(3) len True bl ys mp(2) by simp_all
    from pull_tail_ok [OF S(1) ls sub(1,2) nb(1) sub(3) e1 l1 n(2)] obtain xs ys' st' F' D' where
      i: "bs = xs @ ys'" "pull_loop k mp nb (len - m) (mbcont st mp) ?s = Some (hdp ys', st')" "pool_ok cfg nd st' F' D' (U - set xs)"
        "linked (mbcont st') (hdp ys') ys'" "set F' = set F \<union> set xs" "keeps ?s st' (U - set bs - {nb})"
        "mblock st' nb = (mblock ?s nb)\<lparr>b_wptr := b_wptr (mblock ?s nb) + (len - m)\<rparr>"
        "bytes st' nb = bytes ?s nb @ take (nat (len - m)) (msg_bytes ?s bs)" "msg_bytes st' ys' = drop (nat (len - m)) (msg_bytes ?s bs)"
        "btype st' nb = btype ?s nb" "\<forall>y\<in>set ys'. btype st' y = btype ?s y" by blast
    have mpk: "mp \<in> U - set bs - {nb}" using mp by simp
    have nl: "nat len = length (bytes st mp) + nat (len - m)" using True bl m by simp
    have bm: "bytes st' mp = []" using keeps_bytes [OF i(6) mpk pool_okD(4) [OF S(1) mp(1)]] S(4) True bl by simp
    have bn: "bytes ?s nb = bytes st nb @ bytes st mp" using S(3) True bl by simp
    have em: "b_rptr (mblock st' mp) = b_wptr (mblock st' mp)" using keepsD(1) [OF i(6) mpk] mp(2) True by simp
    have 2: "pull_loop n mp nb len (Some mp) st = Some (hdp ys', st')" using run True i(2) by simp
    have 5: "keeps st st' (U - set (mp # bs) - {nb})"
      by (rule keeps_trans [OF keeps_mono [OF S(2)] keeps_mono [OF i(6)]]) auto
    have 6: "mblock st' nb = (mblock st nb)\<lparr>b_wptr := b_wptr (mblock st nb) + len\<rparr>" unfolding i(7) using mp(2) by simp
    have 7: "bytes st' nb = bytes st nb @ take (nat len) (msg_bytes st (mp # bs))" unfolding i(8) bn ys nl by simp
    have 8: "msg_bytes st' (mp # ys') = drop (nat len) (msg_bytes st (mp # bs))" unfolding nl using i(9) ys bm by simp
    have 9: "btype st' nb = btype st nb" using i(10) S(5) by simp
    have 10: "\<forall>y\<in>set (mp # ys'). btype st' y = btype st y" using i(11) S(5) keepsD(4) [OF i(6) mpk] by simp
    have 11: "if b_rptr (mblock st' mp) \<noteq> b_wptr (mblock st' mp) then xs = [] \<and> hdp ys' = Some mp \<and> mbcont st' mp = hdp ys' else hdp ys' = hdp ys'"
      using em by simp
    show ?thesis
      by (rule exI [of _ xs], rule exI [of _ ys'], rule exI [of _ "hdp ys'"], rule exI [of _ st'], rule exI [of _ F'], rule exI [of _ D'], intro conjI)
        (fact i(1) 2 i(3,4,5) 5 6 7 8 9 10 11)+
  qed
qed

end
