(* ===== verification/StreamTrim.thy ===== *)
theory StreamTrim
  imports StreamPull
begin

text \<open>
  \<open>pullupmsg\<close> as a whole, with the exchange of the head block for the new one, and \<open>adjmsg\<close>.
\<close>

section \<open>Exchanging blocks\<close>

definition swapped :: "nat \<Rightarrow> nat \<Rightarrow> nat \<Rightarrow> strst \<Rightarrow> strst" where
  "swapped mp tmp nb st = st\<lparr>mblock := (mblock st)(tmp := mblock st mp, mp := mblock st nb, nb := (mblock st nb)\<lparr>b_datap := None\<rparr>)\<rparr>"

lemma swapped_refs:
  assumes fin: "finite U" and b: "mp \<in> U" "nb \<in> U" "tmp \<notin> U" "mp \<noteq> nb"
  shows "refs (mbdata (swapped mp tmp nb st)) (insert tmp (U - {nb})) d = refs (mbdata st) U d"
proof -
  let ?s = "swapped mp tmp nb st" and ?V = "U - {mp} - {nb}"
  have U: "U = insert mp (insert nb ?V)" "insert tmp (U - {nb}) = insert tmp (insert mp ?V)" using b by auto
  have f: "finite ?V" "mp \<notin> ?V" "nb \<notin> ?V" "mp \<notin> insert nb ?V" "tmp \<notin> insert mp ?V" using fin b by auto
  have k: "mbdata ?s a = mbdata st a" if "a \<in> ?V" for a using that b by (auto simp: swapped_def)
  have new: "mbdata ?s tmp = mbdata st mp" "mbdata ?s mp = mbdata st nb" using b by (auto simp: swapped_def)
  have 1: "refs (mbdata ?s) (insert mp ?V) d = refs (mbdata st) ?V d + (if mbdata ?s mp = Some d then 1 else 0)"
    by (rule refs_insert [OF f(1,2) k])
  have 2: "refs (mbdata ?s) (insert tmp (insert mp ?V)) d = refs (mbdata ?s) (insert mp ?V) d + (if mbdata ?s tmp = Some d then 1 else 0)"
    by (rule refs_insert) (use f in auto)
  have 3: "refs (mbdata st) (insert nb ?V) d = refs (mbdata st) ?V d + (if mbdata st nb = Some d then 1 else 0)"
    by (rule refs_insert [OF f(1,3)]) simp
  have 4: "refs (mbdata st) (insert mp (insert nb ?V)) d = refs (mbdata st) (insert nb ?V) d + (if mbdata st mp = Some d then 1 else 0)"
    by (rule refs_insert) (use f in auto)
  have "refs (mbdata st) U d = refs (mbdata st) (insert mp (insert nb ?V)) d" using U(1) by simp
  then show ?thesis unfolding U(2) 2 1 4 3 new by simp
qed

lemma swapped_ok:
  assumes ok: "pool_ok cfg nd st F D U" and b: "mp \<in> U" "nb \<in> U" "tmp \<notin> U" "mp \<noteq> nb" "tmp \<notin> set F" "tmp < nmblock cfg"
  shows "pool_ok cfg nd (swapped mp tmp nb st) F D (insert tmp (U - {nb}))" (is "pool_ok cfg nd ?s F D ?U")
proof -
  note L = pool_listsD [OF pool_okD(1) [OF ok]]
  note P = pool_okD [OF ok]
  have t: "tmp \<noteq> mp" "tmp \<noteq> nb" using b by auto
  have r: "refs (mbdata ?s) ?U d = refs (mbdata st) U d" for d by (rule swapped_refs [OF L(7) b(1-4)])
  have sel: "dblock ?s = dblock st" "dbfreelist ?s = dbfreelist st" "dballoc ?s = dballoc st" "mbfreelist ?s = mbfreelist st" by (simp_all add: swapped_def)
  have F: "linked (mbnext ?s) (mbfreelist ?s) F" unfolding sel
    by (rule linked_congI [OF L(1)]) (use L(4) b in \<open>auto simp: swapped_def\<close>)
  have lists: "pool_lists cfg nd ?s F D ?U" unfolding pool_lists_def r sel(1-3) using F L b t by auto
  have counts: "pool_counts nd ?s ?U" using P(2) unfolding pool_counts_def r sel .
  have areas: "pool_areas nd ?s" using P(3) unfolding pool_areas_def sel .
  have "block_in nd ?s a" if a: "a \<in> ?U" for a
  proof -
    define a' where "a' = (if a = tmp then mp else if a = mp then nb else a)"
    have "a' \<in> U" using a b by (auto simp: a'_def)
    moreover have "mblock ?s a = mblock st a'" using a b t by (auto simp: a'_def swapped_def)
    ultimately show ?thesis using P(4) [of a'] unfolding block_in_def sel by simp
  qed
  then show ?thesis using lists counts areas by (simp add: pool_ok_def)
qed

section \<open>Blocks in hand\<close>

lemma pool_pop:
  assumes ok: "pool_ok cfg nd st (b # F) D U"
  shows "pool_ok cfg nd (st\<lparr>mbfreelist := b_next (mblock st b)\<rparr>) F D U"
proof -
  note L = pool_listsD [OF pool_okD(1) [OF ok]]
  have "pool_lists cfg nd (st\<lparr>mbfreelist := b_next (mblock st b)\<rparr>) F D U" using L by (auto simp: pool_lists_def)
  moreover have "block_in nd (st\<lparr>mbfreelist := b_next (mblock st b)\<rparr>) a" if "a \<in> U" for a using pool_okD(4) [OF ok that] by (simp add: block_in_def)
  moreover have "pool_counts nd (st\<lparr>mbfreelist := b_next (mblock st b)\<rparr>) U" using pool_okD(2) [OF ok] by (simp add: pool_counts_def)
  moreover have "pool_areas nd (st\<lparr>mbfreelist := b_next (mblock st b)\<rparr>)" by (rule pool_areas_cong [OF pool_okD(3) [OF ok]]) simp
  ultimately show ?thesis by (simp add: pool_ok_def)
qed

lemma mb_return_ok:
  assumes ok: "pool_ok cfg nd st F D U" and b: "b \<notin> U" "b \<notin> set F" "b < nmblock cfg"
  shows "pool_ok cfg nd (mb_return b st) (b # F) D U" "keeps st (mb_return b st) U"
proof -
  let ?s = "mb_return b st"
  note L = pool_listsD [OF pool_okD(1) [OF ok]]
  note P = pool_okD [OF ok]
  have sel: "mblock ?s = (mblock st)(b := (mblock st b)\<lparr>b_next := mbfreelist st\<rparr>)" "mbfreelist ?s = Some b" "dblock ?s = dblock st"
    "dbfreelist ?s = dbfreelist st" "dballoc ?s = dballoc st"
    by (auto simp: mb_return_def upd_mb_def)
  have r: "refs (mbdata ?s) U d = refs (mbdata st) U d" for d by (rule refs_cong) (simp add: sel(1))
  have "linked (mbnext ?s) (mbfreelist st) F" by (rule linked_congI [OF L(1)]) (use b(2) sel(1) in auto)
  then have F: "linked (mbnext ?s) (mbfreelist ?s) (b # F)" using sel(1,2) by simp
  show k: "keeps st ?s U" using b(1) by (auto simp: keeps_def same_env_def mb_return_def upd_mb_def)
  have lists: "pool_lists cfg nd ?s (b # F) D U" unfolding pool_lists_def r sel(3,4) using F L b by auto
  have counts: "pool_counts nd ?s U" using P(2) unfolding pool_counts_def r sel(3,5) .
  have areas: "pool_areas nd ?s" using P(3) unfolding pool_areas_def sel(3) .
  show "pool_ok cfg nd ?s (b # F) D U" using lists counts areas keeps_block_in [OF k _ P(4)] by (simp add: pool_ok_def)
qed

section \<open>Sizes\<close>

lemma xmsgsize_from_ok:
  assumes "linked (mbcont st) p bs" "length bs \<le> n" "\<And>b. b \<in> set bs \<Longrightarrow> mbdata st b \<noteq> None"
  shows "xmsgsize_from n ty p c st = Some (c + sum_list (map (blen st) (takeWhile (\<lambda>b. btype st b = Some ty) bs)))"
  using assms
proof (induction bs arbitrary: p n c)
  case (Cons b bs)
  obtain k where n: "n = Suc k" "length bs \<le> k" using Cons.prems(2) by (cases n) auto
  obtain t where t: "btype st b = Some t" using Cons.prems(3) [of b] by (auto simp: btype_def)
  have p: "p = Some b" "linked (mbcont st) (mbcont st b) bs" using Cons.prems(1) by simp_all
  have "xmsgsize_from k ty (mbcont st b) (c + blen st b) st =
      Some (c + blen st b + sum_list (map (blen st) (takeWhile (\<lambda>b. btype st b = Some ty) bs)))"
    by (rule Cons.IH [OF p(2) n(2)]) (use Cons.prems(3) in simp)
  then show ?case using n p t by auto
qed simp

lemma pool_walk:
  assumes "pool_ok cfg nd st F D U" "linked (mbcont st) p bs" "set bs \<subseteq> U"
  shows "length bs \<le> nmblock cfg" "b \<in> set bs \<Longrightarrow> block_in nd st b" "b \<in> set bs \<Longrightarrow> mbdata st b \<noteq> None"
    "b \<in> set bs \<Longrightarrow> b_rptr (mblock st b) \<le> b_wptr (mblock st b)"
proof -
  show "length bs \<le> nmblock cfg"
    by (rule linked_length [OF assms(2)]) (use assms(3) pool_listsD(3) [OF pool_okD(1) [OF assms(1)]] in auto)
  show "block_in nd st b" "mbdata st b \<noteq> None" "b_rptr (mblock st b) \<le> b_wptr (mblock st b)" if "b \<in> set bs"
    using pool_okD(4) [OF assms(1), of b] assms(3) that by (auto simp: block_in_def)
qed

text \<open>The leading blocks of the type of the first.\<close>

definition lead :: "strst \<Rightarrow> nat list \<Rightarrow> nat list" where
  "lead st bs = (case bs of [] \<Rightarrow> [] | b # _ \<Rightarrow> takeWhile (\<lambda>c. btype st c = btype st b) bs)"

lemma xmsgsize_ok:
  assumes "pool_ok cfg nd st F D U" "linked (mbcont st) (Some b) bs" "set bs \<subseteq> U"
  shows "xmsgsize cfg b st = Some (int (length (msg_bytes st (lead st bs))))"
proof -
  obtain bs' where bs: "bs = b # bs'" using assms(2) by (cases bs) auto
  note W = pool_walk [OF assms]
  obtain t where t: "btype st b = Some t" using W(3) [of b] bs by (auto simp: btype_def)
  have "set (lead st bs) \<subseteq> set bs" unfolding bs lead_def by (auto dest: set_takeWhileD)
  then have "int (length (msg_bytes st (lead st bs))) = sum_list (map (blen st) (lead st bs))"
    using W(4) by (intro msg_length) auto
  then show ?thesis using xmsgsize_from_ok [OF assms(2) W(1) W(3), of t 0] t by (simp add: xmsgsize_def lead_def bs)
qed

lemma lead_length: "length (msg_bytes st (lead st bs)) \<le> length (msg_bytes st bs)"
proof (cases bs)
  case (Cons b bs')
  let ?P = "\<lambda>c. btype st c = btype st b"
  have "length (msg_bytes st (takeWhile ?P bs)) \<le> length (msg_bytes st (takeWhile ?P bs @ dropWhile ?P bs))" by (simp del: takeWhile_dropWhile_id)
  then show ?thesis using Cons by (simp add: lead_def)
qed (simp add: lead_def)

section \<open>Pulling up\<close>

lemma swapped_view:
  fixes st mp tmp nb defines "s \<equiv> swapped mp tmp nb st"
  assumes "mp \<noteq> nb" "tmp \<noteq> mp" "tmp \<noteq> nb"
  shows "mblock s tmp = mblock st mp" "mblock s mp = mblock st nb" "a \<noteq> tmp \<Longrightarrow> a \<noteq> mp \<Longrightarrow> a \<noteq> nb \<Longrightarrow> mblock s a = mblock st a"
    "bytes s tmp = bytes st mp" "bytes s mp = bytes st nb" "a \<noteq> tmp \<Longrightarrow> a \<noteq> mp \<Longrightarrow> a \<noteq> nb \<Longrightarrow> bytes s a = bytes st a"
    "btype s tmp = btype st mp" "btype s mp = btype st nb"
  using assms by (simp_all add: swapped_def bytes_def btype_def)

lemma cont_view:
  "bytes (upd_mb b (\<lambda>m. m\<lparr>b_cont := p\<rparr>) st) = bytes st" "btype (upd_mb b (\<lambda>m. m\<lparr>b_cont := p\<rparr>) st) a = btype st a"
  "mblock (upd_mb b (\<lambda>m. m\<lparr>b_cont := p\<rparr>) st) a = (if a = b then (mblock st a)\<lparr>b_cont := p\<rparr> else mblock st a)"
  by (auto simp: upd_mb_def bytes_def btype_def fun_eq_iff)

lemma retype_ok:
  assumes ok: "pool_ok cfg nd st F D U" and e: "\<forall>a \<in> U - {nb}. mbdata st a \<noteq> Some e"
  shows "pool_ok cfg nd (upd_db e (\<lambda>p. p\<lparr>db_type := ty\<rparr>) st) F D U" "keeps st (upd_db e (\<lambda>p. p\<lparr>db_type := ty\<rparr>) st) (U - {nb})"
    "mblock (upd_db e (\<lambda>p. p\<lparr>db_type := ty\<rparr>) st) = mblock st" "bytes (upd_db e (\<lambda>p. p\<lparr>db_type := ty\<rparr>) st) = bytes st"
    "mbdata st nb = Some e \<Longrightarrow> btype (upd_db e (\<lambda>p. p\<lparr>db_type := ty\<rparr>) st) nb = Some ty"
proof -
  let ?s = "upd_db e (\<lambda>p. p\<lparr>db_type := ty\<rparr>) st"
  show k: "keeps st ?s (U - {nb})" using e by (auto simp: keeps_def same_env_def upd_db_def)
  show "mblock ?s = mblock st" "bytes ?s = bytes st" "mbdata st nb = Some e \<Longrightarrow> btype ?s nb = Some ty"
    by (simp_all add: upd_db_def bytes_def fun_eq_iff btype_def)
  show "pool_ok cfg nd ?s F D U"
    by (rule pool_ok_cong [OF ok]) (auto simp: upd_db_def intro: block_in_cong [OF pool_okD(4) [OF ok]])
qed

lemma pull_up_ok:
  assumes ok: "pool_ok cfg nd st F D (insert nb U)" and l: "linked (mbcont st) (Some mp) bs" "set bs \<subseteq> U"
    and f: "nb \<notin> U" "tmp \<notin> U" "tmp \<noteq> nb" "tmp \<notin> set F" "tmp < nmblock cfg" "nb \<notin> set F"
    and e: "mbdata st nb = Some e" "\<And>a. a \<in> U \<Longrightarrow> mbdata st a \<noteq> Some e" "b_rptr (mblock st nb) = db_base (dblock st e)"
      "b_wptr (mblock st nb) = db_base (dblock st e)"
    and len: "0 < len" "len \<le> int (length (msg_bytes st bs))" "len \<le> rbsize (dbcls st e)"
  shows "\<exists>bs' st' F' D'. pull_up (nmblock cfg) mp tmp nb len st = Some st' \<and> linked (mbcont st') (Some mp) bs' \<and>
    pool_ok cfg nd st' F' D' (U - set bs \<union> set bs') \<and> set F' \<union> set bs' = insert nb (insert tmp (set F \<union> set bs)) \<and>
    set bs' \<inter> (U - set bs) = {} \<and> keeps st st' (U - set bs) \<and> msg_bytes st' bs' = msg_bytes st bs \<and>
    bytes st' mp = take (nat len) (msg_bytes st bs) \<and> b_rptr (mblock st' mp) = db_base (dblock st e) \<and> btype st' mp = btype st mp"
proof -
  note P = pool_okD [OF ok]
  have enr: "e < nd" using P(4) [of nb] e(1) by (auto simp: block_in_def)
  have elim: "db_base (dblock st e) + len \<le> db_lim (dblock st e)" using P(3) enr len(3) unfolding pool_areas_def by fastforce
  obtain bs0 where bs: "bs = mp # bs0" using l(1) by (cases bs) auto
  have mp: "mp \<in> U" "mp \<noteq> nb" "mp \<noteq> tmp" using l(2) bs f by auto
  obtain ty where ty: "btype st mp = Some ty" using P(4) [of mp] mp(1) by (auto simp: block_in_def btype_def)
  let ?s0 = "upd_db e (\<lambda>p. p\<lparr>db_type := ty\<rparr>) st"
  have e0: "\<forall>a \<in> insert nb U - {nb}. mbdata st a \<noteq> Some e" using e(2) by auto
  note R = retype_ok [where nb = nb and ty = ty, OF ok e0]
  have kU: "keeps st ?s0 U" by (rule keeps_mono [OF R(2)]) (use f(1) in auto)
  have l0: "linked (mbcont ?s0) (Some mp) (mp # bs0)" using l(1) bs unfolding R(3) by simp
  have sub0: "set (mp # bs0) \<subseteq> insert nb U" "nb \<in> insert nb U" "nb \<notin> set (mp # bs0)" using l(2) bs f(1) by auto
  have e1: "mbdata ?s0 nb = Some e" "\<And>a. a \<in> insert nb U \<Longrightarrow> a \<noteq> nb \<Longrightarrow> mbdata ?s0 a \<noteq> Some e" using e(1,2) unfolding R(3) by auto
  have mb0: "msg_bytes ?s0 zs = msg_bytes st zs" for zs by (simp add: msg_bytes_def R(4))
  have len1: "len \<le> int (length (msg_bytes ?s0 (mp # bs0)))" unfolding mb0 using len(2) bs by simp
  have len2: "b_wptr (mblock ?s0 nb) + len \<le> db_lim (dblock ?s0 e)" unfolding R(3) using elim e(4) by (simp add: upd_db_def)
  have subb: "set bs \<subseteq> insert nb U" using l(2) by auto
  have len3: "length (mp # bs0) \<le> nmblock cfg" using pool_walk(1) [OF ok l(1) subb] bs by simp
  from pull_loop_ok [OF R(1) l0 sub0 e1 len(1) len1 len2 len3] obtain xs ys bp st2 F2 D2 where
    i: "bs0 = xs @ ys" "pull_loop (nmblock cfg) mp nb len (Some mp) ?s0 = Some (bp, st2)" "pool_ok cfg nd st2 F2 D2 (insert nb U - set xs)"
      "linked (mbcont st2) (hdp ys) ys" "set F2 = set F \<union> set xs" "keeps ?s0 st2 (insert nb U - set (mp # bs0) - {nb})"
      "mblock st2 nb = (mblock ?s0 nb)\<lparr>b_wptr := b_wptr (mblock ?s0 nb) + len\<rparr>"
      "bytes st2 nb = bytes ?s0 nb @ take (nat len) (msg_bytes ?s0 (mp # bs0))"
      "msg_bytes st2 (mp # ys) = drop (nat len) (msg_bytes ?s0 (mp # bs0))" "btype st2 nb = btype ?s0 nb"
      "\<forall>y\<in>set (mp # ys). btype st2 y = btype ?s0 y"
      "if b_rptr (mblock st2 mp) \<noteq> b_wptr (mblock st2 mp) then xs = [] \<and> bp = Some mp \<and> mbcont st2 mp = hdp ys else bp = hdp ys" by blast
  have dis: "mp \<notin> set xs" "mp \<notin> set ys" "set xs \<inter> set ys = {}" "set xs \<subseteq> U" "set ys \<subseteq> U" "nb \<notin> set xs" "nb \<notin> set ys" "tmp \<notin> set ys"
    using linked_distinct [OF l(1)] bs i(1) l(2) f(1,2) by auto
  let ?s5 = "swapped mp tmp nb st2"
  have seq: "upd_mb nb (\<lambda>p. p\<lparr>b_datap := None\<rparr>) (upd_mb mp (\<lambda>p. mblock (upd_mb tmp (\<lambda>p. mblock st2 mp) st2) nb) (upd_mb tmp (\<lambda>p. mblock st2 mp) st2)) = ?s5"
    using mp f(3) by (simp add: swapped_def upd_mb_def)
  have run: "pull_up (nmblock cfg) mp tmp nb len st = (case (if b_rptr (mblock ?s5 tmp) \<noteq> b_wptr (mblock ?s5 tmp) then Some (upd_mb mp (\<lambda>p. p\<lparr>b_cont := Some tmp\<rparr>) ?s5)
              else freeb tmp (upd_mb mp (\<lambda>p. p\<lparr>b_cont := bp\<rparr>) ?s5)) of None \<Rightarrow> None | Some s \<Rightarrow> Some (mb_return nb s))"
    using e(1) ty i(2) by (simp add: pull_up_def Let_def seq [symmetric] split: option.split)
  have tF: "tmp \<notin> set F2" using i(5) f(4) dis(4) f(2) by auto
  have W: "insert nb U - set xs - {nb} = U - set xs" using f(1) by auto
  have ok5: "pool_ok cfg nd ?s5 F2 D2 (insert tmp (U - set xs))"
    using swapped_ok [OF i(3) _ _ _ mp(2) tF f(5)] mp(1) dis f unfolding W by auto
  note V = swapped_view [OF mp(2) mp(3) [symmetric] f(3), where st = st2]
  have rest: "keeps st st2 (U - set bs)"
    by (rule keeps_trans [OF keeps_mono [OF kU] keeps_mono [OF i(6)]]) (use bs f(1) in auto)
  have k5: "keeps st2 ?s5 (U - {mp})"
    using f(1,2) by (auto simp: keeps_def same_env_def swapped_def)
  have nbb: "bytes st2 nb = take (nat len) (msg_bytes st bs)" unfolding i(8) mb0 bs R(4) by (simp add: bytes_def e(3,4))
  have mpr: "b_rptr (mblock st2 nb) = db_base (dblock st e)" unfolding i(7) R(3) by (simp add: e(3))
  have tyn: "btype st2 nb = btype st mp" using i(10) R(5) [OF e(1)] ty by simp
  have "map (bytes ?s5) ys = map (bytes st2) ys" by (rule map_cong [OF refl], rule V(6)) (use dis in auto)
  then have yb: "msg_bytes ?s5 ys = msg_bytes st2 ys" by (simp only: msg_bytes_def)
  have dr: "bytes st2 mp @ msg_bytes st2 ys = drop (nat len) (msg_bytes st bs)" using i(9) unfolding mb0 bs by simp
  have yn: "y \<noteq> tmp" "y \<noteq> mp" "y \<noteq> nb" if "y \<in> set ys" for y using that dis by auto
  have nbF: "nb < nmblock cfg" "nb \<notin> set F2" using pool_listsD(3) [OF P(1)] pool_listsD(4) [OF pool_okD(1) [OF i(3)]] dis(6) by auto
  show ?thesis
  proof (cases "b_rptr (mblock st2 mp) \<noteq> b_wptr (mblock st2 mp)")
    case True
    then have x: "xs = []" "mbcont st2 mp = hdp ys" using i(12) by simp_all
    let ?s6 = "upd_mb mp (\<lambda>p. p\<lparr>b_cont := Some tmp\<rparr>) ?s5"
    let ?st' = "mb_return nb ?s6" and ?bs' = "mp # tmp # ys"
    have r: "pull_up (nmblock cfg) mp tmp nb len st = Some ?st'" unfolding run V(1) using True by simp
    have ok6: "pool_ok cfg nd ?s6 F2 D2 (insert tmp U)"
      using copying.cont_ok [OF ok5, of mp "Some tmp"] mp(1) x(1) by simp
    have nbU: "nb \<notin> insert tmp U" using f(1,3) by auto
    note M = mb_return_ok [OF ok6 nbU nbF(2,1)]
    have k6: "keeps st ?s6 (U - set bs)"
      by (rule keeps_trans [OF rest keeps_trans [OF keeps_mono [OF k5] copying.cont_keeps]]) (use bs in auto)
    have k: "keeps st ?st' (U - set bs)" by (rule keeps_trans [OF k6 keeps_mono [OF M(2)]]) auto
    have c6: "mbcont ?s6 mp = Some tmp" "mbcont ?s6 tmp = hdp ys" using V(1) x(2) mp(3) by (simp_all add: cont_view)
    have c63: "mbcont ?s6 y = mbcont st2 y" if "y \<in> set ys" for y using V(3) [OF yn(1-3) [OF that]] yn(2) [OF that] by (simp add: cont_view)
    have "linked (mbcont ?s6) (hdp ys) ys" by (rule linked_congI [OF i(4)]) (rule c63)
    then have l6: "linked (mbcont ?s6) (Some mp) ?bs'" using c6(1,2) by simp
    have sub': "set ?bs' \<subseteq> insert tmp U" using mp(1) dis(5) by auto
    have lf: "linked (mbcont ?st') (Some mp) ?bs'" by (rule linked_keeps [OF M(2) sub' l6])
    have b6: "bytes ?s6 mp = bytes st2 nb" "bytes ?s6 tmp = bytes st2 mp" "msg_bytes ?s6 ys = msg_bytes st2 ys"
      using V(4,5) yb by (simp_all add: cont_view msg_bytes_def)
    have bst: "bytes ?st' a = bytes ?s6 a" if "a \<in> insert tmp U" for a by (rule keeps_bytes [OF M(2) that pool_okD(4) [OF ok6 that]])
    have mst: "msg_bytes ?st' ?bs' = msg_bytes ?s6 ?bs'"
      by (rule keeps_msg_bytes [OF M(2) sub']) (use sub' pool_okD(4) [OF ok6] in auto)
    have all: "msg_bytes ?st' ?bs' = msg_bytes st bs" unfolding mst using b6 nbb dr by (simp del: append_take_drop_id) (metis append_take_drop_id)
    have hd: "bytes ?st' mp = take (nat len) (msg_bytes st bs)" using bst [of mp] b6(1) nbb mp(1) by simp
    have mb6: "mblock ?st' mp = mblock ?s6 mp" by (rule keepsD(1) [OF M(2)]) (use mp(1) in simp)
    have rp: "b_rptr (mblock ?st' mp) = db_base (dblock st e)" unfolding mb6 cont_view(3) using V(2) mpr by simp
    have "btype ?st' mp = btype ?s6 mp" by (rule keepsD(4) [OF M(2)]) (use mp(1) in simp)
    then have tt: "btype ?st' mp = btype st mp" using V(8) tyn by (simp add: cont_view)
    have U': "U - set bs \<union> set ?bs' = insert tmp U" using bs i(1) x(1) l(2) by auto
    have okf: "pool_ok cfg nd ?st' (nb # F2) D2 (U - set bs \<union> set ?bs')" unfolding U' by (rule M(1))
    have cells: "set (nb # F2) \<union> set ?bs' = insert nb (insert tmp (set F \<union> set bs))" using i(1,5) x(1) bs by auto
    have apart: "set ?bs' \<inter> (U - set bs) = {}" using i(1) x(1) bs f(2) by auto
    show ?thesis
      by (rule exI [of _ ?bs'], rule exI [of _ ?st'], rule exI [of _ "nb # F2"], rule exI [of _ D2], intro conjI)
        (fact r lf okf cells apart k all hd rp tt)+
  next
    case False
    then have bp: "bp = hdp ys" using i(12) by simp
    let ?t6 = "upd_mb mp (\<lambda>p. p\<lparr>b_cont := hdp ys\<rparr>) ?s5" and ?bs' = "mp # ys" and ?U = "U - set xs"
    have ok6: "pool_ok cfg nd ?t6 F2 D2 (insert tmp ?U)" using copying.cont_ok [OF ok5, of mp "hdp ys"] mp(1) dis(1) by simp
    have tU: "insert tmp ?U - {tmp} = ?U" using f(2) by auto
    obtain s6 D6 where f6: "freeb tmp ?t6 = Some s6" "pool_ok cfg nd s6 (tmp # F2) D6 ?U" "keeps ?t6 s6 ?U"
      by (rule freeb_ok [OF ok6 insertI1, unfolded tU])
    let ?st' = "mb_return nb s6"
    have r: "pull_up (nmblock cfg) mp tmp nb len st = Some ?st'" unfolding run V(1) using False bp f6(1) by simp
    have nbU: "nb \<notin> ?U" "nb \<notin> set (tmp # F2)" using f(1,3) nbF(2) by auto
    note M = mb_return_ok [OF f6(2) nbU nbF(1)]
    have k6: "keeps st ?t6 (U - set bs)"
      by (rule keeps_trans [OF rest keeps_trans [OF keeps_mono [OF k5] copying.cont_keeps]]) (use bs in auto)
    have kf: "keeps ?t6 ?st' ?U" by (rule keeps_trans [OF f6(3) M(2)])
    have k: "keeps st ?st' (U - set bs)" by (rule keeps_trans [OF k6 keeps_mono [OF kf]]) (use bs i(1) in auto)
    have c6: "mbcont ?t6 mp = hdp ys" by (simp add: cont_view)
    have c63: "mbcont ?t6 y = mbcont st2 y" if "y \<in> set ys" for y using V(3) [OF yn(1-3) [OF that]] yn(2) [OF that] by (simp add: cont_view)
    have "linked (mbcont ?t6) (hdp ys) ys" by (rule linked_congI [OF i(4)]) (rule c63)
    then have l6: "linked (mbcont ?t6) (Some mp) ?bs'" using c6 by simp
    have sub': "set ?bs' \<subseteq> ?U" using mp(1) dis by auto
    have lf: "linked (mbcont ?st') (Some mp) ?bs'" by (rule linked_keeps [OF kf sub' l6])
    have b6: "bytes ?t6 mp = bytes st2 nb" "msg_bytes ?t6 ys = msg_bytes st2 ys" using V(5) yb by (simp_all add: cont_view msg_bytes_def)
    have em: "bytes st2 mp = []" using False by (simp add: bytes_def)
    have bi: "block_in nd ?t6 a" if "a \<in> ?U" for a using pool_okD(4) [OF ok6] that by simp
    have mst: "msg_bytes ?st' ?bs' = msg_bytes ?t6 ?bs'" by (rule keeps_msg_bytes [OF kf sub']) (use sub' bi in auto)
    have all: "msg_bytes ?st' ?bs' = msg_bytes st bs" unfolding mst using b6 nbb dr em by (simp del: append_take_drop_id) (metis append_take_drop_id)
    have mpU: "mp \<in> ?U" using mp(1) dis(1) by simp
    have hd: "bytes ?st' mp = take (nat len) (msg_bytes st bs)" using keeps_bytes [OF kf mpU bi [OF mpU]] b6(1) nbb by simp
    have rp: "b_rptr (mblock ?st' mp) = db_base (dblock st e)" unfolding keepsD(1) [OF kf mpU] cont_view(3) using V(2) mpr by simp
    have tt: "btype ?st' mp = btype st mp" using keepsD(4) [OF kf mpU] V(8) tyn by (simp add: cont_view)
    have U': "U - set bs \<union> set ?bs' = ?U" using bs i(1) l(2) dis by auto
    have okf: "pool_ok cfg nd ?st' (nb # tmp # F2) D6 (U - set bs \<union> set ?bs')" unfolding U' by (rule M(1))
    have cells: "set (nb # tmp # F2) \<union> set ?bs' = insert nb (insert tmp (set F \<union> set bs))" using i(1,5) bs by auto
    have apart: "set ?bs' \<inter> (U - set bs) = {}" using i(1) bs by auto
    show ?thesis
      by (rule exI [of _ ?bs'], rule exI [of _ ?st'], rule exI [of _ "nb # tmp # F2"], rule exI [of _ D6], intro conjI)
        (fact r lf okf cells apart k all hd rp tt)+
  qed
qed

lemma allocated_keeps:
  assumes ok: "pool_ok cfg nd st (b # F) D U" and c: "c < NCLASS" "D c = d # ds"
  shows "keeps st (allocated b c d st x) U" "\<forall>a\<in>U. mbdata st a \<noteq> Some d" "d < nd" "dbcls st d = c" "b \<notin> U" "b \<notin> set F"
proof -
  note L = pool_listsD [OF pool_okD(1) [OF ok]]
  show b: "b \<notin> U" "b \<notin> set F" using L(4,8) by auto
  have "d \<in> set (D c)" using c(2) by simp
  then have d: "d < nd" "dbcls st d = c" "refs (mbdata st) U d = 0" using L(6) [OF c(1)] by auto
  show "d < nd" "dbcls st d = c" by (rule d)+
  show un: "\<forall>a\<in>U. mbdata st a \<noteq> Some d" using refs_pos [OF L(7), of "mbdata st" d] d(3) by auto
  show "keeps st (allocated b c d st x) U" using b un by (auto simp: keeps_def same_env_def)
qed

text \<open>The length \<open>pullupmsg\<close> goes for.\<close>

definition pull_len :: "strst \<Rightarrow> nat list \<Rightarrow> int \<Rightarrow> int" where
  "pull_len st bs len = (if len = - 1 then int (length (msg_bytes st (lead st bs))) else len)"

definition pulled_up :: "strcfg \<Rightarrow> nat \<Rightarrow> strst \<Rightarrow> nat list \<Rightarrow> nat set \<Rightarrow> nat \<Rightarrow> nat list \<Rightarrow> int \<Rightarrow> strst \<Rightarrow> nat list \<Rightarrow> nat list \<Rightarrow> (nat \<Rightarrow> nat list) \<Rightarrow> bool" where
  "pulled_up cfg nd st F U mp bs len st' bs' F' D' \<longleftrightarrow> linked (mbcont st') (Some mp) bs' \<and> pool_ok cfg nd st' F' D' (U - set bs \<union> set bs') \<and>
     set F' \<union> set bs' = set F \<union> set bs \<and> set bs' \<inter> (U - set bs) = {} \<and> keeps st st' (U - set bs) \<and>
     msg_bytes st' bs' = msg_bytes st bs \<and> pull_len st bs len \<le> int (length (bytes st' mp)) \<and>
     str_aligned (b_rptr (mblock st' mp)) \<and> btype st' mp = btype st mp"

lemma pull_check_ok:
  assumes ok: "pool_ok cfg nd st F D U" and l: "linked (mbcont st) (Some mp) bs" "set bs \<subseteq> U"
  shows "(pull_check cfg mp len st = Some (Inl True) \<and> str_aligned (b_rptr (mblock st mp)) \<and> pull_len st bs len \<le> int (length (bytes st mp))) \<or>
    (pull_check cfg mp len st = Some (Inl False) \<and> len \<noteq> - 1 \<and> int (length (msg_bytes st (lead st bs))) < len) \<or>
    (pull_check cfg mp len st = Some (Inr (pull_len st bs len)) \<and> pull_len st bs len \<le> int (length (msg_bytes st bs)))"
proof -
  obtain bs0 where bs: "bs = mp # bs0" using l(1) by (cases bs) auto
  have b: "int (length (bytes st mp)) = blen st mp" using pool_walk(4) [OF ok l] bs by (intro length_bytes) simp
  note X = xmsgsize_ok [OF ok l]
  have le: "int (length (msg_bytes st (lead st bs))) \<le> int (length (msg_bytes st bs))" using lead_length by simp
  show ?thesis
  proof (cases "len = - 1")
    case True
    show ?thesis
    proof (cases "mbcont st mp = None \<and> str_aligned (b_rptr (mblock st mp))")
      case quick: True
      then have "bs0 = []" using l(1) bs by auto
      then show ?thesis using True quick bs by (simp add: pull_check_def pull_len_def lead_def)
    qed (use True X le in \<open>auto simp: pull_check_def pull_len_def\<close>)
  qed (use X b le in \<open>auto simp: pull_check_def pull_len_def\<close>)
qed

lemma pullupmsg_ok:
  assumes ok: "pool_ok cfg nd st F D U" and l: "linked (mbcont st) (Some mp) bs" "set bs \<subseteq> U" and pos: "0 < pull_len st bs len"
  shows "\<exists>r st' F' D'. pullupmsg cfg mp len st = Some (r, st') \<and>
    (if r then \<exists>bs'. pulled_up cfg nd st F U mp bs len st' bs' F' D'
     else pool_ok cfg nd st' F' D' U \<and> set F' = set F \<and> keeps st st' U)"
proof -
  have len: "pull_len st bs len = - 1 \<Longrightarrow> False" using pos by simp
  from pull_check_ok [OF ok l, of len] consider
    (yes) "pull_check cfg mp len st = Some (Inl True)" "str_aligned (b_rptr (mblock st mp))" "pull_len st bs len \<le> int (length (bytes st mp))"
  | (no) "pull_check cfg mp len st = Some (Inl False)"
  | (go) "pull_check cfg mp len st = Some (Inr (pull_len st bs len))" "pull_len st bs len \<le> int (length (msg_bytes st bs))" by blast
  then show ?thesis
  proof cases
    case yes
    have "U - set bs \<union> set bs = U" using l(2) by auto
    then have "pulled_up cfg nd st F U mp bs len st bs F D" using ok l(1) yes(2,3) by (simp add: pulled_up_def)
    then show ?thesis using yes(1) by (intro exI [of _ True] exI [of _ st] exI [of _ F] exI [of _ D]) (auto simp: pullupmsg_def)
  next
    case no
    then show ?thesis using ok by (intro exI [of _ False] exI [of _ st] exI [of _ F] exI [of _ D]) (simp add: pullupmsg_def)
  next
    case go
    let ?l = "pull_len st bs len"
    show ?thesis
    proof (cases F)
      case Nil
      then have "mbfreelist st = None" using pool_listsD(1) [OF pool_okD(1) [OF ok]] by simp
      then show ?thesis using go(1) ok by (intro exI [of _ False] exI [of _ st] exI [of _ F] exI [of _ D]) (simp add: pullupmsg_def)
    next
      case (Cons tmp F1)
      note L = pool_listsD [OF pool_okD(1) [OF ok [unfolded Cons]]]
      have mf: "mbfreelist st = Some tmp" using L(1) by simp
      have tmp: "tmp \<notin> U" "tmp \<notin> set F1" "tmp < nmblock cfg" using L(2,4,8) by auto
      let ?s1 = "st\<lparr>mbfreelist := b_next (mblock st tmp)\<rparr>"
      have ok1: "pool_ok cfg nd ?s1 F1 D U" by (rule pool_pop [OF ok [unfolded Cons]])
      have k1: "keeps st ?s1 U" by (simp add: keeps_def same_env_def)
      show ?thesis
      proof (cases rule: allocb_ok [OF ok1, of ?l BPRI_MED])
        case (1 x)
        let ?s2 = "?s1\<lparr>strst := x\<rparr>"
        have ok2: "pool_ok cfg nd ?s2 F1 D U"
          by (rule pool_ok_cong [OF ok1]) (use pool_okD(4) [OF ok1] in \<open>auto simp: block_in_def\<close>)
        note M = mb_return_ok [OF ok2 tmp]
        have "keeps st ?s2 U" using keeps_trans [OF k1 keeps_stat] .
        then have k: "keeps st (mb_return tmp ?s2) U" using M(2) by (rule keeps_trans)
        have "pullupmsg cfg mp len st = Some (False, mb_return tmp ?s2)" using go(1) mf 1 by (simp add: pullupmsg_def Let_def)
        then show ?thesis using M(1) k Cons
          by (intro exI [of _ False] exI [of _ "mb_return tmp ?s2"] exI [of _ "tmp # F1"] exI [of _ D]) simp
      next
        case (2 nb F2 c e ds x)
        let ?s2 = "allocated nb c e ?s1 x"
        note A = allocated_keeps [OF ok1 [unfolded 2(2)] 2(3,4)]
        have k2: "keeps st ?s2 U" by (rule keeps_trans [OF k1 A(1)])
        have l2: "linked (mbcont ?s2) (Some mp) bs" by (rule linked_keeps [OF k2 l(2,1)])
        have b2: "msg_bytes ?s2 bs = msg_bytes st bs" by (rule keeps_msg_bytes [OF k2 l(2)]) (use pool_okD(4) [OF ok] l(2) in auto)
        have f: "nb \<notin> U" "tmp \<notin> U" "tmp \<noteq> nb" "tmp \<notin> set F2" "tmp < nmblock cfg" "nb \<notin> set F2" using A(5,6) tmp 2(2) by auto
        have e: "mbdata ?s2 nb = Some e" "b_rptr (mblock ?s2 nb) = db_base (dblock ?s2 e)" "b_wptr (mblock ?s2 nb) = db_base (dblock ?s2 e)"
          "?l \<le> rbsize (dbcls ?s2 e)" using 2(5) A(4) by simp_all
        have u: "\<And>a. a \<in> U \<Longrightarrow> mbdata ?s2 a \<noteq> Some e" using keepsD(3) [OF k2] A(2) by simp
        have ll: "?l \<le> int (length (msg_bytes ?s2 bs))" unfolding b2 by (rule go(2))
        from pull_up_ok [OF 2(8) l2 l(2) f e(1) u e(2,3) pos ll e(4)] obtain bs' st' F' D' where
          r: "pull_up (nmblock cfg) mp tmp nb ?l ?s2 = Some st'" "linked (mbcont st') (Some mp) bs'" "pool_ok cfg nd st' F' D' (U - set bs \<union> set bs')"
            "set F' \<union> set bs' = insert nb (insert tmp (set F2 \<union> set bs))" "set bs' \<inter> (U - set bs) = {}" "keeps ?s2 st' (U - set bs)"
            "msg_bytes st' bs' = msg_bytes ?s2 bs" "bytes st' mp = take (nat ?l) (msg_bytes ?s2 bs)"
            "b_rptr (mblock st' mp) = db_base (dblock ?s2 e)" "btype st' mp = btype ?s2 mp" by blast
        have k: "keeps st st' (U - set bs)" by (rule keeps_trans [OF keeps_mono [OF k2] r(6)]) auto
        have "mp \<in> U" using l by (cases bs) auto
        then have ty: "btype st' mp = btype st mp" using r(10) keepsD(4) [OF k2] by simp
        have al: "str_aligned (b_rptr (mblock st' mp))"
        proof -
          have "db_base (dblock ?s2 e) mod 4 = 0" using pool_okD(3) [OF 2(8)] A(3) unfolding pool_areas_def by blast
          then show ?thesis unfolding r(9) str_aligned_def .
        qed
        have bl: "?l \<le> int (length (bytes st' mp))" unfolding r(8) b2 using go(2) pos by simp
        have cells: "set F' \<union> set bs' = set F \<union> set bs" using r(4) Cons 2(2) by auto
        have "pulled_up cfg nd st F U mp bs len st' bs' F' D'"
          unfolding pulled_up_def using r(2,3,5,7) k ty al bl cells b2 by simp
        moreover have "pullupmsg cfg mp len st = Some (True, st')" using go(1) mf 2(1) r(1) by (simp add: pullupmsg_def Let_def)
        ultimately show ?thesis by (intro exI [of _ True] exI [of _ st'] exI [of _ F'] exI [of _ D']) auto
      qed
    qed
  qed
qed

end
