(* ===== verification/StreamAdj.thy ===== *)
theory StreamAdj
  imports StreamTrim
begin

text \<open>
  \<open>adjmsg\<close>, trimming from the head and from the tail; and a small pool of buffers on which two of the
  operations are seen to go wrong.
\<close>

section \<open>Moving the ends of a block\<close>

definition ended :: "nat \<Rightarrow> int \<Rightarrow> int \<Rightarrow> strst \<Rightarrow> strst" where
  "ended b i j st = upd_mb b (\<lambda>p. p\<lparr>b_rptr := b_rptr p + i, b_wptr := b_wptr p - j\<rparr>) st"

lemma ended_ok:
  assumes ok: "pool_ok cfg nd st F D U" and b: "b \<in> U" and i: "0 \<le> i" "0 \<le> j" "i + j \<le> blen st b"
  shows "pool_ok cfg nd (ended b i j st) F D U" "keeps st (ended b i j st) (U - {b})"
    "bytes (ended b i j st) b = take (nat (blen st b - i - j)) (drop (nat i) (bytes st b))"
    "btype (ended b i j st) a = btype st a" "mbcont (ended b i j st) a = mbcont st a"
proof -
  let ?s = "ended b i j st"
  have m: "mblock ?s = (mblock st)(b := (mblock st b)\<lparr>b_rptr := b_rptr (mblock st b) + i, b_wptr := b_wptr (mblock st b) - j\<rparr>)"
    "dblock ?s = dblock st" "smem ?s = smem st" by (simp_all add: ended_def upd_mb_def)
  show k: "keeps st ?s (U - {b})" by (auto simp: keeps_def same_env_def ended_def upd_mb_def)
  show "btype ?s a = btype st a" "mbcont ?s a = mbcont st a" by (simp_all add: btype_def m)
  have bi: "block_in nd ?s b" using pool_okD(4) [OF ok b] i unfolding block_in_def m by auto
  show "pool_ok cfg nd ?s F D U"
  proof (rule pool_ok_cong [OF ok])
    fix a assume a: "a \<in> U"
    show "block_in nd ?s a" using bi keeps_block_in [OF k _ pool_okD(4) [OF ok a]] a by (cases "a = b") auto
  qed (auto simp: ended_def upd_mb_def)
  have l: "b_rptr (mblock st b) + i \<le> b_wptr (mblock st b) - j" using i by simp
  have d: "drop (nat i) (bytes st b) = map (smem st) [b_rptr (mblock st b) + i .. b_wptr (mblock st b) - 1]"
    by (rule drop_bytes) (use i in auto)
  have "[b_rptr (mblock st b) + i .. b_wptr (mblock st b) - 1] =
      [b_rptr (mblock st b) + i .. b_wptr (mblock st b) - j - 1] @ [b_wptr (mblock st b) - j .. b_wptr (mblock st b) - 1]"
    by (rule upto_parts [OF l]) (use i in simp)
  then have "take (nat (blen st b - i - j)) (drop (nat i) (bytes st b)) = map (smem st) [b_rptr (mblock st b) + i .. b_wptr (mblock st b) - j - 1]"
    unfolding d by (simp add: algebra_simps)
  then show "bytes ?s b = take (nat (blen st b - i - j)) (drop (nat i) (bytes st b))" by (simp add: bytes_def m)
qed

section \<open>Trimming from the head\<close>

lemma adj_head_ok:
  assumes "pool_ok cfg nd st F D U" "linked (mbcont st) p bs" "set bs \<subseteq> U" "0 \<le> len" "len \<le> int (length (msg_bytes st bs))" "length bs \<le> n"
  shows "\<exists>st'. adj_head n len p st = Some st' \<and> pool_ok cfg nd st' F D U \<and> keeps st st' (U - set bs) \<and>
    msg_bytes st' bs = drop (nat len) (msg_bytes st bs) \<and> (\<forall>a. btype st' a = btype st a) \<and> (\<forall>a. mbcont st' a = mbcont st a)"
  using assms
proof (induction bs arbitrary: st p len n)
  case Nil
  then show ?case by auto
next
  case (Cons b bs)
  note pr = Cons.prems
  have p: "p = Some b" "linked (mbcont st) (mbcont st b) bs" using pr(2) by simp_all
  have b: "b \<in> U" "b \<notin> set bs" "set bs \<subseteq> U" using pr(3) linked_distinct [OF pr(2)] by auto
  show ?case
  proof (cases "len = 0")
    case True
    then show ?thesis using pr(1) p(1) by (cases n) (auto intro!: exI [of _ st])
  next
    case False
    obtain k where n: "n = Suc k" "length bs \<le> k" using pr(6) by (cases n) auto
    have bl: "0 \<le> blen st b" "int (length (bytes st b)) = blen st b"
      using pool_okD(4) [OF pr(1) b(1)] length_bytes [of st b] by (auto simp: block_in_def)
    define m where "m = min (blen st b) len"
    have m: "0 \<le> m" "m \<le> blen st b" "m \<le> len" using bl pr(4) by (simp_all add: m_def)
    let ?s = "ended b m 0 st"
    have s: "?s = upd_mb b (\<lambda>p. p\<lparr>b_rptr := b_rptr p + m\<rparr>) st" by (simp add: ended_def)
    have le: "m + 0 \<le> blen st b" using m(2) by simp
    note E = ended_ok [OF pr(1) b(1) m(1) order_refl le]
    have ys: "msg_bytes ?s bs = msg_bytes st bs"
      by (rule keeps_msg_bytes [OF E(2)]) (use b pool_okD(4) [OF pr(1)] in auto)
    have hb: "bytes ?s b = drop (nat m) (bytes st b)" using E(3) bl m by (simp add: nat_diff_distrib)
    have ls: "linked (mbcont ?s) (mbcont st b) bs" by (rule linked_congI [OF p(2)]) (rule E(5))
    have l: "0 \<le> len - m" "len - m \<le> int (length (msg_bytes ?s bs))"
    proof -
      show "0 \<le> len - m" using m(3) by simp
      have "len \<le> blen st b + int (length (msg_bytes st bs))" using pr(5) bl by simp
      moreover have "m = blen st b \<or> m = len" by (simp add: m_def min_def)
      ultimately show "len - m \<le> int (length (msg_bytes ?s bs))" unfolding ys by auto
    qed
    from Cons.IH [OF E(1) ls b(3) l n(2)] obtain st' where
      r: "adj_head k (len - m) (mbcont st b) ?s = Some st'" "pool_ok cfg nd st' F D U" "keeps ?s st' (U - set bs)"
        "msg_bytes st' bs = drop (nat (len - m)) (msg_bytes ?s bs)" "\<forall>a. btype st' a = btype ?s a" "\<forall>a. mbcont st' a = mbcont ?s a" by blast
    have "adj_head (Suc k) len (Some b) st = adj_head k (len - m) (mbcont st b) ?s"
      unfolding s unfolding m_def by (subst adj_head.simps(2)) (simp only: False if_False nat.case Let_def)
    then have run: "adj_head n len p st = Some st'" using n(1) p(1) r(1) by simp
    have k: "keeps st st' (U - set (b # bs))" by (rule keeps_trans [OF keeps_mono [OF E(2)] keeps_mono [OF r(3)]]) auto
    have bU: "b \<in> U - set bs" using b by simp
    have b': "bytes st' b = drop (nat m) (bytes st b)" using keeps_bytes [OF r(3) bU pool_okD(4) [OF E(1) b(1)]] hb by simp
    have "msg_bytes st' (b # bs) = drop (nat len) (msg_bytes st (b # bs))"
    proof (cases "m = len")
      case True
      then show ?thesis using b' r(4) ys m bl by simp
    next
      case False
      then have "m = blen st b" by (simp add: m_def min_def split: if_splits)
      then have "nat len = length (bytes st b) + nat (len - m)" "nat m = length (bytes st b)" using bl m by simp_all
      then show ?thesis using b' r(4) ys by simp
    qed
    then show ?thesis using run r(2,5,6) k E(4,5) by auto
  qed
qed

lemma adjmsg_head_ok:
  assumes ok: "pool_ok cfg nd st F D U" and l: "linked (mbcont st) (Some mp) bs" "set bs \<subseteq> U" and len: "0 \<le> len"
  shows "\<exists>st'. adjmsg cfg mp len st = Some (len \<le> int (length (msg_bytes st (lead st bs))), st') \<and> pool_ok cfg nd st' F D U \<and>
    keeps st st' (U - set bs) \<and> (\<forall>a. btype st' a = btype st a) \<and> linked (mbcont st') (Some mp) bs \<and>
    msg_bytes st' bs = (if len \<le> int (length (msg_bytes st (lead st bs))) then drop (nat len) (msg_bytes st bs) else msg_bytes st bs)"
proof -
  note X = xmsgsize_ok [OF ok l] and W = pool_walk [OF ok l]
  show ?thesis
  proof (cases "len \<le> int (length (msg_bytes st (lead st bs)))")
    case True
    then have le: "len \<le> int (length (msg_bytes st bs))" using lead_length [of st bs] by simp
    from adj_head_ok [OF ok l len le W(1)] obtain st' where r: "adj_head (nmblock cfg) len (Some mp) st = Some st'"
      "pool_ok cfg nd st' F D U" "keeps st st' (U - set bs)" "msg_bytes st' bs = drop (nat len) (msg_bytes st bs)"
      "\<forall>a. btype st' a = btype st a" "\<forall>a. mbcont st' a = mbcont st a" by blast
    have "linked (mbcont st') (Some mp) bs" by (rule linked_congI [OF l(1)]) (use r(6) in simp)
    then show ?thesis using True len X r by (auto simp: adjmsg_def Let_def)
  qed (use len X ok l in \<open>auto simp: adjmsg_def Let_def\<close>)
qed

section \<open>A small pool\<close>

text \<open>Six message blocks and ten data blocks of four bytes.\<close>

definition demo_strcfg :: strcfg where
  "demo_strcfg = \<lparr>nmblock = 6, nstrevent = 2, maxsepgcnt = 0, strlofrac = 80, strmedfrac = 90, v_nstream = 1, t_minarmem = 0, t_minasmem = 0\<rparr>"

definition zero_al :: alcdat where "zero_al = \<lparr>al_use = 0, al_total = 0, al_max = 0, al_fail = 0\<rparr>"

definition demo_strboot :: strst where
  "demo_strboot = \<lparr>
     mblock = \<lambda>b. \<lparr>b_next = None, b_prev = None, b_cont = None, b_rptr = 0, b_wptr = 0, b_datap = None\<rparr>,
     dblock = \<lambda>d. \<lparr>db_freep = None, db_base = 0, db_lim = 0, db_ref = 0, db_type = 0, db_class = 0\<rparr>,
     mbfreelist = None, dbfreelist = \<lambda>c. None,
     dballoc = \<lambda>c. \<lparr>dba_cnt = 0, dba_lo = 0, dba_med = 0, dba_lop = None, dba_medp = None, dba_hip = None\<rparr>,
     strevents = \<lambda>e. \<lparr>se_func = 0, se_arg = 0, se_next = None\<rparr>, sefreelist = None, sepgcnt = 0,
     queues = \<lambda>q. zero_queue 0, qhead = None, qtail = None, qrunflag = False, queueflag = False, strbcflag = False,
     strst = \<lparr>st_queue = zero_al, st_mblock = zero_al, st_dblock = zero_al, st_dblk = \<lambda>c. zero_al\<rparr>,
     smem = \<lambda>a. 0, streams = \<lambda>i. \<lparr>sd_wrq = None, sd_rdev = 0, sd_icnt = 0\<rparr>,
     v_nqueue = 4, v_nblk = \<lambda>c. if c = 0 then 10 else 0, availrmem = 100, availsmem = 100, sptwant = 0\<rparr>"

definition demo_str :: strst where "demo_str = strinit demo_strcfg (Some 8192) demo_strboot"

text \<open>A message of two empty blocks, 5 and 4; and the same with two bytes in each.\<close>

definition demo_pair :: strst where
  "demo_pair = (let (p, s1) = allocb demo_strcfg 4 BPRI_MED demo_str; (q, s2) = allocb demo_strcfg 4 BPRI_MED s1 in the (linkb 6 (the p) (the q) s2))"

definition demo_filled :: strst where
  "demo_filled = upd_mb 4 (\<lambda>m. m\<lparr>b_wptr := b_wptr m + 2\<rparr>) (upd_mb 5 (\<lambda>m. m\<lparr>b_wptr := b_wptr m + 2\<rparr>) demo_pair)"

definition demo_pulled :: "bool \<times> strst" where "demo_pulled = the (pullupmsg demo_strcfg 5 (- 1) demo_pair)"
definition demo_cut :: "bool \<times> strst" where "demo_cut = the (adjmsg demo_strcfg 5 (- 3) demo_filled)"

lemma demo_facts:
  "fst demo_pulled" "mbcont demo_pair 5 = Some 4" "mbcont demo_pair 4 = None" "mbcont (snd demo_pulled) 5 = Some 5"
  "xmsgsize demo_strcfg 5 demo_filled = Some 4" "fst demo_cut" "xmsgsize demo_strcfg 5 (snd demo_cut) = Some 2"
  "pullupmsg demo_strcfg 5 (- 1) demo_pair \<noteq> None" "adjmsg demo_strcfg 5 (- 3) demo_filled \<noteq> None"
  by code_simp+

end
