(* ===== verification/StreamFlags.thy ===== *)
theory StreamFlags
  imports StreamQ StreamPool
begin

text \<open>
  The flags of a queue read as bits, and what the queue operations leave alone: the pool (\<open>pool_same\<close>) and the
  plumbing of the streams (\<open>plumb_same\<close>).
\<close>

section \<open>Flags\<close>

definition qflags :: "u16 set" where
  "qflags = {QENAB, QWANTR, QWANTW, QFULL, QREADR, QUSE, QNOENB}"

lemma qflags_in [simp]:
  "QENAB \<in> qflags" "QWANTR \<in> qflags" "QWANTW \<in> qflags" "QFULL \<in> qflags" "QREADR \<in> qflags" "QUSE \<in> qflags" "QNOENB \<in> qflags"
  by (simp_all add: qflags_def)

lemmas qflag_defs = QENAB_def QWANTR_def QWANTW_def QFULL_def QREADR_def QUSE_def QNOENB_def

lemma qflags_apart [simp]:
  "QENAB \<noteq> QWANTR" "QENAB \<noteq> QWANTW" "QENAB \<noteq> QFULL" "QENAB \<noteq> QREADR" "QENAB \<noteq> QNOENB"
  "QWANTR \<noteq> QENAB" "QWANTR \<noteq> QWANTW" "QWANTR \<noteq> QFULL" "QWANTR \<noteq> QREADR" "QWANTR \<noteq> QNOENB"
  "QWANTW \<noteq> QENAB" "QWANTW \<noteq> QWANTR" "QWANTW \<noteq> QFULL" "QWANTW \<noteq> QREADR" "QWANTW \<noteq> QNOENB"
  "QFULL \<noteq> QENAB" "QFULL \<noteq> QWANTR" "QFULL \<noteq> QWANTW" "QFULL \<noteq> QREADR" "QFULL \<noteq> QNOENB"
  "QREADR \<noteq> QENAB" "QREADR \<noteq> QWANTR" "QREADR \<noteq> QWANTW" "QREADR \<noteq> QFULL" "QREADR \<noteq> QNOENB"
  "QNOENB \<noteq> QENAB" "QNOENB \<noteq> QWANTR" "QNOENB \<noteq> QWANTW" "QNOENB \<noteq> QFULL" "QNOENB \<noteq> QREADR"
  by (simp_all add: qflag_defs)

lemma qflags_nonzero [simp]: "QENAB \<noteq> 0" "QWANTR \<noteq> 0" "QWANTW \<noteq> 0" "QFULL \<noteq> 0" "QREADR \<noteq> 0" "QNOENB \<noteq> 0"
  by (simp_all add: qflag_defs)

lemma qflag_bit: "w \<in> qflags \<Longrightarrow> \<exists>i < 7. w = 2 ^ i"
  unfolding qflags_def qflag_defs
  by (auto intro: exI [of _ "0::nat"] exI [of _ "1::nat"] exI [of _ "2::nat"] exI [of _ "3::nat"] exI [of _ "4::nat"]
      exI [of _ "5::nat"] exI [of _ "6::nat"])

lemma flag_ops:
  fixes f :: u16
  assumes "w \<in> qflags" "v \<in> qflags"
  shows "(f OR w) AND v \<noteq> 0 \<longleftrightarrow> w = v \<or> f AND v \<noteq> 0" "(f AND NOT w) AND v \<noteq> 0 \<longleftrightarrow> w \<noteq> v \<and> f AND v \<noteq> 0"
proof -
  obtain i j where ij: "i < 7" "w = 2 ^ i" "j < 7" "v = 2 ^ j" using assms qflag_bit by metis
  have b: "bit w k \<longleftrightarrow> k = i" "bit v k \<longleftrightarrow> k = j" for k using ij by (auto simp: bit_simps)
  then have "w = v \<longleftrightarrow> bit w j" using ij by metis
  then show "(f OR w) AND v \<noteq> 0 \<longleftrightarrow> w = v \<or> f AND v \<noteq> 0" "(f AND NOT w) AND v \<noteq> 0 \<longleftrightarrow> w \<noteq> v \<and> f AND v \<noteq> 0"
    using ij b by (auto simp: and_exp_eq_0_iff_not_bit bit_simps)
qed

lemma flag_ops0:
  fixes f :: u16
  assumes "w \<in> qflags" "v \<in> qflags"
  shows "(f OR w) AND v = 0 \<longleftrightarrow> w \<noteq> v \<and> f AND v = 0" "(f AND NOT w) AND v = 0 \<longleftrightarrow> w = v \<or> f AND v = 0"
  using flag_ops [OF assms, of f] by blast+

lemma q_on_queues: "queues (q_on w q st) = (queues st)(q := (queues st q)\<lparr>q_flag := q_flag (queues st q) OR w\<rparr>)"
  by (simp add: q_on_def upd_qu_def)

lemma q_off_queues: "queues (q_off w q st) = (queues st)(q := (queues st q)\<lparr>q_flag := q_flag (queues st q) AND NOT w\<rparr>)"
  by (simp add: q_off_def upd_qu_def)

lemma q_is_on: "w \<in> qflags \<Longrightarrow> v \<in> qflags \<Longrightarrow> q_is (q_on w q st) p v \<longleftrightarrow> p = q \<and> w = v \<or> q_is st p v"
  by (simp add: q_on_queues flag_ops)

lemma q_is_off: "w \<in> qflags \<Longrightarrow> v \<in> qflags \<Longrightarrow> q_is (q_off w q st) p v \<longleftrightarrow> \<not> (p = q \<and> w = v) \<and> q_is st p v"
  by (simp add: q_off_queues flag_ops)

lemma flag_sel [simp]:
  "mblock (q_on w q st) = mblock st" "dblock (q_on w q st) = dblock st" "qhead (q_on w q st) = qhead st" "qtail (q_on w q st) = qtail st"
  "mblock (q_off w q st) = mblock st" "dblock (q_off w q st) = dblock st" "qhead (q_off w q st) = qhead st" "qtail (q_off w q st) = qtail st"
  "q_count (queues (q_on w q st) p) = q_count (queues st p)" "q_count (queues (q_off w q st) p) = q_count (queues st p)"
  "q_hiwat (queues (q_on w q st) p) = q_hiwat (queues st p)" "q_hiwat (queues (q_off w q st) p) = q_hiwat (queues st p)"
  "q_lowat (queues (q_on w q st) p) = q_lowat (queues st p)" "q_lowat (queues (q_off w q st) p) = q_lowat (queues st p)"
  "q_first (queues (q_on w q st) p) = q_first (queues st p)" "q_first (queues (q_off w q st) p) = q_first (queues st p)"
  "q_last (queues (q_on w q st) p) = q_last (queues st p)" "q_last (queues (q_off w q st) p) = q_last (queues st p)"
  "q_link (queues (q_on w q st) p) = q_link (queues st p)" "q_link (queues (q_off w q st) p) = q_link (queues st p)"
  "q_next (queues (q_on w q st) p) = q_next (queues st p)" "q_next (queues (q_off w q st) p) = q_next (queues st p)"
  "q_qinfo (queues (q_on w q st) p) = q_qinfo (queues st p)" "q_qinfo (queues (q_off w q st) p) = q_qinfo (queues st p)"
  "v_nqueue (q_on w q st) = v_nqueue st" "v_nqueue (q_off w q st) = v_nqueue st"
  by (simp_all add: q_on_def q_off_def upd_qu_def)

section \<open>What queue operations leave alone\<close>

text \<open>The pool: everything but the links of queues between messages.\<close>

definition pool_same :: "strst \<Rightarrow> strst \<Rightarrow> bool" where
  "pool_same st st' \<longleftrightarrow> dblock st' = dblock st \<and> mbfreelist st' = mbfreelist st \<and> dbfreelist st' = dbfreelist st \<and>
     (\<forall>c. dba_cnt (dballoc st' c) = dba_cnt (dballoc st c)) \<and>
     smem st' = smem st \<and> v_nqueue st' = v_nqueue st \<and> v_nblk st' = v_nblk st \<and> (\<forall>b. mbcont st' b = mbcont st b \<and> mbdata st' b = mbdata st b \<and>
       b_rptr (mblock st' b) = b_rptr (mblock st b) \<and> b_wptr (mblock st' b) = b_wptr (mblock st b))"

lemma pool_same_refl [simp]: "pool_same st st"
  by (simp add: pool_same_def)

lemma pool_same_trans [trans]: "pool_same st st' \<Longrightarrow> pool_same st' st'' \<Longrightarrow> pool_same st st''"
  by (simp add: pool_same_def)

lemma pool_same_flag [simp]: "pool_same st (q_on w q st)" "pool_same st (q_off w q st)"
  by (simp_all add: pool_same_def q_on_def q_off_def upd_qu_def)

lemma pool_same_view:
  assumes "pool_same st st'"
  shows "mbcont st' = mbcont st" "mbdata st' = mbdata st" "btype st' b = btype st b" "queclass st' b = queclass st b" "bytes st' b = bytes st b"
    "v_nqueue st' = v_nqueue st" "dblock st' = dblock st"
  using assms by (auto simp: pool_same_def btype_def queclass_def bytes_def split: option.splits)

lemma pool_same_at:
  assumes "pool_same st st'"
  shows "mbcont st' b = mbcont st b" "mbdata st' b = mbdata st b"
  using assms by (simp_all add: pool_same_def)

lemma pool_same_ok:
  assumes "pool_ok cfg nd st F D U" "pool_same st st'" "\<forall>b\<in>set F. mblock st' b = mblock st b"
  shows "pool_ok cfg nd st' F D U"
  by (rule pool_ok_cong [OF assms(1)])
    (use assms(2,3) pool_okD(4) [OF assms(1)] in \<open>auto simp: pool_same_def block_in_def\<close>)

text \<open>The plumbing: how the queues are paired and linked, their procedures and marks.\<close>

definition plumb_same :: "strst \<Rightarrow> strst \<Rightarrow> bool" where
  "plumb_same st st' \<longleftrightarrow> v_nqueue st' = v_nqueue st \<and> (\<forall>q. q_next (queues st' q) = q_next (queues st q) \<and> q_qinfo (queues st' q) = q_qinfo (queues st q) \<and>
     q_hiwat (queues st' q) = q_hiwat (queues st q) \<and> q_lowat (queues st' q) = q_lowat (queues st q) \<and> (q_is st' q QREADR \<longleftrightarrow> q_is st q QREADR))"

lemma plumb_same_refl [simp]: "plumb_same st st"
  by (simp add: plumb_same_def)

lemma plumb_same_trans [trans]: "plumb_same st st' \<Longrightarrow> plumb_same st' st'' \<Longrightarrow> plumb_same st st''"
  by (simp add: plumb_same_def)

lemma plumb_same_flag: "w \<in> qflags \<Longrightarrow> w \<noteq> QREADR \<Longrightarrow> plumb_same st (q_on w q st)" "w \<in> qflags \<Longrightarrow> w \<noteq> QREADR \<Longrightarrow> plumb_same st (q_off w q st)"
  by (auto simp: plumb_same_def q_is_on q_is_off)

lemma plumb_same_view:
  assumes "plumb_same st st'"
  shows "srvp st' q = srvp st q" "otherq st' q = otherq st q" "backq st' q = backq st q" "v_nqueue st' = v_nqueue st"
    "q_next (queues st' q) = q_next (queues st q)" "q_hiwat (queues st' q) = q_hiwat (queues st q)" "q_lowat (queues st' q) = q_lowat (queues st q)"
  using assms unfolding plumb_same_def srvp_def backq_def otherq_def by simp_all

text \<open>Walking back, or on, along a stream ends: the distance to its end decreases.\<close>

definition ranked :: "nat \<Rightarrow> (nat \<Rightarrow> ptr) \<Rightarrow> bool" where
  "ranked n f \<longleftrightarrow> (\<exists>r :: nat \<Rightarrow> nat. \<forall>q < n. r q < n \<and> (\<forall>p. f q = Some p \<longrightarrow> p < n \<and> r p < r q))"

lemma rankedE:
  assumes "ranked n f"
  obtains r :: "nat \<Rightarrow> nat" where "\<forall>q < n. r q < n" "\<forall>q < n. \<forall>p. f q = Some p \<longrightarrow> p < n \<and> r p < r q"
proof -
  from assms obtain r :: "nat \<Rightarrow> nat" where r: "\<forall>q < n. r q < n \<and> (\<forall>p. f q = Some p \<longrightarrow> p < n \<and> r p < r q)"
    unfolding ranked_def by (elim exE)
  show thesis by (rule that [of r]) (simp_all add: r)
qed

definition plumbed :: "strst \<Rightarrow> bool" where
  "plumbed st \<longleftrightarrow> (\<forall>q < v_nqueue st. q_qinfo (queues st q) \<noteq> None) \<and> ranked (v_nqueue st) (backq st) \<and>
     ranked (v_nqueue st) (\<lambda>q. q_next (queues st q))"

lemma plumb_same_plumbed:
  assumes "plumb_same st st'" "plumbed st"
  shows "plumbed st'"
proof -
  have "backq st' = backq st" by (rule ext) (rule plumb_same_view(3) [OF assms(1)])
  moreover have "(\<lambda>q. q_next (queues st' q)) = (\<lambda>q. q_next (queues st q))" "\<forall>q. q_qinfo (queues st' q) = q_qinfo (queues st q)"
    "v_nqueue st' = v_nqueue st" using assms(1) by (simp_all add: plumb_same_def)
  ultimately show ?thesis using assms(2) by (simp add: plumbed_def)
qed

lemma plumbed_srvp: "plumbed st \<Longrightarrow> q < v_nqueue st \<Longrightarrow> \<exists>s. srvp st q = Some s"
  by (fastforce simp: plumbed_def srvp_def)

lemma back_srv_ok:
  assumes r: "\<forall>q < v_nqueue st. q_qinfo (queues st q) \<noteq> None" "\<forall>q < v_nqueue st. \<forall>p. backq st q = Some p \<longrightarrow> p < v_nqueue st \<and> r p < (r q :: nat)"
    and p: "\<forall>q. p = Some q \<longrightarrow> q < v_nqueue st \<and> r q < n"
  shows "\<exists>a. back_srv n p st = Some a \<and> (\<forall>q. a = Some q \<longrightarrow> q < v_nqueue st \<and> (\<exists>f. srvp st q = Some (Some f)))"
  using p
proof (induction n arbitrary: p)
  case 0
  then show ?case by (cases p) auto
next
  case (Suc n)
  show ?case
  proof (cases p)
    case (Some q)
    then have q: "q < v_nqueue st" "r q \<le> n" using Suc.prems by auto
    then obtain s where s: "srvp st q = Some s" using r(1) by (fastforce simp: srvp_def)
    have "\<forall>q'. backq st q = Some q' \<longrightarrow> q' < v_nqueue st \<and> r q' < n" using r(2) q by (meson order_less_le_trans)
    from Suc.IH [OF this] show ?thesis using Some s q by (cases s) auto
  qed simp
qed

lemma put_target_ok:
  assumes r: "\<forall>q < v_nqueue st. q_qinfo (queues st q) \<noteq> None"
      "\<forall>q < v_nqueue st. \<forall>p. q_next (queues st q) = Some p \<longrightarrow> p < v_nqueue st \<and> r p < (r q :: nat)"
    and q: "q < v_nqueue st" "r q \<le> n"
  shows "\<exists>t < v_nqueue st. put_target n q st = Some t"
  using q
proof (induction n arbitrary: q)
  case 0
  have "q_next (queues st q) \<noteq> Some p" for p using r(2) [rule_format, OF 0(1), of p] 0(2) by auto
  then have "q_next (queues st q) = None" by (metis not_Some_eq)
  then show ?case using 0 by (simp add: put_target.simps)
next
  case (Suc n)
  then obtain s where s: "srvp st q = Some s" using r(1) by (fastforce simp: srvp_def)
  show ?case
  proof (cases "q_next (queues st q)")
    case (Some x)
    then have "x < v_nqueue st \<and> r x < r q" using r(2) Suc.prems(1) by blast
    then have "x < v_nqueue st" "r x \<le> n" using Suc.prems(2) by simp_all
    then have "\<exists>t < v_nqueue st. put_target n x st = Some t" by (rule Suc.IH)
    then show ?thesis using Some s Suc.prems by (cases s) (simp_all add: put_target.simps [of "Suc n"])
  qed (use Suc.prems in \<open>simp add: put_target.simps\<close>)
qed

text \<open>The queue found is a queue of the table with a service procedure.\<close>

lemma plumbed_back_srv:
  assumes "plumbed st" "q < v_nqueue st"
  obtains a where "back_srv (v_nqueue st) (backq st q) st = Some a" "\<forall>p. a = Some p \<longrightarrow> p < v_nqueue st \<and> (\<exists>f. srvp st p = Some (Some f))"
proof -
  have i: "\<forall>q < v_nqueue st. q_qinfo (queues st q) \<noteq> None" and k: "ranked (v_nqueue st) (backq st)" using assms(1) by (simp_all add: plumbed_def)
  obtain r where r: "\<forall>q < v_nqueue st. r q < v_nqueue st" "\<forall>q < v_nqueue st. \<forall>p. backq st q = Some p \<longrightarrow> p < v_nqueue st \<and> r p < r q"
    by (rule rankedE [OF k])
  have "\<forall>p. backq st q = Some p \<longrightarrow> p < v_nqueue st \<and> r p < v_nqueue st" using r assms(2) by simp
  from back_srv_ok [OF i r(2) this] show thesis using that by (elim exE conjE)
qed

lemma plumbed_put_target:
  assumes "plumbed st" "q < v_nqueue st"
  obtains t where "put_target (v_nqueue st) q st = Some t" "t < v_nqueue st"
proof -
  have i: "\<forall>q < v_nqueue st. q_qinfo (queues st q) \<noteq> None" and k: "ranked (v_nqueue st) (\<lambda>q. q_next (queues st q))"
    using assms(1) by (simp_all add: plumbed_def)
  obtain r where r: "\<forall>q < v_nqueue st. r q < v_nqueue st"
    "\<forall>q < v_nqueue st. \<forall>p. q_next (queues st q) = Some p \<longrightarrow> p < v_nqueue st \<and> r p < r q" by (rule rankedE [OF k])
  have "r q \<le> v_nqueue st" using r(1) assms(2) by (simp add: less_imp_le)
  from put_target_ok [OF i r(2) assms(2) this] show thesis using that by (elim exE conjE)
qed

end
