(* ===== verification/StreamLinks.thy ===== *)
theory StreamLinks
  imports StreamFlags
begin

text \<open>
  The message list of a queue, linked in both directions. Every operation that puts a message on a queue inserts its
  first block between two parts of the list (\<open>link_in\<close>), every one that takes one off deletes it (\<open>link_out\<close>).
\<close>

section \<open>The list of a queue\<close>

definition qlist :: "strst \<Rightarrow> nat \<Rightarrow> nat list \<Rightarrow> bool" where
  "qlist st q xs \<longleftrightarrow> dlinked (mbnext st) (mbprev st) (q_first (queues st q)) xs \<and> q_last (queues st q) = lastp None xs"

lemma qlistD:
  assumes "qlist st q xs"
  shows "dlinked (mbnext st) (mbprev st) (q_first (queues st q)) xs" "q_first (queues st q) = hdp xs" "q_last (queues st q) = lastp None xs"
    "distinct xs"
  using assms dlinked_hdp dlinked_distinct by (auto simp: qlist_def)

lemma qlist_at:
  assumes "qlist st q (xs @ a # ys)"
  shows "mbnext st a = hdp ys" "mbprev st a = lastp None xs"
  using dlinked_at [OF qlistD(1) [OF assms]] by simp_all

definition relink :: "(nat \<Rightarrow> ptr) \<Rightarrow> (nat \<Rightarrow> ptr) \<Rightarrow> nat \<Rightarrow> ptr \<Rightarrow> ptr \<Rightarrow> strst \<Rightarrow> strst" where
  "relink nx pv q f l st = st\<lparr>mblock := \<lambda>b. (mblock st b)\<lparr>b_next := nx b, b_prev := pv b\<rparr>,
     queues := (queues st)(q := (queues st q)\<lparr>q_first := f, q_last := l\<rparr>)\<rparr>"

lemma relink_sel [simp]:
  "mbnext (relink nx pv q f l st) = nx" "mbprev (relink nx pv q f l st) = pv" "mbcont (relink nx pv q f l st) = mbcont st"
  "mbdata (relink nx pv q f l st) = mbdata st"
  "queues (relink nx pv q f l st) = (queues st)(q := (queues st q)\<lparr>q_first := f, q_last := l\<rparr>)"
  "dblock (relink nx pv q f l st) = dblock st" "v_nqueue (relink nx pv q f l st) = v_nqueue st"
  "qhead (relink nx pv q f l st) = qhead st" "qtail (relink nx pv q f l st) = qtail st"
  by (simp_all add: relink_def)

lemma relink_pool_same [simp]: "pool_same st (relink nx pv q f l st)"
  by (simp add: pool_same_def relink_def)

lemma relink_plumb_same [simp]: "plumb_same st (relink nx pv q f l st)"
  by (simp add: plumb_same_def)

lemma relink_same: "nx a = mbnext st a \<Longrightarrow> pv a = mbprev st a \<Longrightarrow> mblock (relink nx pv q f l st) a = mblock st a"
  by (simp add: relink_def)

text \<open>How the elementary assignments compose.\<close>

lemma relink_steps:
  "set_b_next b p (relink nx pv q f l st) = relink (nx(b := p)) pv q f l st"
  "set_b_prev b p (relink nx pv q f l st) = relink nx (pv(b := p)) q f l st"
  "set_first q p (relink nx pv q f l st) = relink nx pv q p l st"
  "set_last q p (relink nx pv q f l st) = relink nx pv q f p st"
  by (rule strst.equality; simp add: relink_def set_b_next_def set_b_prev_def set_first_def set_last_def upd_mb_def upd_qu_def fun_eq_iff)+

lemma relink_id: "relink (mbnext st) (mbprev st) q (q_first (queues st q)) (q_last (queues st q)) st = st"
  by (rule strst.equality) (simp_all add: relink_def)

lemma relink_mb: "b_next (mblock (relink nx pv q f l st) b) = nx b" "b_prev (mblock (relink nx pv q f l st) b) = pv b"
  "q_first (queues (relink nx pv q f l st) q) = f" "q_last (queues (relink nx pv q f l st) q) = l"
  by (simp_all add: relink_def)

definition link_in :: "nat \<Rightarrow> nat list \<Rightarrow> nat \<Rightarrow> nat list \<Rightarrow> strst \<Rightarrow> strst" where
  "link_in q xs b ys st = relink
     (if xs = [] then (mbnext st)(b := hdp ys) else (mbnext st)(b := hdp ys, last xs := Some b))
     (if ys = [] then (mbprev st)(b := lastp None xs) else (mbprev st)(b := lastp None xs, hd ys := Some b))
     q (if xs = [] then Some b else hdp xs) (if ys = [] then Some b else lastp None ys) st"

definition link_out :: "nat \<Rightarrow> nat list \<Rightarrow> nat \<Rightarrow> nat list \<Rightarrow> strst \<Rightarrow> strst" where
  "link_out q xs b ys st = relink
     (if xs = [] then (mbnext st)(b := None) else (mbnext st)(b := None, last xs := hdp ys))
     (if ys = [] then (mbprev st)(b := None) else (mbprev st)(b := None, hd ys := lastp None xs))
     q (hdp (xs @ ys)) (lastp None (xs @ ys)) st"

section \<open>Every operation is one of the two\<close>

lemma lastp_append: "lastp p (xs @ ys) = (if ys = [] then lastp p xs else lastp None ys)"
  by (simp add: lastp_def)

lemma lastp_ne: "xs \<noteq> [] \<Longrightarrow> lastp p xs = Some (last xs)"
  by (simp add: lastp_def)

lemma lastp_Cons2: "lastp p (a # b # xs) = lastp None (b # xs)"
  by (simp add: lastp_def)

lemma hdp_ne: "xs \<noteq> [] \<Longrightarrow> hdp xs = Some (hd xs)"
  by (cases xs) simp_all

lemma q_append_link:
  assumes q: "qlist st q xs" and b: "b \<notin> set xs"
  shows "q_append q b st = Some (link_in q xs b [] st)"
proof -
  let ?R = "relink (mbnext st) (mbprev st) q (q_first (queues st q)) (q_last (queues st q)) st"
  have "q_append q b ?R = Some (link_in q xs b [] st)"
  proof (cases "xs = []")
    case True
    then show ?thesis using qlistD(2,3) [OF q]
      by (simp add: q_append_def link_in_def relink_mb relink_steps)
  next
    case False
    then have "last xs \<noteq> b" using b by auto
    moreover obtain a where "hdp xs = Some a" using False by (cases xs) simp_all
    ultimately show ?thesis using qlistD(2,3) [OF q] False lastp_ne [OF False]
      by (simp add: q_append_def link_in_def relink_mb relink_steps fun_upd_twist)
  qed
  then show ?thesis by (simp only: relink_id)
qed

lemma q_before_link:
  assumes q: "qlist st q (xs @ nb # ys)" and b: "b \<notin> set (xs @ nb # ys)"
  shows "q_before q b nb st = link_in q xs b (nb # ys) st"
proof -
  have dis: "distinct (xs @ nb # ys)" by (rule qlistD(4) [OF q])
  have n: "nb \<noteq> b" using b by auto
  let ?R = "relink (mbnext st) (mbprev st) q (q_first (queues st q)) (q_last (queues st q)) st"
  have "q_before q b nb ?R = link_in q xs b (nb # ys) st"
  proof (cases "xs = []")
    case True
    then show ?thesis using qlistD(2,3) [OF q] qlist_at [OF q] n
      by (simp add: q_before_def Let_def link_in_def relink_mb relink_steps)
  next
    case False
    then have "last xs \<noteq> b" "last xs \<noteq> nb" using b dis by auto
    then show ?thesis using qlistD(2,3) [OF q] qlist_at [OF q] n False lastp_ne [OF False]
      by (simp add: q_before_def Let_def link_in_def relink_mb relink_steps hdp_append lastp_append)
  qed
  then show ?thesis by (simp only: relink_id)
qed

lemma q_front_link:
  assumes q: "qlist st q xs" and b: "b \<notin> set xs"
  shows "q_front q b st = link_in q [] b xs st"
proof -
  let ?R = "relink (mbnext st) (mbprev st) q (q_first (queues st q)) (q_last (queues st q)) st"
  have "q_front q b ?R = link_in q [] b xs st"
    using qlistD(2,3) [OF q] b by (cases xs) (simp_all add: q_front_def Let_def link_in_def relink_mb relink_steps)
  then show ?thesis by (simp only: relink_id)
qed

lemma q_after_link:
  assumes q: "qlist st q (xs @ nb # ys)" and b: "b \<notin> set (xs @ nb # ys)"
  shows "q_after q b nb st = link_in q (xs @ [nb]) b ys st"
proof -
  have dis: "distinct (xs @ nb # ys)" by (rule qlistD(4) [OF q])
  have n: "nb \<noteq> b" using b by auto
  let ?R = "relink (mbnext st) (mbprev st) q (q_first (queues st q)) (q_last (queues st q)) st"
  have "q_after q b nb ?R = link_in q (xs @ [nb]) b ys st"
  proof (cases ys)
    case Nil
    then show ?thesis using qlistD(2,3) [OF q] qlist_at [OF q] n
      by (simp add: q_after_def Let_def link_in_def relink_mb relink_steps hdp_append)
  next
    case (Cons y zs)
    then have "y \<noteq> b" "y \<noteq> nb" using b dis by auto
    then show ?thesis using qlistD(2,3) [OF q] qlist_at [OF q] n Cons
      by (simp add: q_after_def Let_def link_in_def relink_mb relink_steps hdp_append lastp_append lastp_Cons2 fun_upd_twist)
  qed
  then show ?thesis by (simp only: relink_id)
qed

lemma insq_link_link:
  assumes q: "qlist st q (xs @ ys)" and b: "b \<notin> set (xs @ ys)" and e: "emp = hdp ys"
  shows "insq_link q emp b st = link_in q xs b ys st"
proof -
  have dis: "distinct (xs @ ys)" by (rule qlistD(4) [OF q])
  let ?R = "relink (mbnext st) (mbprev st) q (q_first (queues st q)) (q_last (queues st q)) st"
  have "insq_link q emp b ?R = link_in q xs b ys st"
  proof (cases ys)
    case Nil
    have "last xs \<noteq> b" if "xs \<noteq> []" using that b by auto
    then show ?thesis using qlistD(2,3) [OF q] Nil e lastp_ne [of xs]
      by (cases "xs = []") (simp_all add: insq_link_def Let_def link_in_def relink_mb relink_steps)
  next
    case (Cons y zs)
    then have y: "y \<noteq> b" "qlist st q (xs @ y # zs)" using b q by auto
    have "last xs \<noteq> b \<and> last xs \<noteq> y" if "xs \<noteq> []" using that b dis Cons by auto
    then show ?thesis using qlistD(2,3) [OF q] qlist_at [OF y(2)] y(1) Cons e lastp_ne [of xs]
      by (cases "xs = []") (simp_all add: insq_link_def Let_def link_in_def relink_mb relink_steps hdp_append lastp_append)
  qed
  then show ?thesis by (simp only: relink_id)
qed

lemma q_unlink_link:
  assumes q: "qlist st q (xs @ b # ys)"
  shows "q_unlink q b st = link_out q xs b ys st"
proof -
  have dis: "distinct (xs @ b # ys)" by (rule qlistD(4) [OF q])
  note at = qlist_at [OF q]
  let ?R = "relink (mbnext st) (mbprev st) q (q_first (queues st q)) (q_last (queues st q)) st"
  have "q_unlink q b ?R = link_out q xs b ys st"
  proof (cases "xs = []")
    case True
    then show ?thesis using qlistD(2,3) [OF q] at dis
      by (cases ys) (simp_all add: q_unlink_def Let_def link_out_def relink_mb relink_steps lastp_Cons fun_upd_twist)
  next
    case False
    then have l: "last xs \<noteq> b" using dis by auto
    show ?thesis
    proof (cases ys)
      case Nil
      then show ?thesis using qlistD(2,3) [OF q] at l False lastp_ne [OF False]
        by (simp add: q_unlink_def Let_def link_out_def relink_mb relink_steps hdp_append lastp_append lastp_Cons2 fun_upd_twist)
    next
      case (Cons y zs)
      then have "y \<noteq> b" "last xs \<noteq> y" using dis False by auto
      then show ?thesis using qlistD(2,3) [OF q] at l False lastp_ne [OF False] Cons
        by (simp add: q_unlink_def Let_def link_out_def relink_mb relink_steps hdp_append lastp_append lastp_Cons2 fun_upd_twist)
    qed
  qed
  then show ?thesis by (simp only: relink_id)
qed


section \<open>What the two do\<close>

lemma link_in_sel [simp]:
  "mbcont (link_in q xs b ys st) = mbcont st" "mbdata (link_in q xs b ys st) = mbdata st" "dblock (link_in q xs b ys st) = dblock st"
  "p \<noteq> q \<Longrightarrow> queues (link_in q xs b ys st) p = queues st p" "pool_same st (link_in q xs b ys st)" "plumb_same st (link_in q xs b ys st)"
  "q_count (queues (link_in q xs b ys st) p) = q_count (queues st p)" "q_flag (queues (link_in q xs b ys st) p) = q_flag (queues st p)"
  "q_link (queues (link_in q xs b ys st) p) = q_link (queues st p)"
  "qhead (link_in q xs b ys st) = qhead st" "qtail (link_in q xs b ys st) = qtail st"
  by (simp_all add: link_in_def)

lemma link_out_sel [simp]:
  "mbcont (link_out q xs b ys st) = mbcont st" "mbdata (link_out q xs b ys st) = mbdata st" "dblock (link_out q xs b ys st) = dblock st"
  "p \<noteq> q \<Longrightarrow> queues (link_out q xs b ys st) p = queues st p" "pool_same st (link_out q xs b ys st)" "plumb_same st (link_out q xs b ys st)"
  "q_count (queues (link_out q xs b ys st) p) = q_count (queues st p)" "q_flag (queues (link_out q xs b ys st) p) = q_flag (queues st p)"
  "q_link (queues (link_out q xs b ys st) p) = q_link (queues st p)"
  "qhead (link_out q xs b ys st) = qhead st" "qtail (link_out q xs b ys st) = qtail st"
  by (simp_all add: link_out_def)

lemma link_in_frame: "a \<notin> set (xs @ b # ys) \<Longrightarrow> mblock (link_in q xs b ys st) a = mblock st a"
  unfolding link_in_def by (rule relink_same) auto

lemma link_out_frame: "a \<notin> set (xs @ b # ys) \<Longrightarrow> mblock (link_out q xs b ys st) a = mblock st a"
  unfolding link_out_def by (rule relink_same) auto

lemma link_in_list:
  assumes q: "qlist st q (xs @ ys)" and b: "b \<notin> set (xs @ ys)"
  shows "qlist (link_in q xs b ys st) q (xs @ b # ys)"
proof -
  have dis: "distinct (xs @ ys)" by (rule qlistD(4) [OF q])
  have "dlinked (mbnext (link_in q xs b ys st)) (mbprev (link_in q xs b ys st)) (q_first (queues (link_in q xs b ys st) q)) (xs @ b # ys)"
  proof (rule dlinked_insert [OF qlistD(1) [OF q]])
    show "q_first (queues (link_in q xs b ys st) q) = (if xs = [] then Some b else q_first (queues st q))"
      using qlistD(2) [OF q] by (simp add: link_in_def hdp_append)
  qed (use b lastp_ne [of xs] last_in_set [of xs] hd_in_set [of ys] hdp_ne [of ys] in \<open>auto simp: link_in_def relink_mb\<close>)
  moreover have "q_last (queues (link_in q xs b ys st) q) = lastp None (xs @ b # ys)"
    by (cases ys) (simp_all add: link_in_def lastp_append lastp_Cons2)
  ultimately show ?thesis by (simp add: qlist_def)
qed

lemma link_out_list:
  assumes q: "qlist st q (xs @ b # ys)"
  shows "qlist (link_out q xs b ys st) q (xs @ ys)"
proof -
  have dis: "distinct (xs @ b # ys)" by (rule qlistD(4) [OF q])
  have "dlinked (mbnext (link_out q xs b ys st)) (mbprev (link_out q xs b ys st)) (q_first (queues (link_out q xs b ys st) q)) (xs @ ys)"
  proof (rule dlinked_delete [OF qlistD(1) [OF q]])
    show "q_first (queues (link_out q xs b ys st) q) = (if xs = [] then mbnext st b else q_first (queues st q))"
      using qlistD(2) [OF q] qlist_at(1) [OF q] by (simp add: link_out_def hdp_append)
  qed (use dis lastp_ne [of xs] last_in_set [of xs] hd_in_set [of ys] hdp_ne [of ys] qlist_at [OF q] in \<open>auto simp: link_out_def relink_mb\<close>)
  then show ?thesis by (simp add: qlist_def link_out_def)
qed

lemma qlist_frame:
  assumes "qlist st p zs" "\<forall>a\<in>set zs. mblock st' a = mblock st a" "q_first (queues st' p) = q_first (queues st p)"
    "q_last (queues st' p) = q_last (queues st p)"
  shows "qlist st' p zs"
  using assms dlinked_cong [of zs "mbnext st'" "mbnext st" "mbprev st'" "mbprev st"] by (simp add: qlist_def)

end
