(* ===== verification/StreamSched.thy ===== *)
theory StreamSched
  imports StreamLinks
begin

text \<open>
  Scheduling of service procedures: the list of enabled queues from \<open>qhead\<close> to \<open>qtail\<close> holds the queues with \<open>QENAB\<close>
  set, each once; \<open>qenable\<close> appends to it and \<open>queuerun\<close> serves it from the front.
\<close>

section \<open>The run list\<close>

abbreviation qlink :: "strst \<Rightarrow> nat \<Rightarrow> ptr" where "qlink st \<equiv> \<lambda>q. q_link (queues st q)"

definition runlist :: "strst \<Rightarrow> nat list \<Rightarrow> bool" where
  "runlist st R \<longleftrightarrow> linked (qlink st) (qhead st) R \<and> qtail st = lastp None R \<and>
     set R = {q. q < v_nqueue st \<and> q_is st q QENAB} \<and> (\<forall>q\<in>set R. \<exists>f. srvp st q = Some (Some f))"

lemma runlistD:
  assumes "runlist st R"
  shows "linked (qlink st) (qhead st) R" "qtail st = lastp None R" "q \<in> set R \<longleftrightarrow> q < v_nqueue st \<and> q_is st q QENAB"
    "q \<in> set R \<Longrightarrow> \<exists>f. srvp st q = Some (Some f)" "distinct R" "qhead st = hdp R"
proof -
  have l: "linked (qlink st) (qhead st) R" and o: "set R = {q. q < v_nqueue st \<and> q_is st q QENAB}" "\<forall>q\<in>set R. \<exists>f. srvp st q = Some (Some f)"
    and t: "qtail st = lastp None R" using assms by (simp_all add: runlist_def)
  show "linked (qlink st) (qhead st) R" "qtail st = lastp None R" "q \<in> set R \<longleftrightarrow> q < v_nqueue st \<and> q_is st q QENAB"
    "q \<in> set R \<Longrightarrow> \<exists>f. srvp st q = Some (Some f)" using l t o by blast+
  show "distinct R" by (rule linked_distinct [OF l])
  show "qhead st = hdp R" using l by (cases R) simp_all
qed

text \<open>The contents of the queues: everything an operation on the run list leaves as it was.\<close>

definition body_same :: "strst \<Rightarrow> strst \<Rightarrow> bool" where
  "body_same st st' \<longleftrightarrow> pool_same st st' \<and> plumb_same st st' \<and> mblock st' = mblock st \<and>
     (\<forall>q. q_first (queues st' q) = q_first (queues st q) \<and> q_last (queues st' q) = q_last (queues st q) \<and>
       q_count (queues st' q) = q_count (queues st q) \<and> (\<forall>w\<in>qflags - {QENAB}. q_is st' q w \<longleftrightarrow> q_is st q w))"

lemma body_same_refl [simp]: "body_same st st"
  by (simp add: body_same_def)

lemma body_same_trans [trans]: "body_same st st' \<Longrightarrow> body_same st' st'' \<Longrightarrow> body_same st st''"
proof -
  assume a: "body_same st st'" "body_same st' st''"
  then have "pool_same st st''" "plumb_same st st''" by (auto simp: body_same_def intro: pool_same_trans plumb_same_trans)
  then show ?thesis using a by (simp add: body_same_def)
qed

text \<open>The queue enabled joins the end of the list, unless it is there or has nothing to run.\<close>

definition enq :: "strst \<Rightarrow> nat \<Rightarrow> nat list \<Rightarrow> nat list" where
  "enq st q R = (if q \<in> set R \<or> srvp st q = Some None then R else R @ [q])"

lemma enq_same: "plumb_same st st' \<Longrightarrow> enq st' q R = enq st q R"
  by (simp add: enq_def plumb_same_view)

definition enabled :: "nat \<Rightarrow> nat list \<Rightarrow> strst \<Rightarrow> strst" where
  "enabled q R st = st\<lparr>queues := (let qs = (queues st)(q := (queues st q)\<lparr>q_flag := q_flag (queues st q) OR QENAB\<rparr>);
       qs1 = (if R = [] then qs else qs(last R := (qs (last R))\<lparr>q_link := Some q\<rparr>)) in qs1(q := (qs1 q)\<lparr>q_link := None\<rparr>)),
     qhead := (if R = [] then Some q else qhead st), qtail := Some q, qrunflag := True\<rparr>"

lemma qenable_eq:
  assumes R: "runlist st R" and q: "q < v_nqueue st" "srvp st q = Some (Some f)" "q \<notin> set R"
  shows "qenable q st = Some (enabled q R st)"
proof -
  have n: "\<not> q_is st q QENAB" using runlistD(3) [OF R, of q] q by simp
  have t: "qtail st = (if R = [] then None else Some (last R))" "qhead st = hdp R" using runlistD(2,6) [OF R] by (auto simp: lastp_def)
  show ?thesis
  proof (cases R)
    case Nil
    then show ?thesis using q n t
      by (simp add: qenable_def enabled_def q_on_def upd_qu_def setqsched_def)
  next
    case (Cons a as)
    then show ?thesis using q n t
      by (simp add: qenable_def enabled_def q_on_def upd_qu_def setqsched_def Let_def)
  qed
qed

lemma enabled_sel [simp]:
  "mblock (enabled q R st) = mblock st" "dblock (enabled q R st) = dblock st" "qtail (enabled q R st) = Some q"
  "qhead (enabled q R st) = (if R = [] then Some q else qhead st)" "v_nqueue (enabled q R st) = v_nqueue st"
  "q_first (queues (enabled q R st) p) = q_first (queues st p)" "q_last (queues (enabled q R st) p) = q_last (queues st p)"
  "q_count (queues (enabled q R st) p) = q_count (queues st p)" "q_next (queues (enabled q R st) p) = q_next (queues st p)"
  "q_qinfo (queues (enabled q R st) p) = q_qinfo (queues st p)" "q_hiwat (queues (enabled q R st) p) = q_hiwat (queues st p)"
  "q_lowat (queues (enabled q R st) p) = q_lowat (queues st p)"
  "q_flag (queues (enabled q R st) p) = (if p = q then q_flag (queues st q) OR QENAB else q_flag (queues st p))"
  "q_link (queues (enabled q R st) p) = (if p = q then None else if R \<noteq> [] \<and> p = last R then Some q else q_link (queues st p))"
  by (simp_all add: enabled_def Let_def)

lemma enabled_body: "body_same st (enabled q R st)"
proof -
  have "pool_same st (enabled q R st)" by (simp add: pool_same_def enabled_def)
  moreover have "plumb_same st (enabled q R st)" by (simp add: plumb_same_def flag_ops0)
  ultimately show ?thesis by (auto simp: body_same_def flag_ops0)
qed

lemma enabled_runlist:
  assumes R: "runlist st R" and q: "q < v_nqueue st" "srvp st q = Some (Some f)" "q \<notin> set R"
  shows "runlist (enabled q R st) (R @ [q])"
proof -
  let ?s = "enabled q R st"
  have s: "srvp ?s p = srvp st p" for p by (simp add: srvp_def)
  have l: "linked (qlink ?s) (qhead ?s) (R @ [q])"
  proof (cases R rule: rev_cases)
    case (snoc zs a)
    have a: "a \<notin> set zs" "q \<noteq> a" "q \<notin> set zs" using runlistD(5) [OF R] q(3) snoc by auto
    have "seg (qlink st) (qhead st) zs (Some a)" using runlistD(1) [OF R] snoc by (auto simp: linked_append)
    moreover have "seg (qlink ?s) (qhead st) zs (Some a) = seg (qlink st) (qhead st) zs (Some a)"
      by (rule seg_cong) (use a snoc in auto)
    ultimately show ?thesis using a snoc by (auto simp: linked_append)
  qed simp
  have "set (R @ [q]) = {p. p < v_nqueue ?s \<and> q_is ?s p QENAB}" 
  proof (intro set_eqI)
    fix p show "p \<in> set (R @ [q]) \<longleftrightarrow> p \<in> {p. p < v_nqueue ?s \<and> q_is ?s p QENAB}"
      using runlistD(3) [OF R, of p] q(1) by (cases "p = q") (simp_all add: flag_ops0)
  qed
  moreover have "\<forall>p\<in>set (R @ [q]). \<exists>f. srvp ?s p = Some (Some f)" using runlistD(4) [OF R] q(2) by (auto simp: s)
  ultimately show ?thesis using l by (simp add: runlist_def)
qed

lemma qenable_ok:
  assumes R: "runlist st R" and q: "q < v_nqueue st" "srvp st q = Some s"
  obtains st' where "qenable q st = Some st'" "runlist st' (enq st q R)" "body_same st st'" "q \<in> set R \<or> s = None \<Longrightarrow> st' = st"
proof (cases s)
  case None
  then show ?thesis using that [of st] R q by (simp add: qenable_def enq_def)
next
  case (Some f)
  show ?thesis
  proof (cases "q \<in> set R")
    case True
    then show ?thesis using that [of st] R q Some runlistD(3) [OF R, of q] by (simp add: qenable_def enq_def)
  next
    case False
    then show ?thesis using that [of "enabled q R st"] qenable_eq [OF R q(1) _ False, of f] enabled_runlist [OF R q(1) _ False, of f] enabled_body q Some
      by (simp add: enq_def)
  qed
qed

text \<open>Enabling the nearest queue behind that has something to run.\<close>

definition back_of :: "strst \<Rightarrow> nat \<Rightarrow> ptr" where
  "back_of st q = the (back_srv (v_nqueue st) (backq st q) st)"

definition enq_back :: "strst \<Rightarrow> nat \<Rightarrow> nat list \<Rightarrow> nat list" where
  "enq_back st q R = (case back_of st q of None \<Rightarrow> R | Some p \<Rightarrow> enq st p R)"

lemma back_run_ok:
  assumes R: "runlist st R" and q: "plumbed st" "q < v_nqueue st"
  obtains st' where "back_run q st = Some st'" "runlist st' (enq_back st q R)" "body_same st st'"
proof -
  obtain a where a: "back_srv (v_nqueue st) (backq st q) st = Some a" "\<forall>p. a = Some p \<longrightarrow> p < v_nqueue st \<and> (\<exists>f. srvp st p = Some (Some f))"
    by (rule plumbed_back_srv [OF q])
  show thesis
  proof (cases a)
    case None
    then show ?thesis using that [of st] a R by (simp add: back_run_def enq_back_def back_of_def)
  next
    case (Some p)
    then obtain f where p: "p < v_nqueue st" "srvp st p = Some (Some f)" using a by auto
    obtain st' where "qenable p st = Some st'" "runlist st' (enq st p R)" "body_same st st'" by (rule qenable_ok [OF R p])
    then show ?thesis using that [of st'] a Some by (simp add: back_run_def enq_back_def back_of_def)
  qed
qed

end
