(* ===== verification/StreamServe.thy ===== *)
theory StreamServe
  imports StreamSched
begin

text \<open>
  \<open>queuerun\<close> serves the run list to its end: the queues scheduled are served first, in their order, then those the
  procedures have enabled meanwhile. Service procedures and \<open>bufcall\<close> functions are code of other modules: what is
  asked of them is that they return, only append to the run list, and that each queue they enable, and each new round of
  events they cause, is paid for by \<open>work\<close>, of which there is a finite amount (\<open>proc_ok\<close>).
\<close>

section \<open>The contract of a procedure\<close>

definition bc :: "strst \<Rightarrow> nat" where
  "bc st = (if strbcflag st then 1 else 0)"

definition proc_ok :: "(strst \<Rightarrow> bool) \<Rightarrow> (strst \<Rightarrow> nat) \<Rightarrow> (strst \<Rightarrow> strst option) \<Rightarrow> (strst \<Rightarrow> bool) \<Rightarrow> bool" where
  "proc_ok I work f P \<longleftrightarrow> (\<forall>st R. I st \<and> P st \<and> runlist st R \<longrightarrow>
     (\<exists>st' R'. f st = Some st' \<and> I st' \<and> runlist st' (R @ R') \<and> work st' + length R' + bc st' \<le> work st + bc st))"

lemma proc_okD:
  assumes "proc_ok I work f P" "I st" "P st" "runlist st R"
  obtains st' R' where "f st = Some st'" "I st'" "runlist st' (R @ R')" "work st' + length R' + bc st' \<le> work st + bc st"
  using assms unfolding proc_ok_def by blast

definition procs_ok :: "(strst \<Rightarrow> bool) \<Rightarrow> (strst \<Rightarrow> nat) \<Rightarrow> strext \<Rightarrow> bool" where
  "procs_ok I work xt \<longleftrightarrow> (\<forall>f q. proc_ok I work (xt_srv xt f q) (\<lambda>st. q < v_nqueue st \<and> srvp st q = Some (Some f))) \<and>
     (\<forall>g a. proc_ok I work (xt_func xt g a) (\<lambda>st. True)) \<and>
     (\<forall>st st'. body_same st st' \<longrightarrow> I st \<longrightarrow> I st' \<and> work st' = work st)"

lemma procs_okD:
  assumes "procs_ok I work xt"
  shows "proc_ok I work (xt_srv xt f q) (\<lambda>st. q < v_nqueue st \<and> srvp st q = Some (Some f))" "proc_ok I work (xt_func xt g a) (\<lambda>st. True)"
    "body_same st st' \<Longrightarrow> I st \<Longrightarrow> I st'" "body_same st st' \<Longrightarrow> I st \<Longrightarrow> work st' = work st"
  using assms unfolding procs_ok_def by blast+

lemma runlist_same:
  assumes "runlist st R" "queues st' = queues st" "qhead st' = qhead st" "qtail st' = qtail st" "v_nqueue st' = v_nqueue st"
  shows "runlist st' R"
  using assms unfolding runlist_def srvp_def by simp

section \<open>Serving one queue\<close>

definition popped :: "nat \<Rightarrow> strst \<Rightarrow> strst" where
  "popped q st = (let st1 = st\<lparr>qhead := q_link (queues st q)\<rparr> in q_off QENAB q (if qhead st1 = None then st1\<lparr>qtail := None\<rparr> else st1))"

lemma popped_sel [simp]:
  "mblock (popped q st) = mblock st" "dblock (popped q st) = dblock st" "v_nqueue (popped q st) = v_nqueue st"
  "qhead (popped q st) = q_link (queues st q)" "qtail (popped q st) = (if q_link (queues st q) = None then None else qtail st)"
  "queues (popped q st) = (queues st)(q := (queues st q)\<lparr>q_flag := q_flag (queues st q) AND NOT QENAB\<rparr>)" "strbcflag (popped q st) = strbcflag st"
  by (simp_all add: popped_def Let_def q_off_def upd_qu_def)

lemma popped_body: "body_same st (popped q st)"
proof -
  have "pool_same st (popped q st)" by (simp add: pool_same_def popped_def Let_def q_off_def upd_qu_def)
  moreover have "plumb_same st (popped q st)" by (simp add: plumb_same_def flag_ops0)
  ultimately show ?thesis by (auto simp: body_same_def flag_ops0)
qed

lemma popped_runlist:
  assumes R: "runlist st (q # R)"
  shows "runlist (popped q st) R"
proof -
  let ?s = "popped q st"
  have l: "linked (qlink st) (q_link (queues st q)) R" and q: "q \<notin> set R" using runlistD(1,5) [OF R] by simp_all
  have "linked (qlink ?s) (qhead ?s) R" unfolding popped_sel by (rule linked_congI [OF l]) simp
  moreover have "qtail ?s = lastp None R" using runlistD(2) [OF R] l by (cases R) (simp_all add: lastp_Cons2)
  moreover have "set R = {p. p < v_nqueue ?s \<and> q_is ?s p QENAB}"
  proof (intro set_eqI)
    fix p show "p \<in> set R \<longleftrightarrow> p \<in> {p. p < v_nqueue ?s \<and> q_is ?s p QENAB}"
      using runlistD(3) [OF R, of p] q by (cases "p = q") (auto simp: flag_ops0)
  qed
  moreover have "\<forall>p\<in>set R. \<exists>f. srvp ?s p = Some (Some f)" using runlistD(4) [OF R] by (auto simp: srvp_def)
  ultimately show ?thesis by (simp add: runlist_def)
qed

lemma serve_one_ok:
  assumes ok: "procs_ok I work xt" "I st" and R: "runlist st (q # R)"
  obtains st' R' where "serve_one xt q st = Some st'" "I st'" "runlist st' (R @ R')" "work st' + length R' + bc st' \<le> work st + bc st"
proof -
  note P = procs_okD [OF ok(1)]
  obtain f where f: "srvp st q = Some (Some f)" using runlistD(4) [OF R] by auto
  have q: "q < v_nqueue st" using runlistD(3) [OF R, of q] by simp
  have s: "srvp (popped q st) q = Some (Some f)" using f by (simp add: srvp_def)
  have e: "serve_one xt q st = xt_srv xt f q (popped q st)" using s by (simp add: serve_one_def popped_def Let_def)
  have w: "work (popped q st) = work st" "I (popped q st)" "bc (popped q st) = bc st" using P(3,4) [OF popped_body ok(2)] by (simp_all add: bc_def)
  have c: "q < v_nqueue (popped q st) \<and> srvp (popped q st) q = Some (Some f)" using q s by simp
  obtain st' R' where "xt_srv xt f q (popped q st) = Some st'" "I st'" "runlist st' (R @ R')"
    "work st' + length R' + bc st' \<le> work (popped q st) + bc (popped q st)"
    by (rule proc_okD [OF P(1) w(2) c popped_runlist [OF R]])
  then show thesis using that e w by simp
qed

lemma serve_queues_ok:
  assumes ok: "procs_ok I work xt"
  shows "I st \<Longrightarrow> runlist st R \<Longrightarrow> \<exists>qs st'. serve_queues xt st = Some (R @ qs, st') \<and> I st' \<and> runlist st' [] \<and>
     length qs + work st' + bc st' \<le> work st + bc st \<and> (R = [] \<longrightarrow> st' = st)"
proof (induction "work st + bc st + length R" arbitrary: st R rule: less_induct)
  case less
  show ?case
  proof (cases R)
    case Nil
    then have "qhead st = None" using runlistD(6) [OF less.prems(2)] by simp
    then show ?thesis using less.prems Nil by (subst serve_queues.simps) simp
  next
    case (Cons q Q)
    obtain st1 R1 where s: "serve_one xt q st = Some st1" "I st1" "runlist st1 (Q @ R1)" "work st1 + length R1 + bc st1 \<le> work st + bc st"
      by (rule serve_one_ok [OF ok less.prems(1) less.prems(2) [unfolded Cons]])
    have "work st1 + bc st1 + length (Q @ R1) < work st + bc st + length R" using s(4) Cons by simp
    from less.hyps [OF this s(2,3)] obtain qs st' where r: "serve_queues xt st1 = Some ((Q @ R1) @ qs, st')" "I st'" "runlist st' []"
      "length qs + work st' + bc st' \<le> work st1 + bc st1" by blast
    have "qhead st = Some q" using runlistD(6) [OF less.prems(2)] Cons by simp
    then have "serve_queues xt st = Some (R @ (R1 @ qs), st')" using s(1) r(1) Cons by (subst serve_queues.simps) simp
    then show ?thesis using r(2,3,4) s(4) Cons by (intro exI [of _ "R1 @ qs"] exI [of _ st']) simp
  qed
qed

section \<open>Rounds of events\<close>

text \<open>Taking an event off its list, and giving its cell back, are no business of the queues.\<close>

lemma ev_set_cnt [simp]: "dba_cnt (ev_set pri p a) = dba_cnt a"
  by (simp add: ev_set_def)

lemma upd_al_body: "body_same st (upd_al c (ev_set pri p) st)"
  by (simp add: body_same_def pool_same_def plumb_same_def upd_al_def)

lemma upd_al_runlist: "runlist st R \<Longrightarrow> runlist (upd_al c f st) R"
  by (erule runlist_same) (simp_all add: upd_al_def)

lemma sefree_sel [simp]:
  "queues (sefree e st) = queues st" "qhead (sefree e st) = qhead st" "qtail (sefree e st) = qtail st" "v_nqueue (sefree e st) = v_nqueue st"
  "strbcflag (sefree e st) = strbcflag st" "mblock (sefree e st) = mblock st"
  by (simp_all add: sefree_def upd_se_def)

lemma sefree_body: "body_same st (sefree e st)"
  by (simp add: body_same_def pool_same_def plumb_same_def) (simp add: sefree_def upd_se_def)

lemma run_events_ok:
  assumes ok: "procs_ok I work xt"
  shows "I st \<Longrightarrow> runlist st R \<Longrightarrow> \<exists>k st' R'. run_events xt c pri n st = Some (k, st') \<and> I st' \<and> runlist st' (R @ R') \<and>
     work st' + length R' + bc st' \<le> work st + bc st"
proof (induction n arbitrary: st R)
  case 0
  then show ?case by (auto intro: exI [of _ "[]"])
next
  case (Suc n)
  note P = procs_okD [OF ok]
  show ?case
  proof (cases "mbfreelist st = None \<or> ev_head pri (dballoc st c) = None")
    case True
    then show ?thesis using Suc.prems by (auto split: option.splits intro: exI [of _ "[]"])
  next
    case False
    then obtain b e where be: "mbfreelist st = Some b" "ev_head pri (dballoc st c) = Some e" by auto
    let ?s1 = "upd_al c (ev_set pri (se_next (strevents st e))) st"
    have s1: "I ?s1" "work ?s1 = work st" "bc ?s1 = bc st" "runlist ?s1 R"
      using P(3,4) [OF upd_al_body Suc.prems(1)] upd_al_runlist [OF Suc.prems(2)] by (simp_all add: bc_def upd_al_def)
    obtain s2 R2 where s2: "xt_func xt (se_func (strevents ?s1 e)) (se_arg (strevents ?s1 e)) ?s1 = Some s2" "I s2" "runlist s2 (R @ R2)"
      "work s2 + length R2 + bc s2 \<le> work ?s1 + bc ?s1" by (rule proc_okD [OF P(2) s1(1) TrueI s1(4)])
    have s3: "I (sefree e s2)" "work (sefree e s2) = work s2" "bc (sefree e s2) = bc s2" "runlist (sefree e s2) (R @ R2)"
      using P(3,4) [OF sefree_body s2(2)] runlist_same [OF s2(3)] by (simp_all add: bc_def)
    obtain k s4 R4 where s4: "run_events xt c pri n (sefree e s2) = Some (k, s4)" "I s4" "runlist s4 ((R @ R2) @ R4)"
      "work s4 + length R4 + bc s4 \<le> work (sefree e s2) + bc (sefree e s2)" using Suc.IH [OF s3(1,4)] by blast
    have "run_events xt c pri (Suc n) st = Some (Suc k, s4)" using be s2(1) s4(1) by (simp add: Let_def)
    then show ?thesis using s4 s3 s2(4) s1 by (intro exI [of _ "Suc k"] exI [of _ s4] exI [of _ "R2 @ R4"]) simp
  qed
qed

lemma run_class_ok:
  assumes ok: "procs_ok I work xt" and st: "I st" "runlist st R"
  shows "\<exists>st' R'. run_class xt c st = Some st' \<and> I st' \<and> runlist st' (R @ R') \<and> work st' + length R' + bc st' \<le> work st + bc st"
proof -
  obtain k1 s1 R1 where 1: "run_events xt c BPRI_HI (nat (int (v_nblk st c) - dba_cnt (dballoc st c))) st = Some (k1, s1)" "I s1" "runlist s1 (R @ R1)"
    "work s1 + length R1 + bc s1 \<le> work st + bc st" using run_events_ok [OF ok st] by blast
  obtain k2 s2 R2 where 2: "run_events xt c BPRI_MED (nat (dba_med (dballoc s1 c) - dba_cnt (dballoc s1 c) - int k1)) s1 = Some (k2, s2)" "I s2"
    "runlist s2 ((R @ R1) @ R2)" "work s2 + length R2 + bc s2 \<le> work s1 + bc s1" using run_events_ok [OF ok 1(2,3)] by blast
  obtain k3 s3 R3 where 3: "run_events xt c BPRI_LO (nat (dba_lo (dballoc s2 c) - dba_cnt (dballoc s2 c) - int (k1 + k2))) s2 = Some (k3, s3)" "I s3"
    "runlist s3 (((R @ R1) @ R2) @ R3)" "work s3 + length R3 + bc s3 \<le> work s2 + bc s2" using run_events_ok [OF ok 2(2,3)] by blast
  have "run_class xt c st = Some s3" using 1(1) 2(1) 3(1) by (simp add: run_class_def)
  then show ?thesis using 1(4) 2(4) 3(2,3,4) by (intro exI [of _ s3] exI [of _ "R1 @ R2 @ R3"]) simp
qed

lemma run_classes_ok:
  assumes ok: "procs_ok I work xt"
  shows "I st \<Longrightarrow> runlist st R \<Longrightarrow>
    \<exists>st' R'. run_classes xt n st = Some st' \<and> I st' \<and> runlist st' (R @ R') \<and> work st' + length R' + bc st' \<le> work st + bc st"
proof (induction n arbitrary: st R)
  case 0
  then show ?case by (auto intro: exI [of _ "[]"])
next
  case (Suc n)
  obtain s1 R1 where 1: "run_class xt n st = Some s1" "I s1" "runlist s1 (R @ R1)" "work s1 + length R1 + bc s1 \<le> work st + bc st"
    using run_class_ok [OF ok Suc.prems] by blast
  obtain s2 R2 where 2: "run_classes xt n s1 = Some s2" "I s2" "runlist s2 ((R @ R1) @ R2)" "work s2 + length R2 + bc s2 \<le> work s1 + bc s1"
    using Suc.IH [OF 1(2,3)] by blast
  have "run_classes xt (Suc n) st = Some s2" using 1(1) 2(1) by simp
  then show ?case using 1(4) 2(2,3,4) by (intro exI [of _ s2] exI [of _ "R1 @ R2"]) simp
qed

section \<open>The whole run\<close>

lemma queuerun_loop_ok:
  assumes ok: "procs_ok I work xt"
  shows "I st \<Longrightarrow> runlist st R \<Longrightarrow> \<exists>qs st'. queuerun_loop xt st = Some (R @ qs, st') \<and> I st' \<and> runlist st' [] \<and> \<not> strbcflag st' \<and>
     length qs + work st' \<le> work st + bc st"
proof (induction "work st + bc st + length R" arbitrary: st R rule: less_induct)
  case less
  note P = procs_okD [OF ok]
  define s0 where "s0 = (if strbcflag st then st\<lparr>strbcflag := False\<rparr> else st)"
  have b0: "body_same st s0" by (simp add: s0_def body_same_def pool_same_def plumb_same_def)
  have s0: "I s0" "work s0 = work st" "bc s0 = 0" "runlist s0 R"
    using P(3,4) [OF b0 less.prems(1)] runlist_same [OF less.prems(2), of s0] by (simp_all add: s0_def bc_def)
  have c: "\<exists>s1 R1. (if strbcflag st then run_classes xt NCLASS (st\<lparr>strbcflag := False\<rparr>) else Some st) = Some s1 \<and> I s1 \<and> runlist s1 (R @ R1) \<and>
      work s1 + length R1 + bc s1 \<le> work st \<and> (\<not> strbcflag st \<longrightarrow> s1 = st)"
  proof (cases "strbcflag st")
    case True
    then show ?thesis using run_classes_ok [OF ok s0(1,4), of NCLASS] s0(2,3) by (simp add: s0_def)
  next
    case False
    then show ?thesis using s0 by (auto simp: s0_def intro: exI [of _ "[]"])
  qed
  from c obtain s1 R1 where s1: "(if strbcflag st then run_classes xt NCLASS (st\<lparr>strbcflag := False\<rparr>) else Some st) = Some s1" "I s1"
    "runlist s1 (R @ R1)" "work s1 + length R1 + bc s1 \<le> work st" "\<not> strbcflag st \<longrightarrow> s1 = st" by blast
  obtain qs s2 where s2: "serve_queues xt s1 = Some ((R @ R1) @ qs, s2)" "I s2" "runlist s2 []" "length qs + work s2 + bc s2 \<le> work s1 + bc s1"
    "R @ R1 = [] \<longrightarrow> s2 = s1" using serve_queues_ok [OF ok s1(2,3)] by blast
  show ?case
  proof (cases "strbcflag s2")
    case False
    then have "queuerun_loop xt st = Some (R @ (R1 @ qs), s2)" using s1(1) s2(1) by (subst queuerun_loop.simps) simp
    then show ?thesis using s1(4) s2(2,3,4) False by (intro exI [of _ "R1 @ qs"] exI [of _ s2]) simp
  next
    case True
    have "work s2 + bc s2 + length ([] :: nat list) < work st + bc st + length R"
    proof (cases "strbcflag st")
      case True
      then show ?thesis using s1(4) s2(4) by (simp add: bc_def)
    next
      case nb: False
      then have "R1 = []" "s1 = st" using s1(4,5) by simp_all
      moreover have "R \<noteq> []" using s2(5) calculation True nb by auto
      ultimately show ?thesis using s2(4) by (cases R) simp_all
    qed
    from less.hyps [OF this s2(2,3)] obtain qs' s3 where s3: "queuerun_loop xt s2 = Some ([] @ qs', s3)" "I s3" "runlist s3 []" "\<not> strbcflag s3"
      "length qs' + work s3 \<le> work s2 + bc s2" by blast
    have "queuerun_loop xt st = Some (R @ (R1 @ qs @ qs'), s3)" using s1(1) s2(1) s3(1) True by (subst queuerun_loop.simps) simp
    then show ?thesis using s1(4) s2(4) s3(2,3,4,5) by (intro exI [of _ "R1 @ qs @ qs'"] exI [of _ s3]) simp
  qed
qed

lemma runqueues_ok:
  assumes ok: "procs_ok I work xt" "I st" and R: "runlist st R" and f: "qrunflag st" "\<not> queueflag st"
  shows "\<exists>qs st'. runqueues xt st = Some (R @ qs, st') \<and> runlist st' [] \<and> \<not> qrunflag st' \<and> \<not> queueflag st' \<and> \<not> strbcflag st' \<and>
     length qs \<le> work st + bc st"
proof -
  let ?s = "st\<lparr>queueflag := True\<rparr>"
  have b: "body_same st ?s" by (simp add: body_same_def pool_same_def plumb_same_def)
  have s: "I ?s" "work ?s = work st" "runlist ?s R" using procs_okD(3,4) [OF ok(1) b ok(2)] runlist_same [OF R] by simp_all
  obtain qs s1 where r: "queuerun_loop xt ?s = Some (R @ qs, s1)" "runlist s1 []" "\<not> strbcflag s1" "length qs + work s1 \<le> work ?s + bc ?s"
    using queuerun_loop_ok [OF ok(1) s(1,3)] by blast
  have "runqueues xt st = Some (R @ qs, s1\<lparr>qrunflag := False, queueflag := False\<rparr>)" using f r(1) by (simp add: runqueues_def queuerun_def)
  moreover have "runlist (s1\<lparr>qrunflag := False, queueflag := False\<rparr>) []" by (rule runlist_same [OF r(2)]) simp_all
  ultimately show ?thesis using r s by (intro exI [of _ qs] exI) (auto simp: bc_def)
qed

end
