(* ===== verification/StreamMsgs.thy ===== *)
theory StreamMsgs
  imports StreamSched
begin

text \<open>
  The messages of a queue: lists of blocks through \<open>b_cont\<close>, the first blocks linked as the list of the queue, and the
  weight of the data blocks they refer to, which the queue counts. \<open>q_frame\<close> says what an operation on one queue
  leaves alone.
\<close>

section \<open>Messages\<close>

definition message :: "strcfg \<Rightarrow> strst \<Rightarrow> nat list \<Rightarrow> bool" where
  "message cfg st m \<longleftrightarrow> m \<noteq> [] \<and> linked (mbcont st) (Some (hd m)) m \<and> set m \<subseteq> {..< nmblock cfg} \<and>
     (\<forall>b\<in>set m. \<exists>d. mbdata st b = Some d \<and> dbcls st d < NCLASS)"

lemma messageD:
  assumes "message cfg st m"
  shows "m \<noteq> []" "linked (mbcont st) (Some (hd m)) m" "set m \<subseteq> {..< nmblock cfg}" "b \<in> set m \<Longrightarrow> \<exists>d. mbdata st b = Some d \<and> dbcls st d < NCLASS"
    "hd m \<in> set m" "length m \<le> nmblock cfg" "hd m < nmblock cfg"
proof -
  show m: "m \<noteq> []" "linked (mbcont st) (Some (hd m)) m" "set m \<subseteq> {..< nmblock cfg}"
    "b \<in> set m \<Longrightarrow> \<exists>d. mbdata st b = Some d \<and> dbcls st d < NCLASS" using assms by (auto simp: message_def)
  then show h: "hd m \<in> set m" by simp
  show "length m \<le> nmblock cfg" by (rule linked_length [OF m(2,3)])
  show "hd m < nmblock cfg" using h m(3) by auto
qed

lemma message_same: "pool_same st st' \<Longrightarrow> message cfg st m \<Longrightarrow> message cfg st' m"
  by (simp add: message_def pool_same_view pool_same_at)

definition weight :: "strst \<Rightarrow> nat list \<Rightarrow> int" where
  "weight st m = sum_list (map (\<lambda>b. bsize (dbcls st (the (mbdata st b)))) m)"

lemma weight_same: "pool_same st st' \<Longrightarrow> weight st' m = weight st m"
  by (simp add: weight_def pool_same_view pool_same_at)

lemma bsize_pos: "c < NCLASS \<Longrightarrow> 0 < bsize c"
  by (auto simp: bsize_def less_Suc_eq numeral_eq_Suc)

lemma weight_nonneg: "message cfg st m \<Longrightarrow> 0 \<le> weight st m"
  unfolding weight_def
proof (rule sum_list_nonneg)
  fix x assume m: "message cfg st m" and "x \<in> set (map (\<lambda>b. bsize (dbcls st (the (mbdata st b)))) m)"
  then obtain b where b: "b \<in> set m" "x = bsize (dbcls st (the (mbdata st b)))" by auto
  then obtain d where "mbdata st b = Some d" "dbcls st d < NCLASS" using messageD(4) [OF m] by blast
  then show "0 \<le> x" using b bsize_pos [of "dbcls st d"] by simp
qed

lemma uint16_mod [simp]: "uint16 (uint16 x) = uint16 x"
  by (simp add: uint16_def)

lemma uint16_add: "uint16 (uint16 x + y) = uint16 (x + y)"
  by (simp add: uint16_def mod_add_left_eq)

lemma weigh_ok:
  "linked (mbcont st) p m \<Longrightarrow> \<forall>b\<in>set m. \<exists>d. mbdata st b = Some d \<and> dbcls st d < NCLASS \<Longrightarrow> length m \<le> n \<Longrightarrow>
   weigh n sg p (uint16 c) st = Some (uint16 (c + sg * weight st m))"
proof (induction m arbitrary: n p c)
  case Nil
  then show ?case by (cases n) (simp_all add: weight_def)
next
  case (Cons b m)
  obtain k where n: "n = Suc k" "length m \<le> k" using Cons.prems(3) by (cases n) auto
  obtain d where d: "mbdata st b = Some d" using Cons.prems(2) by auto
  have l: "linked (mbcont st) (mbcont st b) m" "p = Some b" using Cons.prems(1) by simp_all
  have e: "uint16 (uint16 c + sg * bsize (dbcls st d)) = uint16 (c + sg * bsize (dbcls st d))" by (rule uint16_add)
  have "weigh k sg (mbcont st b) (uint16 (c + sg * bsize (dbcls st d))) st = Some (uint16 (c + sg * bsize (dbcls st d) + sg * weight st m))"
    by (rule Cons.IH [OF l(1) _ n(2)]) (use Cons.prems(2) in simp)
  then show ?case using n l d by (simp add: e weight_def algebra_simps)
qed

text \<open>What the queue of \<open>c\<close> weighs after a message is added (\<open>sg = 1\<close>) or taken away (\<open>sg = - 1\<close>).\<close>

lemma q_weigh_ok:
  assumes m: "message cfg st m" and c: "q_count (queues st q) = uint16 c"
  shows "q_weigh cfg sg q (hd m) st = Some (upd_qu q (\<lambda>r. r\<lparr>q_count := uint16 (c + sg * weight st m)\<rparr>) st)"
  using weigh_ok [OF messageD(2) [OF m] _ messageD(6) [OF m], of sg c] messageD(4) [OF m] c by (simp add: q_weigh_def)

definition lightened :: "nat \<Rightarrow> int \<Rightarrow> strst \<Rightarrow> strst" where
  "lightened q c st = (let st1 = upd_qu q (\<lambda>r. r\<lparr>q_count := c\<rparr>) st in if c < q_hiwat (queues st q) then q_off QFULL q st1 else st1)"

definition burdened :: "nat \<Rightarrow> int \<Rightarrow> strst \<Rightarrow> strst" where
  "burdened q c st = (let st1 = upd_qu q (\<lambda>r. r\<lparr>q_count := c\<rparr>) st in if q_hiwat (queues st q) \<le> c then q_on QFULL q st1 else st1)"

lemma q_lighter_ok:
  "message cfg st m \<Longrightarrow> q_count (queues st q) = uint16 c \<Longrightarrow> q_lighter cfg q (hd m) st = Some (lightened q (uint16 (c - weight st m)) st)"
  using q_weigh_ok [of cfg st m q c "- 1"] by (simp add: q_lighter_def lightened_def Let_def upd_qu_def)

lemma q_heavier_ok:
  "message cfg st m \<Longrightarrow> q_count (queues st q) = uint16 c \<Longrightarrow> q_heavier cfg q (hd m) st = Some (burdened q (uint16 (c + weight st m)) st)"
  using q_weigh_ok [of cfg st m q c 1] by (simp add: q_heavier_def burdened_def Let_def upd_qu_def)

lemma recount_sel [simp]:
  "mblock (lightened q c st) = mblock st" "mblock (burdened q c st) = mblock st" "qhead (lightened q c st) = qhead st" "qhead (burdened q c st) = qhead st"
  "qtail (lightened q c st) = qtail st" "qtail (burdened q c st) = qtail st" "dblock (lightened q c st) = dblock st" "dblock (burdened q c st) = dblock st"
  "q_first (queues (lightened q c st) p) = q_first (queues st p)" "q_first (queues (burdened q c st) p) = q_first (queues st p)"
  "q_last (queues (lightened q c st) p) = q_last (queues st p)" "q_last (queues (burdened q c st) p) = q_last (queues st p)"
  "q_link (queues (lightened q c st) p) = q_link (queues st p)" "q_link (queues (burdened q c st) p) = q_link (queues st p)"
  "q_next (queues (lightened q c st) p) = q_next (queues st p)" "q_next (queues (burdened q c st) p) = q_next (queues st p)"
  "q_qinfo (queues (lightened q c st) p) = q_qinfo (queues st p)" "q_qinfo (queues (burdened q c st) p) = q_qinfo (queues st p)"
  "q_hiwat (queues (lightened q c st) p) = q_hiwat (queues st p)" "q_hiwat (queues (burdened q c st) p) = q_hiwat (queues st p)"
  "q_lowat (queues (lightened q c st) p) = q_lowat (queues st p)" "q_lowat (queues (burdened q c st) p) = q_lowat (queues st p)"
  "q_count (queues (lightened q c st) p) = (if p = q then c else q_count (queues st p))"
  "q_count (queues (burdened q c st) p) = (if p = q then c else q_count (queues st p))"
  "v_nqueue (lightened q c st) = v_nqueue st" "v_nqueue (burdened q c st) = v_nqueue st"
  by (simp_all add: lightened_def burdened_def Let_def upd_qu_def)

lemma recount_flags:
  "v \<in> qflags \<Longrightarrow> q_is (lightened q c st) p v \<longleftrightarrow> q_is st p v \<and> \<not> (p = q \<and> v = QFULL \<and> c < q_hiwat (queues st q))"
  "v \<in> qflags \<Longrightarrow> q_is (burdened q c st) p v \<longleftrightarrow> q_is st p v \<or> p = q \<and> v = QFULL \<and> q_hiwat (queues st q) \<le> c"
  by (auto simp: lightened_def burdened_def Let_def upd_qu_def q_on_queues q_off_queues flag_ops0)

lemma recount_same: "pool_same st (lightened q c st)" "pool_same st (burdened q c st)" "plumb_same st (lightened q c st)" "plumb_same st (burdened q c st)"
proof -
  show "pool_same st (lightened q c st)" "pool_same st (burdened q c st)"
    by (simp_all add: pool_same_def lightened_def burdened_def Let_def q_on_def q_off_def upd_qu_def)
  show "plumb_same st (lightened q c st)" "plumb_same st (burdened q c st)" unfolding plumb_same_def using recount_flags [of QREADR] by simp_all
qed

section \<open>The frame of an operation on a queue\<close>

definition q_frame :: "strst \<Rightarrow> strst \<Rightarrow> nat \<Rightarrow> nat set \<Rightarrow> bool" where
  "q_frame st st' q S \<longleftrightarrow> pool_same st st' \<and> plumb_same st st' \<and> (\<forall>a. a \<notin> S \<longrightarrow> mblock st' a = mblock st a) \<and>
     (\<forall>p. p \<noteq> q \<longrightarrow> q_first (queues st' p) = q_first (queues st p) \<and> q_last (queues st' p) = q_last (queues st p) \<and>
       q_count (queues st' p) = q_count (queues st p) \<and> (\<forall>w\<in>qflags - {QENAB}. q_is st' p w \<longleftrightarrow> q_is st p w))"

lemma q_frame_trans [trans]: "q_frame st st' q S \<Longrightarrow> q_frame st' st'' q S \<Longrightarrow> q_frame st st'' q S"
proof -
  assume a: "q_frame st st' q S" "q_frame st' st'' q S"
  then have "pool_same st st''" "plumb_same st st''" by (auto simp: q_frame_def intro: pool_same_trans plumb_same_trans)
  then show ?thesis using a by (simp add: q_frame_def)
qed

lemma body_frame: "body_same st st' \<Longrightarrow> q_frame st st' q S"
  by (simp add: body_same_def q_frame_def)

lemma flag_frame: "w \<in> qflags \<Longrightarrow> w \<noteq> QREADR \<Longrightarrow> q_frame st (q_on w q st) q S" "w \<in> qflags \<Longrightarrow> w \<noteq> QREADR \<Longrightarrow> q_frame st (q_off w q st) q S"
  by (simp_all add: q_frame_def plumb_same_flag q_on_queues q_off_queues)

lemma recount_frame: "q_frame st (lightened q c st) q S" "q_frame st (burdened q c st) q S"
  using recount_same [of st q c] recount_flags [of _ q c st] by (simp_all add: q_frame_def)

lemma link_in_framed:
  assumes "set (xs @ b # ys) \<subseteq> S"
  shows "q_frame st (link_in q xs b ys st) q S"
proof -
  have "mblock (link_in q xs b ys st) a = mblock st a" if "a \<notin> S" for a by (rule link_in_frame) (use assms that in blast)
  then show ?thesis by (simp add: q_frame_def)
qed

lemma link_out_framed:
  assumes "set (xs @ b # ys) \<subseteq> S"
  shows "q_frame st (link_out q xs b ys st) q S"
proof -
  have "mblock (link_out q xs b ys st) a = mblock st a" if "a \<notin> S" for a by (rule link_out_frame) (use assms that in blast)
  then show ?thesis by (simp add: q_frame_def)
qed

end
