(* ===== verification/StreamGet.thy ===== *)
theory StreamGet
  imports StreamMsgs
begin

text \<open>
  Taking messages off a queue: \<open>getq\<close> takes the first, \<open>rmvq\<close> any one. The count of the queue and its flow
  control flags follow; a writer waiting behind a queue that falls to its low-water mark is enabled.
\<close>

section \<open>The messages of a queue\<close>

definition qweight :: "strst \<Rightarrow> nat list list \<Rightarrow> int" where
  "qweight st ms = sum_list (map (weight st) ms)"

definition qmsgs :: "strcfg \<Rightarrow> strst \<Rightarrow> nat \<Rightarrow> nat list list \<Rightarrow> bool" where
  "qmsgs cfg st q ms \<longleftrightarrow> qlist st q (map hd ms) \<and> (\<forall>m\<in>set ms. message cfg st m) \<and> q_count (queues st q) = uint16 (qweight st ms)"

lemma qmsgsD:
  assumes "qmsgs cfg st q ms"
  shows "qlist st q (map hd ms)" "m \<in> set ms \<Longrightarrow> message cfg st m" "q_count (queues st q) = uint16 (qweight st ms)"
  using assms by (auto simp: qmsgs_def)

lemma qweight_simps [simp]:
  "qweight st [] = 0" "qweight st (m # ms) = weight st m + qweight st ms" "qweight st (ms @ ns) = qweight st ms + qweight st ns"
  by (simp_all add: qweight_def)

lemma qweight_same: "pool_same st st' \<Longrightarrow> qweight st' ms = qweight st ms"
proof -
  assume "pool_same st st'"
  then have "weight st' = weight st" by (intro ext) (rule weight_same)
  then show ?thesis by (simp add: qweight_def)
qed

lemma qweight_nonneg: "\<forall>m\<in>set ms. message cfg st m \<Longrightarrow> 0 \<le> qweight st ms"
  by (induction ms) (auto simp: weight_nonneg intro: add_nonneg_nonneg)

text \<open>The contents of a queue are the same when its list, its blocks and its count are.\<close>

lemma qmsgs_frame:
  assumes "qmsgs cfg st p ms" "q_frame st st' q S" "p \<noteq> q" "set (map hd ms) \<inter> S = {}"
  shows "qmsgs cfg st' p ms"
proof -
  have f: "pool_same st st'" "\<forall>a. a \<notin> S \<longrightarrow> mblock st' a = mblock st a" "q_first (queues st' p) = q_first (queues st p)"
    "q_last (queues st' p) = q_last (queues st p)" "q_count (queues st' p) = q_count (queues st p)"
    using assms(2,3) by (simp_all add: q_frame_def)
  have "qlist st' p (map hd ms)" by (rule qlist_frame [OF qmsgsD(1) [OF assms(1)]]) (use f assms(4) in auto)
  then show ?thesis using qmsgsD(2,3) [OF assms(1)] f qweight_same [OF f(1)] message_same [OF f(1)] by (simp add: qmsgs_def)
qed

lemma qmsgs_body: "qmsgs cfg st p ms \<Longrightarrow> body_same st st' \<Longrightarrow> qmsgs cfg st' p ms"
  using qmsgs_frame [OF _ body_frame [of st st' "Suc p" "{}"], of cfg p ms] by simp

lemma qmsgs_flag: "w \<in> qflags \<Longrightarrow> w \<noteq> QREADR \<Longrightarrow> qmsgs cfg st p ms \<Longrightarrow> qmsgs cfg (q_on w q st) p ms"
    "w \<in> qflags \<Longrightarrow> w \<noteq> QREADR \<Longrightarrow> qmsgs cfg st p ms \<Longrightarrow> qmsgs cfg (q_off w q st) p ms"
proof -
  show "qmsgs cfg st p ms \<Longrightarrow> qmsgs cfg (q_on w q st) p ms" "qmsgs cfg st p ms \<Longrightarrow> qmsgs cfg (q_off w q st) p ms"
    using qweight_same [OF pool_same_flag(1)] qweight_same [OF pool_same_flag(2)] message_same [OF pool_same_flag(1)] message_same [OF pool_same_flag(2)]
    by (auto simp: qmsgs_def qlist_def)
qed

section \<open>Enabling the queue behind\<close>

lemma back_srv_same: "plumb_same st st' \<Longrightarrow> back_srv n p st' = back_srv n p st"
proof (induction n arbitrary: p)
  case 0
  then show ?case by (cases p) (simp_all add: plumb_same_view cong: if_cong)
next
  case (Suc n)
  then show ?case by (cases p) (simp_all add: plumb_same_view cong: if_cong)
qed

lemma enq_back_same: "plumb_same st st' \<Longrightarrow> enq_back st' q R = enq_back st q R"
  by (simp add: enq_back_def back_of_def back_srv_same plumb_same_view enq_same split: option.splits)

lemma runlist_cong:
  assumes "runlist st R" "plumb_same st st'" "\<forall>q. q_link (queues st' q) = q_link (queues st q) \<and> (q_is st' q QENAB \<longleftrightarrow> q_is st q QENAB)"
    "qhead st' = qhead st" "qtail st' = qtail st"
  shows "runlist st' R"
  using assms by (simp add: runlist_def plumb_same_view)

lemma runlist_off:
  assumes "runlist st R" "w \<in> qflags" "w \<noteq> QENAB"
  shows "runlist (q_on w q st) R" "runlist (q_off w q st) R"
  using assms by (simp_all add: runlist_def q_is_on q_is_off srvp_def)

text \<open>A writer behind is due for its turn: the count is down to the low-water mark and it has been refused.\<close>

definition due :: "strst \<Rightarrow> nat \<Rightarrow> bool" where
  "due st q \<longleftrightarrow> q_count (queues st q) \<le> q_lowat (queues st q) \<and> q_is st q QWANTW"

lemma back_enable_ok:
  assumes R: "runlist st R" and q: "plumbed st" "q < v_nqueue st"
  obtains st' where "back_enable q st = Some st'" "runlist st' (if due st q then enq_back st q R else R)"
    "body_same (if due st q then q_off QWANTW q st else st) st'"
proof (cases "due st q")
  case True
  let ?s = "q_off QWANTW q st"
  have p: "plumb_same st ?s" by (simp add: plumb_same_flag)
  have s: "runlist ?s R" "plumbed ?s" "q < v_nqueue ?s" using runlist_off [OF R] plumb_same_plumbed [OF p] q by simp_all
  obtain st' where "back_run q ?s = Some st'" "runlist st' (enq_back ?s q R)" "body_same ?s st'" by (rule back_run_ok [OF s])
  then show ?thesis using that [of st'] True enq_back_same [OF p] by (simp add: back_enable_def due_def)
next
  case False
  then show ?thesis using that [of st] R by (auto simp: back_enable_def due_def)
qed

section \<open>Taking the first message\<close>

lemma set_links_commute:
  "set_b_next b p (q_off w q st) = q_off w q (set_b_next b p st)" "set_b_prev b p (q_off w q st) = q_off w q (set_b_prev b p st)"
  "set_b_next b p (lightened q c st) = lightened q c (set_b_next b p st)" "set_b_prev b p (lightened q c st) = lightened q c (set_b_prev b p st)"
  by (simp_all add: set_b_next_def set_b_prev_def q_off_def upd_qu_def upd_mb_def lightened_def Let_def)

lemma getq_take_ok:
  assumes q: "qlist st q (hd m # ys)" and m: "message cfg st m" and c: "q_count (queues st q) = uint16 c"
  shows "getq_take cfg q (hd m) st = Some (q_off QWANTR q (lightened q (uint16 (c - weight st m)) (link_out q [] (hd m) ys st)))"
proof -
  let ?b = "hd m" and ?R = "relink (mbnext st) (mbprev st) q (q_first (queues st q)) (q_last (queues st q)) st"
  let ?S = "relink (mbnext st) (if ys = [] then mbprev st else (mbprev st)(hd ys := None)) q (hdp ys) (lastp None ys) st"
  have at: "mbnext st ?b = hdp ys" using qlist_at(1) [of st q "[]" ?b ys] q by simp
  have dis: "?b \<notin> set ys" using qlistD(4) [OF q] by simp
  have l: "q_last (queues st q) = lastp None (?b # ys)" using qlistD(3) [OF q] .
  have 1: "(let st1 = set_first q (b_next (mblock ?R ?b)) ?R in case q_first (queues st1 q) of None \<Rightarrow> set_last q None st1 | Some f \<Rightarrow> set_b_prev f None st1) = ?S"
    using at l by (cases ys) (simp_all add: relink_mb relink_steps Let_def lastp_Cons2)
  have S: "q_lighter cfg q ?b ?S = Some (lightened q (uint16 (c - weight ?S m)) ?S)"
    by (rule q_lighter_ok [OF message_same [OF _ m]]) (use c in simp_all)
  have "getq_take cfg q ?b ?R = Some (set_b_next ?b None (set_b_prev ?b None (q_off QWANTR q (lightened q (uint16 (c - weight ?S m)) ?S))))"
    unfolding getq_take_def using 1 S by (simp add: Let_def)
  moreover have "weight ?S m = weight st m" by (rule weight_same) simp
  moreover have "set_b_next ?b None (set_b_prev ?b None ?S) = link_out q [] ?b ys st"
    using dis by (cases ys) (simp_all add: relink_steps link_out_def fun_upd_twist lastp_Cons2)
  ultimately show ?thesis by (simp only: set_links_commute relink_id)
qed

text \<open>What is true of a queue after a message has been taken out: \<open>w\<close> says whether \<open>QWANTR\<close> is cleared too.\<close>

definition drained :: "bool \<Rightarrow> nat \<Rightarrow> strst \<Rightarrow> strst \<Rightarrow> bool" where
  "drained w q st st' \<longleftrightarrow> (\<forall>v\<in>qflags - {QENAB}. q_is st' q v \<longleftrightarrow> q_is st q v \<and> \<not> (w \<and> v = QWANTR) \<and>
     \<not> (v = QFULL \<and> q_count (queues st' q) < q_hiwat (queues st q)) \<and> \<not> (v = QWANTW \<and> q_count (queues st' q) \<le> q_lowat (queues st q)))"

lemma take_ok:
  assumes q: "qmsgs cfg st q (ms @ m # ns)" and R: "runlist st R" and p: "plumbed st" "q < v_nqueue st"
    and e: "st1 = (let s = lightened q (uint16 (qweight st (ms @ m # ns) - weight st m)) (link_out q (map hd ms) (hd m) (map hd ns) st) in
      if w then q_off QWANTR q s else s)"
  obtains st' where "back_enable q st1 = Some st'" "qmsgs cfg st' q (ms @ ns)" "q_frame st st' q (hd ` set (ms @ m # ns))" "drained w q st st'"
    "runlist st' (if uint16 (qweight st (ms @ ns)) \<le> q_lowat (queues st q) \<and> q_is st q QWANTW then enq_back st q R else R)"
    "mbnext st' (hd m) = None" "mbprev st' (hd m) = None"
proof -
  let ?l = "link_out q (map hd ms) (hd m) (map hd ns) st" and ?c = "uint16 (qweight st (ms @ ns))"
  let ?s = "lightened q ?c ?l" and ?H = "hd ` set (ms @ m # ns)"
  have st1: "st1 = (if w then q_off QWANTR q ?s else ?s)" using e by (simp add: Let_def)
  have ql: "qlist st q (map hd ms @ hd m # map hd ns)" using qmsgsD(1) [OF q] by simp
  have dis: "hd m \<notin> set (map hd ms @ map hd ns)" using qlistD(4) [OF ql] by simp
  have f0: "q_frame st ?l q ?H" by (rule link_out_framed) auto
  have f1: "q_frame st st1 q ?H" unfolding st1 using q_frame_trans [OF f0 recount_frame(1)] q_frame_trans [OF _ flag_frame(2)] by simp
  have s1: "pool_same st st1" "plumb_same st st1" using f1 by (simp_all add: q_frame_def)
  have fl: "q_is st1 q v \<longleftrightarrow> q_is st q v \<and> \<not> (w \<and> v = QWANTR) \<and> \<not> (v = QFULL \<and> ?c < q_hiwat (queues st q))" if "v \<in> qflags" for v
    unfolding st1 using that by (auto simp: q_is_off recount_flags link_out_def)
  have c1: "q_count (queues st1 q) = ?c" by (simp add: st1)
  have d: "due st1 q \<longleftrightarrow> ?c \<le> q_lowat (queues st q) \<and> q_is st q QWANTW" unfolding due_def c1 fl [OF qflags_in(3)]
    using plumb_same_view(7) [OF s1(2)] by simp
  have r1: "runlist st1 R"
  proof -
    have "q_is ?s p QENAB \<longleftrightarrow> q_is st p QENAB" for p using recount_flags(1) [of QENAB q ?c ?l p] by simp
    then have "runlist ?s R" using plumb_same_trans [OF link_out_sel(6) recount_same(3)] by (intro runlist_cong [OF R]) simp_all
    then show ?thesis unfolding st1 by (simp add: runlist_off)
  qed
  have ql1: "qlist st1 q (map hd (ms @ ns))"
    using link_out_list [OF ql] unfolding st1 by (simp add: qlist_def)
  have lk: "mbnext st1 (hd m) = None" "mbprev st1 (hd m) = None" 
  proof -
    have "map hd ms \<noteq> [] \<Longrightarrow> last (map hd ms) \<noteq> hd m" "map hd ns \<noteq> [] \<Longrightarrow> hd (map hd ns) \<noteq> hd m"
      using dis last_in_set [of "map hd ms"] hd_in_set [of "map hd ns"] by auto
    then show "mbnext st1 (hd m) = None" "mbprev st1 (hd m) = None" unfolding st1 by (auto simp: link_out_def relink_def)
  qed
  have pl1: "plumbed st1" "q < v_nqueue st1" using plumb_same_plumbed [OF s1(2) p(1)] plumb_same_view(4) [OF s1(2)] p(2) by simp_all
  obtain st' where st': "back_enable q st1 = Some st'" "runlist st' (if due st1 q then enq_back st1 q R else R)"
    "body_same (if due st1 q then q_off QWANTW q st1 else st1) st'" by (rule back_enable_ok [OF r1 pl1])
  let ?t = "if due st1 q then q_off QWANTW q st1 else st1"
  have t: "q_frame st1 ?t q ?H" "mblock ?t = mblock st1" using flag_frame(2) [of QWANTW st1 q ?H] body_frame [of st1 st1 q ?H] by simp_all
  have fr: "q_frame st st' q ?H" by (rule q_frame_trans [OF f1 q_frame_trans [OF t(1) body_frame [OF st'(3)]]])
  have ms: "qmsgs cfg st1 q (ms @ ns)"
    unfolding qmsgs_def using ql1 c1 qweight_same [OF s1(1)] message_same [OF s1(1) qmsgsD(2) [OF q]] by auto
  then have "qmsgs cfg ?t q (ms @ ns)" using qmsgs_flag(2) [of QWANTW cfg st1 q "ms @ ns" q] by simp
  then have q': "qmsgs cfg st' q (ms @ ns)" by (rule qmsgs_body [OF _ st'(3)])
  have "q_is st' q v \<longleftrightarrow> q_is ?t q v" if "v \<in> qflags - {QENAB}" for v using st'(3) that by (auto simp: body_same_def)
  moreover have "q_count (queues st' q) = ?c" using qmsgsD(3) [OF q'] qweight_same [of st st'] fr by (simp add: q_frame_def)
  ultimately have "drained w q st st'" unfolding drained_def using fl d by (auto simp: q_is_off)
  moreover have "mblock st' = mblock st1" using st'(3) t(2) by (simp add: body_same_def)
  ultimately show thesis using that [OF st'(1) q' fr] st'(2) lk d enq_back_same [OF s1(2)] by (simp cong: if_cong)
qed

text \<open>\<open>getq\<close> and \<open>rmvq\<close>, from a queue with its messages.\<close>

lemma getq_some:
  assumes q: "qmsgs cfg st q (m # ns)" and R: "runlist st R" and p: "plumbed st" "q < v_nqueue st"
  obtains st' where "getq cfg q st = Some (Some (hd m), st')" "qmsgs cfg st' q ns" "q_frame st st' q (hd ` set (m # ns))" "drained True q st st'"
    "runlist st' (if uint16 (qweight st ns) \<le> q_lowat (queues st q) \<and> q_is st q QWANTW then enq_back st q R else R)"
    "mbnext st' (hd m) = None" "mbprev st' (hd m) = None"
proof -
  have ql: "qlist st q (hd m # map hd ns)" using qmsgsD(1) [OF q] by simp
  have m: "message cfg st m" by (rule qmsgsD(2) [OF q]) simp
  note t = getq_take_ok [OF ql m qmsgsD(3) [OF q]]
  have f: "q_first (queues st q) = Some (hd m)" using qlistD(2) [OF ql] by simp
  obtain st' where st': "back_enable q (q_off QWANTR q (lightened q (uint16 (qweight st (m # ns) - weight st m)) (link_out q [] (hd m) (map hd ns) st))) = Some st'"
    "qmsgs cfg st' q ([] @ ns)" "q_frame st st' q (hd ` set ([] @ m # ns))" "drained True q st st'"
    "runlist st' (if uint16 (qweight st ([] @ ns)) \<le> q_lowat (queues st q) \<and> q_is st q QWANTW then enq_back st q R else R)"
    "mbnext st' (hd m) = None" "mbprev st' (hd m) = None"
    by (rule take_ok [where ms = "[]" and ns = ns and m = m and w = True, OF _ R p]) (use q in \<open>simp_all add: Let_def\<close>)
  show thesis by (rule that [of st']) (use st' t f in \<open>simp_all add: getq_def\<close>)
qed

lemma getq_none:
  assumes q: "qmsgs cfg st q []" and R: "runlist st R" and p: "plumbed st" "q < v_nqueue st" and w: "\<not> due st q"
  shows "getq cfg q st = Some (None, q_on QWANTR q st)"
proof -
  have f: "q_first (queues st q) = None" using qlistD(2) [OF qmsgsD(1) [OF q]] by simp
  have "\<not> due (q_on QWANTR q st) q" using w by (simp add: due_def q_is_on)
  then show ?thesis using f by (auto simp: getq_def back_enable_def due_def)
qed

lemma rmvq_ok:
  assumes q: "qmsgs cfg st q (ms @ m # ns)" and R: "runlist st R" and p: "plumbed st" "q < v_nqueue st"
  obtains st' where "rmvq cfg q (hd m) st = Some st'" "qmsgs cfg st' q (ms @ ns)" "q_frame st st' q (hd ` set (ms @ m # ns))" "drained False q st st'"
    "runlist st' (if uint16 (qweight st (ms @ ns)) \<le> q_lowat (queues st q) \<and> q_is st q QWANTW then enq_back st q R else R)"
    "mbnext st' (hd m) = None" "mbprev st' (hd m) = None"
proof -
  let ?l = "link_out q (map hd ms) (hd m) (map hd ns) st"
  have ql: "qlist st q (map hd ms @ hd m # map hd ns)" using qmsgsD(1) [OF q] by simp
  have m: "message cfg st m" by (rule qmsgsD(2) [OF q]) simp
  have u: "q_unlink q (hd m) st = ?l" by (rule q_unlink_link [OF ql])
  have "q_lighter cfg q (hd m) ?l = Some (lightened q (uint16 (qweight st (ms @ m # ns) - weight ?l m)) ?l)"
    by (rule q_lighter_ok [OF message_same [OF link_out_sel(5) m]]) (use qmsgsD(3) [OF q] in simp)
  then have l: "q_lighter cfg q (hd m) ?l = Some (lightened q (uint16 (qweight st (ms @ m # ns) - weight st m)) ?l)"
    using weight_same [of st ?l] by simp
  obtain st' where st': "back_enable q (lightened q (uint16 (qweight st (ms @ m # ns) - weight st m)) ?l) = Some st'"
    "qmsgs cfg st' q (ms @ ns)" "q_frame st st' q (hd ` set (ms @ m # ns))" "drained False q st st'"
    "runlist st' (if uint16 (qweight st (ms @ ns)) \<le> q_lowat (queues st q) \<and> q_is st q QWANTW then enq_back st q R else R)"
    "mbnext st' (hd m) = None" "mbprev st' (hd m) = None"
    by (rule take_ok [where w = False, OF q R p]) (simp_all add: Let_def)
  show thesis by (rule that [of st']) (use st' u l in \<open>simp_all add: rmvq_def\<close>)
qed

end
