(* ===== verification/StreamPut.thy ===== *)
theory StreamPut
  imports StreamGet
begin

text \<open>
  Putting messages on a queue: \<open>putq\<close> behind the messages of its class and above, \<open>putbq\<close> before those of its class
  and below, \<open>insq\<close> before a given one. A priority message, or any message when a reader waits, enables the queue.
\<close>

section \<open>The class of a message\<close>

definition mclass :: "strst \<Rightarrow> nat list \<Rightarrow> u8" where
  "mclass st m = the (queclass st (hd m))"

definition ordered :: "strst \<Rightarrow> nat list list \<Rightarrow> bool" where
  "ordered st ms \<longleftrightarrow> sorted_wrt (\<lambda>a b. mclass st b \<le> mclass st a) ms"

lemma mclass_eq: "message cfg st m \<Longrightarrow> queclass st (hd m) = Some (mclass st m)"
proof -
  assume m: "message cfg st m"
  obtain d where "mbdata st (hd m) = Some d" using messageD(4) [OF m messageD(5) [OF m]] by blast
  then show ?thesis by (simp add: mclass_def queclass_def btype_def)
qed

lemma mclass_same: "pool_same st st' \<Longrightarrow> mclass st' m = mclass st m"
  by (simp add: mclass_def pool_same_view)

lemma ordered_same: "pool_same st st' \<Longrightarrow> ordered st' ms = ordered st ms"
  by (simp add: ordered_def mclass_same)

text \<open>The two places for a message among the others.\<close>

definition put_last :: "strst \<Rightarrow> nat list \<Rightarrow> nat list list \<Rightarrow> nat list list" where
  "put_last st m ms = takeWhile (\<lambda>a. mclass st m \<le> mclass st a) ms @ m # dropWhile (\<lambda>a. mclass st m \<le> mclass st a) ms"

definition put_first :: "strst \<Rightarrow> nat list \<Rightarrow> nat list list \<Rightarrow> nat list list" where
  "put_first st m ms = takeWhile (\<lambda>a. mclass st m < mclass st a) ms @ m # dropWhile (\<lambda>a. mclass st m < mclass st a) ms"

lemma ordered_split:
  assumes "ordered st ms" and P: "\<And>a b. mclass st b \<le> mclass st a \<Longrightarrow> P b \<Longrightarrow> P a"
  shows "a \<in> set (dropWhile P ms) \<Longrightarrow> \<not> P a"
  using assms(1)
proof (induction ms)
  case (Cons x xs)
  show ?case
  proof (cases "P x")
    case True
    then show ?thesis using Cons by (simp add: ordered_def)
  next
    case False
    then have "a = x \<or> mclass st a \<le> mclass st x" using Cons.prems by (auto simp: ordered_def)
    then show ?thesis using P False by blast
  qed
qed simp

lemma sorted_wrt_insert:
  "sorted_wrt r (xs @ ys) \<Longrightarrow> \<forall>a\<in>set xs. r a m \<Longrightarrow> \<forall>b\<in>set ys. r m b \<Longrightarrow> sorted_wrt r (xs @ m # ys)"
  by (auto simp: sorted_wrt_append)

lemma put_ordered: "ordered st ms \<Longrightarrow> ordered st (put_last st m ms)" "ordered st ms \<Longrightarrow> ordered st (put_first st m ms)"
proof -
  assume o: "ordered st ms"
  have "mclass st b \<le> mclass st m" if "b \<in> set (dropWhile (\<lambda>a. mclass st m \<le> mclass st a) ms)" for b
    using ordered_split [OF o _ that] by (metis linear order_trans)
  then show "ordered st (put_last st m ms)" unfolding put_last_def ordered_def
    by (intro sorted_wrt_insert) (use o in \<open>auto simp: ordered_def dest: set_takeWhileD\<close>)
  have "mclass st b \<le> mclass st m" if "b \<in> set (dropWhile (\<lambda>a. mclass st m < mclass st a) ms)" for b
    using ordered_split [OF o _ that] by (metis linorder_not_le order_less_le_trans)
  then show "ordered st (put_first st m ms)" unfolding put_first_def ordered_def
    by (intro sorted_wrt_insert) (use o in \<open>auto simp: ordered_def dest: set_takeWhileD\<close>)
qed

section \<open>Finding the place\<close>

lemma below_class_ok:
  "linked (mbnext st) p (xs @ b # ys) \<Longrightarrow> \<forall>a\<in>set xs. \<exists>c. queclass st a = Some c \<and> cls \<le> c \<Longrightarrow> queclass st b = Some e \<Longrightarrow> e < cls \<Longrightarrow>
   length xs < n \<Longrightarrow> below_class n cls p st = Some b"
proof (induction xs arbitrary: n p)
  case Nil
  then show ?case by (cases n) auto
next
  case (Cons a xs)
  then show ?case by (cases n) auto
qed

lemma above_class_ok:
  "linked (mbnext st) (Some x) (x # xs @ ys) \<Longrightarrow> \<forall>a\<in>set xs. \<exists>c. queclass st a = Some c \<and> cls < c \<Longrightarrow>
   ys \<noteq> [] \<longrightarrow> (\<exists>c. queclass st (hd ys) = Some c \<and> c \<le> cls) \<Longrightarrow> length xs \<le> n \<Longrightarrow> above_class n cls x st = Some (last (x # xs))"
proof (induction xs arbitrary: n x)
  case Nil
  show ?case
  proof (cases ys)
    case Nil
    then show ?thesis using \<open>linked (mbnext st) (Some x) (x # [] @ ys)\<close> by (simp add: above_class.simps)
  next
    case (Cons y zs)
    then show ?thesis using Nil by (subst above_class.simps) auto
  qed
next
  case (Cons a xs)
  obtain k where n: "n = Suc k" "length xs \<le> k" using Cons.prems(4) by (cases n) auto
  have "above_class k cls a st = Some (last (a # xs))" by (rule Cons.IH) (use Cons.prems n in auto)
  then show ?case using Cons.prems n by (subst above_class.simps) auto
qed

lemma heads_fit:
  assumes "qmsgs cfg st q ms"
  shows "length ms \<le> nmblock cfg"
proof -
  have "length (map hd ms) \<le> nmblock cfg"
    by (rule linked_length [OF dlinked_linked [OF qlistD(1) [OF qmsgsD(1) [OF assms]]]])
      (use messageD(7) qmsgsD(2) [OF assms] in auto)
  then show ?thesis by simp
qed

lemma putq_link_ok:
  assumes q: "qmsgs cfg st q ms" and o: "ordered st ms" and m: "message cfg st m" "hd m \<notin> hd ` set ms"
  defines "P \<equiv> \<lambda>a. mclass st m \<le> mclass st a"
  shows "putq_link cfg q (hd m) (mclass st m) st = Some (link_in q (map hd (takeWhile P ms)) (hd m) (map hd (dropWhile P ms)) st)"
proof -
  note Q = qmsgsD [OF q]
  note ql = qlistD [OF Q(1)]
  have nin: "hd m \<notin> set (map hd ms)" using m(2) by simp
  show ?thesis
  proof (cases "ms = []")
    case True
    then show ?thesis using q_append_link [OF Q(1) nin] ql(2) by (simp add: putq_link_def)
  next
    case ne: False
    obtain f where f: "q_first (queues st q) = Some f" using ne ql(2) by (cases ms) simp_all
    have l: "q_last (queues st q) = Some (hd (last ms))" using ne ql(3) by (simp add: lastp_def last_map)
    have lc: "queclass st (hd (last ms)) = Some (mclass st (last ms))" by (rule mclass_eq [OF Q(2)]) (use ne in simp)
    show ?thesis
    proof (cases "P (last ms)")
      case True
      have "P a" if "a \<in> set ms" for a
      proof -
        have "mclass st (last ms) \<le> mclass st a" using o that ne by (cases ms rule: rev_cases) (auto simp: ordered_def sorted_wrt_append)
        then show ?thesis using True by (auto simp: P_def)
      qed
      then have "takeWhile P ms = ms" "dropWhile P ms = []" by simp_all
      moreover have "putq_link cfg q (hd m) (mclass st m) st = q_append q (hd m) st" using True f l lc by (simp add: putq_link_def P_def)
      ultimately show ?thesis using q_append_link [OF Q(1) nin] by (simp only: list.map)
    next
      case False
      then obtain nb ds where d: "dropWhile P ms = nb # ds" using ne by (metis dropWhile_eq_Nil_conv last_in_set neq_Nil_conv)
      let ?ts = "takeWhile P ms"
      have ms: "ms = ?ts @ nb # ds" using d by (metis takeWhile_dropWhile_id)
      have ql': "qlist st q (map hd ?ts @ hd nb # map hd ds)" using Q(1) ms by (metis list.simps(9) map_append)
      have nb: "nb \<in> set ms" "\<not> P nb" using ms d by (metis in_set_conv_decomp, metis dropWhile_eq_Cons_conv)
      have "below_class (nmblock cfg) (mclass st m) (q_first (queues st q)) st = Some (hd nb)"
      proof (rule below_class_ok [OF dlinked_linked [OF qlistD(1) [OF ql']] _ mclass_eq [OF Q(2) [OF nb(1)]]])
        show "\<forall>a\<in>set (map hd ?ts). \<exists>c. queclass st a = Some c \<and> mclass st m \<le> c"
          using mclass_eq [OF Q(2)] by (auto simp: P_def dest!: set_takeWhileD)
        show "mclass st nb < mclass st m" using nb(2) by (simp add: P_def)
        have "length ms \<le> nmblock cfg" by (rule heads_fit [OF q])
        then show "length (map hd ?ts) < nmblock cfg" by (subst (asm) ms) simp
      qed
      then have "putq_link cfg q (hd m) (mclass st m) st = Some (q_before q (hd m) (hd nb) st)"
        using False f l lc by (simp add: putq_link_def P_def)
      moreover have "hd m \<notin> set (map hd ?ts @ hd nb # map hd ds)" using nin by (subst (asm) ms) simp
      ultimately show ?thesis using q_before_link [OF ql'] d by simp
    qed
  qed
qed

lemma putbq_link_ok:
  assumes q: "qmsgs cfg st q ms" and o: "ordered st ms" and m: "message cfg st m" "hd m \<notin> hd ` set ms"
  defines "P \<equiv> \<lambda>a. mclass st m < mclass st a"
  shows "putbq_link cfg q (hd m) (mclass st m) st = Some (link_in q (map hd (takeWhile P ms)) (hd m) (map hd (dropWhile P ms)) st)"
proof -
  note Q = qmsgsD [OF q]
  note ql = qlistD [OF Q(1)]
  have nin: "hd m \<notin> set (map hd ms)" using m(2) by simp
  show ?thesis
  proof (cases ms)
    case Nil
    then show ?thesis using q_front_link [OF Q(1) nin] ql(2) by (simp add: putbq_link_def)
  next
    case (Cons a as)
    have f: "q_first (queues st q) = Some (hd a)" using ql(2) Cons by simp
    have fc: "queclass st (hd a) = Some (mclass st a)" by (rule mclass_eq [OF Q(2)]) (simp add: Cons)
    show ?thesis
    proof (cases "P a")
      case False
      then have "mclass st a \<le> mclass st m" by (simp add: P_def)
      then show ?thesis using False Cons f fc q_front_link [OF Q(1) nin] by (simp add: putbq_link_def P_def)
    next
      case True
      let ?ts = "takeWhile P as" and ?ds = "dropWhile P as"
      have as: "map hd ms = map hd (a # ?ts) @ map hd ?ds" using Cons by (simp flip: map_append)
      have nb: "above_class (nmblock cfg) (mclass st m) (hd a) st = Some (last (hd a # map hd ?ts))"
      proof (rule above_class_ok [of st "hd a" "map hd ?ts" "map hd ?ds"])
        show "linked (mbnext st) (Some (hd a)) (hd a # map hd ?ts @ map hd ?ds)"
          using dlinked_linked [OF ql(1)] as f by simp
        show "\<forall>x\<in>set (map hd ?ts). \<exists>c. queclass st x = Some c \<and> mclass st m < c"
          using mclass_eq [OF Q(2)] Cons by (auto simp: P_def dest!: set_takeWhileD)
        show "map hd ?ds \<noteq> [] \<longrightarrow> (\<exists>c. queclass st (hd (map hd ?ds)) = Some c \<and> c \<le> mclass st m)"
        proof
          assume "map hd ?ds \<noteq> []"
          then have d: "?ds \<noteq> []" by simp
          have "hd ?ds \<in> set as" by (rule set_dropWhileD [OF hd_in_set [OF d]])
          then have "hd ?ds \<in> set ms" using Cons by simp
          moreover have "\<not> P (hd ?ds)" by (rule hd_dropWhile [OF d])
          ultimately show "\<exists>c. queclass st (hd (map hd ?ds)) = Some c \<and> c \<le> mclass st m"
            using mclass_eq [OF Q(2)] d by (simp add: P_def hd_map)
        qed
        have "length (map hd ?ts) \<le> length as" by (simp add: length_takeWhile_le)
        then show "length (map hd ?ts) \<le> nmblock cfg" using heads_fit [OF q] Cons by simp
      qed
      obtain xs x where xs: "hd a # map hd ?ts = xs @ [x]" by (metis rev_exhaust list.distinct(1))
      have ql': "qlist st q (xs @ x # map hd ?ds)" using Q(1) as xs by simp
      have "putbq_link cfg q (hd m) (mclass st m) st = Some (q_after q (hd m) x st)"
        using True f fc nb [unfolded xs last_snoc] by (simp add: putbq_link_def P_def not_le)
      moreover have "hd m \<notin> set (xs @ x # map hd ?ds)" using nin as xs by simp
      moreover have "takeWhile P ms = a # ?ts" "dropWhile P ms = ?ds" using Cons True by simp_all
      ultimately show ?thesis using q_after_link [OF ql'] xs by simp
    qed
  qed
qed

section \<open>A message put at its place\<close>

text \<open>What is true of a queue after a message has been added.\<close>

definition loaded :: "nat \<Rightarrow> strst \<Rightarrow> strst \<Rightarrow> bool" where
  "loaded q st st' \<longleftrightarrow> (\<forall>v\<in>qflags - {QENAB}. q_is st' q v \<longleftrightarrow> q_is st q v \<or> v = QFULL \<and> q_hiwat (queues st q) \<le> q_count (queues st' q))"

definition wakes :: "strst \<Rightarrow> nat \<Rightarrow> u8 \<Rightarrow> bool" where
  "wakes st q cls \<longleftrightarrow> 0 < cls \<or> \<not> q_is st q QNOENB \<and> q_is st q QWANTR"

lemma put_ok:
  assumes q: "qmsgs cfg st q (ms @ ns)" and m: "message cfg st m" "hd m \<notin> hd ` set (ms @ ns)" and R: "runlist st R"
    and p: "plumbed st" "q < v_nqueue st"
  obtains st' where "(do { st1 \<leftarrow> q_heavier cfg q (hd m) (link_in q (map hd ms) (hd m) (map hd ns) st); put_enable q cls st1 }) = Some st'"
    "qmsgs cfg st' q (ms @ m # ns)" "q_frame st st' q (hd ` set (ms @ m # ns))" "loaded q st st'"
    "runlist st' (if wakes st q cls then enq st q R else R)"
proof -
  let ?l = "link_in q (map hd ms) (hd m) (map hd ns) st" and ?c = "uint16 (qweight st (ms @ ns) + weight st m)"
  let ?s = "burdened q ?c ?l" and ?H = "hd ` set (ms @ m # ns)"
  have ql: "qlist st q (map hd ms @ map hd ns)" using qmsgsD(1) [OF q] by simp
  have nin: "hd m \<notin> set (map hd ms @ map hd ns)" using m(2) by auto
  have h: "q_heavier cfg q (hd m) ?l = Some ?s"
  proof -
    have "message cfg ?l m" by (rule message_same [OF link_in_sel(5) m(1)])
    moreover have "q_count (queues ?l q) = uint16 (qweight st (ms @ ns))" using qmsgsD(3) [OF q] by simp
    ultimately show ?thesis using q_heavier_ok [of cfg ?l m q] weight_same [of st ?l m] by simp
  qed
  have f0: "q_frame st ?l q ?H" by (rule link_in_framed) auto
  have f1: "q_frame st ?s q ?H" by (rule q_frame_trans [OF f0 recount_frame(2)])
  have s1: "pool_same st ?s" "plumb_same st ?s" using f1 by (simp_all add: q_frame_def)
  have fl: "q_is ?s q v \<longleftrightarrow> q_is st q v \<or> v = QFULL \<and> q_hiwat (queues st q) \<le> ?c" if "v \<in> qflags" for v
    using that recount_flags(2) [OF that, of q ?c ?l q] by (simp add: link_in_def)
  have "q_is ?s p QENAB \<longleftrightarrow> q_is st p QENAB" for p using recount_flags(2) [of QENAB q ?c ?l p] by simp
  then have r1: "runlist ?s R" using s1(2) by (intro runlist_cong [OF R]) simp_all
  have ql1: "qlist ?s q (map hd (ms @ m # ns))" using link_in_list [OF ql nin] by (simp add: qlist_def)
  have ms: "qmsgs cfg ?s q (ms @ m # ns)"
    unfolding qmsgs_def using ql1 qweight_same [OF s1(1)] weight_same [OF s1(1)] message_same [OF s1(1)] qmsgsD(2) [OF q] m(1) by (auto simp: algebra_simps)
  have w: "wakes ?s q cls = wakes st q cls" using fl [of QNOENB] fl [of QWANTR] by (simp add: wakes_def)
  have "\<exists>st'. put_enable q cls ?s = Some st' \<and> runlist st' (if wakes st q cls then enq st q R else R) \<and> body_same ?s st'"
  proof (cases "wakes ?s q cls")
    case True
    obtain s where s: "srvp st q = Some s" using plumbed_srvp [OF p] by blast
    then have "srvp ?s q = Some s" "q < v_nqueue ?s" using plumb_same_view(1,4) [OF s1(2)] p(2) by simp_all
    then obtain st' where "qenable q ?s = Some st'" "runlist st' (enq ?s q R)" "body_same ?s st'" using qenable_ok [OF r1] by metis
    then show ?thesis using True w enq_same [OF s1(2)] by (auto simp: put_enable_def wakes_def)
  next
    case False
    then show ?thesis using r1 w by (intro exI [of _ ?s]) (auto simp: put_enable_def wakes_def)
  qed
  then obtain st' where st': "put_enable q cls ?s = Some st'" "runlist st' (if wakes st q cls then enq st q R else R)" "body_same ?s st'" by blast
  have q': "qmsgs cfg st' q (ms @ m # ns)" by (rule qmsgs_body [OF ms st'(3)])
  have fr: "q_frame st st' q ?H" by (rule q_frame_trans [OF f1 body_frame [OF st'(3)]])
  have "q_is st' q v \<longleftrightarrow> q_is ?s q v" if "v \<in> qflags - {QENAB}" for v using st'(3) that by (auto simp: body_same_def)
  moreover have "q_count (queues st' q) = ?c" using st'(3) by (simp add: body_same_def)
  ultimately have "loaded q st st'" unfolding loaded_def using fl by auto
  then show thesis using that [OF _ q' fr] st'(1,2) h by simp
qed

lemma put_last_set: "set (put_last st m ms) = insert m (set ms)" "set (put_first st m ms) = insert m (set ms)"
proof -
  have "set (xs @ m # ys) = insert m (set (xs @ ys))" for xs ys by auto
  from this [of "takeWhile P ms" "dropWhile P ms" for P] show "set (put_last st m ms) = insert m (set ms)" "set (put_first st m ms) = insert m (set ms)"
    unfolding put_last_def put_first_def by (simp_all only: takeWhile_dropWhile_id)
qed

lemma putq_ok:
  assumes q: "qmsgs cfg st q ms" and o: "ordered st ms" and m: "message cfg st m" "hd m \<notin> hd ` set ms" and R: "runlist st R"
    and p: "plumbed st" "q < v_nqueue st"
  obtains st' where "putq cfg q (hd m) st = Some st'" "qmsgs cfg st' q (put_last st m ms)" "q_frame st st' q (hd ` set (m # ms))" "loaded q st st'"
    "runlist st' (if wakes st q (mclass st m) then enq st q R else R)"
proof -
  let ?P = "\<lambda>a. mclass st m \<le> mclass st a"
  have q': "qmsgs cfg st q (takeWhile ?P ms @ dropWhile ?P ms)" using q by simp
  have m': "hd m \<notin> hd ` set (takeWhile ?P ms @ dropWhile ?P ms)" using m(2) unfolding takeWhile_dropWhile_id .
  obtain st' where "(do { st1 \<leftarrow> q_heavier cfg q (hd m) (link_in q (map hd (takeWhile ?P ms)) (hd m) (map hd (dropWhile ?P ms)) st);
      put_enable q (mclass st m) st1 }) = Some st'" "qmsgs cfg st' q (put_last st m ms)" "q_frame st st' q (hd ` set (put_last st m ms))" "loaded q st st'"
    "runlist st' (if wakes st q (mclass st m) then enq st q R else R)" unfolding put_last_def by (rule put_ok [OF q' m(1) m' R p])
  then show thesis using that [of st'] putq_link_ok [OF q o m] mclass_eq [OF m(1)] put_last_set(1) [of st m ms] by (simp add: putq_def)
qed

lemma putbq_ok:
  assumes q: "qmsgs cfg st q ms" and o: "ordered st ms" and m: "message cfg st m" "hd m \<notin> hd ` set ms" and R: "runlist st R"
    and p: "plumbed st" "q < v_nqueue st"
  obtains st' where "putbq cfg q (hd m) st = Some st'" "qmsgs cfg st' q (put_first st m ms)" "q_frame st st' q (hd ` set (m # ms))" "loaded q st st'"
    "runlist st' (if wakes st q (mclass st m) then enq st q R else R)"
proof -
  let ?P = "\<lambda>a. mclass st m < mclass st a"
  have q': "qmsgs cfg st q (takeWhile ?P ms @ dropWhile ?P ms)" using q by simp
  have m': "hd m \<notin> hd ` set (takeWhile ?P ms @ dropWhile ?P ms)" using m(2) unfolding takeWhile_dropWhile_id .
  obtain st' where "(do { st1 \<leftarrow> q_heavier cfg q (hd m) (link_in q (map hd (takeWhile ?P ms)) (hd m) (map hd (dropWhile ?P ms)) st);
      put_enable q (mclass st m) st1 }) = Some st'" "qmsgs cfg st' q (put_first st m ms)" "q_frame st st' q (hd ` set (put_first st m ms))" "loaded q st st'"
    "runlist st' (if wakes st q (mclass st m) then enq st q R else R)" unfolding put_first_def by (rule put_ok [OF q' m(1) m' R p])
  then show thesis using that [of st'] putbq_link_ok [OF q o m] mclass_eq [OF m(1)] put_last_set(2) [of st m ms] by (simp add: putbq_def)
qed

text \<open>\<open>insq\<close> puts a message before any message, or last.\<close>

lemma insq_ok:
  assumes q: "qmsgs cfg st q (ms @ ns)" and m: "message cfg st m" "hd m \<notin> hd ` set (ms @ ns)" and R: "runlist st R" and p: "plumbed st" "q < v_nqueue st"
  obtains st' where "insq cfg q (hdp (map hd ns)) (hd m) st = Some st'" "qmsgs cfg st' q (ms @ m # ns)" "q_frame st st' q (hd ` set (ms @ m # ns))"
    "loaded q st st'" "runlist st' (if wakes st q 0 then enq st q R else R)"
proof -
  have ql: "qlist st q (map hd ms @ map hd ns)" using qmsgsD(1) [OF q] by simp
  have nin: "hd m \<notin> set (map hd ms @ map hd ns)" using m(2) by auto
  obtain st' where st': "(do { st1 \<leftarrow> q_heavier cfg q (hd m) (link_in q (map hd ms) (hd m) (map hd ns) st); put_enable q 0 st1 }) = Some st'"
    "qmsgs cfg st' q (ms @ m # ns)" "q_frame st st' q (hd ` set (ms @ m # ns))" "loaded q st st'" "runlist st' (if wakes st q 0 then enq st q R else R)"
    by (rule put_ok [OF q m R p])
  show thesis by (rule that [of st']) (use st' insq_link_link [OF ql nin refl] in \<open>simp_all add: insq_def\<close>)
qed

end
