(* ===== verification/StreamFlow.thy ===== *)
theory StreamFlow
  imports StreamPut "HOL-Library.Multiset"
begin

text \<open>
  Flow control, and a queue as a priority queue. As long as the messages of a queue weigh less than the 65536 its
  count can hold, \<open>QFULL\<close> says that they reach the high-water mark, and a refused writer (\<open>QWANTW\<close>) waits only for a
  queue above its low-water mark. The locale \<open>pri_queue\<close> is the contract of \<open>putq\<close> and \<open>getq\<close> with their users.
\<close>

section \<open>The flow control flags\<close>

definition flow_ok :: "strst \<Rightarrow> nat \<Rightarrow> nat list list \<Rightarrow> bool" where
  "flow_ok st q ms \<longleftrightarrow> qweight st ms < 65536 \<and> 0 \<le> q_lowat (queues st q) \<and> q_lowat (queues st q) < q_hiwat (queues st q) \<and>
     (q_is st q QFULL \<longleftrightarrow> q_hiwat (queues st q) \<le> qweight st ms) \<and> (q_is st q QWANTW \<longrightarrow> q_lowat (queues st q) < qweight st ms)"

lemma flow_okD:
  assumes "flow_ok st q ms"
  shows "qweight st ms < 65536" "0 \<le> q_lowat (queues st q)" "q_lowat (queues st q) < q_hiwat (queues st q)"
    "q_is st q QFULL \<longleftrightarrow> q_hiwat (queues st q) \<le> qweight st ms" "q_is st q QWANTW \<Longrightarrow> q_lowat (queues st q) < qweight st ms"
  using assms by (auto simp: flow_ok_def)

text \<open>With the weight in range the count is the weight.\<close>

lemma qmsgs_count:
  assumes "qmsgs cfg st q ms" "qweight st ms < 65536"
  shows "q_count (queues st q) = qweight st ms"
  using qmsgsD(2,3) [OF assms(1)] qweight_nonneg [of ms cfg st] assms(2) by (simp add: uint16_id)

lemma flow_frame:
  assumes "flow_ok st p ms" "q_frame st st' q S" "p \<noteq> q"
  shows "flow_ok st' p ms"
proof -
  have f: "pool_same st st'" "plumb_same st st'" "\<forall>w\<in>qflags - {QENAB}. q_is st' p w \<longleftrightarrow> q_is st p w" using assms(2,3) by (simp_all add: q_frame_def)
  then have "q_is st' p QFULL \<longleftrightarrow> q_is st p QFULL" "q_is st' p QWANTW \<longleftrightarrow> q_is st p QWANTW" by simp_all
  then show ?thesis using assms(1) qweight_same [OF f(1)] plumb_same_view(6,7) [OF f(2)] by (simp add: flow_ok_def)
qed

lemma flow_body:
  assumes "flow_ok st p ms" "body_same st st'"
  shows "flow_ok st' p ms"
  by (rule flow_frame [OF assms(1) body_frame [OF assms(2), of "Suc p" "{}"]]) simp

lemma drained_flow:
  assumes f: "flow_ok st q (ms @ m # ns)" and m: "message cfg st m" and q: "qmsgs cfg st' q (ms @ ns)" and fr: "q_frame st st' q S" and d: "drained w q st st'"
  shows "flow_ok st' q (ms @ ns)"
proof -
  have s: "pool_same st st'" "plumb_same st st'" using fr by (simp_all add: q_frame_def)
  have w: "0 \<le> weight st m" by (rule weight_nonneg [OF m])
  have t: "qweight st' (ms @ ns) = qweight st (ms @ ns)" by (rule qweight_same [OF s(1)])
  have lt: "qweight st (ms @ ns) < 65536" "qweight st (ms @ ns) \<le> qweight st (ms @ m # ns)" using flow_okD(1) [OF f] w by simp_all
  have c: "q_count (queues st' q) = qweight st (ms @ ns)" using qmsgs_count [OF q] t lt(1) by simp
  have "q_is st' q QFULL \<longleftrightarrow> q_is st q QFULL \<and> \<not> qweight st (ms @ ns) < q_hiwat (queues st q)"
    "q_is st' q QWANTW \<longleftrightarrow> q_is st q QWANTW \<and> \<not> qweight st (ms @ ns) \<le> q_lowat (queues st q)"
    using d c unfolding drained_def by simp_all
  then show ?thesis using f lt t plumb_same_view(6,7) [OF s(2)] unfolding flow_ok_def by auto
qed

lemma loaded_flow:
  assumes f: "flow_ok st q (ms @ ns)" and m: "message cfg st m" and q: "qmsgs cfg st' q (ms @ m # ns)" and fr: "q_frame st st' q S" and d: "loaded q st st'"
    and lt: "qweight st (ms @ m # ns) < 65536"
  shows "flow_ok st' q (ms @ m # ns)"
proof -
  have s: "pool_same st st'" "plumb_same st st'" using fr by (simp_all add: q_frame_def)
  have w: "0 \<le> weight st m" by (rule weight_nonneg [OF m])
  have t: "qweight st' (ms @ m # ns) = qweight st (ms @ m # ns)" by (rule qweight_same [OF s(1)])
  have le: "qweight st (ms @ ns) \<le> qweight st (ms @ m # ns)" using w by simp
  have c: "q_count (queues st' q) = qweight st (ms @ m # ns)" using qmsgs_count [OF q] t lt by simp
  have "q_is st' q QFULL \<longleftrightarrow> q_is st q QFULL \<or> q_hiwat (queues st q) \<le> qweight st (ms @ m # ns)"
    "q_is st' q QWANTW \<longleftrightarrow> q_is st q QWANTW" using d c unfolding loaded_def by simp_all
  then show ?thesis using f lt le t plumb_same_view(6,7) [OF s(2)] unfolding flow_ok_def by auto
qed

text \<open>Put at either place, with the weight in range.\<close>

lemma split_weight: "qweight st (takeWhile P ms) + qweight st (dropWhile P ms) = qweight st ms"
  by (metis qweight_simps(3) takeWhile_dropWhile_id)

lemma put_flow:
  assumes f: "flow_ok st q ms" and m: "message cfg st m" and fr: "q_frame st st' q S" and d: "loaded q st st'" and lt: "qweight st (m # ms) < 65536"
  shows "qmsgs cfg st' q (put_last st m ms) \<Longrightarrow> flow_ok st' q (put_last st m ms)"
    "qmsgs cfg st' q (put_first st m ms) \<Longrightarrow> flow_ok st' q (put_first st m ms)"
proof -
  have f': "flow_ok st q (takeWhile P ms @ dropWhile P ms)" for P using f by simp
  have lt': "qweight st (takeWhile P ms @ m # dropWhile P ms) < 65536" for P using lt split_weight [of st P ms] by simp
  show "qmsgs cfg st' q (put_last st m ms) \<Longrightarrow> flow_ok st' q (put_last st m ms)"
    "qmsgs cfg st' q (put_first st m ms) \<Longrightarrow> flow_ok st' q (put_first st m ms)"
    unfolding put_last_def put_first_def by (rule loaded_flow [OF f' m _ fr d lt'], assumption)+
qed

text \<open>An empty queue has nobody to wake.\<close>

lemma flow_not_due: "flow_ok st q [] \<Longrightarrow> qmsgs cfg st q [] \<Longrightarrow> \<not> due st q"
  by (auto simp: flow_ok_def due_def qmsgs_def)

section \<open>The contract of a priority queue\<close>

locale pri_queue =
  fixes rep :: "'s \<Rightarrow> 'm list \<Rightarrow> bool" and cls :: "'m \<Rightarrow> 'c :: linorder" and key :: "'m \<Rightarrow> 'k" and fits :: "'m list \<Rightarrow> bool"
    and put :: "'k \<Rightarrow> 's \<Rightarrow> 's option" and get :: "'s \<Rightarrow> ('k option \<times> 's) option"
  assumes put_rep: "rep st ms \<Longrightarrow> fits (m # ms) \<Longrightarrow>
      \<exists>st'. put (key m) st = Some st' \<and> rep st' (takeWhile (\<lambda>a. cls m \<le> cls a) ms @ m # dropWhile (\<lambda>a. cls m \<le> cls a) ms)"
    and get_rep: "rep st (m # ms) \<Longrightarrow> \<exists>st'. get st = Some (Some (key m), st') \<and> rep st' ms"
    and get_empty: "rep st [] \<Longrightarrow> \<exists>st'. get st = Some (None, st') \<and> rep st' []"
    and fits_perm: "fits ms \<Longrightarrow> mset ns = mset ms \<Longrightarrow> fits ns"
    and fits_prefix: "fits (ms @ ns) \<Longrightarrow> fits ms"
begin

definition ins :: "'m \<Rightarrow> 'm list \<Rightarrow> 'm list" where
  "ins m ms = takeWhile (\<lambda>a. cls m \<le> cls a) ms @ m # dropWhile (\<lambda>a. cls m \<le> cls a) ms"

lemma ins_mset: "mset (ins m ms) = add_mset m (mset ms)"
proof -
  have "mset (ins m ms) = add_mset m (mset (takeWhile (\<lambda>a. cls m \<le> cls a) ms @ dropWhile (\<lambda>a. cls m \<le> cls a) ms))"
    by (simp add: ins_def del: takeWhile_dropWhile_id)
  then show ?thesis by simp
qed

abbreviation falling :: "'m list \<Rightarrow> bool" where "falling ms \<equiv> sorted_wrt (\<lambda>a b. cls b \<le> cls a) ms"

lemma ins_falling: "falling ms \<Longrightarrow> falling (ins m ms)"
proof (induction ms)
  case (Cons a ms)
  show ?case
  proof (cases "cls m \<le> cls a")
    case True
    then have "ins m (a # ms) = a # ins m ms" by (simp add: ins_def)
    moreover have "set (ins m ms) = insert m (set ms)" using ins_mset [of m ms] by (metis set_mset_add_mset_insert set_mset_mset)
    ultimately show ?thesis using Cons True by simp
  next
    case False
    then show ?thesis using Cons.prems by (auto simp: ins_def dest: order_trans)
  qed
qed (simp add: ins_def)

text \<open>A message goes behind all those of its class.\<close>

lemma ins_filter: "falling ms \<Longrightarrow> filter (\<lambda>a. cls a = c) (ins m ms) = filter (\<lambda>a. cls a = c) ms @ (if cls m = c then [m] else [])"
proof (induction ms)
  case (Cons a ms)
  show ?case
  proof (cases "cls m \<le> cls a")
    case True
    then have "ins m (a # ms) = a # ins m ms" by (simp add: ins_def)
    then show ?thesis using Cons by simp
  next
    case False
    then have "cls b < cls m" if "b \<in> set (a # ms)" for b using Cons.prems that by auto
    then have "cls m = c \<Longrightarrow> filter (\<lambda>b. cls b = c) (a # ms) = []" by (metis (mono_tags, lifting) filter_False less_irrefl)
    moreover have "ins m (a # ms) = m # a # ms" using False by (simp add: ins_def)
    ultimately show ?thesis by simp
  qed
qed (simp add: ins_def)

primrec put_all :: "'m list \<Rightarrow> 's \<Rightarrow> 's option" where
  "put_all [] st = Some st"
| "put_all (m # ms) st = Option.bind (put (key m) st) (put_all ms)"

primrec get_all :: "nat \<Rightarrow> 's \<Rightarrow> ('k option list \<times> 's) option" where
  "get_all 0 st = Some ([], st)"
| "get_all (Suc n) st = Option.bind (get st) (\<lambda>(k, st1). Option.bind (get_all n st1) (\<lambda>(ks, st2). Some (k # ks, st2)))"

lemma put_all_rep:
  "rep st ms \<Longrightarrow> fits (ms @ ns) \<Longrightarrow> falling ms \<Longrightarrow>
   \<exists>st' L. put_all ns st = Some st' \<and> rep st' L \<and> falling L \<and> length L = length ms + length ns \<and>
     (\<forall>c. filter (\<lambda>a. cls a = c) L = filter (\<lambda>a. cls a = c) ms @ filter (\<lambda>a. cls a = c) ns)"
proof (induction ns arbitrary: st ms)
  case Nil
  then show ?case by auto
next
  case (Cons n ns)
  have "fits ((n # ms) @ ns)" by (rule fits_perm [OF Cons.prems(2)]) simp
  then have f: "fits (n # ms)" by (rule fits_prefix)
  obtain st1 where s1: "put (key n) st = Some st1" "rep st1 (ins n ms)" using put_rep [OF Cons.prems(1) f] by (auto simp: ins_def)
  have "fits (ins n ms @ ns)" by (rule fits_perm [OF Cons.prems(2)]) (simp add: ins_mset)
  from Cons.IH [OF s1(2) this ins_falling [OF Cons.prems(3)]] obtain st' L where
    "put_all ns st1 = Some st'" "rep st' L" "falling L" "length L = length (ins n ms) + length ns"
    "\<forall>c. filter (\<lambda>a. cls a = c) L = filter (\<lambda>a. cls a = c) (ins n ms) @ filter (\<lambda>a. cls a = c) ns" by blast
  moreover have "length (ins n ms) = Suc (length ms)" using ins_mset [of n ms] by (metis size_add_mset size_mset)
  ultimately show ?case using s1(1) ins_filter [OF Cons.prems(3)] by (intro exI [of _ st'] exI [of _ L]) auto
qed

lemma get_all_rep: "rep st L \<Longrightarrow> \<exists>st'. get_all (length L) st = Some (map (Some \<circ> key) L, st') \<and> rep st' []"
proof (induction L arbitrary: st)
  case (Cons m L)
  obtain st1 where s: "get st = Some (Some (key m), st1)" "rep st1 L" using get_rep [OF Cons.prems] by blast
  then show ?case using Cons.IH [OF s(2)] by auto
qed simp

text \<open>What is put on an empty queue comes off by class, and in the order it was put on within a class.\<close>

lemma put_get_all:
  assumes "rep st []" "fits ns"
  obtains st1 st2 L where "put_all ns st = Some st1" "get_all (length ns) st1 = Some (map (Some \<circ> key) L, st2)" "rep st2 []" "falling L"
    "\<forall>c. filter (\<lambda>a. cls a = c) L = filter (\<lambda>a. cls a = c) ns"
proof -
  obtain st1 L where 1: "put_all ns st = Some st1" "rep st1 L" "falling L" "length L = length ns"
    "\<forall>c. filter (\<lambda>a. cls a = c) L = filter (\<lambda>a. cls a = c) ns" using put_all_rep [of st "[]" ns] assms by auto
  obtain st2 where "get_all (length L) st1 = Some (map (Some \<circ> key) L, st2)" "rep st2 []" using get_all_rep [OF 1(2)] by blast
  then show thesis using that 1 by simp
qed

end

end
