(* ===== verification/StreamPri.thy ===== *)
theory StreamPri
  imports StreamFlow
begin

text \<open>
  The queues of \<open>io/stream.c\<close> keep the contract of a priority queue: \<open>putq\<close> and \<open>getq\<close> on a queue \<open>q\<close> whose
  messages, with their classes, are those of a start state \<open>st0\<close>.
\<close>

definition prep :: "strcfg \<Rightarrow> strst \<Rightarrow> nat \<Rightarrow> strst \<Rightarrow> nat list list \<Rightarrow> bool" where
  "prep cfg st0 q st ms \<longleftrightarrow> pool_same st0 st \<and> plumb_same st0 st \<and> plumbed st \<and> q < v_nqueue st \<and> qmsgs cfg st q ms \<and> ordered st ms \<and>
     flow_ok st q ms \<and> (\<exists>R. runlist st R)"

definition pfits :: "strcfg \<Rightarrow> strst \<Rightarrow> nat list list \<Rightarrow> bool" where
  "pfits cfg st0 ms \<longleftrightarrow> (\<forall>m\<in>set ms. message cfg st0 m) \<and> distinct (map hd ms) \<and> qweight st0 ms < 65536"

lemma framed_prep:
  assumes "prep cfg st0 q st ms" "q_frame st st' q S"
  shows "pool_same st0 st'" "plumb_same st0 st'" "plumbed st'" "q < v_nqueue st'" "pool_same st st'"
proof -
  have s: "pool_same st st'" "plumb_same st st'" using assms(2) by (simp_all add: q_frame_def)
  then show "pool_same st0 st'" "plumb_same st0 st'" "plumbed st'" "q < v_nqueue st'" "pool_same st st'"
    using assms(1) plumb_same_plumbed [OF s(2)] plumb_same_view(4) [OF s(2)] pool_same_trans plumb_same_trans by (auto simp: prep_def)
qed

lemma prep_put:
  assumes r: "prep cfg st0 q st ms" and f: "pfits cfg st0 (m # ms)"
  shows "\<exists>st'. putq cfg q (hd m) st = Some st' \<and>
    prep cfg st0 q st' (takeWhile (\<lambda>a. mclass st0 m \<le> mclass st0 a) ms @ m # dropWhile (\<lambda>a. mclass st0 m \<le> mclass st0 a) ms)"
proof -
  from r obtain R where q: "pool_same st0 st" "plumb_same st0 st" "plumbed st" "q < v_nqueue st" "qmsgs cfg st q ms" "ordered st ms" "flow_ok st q ms"
    and R: "runlist st R" unfolding prep_def by blast
  have m: "message cfg st m" "hd m \<notin> hd ` set ms" "qweight st (m # ms) < 65536"
    using f message_same [OF q(1)] qweight_same [OF q(1)] by (auto simp: pfits_def simp del: qweight_simps)
  have cl: "mclass st = mclass st0" by (rule ext) (rule mclass_same [OF q(1)])
  obtain st' where st': "putq cfg q (hd m) st = Some st'" "qmsgs cfg st' q (put_last st m ms)" "q_frame st st' q (hd ` set (m # ms))" "loaded q st st'"
    "runlist st' (if wakes st q (mclass st m) then enq st q R else R)" by (rule putq_ok [OF q(5,6) m(1,2) R q(3,4)])
  note F = framed_prep [OF r st'(3)]
  have "flow_ok st' q (put_last st m ms)" by (rule put_flow(1) [OF q(7) m(1) st'(3,4) m(3) st'(2)])
  moreover have "ordered st' (put_last st m ms)" using put_ordered(1) [OF q(6)] ordered_same [OF F(5)] by simp
  ultimately show ?thesis using st' F by (auto simp: prep_def put_last_def cl)
qed

lemma prep_get:
  assumes r: "prep cfg st0 q st (m # ms)"
  shows "\<exists>st'. getq cfg q st = Some (Some (hd m), st') \<and> prep cfg st0 q st' ms"
proof -
  from r obtain R where q: "pool_same st0 st" "plumb_same st0 st" "plumbed st" "q < v_nqueue st" "qmsgs cfg st q (m # ms)" "ordered st (m # ms)"
    "flow_ok st q (m # ms)" and R: "runlist st R" unfolding prep_def by blast
  obtain st' where st': "getq cfg q st = Some (Some (hd m), st')" "qmsgs cfg st' q ms" "q_frame st st' q (hd ` set (m # ms))" "drained True q st st'"
    "runlist st' (if uint16 (qweight st ms) \<le> q_lowat (queues st q) \<and> q_is st q QWANTW then enq_back st q R else R)"
    by (rule getq_some [OF q(5) R q(3,4)])
  note F = framed_prep [OF r st'(3)]
  have m: "message cfg st m" by (rule qmsgsD(2) [OF q(5)]) simp
  have "flow_ok st' q ([] @ ms)" by (rule drained_flow [OF _ m _ st'(3,4)]) (use q(7) st'(2) in simp_all)
  moreover have "ordered st' ms" using q(6) ordered_same [OF F(5)] by (simp add: ordered_def)
  ultimately show ?thesis using st' F by (auto simp: prep_def)
qed

lemma prep_get_empty:
  assumes r: "prep cfg st0 q st []"
  shows "\<exists>st'. getq cfg q st = Some (None, st') \<and> prep cfg st0 q st' []"
proof -
  from r obtain R where q: "pool_same st0 st" "plumb_same st0 st" "plumbed st" "q < v_nqueue st" "qmsgs cfg st q []" "flow_ok st q []"
    and R: "runlist st R" unfolding prep_def by blast
  have g: "getq cfg q st = Some (None, q_on QWANTR q st)" by (rule getq_none [OF q(5) R q(3,4) flow_not_due [OF q(6,5)]])
  have fr: "q_frame st (q_on QWANTR q st) q {}" by (rule flag_frame) simp_all
  have "flow_ok (q_on QWANTR q st) q []" using q(6) by (simp add: flow_ok_def q_is_on)
  then show ?thesis using g framed_prep [OF r fr] qmsgs_flag(1) [of QWANTR cfg st q "[]" q] q(5) runlist_off(1) [OF R, of QWANTR q]
    by (auto simp: prep_def ordered_def)
qed

interpretation strq: pri_queue "prep cfg st0 q" "mclass st0" hd "pfits cfg st0" "putq cfg q" "getq cfg q" for cfg st0 q
proof
  show "pfits cfg st0 ns" if "pfits cfg st0 ms" "mset ns = mset ms" for ms ns :: "nat list list"
  proof -
    have "mset (map hd ns) = mset (map hd ms)" using that(2) by simp
    then have "distinct (map hd ns) = distinct (map hd ms)" by (rule mset_eq_imp_distinct_iff)
    moreover have "set ns = set ms" using that(2) by (rule mset_eq_setD)
    moreover have "qweight st0 ns = qweight st0 ms" using that(2) by (metis mset_map qweight_def sum_mset_sum_list)
    ultimately show ?thesis using that(1) by (simp add: pfits_def)
  qed
  show "pfits cfg st0 ms" if "pfits cfg st0 (ms @ ns)" for ms ns :: "nat list list"
    using that qweight_nonneg [of ns cfg st0] by (auto simp: pfits_def)
qed (rule prep_put prep_get prep_get_empty; assumption)+

end
