(* ===== verification/StreamInit.thy ===== *)
theory StreamInit
  imports StreamQ StreamPool
begin

text \<open>
  What \<open>strinit\<close> sets up: every message block on the free list, the data blocks of every class on theirs, and the
  data areas one after the other in the memory obtained, the largest class first.
\<close>

section \<open>Tables linked downwards\<close>

definition topp :: "nat \<Rightarrow> nat \<Rightarrow> ptr" where
  "topp d n = (if n = 0 then None else Some (d + n - 1))"

lemma linked_down: "(\<forall>e. d \<le> e \<and> e < d + n \<longrightarrow> nx e = (if e = d then None else Some (e - 1))) \<Longrightarrow> linked nx (topp d n) (rev [d ..< d + n])"
proof (induction n)
  case (Suc n)
  then have "linked nx (topp d n) (rev [d ..< d + n])" by simp
  moreover have "nx (d + n) = topp d n" using Suc.prems by (simp add: topp_def)
  ultimately show ?case by (simp add: topp_def)
qed (simp add: topp_def)

lemma init_mblocks_eq:
  "init_mblocks b n st = st\<lparr>mblock := (\<lambda>e. if b \<le> e \<and> e < b + n then (mblock st e)\<lparr>b_next := if e = b then mbfreelist st else Some (e - 1)\<rparr> else mblock st e),
     mbfreelist := (if n = 0 then mbfreelist st else Some (b + n - 1))\<rparr>"
proof (induction n arbitrary: b st)
  case 0
  show ?case by (rule strst.equality) (auto simp: fun_eq_iff)
next
  case (Suc n)
  show ?case unfolding init_mblocks.simps Suc.IH
    by (rule strst.equality) (auto simp: mb_return_def upd_mb_def fun_eq_iff)
qed

lemma init_dblocks_eq:
  "init_dblocks c n d base st = st\<lparr>dblock := (\<lambda>e. if d \<le> e \<and> e < d + n then (dblock st e)\<lparr>db_class := c, db_base := base + int (e - d) * rbsize c,
       db_lim := base + int (e - d) * rbsize c + rbsize c, db_freep := if e = d then dbfreelist st c else Some (e - 1)\<rparr> else dblock st e),
     dbfreelist := (dbfreelist st)(c := if n = 0 then dbfreelist st c else Some (d + n - 1))\<rparr>"
proof (induction n arbitrary: d base st)
  case 0
  show ?case by (rule strst.equality) (auto simp: fun_eq_iff)
next
  case (Suc n)
  have a: "int (e - d) = int (e - Suc d) + 1" if "Suc d \<le> e" for e using that by simp
  show ?case unfolding init_dblocks.simps Let_def Suc.IH
    by (rule strst.equality) (auto simp: upd_db_def fun_eq_iff a algebra_simps)
qed

section \<open>The classes\<close>

text \<open>The data blocks below \<open>c\<close> in number, and the bytes they take.\<close>

primrec blocks_of :: "(nat \<Rightarrow> nat) \<Rightarrow> nat \<Rightarrow> nat" where
  "blocks_of v 0 = 0"
| "blocks_of v (Suc c) = v c + blocks_of v c"

definition areas_up :: "nat \<Rightarrow> nat \<Rightarrow> int \<Rightarrow> strst \<Rightarrow> bool" where
  "areas_up d n base st \<longleftrightarrow> (\<forall>e. d \<le> e \<and> e < n \<longrightarrow> db_lim (dblock st e) = db_base (dblock st e) + rbsize (dbcls st e) \<and> db_base (dblock st e) mod 4 = 0 \<and>
     base \<le> db_base (dblock st e) \<and> (\<forall>f. e < f \<and> f < n \<longrightarrow> db_lim (dblock st e) \<le> db_base (dblock st f)))"

lemma rbsize_mod: "c < NCLASS \<Longrightarrow> rbsize c mod 4 = 0 \<and> 0 < rbsize c"
  by (auto simp: rbsize_def less_Suc_eq numeral_eq_Suc)

definition class_list :: "nat \<Rightarrow> strst \<Rightarrow> nat \<Rightarrow> nat \<Rightarrow> nat list \<Rightarrow> bool" where
  "class_list c st d n xs \<longleftrightarrow> linked (dbnext st) (dbfreelist st c) xs \<and> set xs = {e. d \<le> e \<and> e < n \<and> dbcls st e = c}"

lemma init_classes_ok:
  fixes st :: strst and base :: int and d :: nat and cfg :: strcfg
  assumes "k \<le> NCLASS" "base mod 4 = 0"
  defines "st' \<equiv> init_classes cfg k d base st" and "n \<equiv> d + blocks_of (v_nblk st) k"
  shows "(\<forall>e. e < d \<longrightarrow> dblock st' e = dblock st e) \<and> (\<forall>c \<ge> k. dbfreelist st' c = dbfreelist st c) \<and>
    (\<forall>e. d \<le> e \<and> e < n \<longrightarrow> dbcls st' e < k) \<and> areas_up d n base st' \<and> (\<forall>c < k. \<exists>xs. class_list c st' d n xs) \<and>
    (\<forall>e. db_ref (dblock st' e) = db_ref (dblock st e)) \<and> (\<forall>c. dba_cnt (dballoc st' c) = dba_cnt (dballoc st c)) \<and>
    mblock st' = mblock st \<and> queues st' = queues st \<and> v_nblk st' = v_nblk st \<and> v_nqueue st' = v_nqueue st \<and> qhead st' = qhead st \<and> qtail st' = qtail st"
  using assms(1,2) unfolding st'_def n_def
proof (induction k arbitrary: d base st)
  case 0
  then show ?case by (simp add: areas_up_def)
next
  case (Suc k)
  let ?n = "v_nblk st k"
  define s2 where "s2 = upd_al k (\<lambda>a. a\<lparr>dba_lo := (int ?n * strlofrac cfg) div 100, dba_med := (int ?n * strmedfrac cfg) div 100\<rparr>) (st\<lparr>dbfreelist := (dbfreelist st)(k := None)\<rparr>)"
  define s3 where "s3 = init_dblocks k ?n d base s2"
  have s2: "dblock s2 = dblock st" "dbfreelist s2 = (dbfreelist st)(k := None)" "mblock s2 = mblock st" "queues s2 = queues st" "v_nblk s2 = v_nblk st"
    "v_nqueue s2 = v_nqueue st" "qhead s2 = qhead st" "qtail s2 = qtail st" "\<forall>c. dba_cnt (dballoc s2 c) = dba_cnt (dballoc st c)"
    by (simp_all add: s2_def upd_al_def)
  have e: "init_classes cfg (Suc k) d base st = init_classes cfg k (d + ?n) (base + int ?n * rbsize k) s3"
    unfolding s3_def s2_def by (simp add: Let_def)
  have k: "k < NCLASS" "0 < rbsize k" "rbsize k mod 4 = 0" using Suc.prems(1) rbsize_mod [of k] by simp_all
  have b4: "(base + int i * rbsize k) mod 4 = 0" for i
  proof -
    have "4 dvd base" "4 dvd rbsize k" using Suc.prems(2) k(3) by (auto simp: dvd_eq_mod_eq_0)
    then have "4 dvd base + int i * rbsize k" by (intro dvd_add dvd_mult)
    then show ?thesis by (simp add: dvd_eq_mod_eq_0)
  qed
  have s3: "dblock s3 = (\<lambda>e. if d \<le> e \<and> e < d + ?n then (dblock st e)\<lparr>db_class := k, db_base := base + int (e - d) * rbsize k,
       db_lim := base + int (e - d) * rbsize k + rbsize k, db_freep := if e = d then None else Some (e - 1)\<rparr> else dblock st e)"
    "dbfreelist s3 = (dbfreelist st)(k := topp d ?n)" "mblock s3 = mblock st" "queues s3 = queues st" "v_nblk s3 = v_nblk st"
    "v_nqueue s3 = v_nqueue st" "qhead s3 = qhead st" "qtail s3 = qtail st" "\<forall>c. dba_cnt (dballoc s3 c) = dba_cnt (dballoc st c)"
    unfolding s3_def init_dblocks_eq by (simp_all add: s2 topp_def fun_eq_iff)
  let ?s = "init_classes cfg k (d + ?n) (base + int ?n * rbsize k) s3" and ?m = "d + blocks_of (v_nblk st) (Suc k)"
  have IH: "(\<forall>e. e < d + ?n \<longrightarrow> dblock ?s e = dblock s3 e) \<and> (\<forall>c \<ge> k. dbfreelist ?s c = dbfreelist s3 c) \<and>
    (\<forall>e. d + ?n \<le> e \<and> e < ?m \<longrightarrow> dbcls ?s e < k) \<and> areas_up (d + ?n) ?m (base + int ?n * rbsize k) ?s \<and> (\<forall>c < k. \<exists>xs. class_list c ?s (d + ?n) ?m xs) \<and>
    (\<forall>e. db_ref (dblock ?s e) = db_ref (dblock s3 e)) \<and> (\<forall>c. dba_cnt (dballoc ?s c) = dba_cnt (dballoc s3 c)) \<and>
    mblock ?s = mblock s3 \<and> queues ?s = queues s3 \<and> v_nblk ?s = v_nblk s3 \<and> v_nqueue ?s = v_nqueue s3 \<and> qhead ?s = qhead s3 \<and> qtail ?s = qtail s3"
    using Suc.IH [of "base + int ?n * rbsize k" "d + ?n" s3] Suc.prems(1) b4 s3(5) by (simp add: add.assoc)
  have I: "\<And>e. e < d + ?n \<Longrightarrow> dblock ?s e = dblock s3 e" "\<And>c. c \<ge> k \<Longrightarrow> dbfreelist ?s c = dbfreelist s3 c"
    "\<And>e. d + ?n \<le> e \<Longrightarrow> e < ?m \<Longrightarrow> dbcls ?s e < k" "areas_up (d + ?n) ?m (base + int ?n * rbsize k) ?s" "\<And>c. c < k \<Longrightarrow> \<exists>xs. class_list c ?s (d + ?n) ?m xs"
    "\<And>e. db_ref (dblock ?s e) = db_ref (dblock s3 e)" "\<And>c. dba_cnt (dballoc ?s c) = dba_cnt (dballoc s3 c)"
    using IH by blast+
  have low: "dbcls ?s e = k" "db_base (dblock ?s e) = base + int (e - d) * rbsize k" "db_lim (dblock ?s e) = base + int (e - d) * rbsize k + rbsize k"
      "dbnext ?s e = (if e = d then None else Some (e - 1))" if "d \<le> e" "e < d + ?n" for e
    using that I(1) [of e] by (simp_all add: s3(1))
  have cls: "dbcls ?s e < Suc k" if "d \<le> e" "e < ?m" for e using that low(1) [of e] I(3) [of e] by (cases "e < d + ?n") auto
  have up: "areas_up d ?m base ?s" unfolding areas_up_def
  proof (intro allI impI)
    fix x assume x: "d \<le> x \<and> x < ?m"
    have hi: "db_lim (dblock ?s y) = db_base (dblock ?s y) + rbsize (dbcls ?s y)" "db_base (dblock ?s y) mod 4 = 0" "base + int ?n * rbsize k \<le> db_base (dblock ?s y)"
        "\<forall>f. y < f \<and> f < ?m \<longrightarrow> db_lim (dblock ?s y) \<le> db_base (dblock ?s f)" if "d + ?n \<le> y" "y < ?m" for y
      using I(4) that unfolding areas_up_def by blast+
    show "db_lim (dblock ?s x) = db_base (dblock ?s x) + rbsize (dbcls ?s x) \<and> db_base (dblock ?s x) mod 4 = 0 \<and> base \<le> db_base (dblock ?s x) \<and>
      (\<forall>f. x < f \<and> f < ?m \<longrightarrow> db_lim (dblock ?s x) \<le> db_base (dblock ?s f))"
    proof (cases "x < d + ?n")
      case True
      have le: "base + int (x - d) * rbsize k + rbsize k \<le> base + int j * rbsize k" if "x - d < j" for j
      proof -
        have "(int (x - d) + 1) * rbsize k \<le> int j * rbsize k" by (rule mult_right_mono) (use that k(2) in simp_all)
        then show ?thesis by (simp add: algebra_simps)
      qed
      have "db_lim (dblock ?s x) \<le> db_base (dblock ?s f)" if f: "x < f" "f < ?m" for f
      proof (cases "f < d + ?n")
        case True
        then show ?thesis using le [of "f - d"] low(2) [of f] low(3) [of x] f x by simp
      next
        case False
        have "x - d < ?n" using x \<open>x < d + ?n\<close> by linarith
        then have "db_lim (dblock ?s x) \<le> base + int ?n * rbsize k" using le [of ?n] low(3) [of x] x \<open>x < d + ?n\<close> by simp
        moreover have "base + int ?n * rbsize k \<le> db_base (dblock ?s f)" using hi(3) [of f] False f by simp
        ultimately show ?thesis by (rule order_trans)
      qed
      moreover have "0 \<le> int (x - d) * rbsize k" using k(2) by simp
      ultimately show ?thesis using True x low [of x] b4 [of "x - d"] by simp
    next
      case False
      moreover have "0 \<le> int ?n * rbsize k" using k(2) by simp
      ultimately show ?thesis using hi [of x] x by simp
    qed
  qed
  have "\<exists>xs. class_list c ?s d ?m xs" if c: "c < Suc k" for c
  proof (cases "c = k")
    case True
    have "linked (dbnext ?s) (topp d ?n) (rev [d ..< d + ?n])" by (rule linked_down) (use low(4) in simp)
    moreover have "dbfreelist ?s k = topp d ?n" using I(2) [of k] s3(2) by simp
    moreover have "set (rev [d ..< d + ?n]) = {e. d \<le> e \<and> e < ?m \<and> dbcls ?s e = k}"
    proof (intro set_eqI)
      fix x show "x \<in> set (rev [d ..< d + ?n]) \<longleftrightarrow> x \<in> {e. d \<le> e \<and> e < ?m \<and> dbcls ?s e = k}"
        using low(1) [of x] I(3) [of x] by (cases "x < d + ?n") auto
    qed
    ultimately show ?thesis using True by (auto simp: class_list_def)
  next
    case False
    then have "c < k" using c by simp
    then obtain xs where xs: "class_list c ?s (d + ?n) ?m xs" using I(5) by blast
    have "{e. d \<le> e \<and> e < ?m \<and> dbcls ?s e = c} = {e. d + ?n \<le> e \<and> e < ?m \<and> dbcls ?s e = c}"
    proof (intro set_eqI)
      fix x show "x \<in> {e. d \<le> e \<and> e < ?m \<and> dbcls ?s e = c} \<longleftrightarrow> x \<in> {e. d + ?n \<le> e \<and> e < ?m \<and> dbcls ?s e = c}"
        using low(1) [of x] False by (cases "x < d + ?n") auto
    qed
    then show ?thesis using xs by (auto simp: class_list_def)
  qed
  moreover have "\<forall>x. x < d \<longrightarrow> dblock ?s x = dblock st x" using I(1) s3(1) by simp
  moreover have "\<forall>c \<ge> Suc k. dbfreelist ?s c = dbfreelist st c" using I(2) s3(2) by simp
  moreover have "\<forall>x. db_ref (dblock ?s x) = db_ref (dblock st x)" using I(6) s3(1) by simp
  ultimately show ?case unfolding e using up IH s3(3-9) cls by simp
qed

section \<open>The whole initialisation\<close>

text \<open>What the first steps leave alone.\<close>

definition boot_same :: "strst \<Rightarrow> strst \<Rightarrow> bool" where
  "boot_same st st' \<longleftrightarrow> mblock st' = mblock st \<and> dblock st' = dblock st \<and> dballoc st' = dballoc st \<and> v_nblk st' = v_nblk st \<and> queues st' = queues st \<and>
     availrmem st' = availrmem st \<and> availsmem st' = availsmem st \<and> v_nqueue st' = v_nqueue st \<and> qhead st' = qhead st \<and> qtail st' = qtail st"

lemma stream_heads_same: "boot_same st (stream_heads n st)"
  by (induction n) (simp_all add: boot_same_def Let_def)

lemma se_push_same: "boot_same st (se_push b n st)"
  by (induction n arbitrary: b st) (simp_all add: boot_same_def upd_se_def)

text \<open>The pages asked of \<open>sptalloc\<close>, and when they are asked for.\<close>

definition str_pages :: "strst \<Rightarrow> int" where
  "str_pages st = btoc (pool_size (v_nblk st)) + (if 0 < v_nblk st 8 then 1 else 0)"

definition str_room :: "strcfg \<Rightarrow> strst \<Rightarrow> bool" where
  "str_room cfg st \<longleftrightarrow> btoc (pool_size (v_nblk st)) \<noteq> 0 \<and> t_minarmem cfg \<le> availrmem st - str_pages st \<and> t_minasmem cfg \<le> availsmem st - str_pages st"

lemma strinit_ok:
  assumes zero: "\<forall>d. db_ref (dblock st d) = 0" "\<forall>c. dba_cnt (dballoc st c) = 0" and room: "str_room cfg st" and a: "a mod 4 = 0"
  defines "st' \<equiv> strinit cfg (Some a) st" and "nd \<equiv> blocks_of (v_nblk st) NCLASS"
  shows "\<exists>D. pool_ok cfg nd st' (rev [0 ..< nmblock cfg]) D {} \<and> queues st' = queues st \<and> v_nqueue st' = v_nqueue st - v_nqueue st mod 2 \<and>
    qhead st' = qhead st \<and> qtail st' = qtail st"
proof -
  define s1 where "s1 = stream_heads (v_nstream cfg) st"
  define s2 where "s2 = se_push 0 (nstrevent cfg) (s1\<lparr>sefreelist := None\<rparr>)"
  define s3 where "s3 = (if odd (v_nqueue s2) then s2\<lparr>v_nqueue := v_nqueue s2 - 1\<rparr> else s2)"
  define base where "base = (if v_nblk s3 8 > 0 then (a + 4095) - (a + 4095) mod 4096 else a)"
  define s4 where "s4 = s3\<lparr>availrmem := availrmem s3 - str_pages st, availsmem := availsmem s3 - str_pages st\<rparr>"
  define s5 where "s5 = init_classes cfg NCLASS 0 base s4"
  define s6 where "s6 = init_mblocks 0 (nmblock cfg) (s5\<lparr>mbfreelist := None\<rparr>)"
  have "boot_same s1 (s1\<lparr>sefreelist := None\<rparr>)" by (simp add: boot_same_def)
  then have b2: "boot_same st s2" using stream_heads_same [of st "v_nstream cfg"] se_push_same [of "s1\<lparr>sefreelist := None\<rparr>" 0 "nstrevent cfg"]
    by (simp add: s1_def s2_def boot_same_def)
  then have s3: "mblock s3 = mblock st" "dblock s3 = dblock st" "dballoc s3 = dballoc st" "v_nblk s3 = v_nblk st" "queues s3 = queues st"
    "availrmem s3 = availrmem st" "availsmem s3 = availsmem st" "v_nqueue s3 = v_nqueue st - v_nqueue st mod 2" "qhead s3 = qhead st" "qtail s3 = qtail st"
    by (auto simp: s3_def boot_same_def odd_iff_mod_2_eq_one even_iff_mod_2_eq_zero)
  have e: "st' = s6"
    unfolding st'_def strinit_def s6_def s5_def s4_def base_def s3_def [symmetric] s2_def [symmetric] s1_def [symmetric] Let_def
    using room s3(4,6,7) by (auto simp: str_room_def str_pages_def)
  have base: "base mod 4 = 0"
  proof -
    have "(a + 4095) - (a + 4095) mod 4096 = 4 * (1024 * ((a + 4095) div 4096))" by (simp add: minus_mod_eq_mult_div)
    then have "((a + 4095) - (a + 4095) mod 4096) mod 4 = 0" by simp
    then show ?thesis using a by (simp add: base_def)
  qed
  have s4: "mblock s4 = mblock st" "dblock s4 = dblock st" "dballoc s4 = dballoc st" "v_nblk s4 = v_nblk st" "queues s4 = queues st"
    "v_nqueue s4 = v_nqueue s3" "qhead s4 = qhead st" "qtail s4 = qtail st" by (simp_all add: s4_def s3)
  have nd: "0 + blocks_of (v_nblk s4) NCLASS = nd" by (simp add: nd_def s4)
  note C = init_classes_ok [OF order_refl base, where st = s4 and d = 0 and cfg = cfg, folded s5_def, unfolded nd]
  have up: "areas_up 0 nd base s5" and cls: "\<forall>e. 0 \<le> e \<and> e < nd \<longrightarrow> dbcls s5 e < NCLASS" and cl: "\<forall>c < NCLASS. \<exists>xs. class_list c s5 0 nd xs"
    and rf: "\<forall>e. db_ref (dblock s5 e) = db_ref (dblock s4 e)" and cnt: "\<forall>c. dba_cnt (dballoc s5 c) = dba_cnt (dballoc s4 c)" using C by blast+
  have q5: "queues s5 = queues s4" "v_nqueue s5 = v_nqueue s4" "qhead s5 = qhead s4" "qtail s5 = qtail s4" using C by blast+
  have s6: "dblock s6 = dblock s5" "dbfreelist s6 = dbfreelist s5" "dballoc s6 = dballoc s5" "queues s6 = queues s5" "v_nqueue s6 = v_nqueue s5"
    "qhead s6 = qhead s5" "qtail s6 = qtail s5" "mbfreelist s6 = topp 0 (nmblock cfg)"
    "\<forall>b. b < nmblock cfg \<longrightarrow> mbnext s6 b = (if b = 0 then None else Some (b - 1))"
    unfolding s6_def init_mblocks_eq by (simp_all add: topp_def)
  obtain D where D: "\<forall>c < NCLASS. class_list c s5 0 nd (D c)" using cl by metis
  have r: "refs (mbdata s6) {} d = 0" for d by (simp add: refs_def)
  have "linked (mbnext s6) (mbfreelist s6) (rev [0 ..< 0 + nmblock cfg])" unfolding s6(8) by (rule linked_down) (use s6(9) in simp)
  then have "pool_lists cfg nd s6 (rev [0 ..< nmblock cfg]) D {}"
    unfolding pool_lists_def r using D s6 by (auto simp: class_list_def)
  moreover have "pool_counts nd s6 {}" unfolding pool_counts_def r using cls rf cnt zero s4 s6 by simp
  moreover have "pool_areas nd s6" unfolding pool_areas_def s6(1)
  proof (intro conjI allI impI)
    fix d e assume de: "d < nd" "e < nd" "d \<noteq> e"
    then have "d < e \<or> e < d" by linarith
    then show "db_lim (dblock s5 d) \<le> db_base (dblock s5 e) \<or> db_lim (dblock s5 e) \<le> db_base (dblock s5 d)" using up de unfolding areas_up_def by blast
  qed (use up in \<open>auto simp: areas_up_def\<close>)
  ultimately have "pool_ok cfg nd s6 (rev [0 ..< nmblock cfg]) D {}" by (simp add: pool_ok_def)
  then show ?thesis using e s6 q5 s4 s3(8) by auto
qed

end
