(* ===== verification/StreamHeld.thy ===== *)
theory StreamHeld
  imports StreamFlow StreamServe StreamAdj StreamInit
begin

text \<open>
  The invariant of the streams: every block is on the free list or in one message, every message is held by a module
  (\<open>H\<close>) or on a queue (\<open>Q\<close>), the queues are in order with their counts and flags right, and the run list (\<open>R\<close>) is the
  enabled queues. An operation on the blocks of held messages keeps it (\<open>held_change\<close>), and so do those that move a
  message between a module and a queue.
\<close>

section \<open>The invariant\<close>

definition queued :: "nat \<Rightarrow> (nat \<Rightarrow> nat list list) \<Rightarrow> nat list list" where
  "queued n Q = concat (map Q [0 ..< n])"

definition blocks :: "nat list list \<Rightarrow> nat set" where
  "blocks ms = set (concat ms)"

lemma blocks_simps [simp]:
  "blocks [] = {}" "blocks (m # ms) = set m \<union> blocks ms" "blocks (ms @ ns) = blocks ms \<union> blocks ns"
  by (simp_all add: blocks_def)

lemma blocks_in: "m \<in> set ms \<Longrightarrow> set m \<subseteq> blocks ms"
  by (auto simp: blocks_def)

lemma queued_in: "q < n \<Longrightarrow> m \<in> set (Q q) \<Longrightarrow> m \<in> set (queued n Q)"
  by (auto simp: queued_def)

definition queue_ok :: "strcfg \<Rightarrow> strst \<Rightarrow> nat \<Rightarrow> nat list list \<Rightarrow> bool" where
  "queue_ok cfg st q ms \<longleftrightarrow> qmsgs cfg st q ms \<and> ordered st ms \<and> flow_ok st q ms"

definition pool_part :: "strcfg \<Rightarrow> nat \<Rightarrow> strst \<Rightarrow> nat list list \<Rightarrow> bool" where
  "pool_part cfg nd st ms \<longleftrightarrow> distinct (concat ms) \<and> (\<forall>m\<in>set ms. message cfg st m) \<and>
     (\<exists>F D. pool_ok cfg nd st F D (blocks ms) \<and> set F \<union> blocks ms = {..< nmblock cfg})"

definition sinv :: "strcfg \<Rightarrow> nat \<Rightarrow> strst \<Rightarrow> nat list list \<Rightarrow> (nat \<Rightarrow> nat list list) \<Rightarrow> nat list \<Rightarrow> bool" where
  "sinv cfg nd st H Q R \<longleftrightarrow> pool_part cfg nd st (H @ queued (v_nqueue st) Q) \<and> (\<forall>q < v_nqueue st. queue_ok cfg st q (Q q)) \<and>
     runlist st R \<and> plumbed st"

lemma sinvD:
  assumes "sinv cfg nd st H Q R"
  shows "pool_part cfg nd st (H @ queued (v_nqueue st) Q)" "q < v_nqueue st \<Longrightarrow> qmsgs cfg st q (Q q)" "q < v_nqueue st \<Longrightarrow> ordered st (Q q)"
    "q < v_nqueue st \<Longrightarrow> flow_ok st q (Q q)" "runlist st R" "plumbed st" "distinct (concat (H @ queued (v_nqueue st) Q))"
    "m \<in> set H \<Longrightarrow> message cfg st m"
  using assms by (auto simp: sinv_def queue_ok_def pool_part_def)

lemma pool_part_perm:
  assumes "pool_part cfg nd st ms" "mset ns = mset ms"
  shows "pool_part cfg nd st ns"
proof -
  have "set ns = set ms" using assms(2) by (rule mset_eq_setD)
  moreover have "mset (concat ns) = mset (concat ms)" using assms(2) by (metis mset_concat mset_map sum_mset_sum_list)
  then have "distinct (concat ns) = distinct (concat ms)" by (rule mset_eq_imp_distinct_iff)
  moreover have "blocks ns = blocks ms" using calculation(1) by (simp add: blocks_def)
  ultimately show ?thesis using assms(1) by (simp add: pool_part_def)
qed

lemma sinv_perm:
  assumes "sinv cfg nd st H Q R" "mset H' = mset H"
  shows "sinv cfg nd st H' Q R"
  using assms pool_part_perm [of cfg nd st "H @ queued (v_nqueue st) Q" "H' @ queued (v_nqueue st) Q"] by (simp add: sinv_def)

text \<open>A held message brought to the front of the others.\<close>

lemma sinv_pick:
  assumes "sinv cfg nd st H Q R" "m \<in> set H"
  shows "sinv cfg nd st (m # remove1 m H) Q R"
  by (rule sinv_perm [OF assms(1)]) (use assms(2) in simp)

section \<open>What is kept\<close>

lemma keeps_same:
  assumes "keeps st st' S"
  shows "plumb_same st st'" "v_nqueue st' = v_nqueue st" "q_is st' q w \<longleftrightarrow> q_is st q w"
  using keepsD(6,9) [OF assms] by (simp_all add: plumb_same_def)

lemma keeps_message:
  assumes "keeps st st' S" "message cfg st m" "set m \<subseteq> S"
  shows "message cfg st' m" "weight st' m = weight st m" "mclass st' m = mclass st m"
proof -
  have d: "mbdata st' b = mbdata st b" "btype st' b = btype st b" if "b \<in> set m" for b using keepsD(3,4) [OF assms(1), of b] that assms(3) by auto
  have c: "dbcls st' d = dbcls st d" for d by (rule keepsD(5) [OF assms(1)])
  have "linked (mbcont st') (Some (hd m)) m" by (rule linked_keeps [OF assms(1,3) messageD(2) [OF assms(2)]])
  then show "message cfg st' m" using messageD(1,3,4) [OF assms(2)] d(1) c by (simp add: message_def)
  have "map (\<lambda>b. bsize (dbcls st' (the (mbdata st' b)))) m = map (\<lambda>b. bsize (dbcls st (the (mbdata st b)))) m"
    by (rule map_cong [OF refl]) (simp only: d(1) c)
  then show "weight st' m = weight st m" by (simp only: weight_def)
  show "mclass st' m = mclass st m" using d(2) [OF messageD(5) [OF assms(2)]] by (simp add: mclass_def queclass_def)
qed

lemma keeps_queue:
  assumes k: "keeps st st' S" and q: "queue_ok cfg st q ms" and s: "blocks ms \<subseteq> S"
  shows "queue_ok cfg st' q ms"
proof -
  have Q: "qmsgs cfg st q ms" "ordered st ms" "flow_ok st q ms" using q by (simp_all add: queue_ok_def)
  note QD = qmsgsD [OF Q(1)]
  have m: "message cfg st' m" "weight st' m = weight st m" "mclass st' m = mclass st m" if "m \<in> set ms" for m
    using keeps_message [OF k QD(2) [OF that]] blocks_in [OF that] s by auto
  have w: "qweight st' ms = qweight st ms" unfolding qweight_def by (rule arg_cong [of _ _ sum_list]) (rule map_cong [OF refl m(2)])
  have "mblock st' a = mblock st a" if "a \<in> set (map hd ms)" for a
  proof -
    from that obtain n where n: "n \<in> set ms" "a = hd n" by auto
    then have "a \<in> S" using messageD(5) [OF QD(2) [OF n(1)]] blocks_in [OF n(1)] s by auto
    then show ?thesis by (rule keepsD(1) [OF k])
  qed
  then have "qlist st' q (map hd ms)" by (intro qlist_frame [OF QD(1)]) (simp_all add: keepsD(6) [OF k])
  then have "qmsgs cfg st' q ms" using QD(3) m(1) w by (simp add: qmsgs_def keepsD(6) [OF k])
  moreover have "ordered st' ms" using Q(2) unfolding ordered_def by (rule sorted_wrt_mono_rel [rotated]) (simp add: m(3))
  moreover have "flow_ok st' q ms" using Q(3) w by (simp add: flow_ok_def keepsD(6) [OF k])
  ultimately show ?thesis by (simp add: queue_ok_def)
qed

lemma keeps_runlist:
  assumes "keeps st st' S" "runlist st R"
  shows "runlist st' R"
  by (rule runlist_same [OF assms(2)]) (rule keepsD(6,7,8,9) [OF assms(1)])+

section \<open>Changing held messages\<close>

lemma pool_message:
  assumes "pool_ok cfg nd st F D U" "linked (mbcont st) (Some b) m" "set m \<subseteq> U"
  shows "message cfg st m" "hd m = b"
proof -
  have m: "m \<noteq> []" "hd m = b" using assms(2) by (cases m; simp)+
  show "hd m = b" by (rule m)
  have "\<exists>d. mbdata st a = Some d \<and> dbcls st d < NCLASS" if a: "a \<in> set m" for a
  proof -
    have "a \<in> U" using a assms(3) by auto
    from pool_okD(4) [OF assms(1) this] obtain d where "d < nd" "mbdata st a = Some d" by (auto simp: block_in_def)
    then show ?thesis using pool_okD(5) [OF assms(1)] by blast
  qed
  moreover have "set m \<subseteq> {..< nmblock cfg}" using assms(3) pool_listsD(3) [OF pool_okD(1) [OF assms(1)]] by auto
  ultimately show "message cfg st m" using m assms(2) by (simp add: message_def)
qed

lemma sinv_pool:
  assumes "sinv cfg nd st H Q R"
  obtains F D where "pool_ok cfg nd st F D (blocks (H @ queued (v_nqueue st) Q))" "set F \<union> blocks (H @ queued (v_nqueue st) Q) = {..< nmblock cfg}"
    "set F \<inter> blocks (H @ queued (v_nqueue st) Q) = {}"
proof -
  obtain F D where f: "pool_ok cfg nd st F D (blocks (H @ queued (v_nqueue st) Q))" "set F \<union> blocks (H @ queued (v_nqueue st) Q) = {..< nmblock cfg}"
    using sinvD(1) [OF assms] by (auto simp: pool_part_def)
  then show thesis using that pool_listsD(4) [OF pool_okD(1) [OF f(1)]] by blast
qed

lemma blocks_apart:
  assumes "sinv cfg nd st (old @ H) Q R"
  shows "blocks old \<inter> blocks (H @ queued (v_nqueue st) Q) = {}"
    "blocks (old @ H @ queued (v_nqueue st) Q) - blocks old = blocks (H @ queued (v_nqueue st) Q)"
  using sinvD(7) [OF assms] by (auto simp: blocks_def)

text \<open>The blocks of some held messages, \<open>old\<close>, become those of others, \<open>new\<close>, with blocks taken from or given to the free list.\<close>

lemma held_change:
  assumes I: "sinv cfg nd st (old @ H) Q R" and F: "set F \<union> blocks (old @ H @ queued (v_nqueue st) Q) = {..< nmblock cfg}"
    and new: "distinct (concat new)" "\<forall>m\<in>set new. m \<noteq> [] \<and> linked (mbcont st') (Some (hd m)) m"
    and N: "pool_ok cfg nd st' F' D' (blocks (H @ queued (v_nqueue st) Q) \<union> blocks new)" "set F' \<union> blocks new = set F \<union> blocks old"
      "blocks new \<inter> blocks (H @ queued (v_nqueue st) Q) = {}" "keeps st st' (blocks (H @ queued (v_nqueue st) Q))"
  shows "sinv cfg nd st' (new @ H) Q R"
proof -
  let ?rest = "H @ queued (v_nqueue st) Q"
  have P: "distinct (concat (old @ ?rest))" "\<forall>m\<in>set (old @ ?rest). message cfg st m" using sinvD(1) [OF I] by (auto simp: pool_part_def)
  have nq: "v_nqueue st' = v_nqueue st" by (rule keeps_same(2) [OF N(4)])
  have msg: "\<forall>m\<in>set ?rest. message cfg st' m"
  proof
    fix m assume m: "m \<in> set ?rest"
    then have "message cfg st m" using P(2) by simp
    then show "message cfg st' m" by (rule keeps_message(1) [OF N(4) _ blocks_in [OF m]])
  qed
  have msgn: "\<forall>m\<in>set new. message cfg st' m" using pool_message(1) [OF N(1)] new(2) blocks_in [of _ new] by blast
  have "set F' \<union> blocks (new @ ?rest) = {..< nmblock cfg}" using N(2) F by auto
  moreover have "pool_ok cfg nd st' F' D' (blocks (new @ ?rest))" using N(1) by (simp add: Un_ac)
  moreover have "distinct (concat (new @ ?rest))" using new(1) P(1) N(3) by (auto simp: blocks_def)
  ultimately have part: "pool_part cfg nd st' (new @ ?rest)" unfolding pool_part_def using msgn msg by auto
  have "queue_ok cfg st' q (Q q)" if q: "q < v_nqueue st" for q
  proof (rule keeps_queue [OF N(4)])
    show "queue_ok cfg st q (Q q)" using I q by (simp add: sinv_def)
    show "blocks (Q q) \<subseteq> blocks ?rest" using q by (auto simp: blocks_def queued_def)
  qed
  then show ?thesis unfolding sinv_def nq using part keeps_runlist [OF N(4) sinvD(5) [OF I]] plumb_same_plumbed [OF keeps_same(1) [OF N(4)] sinvD(6) [OF I]] by simp
qed

section \<open>The operations on blocks\<close>

lemma sinv_stat: "sinv cfg nd st H Q R \<Longrightarrow> sinv cfg nd (st\<lparr>strst := x\<rparr>) H Q R"
proof -
  assume I: "sinv cfg nd st H Q R"
  obtain F D where F: "pool_ok cfg nd st F D (blocks (H @ queued (v_nqueue st) Q))" "set F \<union> blocks (H @ queued (v_nqueue st) Q) = {..< nmblock cfg}"
    by (rule sinv_pool [OF I])
  have "pool_ok cfg nd (st\<lparr>strst := x\<rparr>) F D (blocks (H @ queued (v_nqueue st) Q))" by (rule pool_same_ok [OF F(1)]) (simp_all add: pool_same_def)
  then show ?thesis using held_change [of cfg nd st "[]" H Q R F "[]" "st\<lparr>strst := x\<rparr>" F D] I F(2) by simp
qed

lemma sinv_alloc:
  assumes I: "sinv cfg nd st H Q R" and a: "allocb cfg sz pri st = (r, st')"
  shows "case r of None \<Rightarrow> sinv cfg nd st' H Q R | Some b \<Rightarrow> sinv cfg nd st' ([b] # H) Q R \<and> b \<notin> blocks H"
proof -
  let ?rest = "H @ queued (v_nqueue st) Q"
  obtain F D where F: "pool_ok cfg nd st F D (blocks ?rest)" "set F \<union> blocks ?rest = {..< nmblock cfg}" "set F \<inter> blocks ?rest = {}"
    by (rule sinv_pool [OF I])
  from F(1) show ?thesis
  proof (cases rule: allocb_ok [where sz = sz and pri = pri])
    case (none x)
    then show ?thesis using a sinv_stat [OF I] by auto
  next
    case (got b F' c d ds x)
    let ?s = "allocated b c d st x"
    have r: "r = Some b" "st' = ?s" using a got(1) by simp_all
    have b: "b \<notin> blocks ?rest" "set F = insert b (set F')" using F(3) got(2) by auto
    have k: "keeps st ?s (blocks ?rest)" by (rule allocated_keeps(1) [OF F(1) [unfolded got(2)] got(3,4)])
    have "sinv cfg nd ?s ([[b]] @ H) Q R"
      by (rule held_change [where old = "[]" and F = F and F' = F' and D' = "D(c := ds)"]) (use I F(2) got(8) b k in auto)
    then show ?thesis using r b(1) by simp
  qed
qed

lemma message_linked: "message cfg st m \<Longrightarrow> linked (mbcont st) (Some (hd m)) m"
  by (rule messageD)

lemma sinv_free:
  assumes I: "sinv cfg nd st (m # H) Q R"
  obtains st' where "freemsg (nmblock cfg) (Some (hd m)) st = Some st'" "sinv cfg nd st' H Q R"
proof -
  let ?rest = "H @ queued (v_nqueue st) Q"
  have I': "sinv cfg nd st ([m] @ H) Q R" using I by simp
  obtain F D where F: "pool_ok cfg nd st F D (blocks ((m # H) @ queued (v_nqueue st) Q))"
    "set F \<union> blocks ((m # H) @ queued (v_nqueue st) Q) = {..< nmblock cfg}" by (rule sinv_pool [OF I])
  have m: "message cfg st m" using sinvD(8) [OF I] by simp
  have r: "blocks ((m # H) @ queued (v_nqueue st) Q) - set m = blocks ?rest" using blocks_apart(2) [OF I'] by simp
  obtain st' D' where s: "freemsg (nmblock cfg) (Some (hd m)) st = Some st'" "pool_ok cfg nd st' (rev m @ F) D' (blocks ?rest)" "keeps st st' (blocks ?rest)"
    using freemsg_ok [OF F(1) messageD(2) [OF m] _ messageD(6) [OF m]] unfolding r by auto
  have "sinv cfg nd st' ([] @ H) Q R"
    by (rule held_change [OF I', where F = F and F' = "rev m @ F" and D' = D']) (use F(2) s in auto)
  then show thesis using that s(1) by simp
qed

text \<open>Two blocks with the same type and the same bytes.\<close>

abbreviation data_alike :: "strst \<Rightarrow> nat \<Rightarrow> nat \<Rightarrow> bool" where
  "data_alike st b n \<equiv> btype st n = btype st b \<and> bytes st n = bytes st b"

text \<open>Copies: of the bytes (\<open>copymsg\<close>), or of the references (\<open>dupmsg\<close>) while the counts have room.\<close>

lemma sinv_copies:
  assumes I: "sinv cfg nd st H Q R" and m: "m \<in> set H"
    and c: "\<And>F D. pool_ok cfg nd st F D (blocks (H @ queued (v_nqueue st) Q)) \<Longrightarrow>
      (\<exists>st' F' D'. c = Some (None, st') \<and> pool_ok cfg nd st' F' D' (blocks (H @ queued (v_nqueue st) Q)) \<and> set F' = set F \<and>
         keeps st st' (blocks (H @ queued (v_nqueue st) Q))) \<or>
      (\<exists>h ns st' F' D'. c = Some (Some h, st') \<and> linked (mbcont st') (Some h) ns \<and> pool_ok cfg nd st' F' D' (blocks (H @ queued (v_nqueue st) Q) \<union> set ns) \<and>
         set F = set F' \<union> set ns \<and> set ns \<inter> blocks (H @ queued (v_nqueue st) Q) = {} \<and> keeps st st' (blocks (H @ queued (v_nqueue st) Q)) \<and>
         list_all2 (data_alike st') m ns \<and> b_next (mblock st' h) = None \<and> b_prev (mblock st' h) = None)"
  shows "(\<exists>st'. c = Some (None, st') \<and> sinv cfg nd st' H Q R \<and> keeps st st' (blocks (H @ queued (v_nqueue st) Q))) \<or>
    (\<exists>ns st'. c = Some (Some (hd ns), st') \<and> sinv cfg nd st' (ns # H) Q R \<and> list_all2 (data_alike st') m ns \<and> set ns \<inter> blocks H = {} \<and>
       keeps st st' (blocks (H @ queued (v_nqueue st) Q)))"
proof -
  let ?rest = "H @ queued (v_nqueue st) Q"
  obtain F D where F: "pool_ok cfg nd st F D (blocks ?rest)" "set F \<union> blocks ?rest = {..< nmblock cfg}" by (rule sinv_pool [OF I])
  have I': "sinv cfg nd st ([] @ H) Q R" using I by simp
  from c [OF F(1)] show ?thesis
  proof (elim disjE exE conjE)
    fix st' F' D' assume a: "c = Some (None, st')" "pool_ok cfg nd st' F' D' (blocks ?rest)" "set F' = set F" "keeps st st' (blocks ?rest)"
    have "sinv cfg nd st' ([] @ H) Q R" by (rule held_change [OF I', where F = F and F' = F' and D' = D']) (use F(2) a in auto)
    then show ?thesis using a(1,4) by simp
  next
    fix h ns st' F' D'
    assume a: "c = Some (Some h, st')" "linked (mbcont st') (Some h) ns" "pool_ok cfg nd st' F' D' (blocks ?rest \<union> set ns)" "set F = set F' \<union> set ns"
      "set ns \<inter> blocks ?rest = {}" "keeps st st' (blocks ?rest)" "list_all2 (data_alike st') m ns"
    have h: "ns \<noteq> []" "hd ns = h" using a(2) by (cases ns; simp)+
    have "sinv cfg nd st' ([ns] @ H) Q R"
      by (rule held_change [OF I', where F = F and F' = F' and D' = D']) (use F(2) a h linked_distinct [OF a(2)] in auto)
    then show ?thesis using a h by auto
  qed
qed

lemma sinv_copymsg:
  assumes I: "sinv cfg nd st H Q R" and m: "m \<in> set H"
  shows "(\<exists>st'. copymsg cfg (Some (hd m)) st = Some (None, st') \<and> sinv cfg nd st' H Q R \<and> keeps st st' (blocks (H @ queued (v_nqueue st) Q))) \<or>
    (\<exists>ns st'. copymsg cfg (Some (hd m)) st = Some (Some (hd ns), st') \<and> sinv cfg nd st' (ns # H) Q R \<and> list_all2 (data_alike st') m ns \<and>
       set ns \<inter> blocks H = {} \<and> keeps st st' (blocks (H @ queued (v_nqueue st) Q)))"
proof (rule sinv_copies [OF I m], unfold copymsg_def)
  have w: "message cfg st m" by (rule sinvD(8) [OF I m])
  have s: "set m \<subseteq> blocks (H @ queued (v_nqueue st) Q)" using blocks_in [OF m] by auto
  fix F D assume "pool_ok cfg nd st F D (blocks (H @ queued (v_nqueue st) Q))"
  from copying.copy_all_ok [OF this messageD(2) [OF w] s TrueI messageD(6) [OF w]]
  show "(\<exists>st' F' D'. copy_all (copyb cfg) (nmblock cfg) (Some (hd m)) st = Some (None, st') \<and> pool_ok cfg nd st' F' D' (blocks (H @ queued (v_nqueue st) Q)) \<and>
        set F' = set F \<and> keeps st st' (blocks (H @ queued (v_nqueue st) Q))) \<or>
      (\<exists>h ns st' F' D'. copy_all (copyb cfg) (nmblock cfg) (Some (hd m)) st = Some (Some h, st') \<and> linked (mbcont st') (Some h) ns \<and>
         pool_ok cfg nd st' F' D' (blocks (H @ queued (v_nqueue st) Q) \<union> set ns) \<and>
         set F = set F' \<union> set ns \<and> set ns \<inter> blocks (H @ queued (v_nqueue st) Q) = {} \<and> keeps st st' (blocks (H @ queued (v_nqueue st) Q)) \<and>
         list_all2 (data_alike st') m ns \<and> b_next (mblock st' h) = None \<and> b_prev (mblock st' h) = None)" .
qed

text \<open>Every data block has room for as many references more as there are message blocks.\<close>

definition ref_room :: "strcfg \<Rightarrow> nat \<Rightarrow> strst \<Rightarrow> bool" where
  "ref_room cfg nd st \<longleftrightarrow> (\<forall>d < nd. unat (db_ref (dblock st d)) + nmblock cfg \<le> 255)"

lemma sinv_dupmsg:
  assumes I: "sinv cfg nd st H Q R" and m: "m \<in> set H" and r: "ref_room cfg nd st"
  shows "(\<exists>st'. dupmsg cfg (Some (hd m)) st = Some (None, st') \<and> sinv cfg nd st' H Q R \<and> keeps st st' (blocks (H @ queued (v_nqueue st) Q))) \<or>
    (\<exists>ns st'. dupmsg cfg (Some (hd m)) st = Some (Some (hd ns), st') \<and> sinv cfg nd st' (ns # H) Q R \<and> list_all2 (data_alike st') m ns \<and>
       set ns \<inter> blocks H = {} \<and> keeps st st' (blocks (H @ queued (v_nqueue st) Q)))"
proof (rule sinv_copies [OF I m], unfold dupmsg_def)
  have w: "message cfg st m" by (rule sinvD(8) [OF I m])
  have s: "set m \<subseteq> blocks (H @ queued (v_nqueue st) Q)" using blocks_in [OF m] by auto
  fix F D assume ok: "pool_ok cfg nd st F D (blocks (H @ queued (v_nqueue st) Q))"
  have room: "dup_room nd (length m) st (blocks (H @ queued (v_nqueue st) Q))"
    unfolding dup_room_def using r pool_okD(6) [OF ok] messageD(6) [OF w] by (fastforce simp: ref_room_def)
  from dup.copy_all_ok [OF ok messageD(2) [OF w] s room messageD(6) [OF w]]
  show "(\<exists>st' F' D'. copy_all dupb (nmblock cfg) (Some (hd m)) st = Some (None, st') \<and> pool_ok cfg nd st' F' D' (blocks (H @ queued (v_nqueue st) Q)) \<and>
        set F' = set F \<and> keeps st st' (blocks (H @ queued (v_nqueue st) Q))) \<or>
      (\<exists>h ns st' F' D'. copy_all dupb (nmblock cfg) (Some (hd m)) st = Some (Some h, st') \<and> linked (mbcont st') (Some h) ns \<and>
         pool_ok cfg nd st' F' D' (blocks (H @ queued (v_nqueue st) Q) \<union> set ns) \<and>
         set F = set F' \<union> set ns \<and> set ns \<inter> blocks (H @ queued (v_nqueue st) Q) = {} \<and> keeps st st' (blocks (H @ queued (v_nqueue st) Q)) \<and>
         list_all2 (data_alike st') m ns \<and> b_next (mblock st' h) = None \<and> b_prev (mblock st' h) = None)" .
qed

text \<open>\<open>pullupmsg\<close> of a positive length, and \<open>adjmsg\<close> from the head.\<close>

lemma sinv_pullup:
  assumes I: "sinv cfg nd st (m # H) Q R" and l: "0 < pull_len st m len"
  obtains r st' m' where "pullupmsg cfg (hd m) len st = Some (r, st')" "sinv cfg nd st' (m' # H) Q R" "hd m' = hd m"
    "msg_bytes st' m' = msg_bytes st m" "r \<longrightarrow> pull_len st m len \<le> int (length (bytes st' (hd m))) \<and> str_aligned (b_rptr (mblock st' (hd m)))" "btype st' (hd m) = btype st (hd m)"
    "keeps st st' (blocks (H @ queued (v_nqueue st) Q))"
proof -
  let ?rest = "H @ queued (v_nqueue st) Q"
  let ?U = "blocks ((m # H) @ queued (v_nqueue st) Q)"
  have I': "sinv cfg nd st ([m] @ H) Q R" using I by simp
  obtain F D where F: "pool_ok cfg nd st F D ?U" "set F \<union> ?U = {..< nmblock cfg}" by (rule sinv_pool [OF I])
  have m: "message cfg st m" using sinvD(8) [OF I] by simp
  have r: "?U - set m = blocks ?rest" using blocks_apart(2) [OF I'] by simp
  have sub: "set m \<subseteq> ?U" by simp
  obtain b st' F' D' where p: "pullupmsg cfg (hd m) len st = Some (b, st')"
    "if b then \<exists>bs'. pulled_up cfg nd st F ?U (hd m) m len st' bs' F' D' else pool_ok cfg nd st' F' D' ?U \<and> set F' = set F \<and> keeps st st' ?U"
    using pullupmsg_ok [OF F(1) messageD(2) [OF m] sub l] by blast
  show thesis
  proof (cases b)
    case True
    then obtain bs' where b: "linked (mbcont st') (Some (hd m)) bs'" "pool_ok cfg nd st' F' D' (blocks ?rest \<union> set bs')" "set F' \<union> set bs' = set F \<union> set m"
      "set bs' \<inter> blocks ?rest = {}" "keeps st st' (blocks ?rest)" "msg_bytes st' bs' = msg_bytes st m" "pull_len st m len \<le> int (length (bytes st' (hd m)))"
      "btype st' (hd m) = btype st (hd m)" "str_aligned (b_rptr (mblock st' (hd m)))" using p(2) unfolding pulled_up_def r by auto
    have h: "bs' \<noteq> []" "hd bs' = hd m" using b(1) by (cases bs'; simp)+
    have "sinv cfg nd st' ([bs'] @ H) Q R"
      by (rule held_change [OF I', where F = F and F' = F' and D' = D']) (use F(2) b h linked_distinct [OF b(1)] in auto)
    then show ?thesis using that [OF p(1), of bs'] b h by simp
  next
    case False
    then have b: "pool_ok cfg nd st' F' D' ?U" "set F' = set F" "keeps st st' ?U" using p(2) by simp_all
    have k: "keeps st st' (blocks ?rest)" by (rule keeps_mono [OF b(3)]) auto
    have l': "linked (mbcont st') (Some (hd m)) m" by (rule linked_keeps [OF b(3) sub messageD(2) [OF m]])
    have "sinv cfg nd st' ([m] @ H) Q R"
      by (rule held_change [OF I', where F = F and F' = F' and D' = D'])
        (use F(2) b k l' messageD(1) [OF m] linked_distinct [OF l'] blocks_apart(1) [OF I'] in \<open>auto simp: Un_ac\<close>)
    moreover have "msg_bytes st' m = msg_bytes st m" by (rule keeps_msg_bytes [OF b(3) sub]) (use pool_okD(4) [OF F(1)] in auto)
    moreover have "btype st' (hd m) = btype st (hd m)" by (rule keepsD(4) [OF b(3)]) (use messageD(5) [OF m] in simp)
    ultimately show ?thesis using that [OF p(1), of m] False k by simp
  qed
qed

end
