(* ===== verification/StreamMove.thy ===== *)
theory StreamMove
  imports StreamHeld
begin

text \<open>
  The other operations under the invariant: trimming, joining and filling held messages, and moving messages between
  modules and queues.
\<close>

section \<open>Trimming and joining\<close>

lemma sinv_adjmsg:
  assumes I: "sinv cfg nd st (m # H) Q R" and len: "0 \<le> len"
  obtains st' where "adjmsg cfg (hd m) len st = Some (len \<le> int (length (msg_bytes st (lead st m))), st')" "sinv cfg nd st' (m # H) Q R"
    "msg_bytes st' m = (if len \<le> int (length (msg_bytes st (lead st m))) then drop (nat len) (msg_bytes st m) else msg_bytes st m)"
proof -
  let ?rest = "H @ queued (v_nqueue st) Q"
  let ?U = "blocks ((m # H) @ queued (v_nqueue st) Q)"
  have I': "sinv cfg nd st ([m] @ H) Q R" using I by simp
  obtain F D where F: "pool_ok cfg nd st F D ?U" "set F \<union> ?U = {..< nmblock cfg}" by (rule sinv_pool [OF I])
  have m: "message cfg st m" using sinvD(8) [OF I] by simp
  have r: "?U - set m = blocks ?rest" using blocks_apart(2) [OF I'] by simp
  have sub: "set m \<subseteq> ?U" by simp
  from adjmsg_head_ok [OF F(1) messageD(2) [OF m] sub len] obtain st' where
    a: "adjmsg cfg (hd m) len st = Some (len \<le> int (length (msg_bytes st (lead st m))), st')" "pool_ok cfg nd st' F D ?U"
      "keeps st st' (blocks ?rest)" "linked (mbcont st') (Some (hd m)) m"
      "msg_bytes st' m = (if len \<le> int (length (msg_bytes st (lead st m))) then drop (nat len) (msg_bytes st m) else msg_bytes st m)"
    unfolding r by (elim exE conjE)
  have "sinv cfg nd st' ([m] @ H) Q R"
    by (rule held_change [OF I', where F = F and F' = F and D' = D])
      (use F(2) a messageD(1) [OF m] linked_distinct [OF a(4)] blocks_apart(1) [OF I'] in \<open>auto simp: Un_ac\<close>)
  then show thesis using that a by simp
qed

lemma linkb_ok:
  "linked (mbcont st) (Some b) m \<Longrightarrow> length m \<le> Suc n \<Longrightarrow> linkb n b c st = Some (upd_mb (last m) (\<lambda>p. p\<lparr>b_cont := Some c\<rparr>) st)"
proof (induction m arbitrary: b n)
  case (Cons a m)
  have b: "b = a" "linked (mbcont st) (mbcont st a) m" using Cons.prems(1) by simp_all
  show ?case
  proof (cases m)
    case Nil
    then show ?thesis using b by (simp add: linkb.simps)
  next
    case (Cons a' m')
    then have a: "mbcont st a = Some a'" using b(2) by simp
    obtain k where n: "n = Suc k" "length m \<le> Suc k" using Cons.prems(2) Cons by (cases n) auto
    have "linkb k a' c st = Some (upd_mb (last m) (\<lambda>p. p\<lparr>b_cont := Some c\<rparr>) st)" by (rule Cons.IH) (use b(2) a n in simp_all)
    then show ?thesis using b a n Cons by (subst linkb.simps) simp
  qed
qed simp

lemma cont_pool:
  assumes ok: "pool_ok cfg nd st F D U" and b: "b \<in> U"
  shows "pool_ok cfg nd (upd_mb b (\<lambda>p. p\<lparr>b_cont := c\<rparr>) st) F D U" "keeps st (upd_mb b (\<lambda>p. p\<lparr>b_cont := c\<rparr>) st) (U - {b})"
proof -
  let ?s = "upd_mb b (\<lambda>p. p\<lparr>b_cont := c\<rparr>) st"
  have n: "b \<notin> set F" using pool_listsD(4) [OF pool_okD(1) [OF ok]] b by auto
  show "pool_ok cfg nd ?s F D U"
    by (rule pool_ok_cong [OF ok]) (use n pool_okD(4) [OF ok] in \<open>auto simp: upd_mb_def block_in_def\<close>)
  show "keeps st ?s (U - {b})" by (auto simp: keeps_def same_env_def upd_mb_def)
qed

lemma sinv_link:
  assumes I: "sinv cfg nd st (m # n # H) Q R"
  obtains st' where "linkb (nmblock cfg) (hd m) (hd n) st = Some st'" "sinv cfg nd st' ((m @ n) # H) Q R"
proof -
  let ?rest = "H @ queued (v_nqueue st) Q"
  let ?U = "blocks ((m # n # H) @ queued (v_nqueue st) Q)"
  let ?s = "upd_mb (last m) (\<lambda>p. p\<lparr>b_cont := Some (hd n)\<rparr>) st"
  have I': "sinv cfg nd st ([m, n] @ H) Q R" using I by simp
  obtain F D where F: "pool_ok cfg nd st F D ?U" "set F \<union> ?U = {..< nmblock cfg}" by (rule sinv_pool [OF I])
  have m: "message cfg st m" "message cfg st n" using sinvD(8) [OF I] by simp_all
  have e: "linkb (nmblock cfg) (hd m) (hd n) st = Some ?s" by (rule linkb_ok [OF messageD(2) [OF m(1)]]) (use messageD(6) [OF m(1)] in simp)
  have l: "last m \<in> set m" using messageD(1) [OF m(1)] by simp
  have dis: "distinct (m @ n)" "set (m @ n) \<inter> blocks ?rest = {}" using sinvD(7) [OF I] by (auto simp: blocks_def)
  have U: "last m \<in> ?U" using l by simp
  note C = cont_pool [OF F(1) U, of "Some (hd n)"]
  have mc: "mbcont ?s = (mbcont st)(last m := Some (hd n))" by (simp add: upd_mb_def fun_eq_iff)
  obtain xs a where xs: "m = xs @ [a]" using messageD(1) [OF m(1)] by (cases m rule: rev_cases) auto
  have lk: "linked (mbcont ?s) (Some (hd (m @ n))) (m @ n)"
  proof -
    have "seg (mbcont st) (Some (hd m)) xs (Some a)" using messageD(2) [OF m(1)] xs by (simp add: linked_append)
    moreover have "a \<notin> set xs" "a \<notin> set n" using dis(1) xs by auto
    ultimately show ?thesis unfolding mc using messageD(1,2) [OF m(2)] xs by (auto simp: linked_append hd_append)
  qed
  have k: "keeps st ?s (blocks ?rest)" by (rule keeps_mono [OF C(2)]) (use dis(2) l in auto)
  have "sinv cfg nd ?s ([m @ n] @ H) Q R"
    by (rule held_change [OF I', where F = F and F' = F and D' = D])
      (use F(2) C(1) k dis lk messageD(1) [OF m(1)] in \<open>auto simp: Un_ac\<close>)
  then show thesis using that e by simp
qed

section \<open>Filling\<close>

text \<open>
  What a module does with a block it holds and whose data it shares with nobody: it gives it a type, writes bytes in
  its area and moves the write pointer.
\<close>

definition mod_fill :: "nat \<Rightarrow> nat \<Rightarrow> u8 \<Rightarrow> int \<Rightarrow> (int \<Rightarrow> u8) \<Rightarrow> strst \<Rightarrow> strst" where
  "mod_fill b d t w f st = st\<lparr>dblock := (dblock st)(d := (dblock st d)\<lparr>db_type := t\<rparr>), mblock := (mblock st)(b := (mblock st b)\<lparr>b_wptr := w\<rparr>),
     smem := \<lambda>a. if db_base (dblock st d) \<le> a \<and> a < db_lim (dblock st d) then f a else smem st a\<rparr>"

definition may_fill :: "nat \<Rightarrow> nat \<Rightarrow> int \<Rightarrow> strst \<Rightarrow> bool" where
  "may_fill b d w st \<longleftrightarrow> mbdata st b = Some d \<and> db_ref (dblock st d) = 1 \<and> b_rptr (mblock st b) \<le> w \<and> w \<le> db_lim (dblock st d)"

lemma one_ref:
  assumes "finite U" "refs dp U d = 1" "b \<in> U" "dp b = Some d" "a \<in> U" "dp a = Some d"
  shows "a = b"
proof -
  obtain c where "{x \<in> U. dp x = Some d} = {c}" using assms(2) unfolding refs_def by (auto simp: card_1_singleton_iff)
  then show ?thesis using assms(3-6) by (metis (mono_tags, lifting) mem_Collect_eq singletonD)
qed

lemma fill_ok:
  assumes ok: "pool_ok cfg nd st F D U" and b: "b \<in> U" and f: "may_fill b d w st"
  shows "pool_ok cfg nd (mod_fill b d t w f st) F D U" "keeps st (mod_fill b d t w f st) (U - {b})"
proof -
  let ?s = "mod_fill b d t w f st"
  note P = pool_okD [OF ok]
  have d: "mbdata st b = Some d" "b_rptr (mblock st b) \<le> w" "w \<le> db_lim (dblock st d)" using f by (simp_all add: may_fill_def)
  have dn: "d < nd" "db_base (dblock st d) \<le> b_rptr (mblock st b)" using P(4) [OF b] d(1) by (auto simp: block_in_def)
  have "refs (mbdata st) U d = 1" using P(6) [OF dn(1)] f by (simp add: may_fill_def)
  then have o: "a = b" if "a \<in> U" "mbdata st a = Some d" for a
    using one_ref [OF pool_listsD(7) [OF P(1)] _ b d(1) that] by simp
  have sel: "dbcls ?s e = dbcls st e" "db_base (dblock ?s e) = db_base (dblock st e)" "db_lim (dblock ?s e) = db_lim (dblock st e)"
    "db_ref (dblock ?s e) = db_ref (dblock st e)" "dbnext ?s e = dbnext st e" for e by (simp_all add: mod_fill_def)
  have n: "b \<notin> set F" using pool_listsD(4) [OF P(1)] b by auto
  show "pool_ok cfg nd ?s F D U"
  proof (rule pool_ok_cong [OF ok])
    fix a assume a: "a \<in> U"
    show "block_in nd ?s a"
    proof (cases "a = b")
      case True
      then show ?thesis using d dn by (auto simp: block_in_def mod_fill_def)
    next
      case False
      then show ?thesis using P(4) [OF a] unfolding block_in_def sel by (simp add: mod_fill_def)
    qed
  qed (use n in \<open>auto simp: mod_fill_def\<close>)
  show "keeps st ?s (U - {b})"
    unfolding keeps_def
  proof (intro conjI ballI allI impI)
    show "same_env st ?s" by (simp add: same_env_def mod_fill_def)
  next
    fix a assume a: "a \<in> U - {b}"
    then show "mblock ?s a = mblock st a" by (simp add: mod_fill_def)
    fix e assume e: "mbdata st a = Some e"
    have ne: "e \<noteq> d" using o a e by blast
    then show "db_type (dblock ?s e) = db_type (dblock st e)" by (simp add: mod_fill_def)
    have en: "e < nd" using P(4) [of a] a e by (auto simp: block_in_def)
    fix x assume x: "db_base (dblock st e) \<le> x \<and> x < db_lim (dblock st e)"
    have "db_lim (dblock st e) \<le> db_base (dblock st d) \<or> db_lim (dblock st d) \<le> db_base (dblock st e)"
      using P(3) en dn(1) ne unfolding pool_areas_def by blast
    then show "smem ?s x = smem st x" using x by (auto simp: mod_fill_def)
  qed
qed

lemma sinv_fill:
  assumes I: "sinv cfg nd st (m # H) Q R" and b: "b \<in> set m" and f: "may_fill b d w st"
  shows "sinv cfg nd (mod_fill b d t w f st) (m # H) Q R"
proof -
  let ?rest = "H @ queued (v_nqueue st) Q"
  let ?U = "blocks ((m # H) @ queued (v_nqueue st) Q)" and ?s = "mod_fill b d t w f st"
  have I': "sinv cfg nd st ([m] @ H) Q R" using I by simp
  obtain F D where F: "pool_ok cfg nd st F D ?U" "set F \<union> ?U = {..< nmblock cfg}" by (rule sinv_pool [OF I])
  have m: "message cfg st m" using sinvD(8) [OF I] by simp
  have U: "b \<in> ?U" using b by simp
  note P = fill_ok [OF F(1) U f, of t f]
  have k: "keeps st ?s (blocks ?rest)" by (rule keeps_mono [OF P(2)]) (use b blocks_apart(1) [OF I'] in auto)
  have l: "linked (mbcont ?s) (Some (hd m)) m" by (rule linked_congI [OF messageD(2) [OF m]]) (simp add: mod_fill_def)
  have "sinv cfg nd ?s ([m] @ H) Q R"
    by (rule held_change [OF I', where F = F and F' = F and D' = D])
      (use F(2) P(1) k l messageD(1) [OF m] linked_distinct [OF l] blocks_apart(1) [OF I'] in \<open>auto simp: Un_ac\<close>)
  then show ?thesis by simp
qed

section \<open>Moving messages\<close>

lemma queued_change:
  assumes "q < n"
  shows "mset (queued n (Q(q := ms))) + mset (Q q) = mset (queued n Q) + mset ms"
proof -
  have "mset (queued k (Q(q := ms))) + (if q < k then mset (Q q) else {#}) = mset (queued k Q) + (if q < k then mset ms else {#})" for k
    by (induction k) (auto simp: queued_def less_Suc_eq ac_simps)
  from this [of n] show ?thesis using assms by simp
qed

lemma queued_split:
  assumes "q < n"
  shows "mset (queued n Q) = mset (Q q) + mset (queued n (Q(q := [])))"
  using queued_change [OF assms, of Q "[]"] by (simp add: ac_simps)

lemma distinct_concat_mset: "mset ns = mset ms \<Longrightarrow> distinct (concat ns) \<longleftrightarrow> distinct (concat ms)"
  by (rule mset_eq_imp_distinct_iff) (metis mset_concat mset_map sum_mset_sum_list)

lemma queue_apart:
  assumes I: "sinv cfg nd st H Q R" and q: "q < v_nqueue st" "p < v_nqueue st" "p \<noteq> q"
  shows "blocks (H @ Q q) \<inter> blocks (Q p) = {}"
proof -
  let ?n = "v_nqueue st"
  have "mset (queued ?n (Q(q := []))) = mset (Q p) + mset (queued ?n (Q(q := [], p := [])))"
    using queued_split [OF q(2), of "Q(q := [])"] q(3) by simp
  then have "mset (H @ queued ?n Q) = mset ((H @ Q q) @ Q p @ queued ?n (Q(q := [], p := [])))"
    using queued_split [OF q(1), of Q] by simp
  then have "distinct (concat ((H @ Q q) @ Q p @ queued ?n (Q(q := [], p := []))))"
    using distinct_concat_mset sinvD(7) [OF I] by blast
  then show ?thesis by (auto simp: blocks_def)
qed

lemma hd_blocks: "\<forall>m\<in>set ms. m \<noteq> [] \<Longrightarrow> hd ` set ms \<subseteq> blocks ms"
  by (auto simp: blocks_def)

text \<open>An operation on queue \<open>q\<close> that hands its messages and those of the modules about.\<close>

lemma sinv_queue:
  assumes I: "sinv cfg nd st H Q R" and q: "q < v_nqueue st" and fr: "q_frame st st' q S" and S: "S \<subseteq> blocks (H @ Q q)"
    and new: "queue_ok cfg st' q ms" "runlist st' R'" and eq: "mset (H' @ ms) = mset (H @ Q q)"
  shows "sinv cfg nd st' H' (Q(q := ms)) R'"
proof -
  let ?n = "v_nqueue st"
  have s: "pool_same st st'" "plumb_same st st'" "\<forall>a. a \<notin> S \<longrightarrow> mblock st' a = mblock st a" using fr by (simp_all add: q_frame_def)
  have n: "v_nqueue st' = ?n" by (rule plumb_same_view(4) [OF s(2)])
  have m: "mset (H' @ queued ?n (Q(q := ms))) = mset (H @ queued ?n Q)"
  proof -
    have "mset (H' @ queued ?n (Q(q := ms))) + mset (Q q) = mset H' + (mset (queued ?n Q) + mset ms)"
      using queued_change [OF q, of Q ms] by (simp only: mset_append add.assoc)
    also have "\<dots> = mset (H @ queued ?n Q) + mset (Q q)" using eq by (simp add: ac_simps)
    finally show ?thesis by simp
  qed
  obtain F D where F: "pool_ok cfg nd st F D (blocks (H @ queued ?n Q))" "set F \<union> blocks (H @ queued ?n Q) = {..< nmblock cfg}"
    "set F \<inter> blocks (H @ queued ?n Q) = {}" by (rule sinv_pool [OF I])
  have "blocks (Q q) \<subseteq> blocks (queued ?n Q)" using q by (auto simp: blocks_def queued_def)
  then have SF: "set F \<inter> S = {}" using S F(3) by auto
  have "pool_ok cfg nd st' F D (blocks (H @ queued ?n Q))" by (rule pool_same_ok [OF F(1) s(1)]) (use s(3) SF in auto)
  moreover have "\<forall>m\<in>set (H @ queued ?n Q). message cfg st' m" using sinvD(1) [OF I] message_same [OF s(1)] by (auto simp: pool_part_def)
  ultimately have "pool_part cfg nd st' (H @ queued ?n Q)" using F(2) sinvD(7) [OF I] unfolding pool_part_def by blast
  then have part: "pool_part cfg nd st' (H' @ queued ?n (Q(q := ms)))" by (rule pool_part_perm [OF _ m])
  have "queue_ok cfg st' p ((Q(q := ms)) p)" if p: "p < ?n" for p
  proof (cases "p = q")
    case False
    have "\<forall>m\<in>set (Q p). m \<noteq> []" using messageD(1) [OF qmsgsD(2) [OF sinvD(2) [OF I p]]] by blast
    then have "set (map hd (Q p)) \<inter> S = {}" using hd_blocks [of "Q p"] queue_apart [OF I q p False] S by auto
    then have "qmsgs cfg st' p (Q p)" by (rule qmsgs_frame [OF sinvD(2) [OF I p] fr False])
    moreover have "ordered st' (Q p)" using sinvD(3) [OF I p] ordered_same [OF s(1)] by simp
    moreover have "flow_ok st' p (Q p)" by (rule flow_frame [OF sinvD(4) [OF I p] fr False])
    ultimately show ?thesis using False by (simp add: queue_ok_def)
  qed (use new(1) in simp)
  then show ?thesis unfolding sinv_def n using part new(2) plumb_same_plumbed [OF s(2) sinvD(6) [OF I]] by simp
qed

lemma sinv_heads:
  assumes I: "sinv cfg nd st (m # H) Q R" and q: "q < v_nqueue st"
  shows "hd m \<notin> hd ` set (Q q)" "hd ` set (m # Q q) \<subseteq> blocks ((m # H) @ Q q)"
proof -
  have m: "message cfg st m" using sinvD(8) [OF I] by simp
  have ne: "\<forall>m\<in>set (Q q). m \<noteq> []" using messageD(1) [OF qmsgsD(2) [OF sinvD(2) [OF I q]]] by blast
  have "set m \<inter> blocks (Q q) = {}"
  proof -
    have "blocks (Q q) \<subseteq> blocks (queued (v_nqueue st) Q)" using q by (auto simp: blocks_def queued_def)
    moreover have "set m \<inter> blocks (queued (v_nqueue st) Q) = {}" using sinvD(7) [OF I] by (simp add: blocks_def) blast
    ultimately show ?thesis by blast
  qed
  then show "hd m \<notin> hd ` set (Q q)" using hd_blocks [OF ne] messageD(5) [OF m] by auto
  show "hd ` set (m # Q q) \<subseteq> blocks ((m # H) @ Q q)" using hd_blocks [OF ne] messageD(5) [OF m] by auto
qed

lemma put_first_mset: "mset (put_last st m ms) = add_mset m (mset ms)" "mset (put_first st m ms) = add_mset m (mset ms)"
proof -
  have "mset (xs @ m # ys) = add_mset m (mset (xs @ ys))" for xs ys by simp
  from this [of "takeWhile P ms" "dropWhile P ms" for P] show "mset (put_last st m ms) = add_mset m (mset ms)" "mset (put_first st m ms) = add_mset m (mset ms)"
    unfolding put_last_def put_first_def by (simp_all only: takeWhile_dropWhile_id)
qed

lemma sinv_putq:
  assumes I: "sinv cfg nd st (m # H) Q R" and q: "q < v_nqueue st" and w: "qweight st (m # Q q) < 65536"
  obtains st' where "putq cfg q (hd m) st = Some st'"
    "sinv cfg nd st' H (Q(q := put_last st m (Q q))) (if wakes st q (mclass st m) then enq st q R else R)" "loaded q st st'"
proof -
  have m: "message cfg st m" using sinvD(8) [OF I] by simp
  note h = sinv_heads [OF I q]
  obtain st' where p: "putq cfg q (hd m) st = Some st'" "qmsgs cfg st' q (put_last st m (Q q))" "q_frame st st' q (hd ` set (m # Q q))" "loaded q st st'"
    "runlist st' (if wakes st q (mclass st m) then enq st q R else R)"
    by (rule putq_ok [OF sinvD(2,3) [OF I q] m h(1) sinvD(5,6) [OF I] q])
  have s: "pool_same st st'" using p(3) by (simp add: q_frame_def)
  have "flow_ok st' q (put_last st m (Q q))" by (rule put_flow(1) [OF sinvD(4) [OF I q] m p(3,4) w p(2)])
  then have "queue_ok cfg st' q (put_last st m (Q q))" using p(2) put_ordered(1) [OF sinvD(3) [OF I q]] ordered_same [OF s] by (simp add: queue_ok_def)
  then have "sinv cfg nd st' H (Q(q := put_last st m (Q q))) (if wakes st q (mclass st m) then enq st q R else R)"
    by (rule sinv_queue [OF I q p(3) h(2) _ p(5)]) (simp add: put_first_mset)
  then show thesis using that p(1,4) by blast
qed

lemma sinv_putbq:
  assumes I: "sinv cfg nd st (m # H) Q R" and q: "q < v_nqueue st" and w: "qweight st (m # Q q) < 65536"
  obtains st' where "putbq cfg q (hd m) st = Some st'"
    "sinv cfg nd st' H (Q(q := put_first st m (Q q))) (if wakes st q (mclass st m) then enq st q R else R)" "loaded q st st'"
proof -
  have m: "message cfg st m" using sinvD(8) [OF I] by simp
  note h = sinv_heads [OF I q]
  obtain st' where p: "putbq cfg q (hd m) st = Some st'" "qmsgs cfg st' q (put_first st m (Q q))" "q_frame st st' q (hd ` set (m # Q q))" "loaded q st st'"
    "runlist st' (if wakes st q (mclass st m) then enq st q R else R)"
    by (rule putbq_ok [OF sinvD(2,3) [OF I q] m h(1) sinvD(5,6) [OF I] q])
  have s: "pool_same st st'" using p(3) by (simp add: q_frame_def)
  have "flow_ok st' q (put_first st m (Q q))" by (rule put_flow(2) [OF sinvD(4) [OF I q] m p(3,4) w p(2)])
  then have "queue_ok cfg st' q (put_first st m (Q q))" using p(2) put_ordered(2) [OF sinvD(3) [OF I q]] ordered_same [OF s] by (simp add: queue_ok_def)
  then have "sinv cfg nd st' H (Q(q := put_first st m (Q q))) (if wakes st q (mclass st m) then enq st q R else R)"
    by (rule sinv_queue [OF I q p(3) h(2) _ p(5)]) (simp add: put_first_mset)
  then show thesis using that p(1,4) by blast
qed

lemma sinv_getq:
  assumes I: "sinv cfg nd st H Q R" and q: "q < v_nqueue st" and m: "Q q = m # ms"
  obtains st' where "getq cfg q st = Some (Some (hd m), st')"
    "sinv cfg nd st' (m # H) (Q(q := ms)) (if uint16 (qweight st ms) \<le> q_lowat (queues st q) \<and> q_is st q QWANTW then enq_back st q R else R)"
    "drained True q st st'"
proof -
  have qm: "qmsgs cfg st q (m # ms)" using sinvD(2) [OF I q] m by simp
  obtain st' where g: "getq cfg q st = Some (Some (hd m), st')" "qmsgs cfg st' q ms" "q_frame st st' q (hd ` set (m # ms))" "drained True q st st'"
    "runlist st' (if uint16 (qweight st ms) \<le> q_lowat (queues st q) \<and> q_is st q QWANTW then enq_back st q R else R)"
    by (rule getq_some [OF qm sinvD(5,6) [OF I] q])
  have s: "pool_same st st'" using g(3) by (simp add: q_frame_def)
  have mm: "message cfg st m" by (rule qmsgsD(2) [OF qm]) simp
  have "flow_ok st' q ([] @ ms)" by (rule drained_flow [OF _ mm _ g(3,4)]) (use sinvD(4) [OF I q] m g(2) in simp_all)
  moreover have "ordered st' ms" using sinvD(3) [OF I q] m ordered_same [OF s] by (simp add: ordered_def)
  ultimately have qo: "queue_ok cfg st' q ms" using g(2) by (simp add: queue_ok_def)
  have ne: "\<forall>x\<in>set (Q q). x \<noteq> []" using messageD(1) [OF qmsgsD(2) [OF sinvD(2) [OF I q]]] by blast
  have S: "hd ` set (m # ms) \<subseteq> blocks (H @ Q q)" using hd_blocks [OF ne] m by auto
  show thesis by (rule that [OF g(1) sinv_queue [OF I q g(3) S qo g(5)] g(4)]) (simp add: m)
qed

lemma sinv_body:
  assumes I: "sinv cfg nd st H Q R" and b: "body_same st st'" and R: "runlist st' R'"
  shows "sinv cfg nd st' H Q R'"
proof -
  have s: "pool_same st st'" "plumb_same st st'" "mblock st' = mblock st" using b by (simp_all add: body_same_def)
  have n: "v_nqueue st' = v_nqueue st" by (rule plumb_same_view(4) [OF s(2)])
  have "pool_part cfg nd st' (H @ queued (v_nqueue st) Q)"
    using sinvD(1) [OF I] message_same [OF s(1)] pool_same_ok [OF _ s(1)] s(3) unfolding pool_part_def by metis
  moreover have "queue_ok cfg st' q (Q q)" if "q < v_nqueue st" for q
    using qmsgs_body [OF sinvD(2) [OF I that] b] flow_body [OF sinvD(4) [OF I that] b] sinvD(3) [OF I that] ordered_same [OF s(1)] by (simp add: queue_ok_def)
  ultimately show ?thesis using R n plumb_same_plumbed [OF s(2) sinvD(6) [OF I]] by (simp add: sinv_def)
qed

lemma sinv_flag:
  assumes I: "sinv cfg nd st H Q R" and q: "q < v_nqueue st" and w: "w \<in> {QWANTR, QNOENB} \<or> w = QWANTW \<and> q_is st q QFULL"
  shows "sinv cfg nd (q_on w q st) H Q R"
proof -
  have w': "w \<in> qflags" "w \<noteq> QREADR" "w \<noteq> QENAB" "w \<noteq> QFULL" using w by auto
  have "flow_ok (q_on w q st) q (Q q)"
    using sinvD(4) [OF I q] w q_is_on [OF w'(1), of QFULL q st q] q_is_on [OF w'(1), of QWANTW q st q] w'(4) qweight_same [OF pool_same_flag(1)]
    by (auto simp: flow_ok_def)
  then have "queue_ok cfg (q_on w q st) q (Q q)"
    using qmsgs_flag(1) [OF w'(1,2) sinvD(2) [OF I q]] sinvD(3) [OF I q] ordered_same [OF pool_same_flag(1)] by (simp add: queue_ok_def)
  then have "sinv cfg nd (q_on w q st) H (Q(q := Q q)) R"
    by (rule sinv_queue [OF I q flag_frame(1) [OF w'(1,2)] empty_subsetI _ runlist_off(1) [OF sinvD(5) [OF I] w'(1,3)] refl])
  then show ?thesis by simp
qed

lemma sinv_enableok:
  assumes I: "sinv cfg nd st H Q R" and q: "q < v_nqueue st"
  shows "sinv cfg nd (enableok q st) H Q R"
proof -
  have w: "QNOENB \<in> qflags" "QNOENB \<noteq> QREADR" "QNOENB \<noteq> QENAB" by simp_all
  have "flow_ok (q_off QNOENB q st) q (Q q)"
    using sinvD(4) [OF I q] q_is_off [OF w(1), of QFULL q st q] q_is_off [OF w(1), of QWANTW q st q] qweight_same [OF pool_same_flag(2)] by (simp add: flow_ok_def)
  then have "queue_ok cfg (q_off QNOENB q st) q (Q q)"
    using qmsgs_flag(2) [OF w(1,2) sinvD(2) [OF I q]] sinvD(3) [OF I q] ordered_same [OF pool_same_flag(2)] by (simp add: queue_ok_def)
  then have "sinv cfg nd (q_off QNOENB q st) H (Q(q := Q q)) R"
    by (rule sinv_queue [OF I q flag_frame(2) [OF w(1,2)] empty_subsetI _ runlist_off(2) [OF sinvD(5) [OF I] w(1,3)] refl])
  then show ?thesis by (simp add: enableok_def)
qed

lemma sinv_getq_empty:
  assumes I: "sinv cfg nd st H Q R" and q: "q < v_nqueue st" and m: "Q q = []"
  shows "getq cfg q st = Some (None, q_on QWANTR q st)" "sinv cfg nd (q_on QWANTR q st) H Q R"
proof -
  have "qmsgs cfg st q []" "flow_ok st q []" using sinvD(2,4) [OF I q] m by simp_all
  then show "getq cfg q st = Some (None, q_on QWANTR q st)" by (intro getq_none [OF _ sinvD(5,6) [OF I] q] flow_not_due)
  show "sinv cfg nd (q_on QWANTR q st) H Q R" by (rule sinv_flag [OF I q]) simp
qed

lemma sinv_rmvq:
  assumes I: "sinv cfg nd st H Q R" and q: "q < v_nqueue st" and m: "Q q = ms @ m # ns"
  obtains st' where "rmvq cfg q (hd m) st = Some st'"
    "sinv cfg nd st' (m # H) (Q(q := ms @ ns)) (if uint16 (qweight st (ms @ ns)) \<le> q_lowat (queues st q) \<and> q_is st q QWANTW then enq_back st q R else R)"
proof -
  have qm: "qmsgs cfg st q (ms @ m # ns)" using sinvD(2) [OF I q] m by simp
  obtain st' where g: "rmvq cfg q (hd m) st = Some st'" "qmsgs cfg st' q (ms @ ns)" "q_frame st st' q (hd ` set (ms @ m # ns))" "drained False q st st'"
    "runlist st' (if uint16 (qweight st (ms @ ns)) \<le> q_lowat (queues st q) \<and> q_is st q QWANTW then enq_back st q R else R)"
    by (rule rmvq_ok [OF qm sinvD(5,6) [OF I] q])
  have s: "pool_same st st'" using g(3) by (simp add: q_frame_def)
  have mm: "message cfg st m" by (rule qmsgsD(2) [OF qm]) simp
  have "flow_ok st' q (ms @ ns)" by (rule drained_flow [OF _ mm g(2,3,4)]) (use sinvD(4) [OF I q] m in simp)
  moreover have "ordered st' (ms @ ns)" using sinvD(3) [OF I q] m ordered_same [OF s] by (simp add: ordered_def sorted_wrt_append)
  ultimately have qo: "queue_ok cfg st' q (ms @ ns)" using g(2) by (simp add: queue_ok_def)
  have ne: "\<forall>x\<in>set (Q q). x \<noteq> []" using messageD(1) [OF qmsgsD(2) [OF sinvD(2) [OF I q]]] by blast
  have S: "hd ` set (ms @ m # ns) \<subseteq> blocks (H @ Q q)" using hd_blocks [OF ne] m by auto
  show thesis by (rule that [OF g(1) sinv_queue [OF I q g(3) S qo g(5)]]) (simp add: m)
qed

lemma sinv_canput:
  assumes I: "sinv cfg nd st H Q R" and q: "q < v_nqueue st"
  obtains t where "put_target (v_nqueue st) q st = Some t" "t < v_nqueue st"
    "canput (Some q) st = Some (if q_is st t QFULL then (False, q_on QWANTW t st) else (True, st))"
    "sinv cfg nd (if q_is st t QFULL then q_on QWANTW t st else st) H Q R"
proof -
  obtain t where t: "put_target (v_nqueue st) q st = Some t" "t < v_nqueue st" by (rule plumbed_put_target [OF sinvD(6) [OF I] q])
  show thesis by (rule that [OF t]) (use t I sinv_flag [OF I t(2), of QWANTW] in \<open>simp_all add: canput_def\<close>)
qed

lemma sinv_qenable:
  assumes I: "sinv cfg nd st H Q R" and q: "q < v_nqueue st"
  obtains st' where "qenable q st = Some st'" "sinv cfg nd st' H Q (enq st q R)"
proof -
  obtain s where s: "srvp st q = Some s" using plumbed_srvp [OF sinvD(6) [OF I] q] by blast
  obtain st' where "qenable q st = Some st'" "runlist st' (enq st q R)" "body_same st st'" by (rule qenable_ok [OF sinvD(5) [OF I] q s])
  then show thesis using that sinv_body [OF I] by blast
qed

lemma sinv_popped: "sinv cfg nd st H Q (q # R) \<Longrightarrow> sinv cfg nd (popped q st) H Q R"
  by (rule sinv_body [OF _ popped_body popped_runlist]) (auto dest: sinvD(5))

end
