(* ===== verification/StreamSystem.thy ===== *)
theory StreamSystem
  imports StreamMove
begin

text \<open>
  The streams as a system: the modules of all streams, each holding messages by the pointers to their first blocks, call
  the operations in any order; a scheduled queue is dispatched at any time. The invariant holds in every reachable
  state, and every call of an operation returns.
\<close>

section \<open>Steps\<close>

record strsys =
  ss :: strst
  hand :: "nat set"

text \<open>The blocks of the message at \<open>b\<close>, and the bounds on calls: lengths, and what counts can hold.\<close>

abbreviation msg_at :: "strcfg \<Rightarrow> strst \<Rightarrow> nat \<Rightarrow> nat list option" where
  "msg_at cfg st b \<equiv> walk (nmblock cfg) (mbcont st) (Some b)"

definition count_room :: "strcfg \<Rightarrow> nat \<Rightarrow> nat \<Rightarrow> strst \<Rightarrow> bool" where
  "count_room cfg q b st \<longleftrightarrow> (\<forall>m. msg_at cfg st b = Some m \<longrightarrow> q_count (queues st q) + weight st m < 65536)"

definition pull_room :: "strcfg \<Rightarrow> nat \<Rightarrow> int \<Rightarrow> strst \<Rightarrow> bool" where
  "pull_room cfg b len st \<longleftrightarrow> (if len = - 1 then xmsgsize cfg b st \<noteq> Some 0 else 0 < len)"

definition get_hand :: "ptr \<Rightarrow> nat set \<Rightarrow> nat set" where
  "get_hand r H = (case r of None \<Rightarrow> H | Some b \<Rightarrow> insert b H)"

inductive sstep :: "strcfg \<Rightarrow> nat \<Rightarrow> strsys \<Rightarrow> strsys \<Rightarrow> bool" for cfg nd where
  s_alloc: "allocb cfg sz pri st = (r, st') \<Longrightarrow> sstep cfg nd \<lparr>ss = st, hand = H\<rparr> \<lparr>ss = st', hand = get_hand r H\<rparr>"
| s_free: "b \<in> H \<Longrightarrow> freemsg (nmblock cfg) (Some b) st = Some st' \<Longrightarrow> sstep cfg nd \<lparr>ss = st, hand = H\<rparr> \<lparr>ss = st', hand = H - {b}\<rparr>"
| s_copy: "b \<in> H \<Longrightarrow> copymsg cfg (Some b) st = Some (r, st') \<Longrightarrow> sstep cfg nd \<lparr>ss = st, hand = H\<rparr> \<lparr>ss = st', hand = get_hand r H\<rparr>"
| s_dup: "b \<in> H \<Longrightarrow> ref_room cfg nd st \<Longrightarrow> dupmsg cfg (Some b) st = Some (r, st') \<Longrightarrow>
    sstep cfg nd \<lparr>ss = st, hand = H\<rparr> \<lparr>ss = st', hand = get_hand r H\<rparr>"
| s_pull: "b \<in> H \<Longrightarrow> pull_room cfg b len st \<Longrightarrow> pullupmsg cfg b len st = Some (r, st') \<Longrightarrow> sstep cfg nd \<lparr>ss = st, hand = H\<rparr> \<lparr>ss = st', hand = H\<rparr>"
| s_adj: "b \<in> H \<Longrightarrow> 0 \<le> len \<Longrightarrow> adjmsg cfg b len st = Some (r, st') \<Longrightarrow> sstep cfg nd \<lparr>ss = st, hand = H\<rparr> \<lparr>ss = st', hand = H\<rparr>"
| s_link: "b \<in> H \<Longrightarrow> c \<in> H \<Longrightarrow> b \<noteq> c \<Longrightarrow> linkb (nmblock cfg) b c st = Some st' \<Longrightarrow> sstep cfg nd \<lparr>ss = st, hand = H\<rparr> \<lparr>ss = st', hand = H - {c}\<rparr>"
| s_fill: "b \<in> H \<Longrightarrow> msg_at cfg st b = Some m \<Longrightarrow> a \<in> set m \<Longrightarrow> may_fill a d w st \<Longrightarrow>
    sstep cfg nd \<lparr>ss = st, hand = H\<rparr> \<lparr>ss = mod_fill a d t w f st, hand = H\<rparr>"
| s_putq: "b \<in> H \<Longrightarrow> q < v_nqueue st \<Longrightarrow> count_room cfg q b st \<Longrightarrow> putq cfg q b st = Some st' \<Longrightarrow>
    sstep cfg nd \<lparr>ss = st, hand = H\<rparr> \<lparr>ss = st', hand = H - {b}\<rparr>"
| s_putbq: "b \<in> H \<Longrightarrow> q < v_nqueue st \<Longrightarrow> count_room cfg q b st \<Longrightarrow> putbq cfg q b st = Some st' \<Longrightarrow>
    sstep cfg nd \<lparr>ss = st, hand = H\<rparr> \<lparr>ss = st', hand = H - {b}\<rparr>"
| s_getq: "q < v_nqueue st \<Longrightarrow> getq cfg q st = Some (r, st') \<Longrightarrow> sstep cfg nd \<lparr>ss = st, hand = H\<rparr> \<lparr>ss = st', hand = get_hand r H\<rparr>"
| s_rmvq: "q < v_nqueue st \<Longrightarrow> walk (nmblock cfg) (mbnext st) (q_first (queues st q)) = Some xs \<Longrightarrow> b \<in> set xs \<Longrightarrow> rmvq cfg q b st = Some st' \<Longrightarrow>
    sstep cfg nd \<lparr>ss = st, hand = H\<rparr> \<lparr>ss = st', hand = insert b H\<rparr>"
| s_canput: "q < v_nqueue st \<Longrightarrow> canput (Some q) st = Some (r, st') \<Longrightarrow> sstep cfg nd \<lparr>ss = st, hand = H\<rparr> \<lparr>ss = st', hand = H\<rparr>"
| s_qenable: "q < v_nqueue st \<Longrightarrow> qenable q st = Some st' \<Longrightarrow> sstep cfg nd \<lparr>ss = st, hand = H\<rparr> \<lparr>ss = st', hand = H\<rparr>"
| s_noenable: "q < v_nqueue st \<Longrightarrow> sstep cfg nd \<lparr>ss = st, hand = H\<rparr> \<lparr>ss = noenable q st, hand = H\<rparr>"
| s_enableok: "q < v_nqueue st \<Longrightarrow> sstep cfg nd \<lparr>ss = st, hand = H\<rparr> \<lparr>ss = enableok q st, hand = H\<rparr>"
| s_dispatch: "qhead st = Some q \<Longrightarrow> sstep cfg nd \<lparr>ss = st, hand = H\<rparr> \<lparr>ss = popped q st, hand = H\<rparr>"

inductive_cases sstepE: "sstep cfg nd s s'"

text \<open>The start: the pool as \<open>strinit\<close> leaves it, the queues empty and plumbed together.\<close>

definition str_idle :: "strcfg \<Rightarrow> nat \<Rightarrow> strst \<Rightarrow> bool" where
  "str_idle cfg nd st \<longleftrightarrow> (\<exists>D. pool_ok cfg nd st (rev [0 ..< nmblock cfg]) D {}) \<and> qhead st = None \<and> qtail st = None \<and> plumbed st \<and>
     (\<forall>q < v_nqueue st. q_first (queues st q) = None \<and> q_last (queues st q) = None \<and> q_count (queues st q) = 0 \<and>
       0 \<le> q_lowat (queues st q) \<and> q_lowat (queues st q) < q_hiwat (queues st q) \<and> \<not> q_is st q QENAB \<and> \<not> q_is st q QFULL \<and> \<not> q_is st q QWANTW)"

definition sstart :: "strcfg \<Rightarrow> nat \<Rightarrow> strsys \<Rightarrow> bool" where
  "sstart cfg nd s \<longleftrightarrow> str_idle cfg nd (ss s) \<and> hand s = {}"

definition str_ok :: "strcfg \<Rightarrow> nat \<Rightarrow> strsys \<Rightarrow> bool" where
  "str_ok cfg nd s \<longleftrightarrow> (\<exists>H Q R. sinv cfg nd (ss s) H Q R \<and> hand s = hd ` set H)"

section \<open>The invariant of the system\<close>

lemma idle_sinv:
  assumes "str_idle cfg nd st"
  shows "sinv cfg nd st [] (\<lambda>q. []) []"
proof -
  obtain D where D: "pool_ok cfg nd st (rev [0 ..< nmblock cfg]) D {}" using assms by (auto simp: str_idle_def)
  have "queued n (\<lambda>q. []) = []" for n by (induction n) (simp_all add: queued_def)
  then have "pool_part cfg nd st ([] @ queued (v_nqueue st) (\<lambda>q. []))" using D by (auto simp: pool_part_def intro!: exI [of _ "rev [0 ..< nmblock cfg]"])
  moreover have "queue_ok cfg st q []" if "q < v_nqueue st" for q
    using assms that by (auto simp: str_idle_def queue_ok_def qmsgs_def qlist_def ordered_def flow_ok_def)
  moreover have "runlist st []" using assms by (auto simp: str_idle_def runlist_def)
  ultimately show ?thesis using assms by (simp add: sinv_def str_idle_def)
qed

text \<open>The first blocks of held messages are different, so a message is known by its first block.\<close>

lemma held_hand:
  assumes I: "sinv cfg nd st H Q R" and b: "b \<in> hd ` set H"
  obtains m H' where "sinv cfg nd st (m # H') Q R" "b = hd m" "set H = insert m (set H')" "hd ` set H' = hd ` set H - {b}" "msg_at cfg st b = Some m"
proof -
  obtain m where m: "m \<in> set H" "b = hd m" using b by auto
  let ?H = "remove1 m H"
  have I': "sinv cfg nd st (m # ?H) Q R" by (rule sinv_pick [OF I m(1)])
  have s: "set H = insert m (set ?H)"
  proof -
    have "mset (m # ?H) = mset H" using m(1) by simp
    then show ?thesis by (metis list.simps(15) mset_eq_setD)
  qed
  have "hd m \<notin> hd ` set ?H"
  proof
    assume "hd m \<in> hd ` set ?H"
    then obtain n where n: "n \<in> set ?H" "hd n = hd m" by auto
    have "hd n \<in> set n" "hd m \<in> set m" using messageD(5) [OF sinvD(8) [OF I']] n(1) by auto
    then show False using sinvD(7) [OF I'] n by auto
  qed
  then have h: "hd ` set ?H = hd ` set H - {b}" using s m(2) by auto
  have w: "message cfg st m" by (rule sinvD(8) [OF I m(1)])
  have "msg_at cfg st b = Some m" using walk_linked [OF messageD(2) [OF w] messageD(6) [OF w]] m(2) by simp
  then show thesis using that [OF I' m(2) s h] by blast
qed

lemma put_room:
  assumes I: "sinv cfg nd st (m # H) Q R" and q: "q < v_nqueue st" and r: "count_room cfg q (hd m) st" and w: "msg_at cfg st (hd m) = Some m"
  shows "qweight st (m # Q q) < 65536"
  using r w qmsgs_count [OF sinvD(2) [OF I q] flow_okD(1) [OF sinvD(4) [OF I q]]] by (simp add: count_room_def)

lemma pull_room_pos:
  assumes I: "sinv cfg nd st (m # H) Q R" and r: "pull_room cfg (hd m) len st"
  shows "0 < pull_len st m len"
proof -
  obtain F D where F: "pool_ok cfg nd st F D (blocks ((m # H) @ queued (v_nqueue st) Q))" by (rule sinv_pool [OF I])
  have "xmsgsize cfg (hd m) st = Some (int (length (msg_bytes st (lead st m))))"
    by (rule xmsgsize_ok [OF F messageD(2) [OF sinvD(8) [OF I]]]) auto
  then show ?thesis using r by (auto simp: pull_room_def pull_len_def split: if_splits)
qed

lemma dispatch_run: "sinv cfg nd st H Q R \<Longrightarrow> qhead st = Some q \<Longrightarrow> \<exists>R'. R = q # R'"
  using runlistD(6) [OF sinvD(5)] by (cases R) fastforce+

lemma str_okI: "sinv cfg nd st H Q R \<Longrightarrow> h = hd ` set H \<Longrightarrow> str_ok cfg nd \<lparr>ss = st, hand = h\<rparr>"
  by (auto simp: str_ok_def)

lemma str_okE:
  assumes "str_ok cfg nd \<lparr>ss = st, hand = h\<rparr>"
  obtains H Q R where "sinv cfg nd st H Q R" "h = hd ` set H"
  using assms by (auto simp: str_ok_def)

lemma str_heldE:
  assumes "str_ok cfg nd \<lparr>ss = st, hand = h\<rparr>" "b \<in> h"
  obtains m H Q R where "sinv cfg nd st (m # H) Q R" "b = hd m" "h = insert b (hd ` set H)" "h - {b} = hd ` set H" "msg_at cfg st b = Some m"
proof -
  obtain H Q R where I: "sinv cfg nd st H Q R" "h = hd ` set H" by (rule str_okE [OF assms(1)])
  obtain m H' where m: "sinv cfg nd st (m # H') Q R" "b = hd m" "set H = insert m (set H')" "hd ` set H' = hd ` set H - {b}" "msg_at cfg st b = Some m"
    by (rule held_hand [OF I(1) assms(2) [unfolded I(2)]])
  have "h = insert b (hd ` set H')" unfolding I(2) m(3) m(2) by simp
  moreover have "h - {b} = hd ` set H'" unfolding I(2) m(4) ..
  ultimately show thesis by (rule that [OF m(1,2) _ _ m(5)])
qed

lemma listed_queue:
  assumes I: "sinv cfg nd st H Q R" and q: "q < v_nqueue st" and w: "walk (nmblock cfg) (mbnext st) (q_first (queues st q)) = Some xs" and b: "b \<in> set xs"
  obtains ms m ns where "Q q = ms @ m # ns" "hd m = b"
proof -
  note qm = sinvD(2) [OF I q]
  have "linked (mbnext st) (q_first (queues st q)) (map hd (Q q))" by (rule dlinked_linked [OF qlistD(1) [OF qmsgsD(1) [OF qm]]])
  then have "xs = map hd (Q q)" using linked_unique walk_sound [OF w] by blast
  then obtain m where m: "m \<in> set (Q q)" "hd m = b" using b by auto
  from m(1) obtain ms ns where "Q q = ms @ m # ns" by (auto simp: in_set_conv_decomp)
  then show thesis using that m(2) by blast
qed

section \<open>Every call returns and keeps the invariant\<close>

lemma ok_alloc:
  assumes "str_ok cfg nd \<lparr>ss = st, hand = h\<rparr>" "allocb cfg sz pri st = (r, st')"
  shows "str_ok cfg nd \<lparr>ss = st', hand = get_hand r h\<rparr>"
proof -
  obtain H Q R where I: "sinv cfg nd st H Q R" "h = hd ` set H" by (rule str_okE [OF assms(1)])
  show ?thesis
  proof (cases r)
    case None
    then show ?thesis using sinv_alloc [OF I(1) assms(2)] I(2) by (intro str_okI [of cfg nd st' H Q R]) (auto simp: get_hand_def)
  next
    case (Some b)
    then show ?thesis using sinv_alloc [OF I(1) assms(2)] I(2) by (intro str_okI [of cfg nd st' "[b] # H" Q R]) (auto simp: get_hand_def)
  qed
qed

lemma ok_free:
  assumes "str_ok cfg nd \<lparr>ss = st, hand = h\<rparr>" "b \<in> h"
  shows "\<exists>st'. freemsg (nmblock cfg) (Some b) st = Some st' \<and> str_ok cfg nd \<lparr>ss = st', hand = h - {b}\<rparr>"
proof -
  obtain m H Q R where m: "sinv cfg nd st (m # H) Q R" "b = hd m" "h - {b} = hd ` set H" by (rule str_heldE [OF assms])
  obtain st' where "freemsg (nmblock cfg) (Some (hd m)) st = Some st'" "sinv cfg nd st' H Q R" by (rule sinv_free [OF m(1)])
  then show ?thesis using m(2) str_okI [of cfg nd st' H Q R, OF _ m(3)] by simp
qed

lemma ok_copied:
  assumes I: "sinv cfg nd st H Q R"
    and c: "(\<exists>st'. c = Some (None, st') \<and> sinv cfg nd st' H Q R \<and> P' st') \<or> (\<exists>ns st'. c = Some (Some (hd ns), st') \<and> sinv cfg nd st' (ns # H) Q R \<and> P ns st')"
  shows "\<exists>r st'. c = Some (r, st') \<and> str_ok cfg nd \<lparr>ss = st', hand = get_hand r (hd ` set H)\<rparr>"
  using c
proof (elim disjE exE conjE)
  fix st' assume "c = Some (None, st')" "sinv cfg nd st' H Q R"
  then show ?thesis using str_okI [of cfg nd st' H Q R] by (simp add: get_hand_def)
next
  fix ns st' assume "c = Some (Some (hd ns), st')" "sinv cfg nd st' (ns # H) Q R"
  then show ?thesis using str_okI [of cfg nd st' "ns # H" Q R] by (simp add: get_hand_def)
qed

lemma ok_copy:
  assumes "str_ok cfg nd \<lparr>ss = st, hand = h\<rparr>" "b \<in> h"
  shows "\<exists>r st'. copymsg cfg (Some b) st = Some (r, st') \<and> str_ok cfg nd \<lparr>ss = st', hand = get_hand r h\<rparr>"
proof -
  obtain H Q R where I: "sinv cfg nd st H Q R" "h = hd ` set H" by (rule str_okE [OF assms(1)])
  then obtain m where m: "m \<in> set H" "b = hd m" using assms(2) by auto
  show ?thesis using ok_copied [OF I(1) sinv_copymsg [OF I(1) m(1)]] m(2) I(2) by simp
qed

lemma ok_dup:
  assumes "str_ok cfg nd \<lparr>ss = st, hand = h\<rparr>" "b \<in> h" "ref_room cfg nd st"
  shows "\<exists>r st'. dupmsg cfg (Some b) st = Some (r, st') \<and> str_ok cfg nd \<lparr>ss = st', hand = get_hand r h\<rparr>"
proof -
  obtain H Q R where I: "sinv cfg nd st H Q R" "h = hd ` set H" by (rule str_okE [OF assms(1)])
  then obtain m where m: "m \<in> set H" "b = hd m" using assms(2) by auto
  show ?thesis using ok_copied [OF I(1) sinv_dupmsg [OF I(1) m(1) assms(3)]] m(2) I(2) by simp
qed

lemma ok_pull:
  assumes "str_ok cfg nd \<lparr>ss = st, hand = h\<rparr>" "b \<in> h" "pull_room cfg b len st"
  shows "\<exists>r st'. pullupmsg cfg b len st = Some (r, st') \<and> str_ok cfg nd \<lparr>ss = st', hand = h\<rparr>"
proof -
  obtain m H Q R where m: "sinv cfg nd st (m # H) Q R" "b = hd m" "h = insert b (hd ` set H)" by (rule str_heldE [OF assms(1,2)])
  obtain r st' m' where p: "pullupmsg cfg (hd m) len st = Some (r, st')" "sinv cfg nd st' (m' # H) Q R" "hd m' = hd m"
    by (rule sinv_pullup [OF m(1) pull_room_pos [OF m(1) assms(3) [unfolded m(2)]]])
  have "str_ok cfg nd \<lparr>ss = st', hand = h\<rparr>" by (rule str_okI [OF p(2)]) (simp add: m(2,3) p(3))
  then show ?thesis using p(1) m(2) by simp
qed

lemma ok_adj:
  assumes "str_ok cfg nd \<lparr>ss = st, hand = h\<rparr>" "b \<in> h" "0 \<le> len"
  shows "\<exists>r st'. adjmsg cfg b len st = Some (r, st') \<and> str_ok cfg nd \<lparr>ss = st', hand = h\<rparr>"
proof -
  obtain m H Q R where m: "sinv cfg nd st (m # H) Q R" "b = hd m" "h = insert b (hd ` set H)" by (rule str_heldE [OF assms(1,2)])
  obtain st' where p: "adjmsg cfg (hd m) len st = Some (len \<le> int (length (msg_bytes st (lead st m))), st')" "sinv cfg nd st' (m # H) Q R"
    by (rule sinv_adjmsg [OF m(1) assms(3)])
  have "str_ok cfg nd \<lparr>ss = st', hand = h\<rparr>" by (rule str_okI [OF p(2)]) (simp add: m(2,3))
  then show ?thesis using p(1) m(2) by simp
qed

lemma ok_link:
  assumes "str_ok cfg nd \<lparr>ss = st, hand = h\<rparr>" "b \<in> h" "c \<in> h" "b \<noteq> c"
  shows "\<exists>st'. linkb (nmblock cfg) b c st = Some st' \<and> str_ok cfg nd \<lparr>ss = st', hand = h - {c}\<rparr>"
proof -
  obtain n H Q R where n: "sinv cfg nd st (n # H) Q R" "c = hd n" "h - {c} = hd ` set H" by (rule str_heldE [OF assms(1,3)])
  have "b \<in> hd ` set H" unfolding n(3) [symmetric] using assms(2,4) by simp
  then obtain m where m: "m \<in> set H" "b = hd m" by auto
  have "sinv cfg nd st (m # n # remove1 m H) Q R" by (rule sinv_perm [OF n(1)]) (use m(1) in simp)
  then obtain st' where l: "linkb (nmblock cfg) (hd m) (hd n) st = Some st'" "sinv cfg nd st' ((m @ n) # remove1 m H) Q R" by (rule sinv_link)
  have "mset (m # remove1 m H) = mset H" using m(1) by simp
  then have "set H = insert m (set (remove1 m H))" by (metis list.simps(15) mset_eq_setD)
  moreover have "hd (m @ n) = hd m" using messageD(1) [OF sinvD(8) [OF n(1)]] m(1) by auto
  ultimately have "h - {c} = hd ` set ((m @ n) # remove1 m H)" using n(3) by simp
  from str_okI [OF l(2) this] show ?thesis using l(1) m(2) n(2) by simp
qed

lemma ok_fill:
  assumes "str_ok cfg nd \<lparr>ss = st, hand = h\<rparr>" "b \<in> h" "msg_at cfg st b = Some m" "a \<in> set m" "may_fill a d w st"
  shows "str_ok cfg nd \<lparr>ss = mod_fill a d t w f st, hand = h\<rparr>"
proof -
  obtain m' H Q R where m: "sinv cfg nd st (m' # H) Q R" "b = hd m'" "h = insert b (hd ` set H)" "msg_at cfg st b = Some m'" by (rule str_heldE [OF assms(1,2)])
  have a: "a \<in> set m'" using m(4) assms(3,4) by simp
  show ?thesis by (rule str_okI [OF sinv_fill [OF m(1) a assms(5)]]) (simp add: m(2,3))
qed

lemma ok_putq:
  assumes "str_ok cfg nd \<lparr>ss = st, hand = h\<rparr>" "b \<in> h" "q < v_nqueue st" "count_room cfg q b st"
  shows "\<exists>st'. putq cfg q b st = Some st' \<and> str_ok cfg nd \<lparr>ss = st', hand = h - {b}\<rparr>"
proof -
  obtain m H Q R where m: "sinv cfg nd st (m # H) Q R" "b = hd m" "h - {b} = hd ` set H" "msg_at cfg st b = Some m" by (rule str_heldE [OF assms(1,2)])
  obtain st' where p: "putq cfg q (hd m) st = Some st'" "sinv cfg nd st' H (Q(q := put_last st m (Q q))) (if wakes st q (mclass st m) then enq st q R else R)"
    by (rule sinv_putq [OF m(1) assms(3) put_room [OF m(1) assms(3,4) [unfolded m(2)] m(4) [unfolded m(2)]]])
  from str_okI [OF p(2) m(3)] show ?thesis using p(1) m(2) by simp
qed

lemma ok_putbq:
  assumes "str_ok cfg nd \<lparr>ss = st, hand = h\<rparr>" "b \<in> h" "q < v_nqueue st" "count_room cfg q b st"
  shows "\<exists>st'. putbq cfg q b st = Some st' \<and> str_ok cfg nd \<lparr>ss = st', hand = h - {b}\<rparr>"
proof -
  obtain m H Q R where m: "sinv cfg nd st (m # H) Q R" "b = hd m" "h - {b} = hd ` set H" "msg_at cfg st b = Some m" by (rule str_heldE [OF assms(1,2)])
  obtain st' where p: "putbq cfg q (hd m) st = Some st'" "sinv cfg nd st' H (Q(q := put_first st m (Q q))) (if wakes st q (mclass st m) then enq st q R else R)"
    by (rule sinv_putbq [OF m(1) assms(3) put_room [OF m(1) assms(3,4) [unfolded m(2)] m(4) [unfolded m(2)]]])
  from str_okI [OF p(2) m(3)] show ?thesis using p(1) m(2) by simp
qed

lemma ok_getq:
  assumes "str_ok cfg nd \<lparr>ss = st, hand = h\<rparr>" "q < v_nqueue st"
  shows "\<exists>r st'. getq cfg q st = Some (r, st') \<and> str_ok cfg nd \<lparr>ss = st', hand = get_hand r h\<rparr>"
proof -
  obtain H Q R where I: "sinv cfg nd st H Q R" "h = hd ` set H" by (rule str_okE [OF assms(1)])
  show ?thesis
  proof (cases "Q q")
    case Nil
    from str_okI [OF sinv_getq_empty(2) [OF I(1) assms(2) Nil] I(2)] show ?thesis
      using sinv_getq_empty(1) [OF I(1) assms(2) Nil] by (simp add: get_hand_def)
  next
    case (Cons m ms)
    obtain st' where g: "getq cfg q st = Some (Some (hd m), st')"
      "sinv cfg nd st' (m # H) (Q(q := ms)) (if uint16 (qweight st ms) \<le> q_lowat (queues st q) \<and> q_is st q QWANTW then enq_back st q R else R)"
      by (rule sinv_getq [OF I(1) assms(2) Cons])
    have "str_ok cfg nd \<lparr>ss = st', hand = get_hand (Some (hd m)) h\<rparr>" by (rule str_okI [OF g(2)]) (simp add: get_hand_def I(2))
    then show ?thesis using g(1) by simp
  qed
qed

lemma ok_rmvq:
  assumes "str_ok cfg nd \<lparr>ss = st, hand = h\<rparr>" "q < v_nqueue st" "walk (nmblock cfg) (mbnext st) (q_first (queues st q)) = Some xs" "b \<in> set xs"
  shows "\<exists>st'. rmvq cfg q b st = Some st' \<and> str_ok cfg nd \<lparr>ss = st', hand = insert b h\<rparr>"
proof -
  obtain H Q R where I: "sinv cfg nd st H Q R" "h = hd ` set H" by (rule str_okE [OF assms(1)])
  obtain ms m ns where q: "Q q = ms @ m # ns" "hd m = b" by (rule listed_queue [OF I(1) assms(2,3,4)])
  obtain st' where g: "rmvq cfg q (hd m) st = Some st'"
    "sinv cfg nd st' (m # H) (Q(q := ms @ ns)) (if uint16 (qweight st (ms @ ns)) \<le> q_lowat (queues st q) \<and> q_is st q QWANTW then enq_back st q R else R)"
    by (rule sinv_rmvq [OF I(1) assms(2) q(1)])
  have "str_ok cfg nd \<lparr>ss = st', hand = insert b h\<rparr>" by (rule str_okI [OF g(2)]) (simp add: q(2) I(2))
  then show ?thesis using g(1) q(2) by simp
qed

lemma ok_canput:
  assumes "str_ok cfg nd \<lparr>ss = st, hand = h\<rparr>" "q < v_nqueue st"
  shows "\<exists>r st'. canput (Some q) st = Some (r, st') \<and> str_ok cfg nd \<lparr>ss = st', hand = h\<rparr>"
proof -
  obtain H Q R where I: "sinv cfg nd st H Q R" "h = hd ` set H" by (rule str_okE [OF assms(1)])
  obtain t where c: "canput (Some q) st = Some (if q_is st t QFULL then (False, q_on QWANTW t st) else (True, st))"
    "sinv cfg nd (if q_is st t QFULL then q_on QWANTW t st else st) H Q R" by (rule sinv_canput [OF I(1) assms(2)])
  from str_okI [OF c(2) I(2)] show ?thesis using c(1) by (cases "q_is st t QFULL") auto
qed

lemma ok_qenable:
  assumes "str_ok cfg nd \<lparr>ss = st, hand = h\<rparr>" "q < v_nqueue st"
  shows "\<exists>st'. qenable q st = Some st' \<and> str_ok cfg nd \<lparr>ss = st', hand = h\<rparr>"
proof -
  obtain H Q R where I: "sinv cfg nd st H Q R" "h = hd ` set H" by (rule str_okE [OF assms(1)])
  obtain st' where "qenable q st = Some st'" "sinv cfg nd st' H Q (enq st q R)" by (rule sinv_qenable [OF I(1) assms(2)])
  then show ?thesis using str_okI I(2) by blast
qed

lemma ok_marks:
  assumes "str_ok cfg nd \<lparr>ss = st, hand = h\<rparr>" "q < v_nqueue st"
  shows "str_ok cfg nd \<lparr>ss = noenable q st, hand = h\<rparr>" "str_ok cfg nd \<lparr>ss = enableok q st, hand = h\<rparr>"
proof -
  obtain H Q R where I: "sinv cfg nd st H Q R" "h = hd ` set H" by (rule str_okE [OF assms(1)])
  have "sinv cfg nd (noenable q st) H Q R" unfolding noenable_def by (rule sinv_flag [OF I(1) assms(2)]) simp
  from str_okI [OF this I(2)] show "str_ok cfg nd \<lparr>ss = noenable q st, hand = h\<rparr>" .
  from str_okI [OF sinv_enableok [OF I(1) assms(2)] I(2)] show "str_ok cfg nd \<lparr>ss = enableok q st, hand = h\<rparr>" .
qed

lemma ok_dispatch:
  assumes "str_ok cfg nd \<lparr>ss = st, hand = h\<rparr>" "qhead st = Some q"
  shows "str_ok cfg nd \<lparr>ss = popped q st, hand = h\<rparr>"
proof -
  obtain H Q R where I: "sinv cfg nd st H Q R" "h = hd ` set H" by (rule str_okE [OF assms(1)])
  obtain R' where "R = q # R'" using dispatch_run [OF I(1) assms(2)] by blast
  from str_okI [OF sinv_popped [OF I(1) [unfolded this]] I(2)] show ?thesis .
qed

lemma sstep_ok:
  assumes "sstep cfg nd s s'" "str_ok cfg nd s"
  shows "str_ok cfg nd s'"
  using assms
proof (induction rule: sstep.induct)
  case (s_alloc sz pri st r st' H)
  from ok_alloc [OF s_alloc(2,1)] show ?case .
next
  case (s_free b H st st')
  from ok_free [OF s_free(3,1)] show ?case using s_free(2) by auto
next
  case (s_copy b H st r st')
  from ok_copy [OF s_copy(3,1)] show ?case using s_copy(2) by auto
next
  case (s_dup b H st r st')
  from ok_dup [OF s_dup(4,1,2)] show ?case using s_dup(3) by auto
next
  case (s_pull b H len st r st')
  from ok_pull [OF s_pull(4,1,2)] show ?case using s_pull(3) by auto
next
  case (s_adj b H len st r st')
  from ok_adj [OF s_adj(4,1,2)] show ?case using s_adj(3) by auto
next
  case (s_link b H c st st')
  from ok_link [OF s_link(5,1,2,3)] show ?case using s_link(4) by auto
next
  case (s_fill b H st m a d w t f)
  from ok_fill [OF s_fill(5,1,2,3,4)] show ?case .
next
  case (s_putq b H q st st')
  from ok_putq [OF s_putq(5,1,2,3)] show ?case using s_putq(4) by auto
next
  case (s_putbq b H q st st')
  from ok_putbq [OF s_putbq(5,1,2,3)] show ?case using s_putbq(4) by auto
next
  case (s_getq q st r st' H)
  from ok_getq [OF s_getq(3,1)] show ?case using s_getq(2) by auto
next
  case (s_rmvq q st xs b st' H)
  from ok_rmvq [OF s_rmvq(5,1,2,3)] show ?case using s_rmvq(4) by auto
next
  case (s_canput q st r st' H)
  from ok_canput [OF s_canput(3,1)] show ?case using s_canput(2) by auto
next
  case (s_qenable q st st' H)
  from ok_qenable [OF s_qenable(3,1)] show ?case using s_qenable(2) by auto
next
  case (s_noenable q st H)
  from ok_marks(1) [OF s_noenable(2,1)] show ?case .
next
  case (s_enableok q st H)
  from ok_marks(2) [OF s_enableok(2,1)] show ?case .
next
  case (s_dispatch st q H)
  from ok_dispatch [OF s_dispatch(2,1)] show ?case .
qed

lemma sstart_ok: "sstart cfg nd s \<Longrightarrow> str_ok cfg nd s"
  using idle_sinv [of cfg nd "ss s"] by (auto simp: sstart_def str_ok_def intro!: exI [of _ "[]"])

interpretation strs: bounded_system "sstart cfg nd" "sstep cfg nd" "\<lambda>k. str_ok cfg nd" bound for cfg nd bound
  by unfold_locales (auto intro: sstart_ok sstep_ok)

end
