(* ===== verification/StreamReach.thy ===== *)
theory StreamReach
  imports StreamSystem StreamPri
begin

text \<open>
  What holds in every reachable state of the streams: every call returns; copies and pull-ups of held messages; flow
  control; and the order of messages on a queue.
\<close>

section \<open>Reachable states\<close>

definition str_reach :: "strcfg \<Rightarrow> nat \<Rightarrow> strsys \<Rightarrow> bool" where
  "str_reach cfg nd s \<longleftrightarrow> (\<exists>k. run_of (sstart cfg nd) (sstep cfg nd) k s)"

lemma reach_ok: "str_reach cfg nd s \<Longrightarrow> str_ok cfg nd s"
  unfolding str_reach_def by (metis order_refl strs.run_inv)

lemma reach_start: "sstart cfg nd s \<Longrightarrow> str_reach cfg nd s"
  unfolding str_reach_def by (rule exI) (rule run_start)

lemma reach_step: "str_reach cfg nd s \<Longrightarrow> sstep cfg nd s s' \<Longrightarrow> str_reach cfg nd s'"
  unfolding str_reach_def by (elim exE) (rule exI, rule run_step)

lemma reachE:
  assumes "str_reach cfg nd s"
  obtains H Q R where "sinv cfg nd (ss s) H Q R" "hand s = hd ` set H"
  using reach_ok [OF assms] by (auto simp: str_ok_def)

lemma reach_heldE:
  assumes "str_reach cfg nd s" "b \<in> hand s"
  obtains m H Q R where "sinv cfg nd (ss s) (m # H) Q R" "b = hd m" "hand s = insert b (hd ` set H)" "msg_at cfg (ss s) b = Some m"
proof -
  have "\<lparr>ss = ss s, hand = hand s\<rparr> = s" by (cases s) simp
  then have ok: "str_ok cfg nd \<lparr>ss = ss s, hand = hand s\<rparr>" by (rule ssubst) (rule reach_ok [OF assms(1)])
  show thesis by (rule str_heldE [OF ok assms(2)]) (rule that)
qed

text \<open>Every call a module may make returns.\<close>

definition str_returns :: "strcfg \<Rightarrow> nat \<Rightarrow> strst \<Rightarrow> nat set \<Rightarrow> bool" where
  "str_returns cfg nd st h \<longleftrightarrow>
     (\<forall>b\<in>h. freemsg (nmblock cfg) (Some b) st \<noteq> None \<and> copymsg cfg (Some b) st \<noteq> None \<and> (ref_room cfg nd st \<longrightarrow> dupmsg cfg (Some b) st \<noteq> None) \<and>
        (\<forall>len. pull_room cfg b len st \<longrightarrow> pullupmsg cfg b len st \<noteq> None) \<and> (\<forall>len\<ge>0. adjmsg cfg b len st \<noteq> None) \<and>
        (\<forall>c\<in>h - {b}. linkb (nmblock cfg) b c st \<noteq> None) \<and>
        (\<forall>q < v_nqueue st. count_room cfg q b st \<longrightarrow> putq cfg q b st \<noteq> None \<and> putbq cfg q b st \<noteq> None)) \<and>
     (\<forall>q < v_nqueue st. getq cfg q st \<noteq> None \<and> canput (Some q) st \<noteq> None \<and> qenable q st \<noteq> None \<and>
        (\<forall>xs b. walk (nmblock cfg) (mbnext st) (q_first (queues st q)) = Some xs \<longrightarrow> b \<in> set xs \<longrightarrow> rmvq cfg q b st \<noteq> None))"

lemma returns_ok:
  assumes "str_ok cfg nd \<lparr>ss = st, hand = h\<rparr>"
  shows "str_returns cfg nd st h"
  unfolding str_returns_def
proof (intro conjI ballI allI impI)
  fix b assume b: "b \<in> h"
  show "freemsg (nmblock cfg) (Some b) st \<noteq> None" "copymsg cfg (Some b) st \<noteq> None" using ok_free [OF assms b] ok_copy [OF assms b] by auto
  show "dupmsg cfg (Some b) st \<noteq> None" if "ref_room cfg nd st" using ok_dup [OF assms b that] by auto
  show "pullupmsg cfg b len st \<noteq> None" if "pull_room cfg b len st" for len using ok_pull [OF assms b that] by auto
  show "adjmsg cfg b len st \<noteq> None" if "0 \<le> len" for len using ok_adj [OF assms b that] by auto
  show "linkb (nmblock cfg) b c st \<noteq> None" if "c \<in> h - {b}" for c using ok_link [OF assms b, of c] that by auto
  fix q assume q: "q < v_nqueue st" "count_room cfg q b st"
  show "putq cfg q b st \<noteq> None" "putbq cfg q b st \<noteq> None" using ok_putq [OF assms b q] ok_putbq [OF assms b q] by auto
next
  fix q assume q: "q < v_nqueue st"
  show "getq cfg q st \<noteq> None" "canput (Some q) st \<noteq> None" "qenable q st \<noteq> None"
    using ok_getq [OF assms q] ok_canput [OF assms q] ok_qenable [OF assms q] by auto
  fix xs b assume "walk (nmblock cfg) (mbnext st) (q_first (queues st q)) = Some xs" "b \<in> set xs"
  then show "rmvq cfg q b st \<noteq> None" using ok_rmvq [OF assms q] by auto
qed

section \<open>Copies and pull-ups of held messages\<close>

text \<open>The types and the bytes of the blocks of a message.\<close>

definition msg_data :: "strst \<Rightarrow> nat list \<Rightarrow> (u8 option \<times> u8 list) list" where
  "msg_data st m = map (\<lambda>b. (btype st b, bytes st b)) m"

text \<open>Every other message a module holds, and the blocks and the queues of every queued one, are as before.\<close>

definition others_same :: "strcfg \<Rightarrow> strst \<Rightarrow> strst \<Rightarrow> nat set \<Rightarrow> bool" where
  "others_same cfg st st' h \<longleftrightarrow> queues st' = queues st \<and> (\<forall>c\<in>h. \<exists>m. msg_at cfg st c = Some m \<and> msg_at cfg st' c = Some m \<and> msg_data st' m = msg_data st m)"

lemma keeps_data:
  assumes I: "sinv cfg nd st H Q R" and k: "keeps st st' S" and m: "m \<in> set H" "set m \<subseteq> S"
  shows "msg_at cfg st (hd m) = Some m" "msg_at cfg st' (hd m) = Some m" "msg_data st' m = msg_data st m"
proof -
  obtain F D where F: "pool_ok cfg nd st F D (blocks (H @ queued (v_nqueue st) Q))" by (rule sinv_pool [OF I])
  have w: "message cfg st m" by (rule sinvD(8) [OF I m(1)])
  note w' = keeps_message(1) [OF k w m(2)]
  show "msg_at cfg st (hd m) = Some m" by (rule walk_linked [OF messageD(2,6) [OF w]])
  show "msg_at cfg st' (hd m) = Some m" by (rule walk_linked [OF messageD(2,6) [OF w']])
  have "btype st' b = btype st b \<and> bytes st' b = bytes st b" if b: "b \<in> set m" for b
  proof -
    have "b \<in> S" "b \<in> blocks (H @ queued (v_nqueue st) Q)" using b m blocks_in [OF m(1)] by auto
    then show ?thesis using keepsD(4) [OF k] keeps_bytes [OF k _ pool_okD(4) [OF F]] by blast
  qed
  then show "msg_data st' m = msg_data st m" by (simp add: msg_data_def)
qed

lemma keeps_others:
  assumes I: "sinv cfg nd st H Q R" and k: "keeps st st' S" and h: "\<forall>c\<in>h. \<exists>m\<in>set H. c = hd m \<and> set m \<subseteq> S"
  shows "others_same cfg st st' h"
  unfolding others_same_def
proof (intro conjI ballI)
  show "queues st' = queues st" by (rule keepsD(6) [OF k])
  fix c assume "c \<in> h"
  then obtain m where m: "m \<in> set H" "c = hd m" "set m \<subseteq> S" using h by blast
  show "\<exists>m. msg_at cfg st c = Some m \<and> msg_at cfg st' c = Some m \<and> msg_data st' m = msg_data st m"
    using keeps_data [OF I k m(1,3)] m(2) by blast
qed

definition copied :: "strcfg \<Rightarrow> strst \<Rightarrow> nat \<Rightarrow> nat set \<Rightarrow> ptr \<Rightarrow> strst \<Rightarrow> bool" where
  "copied cfg st b h r st' \<longleftrightarrow> others_same cfg st st' h \<and> (case r of None \<Rightarrow> True
     | Some n \<Rightarrow> n \<notin> h \<and> (\<exists>m ns. msg_at cfg st b = Some m \<and> msg_at cfg st' n = Some ns \<and> set ns \<inter> set m = {} \<and> msg_data st' ns = msg_data st m))"

lemma copied_reach:
  assumes I: "sinv cfg nd st H Q R" and m: "m \<in> set H"
    and c: "(\<exists>st'. c = Some (None, st') \<and> sinv cfg nd st' H Q R \<and> keeps st st' (blocks (H @ queued (v_nqueue st) Q))) \<or>
      (\<exists>ns st'. c = Some (Some (hd ns), st') \<and> sinv cfg nd st' (ns # H) Q R \<and> list_all2 (data_alike st') m ns \<and> set ns \<inter> blocks H = {} \<and>
         keeps st st' (blocks (H @ queued (v_nqueue st) Q)))"
  shows "\<exists>r st'. c = Some (r, st') \<and> copied cfg st (hd m) (hd ` set H) r st'"
proof -
  have o: "others_same cfg st st' (hd ` set H)" if "keeps st st' (blocks (H @ queued (v_nqueue st) Q))" for st'
    by (rule keeps_others [OF I that]) (use blocks_in in fastforce)
  from c show ?thesis
  proof (elim disjE exE conjE)
    fix st' assume "c = Some (None, st')" "keeps st st' (blocks (H @ queued (v_nqueue st) Q))"
    then show ?thesis using o by (auto simp: copied_def)
  next
    fix ns st'
    assume a: "c = Some (Some (hd ns), st')" "sinv cfg nd st' (ns # H) Q R" "list_all2 (data_alike st') m ns" "set ns \<inter> blocks H = {}"
      "keeps st st' (blocks (H @ queued (v_nqueue st) Q))"
    have sub: "set m \<subseteq> blocks (H @ queued (v_nqueue st) Q)" using blocks_in [OF m] by auto
    note K = keeps_data [OF I a(5) m sub]
    have n: "message cfg st' ns" using sinvD(8) [OF a(2)] by simp
    have "msg_at cfg st' (hd ns) = Some ns" by (rule walk_linked [OF messageD(2,6) [OF n]])
    moreover have "msg_data st' ns = msg_data st' m" unfolding msg_data_def using a(3) by (induction m ns rule: list_all2_induct) auto
    moreover have "set ns \<inter> set m = {}" using a(4) blocks_in [OF m] by auto
    moreover have "hd ns \<notin> hd ` set H"
    proof
      assume "hd ns \<in> hd ` set H"
      then obtain x where "x \<in> set H" "hd x = hd ns" by auto
      then have "hd ns \<in> blocks H" using messageD(5) [OF sinvD(8) [OF I]] blocks_in [of x H] by (metis subsetD)
      then show False using a(4) messageD(5) [OF n] by auto
    qed
    ultimately show ?thesis using a(1) o [OF a(5)] K by (auto simp: copied_def)
  qed
qed

lemma copymsg_reach:
  assumes "str_reach cfg nd s" "b \<in> hand s"
  shows "\<exists>r st'. copymsg cfg (Some b) (ss s) = Some (r, st') \<and> copied cfg (ss s) b (hand s) r st'"
proof -
  obtain H Q R where I: "sinv cfg nd (ss s) H Q R" "hand s = hd ` set H" by (rule reachE [OF assms(1)])
  then obtain m where m: "m \<in> set H" "b = hd m" using assms(2) by auto
  show ?thesis using copied_reach [OF I(1) m(1) sinv_copymsg [OF I(1) m(1)]] m(2) I(2) by simp
qed

lemma dupmsg_reach:
  assumes "str_reach cfg nd s" "b \<in> hand s" "ref_room cfg nd (ss s)"
  shows "\<exists>r st'. dupmsg cfg (Some b) (ss s) = Some (r, st') \<and> copied cfg (ss s) b (hand s) r st'"
proof -
  obtain H Q R where I: "sinv cfg nd (ss s) H Q R" "hand s = hd ` set H" by (rule reachE [OF assms(1)])
  then obtain m where m: "m \<in> set H" "b = hd m" using assms(2) by auto
  show ?thesis using copied_reach [OF I(1) m(1) sinv_dupmsg [OF I(1) m(1) assms(3)]] m(2) I(2) by simp
qed

lemma pullup_reach:
  assumes "str_reach cfg nd s" "b \<in> hand s" "pull_room cfg b len (ss s)"
  shows "\<exists>r st' m m'. pullupmsg cfg b len (ss s) = Some (r, st') \<and> msg_at cfg (ss s) b = Some m \<and> msg_at cfg st' b = Some m' \<and>
    msg_bytes st' m' = msg_bytes (ss s) m \<and> btype st' b = btype (ss s) b \<and> others_same cfg (ss s) st' (hand s - {b}) \<and>
    (r \<longrightarrow> pull_len (ss s) m len \<le> int (length (bytes st' b)) \<and> str_aligned (b_rptr (mblock st' b)))"
proof -
  obtain m H Q R where m: "sinv cfg nd (ss s) (m # H) Q R" "b = hd m" "hand s = insert b (hd ` set H)" "msg_at cfg (ss s) b = Some m"
    by (rule reach_heldE [OF assms(1,2)])
  obtain r st' m' where p: "pullupmsg cfg (hd m) len (ss s) = Some (r, st')" "sinv cfg nd st' (m' # H) Q R" "hd m' = hd m"
    "msg_bytes st' m' = msg_bytes (ss s) m" "r \<longrightarrow> pull_len (ss s) m len \<le> int (length (bytes st' (hd m))) \<and> str_aligned (b_rptr (mblock st' (hd m)))"
    "btype st' (hd m) = btype (ss s) (hd m)" "keeps (ss s) st' (blocks (H @ queued (v_nqueue (ss s)) Q))"
    by (rule sinv_pullup [OF m(1) pull_room_pos [OF m(1) assms(3) [unfolded m(2)]]])
  have w: "message cfg st' m'" using sinvD(8) [OF p(2)] by simp
  have "msg_at cfg st' b = Some m'" using walk_linked [OF messageD(2,6) [OF w]] p(3) m(2) by simp
  moreover have "others_same cfg (ss s) st' (hand s - {b})"
    by (rule keeps_others [OF m(1) p(7)]) (use m(3) blocks_in [of _ H] in fastforce)
  ultimately show ?thesis using p m by blast
qed

section \<open>Flow control\<close>

text \<open>The nearest queue behind \<open>q\<close> that has a service procedure, if any, is scheduled.\<close>

definition back_scheduled :: "nat \<Rightarrow> strst \<Rightarrow> strst \<Rightarrow> bool" where
  "back_scheduled q st st' \<longleftrightarrow> (\<exists>a. back_srv (v_nqueue st) (backq st q) st = Some a \<and> (case a of None \<Rightarrow> True | Some p \<Rightarrow> q_is st' p QENAB))"

lemma enq_back_scheduled:
  assumes p: "plumbed st" "q < v_nqueue st" and R: "runlist st R" and R': "runlist st' (enq_back st q R)"
  shows "back_scheduled q st st'"
proof -
  obtain a where a: "back_srv (v_nqueue st) (backq st q) st = Some a" "\<forall>p. a = Some p \<longrightarrow> p < v_nqueue st \<and> (\<exists>f. srvp st p = Some (Some f))"
    by (rule plumbed_back_srv [OF p])
  have "q_is st' x QENAB" if "a = Some x" for x
  proof -
    have "x \<in> set (enq_back st q R)" using a that by (auto simp: enq_back_def back_of_def enq_def)
    then show ?thesis using runlistD(3) [OF R'] by blast
  qed
  then show ?thesis using a(1) by (auto simp: back_scheduled_def split: option.splits)
qed

definition flow_flags :: "strst \<Rightarrow> nat \<Rightarrow> bool" where
  "flow_flags st q \<longleftrightarrow> (q_is st q QFULL \<longleftrightarrow> q_hiwat (queues st q) \<le> q_count (queues st q)) \<and>
     (q_is st q QWANTW \<longrightarrow> q_lowat (queues st q) < q_count (queues st q))"

lemma sinv_flags:
  assumes "sinv cfg nd st H Q R" "q < v_nqueue st"
  shows "flow_flags st q" "q_count (queues st q) = qweight st (Q q)"
proof -
  note f = sinvD(4) [OF assms]
  show c: "q_count (queues st q) = qweight st (Q q)" by (rule qmsgs_count [OF sinvD(2) [OF assms] flow_okD(1) [OF f]])
  show "flow_flags st q" using flow_okD(4,5) [OF f] c by (auto simp: flow_flags_def)
qed

lemma getq_flow:
  assumes "str_reach cfg nd s" "q < v_nqueue (ss s)"
  shows "flow_flags (ss s) q \<and> (\<exists>r st'. getq cfg q (ss s) = Some (r, st') \<and> flow_flags st' q \<and>
    (q_is (ss s) q QWANTW \<and> q_count (queues st' q) \<le> q_lowat (queues (ss s) q) \<longrightarrow> \<not> q_is st' q QWANTW \<and> back_scheduled q (ss s) st'))"
proof -
  obtain H Q R where I: "sinv cfg nd (ss s) H Q R" by (rule reachE [OF assms(1)])
  have "\<exists>r st'. getq cfg q (ss s) = Some (r, st') \<and> flow_flags st' q \<and>
    (q_is (ss s) q QWANTW \<and> q_count (queues st' q) \<le> q_lowat (queues (ss s) q) \<longrightarrow> \<not> q_is st' q QWANTW \<and> back_scheduled q (ss s) st')"
  proof (cases "Q q")
    case Nil
    let ?s = "q_on QWANTR q (ss s)"
    have w: "\<not> q_is (ss s) q QWANTW" using sinv_flags [OF I assms(2)] flow_okD(2) [OF sinvD(4) [OF I assms(2)]] Nil by (auto simp: flow_flags_def)
    have "flow_flags ?s q" by (rule sinv_flags(1) [OF sinv_getq_empty(2) [OF I assms(2) Nil]]) (use assms(2) in simp)
    then show ?thesis using sinv_getq_empty(1) [OF I assms(2) Nil] w by simp
  next
    case (Cons m ms)
    let ?d = "uint16 (qweight (ss s) ms) \<le> q_lowat (queues (ss s) q) \<and> q_is (ss s) q QWANTW"
    obtain st' where g: "getq cfg q (ss s) = Some (Some (hd m), st')" "sinv cfg nd st' (m # H) (Q(q := ms)) (if ?d then enq_back (ss s) q R else R)"
      "drained True q (ss s) st'" by (rule sinv_getq [OF I assms(2) Cons])
    obtain st1 where g1: "getq cfg q (ss s) = Some (Some (hd m), st1)" "q_frame (ss s) st1 q (hd ` set (m # ms))"
      by (rule getq_some [OF _ sinvD(5,6) [OF I] assms(2), of cfg m ms]) (use sinvD(2) [OF I assms(2)] Cons in auto)
    have fr: "q_frame (ss s) st' q (hd ` set (m # ms))" using g1 g(1) by simp
    then have s: "pool_same (ss s) st'" "plumb_same (ss s) st'" by (simp_all add: q_frame_def)
    have q': "q < v_nqueue st'" using assms(2) plumb_same_view(4) [OF s(2)] by simp
    note F = sinv_flags [OF g(2) q']
    have "back_scheduled q (ss s) st'" if ?d by (rule enq_back_scheduled [OF sinvD(6) [OF I] assms(2) sinvD(5) [OF I]]) (use sinvD(5) [OF g(2)] that in simp)
    moreover have "q_count (queues st' q) = uint16 (qweight (ss s) ms)"
      using qmsgsD(3) [OF sinvD(2) [OF g(2) q']] qweight_same [OF s(1)] by simp
    ultimately show ?thesis using g(1) F(1) g(3) by (auto simp: drained_def)
  qed
  then show ?thesis using sinv_flags(1) [OF I assms(2)] by blast
qed

section \<open>A queue filled and emptied\<close>

primrec putq_all :: "strcfg \<Rightarrow> nat \<Rightarrow> nat list \<Rightarrow> strst \<Rightarrow> strst option" where
  "putq_all cfg q [] st = Some st"
| "putq_all cfg q (b # bs) st = do { st1 \<leftarrow> putq cfg q b st; putq_all cfg q bs st1 }"

primrec getq_all :: "strcfg \<Rightarrow> nat \<Rightarrow> nat \<Rightarrow> strst \<Rightarrow> (ptr list \<times> strst) option" where
  "getq_all cfg q 0 st = Some ([], st)"
| "getq_all cfg q (Suc n) st = do { (r, st1) \<leftarrow> getq cfg q st; (rs, st2) \<leftarrow> getq_all cfg q n st1; Some (r # rs, st2) }"

lemma putq_all_eq: "strq.put_all cfg q ms = putq_all cfg q (map hd ms)"
proof (induction ms)
  case (Cons m ms)
  show ?case by (rule ext) (simp add: Cons)
qed (rule ext, simp)

lemma getq_all_eq: "strq.get_all cfg q n = getq_all cfg q n"
proof (induction n)
  case (Suc n)
  show ?case by (rule ext) (simp add: Suc)
qed (rule ext, simp)

text \<open>Held messages put on an empty queue come off by class, and in their order within a class.\<close>

lemma putq_getq_all:
  assumes s: "str_reach cfg nd s" and q: "q < v_nqueue (ss s)" "q_first (queues (ss s) q) = None"
    and b: "set bs \<subseteq> hand s" "distinct bs" "sum_list (map (\<lambda>b. weight (ss s) (the (msg_at cfg (ss s) b))) bs) < 65536"
  shows "\<exists>st1 ks st2. putq_all cfg q bs (ss s) = Some st1 \<and> getq_all cfg q (length bs) st1 = Some (map Some ks, st2) \<and>
    sorted_wrt (\<lambda>a b. the (queclass (ss s) b) \<le> the (queclass (ss s) a)) ks \<and>
    (\<forall>c. filter (\<lambda>a. queclass (ss s) a = Some c) ks = filter (\<lambda>a. queclass (ss s) a = Some c) bs)"
proof -
  let ?st = "ss s"
  obtain H Q R where I: "sinv cfg nd ?st H Q R" "hand s = hd ` set H" by (rule reachE [OF s])
  have Qe: "Q q = []" using qlistD(2) [OF qmsgsD(1) [OF sinvD(2) [OF I(1) q(1)]]] q(2) by (cases "Q q") simp_all
  define ns where "ns = map (\<lambda>b. the (msg_at cfg ?st b)) bs"
  have held: "\<exists>m\<in>set H. b = hd m \<and> msg_at cfg ?st b = Some m \<and> message cfg ?st m" if x: "b \<in> set bs" for b
  proof -
    have "b \<in> hd ` set H" using x b(1) I(2) by auto
    then obtain m where m: "m \<in> set H" "b = hd m" by auto
    have w: "message cfg ?st m" by (rule sinvD(8) [OF I(1) m(1)])
    then show ?thesis using m walk_linked [OF messageD(2,6) [OF w]] by auto
  qed
  have hd_ns: "map hd ns = bs" unfolding ns_def map_map by (rule map_idI) (use held in fastforce)
  have msgs: "message cfg ?st n" if "n \<in> set ns" for n using that held by (fastforce simp: ns_def)
  have rep: "prep cfg ?st q ?st []"
    unfolding prep_def using sinvD(2,3,4,5,6) [OF I(1)] q(1) Qe by (metis plumb_same_refl pool_same_refl)
  have fits: "pfits cfg ?st ns" unfolding pfits_def qweight_def using msgs hd_ns b(2,3) by (simp add: ns_def o_def)
  obtain st1 st2 L where L: "strq.put_all cfg q ns ?st = Some st1" "strq.get_all cfg q (length ns) st1 = Some (map (Some \<circ> hd) L, st2)"
    "sorted_wrt (\<lambda>a b. mclass ?st b \<le> mclass ?st a) L" "\<forall>c. filter (\<lambda>a. mclass ?st a = c) L = filter (\<lambda>a. mclass ?st a = c) ns"
    by (rule strq.put_get_all [OF rep fits])
  have Lm: "queclass ?st (hd m) = Some (mclass ?st m)" if "m \<in> set ns" for m by (rule mclass_eq [OF msgs [OF that]])
  have LL: "m \<in> set ns" if "m \<in> set L" for m
  proof -
    have "m \<in> set (filter (\<lambda>a. mclass ?st a = mclass ?st m) L)" using that by simp
    then show ?thesis using L(4) by simp
  qed
  have f: "filter (\<lambda>a. queclass ?st a = Some c) (map hd xs) = map hd (filter (\<lambda>a. mclass ?st a = c) xs)" if "set xs \<subseteq> set ns" for c xs
    unfolding filter_map o_def by (rule arg_cong [of _ _ "map hd"]) (rule filter_cong [OF refl], use that Lm in auto)
  have "length ns = length bs" by (simp add: ns_def)
  then have "getq_all cfg q (length bs) st1 = Some (map Some (map hd L), st2)" using L(2) by (simp add: getq_all_eq)
  moreover have "putq_all cfg q bs ?st = Some st1" using L(1) hd_ns by (simp add: putq_all_eq)
  moreover have "sorted_wrt (\<lambda>a b. the (queclass ?st b) \<le> the (queclass ?st a)) (map hd L)"
    unfolding sorted_wrt_map using L(3) by (simp add: mclass_def)
  moreover have "filter (\<lambda>a. queclass ?st a = Some c) (map hd L) = filter (\<lambda>a. queclass ?st a = Some c) bs" for c
    using f [of L c] f [of ns c] L(4) LL hd_ns by auto
  ultimately show ?thesis by blast
qed

end
