(* ===== verification/StreamSys.thy ===== *)
theory StreamSys
  imports StreamReach StreamServe
begin

text \<open>
  The properties of the STREAMS system, with runs on a small configuration: six message blocks, ten data blocks of four
  bytes, and two pairs of queues, the lower pair plumbed under the upper one.
\<close>

section \<open>A small system\<close>

definition demo_queue :: "nat \<Rightarrow> queue" where
  "demo_queue q = \<lparr>q_qinfo = Some \<lparr>qi_putp = q, qi_srvp = Some q, qi_qadmin = None, qi_minfo = \<lparr>mi_idnum = 1, mi_idname = []\<rparr>\<rparr>,
     q_first = None, q_last = None, q_next = (if q = 1 then Some 3 else if q = 2 then Some 0 else None), q_link = None, q_ptr = 0, q_count = 0,
     q_flag = (if even q then QUSE OR QREADR else QUSE), q_minpsz = 0, q_maxpsz = 100, q_hiwat = 8, q_lowat = 4\<rparr>"

definition demo_net :: strst where "demo_net = demo_str\<lparr>queues := demo_queue\<rparr>"

lemma demo_sel:
  "queues demo_net = demo_queue" "v_nqueue demo_net = 4" "qhead demo_net = None" "qtail demo_net = None" "pool_same demo_str demo_net"
  "mblock demo_net = mblock demo_str"
proof -
  have "v_nqueue demo_str = 4" "qhead demo_str = None" "qtail demo_str = None" by code_simp+
  then show "queues demo_net = demo_queue" "v_nqueue demo_net = 4" "qhead demo_net = None" "qtail demo_net = None" "pool_same demo_str demo_net"
    "mblock demo_net = mblock demo_str" by (simp_all add: demo_net_def pool_same_def)
qed

lemma demo_boot:
  "\<forall>d. db_ref (dblock demo_strboot d) = 0" "\<forall>c. dba_cnt (dballoc demo_strboot c) = 0" "str_room demo_strcfg demo_strboot"
  "blocks_of (v_nblk demo_strboot) NCLASS = 10"
proof -
  show "\<forall>d. db_ref (dblock demo_strboot d) = 0" "\<forall>c. dba_cnt (dballoc demo_strboot c) = 0" by (simp_all add: demo_strboot_def)
  show "str_room demo_strcfg demo_strboot" "blocks_of (v_nblk demo_strboot) NCLASS = 10" by code_simp+
qed

lemma four: "(q::nat) < 4 \<longleftrightarrow> q = 0 \<or> q = 1 \<or> q = 2 \<or> q = 3"
  by auto

lemma demo_plumbed: "plumbed demo_net"
proof -
  have f: "q_flag (demo_queue q) AND QREADR \<noteq> 0 \<longleftrightarrow> even q" for q by (simp add: demo_queue_def QUSE_def QREADR_def)
  have n: "q_next (demo_queue q) = (if q = 1 then Some 3 else if q = 2 then Some 0 else None)" for q by (simp add: demo_queue_def)
  have "backq demo_net q = (if q = 3 then Some 1 else if q = 0 then Some 2 else None)" if "q < 4" for q
    using that unfolding four by (elim disjE) (simp_all add: backq_def otherq_def demo_sel f n)
  then have "ranked 4 (backq demo_net)" unfolding ranked_def
    by (intro exI [of _ "\<lambda>q. if q = 3 \<or> q = 0 then 1 else 0"]) simp
  moreover have "ranked 4 (\<lambda>q. q_next (queues demo_net q))" unfolding ranked_def
    by (intro exI [of _ "\<lambda>q. if q = 1 \<or> q = 2 then 1 else 0"]) (simp add: demo_sel n)
  ultimately show ?thesis by (simp add: plumbed_def demo_sel) (simp add: demo_queue_def)
qed

lemma demo_idle: "str_idle demo_strcfg 10 demo_net"
proof -
  obtain D where "pool_ok demo_strcfg 10 demo_str (rev [0 ..< nmblock demo_strcfg]) D {}"
    using strinit_ok [OF demo_boot(1-3), of 8192] by (auto simp: demo_boot(4) demo_str_def)
  then have "pool_ok demo_strcfg 10 demo_net (rev [0 ..< nmblock demo_strcfg]) D {}" by (rule pool_same_ok) (simp_all add: demo_sel)
  moreover have "q_flag (demo_queue q) AND QENAB = 0 \<and> q_flag (demo_queue q) AND QFULL = 0 \<and> q_flag (demo_queue q) AND QWANTW = 0" for q
    by (simp add: demo_queue_def QUSE_def QREADR_def QENAB_def QFULL_def QWANTW_def)
  ultimately show ?thesis using demo_plumbed by (auto simp: str_idle_def demo_sel) (simp_all add: demo_queue_def)
qed


text \<open>Three blocks taken, two of them filled: a priority message in one, data in the other.\<close>

definition demo_get :: "strst \<Rightarrow> strst" where "demo_get st = snd (allocb demo_strcfg 4 BPRI_MED st)"

definition demo_three :: strst where "demo_three = demo_get (demo_get (demo_get demo_net))"

definition demo_mod :: "nat \<Rightarrow> nat \<Rightarrow> u8 \<Rightarrow> int \<Rightarrow> strst \<Rightarrow> strst" where
  "demo_mod b d t n st = mod_fill b d t (b_rptr (mblock st b) + n) (\<lambda>a. 65) st"

definition demo_held :: strst where "demo_held = demo_mod 4 8 M_PCPROTO 2 (demo_mod 5 9 M_DATA 2 demo_three)"

lemma get_reach:
  assumes "str_reach demo_strcfg 10 \<lparr>ss = st, hand = h\<rparr>" "fst (allocb demo_strcfg 4 BPRI_MED st) = Some b"
  shows "str_reach demo_strcfg 10 \<lparr>ss = demo_get st, hand = insert b h\<rparr>"
proof -
  have "allocb demo_strcfg 4 BPRI_MED st = (Some b, demo_get st)" using assms(2) by (simp add: demo_get_def prod_eq_iff)
  from reach_step [OF assms(1) s_alloc [OF this]] show ?thesis by (simp add: get_hand_def)
qed

lemma mod_reach:
  assumes "str_reach demo_strcfg 10 \<lparr>ss = st, hand = h\<rparr>" "b \<in> h" "msg_at demo_strcfg st b = Some [b]" "may_fill b d (b_rptr (mblock st b) + n) st"
  shows "str_reach demo_strcfg 10 \<lparr>ss = demo_mod b d t n st, hand = h\<rparr>"
  unfolding demo_mod_def by (rule reach_step [OF assms(1) s_fill [OF assms(2,3) _ assms(4)]]) simp

lemma demo_reach: "str_reach demo_strcfg 10 \<lparr>ss = demo_held, hand = {3, 4, 5}\<rparr>"
proof -
  have 0: "str_reach demo_strcfg 10 \<lparr>ss = demo_net, hand = {}\<rparr>" by (rule reach_start) (simp add: sstart_def demo_idle)
  have 1: "str_reach demo_strcfg 10 \<lparr>ss = demo_get demo_net, hand = {5}\<rparr>" by (rule get_reach [OF 0]) code_simp
  have 2: "str_reach demo_strcfg 10 \<lparr>ss = demo_get (demo_get demo_net), hand = {4, 5}\<rparr>" by (rule get_reach [OF 1]) code_simp
  have 3: "str_reach demo_strcfg 10 \<lparr>ss = demo_three, hand = {3, 4, 5}\<rparr>" unfolding demo_three_def by (rule get_reach [OF 2]) code_simp
  have m5: "msg_at demo_strcfg demo_three 5 = Some [5]" "may_fill 5 9 (b_rptr (mblock demo_three 5) + 2) demo_three" by code_simp+
  have m4: "msg_at demo_strcfg (demo_mod 5 9 M_DATA 2 demo_three) 4 = Some [4]"
    "may_fill 4 8 (b_rptr (mblock (demo_mod 5 9 M_DATA 2 demo_three) 4) + 2) (demo_mod 5 9 M_DATA 2 demo_three)" by code_simp+
  have 4: "str_reach demo_strcfg 10 \<lparr>ss = demo_mod 5 9 M_DATA 2 demo_three, hand = {3, 4, 5}\<rparr>" by (rule mod_reach [OF 3 _ m5]) simp
  show ?thesis unfolding demo_held_def by (rule mod_reach [OF 4 _ m4]) simp
qed

section \<open>Initialisation\<close>



section \<open>Every reachable state\<close>




section \<open>Copying and pulling up\<close>




definition demo_joined :: strst where "demo_joined = the (linkb 6 5 3 (demo_mod 3 7 M_DATA 1 demo_held))"

lemma joined_reach: "str_reach demo_strcfg 10 \<lparr>ss = demo_joined, hand = {4, 5}\<rparr>"
proof -
  have m: "msg_at demo_strcfg demo_held 3 = Some [3]" "may_fill 3 7 (b_rptr (mblock demo_held 3) + 1) demo_held" by code_simp+
  have r: "str_reach demo_strcfg 10 \<lparr>ss = demo_mod 3 7 M_DATA 1 demo_held, hand = {3, 4, 5}\<rparr>" by (rule mod_reach [OF demo_reach _ m]) simp
  have "linkb 6 5 3 (demo_mod 3 7 M_DATA 1 demo_held) \<noteq> None" by code_simp
  then have l: "linkb (nmblock demo_strcfg) 5 3 (demo_mod 3 7 M_DATA 1 demo_held) = Some demo_joined" by (simp add: demo_joined_def demo_strcfg_def)
  have "str_reach demo_strcfg 10 \<lparr>ss = demo_joined, hand = {3, 4, 5} - {3}\<rparr>" by (rule reach_step [OF r s_link [OF _ _ _ l]]) simp_all
  moreover have "{3, 4, 5} - {3} = {4, 5 :: nat}" by auto
  ultimately show ?thesis by simp
qed




section \<open>Order and flow control on a queue\<close>

text \<open>C11. A queue is a priority queue: held messages put by \<open>putq\<close> on an empty queue whose count has room for them come off by
  \<open>getq\<close> all of them, higher classes first, and in the order they were put within a class.\<close>

theorem putq_getq_priority:
  assumes "str_reach cfg nd s" "q < v_nqueue (ss s)" "q_first (queues (ss s) q) = None" "set bs \<subseteq> hand s" "distinct bs"
    "sum_list (map (\<lambda>b. weight (ss s) (the (msg_at cfg (ss s) b))) bs) < 65536"
  shows "\<exists>st1 ks st2. putq_all cfg q bs (ss s) = Some st1 \<and> getq_all cfg q (length bs) st1 = Some (map Some ks, st2) \<and>
    sorted_wrt (\<lambda>a b. the (queclass (ss s) b) \<le> the (queclass (ss s) a)) ks \<and>
    (\<forall>c. filter (\<lambda>a. queclass (ss s) a = Some c) ks = filter (\<lambda>a. queclass (ss s) a = Some c) bs)"
  by (rule putq_getq_all [OF assms])

theorem putq_getq_priority_witness:
  "\<exists>st1 ks st2. putq_all demo_strcfg 3 [5, 4, 3] demo_held = Some st1 \<and> getq_all demo_strcfg 3 3 st1 = Some (map Some ks, st2) \<and>
     filter (\<lambda>a. queclass demo_held a = Some 128) ks = [4] \<and> filter (\<lambda>a. queclass demo_held a = Some 0) ks = [5, 3]"
proof -
  have w: "weight demo_held [5] = 4" "weight demo_held [4] = 4" "weight demo_held [3] = 4" by code_simp+
  have m: "msg_at demo_strcfg demo_held 5 = Some [5]" "msg_at demo_strcfg demo_held 4 = Some [4]" "msg_at demo_strcfg demo_held 3 = Some [3]" by code_simp+
  have c: "queclass demo_held 5 = Some 0" "queclass demo_held 4 = Some 128" "queclass demo_held 3 = Some 0" by code_simp+
  have q: "v_nqueue demo_held = 4" "q_first (queues demo_held 3) = None" by code_simp+
  have "sum_list (map (\<lambda>b. weight demo_held (the (msg_at demo_strcfg demo_held b))) [5, 4, 3]) < 65536" by (simp add: w m)
  then obtain st1 ks st2 where "putq_all demo_strcfg 3 [5, 4, 3] demo_held = Some st1" "getq_all demo_strcfg 3 3 st1 = Some (map Some ks, st2)"
    "\<forall>c. filter (\<lambda>a. queclass demo_held a = Some c) ks = filter (\<lambda>a. queclass demo_held a = Some c) [5, 4, 3]"
    using putq_getq_priority [OF demo_reach, of 3 "[5, 4, 3]"] q by (auto simp: numeral_3_eq_3)
  then show ?thesis using c by (intro exI conjI) (assumption, assumption, simp_all)
qed


definition demo_queued :: "nat \<Rightarrow> strst \<Rightarrow> strst" where "demo_queued b st = the (putq demo_strcfg 3 b st)"
definition demo_full :: strst where "demo_full = snd (the (canput (Some 3) (demo_queued 4 (demo_queued 5 demo_held))))"

lemma queued_reach:
  assumes "str_reach demo_strcfg 10 \<lparr>ss = st, hand = h\<rparr>" "b \<in> h" "3 < v_nqueue st" "msg_at demo_strcfg st b \<noteq> None"
    "q_count (queues st 3) + weight st (the (msg_at demo_strcfg st b)) < 65536" "putq demo_strcfg 3 b st \<noteq> None"
  shows "str_reach demo_strcfg 10 \<lparr>ss = demo_queued b st, hand = h - {b}\<rparr>"
proof -
  have "count_room demo_strcfg 3 b st" using assms(5) by (auto simp: count_room_def)
  moreover have "putq demo_strcfg 3 b st = Some (demo_queued b st)" using assms(6) by (simp add: demo_queued_def)
  ultimately show ?thesis by (rule reach_step [OF assms(1) s_putq [OF assms(2,3)]])
qed

lemma full_reach: "str_reach demo_strcfg 10 \<lparr>ss = demo_full, hand = {3}\<rparr>"
proof -
  have 1: "str_reach demo_strcfg 10 \<lparr>ss = demo_queued 5 demo_held, hand = {3, 4, 5} - {5}\<rparr>" by (rule queued_reach [OF demo_reach], simp) code_simp+
  have 2: "str_reach demo_strcfg 10 \<lparr>ss = demo_queued 4 (demo_queued 5 demo_held), hand = {3, 4, 5} - {5} - {4}\<rparr>"
    by (rule queued_reach [OF 1], simp) code_simp+
  have "3 < v_nqueue (demo_queued 4 (demo_queued 5 demo_held))" "canput (Some 3) (demo_queued 4 (demo_queued 5 demo_held)) \<noteq> None" by code_simp+
  then have "str_reach demo_strcfg 10 \<lparr>ss = demo_full, hand = {3, 4, 5} - {5} - {4}\<rparr>"
    unfolding demo_full_def by (intro reach_step [OF 2 s_canput [of 3 _ "fst (the (canput (Some 3) (demo_queued 4 (demo_queued 5 demo_held))))"]]) auto
  moreover have "{3, 4, 5} - {5} - {4} = {3 :: nat}" by auto
  ultimately show ?thesis by simp
qed


section \<open>Serving the run list\<close>


text \<open>A module whose service procedure at queue 1 passes a message on, while it has one: it enables queue 3.\<close>

definition demo_srv :: "nat \<Rightarrow> nat \<Rightarrow> strst \<Rightarrow> strst option" where
  "demo_srv f q st = (if f = 1 \<and> smem st 0 \<noteq> 0 then qenable 3 (st\<lparr>smem := (smem st)(0 := smem st 0 - 1)\<rparr>) else Some st)"

definition demo_xt :: strext where
  "demo_xt = \<lparr>xt_put = \<lambda>f q b. Some, xt_srv = demo_srv, xt_func = \<lambda>g a. Some\<rparr>"

definition demo_inv :: "strst \<Rightarrow> bool" where "demo_inv st \<longleftrightarrow> v_nqueue st = 4 \<and> srvp st 3 = Some (Some 3)"
definition demo_budget :: "strst \<Rightarrow> nat" where "demo_budget st = unat (smem st 0)"


lemma qenable_bcflag: "qenable q st = Some st' \<Longrightarrow> strbcflag st' = strbcflag st"
  by (auto simp: qenable_def q_on_def upd_qu_def setqsched_def bind_eq_Some_conv Let_def split: if_splits)

lemma demo_srv_ok: "proc_ok demo_inv demo_budget (demo_srv f q) P"
  unfolding proc_ok_def
proof (intro allI impI, elim conjE)
  fix st R assume I: "demo_inv st" and R: "runlist st R"
  show "\<exists>st' R'. demo_srv f q st = Some st' \<and> demo_inv st' \<and> runlist st' (R @ R') \<and> demo_budget st' + length R' + bc st' \<le> demo_budget st + bc st"
  proof (cases "f = 1 \<and> smem st 0 \<noteq> 0")
    case True
    let ?s = "st\<lparr>smem := (smem st)(0 := smem st 0 - 1)\<rparr>"
    have s: "runlist ?s R" "3 < v_nqueue ?s" "srvp ?s 3 = Some (Some 3)"
      using runlist_same [OF R, of ?s] I by (simp_all add: demo_inv_def srvp_def)
    obtain st' where e: "qenable 3 ?s = Some st'" "runlist st' (enq ?s 3 R)" "body_same ?s st'" by (rule qenable_ok [OF s])
    have "smem st' = smem ?s" "plumb_same ?s st'" using e(3) by (simp_all add: body_same_def pool_same_def)
    moreover from this(2) have "srvp st' 3 = srvp ?s 3" "v_nqueue st' = v_nqueue ?s" by (rule plumb_same_view)+
    ultimately have "demo_inv st'" "demo_budget st' = unat (smem st 0 - 1)" using s(2,3) I by (simp_all add: demo_inv_def demo_budget_def)
    moreover have "strbcflag st' = strbcflag st" using qenable_bcflag [OF e(1)] by simp
    moreover have "unat (smem st 0 - 1) + 1 = unat (smem st 0)" using True by (simp add: unat_minus_one unat_gt_0)
    moreover obtain R' where "enq ?s 3 R = R @ R'" "length R' \<le> 1" by (cases "enq ?s 3 R = R") (use that [of "[]"] that [of "[3]"] in \<open>auto simp: enq_def split: if_splits\<close>)
    ultimately show ?thesis using True e(1,2) by (intro exI [of _ st'] exI [of _ R']) (simp add: demo_srv_def demo_budget_def bc_def)
  qed (use I R in \<open>auto simp: demo_srv_def intro: exI [of _ "[]"]\<close>)
qed

lemma demo_procs: "procs_ok demo_inv demo_budget demo_xt"
proof -
  have "proc_ok demo_inv demo_budget Some P" for P by (auto simp: proc_ok_def intro: exI [of _ "[]"])
  moreover have "demo_inv st' \<and> demo_budget st' = demo_budget st" if "body_same st st'" "demo_inv st" for st st'
  proof -
    have p: "smem st' = smem st" "plumb_same st st'" using that(1) by (simp_all add: body_same_def pool_same_def)
    show ?thesis using that(2) p(1) plumb_same_view(1,4) [OF p(2)] by (simp add: demo_inv_def demo_budget_def)
  qed
  ultimately show ?thesis by (simp add: procs_ok_def demo_xt_def demo_srv_ok)
qed

definition demo_sched :: strst where "demo_sched = the (qenable 1 (demo_net\<lparr>smem := \<lambda>a. 1\<rparr>))"


end
