(* ===== verification/Spec2Isabelle.thy ===== *)
theory Spec2Isabelle
  imports Prelude RMap Chains Clist Ipc Sem SemUndo SemPass SemCalls SemSys
    Flock FlockLists FlockBytes FlockAdj FlockLoop FlockBlock FlockInv FlockSleep FlockSys
    Msg MsgInv MsgFree MsgCtl MsgRcv MsgSnd MsgLoop MsgCalls MsgProcs MsgSystem MsgSys
    Stream StreamQ StreamPool StreamCopy StreamPull StreamTrim StreamAdj
    StreamFlags StreamLinks StreamSched StreamServe StreamMsgs StreamGet StreamPut StreamFlow StreamPri StreamInit StreamHeld StreamMove StreamSystem StreamReach StreamSys
begin

text \<open>
  Header to follow.
\<close>

end
